(* ===== verification/Aura_Prelude.thy ===== *)
theory Aura_Prelude
  imports Main Complex_Main "HOL-Library.Word"
begin

text \<open>
  Shared vocabulary of the development: the C integer conversions the engine relies on
  (conversion of a wide value to \<open>int\<close>, truncating division), the errno values it stores,
  the collections of rewrite rules the component theories extend, and the generic facts on
  lists, sums and circular indices that more than one component uses.
\<close>

named_theorems model_defs \<open>definitions unfolded by the functional lemmas of a component\<close>
named_theorems wf_intros \<open>introduction rules for well-formedness invariants\<close>

type_synonym u8 = "8 word"
type_synonym u32 = "32 word"
type_synonym u64 = "64 word"

section \<open>C integer arithmetic\<close>

text \<open>
  Conversion of an integer to the 32-bit type \<open>int\<close>: the value modulo \<open>2 ^ 32\<close> in the
  signed range, as gcc and clang define it.
\<close>

definition c_int :: "int \<Rightarrow> int" where
  "c_int x = (x + 2 ^ 31) mod 2 ^ 32 - 2 ^ 31"

text \<open>Integer division of C truncates towards zero.\<close>

definition c_div :: "int \<Rightarrow> int \<Rightarrow> int" where
  "c_div a b = (if (a < 0) = (b < 0) then \<bar>a\<bar> div \<bar>b\<bar> else - (\<bar>a\<bar> div \<bar>b\<bar>))"

abbreviation INT_MAX :: int where "INT_MAX \<equiv> 2147483647"
abbreviation UINT_MAX :: nat where "UINT_MAX \<equiv> 4294967295"
abbreviation SIZE_MAX :: nat where "SIZE_MAX \<equiv> 18446744073709551615"
abbreviation INT64_MAX :: nat where "INT64_MAX \<equiv> 9223372036854775807"

lemma c_int_range: "- (2 ^ 31) \<le> c_int x \<and> c_int x < 2 ^ 31"
  by (simp add: c_int_def)

lemma c_int_id: "- (2 ^ 31) \<le> x \<Longrightarrow> x < 2 ^ 31 \<Longrightarrow> c_int x = x"
  by (simp add: c_int_def)

lemma c_div_nonneg: "0 \<le> a \<Longrightarrow> 0 < b \<Longrightarrow> c_div a b = a div b"
  by (simp add: c_div_def)

lemma c_div_neg_le: "a < 0 \<Longrightarrow> 0 < b \<Longrightarrow> c_div a b \<le> 0"
  by (simp add: c_div_def pos_imp_zdiv_nonneg_iff)

lemma le_zdiv_iff:
  fixes a c n :: int
  assumes c: "0 < c"
  shows "n \<le> a div c \<longleftrightarrow> n * c \<le> a"
proof
  assume "n \<le> a div c"
  then have "n * c \<le> a div c * c" using c by simp
  also have "\<dots> \<le> a" using c pos_mod_sign[of c a] div_mult_mod_eq[of a c] by linarith
  finally show "n * c \<le> a" .
next
  assume "n * c \<le> a"
  from zdiv_mono1[OF this c] show "n \<le> a div c" using c by simp
qed

lemma zdiv_less_iff:
  fixes a c n :: int
  assumes c: "0 < c"
  shows "a div c < n \<longleftrightarrow> a < n * c"
  using le_zdiv_iff[OF c, of n a] by linarith

section \<open>errno values (Linux)\<close>

abbreviation ENOENT :: int where "ENOENT \<equiv> 2"
abbreviation EINTR :: int where "EINTR \<equiv> 4"
abbreviation EIO :: int where "EIO \<equiv> 5"
abbreviation ENXIO :: int where "ENXIO \<equiv> 6"
abbreviation EAGAIN :: int where "EAGAIN \<equiv> 11"
abbreviation ENOMEM :: int where "ENOMEM \<equiv> 12"
abbreviation EBUSY :: int where "EBUSY \<equiv> 16"
abbreviation EINVAL :: int where "EINVAL \<equiv> 22"
abbreviation ENOSYS :: int where "ENOSYS \<equiv> 38"
abbreviation ETIME :: int where "ETIME \<equiv> 62"
abbreviation EOVERFLOW :: int where "EOVERFLOW \<equiv> 75"
abbreviation ESHUTDOWN :: int where "ESHUTDOWN \<equiv> 108"
abbreviation ETIMEDOUT :: int where "ETIMEDOUT \<equiv> 110"
abbreviation EALREADY :: int where "EALREADY \<equiv> 114"

section \<open>Lists and sums\<close>

lemma sum_list_update_nat:
  fixes xs :: "nat list"
  assumes "i < length xs"
  shows "sum_list (xs[i := v]) + xs ! i = sum_list xs + v"
  using assms
proof (induction xs arbitrary: i)
  case Nil
  then show ?case by simp
next
  case (Cons x xs)
  then show ?case by (cases i) auto
qed

lemma member_le_sum_list_nat:
  fixes xs :: "nat list"
  shows "x \<in> set xs \<Longrightarrow> x \<le> sum_list xs"
  by (induction xs) auto

lemma sum_list_upd_le_nat:
  fixes xs :: "nat list"
  shows "i < length xs \<Longrightarrow> xs ! i \<le> sum_list xs"
  by (simp add: member_le_sum_list_nat)

lemma unat_inc:
  fixes w :: "'a::len word"
  assumes "unat w + 1 < 2 ^ LENGTH('a)"
  shows "unat (w + 1) = unat w + 1"
  using assms by (simp add: unat_word_ariths)

lemma distinct_take_mono: "distinct (take n xs) \<Longrightarrow> m \<le> n \<Longrightarrow> distinct (take m xs)"
  by (metis distinct_take min.absorb1 take_take)

lemma length_filter_update:
  assumes "j < length xs"
  shows "int (length (filter P (xs[j := y]))) = int (length (filter P xs)) - of_bool (P (xs ! j)) + of_bool (P y)"
proof -
  have x: "xs = take j xs @ xs ! j # drop (Suc j) xs" using assms by (rule id_take_nth_drop)
  have y: "xs[j := y] = take j xs @ y # drop (Suc j) xs" using assms by (simp add: upd_conv_take_nth_drop)
  have "length (filter P xs) = length (filter P (take j xs)) + of_bool (P (xs ! j)) + length (filter P (drop (Suc j) xs))"
    by (subst x) simp
  then show ?thesis by (simp add: y)
qed

lemma nth_update_if: "xs[i := y] ! x = (if x = i \<and> i < length xs then y else xs ! x)"
  by (metis list_update_beyond not_less nth_list_update_eq nth_list_update_neq)

lemma filter_remove_nth:
  assumes "n < length xs" "P (xs ! n)" "filter P xs = [y]"
  shows "y = xs ! n" "filter P (take n xs @ drop (Suc n) xs) = []"
proof -
  have "filter P (take n xs) @ xs ! n # filter P (drop (Suc n) xs) = [y]"
    using assms by (metis (no_types, lifting) filter.simps(2) filter_append id_take_nth_drop)
  then show "y = xs ! n" "filter P (take n xs @ drop (Suc n) xs) = []" by (auto simp: append_eq_Cons_conv)
qed

lemma filter_remove_other:
  assumes "n < length xs" "\<not> P (xs ! n)"
  shows "filter P (take n xs @ drop (Suc n) xs) = filter P xs"
  using assms by (metis (no_types, lifting) filter.simps(2) filter_append id_take_nth_drop)

lemma sum_update:
  fixes f :: "'a \<Rightarrow> nat"
  shows "i < length xs \<Longrightarrow> sum_list (map f (xs[i := y])) + f (xs ! i) = sum_list (map f xs) + f y"
  using sum_list_update_nat[of i "map f xs" "f y"] by (simp add: map_update)

lemma chunks_left:
  fixes n m :: nat
  assumes "0 < m" "0 < n"
  shows "(n - min m n + m - 1) div m + 1 = (n + m - 1) div m"
proof (cases "m \<le> n")
  case True
  then obtain q where q: "n = m + q" by (metis le_iff_add)
  have "(n + m - 1) div m = ((q + m - 1) + m) div m" using q assms by (simp add: ac_simps)
  also have "\<dots> = (q + m - 1) div m + 1" using assms by (simp only: div_add_self2)
  finally show ?thesis using q by simp
next
  case False
  then have "(n + m - 1) div m = 1" using assms by (intro div_nat_eqI) auto
  then show ?thesis using False assms by simp
qed

lemma map_same_update: "f x = f (xs ! i) \<Longrightarrow> map f (xs[i := x]) = map f xs"
  by (metis list_update_id map_update)

lemma update_filter_other:
  assumes "j < length bs" "\<not> P (bs ! j)" "\<not> P b"
  shows "filter P (bs[j := b]) = filter P bs"
proof -
  have "bs = take j bs @ bs ! j # drop (Suc j) bs" using assms(1) by (rule id_take_nth_drop)
  then have "filter P bs = filter P (take j bs) @ filter P (drop (Suc j) bs)" using assms(2) by (metis (no_types, lifting) filter.simps(2) filter_append)
  then show ?thesis using assms by (simp add: upd_conv_take_nth_drop)
qed

lemma update_ex_other:
  assumes "j < length bs" "\<not> P (bs ! j)" "\<not> P b"
  shows "(\<exists>x \<in> set (bs[j := b]). P x) \<longleftrightarrow> (\<exists>x \<in> set bs. P x)"
  using update_filter_other[of j bs P b] assms filter_empty_conv[of P bs] filter_empty_conv[of P "bs[j := b]"] by auto

lemma next_chunk:
  assumes "0 < (n :: nat)" "n dvd a" "n dvd b" "a \<le> b" "a \<noteq> b"
  shows "a + n \<le> b"
  using assms by (auto simp: dvd_def) (metis Suc_leI add.commute mult_Suc_right mult_le_mono2 nat_less_le nat_mult_less_cancel_disj)

lemma set_update_other:
  assumes "x \<in> set bs" "j < length bs" "x \<noteq> bs ! j"
  shows "x \<in> set (bs[j := b])"
  using assms by (metis in_set_conv_nth length_list_update nth_list_update_neq)

lemma ex_update:
  assumes "\<exists>x \<in> set bs. P x" "j < length bs" "P (bs ! j) \<Longrightarrow> P b"
  shows "\<exists>x \<in> set (bs[j := b]). P x"
proof -
  obtain x where x: "x \<in> set bs" "P x" using assms(1) by blast
  then show ?thesis using assms(2,3) set_update_other[OF x(1) assms(2)] set_update_memI[OF assms(2)] by (cases "x = bs ! j") auto
qed

end
