(* ===== verification/Copy_Pipeline.thy ===== *)
theory Copy_Pipeline
  imports Aura_Prelude
begin

text \<open>
  The copy tool \<open>auracp\<close> (src/tools/auracp/auracp.c): its task queue, the slots of its
  pipeline, the callbacks and the main loop. The tool is a client of the engine: a submission
  is accepted or refused, and an accepted request completes once, through its callback, in any
  order. Both are arguments here, the answers in \<^typ>\<open>string \<Rightarrow> int\<close> and \<^typ>\<open>nat \<Rightarrow> int\<close> functions, the
  completions in lists of rounds. File contents are lists of bytes under their path and the
  descriptor table gives out the lowest free number, as POSIX has it. Time stamps, permissions and
  progress output are left out.
\<close>

section \<open>Data\<close>

type_synonym byte = "8 word"

record copy_config =
  chunk_size :: nat
  pipeline_depth :: nat
  use_direct :: bool
  no_fsync :: bool
  keep_partial :: bool

record copy_task =
  ft_src_path :: string
  ft_dst_path :: string
  ft_file_size :: nat
  ft_src_fd :: int
  ft_dst_fd :: int
  ft_read_offset :: nat
  ft_bytes_written :: nat
  ft_active_ops :: int
  ft_reads_done :: bool
  ft_done :: bool

text \<open>The linked list of tasks is a list; \<open>current\<close> is an index into it, its length for NULL.\<close>

record copy_queue =
  tq_tasks :: "copy_task list"
  tq_current :: nat
  tq_completed_files :: nat
  tq_total_written :: nat

datatype buf_state = BUF_FREE | BUF_READING | BUF_WRITING | BUF_FSYNCING

record buf_slot =
  bs_buf :: "byte list"
  bs_offset :: nat
  bs_bytes :: nat
  bs_data_bytes :: nat
  bs_state :: buf_state
  bs_task :: "nat option"

record copy_ctx =
  cc_queue :: copy_queue
  cc_slots :: "buf_slot list"
  cc_active_ops :: int
  cc_error :: int

section \<open>Files and requests in flight\<close>

datatype op_kind = OpRead | OpWrite | OpFsync

record io_op =
  op_kind_of :: op_kind
  op_slot :: nat
  op_file :: "string option"
  op_len :: nat
  op_off :: nat

record kernel =
  k_contents :: "string \<Rightarrow> byte list option"
  k_fds :: "string option list"
  k_ops :: "io_op list"
  k_subs :: nat

text \<open>
  The answers of the world: the error of opening a path (0 for success), whether preallocation
  works, the error of a truncation and the error of the \<open>n\<close>-th submission.
\<close>

record copy_env =
  ce_open :: "string \<Rightarrow> int"
  ce_fallocate :: "string \<Rightarrow> bool"
  ce_ftruncate :: "string \<Rightarrow> int"
  ce_admit :: "nat \<Rightarrow> int"

type_synonym copy_state = "copy_ctx \<times> kernel"

definition upd_task :: "nat \<Rightarrow> (copy_task \<Rightarrow> copy_task) \<Rightarrow> copy_ctx \<Rightarrow> copy_ctx" where
  "upd_task k f c = c\<lparr>cc_queue := (cc_queue c)\<lparr>tq_tasks := (tq_tasks (cc_queue c))[k := f (tq_tasks (cc_queue c) ! k)]\<rparr>\<rparr>"

definition upd_slot :: "nat \<Rightarrow> (buf_slot \<Rightarrow> buf_slot) \<Rightarrow> copy_ctx \<Rightarrow> copy_ctx" where
  "upd_slot j f c = c\<lparr>cc_slots := (cc_slots c)[j := f (cc_slots c ! j)]\<rparr>"

abbreviation tasks_of :: "copy_ctx \<Rightarrow> copy_task list" where
  "tasks_of c \<equiv> tq_tasks (cc_queue c)"

definition set_error :: "int \<Rightarrow> copy_ctx \<Rightarrow> copy_ctx" where
  "set_error err c = (if cc_error c = 0 then c\<lparr>cc_error := err\<rparr> else c)"

definition free_slot :: "nat \<Rightarrow> copy_ctx \<Rightarrow> copy_ctx" where
  "free_slot j = upd_slot j (\<lambda>s. s\<lparr>bs_state := BUF_FREE, bs_task := None\<rparr>)"

text \<open>An operation of a task ended: the counters of the context and of the task go down.\<close>

definition op_ended :: "nat \<Rightarrow> copy_ctx \<Rightarrow> copy_ctx" where
  "op_ended k c = upd_task k (\<lambda>t. t\<lparr>ft_active_ops := ft_active_ops t - 1\<rparr>) (c\<lparr>cc_active_ops := cc_active_ops c - 1\<rparr>)"

text \<open>POSIX: writing at an offset fills a gap with zeros; truncating cuts or extends.\<close>

definition pwrite :: "nat \<Rightarrow> byte list \<Rightarrow> byte list \<Rightarrow> byte list" where
  "pwrite off bs xs = take off (xs @ replicate (off - length xs) 0) @ bs @ drop (off + length bs) xs"

definition truncate_to :: "nat \<Rightarrow> byte list \<Rightarrow> byte list" where
  "truncate_to n xs = take n xs @ replicate (n - length xs) 0"

fun lowest_free :: "string option list \<Rightarrow> nat" where
  "lowest_free [] = 0"
| "lowest_free (None # fds) = 0"
| "lowest_free (Some p # fds) = Suc (lowest_free fds)"

definition open_fd :: "string \<Rightarrow> kernel \<Rightarrow> int \<times> kernel" where
  "open_fd p k =
    (let n = lowest_free (k_fds k)
     in (int n, k\<lparr>k_fds := (if n < length (k_fds k) then (k_fds k)[n := Some p] else k_fds k @ [Some p])\<rparr>))"

definition close_fd :: "int \<Rightarrow> kernel \<Rightarrow> kernel" where
  "close_fd fd k = k\<lparr>k_fds := (k_fds k)[nat fd := None]\<rparr>"

definition fd_file :: "int \<Rightarrow> kernel \<Rightarrow> string option" where
  "fd_file fd k = (if 0 \<le> fd \<and> nat fd < length (k_fds k) then k_fds k ! nat fd else None)"

definition submit_io :: "copy_env \<Rightarrow> op_kind \<Rightarrow> nat \<Rightarrow> int \<Rightarrow> nat \<Rightarrow> nat \<Rightarrow> kernel \<Rightarrow> int \<times> kernel" where
  "submit_io env kind j fd len off k =
    (let k' = k\<lparr>k_subs := k_subs k + 1\<rparr>
     in if ce_admit env (k_subs k) \<noteq> 0 then (ce_admit env (k_subs k), k')
        else (0, k'\<lparr>k_ops := k_ops k' @ [\<lparr>op_kind_of = kind, op_slot = j, op_file = fd_file fd k, op_len = len, op_off = off\<rparr>]\<rparr>))"

section \<open>Sizes\<close>

abbreviation SECTOR_SIZE :: nat where "SECTOR_SIZE \<equiv> 512"

text \<open>\<open>round_up_sz\<close> on 64-bit words, for a power of two.\<close>

unbundle bit_operations_syntax

definition round_up_sz :: "64 word \<Rightarrow> 64 word \<Rightarrow> 64 word" where
  "round_up_sz x a = (x + a - 1) AND NOT (a - 1)"

definition io_length :: "copy_config \<Rightarrow> nat \<Rightarrow> nat" where
  "io_length cfg n = (if use_direct cfg then unat (round_up_sz (of_nat n) (of_nat SECTOR_SIZE)) else n)"

section \<open>Tasks\<close>

definition open_task :: "copy_env \<Rightarrow> copy_config \<Rightarrow> nat \<Rightarrow> copy_state \<Rightarrow> bool \<times> copy_state" where
  "open_task env cfg i s =
    (let (c, k) = s; t = tasks_of c ! i
     in if ce_open env (ft_src_path t) \<noteq> 0
        then (False, (upd_task i (\<lambda>t. t\<lparr>ft_src_fd := -1\<rparr>) c, k))
        else let (sfd, k1) = open_fd (ft_src_path t) k
          in if ce_open env (ft_dst_path t) \<noteq> 0
             then (False, (upd_task i (\<lambda>t. t\<lparr>ft_src_fd := -1, ft_dst_fd := -1\<rparr>) c, close_fd sfd k1))
             else let (dfd, k2) = open_fd (ft_dst_path t) k1;
                 content = (if ft_file_size t > 0 \<and> ce_fallocate env (ft_dst_path t) then replicate (ft_file_size t) 0 else [])
               in (True, (upd_task i (\<lambda>t. t\<lparr>ft_src_fd := sfd, ft_dst_fd := dfd\<rparr>) c,
                          k2\<lparr>k_contents := (k_contents k2)(ft_dst_path t := Some content)\<rparr>)))"

definition close_task :: "nat \<Rightarrow> copy_state \<Rightarrow> copy_state" where
  "close_task i s =
    (let (c, k) = s; t = tasks_of c ! i
     in (upd_task i (\<lambda>t. t\<lparr>ft_src_fd := -1, ft_dst_fd := -1, ft_done := True\<rparr>) c,
         close_fd (ft_dst_fd t) (close_fd (ft_src_fd t) k)))"

text \<open>Under \<open>O_DIRECT\<close> the last write was padded: cut the target back to the size of the source.\<close>

definition trim_target :: "copy_env \<Rightarrow> copy_config \<Rightarrow> nat \<Rightarrow> copy_state \<Rightarrow> copy_state" where
  "trim_target env cfg i s =
    (let (c, k) = s; t = tasks_of c ! i;
         path = (case fd_file (ft_dst_fd t) k of Some p \<Rightarrow> p | None \<Rightarrow> [])
     in if use_direct cfg \<and> ft_dst_fd t \<ge> 0
        then if ce_ftruncate env path \<noteq> 0 then (set_error (- ce_ftruncate env path) c, k)
             else (c, k\<lparr>k_contents := (k_contents k)(path := map_option (truncate_to (ft_file_size t)) (k_contents k path))\<rparr>)
        else s)"

definition sync_and_close :: "copy_env \<Rightarrow> copy_config \<Rightarrow> nat \<Rightarrow> nat \<Rightarrow> copy_state \<Rightarrow> copy_state" where
  "sync_and_close env cfg i j s =
    (let (c, k) = s; t = tasks_of c ! i
     in if \<not> no_fsync cfg \<and> ft_dst_fd t \<ge> 0
        then let c1 = (upd_slot j (\<lambda>s. s\<lparr>bs_task := Some i, bs_state := BUF_FSYNCING\<rparr>) c)\<lparr>cc_active_ops := cc_active_ops c + 1\<rparr>;
               (err, k1) = submit_io env OpFsync j (ft_dst_fd t) 0 0 k
             in if err \<noteq> 0 then close_task i ((free_slot j c1)\<lparr>cc_active_ops := cc_active_ops c1 - 1\<rparr>, k1)
                else (c1, k1)
        else close_task i s)"

definition count_completed :: "copy_ctx \<Rightarrow> copy_ctx" where
  "count_completed c = c\<lparr>cc_queue := (cc_queue c)\<lparr>tq_completed_files := tq_completed_files (cc_queue c) + 1\<rparr>\<rparr>"

definition finish_task :: "copy_env \<Rightarrow> copy_config \<Rightarrow> nat \<Rightarrow> nat \<Rightarrow> copy_state \<Rightarrow> copy_state" where
  "finish_task env cfg i j s = sync_and_close env cfg i j (trim_target env cfg i (count_completed (fst s), snd s))"

section \<open>Callbacks\<close>

definition on_read_complete :: "copy_env \<Rightarrow> copy_config \<Rightarrow> nat \<Rightarrow> int \<Rightarrow> copy_state \<Rightarrow> copy_state" where
  "on_read_complete env cfg j result s =
    (let (c, k) = s; i = the (bs_task (cc_slots c ! j))
     in if result \<le> 0
        then let c1 = (if result < 0 then set_error result c else c) in (op_ended i (free_slot j c1), k)
        else let data = nat result;
               wlen = io_length cfg data;
               c1 = upd_slot j (\<lambda>s. s\<lparr>bs_buf := (if use_direct cfg then take data (bs_buf s) @ replicate (wlen - data) 0 @ drop wlen (bs_buf s)
                        else bs_buf s), bs_data_bytes := data, bs_bytes := wlen, bs_state := BUF_WRITING\<rparr>) c;
               (err, k1) = submit_io env OpWrite j (ft_dst_fd (tasks_of c ! i)) wlen (bs_offset (cc_slots c ! j)) k
             in if err \<noteq> 0 then (op_ended i (free_slot j (set_error (- err) c1)), k1) else (c1, k1))"

definition on_fsync_complete :: "nat \<Rightarrow> int \<Rightarrow> copy_state \<Rightarrow> copy_state" where
  "on_fsync_complete j result s =
    (let (c, k) = s; i = the (bs_task (cc_slots c ! j));
         c1 = (if result < 0 then set_error result c else c);
         (c2, k2) = close_task i (c1, k);
         c3 = free_slot j c2
     in (c3\<lparr>cc_active_ops := cc_active_ops c3 - 1\<rparr>, k2))"

definition on_write_complete :: "copy_env \<Rightarrow> copy_config \<Rightarrow> nat \<Rightarrow> int \<Rightarrow> copy_state \<Rightarrow> copy_state" where
  "on_write_complete env cfg j result s =
    (let (c, k) = s; slot = cc_slots c ! j; i = the (bs_task slot);
         c1 = (if result < 0 then set_error result c
               else if nat result \<noteq> bs_bytes slot then set_error (- EIO) c
               else let c' = upd_task i (\<lambda>t. t\<lparr>ft_bytes_written := ft_bytes_written t + bs_data_bytes slot\<rparr>) c
                 in c'\<lparr>cc_queue := (cc_queue c')\<lparr>tq_total_written := tq_total_written (cc_queue c') + bs_data_bytes slot\<rparr>\<rparr>);
         c2 = op_ended i (free_slot j c1);
         t = tasks_of c2 ! i
     in if ft_reads_done t \<and> ft_active_ops t = 0 \<and> \<not> ft_done t then finish_task env cfg i j (c2, k) else (c2, k))"

section \<open>The pipeline\<close>

text \<open>The first task at or after the current one that still needs reads.\<close>

function find_task :: "copy_task list \<Rightarrow> nat \<Rightarrow> nat option" where
  "find_task ts i = (if i \<ge> length ts then None
     else if ft_reads_done (ts ! i) \<or> ft_done (ts ! i) then find_task ts (Suc i) else Some i)"
  by pat_completeness auto

termination by (relation "measure (\<lambda>(ts, i). length ts - i)") auto

declare find_task.simps [simp del]

definition set_current :: "nat \<Rightarrow> copy_ctx \<Rightarrow> copy_ctx" where
  "set_current i c = c\<lparr>cc_queue := (cc_queue c)\<lparr>tq_current := i\<rparr>\<rparr>"

text \<open>The read of the next chunk of an open task into slot \<open>j\<close>.\<close>

definition submit_chunk :: "copy_env \<Rightarrow> copy_config \<Rightarrow> nat \<Rightarrow> nat \<Rightarrow> copy_state \<Rightarrow> copy_state" where
  "submit_chunk env cfg i j s =
    (let (c, k) = s; t = tasks_of c ! i;
         chunk = (if ft_read_offset t + chunk_size cfg > ft_file_size t then ft_file_size t - ft_read_offset t else chunk_size cfg);
         io_len = io_length cfg chunk;
         c1 = upd_slot j (\<lambda>b. b\<lparr>bs_offset := ft_read_offset t, bs_bytes := io_len, bs_data_bytes := chunk,
                bs_state := BUF_READING, bs_task := Some i\<rparr>) c;
         c2 = upd_task i (\<lambda>t. t\<lparr>ft_read_offset := ft_read_offset t + chunk\<rparr>) c1;
         c3 = (if ft_read_offset t + chunk \<ge> ft_file_size t
               then set_current (Suc i) (upd_task i (\<lambda>t. t\<lparr>ft_reads_done := True\<rparr>) c2) else c2);
         (err, k1) = submit_io env OpRead j (ft_src_fd t) io_len (ft_read_offset t) k
     in if err \<noteq> 0
        then (upd_task i (\<lambda>t. t\<lparr>ft_read_offset := ft_read_offset t - chunk\<rparr>) (free_slot j (set_error (- err) c3)), k1)
        else (upd_task i (\<lambda>t. t\<lparr>ft_active_ops := ft_active_ops t + 1\<rparr>) (c3\<lparr>cc_active_ops := cc_active_ops c3 + 1\<rparr>), k1))"

text \<open>A task whose files cannot be opened is skipped; an empty file is finished at once.\<close>

definition skip_task :: "nat \<Rightarrow> copy_ctx \<Rightarrow> copy_ctx" where
  "skip_task i c =
    set_current (Suc i) (count_completed (upd_task i (\<lambda>t. t\<lparr>ft_reads_done := True, ft_done := True\<rparr>) c))"

function submit_next_read :: "copy_env \<Rightarrow> copy_config \<Rightarrow> nat \<Rightarrow> copy_state \<Rightarrow> copy_state" where
  "submit_next_read env cfg j s =
    (case find_task (tasks_of (fst s)) (tq_current (cc_queue (fst s))) of
       None \<Rightarrow> s
     | Some i \<Rightarrow>
        if ft_src_fd (tasks_of (fst s) ! i) < 0
        then case open_task env cfg i s of (ok, s1) \<Rightarrow>
          if \<not> ok then submit_next_read env cfg j (skip_task i (fst s1), snd s1)
          else if ft_file_size (tasks_of (fst s1) ! i) = 0
          then case finish_task env cfg i j (upd_task i (\<lambda>t. t\<lparr>ft_reads_done := True\<rparr>) (fst s1), snd s1) of (c2, k2) \<Rightarrow>
            submit_next_read env cfg j (set_current (Suc i) c2, k2)
          else submit_chunk env cfg i j s1
        else submit_chunk env cfg i j s)"
  by pat_completeness auto

text \<open>What the state updates leave alone.\<close>

lemma upd_simps [simp]:
  "length (tasks_of (upd_task i f c)) = length (tasks_of c)"
  "tq_current (cc_queue (upd_task i f c)) = tq_current (cc_queue c)"
  "cc_slots (upd_task i f c) = cc_slots c"
  "cc_error (upd_task i f c) = cc_error c"
  "cc_active_ops (upd_task i f c) = cc_active_ops c"
  "cc_queue (upd_slot j g c) = cc_queue c"
  "length (cc_slots (upd_slot j g c)) = length (cc_slots c)"
  "cc_error (upd_slot j g c) = cc_error c"
  "cc_active_ops (upd_slot j g c) = cc_active_ops c"
  "cc_queue (free_slot j c) = cc_queue c"
  "length (cc_slots (free_slot j c)) = length (cc_slots c)"
  "cc_error (free_slot j c) = cc_error c"
  "cc_active_ops (free_slot j c) = cc_active_ops c"
  "cc_queue (set_error err c) = cc_queue c"
  "cc_slots (set_error err c) = cc_slots c"
  "cc_active_ops (set_error err c) = cc_active_ops c"
  "tasks_of (set_current n c) = tasks_of c"
  "tq_current (cc_queue (set_current n c)) = n"
  "cc_slots (set_current n c) = cc_slots c"
  "cc_error (set_current n c) = cc_error c"
  "cc_active_ops (set_current n c) = cc_active_ops c"
  "tasks_of (count_completed c) = tasks_of c"
  "tq_current (cc_queue (count_completed c)) = tq_current (cc_queue c)"
  "cc_slots (count_completed c) = cc_slots c"
  "cc_error (count_completed c) = cc_error c"
  "cc_active_ops (count_completed c) = cc_active_ops c"
  by (simp_all add: upd_task_def upd_slot_def free_slot_def set_error_def set_current_def count_completed_def)

lemma find_task_Some:
  "find_task ts i = Some m \<Longrightarrow> i \<le> m \<and> m < length ts \<and> \<not> ft_reads_done (ts ! m) \<and> \<not> ft_done (ts ! m) \<and>
     (\<forall>x. i \<le> x \<and> x < m \<longrightarrow> ft_reads_done (ts ! x) \<or> ft_done (ts ! x))"
proof (induction ts i rule: find_task.induct)
  case (1 ts i)
  show ?case
  proof (cases "i < length ts \<and> (ft_reads_done (ts ! i) \<or> ft_done (ts ! i))")
    case True
    then have "find_task ts (Suc i) = Some m" using 1(2) by (subst (asm) find_task.simps) simp
    then show ?thesis using 1(1) True by (metis Suc_leD le_antisym not_less not_less_eq_eq)
  next
    case False
    then show ?thesis using 1(2) by (subst (asm) find_task.simps) (auto split: if_splits)
  qed
qed

lemma find_task_None:
  "find_task ts i = None \<Longrightarrow> i \<le> x \<Longrightarrow> x < length ts \<Longrightarrow> ft_reads_done (ts ! x) \<or> ft_done (ts ! x)"
proof (induction ts i rule: find_task.induct)
  case (1 ts i)
  then have "i < length ts" by simp
  then have d: "ft_reads_done (ts ! i) \<or> ft_done (ts ! i)" "find_task ts (Suc i) = None"
    using 1(2) by (subst (asm) find_task.simps, auto split: if_splits)+
  show ?case
  proof (cases "x = i")
    case False
    then show ?thesis using 1(1)[OF _ _ d(2)] d(1) 1(3,4) \<open>i < length ts\<close> by auto
  qed (use d in simp)
qed

lemma queue_shape:
  "length (tasks_of (fst (close_task i s))) = length (tasks_of (fst s))"
  "tq_current (cc_queue (fst (close_task i s))) = tq_current (cc_queue (fst s))"
  "length (tasks_of (fst (snd (open_task env cfg i s)))) = length (tasks_of (fst s))"
  "tq_current (cc_queue (fst (snd (open_task env cfg i s)))) = tq_current (cc_queue (fst s))"
  by (simp_all add: close_task_def open_task_def Let_def split: prod.split)

lemma finish_shape:
  "length (tasks_of (fst (finish_task env cfg i j s))) = length (tasks_of (fst s))"
  "tq_current (cc_queue (fst (finish_task env cfg i j s))) = tq_current (cc_queue (fst s))"
  by (simp_all add: finish_task_def sync_and_close_def trim_target_def Let_def case_prod_beta queue_shape)

lemma later_current:
  assumes "find_task (tasks_of (fst s)) (tq_current (cc_queue (fst s))) = Some i" "(ok, s1) = open_task env cfg i s"
  shows "length (tasks_of (fst s1)) - Suc i < length (tasks_of (fst s)) - tq_current (cc_queue (fst s))"
proof -
  have "length (tasks_of (fst s1)) = length (tasks_of (fst s))" using queue_shape(3)[of env cfg i s] assms(2) by (metis snd_conv)
  then show ?thesis using find_task_Some[OF assms(1)] by linarith
qed

termination submit_next_read
  apply (relation "measure (\<lambda>(env, cfg, j, s). length (tasks_of (fst s)) - tq_current (cc_queue (fst s)))")
  subgoal by simp
  subgoal by (simp add: skip_task_def later_current)
  subgoal for env cfg j s i ok s1 c2 k2
    using finish_shape[of env cfg i j "(upd_task i (ft_reads_done_update (\<lambda>_. True)) (fst s1), snd s1)"] later_current[of s i ok s1]
    by simp (metis fst_conv)
  done

declare submit_next_read.simps [simp del]

definition all_tasks_done :: "copy_ctx \<Rightarrow> bool" where
  "all_tasks_done c = list_all ft_done (tasks_of c)"

text \<open>
  One completion: the kernel fills the buffer or the file with the \<open>result\<close> bytes it reports and the
  engine runs the callback of the request. A completion names a request by its position.
\<close>

definition kernel_effect :: "io_op \<Rightarrow> int \<Rightarrow> copy_state \<Rightarrow> copy_state" where
  "kernel_effect q result s =
    (let (c, k) = s; n = nat result
     in case (op_kind_of q, op_file q) of
       (OpRead, Some p) \<Rightarrow>
         (upd_slot (op_slot q) (\<lambda>b. b\<lparr>bs_buf := take n (drop (op_off q) (case k_contents k p of Some xs \<Rightarrow> xs | None \<Rightarrow> [])) @ drop n (bs_buf b)\<rparr>) c, k)
     | (OpWrite, Some p) \<Rightarrow>
         (c, k\<lparr>k_contents := (k_contents k)(p := map_option (pwrite (op_off q) (take n (bs_buf (cc_slots c ! op_slot q)))) (k_contents k p))\<rparr>)
     | _ \<Rightarrow> s)"

definition run_callback :: "copy_env \<Rightarrow> copy_config \<Rightarrow> io_op \<Rightarrow> int \<Rightarrow> copy_state \<Rightarrow> copy_state" where
  "run_callback env cfg q result s =
    (case op_kind_of q of
       OpRead \<Rightarrow> on_read_complete env cfg (op_slot q) result s
     | OpWrite \<Rightarrow> on_write_complete env cfg (op_slot q) result s
     | OpFsync \<Rightarrow> on_fsync_complete (op_slot q) result s)"

definition take_op :: "nat \<Rightarrow> kernel \<Rightarrow> kernel" where
  "take_op n k = k\<lparr>k_ops := take n (k_ops k) @ drop (Suc n) (k_ops k)\<rparr>"

definition complete_one :: "copy_env \<Rightarrow> copy_config \<Rightarrow> nat \<times> int \<Rightarrow> copy_state \<Rightarrow> copy_state" where
  "complete_one env cfg nr s =
    (case nr of (n, result) \<Rightarrow>
       if n < length (k_ops (snd s))
       then let q = k_ops (snd s) ! n in run_callback env cfg q result (kernel_effect q result (fst s, take_op n (snd s)))
       else s)"

text \<open>
  A round: the interrupt flag at the loop test, the completions \<open>aura_wait\<close> delivers, its result
  and the interrupt flag as read before each slot is refilled.
\<close>

record copy_round =
  cr_stop :: bool
  cr_done :: "(nat \<times> int) list"
  cr_wait :: "int + int"
  cr_intr :: "nat \<Rightarrow> bool"

definition wait_round :: "copy_env \<Rightarrow> copy_config \<Rightarrow> copy_round \<Rightarrow> copy_state \<Rightarrow> copy_state" where
  "wait_round env cfg r s = fold (complete_one env cfg) (cr_done r) s"

definition fatal_wait :: "int + int \<Rightarrow> bool" where
  "fatal_wait n = (case n of Inl err \<Rightarrow> err \<noteq> EINTR \<and> err \<noteq> ETIME \<and> err \<noteq> ETIMEDOUT | Inr _ \<Rightarrow> False)"

text \<open>The first batch stops at the first error or interrupt; later rounds refill the free slots.\<close>

fun first_batch :: "copy_env \<Rightarrow> copy_config \<Rightarrow> (nat \<Rightarrow> bool) \<Rightarrow> nat list \<Rightarrow> copy_state \<Rightarrow> copy_state" where
  "first_batch env cfg intr [] s = s"
| "first_batch env cfg intr (j # js) s =
    (if cc_error (fst s) = 0 \<and> \<not> intr j then first_batch env cfg intr js (submit_next_read env cfg j s) else s)"

definition refill_slot :: "copy_env \<Rightarrow> copy_config \<Rightarrow> (nat \<Rightarrow> bool) \<Rightarrow> nat \<Rightarrow> copy_state \<Rightarrow> copy_state" where
  "refill_slot env cfg intr j s =
    (if bs_state (cc_slots (fst s) ! j) = BUF_FREE \<and> cc_error (fst s) = 0 \<and> \<not> intr j then submit_next_read env cfg j s else s)"

fun copy_loop :: "copy_env \<Rightarrow> copy_config \<Rightarrow> copy_round list \<Rightarrow> copy_state \<Rightarrow> (copy_state \<times> copy_round list) option" where
  "copy_loop env cfg [] s = (if all_tasks_done (fst s) \<or> cc_error (fst s) \<noteq> 0 then Some (s, []) else None)"
| "copy_loop env cfg (r # rs) s =
    (if all_tasks_done (fst s) \<or> cc_error (fst s) \<noteq> 0 \<or> cr_stop r then Some (s, r # rs)
     else let s1 = wait_round env cfg r s
       in case cr_wait r of
            Inl err \<Rightarrow> if fatal_wait (cr_wait r) then Some ((set_error (- err) (fst s1), snd s1), rs)
                       else copy_loop env cfg rs (fold (refill_slot env cfg (cr_intr r)) [0..<pipeline_depth cfg] s1)
          | Inr _ \<Rightarrow> copy_loop env cfg rs (fold (refill_slot env cfg (cr_intr r)) [0..<pipeline_depth cfg] s1))"

fun copy_drain :: "copy_env \<Rightarrow> copy_config \<Rightarrow> copy_round list \<Rightarrow> copy_state \<Rightarrow> copy_state option" where
  "copy_drain env cfg [] s = (if cc_active_ops (fst s) > 0 then None else Some s)"
| "copy_drain env cfg (r # rs) s =
    (if cc_active_ops (fst s) > 0 then copy_drain env cfg rs (wait_round env cfg r s) else Some s)"

definition copy_pipeline :: "copy_env \<Rightarrow> copy_config \<Rightarrow> (nat \<Rightarrow> bool) \<Rightarrow> copy_round list \<Rightarrow> copy_state \<Rightarrow> (int \<times> copy_state) option" where
  "copy_pipeline env cfg intr rounds s =
    (case copy_loop env cfg rounds (first_batch env cfg intr [0..<pipeline_depth cfg] s) of
       None \<Rightarrow> None
     | Some (s1, rs) \<Rightarrow> map_option (\<lambda>s2. (cc_error (fst s2), s2)) (copy_drain env cfg rs s1))"

definition cleanup_partial_files :: "copy_config \<Rightarrow> copy_state \<Rightarrow> copy_state" where
  "cleanup_partial_files cfg s =
    (if keep_partial cfg then s
     else (fst s, (snd s)\<lparr>k_contents := fold (\<lambda>t fs. if ft_done t then fs else fs(ft_dst_path t := None))
            (tasks_of (fst s)) (k_contents (snd s))\<rparr>))"

text \<open>The end of \<open>main\<close>: the exit status and what is left of the files.\<close>

definition copy_exit :: "copy_config \<Rightarrow> bool \<Rightarrow> int \<times> copy_state \<Rightarrow> int \<times> copy_state" where
  "copy_exit cfg interrupted r =
    (if fst r \<noteq> 0 \<or> interrupted
     then (if interrupted then 130 else 1, cleanup_partial_files cfg (snd r))
     else (0, snd r))"

end
