(* ===== verification/Copy_Correct.thy ===== *)
theory Copy_Correct
  imports Copy_Pipeline
begin

text \<open>
  Correctness of the copy pipeline: the invariant that relates slots, requests, descriptors and file
  contents, its preservation by every step, and what it gives for a whole run.
\<close>

section \<open>Sector rounding\<close>

unbundle bit_operations_syntax
lemma and_not_mask: "w AND NOT (mask n) = push_bit n (drop_bit n (w :: 64 word))"
  by (rule bit_word_eqI) (auto simp: bit_and_iff bit_not_iff bit_mask_iff bit_push_bit_iff bit_drop_bit_eq)

lemma round_up_512: "n < 2 ^ 63 \<Longrightarrow> unat (round_up_sz (of_nat n) (of_nat 512)) = (n + 511) div 512 * 512"
proof -
  assume n: "n < 2 ^ 63"
  have d: "drop_bit 9 (of_nat (n + 511) :: 64 word) = of_nat ((n + 511) div 512)"
  proof -
    have "unat (drop_bit 9 (of_nat (n + 511) :: 64 word)) = (n + 511) div 512"
      using n unfolding unat_drop_bit_eq unat_of_nat by (simp add: drop_bit_eq_div)
    then show ?thesis by (metis of_nat_unat ucast_id)
  qed
  have m: "NOT (of_nat 512 - 1 :: 64 word) = NOT (mask 9)" by (simp add: mask_eq_exp_minus_1)
  have "round_up_sz (of_nat n) (of_nat 512) = (of_nat (n + 511) :: 64 word) AND NOT (mask 9)"
    unfolding round_up_sz_def m by (simp add: algebra_simps)
  also have "\<dots> = push_bit 9 (of_nat ((n + 511) div 512) :: 64 word)"
    using d by (simp only: and_not_mask)
  also have "\<dots> = of_nat ((n + 511) div 512 * 512)" by (simp add: push_bit_eq_mult)
  finally have "unat (round_up_sz (of_nat n) (of_nat 512)) = (n + 511) div 512 * 512 mod 2 ^ 64" by (simp only: unat_of_nat len_bit0) simp
  moreover have "(n + 511) div 512 * 512 \<le> n + 511" by simp
  ultimately show ?thesis using n by simp
qed
lemma io_length_ge: "n < 2 ^ 63 \<Longrightarrow> n \<le> io_length cfg n"
  using round_up_512[of n] div_mult_mod_eq[of "n + 511" 512] mod_less_divisor[of 512 "n + 511"]
  by (simp only: io_length_def split: if_splits) linarith

lemma io_length_le: "n < 2 ^ 63 \<Longrightarrow> n \<le> m \<Longrightarrow> use_direct cfg \<Longrightarrow> 512 dvd m \<Longrightarrow> io_length cfg n \<le> m"
proof -
  assume a: "n < 2 ^ 63" "n \<le> m" "use_direct cfg" "512 dvd m"
  then obtain q where q: "m = 512 * q" by (auto elim: dvdE)
  have "(n + 511) div 512 \<le> q" using a(2) q less_mult_imp_div_less[of "n + 511" "Suc q" 512] by simp
  then show ?thesis using a round_up_512[of n] q by (simp only: io_length_def) simp
qed

lemma io_length_sector: "n < 2 ^ 63 \<Longrightarrow> 512 dvd n \<Longrightarrow> io_length cfg n = n"
  using io_length_ge[of n cfg] io_length_le[of n n cfg] by (cases "use_direct cfg") (auto simp: io_length_def)

section \<open>The invariant\<close>

definition busy_io :: "buf_slot \<Rightarrow> bool" where
  "busy_io b \<longleftrightarrow> bs_state b = BUF_READING \<or> bs_state b = BUF_WRITING"

definition io_on :: "nat \<Rightarrow> buf_slot \<Rightarrow> bool" where
  "io_on i b \<longleftrightarrow> bs_task b = Some i \<and> busy_io b"

definition opened :: "copy_task \<Rightarrow> bool" where
  "opened t \<longleftrightarrow> \<not> ft_done t \<and> 0 \<le> ft_src_fd t"

definition task_static :: "copy_task \<Rightarrow> string \<times> string \<times> nat" where
  "task_static t = (ft_src_path t, ft_dst_path t, ft_file_size t)"

text \<open>What the copy starts from: readable sources of the recorded size and separate targets.\<close>

definition copy_job :: "copy_config \<Rightarrow> (string \<Rightarrow> byte list option) \<Rightarrow> (string \<times> string \<times> nat) list \<Rightarrow> bool" where
  "copy_job cfg C J \<longleftrightarrow> 0 < chunk_size cfg \<and> chunk_size cfg < 2 ^ 62 \<and> (use_direct cfg \<longrightarrow> 512 dvd chunk_size cfg) \<and>
     (\<forall>(sp, dp, n) \<in> set J. \<exists>xs. C sp = Some xs \<and> length xs = n \<and> (n = 0 \<longrightarrow> no_fsync cfg)) \<and>
     distinct (map (fst \<circ> snd) J) \<and> (\<forall>(sp, _) \<in> set J. \<forall>(_, dp, _) \<in> set J. sp \<noteq> dp)"

definition content :: "(string \<Rightarrow> byte list option) \<Rightarrow> copy_task \<Rightarrow> byte list" where
  "content C t = (case C (ft_src_path t) of Some xs \<Rightarrow> xs | None \<Rightarrow> [])"

text \<open>The request a busy slot waits for.\<close>

definition slot_ops :: "copy_task list \<Rightarrow> nat \<Rightarrow> buf_slot \<Rightarrow> io_op list" where
  "slot_ops ts j b =
    (let t = ts ! the (bs_task b)
     in case bs_state b of
       BUF_FREE \<Rightarrow> []
     | BUF_READING \<Rightarrow> [\<lparr>op_kind_of = OpRead, op_slot = j, op_file = Some (ft_src_path t), op_len = bs_bytes b, op_off = bs_offset b\<rparr>]
     | BUF_WRITING \<Rightarrow> [\<lparr>op_kind_of = OpWrite, op_slot = j, op_file = Some (ft_dst_path t), op_len = bs_bytes b, op_off = bs_offset b\<rparr>]
     | BUF_FSYNCING \<Rightarrow> [\<lparr>op_kind_of = OpFsync, op_slot = j, op_file = Some (ft_dst_path t), op_len = 0, op_off = 0\<rparr>])"

text \<open>
  Requests and slots agree, but for the slots in \<open>D\<close>, whose request was just taken and whose
  callback is running.
\<close>

definition ops_ok :: "nat set \<Rightarrow> copy_state \<Rightarrow> bool" where
  "ops_ok D s \<longleftrightarrow> (\<forall>q \<in> set (k_ops (snd s)). op_slot q < length (cc_slots (fst s))) \<and>
     (\<forall>j < length (cc_slots (fst s)). filter (\<lambda>q. op_slot q = j) (k_ops (snd s)) =
        (if j \<in> D then [] else slot_ops (tasks_of (fst s)) j (cc_slots (fst s) ! j)))"

definition chunk_ok :: "copy_config \<Rightarrow> (string \<Rightarrow> byte list option) \<Rightarrow> copy_task \<Rightarrow> buf_slot \<Rightarrow> bool" where
  "chunk_ok cfg C t b \<longleftrightarrow> 0 < bs_data_bytes b \<and> bs_data_bytes b = min (chunk_size cfg) (ft_file_size t - bs_offset b) \<and>
     bs_offset b + bs_data_bytes b \<le> ft_read_offset t \<and> bs_bytes b = io_length cfg (bs_data_bytes b) \<and>
     (bs_state b = BUF_WRITING \<longrightarrow> bs_bytes b \<le> length (bs_buf b) \<and>
        take (bs_data_bytes b) (bs_buf b) = take (bs_data_bytes b) (drop (bs_offset b) (content C t)))"

definition slot_ok :: "copy_config \<Rightarrow> (string \<Rightarrow> byte list option) \<Rightarrow> copy_task list \<Rightarrow> buf_slot \<Rightarrow> bool" where
  "slot_ok cfg C ts b \<longleftrightarrow> chunk_size cfg \<le> length (bs_buf b) \<and>
    (case bs_task b of
       None \<Rightarrow> bs_state b = BUF_FREE
     | Some i \<Rightarrow> i < length ts \<and> opened (ts ! i) \<and>
         (case bs_state b of BUF_FREE \<Rightarrow> False | BUF_FSYNCING \<Rightarrow> True | _ \<Rightarrow> chunk_ok cfg C (ts ! i) b))"

definition copied :: "(string \<Rightarrow> byte list option) \<Rightarrow> copy_task \<Rightarrow> kernel \<Rightarrow> bool" where
  "copied C t k \<longleftrightarrow> k_contents k (ft_dst_path t) = Some (content C t)"

definition not_opened :: "copy_env \<Rightarrow> copy_task \<Rightarrow> bool" where
  "not_opened env t \<longleftrightarrow> ce_open env (ft_src_path t) \<noteq> 0 \<or> ce_open env (ft_dst_path t) \<noteq> 0"

text \<open>Byte \<open>p\<close> of task \<open>i\<close> is still on its way through a slot.\<close>

definition on_its_way :: "buf_slot list \<Rightarrow> nat \<Rightarrow> nat \<Rightarrow> bool" where
  "on_its_way bs i p \<longleftrightarrow> (\<exists>b \<in> set bs. io_on i b \<and> bs_offset b \<le> p \<and> p < bs_offset b + bs_data_bytes b)"

definition open_task_ok :: "copy_config \<Rightarrow> (string \<Rightarrow> byte list option) \<Rightarrow> bool \<Rightarrow> buf_slot list \<Rightarrow> kernel \<Rightarrow> nat \<Rightarrow> copy_task \<Rightarrow> bool" where
  "open_task_ok cfg C ex bs k i t \<longleftrightarrow>
     fd_file (ft_src_fd t) k = Some (ft_src_path t) \<and> fd_file (ft_dst_fd t) k = Some (ft_dst_path t) \<and> ft_src_fd t \<noteq> ft_dst_fd t \<and>
     ft_read_offset t \<le> ft_file_size t \<and> (ft_reads_done t \<longleftrightarrow> ft_read_offset t = ft_file_size t) \<and>
     (\<exists>d. k_contents k (ft_dst_path t) = Some d \<and> (\<not> use_direct cfg \<longrightarrow> length d \<le> ft_file_size t) \<and>
        (\<forall>p < ft_read_offset t. on_its_way bs i p \<or> (p < length d \<and> d ! p = content C t ! p))) \<and>
     (ft_reads_done t \<and> \<not> ex \<longrightarrow> (\<exists>b \<in> set bs. bs_task b = Some i)) \<and>
     (\<forall>j < length bs. bs_task (bs ! j) = Some i \<and> bs_state (bs ! j) = BUF_FSYNCING \<longrightarrow>
        ft_reads_done t \<and> copied C t k \<and> (\<forall>j' < length bs. bs_task (bs ! j') = Some i \<longrightarrow> j' = j))"

definition task_ok :: "copy_env \<Rightarrow> copy_config \<Rightarrow> (string \<Rightarrow> byte list option) \<Rightarrow> bool \<Rightarrow> buf_slot list \<Rightarrow> kernel \<Rightarrow> nat \<Rightarrow> copy_task \<Rightarrow> bool" where
  "task_ok env cfg C ex bs k i t \<longleftrightarrow> k_contents k (ft_src_path t) = C (ft_src_path t) \<and>
     ft_active_ops t = int (length (filter (io_on i) bs)) \<and>
     (if ft_done t then ft_src_fd t < 0 \<and> ft_reads_done t \<and> (not_opened env t \<or> copied C t k)
      else if ft_src_fd t < 0 then ft_read_offset t = 0 \<and> \<not> ft_reads_done t
      else open_task_ok cfg C ex bs k i t)"

definition fds_apart :: "copy_task list \<Rightarrow> bool" where
  "fds_apart ts \<longleftrightarrow> (\<forall>i < length ts. \<forall>i' < length ts. i \<noteq> i' \<and> opened (ts ! i) \<and> opened (ts ! i') \<longrightarrow>
     {ft_src_fd (ts ! i), ft_dst_fd (ts ! i)} \<inter> {ft_src_fd (ts ! i'), ft_dst_fd (ts ! i')} = {})"

definition copy_inv :: "copy_env \<Rightarrow> copy_config \<Rightarrow> (string \<Rightarrow> byte list option) \<Rightarrow> (string \<times> string \<times> nat) list \<Rightarrow> nat set \<Rightarrow> nat set \<Rightarrow> copy_state \<Rightarrow> bool" where
  "copy_inv env cfg C J D X s \<longleftrightarrow> map task_static (tasks_of (fst s)) = J \<and> ops_ok D s \<and>
     (\<forall>b \<in> set (cc_slots (fst s)). slot_ok cfg C (tasks_of (fst s)) b) \<and>
     (\<forall>i < length (tasks_of (fst s)). task_ok env cfg C (i \<in> X) (cc_slots (fst s)) (snd s) i (tasks_of (fst s) ! i)) \<and>
     fds_apart (tasks_of (fst s)) \<and>
     cc_active_ops (fst s) = int (length (filter (\<lambda>b. bs_state b \<noteq> BUF_FREE) (cc_slots (fst s)))) \<and>
     (\<forall>x < min (tq_current (cc_queue (fst s))) (length (tasks_of (fst s))). ft_reads_done (tasks_of (fst s) ! x) \<or> ft_done (tasks_of (fst s) ! x))"

section \<open>What a step leaves to the other tasks and slots\<close>

definition same_for :: "nat \<Rightarrow> buf_slot list \<Rightarrow> buf_slot list \<Rightarrow> bool" where
  "same_for i bs bs' \<longleftrightarrow> list_all2 (\<lambda>b b'. bs_task b = Some i \<or> bs_task b' = Some i \<longrightarrow> b = b') bs bs'"

lemma same_for_filter:
  assumes "same_for i bs bs'" and P: "\<And>b. P b \<Longrightarrow> bs_task b = Some i"
  shows "filter P bs = filter P bs'"
  using assms(1) unfolding same_for_def
proof (induction bs bs' rule: list_all2_induct)
  case (Cons b bs b' bs')
  show ?case
  proof (cases "P b \<or> P b'")
    case True
    then have "b = b'" using Cons.hyps(1) P by blast
    then show ?thesis using Cons.IH by simp
  qed (use Cons.IH in simp)
qed simp

lemma same_for_ex:
  assumes "same_for i bs bs'" and "\<And>b. P b \<Longrightarrow> bs_task b = Some i"
  shows "(\<exists>b \<in> set bs. P b) \<longleftrightarrow> (\<exists>b \<in> set bs'. P b)"
proof -
  have "filter P bs = filter P bs'" by (rule same_for_filter[OF assms])
  then have "(filter P bs = []) = (filter P bs' = [])" by simp
  then show ?thesis by (auto simp: filter_empty_conv)
qed

lemma same_for_update:
  assumes "bs_task (bs ! j) \<noteq> Some i" "bs_task b \<noteq> Some i"
  shows "same_for i bs (bs[j := b])"
  unfolding same_for_def list_all2_conv_all_nth using assms by (cases "j < length bs") (auto simp: nth_list_update)

lemma same_for_way: "same_for i bs bs' \<Longrightarrow> on_its_way bs i p = on_its_way bs' i p"
  unfolding on_its_way_def by (rule same_for_ex) (auto simp: io_on_def)

lemma open_task_ok_other:
  assumes "open_task_ok cfg C ex bs k i t" "same_for i bs bs'"
    "k_contents k' (ft_dst_path t) = k_contents k (ft_dst_path t)"
    "fd_file (ft_src_fd t) k' = fd_file (ft_src_fd t) k" "fd_file (ft_dst_fd t) k' = fd_file (ft_dst_fd t) k"
  shows "open_task_ok cfg C ex bs' k' i t"
proof -
  have n: "length bs' = length bs" "\<And>j. j < length bs \<Longrightarrow> bs_task (bs ! j) = Some i \<or> bs_task (bs' ! j) = Some i \<Longrightarrow> bs' ! j = bs ! j"
    using assms(2) unfolding same_for_def list_all2_conv_all_nth by metis+
  have e: "(\<exists>b \<in> set bs. bs_task b = Some i) = (\<exists>b \<in> set bs'. bs_task b = Some i)" 
    using same_for_ex[OF assms(2), of "\<lambda>b. bs_task b = Some i"] by simp
  have c: "copied C t k' = copied C t k" using assms(3) by (simp add: copied_def)
  have f: "\<forall>j < length bs. bs_task (bs ! j) = Some i \<and> bs_state (bs ! j) = BUF_FSYNCING \<longrightarrow>
      ft_reads_done t \<and> copied C t k \<and> (\<forall>j' < length bs. bs_task (bs ! j') = Some i \<longrightarrow> j' = j)"
    using assms(1) unfolding open_task_ok_def by blast
  have "\<forall>j < length bs'. bs_task (bs' ! j) = Some i \<and> bs_state (bs' ! j) = BUF_FSYNCING \<longrightarrow>
      ft_reads_done t \<and> copied C t k' \<and> (\<forall>j' < length bs'. bs_task (bs' ! j') = Some i \<longrightarrow> j' = j)"
    using f n unfolding c by metis
  then show ?thesis using assms(1,3-5) e same_for_way[OF assms(2)] unfolding open_task_ok_def by simp
qed

lemma task_ok_other:
  assumes "task_ok env cfg C ex bs k i t" "same_for i bs bs'"
    "k_contents k' (ft_dst_path t) = k_contents k (ft_dst_path t)" "k_contents k' (ft_src_path t) = k_contents k (ft_src_path t)"
    "opened t \<Longrightarrow> fd_file (ft_src_fd t) k' = fd_file (ft_src_fd t) k" "opened t \<Longrightarrow> fd_file (ft_dst_fd t) k' = fd_file (ft_dst_fd t) k"
  shows "task_ok env cfg C ex bs' k' i t"
proof -
  have "filter (io_on i) bs = filter (io_on i) bs'" by (rule same_for_filter[OF assms(2)]) (simp add: io_on_def)
  then show ?thesis using assms open_task_ok_other[of cfg C ex bs k i t bs' k']
    by (auto simp: task_ok_def copied_def opened_def)
qed

lemma static_nth: "map task_static ts = map task_static ts' \<Longrightarrow> i < length ts \<Longrightarrow>
    ft_src_path (ts ! i) = ft_src_path (ts' ! i) \<and> ft_dst_path (ts ! i) = ft_dst_path (ts' ! i) \<and> ft_file_size (ts ! i) = ft_file_size (ts' ! i)"
  by (metis (no_types, lifting) Pair_inject length_map nth_map task_static_def)

lemma slot_ops_static:
  assumes "slot_ok cfg C ts b" "map task_static ts = map task_static ts'"
  shows "slot_ops ts j b = slot_ops ts' j b"
proof (cases "bs_task b")
  case (Some i)
  then have "i < length ts" using assms(1) by (simp add: slot_ok_def)
  from static_nth[OF assms(2) this] show ?thesis using Some by (simp add: slot_ops_def Let_def split: buf_state.split)
qed (use assms in \<open>simp add: slot_ok_def slot_ops_def Let_def\<close>)

lemma ops_ok_step:
  assumes "ops_ok D (c, k)" "\<forall>b \<in> set (cc_slots c). slot_ok cfg C (tasks_of c) b" "map task_static (tasks_of c') = map task_static (tasks_of c)"
    and "j < length (cc_slots c)" "cc_slots c' = (cc_slots c)[j := b']" "k_ops k' = k_ops k @ qs"
    and "j \<in> D \<or> bs_state (cc_slots c ! j) = BUF_FREE" "slot_ops (tasks_of c') j b' = qs"
  shows "ops_ok (D - {j}) (c', k')"
proof -
  have q: "\<forall>q \<in> set qs. op_slot q = j" unfolding assms(8)[symmetric] by (auto simp: slot_ops_def Let_def split: buf_state.splits)
  have f: "filter (\<lambda>q. op_slot q = j) (k_ops k) = []"
    using assms(1,4,7) by (auto simp: ops_ok_def slot_ops_def Let_def)
  have qs: "filter (\<lambda>q. op_slot q = j) qs = qs" using q by (simp add: filter_id_conv)
  have "filter (\<lambda>q. op_slot q = j') (k_ops k @ qs) =
      (if j' \<in> D - {j} then [] else slot_ops (tasks_of c') j' (cc_slots c' ! j'))" if j': "j' < length (cc_slots c)" for j'
  proof (cases "j' = j")
    case True
    then show ?thesis using f qs assms(4,5,8) by simp
  next
    case False
    then have "filter (\<lambda>q. op_slot q = j') qs = []" using q by (auto simp: filter_empty_conv)
    moreover have "slot_ops (tasks_of c') j' (cc_slots c ! j') = slot_ops (tasks_of c) j' (cc_slots c ! j')"
      using slot_ops_static[of cfg C "tasks_of c" "cc_slots c ! j'" "tasks_of c'" j'] assms(2,3) j' by simp
    ultimately show ?thesis using assms(1,5) False j' by (simp add: ops_ok_def)
  qed
  then show ?thesis using assms(1,4,5,6) q by (auto simp: ops_ok_def)
qed

lemma copy_inv_parts:
  assumes "copy_inv env cfg C J D X (c, k)"
  shows "map task_static (tasks_of c) = J" "ops_ok D (c, k)" "\<forall>b \<in> set (cc_slots c). slot_ok cfg C (tasks_of c) b"
    "\<And>i. i < length (tasks_of c) \<Longrightarrow> task_ok env cfg C (i \<in> X) (cc_slots c) k i (tasks_of c ! i)"
    "fds_apart (tasks_of c)" "cc_active_ops c = int (length (filter (\<lambda>b. bs_state b \<noteq> BUF_FREE) (cc_slots c)))"
    "\<forall>x < min (tq_current (cc_queue c)) (length (tasks_of c)). ft_reads_done (tasks_of c ! x) \<or> ft_done (tasks_of c ! x)"
  using assms by (simp_all add: copy_inv_def)

lemma job_paths:
  assumes "copy_job cfg C (map task_static ts)" "i < length ts" "i' < length ts"
  shows "ft_src_path (ts ! i) \<noteq> ft_dst_path (ts ! i')" "i \<noteq> i' \<Longrightarrow> ft_dst_path (ts ! i) \<noteq> ft_dst_path (ts ! i')"
    "C (ft_src_path (ts ! i)) = Some (content C (ts ! i))" "length (content C (ts ! i)) = ft_file_size (ts ! i)"
    "ft_file_size (ts ! i) = 0 \<Longrightarrow> no_fsync cfg"
proof -
  let ?J = "map task_static ts"
  have m: "task_static (ts ! x) \<in> set ?J" if "x < length ts" for x using that by simp
  have "distinct (map (fst \<circ> snd) ?J)" using assms(1) by (simp add: copy_job_def)
  then have d: "distinct (map ft_dst_path ts)" by (simp add: o_def task_static_def)
  show "i \<noteq> i' \<Longrightarrow> ft_dst_path (ts ! i) \<noteq> ft_dst_path (ts ! i')"
    using d assms(2,3) by (simp add: distinct_conv_nth)
  show "ft_src_path (ts ! i) \<noteq> ft_dst_path (ts ! i')"
    using assms(1) m[OF assms(2)] m[OF assms(3)] unfolding copy_job_def task_static_def by fastforce
  have "\<exists>xs. C (ft_src_path (ts ! i)) = Some xs \<and> length xs = ft_file_size (ts ! i) \<and> (ft_file_size (ts ! i) = 0 \<longrightarrow> no_fsync cfg)"
    using assms(1) m[OF assms(2)] unfolding copy_job_def task_static_def by fastforce
  then show "C (ft_src_path (ts ! i)) = Some (content C (ts ! i))" "length (content C (ts ! i)) = ft_file_size (ts ! i)"
    "ft_file_size (ts ! i) = 0 \<Longrightarrow> no_fsync cfg"
    by (auto simp: content_def)
qed

lemma slot_ok_task:
  assumes "slot_ok cfg C ts b" "i < length ts" "task_static t' = task_static (ts ! i)"
    "bs_task b = Some i \<Longrightarrow> opened t'" "ft_read_offset (ts ! i) \<le> ft_read_offset t'"
  shows "slot_ok cfg C (ts[i := t']) b"
proof -
  have "chunk_ok cfg C (ts ! i) b \<Longrightarrow> chunk_ok cfg C t' b" using assms(3,5) by (auto simp: chunk_ok_def task_static_def content_def)
  then show ?thesis using assms by (auto simp: slot_ok_def nth_list_update split: option.splits buf_state.splits)
qed

lemma copy_inv_step:
  assumes inv: "copy_inv env cfg C J D X (c, k)" and job: "copy_job cfg C J" and i: "i < length (tasks_of c)"
    and ts: "tasks_of c' = (tasks_of c)[i := t']" "task_static t' = task_static (tasks_of c ! i)"
    and slots: "j < length (cc_slots c)" "cc_slots c' = (cc_slots c)[j := b']" "bs_task (cc_slots c ! j) \<in> {None, Some i}" "bs_task b' \<in> {None, Some i}"
    and ops: "ops_ok D' (c', k')" and b': "slot_ok cfg C (tasks_of c') b'"
    and mine: "\<And>j'. j' < length (cc_slots c) \<Longrightarrow> j' \<noteq> j \<Longrightarrow> bs_task (cc_slots c ! j') = Some i \<Longrightarrow> opened t'"
      "ft_read_offset (tasks_of c ! i) \<le> ft_read_offset t'"
    and task: "task_ok env cfg C (i \<in> X') (cc_slots c') k' i t'"
    and contents: "\<And>p. p \<noteq> ft_dst_path (tasks_of c ! i) \<Longrightarrow> k_contents k' p = k_contents k p"
    and fds: "\<And>i'. i' < length (tasks_of c) \<Longrightarrow> i' \<noteq> i \<Longrightarrow> opened (tasks_of c ! i') \<Longrightarrow>
      fd_file (ft_src_fd (tasks_of c ! i')) k' = fd_file (ft_src_fd (tasks_of c ! i')) k \<and>
      fd_file (ft_dst_fd (tasks_of c ! i')) k' = fd_file (ft_dst_fd (tasks_of c ! i')) k"
    and apart: "fds_apart (tasks_of c')"
    and active: "cc_active_ops c' = cc_active_ops c - of_bool (bs_state (cc_slots c ! j) \<noteq> BUF_FREE) + of_bool (bs_state b' \<noteq> BUF_FREE)"
    and X: "X - {i} = X' - {i}"
    and cur: "\<And>x. x < tq_current (cc_queue c') \<Longrightarrow> x < length (tasks_of c) \<Longrightarrow> x \<noteq> i \<Longrightarrow> ft_reads_done (tasks_of c ! x) \<or> ft_done (tasks_of c ! x)"
      "i < tq_current (cc_queue c') \<Longrightarrow> ft_reads_done t' \<or> ft_done t'"
  shows "copy_inv env cfg C J D' X' (c', k')"
proof -
  note p = copy_inv_parts[OF inv]
  have st: "map task_static (tasks_of c') = J" using p(1) ts i by (metis list_update_id map_update nth_map)
  have sl: "slot_ok cfg C (tasks_of c') b" if "b \<in> set (cc_slots c')" for b
  proof -
    have "\<exists>j' < length ((cc_slots c)[j := b']). (cc_slots c)[j := b'] ! j' = b"
      using that unfolding slots(2) in_set_conv_nth by simp
    then obtain j' where j': "j' < length (cc_slots c)" "(cc_slots c)[j := b'] ! j' = b" by auto
    show ?thesis
    proof (cases "j' = j")
      case False
      then show ?thesis using j' mine ts i p(3) slot_ok_task[of cfg C "tasks_of c" "cc_slots c ! j'" i t'] by auto
    qed (use j' b' slots(1) in simp)
  qed
  have tk: "task_ok env cfg C (i' \<in> X') (cc_slots c') k' i' (tasks_of c' ! i')" if i': "i' < length (tasks_of c)" for i'
  proof (cases "i' = i")
    case False
    let ?t = "tasks_of c ! i'"
    have "same_for i' (cc_slots c) (cc_slots c')" unfolding slots(2) using slots(3,4) False by (intro same_for_update) auto
    moreover have "k_contents k' (ft_dst_path ?t) = k_contents k (ft_dst_path ?t)" "k_contents k' (ft_src_path ?t) = k_contents k (ft_src_path ?t)"
      using contents job_paths[OF job[folded p(1)] i' i] False by simp_all
    ultimately have "task_ok env cfg C (i' \<in> X) (cc_slots c') k' i' ?t"
      using task_ok_other[OF p(4)[OF i'], of "cc_slots c'" k'] fds[OF i' False] by blast
    moreover have "(i' \<in> X') = (i' \<in> X)" using X False by blast
    ultimately show ?thesis using ts(1) False by simp
  qed (use task ts i in simp)
  have ac: "cc_active_ops c' = int (length (filter (\<lambda>b. bs_state b \<noteq> BUF_FREE) (cc_slots c')))"
    unfolding slots(2) length_filter_update[OF slots(1)] using active p(6) by simp
  have cu: "ft_reads_done (tasks_of c' ! x) \<or> ft_done (tasks_of c' ! x)"
    if "x < tq_current (cc_queue c')" "x < length (tasks_of c)" for x
    using cur(1)[OF that] cur(2) that ts i by (cases "x = i") auto
  show ?thesis unfolding copy_inv_def using st ops sl tk apart ac cu ts(1) by simp
qed

lemma fds_apart_keep:
  assumes "fds_apart ts" "i < length ts" "opened t' \<Longrightarrow> opened (ts ! i) \<and> ft_src_fd t' = ft_src_fd (ts ! i) \<and> ft_dst_fd t' = ft_dst_fd (ts ! i)"
  shows "fds_apart (ts[i := t'])"
  using assms unfolding fds_apart_def by (auto simp: nth_list_update)

lemma fds_apart_fresh:
  assumes "fds_apart ts" "i < length ts"
    "\<And>i'. i' < length ts \<Longrightarrow> i' \<noteq> i \<Longrightarrow> opened (ts ! i') \<Longrightarrow> {ft_src_fd t', ft_dst_fd t'} \<inter> {ft_src_fd (ts ! i'), ft_dst_fd (ts ! i')} = {}"
  shows "fds_apart (ts[i := t'])"
  using assms unfolding fds_apart_def by (metis (no_types, lifting) inf_commute length_list_update nth_list_update)

lemma lowest_free_le: "lowest_free fds \<le> length fds"
  by (induction fds rule: lowest_free.induct) auto

lemma lowest_free_None: "lowest_free fds < length fds \<Longrightarrow> fds ! lowest_free fds = None"
  by (induction fds rule: lowest_free.induct) auto

lemma open_fd_file:
  assumes "open_fd p k = (fd, k')"
  shows "0 \<le> fd" "fd_file fd k = None" "fd_file fd' k' = (if fd' = fd then Some p else fd_file fd' k)"
    "k_contents k' = k_contents k" "k_ops k' = k_ops k" "k_subs k' = k_subs k"
proof -
  let ?n = "lowest_free (k_fds k)"
  have f: "fd = int ?n" and k: "k' = k\<lparr>k_fds := (if ?n < length (k_fds k) then (k_fds k)[?n := Some p] else k_fds k @ [Some p])\<rparr>"
    using assms by (simp_all add: open_fd_def Let_def)
  show "0 \<le> fd" "k_contents k' = k_contents k" "k_ops k' = k_ops k" "k_subs k' = k_subs k" using f k by simp_all
  show "fd_file fd k = None" using lowest_free_None[of "k_fds k"] f by (simp add: fd_file_def)
  show "fd_file fd' k' = (if fd' = fd then Some p else fd_file fd' k)"
    using lowest_free_le[of "k_fds k"] by (auto simp: f k fd_file_def nth_append nth_list_update)
qed

lemma close_fd_file:
  "0 \<le> fd \<Longrightarrow> fd_file fd' (close_fd fd k) = (if fd' = fd then None else fd_file fd' k)"
  "k_contents (close_fd fd k) = k_contents k" "k_ops (close_fd fd k) = k_ops k" "k_subs (close_fd fd k) = k_subs k"
  by (auto simp: fd_file_def close_fd_def nth_list_update)

lemma submit_io_ok:
  assumes "submit_io env kind j fd len off k = (err, k')"
  shows "k_contents k' = k_contents k" "fd_file x k' = fd_file x k"
    "err = 0 \<Longrightarrow> k_ops k' = k_ops k @ [\<lparr>op_kind_of = kind, op_slot = j, op_file = fd_file fd k, op_len = len, op_off = off\<rparr>]"
  using assms by (auto simp: submit_io_def Let_def fd_file_def split: if_splits)

section \<open>Reading the next chunk\<close>

lemma set_error_zero: "cc_error (set_error err c) = 0 \<Longrightarrow> err \<noteq> 0 \<Longrightarrow> False"
  by (simp add: set_error_def split: if_splits)

lemma tasks_upd [simp]: "tasks_of (upd_task i f c) = (tasks_of c)[i := f (tasks_of c ! i)]"
  by (simp add: upd_task_def)

lemma slots_upd [simp]: "cc_slots (upd_slot j g c) = (cc_slots c)[j := g (cc_slots c ! j)]"
  by (simp add: upd_slot_def)

lemma queue_upd [simp]:
  "tasks_of (c\<lparr>cc_active_ops := a\<rparr>) = tasks_of c" "cc_slots (c\<lparr>cc_active_ops := a\<rparr>) = cc_slots c"
  by simp_all

lemma submit_chunk_ok:
  assumes "submit_chunk env cfg i j (c, k) = (c', k')" "cc_error c' = 0" "i < length (tasks_of c)" "j < length (cc_slots c)"
  defines "t \<equiv> tasks_of c ! i"
  defines "n \<equiv> min (chunk_size cfg) (ft_file_size t - ft_read_offset t)"
  shows "tasks_of c' = (tasks_of c)[i := t\<lparr>ft_read_offset := ft_read_offset t + n,
        ft_reads_done := ft_reads_done t \<or> ft_file_size t \<le> ft_read_offset t + n, ft_active_ops := ft_active_ops t + 1\<rparr>]"
    "cc_slots c' = (cc_slots c)[j := (cc_slots c ! j)\<lparr>bs_offset := ft_read_offset t, bs_bytes := io_length cfg n, bs_data_bytes := n,
        bs_state := BUF_READING, bs_task := Some i\<rparr>]"
    "cc_active_ops c' = cc_active_ops c + 1" "cc_error c = 0"
    "tq_current (cc_queue c') = (if ft_file_size t \<le> ft_read_offset t + n then Suc i else tq_current (cc_queue c))"
    "k_contents k' = k_contents k" "fd_file x k' = fd_file x k"
    "k_ops k' = k_ops k @ [\<lparr>op_kind_of = OpRead, op_slot = j, op_file = fd_file (ft_src_fd t) k, op_len = io_length cfg n, op_off = ft_read_offset t\<rparr>]"
proof -
  have n: "(if ft_read_offset t + chunk_size cfg > ft_file_size t then ft_file_size t - ft_read_offset t else chunk_size cfg) = n"
    by (auto simp: n_def)
  obtain err k1 where s: "submit_io env OpRead j (ft_src_fd t) (io_length cfg n) (ft_read_offset t) k = (err, k1)" by (rule prod.exhaust)
  note e = assms(1)[unfolded submit_chunk_def Let_def case_prod_conv, folded t_def, unfolded n s case_prod_conv]
  have z: "err = 0"
  proof (rule ccontr)
    assume "err \<noteq> 0"
    then show False using e assms(2) by (auto simp: set_error_def split: if_splits)
  qed
  note q = submit_io_ok[OF s]
  show "tasks_of c' = (tasks_of c)[i := t\<lparr>ft_read_offset := ft_read_offset t + n,
        ft_reads_done := ft_reads_done t \<or> ft_file_size t \<le> ft_read_offset t + n, ft_active_ops := ft_active_ops t + 1\<rparr>]"
    using e z assms(3) by (cases "ft_file_size t \<le> ft_read_offset t + n") (auto simp: t_def)
  show "cc_slots c' = (cc_slots c)[j := (cc_slots c ! j)\<lparr>bs_offset := ft_read_offset t, bs_bytes := io_length cfg n, bs_data_bytes := n,
        bs_state := BUF_READING, bs_task := Some i\<rparr>]"
    using e z by (cases "ft_file_size t \<le> ft_read_offset t + n") auto
  show "cc_active_ops c' = cc_active_ops c + 1" using e z by (cases "ft_file_size t \<le> ft_read_offset t + n") auto
  show "cc_error c = 0" using e z assms(2) by (cases "ft_file_size t \<le> ft_read_offset t + n") auto
  show "tq_current (cc_queue c') = (if ft_file_size t \<le> ft_read_offset t + n then Suc i else tq_current (cc_queue c))"
    using e z by (cases "ft_file_size t \<le> ft_read_offset t + n") auto
  have "k' = k1" using e z by simp
  then show "k_contents k' = k_contents k" "fd_file x k' = fd_file x k"
    "k_ops k' = k_ops k @ [\<lparr>op_kind_of = OpRead, op_slot = j, op_file = fd_file (ft_src_fd t) k, op_len = io_length cfg n, op_off = ft_read_offset t\<rparr>]"
    using q z by simp_all
qed

lemma opened_ok:
  assumes "task_ok env cfg C ex bs k i t" "opened t"
  shows "open_task_ok cfg C ex bs k i t"
  using assms by (auto simp: task_ok_def opened_def)

lemma way_update:
  assumes "j < length bs" "bs_task (bs ! j) = None" "on_its_way bs i p"
  shows "on_its_way (bs[j := b]) i p"
proof -
  obtain x where x: "x < length bs" "io_on i (bs ! x)" "bs_offset (bs ! x) \<le> p" "p < bs_offset (bs ! x) + bs_data_bytes (bs ! x)"
    using assms(3) by (auto simp: on_its_way_def in_set_conv_nth)
  then have "x \<noteq> j" using assms(2) by (auto simp: io_on_def)
  then have "bs ! x \<in> set (bs[j := b])" using x(1) by (metis length_list_update nth_list_update_neq nth_mem)
  then show ?thesis using x by (auto simp: on_its_way_def)
qed

lemma free_task: "slot_ok cfg C ts b \<Longrightarrow> bs_state b = BUF_FREE \<Longrightarrow> bs_task b = None"
  by (auto simp: slot_ok_def split: option.splits)

lemma submit_chunk_inv:
  assumes inv: "copy_inv env cfg C J {} {} (c, k)" and job: "copy_job cfg C J" and i: "i < length (tasks_of c)"
    and t: "opened (tasks_of c ! i)" "\<not> ft_reads_done (tasks_of c ! i)"
    and j: "j < length (cc_slots c)" "bs_state (cc_slots c ! j) = BUF_FREE"
    and cur: "\<And>x. x < i \<Longrightarrow> ft_reads_done (tasks_of c ! x) \<or> ft_done (tasks_of c ! x)"
    and s: "submit_chunk env cfg i j (c, k) = (c', k')" "cc_error c' = 0"
  shows "copy_inv env cfg C J {} {} (c', k')"
proof -
  let ?t = "tasks_of c ! i" and ?b = "cc_slots c ! j"
  define n where "n = min (chunk_size cfg) (ft_file_size ?t - ft_read_offset ?t)"
  note p = copy_inv_parts[OF inv] and q = submit_chunk_ok[OF s i j(1), folded n_def]
  have ot: "open_task_ok cfg C False (cc_slots c) k i ?t" using opened_ok[OF p(4)[OF i] t(1)] by simp
  then have off: "ft_read_offset ?t < ft_file_size ?t" "fd_file (ft_src_fd ?t) k = Some (ft_src_path ?t)"
    using t(2) by (auto simp: open_task_ok_def)
  have n: "0 < n" "ft_read_offset ?t + n \<le> ft_file_size ?t" using off job by (auto simp: n_def copy_job_def)
  have bn: "bs_task ?b = None" using free_task[of cfg C "tasks_of c" ?b] p(3) j by simp
  define t' where "t' = ?t\<lparr>ft_read_offset := ft_read_offset ?t + n, ft_reads_done := ft_reads_done ?t \<or> ft_file_size ?t \<le> ft_read_offset ?t + n,
      ft_active_ops := ft_active_ops ?t + 1\<rparr>"
  define b' where "b' = ?b\<lparr>bs_offset := ft_read_offset ?t, bs_bytes := io_length cfg n, bs_data_bytes := n, bs_state := BUF_READING, bs_task := Some i\<rparr>"
  have ts: "tasks_of c' = (tasks_of c)[i := t']" "task_static t' = task_static ?t" using q(1) by (simp_all add: t'_def task_static_def)
  have sl: "cc_slots c' = (cc_slots c)[j := b']" using q(2) by (simp add: b'_def)
  have op: "opened t'" using t(1) by (simp add: opened_def t'_def)
  have st: "map task_static (tasks_of c') = map task_static (tasks_of c)" using ts i by (metis list_update_id map_update)
  have ops: "ops_ok {} (c', k')"
    using ops_ok_step[OF p(2,3) st j(1) sl, of k' "slot_ops (tasks_of c') j b'"] q(8) off(2) j(2) i ts(1)
    by (simp add: slot_ops_def b'_def t'_def)
  have b': "slot_ok cfg C (tasks_of c') b'"
    using p(3) j i op n by (auto simp: slot_ok_def b'_def chunk_ok_def ts(1) t'_def n_def)
  have way: "on_its_way (cc_slots c') i x" if "ft_read_offset ?t \<le> x" "x < ft_read_offset t'" for x
  proof -
    have "b' \<in> set (cc_slots c')" using j(1) by (simp add: sl set_update_memI)
    moreover have "io_on i b' \<and> bs_offset b' \<le> x \<and> x < bs_offset b' + bs_data_bytes b'"
      using that by (simp add: io_on_def busy_io_def b'_def t'_def)
    ultimately show ?thesis unfolding on_its_way_def by blast
  qed
  have fs: "\<not> (bs_task (cc_slots c ! x) = Some i \<and> bs_state (cc_slots c ! x) = BUF_FSYNCING)" if "x < length (cc_slots c)" for x
    using ot t(2) that unfolding open_task_ok_def by blast
  have "open_task_ok cfg C False (cc_slots c') k' i t'"
  proof -
    obtain d where d: "k_contents k (ft_dst_path ?t) = Some d" "\<not> use_direct cfg \<longrightarrow> length d \<le> ft_file_size ?t"
      "\<forall>p < ft_read_offset ?t. on_its_way (cc_slots c) i p \<or> (p < length d \<and> d ! p = content C ?t ! p)"
      using ot by (auto simp: open_task_ok_def)
    have ct: "content C t' = content C ?t" by (simp add: content_def t'_def)
    have "\<forall>p < ft_read_offset t'. on_its_way (cc_slots c') i p \<or> (p < length d \<and> d ! p = content C t' ! p)"
      using d(3) way way_update[OF j(1) bn] unfolding ct sl by (metis not_less)
    moreover have "\<exists>b \<in> set (cc_slots c'). bs_task b = Some i"
      using j(1) by (intro bexI[of _ b']) (simp_all add: sl set_update_memI b'_def)
    moreover have "\<not> (bs_task (cc_slots c' ! x) = Some i \<and> bs_state (cc_slots c' ! x) = BUF_FSYNCING)" if "x < length (cc_slots c')" for x
      using fs[of x] that by (cases "x = j") (auto simp: sl b'_def)
    ultimately show ?thesis using ot d n t(2) q(6,7) by (auto simp: open_task_ok_def t'_def)
  qed
  moreover have "ft_active_ops t' = int (length (filter (io_on i) (cc_slots c')))"
    unfolding sl length_filter_update[OF j(1)] using p(4)[OF i] bn by (simp add: task_ok_def t'_def io_on_def b'_def busy_io_def)
  ultimately have tk: "task_ok env cfg C (i \<in> {}) (cc_slots c') k' i t'"
    using p(4)[OF i] op q(6) by (simp add: task_ok_def opened_def t'_def)
  show ?thesis
  proof (rule copy_inv_step[OF inv job i ts j(1) sl])
    show "fds_apart (tasks_of c')" unfolding ts(1) by (rule fds_apart_keep[OF p(5) i]) (use t in \<open>simp add: t'_def\<close>)
    show "x < tq_current (cc_queue c') \<Longrightarrow> x < length (tasks_of c) \<Longrightarrow> x \<noteq> i \<Longrightarrow> ft_reads_done (tasks_of c ! x) \<or> ft_done (tasks_of c ! x)" for x
      using cur[of x] p(7) q(5) by (auto split: if_splits)
    show "i < tq_current (cc_queue c') \<Longrightarrow> ft_reads_done t' \<or> ft_done t'"
      using q(5) p(7) i t by (auto simp: t'_def opened_def split: if_splits)
  qed (use q ops b' tk op bn j(2) in \<open>simp_all add: b'_def t'_def\<close>)
qed

section \<open>Finishing a task\<close>

lemma copy_inv_cong:
  assumes "copy_inv env cfg C J D X (c, k)" "tasks_of c' = tasks_of c" "cc_slots c' = cc_slots c" "cc_active_ops c' = cc_active_ops c"
    "tq_current (cc_queue c') = tq_current (cc_queue c)"
  shows "copy_inv env cfg C J D X (c', k)"
  using assms unfolding copy_inv_def ops_ok_def by simp

lemma truncated_content:
  assumes "\<forall>p < length xs. p < length d \<and> d ! p = xs ! p"
  shows "truncate_to (length xs) d = xs" "length d \<le> length xs \<Longrightarrow> d = xs"
proof -
  have l: "length xs \<le> length d" using assms by (metis leI not_less_iff_gr_or_eq)
  show "truncate_to (length xs) d = xs" using assms l by (intro nth_equalityI) (auto simp: truncate_to_def)
  show "length d \<le> length xs \<Longrightarrow> d = xs" using assms l by (intro nth_equalityI) auto
qed

lemma all_written:
  assumes inv: "copy_inv env cfg C J D X (c, k)" and job: "copy_job cfg C J" and i: "i < length (tasks_of c)"
    and t: "opened (tasks_of c ! i)" "ft_reads_done (tasks_of c ! i)" and none: "\<And>b. b \<in> set (cc_slots c) \<Longrightarrow> bs_task b \<noteq> Some i"
  obtains d where "k_contents k (ft_dst_path (tasks_of c ! i)) = Some d"
    "truncate_to (ft_file_size (tasks_of c ! i)) d = content C (tasks_of c ! i)" "\<not> use_direct cfg \<longrightarrow> d = content C (tasks_of c ! i)"
proof -
  let ?t = "tasks_of c ! i"
  note p = copy_inv_parts[OF inv] and jp = job_paths[OF job[folded copy_inv_parts(1)[OF inv]] i i]
  have ot: "open_task_ok cfg C (i \<in> X) (cc_slots c) k i ?t" by (rule opened_ok[OF p(4)[OF i] t(1)])
  then have "ft_read_offset ?t = length (content C ?t)" using t(2) jp(4) by (simp add: open_task_ok_def)
  moreover have "\<not> on_its_way (cc_slots c) i x" for x using none by (auto simp: on_its_way_def io_on_def)
  ultimately obtain d where d: "k_contents k (ft_dst_path ?t) = Some d" "\<not> use_direct cfg \<longrightarrow> length d \<le> ft_file_size ?t"
    "\<forall>p < length (content C ?t). p < length d \<and> d ! p = content C ?t ! p"
    using ot by (auto simp: open_task_ok_def)
  show ?thesis using that[OF d(1)] truncated_content[OF d(3)] d(2) jp(4) by simp
qed

lemma truncate_inv:
  assumes inv: "copy_inv env cfg C J {} {i} (c, k)" and job: "copy_job cfg C J" and i: "i < length (tasks_of c)"
    and t: "opened (tasks_of c ! i)" "ft_reads_done (tasks_of c ! i)" and none: "\<And>b. b \<in> set (cc_slots c) \<Longrightarrow> bs_task b \<noteq> Some i"
    and k': "k' = k\<lparr>k_contents := (k_contents k)(ft_dst_path (tasks_of c ! i) := Some (content C (tasks_of c ! i)))\<rparr>"
  shows "copy_inv env cfg C J {} {i} (c, k')" "copied C (tasks_of c ! i) k'"
proof -
  let ?t = "tasks_of c ! i"
  note p = copy_inv_parts[OF inv] and jp = job_paths[OF job[folded copy_inv_parts(1)[OF inv]]]
  show c: "copied C ?t k'" by (simp add: copied_def k')
  have f: "fd_file x k' = fd_file x k" for x by (simp add: k' fd_file_def)
  have ot: "open_task_ok cfg C True (cc_slots c) k i ?t" using opened_ok[OF p(4)[OF i] t(1)] by simp
  then have "open_task_ok cfg C True (cc_slots c) k' i ?t"
    using none jp(4)[OF i i] c by (auto simp: open_task_ok_def f copied_def)
  then have "task_ok env cfg C True (cc_slots c) k' i ?t"
    using p(4)[OF i] t(1) jp(1)[OF i i] by (auto simp: task_ok_def opened_def k')
  moreover have "task_ok env cfg C (i' \<in> {i}) (cc_slots c) k' i' (tasks_of c ! i')" if "i' < length (tasks_of c)" "i' \<noteq> i" for i'
  proof (rule task_ok_other[OF p(4)[OF that(1)]])
    show "same_for i' (cc_slots c) (cc_slots c)" by (simp add: same_for_def list_all2_same)
  qed (use jp[OF that(1) i] that f in \<open>simp_all add: k'\<close>)
  ultimately have "\<forall>i' < length (tasks_of c). task_ok env cfg C (i' \<in> {i}) (cc_slots c) k' i' (tasks_of c ! i')"
    by (metis singletonI)
  then show "copy_inv env cfg C J {} {i} (c, k')" using inv by (simp add: copy_inv_def ops_ok_def k')
qed

text \<open>Closing a copied task, when slot \<open>j\<close> is the only one that may still name it.\<close>

lemma close_inv:
  assumes inv: "copy_inv env cfg C J D X (c, k)" and job: "copy_job cfg C J" and i: "i < length (tasks_of c)"
    and t: "opened (tasks_of c ! i)" "ft_reads_done (tasks_of c ! i)" "copied C (tasks_of c ! i) k"
    and j: "j < length (cc_slots c)" "bs_task (cc_slots c ! j) \<in> {None, Some i}" "\<not> io_on i (cc_slots c ! j)"
      "j \<in> D \<or> bs_state (cc_slots c ! j) = BUF_FREE"
    and none: "\<And>j'. j' < length (cc_slots c) \<Longrightarrow> j' \<noteq> j \<Longrightarrow> bs_task (cc_slots c ! j') \<noteq> Some i"
    and b': "bs_state b' = BUF_FREE" "bs_task b' = None" "bs_buf b' = bs_buf (cc_slots c ! j)"
    and cl: "close_task i (c, k) = (c1, k')"
    and c': "tasks_of c' = tasks_of c1" "cc_slots c' = (cc_slots c)[j := b']" "tq_current (cc_queue c') = tq_current (cc_queue c)"
      "cc_active_ops c' = cc_active_ops c - of_bool (bs_state (cc_slots c ! j) \<noteq> BUF_FREE)"
  shows "copy_inv env cfg C J (D - {j}) (X - {i}) (c', k')"
proof -
  let ?t = "tasks_of c ! i"
  define t' where "t' = ?t\<lparr>ft_src_fd := -1, ft_dst_fd := -1, ft_done := True\<rparr>"
  note p = copy_inv_parts[OF inv]
  have ts: "tasks_of c' = (tasks_of c)[i := t']" "task_static t' = task_static ?t" and k': "k' = close_fd (ft_dst_fd ?t) (close_fd (ft_src_fd ?t) k)"
    using cl c'(1) by (auto simp: close_task_def Let_def t'_def task_static_def)
  have ot: "open_task_ok cfg C (i \<in> X) (cc_slots c) k i ?t" by (rule opened_ok[OF p(4)[OF i] t(1)])
  have fd: "0 \<le> ft_src_fd ?t" "0 \<le> ft_dst_fd ?t"
    using ot by (auto simp: open_task_ok_def fd_file_def split: if_splits)
  have st: "map task_static (tasks_of c') = map task_static (tasks_of c)" using ts i by (metis list_update_id map_update)
  have no: "\<not> io_on i b" if "b \<in> set (cc_slots c)" for b
    using none j(3) that by (metis in_set_conv_nth io_on_def)
  then have f0: "filter (io_on i) (cc_slots c) = []" by (simp add: filter_empty_conv)
  have ct: "k_contents k' = k_contents k" using k' by (simp add: close_fd_file)
  show ?thesis
  proof (rule copy_inv_step[OF inv job i ts j(1) c'(2) j(2), of "D - {j}" k' "X - {i}"])
    show "ops_ok (D - {j}) (c', k')" using ops_ok_step[OF p(2,3) st j(1) c'(2), of k' "[]"] j(4) b'(1)
      by (simp add: k' close_fd_file slot_ops_def)
    show "slot_ok cfg C (tasks_of c') b'" using p(3) j(1) b' by (simp add: slot_ok_def)
    show "task_ok env cfg C (i \<in> X - {i}) (cc_slots c') k' i t'"
    proof -
      have "int (length (filter (io_on i) (cc_slots c'))) = 0"
        unfolding c'(2) length_filter_update[OF j(1)] using f0 j(3) b'(2) by (simp add: io_on_def)
      then show ?thesis using p(4)[OF i] t f0 ct by (simp add: task_ok_def t'_def copied_def content_def)
    qed
    show "fds_apart (tasks_of c')" unfolding ts(1) by (rule fds_apart_keep[OF p(5) i]) (simp add: t'_def opened_def)
    show "fd_file (ft_src_fd (tasks_of c ! i')) k' = fd_file (ft_src_fd (tasks_of c ! i')) k \<and>
        fd_file (ft_dst_fd (tasks_of c ! i')) k' = fd_file (ft_dst_fd (tasks_of c ! i')) k"
      if "i' < length (tasks_of c)" "i' \<noteq> i" "opened (tasks_of c ! i')" for i'
      using p(5) i t(1) that fd by (auto simp: fds_apart_def k' close_fd_file)
    show "ft_reads_done (tasks_of c ! x) \<or> ft_done (tasks_of c ! x)" if "x < tq_current (cc_queue c')" "x < length (tasks_of c)" for x
      using that p(7) c'(3) by simp
  qed (use none c' b' ct t in \<open>auto simp: t'_def\<close>)
qed

lemma fsync_inv:
  assumes inv: "copy_inv env cfg C J {} {i} (c, k)" and job: "copy_job cfg C J" and i: "i < length (tasks_of c)"
    and t: "opened (tasks_of c ! i)" "ft_reads_done (tasks_of c ! i)" "copied C (tasks_of c ! i) k"
    and j: "j < length (cc_slots c)" "bs_state (cc_slots c ! j) = BUF_FREE"
    and none: "\<And>b. b \<in> set (cc_slots c) \<Longrightarrow> bs_task b \<noteq> Some i"
    and s: "submit_io env OpFsync j (ft_dst_fd (tasks_of c ! i)) 0 0 k = (0, k')"
    and c': "c' = (upd_slot j (\<lambda>s. s\<lparr>bs_task := Some i, bs_state := BUF_FSYNCING\<rparr>) c)\<lparr>cc_active_ops := cc_active_ops c + 1\<rparr>"
  shows "copy_inv env cfg C J {} {} (c', k')"
proof -
  let ?t = "tasks_of c ! i" and ?b = "cc_slots c ! j"
  define b' where "b' = ?b\<lparr>bs_task := Some i, bs_state := BUF_FSYNCING\<rparr>"
  note p = copy_inv_parts[OF inv] and q = submit_io_ok[OF s]
  have bn: "bs_task ?b = None" using free_task[of cfg C "tasks_of c" ?b] p(3) j by simp
  have ot: "open_task_ok cfg C True (cc_slots c) k i ?t" using opened_ok[OF p(4)[OF i] t(1)] by simp
  then have fd: "fd_file (ft_dst_fd ?t) k = Some (ft_dst_path ?t)" by (simp add: open_task_ok_def)
  have ts: "tasks_of c' = (tasks_of c)[i := ?t]" and sl: "cc_slots c' = (cc_slots c)[j := b']" by (simp_all add: c' b'_def)
  have st: "map task_static (tasks_of c') = map task_static (tasks_of c)" by (simp add: c')
  have mem: "b' \<in> set (cc_slots c')" using j(1) by (simp add: sl set_update_memI)
  have way: "on_its_way (cc_slots c') i x = on_its_way (cc_slots c) i x" for x
    using none set_update_subset_insert[of "cc_slots c" j b'] by (auto simp: on_its_way_def io_on_def busy_io_def sl b'_def)
  have u: "j1 = j" if "j1 < length (cc_slots c')" "bs_task (cc_slots c' ! j1) = Some i" for j1
    using that none[of "cc_slots c ! j1"] by (cases "j1 = j") (auto simp: sl)
  have o2: "open_task_ok cfg C False (cc_slots c') k' i ?t"
  proof -
    have "\<exists>b \<in> set (cc_slots c'). bs_task b = Some i" using mem by (intro bexI[of _ b']) (simp_all add: b'_def)
    moreover have "copied C ?t k'" using t(3) q(1) by (simp add: copied_def)
    ultimately show ?thesis using ot t(2) u unfolding open_task_ok_def way q by blast
  qed
  have tk: "task_ok env cfg C (i \<in> {}) (cc_slots c') k' i ?t"
  proof -
    have "int (length (filter (io_on i) (cc_slots c'))) = int (length (filter (io_on i) (cc_slots c)))"
      unfolding sl length_filter_update[OF j(1)] using bn by (simp add: io_on_def b'_def busy_io_def)
    then show ?thesis using p(4)[OF i] t(1) o2 q(1) by (simp add: task_ok_def opened_def)
  qed
  show ?thesis
  proof (rule copy_inv_step[OF inv job i ts refl j(1) sl])
    show "ops_ok {} (c', k')" using ops_ok_step[OF p(2,3) st j(1) sl, of k' "slot_ops (tasks_of c') j b'"] q(3) fd j(2)
      by (simp add: slot_ops_def b'_def c')
    show "slot_ok cfg C (tasks_of c') b'" using p(3) j(1) i t(1) by (simp add: slot_ok_def b'_def c')
    show "fds_apart (tasks_of c')" using p(5) by (simp add: c')
    show "ft_reads_done (tasks_of c ! x) \<or> ft_done (tasks_of c ! x)" if "x < tq_current (cc_queue c')" "x < length (tasks_of c)" for x
      using that p(7) by (simp add: c')
  qed (use q tk bn j t in \<open>simp_all add: b'_def c'\<close>)
qed

lemma close_task_error [simp]: "cc_error (fst (close_task i s)) = cc_error (fst s)"
  by (simp add: close_task_def Let_def case_prod_beta)

lemma sync_and_close_error [simp]: "cc_error (fst (sync_and_close env cfg i j s)) = cc_error (fst s)"
  by (simp add: sync_and_close_def Let_def case_prod_beta)

lemma target_fd:
  assumes "copy_inv env cfg C J D X (c, k)" "i < length (tasks_of c)" "opened (tasks_of c ! i)"
  shows "fd_file (ft_dst_fd (tasks_of c ! i)) k = Some (ft_dst_path (tasks_of c ! i))" "0 \<le> ft_dst_fd (tasks_of c ! i)"
    "fd_file (ft_src_fd (tasks_of c ! i)) k = Some (ft_src_path (tasks_of c ! i))" "0 \<le> ft_src_fd (tasks_of c ! i)"
  using opened_ok[OF copy_inv_parts(4)[OF assms(1,2)] assms(3)]
  by (auto simp: open_task_ok_def fd_file_def split: if_splits)

lemma trim_target_inv:
  assumes inv: "copy_inv env cfg C J {} {i} (c, k)" and job: "copy_job cfg C J" and i: "i < length (tasks_of c)"
    and t: "opened (tasks_of c ! i)" "ft_reads_done (tasks_of c ! i)" and none: "\<And>b. b \<in> set (cc_slots c) \<Longrightarrow> bs_task b \<noteq> Some i"
    and s: "trim_target env cfg i (c, k) = (c', k')" "cc_error c' = 0"
  shows "c' = c" "copy_inv env cfg C J {} {i} (c, k')" "copied C (tasks_of c ! i) k'"
proof -
  let ?t = "tasks_of c ! i"
  obtain d where d: "k_contents k (ft_dst_path ?t) = Some d" "truncate_to (ft_file_size ?t) d = content C ?t" "\<not> use_direct cfg \<longrightarrow> d = content C ?t"
    by (rule all_written[OF inv job i t none])
  note fd = target_fd[OF inv i t(1)]
  have "use_direct cfg \<Longrightarrow> ce_ftruncate env (ft_dst_path ?t) = 0"
    using s fd by (auto simp: trim_target_def Let_def set_error_def split: if_splits)
  then have c: "c' = c \<and> k' = k\<lparr>k_contents := (k_contents k)(ft_dst_path ?t := Some (content C ?t))\<rparr>"
    using s(1) fd d by (auto simp: trim_target_def Let_def fun_upd_idem split: if_splits)
  then show "c' = c" by simp
  show "copy_inv env cfg C J {} {i} (c, k')" "copied C ?t k'" by (rule truncate_inv[OF inv job i t none conjunct2[OF c]]; assumption)+
qed

lemma free_update: "bs_state b = BUF_FREE \<Longrightarrow> bs_task b = None \<Longrightarrow> b\<lparr>bs_state := BUF_FREE, bs_task := None\<rparr> = b"
  by simp

lemma submit_io_kernel:
  assumes "copy_inv env cfg C J {} X (c, k)" "k_contents k' = k_contents k" "\<And>x. fd_file x k' = fd_file x k" "k_ops k' = k_ops k"
  shows "copy_inv env cfg C J {} X (c, k')"
proof -
  have "task_ok env cfg C (i \<in> X) (cc_slots c) k' i (tasks_of c ! i)" if "i < length (tasks_of c)" for i
    by (rule task_ok_other[OF copy_inv_parts(4)[OF assms(1) that]]) (simp_all add: assms same_for_def list_all2_same)
  then show ?thesis using assms(1,4) by (simp add: copy_inv_def ops_ok_def)
qed

lemma sync_and_close_inv:
  assumes inv: "copy_inv env cfg C J {} {i} (c, k)" and job: "copy_job cfg C J" and i: "i < length (tasks_of c)"
    and t: "opened (tasks_of c ! i)" "ft_reads_done (tasks_of c ! i)" "copied C (tasks_of c ! i) k"
    and j: "j < length (cc_slots c)" "bs_state (cc_slots c ! j) = BUF_FREE"
    and none: "\<And>b. b \<in> set (cc_slots c) \<Longrightarrow> bs_task b \<noteq> Some i"
  shows "copy_inv env cfg C J {} {} (sync_and_close env cfg i j (c, k))"
proof -
  let ?t = "tasks_of c ! i" and ?b = "cc_slots c ! j"
  have bn: "bs_task ?b = None" using free_task[of cfg C "tasks_of c" ?b] copy_inv_parts(3)[OF inv] j by simp
  have close: "copy_inv env cfg C J {} {} (close_task i (c', k'))"
    if h: "copy_inv env cfg C J {} {i} (c, k')" "k_contents k' = k_contents k" "tasks_of c' = tasks_of c" "cc_slots c' = cc_slots c"
      "tq_current (cc_queue c') = tq_current (cc_queue c)" "cc_active_ops c' = cc_active_ops c" for c' k'
  proof -
    obtain c2 k2 where cl: "close_task i (c', k') = (c2, k2)" by (rule prod.exhaust)
    then obtain c1 where c1: "close_task i (c, k') = (c1, k2)" "tasks_of c2 = tasks_of c1"
      using h(3) by (auto simp: close_task_def Let_def)
    have "cc_slots c2 = (cc_slots c)[j := ?b]" "tq_current (cc_queue c2) = tq_current (cc_queue c)" "cc_active_ops c2 = cc_active_ops c"
      using cl h(4-6) by (auto simp: close_task_def Let_def)
    with close_inv[OF h(1) job i t(1,2) _ j(1) _ _ _ _ j(2) bn refl c1] show ?thesis
      using cl t(3) h(2) bn j(2) none by (auto simp: copied_def io_on_def)
  qed
  obtain err k1 where s: "submit_io env OpFsync j (ft_dst_fd ?t) 0 0 k = (err, k1)" by (rule prod.exhaust)
  note q = submit_io_ok[OF s]
  have k1: "err \<noteq> 0 \<Longrightarrow> k_ops k1 = k_ops k" using s by (auto simp: submit_io_def Let_def split: if_splits)
  have "copy_inv env cfg C J {} {} (close_task i ((free_slot j ((upd_slot j (\<lambda>s. s\<lparr>bs_task := Some i, bs_state := BUF_FSYNCING\<rparr>) c)
        \<lparr>cc_active_ops := cc_active_ops c + 1\<rparr>))\<lparr>cc_active_ops := cc_active_ops c\<rparr>, k1))" if "err \<noteq> 0"
  proof (rule close)
    show "copy_inv env cfg C J {} {i} (c, k1)" by (rule submit_io_kernel[OF inv q(1,2) k1[OF that]])
    show "cc_slots ((free_slot j ((upd_slot j (\<lambda>s. s\<lparr>bs_task := Some i, bs_state := BUF_FSYNCING\<rparr>) c)
        \<lparr>cc_active_ops := cc_active_ops c + 1\<rparr>))\<lparr>cc_active_ops := cc_active_ops c\<rparr>) = cc_slots c"
      using j free_update[OF j(2) bn] by (simp add: free_slot_def)
  qed (simp_all add: q)
  moreover have "copy_inv env cfg C J {} {} (close_task i (c, k))" by (rule close[OF inv]) simp_all
  ultimately show ?thesis using fsync_inv[OF inv job i t j none _ refl] s by (cases "err = 0") (auto simp: sync_and_close_def Let_def)
qed

lemma finish_task_inv:
  assumes inv: "copy_inv env cfg C J {} {i} (c, k)" and job: "copy_job cfg C J" and i: "i < length (tasks_of c)"
    and t: "opened (tasks_of c ! i)" "ft_reads_done (tasks_of c ! i)"
    and j: "j < length (cc_slots c)" "bs_state (cc_slots c ! j) = BUF_FREE"
    and none: "\<And>b. b \<in> set (cc_slots c) \<Longrightarrow> bs_task b \<noteq> Some i"
    and e: "cc_error (fst (finish_task env cfg i j (c, k))) = 0"
  shows "copy_inv env cfg C J {} {} (finish_task env cfg i j (c, k)) \<and> cc_error c = 0"
proof -
  let ?c = "count_completed c"
  have iv: "copy_inv env cfg C J {} {i} (?c, k)" by (rule copy_inv_cong[OF inv]) simp_all
  obtain c2 k2 where tr: "trim_target env cfg i (?c, k) = (c2, k2)" by (rule prod.exhaust)
  have e2: "cc_error c2 = 0" using e tr by (simp add: finish_task_def)
  note q = trim_target_inv[OF iv job _ _ _ _ tr e2]
  have "c2 = ?c" "copy_inv env cfg C J {} {i} (?c, k2)" "copied C (tasks_of ?c ! i) k2"
    using q i t none by simp_all
  then show ?thesis using sync_and_close_inv[of env cfg C J i ?c k2 j] job i t j none tr e2 by (simp add: finish_task_def)
qed

section \<open>The first error is kept\<close>

lemma set_error_keeps [simp]: "cc_error c \<noteq> 0 \<Longrightarrow> set_error err c = c"
  by (simp add: set_error_def)

lemma op_ended_error [simp]: "cc_error (op_ended i c) = cc_error c"
  by (simp add: op_ended_def)

lemma open_task_error [simp]: "cc_error (fst (snd (open_task env cfg i s))) = cc_error (fst s)"
  by (simp add: open_task_def Let_def case_prod_beta)

lemma finish_task_keeps: "cc_error (fst s) \<noteq> 0 \<Longrightarrow> cc_error (fst (finish_task env cfg i j s)) = cc_error (fst s)"
  by (simp add: finish_task_def trim_target_def Let_def case_prod_beta)

lemma submit_chunk_keeps: "cc_error (fst s) \<noteq> 0 \<Longrightarrow> cc_error (fst (submit_chunk env cfg i j s)) = cc_error (fst s)"
  by (simp add: submit_chunk_def Let_def case_prod_beta)

lemma skip_task_error [simp]: "cc_error (skip_task i c) = cc_error c"
  by (simp add: skip_task_def)

lemma submit_next_read_keeps: "cc_error (fst s) \<noteq> 0 \<Longrightarrow> cc_error (fst (submit_next_read env cfg j s)) = cc_error (fst s)"
proof (induction env cfg j s rule: submit_next_read.induct)
  case (1 env cfg j s)
  show ?case
  proof (cases "find_task (tasks_of (fst s)) (tq_current (cc_queue (fst s)))")
    case (Some i)
    obtain ok s1 where o: "open_task env cfg i s = (ok, s1)" by (rule prod.exhaust)
    let ?f = "finish_task env cfg i j (upd_task i (ft_reads_done_update (\<lambda>_. True)) (fst s1), snd s1)"
    obtain c2 k2 where f: "?f = (c2, k2)" by (rule prod.exhaust)
    have e1: "cc_error (fst s1) = cc_error (fst s)" using open_task_error[of env cfg i s] o by simp
    have e2: "cc_error c2 = cc_error (fst s)" using finish_task_keeps[of "(upd_task i (ft_reads_done_update (\<lambda>_. True)) (fst s1), snd s1)" env cfg i j] e1 1(3) f by simp
    show ?thesis using Some o f e1 e2 1 submit_chunk_keeps[of s env cfg i j] submit_chunk_keeps[of s1 env cfg i j]
      by (subst submit_next_read.simps) simp
  qed (subst submit_next_read.simps, simp)
qed

lemma on_read_complete_keeps: "cc_error (fst s) \<noteq> 0 \<Longrightarrow> cc_error (fst (on_read_complete env cfg j r s)) = cc_error (fst s)"
  by (simp add: on_read_complete_def Let_def case_prod_beta)

lemma on_fsync_complete_keeps: "cc_error (fst s) \<noteq> 0 \<Longrightarrow> cc_error (fst (on_fsync_complete j r s)) = cc_error (fst s)"
  by (simp add: on_fsync_complete_def Let_def case_prod_beta)

lemma on_write_complete_keeps: "cc_error (fst s) \<noteq> 0 \<Longrightarrow> cc_error (fst (on_write_complete env cfg j r s)) = cc_error (fst s)"
  by (auto simp: on_write_complete_def Let_def case_prod_beta finish_task_keeps)

lemma complete_one_keeps: "cc_error (fst s) \<noteq> 0 \<Longrightarrow> cc_error (fst (complete_one env cfg nr s)) = cc_error (fst s)"
proof -
  assume e: "cc_error (fst s) \<noteq> 0"
  have k: "cc_error (fst (kernel_effect q r s')) = cc_error (fst s')" for q r s'
    by (simp add: kernel_effect_def Let_def case_prod_beta split: op_kind.split option.split)
  show ?thesis using e k
    by (simp add: complete_one_def Let_def case_prod_beta run_callback_def on_read_complete_keeps on_write_complete_keeps on_fsync_complete_keeps split: op_kind.split)
qed

section \<open>Opening a task\<close>

lemma open_task_inv:
  assumes inv: "copy_inv env cfg C J {} {} (c, k)" and job: "copy_job cfg C J" and i: "i < length (tasks_of c)"
    and t: "\<not> ft_done (tasks_of c ! i)" "ft_src_fd (tasks_of c ! i) < 0"
    and j: "j < length (cc_slots c)" "bs_state (cc_slots c ! j) = BUF_FREE"
    and s: "open_task env cfg i (c, k) = (True, (c1, k1))"
    and c': "c' = upd_task i (\<lambda>t. t\<lparr>ft_reads_done := ft_file_size t = 0\<rparr>) c1"
  shows "copy_inv env cfg C J {} {x. x = i \<and> ft_file_size (tasks_of c ! i) = 0} (c', k1)" "opened (tasks_of c' ! i)"
    "cc_slots c' = cc_slots c" "length (tasks_of c') = length (tasks_of c)"
    "map ft_reads_done (tasks_of c') = (map ft_reads_done (tasks_of c))[i := ft_file_size (tasks_of c ! i) = 0]"
    "ft_file_size (tasks_of c' ! i) = ft_file_size (tasks_of c ! i)" "b \<in> set (cc_slots c) \<Longrightarrow> bs_task b \<noteq> Some i"
proof -
  let ?t = "tasks_of c ! i" and ?b = "cc_slots c ! j"
  note p = copy_inv_parts[OF inv] and jp = job_paths[OF job[folded copy_inv_parts(1)[OF inv]] i i]
  obtain sfd ka where a: "open_fd (ft_src_path ?t) k = (sfd, ka)" by (rule prod.exhaust)
  obtain dfd kb where b: "open_fd (ft_dst_path ?t) ka = (dfd, kb)" by (rule prod.exhaust)
  note fa = open_fd_file[OF a] and fb = open_fd_file[OF b]
  define d where "d = (if ft_file_size ?t > 0 \<and> ce_fallocate env (ft_dst_path ?t) then replicate (ft_file_size ?t) (0 :: byte) else [])"
  define t' where "t' = ?t\<lparr>ft_src_fd := sfd, ft_dst_fd := dfd, ft_reads_done := ft_file_size ?t = 0\<rparr>"
  have ts: "tasks_of c' = (tasks_of c)[i := t']" "task_static t' = task_static ?t" and sl: "cc_slots c' = (cc_slots c)[j := ?b]"
    and k1: "k1 = kb\<lparr>k_contents := (k_contents kb)(ft_dst_path ?t := Some d)\<rparr>"
    and q: "cc_active_ops c' = cc_active_ops c" "tq_current (cc_queue c') = tq_current (cc_queue c)"
    using s a b i by (auto simp: open_task_def Let_def c' t'_def d_def task_static_def split: if_splits)
  have none: "bs_task b \<noteq> Some i" if "b \<in> set (cc_slots c)" for b
    using p(3) that t by (auto simp: slot_ok_def opened_def)
  have bn: "bs_task ?b = None" using free_task[of cfg C "tasks_of c" ?b] p(3) j by simp
  have st: "map task_static (tasks_of c') = map task_static (tasks_of c)" using ts i by (metis list_update_id map_update)
  have tk0: "ft_read_offset ?t = 0" "ft_active_ops ?t = int (length (filter (io_on i) (cc_slots c)))"
    "k_contents k (ft_src_path ?t) = C (ft_src_path ?t)" using p(4)[OF i] t by (simp_all add: task_ok_def)
  have op: "opened t'" using t fa(1) by (simp add: opened_def t'_def)
  have fd1: "fd_file x k1 = (if x = dfd then Some (ft_dst_path ?t) else if x = sfd then Some (ft_src_path ?t) else fd_file x k)" for x
  proof -
    have "fd_file x k1 = fd_file x kb" by (simp add: k1 fd_file_def)
    then show ?thesis using fa(3)[of x] fb(3)[of x] by simp
  qed
  have ne: "sfd \<noteq> dfd" using fb(2) fa(3)[of dfd] by (auto split: if_splits)
  have other: "fd_file x k = Some y \<Longrightarrow> x \<noteq> sfd \<and> x \<noteq> dfd" for x y using fa(2) fb(2) fa(3)[of x] by (auto split: if_splits)
  have fl: "length d \<le> ft_file_size ?t" by (simp add: d_def)
  have tk: "task_ok env cfg C (i \<in> {x. x = i \<and> ft_file_size ?t = 0}) (cc_slots c') k1 i t'"
  proof -
    have sl0: "cc_slots c' = cc_slots c" using sl by simp
    have none': "\<forall>x < length (cc_slots c). bs_task (cc_slots c ! x) \<noteq> Some i" using none by simp
    have "fd_file sfd k1 = Some (ft_src_path ?t)" "fd_file dfd k1 = Some (ft_dst_path ?t)" using fd1 ne by simp_all
    moreover have "k_contents k1 = (k_contents k)(ft_dst_path ?t := Some d)" using fa(4) fb(4) by (simp add: k1)
    ultimately show ?thesis using tk0 t fa(1) ne fl none' jp(1) unfolding sl0 by (auto simp: task_ok_def open_task_ok_def t'_def)
  qed
  show "copy_inv env cfg C J {} {x. x = i \<and> ft_file_size ?t = 0} (c', k1)"
  proof (rule copy_inv_step[OF inv job i ts j(1) sl])
    show "ops_ok {} (c', k1)" using ops_ok_step[OF p(2,3) st j(1) sl, of k1 "[]"] j(2) fa fb by (simp add: slot_ops_def k1)
    show "slot_ok cfg C (tasks_of c') ?b" using p(3) j bn by (simp add: slot_ok_def)
    show "fds_apart (tasks_of c')" unfolding ts(1)
    proof (rule fds_apart_fresh[OF p(5) i])
      show "{ft_src_fd t', ft_dst_fd t'} \<inter> {ft_src_fd (tasks_of c ! i'), ft_dst_fd (tasks_of c ! i')} = {}"
        if "i' < length (tasks_of c)" "i' \<noteq> i" "opened (tasks_of c ! i')" for i'
        using target_fd[OF inv that(1,3)] other by (auto simp: t'_def)
    qed
    show "fd_file (ft_src_fd (tasks_of c ! i')) k1 = fd_file (ft_src_fd (tasks_of c ! i')) k \<and>
        fd_file (ft_dst_fd (tasks_of c ! i')) k1 = fd_file (ft_dst_fd (tasks_of c ! i')) k"
      if "i' < length (tasks_of c)" "i' \<noteq> i" "opened (tasks_of c ! i')" for i'
      using target_fd[OF inv that(1,3)] other by (auto simp: fd1)
    show "ft_reads_done (tasks_of c ! x) \<or> ft_done (tasks_of c ! x)" if "x < tq_current (cc_queue c')" "x < length (tasks_of c)" for x
      using that p(7) q by simp
    show "ft_reads_done t' \<or> ft_done t'" if "i < tq_current (cc_queue c')"
      using that p(7) q(2) i t p(4)[OF i] by (auto simp: task_ok_def)
  qed (use tk bn q fa fb op none in \<open>auto simp: t'_def k1\<close>)
  show "opened (tasks_of c' ! i)" "cc_slots c' = cc_slots c" "length (tasks_of c') = length (tasks_of c)"
    "map ft_reads_done (tasks_of c') = (map ft_reads_done (tasks_of c))[i := ft_file_size (tasks_of c ! i) = 0]"
    "ft_file_size (tasks_of c' ! i) = ft_file_size (tasks_of c ! i)" "b \<in> set (cc_slots c) \<Longrightarrow> bs_task b \<noteq> Some i"
    using op ts(1) i sl none by (simp_all add: map_update t'_def)
qed

lemma open_task_refused:
  assumes "open_task env cfg i (c, k) = (False, (c1, k1))" "i < length (tasks_of c)"
  obtains fd where "tasks_of c1 = (tasks_of c)[i := (tasks_of c ! i)\<lparr>ft_src_fd := -1, ft_dst_fd := fd\<rparr>]"
    "cc_slots c1 = cc_slots c" "cc_active_ops c1 = cc_active_ops c" "tq_current (cc_queue c1) = tq_current (cc_queue c)"
    "not_opened env (tasks_of c ! i)" "k_contents k1 = k_contents k" "k_ops k1 = k_ops k" "\<And>x. fd_file x k1 = fd_file x k"
proof -
  let ?t = "tasks_of c ! i"
  obtain sfd ka where a: "open_fd (ft_src_path ?t) k = (sfd, ka)" by (rule prod.exhaust)
  note f = open_fd_file[OF a]
  have g: "fd_file x (close_fd sfd ka) = fd_file x k" for x using f(1,2) f(3)[of x] by (simp add: close_fd_file)
  show ?thesis
  proof (cases "ce_open env (ft_src_path ?t) = 0")
    case True
    then have "ce_open env (ft_dst_path ?t) \<noteq> 0" using assms(1) a by (auto simp: open_task_def Let_def split: if_splits prod.splits)
    then have "c1 = upd_task i (\<lambda>t. t\<lparr>ft_src_fd := -1, ft_dst_fd := -1\<rparr>) c" "k1 = close_fd sfd ka"
      using assms(1) a True by (simp_all add: open_task_def Let_def)
    then show ?thesis using that[of "-1"] f g \<open>ce_open env (ft_dst_path ?t) \<noteq> 0\<close> by (simp add: not_opened_def close_fd_file)
  next
    case False
    then have "c1 = upd_task i (\<lambda>t. t\<lparr>ft_src_fd := -1\<rparr>) c" "k1 = k" using assms(1) by (simp_all add: open_task_def Let_def)
    then show ?thesis using that[of "ft_dst_fd ?t"] False by (simp add: not_opened_def)
  qed
qed

lemma skip_task_inv:
  assumes inv: "copy_inv env cfg C J {} {} (c, k)" and job: "copy_job cfg C J" and i: "i < length (tasks_of c)"
    and t: "\<not> ft_done (tasks_of c ! i)" "ft_src_fd (tasks_of c ! i) < 0"
    and j: "j < length (cc_slots c)" "bs_state (cc_slots c ! j) = BUF_FREE"
    and cur: "\<And>x. x < i \<Longrightarrow> ft_reads_done (tasks_of c ! x) \<or> ft_done (tasks_of c ! x)"
    and s: "open_task env cfg i (c, k) = (False, (c1, k1))"
  shows "copy_inv env cfg C J {} {} (skip_task i c1, k1)" "cc_slots (skip_task i c1) = cc_slots c"
proof -
  let ?t = "tasks_of c ! i" and ?b = "cc_slots c ! j" and ?c = "skip_task i c1"
  note p = copy_inv_parts[OF inv]
  obtain fd where o: "tasks_of c1 = (tasks_of c)[i := ?t\<lparr>ft_src_fd := -1, ft_dst_fd := fd\<rparr>]"
    "cc_slots c1 = cc_slots c" "cc_active_ops c1 = cc_active_ops c" "tq_current (cc_queue c1) = tq_current (cc_queue c)"
    "not_opened env ?t" "k_contents k1 = k_contents k" "k_ops k1 = k_ops k" "\<And>x. fd_file x k1 = fd_file x k"
    using open_task_refused[OF s i] by blast
  define t' where "t' = ?t\<lparr>ft_src_fd := -1, ft_dst_fd := fd, ft_reads_done := True, ft_done := True\<rparr>"
  have ts: "tasks_of ?c = (tasks_of c)[i := t']" "task_static t' = task_static ?t" and sl: "cc_slots ?c = (cc_slots c)[j := ?b]"
    using o(1,2) i by (simp_all add: skip_task_def t'_def task_static_def)
  show "cc_slots ?c = cc_slots c" using sl by simp
  have bn: "bs_task ?b = None" using free_task[of cfg C "tasks_of c" ?b] p(3) j by simp
  have none: "bs_task b \<noteq> Some i" if "b \<in> set (cc_slots c)" for b
    using p(3) that t by (auto simp: slot_ok_def opened_def)
  have st: "map task_static (tasks_of ?c) = map task_static (tasks_of c)" using ts i by (metis list_update_id map_update)
  show "copy_inv env cfg C J {} {} (?c, k1)"
  proof (rule copy_inv_step[OF inv job i ts j(1) sl])
    show "ops_ok {} (?c, k1)" using ops_ok_step[OF p(2,3) st j(1) sl, of k1 "[]"] j(2) o(7) by (simp add: slot_ops_def)
    show "slot_ok cfg C (tasks_of ?c) ?b" using p(3) j bn by (simp add: slot_ok_def)
    show "task_ok env cfg C (i \<in> {}) (cc_slots ?c) k1 i t'"
      using p(4)[OF i] o(5,6) sl by (simp add: task_ok_def t'_def not_opened_def)
    show "fds_apart (tasks_of ?c)" unfolding ts(1) by (rule fds_apart_keep[OF p(5) i]) (simp add: t'_def opened_def)
    show "ft_reads_done (tasks_of c ! x) \<or> ft_done (tasks_of c ! x)" if "x < tq_current (cc_queue ?c)" "x \<noteq> i" for x
      using that cur[of x] by (simp add: skip_task_def)
  qed (use o bn none in \<open>auto simp: t'_def skip_task_def\<close>)
qed

lemma finish_no_fsync_slots: "no_fsync cfg \<Longrightarrow> cc_slots (fst (finish_task env cfg i j s)) = cc_slots (fst s)"
  by (simp add: finish_task_def sync_and_close_def trim_target_def close_task_def Let_def case_prod_beta)

lemma set_current_inv:
  assumes "copy_inv env cfg C J D X (c, k)" "\<And>x. x < n \<Longrightarrow> x < length (tasks_of c) \<Longrightarrow> ft_reads_done (tasks_of c ! x) \<or> ft_done (tasks_of c ! x)"
  shows "copy_inv env cfg C J D X (set_current n c, k)"
  using assms unfolding copy_inv_def ops_ok_def by simp

text \<open>A task never loses its flags.\<close>

lemma finish_task_flags:
  "ft_reads_done (tasks_of (fst s) ! x) \<Longrightarrow> ft_reads_done (tasks_of (fst (finish_task env cfg i j s)) ! x)"
  "ft_done (tasks_of (fst s) ! x) \<Longrightarrow> ft_done (tasks_of (fst (finish_task env cfg i j s)) ! x)"
  by (auto simp: finish_task_def sync_and_close_def trim_target_def close_task_def Let_def case_prod_beta nth_update_if)

lemma open_task_tasks:
  assumes "open_task env cfg i (c, k) = (True, (c1, k1))"
  obtains sfd dfd where "tasks_of c1 = (tasks_of c)[i := (tasks_of c ! i)\<lparr>ft_src_fd := sfd, ft_dst_fd := dfd\<rparr>]"
  using assms that by (auto simp: open_task_def Let_def split: if_splits prod.splits)

lemma read_opened_inv:
  assumes inv: "copy_inv env cfg C J {} {} (c, k)" and job: "copy_job cfg C J" and i: "i < length (tasks_of c)"
    and t: "\<not> ft_done (tasks_of c ! i)" "ft_src_fd (tasks_of c ! i) < 0" "\<not> ft_reads_done (tasks_of c ! i)" "ft_file_size (tasks_of c ! i) \<noteq> 0"
    and j: "j < length (cc_slots c)" "bs_state (cc_slots c ! j) = BUF_FREE"
    and cur: "\<And>x. x < i \<Longrightarrow> ft_reads_done (tasks_of c ! x) \<or> ft_done (tasks_of c ! x)"
    and s: "open_task env cfg i (c, k) = (True, (c1, k1))" "submit_chunk env cfg i j (c1, k1) = (c2, k2)" "cc_error c2 = 0"
  shows "copy_inv env cfg C J {} {} (c2, k2)"
proof -
  define c' where "c' = upd_task i (\<lambda>t. t\<lparr>ft_reads_done := ft_file_size t = 0\<rparr>) c1"
  note o = open_task_inv[OF inv job i t(1,2) j s(1) c'_def]
  obtain sfd dfd where ts: "tasks_of c1 = (tasks_of c)[i := (tasks_of c ! i)\<lparr>ft_src_fd := sfd, ft_dst_fd := dfd\<rparr>]"
    by (rule open_task_tasks[OF s(1)])
  have eq: "tasks_of c1 = tasks_of c'" using ts t(3,4) i by (cases "tasks_of c ! i") (simp add: c'_def)
  have "copy_inv env cfg C J {} {} (c', k1)" using o(1) t(4) by simp
  then have "copy_inv env cfg C J {} {} (c1, k1)" by (rule copy_inv_cong[OF _ eq]) (simp_all add: c'_def)
  then show ?thesis
  proof (rule submit_chunk_inv[OF _ job])
    show "opened (tasks_of c1 ! i)" using o(2) by (simp only: eq)
    show "\<not> ft_reads_done (tasks_of c1 ! i)" "i < length (tasks_of c1)" using ts t(3) i by simp_all
    show "j < length (cc_slots c1)" "bs_state (cc_slots c1 ! j) = BUF_FREE" using o(3) j by (simp_all add: c'_def)
    show "ft_reads_done (tasks_of c1 ! x) \<or> ft_done (tasks_of c1 ! x)" if "x < i" for x using cur[OF that] ts that by simp
  qed (use s in simp_all)
qed

lemma finish_empty_inv:
  assumes inv: "copy_inv env cfg C J {} {} (c, k)" and job: "copy_job cfg C J" and i: "i < length (tasks_of c)"
    and t: "\<not> ft_done (tasks_of c ! i)" "ft_src_fd (tasks_of c ! i) < 0" "ft_file_size (tasks_of c ! i) = 0"
    and j: "j < length (cc_slots c)" "bs_state (cc_slots c ! j) = BUF_FREE"
    and cur: "\<And>x. x < i \<Longrightarrow> ft_reads_done (tasks_of c ! x) \<or> ft_done (tasks_of c ! x)"
    and s: "open_task env cfg i (c, k) = (True, (c1, k1))"
      "finish_task env cfg i j (upd_task i (\<lambda>t. t\<lparr>ft_reads_done := True\<rparr>) c1, k1) = (c2, k2)" "cc_error c2 = 0"
  shows "copy_inv env cfg C J {} {} (set_current (Suc i) c2, k2)" "cc_slots c2 = cc_slots c"
proof -
  define c' where "c' = upd_task i (\<lambda>t. t\<lparr>ft_reads_done := ft_file_size t = 0\<rparr>) c1"
  note o = open_task_inv[OF inv job i t(1,2) j s(1) c'_def]
  obtain sfd dfd where ts: "tasks_of c1 = (tasks_of c)[i := (tasks_of c ! i)\<lparr>ft_src_fd := sfd, ft_dst_fd := dfd\<rparr>]"
    by (rule open_task_tasks[OF s(1)])
  have c': "c' = upd_task i (\<lambda>t. t\<lparr>ft_reads_done := True\<rparr>) c1" using ts t(3) i by (simp add: c'_def upd_task_def)
  have rd: "ft_reads_done (tasks_of c' ! i)" using ts i by (simp add: c')
  have nf: "no_fsync cfg" using job_paths(5)[OF job[folded copy_inv_parts(1)[OF inv]] i i t(3)] .
  have "copy_inv env cfg C J {} {i} (c', k1)" using o(1) t(3) by (simp add: Collect_conv_if)
  then have "copy_inv env cfg C J {} {} (finish_task env cfg i j (c', k1)) \<and> cc_error c' = 0"
    using finish_task_inv[OF _ job _ o(2) rd, of env k1 j] o i j s(2,3) c' by simp
  moreover have "ft_reads_done (tasks_of c2 ! x) \<or> ft_done (tasks_of c2 ! x)" if "x < Suc i" for x
  proof -
    have "ft_reads_done (tasks_of c' ! x) \<or> ft_done (tasks_of c' ! x)"
      using that cur[of x] rd ts by (cases "x = i") (auto simp: c')
    then show ?thesis using finish_task_flags[of "(c', k1)" x env cfg i j] s(2) c' by auto
  qed
  ultimately show "copy_inv env cfg C J {} {} (set_current (Suc i) c2, k2)" using s(2) c' by (intro set_current_inv) simp_all
  show "cc_slots c2 = cc_slots c" using finish_no_fsync_slots[OF nf, of env i j "(c', k1)"] s(2) c' o(3) by simp
qed

lemma submit_next_read_inv:
  "copy_inv env cfg C J {} {} s \<Longrightarrow> copy_job cfg C J \<Longrightarrow> j < length (cc_slots (fst s)) \<Longrightarrow> bs_state (cc_slots (fst s) ! j) = BUF_FREE \<Longrightarrow>
   cc_error (fst (submit_next_read env cfg j s)) = 0 \<Longrightarrow>
   copy_inv env cfg C J {} {} (submit_next_read env cfg j s) \<and> cc_error (fst s) = 0"
proof (induction env cfg j s rule: submit_next_read.induct)
  case (1 env cfg j s)
  note inv = 1(3) and job = 1(4) and j = 1(5,6)
  obtain c k where s: "s = (c, k)" by (rule prod.exhaust)
  have e0: "cc_error (fst s) = 0" using submit_next_read_keeps[of s env cfg j] 1(7) by (metis)
  show ?case
  proof (cases "find_task (tasks_of c) (tq_current (cc_queue c))")
    case None
    then show ?thesis using inv e0 s by (subst submit_next_read.simps) simp
  next
    case (Some i)
    note f = find_task_Some[OF Some]
    have i: "i < length (tasks_of c)" "\<not> ft_reads_done (tasks_of c ! i)" "\<not> ft_done (tasks_of c ! i)" using f by simp_all
    have cur: "ft_reads_done (tasks_of c ! x) \<or> ft_done (tasks_of c ! x)" if "x < i" for x
      using that f inv by (cases "x < tq_current (cc_queue c)") (auto simp: copy_inv_def s)
    show ?thesis
    proof (cases "ft_src_fd (tasks_of c ! i) < 0")
      case False
      then have d: "submit_next_read env cfg j s = submit_chunk env cfg i j (c, k)"
        using Some s by (subst submit_next_read.simps) simp
      obtain c' k' where n: "submit_chunk env cfg i j (c, k) = (c', k')" by (rule prod.exhaust)
      have "opened (tasks_of c ! i)" using False i by (simp add: opened_def)
      from submit_chunk_inv[OF inv[unfolded s] job i(1) this i(2) _ _ cur n] show ?thesis
        using d n e0 j 1(7) s by simp
    next
      case True
      obtain ok c1 k1 where o: "open_task env cfg i (c, k) = (ok, (c1, k1))" by (rule prod_cases3)
      show ?thesis
      proof (cases ok)
        case False
        then have sk: "copy_inv env cfg C J {} {} (skip_task i c1, k1)" "cc_slots (skip_task i c1) = cc_slots c"
          using skip_task_inv[OF inv[unfolded s] job i(1,3) True _ _ cur] j o s by simp_all
        have d: "submit_next_read env cfg j s = submit_next_read env cfg j (skip_task i c1, k1)"
          using Some s o True False by (subst submit_next_read.simps) simp
        show ?thesis using 1(1)[OF _ _ _ _ _ job, of i ok "(c1, k1)"] d e0 1(7) sk j Some s True o False by simp
      next
        case ok: True
        obtain sfd dfd where ts: "tasks_of c1 = (tasks_of c)[i := (tasks_of c ! i)\<lparr>ft_src_fd := sfd, ft_dst_fd := dfd\<rparr>]"
          by (rule open_task_tasks[of env cfg i c k c1 k1]) (use o ok in simp)
        show ?thesis
        proof (cases "ft_file_size (tasks_of c ! i) = 0")
          case False
          obtain c2 k2 where n: "submit_chunk env cfg i j (c1, k1) = (c2, k2)" by (rule prod.exhaust)
          have d: "submit_next_read env cfg j s = (c2, k2)"
            using Some s o True ok False ts i n by (subst submit_next_read.simps) simp
          from read_opened_inv[OF inv[unfolded s] job i(1,3) True i(2) False _ _ cur _ n] show ?thesis
            using d o ok e0 j 1(7) s by simp
        next
          case z: True
          obtain c2 k2 where n: "finish_task env cfg i j (upd_task i (\<lambda>t. t\<lparr>ft_reads_done := True\<rparr>) c1, k1) = (c2, k2)" by (rule prod.exhaust)
          have d: "submit_next_read env cfg j s = submit_next_read env cfg j (set_current (Suc i) c2, k2)"
            using Some s o True ok z ts i n by (subst submit_next_read.simps) simp
          have "cc_error c2 = 0" using 1(7) d submit_next_read_keeps[of "(set_current (Suc i) c2, k2)" env cfg j] by fastforce
          then have "copy_inv env cfg C J {} {} (set_current (Suc i) c2, k2)" "cc_slots c2 = cc_slots c"
            using finish_empty_inv[OF inv[unfolded s] job i(1,3) True z _ _ cur _ n] j o ok s by simp_all
          then show ?thesis
            using 1(2)[OF _ _ _ _ _ _ _ job, of i ok "(c1, k1)" c2 k2] d e0 1(7) j Some s True o ok z ts i n by simp
        qed
      qed
    qed
  qed
qed

section \<open>Completions\<close>

text \<open>
  What the kernel may answer to a request: a read of a regular file returns an error or everything
  asked for up to the end of the file, a write no more than asked for.
\<close>

definition sound_completion :: "kernel \<Rightarrow> nat \<times> int \<Rightarrow> bool" where
  "sound_completion k nr \<longleftrightarrow>
    (case nr of (n, result) \<Rightarrow> n < length (k_ops k) \<longrightarrow>
       (let q = k_ops k ! n; size = length (case k_contents k (the (op_file q)) of Some xs \<Rightarrow> xs | None \<Rightarrow> [])
        in case op_kind_of q of
          OpRead \<Rightarrow> result < 0 \<or> result = int (min (op_len q) (size - op_off q))
        | OpWrite \<Rightarrow> result \<le> int (op_len q)
        | OpFsync \<Rightarrow> True))"

lemma take_op_inv:
  assumes inv: "copy_inv env cfg C J {} X (c, k)" and n: "n < length (k_ops k)"
  defines "q \<equiv> k_ops k ! n"
  shows "copy_inv env cfg C J {op_slot q} X (c, take_op n k)" "op_slot q < length (cc_slots c)"
    "slot_ops (tasks_of c) (op_slot q) (cc_slots c ! op_slot q) = [q]"
proof -
  let ?j = "op_slot q"
  note p = copy_inv_parts[OF inv]
  show j: "?j < length (cc_slots c)" using p(2) n by (simp add: ops_ok_def q_def)
  have f: "filter (\<lambda>x. op_slot x = j') (k_ops k) = slot_ops (tasks_of c) j' (cc_slots c ! j')" if "j' < length (cc_slots c)" for j'
    using p(2) that by (simp add: ops_ok_def)
  have "q \<in> set (filter (\<lambda>x. op_slot x = ?j) (k_ops k))" using n by (simp add: q_def)
  then have "slot_ops (tasks_of c) ?j (cc_slots c ! ?j) \<noteq> []" unfolding f[OF j] by auto
  then obtain y where y: "slot_ops (tasks_of c) ?j (cc_slots c ! ?j) = [y]"
    by (auto simp: slot_ops_def Let_def split: buf_state.splits)
  note r = filter_remove_nth[OF n _ f[OF j, unfolded y]]
  show so: "slot_ops (tasks_of c) ?j (cc_slots c ! ?j) = [q]" using r(1) y by (simp add: q_def)
  have "filter (\<lambda>x. op_slot x = j') (k_ops (take_op n k)) = (if j' \<in> {?j} then [] else slot_ops (tasks_of c) j' (cc_slots c ! j'))"
    if "j' < length (cc_slots c)" for j'
    using that f[OF that] r(2) filter_remove_other[OF n, of "\<lambda>x. op_slot x = j'"] by (auto simp: take_op_def q_def)
  moreover have "set (k_ops (take_op n k)) \<subseteq> set (k_ops k)" by (auto simp: take_op_def dest: in_set_takeD in_set_dropD)
  ultimately have "ops_ok {?j} (c, take_op n k)" using p(2) by (auto simp: ops_ok_def)
  moreover have "task_ok env cfg C (i \<in> X) (cc_slots c) (take_op n k) i (tasks_of c ! i)" if "i < length (tasks_of c)" for i
    by (rule task_ok_other[OF p(4)[OF that]]) (simp_all add: take_op_def fd_file_def same_for_def list_all2_same)
  ultimately show "copy_inv env cfg C J {?j} X (c, take_op n k)" using inv by (simp add: copy_inv_def)
qed

lemma pwrite_length: "length (pwrite off bs xs) = max (length xs) (off + length bs)"
  by (auto simp: pwrite_def max_def min_def)

lemma pwrite_nth:
  "off \<le> p \<Longrightarrow> p < off + length bs \<Longrightarrow> pwrite off bs xs ! p = bs ! (p - off)"
  "p < length xs \<Longrightarrow> p < off \<or> off + length bs \<le> p \<Longrightarrow> pwrite off bs xs ! p = xs ! p"
  by (auto simp: pwrite_def nth_append min_def)

lemma chunk_bounds:
  assumes "copy_job cfg C J" "chunk_ok cfg C t b" "ft_read_offset t \<le> ft_file_size t" "length (content C t) = ft_file_size t"
  shows "bs_data_bytes b \<le> bs_bytes b" "bs_bytes b \<le> chunk_size cfg" "bs_offset b + bs_data_bytes b \<le> ft_file_size t"
    "min (bs_bytes b) (ft_file_size t - bs_offset b) = bs_data_bytes b" "bs_bytes b = bs_data_bytes b \<or> bs_offset b + bs_data_bytes b = ft_file_size t"
proof -
  let ?d = "bs_data_bytes b"
  have b: "?d \<le> chunk_size cfg" "chunk_size cfg < 2 ^ 62" "bs_bytes b = io_length cfg ?d" "use_direct cfg \<longrightarrow> 512 dvd chunk_size cfg"
    "?d = min (chunk_size cfg) (ft_file_size t - bs_offset b)" "bs_offset b + ?d \<le> ft_file_size t"
    using assms by (auto simp: copy_job_def chunk_ok_def)
  have d: "?d < 2 ^ 63" using b(1,2) by simp
  show 1: "?d \<le> bs_bytes b" using io_length_ge[OF d] b(3) by simp
  show 2: "bs_bytes b \<le> chunk_size cfg"
    using io_length_le[OF d b(1)] b by (cases "use_direct cfg") (auto simp: io_length_def)
  show 3: "bs_offset b + ?d \<le> ft_file_size t" using b by simp
  have "?d = chunk_size cfg \<Longrightarrow> bs_bytes b = ?d" using 1 2 by simp
  then show "bs_bytes b = ?d \<or> bs_offset b + ?d = ft_file_size t" using b(5,6) by (auto simp: min_def split: if_splits)
  then show "min (bs_bytes b) (ft_file_size t - bs_offset b) = ?d" using 1 3 by auto
qed

lemma slot_task:
  assumes "copy_inv env cfg C J D X (c, k)" "j < length (cc_slots c)" "bs_state (cc_slots c ! j) \<noteq> BUF_FREE"
  obtains i where "bs_task (cc_slots c ! j) = Some i" "i < length (tasks_of c)" "opened (tasks_of c ! i)"
    "busy_io (cc_slots c ! j) \<Longrightarrow> chunk_ok cfg C (tasks_of c ! i) (cc_slots c ! j)" "chunk_size cfg \<le> length (bs_buf (cc_slots c ! j))"
proof -
  have s: "slot_ok cfg C (tasks_of c) (cc_slots c ! j)" using copy_inv_parts(3)[OF assms(1)] assms(2) by simp
  then obtain i where i: "bs_task (cc_slots c ! j) = Some i" using assms(3) by (auto simp: slot_ok_def split: option.splits)
  then show ?thesis using s that[of i] assms(3)
    by (auto simp: slot_ok_def busy_io_def split: buf_state.splits)
qed

text \<open>A slot that stays on the same chunk of the same task leaves the task as it is.\<close>

lemma way_same:
  assumes "j < length bs" "io_on i (bs ! j) = io_on i b'" "bs_offset b' = bs_offset (bs ! j)" "bs_data_bytes b' = bs_data_bytes (bs ! j)"
  shows "on_its_way (bs[j := b']) i p = on_its_way bs i p"
proof -
  have "on_its_way xs i p \<longleftrightarrow> (\<exists>x < length xs. io_on i (xs ! x) \<and> bs_offset (xs ! x) \<le> p \<and> p < bs_offset (xs ! x) + bs_data_bytes (xs ! x))" for xs
    unfolding on_its_way_def by (metis in_set_conv_nth)
  then show ?thesis using assms by (simp add: nth_update_if) (metis)
qed

lemma write_started_inv:
  assumes inv: "copy_inv env cfg C J {j} {} (c, k)" and job: "copy_job cfg C J" and i: "i < length (tasks_of c)" "opened (tasks_of c ! i)"
    and j: "j < length (cc_slots c)" "bs_task (cc_slots c ! j) = Some i" "bs_state (cc_slots c ! j) = BUF_READING"
    and b': "bs_task b' = Some i" "bs_state b' = BUF_WRITING" "bs_offset b' = bs_offset (cc_slots c ! j)"
      "bs_data_bytes b' = bs_data_bytes (cc_slots c ! j)" "slot_ok cfg C (tasks_of c) b'"
    and c': "cc_queue c' = cc_queue c" "cc_slots c' = (cc_slots c)[j := b']" "cc_active_ops c' = cc_active_ops c"
    and s: "submit_io env OpWrite j (ft_dst_fd (tasks_of c ! i)) (bs_bytes b') (bs_offset b') k = (0, k')"
  shows "copy_inv env cfg C J {} {} (c', k')"
proof -
  let ?t = "tasks_of c ! i"
  note p = copy_inv_parts[OF inv] and q = submit_io_ok[OF s] and fd = target_fd[OF inv i]
  have ts: "tasks_of c' = (tasks_of c)[i := ?t]" using c'(1) by simp
  have ot: "open_task_ok cfg C False (cc_slots c) k i ?t" using opened_ok[OF p(4)[OF i(1)] i(2)] by simp
  have fs: "\<not> (bs_task (cc_slots c ! x) = Some i \<and> bs_state (cc_slots c ! x) = BUF_FSYNCING)" if "x < length (cc_slots c)" for x
    using ot that j unfolding open_task_ok_def by (metis buf_state.distinct(9))
  have "open_task_ok cfg C False (cc_slots c') k' i ?t"
  proof -
    have w: "on_its_way (cc_slots c') i x = on_its_way (cc_slots c) i x" for x
      unfolding c'(2) using j b' by (intro way_same) (auto simp: io_on_def busy_io_def)
    have "\<exists>b \<in> set (cc_slots c'). bs_task b = Some i" using j(1) b'(1) by (intro bexI[of _ b']) (simp_all add: c'(2) set_update_memI)
    moreover have "\<not> (bs_task (cc_slots c' ! x) = Some i \<and> bs_state (cc_slots c' ! x) = BUF_FSYNCING)" if "x < length (cc_slots c')" for x
      using fs[of x] that b' by (cases "x = j") (auto simp: c'(2))
    ultimately show ?thesis using ot unfolding open_task_ok_def w q by blast
  qed
  moreover have "int (length (filter (io_on i) (cc_slots c'))) = int (length (filter (io_on i) (cc_slots c)))"
    unfolding c'(2) length_filter_update[OF j(1)] using j b' by (simp add: io_on_def busy_io_def)
  ultimately have tk: "task_ok env cfg C (i \<in> {}) (cc_slots c') k' i ?t" using p(4)[OF i(1)] i(2) q(1) by (simp add: task_ok_def opened_def)
  show ?thesis
  proof (rule copy_inv_step[OF inv job i(1) ts refl j(1) c'(2)])
    show "ops_ok {} (c', k')" using ops_ok_step[OF p(2,3) _ j(1) c'(2), of k' "slot_ops (tasks_of c') j b'"] q(3) fd b' c'(1)
      by (simp add: slot_ops_def)
    show "fds_apart (tasks_of c')" using p(5) c'(1) by simp
    show "ft_reads_done (tasks_of c ! x) \<or> ft_done (tasks_of c ! x)" if "x < tq_current (cc_queue c')" "x < length (tasks_of c)" for x
      using that p(7) c'(1) by simp
  qed (use q tk j b' c' i p(7) in auto)
qed

lemma slot_ops_op:
  assumes "slot_ops ts j b = [q]"
  shows "op_kind_of q = OpRead \<Longrightarrow> bs_state b = BUF_READING \<and> op_file q = Some (ft_src_path (ts ! the (bs_task b))) \<and> op_len q = bs_bytes b \<and> op_off q = bs_offset b"
    "op_kind_of q = OpWrite \<Longrightarrow> bs_state b = BUF_WRITING \<and> op_file q = Some (ft_dst_path (ts ! the (bs_task b))) \<and> op_len q = bs_bytes b \<and> op_off q = bs_offset b"
    "op_kind_of q = OpFsync \<Longrightarrow> bs_state b = BUF_FSYNCING"
  using assms by (auto simp: slot_ops_def Let_def split: buf_state.splits)

lemma chunk_parts:
  assumes "chunk_ok cfg C t b"
  shows "0 < bs_data_bytes b" "bs_bytes b = io_length cfg (bs_data_bytes b)" "bs_offset b + bs_data_bytes b \<le> ft_read_offset t"
    "bs_data_bytes b = min (chunk_size cfg) (ft_file_size t - bs_offset b)"
    "bs_state b = BUF_WRITING \<Longrightarrow> bs_bytes b \<le> length (bs_buf b)"
    "bs_state b = BUF_WRITING \<Longrightarrow> take (bs_data_bytes b) (bs_buf b) = take (bs_data_bytes b) (drop (bs_offset b) (content C t))"
  using assms unfolding chunk_ok_def by blast+

lemma read_result:
  assumes inv: "copy_inv env cfg C J {} {} (c, k)" and job: "copy_job cfg C J" and n: "n < length (k_ops k)"
    and q: "op_kind_of (k_ops k ! n) = OpRead" and r: "sound_completion k (n, result)"
    and i: "bs_task (cc_slots c ! op_slot (k_ops k ! n)) = Some i" "i < length (tasks_of c)" "opened (tasks_of c ! i)"
      "chunk_ok cfg C (tasks_of c ! i) (cc_slots c ! op_slot (k_ops k ! n))"
  shows "result < 0 \<or> result = int (bs_data_bytes (cc_slots c ! op_slot (k_ops k ! n)))"
proof -
  let ?t = "tasks_of c ! i" and ?b = "cc_slots c ! op_slot (k_ops k ! n)"
  note so = slot_ops_op(1)[OF take_op_inv(3)[OF inv n] q]
  note jp = job_paths[OF job[folded copy_inv_parts(1)[OF inv]] i(2) i(2)]
  have "ft_read_offset ?t \<le> ft_file_size ?t"
    using opened_ok[OF copy_inv_parts(4)[OF inv i(2)] i(3)] by (simp add: open_task_ok_def)
  note cb = chunk_bounds[OF job i(4) this jp(4)]
  have "k_contents k (ft_src_path ?t) = Some (content C ?t)"
    using copy_inv_parts(4)[OF inv i(2)] jp(3) by (simp add: task_ok_def)
  then show ?thesis using r n q so i(1) jp(4) cb(4) by (simp add: sound_completion_def Let_def)
qed

lemma read_completed_inv:
  assumes inv: "copy_inv env cfg C J {} {} (c, k)" and job: "copy_job cfg C J" and n: "n < length (k_ops k)"
    and q: "op_kind_of (k_ops k ! n) = OpRead" and r: "sound_completion k (n, result)"
    and e: "cc_error (fst (complete_one env cfg (n, result) (c, k))) = 0"
  shows "copy_inv env cfg C J {} {} (complete_one env cfg (n, result) (c, k))"
proof -
  let ?q = "k_ops k ! n" and ?k = "take_op n k"
  let ?j = "op_slot ?q"
  let ?b = "cc_slots c ! ?j"
  note tk = take_op_inv[OF inv n]
  note so = slot_ops_op(1)[OF tk(3) q]
  have st: "bs_state ?b = BUF_READING" using so by simp
  obtain i where i: "bs_task ?b = Some i" "i < length (tasks_of c)" "opened (tasks_of c ! i)" "chunk_ok cfg C (tasks_of c ! i) ?b"
    "chunk_size cfg \<le> length (bs_buf ?b)"
    using slot_task[OF inv tk(2)] st by (auto simp: busy_io_def)
  let ?t = "tasks_of c ! i"
  note jp = job_paths[OF job[folded copy_inv_parts(1)[OF inv]] i(2) i(2)]
  have ot: "open_task_ok cfg C False (cc_slots c) k i ?t" using opened_ok[OF copy_inv_parts(4)[OF inv i(2)] i(3)] by simp
  then have ro: "ft_read_offset ?t \<le> ft_file_size ?t" by (simp add: open_task_ok_def)
  note cb = chunk_bounds[OF job i(4) ro jp(4)]
  have qe: "op_file ?q = Some (ft_src_path ?t)" "op_len ?q = bs_bytes ?b" "op_off ?q = bs_offset ?b"
    using so i(1) by simp_all
  have src: "k_contents k (ft_src_path ?t) = Some (content C ?t)"
    using copy_inv_parts(4)[OF inv i(2)] jp(3) by (simp add: task_ok_def)
  let ?d = "bs_data_bytes ?b"
  have d0: "0 < ?d" by (rule chunk_parts(1)[OF i(4)])
  have res: "result < 0 \<or> result = int ?d" by (rule read_result[OF inv job n q r i(1-4)])
  define data where "data = take ?d (drop (bs_offset ?b) (content C ?t))"
  have ld: "length data = ?d" using cb(3) jp(4) by (simp add: data_def)
  define c1 where "c1 = upd_slot ?j (\<lambda>b. b\<lparr>bs_buf := data @ drop ?d (bs_buf b)\<rparr>) c"
  have ke: "result = int ?d \<Longrightarrow> kernel_effect ?q result (c, ?k) = (c1, ?k)"
    using q qe src by (simp add: kernel_effect_def Let_def c1_def data_def take_op_def)
  have one: "complete_one env cfg (n, result) (c, k) = on_read_complete env cfg ?j result (kernel_effect ?q result (c, ?k))"
    using n q by (simp add: complete_one_def Let_def run_callback_def)
  have neg: "\<not> result < 0"
  proof
    assume neg: "result < 0"
    obtain c2 k2 where "kernel_effect ?q result (c, ?k) = (c2, k2)" by (rule prod.exhaust)
    then show False using neg e unfolding one by (auto simp: on_read_complete_def Let_def set_error_def split: if_splits)
  qed
  then have rd: "result = int ?d" using res by simp
  define b' where "b' = (cc_slots c1 ! ?j)\<lparr>bs_buf := (if use_direct cfg then take ?d (bs_buf (cc_slots c1 ! ?j)) @ replicate (io_length cfg ?d - ?d) 0 @
      drop (io_length cfg ?d) (bs_buf (cc_slots c1 ! ?j)) else bs_buf (cc_slots c1 ! ?j)), bs_data_bytes := ?d, bs_bytes := io_length cfg ?d, bs_state := BUF_WRITING\<rparr>"
  define c2 where "c2 = upd_slot ?j (\<lambda>_. b') c1"
  obtain err k1 where s: "submit_io env OpWrite ?j (ft_dst_fd ?t) (io_length cfg ?d) (bs_offset ?b) ?k = (err, k1)" by (rule prod.exhaust)
  have c1: "cc_slots c1 = (cc_slots c)[?j := ?b\<lparr>bs_buf := data @ drop ?d (bs_buf ?b)\<rparr>]" "cc_queue c1 = cc_queue c"
    "cc_active_ops c1 = cc_active_ops c" "cc_error c1 = cc_error c" by (simp_all add: c1_def)
  have dn: "complete_one env cfg (n, result) (c, k) =
      (if err \<noteq> 0 then (op_ended i (free_slot ?j (set_error (- err) c2)), k1) else (c2, k1))"
    using one ke[OF rd] rd d0 s tk(2) i(1) unfolding on_read_complete_def
    by (simp add: Let_def c1 c2_def b'_def upd_slot_def)
  have z: "err = 0"
  proof (rule ccontr)
    assume "err \<noteq> 0"
    then show False using e dn by (auto simp: set_error_def split: if_splits)
  qed
  have io: "io_length cfg ?d = bs_bytes ?b" using chunk_parts(2)[OF i(4)] by simp
  have b': "bs_task b' = Some i" "bs_state b' = BUF_WRITING" "bs_offset b' = bs_offset ?b" "bs_data_bytes b' = ?d" "bs_bytes b' = bs_bytes ?b"
    using tk(2) i(1) io by (simp_all add: b'_def c1)
  have buf: "take ?d (bs_buf b') = data" "bs_bytes b' \<le> length (bs_buf b')" "chunk_size cfg \<le> length (bs_buf b')"
    using tk(2) ld cb i(5) io by (auto simp: b'_def c1)
  have "slot_ok cfg C (tasks_of c) b'"
    using b' buf i(2,3) chunk_parts[OF i(4)] by (simp add: slot_ok_def chunk_ok_def data_def)
  from write_started_inv[OF tk(1) job i(2,3) tk(2) i(1) st b'(1-4) this, of c2 k1] s z
  have "copy_inv env cfg C J {} {} (c2, k1)" using b' io tk(2) by (simp add: c2_def c1)
  then show ?thesis using dn z by simp
qed

lemma pwrite_chunk:
  assumes "take n bs = take n (drop off xs)" "off + n \<le> length xs" "n \<le> m" "m \<le> length bs" "m = n \<or> off + n = length xs"
    "p < length xs" "(off \<le> p \<and> p < off + n) \<or> (p < length d \<and> d ! p = xs ! p)"
  shows "p < length (pwrite off (take m bs) d) \<and> pwrite off (take m bs) d ! p = xs ! p"
proof (cases "off \<le> p \<and> p < off + n")
  case True
  then have l: "p - off < n" by auto
  then have "pwrite off (take m bs) d ! p = take n bs ! (p - off)" using True assms(3,4) by (simp add: pwrite_nth)
  also have "\<dots> = xs ! p" unfolding assms(1) using True assms(2) l by simp
  finally show ?thesis using True assms(3,4) by (auto simp: pwrite_length less_max_iff_disj)
next
  case False
  then have "p < length d" "d ! p = xs ! p" "p < off \<or> off + length (take m bs) \<le> p" using assms by auto
  then show ?thesis by (simp add: pwrite_nth(2) pwrite_length)
qed

lemma written_inv:
  assumes inv: "copy_inv env cfg C J {j} {} (c, k)" and job: "copy_job cfg C J" and i: "i < length (tasks_of c)" "opened (tasks_of c ! i)"
    and j: "j < length (cc_slots c)" "bs_task (cc_slots c ! j) = Some i" "bs_state (cc_slots c ! j) = BUF_WRITING" "chunk_ok cfg C (tasks_of c ! i) (cc_slots c ! j)"
    and k': "k_contents k' = (k_contents k)(ft_dst_path (tasks_of c ! i) :=
        map_option (pwrite (bs_offset (cc_slots c ! j)) (take (bs_bytes (cc_slots c ! j)) (bs_buf (cc_slots c ! j)))) (k_contents k (ft_dst_path (tasks_of c ! i))))"
      "k_ops k' = k_ops k" "\<And>x. fd_file x k' = fd_file x k"
    and c': "tasks_of c' = (tasks_of c)[i := (tasks_of c ! i)\<lparr>ft_bytes_written := w, ft_active_ops := ft_active_ops (tasks_of c ! i) - 1\<rparr>]"
      "cc_slots c' = (cc_slots c)[j := (cc_slots c ! j)\<lparr>bs_state := BUF_FREE, bs_task := None\<rparr>]" "cc_active_ops c' = cc_active_ops c - 1"
      "tq_current (cc_queue c') = tq_current (cc_queue c)"
  shows "copy_inv env cfg C J {} {i} (c', k')"
proof -
  let ?t = "tasks_of c ! i" and ?b = "cc_slots c ! j"
  define t' where "t' = ?t\<lparr>ft_bytes_written := w, ft_active_ops := ft_active_ops ?t - 1\<rparr>"
  define b' where "b' = ?b\<lparr>bs_state := BUF_FREE, bs_task := None\<rparr>"
  have sl: "cc_slots c' = (cc_slots c)[j := b']" using c'(2) by (simp add: b'_def)
  have ts: "tasks_of c' = (tasks_of c)[i := t']" "task_static t' = task_static ?t" using c'(1) by (simp_all add: t'_def task_static_def)
  note p = copy_inv_parts[OF inv] and jp = job_paths[OF job[folded copy_inv_parts(1)[OF inv]] i(1) i(1)]
  have ot: "open_task_ok cfg C False (cc_slots c) k i ?t" using opened_ok[OF p(4)[OF i(1)] i(2)] by simp
  then have ro: "ft_read_offset ?t \<le> ft_file_size ?t" by (simp add: open_task_ok_def)
  note cb = chunk_bounds[OF job j(4) ro jp(4)] and cp = chunk_parts[OF j(4)]
  obtain d where d: "k_contents k (ft_dst_path ?t) = Some d" "\<not> use_direct cfg \<longrightarrow> length d \<le> ft_file_size ?t"
    "\<forall>p < ft_read_offset ?t. on_its_way (cc_slots c) i p \<or> (p < length d \<and> d ! p = content C ?t ! p)"
    using ot by (auto simp: open_task_ok_def)
  define d' where "d' = pwrite (bs_offset ?b) (take (bs_bytes ?b) (bs_buf ?b)) d"
  have kd: "k_contents k' (ft_dst_path ?t) = Some d'" using k'(1) d(1) by (simp add: d'_def)
  have way: "on_its_way (cc_slots c') i x \<or> (x < length d' \<and> d' ! x = content C ?t ! x)" if x: "x < ft_read_offset ?t" for x
  proof (cases "on_its_way (cc_slots c') i x")
    case False
    have "(bs_offset ?b \<le> x \<and> x < bs_offset ?b + bs_data_bytes ?b) \<or> (x < length d \<and> d ! x = content C ?t ! x)"
    proof (rule ccontr)
      assume h: "\<not> ?thesis"
      then have "on_its_way (cc_slots c) i x" using d(3) x by auto
      then obtain y where y: "y < length (cc_slots c)" "io_on i (cc_slots c ! y)" "bs_offset (cc_slots c ! y) \<le> x"
        "x < bs_offset (cc_slots c ! y) + bs_data_bytes (cc_slots c ! y)" unfolding on_its_way_def by (metis in_set_conv_nth)
      then have "y \<noteq> j" using h by auto
      then have "cc_slots c ! y \<in> set (cc_slots c')" using y(1) sl by (metis length_list_update nth_list_update_neq nth_mem)
      then show False using y False by (auto simp: on_its_way_def)
    qed
    then show ?thesis unfolding d'_def using pwrite_chunk[OF cp(6)[OF j(3)] _ cb(1) cp(5)[OF j(3)], of x d] cb(3,5) jp(4) x ro by auto
  qed simp
  have fs: "\<not> (bs_task (cc_slots c ! x) = Some i \<and> bs_state (cc_slots c ! x) = BUF_FSYNCING)" if "x < length (cc_slots c)" for x
    using ot that j unfolding open_task_ok_def by (metis buf_state.distinct(11))
  have fs': "\<not> (bs_task (cc_slots c' ! x) = Some i \<and> bs_state (cc_slots c' ! x) = BUF_FSYNCING)" if "x < length (cc_slots c')" for x
    using fs[of x] that by (cases "x = j") (auto simp: sl b'_def)
  have len: "\<not> use_direct cfg \<longrightarrow> length d' \<le> ft_file_size ?t"
    using d(2) cb(3) cp(2) cp(5)[OF j(3)] by (auto simp: d'_def pwrite_length io_length_def)
  have ct: "content C t' = content C ?t" by (simp add: content_def t'_def)
  have "open_task_ok cfg C True (cc_slots c') k' i t'"
    using ot kd way len fs' k'(3) unfolding open_task_ok_def ct by (simp add: t'_def) blast
  moreover have "ft_active_ops t' = int (length (filter (io_on i) (cc_slots c')))"
    unfolding sl length_filter_update[OF j(1)] using p(4)[OF i(1)] j by (simp add: task_ok_def t'_def b'_def io_on_def busy_io_def)
  ultimately have tk: "task_ok env cfg C (i \<in> {i}) (cc_slots c') k' i t'"
    using p(4)[OF i(1)] i(2) k'(1) jp(1) by (simp add: task_ok_def opened_def t'_def)
  show ?thesis
  proof (rule copy_inv_step[OF inv job i(1) ts j(1) sl])
    show "ops_ok {} (c', k')" using ops_ok_step[OF p(2,3) _ j(1) sl, of k' "[]"] k'(2) ts i(1)
      by (simp add: slot_ops_def b'_def map_update) (metis list_update_id map_update)
    show "slot_ok cfg C (tasks_of c') b'" using p(3) j(1) by (simp add: slot_ok_def b'_def)
    show "fds_apart (tasks_of c')" unfolding ts(1) by (rule fds_apart_keep[OF p(5) i(1)]) (simp add: t'_def opened_def)
    show "ft_reads_done (tasks_of c ! x) \<or> ft_done (tasks_of c ! x)" if "x < tq_current (cc_queue c')" "x < length (tasks_of c)" for x
      using that p(7) c'(4) by simp
    show "ft_reads_done t' \<or> ft_done t'" if "i < tq_current (cc_queue c')" using that p(7) c'(4) i(1) by (auto simp: t'_def)
  qed (use tk j k' c' i in \<open>auto simp: b'_def t'_def opened_def\<close>)
qed

lemma no_fsyncing:
  assumes "copy_inv env cfg C J D X (c, k)" "i < length (tasks_of c)" "opened (tasks_of c ! i)"
    "j < length (cc_slots c)" "bs_task (cc_slots c ! j) = Some i" "busy_io (cc_slots c ! j)" "b \<in> set (cc_slots c)" "bs_task b = Some i"
  shows "busy_io b"
proof -
  have s: "slot_ok cfg C (tasks_of c) b" using copy_inv_parts(3)[OF assms(1)] assms(7) by simp
  obtain x where x: "x < length (cc_slots c)" "b = cc_slots c ! x" using assms(7) by (auto simp: in_set_conv_nth)
  have "bs_state b \<noteq> BUF_FSYNCING"
  proof
    assume "bs_state b = BUF_FSYNCING"
    then have "j = x" using opened_ok[OF copy_inv_parts(4)[OF assms(1,2)] assms(3)] assms(4,5,8) x unfolding open_task_ok_def by metis
    then show False using assms(6) x \<open>bs_state b = BUF_FSYNCING\<close> by (simp add: busy_io_def)
  qed
  then show ?thesis using s assms(8) by (auto simp: slot_ok_def busy_io_def split: buf_state.splits)
qed

lemma exempt_drop:
  assumes "copy_inv env cfg C J D {i} (c, k)" "opened (tasks_of c ! i) \<Longrightarrow> ft_reads_done (tasks_of c ! i) \<Longrightarrow> \<exists>b \<in> set (cc_slots c). bs_task b = Some i"
  shows "copy_inv env cfg C J D {} (c, k)"
proof -
  have "task_ok env cfg C False (cc_slots c) k x (tasks_of c ! x)" if "x < length (tasks_of c)" for x
    using copy_inv_parts(4)[OF assms(1) that] assms(2) by (cases "x = i") (auto simp: task_ok_def open_task_ok_def opened_def)
  then show ?thesis using assms(1) by (simp add: copy_inv_def)
qed

lemma write_completed_inv:
  assumes inv: "copy_inv env cfg C J {} {} (c, k)" and job: "copy_job cfg C J" and n: "n < length (k_ops k)"
    and q: "op_kind_of (k_ops k ! n) = OpWrite"
    and e: "cc_error (fst (complete_one env cfg (n, result) (c, k))) = 0"
  shows "copy_inv env cfg C J {} {} (complete_one env cfg (n, result) (c, k))"
proof -
  let ?q = "k_ops k ! n" and ?k = "take_op n k"
  let ?j = "op_slot ?q"
  let ?b = "cc_slots c ! ?j"
  note tk = take_op_inv[OF inv n] and so = slot_ops_op(2)[OF take_op_inv(3)[OF inv n] q]
  obtain i where i: "bs_task ?b = Some i" "i < length (tasks_of c)" "opened (tasks_of c ! i)" "chunk_ok cfg C (tasks_of c ! i) ?b"
    using slot_task[OF inv tk(2)] so by (auto simp: busy_io_def)
  let ?t = "tasks_of c ! i"
  define k' where "k' = ?k\<lparr>k_contents := (k_contents k)(ft_dst_path ?t := map_option (pwrite (bs_offset ?b) (take (nat result) (bs_buf ?b))) (k_contents k (ft_dst_path ?t)))\<rparr>"
  have one: "complete_one env cfg (n, result) (c, k) = on_write_complete env cfg ?j result (c, k')"
    using n q so i(1) by (simp add: complete_one_def Let_def run_callback_def kernel_effect_def k'_def take_op_def)
  have res: "\<not> result < 0" "nat result = bs_bytes ?b"
  proof -
    have "cc_error (fst (on_write_complete env cfg ?j result (c, k'))) \<noteq> 0" if "result < 0 \<or> nat result \<noteq> bs_bytes ?b"
      using that finish_task_keeps[of _ env cfg i ?j] by (auto simp: on_write_complete_def Let_def set_error_def i(1))
    then show "\<not> result < 0" "nat result = bs_bytes ?b" using e one by auto
  qed
  define c1 where "c1 = upd_task i (\<lambda>t. t\<lparr>ft_bytes_written := ft_bytes_written t + bs_data_bytes ?b\<rparr>) c"
  define c2 where "c2 = op_ended i (free_slot ?j (c1\<lparr>cc_queue := (cc_queue c1)\<lparr>tq_total_written := tq_total_written (cc_queue c1) + bs_data_bytes ?b\<rparr>\<rparr>))"
  have dn: "complete_one env cfg (n, result) (c, k) =
      (if ft_reads_done (tasks_of c2 ! i) \<and> ft_active_ops (tasks_of c2 ! i) = 0 \<and> \<not> ft_done (tasks_of c2 ! i) then finish_task env cfg i ?j (c2, k') else (c2, k'))"
    unfolding one on_write_complete_def using res by (simp add: Let_def i(1) c2_def c1_def)
  have ts: "tasks_of c2 = (tasks_of c)[i := ?t\<lparr>ft_bytes_written := ft_bytes_written ?t + bs_data_bytes ?b, ft_active_ops := ft_active_ops ?t - 1\<rparr>]"
    and sl: "cc_slots c2 = (cc_slots c)[?j := ?b\<lparr>bs_state := BUF_FREE, bs_task := None\<rparr>]"
    using i(2) by (simp_all add: c2_def c1_def op_ended_def free_slot_def)
  have iv: "copy_inv env cfg C J {} {i} (c2, k')"
    by (rule written_inv[OF tk(1) job i(2,3) tk(2) i(1) _ i(4) _ _ _ ts sl])
      (use so res in \<open>simp_all add: k'_def take_op_def fd_file_def c2_def c1_def op_ended_def\<close>)
  have op: "opened (tasks_of c2 ! i)" using i(2,3) by (simp add: ts opened_def)
  have act: "ft_active_ops (tasks_of c2 ! i) = int (length (filter (io_on i) (cc_slots c2)))"
    using copy_inv_parts(4)[OF iv, of i] i(2) by (simp add: ts task_ok_def)
  show ?thesis
  proof (cases "ft_reads_done (tasks_of c2 ! i) \<and> ft_active_ops (tasks_of c2 ! i) = 0")
    case True
    have none: "bs_task b \<noteq> Some i" if b: "b \<in> set (cc_slots c2)" for b
    proof
      assume t: "bs_task b = Some i"
      then have "b \<in> set (cc_slots c)" using b set_update_subset_insert[of "cc_slots c" ?j] unfolding sl by force
      then have "io_on i b" using no_fsyncing[OF inv i(2,3) tk(2) i(1) _ _ t] so t by (simp add: io_on_def busy_io_def)
      then show False using True act b by (auto simp: filter_empty_conv)
    qed
    have "tasks_of c2 \<noteq> [] \<and> i < length (tasks_of c2)" using i(2) ts by auto
    then show ?thesis using finish_task_inv[OF iv job _ op _ _ _ none] True op e dn tk(2) by (simp add: sl opened_def)
  next
    case False
    have "\<exists>b \<in> set (cc_slots c2). bs_task b = Some i" if "ft_reads_done (tasks_of c2 ! i)"
      using that False act by (auto simp: filter_empty_conv io_on_def)
    then show ?thesis using exempt_drop[OF iv] dn False by auto
  qed
qed

lemma fsync_completed_inv:
  assumes inv: "copy_inv env cfg C J {} {} (c, k)" and job: "copy_job cfg C J" and n: "n < length (k_ops k)"
    and q: "op_kind_of (k_ops k ! n) = OpFsync"
  shows "copy_inv env cfg C J {} {} (complete_one env cfg (n, result) (c, k))"
proof -
  let ?q = "k_ops k ! n" and ?k = "take_op n k"
  let ?j = "op_slot ?q"
  let ?b = "cc_slots c ! ?j"
  note tk = take_op_inv[OF inv n]
  have st: "bs_state ?b = BUF_FSYNCING" using slot_ops_op(3)[OF tk(3) q] .
  obtain i where i: "bs_task ?b = Some i" "i < length (tasks_of c)" "opened (tasks_of c ! i)"
    using slot_task[OF inv tk(2)] st by auto
  have ot: "open_task_ok cfg C False (cc_slots c) ?k i (tasks_of c ! i)" using opened_ok[OF copy_inv_parts(4)[OF tk(1) i(2)] i(3)] by simp
  then have f: "ft_reads_done (tasks_of c ! i)" "copied C (tasks_of c ! i) ?k" "\<And>x. x < length (cc_slots c) \<Longrightarrow> x \<noteq> ?j \<Longrightarrow> bs_task (cc_slots c ! x) \<noteq> Some i"
    using tk(2) i(1) st unfolding open_task_ok_def by metis+
  define c0 where "c0 = (if result < 0 then set_error result c else c)"
  have c0: "tasks_of c0 = tasks_of c" "cc_slots c0 = cc_slots c" "cc_active_ops c0 = cc_active_ops c" "tq_current (cc_queue c0) = tq_current (cc_queue c)"
    by (simp_all add: c0_def)
  obtain c1 k1 where cl: "close_task i (c0, ?k) = (c1, k1)" by (rule prod.exhaust)
  then obtain ca where ca: "close_task i (c, ?k) = (ca, k1)" "tasks_of c1 = tasks_of ca" using c0 by (auto simp: close_task_def Let_def)
  have c1: "cc_slots c1 = cc_slots c" "cc_active_ops c1 = cc_active_ops c" "tq_current (cc_queue c1) = tq_current (cc_queue c)"
    using cl c0 by (auto simp: close_task_def Let_def)
  have eff: "kernel_effect ?q result (c, ?k) = (c, ?k)" using q by (simp add: kernel_effect_def Let_def)
  have dn: "complete_one env cfg (n, result) (c, k) = ((free_slot ?j c1)\<lparr>cc_active_ops := cc_active_ops c1 - 1\<rparr>, k1)"
    using n q eff i(1) cl by (simp add: complete_one_def Let_def run_callback_def on_fsync_complete_def c0_def)
  have "copy_inv env cfg C J ({?j} - {?j}) ({} - {i}) ((free_slot ?j c1)\<lparr>cc_active_ops := cc_active_ops c1 - 1\<rparr>, k1)"
    by (rule close_inv[OF tk(1) job i(2,3) f(1,2) tk(2) _ _ _ _ _ _ _ ca(1), where b' = "?b\<lparr>bs_state := BUF_FREE, bs_task := None\<rparr>"])
      (use i st f(3) ca c1 in \<open>auto simp: io_on_def busy_io_def free_slot_def\<close>)
  then show ?thesis using dn by simp
qed

lemma complete_one_inv:
  assumes inv: "copy_inv env cfg C J {} {} s" and job: "copy_job cfg C J" and r: "sound_completion (snd s) nr"
    and e: "cc_error (fst (complete_one env cfg nr s)) = 0"
  shows "copy_inv env cfg C J {} {} (complete_one env cfg nr s)"
proof -
  obtain c k n result where s: "s = (c, k)" "nr = (n, result)" by (metis prod.exhaust)
  show ?thesis
  proof (cases "n < length (k_ops k)")
    case True
    show ?thesis using read_completed_inv[OF inv[unfolded s] job True] write_completed_inv[OF inv[unfolded s] job True]
        fsync_completed_inv[OF inv[unfolded s] job True] r e unfolding s by (cases "op_kind_of (k_ops k ! n)") auto
  qed (use inv s in \<open>simp add: complete_one_def\<close>)
qed

section \<open>Whole runs\<close>

fun sound_list :: "copy_env \<Rightarrow> copy_config \<Rightarrow> (nat \<times> int) list \<Rightarrow> copy_state \<Rightarrow> bool" where
  "sound_list env cfg [] s = True"
| "sound_list env cfg (x # xs) s = (sound_completion (snd s) x \<and> sound_list env cfg xs (complete_one env cfg x s))"

definition refill :: "copy_env \<Rightarrow> copy_config \<Rightarrow> copy_round \<Rightarrow> copy_state \<Rightarrow> copy_state" where
  "refill env cfg r s = fold (refill_slot env cfg (cr_intr r)) [0..<pipeline_depth cfg] s"

text \<open>
  The completions of every round are sound where they happen, in the main loop and in the final drain,
  and a failed wait names its error.
\<close>

fun sound_run :: "copy_env \<Rightarrow> copy_config \<Rightarrow> copy_round list \<Rightarrow> copy_state \<Rightarrow> bool" where
  "sound_run env cfg [] s = True"
| "sound_run env cfg (r # rs) s = (cr_wait r \<noteq> Inl 0 \<and> sound_list env cfg (cr_done r) s \<and>
     sound_run env cfg rs (wait_round env cfg r s) \<and> sound_run env cfg rs (refill env cfg r (wait_round env cfg r s)))"

lemma completions_inv:
  "copy_inv env cfg C J {} {} s \<Longrightarrow> copy_job cfg C J \<Longrightarrow> sound_list env cfg xs s \<Longrightarrow> cc_error (fst (fold (complete_one env cfg) xs s)) = 0 \<Longrightarrow>
   copy_inv env cfg C J {} {} (fold (complete_one env cfg) xs s) \<and> cc_error (fst s) = 0"
proof (induction xs arbitrary: s)
  case (Cons x xs)
  have "cc_error (fst (fold (complete_one env cfg) xs s')) = cc_error (fst s')" if "cc_error (fst s') \<noteq> 0" for s'
    using that by (induction xs arbitrary: s') (simp_all add: complete_one_keeps)
  then have e: "cc_error (fst (complete_one env cfg x s)) = 0" using Cons.prems(4) by (metis fold_simps(2))
  then have "copy_inv env cfg C J {} {} (complete_one env cfg x s)" using complete_one_inv Cons.prems by simp
  moreover have "cc_error (fst s) = 0" using e complete_one_keeps[of s env cfg x] by metis
  ultimately show ?case using Cons by simp
qed simp

lemma wait_round_inv:
  assumes "copy_inv env cfg C J {} {} s" "copy_job cfg C J" "sound_list env cfg (cr_done r) s" "cc_error (fst (wait_round env cfg r s)) = 0"
  shows "copy_inv env cfg C J {} {} (wait_round env cfg r s)" "cc_error (fst s) = 0"
  using completions_inv assms by (auto simp: wait_round_def)

text \<open>Submitting from slot \<open>j\<close> touches no other slot, and leaves \<open>j\<close> busy unless no task needs reads.\<close>

lemma close_task_slots: "cc_slots (fst (close_task i s)) = cc_slots (fst s)"
  by (simp add: close_task_def Let_def case_prod_beta)

lemma finish_task_slots: "\<exists>b. cc_slots (fst (finish_task env cfg i j s)) = (cc_slots (fst s))[j := b]"
  by (auto simp: finish_task_def sync_and_close_def trim_target_def Let_def case_prod_beta close_task_slots free_slot_def
      intro: exI[of _ "cc_slots (fst s) ! j"])

lemma submit_chunk_slots: "\<exists>b. cc_slots (fst (submit_chunk env cfg i j s)) = (cc_slots (fst s))[j := b]"
  by (auto simp: submit_chunk_def Let_def case_prod_beta free_slot_def)

lemma open_task_slots: "cc_slots (fst (snd (open_task env cfg i s))) = cc_slots (fst s)"
  by (simp add: open_task_def Let_def case_prod_beta)

lemma skip_task_slots: "cc_slots (skip_task i c) = cc_slots c"
  by (simp add: skip_task_def)

lemma submit_next_read_slots:
  "(\<exists>b. cc_slots (fst (submit_next_read env cfg j s)) = (cc_slots (fst s))[j := b]) \<and>
   (j < length (cc_slots (fst s)) \<longrightarrow> cc_error (fst (submit_next_read env cfg j s)) = 0 \<longrightarrow>
     (let s' = submit_next_read env cfg j s
      in bs_state (cc_slots (fst s') ! j) \<noteq> BUF_FREE \<or> find_task (tasks_of (fst s')) (tq_current (cc_queue (fst s'))) = None))"
proof (induction env cfg j s rule: submit_next_read.induct)
  case (1 env cfg j s)
  show ?case
  proof (cases "find_task (tasks_of (fst s)) (tq_current (cc_queue (fst s)))")
    case None
    then have "submit_next_read env cfg j s = s" by (subst submit_next_read.simps) simp
    then show ?thesis using None by (metis list_update_id)
  next
    case (Some i)
    obtain ok s1 where o: "open_task env cfg i s = (ok, s1)" by (rule prod.exhaust)
    obtain c2 k2 where f: "finish_task env cfg i j (upd_task i (\<lambda>t. t\<lparr>ft_reads_done := True\<rparr>) (fst s1), snd s1) = (c2, k2)" by (rule prod.exhaust)
    have s1: "cc_slots (fst s1) = cc_slots (fst s)" using open_task_slots[of env cfg i s] o by simp
    obtain b where b: "cc_slots c2 = (cc_slots (fst s))[j := b]"
      using finish_task_slots[of env cfg i j "(upd_task i (\<lambda>t. t\<lparr>ft_reads_done := True\<rparr>) (fst s1), snd s1)"] f s1 by auto
    have chunk: "(\<exists>b. cc_slots (fst (submit_chunk env cfg i j x)) = (cc_slots (fst s))[j := b]) \<and>
        (j < length (cc_slots (fst s)) \<longrightarrow> cc_error (fst (submit_chunk env cfg i j x)) = 0 \<longrightarrow> bs_state (cc_slots (fst (submit_chunk env cfg i j x)) ! j) \<noteq> BUF_FREE)"
      if "cc_slots (fst x) = cc_slots (fst s)" for x
      using submit_chunk_slots[of env cfg i j x] that
      by (auto simp: submit_chunk_def Let_def case_prod_beta set_error_def split: if_splits)
    show ?thesis
    proof (cases "ft_src_fd (tasks_of (fst s) ! i) < 0")
      case True
      consider "\<not> ok" | "ok" "ft_file_size (tasks_of (fst s1) ! i) = 0" | "ok" "ft_file_size (tasks_of (fst s1) ! i) \<noteq> 0" by blast
      then show ?thesis
      proof cases
        case 1
        then have d: "submit_next_read env cfg j s = submit_next_read env cfg j (skip_task i (fst s1), snd s1)"
          using Some o True by (subst submit_next_read.simps) simp
        show ?thesis using "1.IH"(1)[OF Some True o[symmetric] 1] unfolding d by (simp add: skip_task_slots s1)
      next
        case 2
        then have d: "submit_next_read env cfg j s = submit_next_read env cfg j (set_current (Suc i) c2, k2)"
          using Some o True f by (subst submit_next_read.simps) simp
        show ?thesis using "1.IH"(2)[OF Some True o[symmetric] _ _ f[symmetric]] 2 unfolding d by (simp add: b)
      next
        case 3
        then have d: "submit_next_read env cfg j s = submit_chunk env cfg i j s1"
          using Some o True by (subst submit_next_read.simps) simp
        show ?thesis unfolding d using chunk[OF s1] by (simp add: Let_def)
      qed
    next
      case False
      then have d: "submit_next_read env cfg j s = submit_chunk env cfg i j s" using Some by (subst submit_next_read.simps) simp
      show ?thesis unfolding d using chunk[of s] by (simp add: Let_def)
    qed
  qed
qed

lemma submit_next_read_length [simp]: "length (cc_slots (fst (submit_next_read env cfg j s))) = length (cc_slots (fst s))"
  using submit_next_read_slots[of env cfg j s] by (metis length_list_update)

lemma complete_one_length [simp]: "length (cc_slots (fst (complete_one env cfg nr s))) = length (cc_slots (fst s))"
proof -
  have f: "length (cc_slots (fst (finish_task env cfg i j s))) = length (cc_slots (fst s))" for i j s
    using finish_task_slots[of env cfg i j s] by (metis length_list_update)
  have k: "length (cc_slots (fst (kernel_effect q r s))) = length (cc_slots (fst s))" for q r s
    by (simp add: kernel_effect_def Let_def case_prod_beta split: op_kind.split option.split)
  show ?thesis
    by (simp add: complete_one_def Let_def case_prod_beta run_callback_def on_read_complete_def on_write_complete_def on_fsync_complete_def
        op_ended_def k f close_task_slots split: op_kind.split)
qed

lemma wait_round_length [simp]: "length (cc_slots (fst (wait_round env cfg r s))) = length (cc_slots (fst s))"
proof -
  have "length (cc_slots (fst (fold (complete_one env cfg) xs s))) = length (cc_slots (fst s))" for xs
    by (induction xs arbitrary: s) simp_all
  then show ?thesis by (simp add: wait_round_def)
qed

lemma refill_slot_length [simp]: "length (cc_slots (fst (refill_slot env cfg intr j s))) = length (cc_slots (fst s))"
  by (simp add: refill_slot_def)

lemma refill_slot_keeps: "cc_error (fst s) \<noteq> 0 \<Longrightarrow> refill_slot env cfg intr j s = s"
  by (simp add: refill_slot_def)

lemma refill_slots_keep: "cc_error (fst s) \<noteq> 0 \<Longrightarrow> fold (refill_slot env cfg intr) js s = s"
  by (induction js) (simp_all add: refill_slot_keeps)

lemma refill_slots_inv:
  "copy_inv env cfg C J {} {} s \<Longrightarrow> copy_job cfg C J \<Longrightarrow> \<forall>j \<in> set js. j < length (cc_slots (fst s)) \<Longrightarrow>
   cc_error (fst (fold (refill_slot env cfg intr) js s)) = 0 \<Longrightarrow>
   copy_inv env cfg C J {} {} (fold (refill_slot env cfg intr) js s) \<and> cc_error (fst s) = 0"
proof (induction js arbitrary: s)
  case (Cons j js)
  let ?s = "refill_slot env cfg intr j s"
  have e: "cc_error (fst ?s) = 0" using Cons.prems(4) refill_slots_keep[of ?s] by (metis fold_simps(2))
  have s: "copy_inv env cfg C J {} {} ?s \<and> cc_error (fst s) = 0"
    using submit_next_read_inv[OF Cons.prems(1,2), of j] Cons.prems(1,3) e by (auto simp: refill_slot_def split: if_splits)
  then show ?case using Cons by simp
qed simp

lemma refill_inv:
  assumes "copy_inv env cfg C J {} {} s" "copy_job cfg C J" "pipeline_depth cfg = length (cc_slots (fst s))" "cc_error (fst (refill env cfg r s)) = 0"
  shows "copy_inv env cfg C J {} {} (refill env cfg r s)" "cc_error (fst s) = 0"
  using refill_slots_inv[OF assms(1,2), of "[0..<pipeline_depth cfg]"] assms(3,4) by (auto simp: refill_def)

lemma refill_length [simp]: "length (cc_slots (fst (refill env cfg r s))) = length (cc_slots (fst s))"
proof -
  have "length (cc_slots (fst (fold (refill_slot env cfg intr) js s))) = length (cc_slots (fst s))" for intr js
    by (induction js arbitrary: s) simp_all
  then show ?thesis by (simp add: refill_def)
qed

lemma first_batch_inv:
  "copy_inv env cfg C J {} {} s \<Longrightarrow> copy_job cfg C J \<Longrightarrow> \<forall>j \<in> set js. j < length (cc_slots (fst s)) \<and> bs_state (cc_slots (fst s) ! j) = BUF_FREE \<Longrightarrow>
   distinct js \<Longrightarrow> cc_error (fst (first_batch env cfg intr js s)) = 0 \<Longrightarrow> copy_inv env cfg C J {} {} (first_batch env cfg intr js s)"
proof (induction js arbitrary: s)
  case (Cons j js)
  show ?case
  proof (cases "cc_error (fst s) = 0 \<and> \<not> intr j")
    case True
    let ?s = "submit_next_read env cfg j s"
    obtain b where b: "cc_slots (fst ?s) = (cc_slots (fst s))[j := b]" using submit_next_read_slots by blast
    have "first_batch env cfg intr js x = x" if "cc_error (fst x) \<noteq> 0" for x using that by (cases js) simp_all
    then have e: "cc_error (fst ?s) = 0" using Cons.prems(5) True by (metis first_batch.simps(2))
    have "copy_inv env cfg C J {} {} ?s" using submit_next_read_inv[OF Cons.prems(1,2) _ _ e] Cons.prems(3) by simp
    moreover have "\<forall>x \<in> set js. x < length (cc_slots (fst ?s)) \<and> bs_state (cc_slots (fst ?s) ! x) = BUF_FREE"
      using Cons.prems(3,4) b by (auto simp: nth_list_update)
    ultimately show ?thesis using Cons True by simp
  qed (use Cons in auto)
qed simp

lemma first_batch_length [simp]: "length (cc_slots (fst (first_batch env cfg intr js s))) = length (cc_slots (fst s))"
  by (induction js arbitrary: s) simp_all

lemma copy_loop_inv:
  "copy_loop env cfg rounds s = Some (s', rs) \<Longrightarrow> copy_inv env cfg C J {} {} s \<or> cc_error (fst s) \<noteq> 0 \<Longrightarrow> copy_job cfg C J \<Longrightarrow> sound_run env cfg rounds s \<Longrightarrow>
   pipeline_depth cfg = length (cc_slots (fst s)) \<Longrightarrow> cc_error (fst s') = 0 \<Longrightarrow>
   copy_inv env cfg C J {} {} s' \<and> sound_run env cfg rs s' \<and> (all_tasks_done (fst s') \<or> (\<exists>r \<in> set rounds. cr_stop r))"
proof (induction rounds arbitrary: s)
  case (Cons r rounds)
  show ?case
  proof (cases "all_tasks_done (fst s) \<or> cc_error (fst s) \<noteq> 0 \<or> cr_stop r")
    case True
    then show ?thesis using Cons.prems by auto
  next
    case False
    let ?w = "wait_round env cfg r s"
    have nf: "\<not> fatal_wait (cr_wait r)"
    proof
      assume "fatal_wait (cr_wait r)"
      then obtain err where "cr_wait r = Inl err" "s' = (set_error (- err) (fst ?w), snd ?w)"
        using Cons.prems(1) False by (auto simp: Let_def fatal_wait_def split: sum.splits if_splits)
      then show False using Cons.prems(4,6) by (auto simp: set_error_def split: if_splits)
    qed
    then have d: "copy_loop env cfg rounds (refill env cfg r ?w) = Some (s', rs)"
      using Cons.prems(1) False by (auto simp: Let_def refill_def fatal_wait_def split: sum.splits if_splits)
    have i: "copy_inv env cfg C J {} {} (refill env cfg r ?w) \<or> cc_error (fst (refill env cfg r ?w)) \<noteq> 0"
    proof (cases "cc_error (fst (refill env cfg r ?w)) = 0")
      case True
      have "cc_error (fst ?w) = 0"
        using True refill_slots_keep by (metis refill_def)
      then have "copy_inv env cfg C J {} {} ?w" using wait_round_inv[OF _ Cons.prems(3)] Cons.prems(2,4) False by auto
      then show ?thesis using refill_inv[OF _ Cons.prems(3) _ True] Cons.prems(5) by simp
    qed simp
    show ?thesis using Cons.IH[OF d i Cons.prems(3)] Cons.prems(4,5,6) by auto
  qed
qed (auto split: if_splits)

text \<open>The state \<open>main\<close> builds before it starts the pipeline.\<close>

definition fresh_copy :: "copy_config \<Rightarrow> (string \<Rightarrow> byte list option) \<Rightarrow> (string \<times> string \<times> nat) list \<Rightarrow> copy_state \<Rightarrow> bool" where
  "fresh_copy cfg C J s \<longleftrightarrow> map task_static (tasks_of (fst s)) = J \<and>
     (\<forall>t \<in> set (tasks_of (fst s)). ft_src_fd t = -1 \<and> ft_dst_fd t = -1 \<and> ft_read_offset t = 0 \<and> ft_bytes_written t = 0 \<and>
        ft_active_ops t = 0 \<and> \<not> ft_reads_done t \<and> \<not> ft_done t) \<and>
     length (cc_slots (fst s)) = pipeline_depth cfg \<and>
     (\<forall>b \<in> set (cc_slots (fst s)). bs_state b = BUF_FREE \<and> bs_task b = None \<and> length (bs_buf b) = chunk_size cfg) \<and>
     tq_current (cc_queue (fst s)) = 0 \<and> cc_active_ops (fst s) = 0 \<and> cc_error (fst s) = 0 \<and>
     k_contents (snd s) = C \<and> k_ops (snd s) = []"

lemma fresh_inv: "fresh_copy cfg C J s \<Longrightarrow> copy_inv env cfg C J {} {} s"
proof -
  assume f: "fresh_copy cfg C J s"
  let ?c = "fst s"
  have b: "bs_state (cc_slots ?c ! j) = BUF_FREE" "bs_task (cc_slots ?c ! j) = None" if "j < length (cc_slots ?c)" for j
    using f that by (simp_all add: fresh_copy_def)
  have "filter (io_on i) (cc_slots ?c) = []" "filter (\<lambda>b. bs_state b \<noteq> BUF_FREE) (cc_slots ?c) = []" for i
    using f by (auto simp: fresh_copy_def filter_empty_conv io_on_def)
  then show ?thesis using f b
    by (auto simp: copy_inv_def fresh_copy_def ops_ok_def slot_ops_def slot_ok_def task_ok_def fds_apart_def opened_def)
qed

lemma wait_round_keeps: "cc_error (fst s) \<noteq> 0 \<Longrightarrow> cc_error (fst (wait_round env cfg r s)) = cc_error (fst s)"
proof -
  have "cc_error (fst x) \<noteq> 0 \<Longrightarrow> cc_error (fst (fold (complete_one env cfg) xs x)) = cc_error (fst x)" for xs x
    by (induction xs arbitrary: x) (simp_all add: complete_one_keeps)
  then show "cc_error (fst s) \<noteq> 0 \<Longrightarrow> ?thesis" by (simp add: wait_round_def)
qed

lemma copy_drain_keeps: "copy_drain env cfg rs s = Some s' \<Longrightarrow> cc_error (fst s) \<noteq> 0 \<Longrightarrow> cc_error (fst s') \<noteq> 0"
  by (induction rs arbitrary: s) (auto simp: wait_round_keeps split: if_splits)

lemma copy_drain_inv:
  "copy_drain env cfg rs s = Some s' \<Longrightarrow> copy_inv env cfg C J {} {} s \<or> cc_error (fst s) \<noteq> 0 \<Longrightarrow> copy_job cfg C J \<Longrightarrow> sound_run env cfg rs s \<Longrightarrow>
   cc_error (fst s') = 0 \<Longrightarrow> copy_inv env cfg C J {} {} s' \<and> cc_active_ops (fst s') \<le> 0"
proof (induction rs arbitrary: s)
  case (Cons r rs)
  show ?case
  proof (cases "cc_active_ops (fst s) > 0")
    case True
    let ?w = "wait_round env cfg r s"
    have "copy_inv env cfg C J {} {} ?w \<or> cc_error (fst ?w) \<noteq> 0"
      using wait_round_inv(1)[OF _ Cons.prems(3), of env s r] wait_round_keeps[of s env cfg r] Cons.prems(2,4)
      by (cases "cc_error (fst s) = 0") auto
    then show ?thesis using Cons True by simp
  qed (use Cons.prems in auto)
qed (auto split: if_splits)

lemma all_done_idle:
  assumes "copy_inv env cfg C J D X (c, k)" "all_tasks_done c"
  shows "cc_active_ops c = 0"
proof -
  have "bs_state b = BUF_FREE" if "b \<in> set (cc_slots c)" for b
    using copy_inv_parts(3)[OF assms(1)] that assms(2)
    by (auto simp: slot_ok_def opened_def all_tasks_done_def list_all_length split: option.splits)
  then have "filter (\<lambda>b. bs_state b \<noteq> BUF_FREE) (cc_slots c) = []" by (simp add: filter_empty_conv)
  then show ?thesis using copy_inv_parts(6)[OF assms(1)] by simp
qed


section \<open>Progress\<close>

text \<open>An environment in which nothing fails, and rounds that keep completing what is in flight.\<close>

definition nothing_fails :: "copy_env \<Rightarrow> bool" where
  "nothing_fails env \<longleftrightarrow> (\<forall>p. ce_open env p = 0) \<and> (\<forall>p. ce_ftruncate env p = 0) \<and> (\<forall>n. ce_admit env n = 0)"

definition good_completion :: "kernel \<Rightarrow> nat \<times> int \<Rightarrow> bool" where
  "good_completion k nr \<longleftrightarrow> fst nr < length (k_ops k) \<and> 0 \<le> snd nr \<and> sound_completion k nr \<and>
     (op_kind_of (k_ops k ! fst nr) = OpWrite \<longrightarrow> snd nr = int (op_len (k_ops k ! fst nr)))"

fun good_list :: "copy_env \<Rightarrow> copy_config \<Rightarrow> (nat \<times> int) list \<Rightarrow> copy_state \<Rightarrow> bool" where
  "good_list env cfg [] s = True"
| "good_list env cfg (x # xs) s = (good_completion (snd s) x \<and> good_list env cfg xs (complete_one env cfg x s))"

fun good_run :: "copy_env \<Rightarrow> copy_config \<Rightarrow> copy_round list \<Rightarrow> copy_state \<Rightarrow> bool" where
  "good_run env cfg [] s = True"
| "good_run env cfg (r # rs) s = (\<not> cr_stop r \<and> list_all (\<lambda>j. \<not> cr_intr r j) [0..<pipeline_depth cfg] \<and> \<not> fatal_wait (cr_wait r) \<and>
     good_list env cfg (cr_done r) s \<and> (cr_done r \<noteq> [] \<or> k_ops (snd s) = []) \<and>
     good_run env cfg rs (refill env cfg r (wait_round env cfg r s)))"

text \<open>The work left: three steps for a chunk not yet read, one to finish a task.\<close>

definition task_work :: "copy_config \<Rightarrow> copy_task \<Rightarrow> nat" where
  "task_work cfg t = (if ft_done t then 0
     else 3 * ((ft_file_size t - ft_read_offset t + chunk_size cfg - 1) div chunk_size cfg) + 1)"

definition slot_work :: "buf_slot \<Rightarrow> nat" where
  "slot_work b = (case bs_state b of BUF_READING \<Rightarrow> 2 | BUF_WRITING \<Rightarrow> 1 | _ \<Rightarrow> 0)"

definition work_left :: "copy_config \<Rightarrow> copy_ctx \<Rightarrow> nat" where
  "work_left cfg c = sum_list (map (task_work cfg) (tasks_of c)) + sum_list (map slot_work (cc_slots c))"

lemma work_step:
  assumes "i < length (tasks_of c)" "j < length (cc_slots c)" "tasks_of c' = (tasks_of c)[i := t]" "cc_slots c' = (cc_slots c)[j := b]"
  shows "work_left cfg c' + task_work cfg (tasks_of c ! i) + slot_work (cc_slots c ! j) = work_left cfg c + task_work cfg t + slot_work b"
  unfolding work_left_def assms(3,4) using sum_update[OF assms(1), of "task_work cfg" t] sum_update[OF assms(2), of slot_work b] by simp

lemma admitted: "nothing_fails env \<Longrightarrow> fst (submit_io env kind j fd len off k) = 0"
  by (simp add: nothing_fails_def submit_io_def Let_def)

lemma finish_task_good:
  assumes "nothing_fails env"
  shows "cc_error (fst (finish_task env cfg i j s)) = cc_error (fst s)"
    "i < length (tasks_of (fst s)) \<Longrightarrow> j < length (cc_slots (fst s)) \<Longrightarrow> bs_state (cc_slots (fst s) ! j) = BUF_FREE \<Longrightarrow>
      work_left cfg (fst (finish_task env cfg i j s)) \<le> work_left cfg (fst s)"
proof -
  obtain c k where s: "s = (c, k)" by (rule prod.exhaust)
  have "fst (trim_target env cfg i (count_completed c, k)) = count_completed c"
    using assms by (simp add: trim_target_def Let_def nothing_fails_def)
  then obtain k1 where t: "trim_target env cfg i (count_completed c, k) = (count_completed c, k1)" by (metis prod.collapse)
  have f: "finish_task env cfg i j s = sync_and_close env cfg i j (count_completed c, k1)" by (simp add: finish_task_def s t)
  show "cc_error (fst (finish_task env cfg i j s)) = cc_error (fst s)" using f s by simp
  assume h: "i < length (tasks_of (fst s))" "j < length (cc_slots (fst s))" "bs_state (cc_slots (fst s) ! j) = BUF_FREE"
  let ?c = "count_completed c" and ?t = "tasks_of c ! i" and ?b = "cc_slots c ! j"
  let ?c1 = "fst (sync_and_close env cfg i j (?c, k1))"
  have "\<exists>t b. tasks_of ?c1 = (tasks_of c)[i := t] \<and> cc_slots ?c1 = (cc_slots c)[j := b] \<and>
      task_work cfg t \<le> task_work cfg ?t \<and> slot_work b = 0"
  proof (cases "\<not> no_fsync cfg \<and> ft_dst_fd ?t \<ge> 0")
    case True
    then show ?thesis using admitted[OF assms, of OpFsync j "ft_dst_fd ?t" 0 0 k1]
      by (intro exI[of _ ?t] exI[of _ "?b\<lparr>bs_task := Some i, bs_state := BUF_FSYNCING\<rparr>"])
        (simp add: sync_and_close_def Let_def case_prod_beta slot_work_def)
  next
    case False
    then have "?c1 = fst (close_task i (?c, k1))" by (auto simp: sync_and_close_def Let_def)
    then show ?thesis using h s
      by (intro exI[of _ "?t\<lparr>ft_src_fd := -1, ft_dst_fd := -1, ft_done := True\<rparr>"] exI[of _ ?b])
        (simp add: close_task_def Let_def slot_work_def task_work_def)
  qed
  then obtain t b where "tasks_of ?c1 = (tasks_of c)[i := t]" "cc_slots ?c1 = (cc_slots c)[j := b]"
    "task_work cfg t \<le> task_work cfg ?t" "slot_work b = 0" by blast
  then show "work_left cfg (fst (finish_task env cfg i j s)) \<le> work_left cfg (fst s)"
    using work_step[of i c j ?c1 t b cfg] h s f by (simp add: slot_work_def)
qed

lemma submit_chunk_good:
  assumes g: "nothing_fails env" and i: "i < length (tasks_of c)" and j: "j < length (cc_slots c)" "bs_state (cc_slots c ! j) = BUF_FREE"
    and t: "\<not> ft_done (tasks_of c ! i)" "ft_read_offset (tasks_of c ! i) < ft_file_size (tasks_of c ! i)" "0 < chunk_size cfg"
    and s: "submit_chunk env cfg i j (c, k) = (c', k')" "cc_error c = 0"
  shows "cc_error c' = 0 \<and> work_left cfg c' < work_left cfg c"
proof -
  let ?t = "tasks_of c ! i" and ?b = "cc_slots c ! j"
  have e: "cc_error c' = 0" using s admitted[OF g] by (auto simp: submit_chunk_def Let_def case_prod_beta)
  note q = submit_chunk_ok[OF s(1) e i j(1)]
  have "ft_file_size ?t - (ft_read_offset ?t + min (chunk_size cfg) (ft_file_size ?t - ft_read_offset ?t)) =
      (ft_file_size ?t - ft_read_offset ?t) - min (chunk_size cfg) (ft_file_size ?t - ft_read_offset ?t)" by simp
  then show ?thesis
    using work_step[OF i j(1) q(1,2), of cfg] chunks_left[of "chunk_size cfg" "ft_file_size ?t - ft_read_offset ?t"] t j(2) e
    by (simp add: task_work_def slot_work_def)
qed


lemma opened_offset:
  assumes "copy_inv env cfg C J D X (c, k)" "i < length (tasks_of c)" "opened (tasks_of c ! i)" "\<not> ft_reads_done (tasks_of c ! i)"
  shows "ft_read_offset (tasks_of c ! i) < ft_file_size (tasks_of c ! i)"
  using opened_ok[OF copy_inv_parts(4)[OF assms(1,2)] assms(3)] assms(4) by (auto simp: open_task_ok_def)

lemma open_task_good:
  assumes "nothing_fails env" "open_task env cfg i (c, k) = (ok, (c1, k1))" "i < length (tasks_of c)"
  shows "ok" "work_left cfg c1 = work_left cfg c" "cc_error c1 = cc_error c"
    "work_left cfg (upd_task i (\<lambda>t. t\<lparr>ft_reads_done := x\<rparr>) c1) = work_left cfg c"
proof -
  show ok: "ok" using assms by (auto simp: open_task_def Let_def nothing_fails_def split: prod.splits)
  then have o: "open_task env cfg i (c, k) = (True, (c1, k1))" using assms(2) by simp
  obtain a b where ts: "tasks_of c1 = (tasks_of c)[i := (tasks_of c ! i)\<lparr>ft_src_fd := a, ft_dst_fd := b\<rparr>]"
    by (rule open_task_tasks[OF o])
  have sl: "cc_slots c1 = cc_slots c" using open_task_slots[of env cfg i "(c, k)"] assms(2) by simp
  show "cc_error c1 = cc_error c" using open_task_error[of env cfg i "(c, k)"] assms(2) by simp
  have w: "sum_list (map (task_work cfg) ((tasks_of c)[i := t])) = sum_list (map (task_work cfg) (tasks_of c))" if "task_work cfg t = task_work cfg (tasks_of c ! i)" for t
    using sum_update[OF assms(3), of "task_work cfg" t] that by simp
  show "work_left cfg c1 = work_left cfg c" "work_left cfg (upd_task i (\<lambda>t. t\<lparr>ft_reads_done := x\<rparr>) c1) = work_left cfg c"
    using assms(3) by (simp_all add: work_left_def ts sl w task_work_def)
qed

lemma submit_next_read_good:
  "nothing_fails env \<Longrightarrow> copy_inv env cfg C J {} {} s \<Longrightarrow> copy_job cfg C J \<Longrightarrow> j < length (cc_slots (fst s)) \<Longrightarrow> bs_state (cc_slots (fst s) ! j) = BUF_FREE \<Longrightarrow>
   cc_error (fst s) = 0 \<Longrightarrow> cc_error (fst (submit_next_read env cfg j s)) = 0 \<and> work_left cfg (fst (submit_next_read env cfg j s)) \<le> work_left cfg (fst s)"
proof (induction env cfg j s rule: submit_next_read.induct)
  case (1 env cfg j s)
  note g = 1(3) and inv = 1(4) and job = 1(5) and j = 1(6,7) and e = 1(8)
  obtain c k where s: "s = (c, k)" by (rule prod.exhaust)
  have ch: "0 < chunk_size cfg" using job by (simp add: copy_job_def)
  show ?case
  proof (cases "find_task (tasks_of c) (tq_current (cc_queue c))")
    case None
    then show ?thesis using e s by (subst (1 2) submit_next_read.simps) simp
  next
    case (Some i)
    note f = find_task_Some[OF Some]
    have i: "i < length (tasks_of c)" "\<not> ft_reads_done (tasks_of c ! i)" "\<not> ft_done (tasks_of c ! i)" using f by simp_all
    have cur: "ft_reads_done (tasks_of c ! x) \<or> ft_done (tasks_of c ! x)" if "x < i" for x
      using that f inv by (cases "x < tq_current (cc_queue c)") (auto simp: copy_inv_def s)
    show ?thesis
    proof (cases "ft_src_fd (tasks_of c ! i) < 0")
      case False
      then have d: "submit_next_read env cfg j s = submit_chunk env cfg i j (c, k)"
        using Some s by (subst submit_next_read.simps) simp
      obtain c' k' where n: "submit_chunk env cfg i j (c, k) = (c', k')" by (rule prod.exhaust)
      have "ft_read_offset (tasks_of c ! i) < ft_file_size (tasks_of c ! i)"
        using opened_offset[OF inv[unfolded s] i(1) _ i(2)] False i(3) by (simp add: opened_def)
      from submit_chunk_good[OF g i(1) _ _ i(3) this ch n] show ?thesis using d n e j s by simp
    next
      case True
      obtain ok c1 k1 where o: "open_task env cfg i (c, k) = (ok, (c1, k1))" by (rule prod_cases3)
      note og = open_task_good[OF g o i(1)]
      obtain sfd dfd where ts: "tasks_of c1 = (tasks_of c)[i := (tasks_of c ! i)\<lparr>ft_src_fd := sfd, ft_dst_fd := dfd\<rparr>]"
        by (rule open_task_tasks[of env cfg i c k c1 k1]) (use o og in simp)
      have sl: "cc_slots c1 = cc_slots c" using open_task_slots[of env cfg i "(c, k)"] o by simp
      show ?thesis
      proof (cases "ft_file_size (tasks_of c ! i) = 0")
        case False
        obtain c2 k2 where n: "submit_chunk env cfg i j (c1, k1) = (c2, k2)" by (rule prod.exhaust)
        have d: "submit_next_read env cfg j s = (c2, k2)" using Some s o og(1) True False ts i n by (subst submit_next_read.simps) simp
        have "ft_read_offset (tasks_of c1 ! i) < ft_file_size (tasks_of c1 ! i)" "\<not> ft_done (tasks_of c1 ! i)"
          using copy_inv_parts(4)[OF inv[unfolded s] i(1)] True False i ts by (simp_all add: task_ok_def)
        from submit_chunk_good[OF g _ _ _ this(2,1) ch n] show ?thesis using d ts sl og e j i s by simp
      next
        case z: True
        let ?c = "upd_task i (\<lambda>t. t\<lparr>ft_reads_done := True\<rparr>) c1"
        obtain c2 k2 where n: "finish_task env cfg i j (?c, k1) = (c2, k2)" by (rule prod.exhaust)
        have d: "submit_next_read env cfg j s = submit_next_read env cfg j (set_current (Suc i) c2, k2)"
          using Some s o og(1) True z ts i n by (subst submit_next_read.simps) simp
        have fg: "cc_error c2 = 0" "work_left cfg c2 \<le> work_left cfg c"
          using finish_task_good[OF g, where cfg = cfg and i = i and j = j and s = "(?c, k1)"] n og e j i s ts sl by simp_all
        then have fe: "copy_inv env cfg C J {} {} (set_current (Suc i) c2, k2)" "cc_slots c2 = cc_slots c"
          using finish_empty_inv[OF inv[unfolded s] job i(1,3) True z _ _ cur _ n] j o og(1) s by simp_all
        have "work_left cfg (set_current (Suc i) c2) = work_left cfg c2" by (simp add: work_left_def)
        then have "cc_error (fst (submit_next_read env cfg j (set_current (Suc i) c2, k2))) = 0 \<and>
            work_left cfg (fst (submit_next_read env cfg j (set_current (Suc i) c2, k2))) \<le> work_left cfg c2"
          using 1(2)[OF _ _ _ _ _ _ g fe(1) job, of True "(c1, k1)"] fe fg d e j Some s True o og(1) z ts i n by simp
        then show ?thesis using fg d s by simp
      qed
    qed
  qed
qed

lemma complete_one_good:
  assumes g: "nothing_fails env" and inv: "copy_inv env cfg C J {} {} s" and job: "copy_job cfg C J" and e: "cc_error (fst s) = 0"
    and r: "good_completion (snd s) nr"
  shows "cc_error (fst (complete_one env cfg nr s)) = 0 \<and> work_left cfg (fst (complete_one env cfg nr s)) < work_left cfg (fst s)"
proof -
  obtain c k n result where s: "s = (c, k)" "nr = (n, result)" by (metis prod.exhaust)
  let ?q = "k_ops k ! n"
  let ?j = "op_slot ?q"
  let ?b = "cc_slots c ! ?j"
  have n: "n < length (k_ops k)" "0 \<le> result" using r by (simp_all add: s good_completion_def)
  note iv = inv[unfolded s] and tk = take_op_inv[OF inv[unfolded s(1)] n(1)]
  have st: "bs_state ?b \<noteq> BUF_FREE" using tk(3) by (auto simp: slot_ops_def Let_def)
  obtain i where i: "bs_task ?b = Some i" "i < length (tasks_of c)" "opened (tasks_of c ! i)" "busy_io ?b \<Longrightarrow> chunk_ok cfg C (tasks_of c ! i) ?b"
    by (rule slot_task[OF iv[unfolded s] tk(2) st]) blast
  obtain c1 k1 where ke: "kernel_effect ?q result (c, take_op n k) = (c1, k1)" by (rule prod.exhaust)
  have one: "complete_one env cfg nr s = run_callback env cfg ?q result (c1, k1)"
    using n ke by (simp add: complete_one_def s Let_def)
  have c1: "cc_queue c1 = cc_queue c" "cc_error c1 = cc_error c" using ke
    by (auto simp: kernel_effect_def Let_def split: op_kind.splits option.splits)
  have c1s: "\<exists>x. cc_slots c1 = (cc_slots c)[?j := ?b\<lparr>bs_buf := x\<rparr>]" using ke
    by (auto simp: kernel_effect_def Let_def split: op_kind.splits option.splits intro: exI[of _ "bs_buf ?b"])
  then obtain x where c1s: "cc_slots c1 = (cc_slots c)[?j := ?b\<lparr>bs_buf := x\<rparr>]" ..
  have x: "cc_slots c1 ! ?j = ?b\<lparr>bs_buf := x\<rparr>" "tasks_of c1 = tasks_of c" using c1s tk(2) c1 by simp_all
  show ?thesis
  proof (cases "op_kind_of ?q")
    case OpRead
    have b: "bs_state ?b = BUF_READING" using slot_ops_op(1)[OF tk(3) OpRead] by simp
    have "chunk_ok cfg C (tasks_of c ! i) ?b" using i(4) b by (simp add: busy_io_def)
    then have res: "0 < result"
      using read_result[OF iv[unfolded s] job n(1) OpRead _ i(1-3)] chunk_parts(1) r n(2) by (fastforce simp: good_completion_def s)
    let ?c2 = "fst (on_read_complete env cfg ?j result (c1, k1))"
    have "\<exists>b'. cc_slots ?c2 = (cc_slots c)[?j := b'] \<and> bs_state b' = BUF_WRITING \<and> cc_queue ?c2 = cc_queue c \<and> cc_error ?c2 = 0"
      using res admitted[OF g] c1 e s by (auto simp: on_read_complete_def Let_def case_prod_beta c1s)
    then obtain b' where b': "cc_slots ?c2 = (cc_slots c)[?j := b']" "bs_state b' = BUF_WRITING" "cc_queue ?c2 = cc_queue c" "cc_error ?c2 = 0"
      by blast
    then show ?thesis using work_step[OF i(2) tk(2) _ b'(1), of "tasks_of c ! i" cfg] b one s OpRead
      by (simp add: run_callback_def slot_work_def)
  next
    case OpWrite
    note so = slot_ops_op(2)[OF tk(3) OpWrite]
    have res: "nat result = bs_bytes (cc_slots c1 ! ?j)" using r so OpWrite x by (simp add: good_completion_def s)
    define ca where "ca = upd_task i (\<lambda>t. t\<lparr>ft_bytes_written := ft_bytes_written t + bs_data_bytes ?b\<rparr>) c1"
    define c2 where "c2 = op_ended i (free_slot ?j (ca\<lparr>cc_queue := (cc_queue ca)\<lparr>tq_total_written := tq_total_written (cc_queue ca) + bs_data_bytes ?b\<rparr>\<rparr>))"
    have dn: "complete_one env cfg nr s = (if ft_reads_done (tasks_of c2 ! i) \<and> ft_active_ops (tasks_of c2 ! i) = 0 \<and> \<not> ft_done (tasks_of c2 ! i)
        then finish_task env cfg i ?j (c2, k1) else (c2, k1))"
      unfolding one run_callback_def OpWrite op_kind.case on_write_complete_def using res n(2) x i(1) by (simp add: Let_def c2_def ca_def)
    have ts: "tasks_of c2 = (tasks_of c)[i := (tasks_of c ! i)\<lparr>ft_bytes_written := ft_bytes_written (tasks_of c ! i) + bs_data_bytes ?b,
        ft_active_ops := ft_active_ops (tasks_of c ! i) - 1\<rparr>]"
      and sl: "cc_slots c2 = (cc_slots c)[?j := ?b\<lparr>bs_buf := x, bs_state := BUF_FREE, bs_task := None\<rparr>]" and e2: "cc_error c2 = 0"
      using i(2) c1 c1s e s tk(2) by (simp_all add: c2_def ca_def op_ended_def free_slot_def)
    have w: "work_left cfg c2 < work_left cfg c"
      using work_step[OF i(2) tk(2) ts sl, of cfg] so by (simp add: slot_work_def task_work_def split: if_splits)
    have "i < length (tasks_of c2)" "?j < length (cc_slots c2)" "bs_state (cc_slots c2 ! ?j) = BUF_FREE" using ts sl i(2) tk(2) by simp_all
    then show ?thesis using dn e2 w s finish_task_good[OF g, where cfg = cfg and i = i and j = ?j and s = "(c2, k1)"] by auto
  next
    case OpFsync
    let ?c2 = "fst (on_fsync_complete ?j result (c1, k1))"
    have z: "cc_error ?c2 = 0" "tasks_of ?c2 = (tasks_of c)[i := (tasks_of c ! i)\<lparr>ft_src_fd := -1, ft_dst_fd := -1, ft_done := True\<rparr>]"
      "cc_slots ?c2 = (cc_slots c)[?j := ?b\<lparr>bs_buf := x, bs_state := BUF_FREE, bs_task := None\<rparr>]"
      using n(2) i(1) x c1 c1s e s tk(2) by (simp_all add: on_fsync_complete_def close_task_def free_slot_def Let_def case_prod_beta)
    have "\<not> ft_done (tasks_of c ! i)" using i(3) by (simp add: opened_def)
    then show ?thesis using z(1) work_step[OF i(2) tk(2) z(2,3), of cfg] slot_ops_op(3)[OF tk(3) OpFsync] one s OpFsync
      by (simp add: run_callback_def slot_work_def task_work_def)
  qed
qed

lemma completions_good:
  "nothing_fails env \<Longrightarrow> copy_inv env cfg C J {} {} s \<Longrightarrow> copy_job cfg C J \<Longrightarrow> cc_error (fst s) = 0 \<Longrightarrow> good_list env cfg xs s \<Longrightarrow>
   let s' = fold (complete_one env cfg) xs s
   in copy_inv env cfg C J {} {} s' \<and> cc_error (fst s') = 0 \<and> work_left cfg (fst s') + length xs \<le> work_left cfg (fst s)"
proof (induction xs arbitrary: s)
  case (Cons x xs)
  have r: "good_completion (snd s) x" "good_list env cfg xs (complete_one env cfg x s)" using Cons.prems by simp_all
  note o = complete_one_good[OF Cons.prems(1-4) r(1)]
  have "copy_inv env cfg C J {} {} (complete_one env cfg x s)"
    using complete_one_inv[OF Cons.prems(2,3)] o r(1) by (simp add: good_completion_def)
  from Cons.IH[OF Cons.prems(1) this Cons.prems(3) _ r(2)] show ?case using o by (simp add: Let_def)
qed simp

lemma refill_slots_good:
  "nothing_fails env \<Longrightarrow> copy_inv env cfg C J {} {} s \<Longrightarrow> copy_job cfg C J \<Longrightarrow> cc_error (fst s) = 0 \<Longrightarrow> \<forall>j \<in> set js. j < length (cc_slots (fst s)) \<Longrightarrow>
   let s' = fold (refill_slot env cfg intr) js s
   in copy_inv env cfg C J {} {} s' \<and> cc_error (fst s') = 0 \<and> work_left cfg (fst s') \<le> work_left cfg (fst s)"
proof (induction js arbitrary: s)
  case (Cons j js)
  let ?s = "refill_slot env cfg intr j s"
  have g: "copy_inv env cfg C J {} {} ?s \<and> cc_error (fst ?s) = 0 \<and> work_left cfg (fst ?s) \<le> work_left cfg (fst s)"
    using submit_next_read_good[OF Cons.prems(1-3), of j] submit_next_read_inv[OF Cons.prems(2,3), of j] Cons.prems(2,4,5)
    by (auto simp: refill_slot_def)
  then show ?case using Cons.IH[OF Cons.prems(1) _ Cons.prems(3), of ?s] Cons.prems(5) by (force simp: Let_def)
qed simp

text \<open>A refilled pipeline has something in flight, or everything is done.\<close>

definition stalled :: "copy_ctx \<Rightarrow> bool" where
  "stalled c \<longleftrightarrow> (\<forall>b \<in> set (cc_slots c). bs_state b = BUF_FREE) \<and> find_task (tasks_of c) (tq_current (cc_queue c)) \<noteq> None"

lemma refill_not_stalled:
  assumes "cc_error (fst s) = 0" "\<not> intr j" "j < length (cc_slots (fst s))" "cc_error (fst (refill_slot env cfg intr j s)) = 0"
  shows "\<not> stalled (fst (refill_slot env cfg intr j s))"
proof (cases "bs_state (cc_slots (fst s) ! j) = BUF_FREE")
  case True
  then have r: "refill_slot env cfg intr j s = submit_next_read env cfg j s" using assms by (simp add: refill_slot_def)
  have "cc_slots (fst (submit_next_read env cfg j s)) ! j \<in> set (cc_slots (fst (submit_next_read env cfg j s)))" using assms(3) by simp
  moreover have "bs_state (cc_slots (fst (submit_next_read env cfg j s)) ! j) \<noteq> BUF_FREE \<or>
      find_task (tasks_of (fst (submit_next_read env cfg j s))) (tq_current (cc_queue (fst (submit_next_read env cfg j s)))) = None"
    using submit_next_read_slots[of env cfg j s] assms(3,4) r by (simp add: Let_def)
  ultimately show ?thesis unfolding r stalled_def by metis
next
  case False
  then have "refill_slot env cfg intr j s = s" by (simp add: refill_slot_def)
  then show ?thesis using False assms(3) by (auto simp: stalled_def)
qed

lemma refill_slots_not_stalled:
  assumes "nothing_fails env" "copy_inv env cfg C J {} {} s" "copy_job cfg C J" "cc_error (fst s) = 0" "\<forall>j \<in> set js. j < length (cc_slots (fst s)) \<and> \<not> intr j" "js \<noteq> []"
  shows "\<not> stalled (fst (fold (refill_slot env cfg intr) js s))"
proof -
  obtain ks j where js: "js = ks @ [j]" using assms(6) by (metis rev_exhaust)
  let ?s = "fold (refill_slot env cfg intr) ks s"
  have g: "copy_inv env cfg C J {} {} ?s" "cc_error (fst ?s) = 0" using refill_slots_good[OF assms(1-4), of ks intr] assms(5) js by (simp_all add: Let_def)
  have n: "length (cc_slots (fst ?s)) = length (cc_slots (fst s))"
  proof -
    have "length (cc_slots (fst (fold (refill_slot env cfg intr) ks x))) = length (cc_slots (fst x))" for x by (induction ks arbitrary: x) simp_all
    then show ?thesis .
  qed
  have "cc_error (fst (refill_slot env cfg intr j ?s)) = 0"
    using refill_slots_good[OF assms(1) g(1) assms(3) g(2), of "[j]" intr] n assms(5) js by (simp add: Let_def)
  then show ?thesis using refill_not_stalled[OF g(2), of intr j env cfg] assms(5) n js by simp
qed

lemma idle_all_done:
  assumes inv: "copy_inv env cfg C J {} {} (c, k)" and s: "\<not> stalled c" "k_ops k = []"
  shows "all_tasks_done c"
proof -
  note p = copy_inv_parts[OF inv]
  have fr: "bs_state b = BUF_FREE" if b: "b \<in> set (cc_slots c)" for b
  proof -
    obtain j where "j < length (cc_slots c)" "b = cc_slots c ! j" using b by (auto simp: in_set_conv_nth)
    then have "slot_ops (tasks_of c) j b = []" using p(2) s(2) by (simp add: ops_ok_def)
    then show ?thesis by (simp add: slot_ops_def Let_def split: buf_state.splits)
  qed
  then have f: "find_task (tasks_of c) (tq_current (cc_queue c)) = None" using s(1) by (auto simp: stalled_def)
  have "ft_done (tasks_of c ! x)" if x: "x < length (tasks_of c)" for x
  proof (rule ccontr)
    assume n: "\<not> ft_done (tasks_of c ! x)"
    have "ft_reads_done (tasks_of c ! x) \<or> ft_done (tasks_of c ! x)" using find_task_None[OF f, of x] p(7) x by (cases "x < tq_current (cc_queue c)") auto
    then have "\<exists>b \<in> set (cc_slots c). bs_task b = Some x" using n p(4)[OF x] by (auto simp: task_ok_def open_task_ok_def split: if_splits)
    then show False using p(3) fr by (auto simp: slot_ok_def)
  qed
  then show ?thesis by (simp add: all_tasks_done_def list_all_length)
qed

lemma refill_good:
  assumes "nothing_fails env" "copy_inv env cfg C J {} {} s" "copy_job cfg C J" "cc_error (fst s) = 0" "pipeline_depth cfg = length (cc_slots (fst s))"
    "\<forall>j < pipeline_depth cfg. \<not> cr_intr r j" "0 < pipeline_depth cfg"
  shows "copy_inv env cfg C J {} {} (refill env cfg r s)" "cc_error (fst (refill env cfg r s)) = 0"
    "work_left cfg (fst (refill env cfg r s)) \<le> work_left cfg (fst s)" "\<not> stalled (fst (refill env cfg r s))"
  using refill_slots_good[OF assms(1-4), of "[0..<pipeline_depth cfg]" "cr_intr r"]
    refill_slots_not_stalled[OF assms(1-4), of "[0..<pipeline_depth cfg]" "cr_intr r"] assms(5-7) by (auto simp: refill_def Let_def)

lemma copy_loop_good:
  "nothing_fails env \<Longrightarrow> copy_inv env cfg C J {} {} s \<Longrightarrow> copy_job cfg C J \<Longrightarrow> cc_error (fst s) = 0 \<Longrightarrow> pipeline_depth cfg = length (cc_slots (fst s)) \<Longrightarrow>
   0 < pipeline_depth cfg \<Longrightarrow> \<not> stalled (fst s) \<Longrightarrow> good_run env cfg rounds s \<Longrightarrow> work_left cfg (fst s) \<le> length rounds \<Longrightarrow>
   \<exists>s' rs. copy_loop env cfg rounds s = Some (s', rs) \<and> copy_inv env cfg C J {} {} s' \<and> cc_error (fst s') = 0 \<and> all_tasks_done (fst s')"
proof (induction rounds arbitrary: s)
  case Nil
  then have "\<forall>t \<in> set (tasks_of (fst s)). task_work cfg t = 0" by (simp add: work_left_def)
  then have "all_tasks_done (fst s)" by (auto simp: all_tasks_done_def list_all_iff task_work_def split: if_splits)
  then show ?case using Nil by auto
next
  case (Cons r rounds)
  show ?case
  proof (cases "all_tasks_done (fst s)")
    case False
    let ?w = "wait_round env cfg r s"
    have "k_ops (snd s) \<noteq> []" using idle_all_done[of env cfg C J "fst s" "snd s"] Cons.prems(2,7) False by auto
    then have d: "cr_done r \<noteq> []" using Cons.prems(8) by simp
    have w: "copy_inv env cfg C J {} {} ?w" "cc_error (fst ?w) = 0" "work_left cfg (fst ?w) + length (cr_done r) \<le> work_left cfg (fst s)"
      using completions_good[OF Cons.prems(1-4), of "cr_done r"] Cons.prems(8) by (simp_all add: wait_round_def Let_def)
    have r: "\<forall>j < pipeline_depth cfg. \<not> cr_intr r j" "\<not> cr_stop r" "\<not> fatal_wait (cr_wait r)" "good_run env cfg rounds (refill env cfg r ?w)"
      using Cons.prems(8) by (simp_all add: list_all_iff)
    note rf = refill_good[OF Cons.prems(1) w(1) Cons.prems(3) w(2) _ r(1) Cons.prems(6)]
    have "length (cr_done r) > 0" using d by simp
    then have "work_left cfg (fst (refill env cfg r ?w)) \<le> length rounds" using rf(3) w(3) Cons.prems(5,9) by (simp del: length_greater_0_conv)
    then have "\<exists>s' rs. copy_loop env cfg rounds (refill env cfg r ?w) = Some (s', rs) \<and> copy_inv env cfg C J {} {} s' \<and> cc_error (fst s') = 0 \<and> all_tasks_done (fst s')"
      by (intro Cons.IH[OF Cons.prems(1) rf(1) Cons.prems(3) rf(2)]) (use rf(4) Cons.prems(5,6) r(4) in simp_all)
    moreover have "copy_loop env cfg (r # rounds) s = copy_loop env cfg rounds (refill env cfg r ?w)"
      using False Cons.prems(4) r(2,3) by (cases "cr_wait r") (simp_all add: Let_def refill_def)
    ultimately show ?thesis by simp
  qed (use Cons.prems in auto)
qed

lemma first_batch_refill:
  "nothing_fails env \<Longrightarrow> copy_inv env cfg C J {} {} s \<Longrightarrow> copy_job cfg C J \<Longrightarrow> cc_error (fst s) = 0 \<Longrightarrow> distinct js \<Longrightarrow>
   \<forall>j \<in> set js. j < length (cc_slots (fst s)) \<and> bs_state (cc_slots (fst s) ! j) = BUF_FREE \<Longrightarrow>
   first_batch env cfg (\<lambda>_. False) js s = fold (refill_slot env cfg (\<lambda>_. False)) js s"
proof (induction js arbitrary: s)
  case (Cons j js)
  let ?s = "submit_next_read env cfg j s"
  have g: "cc_error (fst ?s) = 0" using submit_next_read_good[OF Cons.prems(1-3)] Cons.prems(4,6) by simp
  have i: "copy_inv env cfg C J {} {} ?s" using submit_next_read_inv[OF Cons.prems(2,3) _ _ g] Cons.prems(6) by simp
  obtain b where "cc_slots (fst ?s) = (cc_slots (fst s))[j := b]" using submit_next_read_slots by blast
  then have "\<forall>x \<in> set js. x < length (cc_slots (fst ?s)) \<and> bs_state (cc_slots (fst ?s) ! x) = BUF_FREE"
    using Cons.prems(5,6) by (auto simp: nth_list_update)
  then show ?case using Cons.IH[OF Cons.prems(1) i Cons.prems(3) g] Cons.prems(4,5,6) by (simp add: refill_slot_def)
qed simp


section \<open>Concrete runs\<close>

definition demo_task :: "string \<Rightarrow> string \<Rightarrow> nat \<Rightarrow> copy_task" where
  "demo_task sp dp n = \<lparr>ft_src_path = sp, ft_dst_path = dp, ft_file_size = n, ft_src_fd = -1, ft_dst_fd = -1,
     ft_read_offset = 0, ft_bytes_written = 0, ft_active_ops = 0, ft_reads_done = False, ft_done = False\<rparr>"

definition demo_copy :: "copy_config \<Rightarrow> copy_task list \<Rightarrow> (string \<Rightarrow> byte list option) \<Rightarrow> copy_state" where
  "demo_copy cfg ts fs =
    (\<lparr>cc_queue = \<lparr>tq_tasks = ts, tq_current = 0, tq_completed_files = 0, tq_total_written = 0\<rparr>,
      cc_slots = replicate (pipeline_depth cfg) \<lparr>bs_buf = replicate (chunk_size cfg) 0, bs_offset = 0, bs_bytes = 0, bs_data_bytes = 0,
        bs_state = BUF_FREE, bs_task = None\<rparr>, cc_active_ops = 0, cc_error = 0\<rparr>,
     \<lparr>k_contents = fs, k_fds = [Some ''stdin'', Some ''stdout'', Some ''stderr''], k_ops = [], k_subs = 0\<rparr>)"

definition demo_env :: copy_env where
  "demo_env = \<lparr>ce_open = (\<lambda>_. 0), ce_fallocate = (\<lambda>_. True), ce_ftruncate = (\<lambda>_. 0), ce_admit = (\<lambda>_. 0)\<rparr>"

definition demo_cfg :: copy_config where
  "demo_cfg = \<lparr>chunk_size = 2, pipeline_depth = 2, use_direct = False, no_fsync = False, keep_partial = False\<rparr>"

definition demo_round :: "(nat \<times> int) list \<Rightarrow> copy_round" where
  "demo_round ds = \<lparr>cr_stop = False, cr_done = ds, cr_wait = Inr (int (length ds)), cr_intr = (\<lambda>_. False)\<rparr>"

definition demo_files :: "string \<Rightarrow> byte list option" where
  "demo_files = (\<lambda>p. if p = ''a'' then Some [1, 2, 3] else if p = ''e'' then Some [] else if p = ''s'' then Some [7, 8] else None)"

abbreviation demo_start :: copy_state where
  "demo_start \<equiv> demo_copy demo_cfg [demo_task ''a'' ''b'' 3] demo_files"

text \<open>A single chunk, copied without a sync.\<close>

definition small_cfg :: copy_config where
  "small_cfg = \<lparr>chunk_size = 2, pipeline_depth = 1, use_direct = False, no_fsync = True, keep_partial = False\<rparr>"

definition small_rounds :: "copy_round list" where
  "small_rounds = map demo_round [[(0, 2)], [(0, 2)]]"

abbreviation small_start :: copy_state where
  "small_start \<equiv> demo_copy small_cfg [demo_task ''s'' ''t'' 2] demo_files"

lemma small_job: "copy_job small_cfg demo_files [(''s'', ''t'', 2)]"
  by (simp add: copy_job_def small_cfg_def demo_files_def)

lemma small_fresh: "fresh_copy small_cfg demo_files [(''s'', ''t'', 2)] small_start"
  by (simp add: fresh_copy_def demo_copy_def demo_task_def task_static_def small_cfg_def)

lemma small_sound: "sound_run demo_env small_cfg small_rounds (first_batch demo_env small_cfg (\<lambda>_. False) [0..<pipeline_depth small_cfg] small_start)"
  by code_simp


lemma small_good: "good_run demo_env small_cfg (small_rounds @ replicate 2 (demo_round []))
    (first_batch demo_env small_cfg (\<lambda>_. False) [0..<pipeline_depth small_cfg] small_start)"
  by code_simp


section \<open>What the pipeline does not notice\<close>

text \<open>
  A read that returns fewer bytes than asked for is written as far as it came and never continued: the copy ends with status 0
  and a target that differs from its source.
\<close>

theorem short_read_loses_bytes:
  "map_option (\<lambda>(err, s). (err, all_tasks_done (fst s), k_contents (snd s) ''b''))
     (copy_pipeline demo_env demo_cfg (\<lambda>_. False) (map demo_round [[(1, 1), (0, 1)], [(1, 1), (0, 1)], [(0, 0)]]) demo_start) =
   Some (0, True, Some [1, 0, 3])"
  by code_simp

text \<open>
  An empty file that is synced keeps its slot for the sync, but the slot is used for the first chunk of the next file as well: when the
  sync completes, the descriptors of the next file are closed and it counts as copied.
\<close>

theorem empty_file_closes_the_next:
  "(let s0 = first_batch demo_env demo_cfg (\<lambda>_. False) [0] (demo_copy demo_cfg [demo_task ''e'' ''f'' 0, demo_task ''a'' ''b'' 3] demo_files);
        s1 = complete_one demo_env demo_cfg (0, 0) s0
    in (map op_slot (k_ops (snd s0)), map ft_done (tasks_of (fst s1)), k_fds (snd s1), k_contents (snd s1) ''b'')) =
   ([0, 0], [False, True], [Some ''stdin'', Some ''stdout'', Some ''stderr'', Some ''e'', Some ''f'', None, None], Some [0, 0, 0])"
  by code_simp

text \<open>
  A file that cannot be opened is left out and the copy still reports success.
\<close>

theorem unreadable_file_is_success:
  "map_option (\<lambda>r. (fst (copy_exit demo_cfg False r), k_contents (snd (snd (copy_exit demo_cfg False r))) ''b''))
     (copy_pipeline (demo_env\<lparr>ce_open := (\<lambda>p. if p = ''a'' then 13 else 0)\<rparr>) demo_cfg (\<lambda>_. False) [] demo_start) = Some (0, None)"
  by code_simp

text \<open>A failed write that is the last operation of its file still finishes the file, so its partial target is not removed.\<close>

theorem failed_write_keeps_partial:
  "map_option (\<lambda>r. (fst (copy_exit demo_cfg False r), k_contents (snd (snd (copy_exit demo_cfg False r))) ''b''))
     (copy_pipeline demo_env (demo_cfg\<lparr>no_fsync := True\<rparr>) (\<lambda>_. False) (map demo_round [[(0, 2), (0, 1)], [(1, 1), (0, - 28)]]) demo_start) =
   Some (1, Some [0, 0, 3])"
  by code_simp

text \<open>
  A source that has become shorter answers its last read with no bytes. The slot is given back, but nothing finishes the task:
  with no request left the pipeline waits for ever, for any number of rounds.
\<close>

lemma refill_idle:
  assumes "find_task (tasks_of (fst s)) (tq_current (cc_queue (fst s))) = None"
  shows "refill env cfg r s = s"
proof -
  have "submit_next_read env cfg j s = s" for j using assms by (subst submit_next_read.simps) simp
  then have "fold (refill_slot env cfg intr) js s = s" for intr js by (induction js) (simp_all add: refill_slot_def)
  then show ?thesis by (simp add: refill_def)
qed

lemma idle_rounds:
  assumes "find_task (tasks_of (fst s)) (tq_current (cc_queue (fst s))) = None" "\<not> all_tasks_done (fst s)" "cc_error (fst s) = 0"
  shows "copy_loop env cfg (replicate n (demo_round [])) s = None"
  using assms refill_idle[OF assms(1), of env cfg "demo_round []"]
  by (induction n) (simp_all add: demo_round_def wait_round_def refill_def)

theorem empty_read_never_ends:
  "copy_pipeline demo_env small_cfg (\<lambda>_. False) (demo_round [(0, 0)] # replicate n (demo_round [])) small_start = None"
proof -
  let ?s = "first_batch demo_env small_cfg (\<lambda>_. False) [0..<pipeline_depth small_cfg] small_start"
  define s1 where "s1 = refill demo_env small_cfg (demo_round [(0, 0)]) (wait_round demo_env small_cfg (demo_round [(0, 0)]) ?s)"
  have "find_task (tasks_of (fst s1)) (tq_current (cc_queue (fst s1))) = None \<and> \<not> all_tasks_done (fst s1) \<and> cc_error (fst s1) = 0"
    unfolding s1_def by code_simp
  then have "copy_loop demo_env small_cfg (replicate n (demo_round [])) s1 = None" by (intro idle_rounds) simp_all
  moreover have "\<not> all_tasks_done (fst ?s) \<and> cc_error (fst ?s) = 0" by code_simp
  ultimately show ?thesis by (simp add: copy_pipeline_def demo_round_def s1_def refill_def Let_def)
qed

end
