(* ===== verification/Tool_Common.thy ===== *)
theory Tool_Common
  imports Aura_Prelude
begin

text \<open>
  What the command line tools under src/tools/ share: sizes with a suffix (\<open>parse_size\<close>, the same text in \<open>auracp.c\<close> and
  \<open>aura-hash.c\<close>) and the entries of a directory walk.
\<close>

section \<open>Sizes\<close>

abbreviation SSIZE_MAX_double :: real where "SSIZE_MAX_double \<equiv> 9223372036854775808"

text \<open>
  \<open>strtod\<close> gives the value (\<open>None\<close> for not-a-number) and the rest of the text; the text itself when
  there is no number. The result is \<open>None\<close> where the source returns -1. The conversion of not-a-number, which C leaves
  open, is the value x86 gives.
\<close>

definition parse_size :: "(string \<Rightarrow> real option \<times> string) \<Rightarrow> string \<Rightarrow> int option" where
  "parse_size strtod str =
    (let (val, rest) = strtod str;
         scaled = (\<lambda>f. map_option (\<lambda>v. v * f) val)
     in if rest = str \<or> (case val of Some v \<Rightarrow> v < 0 | None \<Rightarrow> False) then None
        else let r = (case rest of
                 [] \<Rightarrow> Some val
               | ch # _ \<Rightarrow> if ch \<in> {CHR ''G'', CHR ''g''} then Some (scaled (1024 * 1024 * 1024))
                   else if ch \<in> {CHR ''M'', CHR ''m''} then Some (scaled (1024 * 1024))
                   else if ch \<in> {CHR ''K'', CHR ''k''} then Some (scaled 1024) else None)
          in case r of
               None \<Rightarrow> None
             | Some None \<Rightarrow> Some (- 9223372036854775808)
             | Some (Some v) \<Rightarrow> if v > SSIZE_MAX_double then None else Some \<lfloor>v\<rfloor>)"

abbreviation MAX_PIPELINE :: int where "MAX_PIPELINE \<equiv> 64"

section \<open>Directory walks\<close>

datatype st_kind = S_REG | S_DIR | S_OTHER
datatype ftw_type = FTW_F | FTW_D | FTW_SL | FTW_OTHER

record file_stat =
  st_kind_of :: st_kind
  st_size :: nat
  st_dev :: nat
  st_ino :: nat

text \<open>One call of the walk: the entry, whether the allocations succeed and the error of \<open>mkdir\<close>.\<close>

record walk_entry =
  we_path :: string
  we_type :: ftw_type
  we_stat :: file_stat
  we_path_mem :: bool
  we_task_mem :: bool
  we_mkdir :: int

end
