(* ===== verification/Copy_Tasks.thy ===== *)
theory Copy_Tasks
  imports Copy_Correct Tool_Common
begin

text \<open>
  How \<open>auracp\<close> builds its tasks: the command line, path arithmetic, the walk over a source tree
  and the list of sources. \<open>stat\<close>, \<open>mkdir\<close>, \<open>nftw\<close>, \<open>strtod\<close> and the allocator are arguments.
\<close>

section \<open>The command line\<close>

record copy_options = copy_config +
  co_recursive :: bool
  co_preserve :: bool
  co_quiet :: bool
  co_no_progress :: bool
  co_verbose :: bool
  co_sources :: "string list"
  co_dest :: string

text \<open>
  One option as \<open>getopt_long\<close> returns it, with its argument. \<open>strtol\<close> gives the number and the rest of the text.
  The left result is the exit status of the tool.
\<close>

definition parse_option :: "(string \<Rightarrow> real option \<times> string) \<Rightarrow> (string \<Rightarrow> int \<times> string) \<Rightarrow> char \<times> string \<Rightarrow> copy_options \<Rightarrow> int + copy_options" where
  "parse_option strtod strtol oa cfg =
    (case oa of (opt, optarg) \<Rightarrow>
       if opt = CHR ''r'' then Inr (cfg\<lparr>co_recursive := True\<rparr>)
       else if opt = CHR ''b'' then
         (case parse_size strtod optarg of
            Some sz \<Rightarrow> if sz \<le> 0 then Inl 1 else Inr (cfg\<lparr>chunk_size := nat sz\<rparr>)
          | None \<Rightarrow> Inl 1)
       else if opt = CHR ''d'' then Inr (cfg\<lparr>use_direct := True\<rparr>)
       else if opt = CHR ''p'' then
         (case strtol optarg of (val, rest) \<Rightarrow>
            if rest \<noteq> [] \<or> val < 1 \<or> val > MAX_PIPELINE then Inl 1 else Inr (cfg\<lparr>pipeline_depth := nat val\<rparr>))
       else if opt = CHR ''q'' then Inr (cfg\<lparr>co_quiet := True, co_no_progress := True\<rparr>)
       else if opt = CHR ''v'' then Inr (cfg\<lparr>co_verbose := True\<rparr>)
       else if opt = CHR ''F'' then Inr (cfg\<lparr>no_fsync := True\<rparr>)
       else if opt = CHR ''P'' then Inr (cfg\<lparr>co_no_progress := True\<rparr>)
       else if opt = CHR ''T'' then Inr (cfg\<lparr>co_preserve := True\<rparr>)
       else if opt = CHR ''K'' then Inr (cfg\<lparr>keep_partial := True\<rparr>)
       else if opt = CHR ''h'' then Inl 0
       else Inl 1)"

fun parse_options :: "(string \<Rightarrow> real option \<times> string) \<Rightarrow> (string \<Rightarrow> int \<times> string) \<Rightarrow> (char \<times> string) list \<Rightarrow> copy_options \<Rightarrow> int + copy_options" where
  "parse_options strtod strtol [] cfg = Inr cfg"
| "parse_options strtod strtol (x # xs) cfg =
    (case parse_option strtod strtol x cfg of Inl code \<Rightarrow> Inl code | Inr cfg' \<Rightarrow> parse_options strtod strtol xs cfg')"

definition default_options :: copy_options where
  "default_options = \<lparr>chunk_size = 256 * 1024, pipeline_depth = 8, use_direct = False, no_fsync = False, keep_partial = False,
     co_recursive = False, co_preserve = False, co_quiet = False, co_no_progress = False, co_verbose = False, co_sources = [], co_dest = []\<rparr>"

definition parse_args :: "(string \<Rightarrow> real option \<times> string) \<Rightarrow> (string \<Rightarrow> int \<times> string) \<Rightarrow> (char \<times> string) list \<Rightarrow> string list \<Rightarrow> int + copy_options" where
  "parse_args strtod strtol options args =
    (case parse_options strtod strtol options default_options of
       Inl code \<Rightarrow> Inl code
     | Inr cfg \<Rightarrow>
         if length args < 2 then Inl 1
         else if use_direct cfg \<and> chunk_size cfg mod SECTOR_SIZE \<noteq> 0 then Inl 1
         else Inr (cfg\<lparr>co_sources := butlast args, co_dest := last args\<rparr>))"

lemma parse_options_bounds:
  "parse_options strtod strtol xs cfg = Inr cfg' \<Longrightarrow> 0 < chunk_size cfg \<Longrightarrow> chunk_size cfg \<le> 2 ^ 63 \<Longrightarrow> 1 \<le> pipeline_depth cfg \<and> pipeline_depth cfg \<le> 64 \<Longrightarrow>
   0 < chunk_size cfg' \<and> chunk_size cfg' \<le> 2 ^ 63 \<and> 1 \<le> pipeline_depth cfg' \<and> pipeline_depth cfg' \<le> 64"
proof (induction xs arbitrary: cfg)
  case (Cons x xs)
  obtain c where c: "parse_option strtod strtol x cfg = Inr c" "parse_options strtod strtol xs c = Inr cfg'"
    using Cons.prems(1) by (auto split: sum.splits)
  have sz: "sz \<le> 2 ^ 63" if "parse_size strtod a = Some sz" for sz a
    using that by (auto simp: parse_size_def Let_def floor_le_iff split: prod.splits if_splits option.splits list.splits)
  have "0 < chunk_size c \<and> chunk_size c \<le> 2 ^ 63 \<and> 1 \<le> pipeline_depth c \<and> pipeline_depth c \<le> 64"
    using c(1) Cons.prems(2-4) sz by (fastforce simp: parse_option_def split: prod.splits if_splits option.splits)
  then show ?case using Cons.IH[OF c(2)] by simp
qed simp

text \<open>
  The configuration an accepted command line gives is one the pipeline can run with: a positive block
  size, a multiple of the sector size under \<open>O_DIRECT\<close>, between 1 and 64 slots, at least one source, and every source and the target in order.
\<close>

theorem accepted_options_are_usable:
  assumes "parse_args strtod strtol options args = Inr cfg"
  shows "0 < chunk_size cfg \<and> chunk_size cfg \<le> 2 ^ 63 \<and> (use_direct cfg \<longrightarrow> 512 dvd chunk_size cfg) \<and>
    1 \<le> pipeline_depth cfg \<and> pipeline_depth cfg \<le> 64 \<and> co_sources cfg \<noteq> [] \<and> co_sources cfg @ [co_dest cfg] = args"
proof -
  obtain c where c: "parse_options strtod strtol options default_options = Inr c" "2 \<le> length args"
    "use_direct c \<longrightarrow> chunk_size c mod SECTOR_SIZE = 0" "cfg = c\<lparr>co_sources := butlast args, co_dest := last args\<rparr>"
    using assms by (auto simp: parse_args_def split: sum.splits if_splits)
  have "0 < chunk_size c \<and> chunk_size c \<le> 2 ^ 63 \<and> 1 \<le> pipeline_depth c \<and> pipeline_depth c \<le> 64"
    by (rule parse_options_bounds[OF c(1)]) (simp_all add: default_options_def)
  moreover have "args \<noteq> []" "butlast args \<noteq> []" using c(2) by (cases args; auto)+
  ultimately show ?thesis using c by (auto simp: mod_eq_0_iff_dvd)
qed

theorem accepted_options_are_usable_witness:
  "\<exists>cfg. parse_args (\<lambda>s. (Some 1024, [])) (\<lambda>s. (3, [])) [(CHR ''d'', []), (CHR ''b'', ''1K'')] [''a'', ''b''] = Inr cfg \<and> 512 dvd chunk_size cfg"
proof -
  have "\<exists>cfg. parse_args (\<lambda>s. (Some 1024, [])) (\<lambda>s. (3, [])) [(CHR ''d'', []), (CHR ''b'', ''1K'')] [''a'', ''b''] = Inr cfg \<and> use_direct cfg"
    by (simp add: parse_args_def parse_option_def parse_size_def default_options_def)
  then show ?thesis using accepted_options_are_usable by blast
qed

section \<open>Paths\<close>

fun trim_len :: "string \<Rightarrow> nat \<Rightarrow> nat" where
  "trim_len s (Suc (Suc n)) = (if s ! Suc n = CHR ''/'' then trim_len s (Suc n) else Suc (Suc n))"
| "trim_len s n = n"

definition trimmed :: "string \<Rightarrow> string" where
  "trimmed s = take (trim_len s (length s)) s"

definition path_join :: "string \<Rightarrow> string \<Rightarrow> string" where
  "path_join dir name = trimmed dir @ ''/'' @ name"

definition remap_path :: "string \<Rightarrow> string \<Rightarrow> string \<Rightarrow> string" where
  "remap_path src_root dst_root fpath =
    (let suffix = drop (trim_len src_root (length src_root)) fpath;
         rest = (case suffix of [] \<Rightarrow> [] | ch # cs \<Rightarrow> if ch = CHR ''/'' then cs else suffix)
     in trimmed dst_root @ ''/'' @ rest)"

lemma trim_len_le: "trim_len s n \<le> n"
  by (induction s n rule: trim_len.induct) auto

text \<open>The file below the source root keeps its place below the target root.\<close>

lemma remap_below:
  assumes "trimmed src_root \<noteq> ''/''"
  shows "remap_path src_root dst_root (trimmed src_root @ ''/'' @ rest) = trimmed dst_root @ ''/'' @ rest"
proof -
  have "length (trimmed src_root) = trim_len src_root (length src_root)"
    using trim_len_le[of src_root "length src_root"] by (simp add: trimmed_def)
  then show ?thesis by (simp add: remap_path_def)
qed

section \<open>The walk over a source tree\<close>

record walk_ctx =
  wc_tasks :: "copy_task list"
  wc_dirs :: "string list"
  wc_errors :: nat

definition new_task :: "string \<Rightarrow> string \<Rightarrow> nat \<Rightarrow> copy_task" where
  "new_task sp dp n = \<lparr>ft_src_path = sp, ft_dst_path = dp, ft_file_size = n, ft_src_fd = -1, ft_dst_fd = -1,
     ft_read_offset = 0, ft_bytes_written = 0, ft_active_ops = 0, ft_reads_done = False, ft_done = False\<rparr>"

definition queue_push :: "copy_task \<Rightarrow> walk_ctx \<Rightarrow> walk_ctx" where
  "queue_push t w = w\<lparr>wc_tasks := wc_tasks w @ [t]\<rparr>"

abbreviation EEXIST :: int where "EEXIST \<equiv> 17"

definition make_dir :: "string \<Rightarrow> int \<Rightarrow> walk_ctx \<Rightarrow> walk_ctx" where
  "make_dir dst err w =
    (if err = 0 then w\<lparr>wc_dirs := wc_dirs w @ [dst]\<rparr>
     else if err \<noteq> EEXIST then w\<lparr>wc_errors := wc_errors w + 1\<rparr> else w)"

definition nftw_callback :: "(string \<Rightarrow> file_stat option) \<Rightarrow> string \<Rightarrow> string \<Rightarrow> walk_entry \<Rightarrow> walk_ctx \<Rightarrow> walk_ctx" where
  "nftw_callback stat src_root dst_root x w =
    (let dst = remap_path src_root dst_root (we_path x); failed = w\<lparr>wc_errors := wc_errors w + 1\<rparr>
     in case we_type x of
          FTW_D \<Rightarrow> if \<not> we_path_mem x then failed
            else if we_path x = src_root then (if stat dst = None then make_dir dst (we_mkdir x) w else w)
            else make_dir dst (we_mkdir x) w
        | FTW_F \<Rightarrow> if \<not> we_path_mem x \<or> \<not> we_task_mem x then failed
            else queue_push (new_task (we_path x) dst (st_size (we_stat x))) w
        | _ \<Rightarrow> w)"

definition build_recursive :: "(string \<Rightarrow> file_stat option) \<Rightarrow> (string \<Rightarrow> walk_entry list \<times> int) \<Rightarrow> string \<Rightarrow> string \<Rightarrow> walk_ctx \<Rightarrow> bool \<times> walk_ctx" where
  "build_recursive stat nftw src dst w =
    (let (entries, rc) = nftw src; w1 = fold (nftw_callback stat src dst) entries (w\<lparr>wc_errors := 0\<rparr>)
     in (rc = 0 \<and> wc_errors w1 = 0, w1))"

section \<open>The task list\<close>

record task_env =
  te_stat :: "string \<Rightarrow> file_stat option"
  te_nftw :: "string \<Rightarrow> walk_entry list \<times> int"
  te_basename :: "string \<Rightarrow> string"
  te_mkdir :: "string \<Rightarrow> int"
  te_mem :: "string \<Rightarrow> bool"

definition add_source :: "task_env \<Rightarrow> bool \<Rightarrow> string \<Rightarrow> bool \<Rightarrow> string \<Rightarrow> walk_ctx \<Rightarrow> bool \<times> walk_ctx" where
  "add_source env recursive dest dst_is_dir src w =
    (case te_stat env src of
       None \<Rightarrow> (False, w)
     | Some st \<Rightarrow>
        (let dst = (if dst_is_dir then path_join dest (te_basename env src) else dest)
         in case st_kind_of st of
              S_DIR \<Rightarrow>
                if \<not> recursive \<or> \<not> te_mem env src then (False, w)
                else if te_mkdir env dst \<noteq> 0 \<and> te_mkdir env dst \<noteq> EEXIST then (False, w)
                else build_recursive (te_stat env) (te_nftw env) src dst
                  (if te_mkdir env dst = 0 then w\<lparr>wc_dirs := wc_dirs w @ [dst]\<rparr> else w)
            | S_REG \<Rightarrow>
                if \<not> te_mem env src then (False, w)
                else if (case te_stat env dst of Some c \<Rightarrow> st_dev st = st_dev c \<and> st_ino st = st_ino c | None \<Rightarrow> False) then (False, w)
                else (True, queue_push (new_task src dst (st_size st)) w)
            | S_OTHER \<Rightarrow> (True, w)))"

fun add_sources :: "task_env \<Rightarrow> bool \<Rightarrow> string \<Rightarrow> bool \<Rightarrow> string list \<Rightarrow> walk_ctx \<Rightarrow> bool \<times> walk_ctx" where
  "add_sources env recursive dest dst_is_dir [] w = (True, w)"
| "add_sources env recursive dest dst_is_dir (src # srcs) w =
    (case add_source env recursive dest dst_is_dir src w of
       (ok, w1) \<Rightarrow> if ok then add_sources env recursive dest dst_is_dir srcs w1 else (False, w1))"

definition build_task_list :: "task_env \<Rightarrow> bool \<Rightarrow> string list \<Rightarrow> string \<Rightarrow> copy_task list option" where
  "build_task_list env recursive sources dest =
    (let dst_is_dir = (case te_stat env dest of Some st \<Rightarrow> st_kind_of st = S_DIR | None \<Rightarrow> False)
     in if length sources > 1 \<and> \<not> dst_is_dir then None
        else case add_sources env recursive dest dst_is_dir sources \<lparr>wc_tasks = [], wc_dirs = [], wc_errors = 0\<rparr> of
          (ok, w) \<Rightarrow> if \<not> ok \<or> wc_tasks w = [] then None else Some (wc_tasks w))"

section \<open>The tasks of a tree\<close>

definition file_entries :: "walk_entry list \<Rightarrow> walk_entry list" where
  "file_entries xs = filter (\<lambda>x. we_type x = FTW_F) xs"

lemma walk_errors_grow: "wc_errors w \<le> wc_errors (fold (nftw_callback stat src dst) xs w)"
proof (induction xs arbitrary: w)
  case (Cons x xs)
  have "wc_errors w \<le> wc_errors (nftw_callback stat src dst x w)"
    by (simp add: nftw_callback_def Let_def make_dir_def queue_push_def split: ftw_type.split)
  then show ?case using Cons[of "nftw_callback stat src dst x w"] by simp
qed simp

lemma walk_tasks:
  "wc_errors (fold (nftw_callback stat src dst) xs w) = wc_errors w \<Longrightarrow>
   wc_tasks (fold (nftw_callback stat src dst) xs w) =
     wc_tasks w @ map (\<lambda>x. new_task (we_path x) (remap_path src dst (we_path x)) (st_size (we_stat x))) (file_entries xs)"
proof (induction xs arbitrary: w)
  case (Cons x xs)
  let ?w = "nftw_callback stat src dst x w"
  have "wc_errors w \<le> wc_errors ?w"
    using walk_errors_grow[of w stat src dst "[x]"] by simp
  then have e: "wc_errors ?w = wc_errors w" "wc_errors (fold (nftw_callback stat src dst) xs ?w) = wc_errors ?w"
    using Cons.prems walk_errors_grow[of ?w stat src dst xs] by simp_all
  have "wc_tasks ?w = wc_tasks w @ (if we_type x = FTW_F then [new_task (we_path x) (remap_path src dst (we_path x)) (st_size (we_stat x))] else [])"
    using e(1) by (auto simp: nftw_callback_def Let_def make_dir_def queue_push_def split: ftw_type.splits if_splits)
  then show ?case using Cons.IH[OF e(2)] by (simp add: file_entries_def)
qed (simp add: file_entries_def)

text \<open>
  Claim C23. The walk over a source directory gives a well formed job: when it reports no error, there is one fresh task for each
  regular file, every target lies below the target root at the place the file has below the source root, no two tasks write the same target and
  no target is a source.
\<close>

theorem tree_tasks_form_job:
  assumes "build_task_list env True [src] dest = Some ts"
    and "te_stat env src = Some st" and "st_kind_of st = S_DIR" and "te_nftw env src = (entries, 0)"
    and "dst = (if (case te_stat env dest of Some d \<Rightarrow> st_kind_of d = S_DIR | None \<Rightarrow> False) then path_join dest (te_basename env src) else dest)"
    and "trimmed src \<noteq> ''/''" and "distinct (map we_path (file_entries entries))"
    and "\<forall>x \<in> set (file_entries entries). \<exists>rest xs. we_path x = trimmed src @ ''/'' @ rest \<and> C (we_path x) = Some xs \<and>
      length xs = st_size (we_stat x) \<and> (xs = [] \<longrightarrow> no_fsync cfg)"
    and "\<forall>x \<in> set (file_entries entries). take (length (trimmed dst) + 1) (we_path x) \<noteq> trimmed dst @ ''/''"
    and "0 < chunk_size cfg" and "chunk_size cfg < 2 ^ 62" and "use_direct cfg \<longrightarrow> 512 dvd chunk_size cfg"
  shows "map ft_src_path ts = map we_path (file_entries entries) \<and> copy_job cfg C (map task_static ts) \<and>
    (\<forall>t \<in> set ts. \<exists>rest. ft_src_path t = trimmed src @ ''/'' @ rest \<and> ft_dst_path t = trimmed dst @ ''/'' @ rest)"
proof -
  let ?fs = "file_entries entries"
  let ?mk = "\<lambda>x. new_task (we_path x) (remap_path src dst (we_path x)) (st_size (we_stat x))"
  define D where "D = (case te_stat env dest of Some d \<Rightarrow> st_kind_of d = S_DIR | None \<Rightarrow> False)"
  define w0 where "w0 = \<lparr>wc_tasks = [], wc_dirs = [], wc_errors = 0\<rparr>"
  define w where "w = (if te_mkdir env dst = 0 then w0\<lparr>wc_dirs := wc_dirs w0 @ [dst]\<rparr> else w0)"
  have a: "fst (add_source env True dest D src w0) \<and> ts = wc_tasks (snd (add_source env True dest D src w0))"
    using assms(1) by (auto simp: build_task_list_def D_def w0_def Let_def split: if_splits prod.splits)
  have d: "dst = (if D then path_join dest (te_basename env src) else dest)" using assms(5) by (simp add: D_def)
  have "add_source env True dest D src w0 = build_recursive (te_stat env) (te_nftw env) src dst w"
    using a assms(2,3) unfolding d w_def add_source_def by (auto simp: Let_def split: if_splits)
  then have "fst (build_recursive (te_stat env) (te_nftw env) src dst w)" "ts = wc_tasks (snd (build_recursive (te_stat env) (te_nftw env) src dst w))"
    using a by simp_all
  moreover have "wc_tasks w = []" by (simp add: w_def w0_def)
  ultimately have ts: "ts = map ?mk ?fs"
    using walk_tasks[of "te_stat env" src dst entries "w\<lparr>wc_errors := 0\<rparr>"] assms(4) by (simp add: build_recursive_def Let_def)
  have below: "\<exists>rest. we_path x = trimmed src @ ''/'' @ rest \<and> remap_path src dst (we_path x) = trimmed dst @ ''/'' @ rest" if "x \<in> set ?fs" for x
    using assms(8) that remap_below[OF assms(6), of dst] by fastforce
  have inj: "inj_on (remap_path src dst) (set (map we_path ?fs))"
  proof (rule inj_onI)
    fix p q assume "p \<in> set (map we_path ?fs)" "q \<in> set (map we_path ?fs)" and e: "remap_path src dst p = remap_path src dst q"
    then obtain x y where xy: "x \<in> set ?fs" "y \<in> set ?fs" "p = we_path x" "q = we_path y" by auto
    obtain r1 where r1: "p = trimmed src @ ''/'' @ r1" "remap_path src dst p = trimmed dst @ ''/'' @ r1" using below[OF xy(1)] xy(3) by blast
    obtain r2 where r2: "q = trimmed src @ ''/'' @ r2" "remap_path src dst q = trimmed dst @ ''/'' @ r2" using below[OF xy(2)] xy(4) by blast
    show "p = q" using e r1 r2 by simp
  qed
  have apart: "we_path y \<noteq> remap_path src dst (we_path x)" if xy: "x \<in> set ?fs" "y \<in> set ?fs" for x y
  proof
    assume e: "we_path y = remap_path src dst (we_path x)"
    obtain rest where "remap_path src dst (we_path x) = trimmed dst @ ''/'' @ rest" using below[OF xy(1)] by blast
    then have "take (length (trimmed dst) + 1) (we_path y) = trimmed dst @ ''/''" using e by simp
    then show False using assms(9) xy(2) by blast
  qed
  have js: "map task_static ts = map (\<lambda>x. (we_path x, remap_path src dst (we_path x), st_size (we_stat x))) ?fs"
    by (simp add: ts new_task_def task_static_def)
  have "map (fst \<circ> snd) (map task_static ts) = map (remap_path src dst) (map we_path ?fs)" unfolding js by simp
  then have "distinct (map (fst \<circ> snd) (map task_static ts))" using assms(7) inj by (simp only: distinct_map)
  moreover have "\<exists>xs. C (we_path x) = Some xs \<and> length xs = st_size (we_stat x) \<and> (st_size (we_stat x) = 0 \<longrightarrow> no_fsync cfg)" if "x \<in> set ?fs" for x
    using assms(8) that by fastforce
  ultimately have "copy_job cfg C (map task_static ts)"
    using assms(10-12) apart unfolding copy_job_def js by fastforce
  moreover have "\<exists>rest. ft_src_path t = trimmed src @ ''/'' @ rest \<and> ft_dst_path t = trimmed dst @ ''/'' @ rest" if "t \<in> set ts" for t
    using that below by (auto simp: ts new_task_def)
  ultimately show ?thesis by (auto simp: ts new_task_def)
qed

text \<open>
  Two sources of the same name are both accepted and get the same target, so their copies overwrite each other while both are in flight.
\<close>

theorem same_name_sources_collide:
  assumes "te_stat env dest = Some d" and "st_kind_of d = S_DIR" and "te_basename env a = te_basename env b"
    and "te_stat env a = Some sa" and "st_kind_of sa = S_REG" and "te_stat env b = Some sb" and "st_kind_of sb = S_REG"
    and "te_stat env (path_join dest (te_basename env a)) = None" and "te_mem env a" and "te_mem env b"
  shows "\<exists>ts. build_task_list env recursive [a, b] dest = Some ts \<and> map ft_src_path ts = [a, b] \<and>
    map ft_dst_path ts = replicate 2 (path_join dest (te_basename env a))"
  using assms by (simp add: build_task_list_def add_source_def queue_push_def new_task_def numeral_2_eq_2)

definition demo_tree :: task_env where
  "demo_tree = \<lparr>te_stat = (\<lambda>p. if p = ''in'' then Some \<lparr>st_kind_of = S_DIR, st_size = 0, st_dev = 1, st_ino = 5\<rparr> else None),
     te_nftw = (\<lambda>_. ([\<lparr>we_path = ''in'', we_type = FTW_D, we_stat = \<lparr>st_kind_of = S_DIR, st_size = 0, st_dev = 1, st_ino = 5\<rparr>,
         we_path_mem = True, we_task_mem = True, we_mkdir = EEXIST\<rparr>,
       \<lparr>we_path = ''in/a'', we_type = FTW_F, we_stat = \<lparr>st_kind_of = S_REG, st_size = 3, st_dev = 1, st_ino = 6\<rparr>,
         we_path_mem = True, we_task_mem = True, we_mkdir = 0\<rparr>], 0)),
     te_basename = (\<lambda>p. p), te_mkdir = (\<lambda>_. 0), te_mem = (\<lambda>_. True)\<rparr>"

theorem tree_tasks_form_job_witness:
  "\<exists>ts. build_task_list demo_tree True [''in''] ''out'' = Some ts \<and> map ft_src_path ts = [''in/a''] \<and>
     copy_job small_cfg (\<lambda>_. Some [1, 2, 3]) (map task_static ts)"
proof -
  let ?x = "\<lparr>we_path = ''in/a'', we_type = FTW_F, we_stat = \<lparr>st_kind_of = S_REG, st_size = 3, st_dev = 1, st_ino = 6\<rparr>,
         we_path_mem = True, we_task_mem = True, we_mkdir = 0\<rparr>"
  let ?d = "\<lparr>st_kind_of = S_DIR, st_size = 0, st_dev = 1, st_ino = 5\<rparr>"
  have b: "build_task_list demo_tree True [''in''] ''out'' = Some [new_task ''in/a'' ''out/a'' 3]" by code_simp
  have n: "te_stat demo_tree ''in'' = Some ?d" "st_kind_of ?d = S_DIR"
    "te_nftw demo_tree ''in'' = (fst (te_nftw demo_tree ''in''), 0)" by (simp_all add: demo_tree_def)
  have e: "file_entries (fst (te_nftw demo_tree ''in'')) = [?x]" by (simp add: demo_tree_def file_entries_def)
  have t: "trimmed ''in'' = ''in''" "trimmed ''out'' = ''out''" by (simp_all add: trimmed_def numeral_2_eq_2 numeral_3_eq_3)
  have d: "''out'' = (if (case te_stat demo_tree ''out'' of Some d \<Rightarrow> st_kind_of d = S_DIR | None \<Rightarrow> False)
      then path_join ''out'' (te_basename demo_tree ''in'') else ''out'')" by (simp add: demo_tree_def)
  from tree_tasks_form_job[OF b n d, of "\<lambda>_. Some [1, 2, 3]" small_cfg, unfolded e t] show ?thesis
    using b by (simp add: small_cfg_def)
qed

end
