(* ===== verification/Hash_Pipeline.thy ===== *)
theory Hash_Pipeline
  imports Aura_Prelude
begin

text \<open>
  The checksum tool \<open>aura-hash\<close> (src/tools/aura-hash/aura-hash.c): reads of a file complete in any order, the digest
  takes the chunks in the order of the file. The digest library is a parameter, \<open>upd\<close> for
  \<open>EVP_DigestUpdate\<close> and \<open>fin\<close> for \<open>EVP_DigestFinal_ex\<close>; the answers of \<open>open\<close> and of the engine are arguments, as
  are the contents of the files, which the tool does not change.
\<close>

section \<open>Data\<close>

record hash_config =
  hash_chunk_size :: nat
  hash_pipeline_depth :: nat

record 'm hash_task =
  ht_path :: string
  ht_file_size :: nat
  ht_fd :: int
  ht_read_offset :: nat
  ht_hash_offset :: nat
  ht_active_ops :: int
  ht_reads_done :: bool
  ht_done :: bool
  ht_md_ctx :: 'm
  ht_bytes_hashed :: nat

datatype hash_buf_state = HASH_FREE | HASH_READING | HASH_DONE

record hash_slot =
  hs_buf :: "8 word list"
  hs_offset :: nat
  hs_bytes :: nat
  hs_state :: hash_buf_state
  hs_task :: "nat option"

text \<open>The context with its queue, the lines printed so far and the requests in flight: slot, path, length and offset.\<close>

record 'm hash_ctx =
  hc_tasks :: "'m hash_task list"
  hc_current :: nat
  hc_completed_files :: nat
  hc_bytes_read :: nat
  hc_slots :: "hash_slot list"
  hc_active_ops :: int
  hc_error :: int
  hc_output :: "string list"
  hc_ops :: "(nat \<times> string \<times> nat \<times> nat) list"
  hc_subs :: nat

record hash_env =
  he_open :: "string \<Rightarrow> int"
  he_admit :: "nat \<Rightarrow> int"
  he_contents :: "string \<Rightarrow> 8 word list"

definition hash_upd_task :: "nat \<Rightarrow> ('m hash_task \<Rightarrow> 'm hash_task) \<Rightarrow> 'm hash_ctx \<Rightarrow> 'm hash_ctx" where
  "hash_upd_task i f c = c\<lparr>hc_tasks := (hc_tasks c)[i := f (hc_tasks c ! i)]\<rparr>"

definition hash_upd_slot :: "nat \<Rightarrow> (hash_slot \<Rightarrow> hash_slot) \<Rightarrow> 'm hash_ctx \<Rightarrow> 'm hash_ctx" where
  "hash_upd_slot j f c = c\<lparr>hc_slots := (hc_slots c)[j := f (hc_slots c ! j)]\<rparr>"

definition hash_set_error :: "int \<Rightarrow> 'm hash_ctx \<Rightarrow> 'm hash_ctx" where
  "hash_set_error err c = (if hc_error c = 0 then c\<lparr>hc_error := err\<rparr> else c)"

definition hash_free_slot :: "nat \<Rightarrow> nat \<Rightarrow> 'm hash_ctx \<Rightarrow> 'm hash_ctx" where
  "hash_free_slot i j c =
    (let c1 = hash_upd_slot j (\<lambda>b. b\<lparr>hs_state := HASH_FREE, hs_task := None\<rparr>) c
     in hash_upd_task i (\<lambda>t. t\<lparr>ht_active_ops := ht_active_ops t - 1\<rparr>) (c1\<lparr>hc_active_ops := hc_active_ops c1 - 1\<rparr>))"

section \<open>Draining in file order\<close>

text \<open>
  The output line: the digest in hexadecimal, two spaces and the path. The line buffer holds the longest digest and any path that can be opened.
\<close>

definition hex_digit :: "nat \<Rightarrow> char" where
  "hex_digit n = ''0123456789abcdef'' ! n"

definition hex_byte :: "8 word \<Rightarrow> string" where
  "hex_byte b = [hex_digit (unat b div 16), hex_digit (unat b mod 16)]"

definition hash_line :: "string \<Rightarrow> 8 word list \<Rightarrow> string" where
  "hash_line path digest = concat (map hex_byte digest) @ ''  '' @ path @ [CHR 0x0A]"

definition finalize_task :: "('m \<Rightarrow> 8 word list) \<Rightarrow> nat \<Rightarrow> 'm hash_ctx \<Rightarrow> 'm hash_ctx" where
  "finalize_task fin i c = c\<lparr>hc_output := hc_output c @ [hash_line (ht_path (hc_tasks c ! i)) (fin (ht_md_ctx (hc_tasks c ! i)))]\<rparr>"

text \<open>The digest is printed, the file closed and done.\<close>

definition finish_hash :: "('m \<Rightarrow> 8 word list) \<Rightarrow> nat \<Rightarrow> 'm hash_ctx \<Rightarrow> 'm hash_ctx" where
  "finish_hash fin i c =
    (let c1 = hash_upd_task i (\<lambda>t. t\<lparr>ht_fd := -1, ht_done := True\<rparr>) (finalize_task fin i c)
     in c1\<lparr>hc_completed_files := hc_completed_files c1 + 1\<rparr>)"

text \<open>The scan for the slot that holds the next bytes of the task, from slot 0.\<close>

definition next_slot :: "nat \<Rightarrow> 'm hash_ctx \<Rightarrow> nat option" where
  "next_slot i c =
    find (\<lambda>j. let b = hc_slots c ! j in hs_state b = HASH_DONE \<and> hs_task b = Some i \<and> hs_offset b = ht_hash_offset (hc_tasks c ! i)) [0..<length (hc_slots c)]"

definition feed_slot :: "('m \<Rightarrow> 8 word list \<Rightarrow> 'm) \<Rightarrow> nat \<Rightarrow> nat \<Rightarrow> 'm hash_ctx \<Rightarrow> 'm hash_ctx" where
  "feed_slot upd i j c =
    (let b = hc_slots c ! j;
         c1 = hash_upd_task i (\<lambda>t. t\<lparr>ht_md_ctx := upd (ht_md_ctx t) (take (hs_bytes b) (hs_buf b)), ht_bytes_hashed := ht_bytes_hashed t + hs_bytes b,
                ht_hash_offset := ht_hash_offset t + hs_bytes b\<rparr>) c
     in hash_free_slot i j (c1\<lparr>hc_bytes_read := hc_bytes_read c1 + hs_bytes b\<rparr>))"

definition done_slots :: "'m hash_ctx \<Rightarrow> nat" where
  "done_slots c = length (filter (\<lambda>b. hs_state b = HASH_DONE) (hc_slots c))"

lemma next_slot_Some:
  assumes "next_slot i c = Some j"
  shows "j < length (hc_slots c)" "hs_state (hc_slots c ! j) = HASH_DONE" "hs_task (hc_slots c ! j) = Some i" "hs_offset (hc_slots c ! j) = ht_hash_offset (hc_tasks c ! i)"
  using assms by (auto simp: next_slot_def find_Some_iff Let_def)

lemma feed_slot_done: "next_slot i c = Some j \<Longrightarrow> done_slots (feed_slot upd i j c) < done_slots c"
  using next_slot_Some[of i c j] length_filter_update[of j "hc_slots c" "\<lambda>b. hs_state b = HASH_DONE" "(hc_slots c ! j)\<lparr>hs_state := HASH_FREE, hs_task := None\<rparr>"]
  by (simp add: done_slots_def feed_slot_def hash_free_slot_def hash_upd_task_def hash_upd_slot_def Let_def)

function drain_loop_hash :: "('m \<Rightarrow> 8 word list \<Rightarrow> 'm) \<Rightarrow> nat \<Rightarrow> 'm hash_ctx \<Rightarrow> 'm hash_ctx" where
  "drain_loop_hash upd i c = (case next_slot i c of None \<Rightarrow> c | Some j \<Rightarrow> drain_loop_hash upd i (feed_slot upd i j c))"
  by pat_completeness auto

termination by (relation "measure (\<lambda>(upd, i, c). done_slots c)") (auto simp: feed_slot_done)

declare drain_loop_hash.simps [simp del]

definition drain_completed :: "('m \<Rightarrow> 8 word list \<Rightarrow> 'm) \<Rightarrow> ('m \<Rightarrow> 8 word list) \<Rightarrow> nat \<Rightarrow> 'm hash_ctx \<Rightarrow> 'm hash_ctx" where
  "drain_completed upd fin i c =
    (let c1 = drain_loop_hash upd i c; t = hc_tasks c1 ! i
     in if ht_reads_done t \<and> ht_active_ops t = 0 \<and> \<not> ht_done t then finish_hash fin i c1 else c1)"

definition on_read_complete_hash :: "('m \<Rightarrow> 8 word list \<Rightarrow> 'm) \<Rightarrow> ('m \<Rightarrow> 8 word list) \<Rightarrow> nat \<Rightarrow> int \<Rightarrow> 'm hash_ctx \<Rightarrow> 'm hash_ctx" where
  "on_read_complete_hash upd fin j result c =
    (let i = the (hs_task (hc_slots c ! j))
     in if result \<le> 0
        then hash_free_slot i j (if result < 0 then hash_set_error result c else c)
        else drain_completed upd fin i (hash_upd_slot j (\<lambda>b. b\<lparr>hs_bytes := nat result, hs_state := HASH_DONE\<rparr>) c))"

section \<open>The pipeline\<close>

function find_hash_task :: "'m hash_task list \<Rightarrow> nat \<Rightarrow> nat option" where
  "find_hash_task ts i = (if i \<ge> length ts then None
     else if ht_reads_done (ts ! i) \<or> ht_done (ts ! i) then find_hash_task ts (Suc i) else Some i)"
  by pat_completeness auto

termination by (relation "measure (\<lambda>(ts, i). length ts - i)") auto

declare find_hash_task.simps [simp del]

definition hash_submit_chunk :: "hash_env \<Rightarrow> hash_config \<Rightarrow> nat \<Rightarrow> nat \<Rightarrow> 'm hash_ctx \<Rightarrow> 'm hash_ctx" where
  "hash_submit_chunk env cfg i j c =
    (let t = hc_tasks c ! i;
         chunk = (if ht_read_offset t + hash_chunk_size cfg > ht_file_size t then ht_file_size t - ht_read_offset t else hash_chunk_size cfg);
         c1 = hash_upd_slot j (\<lambda>b. b\<lparr>hs_offset := ht_read_offset t, hs_bytes := chunk, hs_state := HASH_READING, hs_task := Some i\<rparr>) c;
         c2 = hash_upd_task i (\<lambda>t. t\<lparr>ht_read_offset := ht_read_offset t + chunk\<rparr>) c1;
         c3 = (if ht_read_offset t + chunk \<ge> ht_file_size t
               then (hash_upd_task i (\<lambda>t. t\<lparr>ht_reads_done := True\<rparr>) c2)\<lparr>hc_current := Suc i\<rparr> else c2);
         c4 = c3\<lparr>hc_subs := hc_subs c3 + 1\<rparr>
     in if he_admit env (hc_subs c) \<noteq> 0
        then hash_upd_task i (\<lambda>t. t\<lparr>ht_read_offset := ht_read_offset t - chunk\<rparr>)
          (hash_upd_slot j (\<lambda>b. b\<lparr>hs_state := HASH_FREE, hs_task := None\<rparr>) (hash_set_error (- he_admit env (hc_subs c)) c4))
        else hash_upd_task i (\<lambda>t. t\<lparr>ht_active_ops := ht_active_ops t + 1\<rparr>)
          (c4\<lparr>hc_active_ops := hc_active_ops c4 + 1, hc_ops := hc_ops c4 @ [(j, ht_path t, chunk, ht_read_offset t)]\<rparr>))"

definition hash_skip :: "nat \<Rightarrow> int \<Rightarrow> 'm hash_ctx \<Rightarrow> 'm hash_ctx" where
  "hash_skip i fd c =
    (let c1 = hash_upd_task i (\<lambda>t. t\<lparr>ht_fd := fd, ht_reads_done := True, ht_done := True\<rparr>) c
     in c1\<lparr>hc_completed_files := hc_completed_files c1 + 1, hc_current := Suc i\<rparr>)"

definition hash_empty :: "('m \<Rightarrow> 8 word list) \<Rightarrow> nat \<Rightarrow> 'm hash_ctx \<Rightarrow> 'm hash_ctx" where
  "hash_empty fin i c = (finish_hash fin i (hash_upd_task i (\<lambda>t. t\<lparr>ht_reads_done := True\<rparr>) c))\<lparr>hc_current := Suc i\<rparr>"

function submit_next_read_hash :: "('m \<Rightarrow> 8 word list) \<Rightarrow> hash_env \<Rightarrow> hash_config \<Rightarrow> nat \<Rightarrow> 'm hash_ctx \<Rightarrow> 'm hash_ctx" where
  "submit_next_read_hash fin env cfg j c =
    (case find_hash_task (hc_tasks c) (hc_current c) of
       None \<Rightarrow> c
     | Some i \<Rightarrow>
        (let t = hc_tasks c ! i; fd = he_open env (ht_path t)
         in if ht_fd t < 0
            then if fd < 0 then submit_next_read_hash fin env cfg j (hash_skip i fd c)
              else let c1 = hash_upd_task i (\<lambda>t. t\<lparr>ht_fd := fd\<rparr>) c
                in if ht_file_size t = 0 then submit_next_read_hash fin env cfg j (hash_empty fin i c1)
                   else hash_submit_chunk env cfg i j c1
            else hash_submit_chunk env cfg i j c))"
  by pat_completeness auto

lemma find_hash_task_Some:
  "find_hash_task ts i = Some m \<Longrightarrow> i \<le> m \<and> m < length ts \<and> \<not> ht_reads_done (ts ! m) \<and> \<not> ht_done (ts ! m) \<and>
     (\<forall>x. i \<le> x \<and> x < m \<longrightarrow> ht_reads_done (ts ! x) \<or> ht_done (ts ! x))"
proof (induction ts i rule: find_hash_task.induct)
  case (1 ts i)
  show ?case
  proof (cases "i < length ts \<and> (ht_reads_done (ts ! i) \<or> ht_done (ts ! i))")
    case True
    then have "find_hash_task ts (Suc i) = Some m" using 1(2) by (subst (asm) find_hash_task.simps) simp
    then show ?thesis using 1(1) True by (metis Suc_leD le_antisym not_less not_less_eq_eq)
  next
    case False
    then show ?thesis using 1(2) by (subst (asm) find_hash_task.simps) (auto split: if_splits)
  qed
qed

termination submit_next_read_hash
  by (relation "measure (\<lambda>(fin, env, cfg, j, c). length (hc_tasks c) - hc_current c)")
    (auto simp: hash_skip_def hash_empty_def finish_hash_def finalize_task_def hash_upd_task_def Let_def dest!: find_hash_task_Some)

declare submit_next_read_hash.simps [simp del]

definition all_tasks_done_hash :: "'m hash_ctx \<Rightarrow> bool" where
  "all_tasks_done_hash c = list_all ht_done (hc_tasks c)"

text \<open>A completion takes the request at a position, fills the buffer of its slot with the bytes read and runs the callback.\<close>

definition complete_hash :: "('m \<Rightarrow> 8 word list \<Rightarrow> 'm) \<Rightarrow> ('m \<Rightarrow> 8 word list) \<Rightarrow> hash_env \<Rightarrow> nat \<times> int \<Rightarrow> 'm hash_ctx \<Rightarrow> 'm hash_ctx" where
  "complete_hash upd fin env nr c =
    (case nr of (n, result) \<Rightarrow>
       if n < length (hc_ops c)
       then case hc_ops c ! n of (j, path, len, off) \<Rightarrow>
         on_read_complete_hash upd fin j result
           (hash_upd_slot j (\<lambda>b. b\<lparr>hs_buf := take (nat result) (drop off (he_contents env path)) @ drop (nat result) (hs_buf b)\<rparr>)
             (c\<lparr>hc_ops := take n (hc_ops c) @ drop (Suc n) (hc_ops c)\<rparr>))
       else c)"

record hash_round =
  hr_stop :: bool
  hr_done :: "(nat \<times> int) list"
  hr_wait :: "int + int"
  hr_intr :: "nat \<Rightarrow> bool"

fun first_batch_hash :: "('m \<Rightarrow> 8 word list) \<Rightarrow> hash_env \<Rightarrow> hash_config \<Rightarrow> (nat \<Rightarrow> bool) \<Rightarrow> nat list \<Rightarrow> 'm hash_ctx \<Rightarrow> 'm hash_ctx" where
  "first_batch_hash fin env cfg intr [] c = c"
| "first_batch_hash fin env cfg intr (j # js) c =
    (if hc_error c = 0 \<and> \<not> intr j then first_batch_hash fin env cfg intr js (submit_next_read_hash fin env cfg j c) else c)"

definition refill_hash :: "('m \<Rightarrow> 8 word list) \<Rightarrow> hash_env \<Rightarrow> hash_config \<Rightarrow> (nat \<Rightarrow> bool) \<Rightarrow> nat \<Rightarrow> 'm hash_ctx \<Rightarrow> 'm hash_ctx" where
  "refill_hash fin env cfg intr j c =
    (if hs_state (hc_slots c ! j) = HASH_FREE \<and> hc_error c = 0 \<and> \<not> intr j then submit_next_read_hash fin env cfg j c else c)"

definition wait_fails :: "int + int \<Rightarrow> bool" where
  "wait_fails n = (case n of Inl err \<Rightarrow> err \<noteq> EINTR \<and> err \<noteq> ETIME \<and> err \<noteq> ETIMEDOUT | Inr _ \<Rightarrow> False)"

definition hash_wait :: "('m \<Rightarrow> 8 word list \<Rightarrow> 'm) \<Rightarrow> ('m \<Rightarrow> 8 word list) \<Rightarrow> hash_env \<Rightarrow> hash_round \<Rightarrow> 'm hash_ctx \<Rightarrow> 'm hash_ctx" where
  "hash_wait upd fin env r c = fold (complete_hash upd fin env) (hr_done r) c"

definition hash_refills :: "('m \<Rightarrow> 8 word list) \<Rightarrow> hash_env \<Rightarrow> hash_config \<Rightarrow> hash_round \<Rightarrow> 'm hash_ctx \<Rightarrow> 'm hash_ctx" where
  "hash_refills fin env cfg r c = fold (refill_hash fin env cfg (hr_intr r)) [0..<hash_pipeline_depth cfg] c"

fun hash_loop :: "('m \<Rightarrow> 8 word list \<Rightarrow> 'm) \<Rightarrow> ('m \<Rightarrow> 8 word list) \<Rightarrow> hash_env \<Rightarrow> hash_config \<Rightarrow> hash_round list \<Rightarrow> 'm hash_ctx \<Rightarrow> ('m hash_ctx \<times> hash_round list) option" where
  "hash_loop upd fin env cfg [] c = (if all_tasks_done_hash c \<or> hc_error c \<noteq> 0 then Some (c, []) else None)"
| "hash_loop upd fin env cfg (r # rs) c =
    (if all_tasks_done_hash c \<or> hc_error c \<noteq> 0 \<or> hr_stop r then Some (c, r # rs)
     else let c1 = hash_wait upd fin env r c
       in if wait_fails (hr_wait r) then Some (hash_set_error (case hr_wait r of Inl err \<Rightarrow> - err | Inr _ \<Rightarrow> 0) c1, rs)
          else hash_loop upd fin env cfg rs (hash_refills fin env cfg r c1))"

fun hash_drain :: "('m \<Rightarrow> 8 word list \<Rightarrow> 'm) \<Rightarrow> ('m \<Rightarrow> 8 word list) \<Rightarrow> hash_env \<Rightarrow> hash_round list \<Rightarrow> 'm hash_ctx \<Rightarrow> 'm hash_ctx option" where
  "hash_drain upd fin env [] c = (if hc_active_ops c > 0 then None else Some c)"
| "hash_drain upd fin env (r # rs) c = (if hc_active_ops c > 0 then hash_drain upd fin env rs (hash_wait upd fin env r c) else Some c)"

definition hash_pipeline :: "('m \<Rightarrow> 8 word list \<Rightarrow> 'm) \<Rightarrow> ('m \<Rightarrow> 8 word list) \<Rightarrow> hash_env \<Rightarrow> hash_config \<Rightarrow> (nat \<Rightarrow> bool) \<Rightarrow> hash_round list \<Rightarrow> 'm hash_ctx \<Rightarrow> (int \<times> 'm hash_ctx) option" where
  "hash_pipeline upd fin env cfg intr rounds c =
    (case hash_loop upd fin env cfg rounds (first_batch_hash fin env cfg intr [0..<hash_pipeline_depth cfg] c) of
       None \<Rightarrow> None
     | Some (c1, rs) \<Rightarrow> map_option (\<lambda>c2. (hc_error c2, c2)) (hash_drain upd fin env rs c1))"

section \<open>A worker\<close>

definition new_hash_task :: "'m \<Rightarrow> string \<Rightarrow> nat \<Rightarrow> 'm hash_task" where
  "new_hash_task m0 path n = \<lparr>ht_path = path, ht_file_size = n, ht_fd = -1, ht_read_offset = 0, ht_hash_offset = 0, ht_active_ops = 0,
     ht_reads_done = False, ht_done = False, ht_md_ctx = m0, ht_bytes_hashed = 0\<rparr>"

definition hash_start :: "8 word list list \<Rightarrow> 'm hash_task list \<Rightarrow> 'm hash_ctx" where
  "hash_start bufs ts = \<lparr>hc_tasks = ts, hc_current = 0, hc_completed_files = 0, hc_bytes_read = 0,
     hc_slots = map (\<lambda>buf. \<lparr>hs_buf = buf, hs_offset = 0, hs_bytes = 0, hs_state = HASH_FREE, hs_task = None\<rparr>) bufs,
     hc_active_ops = 0, hc_error = 0, hc_output = [], hc_ops = [], hc_subs = 0\<rparr>"

text \<open>
  What a worker gets from its surroundings: whether the engine and the slot array are there, the buffers the engine hands out, which submissions
  the engine accepts, interrupts and the rounds of its waits. \<open>opn\<close> and \<open>contents\<close> are the file system, shared by all workers.
\<close>

record hash_worker =
  hw_engine :: bool
  hw_slots :: bool
  hw_buf :: "nat \<Rightarrow> 8 word list option"
  hw_admit :: "nat \<Rightarrow> int"
  hw_intr :: "nat \<Rightarrow> bool"
  hw_rounds :: "hash_round list"

definition hash_io :: "(string \<Rightarrow> int) \<Rightarrow> (string \<Rightarrow> 8 word list) \<Rightarrow> hash_worker \<Rightarrow> hash_env" where
  "hash_io opn contents w = \<lparr>he_open = opn, he_admit = hw_admit w, he_contents = contents\<rparr>"

definition run_worker_pipeline ::
  "('m \<Rightarrow> 8 word list \<Rightarrow> 'm) \<Rightarrow> ('m \<Rightarrow> 8 word list) \<Rightarrow> (string \<Rightarrow> int) \<Rightarrow> (string \<Rightarrow> 8 word list) \<Rightarrow> hash_config \<Rightarrow> hash_worker \<Rightarrow> 'm hash_task list \<Rightarrow> (int \<times> string list) option" where
  "run_worker_pipeline upd fin opn contents cfg w ts =
    (if ts = [] then Some (0, [])
     else if \<not> hw_engine w \<or> \<not> hw_slots w then Some (-1, [])
     else case those (map (hw_buf w) [0..<hash_pipeline_depth cfg]) of
       None \<Rightarrow> Some (-1, [])
     | Some bufs \<Rightarrow> map_option (\<lambda>(err, c). (err, hc_output c))
         (hash_pipeline upd fin (hash_io opn contents w) cfg (hw_intr w) (hw_rounds w) (hash_start bufs ts)))"

end
