(* ===== verification/Hash_Correct.thy ===== *)
theory Hash_Correct
  imports Hash_Pipeline "HOL-Library.Multiset"
begin

text \<open>
  Correctness of the checksum pipeline: the invariant that relates slots, requests and digests, its preservation by
  every step, and what it gives for a whole run.
\<close>

section \<open>The invariant\<close>

definition hash_opened :: "'m hash_task \<Rightarrow> bool" where
  "hash_opened t \<longleftrightarrow> \<not> ht_done t \<and> 0 \<le> ht_fd t"

definition hash_static :: "'m hash_task \<Rightarrow> string \<times> nat" where
  "hash_static t = (ht_path t, ht_file_size t)"

definition hash_job :: "hash_env \<Rightarrow> hash_config \<Rightarrow> (string \<times> nat) list \<Rightarrow> bool" where
  "hash_job env cfg J \<longleftrightarrow> 0 < hash_chunk_size cfg \<and> (\<forall>(p, n) \<in> set J. length (he_contents env p) = n)"

text \<open>The digest of the bytes fed so far does not depend on how they were cut into chunks.\<close>

definition incremental :: "('m \<Rightarrow> 8 word list \<Rightarrow> 'm) \<Rightarrow> bool" where
  "incremental upd \<longleftrightarrow> (\<forall>m. upd m [] = m) \<and> (\<forall>m a b. upd (upd m a) b = upd m (a @ b))"

definition slot_req :: "'m hash_task list \<Rightarrow> nat \<Rightarrow> hash_slot \<Rightarrow> (nat \<times> string \<times> nat \<times> nat) list" where
  "slot_req ts j b = (if hs_state b = HASH_READING then [(j, ht_path (ts ! the (hs_task b)), hs_bytes b, hs_offset b)] else [])"

definition reqs_ok :: "nat set \<Rightarrow> 'm hash_ctx \<Rightarrow> bool" where
  "reqs_ok D c \<longleftrightarrow> (\<forall>q \<in> set (hc_ops c). fst q < length (hc_slots c)) \<and>
     (\<forall>j < length (hc_slots c). filter (\<lambda>q. fst q = j) (hc_ops c) = (if j \<in> D then [] else slot_req (hc_tasks c) j (hc_slots c ! j)))"

definition hash_slot_ok :: "hash_env \<Rightarrow> hash_config \<Rightarrow> 'm hash_task list \<Rightarrow> hash_slot \<Rightarrow> bool" where
  "hash_slot_ok env cfg ts b \<longleftrightarrow>
    (case hs_task b of
       None \<Rightarrow> hs_state b = HASH_FREE
     | Some i \<Rightarrow> i < length ts \<and> hash_opened (ts ! i) \<and> hs_state b \<noteq> HASH_FREE \<and> 0 < hs_bytes b \<and>
         hs_bytes b = min (hash_chunk_size cfg) (ht_file_size (ts ! i) - hs_offset b) \<and> hash_chunk_size cfg dvd hs_offset b \<and>
         ht_hash_offset (ts ! i) \<le> hs_offset b \<and> hs_offset b + hs_bytes b \<le> ht_read_offset (ts ! i) \<and>
         (hs_state b = HASH_DONE \<longrightarrow> take (hs_bytes b) (hs_buf b) = take (hs_bytes b) (drop (hs_offset b) (he_contents env (ht_path (ts ! i))))))"

definition holds_byte :: "hash_slot list \<Rightarrow> nat \<Rightarrow> nat \<Rightarrow> bool" where
  "holds_byte bs i p \<longleftrightarrow> (\<exists>b \<in> set bs. hs_task b = Some i \<and> hs_offset b \<le> p \<and> p < hs_offset b + hs_bytes b)"

definition hash_open_ok :: "('m \<Rightarrow> 8 word list \<Rightarrow> 'm) \<Rightarrow> 'm \<Rightarrow> hash_env \<Rightarrow> hash_config \<Rightarrow> bool \<Rightarrow> hash_slot list \<Rightarrow> nat \<Rightarrow> 'm hash_task \<Rightarrow> bool" where
  "hash_open_ok upd m0 env cfg ex bs i t \<longleftrightarrow>
     ht_hash_offset t \<le> ht_read_offset t \<and> ht_read_offset t \<le> ht_file_size t \<and> (ht_reads_done t \<longleftrightarrow> ht_read_offset t = ht_file_size t) \<and>
     (\<not> ht_reads_done t \<longrightarrow> hash_chunk_size cfg dvd ht_read_offset t) \<and>
     ht_md_ctx t = upd m0 (take (ht_hash_offset t) (he_contents env (ht_path t))) \<and> 0 \<le> he_open env (ht_path t) \<and>
     (\<forall>p. ht_hash_offset t \<le> p \<and> p < ht_read_offset t \<longrightarrow> holds_byte bs i p) \<and>
     (\<not> ex \<longrightarrow> (ht_reads_done t \<longrightarrow> (\<exists>b \<in> set bs. hs_task b = Some i)) \<and>
        (\<forall>b \<in> set bs. hs_task b = Some i \<and> hs_state b = HASH_DONE \<longrightarrow> hs_offset b \<noteq> ht_hash_offset t))"

definition hash_task_ok :: "('m \<Rightarrow> 8 word list \<Rightarrow> 'm) \<Rightarrow> 'm \<Rightarrow> hash_env \<Rightarrow> hash_config \<Rightarrow> bool \<Rightarrow> hash_slot list \<Rightarrow> nat \<Rightarrow> 'm hash_task \<Rightarrow> bool" where
  "hash_task_ok upd m0 env cfg ex bs i t \<longleftrightarrow> ht_active_ops t = int (length (filter (\<lambda>b. hs_task b = Some i) bs)) \<and>
     (if ht_done t then ht_fd t < 0 \<and> ht_reads_done t
      else if ht_fd t < 0 then ht_read_offset t = 0 \<and> ht_hash_offset t = 0 \<and> \<not> ht_reads_done t \<and> ht_md_ctx t = m0
      else hash_open_ok upd m0 env cfg ex bs i t)"

text \<open>One line for each finished file that could be opened.\<close>

definition hashed :: "hash_env \<Rightarrow> 'm hash_task \<Rightarrow> bool" where
  "hashed env t \<longleftrightarrow> ht_done t \<and> 0 \<le> he_open env (ht_path t)"

definition digest_line :: "('m \<Rightarrow> 8 word list \<Rightarrow> 'm) \<Rightarrow> ('m \<Rightarrow> 8 word list) \<Rightarrow> 'm \<Rightarrow> hash_env \<Rightarrow> string \<Rightarrow> string" where
  "digest_line upd fin m0 env p = hash_line p (fin (upd m0 (he_contents env p)))"

definition output_ok :: "('m \<Rightarrow> 8 word list \<Rightarrow> 'm) \<Rightarrow> ('m \<Rightarrow> 8 word list) \<Rightarrow> 'm \<Rightarrow> hash_env \<Rightarrow> 'm hash_ctx \<Rightarrow> bool" where
  "output_ok upd fin m0 env c \<longleftrightarrow> mset (hc_output c) = mset (map (digest_line upd fin m0 env \<circ> ht_path) (filter (hashed env) (hc_tasks c)))"

definition offsets_apart :: "hash_slot list \<Rightarrow> bool" where
  "offsets_apart bs \<longleftrightarrow> (\<forall>j < length bs. \<forall>j' < length bs. j \<noteq> j' \<and> hs_task (bs ! j) \<noteq> None \<and> hs_task (bs ! j) = hs_task (bs ! j') \<longrightarrow>
     hs_offset (bs ! j) \<noteq> hs_offset (bs ! j'))"

definition hash_inv :: "('m \<Rightarrow> 8 word list \<Rightarrow> 'm) \<Rightarrow> ('m \<Rightarrow> 8 word list) \<Rightarrow> 'm \<Rightarrow> hash_env \<Rightarrow> hash_config \<Rightarrow> (string \<times> nat) list \<Rightarrow> nat set \<Rightarrow> nat set \<Rightarrow> 'm hash_ctx \<Rightarrow> bool" where
  "hash_inv upd fin m0 env cfg J D X c \<longleftrightarrow> map hash_static (hc_tasks c) = J \<and> reqs_ok D c \<and>
     (\<forall>b \<in> set (hc_slots c). hash_slot_ok env cfg (hc_tasks c) b) \<and> offsets_apart (hc_slots c) \<and>
     (\<forall>i < length (hc_tasks c). hash_task_ok upd m0 env cfg (i \<in> X) (hc_slots c) i (hc_tasks c ! i)) \<and>
     hc_active_ops c = int (length (filter (\<lambda>b. hs_task b \<noteq> None) (hc_slots c))) \<and> output_ok upd fin m0 env c \<and>
     (\<forall>x < length (hc_tasks c). x < hc_current c \<longrightarrow> ht_reads_done (hc_tasks c ! x) \<or> ht_done (hc_tasks c ! x))"

section \<open>What a step leaves to the other tasks\<close>

lemma hash_parts:
  assumes "hash_inv upd fin m0 env cfg J D X c"
  shows "map hash_static (hc_tasks c) = J" "reqs_ok D c" "\<forall>b \<in> set (hc_slots c). hash_slot_ok env cfg (hc_tasks c) b" "offsets_apart (hc_slots c)"
    "\<And>i. i < length (hc_tasks c) \<Longrightarrow> hash_task_ok upd m0 env cfg (i \<in> X) (hc_slots c) i (hc_tasks c ! i)"
    "hc_active_ops c = int (length (filter (\<lambda>b. hs_task b \<noteq> None) (hc_slots c)))" "output_ok upd fin m0 env c"
    "\<And>x. x < length (hc_tasks c) \<Longrightarrow> x < hc_current c \<Longrightarrow> ht_reads_done (hc_tasks c ! x) \<or> ht_done (hc_tasks c ! x)"
  using assms by (simp_all add: hash_inv_def)

lemma hash_static_nth: "map hash_static ts = map hash_static ts' \<Longrightarrow> i < length ts \<Longrightarrow>
    ht_path (ts ! i) = ht_path (ts' ! i) \<and> ht_file_size (ts ! i) = ht_file_size (ts' ! i)"
  by (metis (no_types, lifting) Pair_inject length_map nth_map hash_static_def)

lemma hash_task_other:
  assumes "hash_task_ok upd m0 env cfg ex bs i t" "j < length bs" "hs_task (bs ! j) \<noteq> Some i" "hs_task b \<noteq> Some i"
  shows "hash_task_ok upd m0 env cfg ex (bs[j := b]) i t"
proof -
  have f: "filter (\<lambda>b. hs_task b = Some i) (bs[j := b]) = filter (\<lambda>b. hs_task b = Some i) bs"
    using assms by (intro update_filter_other) auto
  have h: "holds_byte (bs[j := b]) i p = holds_byte bs i p" for p
    unfolding holds_byte_def using assms by (intro update_ex_other) auto
  have e: "(\<exists>x \<in> set (bs[j := b]). hs_task x = Some i) \<longleftrightarrow> (\<exists>x \<in> set bs. hs_task x = Some i)" using assms by (intro update_ex_other) auto
  have "(\<exists>x \<in> set (bs[j := b]). hs_task x = Some i \<and> hs_state x = HASH_DONE \<and> hs_offset x = ht_hash_offset t) \<longleftrightarrow>
      (\<exists>x \<in> set bs. hs_task x = Some i \<and> hs_state x = HASH_DONE \<and> hs_offset x = ht_hash_offset t)" using assms by (intro update_ex_other) auto
  then have a: "(\<forall>x \<in> set (bs[j := b]). hs_task x = Some i \<and> hs_state x = HASH_DONE \<longrightarrow> hs_offset x \<noteq> ht_hash_offset t) \<longleftrightarrow>
      (\<forall>x \<in> set bs. hs_task x = Some i \<and> hs_state x = HASH_DONE \<longrightarrow> hs_offset x \<noteq> ht_hash_offset t)" by blast
  show ?thesis using assms(1) unfolding hash_task_ok_def hash_open_ok_def f h e a .
qed

lemma hash_slot_task:
  assumes "hash_slot_ok env cfg ts b" "i < length ts" "hash_static t' = hash_static (ts ! i)"
    "hs_task b = Some i \<Longrightarrow> hash_opened t' \<and> ht_hash_offset t' \<le> hs_offset b \<and> ht_read_offset (ts ! i) \<le> ht_read_offset t'"
  shows "hash_slot_ok env cfg (ts[i := t']) b"
  using assms by (auto simp: hash_slot_ok_def hash_static_def nth_list_update split: option.splits)

lemma slot_req_static:
  assumes "hash_slot_ok env cfg ts b" "map hash_static ts' = map hash_static ts"
  shows "slot_req ts' j b = slot_req ts j b"
proof (cases "hs_task b")
  case (Some i)
  then have i: "i < length ts" using assms(1) by (simp add: hash_slot_ok_def)
  then show ?thesis using hash_static_nth[OF assms(2), of i] Some assms(2) by (simp add: slot_req_def) (metis length_map)
qed (use assms(1) in \<open>simp add: slot_req_def hash_slot_ok_def\<close>)

lemma reqs_ok_step:
  assumes "reqs_ok D c" "\<forall>b \<in> set (hc_slots c). hash_slot_ok env cfg (hc_tasks c) b" "map hash_static (hc_tasks c') = map hash_static (hc_tasks c)"
    and "j < length (hc_slots c)" "hc_slots c' = (hc_slots c)[j := b']" "hc_ops c' = hc_ops c @ qs"
    and "j \<in> D \<or> hs_state (hc_slots c ! j) \<noteq> HASH_READING" "slot_req (hc_tasks c') j b' = qs"
  shows "reqs_ok (D - {j}) c'"
proof -
  have q: "\<forall>q \<in> set qs. fst q = j" unfolding assms(8)[symmetric] by (simp add: slot_req_def)
  have f: "filter (\<lambda>q. fst q = j) (hc_ops c) = []" using assms(1,4,7) by (auto simp: reqs_ok_def slot_req_def)
  have qs: "filter (\<lambda>q. fst q = j) qs = qs" using q by (simp add: filter_id_conv)
  have "filter (\<lambda>q. fst q = j') (hc_ops c @ qs) = (if j' \<in> D - {j} then [] else slot_req (hc_tasks c') j' (hc_slots c' ! j'))"
    if j': "j' < length (hc_slots c)" for j'
  proof (cases "j' = j")
    case True
    then show ?thesis using f qs assms(4,5,8) by simp
  next
    case False
    then have "filter (\<lambda>q. fst q = j') qs = []" using q by (auto simp: filter_empty_conv)
    moreover have "slot_req (hc_tasks c') j' (hc_slots c ! j') = slot_req (hc_tasks c) j' (hc_slots c ! j')"
      by (rule slot_req_static[of env cfg, OF _ assms(3)]) (use assms(2) j' in simp)
    ultimately show ?thesis using assms(1,5) False j' by (simp add: reqs_ok_def)
  qed
  then show ?thesis using assms(1,4,5,6) q by (auto simp: reqs_ok_def)
qed

lemma mset_filter_update:
  assumes "i < length ts" "\<not> P (ts ! i)" "P t"
  shows "mset (map f (filter P (ts[i := t]))) = add_mset (f t) (mset (map f (filter P ts)))"
proof -
  have "ts = take i ts @ ts ! i # drop (Suc i) ts" using assms(1) by (rule id_take_nth_drop)
  then have "filter P ts = filter P (take i ts) @ filter P (drop (Suc i) ts)" using assms(2) by (metis (no_types, lifting) filter.simps(2) filter_append)
  then show ?thesis using assms by (simp add: upd_conv_take_nth_drop)
qed

lemma output_same:
  assumes "output_ok upd fin m0 env c" "i < length (hc_tasks c)" "hc_tasks c' = (hc_tasks c)[i := t']" "hc_output c' = hc_output c"
    "\<not> hashed env (hc_tasks c ! i)" "\<not> hashed env t'"
  shows "output_ok upd fin m0 env c'"
  using assms update_filter_other[of i "hc_tasks c" "hashed env" t'] by (simp add: output_ok_def)

lemma hash_inv_step:
  assumes inv: "hash_inv upd fin m0 env cfg J D X c" and i: "i < length (hc_tasks c)"
    and ts: "hc_tasks c' = (hc_tasks c)[i := t']" "hash_static t' = hash_static (hc_tasks c ! i)"
    and slots: "j < length (hc_slots c)" "hc_slots c' = (hc_slots c)[j := b']" "hs_task (hc_slots c ! j) \<in> {None, Some i}" "hs_task b' \<in> {None, Some i}"
    and ops: "reqs_ok D' c'" and b': "hash_slot_ok env cfg (hc_tasks c') b'"
    and mine: "\<And>j'. j' < length (hc_slots c) \<Longrightarrow> j' \<noteq> j \<Longrightarrow> hs_task (hc_slots c ! j') = Some i \<Longrightarrow>
      hash_opened t' \<and> ht_hash_offset t' \<le> hs_offset (hc_slots c ! j') \<and> (hs_task b' = Some i \<longrightarrow> hs_offset (hc_slots c ! j') \<noteq> hs_offset b')"
      "ht_read_offset (hc_tasks c ! i) \<le> ht_read_offset t'"
    and task: "hash_task_ok upd m0 env cfg (i \<in> X') (hc_slots c') i t'"
    and active: "hc_active_ops c' = hc_active_ops c - of_bool (hs_task (hc_slots c ! j) \<noteq> None) + of_bool (hs_task b' \<noteq> None)"
    and X: "X - {i} = X' - {i}" and out: "output_ok upd fin m0 env c'"
    and cur: "\<And>x. x < hc_current c' \<Longrightarrow> x < length (hc_tasks c) \<Longrightarrow> x \<noteq> i \<Longrightarrow> ht_reads_done (hc_tasks c ! x) \<or> ht_done (hc_tasks c ! x)"
      "i < hc_current c' \<Longrightarrow> ht_reads_done t' \<or> ht_done t'"
  shows "hash_inv upd fin m0 env cfg J D' X' c'"
proof -
  note p = hash_parts[OF inv]
  have st: "map hash_static (hc_tasks c') = J" using p(1) ts i by (metis list_update_id map_update)
  have sl: "hash_slot_ok env cfg (hc_tasks c') b" if "b \<in> set (hc_slots c')" for b
  proof -
    have "\<exists>j' < length ((hc_slots c)[j := b']). (hc_slots c)[j := b'] ! j' = b" using that unfolding slots(2) in_set_conv_nth by simp
    then obtain j' where j': "j' < length (hc_slots c)" "(hc_slots c)[j := b'] ! j' = b" by auto
    show ?thesis
    proof (cases "j' = j")
      case False
      then show ?thesis using j' mine ts i p(3) hash_slot_task[of env cfg "hc_tasks c" "hc_slots c ! j'" i t'] by auto
    qed (use j' b' slots(1) in simp)
  qed
  have ap: "offsets_apart (hc_slots c')"
    unfolding offsets_apart_def slots(2) length_list_update
  proof (intro allI impI, elim conjE)
    fix x y assume h: "x < length (hc_slots c)" "y < length (hc_slots c)" "x \<noteq> y" "hs_task ((hc_slots c)[j := b'] ! x) \<noteq> None"
      "hs_task ((hc_slots c)[j := b'] ! x) = hs_task ((hc_slots c)[j := b'] ! y)"
    have "hs_offset (hc_slots c ! z) \<noteq> hs_offset b'" if "z < length (hc_slots c)" "z \<noteq> j" "hs_task (hc_slots c ! z) = hs_task b'" "hs_task b' \<noteq> None" for z
      using mine(1)[OF that(1,2)] that(3,4) slots(4) by auto
    then show "hs_offset ((hc_slots c)[j := b'] ! x) \<noteq> hs_offset ((hc_slots c)[j := b'] ! y)"
      using h p(4) by (cases "x = j"; cases "y = j") (auto simp: offsets_apart_def, metis+)
  qed
  have tk: "hash_task_ok upd m0 env cfg (i' \<in> X') (hc_slots c') i' (hc_tasks c' ! i')" if i': "i' < length (hc_tasks c)" for i'
  proof (cases "i' = i")
    case False
    have "hash_task_ok upd m0 env cfg (i' \<in> X) (hc_slots c') i' (hc_tasks c ! i')"
      unfolding slots(2) using slots(1,3,4) False by (intro hash_task_other[OF p(5)[OF i']]) auto
    moreover have "(i' \<in> X') = (i' \<in> X)" using X False by blast
    ultimately show ?thesis using ts(1) False by simp
  qed (use task ts i in simp)
  have ac: "hc_active_ops c' = int (length (filter (\<lambda>b. hs_task b \<noteq> None) (hc_slots c')))"
    unfolding slots(2) length_filter_update[OF slots(1)] using active p(6) by simp
  have cu: "ht_reads_done (hc_tasks c' ! x) \<or> ht_done (hc_tasks c' ! x)" if "x < hc_current c'" "x < length (hc_tasks c)" for x
    using cur(1)[OF that] cur(2) that ts i by (cases "x = i") auto
  show ?thesis unfolding hash_inv_def using st ops sl ap tk ac out cu ts(1) by simp
qed

section \<open>Feeding the digest\<close>

lemma feed_slot_simps:
  "hc_tasks (feed_slot upd i j c) = (hc_tasks c)[i := (hc_tasks c ! i)\<lparr>ht_md_ctx := upd (ht_md_ctx (hc_tasks c ! i)) (take (hs_bytes (hc_slots c ! j)) (hs_buf (hc_slots c ! j))),
     ht_bytes_hashed := ht_bytes_hashed (hc_tasks c ! i) + hs_bytes (hc_slots c ! j),
     ht_hash_offset := ht_hash_offset (hc_tasks c ! i) + hs_bytes (hc_slots c ! j), ht_active_ops := ht_active_ops (hc_tasks c ! i) - 1\<rparr>]"
  "hc_slots (feed_slot upd i j c) = (hc_slots c)[j := (hc_slots c ! j)\<lparr>hs_state := HASH_FREE, hs_task := None\<rparr>]"
  "hc_ops (feed_slot upd i j c) = hc_ops c" "hc_active_ops (feed_slot upd i j c) = hc_active_ops c - 1"
  "hc_output (feed_slot upd i j c) = hc_output c" "hc_current (feed_slot upd i j c) = hc_current c" "hc_error (feed_slot upd i j c) = hc_error c"
proof -
  note d = feed_slot_def hash_free_slot_def hash_upd_task_def hash_upd_slot_def Let_def
  show "hc_tasks (feed_slot upd i j c) = (hc_tasks c)[i := (hc_tasks c ! i)\<lparr>ht_md_ctx := upd (ht_md_ctx (hc_tasks c ! i)) (take (hs_bytes (hc_slots c ! j)) (hs_buf (hc_slots c ! j))),
     ht_bytes_hashed := ht_bytes_hashed (hc_tasks c ! i) + hs_bytes (hc_slots c ! j),
     ht_hash_offset := ht_hash_offset (hc_tasks c ! i) + hs_bytes (hc_slots c ! j), ht_active_ops := ht_active_ops (hc_tasks c ! i) - 1\<rparr>]"
    by (cases "i < length (hc_tasks c)") (simp_all add: d list_update_beyond not_less)
qed (simp_all add: feed_slot_def hash_free_slot_def hash_upd_task_def hash_upd_slot_def Let_def)

lemma offsets_apartD:
  "offsets_apart bs \<Longrightarrow> j < length bs \<Longrightarrow> j' < length bs \<Longrightarrow> j \<noteq> j' \<Longrightarrow> hs_task (bs ! j) = Some i \<Longrightarrow> hs_task (bs ! j') = Some i \<Longrightarrow>
    hs_offset (bs ! j) \<noteq> hs_offset (bs ! j')"
  unfolding offsets_apart_def by simp

lemma feed_slot_inv:
  assumes inv: "hash_inv upd fin m0 env cfg J {} X c" and job: "hash_job env cfg J" "incremental upd"
    and j: "next_slot i c = Some j" and X: "i \<in> X"
  shows "hash_inv upd fin m0 env cfg J {} X (feed_slot upd i j c)"
proof -
  note p = hash_parts[OF inv] and s = next_slot_Some[OF j]
  let ?t = "hc_tasks c ! i" and ?b = "hc_slots c ! j" and ?C = "he_contents env (ht_path (hc_tasks c ! i))"
  have "hash_slot_ok env cfg (hc_tasks c) ?b" using p(3) s(1) by simp
  note ok = this[unfolded hash_slot_ok_def s(2-4) option.case]
  then have b: "i < length (hc_tasks c)" "hash_opened ?t" "0 < hs_bytes ?b" "hash_chunk_size cfg dvd ht_hash_offset ?t"
      "hs_bytes ?b \<le> hash_chunk_size cfg" "ht_hash_offset ?t + hs_bytes ?b \<le> ht_read_offset ?t"
      "take (hs_bytes ?b) (hs_buf ?b) = take (hs_bytes ?b) (drop (ht_hash_offset ?t) ?C)"
    by (blast, blast, blast, blast, metis min.cobounded1, blast, blast)
  have t: "hash_task_ok upd m0 env cfg True (hc_slots c) i ?t" using p(5)[OF b(1)] X by simp
  then have o: "hash_open_ok upd m0 env cfg True (hc_slots c) i ?t" using b(2) by (simp add: hash_task_ok_def hash_opened_def split: if_splits)
  have later: "ht_hash_offset ?t + hs_bytes ?b \<le> hs_offset (hc_slots c ! j')"
    if j': "j' < length (hc_slots c)" "j' \<noteq> j" "hs_task (hc_slots c ! j') = Some i" for j'
  proof -
    have "hash_slot_ok env cfg (hc_tasks c) (hc_slots c ! j')" using p(3) j' by simp
    then have "hash_chunk_size cfg dvd hs_offset (hc_slots c ! j')" "ht_hash_offset ?t \<le> hs_offset (hc_slots c ! j')" using j' by (simp_all add: hash_slot_ok_def)
    moreover have "hs_offset (hc_slots c ! j') \<noteq> ht_hash_offset ?t" using offsets_apartD[OF p(4) j'(1) s(1) j'(2,3)] s by simp
    moreover have "0 < hash_chunk_size cfg" using job(1) by (simp add: hash_job_def)
    ultimately have "ht_hash_offset ?t + hash_chunk_size cfg \<le> hs_offset (hc_slots c ! j')" using b(4) by (intro next_chunk) simp_all
    then show ?thesis using b(5) by linarith
  qed
  have holds: "holds_byte (hc_slots (feed_slot upd i j c)) i q" if q: "ht_hash_offset ?t + hs_bytes ?b \<le> q" "q < ht_read_offset ?t" for q
  proof -
    have "holds_byte (hc_slots c) i q" using o q by (simp add: hash_open_ok_def)
    then obtain x where x: "x \<in> set (hc_slots c)" "hs_task x = Some i" "hs_offset x \<le> q" "q < hs_offset x + hs_bytes x" unfolding holds_byte_def by blast
    have "x \<noteq> ?b" using x q s(4) by auto
    then show ?thesis using x set_update_other[OF x(1) s(1)] unfolding holds_byte_def feed_slot_simps by blast
  qed
  have md: "upd (ht_md_ctx ?t) (take (hs_bytes ?b) (hs_buf ?b)) = upd m0 (take (ht_hash_offset ?t + hs_bytes ?b) ?C)"
    using o b(7) job(2) by (simp add: hash_open_ok_def incremental_def take_add)
  have n: "int (length (filter (\<lambda>b. hs_task b = Some i) (hc_slots (feed_slot upd i j c)))) = ht_active_ops ?t - 1"
    using length_filter_update[OF s(1), of "\<lambda>b. hs_task b = Some i" "?b\<lparr>hs_state := HASH_FREE, hs_task := None\<rparr>"] t s(3)
    unfolding feed_slot_simps by (simp add: hash_task_ok_def)
  have static: "map hash_static (hc_tasks (feed_slot upd i j c)) = map hash_static (hc_tasks c)"
    unfolding feed_slot_simps by (rule map_same_update) (simp add: hash_static_def)
  show ?thesis
  proof (rule hash_inv_step[OF inv b(1) feed_slot_simps(1) _ s(1) feed_slot_simps(2)])
    show "reqs_ok {} (feed_slot upd i j c)"
      using reqs_ok_step[OF p(2,3) _ s(1) feed_slot_simps(2), where qs = "[]"] s(2) static by (simp add: feed_slot_simps(3) slot_req_def)
    show "hash_slot_ok env cfg (hc_tasks (feed_slot upd i j c)) (?b\<lparr>hs_state := HASH_FREE, hs_task := None\<rparr>)" by (simp add: hash_slot_ok_def)
    show "output_ok upd fin m0 env (feed_slot upd i j c)"
      using output_same[OF p(7) b(1) feed_slot_simps(1,5)] b(2) by (simp add: hashed_def hash_opened_def)
  qed (use b s later holds md n o p(6,8) X in \<open>auto simp: hash_static_def hash_opened_def hash_task_ok_def hash_open_ok_def feed_slot_simps\<close>)
qed

text \<open>The drain loop keeps the invariant and the identity of the tasks, and stops when no slot holds the next bytes.\<close>

lemma drain_loop_hash_inv:
  assumes "hash_inv upd fin m0 env cfg J {} X c" "hash_job env cfg J" "incremental upd" "i \<in> X"
  shows "hash_inv upd fin m0 env cfg J {} X (drain_loop_hash upd i c) \<and> next_slot i (drain_loop_hash upd i c) = None"
  using assms
proof (induction upd i c rule: drain_loop_hash.induct)
  case (1 upd i c)
  show ?case
  proof (cases "next_slot i c")
    case (Some j)
    then have "drain_loop_hash upd i c = drain_loop_hash upd i (feed_slot upd i j c)" by (subst drain_loop_hash.simps) simp
    then show ?thesis using "1.IH"[OF Some feed_slot_inv[OF "1.prems"(1-3) Some "1.prems"(4)]] "1.prems" by simp
  qed (use "1.prems" in \<open>subst (1 2) drain_loop_hash.simps, simp\<close>)
qed

lemma drain_loop_frame:
  "hc_error (drain_loop_hash upd i c) = hc_error c \<and> hc_ops (drain_loop_hash upd i c) = hc_ops c \<and> hc_current (drain_loop_hash upd i c) = hc_current c \<and>
   length (hc_tasks (drain_loop_hash upd i c)) = length (hc_tasks c) \<and> length (hc_slots (drain_loop_hash upd i c)) = length (hc_slots c) \<and>
   map ht_done (hc_tasks (drain_loop_hash upd i c)) = map ht_done (hc_tasks c) \<and> map ht_fd (hc_tasks (drain_loop_hash upd i c)) = map ht_fd (hc_tasks c)"
proof (induction upd i c rule: drain_loop_hash.induct)
  case (1 upd i c)
  have d: "map ht_done (hc_tasks (feed_slot upd i j c)) = map ht_done (hc_tasks c)" "map ht_fd (hc_tasks (feed_slot upd i j c)) = map ht_fd (hc_tasks c)" for j
    unfolding feed_slot_simps by (rule map_same_update, simp)+
  show ?case
  proof (cases "next_slot i c")
    case (Some j)
    then have "drain_loop_hash upd i c = drain_loop_hash upd i (feed_slot upd i j c)" by (subst drain_loop_hash.simps) simp
    then show ?thesis using 1[OF Some] d[of j] by (simp add: feed_slot_simps)
  qed (subst drain_loop_hash.simps, simp)+
qed

lemma hash_inv_settle:
  assumes inv: "hash_inv upd fin m0 env cfg J D X c" and i: "i < length (hc_tasks c)" and n: "next_slot i c = None"
    and r: "ht_reads_done (hc_tasks c ! i) \<longrightarrow> ht_done (hc_tasks c ! i) \<or> ht_active_ops (hc_tasks c ! i) \<noteq> 0"
  shows "hash_inv upd fin m0 env cfg J D (X - {i}) c"
proof -
  have "\<not> (hs_state b = HASH_DONE \<and> hs_task b = Some i \<and> hs_offset b = ht_hash_offset (hc_tasks c ! i))" if "b \<in> set (hc_slots c)" for b
    using n that by (auto simp: next_slot_def find_None_iff Let_def in_set_conv_nth)
  moreover have "\<exists>b \<in> set (hc_slots c). hs_task b = Some i" if "ht_active_ops (hc_tasks c ! i) \<noteq> 0"
    using that hash_parts(5)[OF inv i] filter_empty_conv[of "\<lambda>b. hs_task b = Some i" "hc_slots c"] by (auto simp: hash_task_ok_def)
  ultimately have "hash_task_ok upd m0 env cfg False (hc_slots c) i (hc_tasks c ! i)"
    using hash_parts(5)[OF inv i] r by (auto simp: hash_task_ok_def hash_open_ok_def split: if_splits)
  then have "hash_task_ok upd m0 env cfg (x \<in> X - {i}) (hc_slots c) x (hc_tasks c ! x)" if "x < length (hc_tasks c)" for x
    using hash_parts(5)[OF inv that] by (cases "x = i") auto
  then show ?thesis using inv by (simp add: hash_inv_def)
qed

text \<open>A step on one task that leaves the slots alone.\<close>

lemma reqs_ok_static:
  assumes "reqs_ok D c" "\<forall>b \<in> set (hc_slots c). hash_slot_ok env cfg (hc_tasks c) b" "map hash_static (hc_tasks c') = map hash_static (hc_tasks c)"
    "hc_slots c' = hc_slots c" "hc_ops c' = hc_ops c"
  shows "reqs_ok D c'"
proof -
  have "slot_req (hc_tasks c') j (hc_slots c ! j) = slot_req (hc_tasks c) j (hc_slots c ! j)" if j: "j < length (hc_slots c)" for j
    by (rule slot_req_static[of env cfg, OF _ assms(3)]) (use assms(2) j in simp)
  then show ?thesis using assms(1,4,5) by (simp add: reqs_ok_def)
qed

lemma hash_inv_task:
  assumes inv: "hash_inv upd fin m0 env cfg J D X c" and i: "i < length (hc_tasks c)"
    and ts: "hc_tasks c' = (hc_tasks c)[i := t']" "hash_static t' = hash_static (hc_tasks c ! i)"
    and same: "hc_slots c' = hc_slots c" "hc_ops c' = hc_ops c" "hc_active_ops c' = hc_active_ops c"
    and free: "\<And>b. b \<in> set (hc_slots c) \<Longrightarrow> hs_task b \<noteq> Some i"
    and task: "hash_task_ok upd m0 env cfg (i \<in> X') (hc_slots c) i t'" and X: "X - {i} = X' - {i}" and out: "output_ok upd fin m0 env c'"
    and cur: "\<And>x. x < hc_current c' \<Longrightarrow> x < length (hc_tasks c) \<Longrightarrow> x \<noteq> i \<Longrightarrow> ht_reads_done (hc_tasks c ! x) \<or> ht_done (hc_tasks c ! x)"
      "i < hc_current c' \<Longrightarrow> ht_reads_done t' \<or> ht_done t'"
  shows "hash_inv upd fin m0 env cfg J D X' c'"
proof -
  note p = hash_parts[OF inv]
  have st: "map hash_static (hc_tasks c') = map hash_static (hc_tasks c)" unfolding ts(1) by (rule map_same_update[OF ts(2)])
  have "hash_slot_ok env cfg (hc_tasks c') b" if "b \<in> set (hc_slots c)" for b
    unfolding ts(1) using that p(3) i ts(2) free[OF that] by (intro hash_slot_task) auto
  moreover have "hash_task_ok upd m0 env cfg (x \<in> X') (hc_slots c) x (hc_tasks c' ! x)" if "x < length (hc_tasks c)" for x
  proof (cases "x = i")
    case False
    then have "(x \<in> X') = (x \<in> X)" using X by blast
    then show ?thesis using p(5)[OF that] False ts(1) by simp
  qed (use task ts(1) i in simp)
  moreover have "ht_reads_done (hc_tasks c' ! x) \<or> ht_done (hc_tasks c' ! x)" if "x < hc_current c'" "x < length (hc_tasks c)" for x
    using cur(1)[OF that] cur(2) that ts(1) i by (cases "x = i") auto
  moreover have "reqs_ok D c'" using reqs_ok_static[OF p(2,3) st same(1,2)] .
  ultimately show ?thesis unfolding hash_inv_def using st p(1,4,6) out same ts(1) by simp
qed

lemma finish_hash_simps:
  "hc_tasks (finish_hash fin i c) = (hc_tasks c)[i := (hc_tasks c ! i)\<lparr>ht_fd := -1, ht_done := True\<rparr>]" "hc_slots (finish_hash fin i c) = hc_slots c"
  "hc_ops (finish_hash fin i c) = hc_ops c" "hc_active_ops (finish_hash fin i c) = hc_active_ops c" "hc_current (finish_hash fin i c) = hc_current c"
  "hc_error (finish_hash fin i c) = hc_error c"
  "hc_output (finish_hash fin i c) = hc_output c @ [hash_line (ht_path (hc_tasks c ! i)) (fin (ht_md_ctx (hc_tasks c ! i)))]"
  by (simp_all add: finish_hash_def finalize_task_def hash_upd_task_def Let_def)

text \<open>The file is finished only when all of it was fed, so the line is the digest of its contents.\<close>

lemma finish_hash_inv:
  assumes inv: "hash_inv upd fin m0 env cfg J D X c" and job: "hash_job env cfg J" and i: "i < length (hc_tasks c)"
    and t: "hash_opened (hc_tasks c ! i)" "ht_reads_done (hc_tasks c ! i)" "ht_active_ops (hc_tasks c ! i) = 0"
  shows "hash_inv upd fin m0 env cfg J D (X - {i}) (finish_hash fin i c)"
proof -
  note p = hash_parts[OF inv]
  let ?t = "hc_tasks c ! i"
  have free: "filter (\<lambda>b. hs_task b = Some i) (hc_slots c) = []" using p(5)[OF i] t(3) by (simp add: hash_task_ok_def)
  then have nb: "hs_task b \<noteq> Some i" if "b \<in> set (hc_slots c)" for b using that by (auto simp: filter_empty_conv)
  have ok: "hash_open_ok upd m0 env cfg (i \<in> X) (hc_slots c) i ?t" using p(5)[OF i] t(1) by (simp add: hash_task_ok_def hash_opened_def split: if_splits)
  have "\<not> holds_byte (hc_slots c) i q" for q using nb by (auto simp: holds_byte_def)
  then have "ht_hash_offset ?t = ht_file_size ?t" using ok t(2) by (force simp: hash_open_ok_def)
  moreover have "(ht_path ?t, ht_file_size ?t) \<in> set J" using p(1) i by (force simp: hash_static_def)
  then have "length (he_contents env (ht_path ?t)) = ht_file_size ?t" using job by (auto simp: hash_job_def)
  ultimately have md: "ht_md_ctx ?t = upd m0 (he_contents env (ht_path ?t))" using ok by (simp add: hash_open_ok_def)
  have h: "\<not> hashed env ?t" "hashed env (?t\<lparr>ht_fd := -1, ht_done := True\<rparr>)" using ok t(1) by (auto simp: hashed_def hash_opened_def hash_open_ok_def)
  have out: "output_ok upd fin m0 env (finish_hash fin i c)"
    using p(7) mset_filter_update[where P = "hashed env" and f = "digest_line upd fin m0 env \<circ> ht_path", OF i h] md
    unfolding output_ok_def finish_hash_simps by (simp add: digest_line_def)
  show ?thesis
    by (rule hash_inv_task[OF inv i finish_hash_simps(1) _ finish_hash_simps(2-4) nb _ _ out])
      (use p(8) t free in \<open>auto simp: hash_static_def hash_task_ok_def finish_hash_simps\<close>)
qed

lemma drain_completed_inv:
  assumes inv: "hash_inv upd fin m0 env cfg J {} {i} c" and job: "hash_job env cfg J" "incremental upd" and i: "i < length (hc_tasks c)"
    and t: "hash_opened (hc_tasks c ! i)"
  shows "hash_inv upd fin m0 env cfg J {} {} (drain_completed upd fin i c)"
proof -
  let ?c = "drain_loop_hash upd i c"
  have d: "hash_inv upd fin m0 env cfg J {} {i} ?c" "next_slot i ?c = None" using drain_loop_hash_inv[OF inv job, of i] by simp_all
  note fr = drain_loop_frame[of upd i c]
  have "ht_done (hc_tasks ?c ! i) = ht_done (hc_tasks c ! i)" "ht_fd (hc_tasks ?c ! i) = ht_fd (hc_tasks c ! i)" using fr i by (metis nth_map)+
  then have o: "hash_opened (hc_tasks ?c ! i)" using t by (simp add: hash_opened_def)
  show ?thesis
  proof (cases "ht_reads_done (hc_tasks ?c ! i) \<and> ht_active_ops (hc_tasks ?c ! i) = 0 \<and> \<not> ht_done (hc_tasks ?c ! i)")
    case True
    then show ?thesis using finish_hash_inv[OF d(1) job(1) _ o] i fr by (simp add: drain_completed_def Let_def)
  next
    case False
    then show ?thesis using hash_inv_settle[OF d(1) _ d(2)] i fr by (auto simp: drain_completed_def Let_def)
  qed
qed

lemma drain_completed_frame:
  "hc_error (drain_completed upd fin i c) = hc_error c" "hc_ops (drain_completed upd fin i c) = hc_ops c" "hc_current (drain_completed upd fin i c) = hc_current c"
  using drain_loop_frame[of upd i c] by (simp_all add: drain_completed_def Let_def finish_hash_simps)

section \<open>Completions\<close>

definition take_req :: "nat \<Rightarrow> 'm hash_ctx \<Rightarrow> 'm hash_ctx" where
  "take_req n c = c\<lparr>hc_ops := take n (hc_ops c) @ drop (Suc n) (hc_ops c)\<rparr>"

lemma take_req_simps [simp]: "hc_tasks (take_req n c) = hc_tasks c" "hc_slots (take_req n c) = hc_slots c" "hc_active_ops (take_req n c) = hc_active_ops c"
    "hc_output (take_req n c) = hc_output c" "hc_current (take_req n c) = hc_current c" "hc_error (take_req n c) = hc_error c"
    "hc_ops (take_req n c) = take n (hc_ops c) @ drop (Suc n) (hc_ops c)"
  by (simp_all add: take_req_def)

lemma take_req_inv:
  assumes inv: "hash_inv upd fin m0 env cfg J {} X c" and n: "n < length (hc_ops c)"
  defines "j \<equiv> fst (hc_ops c ! n)"
  shows "hash_inv upd fin m0 env cfg J {j} X (take_req n c)" "j < length (hc_slots c)" "slot_req (hc_tasks c) j (hc_slots c ! j) = [hc_ops c ! n]"
proof -
  let ?q = "hc_ops c ! n"
  note p = hash_parts[OF inv]
  show j: "j < length (hc_slots c)" using p(2) n by (simp add: reqs_ok_def j_def)
  have f: "filter (\<lambda>q. fst q = j') (hc_ops c) = slot_req (hc_tasks c) j' (hc_slots c ! j')" if "j' < length (hc_slots c)" for j'
    using p(2) that by (simp add: reqs_ok_def)
  have "?q \<in> set (filter (\<lambda>q. fst q = j) (hc_ops c))" using n by (simp add: j_def)
  then obtain y where y: "slot_req (hc_tasks c) j (hc_slots c ! j) = [y]" unfolding f[OF j] by (auto simp: slot_req_def split: if_splits)
  note r = filter_remove_nth[OF n _ f[OF j, unfolded y]]
  show "slot_req (hc_tasks c) j (hc_slots c ! j) = [?q]" using r(1) y by (simp add: j_def)
  have "filter (\<lambda>q. fst q = j') (hc_ops (take_req n c)) = (if j' \<in> {j} then [] else slot_req (hc_tasks c) j' (hc_slots c ! j'))" if "j' < length (hc_slots c)" for j'
    using that f[OF that] r(2) filter_remove_other[OF n, of "\<lambda>q. fst q = j'"] by (auto simp: j_def)
  moreover have "set (hc_ops (take_req n c)) \<subseteq> set (hc_ops c)" by (auto dest: in_set_takeD in_set_dropD)
  ultimately have "reqs_ok {j} (take_req n c)" using p(2) by (auto simp: reqs_ok_def)
  then show "hash_inv upd fin m0 env cfg J {j} X (take_req n c)" using inv by (simp add: hash_inv_def output_ok_def)
qed

text \<open>A read that fills its chunk marks the slot and feeds what is ready.\<close>

lemma full_read_inv:
  assumes inv: "hash_inv upd fin m0 env cfg J {} {} c" and job: "hash_job env cfg J" "incremental upd" and n: "n < length (hc_ops c)"
    and q: "hc_ops c ! n = (j, path, len, off)"
  shows "hash_inv upd fin m0 env cfg J {} {} (complete_hash upd fin env (n, int len) c)"
proof -
  let ?b = "hc_slots c ! j" and ?c = "take_req n c"
  note tk = take_req_inv[OF inv n, unfolded q fst_conv]
  have r: "hs_state ?b = HASH_READING" "hs_bytes ?b = len" "hs_offset ?b = off" "ht_path (hc_tasks c ! the (hs_task ?b)) = path"
    using tk(3) by (auto simp: slot_req_def split: if_splits)
  have "hash_slot_ok env cfg (hc_tasks c) ?b" using hash_parts(3)[OF inv] tk(2) by simp
  then obtain i where i: "hs_task ?b = Some i" and sl: "i < length (hc_tasks c)" "hash_opened (hc_tasks c ! i)" "0 < len"
      "len = min (hash_chunk_size cfg) (ht_file_size (hc_tasks c ! i) - off)" "hash_chunk_size cfg dvd off"
      "ht_hash_offset (hc_tasks c ! i) \<le> off" "off + len \<le> ht_read_offset (hc_tasks c ! i)"
    using r by (auto simp: hash_slot_ok_def split: option.splits)
  let ?t = "hc_tasks c ! i" and ?C = "he_contents env path"
  have path: "ht_path ?t = path" using r(4) i by simp
  have t: "hash_task_ok upd m0 env cfg False (hc_slots c) i ?t" using hash_parts(5)[OF inv sl(1)] by simp
  then have o: "hash_open_ok upd m0 env cfg False (hc_slots c) i ?t" using sl(2) by (simp add: hash_task_ok_def hash_opened_def split: if_splits)
  define b' where "b' = ?b\<lparr>hs_buf := take len (drop off ?C) @ drop len (hs_buf ?b), hs_bytes := len, hs_state := HASH_DONE\<rparr>"
  define c' where "c' = ?c\<lparr>hc_slots := (hc_slots c)[j := b']\<rparr>"
  have cs: "hc_tasks c' = (hc_tasks c)[i := ?t]" "hc_slots c' = (hc_slots c)[j := b']" "hc_ops c' = hc_ops ?c" "hc_active_ops c' = hc_active_ops c"
    "hc_current c' = hc_current c" "hc_output c' = hc_output c" by (simp_all add: c'_def)
  have complete: "complete_hash upd fin env (n, int len) c = drain_completed upd fin i c'"
    using n q i sl(3) tk(2) unfolding complete_hash_def on_read_complete_hash_def take_req_def[symmetric]
    by (simp add: hash_upd_slot_def Let_def c'_def b'_def)
  have tlen: "length (take len (drop off ?C)) = len"
  proof -
    have "(path, ht_file_size ?t) \<in> set J" using hash_parts(1)[OF inv] sl(1) path by (force simp: hash_static_def)
    then have "length ?C = ht_file_size ?t" using job(1) by (auto simp: hash_job_def)
    moreover have "len \<le> ht_file_size ?t - off" using sl(4) by (metis min.cobounded2)
    ultimately show ?thesis by simp
  qed
  have b': "hs_task b' = Some i" "hs_offset b' = off" "hs_bytes b' = len" "hs_state b' = HASH_DONE" "take len (hs_buf b') = take len (drop off ?C)"
    using i r(3) tlen by (simp_all add: b'_def)
  have "hash_inv upd fin m0 env cfg J {} {i} c'"
  proof (rule hash_inv_step[OF tk(1)])
    show "reqs_ok {} c'"
      using reqs_ok_step[OF hash_parts(2,3)[OF tk(1)], of c' j b' "[]"] tk(2) b'(4) by (simp add: cs slot_req_def)
    show "hash_slot_ok env cfg (hc_tasks c') b'" using sl b' path by (simp add: hash_slot_ok_def cs)
    have "holds_byte (hc_slots c') i x" if "holds_byte (hc_slots c) i x" for x
      using that ex_update[OF that[unfolded holds_byte_def] tk(2), of b'] b' i r by (simp add: holds_byte_def cs)
    then show "hash_task_ok upd m0 env cfg (i \<in> {i}) (hc_slots c') i ?t"
      using t length_filter_update[OF tk(2), of "\<lambda>b. hs_task b = Some i" b'] b'(1) i sl(2)
      by (simp add: hash_task_ok_def hash_open_ok_def hash_opened_def cs)
    show "output_ok upd fin m0 env c'" using hash_parts(7)[OF inv] by (simp add: output_ok_def cs)
    fix j' assume j': "j' < length (hc_slots ?c)" "j' \<noteq> j" "hs_task (hc_slots ?c ! j') = Some i"
    have "hash_slot_ok env cfg (hc_tasks c) (hc_slots c ! j')" using hash_parts(3)[OF inv] j' by simp
    then show "hash_opened ?t \<and> ht_hash_offset ?t \<le> hs_offset (hc_slots ?c ! j') \<and> (hs_task b' = Some i \<longrightarrow> hs_offset (hc_slots ?c ! j') \<noteq> hs_offset b')"
      using offsets_apartD[OF hash_parts(4)[OF inv] _ tk(2) j'(2) _ i] j' b' r sl(2) by (simp add: hash_slot_ok_def)
  qed (use sl i b' tk(2) hash_parts(8)[OF inv] cs in auto)
  then show ?thesis unfolding complete using drain_completed_inv[OF _ job] sl(1,2) by (simp add: cs)
qed

text \<open>A failed read latches an error, and a latched error stays.\<close>

lemma complete_hash_error:
  "hc_error c \<noteq> 0 \<Longrightarrow> hc_error (complete_hash upd fin env nr c) \<noteq> 0"
  by (cases nr) (auto simp: complete_hash_def on_read_complete_hash_def hash_free_slot_def hash_set_error_def hash_upd_task_def hash_upd_slot_def
      drain_completed_frame Let_def split: prod.split)

lemma failed_read_error:
  assumes "n < length (hc_ops c)" "result < 0"
  shows "hc_error (complete_hash upd fin env (n, result) c) \<noteq> 0"
  using assms by (cases "hc_ops c ! n") (auto simp: complete_hash_def on_read_complete_hash_def hash_free_slot_def hash_set_error_def hash_upd_task_def hash_upd_slot_def Let_def)

lemma fold_error: "(\<And>x c. hc_error c \<noteq> 0 \<Longrightarrow> hc_error (f x c) \<noteq> 0) \<Longrightarrow> hc_error c \<noteq> 0 \<Longrightarrow> hc_error (fold f xs c) \<noteq> 0"
  by (induction xs arbitrary: c) auto

text \<open>Reads that end inside the file are full or fail.\<close>

definition sound_read :: "nat \<times> int \<Rightarrow> 'm hash_ctx \<Rightarrow> bool" where
  "sound_read nr c \<longleftrightarrow> (fst nr < length (hc_ops c) \<longrightarrow> snd nr < 0 \<or> snd nr = int (fst (snd (snd (hc_ops c ! fst nr)))))"

lemma complete_hash_inv:
  assumes "hash_inv upd fin m0 env cfg J {} {} c" "hash_job env cfg J" "incremental upd" "sound_read nr c" "hc_error (complete_hash upd fin env nr c) = 0"
  shows "hash_inv upd fin m0 env cfg J {} {} (complete_hash upd fin env nr c)"
proof -
  obtain n result where nr: "nr = (n, result)" by (cases nr)
  show ?thesis
  proof (cases "n < length (hc_ops c)")
    case True
    obtain j path len off where q: "hc_ops c ! n = (j, path, len, off)" by (cases "hc_ops c ! n")
    have "\<not> result < 0" using failed_read_error[OF True] assms(5) nr by blast
    then have "result = int len" using assms(4) True q nr by (simp add: sound_read_def)
    then show ?thesis using full_read_inv[OF assms(1-3) True q] nr by simp
  qed (use assms(1) nr in \<open>simp add: complete_hash_def\<close>)
qed

section \<open>Submissions\<close>

definition next_len :: "hash_config \<Rightarrow> 'm hash_task \<Rightarrow> nat" where
  "next_len cfg t = min (hash_chunk_size cfg) (ht_file_size t - ht_read_offset t)"

lemma hash_submit_simps:
  fixes c :: "'m hash_ctx" and cfg :: hash_config and j :: nat
  assumes "he_admit env (hc_subs c) = 0" "i < length (hc_tasks c)"
  defines "c' \<equiv> hash_submit_chunk env cfg i j c" and "t \<equiv> hc_tasks c ! i" and "n \<equiv> next_len cfg (hc_tasks c ! i)"
  shows "hc_tasks c' = (hc_tasks c)[i := t\<lparr>ht_read_offset := ht_read_offset t + n, ht_reads_done := ht_reads_done t \<or> ht_file_size t \<le> ht_read_offset t + n, ht_active_ops := ht_active_ops t + 1\<rparr>]"
    "hc_slots c' = (hc_slots c)[j := (hc_slots c ! j)\<lparr>hs_offset := ht_read_offset t, hs_bytes := n, hs_state := HASH_READING, hs_task := Some i\<rparr>]"
    "hc_ops c' = hc_ops c @ [(j, ht_path t, n, ht_read_offset t)]" "hc_active_ops c' = hc_active_ops c + 1"
    "hc_current c' = (if ht_file_size t \<le> ht_read_offset t + n then Suc i else hc_current c)" "hc_output c' = hc_output c" "hc_error c' = hc_error c"
proof -
  have n: "(if ht_file_size t < ht_read_offset t + hash_chunk_size cfg then ht_file_size t - ht_read_offset t else hash_chunk_size cfg) = n"
    by (auto simp: n_def t_def next_len_def min_def)
  note d = hash_submit_chunk_def Let_def t_def[symmetric] n hash_upd_task_def hash_upd_slot_def
  show "hc_tasks c' = (hc_tasks c)[i := t\<lparr>ht_read_offset := ht_read_offset t + n, ht_reads_done := ht_reads_done t \<or> ht_file_size t \<le> ht_read_offset t + n, ht_active_ops := ht_active_ops t + 1\<rparr>]"
    "hc_slots c' = (hc_slots c)[j := (hc_slots c ! j)\<lparr>hs_offset := ht_read_offset t, hs_bytes := n, hs_state := HASH_READING, hs_task := Some i\<rparr>]"
    "hc_ops c' = hc_ops c @ [(j, ht_path t, n, ht_read_offset t)]" "hc_active_ops c' = hc_active_ops c + 1"
    "hc_current c' = (if ht_file_size t \<le> ht_read_offset t + n then Suc i else hc_current c)" "hc_output c' = hc_output c" "hc_error c' = hc_error c"
    unfolding c'_def using assms(1,2) by (simp_all add: d)
qed

lemma hash_submit_inv:
  assumes inv: "hash_inv upd fin m0 env cfg J {} {} c" and job: "hash_job env cfg J" and admit: "he_admit env (hc_subs c) = 0"
    and i: "i < length (hc_tasks c)" "hash_opened (hc_tasks c ! i)" "\<not> ht_reads_done (hc_tasks c ! i)"
    and j: "j < length (hc_slots c)" "hs_state (hc_slots c ! j) = HASH_FREE"
    and before: "\<And>x. hc_current c \<le> x \<Longrightarrow> x < i \<Longrightarrow> ht_reads_done (hc_tasks c ! x) \<or> ht_done (hc_tasks c ! x)"
  shows "hash_inv upd fin m0 env cfg J {} {} (hash_submit_chunk env cfg i j c)"
proof -
  note p = hash_parts[OF inv]
  note s = hash_submit_simps[OF admit i(1), of cfg j]
  let ?t = "hc_tasks c ! i" and ?c = "hash_submit_chunk env cfg i j c" and ?n = "next_len cfg (hc_tasks c ! i)"
  let ?b = "(hc_slots c ! j)\<lparr>hs_offset := ht_read_offset ?t, hs_bytes := ?n, hs_state := HASH_READING, hs_task := Some i\<rparr>"
  let ?t' = "?t\<lparr>ht_read_offset := ht_read_offset ?t + ?n, ht_reads_done := ht_reads_done ?t \<or> ht_file_size ?t \<le> ht_read_offset ?t + ?n, ht_active_ops := ht_active_ops ?t + 1\<rparr>"
  have "hash_slot_ok env cfg (hc_tasks c) (hc_slots c ! j)" using p(3) j(1) by simp
  then have f: "hs_task (hc_slots c ! j) = None" using j(2) by (auto simp: hash_slot_ok_def split: option.splits)
  have t: "hash_task_ok upd m0 env cfg False (hc_slots c) i ?t" using p(5)[OF i(1)] by simp
  then have o: "hash_open_ok upd m0 env cfg False (hc_slots c) i ?t" using i(2) by (simp add: hash_task_ok_def hash_opened_def split: if_splits)
  then have ro: "ht_hash_offset ?t \<le> ht_read_offset ?t" "ht_read_offset ?t < ht_file_size ?t" "hash_chunk_size cfg dvd ht_read_offset ?t"
    using i(3) by (auto simp: hash_open_ok_def)
  have n: "0 < ?n" "ht_read_offset ?t + ?n \<le> ht_file_size ?t" using ro job by (auto simp: next_len_def hash_job_def)
  have other: "hs_offset (hc_slots c ! j') + hs_bytes (hc_slots c ! j') \<le> ht_read_offset ?t \<and> 0 < hs_bytes (hc_slots c ! j') \<and> ht_hash_offset ?t \<le> hs_offset (hc_slots c ! j')"
    if "j' < length (hc_slots c)" "hs_task (hc_slots c ! j') = Some i" for j'
  proof -
    have "hash_slot_ok env cfg (hc_tasks c) (hc_slots c ! j')" using p(3) that by simp
    then show ?thesis unfolding hash_slot_ok_def that(2) option.case by blast
  qed
  have whole: "hash_chunk_size cfg dvd ht_read_offset ?t + ?n" if "\<not> ht_file_size ?t \<le> ht_read_offset ?t + ?n"
  proof -
    have "?n = hash_chunk_size cfg" using that by (auto simp: next_len_def min_def split: if_splits)
    then show ?thesis using ro(3) by simp
  qed
  have holds: "holds_byte (hc_slots ?c) i q" if q: "ht_hash_offset ?t \<le> q" "q < ht_read_offset ?t + ?n" for q
  proof (cases "q < ht_read_offset ?t")
    case True
    then have "holds_byte (hc_slots c) i q" using o q by (simp add: hash_open_ok_def)
    then show ?thesis unfolding holds_byte_def s by (rule ex_update[OF _ j(1)]) (simp add: f)
  next
    case False
    then show ?thesis using q set_update_memI[OF j(1), of ?b] unfolding holds_byte_def s by (intro bexI[of _ ?b]) auto
  qed
  have fresh: "hs_offset b \<noteq> ht_hash_offset ?t" if "b \<in> set (hc_slots ?c)" "hs_task b = Some i" "hs_state b = HASH_DONE" for b
  proof -
    have "b \<in> insert ?b (set (hc_slots c))" using that(1) set_update_subset_insert[of "hc_slots c" j ?b] unfolding s by blast
    then have "b \<in> set (hc_slots c)" using that(3) by auto
    then show ?thesis using o that by (simp add: hash_open_ok_def)
  qed
  have "hash_open_ok upd m0 env cfg False (hc_slots ?c) i ?t'"
    using o i(3) ro(1) n(2) whole holds fresh set_update_memI[OF j(1), of ?b] unfolding hash_open_ok_def s
    by (auto intro!: bexI[of _ ?b])
  then have tk: "hash_task_ok upd m0 env cfg (i \<in> {}) (hc_slots ?c) i ?t'"
    using t i(2) f length_filter_update[OF j(1), of "\<lambda>b. hs_task b = Some i" ?b] by (simp add: hash_task_ok_def hash_opened_def s(2))
  show ?thesis
  proof (rule hash_inv_step[OF inv i(1) s(1) _ j(1) s(2)])
    have st: "map hash_static (hc_tasks ?c) = map hash_static (hc_tasks c)" unfolding s(1) by (rule map_same_update) (simp add: hash_static_def)
    show "reqs_ok {} ?c" using reqs_ok_step[OF p(2,3) st j(1) s(2,3)] j(2) i(1) by (simp add: slot_req_def s(1))
    show "hash_slot_ok env cfg (hc_tasks ?c) ?b"
      using i n ro by (simp add: hash_slot_ok_def s(1) hash_opened_def) (simp add: next_len_def)
    show "output_ok upd fin m0 env ?c" by (rule output_same[OF p(7) i(1) s(1,6)]) (use i(2) in \<open>simp_all add: hashed_def hash_opened_def\<close>)
    show "ht_reads_done (hc_tasks c ! x) \<or> ht_done (hc_tasks c ! x)" if "x < hc_current ?c" "x < length (hc_tasks c)" "x \<noteq> i" for x
      using that p(8)[OF that(2)] before[of x] unfolding s(5) by (cases "x < hc_current c") (auto split: if_splits)
    show "ht_reads_done ?t' \<or> ht_done ?t'" if "i < hc_current ?c"
      using that p(8)[OF i(1)] i unfolding s(5) by (auto split: if_splits simp: hash_opened_def)
    show "hash_opened ?t' \<and> ht_hash_offset ?t' \<le> hs_offset (hc_slots c ! j') \<and> (hs_task ?b = Some i \<longrightarrow> hs_offset (hc_slots c ! j') \<noteq> hs_offset ?b)"
      if "j' < length (hc_slots c)" "j' \<noteq> j" "hs_task (hc_slots c ! j') = Some i" for j'
      using other[OF that(1,3)] i(2) by (simp add: hash_opened_def)
    show "hash_task_ok upd m0 env cfg (i \<in> {}) (hc_slots ?c) i ?t'" by (rule tk)
  qed (use f s(4) in \<open>simp_all add: hash_static_def\<close>)
qed

text \<open>A task that is not open has no slot; it is skipped, finished at once or opened.\<close>

lemma no_slot:
  assumes "hash_inv upd fin m0 env cfg J D X c" "\<not> hash_opened (hc_tasks c ! i)" "b \<in> set (hc_slots c)"
  shows "hs_task b \<noteq> Some i"
proof -
  have "hash_slot_ok env cfg (hc_tasks c) b" using hash_parts(3)[OF assms(1)] assms(3) by simp
  then show ?thesis using assms(2) by (auto simp: hash_slot_ok_def)
qed

lemma closed_task:
  assumes "hash_inv upd fin m0 env cfg J {} {} c" "i < length (hc_tasks c)" "ht_fd (hc_tasks c ! i) < 0" "\<not> ht_done (hc_tasks c ! i)"
  shows "ht_active_ops (hc_tasks c ! i) = 0" "ht_read_offset (hc_tasks c ! i) = 0" "ht_hash_offset (hc_tasks c ! i) = 0" "ht_md_ctx (hc_tasks c ! i) = m0"
    "filter (\<lambda>b. hs_task b = Some i) (hc_slots c) = []" "\<And>b. b \<in> set (hc_slots c) \<Longrightarrow> hs_task b \<noteq> Some i"
proof -
  show ns: "hs_task b \<noteq> Some i" if "b \<in> set (hc_slots c)" for b using no_slot[OF assms(1) _ that] assms(3) by (simp add: hash_opened_def)
  show f: "filter (\<lambda>b. hs_task b = Some i) (hc_slots c) = []" using ns by (simp add: filter_empty_conv)
  show "ht_active_ops (hc_tasks c ! i) = 0" "ht_read_offset (hc_tasks c ! i) = 0" "ht_hash_offset (hc_tasks c ! i) = 0" "ht_md_ctx (hc_tasks c ! i) = m0"
    using hash_parts(5)[OF assms(1,2)] assms(3,4) f by (simp_all add: hash_task_ok_def)
qed

lemma hash_skip_inv:
  assumes inv: "hash_inv upd fin m0 env cfg J {} {} c" and i: "i < length (hc_tasks c)" "ht_fd (hc_tasks c ! i) < 0" "\<not> ht_done (hc_tasks c ! i)"
    and fd: "he_open env (ht_path (hc_tasks c ! i)) < 0" "fd < 0"
    and before: "\<And>x. hc_current c \<le> x \<Longrightarrow> x < i \<Longrightarrow> ht_reads_done (hc_tasks c ! x) \<or> ht_done (hc_tasks c ! x)"
  shows "hash_inv upd fin m0 env cfg J {} {} (hash_skip i fd c)"
proof -
  note p = hash_parts[OF inv] and n = closed_task[OF inv i]
  let ?t' = "(hc_tasks c ! i)\<lparr>ht_fd := fd, ht_reads_done := True, ht_done := True\<rparr>"
  have s: "hc_tasks (hash_skip i fd c) = (hc_tasks c)[i := ?t']" "hc_slots (hash_skip i fd c) = hc_slots c" "hc_ops (hash_skip i fd c) = hc_ops c"
    "hc_active_ops (hash_skip i fd c) = hc_active_ops c" "hc_output (hash_skip i fd c) = hc_output c" "hc_current (hash_skip i fd c) = Suc i"
    by (simp_all add: hash_skip_def hash_upd_task_def Let_def)
  show ?thesis
  proof (rule hash_inv_task[OF inv i(1) s(1) _ s(2-4) n(6)])
    show "output_ok upd fin m0 env (hash_skip i fd c)" by (rule output_same[OF p(7) i(1) s(1,5)]) (use i(3) fd in \<open>simp_all add: hashed_def\<close>)
    show "ht_reads_done (hc_tasks c ! x) \<or> ht_done (hc_tasks c ! x)" if "x < hc_current (hash_skip i fd c)" "x < length (hc_tasks c)" "x \<noteq> i" for x
      using that p(8)[OF that(2)] before[of x] unfolding s(6) by (cases "x < hc_current c") auto
  qed (use n fd in \<open>simp_all add: hash_static_def hash_task_ok_def\<close>)
qed

lemma hash_open_inv:
  assumes inv: "hash_inv upd fin m0 env cfg J {} {} c" and u: "incremental upd"
    and i: "i < length (hc_tasks c)" "ht_fd (hc_tasks c ! i) < 0" "\<not> ht_done (hc_tasks c ! i)" "\<not> ht_reads_done (hc_tasks c ! i)"
    and fd: "0 \<le> he_open env (ht_path (hc_tasks c ! i))" "0 \<le> fd" and r: "r \<longleftrightarrow> ht_file_size (hc_tasks c ! i) = 0"
    and c': "hc_tasks c' = (hc_tasks c)[i := (hc_tasks c ! i)\<lparr>ht_fd := fd, ht_reads_done := r\<rparr>]" "hc_slots c' = hc_slots c" "hc_ops c' = hc_ops c"
      "hc_active_ops c' = hc_active_ops c" "hc_output c' = hc_output c" "hc_current c' = hc_current c"
  shows "hash_inv upd fin m0 env cfg J {} (if r then {i} else {}) c'"
proof -
  note p = hash_parts[OF inv] and n = closed_task[OF inv i(1-3)]
  have md: "upd m0 [] = m0" using u by (simp add: incremental_def)
  show ?thesis
  proof (rule hash_inv_task[OF inv i(1) c'(1) _ c'(2-4) n(6)])
    show "output_ok upd fin m0 env c'" by (rule output_same[OF p(7) i(1) c'(1,5)]) (use i(3) in \<open>simp_all add: hashed_def\<close>)
    show "hash_task_ok upd m0 env cfg (i \<in> (if r then {i} else {})) (hc_slots c) i ((hc_tasks c ! i)\<lparr>ht_fd := fd, ht_reads_done := r\<rparr>)"
      using n(1-5) i r fd md n(6) by (auto simp: hash_task_ok_def hash_open_ok_def)
    show "ht_reads_done (hc_tasks c ! x) \<or> ht_done (hc_tasks c ! x)" if "x < hc_current c'" "x < length (hc_tasks c)" "x \<noteq> i" for x
      using that p(8) c'(6) by simp
    show "ht_reads_done ((hc_tasks c ! i)\<lparr>ht_fd := fd, ht_reads_done := r\<rparr>) \<or> ht_done ((hc_tasks c ! i)\<lparr>ht_fd := fd, ht_reads_done := r\<rparr>)" if "i < hc_current c'"
      using that p(8)[OF i(1)] c'(6) i by simp
  qed (simp_all add: hash_static_def)
qed

lemma hash_empty_inv:
  assumes inv: "hash_inv upd fin m0 env cfg J {} {} c" and job: "hash_job env cfg J" "incremental upd"
    and i: "i < length (hc_tasks c)" "ht_fd (hc_tasks c ! i) < 0" "\<not> ht_done (hc_tasks c ! i)" "\<not> ht_reads_done (hc_tasks c ! i)"
    and fd: "0 \<le> he_open env (ht_path (hc_tasks c ! i))" "0 \<le> fd" and e: "ht_file_size (hc_tasks c ! i) = 0"
    and before: "\<And>x. hc_current c \<le> x \<Longrightarrow> x < i \<Longrightarrow> ht_reads_done (hc_tasks c ! x) \<or> ht_done (hc_tasks c ! x)"
  shows "hash_inv upd fin m0 env cfg J {} {} (hash_empty fin i (hash_upd_task i (\<lambda>t. t\<lparr>ht_fd := fd\<rparr>) c))"
proof -
  let ?c1 = "hash_upd_task i (\<lambda>t. t\<lparr>ht_reads_done := True\<rparr>) (hash_upd_task i (\<lambda>t. t\<lparr>ht_fd := fd\<rparr>) c)"
  have s: "hc_tasks ?c1 = (hc_tasks c)[i := (hc_tasks c ! i)\<lparr>ht_fd := fd, ht_reads_done := True\<rparr>]" using i(1) by (simp add: hash_upd_task_def)
  have t: "hc_tasks ?c1 ! i = (hc_tasks c ! i)\<lparr>ht_fd := fd, ht_reads_done := True\<rparr>" using i(1) s by simp
  have "hash_inv upd fin m0 env cfg J {} {i} ?c1" using hash_open_inv[OF inv job(2) i fd, of True ?c1] e s by (simp add: hash_upd_task_def)
  then have f: "hash_inv upd fin m0 env cfg J {} {} (finish_hash fin i ?c1)"
    using finish_hash_inv[OF _ job(1), of upd fin m0 "{}" "{i}" ?c1 i] i fd s t closed_task(1)[OF inv i(1-3)] by (simp add: hash_opened_def)
  have "ht_reads_done (hc_tasks (finish_hash fin i ?c1) ! x) \<or> ht_done (hc_tasks (finish_hash fin i ?c1) ! x)" if "x < length (hc_tasks c)" "x < Suc i" for x
    using that hash_parts(8)[OF inv that(1)] before[of x] i(1) unfolding finish_hash_simps s
    by (cases "x = i"; cases "x < hc_current c") auto
  then show ?thesis using f unfolding hash_empty_def hash_inv_def by (simp add: reqs_ok_def output_ok_def hash_upd_task_def finish_hash_simps)
qed

lemma find_hash_before:
  assumes "find_hash_task (hc_tasks c) (hc_current c) = Some i"
  shows "i < length (hc_tasks c)" "\<not> ht_reads_done (hc_tasks c ! i)" "\<not> ht_done (hc_tasks c ! i)"
    "\<And>x. hc_current c \<le> x \<Longrightarrow> x < i \<Longrightarrow> ht_reads_done (hc_tasks c ! x) \<or> ht_done (hc_tasks c ! x)"
  using find_hash_task_Some[OF assms] by simp_all

lemma find_hash_task_None: "find_hash_task ts i = None \<Longrightarrow> i \<le> x \<Longrightarrow> x < length ts \<Longrightarrow> ht_reads_done (ts ! x) \<or> ht_done (ts ! x)"
proof (induction ts i rule: find_hash_task.induct)
  case (1 ts i)
  have d: "i < length ts" "ht_reads_done (ts ! i) \<or> ht_done (ts ! i)" "find_hash_task ts (Suc i) = None"
    using 1(2-4) find_hash_task.simps[of ts i] by (auto split: if_splits)
  then show ?case using 1 by (cases "x = i") auto
qed

text \<open>Work left: the chunks not yet asked for and the reads in flight.\<close>

definition chunks_to_read :: "hash_config \<Rightarrow> 'm hash_task \<Rightarrow> nat" where
  "chunks_to_read cfg t = (ht_file_size t - ht_read_offset t + hash_chunk_size cfg - 1) div hash_chunk_size cfg"

definition hash_work :: "hash_config \<Rightarrow> 'm hash_ctx \<Rightarrow> nat" where
  "hash_work cfg c = sum_list (map (chunks_to_read cfg) (hc_tasks c)) + sum_list (map (\<lambda>b. of_bool (hs_state b = HASH_READING)) (hc_slots c))"

lemma hash_work_task:
  assumes "hc_tasks c' = (hc_tasks c)[i := t]" "hc_slots c' = hc_slots c" "ht_file_size t = ht_file_size (hc_tasks c ! i)" "ht_read_offset t = ht_read_offset (hc_tasks c ! i)"
  shows "hash_work cfg c' = hash_work cfg c"
proof -
  have "map (chunks_to_read cfg) (hc_tasks c') = map (chunks_to_read cfg) (hc_tasks c)"
    unfolding assms(1) by (rule map_same_update) (simp add: chunks_to_read_def assms(3,4))
  then show ?thesis by (simp add: hash_work_def assms(2))
qed

lemma hash_work_step:
  assumes "i < length (hc_tasks c)" "j < length (hc_slots c)" "hc_tasks c' = (hc_tasks c)[i := t]" "hc_slots c' = (hc_slots c)[j := b]"
  shows "hash_work cfg c' + chunks_to_read cfg (hc_tasks c ! i) + of_bool (hs_state (hc_slots c ! j) = HASH_READING) =
    hash_work cfg c + chunks_to_read cfg t + of_bool (hs_state b = HASH_READING)"
  unfolding hash_work_def assms(3,4) using sum_update[OF assms(1), of "chunks_to_read cfg" t]
    sum_update[OF assms(2), of "\<lambda>b. of_bool (hs_state b = HASH_READING)" b] by simp

lemma hash_submit_work:
  assumes "he_admit env (hc_subs c) = 0" "i < length (hc_tasks c)" "j < length (hc_slots c)" "hs_state (hc_slots c ! j) = HASH_FREE"
    "0 < hash_chunk_size cfg" "ht_read_offset (hc_tasks c ! i) < ht_file_size (hc_tasks c ! i)"
  shows "hash_work cfg (hash_submit_chunk env cfg i j c) = hash_work cfg c"
proof -
  note s = hash_submit_simps[OF assms(1,2), of cfg j]
  have "chunks_to_read cfg (hc_tasks (hash_submit_chunk env cfg i j c) ! i) + 1 = chunks_to_read cfg (hc_tasks c ! i)"
    using chunks_left[of "hash_chunk_size cfg" "ht_file_size (hc_tasks c ! i) - ht_read_offset (hc_tasks c ! i)"] assms(2,5,6)
    unfolding s by (simp add: chunks_to_read_def next_len_def)
  then show ?thesis using hash_work_step[OF assms(2,3) s(1,2), of cfg] assms(2,4) s(1) by simp
qed

text \<open>What a call of \<open>submit_next_read\<close> leaves alone.\<close>

lemma hash_skip_frame: "hc_slots (hash_skip i fd c) = hc_slots c" "hc_error (hash_skip i fd c) = hc_error c" "length (hc_tasks (hash_skip i fd c)) = length (hc_tasks c)"
  by (simp_all add: hash_skip_def hash_upd_task_def Let_def)

lemma hash_empty_frame: "hc_slots (hash_empty fin i c) = hc_slots c" "hc_error (hash_empty fin i c) = hc_error c" "length (hc_tasks (hash_empty fin i c)) = length (hc_tasks c)"
  by (simp_all add: hash_empty_def hash_upd_task_def finish_hash_simps)

lemma hash_upd_task_frame: "hc_slots (hash_upd_task i f c) = hc_slots c" "hc_error (hash_upd_task i f c) = hc_error c"
    "length (hc_tasks (hash_upd_task i f c)) = length (hc_tasks c)" "hc_subs (hash_upd_task i f c) = hc_subs c"
  by (simp_all add: hash_upd_task_def)

lemma hash_submit_frame:
  fixes c :: "'m hash_ctx" and cfg :: hash_config and i j :: nat and env :: hash_env
  defines "c' \<equiv> hash_submit_chunk env cfg i j c"
  shows "\<exists>b. hc_slots c' = (hc_slots c)[j := b] \<and> (hc_error c' = 0 \<longrightarrow> hs_state b = HASH_READING)" "hc_error c \<noteq> 0 \<longrightarrow> hc_error c' \<noteq> 0"
    "hc_error c' = 0 \<longrightarrow> he_admit env (hc_subs c) = 0" "length (hc_tasks c') = length (hc_tasks c)"
    "he_admit env (hc_subs c) = 0 \<longrightarrow> hc_error c' = hc_error c"
  by (auto simp: c'_def hash_submit_chunk_def Let_def hash_upd_task_def hash_upd_slot_def hash_set_error_def)

lemma submit_hash_frame:
  "let c' = submit_next_read_hash fin env cfg j c
   in (\<exists>b. hc_slots c' = (hc_slots c)[j := b]) \<and> (hc_error c \<noteq> 0 \<longrightarrow> hc_error c' \<noteq> 0) \<and> length (hc_tasks c') = length (hc_tasks c) \<and>
     ((\<forall>n. he_admit env n = 0) \<longrightarrow> hc_error c' = hc_error c) \<and>
     (j < length (hc_slots c) \<and> hc_error c' = 0 \<and> hs_state (hc_slots c' ! j) = HASH_FREE \<longrightarrow> find_hash_task (hc_tasks c') (hc_current c') = None)"
proof (induction fin env cfg j c rule: submit_next_read_hash.induct)
  case (1 fin env cfg j c)
  note u = submit_next_read_hash.simps[of fin env cfg j c]
  have base: "\<exists>b. hc_slots c = (hc_slots c)[j := b]" by (metis list_update_id)
  show ?case
  proof (cases "find_hash_task (hc_tasks c) (hc_current c)")
    case None
    then show ?thesis using u base by (simp add: Let_def)
  next
    case (Some i)
    let ?t = "hc_tasks c ! i" let ?fd = "he_open env (ht_path ?t)" let ?c1 = "hash_upd_task i (\<lambda>t. t\<lparr>ht_fd := ?fd\<rparr>) c"
    have chunk: "let c' = hash_submit_chunk env cfg i j x in (\<exists>b. hc_slots c' = (hc_slots x)[j := b]) \<and> (hc_error x \<noteq> 0 \<longrightarrow> hc_error c' \<noteq> 0) \<and> length (hc_tasks c') = length (hc_tasks x) \<and>
        ((\<forall>n. he_admit env n = 0) \<longrightarrow> hc_error c' = hc_error x) \<and>
        (j < length (hc_slots x) \<and> hc_error c' = 0 \<and> hs_state (hc_slots c' ! j) = HASH_FREE \<longrightarrow> find_hash_task (hc_tasks c') (hc_current c') = None)" for x :: "'a hash_ctx"
      using hash_submit_frame[where c = x and env = env and cfg = cfg and i = i and j = j] by (auto simp: Let_def)
    consider (skip) "ht_fd ?t < 0" "?fd < 0" | (empty) "ht_fd ?t < 0" "\<not> ?fd < 0" "ht_file_size ?t = 0"
      | (open_it) "ht_fd ?t < 0" "\<not> ?fd < 0" "ht_file_size ?t \<noteq> 0" | (go) "\<not> ht_fd ?t < 0" by blast
    then show ?thesis
    proof cases
      case skip
      then show ?thesis using "1.IH"(1)[OF Some refl refl skip] u Some by (simp add: Let_def hash_skip_frame)
    next
      case empty
      then show ?thesis using "1.IH"(2)[OF Some refl refl empty(1,2) refl empty(3)] u Some by (simp add: Let_def hash_empty_frame hash_upd_task_frame)
    next
      case open_it
      then show ?thesis using chunk[of ?c1] u Some by (simp add: Let_def hash_upd_task_frame)
    next
      case go
      then show ?thesis using chunk[of c] u Some by (simp add: Let_def)
    qed
  qed
qed

lemma submit_hash_inv:
  "hash_inv upd fin m0 env cfg J {} {} c \<Longrightarrow> hash_job env cfg J \<Longrightarrow> incremental upd \<Longrightarrow> j < length (hc_slots c) \<Longrightarrow> hs_state (hc_slots c ! j) = HASH_FREE \<Longrightarrow>
   hc_error (submit_next_read_hash fin env cfg j c) = 0 \<Longrightarrow>
   hash_inv upd fin m0 env cfg J {} {} (submit_next_read_hash fin env cfg j c) \<and> hash_work cfg (submit_next_read_hash fin env cfg j c) = hash_work cfg c"
proof (induction fin env cfg j c rule: submit_next_read_hash.induct)
  case (1 fin env cfg j c)
  note u = submit_next_read_hash.simps[of fin env cfg j c] and inv = "1.prems"(1) and job = "1.prems"(2,3) and j = "1.prems"(4,5)
  show ?case
  proof (cases "find_hash_task (hc_tasks c) (hc_current c)")
    case None
    then show ?thesis using u inv by simp
  next
    case (Some i)
    note f = find_hash_before[OF Some]
    let ?t = "hc_tasks c ! i" let ?fd = "he_open env (ht_path ?t)" let ?c1 = "hash_upd_task i (\<lambda>t. t\<lparr>ht_fd := ?fd\<rparr>) c"
    have chunk: "hash_inv upd fin m0 env cfg J {} {} (hash_submit_chunk env cfg i j x) \<and> hash_work cfg (hash_submit_chunk env cfg i j x) = hash_work cfg x"
      if x: "hash_inv upd fin m0 env cfg J {} {} x" "hc_error (hash_submit_chunk env cfg i j x) = 0" "hc_tasks x = (hc_tasks c)[i := t]" "hash_opened t" "\<not> ht_reads_done t"
        "hc_slots x = hc_slots c" "hc_current x = hc_current c" for x t
    proof -
      have t: "hc_tasks x ! i = t" "i < length (hc_tasks x)" using x(3) f(1) by simp_all
      have a: "he_admit env (hc_subs x) = 0" using hash_submit_frame(3)[where c = x and env = env and cfg = cfg and i = i and j = j] x(2) by simp
      have "hash_open_ok upd m0 env cfg False (hc_slots x) i t" using hash_parts(5)[OF x(1) t(2)] t x(4) by (simp add: hash_task_ok_def hash_opened_def split: if_splits)
      then have "ht_read_offset t < ht_file_size t" using x(5) by (auto simp: hash_open_ok_def)
      then show ?thesis using hash_submit_work[OF a t(2)] hash_submit_inv[OF x(1) job(1) a t(2)] t x(4-7) j job(1) f(4)
        by (simp add: hash_job_def x(3))
    qed
    consider (skip) "ht_fd ?t < 0" "?fd < 0" | (empty) "ht_fd ?t < 0" "\<not> ?fd < 0" "ht_file_size ?t = 0"
      | (open_it) "ht_fd ?t < 0" "\<not> ?fd < 0" "ht_file_size ?t \<noteq> 0" | (go) "\<not> ht_fd ?t < 0" by blast
    then show ?thesis
    proof cases
      case skip
      have e: "submit_next_read_hash fin env cfg j c = submit_next_read_hash fin env cfg j (hash_skip i ?fd c)" using u Some skip by (simp add: Let_def)
      have w: "hash_work cfg (hash_skip i ?fd c) = hash_work cfg c"
        by (rule hash_work_task[where i = i and t = "?t\<lparr>ht_fd := ?fd, ht_reads_done := True, ht_done := True\<rparr>"]) (simp_all add: hash_skip_def hash_upd_task_def Let_def)
      have "hash_inv upd fin m0 env cfg J {} {} (hash_skip i ?fd c)" using hash_skip_inv[OF inv f(1) skip(1) f(3) skip(2) skip(2) f(4)] .
      then show ?thesis unfolding e using "1.IH"(1)[OF Some refl refl skip] "1.prems" e w by (simp add: hash_skip_frame)
    next
      case empty
      let ?c2 = "hash_empty fin i ?c1"
      have e: "submit_next_read_hash fin env cfg j c = submit_next_read_hash fin env cfg j ?c2" using u Some empty by (simp add: Let_def)
      have w: "hash_work cfg ?c2 = hash_work cfg c"
        by (rule hash_work_task[where i = i and t = "?t\<lparr>ht_reads_done := True, ht_fd := -1, ht_done := True\<rparr>"]) (use f(1) in \<open>simp_all add: hash_empty_def finish_hash_simps hash_upd_task_def\<close>)
      have "hash_inv upd fin m0 env cfg J {} {} ?c2" using hash_empty_inv[OF inv job f(1) empty(1) f(3,2) _ _ empty(3) f(4)] empty(2) by simp
      then show ?thesis unfolding e using "1.IH"(2)[OF Some refl refl empty(1,2) refl empty(3)] "1.prems" e w by (simp add: hash_empty_frame hash_upd_task_frame)
    next
      case open_it
      have e: "submit_next_read_hash fin env cfg j c = hash_submit_chunk env cfg i j ?c1" using u Some open_it by (simp add: Let_def)
      have s: "hc_tasks ?c1 = (hc_tasks c)[i := ?t\<lparr>ht_fd := ?fd, ht_reads_done := False\<rparr>]" using f(2) by (cases ?t) (simp add: hash_upd_task_def)
      have w: "hash_work cfg ?c1 = hash_work cfg c" by (rule hash_work_task[OF s]) (simp_all add: hash_upd_task_def)
      have "hash_inv upd fin m0 env cfg J {} {} ?c1"
        using hash_open_inv[OF inv job(2) f(1) open_it(1) f(3,2), of ?fd False ?c1] open_it s by (simp add: hash_upd_task_def)
      then show ?thesis unfolding e using chunk[OF _ _ s] "1.prems"(6) e f(3) open_it w by (simp add: hash_opened_def hash_upd_task_def)
    next
      case go
      have e: "submit_next_read_hash fin env cfg j c = hash_submit_chunk env cfg i j c" using u Some go by (simp add: Let_def)
      then show ?thesis using chunk[OF inv, of ?t] "1.prems"(6) f go by (simp add: hash_opened_def)
    qed
  qed
qed

section \<open>Whole runs\<close>

fun sound_reads :: "('m \<Rightarrow> 8 word list \<Rightarrow> 'm) \<Rightarrow> ('m \<Rightarrow> 8 word list) \<Rightarrow> hash_env \<Rightarrow> (nat \<times> int) list \<Rightarrow> 'm hash_ctx \<Rightarrow> bool" where
  "sound_reads upd fin env [] c = True"
| "sound_reads upd fin env (x # xs) c = (sound_read x c \<and> sound_reads upd fin env xs (complete_hash upd fin env x c))"

text \<open>
  The reads of every round are sound where they complete, in the main loop and in the final drain, and a failed wait names its error.
\<close>

fun sound_hash_run :: "('m \<Rightarrow> 8 word list \<Rightarrow> 'm) \<Rightarrow> ('m \<Rightarrow> 8 word list) \<Rightarrow> hash_env \<Rightarrow> hash_config \<Rightarrow> hash_round list \<Rightarrow> 'm hash_ctx \<Rightarrow> bool" where
  "sound_hash_run upd fin env cfg [] c = True"
| "sound_hash_run upd fin env cfg (r # rs) c = (hr_wait r \<noteq> Inl 0 \<and> sound_reads upd fin env (hr_done r) c \<and>
     sound_hash_run upd fin env cfg rs (hash_wait upd fin env r c) \<and> sound_hash_run upd fin env cfg rs (hash_refills fin env cfg r (hash_wait upd fin env r c)))"

lemma hash_wait_keeps: "hc_error c \<noteq> 0 \<Longrightarrow> hc_error (hash_wait upd fin env r c) \<noteq> 0"
  unfolding hash_wait_def by (rule fold_error) (rule complete_hash_error)

lemma hash_reads_inv:
  "hash_inv upd fin m0 env cfg J {} {} c \<Longrightarrow> hash_job env cfg J \<Longrightarrow> incremental upd \<Longrightarrow> sound_reads upd fin env xs c \<Longrightarrow>
   hc_error (fold (complete_hash upd fin env) xs c) = 0 \<Longrightarrow> hash_inv upd fin m0 env cfg J {} {} (fold (complete_hash upd fin env) xs c)"
proof (induction xs arbitrary: c)
  case (Cons x xs)
  have "hc_error (complete_hash upd fin env x c) = 0" using Cons.prems(5) fold_error[of "complete_hash upd fin env", OF complete_hash_error] by (metis fold_simps(2))
  then show ?case using Cons complete_hash_inv[OF Cons.prems(1-3), of x] by simp
qed simp

lemma hash_wait_inv:
  "hash_inv upd fin m0 env cfg J {} {} c \<Longrightarrow> hash_job env cfg J \<Longrightarrow> incremental upd \<Longrightarrow> sound_reads upd fin env (hr_done r) c \<Longrightarrow>
   hc_error (hash_wait upd fin env r c) = 0 \<Longrightarrow> hash_inv upd fin m0 env cfg J {} {} (hash_wait upd fin env r c)"
  unfolding hash_wait_def by (rule hash_reads_inv)

lemma submit_hash_length: "length (hc_slots (submit_next_read_hash fin env cfg j c)) = length (hc_slots c)"
  using submit_hash_frame[of fin env cfg j c] by (auto simp: Let_def)

lemma submit_hash_keeps: "hc_error c \<noteq> 0 \<Longrightarrow> hc_error (submit_next_read_hash fin env cfg j c) \<noteq> 0"
  using submit_hash_frame[of fin env cfg j c] by (auto simp: Let_def)

lemma refill_hash_length: "length (hc_slots (refill_hash fin env cfg intr j c)) = length (hc_slots c)"
  by (simp add: refill_hash_def submit_hash_length)

lemma refill_hash_keeps: "hc_error c \<noteq> 0 \<Longrightarrow> hc_error (refill_hash fin env cfg intr j c) \<noteq> 0"
  by (simp add: refill_hash_def)

lemma refills_length: "length (hc_slots (fold (refill_hash fin env cfg intr) js c)) = length (hc_slots c)"
  by (induction js arbitrary: c) (simp_all add: refill_hash_length)

lemma drain_loop_length: "length (hc_slots (drain_loop_hash upd i c)) = length (hc_slots c)"
  using drain_loop_frame[of upd i c] by simp

lemma complete_hash_length: "length (hc_slots (complete_hash upd fin env nr c)) = length (hc_slots c)"
  by (auto simp: complete_hash_def on_read_complete_hash_def hash_free_slot_def hash_set_error_def hash_upd_task_def hash_upd_slot_def
      drain_completed_def finish_hash_simps drain_loop_length Let_def split: prod.split)

lemma hash_wait_length: "length (hc_slots (hash_wait upd fin env r c)) = length (hc_slots c)"
proof -
  have "length (hc_slots (fold (complete_hash upd fin env) xs c)) = length (hc_slots c)" for xs by (induction xs arbitrary: c) (simp_all add: complete_hash_length)
  then show ?thesis by (simp add: hash_wait_def)
qed

lemma refills_inv:
  "hash_inv upd fin m0 env cfg J {} {} c \<Longrightarrow> hash_job env cfg J \<Longrightarrow> incremental upd \<Longrightarrow> \<forall>j \<in> set js. j < length (hc_slots c) \<Longrightarrow>
   hc_error (fold (refill_hash fin env cfg intr) js c) = 0 \<Longrightarrow>
   hash_inv upd fin m0 env cfg J {} {} (fold (refill_hash fin env cfg intr) js c) \<and> hash_work cfg (fold (refill_hash fin env cfg intr) js c) = hash_work cfg c"
proof (induction js arbitrary: c)
  case (Cons j js)
  have "hc_error (refill_hash fin env cfg intr j c) = 0" using Cons.prems(5) fold_error[of "refill_hash fin env cfg intr", OF refill_hash_keeps] by (metis fold_simps(2))
  then have "hash_inv upd fin m0 env cfg J {} {} (refill_hash fin env cfg intr j c) \<and> hash_work cfg (refill_hash fin env cfg intr j c) = hash_work cfg c"
  proof (cases "hs_state (hc_slots c ! j) = HASH_FREE \<and> hc_error c = 0 \<and> \<not> intr j")
    case True
    then show ?thesis using submit_hash_inv[OF Cons.prems(1-3), of j] Cons.prems(4) \<open>hc_error (refill_hash fin env cfg intr j c) = 0\<close> by (simp add: refill_hash_def)
  next
    case False
    then have "refill_hash fin env cfg intr j c = c" unfolding refill_hash_def by (rule if_not_P)
    then show ?thesis using Cons.prems(1) by simp
  qed
  then show ?case using Cons by (simp add: refill_hash_length)
qed simp

lemma hash_refills_inv:
  assumes "hash_inv upd fin m0 env cfg J {} {} c" "hash_job env cfg J" "incremental upd" "hash_pipeline_depth cfg = length (hc_slots c)" "hc_error (hash_refills fin env cfg r c) = 0"
  shows "hash_inv upd fin m0 env cfg J {} {} (hash_refills fin env cfg r c)" "hash_work cfg (hash_refills fin env cfg r c) = hash_work cfg c"
  using refills_inv[OF assms(1-3), of "[0..<hash_pipeline_depth cfg]" "hr_intr r"] assms(4,5) by (simp_all add: hash_refills_def)

text \<open>The first batch is a refill of slots that are all free.\<close>

lemma first_batch_refill_hash:
  "distinct js \<Longrightarrow> \<forall>j \<in> set js. hs_state (hc_slots c ! j) = HASH_FREE \<Longrightarrow>
   first_batch_hash fin env cfg intr js c = fold (refill_hash fin env cfg intr) js c \<or> (\<exists>j \<in> set js. intr j) \<or> hc_error (first_batch_hash fin env cfg intr js c) \<noteq> 0"
proof (induction js arbitrary: c)
  case (Cons j js)
  obtain b where "hc_slots (submit_next_read_hash fin env cfg j c) = (hc_slots c)[j := b]" using submit_hash_frame[of fin env cfg j c] by (auto simp: Let_def)
  then have "\<forall>x \<in> set js. hs_state (hc_slots (submit_next_read_hash fin env cfg j c) ! x) = HASH_FREE" using Cons.prems by (auto simp: nth_update_if)
  then show ?case using Cons by (auto simp: refill_hash_def)
qed simp

lemma first_batch_hash_inv:
  "hash_inv upd fin m0 env cfg J {} {} c \<Longrightarrow> hash_job env cfg J \<Longrightarrow> incremental upd \<Longrightarrow> distinct js \<Longrightarrow>
   \<forall>j \<in> set js. j < length (hc_slots c) \<and> hs_state (hc_slots c ! j) = HASH_FREE \<Longrightarrow> hc_error (first_batch_hash fin env cfg intr js c) = 0 \<Longrightarrow>
   hash_inv upd fin m0 env cfg J {} {} (first_batch_hash fin env cfg intr js c)"
proof (induction js arbitrary: c)
  case (Cons j js)
  let ?c = "submit_next_read_hash fin env cfg j c"
  have keep: "hc_error x \<noteq> 0 \<Longrightarrow> first_batch_hash fin env cfg intr js x = x" for x :: "'a hash_ctx" by (cases js) simp_all
  show ?case
  proof (cases "hc_error c = 0 \<and> \<not> intr j")
    case True
    then have e: "hc_error ?c = 0" using Cons.prems(6) keep[of ?c] by (cases "hc_error ?c = 0") simp_all
    obtain b where "hc_slots ?c = (hc_slots c)[j := b]" using submit_hash_frame[of fin env cfg j c] by (auto simp: Let_def)
    then have f: "\<forall>x \<in> set js. x < length (hc_slots ?c) \<and> hs_state (hc_slots ?c ! x) = HASH_FREE" using Cons.prems(4,5) by (auto simp: nth_list_update)
    have "hash_inv upd fin m0 env cfg J {} {} ?c" using submit_hash_inv[OF Cons.prems(1-3) _ _ e] Cons.prems(5) by simp
    then show ?thesis using Cons.IH[OF _ Cons.prems(2,3) _ f] True Cons.prems(4,6) by simp
  qed (use Cons.prems in auto)
qed simp

lemma first_batch_hash_length: "length (hc_slots (first_batch_hash fin env cfg intr js c)) = length (hc_slots c)"
  by (induction js arbitrary: c) (simp_all add: submit_hash_length)

lemma hash_loop_inv:
  "hash_loop upd fin env cfg rounds c = Some (c', rs) \<Longrightarrow> hc_error c = 0 \<longrightarrow> hash_inv upd fin m0 env cfg J {} {} c \<Longrightarrow> hash_job env cfg J \<Longrightarrow> incremental upd \<Longrightarrow>
   sound_hash_run upd fin env cfg rounds c \<Longrightarrow> hash_pipeline_depth cfg = length (hc_slots c) \<Longrightarrow> hc_error c' = 0 \<Longrightarrow>
   hash_inv upd fin m0 env cfg J {} {} c' \<and> sound_hash_run upd fin env cfg rs c' \<and> (all_tasks_done_hash c' \<or> (\<exists>r \<in> set rounds. hr_stop r))"
proof (induction rounds arbitrary: c)
  case (Cons r rounds)
  let ?w = "hash_wait upd fin env r c"
  show ?case
  proof (cases "all_tasks_done_hash c \<or> hc_error c \<noteq> 0 \<or> hr_stop r")
    case False
    show ?thesis
    proof (cases "wait_fails (hr_wait r)")
      case True
      then have "c' = hash_set_error (case hr_wait r of Inl err \<Rightarrow> - err | Inr _ \<Rightarrow> 0) ?w" using Cons.prems(1) False by (simp add: Let_def)
      then have "hc_error c' \<noteq> 0" using True Cons.prems(5) by (auto simp: hash_set_error_def wait_fails_def split: sum.splits)
      then show ?thesis using Cons.prems(7) by blast
    next
      case nf: False
      let ?c = "hash_refills fin env cfg r ?w"
      have l: "hash_loop upd fin env cfg rounds ?c = Some (c', rs)" using Cons.prems(1) False nf by (simp add: Let_def)
      have "hash_inv upd fin m0 env cfg J {} {} ?c" if "hc_error ?c = 0"
      proof -
        have "hc_error ?w = 0" using that fold_error[of "refill_hash fin env cfg (hr_intr r)", OF refill_hash_keeps] unfolding hash_refills_def by blast
        then have "hash_inv upd fin m0 env cfg J {} {} ?w" using Cons.prems(2-5) False by (intro hash_wait_inv) auto
        then show ?thesis using hash_refills_inv(1)[OF _ Cons.prems(3,4) _ that] Cons.prems(6) by (simp add: hash_wait_length)
      qed
      then show ?thesis using Cons.IH[OF l _ Cons.prems(3,4)] Cons.prems(5-7) by (simp add: hash_refills_def refills_length hash_wait_length) blast
    qed
  qed (use Cons.prems in auto)
qed (auto split: if_splits)

lemma hash_drain_inv:
  "hash_drain upd fin env rs c = Some c' \<Longrightarrow> hash_inv upd fin m0 env cfg J {} {} c \<Longrightarrow> hash_job env cfg J \<Longrightarrow> incremental upd \<Longrightarrow> sound_hash_run upd fin env cfg rs c \<Longrightarrow>
   hc_error c' = 0 \<Longrightarrow> hash_inv upd fin m0 env cfg J {} {} c' \<and> hc_active_ops c' \<le> 0"
proof (induction rs arbitrary: c)
  case (Cons r rs)
  show ?case
  proof (cases "hc_active_ops c > 0")
    case True
    have k: "hash_drain upd fin env rs x = Some c' \<Longrightarrow> hc_error x \<noteq> 0 \<Longrightarrow> hc_error c' \<noteq> 0" for x
      by (induction rs arbitrary: x) (auto simp: hash_wait_keeps split: if_splits)
    have d: "hash_drain upd fin env rs (hash_wait upd fin env r c) = Some c'" using Cons.prems(1) True by simp
    then have "hc_error (hash_wait upd fin env r c) = 0" using k Cons.prems(6) by blast
    then show ?thesis using Cons.IH[OF d] hash_wait_inv[OF Cons.prems(2-4)] Cons.prems by simp
  qed (use Cons.prems in auto)
qed (auto split: if_splits)

lemma hash_start_inv:
  "hash_inv upd fin m0 env cfg J {} {} (hash_start bufs (map (\<lambda>(p, n). new_hash_task m0 p n) J))"
proof -
  let ?c = "hash_start bufs (map (\<lambda>(p, n). new_hash_task m0 p n) J)"
  have f: "filter (\<lambda>b. hs_task b \<noteq> None) (hc_slots ?c) = []" "filter (\<lambda>b. hs_task b = Some i) (hc_slots ?c) = []" for i
    by (simp_all add: hash_start_def filter_empty_conv)
  have "hash_task_ok upd m0 env cfg False (hc_slots ?c) i (hc_tasks ?c ! i)" if "i < length J" for i
    using that f(2)[of i] by (simp add: hash_task_ok_def) (simp add: hash_start_def new_hash_task_def split: prod.split)
  moreover have "offsets_apart (hc_slots ?c)" by (simp add: offsets_apart_def hash_start_def)
  moreover have "output_ok upd fin m0 env ?c" by (auto simp: output_ok_def hash_start_def hashed_def new_hash_task_def filter_empty_conv)
  moreover have "map hash_static (hc_tasks ?c) = J" by (simp add: hash_start_def new_hash_task_def hash_static_def comp_def case_prod_beta)
  ultimately show ?thesis unfolding hash_inv_def using f(1) by (simp add: hash_start_def reqs_ok_def slot_req_def hash_slot_ok_def)
qed

text \<open>With every task done nothing is in flight.\<close>

lemma all_done_hash_idle:
  assumes "hash_inv upd fin m0 env cfg J D X c" "all_tasks_done_hash c"
  shows "hc_active_ops c = 0"
proof -
  have "hs_task b = None" if b: "b \<in> set (hc_slots c)" for b
  proof (cases "hs_task b")
    case (Some i)
    have "hash_slot_ok env cfg (hc_tasks c) b" using hash_parts(3)[OF assms(1)] b by simp
    then have "i < length (hc_tasks c)" "hash_opened (hc_tasks c ! i)" using Some by (simp_all add: hash_slot_ok_def)
    then show ?thesis using assms(2) by (simp add: all_tasks_done_hash_def list_all_length hash_opened_def)
  qed simp
  then have "filter (\<lambda>b. hs_task b \<noteq> None) (hc_slots c) = []" by (simp add: filter_empty_conv)
  then show ?thesis using hash_parts(6)[OF assms(1)] by simp
qed

definition expected_lines :: "('m \<Rightarrow> 8 word list \<Rightarrow> 'm) \<Rightarrow> ('m \<Rightarrow> 8 word list) \<Rightarrow> 'm \<Rightarrow> hash_env \<Rightarrow> (string \<times> nat) list \<Rightarrow> string list" where
  "expected_lines upd fin m0 env J = map (digest_line upd fin m0 env \<circ> fst) (filter (\<lambda>(p, n). 0 \<le> he_open env p) J)"

lemma expected_tasks:
  assumes "map hash_static ts = J"
  shows "expected_lines upd fin m0 env J = map (digest_line upd fin m0 env \<circ> ht_path) (filter (\<lambda>t. 0 \<le> he_open env (ht_path t)) ts)"
  unfolding assms[symmetric] expected_lines_def by (simp add: filter_map comp_def hash_static_def)

lemma output_expected:
  assumes "hash_inv upd fin m0 env cfg J D X c"
  shows "mset (hc_output c) \<subseteq># mset (expected_lines upd fin m0 env J)"
    "all_tasks_done_hash c \<Longrightarrow> mset (hc_output c) = mset (expected_lines upd fin m0 env J)"
proof -
  note p = hash_parts(1,7)[OF assms] and e = expected_tasks[OF hash_parts(1)[OF assms], of upd fin m0 env]
  have "filter_mset (hashed env) (mset (hc_tasks c)) \<subseteq># filter_mset (\<lambda>t. 0 \<le> he_open env (ht_path t)) (mset (hc_tasks c))"
    by (rule filter_mset_mono_strong) (simp_all add: hashed_def)
  then show "mset (hc_output c) \<subseteq># mset (expected_lines upd fin m0 env J)"
    using p(2) unfolding e output_ok_def by (simp add: image_mset_subseteq_mono)
  show "mset (hc_output c) = mset (expected_lines upd fin m0 env J)" if "all_tasks_done_hash c"
  proof -
    have "filter (hashed env) (hc_tasks c) = filter (\<lambda>t. 0 \<le> he_open env (ht_path t)) (hc_tasks c)"
      using that by (intro filter_cong) (simp_all add: hashed_def all_tasks_done_hash_def list_all_iff)
    then show ?thesis using p(2) unfolding e output_ok_def by simp
  qed
qed

text \<open>
  What a worker prints is right: when the pipeline reports no error, every line is the digest of the whole contents of
  its file, at most one for each file, in whatever order the reads completed, and nothing is left in flight; without an
  interrupt there is exactly one line for each file that could be opened. The digest takes its input in pieces
  (\<open>incremental\<close>), files keep the size the tool saw, and a read inside a file is full or fails.
\<close>

lemma hash_is_faithful:
  assumes "hash_job env cfg J" and "incremental upd" and "length bufs = hash_pipeline_depth cfg"
    and "c = hash_start bufs (map (\<lambda>(p, n). new_hash_task m0 p n) J)"
    and "sound_hash_run upd fin env cfg rounds (first_batch_hash fin env cfg intr [0..<hash_pipeline_depth cfg] c)"
    and "hash_pipeline upd fin env cfg intr rounds c = Some (0, c')"
  shows "mset (hc_output c') \<subseteq># mset (expected_lines upd fin m0 env J) \<and> hc_active_ops c' = 0 \<and>
    ((\<forall>r \<in> set rounds. \<not> hr_stop r) \<longrightarrow> mset (hc_output c') = mset (expected_lines upd fin m0 env J))"
proof -
  let ?c = "first_batch_hash fin env cfg intr [0..<hash_pipeline_depth cfg] c"
  have n: "length (hc_slots c) = hash_pipeline_depth cfg" using assms(3,4) by (simp add: hash_start_def)
  have inv: "hash_inv upd fin m0 env cfg J {} {} c" unfolding assms(4) by (rule hash_start_inv)
  obtain c1 rs where l: "hash_loop upd fin env cfg rounds ?c = Some (c1, rs)" and d: "hash_drain upd fin env rs c1 = Some c'" and e: "hc_error c' = 0"
    using assms(6) by (auto simp: hash_pipeline_def split: option.splits)
  have k: "hash_drain upd fin env xs x = Some c' \<Longrightarrow> hc_error x = 0" for xs x
    using e by (induction xs arbitrary: x) (use hash_wait_keeps in \<open>fastforce split: if_splits\<close>)+
  have free: "hs_state (hc_slots c ! j) = HASH_FREE" if "j < hash_pipeline_depth cfg" for j using that assms(3,4) by (simp add: hash_start_def)
  have "hash_inv upd fin m0 env cfg J {} {} ?c" if "hc_error ?c = 0"
    by (rule first_batch_hash_inv[OF inv assms(1,2) _ _ that]) (use n free in simp_all)
  then have i1: "hash_inv upd fin m0 env cfg J {} {} c1" "sound_hash_run upd fin env cfg rs c1" "all_tasks_done_hash c1 \<or> (\<exists>r \<in> set rounds. hr_stop r)"
    using hash_loop_inv[OF l _ assms(1,2,5) _ k[OF d], of m0] n by (simp_all add: first_batch_hash_length)
  note i = hash_drain_inv[OF d i1(1) assms(1,2) i1(2) e]
  have "mset (hc_output c') = mset (expected_lines upd fin m0 env J)" if "\<forall>r \<in> set rounds. \<not> hr_stop r"
  proof -
    have a: "all_tasks_done_hash c1" using i1(3) that by blast
    then have "c' = c1" using d all_done_hash_idle[OF i1(1)] by (cases rs) simp_all
    then show ?thesis using output_expected(2)[OF i1(1)] a by simp
  qed
  then show ?thesis using output_expected(1)[of upd fin m0 env cfg J "{}" "{}" c'] i hash_parts(6)[of upd fin m0 env cfg J "{}" "{}" c'] by auto
qed

section \<open>Progress\<close>

lemma feed_slot_work: "i < length (hc_tasks c) \<Longrightarrow> next_slot i c = Some j \<Longrightarrow> hash_work cfg (feed_slot upd i j c) = hash_work cfg c"
  using hash_work_step[OF _ _ feed_slot_simps(1,2)[of upd i j c], of cfg] next_slot_Some(1,2)[of i c j] by (simp add: chunks_to_read_def)

lemma drain_loop_work: "i < length (hc_tasks c) \<Longrightarrow> hash_work cfg (drain_loop_hash upd i c) = hash_work cfg c"
proof (induction upd i c rule: drain_loop_hash.induct)
  case (1 upd i c)
  show ?case
  proof (cases "next_slot i c")
    case (Some j)
    then have "drain_loop_hash upd i c = drain_loop_hash upd i (feed_slot upd i j c)" by (subst drain_loop_hash.simps) simp
    then show ?thesis using 1(1)[OF Some] feed_slot_work[OF 1(2) Some] 1(2) by (simp add: feed_slot_simps)
  qed (subst drain_loop_hash.simps, simp)
qed

lemma drain_completed_work: "i < length (hc_tasks c) \<Longrightarrow> hash_work cfg (drain_completed upd fin i c) = hash_work cfg c"
  using hash_work_task[OF finish_hash_simps(1,2)[of fin i "drain_loop_hash upd i c"], of cfg] drain_loop_work[of i c cfg upd]
  by (simp add: drain_completed_def Let_def)

text \<open>A completion of the request at a position: the read is full.\<close>

definition full_read :: "nat \<times> int \<Rightarrow> 'm hash_ctx \<Rightarrow> bool" where
  "full_read nr c \<longleftrightarrow> fst nr < length (hc_ops c) \<and> snd nr = int (fst (snd (snd (hc_ops c ! fst nr))))"

fun full_reads :: "('m \<Rightarrow> 8 word list \<Rightarrow> 'm) \<Rightarrow> ('m \<Rightarrow> 8 word list) \<Rightarrow> hash_env \<Rightarrow> (nat \<times> int) list \<Rightarrow> 'm hash_ctx \<Rightarrow> bool" where
  "full_reads upd fin env [] c = True"
| "full_reads upd fin env (x # xs) c = (full_read x c \<and> full_reads upd fin env xs (complete_hash upd fin env x c))"

text \<open>Rounds without an interrupt or a failed wait, each of which completes something while there is something in flight.\<close>

fun good_hash_run :: "('m \<Rightarrow> 8 word list \<Rightarrow> 'm) \<Rightarrow> ('m \<Rightarrow> 8 word list) \<Rightarrow> hash_env \<Rightarrow> hash_config \<Rightarrow> hash_round list \<Rightarrow> 'm hash_ctx \<Rightarrow> bool" where
  "good_hash_run upd fin env cfg [] c = True"
| "good_hash_run upd fin env cfg (r # rs) c = (\<not> hr_stop r \<and> list_all (\<lambda>j. \<not> hr_intr r j) [0..<hash_pipeline_depth cfg] \<and> \<not> wait_fails (hr_wait r) \<and>
     full_reads upd fin env (hr_done r) c \<and> (hr_done r \<noteq> [] \<or> hc_ops c = []) \<and>
     good_hash_run upd fin env cfg rs (hash_refills fin env cfg r (hash_wait upd fin env r c)))"

lemma full_read_work:
  assumes inv: "hash_inv upd fin m0 env cfg J {} {} c" and r: "full_read nr c"
  shows "hc_error (complete_hash upd fin env nr c) = hc_error c" "hash_work cfg (complete_hash upd fin env nr c) + 1 = hash_work cfg c"
proof -
  obtain n where nr: "fst nr = n" "n < length (hc_ops c)" using r by (simp add: full_read_def)
  obtain j path len off where q: "hc_ops c ! n = (j, path, len, off)" by (cases "hc_ops c ! n")
  have x: "nr = (n, int len)" using r nr q by (simp add: full_read_def prod_eq_iff)
  note tk = take_req_inv[OF inv nr(2), unfolded q fst_conv]
  have b: "hs_state (hc_slots c ! j) = HASH_READING" "hs_bytes (hc_slots c ! j) = len" using tk(3) by (auto simp: slot_req_def split: if_splits)
  have "hash_slot_ok env cfg (hc_tasks c) (hc_slots c ! j)" using hash_parts(3)[OF inv] tk(2) by simp
  then obtain i where i: "hs_task (hc_slots c ! j) = Some i" "i < length (hc_tasks c)" "0 < len" using b by (auto simp: hash_slot_ok_def split: option.splits)
  define b' where "b' = (hc_slots c ! j)\<lparr>hs_buf := take len (drop off (he_contents env path)) @ drop len (hs_buf (hc_slots c ! j)), hs_bytes := len, hs_state := HASH_DONE\<rparr>"
  define c' where "c' = (take_req n c)\<lparr>hc_slots := (hc_slots c)[j := b']\<rparr>"
  have complete: "complete_hash upd fin env nr c = drain_completed upd fin i c'"
    using nr q i tk(2) unfolding x complete_hash_def on_read_complete_hash_def take_req_def[symmetric]
    by (simp add: hash_upd_slot_def Let_def c'_def b'_def)
  show "hc_error (complete_hash upd fin env nr c) = hc_error c" unfolding complete drain_completed_frame by (simp add: c'_def)
  have "hash_work cfg c' + 1 = hash_work cfg c"
    using hash_work_step[OF i(2) tk(2), of c' "hc_tasks c ! i" b' cfg] b(1) by (simp add: c'_def b'_def)
  then show "hash_work cfg (complete_hash upd fin env nr c) + 1 = hash_work cfg c"
    unfolding complete using drain_completed_work[of i c' cfg upd fin] i(2) by (simp add: c'_def)
qed

lemma full_reads_work:
  "hash_inv upd fin m0 env cfg J {} {} c \<Longrightarrow> hash_job env cfg J \<Longrightarrow> incremental upd \<Longrightarrow> hc_error c = 0 \<Longrightarrow> full_reads upd fin env xs c \<Longrightarrow>
   let c' = fold (complete_hash upd fin env) xs c
   in hash_inv upd fin m0 env cfg J {} {} c' \<and> hc_error c' = 0 \<and> hash_work cfg c' + length xs = hash_work cfg c"
proof (induction xs arbitrary: c)
  case (Cons x xs)
  have r: "full_read x c" "full_reads upd fin env xs (complete_hash upd fin env x c)" using Cons.prems(5) by simp_all
  note w = full_read_work[OF Cons.prems(1) r(1)]
  have "hash_inv upd fin m0 env cfg J {} {} (complete_hash upd fin env x c)"
    using complete_hash_inv[OF Cons.prems(1-3), of x] r(1) w(1) Cons.prems(4) by (simp add: sound_read_def full_read_def)
  from Cons.IH[OF this Cons.prems(2,3) _ r(2)] show ?case using w Cons.prems(4) by (simp add: Let_def)
qed simp

lemma refills_error:
  "\<forall>n. he_admit env n = 0 \<Longrightarrow> hc_error (fold (refill_hash fin env cfg intr) js c) = hc_error c"
proof (induction js arbitrary: c)
  case (Cons j js)
  have "hc_error (refill_hash fin env cfg intr j c) = hc_error c"
    using submit_hash_frame[of fin env cfg j c] Cons.prems by (simp add: refill_hash_def Let_def)
  then show ?case using Cons by simp
qed simp

text \<open>After a refill a free slot means that every file was read to its end.\<close>

definition no_more_reads :: "'m hash_ctx \<Rightarrow> bool" where
  "no_more_reads c \<longleftrightarrow> find_hash_task (hc_tasks c) (hc_current c) = None"

definition refilled :: "'m hash_ctx \<Rightarrow> bool" where
  "refilled c \<longleftrightarrow> (\<exists>b \<in> set (hc_slots c). hs_state b \<noteq> HASH_FREE) \<or> no_more_reads c"

lemma refills_refilled:
  assumes "\<forall>n. he_admit env n = 0" "hc_error c = 0" "\<forall>j \<in> set js. j < length (hc_slots c) \<and> \<not> intr j" "js \<noteq> []"
  shows "refilled (fold (refill_hash fin env cfg intr) js c)"
proof -
  obtain ks j where js: "js = ks @ [j]" using assms(4) by (metis rev_exhaust)
  let ?c = "fold (refill_hash fin env cfg intr) ks c"
  have e: "hc_error ?c = 0" "hc_error (refill_hash fin env cfg intr j ?c) = 0"
    using refills_error[OF assms(1), of fin cfg intr ks c] refills_error[OF assms(1), of fin cfg intr js c] assms(2) js by simp_all
  have j: "j < length (hc_slots ?c)" "\<not> intr j" using assms(3) js by (simp_all add: refills_length)
  show ?thesis
  proof (cases "hs_state (hc_slots ?c ! j) = HASH_FREE")
    case True
    let ?s = "submit_next_read_hash fin env cfg j ?c"
    have r: "refill_hash fin env cfg intr j ?c = ?s" using True e j by (simp add: refill_hash_def)
    have "hc_slots ?s ! j \<in> set (hc_slots ?s)" using j(1) by (simp add: submit_hash_length)
    moreover have "hs_state (hc_slots ?s ! j) \<noteq> HASH_FREE \<or> no_more_reads ?s"
      using submit_hash_frame[of fin env cfg j ?c] j(1) e(2) r by (auto simp: Let_def no_more_reads_def)
    ultimately show ?thesis using r js by (auto simp: refilled_def)
  next
    case False
    then have "refill_hash fin env cfg intr j ?c = ?c" by (simp add: refill_hash_def)
    then show ?thesis using False j(1) js by (auto simp: refilled_def)
  qed
qed

text \<open>A chunk that waits for its turn waits for a read in flight, so an idle refilled pipeline is done.\<close>

lemma idle_hash_done:
  assumes inv: "hash_inv upd fin m0 env cfg J {} {} c" and s: "refilled c" "hc_ops c = []"
  shows "all_tasks_done_hash c"
proof -
  note p = hash_parts[OF inv]
  have nr: "hs_state b \<noteq> HASH_READING" if b: "b \<in> set (hc_slots c)" for b
  proof -
    obtain j where "j < length (hc_slots c)" "b = hc_slots c ! j" using b by (auto simp: in_set_conv_nth)
    then have "slot_req (hc_tasks c) j b = []" using p(2) s(2) by (simp add: reqs_ok_def)
    then show ?thesis by (auto simp: slot_req_def)
  qed
  have none: "hs_task b = None" if b: "b \<in> set (hc_slots c)" for b
  proof (rule ccontr)
    assume "hs_task b \<noteq> None"
    then obtain i where i: "hs_task b = Some i" by blast
    have ok: "hash_slot_ok env cfg (hc_tasks c) x" if "x \<in> set (hc_slots c)" for x using p(3) that by simp
    note sb = ok[OF b, unfolded hash_slot_ok_def i option.case]
    let ?t = "hc_tasks c ! i"
    have o: "hash_open_ok upd m0 env cfg False (hc_slots c) i ?t" using p(5)[of i] sb by (simp add: hash_task_ok_def hash_opened_def split: if_splits)
    moreover have "ht_hash_offset ?t < ht_read_offset ?t" using sb by linarith
    ultimately have "holds_byte (hc_slots c) i (ht_hash_offset ?t)" by (simp add: hash_open_ok_def)
    then obtain x where x: "x \<in> set (hc_slots c)" "hs_task x = Some i" "hs_offset x \<le> ht_hash_offset ?t" by (auto simp: holds_byte_def)
    note sx = ok[OF x(1), unfolded hash_slot_ok_def x(2) option.case]
    have "hs_state x = HASH_DONE" using nr[OF x(1)] sx by (cases "hs_state x") auto
    moreover have "hs_offset x = ht_hash_offset ?t" using x(3) sx by linarith
    ultimately show False using o x by (auto simp: hash_open_ok_def)
  qed
  have "hs_state b = HASH_FREE" if "b \<in> set (hc_slots c)" for b using none[OF that] p(3) that by (auto simp: hash_slot_ok_def split: option.splits)
  then have f: "find_hash_task (hc_tasks c) (hc_current c) = None" using s(1) by (auto simp: refilled_def no_more_reads_def)
  have "ht_done (hc_tasks c ! x)" if x: "x < length (hc_tasks c)" for x
  proof (rule ccontr)
    assume n: "\<not> ht_done (hc_tasks c ! x)"
    have "ht_reads_done (hc_tasks c ! x) \<or> ht_done (hc_tasks c ! x)" using find_hash_task_None[OF f, of x] p(8) x by (cases "x < hc_current c") auto
    then have "\<exists>b \<in> set (hc_slots c). hs_task b = Some x" using n p(5)[OF x] by (auto simp: hash_task_ok_def hash_open_ok_def split: if_splits)
    then show False using none by auto
  qed
  then show ?thesis by (simp add: all_tasks_done_hash_def list_all_length)
qed

lemma no_work_no_ops:
  assumes inv: "hash_inv upd fin m0 env cfg J {} {} c" and w: "hash_work cfg c = 0"
  shows "hc_ops c = []"
proof (rule ccontr)
  assume "hc_ops c \<noteq> []"
  then have n: "0 < length (hc_ops c)" by simp
  note tk = take_req_inv[OF inv n]
  have "hs_state (hc_slots c ! fst (hc_ops c ! 0)) = HASH_READING" using tk(3) by (auto simp: slot_req_def split: if_splits)
  moreover have "\<forall>b \<in> set (hc_slots c). hs_state b \<noteq> HASH_READING" using w by (auto simp: hash_work_def)
  ultimately show False using tk(2) by (metis nth_mem)
qed

lemma hash_loop_good:
  "hash_inv upd fin m0 env cfg J {} {} c \<Longrightarrow> hash_job env cfg J \<Longrightarrow> incremental upd \<Longrightarrow> \<forall>n. he_admit env n = 0 \<Longrightarrow> hc_error c = 0 \<Longrightarrow>
   hash_pipeline_depth cfg = length (hc_slots c) \<Longrightarrow> 0 < hash_pipeline_depth cfg \<Longrightarrow> refilled c \<Longrightarrow> good_hash_run upd fin env cfg rounds c \<Longrightarrow> hash_work cfg c \<le> length rounds \<Longrightarrow>
   \<exists>c' rs. hash_loop upd fin env cfg rounds c = Some (c', rs) \<and> hash_inv upd fin m0 env cfg J {} {} c' \<and> hc_error c' = 0 \<and> all_tasks_done_hash c'"
proof (induction rounds arbitrary: c)
  case Nil
  then have "all_tasks_done_hash c" using idle_hash_done[OF Nil.prems(1,8)] no_work_no_ops[OF Nil.prems(1)] by simp
  then show ?case using Nil.prems by auto
next
  case (Cons r rounds)
  show ?case
  proof (cases "all_tasks_done_hash c")
    case False
    let ?w = "hash_wait upd fin env r c" and ?c = "hash_refills fin env cfg r (hash_wait upd fin env r c)"
    have "hc_ops c \<noteq> []" using idle_hash_done[OF Cons.prems(1,8)] False by blast
    then have d: "0 < length (hr_done r)" using Cons.prems(9) by simp
    have w: "hash_inv upd fin m0 env cfg J {} {} ?w" "hc_error ?w = 0" "hash_work cfg ?w + length (hr_done r) = hash_work cfg c"
      using full_reads_work[OF Cons.prems(1-3,5), of "hr_done r"] Cons.prems(9) by (simp_all add: hash_wait_def Let_def)
    have r: "\<forall>j < hash_pipeline_depth cfg. \<not> hr_intr r j" "\<not> hr_stop r" "\<not> wait_fails (hr_wait r)" "good_hash_run upd fin env cfg rounds ?c"
      using Cons.prems(9) by (simp_all add: list_all_iff)
    have n: "length (hc_slots ?w) = hash_pipeline_depth cfg" "length (hc_slots ?c) = hash_pipeline_depth cfg"
      using Cons.prems(6) by (simp_all add: hash_wait_length hash_refills_def refills_length)
    have e: "hc_error ?c = 0" by (simp add: hash_refills_def refills_error[OF Cons.prems(4)] w(2))
    note rf = hash_refills_inv[OF w(1) Cons.prems(2,3) n(1)[symmetric] e]
    have "refilled ?c" unfolding hash_refills_def using r(1) n(1) Cons.prems(7) by (intro refills_refilled[OF Cons.prems(4) w(2)]) auto
    moreover have "hash_work cfg ?c \<le> length rounds" using rf(2) w(3) d Cons.prems(10) by (simp del: length_greater_0_conv)
    ultimately have "\<exists>c' rs. hash_loop upd fin env cfg rounds ?c = Some (c', rs) \<and> hash_inv upd fin m0 env cfg J {} {} c' \<and> hc_error c' = 0 \<and> all_tasks_done_hash c'"
      by (intro Cons.IH[OF rf(1) Cons.prems(2-4) e]) (use n(2) Cons.prems(7) r(4) in simp_all)
    moreover have "hash_loop upd fin env cfg (r # rounds) c = hash_loop upd fin env cfg rounds ?c" using False Cons.prems(5) r(2,3) by (simp add: Let_def)
    ultimately show ?thesis by simp
  qed (use Cons.prems in auto)
qed

text \<open>
  Claim C25. The tool makes progress: when every read asked for is accepted and comes back full, no interrupt arrives and every wait delivers at least
  one of the reads in flight, the pipeline returns without error within one round for each chunk, whatever the order of the completions, and
  has then printed the digest of every file that could be opened.
\<close>

theorem hash_completes:
  assumes "hash_job env cfg J" and "incremental upd" and "length bufs = hash_pipeline_depth cfg" and "0 < hash_pipeline_depth cfg"
    and "c = hash_start bufs (map (\<lambda>(p, n). new_hash_task m0 p n) J)" and "\<forall>n. he_admit env n = 0"
    and "good_hash_run upd fin env cfg rounds (first_batch_hash fin env cfg (\<lambda>_. False) [0..<hash_pipeline_depth cfg] c)"
    and "(\<Sum>(p, n)\<leftarrow>J. (n + hash_chunk_size cfg - 1) div hash_chunk_size cfg) \<le> length rounds"
  shows "\<exists>c'. hash_pipeline upd fin env cfg (\<lambda>_. False) rounds c = Some (0, c') \<and> mset (hc_output c') = mset (expected_lines upd fin m0 env J)"
proof -
  let ?js = "[0..<hash_pipeline_depth cfg]" and ?none = "\<lambda>_ :: nat. False"
  let ?c = "first_batch_hash fin env cfg ?none ?js c"
  have n: "length (hc_slots c) = hash_pipeline_depth cfg" and e: "hc_error c = 0" using assms(3,5) by (simp_all add: hash_start_def)
  have inv: "hash_inv upd fin m0 env cfg J {} {} c" unfolding assms(5) by (rule hash_start_inv)
  have free: "hs_state (hc_slots c ! j) = HASH_FREE" if "j < hash_pipeline_depth cfg" for j using that assms(3,5) by (simp add: hash_start_def)
  have fe: "hc_error (first_batch_hash fin env cfg ?none js x) = hc_error x" for js x
  proof (induction js arbitrary: x)
    case (Cons j js)
    then show ?case using submit_hash_frame[of fin env cfg j x] assms(6) by (simp add: Let_def)
  qed simp
  have fb: "?c = fold (refill_hash fin env cfg ?none) ?js c"
    using first_batch_refill_hash[of ?js c fin env cfg ?none] fe[of ?js c] e free by simp
  have re: "hc_error (fold (refill_hash fin env cfg ?none) ?js c) = 0" by (simp add: refills_error[OF assms(6)] e)
  have s: "hash_inv upd fin m0 env cfg J {} {} ?c" "hash_work cfg ?c = hash_work cfg c"
    using refills_inv[OF inv assms(1,2) _ re] n unfolding fb by simp_all
  have rf: "refilled ?c" unfolding fb using assms(4) n by (intro refills_refilled[OF assms(6) e]) auto
  have "map (chunks_to_read cfg) (hc_tasks c) = map (\<lambda>(p, n). (n + hash_chunk_size cfg - 1) div hash_chunk_size cfg) J"
    by (simp add: assms(5) hash_start_def new_hash_task_def chunks_to_read_def comp_def case_prod_beta)
  moreover have "sum_list (map (\<lambda>b. of_bool (hs_state b = HASH_READING)) (hc_slots c)) = (0 :: nat)" by (simp add: assms(5) hash_start_def comp_def)
  ultimately have "hash_work cfg c \<le> length rounds" unfolding hash_work_def using assms(8) by presburger
  then have "hash_work cfg ?c \<le> length rounds" using s(2) by simp
  moreover have "length (hc_slots ?c) = hash_pipeline_depth cfg" using n by (simp add: first_batch_hash_length)
  ultimately obtain c' rs where l: "hash_loop upd fin env cfg rounds ?c = Some (c', rs)" "hash_inv upd fin m0 env cfg J {} {} c'" "hc_error c' = 0" "all_tasks_done_hash c'"
    using hash_loop_good[OF s(1) assms(1,2,6) _ _ assms(4) rf assms(7)] fe[of ?js c] e by auto
  have "hash_drain upd fin env rs c' = Some c'" using all_done_hash_idle[OF l(2,4)] by (cases rs) simp_all
  then show ?thesis using l output_expected(2)[OF l(2,4)] by (simp add: hash_pipeline_def)
qed

section \<open>Concrete runs\<close>

text \<open>A digest that keeps its input.\<close>

definition demo_upd :: "8 word list \<Rightarrow> 8 word list \<Rightarrow> 8 word list" where "demo_upd m xs = m @ xs"

lemma demo_incremental: "incremental demo_upd"
  by (simp add: incremental_def demo_upd_def)

definition hash_demo_cfg :: hash_config where
  "hash_demo_cfg = \<lparr>hash_chunk_size = 2, hash_pipeline_depth = 2\<rparr>"

definition hash_demo_env :: hash_env where
  "hash_demo_env = \<lparr>he_open = (\<lambda>_. 3), he_admit = (\<lambda>_. 0), he_contents = (\<lambda>p. if p = ''a'' then [1, 2, 30] else if p = ''b'' then [4] else [])\<rparr>"

definition hash_demo_start :: "(string \<times> nat) list \<Rightarrow> 8 word list hash_ctx" where
  "hash_demo_start J = hash_start [[0, 0], [0, 0]] (map (\<lambda>(p, n). new_hash_task [] p n) J)"

definition hash_demo_round :: "(nat \<times> int) list \<Rightarrow> hash_round" where
  "hash_demo_round ds = \<lparr>hr_stop = False, hr_done = ds, hr_wait = Inr (int (length ds)), hr_intr = (\<lambda>_. False)\<rparr>"

abbreviation demo_hash :: "hash_round list \<Rightarrow> (string \<times> nat) list \<Rightarrow> (int \<times> 8 word list hash_ctx) option" where
  "demo_hash rounds J \<equiv> hash_pipeline demo_upd id hash_demo_env hash_demo_cfg (\<lambda>_. False) rounds (hash_demo_start J)"

definition out_of_order :: "hash_round list" where
  "out_of_order = map hash_demo_round [[(1, 1)], [(0, 2)], [(0, 1)]]"

abbreviation demo_job :: "(string \<times> nat) list" where
  "demo_job \<equiv> [(''a'', 3), (''b'', 1), (''e'', 0)]"

lemma demo_hash_job: "hash_job hash_demo_env hash_demo_cfg demo_job"
  by (simp add: hash_job_def hash_demo_env_def hash_demo_cfg_def)

lemma demo_good: "good_hash_run demo_upd id hash_demo_env hash_demo_cfg out_of_order
    (first_batch_hash id hash_demo_env hash_demo_cfg (\<lambda>_. False) [0..<hash_pipeline_depth hash_demo_cfg] (hash_demo_start demo_job))"
  by code_simp

theorem hash_completes_witness:
  "\<exists>c'. demo_hash out_of_order demo_job = Some (0, c') \<and> mset (hc_output c') = mset (expected_lines demo_upd id [] hash_demo_env demo_job)"
proof (rule hash_completes[OF demo_hash_job demo_incremental _ _ hash_demo_start_def _ demo_good])
  show "(\<Sum>(p, n)\<leftarrow>demo_job. (n + hash_chunk_size hash_demo_cfg - 1) div hash_chunk_size hash_demo_cfg) \<le> length out_of_order"
    by (simp add: hash_demo_cfg_def out_of_order_def)
qed (simp_all add: hash_demo_cfg_def hash_demo_env_def)

section \<open>What the pipeline does not notice\<close>

lemma idle_hash_wait: "hc_ops c = [] \<Longrightarrow> hash_wait upd fin env r c = c"
proof -
  assume o: "hc_ops c = []"
  have "fold (complete_hash upd fin env) xs c = c" for xs by (induction xs) (simp_all add: complete_hash_def o split: prod.split)
  then show ?thesis by (simp add: hash_wait_def)
qed

lemma idle_hash_drain: "hc_ops c = [] \<Longrightarrow> 0 < hc_active_ops c \<Longrightarrow> hash_drain upd fin env rs c = None"
  by (induction rs) (simp_all add: idle_hash_wait)

lemma idle_hash_refills:
  assumes "find_hash_task (hc_tasks c) (hc_current c) = None"
  shows "hash_refills fin env cfg r c = c"
proof -
  have "refill_hash fin env cfg (hr_intr r) j c = c" for j using assms by (simp add: refill_hash_def submit_next_read_hash.simps)
  then have "fold (refill_hash fin env cfg (hr_intr r)) js c = c" for js by (induction js) simp_all
  then show ?thesis by (simp add: hash_refills_def)
qed

lemma idle_hash_loop:
  "hc_ops c = [] \<Longrightarrow> find_hash_task (hc_tasks c) (hc_current c) = None \<Longrightarrow> \<not> all_tasks_done_hash c \<Longrightarrow> hc_error c = 0 \<Longrightarrow>
   \<forall>r \<in> set rs. \<not> hr_stop r \<and> \<not> wait_fails (hr_wait r) \<Longrightarrow> hash_loop upd fin env cfg rs c = None"
  by (induction rs) (simp_all add: idle_hash_wait idle_hash_refills Let_def)

text \<open>
  Two chunks of a file are in flight; the second is read, the first fails. The error ends the main loop, but the second chunk is never fed
  and stays counted in \<open>active_ops\<close>: the final drain waits for ever.
\<close>

theorem failed_read_never_drains:
  "demo_hash (hash_demo_round [(1, 1), (0, - 5)] # rs) [(''a'', 3)] = None"
proof -
  let ?c = "first_batch_hash id hash_demo_env hash_demo_cfg (\<lambda>_. False) [0..<2] (hash_demo_start [(''a'', 3)])"
  let ?w = "hash_wait demo_upd id hash_demo_env (hash_demo_round [(1, 1), (0, - 5)]) ?c"
  let ?r = "hash_refills id hash_demo_env hash_demo_cfg (hash_demo_round [(1, 1), (0, - 5)]) ?w"
  have s: "\<not> all_tasks_done_hash ?c" "hc_error ?c = 0" "hc_error ?r = - 5" "hc_ops ?r = []" "hc_active_ops ?r = 1" by code_simp+
  have l: "hash_loop demo_upd id hash_demo_env hash_demo_cfg (hash_demo_round [(1, 1), (0, - 5)] # rs) ?c = Some (?r, rs)"
    using s by (cases rs) (simp_all add: Let_def hash_demo_round_def wait_fails_def)
  have d: "hash_pipeline_depth hash_demo_cfg = 2" by (simp add: hash_demo_cfg_def)
  show ?thesis unfolding hash_pipeline_def d l using idle_hash_drain[OF s(4)] s(5) by simp
qed

text \<open>
  A read that returns fewer bytes than asked for is taken as it is. As the last chunk of a file it gives the digest of a prefix with status 0; before the last
  chunk it leaves the chunk after it at an offset that is never reached, and the main loop waits for ever.
\<close>

theorem short_read_wrong_digest:
  "map_option (\<lambda>(err, c). (err, hc_output c)) (demo_hash [hash_demo_round [(0, 1)]] [(''a'', 2)]) = Some (0, [''01  a'' @ [CHR 0x0A]])"
  by code_simp

theorem short_read_never_ends:
  assumes "\<forall>r \<in> set rs. \<not> hr_stop r \<and> \<not> wait_fails (hr_wait r)"
  shows "demo_hash (hash_demo_round [(0, 1), (0, 1)] # rs) [(''a'', 3)] = None"
proof -
  let ?c = "first_batch_hash id hash_demo_env hash_demo_cfg (\<lambda>_. False) [0..<2] (hash_demo_start [(''a'', 3)])"
  let ?w = "hash_wait demo_upd id hash_demo_env (hash_demo_round [(0, 1), (0, 1)]) ?c"
  let ?r = "hash_refills id hash_demo_env hash_demo_cfg (hash_demo_round [(0, 1), (0, 1)]) ?w"
  have s: "\<not> all_tasks_done_hash ?c" "hc_error ?c = 0" "hc_error ?r = 0" "hc_ops ?r = []" "\<not> all_tasks_done_hash ?r" "find_hash_task (hc_tasks ?r) (hc_current ?r) = None"
    by code_simp+
  have l: "hash_loop demo_upd id hash_demo_env hash_demo_cfg (hash_demo_round [(0, 1), (0, 1)] # rs) ?c = hash_loop demo_upd id hash_demo_env hash_demo_cfg rs ?r"
    using s by (simp add: Let_def hash_demo_round_def wait_fails_def)
  have d: "hash_pipeline_depth hash_demo_cfg = 2" by (simp add: hash_demo_cfg_def)
  show ?thesis unfolding hash_pipeline_def d l using idle_hash_loop[OF s(4,6,5,3) assms] by simp
qed

text \<open>A file that cannot be opened has no line, and the status is still 0.\<close>

theorem unreadable_file_not_reported:
  "map_option (\<lambda>(err, c). (err, hc_output c))
     (hash_pipeline demo_upd id (hash_demo_env\<lparr>he_open := (\<lambda>p. if p = ''a'' then -1 else 3)\<rparr>) hash_demo_cfg (\<lambda>_. False) [hash_demo_round [(0, 1)]] (hash_demo_start demo_job)) =
   Some (0, map (\<lambda>s. s @ [CHR 0x0A]) [''  e'', ''04  b''])"
  by code_simp

end
