(* ===== verification/Hash_Tool.thy ===== *)
theory Hash_Tool
  imports Hash_Correct Tool_Common
begin

text \<open>
  The rest of \<open>aura-hash\<close>: its command line, the list of files, the workers and the exit status. \<open>stat\<close>, \<open>nftw\<close>,
  \<open>strtod\<close>, \<open>strtol\<close>, the allocator and the number of processors are arguments.
\<close>

section \<open>The command line\<close>

datatype hash_alg = SHA256 | SHA1 | MD5

record hash_options = hash_config +
  ho_algorithm :: string
  ho_recursive :: bool
  ho_direct :: bool
  ho_quiet :: bool
  ho_verbose :: bool
  ho_files :: "string list"

definition resolve_algorithm :: "string \<Rightarrow> hash_alg option" where
  "resolve_algorithm name = (if name = ''sha256'' then Some SHA256 else if name = ''sha1'' then Some SHA1 else if name = ''md5'' then Some MD5 else None)"

definition parse_hash_option :: "(string \<Rightarrow> real option \<times> string) \<Rightarrow> (string \<Rightarrow> int \<times> string) \<Rightarrow> char \<times> string \<Rightarrow> hash_options \<Rightarrow> int + hash_options" where
  "parse_hash_option strtod strtol oa cfg =
    (case oa of (opt, optarg) \<Rightarrow>
       if opt = CHR ''a'' then Inr (cfg\<lparr>ho_algorithm := optarg\<rparr>)
       else if opt = CHR ''r'' then Inr (cfg\<lparr>ho_recursive := True\<rparr>)
       else if opt = CHR ''d'' then Inr (cfg\<lparr>ho_direct := True\<rparr>)
       else if opt = CHR ''b'' then
         (case parse_size strtod optarg of
            Some sz \<Rightarrow> if sz \<le> 0 then Inl 1 else Inr (cfg\<lparr>hash_chunk_size := nat sz\<rparr>)
          | None \<Rightarrow> Inl 1)
       else if opt = CHR ''p'' then
         (case strtol optarg of (val, rest) \<Rightarrow>
            if rest \<noteq> [] \<or> val < 1 \<or> val > MAX_PIPELINE then Inl 1 else Inr (cfg\<lparr>hash_pipeline_depth := nat val\<rparr>))
       else if opt = CHR ''q'' then Inr (cfg\<lparr>ho_quiet := True\<rparr>)
       else if opt = CHR ''v'' then Inr (cfg\<lparr>ho_verbose := True\<rparr>)
       else if opt = CHR ''h'' then Inl 0
       else Inl 1)"

fun parse_hash_options :: "(string \<Rightarrow> real option \<times> string) \<Rightarrow> (string \<Rightarrow> int \<times> string) \<Rightarrow> (char \<times> string) list \<Rightarrow> hash_options \<Rightarrow> int + hash_options" where
  "parse_hash_options strtod strtol [] cfg = Inr cfg"
| "parse_hash_options strtod strtol (x # xs) cfg =
    (case parse_hash_option strtod strtol x cfg of Inl code \<Rightarrow> Inl code | Inr cfg' \<Rightarrow> parse_hash_options strtod strtol xs cfg')"

definition default_hash_options :: hash_options where
  "default_hash_options = \<lparr>hash_chunk_size = 256 * 1024, hash_pipeline_depth = 8, ho_algorithm = ''sha256'', ho_recursive = False, ho_direct = False,
     ho_quiet = False, ho_verbose = False, ho_files = []\<rparr>"

definition parse_hash_args :: "(string \<Rightarrow> real option \<times> string) \<Rightarrow> (string \<Rightarrow> int \<times> string) \<Rightarrow> (char \<times> string) list \<Rightarrow> string list \<Rightarrow> int + hash_alg \<times> hash_options" where
  "parse_hash_args strtod strtol options args =
    (case parse_hash_options strtod strtol options default_hash_options of
       Inl code \<Rightarrow> Inl code
     | Inr cfg \<Rightarrow>
         if length args < 1 then Inl 1
         else case resolve_algorithm (ho_algorithm cfg) of
           None \<Rightarrow> Inl 1
         | Some md \<Rightarrow> if ho_direct cfg \<and> hash_chunk_size cfg mod 512 \<noteq> 0 then Inl 1 else Inr (md, cfg\<lparr>ho_files := args\<rparr>))"

section \<open>The files\<close>

text \<open>The tasks of a walk, and whether an entry failed for want of memory.\<close>

record 'm hash_list =
  hl_tasks :: "'m hash_task list"
  hl_errors :: nat

record hash_files_env =
  hf_stat :: "string \<Rightarrow> file_stat option"
  hf_nftw :: "string \<Rightarrow> walk_entry list \<times> int"
  hf_mem :: "string \<Rightarrow> bool"

definition add_file_task :: "'m \<Rightarrow> bool \<Rightarrow> string \<Rightarrow> nat \<Rightarrow> 'm hash_list \<Rightarrow> bool \<times> 'm hash_list" where
  "add_file_task m0 mem path n l = (if mem then (True, l\<lparr>hl_tasks := hl_tasks l @ [new_hash_task m0 path n]\<rparr>) else (False, l))"

definition hash_nftw_callback :: "'m \<Rightarrow> walk_entry \<Rightarrow> 'm hash_list \<Rightarrow> 'm hash_list" where
  "hash_nftw_callback m0 x l =
    (if we_type x \<noteq> FTW_F \<or> st_kind_of (we_stat x) \<noteq> S_REG then l
     else case add_file_task m0 (we_task_mem x) (we_path x) (st_size (we_stat x)) l of
       (ok, l1) \<Rightarrow> if ok then l1 else l1\<lparr>hl_errors := hl_errors l1 + 1\<rparr>)"

definition add_hash_path :: "'m \<Rightarrow> hash_files_env \<Rightarrow> bool \<Rightarrow> string \<Rightarrow> 'm hash_list \<Rightarrow> bool \<times> 'm hash_list" where
  "add_hash_path m0 env recursive path l =
    (case hf_stat env path of
       None \<Rightarrow> (False, l)
     | Some st \<Rightarrow>
        (case st_kind_of st of
           S_DIR \<Rightarrow> if \<not> recursive then (False, l)
             else (let (entries, rc) = hf_nftw env path; l1 = fold (hash_nftw_callback m0) entries (l\<lparr>hl_errors := 0\<rparr>) in (rc = 0 \<and> hl_errors l1 = 0, l1))
         | S_REG \<Rightarrow> add_file_task m0 (hf_mem env path) path (st_size st) l
         | S_OTHER \<Rightarrow> (True, l)))"

fun add_hash_paths :: "'m \<Rightarrow> hash_files_env \<Rightarrow> bool \<Rightarrow> string list \<Rightarrow> 'm hash_list \<Rightarrow> bool \<times> 'm hash_list" where
  "add_hash_paths m0 env recursive [] l = (True, l)"
| "add_hash_paths m0 env recursive (p # ps) l =
    (case add_hash_path m0 env recursive p l of (ok, l1) \<Rightarrow> if ok then add_hash_paths m0 env recursive ps l1 else (False, l1))"

definition build_hash_tasks :: "'m \<Rightarrow> hash_files_env \<Rightarrow> hash_options \<Rightarrow> 'm hash_task list option" where
  "build_hash_tasks m0 env cfg =
    (case add_hash_paths m0 env (ho_recursive cfg) (ho_files cfg) \<lparr>hl_tasks = [], hl_errors = 0\<rparr> of
       (ok, l) \<Rightarrow> if ok \<and> hl_tasks l \<noteq> [] then Some (hl_tasks l) else None)"

section \<open>The workers\<close>

abbreviation MAX_WORKERS :: int where "MAX_WORKERS \<equiv> 64"

definition get_num_cpus :: "int \<Rightarrow> int" where
  "get_num_cpus n = (let m = (if n < 1 then 1 else n) in if m > MAX_WORKERS then MAX_WORKERS else m)"

text \<open>Files are dealt in turn, each pushed to the queue of its worker.\<close>

fun deal_tasks :: "nat \<Rightarrow> nat \<Rightarrow> 'a list \<Rightarrow> 'a list list \<Rightarrow> 'a list list" where
  "deal_tasks n idx [] qs = qs"
| "deal_tasks n idx (t # ts) qs = deal_tasks n (Suc idx) ts (qs[idx mod n := qs ! (idx mod n) @ [t]])"

text \<open>
  The environment of a run: processors online, the two arrays of the dispatch, which threads start, the array of joined
  threads, and each worker.
\<close>

record hash_run_env =
  hx_cpus :: int
  hx_workers_mem :: bool
  hx_threads_mem :: bool
  hx_start :: "nat \<Rightarrow> bool"
  hx_joined_mem :: bool
  hx_worker :: "nat \<Rightarrow> hash_worker"

definition num_workers :: "int \<Rightarrow> nat \<Rightarrow> nat" where
  "num_workers cpus files = (let n = min (get_num_cpus cpus) (int files) in nat (if n < 1 then 1 else n))"

text \<open>
  The status and what each worker printed; \<open>None\<close> when a worker does not return. When the array of joined threads cannot be
  allocated the call returns while the workers still run: what they have printed by then is left out.
\<close>

definition run_multithreaded ::
  "('m \<Rightarrow> 8 word list \<Rightarrow> 'm) \<Rightarrow> ('m \<Rightarrow> 8 word list) \<Rightarrow> (string \<Rightarrow> int) \<Rightarrow> (string \<Rightarrow> 8 word list) \<Rightarrow> hash_config \<Rightarrow> hash_run_env \<Rightarrow> 'm hash_task list \<Rightarrow> (int \<times> string list list) option" where
  "run_multithreaded upd fin opn contents cfg x ts =
    (let n = num_workers (hx_cpus x) (length ts);
         run = (\<lambda>w q. run_worker_pipeline upd fin opn contents cfg (hx_worker x w) q)
     in if n = 1 then map_option (\<lambda>(err, out). (err, [out])) (run 0 ts)
        else if \<not> hx_workers_mem x \<or> \<not> hx_threads_mem x then Some (-1, [])
        else let qs = deal_tasks n 0 ts (replicate n []);
                 started = length (takeWhile (hx_start x) [0..<n])
          in case those (map (\<lambda>w. run w (qs ! w)) [0..<started]) of
               None \<Rightarrow> if started = n \<and> \<not> hx_joined_mem x then Some (1, []) else None
             | Some rs \<Rightarrow>
                 if started < n then Some (-1, map snd rs)
                 else if \<not> hx_joined_mem x then Some (1, [])
                 else Some (case filter (\<lambda>e. e \<noteq> 0) (map fst rs) of [] \<Rightarrow> 0 | e # _ \<Rightarrow> e, map snd rs))"

text \<open>The whole tool: exit status and output of the workers.\<close>

definition hash_main ::
  "('m \<Rightarrow> 8 word list \<Rightarrow> 'm) \<Rightarrow> ('m \<Rightarrow> 8 word list) \<Rightarrow> (hash_alg \<Rightarrow> 'm) \<Rightarrow> (string \<Rightarrow> real option \<times> string) \<Rightarrow> (string \<Rightarrow> int \<times> string) \<Rightarrow> (string \<Rightarrow> int) \<Rightarrow>
   (string \<Rightarrow> 8 word list) \<Rightarrow> hash_files_env \<Rightarrow> hash_run_env \<Rightarrow> bool \<Rightarrow> (char \<times> string) list \<Rightarrow> string list \<Rightarrow> (int \<times> string list list) option" where
  "hash_main upd fin init strtod strtol opn contents fenv x interrupted options args =
    (case parse_hash_args strtod strtol options args of
       Inl code \<Rightarrow> Some (code, [])
     | Inr (md, cfg) \<Rightarrow>
        (case build_hash_tasks (init md) fenv cfg of
           None \<Rightarrow> Some (1, [])
         | Some ts \<Rightarrow> map_option (\<lambda>(err, outs). (if interrupted then 130 else if err \<noteq> 0 then 1 else 0, outs))
             (run_multithreaded upd fin opn contents (hash_config.truncate cfg) x ts)))"

section \<open>The output line\<close>

text \<open>A reader of the lines, as the checkers of such lists have: pairs of hexadecimal digits up to the first space, the path up to the end of the line.\<close>

definition digit_value :: "char \<Rightarrow> nat option" where
  "digit_value ch = find (\<lambda>n. hex_digit n = ch) [0..<16]"

fun read_digest :: "string \<Rightarrow> (8 word list \<times> string) option" where
  "read_digest (a # b # rest) =
    (case (digit_value a, digit_value b) of
       (Some x, Some y) \<Rightarrow> map_option (\<lambda>(d, s). (word_of_nat (16 * x + y) # d, s)) (read_digest rest)
     | _ \<Rightarrow> if a = CHR '' '' \<and> b = CHR '' '' then Some ([], rest) else None)"
| "read_digest _ = None"

definition read_hash_line :: "string \<Rightarrow> (string \<times> 8 word list) option" where
  "read_hash_line s = (case read_digest s of Some (d, rest) \<Rightarrow> if rest \<noteq> [] \<and> last rest = CHR 0x0A then Some (butlast rest, d) else None | None \<Rightarrow> None)"

lemma digit_value_hex: "n < 16 \<Longrightarrow> digit_value (hex_digit n) = Some n"
proof -
  assume "n < 16"
  then have "n \<in> set [0..<16]" by simp
  moreover have "list_all (\<lambda>n. digit_value (hex_digit n) = Some n) [0..<16]" by code_simp
  ultimately show ?thesis by (simp add: list_all_iff)
qed

lemma digit_value_space: "digit_value (CHR '' '') = None"
  by code_simp

lemma read_digest_hex: "read_digest (concat (map hex_byte d) @ ''  '' @ rest) = Some (d, rest)"
proof (induction d)
  case (Cons b d)
  have "unat b < 256" using unsigned_less[of b] by simp
  then have b: "unat b div 16 < 16" "unat b mod 16 < 16" by auto
  have "word_of_nat (16 * (unat b div 16) + unat b mod 16) = b" unfolding mult_div_mod_eq by simp
  then show ?case using Cons digit_value_hex[OF b(1)] digit_value_hex[OF b(2)] by (simp add: hex_byte_def)
qed (simp add: digit_value_space)

text \<open>
  Claim C26. The line the tool prints for a file can be read back: it determines the path and every byte of the digest, whatever
  characters the path has.
\<close>

theorem hash_line_roundtrip: "read_hash_line (hash_line path digest) = Some (path, digest)"
  using read_digest_hex[of digest "path @ [CHR 0x0A]"] by (simp add: read_hash_line_def hash_line_def)

section \<open>What an accepted command line gives\<close>

lemma parse_hash_options_bounds:
  "parse_hash_options strtod strtol xs cfg = Inr cfg' \<Longrightarrow> 0 < hash_chunk_size cfg \<Longrightarrow> 1 \<le> hash_pipeline_depth cfg \<and> hash_pipeline_depth cfg \<le> 64 \<Longrightarrow>
   0 < hash_chunk_size cfg' \<and> 1 \<le> hash_pipeline_depth cfg' \<and> hash_pipeline_depth cfg' \<le> 64"
proof (induction xs arbitrary: cfg)
  case (Cons x xs)
  obtain c where c: "parse_hash_option strtod strtol x cfg = Inr c" "parse_hash_options strtod strtol xs c = Inr cfg'"
    using Cons.prems(1) by (auto split: sum.splits)
  have "0 < hash_chunk_size c \<and> 1 \<le> hash_pipeline_depth c \<and> hash_pipeline_depth c \<le> 64"
    using c(1) Cons.prems(2,3) by (fastforce simp: parse_hash_option_def split: prod.splits if_splits option.splits)
  then show ?case using Cons.IH[OF c(2)] by simp
qed simp

lemma parse_hash_args_bounds:
  assumes "parse_hash_args strtod strtol options args = Inr (md, cfg)"
  shows "0 < hash_chunk_size cfg" "1 \<le> hash_pipeline_depth cfg" "hash_pipeline_depth cfg \<le> 64" "ho_direct cfg \<Longrightarrow> 512 dvd hash_chunk_size cfg"
    "args \<noteq> []" "ho_files cfg = args" "resolve_algorithm (ho_algorithm cfg) = Some md"
proof -
  obtain c where c: "parse_hash_options strtod strtol options default_hash_options = Inr c" "args \<noteq> []" "resolve_algorithm (ho_algorithm c) = Some md"
    "ho_direct c \<longrightarrow> hash_chunk_size c mod 512 = 0" "cfg = c\<lparr>ho_files := args\<rparr>"
    using assms by (auto simp: parse_hash_args_def split: sum.splits if_splits option.splits)
  have "0 < hash_chunk_size c \<and> 1 \<le> hash_pipeline_depth c \<and> hash_pipeline_depth c \<le> 64"
    by (rule parse_hash_options_bounds[OF c(1)]) (simp_all add: default_hash_options_def)
  then show "0 < hash_chunk_size cfg" "1 \<le> hash_pipeline_depth cfg" "hash_pipeline_depth cfg \<le> 64" "ho_direct cfg \<Longrightarrow> 512 dvd hash_chunk_size cfg"
    "args \<noteq> []" "ho_files cfg = args" "resolve_algorithm (ho_algorithm cfg) = Some md"
    using c by (simp_all add: mod_eq_0_iff_dvd)
qed

section \<open>Every file gets one worker\<close>

lemma deal_tasks_length: "length (deal_tasks n idx ts qs) = length qs"
  by (induction ts arbitrary: idx qs) simp_all

lemma mset_concat_push:
  assumes "i < length qs"
  shows "mset (concat (qs[i := qs ! i @ [t]])) = add_mset t (mset (concat qs))"
proof -
  have q: "qs = take i qs @ qs ! i # drop (Suc i) qs" using assms by (rule id_take_nth_drop)
  have "mset (concat qs) = mset (concat (take i qs)) + mset (qs ! i) + mset (concat (drop (Suc i) qs))" by (subst q) simp
  then show ?thesis using assms by (simp add: upd_conv_take_nth_drop)
qed

lemma deal_tasks_mset: "0 < n \<Longrightarrow> length qs = n \<Longrightarrow> mset (concat (deal_tasks n idx ts qs)) = mset (concat qs) + mset ts"
  by (induction ts arbitrary: idx qs) (simp_all add: mset_concat_push)

lemma those_Some: "those xs = Some ys \<longleftrightarrow> xs = map Some ys"
  by (induction xs arbitrary: ys) (auto split: option.splits simp: Cons_eq_map_conv)

text \<open>The tasks of the list are new.\<close>

definition fresh_tasks :: "'m \<Rightarrow> 'm hash_task list \<Rightarrow> bool" where
  "fresh_tasks m0 ts \<longleftrightarrow> (\<forall>t \<in> set ts. t = new_hash_task m0 (ht_path t) (ht_file_size t))"

lemma add_file_task_fresh: "fresh_tasks m0 (hl_tasks l) \<Longrightarrow> fresh_tasks m0 (hl_tasks (snd (add_file_task m0 mem p n l)))"
  by (simp add: fresh_tasks_def add_file_task_def new_hash_task_def)

lemma walk_fresh: "fresh_tasks m0 (hl_tasks l) \<Longrightarrow> fresh_tasks m0 (hl_tasks (fold (hash_nftw_callback m0) xs l))"
proof (induction xs arbitrary: l)
  case (Cons x xs)
  have "fresh_tasks m0 (hl_tasks (hash_nftw_callback m0 x l))"
    using Cons.prems add_file_task_fresh[OF Cons.prems, of "we_task_mem x" "we_path x" "st_size (we_stat x)"]
    by (auto simp: hash_nftw_callback_def split: prod.splits)
  then show ?case using Cons.IH by simp
qed simp

lemma add_hash_paths_fresh: "fresh_tasks m0 (hl_tasks l) \<Longrightarrow> fresh_tasks m0 (hl_tasks (snd (add_hash_paths m0 env r ps l)))"
proof (induction ps arbitrary: l)
  case (Cons p ps)
  have "fresh_tasks m0 (hl_tasks (snd (add_hash_path m0 env r p l)))"
    using Cons.prems add_file_task_fresh[OF Cons.prems] walk_fresh[of m0 "l\<lparr>hl_errors := 0\<rparr>"]
    by (auto simp: add_hash_path_def Let_def split: option.splits st_kind.splits prod.splits)
  then show ?case using Cons.IH by (auto split: prod.splits)
qed simp

lemma build_hash_fresh: "build_hash_tasks m0 env cfg = Some ts \<Longrightarrow> fresh_tasks m0 ts"
  using add_hash_paths_fresh[of m0 "\<lparr>hl_tasks = [], hl_errors = 0\<rparr>" env "ho_recursive cfg" "ho_files cfg"]
  by (auto simp: build_hash_tasks_def fresh_tasks_def split: prod.splits if_splits)

section \<open>The whole tool\<close>

text \<open>
  The reads of a worker are sound and it is not interrupted; its buffers are those the engine hands out.
\<close>

definition worker_sound :: "('m \<Rightarrow> 8 word list \<Rightarrow> 'm) \<Rightarrow> ('m \<Rightarrow> 8 word list) \<Rightarrow> (string \<Rightarrow> int) \<Rightarrow> (string \<Rightarrow> 8 word list) \<Rightarrow> hash_config \<Rightarrow> hash_worker \<Rightarrow> 'm hash_task list \<Rightarrow> bool" where
  "worker_sound upd fin opn contents cfg w ts =
    (case those (map (hw_buf w) [0..<hash_pipeline_depth cfg]) of
       None \<Rightarrow> True
     | Some bufs \<Rightarrow> list_all (\<lambda>r. \<not> hr_stop r) (hw_rounds w) \<and>
         sound_hash_run upd fin (hash_io opn contents w) cfg (hw_rounds w)
           (first_batch_hash fin (hash_io opn contents w) cfg (hw_intr w) [0..<hash_pipeline_depth cfg] (hash_start bufs ts)))"

text \<open>The lines the tool owes for a list of files.\<close>

definition hash_lines :: "('m \<Rightarrow> 8 word list \<Rightarrow> 'm) \<Rightarrow> ('m \<Rightarrow> 8 word list) \<Rightarrow> 'm \<Rightarrow> (string \<Rightarrow> int) \<Rightarrow> (string \<Rightarrow> 8 word list) \<Rightarrow> 'm hash_task list \<Rightarrow> string list" where
  "hash_lines upd fin m0 opn contents ts =
    map (\<lambda>t. hash_line (ht_path t) (fin (upd m0 (contents (ht_path t))))) (filter (\<lambda>t. 0 \<le> opn (ht_path t)) ts)"

lemma hash_lines_mset: "mset ts = mset ts' \<Longrightarrow> mset (hash_lines upd fin m0 opn contents ts) = mset (hash_lines upd fin m0 opn contents ts')"
  by (simp add: hash_lines_def)

lemma hash_lines_concat: "mset (hash_lines upd fin m0 opn contents (concat qs)) = (\<Sum>q\<leftarrow>qs. mset (hash_lines upd fin m0 opn contents q))"
  by (induction qs) (simp_all add: hash_lines_def)

text \<open>The workers print under a lock, so the output is some interleaving of their lines.\<close>

fun interleavings :: "'a list list \<Rightarrow> 'a list set" where
  "interleavings [] = {[]}"
| "interleavings (xs # xss) = (\<Union>ys \<in> interleavings xss. shuffles xs ys)"

lemma mset_interleavings: "xs \<in> interleavings xss \<Longrightarrow> mset xs = (\<Sum>ys\<leftarrow>xss. mset ys)"
  by (induction xss arbitrary: xs) (auto simp: mset_shuffles)

lemma worker_output:
  assumes run: "run_worker_pipeline upd fin opn contents cfg w ts = Some (0, out)" and u: "incremental upd" and ts: "fresh_tasks m0 ts"
    and len: "\<forall>t \<in> set ts. length (contents (ht_path t)) = ht_file_size t" and cfg: "0 < hash_chunk_size cfg" and s: "worker_sound upd fin opn contents cfg w ts"
  shows "mset out = mset (hash_lines upd fin m0 opn contents ts)"
proof (cases "ts = []")
  case False
  let ?env = "hash_io opn contents w" and ?J = "map hash_static ts"
  obtain bufs c where b: "those (map (hw_buf w) [0..<hash_pipeline_depth cfg]) = Some bufs"
      "hash_pipeline upd fin ?env cfg (hw_intr w) (hw_rounds w) (hash_start bufs ts) = Some (0, c)" "out = hc_output c"
    using run False by (auto simp: run_worker_pipeline_def split: if_splits option.splits)
  have "map (hw_buf w) [0..<hash_pipeline_depth cfg] = map Some bufs" using b(1) by (simp only: those_Some)
  then have n: "length bufs = hash_pipeline_depth cfg" by (metis diff_zero length_map length_upt)
  have t: "ts = map (\<lambda>(p, n). new_hash_task m0 p n) ?J" using ts by (simp add: fresh_tasks_def hash_static_def comp_def map_idI)
  have job: "hash_job ?env cfg ?J" using len cfg by (auto simp: hash_job_def hash_io_def hash_static_def)
  have sound: "sound_hash_run upd fin ?env cfg (hw_rounds w) (first_batch_hash fin ?env cfg (hw_intr w) [0..<hash_pipeline_depth cfg] (hash_start bufs ts))"
    "\<forall>r \<in> set (hw_rounds w). \<not> hr_stop r" using s b(1) by (simp_all add: worker_sound_def list_all_iff)
  have "mset out = mset (expected_lines upd fin m0 ?env ?J)"
    using hash_is_faithful[OF job u n arg_cong[OF t, of "hash_start bufs"] sound(1) b(2)] sound(2) b(3) by blast
  moreover have "expected_lines upd fin m0 ?env ?J = hash_lines upd fin m0 opn contents ts"
    using expected_tasks[OF refl, of upd fin m0 ?env ts] by (simp add: hash_lines_def hash_io_def digest_line_def comp_def)
  ultimately show ?thesis by simp
qed (use run in \<open>simp add: run_worker_pipeline_def hash_lines_def\<close>)

lemma fresh_tasks_sub: "fresh_tasks m0 ts \<Longrightarrow> set q \<subseteq> set ts \<Longrightarrow> fresh_tasks m0 q"
  by (auto simp: fresh_tasks_def)

text \<open>The queue of a worker.\<close>

definition worker_queue :: "int \<Rightarrow> 'm hash_task list \<Rightarrow> nat \<Rightarrow> 'm hash_task list" where
  "worker_queue cpus ts w = (let n = num_workers cpus (length ts) in if n = 1 then ts else deal_tasks n 0 ts (replicate n []) ! w)"

lemma first_error: "(case filter (\<lambda>e. e \<noteq> (0 :: int)) es of [] \<Rightarrow> 0 | e # _ \<Rightarrow> e) = 0 \<longleftrightarrow> (\<forall>e \<in> set es. e = 0)"
proof (cases "filter (\<lambda>e. e \<noteq> 0) es")
  case (Cons e rest)
  then have "e \<in> set (filter (\<lambda>e. e \<noteq> 0) es)" by simp
  then have "e \<in> set es" "e \<noteq> 0" unfolding set_filter by blast+
  then show ?thesis using Cons by auto
qed (auto simp: filter_empty_conv)

lemma run_multithreaded_many:
  assumes run: "run_multithreaded upd fin opn contents cfg x ts = Some (0, outs)" and n: "num_workers (hx_cpus x) (length ts) \<noteq> 1"
  defines "n \<equiv> num_workers (hx_cpus x) (length ts)"
  shows "\<exists>rs. those (map (\<lambda>w. run_worker_pipeline upd fin opn contents cfg (hx_worker x w) (deal_tasks n 0 ts (replicate n []) ! w)) [0..<n]) = Some rs \<and>
    (\<forall>r \<in> set rs. fst r = 0) \<and> outs = map snd rs"
proof -
  define R where "R w = run_worker_pipeline upd fin opn contents cfg (hx_worker x w) (deal_tasks n 0 ts (replicate n []) ! w)" for w
  define k where "k = length (takeWhile (hx_start x) [0..<n])"
  have k: "k \<le> n" unfolding k_def by (metis diff_zero length_takeWhile_le length_upt)
  have e: "Some (0, outs) = (if \<not> hx_workers_mem x \<or> \<not> hx_threads_mem x then Some (-1, [])
      else case those (map R [0..<k]) of None \<Rightarrow> if k = n \<and> \<not> hx_joined_mem x then Some (1, []) else None
        | Some rs \<Rightarrow> if k < n then Some (-1, map snd rs) else if \<not> hx_joined_mem x then Some (1, [])
            else Some (case filter (\<lambda>e. e \<noteq> 0) (map fst rs) of [] \<Rightarrow> 0 | e # _ \<Rightarrow> e, map snd rs))"
    using run n unfolding run_multithreaded_def Let_def n_def[symmetric] R_def[symmetric] k_def[symmetric] by simp
  show ?thesis
  proof (cases "those (map R [0..<k])")
    case None
    then show ?thesis using e by (simp split: if_splits)
  next
    case (Some rs)
    then have "\<not> k < n" "(case filter (\<lambda>e. e \<noteq> 0) (map fst rs) of [] \<Rightarrow> 0 | e # _ \<Rightarrow> e) = (0 :: int)" "outs = map snd rs" using e by (simp_all split: if_splits)
    then show ?thesis using Some k first_error[of "map fst rs"] unfolding R_def[symmetric] by auto
  qed
qed

lemma run_multithreaded_output:
  assumes run: "run_multithreaded upd fin opn contents cfg x ts = Some (0, outs)" and u: "incremental upd" and ts: "fresh_tasks m0 ts"
    and len: "\<forall>t \<in> set ts. length (contents (ht_path t)) = ht_file_size t" and cfg: "0 < hash_chunk_size cfg"
    and s: "\<forall>w < num_workers (hx_cpus x) (length ts). worker_sound upd fin opn contents cfg (hx_worker x w) (worker_queue (hx_cpus x) ts w)"
  shows "(\<Sum>out\<leftarrow>outs. mset out) = mset (hash_lines upd fin m0 opn contents ts)"
proof -
  let ?n = "num_workers (hx_cpus x) (length ts)"
  let ?run = "\<lambda>w. run_worker_pipeline upd fin opn contents cfg (hx_worker x w) (worker_queue (hx_cpus x) ts w)"
  have pos: "0 < ?n" by (auto simp: num_workers_def Let_def)
  have out: "mset o' = mset (hash_lines upd fin m0 opn contents (worker_queue (hx_cpus x) ts w))"
    if w: "w < ?n" "?run w = Some (0, o')" "set (worker_queue (hx_cpus x) ts w) \<subseteq> set ts" for w o'
    using worker_output[OF w(2) u fresh_tasks_sub[OF ts w(3)] _ cfg] s w(1,3) len by blast
  show ?thesis
  proof (cases "?n = 1")
    case True
    then obtain o' where "?run 0 = Some (0, o')" "outs = [o']"
      using run by (auto simp: run_multithreaded_def worker_queue_def Let_def)
    then show ?thesis using out[of 0 o'] True by (simp add: worker_queue_def)
  next
    case False
    let ?qs = "deal_tasks ?n 0 ts (replicate ?n [])"
    have q: "worker_queue (hx_cpus x) ts w = ?qs ! w" for w using False by (simp add: worker_queue_def Let_def)
    obtain rs where rs: "those (map (\<lambda>w. ?run w) [0..<?n]) = Some rs" "\<forall>r \<in> set rs. fst r = 0" "outs = map snd rs"
      using run_multithreaded_many[OF run False] unfolding q by blast
    have l: "length ?qs = ?n" by (simp add: deal_tasks_length)
    have m: "mset (concat ?qs) = mset ts" using deal_tasks_mset[OF pos, of "replicate ?n []" 0 ts] by simp
    have r: "map ?run [0..<?n] = map Some rs" using rs(1) by (simp only: those_Some)
    have lr: "length rs = ?n" using arg_cong[OF r, of length] unfolding length_map by simp
    have "mset (outs ! w) = mset (hash_lines upd fin m0 opn contents (?qs ! w))" if w: "w < ?n" for w
    proof -
      have "?run w = Some (rs ! w)" using arg_cong[OF r, of "\<lambda>xs. xs ! w"] w lr by simp
      moreover have "fst (rs ! w) = 0" using rs(2) w lr by simp
      moreover have "set (?qs ! w) \<subseteq> set ts" using mset_eq_setD[OF m] nth_mem[of w ?qs] l w by auto
      ultimately show ?thesis using out[OF w, of "snd (rs ! w)"] w lr rs(3) by (simp add: q prod_eq_iff)
    qed
    then have "map mset outs = map (\<lambda>q. mset (hash_lines upd fin m0 opn contents q)) ?qs"
      using l lr rs(3) by (intro nth_equalityI) simp_all
    then show ?thesis using hash_lines_mset[OF m, of upd fin m0 opn contents] by (simp add: hash_lines_concat)
  qed
qed


definition hash_demo_worker :: "(nat \<times> int) list list \<Rightarrow> hash_worker" where
  "hash_demo_worker ds = \<lparr>hw_engine = True, hw_slots = True, hw_buf = (\<lambda>_. Some [0, 0]), hw_admit = (\<lambda>_. 0), hw_intr = (\<lambda>_. False), hw_rounds = map hash_demo_round ds\<rparr>"

definition hash_demo_run :: hash_run_env where
  "hash_demo_run = \<lparr>hx_cpus = 2, hx_workers_mem = True, hx_threads_mem = True, hx_start = (\<lambda>_. True), hx_joined_mem = True,
     hx_worker = (\<lambda>w. hash_demo_worker (if w = 0 then [[(1, 1), (0, 2)]] else [[(0, 1)]]))\<rparr>"

definition hash_demo_files :: hash_files_env where
  "hash_demo_files = \<lparr>hf_stat = (\<lambda>p. Some \<lparr>st_kind_of = S_REG, st_size = length (he_contents hash_demo_env p), st_dev = 1, st_ino = 1\<rparr>),
     hf_nftw = (\<lambda>_. ([], 0)), hf_mem = (\<lambda>_. True)\<rparr>"

abbreviation hash_demo_main :: "(int \<times> string list list) option" where
  "hash_demo_main \<equiv> hash_main demo_upd id (\<lambda>_. []) (\<lambda>_. (Some 2, [])) (\<lambda>_. (2, [])) (he_open hash_demo_env) (he_contents hash_demo_env) hash_demo_files hash_demo_run
     False [(CHR ''b'', ''2''), (CHR ''p'', ''2'')] [''a'', ''b'']"


end
