(* ===== verification/Buffer_Size_Map.thy ===== *)
theory Buffer_Size_Map
  imports Aura_Prelude "HOL-Library.Multiset"
begin

text \<open>
  The pointer-to-size-class table of \<^verbatim>\<open>src/engine/src/adaptive_buffer.c\<close> (lines 1072 to 1220): an
  open-addressing hash table with linear probing, growth at a load of 3/4 and deletion by
  backward shift. Its lock is held during every operation, so each is one step. Keys are
  64-bit pointers with 0 for an empty slot; indices are natural numbers below the capacity.
\<close>

unbundle bit_operations_syntax

section \<open>The table\<close>

record buf_map_entry =
  me_key :: u64
  me_class :: u8

record buf_size_map =
  entries :: "buf_map_entry list"
  capacity :: nat
  map_count :: nat

abbreviation BUF_MAP_INITIAL_CAPACITY :: nat where "BUF_MAP_INITIAL_CAPACITY \<equiv> 1024"
abbreviation BUF_MAP_MAX_CAPACITY :: nat where "BUF_MAP_MAX_CAPACITY \<equiv> 1048576"
abbreviation BUF_MAP_LOAD_FACTOR_NUM :: nat where "BUF_MAP_LOAD_FACTOR_NUM \<equiv> 3"
abbreviation BUF_MAP_LOAD_FACTOR_DEN :: nat where "BUF_MAP_LOAD_FACTOR_DEN \<equiv> 4"

definition empty_entry :: buf_map_entry where
  "empty_entry = \<lparr>me_key = 0, me_class = 0\<rparr>"

definition buf_map_hash :: "u64 \<Rightarrow> nat \<Rightarrow> nat" where
  "buf_map_hash key msk =
     (let k1 = key XOR drop_bit 16 key;
          k2 = k1 * 0x9E3779B97F4A7C15;
          k3 = k2 XOR drop_bit 16 k2
      in unat (k3 AND of_nat msk))"

text \<open>\<open>(idx + 1) & mask\<close> and the 64-bit \<open>(a - b) & mask\<close>.\<close>

definition idx_next :: "nat \<Rightarrow> nat \<Rightarrow> nat" where
  "idx_next msk idx = (idx + 1) AND msk"

definition circ_dist :: "nat \<Rightarrow> nat \<Rightarrow> nat \<Rightarrow> nat" where
  "circ_dist msk a b = nat ((int a - int b) mod 2 ^ 64) AND msk"

definition buf_size_map_init :: "bool \<Rightarrow> bool \<Rightarrow> buf_size_map option" where
  "buf_size_map_init have_entries mutex_ok =
     (if \<not> have_entries then None
      else if \<not> mutex_ok then None
      else Some \<lparr>entries = replicate BUF_MAP_INITIAL_CAPACITY empty_entry,
                 capacity = BUF_MAP_INITIAL_CAPACITY, map_count = 0\<rparr>)"

definition buf_size_map_destroy :: "buf_size_map \<Rightarrow> buf_size_map" where
  "buf_size_map_destroy m = m\<lparr>entries := [], capacity := 0\<rparr>"

text \<open>The rehash loop \<open>while (new_entries[idx].key != 0)\<close>; \<open>None\<close> when the fuel ends first.\<close>

fun probe_empty :: "buf_map_entry list \<Rightarrow> nat \<Rightarrow> nat \<Rightarrow> nat \<Rightarrow> nat option" where
  "probe_empty es msk idx 0 = None"
| "probe_empty es msk idx (Suc fuel) =
     (if me_key (es ! idx) = 0 then Some idx else probe_empty es msk (idx_next msk idx) fuel)"

definition rehash_entry ::
    "nat \<Rightarrow> buf_map_entry \<Rightarrow> buf_map_entry list option \<Rightarrow> buf_map_entry list option" where
  "rehash_entry msk e acc =
     (case acc of
        None \<Rightarrow> None
      | Some es \<Rightarrow>
          if me_key e \<noteq> 0
          then (case probe_empty es msk (buf_map_hash (me_key e) msk) (length es) of
                  None \<Rightarrow> None
                | Some idx \<Rightarrow> Some (es[idx := e]))
          else Some es)"

text \<open>
  \<open>have_new\<close> is whether \<open>calloc\<close> succeeded. The outer option is termination of the rehash,
  the inner one the result: \<open>None\<close> for -1.
\<close>

definition buf_map_grow :: "bool \<Rightarrow> buf_size_map \<Rightarrow> buf_size_map option option" where
  "buf_map_grow have_new m =
     (let new_cap = capacity m * 2
      in if new_cap > BUF_MAP_MAX_CAPACITY then Some None
         else if \<not> have_new then Some None
         else case fold (rehash_entry (new_cap - 1)) (entries m)
                     (Some (replicate new_cap empty_entry)) of
                None \<Rightarrow> None
              | Some es \<Rightarrow> Some (Some (m\<lparr>entries := es, capacity := new_cap\<rparr>)))"

text \<open>The bounded probe of an insertion: where it stopped.\<close>

fun insert_probe :: "buf_map_entry list \<Rightarrow> nat \<Rightarrow> u64 \<Rightarrow> nat \<Rightarrow> nat \<Rightarrow> nat" where
  "insert_probe es msk key idx 0 = idx"
| "insert_probe es msk key idx (Suc n) =
     (if me_key (es ! idx) = 0 then idx
      else if me_key (es ! idx) = key then idx
      else insert_probe es msk key (idx_next msk idx) n)"

definition insert_at :: "buf_size_map \<Rightarrow> u64 \<Rightarrow> u8 \<Rightarrow> (int + unit) \<times> buf_size_map" where
  "insert_at m key cls =
     (let msk = capacity m - 1;
          idx = insert_probe (entries m) msk key (buf_map_hash key msk) (capacity m)
      in if me_key (entries m ! idx) = key then
           (Inr (), m\<lparr>entries := (entries m)[idx := (entries m ! idx)\<lparr>me_class := cls\<rparr>]\<rparr>)
         else if me_key (entries m ! idx) \<noteq> 0 then (Inl ENOMEM, m)
         else (Inr (), m\<lparr>entries := (entries m)[idx := \<lparr>me_key = key, me_class = cls\<rparr>],
                           map_count := map_count m + 1\<rparr>))"

text \<open>A NULL pointer is refused without an errno; -1 stands for that error.\<close>

definition buf_size_map_insert ::
    "bool \<Rightarrow> buf_size_map \<Rightarrow> u64 \<Rightarrow> u8 \<Rightarrow> ((int + unit) \<times> buf_size_map) option" where
  "buf_size_map_insert have_new m key cls =
     (if key = 0 then Some (Inl (-1), m)
      else if map_count m * BUF_MAP_LOAD_FACTOR_DEN \<ge> capacity m * BUF_MAP_LOAD_FACTOR_NUM then
        if capacity m \<ge> BUF_MAP_MAX_CAPACITY then
          if map_count m \<ge> capacity m then Some (Inl ENOMEM, m)
          else Some (insert_at m key cls)
        else (case buf_map_grow have_new m of
                None \<Rightarrow> None
              | Some None \<Rightarrow> Some (Inl ENOMEM, m)
              | Some (Some m') \<Rightarrow> Some (insert_at m' key cls))
      else Some (insert_at m key cls))"

text \<open>The search of a removal.\<close>

fun find_probe :: "buf_map_entry list \<Rightarrow> nat \<Rightarrow> u64 \<Rightarrow> nat \<Rightarrow> nat \<Rightarrow> nat option" where
  "find_probe es msk key idx 0 = None"
| "find_probe es msk key idx (Suc n) =
     (if me_key (es ! idx) = 0 then None
      else if me_key (es ! idx) = key then Some idx
      else find_probe es msk key (idx_next msk idx) n)"

text \<open>The backward shift: the table and the final hole.\<close>

fun back_shift :: "buf_map_entry list \<Rightarrow> nat \<Rightarrow> nat \<Rightarrow> nat \<Rightarrow> nat \<Rightarrow> buf_map_entry list \<times> nat" where
  "back_shift es msk hole nxt 0 = (es, hole)"
| "back_shift es msk hole nxt (Suc n) =
     (if me_key (es ! nxt) = 0 then (es, hole)
      else let natural = buf_map_hash (me_key (es ! nxt)) msk
           in if circ_dist msk hole natural \<le> circ_dist msk nxt natural
              then back_shift (es[hole := es ! nxt]) msk nxt (idx_next msk nxt) n
              else back_shift es msk hole (idx_next msk nxt) n)"

definition buf_size_map_remove :: "buf_size_map \<Rightarrow> u64 \<Rightarrow> int \<times> buf_size_map" where
  "buf_size_map_remove m key =
     (let msk = capacity m - 1
      in case find_probe (entries m) msk key (buf_map_hash key msk) (capacity m) of
           None \<Rightarrow> (-1, m)
         | Some idx \<Rightarrow>
             let class_idx = int (unat (me_class (entries m ! idx)));
                 (es, hole) = back_shift (entries m) msk idx (idx_next msk idx) (capacity m)
             in (class_idx, m\<lparr>entries := es[hole := (es ! hole)\<lparr>me_key := 0\<rparr>],
                                map_count := map_count m - 1\<rparr>))"

section \<open>Circular indices\<close>

text \<open>
  With \<open>z\<close> as the break point, slot \<open>pos N z o\<close> is the one at offset \<open>o\<close> after \<open>z\<close>, and
  \<open>off N z\<close> is its inverse; \<open>z\<close> itself has the last offset.
\<close>

definition pos :: "nat \<Rightarrow> nat \<Rightarrow> nat \<Rightarrow> nat" where
  "pos N z x = (z + 1 + x) mod N"

definition off :: "nat \<Rightarrow> nat \<Rightarrow> nat \<Rightarrow> nat" where
  "off N z x = (x + (N - 1 - z)) mod N"

lemma pos_less [simp]: "0 < N \<Longrightarrow> pos N z x < N" by (simp add: pos_def)

lemma off_less [simp]: "0 < N \<Longrightarrow> off N z x < N" by (simp add: off_def)

lemma off_pos [simp]: "z < N \<Longrightarrow> x < N \<Longrightarrow> off N z (pos N z x) = x"
proof -
  assume "z < N" "x < N"
  have "off N z (pos N z x) = (z + 1 + x + (N - 1 - z)) mod N"
    unfolding off_def pos_def by (rule mod_add_left_eq)
  also have "z + 1 + x + (N - 1 - z) = x + N" using \<open>z < N\<close> by simp
  finally show ?thesis using \<open>x < N\<close> by simp
qed

lemma pos_off [simp]: "z < N \<Longrightarrow> x < N \<Longrightarrow> pos N z (off N z x) = x"
proof -
  assume "z < N" "x < N"
  have "pos N z (off N z x) = (z + 1 + (x + (N - 1 - z))) mod N"
    unfolding off_def pos_def by (rule mod_add_right_eq)
  also have "z + 1 + (x + (N - 1 - z)) = x + N" using \<open>z < N\<close> by simp
  finally show ?thesis using \<open>x < N\<close> by simp
qed

lemma pos_inj: "z < N \<Longrightarrow> x < N \<Longrightarrow> y < N \<Longrightarrow> pos N z x = pos N z y \<longleftrightarrow> x = y"
  by (metis off_pos)

lemma pos_last: "z < N \<Longrightarrow> pos N z (N - 1) = z"
  by (simp add: pos_def)

lemma off_last: "z < N \<Longrightarrow> off N z z = N - 1"
  by (simp add: off_def)

lemma pos_Suc: "pos N z (Suc x) = (pos N z x + 1) mod N"
  by (simp add: pos_def mod_Suc_eq)

lemma pos_N: "pos N z N = pos N z 0"
  unfolding pos_def by (simp only: mod_add_self2 add_0_right)

text \<open>The break point moved from \<open>z\<close> to \<open>y\<close>.\<close>

lemma off_rebase:
  assumes "z < N" "y < N" "x < N"
  shows "off N y x = (if off N z y < off N z x then off N z x - off N z y - 1
                      else off N z x + N - off N z y - 1)"
proof -
  let ?c = "off N z y" and ?a = "off N z x"
  have c: "?c < N" "?a < N" using assms by auto
  have x: "x = (z + 1 + ?a) mod N" and y: "y = (z + 1 + ?c) mod N"
    using assms pos_off[of z N x] pos_off[of z N y] by (simp_all add: pos_def)
  have "off N y x = (x + (N - 1 - y)) mod N" by (simp add: off_def)
  moreover have "int (x + (N - 1 - y)) = int x + int N - 1 - int y" using assms by (simp add: of_nat_diff)
  ultimately have "int (off N y x) = (int x + int N - 1 - int y) mod int N" by (simp only: zmod_int)
  also have "\<dots> = (int x - int y - 1) mod int N"
    using mod_add_self2[of "int x - int y - 1" "int N"] by (simp add: algebra_simps)
  also have "\<dots> = (int (z + 1 + ?a) - int (z + 1 + ?c) - 1) mod int N"
  proof -
    have "int x = int (z + 1 + ?a) mod int N" "int y = int (z + 1 + ?c) mod int N"
      using x y by (metis zmod_int)+
    then have "(int x - int y) mod int N = (int (z + 1 + ?a) - int (z + 1 + ?c)) mod int N"
      by (simp only: mod_diff_eq)
    then show ?thesis by (metis mod_diff_left_eq)
  qed
  also have "\<dots> = (int ?a - int ?c - 1) mod int N" by simp
  also have "\<dots> = int (if ?c < ?a then ?a - ?c - 1 else ?a + N - ?c - 1)"
  proof (cases "?c < ?a")
    case True
    then show ?thesis using c by (simp add: of_nat_diff)
  next
    case False
    have "(int ?a - int ?c - 1) mod int N = (int ?a - int ?c - 1 + int N) mod int N" by simp
    also have "\<dots> = int ?a - int ?c - 1 + int N" using False c by (intro mod_pos_pos_trivial) linarith+
    finally have e: "(int ?a - int ?c - 1) mod int N = int ?a - int ?c - 1 + int N" .
    have "?c + 1 \<le> ?a + N" using c(1) by linarith
    then have "int (?a + N - ?c - 1) = int ?a - int ?c - 1 + int N" by linarith
    with e show ?thesis by (simp only: False if_False)
  qed
  finally show ?thesis by (simp only: of_nat_eq_iff)
qed

section \<open>Word-level index arithmetic\<close>

lemma and_mask_mod: "x AND (2 ^ k - 1) = x mod (2 ^ k :: nat)"
  by (metis mask_eq_exp_minus_1 take_bit_eq_mask take_bit_eq_mod)

lemma idx_next_mod: "idx_next (2 ^ k - 1) x = (x + 1) mod 2 ^ k"
  unfolding idx_next_def by (rule and_mask_mod)

lemma buf_map_hash_less:
  assumes "k \<le> 64" shows "buf_map_hash key (2 ^ k - 1) < 2 ^ k"
proof -
  have "unat (x AND of_nat (2 ^ k - 1)) < 2 ^ k" for x :: u64
  proof -
    have "of_nat (2 ^ k - 1) = (mask k :: u64)" by (simp add: mask_eq_exp_minus_1)
    then have "unat (x AND of_nat (2 ^ k - 1)) = take_bit k (unat x)"
      by (simp add: take_bit_eq_mask[symmetric] unsigned_take_bit_eq)
    then show ?thesis by simp
  qed
  then show ?thesis by (simp add: buf_map_hash_def Let_def)
qed

lemma circ_dist_mod:
  assumes "k \<le> 64" "a < 2 ^ k" "b < 2 ^ k"
  shows "circ_dist (2 ^ k - 1) a b = nat ((int a - int b) mod 2 ^ k)"
proof -
  have "int (circ_dist (2 ^ k - 1) a b) = ((int a - int b) mod 2 ^ 64) mod 2 ^ k"
    unfolding circ_dist_def and_mask_mod by (simp add: zmod_int)
  also have "\<dots> = (int a - int b) mod 2 ^ k"
    using assms(1) by (intro mod_mod_cancel le_imp_power_dvd)
  finally show ?thesis by simp
qed

lemma circ_dist_pos:
  assumes "k \<le> 64" "N = 2 ^ k" "z < N" "x < N" "y < N"
  shows "circ_dist (N - 1) (pos N z x) (pos N z y) = (if y \<le> x then x - y else x + N - y)"
proof -
  have N: "0 < N" using assms by auto
  have "circ_dist (N - 1) (pos N z x) (pos N z y) = nat ((int (pos N z x) - int (pos N z y)) mod int N)"
    using circ_dist_mod[of k "pos N z x" "pos N z y"] assms N by simp
  also have "(int (pos N z x) - int (pos N z y)) mod int N = (int x - int y) mod int N"
    by (simp add: pos_def zmod_int mod_diff_eq)
  also have "\<dots> = int (if y \<le> x then x - y else x + N - y)"
  proof (cases "y \<le> x")
    case True
    then have "(int x - int y) mod int N = int x - int y"
      using assms(4) by (intro mod_pos_pos_trivial) auto
    then show ?thesis using True by (simp add: of_nat_diff)
  next
    case False
    have "(int x - int y) mod int N = (int x - int y + int N) mod int N" by simp
    also have "\<dots> = int x - int y + int N" using False assms(3-5) by (intro mod_pos_pos_trivial) linarith+
    finally show ?thesis using False assms(3-5) by (simp add: of_nat_diff)
  qed
  finally show ?thesis by simp
qed

section \<open>Tables as multisets of entries\<close>

definition content :: "buf_map_entry list \<Rightarrow> buf_map_entry multiset" where
  "content es = filter_mset (\<lambda>e. me_key e \<noteq> 0) (mset es)"

lemma content_empty: "content (replicate n empty_entry) = {#}"
  by (simp add: content_def empty_entry_def)

lemma content_mem: "e \<in># content es \<longleftrightarrow> (\<exists>i < length es. es ! i = e \<and> me_key e \<noteq> 0)"
  by (auto simp: content_def in_set_conv_nth)

lemma content_update:
  assumes "i < length es"
  shows "content (es[i := v]) = content es - (if me_key (es ! i) \<noteq> 0 then {#es ! i#} else {#}) +
    (if me_key v \<noteq> 0 then {#v#} else {#})"
proof -
  have "es ! i \<in># mset es" using assms by simp
  then obtain M where M: "mset es = add_mset (es ! i) M" by (metis insert_DiffM)
  then show ?thesis using assms by (simp add: content_def mset_update)
qed

definition keys_distinct :: "buf_map_entry multiset \<Rightarrow> bool" where
  "keys_distinct M \<longleftrightarrow> (\<forall>key. count (image_mset me_key M) key \<le> 1)"

lemma keys_distinct_nth:
  assumes "keys_distinct (content es)" "i < length es" "j < length es" "i \<noteq> j" "me_key (es ! i) \<noteq> 0"
  shows "me_key (es ! i) \<noteq> me_key (es ! j)"
proof
  assume eq: "me_key (es ! i) = me_key (es ! j)"
  have "es ! i \<in># content es" using assms by (auto simp: content_mem)
  moreover have "content (es[j := empty_entry]) = content es - {#es ! j#}"
    using content_update[OF assms(3), of empty_entry] assms(5) eq by (simp add: empty_entry_def)
  moreover have "es ! i \<in># content (es[j := empty_entry])"
    using assms by (auto simp: content_mem intro!: exI[of _ i])
  moreover have "es ! j \<in># content es" using assms eq by (auto simp: content_mem)
  ultimately obtain M where "content es = add_mset (es ! i) (add_mset (es ! j) M)"
    by (metis insert_DiffM add_mset_commute)
  then have "count (image_mset me_key (content es)) (me_key (es ! i)) \<ge> 2" using eq by simp
  then show False using assms(1) by (auto simp: keys_distinct_def dest: spec[of _ "me_key (es ! i)"])
qed

section \<open>The probe invariant\<close>

definition kv :: "nat \<Rightarrow> buf_map_entry list \<Rightarrow> nat \<Rightarrow> u64" where
  "kv z es x = me_key (es ! pos (length es) z x)"

definition home :: "nat \<Rightarrow> nat \<Rightarrow> u64 \<Rightarrow> nat" where
  "home N z key = off N z (buf_map_hash key (N - 1))"

text \<open>
  Seen from the break point \<open>z\<close>, no entry lies before its home slot and every slot from its
  home up to it is occupied.
\<close>

definition lin :: "nat \<Rightarrow> buf_map_entry list \<Rightarrow> bool" where
  "lin z es \<longleftrightarrow> (\<forall>x < length es. kv z es x \<noteq> 0 \<longrightarrow>
     home (length es) z (kv z es x) \<le> x \<and>
     (\<forall>j. home (length es) z (kv z es x) \<le> j \<and> j < x \<longrightarrow> kv z es j \<noteq> 0))"

definition tab :: "nat \<Rightarrow> buf_map_entry list \<Rightarrow> bool" where
  "tab k es \<longleftrightarrow> length es = 2 ^ k \<and> k \<le> 64"

lemma tab_pos: "tab k es \<Longrightarrow> 0 < length es" by (simp add: tab_def)

lemma tab_hash: "tab k es \<Longrightarrow> buf_map_hash key (length es - 1) < length es"
  using buf_map_hash_less[of k key] by (simp add: tab_def)

lemma home_less: "tab k es \<Longrightarrow> home (length es) z key < length es"
  unfolding home_def by (rule off_less[OF tab_pos])

lemma pos_home: "tab k es \<Longrightarrow> z < length es \<Longrightarrow>
    pos (length es) z (home (length es) z key) = buf_map_hash key (length es - 1)"
  unfolding home_def by (rule pos_off[OF _ tab_hash])

lemma idx_next_pos: "tab k es \<Longrightarrow> idx_next (length es - 1) (pos (length es) z x) = pos (length es) z (Suc x)"
  using idx_next_mod[of k] by (simp add: tab_def pos_Suc)

lemma kv_update:
  assumes "z < length es" "x < length es" "y < length es"
  shows "kv z (es[pos (length es) z x := v]) y = (if y = x then me_key v else kv z es y)"
proof -
  have "pos (length es) z x < length es" using assms by (intro pos_less) linarith
  then show ?thesis using assms pos_inj[of z "length es" x y] by (auto simp: kv_def nth_list_update)
qed

lemma kv_off: "z < length es \<Longrightarrow> i < length es \<Longrightarrow> kv z es (off (length es) z i) = me_key (es ! i)"
  by (simp add: kv_def)

lemma lin_empty: "lin z (replicate n empty_entry)"
proof -
  have "kv z (replicate n empty_entry) x = 0" if "x < n" for x
    using that pos_less[of n z x] by (simp add: kv_def empty_entry_def del: pos_less)
  then show ?thesis by (simp add: lin_def)
qed

lemma linD:
  assumes "lin z es" "x < length es" "kv z es x \<noteq> 0"
  shows "home (length es) z (kv z es x) \<le> x"
    "home (length es) z (kv z es x) \<le> j \<Longrightarrow> j < x \<Longrightarrow> kv z es j \<noteq> 0"
  using assms by (auto simp: lin_def)

lemma lin_rebase:
  assumes t: "tab k es" and z: "z < length es" and l: "lin z es" and y: "y < length es"
    and e: "me_key (es ! y) = 0"
  shows "lin y es"
  unfolding lin_def
proof (intro allI impI)
  fix x assume x: "x < length es" "kv y es x \<noteq> 0"
  let ?N = "length es"
  define X where "X = pos ?N y x"
  define H where "H = buf_map_hash (kv y es x) (?N - 1)"
  define ox a c where "ox = off ?N z X" and "a = off ?N z H" and "c = off ?N z y"
  have b: "X < ?N" "H < ?N" "ox < ?N" "a < ?N" "c < ?N"
    using t tab_hash[OF t] tab_pos[OF t] by (auto simp: X_def H_def ox_def a_def c_def)
  have key: "kv z es ox = kv y es x" using b(1) z by (simp add: ox_def kv_off) (simp add: X_def kv_def)
  have lx: "a \<le> ox" "\<And>j. a \<le> j \<Longrightarrow> j < ox \<Longrightarrow> kv z es j \<noteq> 0"
    using linD[OF l b(3)] key x(2) by (auto simp: home_def a_def H_def)
  have kc: "kv z es c = 0" using e z y by (simp add: c_def kv_off)
  then have c: "c < a \<or> ox < c" using lx key x(2) by (metis leI le_neq_implies_less)
  have ex: "x = (if c < ox then ox - c - 1 else ox + ?N - c - 1)"
  proof -
    have "off ?N y X = x" unfolding X_def by (rule off_pos[OF y x(1)])
    then show ?thesis using off_rebase[OF z y b(1)] unfolding ox_def c_def by simp
  qed
  have eh: "home ?N y (kv y es x) = (if c < a then a - c - 1 else a + ?N - c - 1)"
    using off_rebase[OF z y b(2)] by (simp add: home_def H_def a_def c_def)
  have hx: "home ?N y (kv y es x) \<le> x" unfolding eh using c lx(1) ex b by auto
  moreover have "kv y es j \<noteq> 0" if j: "home ?N y (kv y es x) \<le> j" "j < x" for j
  proof -
    define j' where "j' = off ?N z (pos ?N y j)"
    have jN: "j < ?N" using j x by simp
    have j'N: "j' < ?N" unfolding j'_def by (rule off_less[OF tab_pos[OF t]])
    have ej: "j = (if c < j' then j' - c - 1 else j' + ?N - c - 1)"
    proof -
      have "off ?N y (pos ?N y j) = j" by (rule off_pos[OF y jN])
      moreover have "pos ?N y j < ?N" using tab_pos[OF t] by simp
      ultimately show ?thesis using off_rebase[OF z y] unfolding j'_def c_def by metis
    qed
    have "a \<le> j'" "j' < ox" using j(1)[unfolded eh] j(2)[unfolded ex] ej c b j'N lx(1)
      by (auto split: if_splits)
    then have "kv z es j' \<noteq> 0" using lx(2) by blast
    moreover have "kv z es j' = kv y es j"
      using kv_off[OF z, of "pos ?N y j"] y jN tab_pos[OF t] by (simp add: j'_def kv_def)
    ultimately show ?thesis by simp
  qed
  ultimately show "home ?N y (kv y es x) \<le> x \<and>
      (\<forall>j. home ?N y (kv y es x) \<le> j \<and> j < x \<longrightarrow> kv y es j \<noteq> 0)" by blast
qed

section \<open>Probing\<close>

lemma find_probe_sound: "find_probe es msk key i n = Some j \<Longrightarrow> me_key (es ! j) = key \<and> key \<noteq> 0"
  by (induction n arbitrary: i) (auto split: if_splits)

lemma find_probe_reach:
  assumes "tab k es" "j \<le> x" "kv z es x = key" "key \<noteq> 0"
    "\<And>i. j \<le> i \<Longrightarrow> i < x \<Longrightarrow> kv z es i \<noteq> 0 \<and> kv z es i \<noteq> key" "x - j < n"
  shows "find_probe es (length es - 1) key (pos (length es) z j) n = Some (pos (length es) z x)"
  using assms(2,5,6)
proof (induction n arbitrary: j)
  case (Suc n)
  show ?case
  proof (cases "j = x")
    case True
    then show ?thesis using assms(3,4) by (simp add: kv_def)
  next
    case False
    then have "kv z es j \<noteq> 0" "kv z es j \<noteq> key" using Suc.prems by auto
    moreover have "find_probe es (length es - 1) key (pos (length es) z (Suc j)) n =
        Some (pos (length es) z x)"
      using Suc.prems False by (intro Suc.IH) auto
    ultimately show ?thesis using idx_next_pos[OF assms(1), of z j] by (simp add: kv_def)
  qed
qed simp

lemma insert_probe_reach:
  assumes "tab k es" "j \<le> x" "kv z es x = 0 \<or> kv z es x = key"
    "\<And>i. j \<le> i \<Longrightarrow> i < x \<Longrightarrow> kv z es i \<noteq> 0 \<and> kv z es i \<noteq> key" "x - j \<le> n"
  shows "insert_probe es (length es - 1) key (pos (length es) z j) n = pos (length es) z x"
  using assms(2,4,5)
proof (induction n arbitrary: j)
  case (Suc n)
  show ?case
  proof (cases "j = x")
    case True
    then show ?thesis using assms(3) by (auto simp: kv_def)
  next
    case False
    then have "kv z es j \<noteq> 0" "kv z es j \<noteq> key" using Suc.prems by auto
    moreover have "insert_probe es (length es - 1) key (pos (length es) z (Suc j)) n = pos (length es) z x"
      using Suc.prems False by (intro Suc.IH) auto
    ultimately show ?thesis using idx_next_pos[OF assms(1), of z j] by (simp add: kv_def)
  qed
qed simp

lemma probe_empty_reach:
  assumes "tab k es" "j \<le> x" "kv z es x = 0" "\<And>i. j \<le> i \<Longrightarrow> i < x \<Longrightarrow> kv z es i \<noteq> 0" "x - j < n"
  shows "probe_empty es (length es - 1) (pos (length es) z j) n = Some (pos (length es) z x)"
  using assms(2,4,5)
proof (induction n arbitrary: j)
  case (Suc n)
  show ?case
  proof (cases "j = x")
    case True
    then show ?thesis using assms(3) by (simp add: kv_def)
  next
    case False
    then have "kv z es j \<noteq> 0" using Suc.prems by auto
    moreover have "probe_empty es (length es - 1) (pos (length es) z (Suc j)) n = Some (pos (length es) z x)"
      using Suc.prems False by (intro Suc.IH) auto
    ultimately show ?thesis using idx_next_pos[OF assms(1), of z j] by (simp add: kv_def)
  qed
qed simp

text \<open>The first empty slot from the home of a key, when the break point is empty.\<close>

lemma first_empty:
  assumes "tab k es" "z < length es" "me_key (es ! z) = 0"
  obtains x where "home (length es) z key \<le> x" "x < length es" "kv z es x = 0"
    "\<And>i. home (length es) z key \<le> i \<Longrightarrow> i < x \<Longrightarrow> kv z es i \<noteq> 0"
proof -
  let ?P = "\<lambda>x. home (length es) z key \<le> x \<and> kv z es x = 0"
  have "?P (length es - 1)"
    using assms home_less[OF assms(1), of z key] pos_last[OF assms(2)] by (simp add: kv_def)
  then have m: "?P (Least ?P)" "Least ?P \<le> length es - 1"
    using LeastI[of ?P] Least_le[of ?P] by blast+
  have "kv z es i \<noteq> 0" if "home (length es) z key \<le> i" "i < Least ?P" for i
    using not_less_Least[OF that(2)] that(1) by blast
  then show thesis using that[of "Least ?P"] m tab_pos[OF assms(1)] by (simp add: less_eq_Suc_le)
qed

lemma lin_put:
  assumes "tab k es" "z < length es" "lin z es" "x < length es" "kv z es x = 0"
    "home (length es) z (me_key v) \<le> x" "me_key v \<noteq> 0"
    "\<And>i. home (length es) z (me_key v) \<le> i \<Longrightarrow> i < x \<Longrightarrow> kv z es i \<noteq> 0"
  shows "lin z (es[pos (length es) z x := v])"
proof -
  note u = kv_update[OF assms(2,4), of _ v]
  show ?thesis unfolding lin_def length_list_update
  proof (intro allI impI conjI)
    fix y assume y: "y < length es" "kv z (es[pos (length es) z x := v]) y \<noteq> 0"
    show "home (length es) z (kv z (es[pos (length es) z x := v]) y) \<le> y"
      using y assms(6) linD(1)[OF assms(3), of y] by (auto simp: u split: if_splits)
    fix j assume j: "home (length es) z (kv z (es[pos (length es) z x := v]) y) \<le> j \<and> j < y"
    then show "kv z (es[pos (length es) z x := v]) j \<noteq> 0"
      using y assms(7,8) linD(2)[OF assms(3), of y j] by (auto simp: u split: if_splits)
  qed
qed

section \<open>Deletion by backward shift\<close>

definition clear_slot :: "nat \<Rightarrow> buf_map_entry list \<Rightarrow> buf_map_entry list" where
  "clear_slot i es = es[i := (es ! i)\<lparr>me_key := 0\<rparr>]"

lemma content_clear:
  "i < length es \<Longrightarrow> me_key (es ! i) \<noteq> 0 \<Longrightarrow> content (clear_slot i es) = content es - {#es ! i#}"
  by (simp add: clear_slot_def content_update)

lemma circ_dist_home:
  assumes "tab k es" "z < length es" "x < length es"
  shows "circ_dist (length es - 1) (pos (length es) z x) (buf_map_hash key (length es - 1)) =
    (if home (length es) z key \<le> x then x - home (length es) z key
     else x + length es - home (length es) z key)"
  using circ_dist_pos[of k "length es" z x "home (length es) z key"] assms home_less[OF assms(1), of z key]
    pos_home[OF assms(1,2), of key] by (simp add: tab_def)

lemma back_shift_wrapped:
  assumes "tab k es" "z < length es" "p < length es"
    "\<And>x. x < p \<Longrightarrow> kv z es x \<noteq> 0 \<Longrightarrow> home (length es) z (kv z es x) \<le> x"
  shows "q \<le> p \<Longrightarrow> n \<le> p - q + 1 \<Longrightarrow>
    back_shift es (length es - 1) (pos (length es) z p) (pos (length es) z q) n = (es, pos (length es) z p)"
proof (induction n arbitrary: q)
  case (Suc n)
  let ?N = "length es" and ?h = "buf_map_hash (kv z es q) (length es - 1)"
  show ?case
  proof (cases "kv z es q = 0")
    case True
    then show ?thesis by (simp add: kv_def)
  next
    case False
    show ?thesis
    proof (cases "q = p")
      case True
      then show ?thesis using Suc.prems by (simp add: Let_def)
    next
      case qp: False
      then have "q < p" using Suc.prems by simp
      then have "home ?N z (kv z es q) \<le> q" using assms(4) False by simp
      then have "\<not> circ_dist (?N - 1) (pos ?N z p) ?h \<le> circ_dist (?N - 1) (pos ?N z q) ?h"
        using circ_dist_home[OF assms(1,2), of _ "kv z es q"] assms(3) \<open>q < p\<close> by simp
      moreover have "back_shift es (?N - 1) (pos ?N z p) (pos ?N z (Suc q)) n = (es, pos ?N z p)"
        using \<open>q < p\<close> Suc.prems by (intro Suc.IH) auto
      ultimately show ?thesis using False idx_next_pos[OF assms(1), of z q] by (simp add: kv_def Let_def)
    qed
  qed
qed simp

text \<open>
  The loop invariant: the hole \<open>p\<close> still holds a stale entry, every other entry is reachable
  through occupied slots (the hole counted), and the entries between the hole and the scan
  position \<open>q\<close> have their home after the hole.
\<close>

definition shifting :: "nat \<Rightarrow> buf_map_entry list \<Rightarrow> nat \<Rightarrow> nat \<Rightarrow> bool" where
  "shifting z es p q \<longleftrightarrow> p < length es \<and> kv z es p \<noteq> 0 \<and>
     (\<forall>x < length es. x \<noteq> p \<longrightarrow> kv z es x \<noteq> 0 \<longrightarrow>
        home (length es) z (kv z es x) \<le> x \<and>
        (\<forall>j. home (length es) z (kv z es x) \<le> j \<and> j < x \<longrightarrow> kv z es j \<noteq> 0)) \<and>
     (\<forall>x. p < x \<and> x < q \<longrightarrow> kv z es x \<noteq> 0 \<and> p < home (length es) z (kv z es x))"

lemma shifting_done:
  assumes "z < length es" "shifting z es p q" "p < q" "q = length es \<or> q < length es \<and> kv z es q = 0"
  shows "lin z (clear_slot (pos (length es) z p) es)"
proof -
  let ?N = "length es" and ?es = "clear_slot (pos (length es) z p) es"
  have p: "p < ?N" using assms(2) by (simp add: shifting_def)
  have len: "length ?es = ?N" by (simp add: clear_slot_def)
  have u: "kv z ?es y = (if y = p then 0 else kv z es y)" if "y < ?N" for y
    unfolding clear_slot_def using kv_update[OF assms(1) p that] by simp
  show ?thesis unfolding lin_def len
  proof (intro allI impI)
    fix x assume x: "x < ?N" "kv z ?es x \<noteq> 0"
    then have kx: "x \<noteq> p" "kv z ?es x = kv z es x" "kv z es x \<noteq> 0" by (auto simp: u split: if_splits)
    have hx: "home ?N z (kv z es x) \<le> x"
      "\<And>j. home ?N z (kv z es x) \<le> j \<Longrightarrow> j < x \<Longrightarrow> kv z es j \<noteq> 0"
      using assms(2) x(1) kx by (auto simp: shifting_def)
    have "p < home ?N z (kv z es x)" if "p < x"
    proof (cases "x < q")
      case True
      then show ?thesis using assms(2) that by (auto simp: shifting_def)
    next
      case False
      then have "kv z es q = 0" using assms(4) x(1) by auto
      moreover from this have "q < x" using False kx(3) by (cases "x = q") auto
      ultimately
      show ?thesis using hx(2)[of q] assms(3) by (metis not_le_imp_less less_imp_le le_trans)
    qed
    then show "home ?N z (kv z ?es x) \<le> x \<and>
        (\<forall>j. home ?N z (kv z ?es x) \<le> j \<and> j < x \<longrightarrow> kv z ?es j \<noteq> 0)"
      using hx kx x(1) by (auto simp: u)
  qed
qed

lemma shifting_move:
  assumes "z < length es" "shifting z es p q" "p < q" "q < length es" "kv z es q \<noteq> 0"
    "home (length es) z (kv z es q) \<le> p"
  shows "shifting z (es[pos (length es) z p := es ! pos (length es) z q]) q (Suc q)"
proof -
  let ?N = "length es"
  have p: "p < ?N" "kv z es p \<noteq> 0" using assms(2) by (auto simp: shifting_def)
  have inv: "\<And>x. x < ?N \<Longrightarrow> x \<noteq> p \<Longrightarrow> kv z es x \<noteq> 0 \<Longrightarrow> home ?N z (kv z es x) \<le> x"
    "\<And>x j. x < ?N \<Longrightarrow> x \<noteq> p \<Longrightarrow> kv z es x \<noteq> 0 \<Longrightarrow> home ?N z (kv z es x) \<le> j \<Longrightarrow> j < x \<Longrightarrow> kv z es j \<noteq> 0"
    using assms(2) by (auto simp: shifting_def)
  let ?es = "es[pos ?N z p := es ! pos ?N z q]"
  have u: "kv z ?es y = (if y = p then kv z es q else kv z es y)" if "y < ?N" for y
    using kv_update[OF assms(1) p(1) that, of "es ! pos ?N z q"] by (simp add: kv_def)
  have occ: "kv z ?es j \<noteq> 0" if "j < ?N" "kv z es j \<noteq> 0" for j using that assms(5) by (simp add: u)
  show ?thesis unfolding shifting_def length_list_update
  proof (intro conjI allI impI)
    show "kv z ?es q \<noteq> 0" using assms(4,5) occ by blast
    fix x assume x: "x < ?N" "x \<noteq> q" "kv z ?es x \<noteq> 0"
    show "home ?N z (kv z ?es x) \<le> x"
      using x inv(1) assms(6) by (cases "x = p") (auto simp: u)
    fix j assume j: "home ?N z (kv z ?es x) \<le> j \<and> j < x"
    show "kv z ?es j \<noteq> 0"
    proof (cases "x = p")
      case True
      then have "kv z es j \<noteq> 0" using j x inv(2)[OF assms(4) _ assms(5), of j] assms(3) by (auto simp: u)
      then show ?thesis using j x(1) occ by simp
    next
      case False
      then have "kv z es j \<noteq> 0" using j x inv(2)[OF x(1) False] by (auto simp: u)
      then show ?thesis using j x(1) occ by simp
    qed
  qed (use assms(4) in auto)
qed

lemma content_shift:
  assumes "i < length es" "j < length es" "i \<noteq> j" "me_key (es ! i) \<noteq> 0" "me_key (es ! j) \<noteq> 0"
  shows "content (clear_slot j (es[i := es ! j])) = content (clear_slot i es)"
proof -
  have "content (clear_slot j (es[i := es ! j])) = content (es[i := es ! j]) - {#es ! j#}"
    using content_clear[of j "es[i := es ! j]"] assms by simp
  also have "content (es[i := es ! j]) = content es - {#es ! i#} + {#es ! j#}"
    using content_update[OF assms(1)] assms(4,5) by simp
  also have "content es - {#es ! i#} + {#es ! j#} - {#es ! j#} = content es - {#es ! i#}" by simp
  finally show ?thesis using content_clear[OF assms(1,4)] by simp
qed

declare back_shift.simps(2) [simp del]

lemma back_shift_correct:
  assumes "tab k es" "z < length es" "shifting z es p q" "p < q" "q \<le> length es" "a \<le> p"
    "back_shift es (length es - 1) (pos (length es) z p) (pos (length es) z q)
       (length es - q + a + 1) = (es', h)"
  shows "length es' = length es \<and> h < length es \<and> me_key (es' ! h) \<noteq> 0 \<and> lin z (clear_slot h es') \<and>
    content (clear_slot h es') = content (clear_slot (pos (length es) z p) es)"
  using assms
proof (induction "length es - q" arbitrary: es p q)
  case 0
  let ?N = "length es"
  have q: "q = ?N" using 0 by simp
  have p: "p < ?N" "kv z es p \<noteq> 0" using 0 by (auto simp: shifting_def)
  have "back_shift es (?N - 1) (pos ?N z p) (pos ?N z 0) (a + 1) = (es, pos ?N z p)"
    using 0(2,3,4,7) p by (intro back_shift_wrapped) (auto simp: shifting_def)
  moreover have "back_shift es (?N - 1) (pos ?N z p) (pos ?N z 0) (a + 1) = (es', h)"
    using 0(8) unfolding q pos_N by simp
  ultimately have "es' = es" "h = pos ?N z p" by (metis prod.inject)+
  then show ?case using shifting_done[OF 0(3,4,5)] q p tab_pos[OF 0(2)] by (simp add: kv_def)
next
  case (Suc d)
  let ?N = "length es" and ?h = "buf_map_hash (kv z es q) (length es - 1)"
  have q: "q < ?N" "?N - q + a + 1 = Suc (?N - Suc q + a + 1)" using Suc by auto
  have p: "p < ?N" "kv z es p \<noteq> 0" using Suc.prems(3) by (auto simp: shifting_def)
  note run = Suc.prems(7)[unfolded q(2) back_shift.simps, folded kv_def]
  show ?case
  proof (cases "kv z es q = 0")
    case True
    then have "es' = es" "h = pos ?N z p" using run by auto
    then show ?thesis
      using shifting_done[OF Suc.prems(2,3,4)] q True p tab_pos[OF Suc.prems(1)] by (simp add: kv_def)
  next
    case False
    have hq: "home ?N z (kv z es q) \<le> q" using Suc.prems(3,4) q False by (auto simp: shifting_def)
    have c: "circ_dist (?N - 1) (pos ?N z p) ?h \<le> circ_dist (?N - 1) (pos ?N z q) ?h \<longleftrightarrow>
        home ?N z (kv z es q) \<le> p"
      using circ_dist_home[OF Suc.prems(1,2) p(1), of "kv z es q"]
        circ_dist_home[OF Suc.prems(1,2) q(1), of "kv z es q"] hq Suc.prems(4) q(1)
      by (auto intro: diff_le_mono)
    note nx = idx_next_pos[OF Suc.prems(1), of z q]
    show ?thesis
    proof (cases "home ?N z (kv z es q) \<le> p")
      case True
      let ?es = "es[pos ?N z p := es ! pos ?N z q]"
      have r: "back_shift ?es (?N - 1) (pos ?N z q) (pos ?N z (Suc q)) (?N - Suc q + a + 1) = (es', h)"
        using run False c True nx by (simp add: Let_def)
      have "pos ?N z p \<noteq> pos ?N z q" using pos_inj[of z ?N p q] Suc.prems p q by auto
      then have "content (clear_slot (pos ?N z q) ?es) = content (clear_slot (pos ?N z p) es)"
        using content_shift[of "pos ?N z p" es "pos ?N z q"] p(2) False tab_pos[OF Suc.prems(1)]
        by (simp add: kv_def)
      moreover have "tab k ?es" using Suc.prems(1) by (simp add: tab_def)
      moreover have "d = length ?es - Suc q" using Suc.hyps(2) by simp
      ultimately show ?thesis
        using Suc.hyps(1)[of ?es "Suc q" q] shifting_move[OF Suc.prems(2,3,4) q(1) False True]
          Suc.prems(2,4,6) q(1) r by simp
    next
      case nm: False
      have r: "back_shift es (?N - 1) (pos ?N z p) (pos ?N z (Suc q)) (?N - Suc q + a + 1) = (es', h)"
        using run False c nm nx by (simp add: Let_def)
      have "shifting z es p (Suc q)"
        using Suc.prems(3) False nm unfolding shifting_def by (auto simp: less_Suc_eq)
      moreover have "d = length es - Suc q" using Suc.hyps(2) by simp
      ultimately show ?thesis
        using Suc.hyps(1)[of es "Suc q" p] Suc.prems(1,2,4,6) q(1) r by simp
    qed
  qed
qed

section \<open>Well-formed maps and the map they stand for\<close>

definition map_wf :: "buf_size_map \<Rightarrow> bool" where
  "map_wf m \<longleftrightarrow> length (entries m) = capacity m \<and> (\<exists>k \<le> 20. capacity m = 2 ^ k) \<and>
     map_count m = size (content (entries m)) \<and> keys_distinct (content (entries m)) \<and>
     (\<exists>z < capacity m. lin z (entries m))"

definition buf_map_abs :: "buf_size_map \<Rightarrow> u64 \<Rightarrow> u8 option" where
  "buf_map_abs m key =
     (if key = 0 then None else map_option me_class (find (\<lambda>e. me_key e = key) (entries m)))"

lemma map_wf_tab: "map_wf m \<Longrightarrow> \<exists>k. tab k (entries m)"
  by (auto simp: map_wf_def tab_def)

lemma distinct_content_key:
  assumes "keys_distinct M" "d \<in># M" "e \<in># M" "me_key d = me_key e"
  shows "d = e"
proof (rule ccontr)
  assume "d \<noteq> e"
  then obtain N where "M = add_mset d (add_mset e N)"
    using assms(2,3) by (metis insert_DiffM insert_noteq_member)
  then have "count (image_mset me_key M) (me_key e) \<ge> 2" using assms(4) by simp
  then show False using assms(1) by (auto simp: keys_distinct_def dest: spec[of _ "me_key e"])
qed

lemma keys_distinct_add:
  "keys_distinct (add_mset e M) \<longleftrightarrow> keys_distinct M \<and> (\<forall>d \<in># M. me_key d \<noteq> me_key e)"
proof
  assume a: "keys_distinct (add_mset e M)"
  have "me_key d \<noteq> me_key e" if d: "d \<in># M" for d
  proof
    assume eq: "me_key d = me_key e"
    obtain N where "M = add_mset d N" using multi_member_split[OF d] by blast
    then have "count (image_mset me_key (add_mset e M)) (me_key e) \<ge> 2" using eq by simp
    moreover have "count (image_mset me_key (add_mset e M)) (me_key e) \<le> 1"
      using a unfolding keys_distinct_def by blast
    ultimately show False by linarith
  qed
  moreover have "keys_distinct M" unfolding keys_distinct_def
  proof
    fix key
    have "count (image_mset me_key M) key \<le> count (image_mset me_key (add_mset e M)) key" by simp
    also have "\<dots> \<le> 1" using a unfolding keys_distinct_def by blast
    finally show "count (image_mset me_key M) key \<le> 1" .
  qed
  ultimately show "keys_distinct M \<and> (\<forall>d \<in># M. me_key d \<noteq> me_key e)" by blast
next
  assume a: "keys_distinct M \<and> (\<forall>d \<in># M. me_key d \<noteq> me_key e)"
  then have "me_key e \<notin># image_mset me_key M" by auto
  then have "count (image_mset me_key M) (me_key e) = 0" by (simp only: not_in_iff)
  then show "keys_distinct (add_mset e M)" using a by (auto simp: keys_distinct_def)
qed

lemma buf_map_abs_iff:
  assumes "keys_distinct (content (entries m))"
  shows "buf_map_abs m key = Some c \<longleftrightarrow> key \<noteq> 0 \<and> \<lparr>me_key = key, me_class = c\<rparr> \<in># content (entries m)"
proof (cases "find (\<lambda>e. me_key e = key) (entries m)")
  case None
  then have "\<forall>e \<in> set (entries m). me_key e \<noteq> key" by (auto simp: find_None_iff)
  then show ?thesis using None by (auto simp: buf_map_abs_def content_def)
next
  case (Some e)
  then have e: "e \<in> set (entries m)" "me_key e = key" by (auto simp: find_Some_iff)
  show ?thesis
  proof (cases "key = 0")
    case False
    then have em: "e \<in># content (entries m)" using e by (simp add: content_def)
    have "me_class e = c \<longleftrightarrow> \<lparr>me_key = key, me_class = c\<rparr> \<in># content (entries m)"
      using distinct_content_key[OF assms em, of "\<lparr>me_key = key, me_class = c\<rparr>"] em e(2)
      by (cases e) auto
    then show ?thesis using Some False by (simp add: buf_map_abs_def)
  qed (simp add: buf_map_abs_def)
qed

lemma buf_map_abs_none:
  "buf_map_abs m key = None \<longleftrightarrow> key = 0 \<or> (\<forall>i < length (entries m). me_key (entries m ! i) \<noteq> key)"
  by (auto simp: buf_map_abs_def find_None_iff in_set_conv_nth)

lemma buf_map_abs_eqI:
  assumes "keys_distinct (content (entries m))"
    "\<And>key c. key \<noteq> 0 \<Longrightarrow> f key = Some c \<longleftrightarrow> \<lparr>me_key = key, me_class = c\<rparr> \<in># content (entries m)" "f 0 = None"
  shows "buf_map_abs m = f"
proof
  fix key
  have "buf_map_abs m key = Some c \<longleftrightarrow> f key = Some c" for c
    using buf_map_abs_iff[OF assms(1), of key c] assms(2)[of key c] assms(3)
    by (cases "key = 0") auto
  then show "buf_map_abs m key = f key" by (cases "f key"; cases "buf_map_abs m key") auto
qed

lemma exists_empty_slot:
  assumes "size (content es) < length es"
  obtains y where "y < length es" "me_key (es ! y) = 0"
proof -
  have "\<exists>e \<in> set es. me_key e = 0"
  proof (rule ccontr)
    assume "\<not> ?thesis"
    then have "content es = mset es" by (auto simp: content_def filter_mset_eq_conv)
    then show False using assms by simp
  qed
  then show thesis using that by (auto simp: in_set_conv_nth)
qed

section \<open>Removal\<close>

lemma find_probe_hit:
  assumes t: "tab k es" "z < length es" "lin z es" "keys_distinct (content es)"
    and i: "i < length es" "me_key (es ! i) = key" "key \<noteq> 0"
  shows "find_probe es (length es - 1) key (buf_map_hash key (length es - 1)) (length es) = Some i"
proof -
  let ?N = "length es" and ?x = "off (length es) z i" and ?h = "home (length es) z key"
  have x: "?x < ?N" "kv z es ?x = key" using t i tab_pos[OF t(1)] by (simp_all add: kv_off)
  have h: "?h \<le> ?x" using linD(1)[OF t(3) x(1)] x(2) i(3) by simp
  have other: "kv z es j \<noteq> 0 \<and> kv z es j \<noteq> key" if "?h \<le> j" "j < ?x" for j
  proof -
    have "kv z es j \<noteq> 0" using linD(2)[OF t(3) x(1)] x(2) i(3) that by simp
    moreover have "pos ?N z j < ?N" using tab_pos[OF t(1)] by simp
    moreover have "pos ?N z j \<noteq> i" using off_pos[OF t(2), of j] that x(1) by auto
    ultimately show ?thesis using keys_distinct_nth[OF t(4), of "pos ?N z j" i] i by (auto simp: kv_def)
  qed
  have "find_probe es (?N - 1) key (pos ?N z ?h) ?N = Some (pos ?N z ?x)"
    using other x i(3) h by (intro find_probe_reach[OF t(1)]) auto
  then show ?thesis using pos_home[OF t(1,2), of key] i(1) t(2) by simp
qed

lemma shifting_start: "lin z es \<Longrightarrow> p < length es \<Longrightarrow> kv z es p \<noteq> 0 \<Longrightarrow> shifting z es p (Suc p)"
  by (auto simp: shifting_def lin_def)

lemma remove_hit:
  assumes w: "map_wf m" and a: "buf_map_abs m key = Some c" and r: "buf_size_map_remove m key = (res, m')"
  shows "res = int (unat c) \<and> map_wf m' \<and> buf_map_abs m' = (buf_map_abs m)(key := None)"
proof -
  let ?es = "entries m" and ?N = "length (entries m)"
  obtain k where t: "tab k ?es" using map_wf_tab[OF w] by blast
  have cap: "capacity m = ?N" and kd: "keys_distinct (content ?es)"
    using w by (auto simp: map_wf_def)
  obtain z where z: "z < ?N" "lin z ?es" using w by (auto simp: map_wf_def)
  let ?e = "\<lparr>me_key = key, me_class = c\<rparr>"
  have key: "key \<noteq> 0" "?e \<in># content ?es" using a buf_map_abs_iff[OF kd] by auto
  then obtain i where i: "i < ?N" "?es ! i = ?e" by (auto simp: content_mem)
  have f: "find_probe ?es (?N - 1) key (buf_map_hash key (?N - 1)) ?N = Some i"
    using find_probe_hit[OF t z kd i(1)] i(2) key by simp
  let ?p = "off ?N z i"
  have p: "?p < ?N" "kv z ?es ?p \<noteq> 0" "pos ?N z ?p = i"
    using i key z tab_pos[OF t] by (simp_all add: kv_off)
  obtain es' h where b: "back_shift ?es (?N - 1) i (idx_next (?N - 1) i) ?N = (es', h)" by fastforce
  have bs: "length es' = ?N" "h < ?N" "me_key (es' ! h) \<noteq> 0" "lin z (clear_slot h es')"
      "content (clear_slot h es') = content ?es - {#?e#}"
  proof -
    have "?N - Suc ?p + ?p + 1 = ?N" using p(1) by simp
    moreover have "back_shift ?es (?N - 1) (pos ?N z ?p) (pos ?N z (Suc ?p)) ?N = (es', h)"
      using b idx_next_pos[OF t, of z ?p] p(3) by simp
    ultimately have "back_shift ?es (?N - 1) (pos ?N z ?p) (pos ?N z (Suc ?p)) (?N - Suc ?p + ?p + 1) = (es', h)"
      by (simp only:)
    from back_shift_correct[OF t z(1) shifting_start[OF z(2) p(1,2)] _ _ _ this]
    show "length es' = ?N" "h < ?N" "me_key (es' ! h) \<noteq> 0" "lin z (clear_slot h es')"
      "content (clear_slot h es') = content ?es - {#?e#}"
      using p content_clear[of i ?es] i key by auto
  qed
  have m': "m' = m\<lparr>entries := clear_slot h es', map_count := map_count m - 1\<rparr>" "res = int (unat c)"
    using r f b cap i(2) by (auto simp: buf_size_map_remove_def clear_slot_def Let_def)
  define M where "M = content ?es - {#?e#}"
  have M: "content ?es = add_mset ?e M" using key(2) by (simp add: M_def)
  have kd': "keys_distinct M" "\<And>d. d \<in># M \<Longrightarrow> me_key d \<noteq> key"
    using kd unfolding M keys_distinct_add by auto
  have cm: "content (entries m') = M" using bs(5) m'(1) by (simp add: M_def)
  have wf': "map_wf m'"
    using w m' bs z kd' cm M by (auto simp: map_wf_def clear_slot_def)
  have "buf_map_abs m' = (buf_map_abs m)(key := None)"
  proof (rule buf_map_abs_eqI)
    show "keys_distinct (content (entries m'))" using kd' cm by simp
    fix q d assume q: "(q :: u64) \<noteq> 0"
    show "((buf_map_abs m)(key := None)) q = Some d \<longleftrightarrow>
        \<lparr>me_key = q, me_class = d\<rparr> \<in># content (entries m')"
      using buf_map_abs_iff[OF kd, of q d] q kd'(2)[of "\<lparr>me_key = q, me_class = d\<rparr>"] unfolding cm M
      by auto
  qed (simp add: buf_map_abs_def)
  then show ?thesis using m' wf' by simp
qed

lemma remove_miss:
  assumes "map_wf m" "buf_map_abs m key = None"
  shows "buf_size_map_remove m key = (-1, m)"
proof -
  obtain k where t: "tab k (entries m)" using map_wf_tab[OF assms(1)] by blast
  let ?f = "find_probe (entries m) (capacity m - 1) key (buf_map_hash key (capacity m - 1)) (capacity m)"
  have cap: "capacity m = length (entries m)" using assms(1) by (simp add: map_wf_def)
  have in_range: "find_probe (entries m) (length (entries m) - 1) key i n = Some j \<Longrightarrow>
      i < length (entries m) \<Longrightarrow> j < length (entries m)" for i j n
  proof (induction n arbitrary: i)
    case (Suc n)
    have "idx_next (length (entries m) - 1) i < length (entries m)"
      using t idx_next_mod[of k i] by (simp add: tab_def)
    then show ?case using Suc by (auto split: if_splits)
  qed simp
  have "?f = None"
  proof (rule ccontr)
    assume "?f \<noteq> None"
    then obtain j where j: "?f = Some j" by blast
    then have "j < length (entries m)" using in_range tab_hash[OF t] cap by auto
    then show False using find_probe_sound[OF j] assms(2) by (auto simp: buf_map_abs_none)
  qed
  then show ?thesis by (simp add: buf_size_map_remove_def Let_def)
qed

section \<open>Insertion\<close>

lemma insert_probe_new:
  assumes t: "tab k es" "z < length es" "lin z es" and s: "size (content es) < length es"
    and absent: "\<forall>i < length es. me_key (es ! i) \<noteq> key" and key: "key \<noteq> 0"
  obtains z' x where "z' < length es" "x < length es" "kv z' es x = 0"
    "insert_probe es (length es - 1) key (buf_map_hash key (length es - 1)) (length es) = pos (length es) z' x"
    "probe_empty es (length es - 1) (buf_map_hash key (length es - 1)) (length es) = Some (pos (length es) z' x)"
    "\<And>c. lin z' (es[pos (length es) z' x := \<lparr>me_key = key, me_class = c\<rparr>])"
proof -
  let ?N = "length es"
  obtain y where y: "y < ?N" "me_key (es ! y) = 0" using exists_empty_slot[OF s] .
  have l: "lin y es" by (rule lin_rebase[OF t y])
  obtain x where x: "home ?N y key \<le> x" "x < ?N" "kv y es x = 0"
      "\<And>i. home ?N y key \<le> i \<Longrightarrow> i < x \<Longrightarrow> kv y es i \<noteq> 0"
    using first_empty[OF t(1) y, of key] by blast
  have ne: "kv y es i \<noteq> key" for i using absent tab_pos[OF t(1)] by (simp add: kv_def)
  have "insert_probe es (?N - 1) key (pos ?N y (home ?N y key)) ?N = pos ?N y x"
    using x ne by (intro insert_probe_reach[OF t(1)]) auto
  moreover have "probe_empty es (?N - 1) (pos ?N y (home ?N y key)) ?N = Some (pos ?N y x)"
    using x by (intro probe_empty_reach[OF t(1)]) auto
  moreover have "lin y (es[pos ?N y x := \<lparr>me_key = key, me_class = c\<rparr>])" for c
    using x key by (intro lin_put[OF t(1) y(1) l]) auto
  ultimately show thesis using that[OF y(1) x(2,3)] pos_home[OF t(1) y(1), of key] by simp
qed

lemma insert_probe_present:
  assumes t: "tab k es" "z < length es" "lin z es" "keys_distinct (content es)"
    and i: "i < length es" "me_key (es ! i) = key" "key \<noteq> 0"
  shows "insert_probe es (length es - 1) key (buf_map_hash key (length es - 1)) (length es) = i"
proof -
  have "find_probe es msk key j n = Some i \<Longrightarrow> insert_probe es msk key j n = i" for msk j n
    by (induction n arbitrary: j) (auto split: if_splits)
  then show ?thesis using find_probe_hit[OF assms] by blast
qed

lemma content_put:
  assumes "i < length es" "me_key (es ! i) = 0" "me_key v \<noteq> 0"
  shows "content (es[i := v]) = add_mset v (content es)"
  using content_update[OF assms(1), of v] assms(2,3) by simp

lemma absent_content:
  "(\<forall>i < length es. me_key (es ! i) \<noteq> key) \<Longrightarrow> \<forall>d \<in># content es. me_key d \<noteq> key"
  by (auto simp: content_mem)

lemma insert_at_new:
  assumes w: "map_wf m" and room: "map_count m < capacity m" and key: "key \<noteq> 0"
    and a: "buf_map_abs m key = None"
  shows "\<exists>m'. insert_at m key c = (Inr (), m') \<and> map_wf m' \<and> buf_map_abs m' = (buf_map_abs m)(key \<mapsto> c)"
proof -
  let ?es = "entries m" and ?N = "length (entries m)" and ?v = "\<lparr>me_key = key, me_class = c\<rparr>"
  obtain k where t: "tab k ?es" using map_wf_tab[OF w] by blast
  have cap: "capacity m = ?N" and kd: "keys_distinct (content ?es)" and s: "size (content ?es) < ?N"
    using w room by (auto simp: map_wf_def)
  obtain z where z: "z < ?N" "lin z ?es" using w by (auto simp: map_wf_def)
  have absent: "\<forall>i < ?N. me_key (?es ! i) \<noteq> key" using a key by (auto simp: buf_map_abs_none)
  obtain z' x where x: "z' < ?N" "x < ?N" "kv z' ?es x = 0"
    "insert_probe ?es (?N - 1) key (buf_map_hash key (?N - 1)) ?N = pos ?N z' x"
    "\<And>c. lin z' (?es[pos ?N z' x := \<lparr>me_key = key, me_class = c\<rparr>])"
    using insert_probe_new[OF t z s absent key] by metis
  let ?p = "pos ?N z' x" and ?m = "m\<lparr>entries := ?es[pos ?N z' x := ?v], map_count := map_count m + 1\<rparr>"
  have p: "?p < ?N" "me_key (?es ! ?p) = 0" using x tab_pos[OF t] by (simp_all add: kv_def)
  have r: "insert_at m key c = (Inr (), ?m)"
    using x(4) cap p key by (simp add: insert_at_def Let_def)
  have cm: "content (entries ?m) = add_mset ?v (content ?es)" using content_put[OF p] key by simp
  have kd': "keys_distinct (content (entries ?m))"
    using kd absent_content[OF absent] unfolding cm keys_distinct_add by simp
  have wf: "map_wf ?m" using w kd' cm x(1,5) cap by (auto simp: map_wf_def)
  have "buf_map_abs ?m = (buf_map_abs m)(key \<mapsto> c)"
  proof (rule buf_map_abs_eqI[OF kd'])
    fix q d assume q: "(q :: u64) \<noteq> 0"
    show "((buf_map_abs m)(key \<mapsto> c)) q = Some d \<longleftrightarrow> \<lparr>me_key = q, me_class = d\<rparr> \<in># content (entries ?m)"
      using buf_map_abs_iff[OF kd, of q d] q absent_content[OF absent] unfolding cm by auto
  qed (use key in \<open>simp add: buf_map_abs_def\<close>)
  then show ?thesis using r wf by blast
qed

lemma insert_at_present:
  assumes w: "map_wf m" and a: "buf_map_abs m key = Some d"
  shows "\<exists>m'. insert_at m key c = (Inr (), m') \<and> map_wf m' \<and> buf_map_abs m' = (buf_map_abs m)(key \<mapsto> c)"
proof -
  let ?es = "entries m" and ?N = "length (entries m)" and ?v = "\<lparr>me_key = key, me_class = c\<rparr>"
    and ?e = "\<lparr>me_key = key, me_class = d\<rparr>"
  obtain k where t: "tab k ?es" using map_wf_tab[OF w] by blast
  have cap: "capacity m = ?N" and kd: "keys_distinct (content ?es)" using w by (auto simp: map_wf_def)
  obtain z where z: "z < ?N" "lin z ?es" using w by (auto simp: map_wf_def)
  have key: "key \<noteq> 0" "?e \<in># content ?es" using a buf_map_abs_iff[OF kd] by auto
  then obtain i where i: "i < ?N" "?es ! i = ?e" by (auto simp: content_mem)
  have ip: "insert_probe ?es (?N - 1) key (buf_map_hash key (?N - 1)) ?N = i"
    using insert_probe_present[OF t z kd i(1)] i(2) key by simp
  let ?m = "m\<lparr>entries := ?es[i := ?v]\<rparr>"
  have r: "insert_at m key c = (Inr (), ?m)" using ip cap i by (simp add: insert_at_def Let_def)
  define M where "M = content ?es - {#?e#}"
  have M: "content ?es = add_mset ?e M" using key(2) by (simp add: M_def)
  have cm: "content (entries ?m) = add_mset ?v M"
    using content_update[OF i(1), of ?v] i(2) key(1) by (simp add: M)
  have kd': "keys_distinct (content (entries ?m))" using kd unfolding cm M keys_distinct_add by simp
  have nk: "\<And>q. q \<in># M \<Longrightarrow> me_key q \<noteq> key" using kd unfolding M keys_distinct_add by simp
  have "kv z (?es[i := ?v]) x = kv z ?es x" for x
    using i by (cases "pos ?N z x = i") (auto simp: kv_def)
  then have "lin z (?es[i := ?v])" using z(2) by (simp add: lin_def)
  then have wf: "map_wf ?m" using w kd' cm z cap by (auto simp: map_wf_def M)
  have "buf_map_abs ?m = (buf_map_abs m)(key \<mapsto> c)"
  proof (rule buf_map_abs_eqI[OF kd'])
    fix q d' assume q: "(q :: u64) \<noteq> 0"
    show "((buf_map_abs m)(key \<mapsto> c)) q = Some d' \<longleftrightarrow> \<lparr>me_key = q, me_class = d'\<rparr> \<in># content (entries ?m)"
      using buf_map_abs_iff[OF kd, of q d'] q nk[of "\<lparr>me_key = q, me_class = d'\<rparr>"] unfolding cm M by auto
  qed (use key in \<open>simp add: buf_map_abs_def\<close>)
  then show ?thesis using r wf by blast
qed

lemma insert_at_correct:
  assumes "map_wf m" "map_count m < capacity m" "key \<noteq> 0"
  shows "\<exists>m'. insert_at m key c = (Inr (), m') \<and> map_wf m' \<and> buf_map_abs m' = (buf_map_abs m)(key \<mapsto> c)"
  using insert_at_new[OF assms] insert_at_present[OF assms(1)] by (cases "buf_map_abs m key") auto

section \<open>Growth\<close>

lemma rehash_fold:
  assumes "tab k es0" "z < length es0" "lin z es0" "keys_distinct (content es0 + content ps)"
    "size (content es0) + size (content ps) < length es0"
  shows "\<exists>es z'. fold (rehash_entry (length es0 - 1)) ps (Some es0) = Some es \<and> length es = length es0 \<and>
    content es = content es0 + content ps \<and> z' < length es0 \<and> lin z' es"
  using assms
proof (induction ps arbitrary: es0 z)
  case Nil
  then show ?case by (auto simp: content_def)
next
  case (Cons e ps)
  show ?case
  proof (cases "me_key e = 0")
    case True
    then have "rehash_entry (length es0 - 1) e (Some es0) = Some es0" "content (e # ps) = content ps"
      by (simp_all add: rehash_entry_def content_def)
    then show ?thesis using Cons.IH[OF Cons.prems(1,2,3)] Cons.prems(4,5) by simp
  next
    case False
    let ?N = "length es0"
    have cc: "content (e # ps) = add_mset e (content ps)" using False by (simp add: content_def)
    have kd: "keys_distinct (add_mset e (content es0 + content ps))" using Cons.prems(4) cc by simp
    have absent: "\<forall>i < ?N. me_key (es0 ! i) \<noteq> me_key e"
    proof (intro allI impI notI)
      fix i assume i: "i < ?N" "me_key (es0 ! i) = me_key e"
      then have "es0 ! i \<in># content es0" using False by (auto simp: content_mem)
      then show False using kd i(2) unfolding keys_distinct_add by auto
    qed
    have sz: "size (content es0) < ?N" using Cons.prems(5) by simp
    obtain z' x where x: "z' < ?N" "x < ?N" "kv z' es0 x = 0"
      "probe_empty es0 (?N - 1) (buf_map_hash (me_key e) (?N - 1)) ?N = Some (pos ?N z' x)"
      "\<And>c. lin z' (es0[pos ?N z' x := \<lparr>me_key = me_key e, me_class = c\<rparr>])"
      using insert_probe_new[OF Cons.prems(1,2,3) sz absent False] by metis
    let ?es = "es0[pos ?N z' x := e]"
    have p: "pos ?N z' x < ?N" "me_key (es0 ! pos ?N z' x) = 0"
      using x tab_pos[OF Cons.prems(1)] by (simp_all add: kv_def)
    have r: "rehash_entry (?N - 1) e (Some es0) = Some ?es" using x(4) False by (simp add: rehash_entry_def)
    have ce: "content ?es = add_mset e (content es0)" using content_put[OF p False] .
    have "lin z' ?es" using x(5)[of "me_class e"] by (cases e) simp
    moreover have "tab k ?es" using Cons.prems(1) by (simp add: tab_def)
    moreover have "keys_distinct (content ?es + content ps)" using kd ce by simp
    moreover have "size (content ?es) + size (content ps) < length ?es"
      using Cons.prems(5) ce cc by simp
    ultimately show ?thesis using Cons.IH[of ?es z'] x(1) r ce cc by auto
  qed
qed

lemma buf_map_grow_correct:
  assumes w: "map_wf m" and c: "capacity m < BUF_MAP_MAX_CAPACITY"
  shows "\<exists>r. buf_map_grow have_new m = Some r \<and>
    (case r of None \<Rightarrow> \<not> have_new
     | Some m' \<Rightarrow> have_new \<and> map_wf m' \<and> buf_map_abs m' = buf_map_abs m \<and>
         capacity m' = 2 * capacity m \<and> map_count m' = map_count m)"
proof -
  obtain k where k: "capacity m = 2 ^ k" "length (entries m) = capacity m"
    using w by (auto simp: map_wf_def)
  have kd: "keys_distinct (content (entries m))" using w by (simp add: map_wf_def)
  have "(2 :: nat) ^ k < 2 ^ 20" using c k by simp
  then have k20: "k < 20" by (rule power_less_imp_less_exp[rotated]) simp
  then have "(2 :: nat) ^ Suc k \<le> 2 ^ 20" by (intro power_increasing) auto
  then have small: "\<not> capacity m * 2 > BUF_MAP_MAX_CAPACITY" using k by simp
  let ?N = "capacity m * 2" and ?e0 = "replicate (capacity m * 2) empty_entry"
  have t: "tab (Suc k) ?e0" using k k20 by (simp add: tab_def)
  have "size (content (entries m)) \<le> length (entries m)"
    by (metis content_def size_filter_mset_lesseq size_mset)
  then have sz: "size (content ?e0) + size (content (entries m)) < length ?e0"
    using k by (simp add: content_empty le_less_trans)
  have kd0: "keys_distinct (content ?e0 + content (entries m))" using kd by (simp add: content_empty)
  have "0 < length ?e0" using k by simp
  from rehash_fold[OF t this lin_empty kd0 sz] obtain es z' where
    es: "fold (rehash_entry (?N - 1)) (entries m) (Some ?e0) = Some es" "length es = ?N"
      "content es = content (entries m)" "z' < ?N" "lin z' es"
    by (auto simp: content_empty)
  let ?m = "m\<lparr>entries := es, capacity := ?N\<rparr>"
  have g: "buf_map_grow have_new m = Some (if have_new then Some ?m else None)"
    using small es(1) by (simp add: buf_map_grow_def Let_def)
  have "?N = 2 ^ Suc k" "Suc k \<le> 20" using k k20 by auto
  then have "\<exists>j \<le> 20. ?N = 2 ^ j" by blast
  then have wf: "map_wf ?m" using w es kd by (auto simp: map_wf_def)
  have "buf_map_abs ?m = buf_map_abs m"
  proof (rule buf_map_abs_eqI)
    show "keys_distinct (content (entries ?m))" using es kd by simp
    show "buf_map_abs m 0 = None" by (simp add: buf_map_abs_def)
    fix q d assume "(q :: u64) \<noteq> 0"
    then show "buf_map_abs m q = Some d \<longleftrightarrow> \<lparr>me_key = q, me_class = d\<rparr> \<in># content (entries ?m)"
      using buf_map_abs_iff[OF kd, of q d] es by simp
  qed
  then show ?thesis using g wf by auto
qed

text \<open>Every outcome of an insertion; it always returns.\<close>

lemma insert_outcome:
  assumes w: "map_wf m"
  obtains (stored) m' where "buf_size_map_insert have_new m key c = Some (Inr (), m')" "key \<noteq> 0"
      "map_wf m'" "buf_map_abs m' = (buf_map_abs m)(key \<mapsto> c)"
  | (refused) e where "buf_size_map_insert have_new m key c = Some (Inl e, m)"
      "key = 0 \<or> \<not> have_new \<or> map_count m = BUF_MAP_MAX_CAPACITY"
proof (cases "key = 0")
  case True
  then show thesis using refused by (simp add: buf_size_map_insert_def)
next
  case key: False
  have le: "map_count m \<le> capacity m"
    using w by (auto simp: map_wf_def content_def) (metis size_filter_mset_lesseq size_mset)
  have cap: "capacity m \<le> BUF_MAP_MAX_CAPACITY"
  proof -
    obtain k where "k \<le> 20" "capacity m = 2 ^ k" using w by (auto simp: map_wf_def)
    then show ?thesis using power_increasing[of k 20 "2 :: nat"] by simp
  qed
  show thesis
  proof (cases "map_count m * 4 \<ge> capacity m * 3")
    case False
    then have "map_count m < capacity m" by simp
    from insert_at_correct[OF w this key, of c] False key stored show thesis
      by (auto simp: buf_size_map_insert_def)
  next
    case True
    show thesis
    proof (cases "capacity m \<ge> BUF_MAP_MAX_CAPACITY")
      case mx: True
      show thesis
      proof (cases "map_count m < capacity m")
        case room: True
        from insert_at_correct[OF w room key, of c] True mx key stored room show thesis
          by (auto simp: buf_size_map_insert_def)
      next
        case False
        then show thesis using True mx key refused le cap by (simp add: buf_size_map_insert_def)
      qed
    next
      case False
      then have "capacity m < BUF_MAP_MAX_CAPACITY" by simp
      from buf_map_grow_correct[OF w this, of have_new] obtain r where
        r: "buf_map_grow have_new m = Some r" "case r of None \<Rightarrow> \<not> have_new
           | Some m' \<Rightarrow> have_new \<and> map_wf m' \<and> buf_map_abs m' = buf_map_abs m \<and>
               capacity m' = 2 * capacity m \<and> map_count m' = map_count m" by blast
      show thesis
      proof (cases r)
        case None
        then show thesis using r True False key refused by (simp add: buf_size_map_insert_def)
      next
        case (Some m1)
        have "0 < capacity m" using w by (auto simp: map_wf_def)
        then have m1: "map_wf m1" "map_count m1 < capacity m1" "buf_map_abs m1 = buf_map_abs m"
          using r(2) Some le by auto
        from insert_at_correct[OF m1(1,2) key, of c] Some r(1) True False key stored m1(3) show thesis
          by (auto simp: buf_size_map_insert_def)
      qed
    qed
  qed
qed

section \<open>The interface\<close>

text \<open>
  What the tracked allocation functions rely on: an insertion that succeeds binds the pointer,
  one that fails changes nothing, a removal returns the class and unbinds, an unknown pointer
  is reported as -1 without effect.
\<close>

locale size_table =
  fixes lookup :: "'m \<Rightarrow> u64 \<Rightarrow> u8 option"
    and insert :: "bool \<Rightarrow> 'm \<Rightarrow> u64 \<Rightarrow> u8 \<Rightarrow> ((int + unit) \<times> 'm) option"
    and remove :: "'m \<Rightarrow> u64 \<Rightarrow> int \<times> 'm"
    and wf :: "'m \<Rightarrow> bool"
  assumes insert_returns: "wf m \<Longrightarrow> insert a m key c \<noteq> None"
    and insert_stored: "wf m \<Longrightarrow> insert a m key c = Some (Inr u, m') \<Longrightarrow>
          wf m' \<and> key \<noteq> 0 \<and> lookup m' = (lookup m)(key \<mapsto> c)"
    and insert_refused: "wf m \<Longrightarrow> insert a m key c = Some (Inl e, m') \<Longrightarrow> m' = m"
    and remove_known: "wf m \<Longrightarrow> lookup m key = Some c \<Longrightarrow> remove m key = (r, m') \<Longrightarrow>
          r = int (unat c) \<and> wf m' \<and> lookup m' = (lookup m)(key := None)"
    and remove_unknown: "wf m \<Longrightarrow> lookup m key = None \<Longrightarrow> remove m key = (-1, m)"
begin

lemma remove_wf: "wf m \<Longrightarrow> wf (snd (remove m key))"
proof (cases "lookup m key")
  case (Some c)
  then show "wf m \<Longrightarrow> ?thesis" using remove_known[of m key c "fst (remove m key)" "snd (remove m key)"] by simp
qed (simp add: remove_unknown)

lemma insert_then_remove:
  assumes "wf m" "insert a m key c = Some (Inr u, m1)" "remove m1 key = (r, m2)"
  shows "r = int (unat c) \<and> wf m2 \<and> lookup m2 = (lookup m)(key := None)"
proof -
  have "wf m1" "lookup m1 = (lookup m)(key \<mapsto> c)" using insert_stored[OF assms(1,2)] by auto
  then show ?thesis using remove_known[OF _ _ assms(3), of c] by (auto simp: fun_eq_iff)
qed

lemma remove_twice:
  assumes "wf m" "remove m key = (r, m1)" "remove m1 key = (r', m2)"
  shows "r' = -1 \<and> m2 = m1"
proof (cases "lookup m key")
  case None
  then show ?thesis using remove_unknown[OF assms(1)] assms by auto
next
  case (Some c)
  have "wf m1" "lookup m1 key = None" using remove_known[OF assms(1) Some assms(2)] by auto
  then show ?thesis using remove_unknown assms(3) by auto
qed

end

interpretation buf_map: size_table buf_map_abs buf_size_map_insert buf_size_map_remove map_wf
proof unfold_locales
  fix m m' a key c u e
  show "map_wf m \<Longrightarrow> buf_size_map_insert a m key c \<noteq> None"
    by (cases rule: insert_outcome[of m a key c]) auto
  show "map_wf m \<Longrightarrow> buf_size_map_insert a m key c = Some (Inr u, m') \<Longrightarrow>
      map_wf m' \<and> key \<noteq> 0 \<and> buf_map_abs m' = (buf_map_abs m)(key \<mapsto> c)"
    by (cases rule: insert_outcome[of m a key c]) auto
  show "map_wf m \<Longrightarrow> buf_size_map_insert a m key c = Some (Inl e, m') \<Longrightarrow> m' = m"
    by (cases rule: insert_outcome[of m a key c]) auto
qed (auto simp: remove_miss dest: remove_hit)

section \<open>Histories of operations\<close>

datatype map_op = MapInsert bool u64 u8 | MapRemove u64

fun map_step :: "map_op \<Rightarrow> buf_size_map \<Rightarrow> (int \<times> buf_size_map) option" where
  "map_step (MapInsert have_new key c) m =
     (case buf_size_map_insert have_new m key c of
        None \<Rightarrow> None
      | Some (Inl e, m') \<Rightarrow> Some (-1, m')
      | Some (Inr _, m') \<Rightarrow> Some (0, m'))"
| "map_step (MapRemove key) m = Some (buf_size_map_remove m key)"

fun map_run :: "map_op list \<Rightarrow> buf_size_map \<Rightarrow> (int list \<times> buf_size_map) option" where
  "map_run [] m = Some ([], m)"
| "map_run (op # ops) m =
     (case map_step op m of
        None \<Rightarrow> None
      | Some (r, m1) \<Rightarrow> (case map_run ops m1 of None \<Rightarrow> None | Some (rs, m2) \<Rightarrow> Some (r # rs, m2)))"

text \<open>The specification: operations on a partial map with their return codes.\<close>

inductive spec_run :: "map_op list \<Rightarrow> (u64 \<Rightarrow> u8 option) \<Rightarrow> int list \<Rightarrow> (u64 \<Rightarrow> u8 option) \<Rightarrow> bool" where
  finished: "spec_run [] f [] f"
| stored: "key \<noteq> 0 \<Longrightarrow> spec_run ops (f(key \<mapsto> c)) rs f' \<Longrightarrow> spec_run (MapInsert a key c # ops) f (0 # rs) f'"
| refused: "key = 0 \<or> \<not> a \<or> card (dom f) = BUF_MAP_MAX_CAPACITY \<Longrightarrow> spec_run ops f rs f' \<Longrightarrow>
    spec_run (MapInsert a key c # ops) f (-1 # rs) f'"
| removed: "f key = Some c \<Longrightarrow> spec_run ops (f(key := None)) rs f' \<Longrightarrow>
    spec_run (MapRemove key # ops) f (int (unat c) # rs) f'"
| unknown: "f key = None \<Longrightarrow> spec_run ops f rs f' \<Longrightarrow> spec_run (MapRemove key # ops) f (-1 # rs) f'"

lemma size_keys_distinct: "keys_distinct M \<Longrightarrow> card (me_key ` set_mset M) = size M"
proof (induction M)
  case (add e M)
  then show ?case by (auto simp: keys_distinct_add card_insert_if image_iff)
qed simp

lemma card_dom_abs: "map_wf m \<Longrightarrow> card (dom (buf_map_abs m)) = map_count m"
proof -
  assume w: "map_wf m"
  have kd: "keys_distinct (content (entries m))" using w by (simp add: map_wf_def)
  have "dom (buf_map_abs m) = me_key ` set_mset (content (entries m))"
  proof (rule set_eqI)
    fix key
    have "key \<in> me_key ` set_mset (content (entries m)) \<longleftrightarrow>
        (\<exists>c. key \<noteq> 0 \<and> \<lparr>me_key = key, me_class = c\<rparr> \<in># content (entries m))" (is "?l \<longleftrightarrow> ?r")
    proof
      assume ?l
      then obtain e where "e \<in># content (entries m)" "key = me_key e" by auto
      then show ?r by (cases e) (auto simp: content_def)
    qed force
    then show "key \<in> dom (buf_map_abs m) \<longleftrightarrow> key \<in> me_key ` set_mset (content (entries m))"
      using buf_map_abs_iff[OF kd, of key] by auto
  qed
  then show ?thesis using size_keys_distinct[OF kd] w by (simp add: map_wf_def)
qed

lemma map_run_refines:
  assumes "map_wf m"
  shows "\<exists>rs m'. map_run ops m = Some (rs, m') \<and> map_wf m' \<and>
    spec_run ops (buf_map_abs m) rs (buf_map_abs m')"
  using assms
proof (induction ops arbitrary: m)
  case Nil
  then show ?case by (auto intro: spec_run.finished)
next
  case (Cons op ops)
  show ?case
  proof (cases op)
    case (MapInsert a key c)
    show ?thesis
    proof (cases rule: insert_outcome[OF Cons.prems, of a key c, case_names stored refused])
      case (stored m1)
      obtain rs m' where h: "map_run ops m1 = Some (rs, m')" "map_wf m'"
          "spec_run ops (buf_map_abs m1) rs (buf_map_abs m')" using Cons.IH[OF stored(3)] by blast
      have "spec_run (op # ops) (buf_map_abs m) (0 # rs) (buf_map_abs m')"
        unfolding MapInsert by (rule spec_run.stored[OF stored(2) h(3)[unfolded stored(4)]])
      then show ?thesis using h(1,2) stored(1) MapInsert by simp
    next
      case (refused e)
      then show ?thesis using Cons.IH[OF Cons.prems] MapInsert card_dom_abs[OF Cons.prems]
        by (auto intro!: spec_run.refused)
    qed
  next
    case (MapRemove key)
    obtain r m1 where r: "buf_size_map_remove m key = (r, m1)" by fastforce
    show ?thesis
    proof (cases "buf_map_abs m key")
      case None
      then show ?thesis
        using Cons.IH[OF Cons.prems] MapRemove buf_map.remove_unknown[OF Cons.prems None]
        by (auto intro!: spec_run.unknown)
    next
      case (Some c)
      note h = buf_map.remove_known[OF Cons.prems Some r]
      then obtain rs m' where i: "map_run ops m1 = Some (rs, m')" "map_wf m'"
          "spec_run ops ((buf_map_abs m)(key := None)) rs (buf_map_abs m')" using Cons.IH[of m1] by metis
      have "spec_run (op # ops) (buf_map_abs m) (int (unat c) # rs) (buf_map_abs m')"
        unfolding MapRemove by (rule spec_run.removed[of "buf_map_abs m", OF Some i(3)])
      then show ?thesis using i(1,2) h r MapRemove by simp
    qed
  qed
qed

lemma map_init_wf:
  assumes "buf_size_map_init True True = Some m"
  shows "map_wf m" "buf_map_abs m = Map.empty"
proof -
  have m: "entries m = replicate 1024 empty_entry" "capacity m = 1024" "map_count m = 0"
    using assms by (auto simp: buf_size_map_init_def)
  have "\<exists>k \<le> 20. (1024 :: nat) = 2 ^ k" by (rule exI[of _ 10]) simp
  moreover have "\<exists>z < (1024 :: nat). lin z (replicate 1024 empty_entry)"
    using lin_empty[of 0 1024] by (intro exI[of _ 0]) simp
  ultimately show "map_wf m" using m by (simp add: map_wf_def content_empty keys_distinct_def)
  show "buf_map_abs m = Map.empty"
  proof (rule buf_map_abs_eqI)
    show "keys_distinct (content (entries m))" unfolding m content_empty by (simp add: keys_distinct_def)
    show "Map.empty key = Some c \<longleftrightarrow> \<lparr>me_key = key, me_class = c\<rparr> \<in># content (entries m)" for key c
      unfolding m content_empty by simp
  qed simp
qed

text \<open>
  Claim C34. The size map implements a finite map from pointers to size classes: every history
  of insertions and removals from the initial table returns (no probe or rehash loops forever),
  and its return codes and final contents are those of a partial map. Growth never loses or
  duplicates a binding, deletion by backward shift keeps every other pointer reachable even in
  a completely full table, and an insertion is refused only for a NULL pointer, a failed
  allocation, or \<open>2 ^ 20\<close> live pointers.
\<close>

theorem size_map_refines_partial_map:
  "\<exists>rs m'. map_run ops (the (buf_size_map_init True True)) = Some (rs, m') \<and>
     spec_run ops Map.empty rs (buf_map_abs m')"
proof -
  obtain m where m: "buf_size_map_init True True = Some m" by (simp add: buf_size_map_init_def)
  show ?thesis using map_run_refines[OF map_init_wf(1)[OF m], of ops] map_init_wf(2)[OF m] m by auto
qed

end
