(* ===== verification/Buffer_Pool.thy ===== *)
theory Buffer_Pool
  imports Buffer_Size_Map
begin

text \<open>
  The aligned buffer pool of \<^verbatim>\<open>src/engine/src/adaptive_buffer.c\<close>: size classes, shards with their
  metadata slots, per-thread caches and their registration, refill and flush between cache and
  shard, allocation, release and destruction.

  The state is a world of pools and thread caches, named by their position, with the
  thread-local cache pointers of every thread and the multiset of live heap buffers: a
  successful \<open>posix_memalign\<close> adds its answer, \<open>free\<close> removes one. Each public operation is one
  step, so the re-checks that guard against a concurrent destroy see an unchanged pool. The
  linked lists of slots are lists in link order, and \<open>counts[c]\<close> entries of a cache's array
  are a list with the top first.
\<close>

section \<open>Size classes\<close>

abbreviation BUFFER_SIZE_CLASSES :: nat where "BUFFER_SIZE_CLASSES \<equiv> 16"
abbreviation BUFFER_POOL_MAX_SIZE :: nat where "BUFFER_POOL_MAX_SIZE \<equiv> 134217728"
abbreviation BUFFER_POOL_DEFAULT_MAX_FREE_PER_SHARD :: nat where
  "BUFFER_POOL_DEFAULT_MAX_FREE_PER_SHARD \<equiv> 256"
abbreviation THREAD_CACHE_SIZE :: nat where "THREAD_CACHE_SIZE \<equiv> 32"
abbreviation THREAD_CACHE_BATCH_SIZE :: nat where "THREAD_CACHE_BATCH_SIZE \<equiv> 16"
abbreviation BUFFER_POOL_MAX_SHARDS :: nat where "BUFFER_POOL_MAX_SHARDS \<equiv> 256"
abbreviation BUFFER_POOL_MIN_SHARDS :: nat where "BUFFER_POOL_MIN_SHARDS \<equiv> 2"

text \<open>\<open>64 - __builtin_clzl(x)\<close> is the number of significant bits of \<open>x\<close>.\<close>

fun bit_length :: "nat \<Rightarrow> nat" where
  "bit_length x = (if x = 0 then 0 else Suc (bit_length (x div 2)))"

declare bit_length.simps [simp del]

definition size_to_class :: "nat \<Rightarrow> nat" where
  "size_to_class sz =
     (if sz \<le> 4096 then 0
      else let class_idx = bit_length (sz - 1) - 12
           in if class_idx \<ge> BUFFER_SIZE_CLASSES then BUFFER_SIZE_CLASSES - 1 else class_idx)"

definition class_to_size :: "nat \<Rightarrow> nat" where
  "class_to_size class_idx = 4096 * 2 ^ class_idx"

section \<open>State\<close>

record buffer_slot =
  slot_id :: nat
  slot_buffer :: u64
  slot_size :: nat

record buffer_shard =
  size_buckets :: "buffer_slot list list"
  free_slots_list :: "nat list"
  slot_pool_size :: nat
  sh_free_count :: int
  max_free_count :: int

record thread_cache =
  tc_pool :: "nat option"
  tc_pool_id :: u64
  tc_owner :: nat
  tc_shard_id :: nat
  tc_buffers :: "u64 list list"
  cleaned_up :: bool
  thread_exited :: bool
  tc_live :: bool

record buffer_pool =
  shards :: "buffer_shard list"
  shard_count :: nat
  shard_mask :: nat
  pool_id :: u64
  bp_alignment :: nat
  thread_caches :: "nat list"
  destroyed :: bool
  total_allocated :: u64
  total_buffers :: u64
  next_shard :: u32

record pool_world =
  pools :: "buffer_pool list"
  caches :: "thread_cache list"
  tls_cache :: "nat \<Rightarrow> nat option"
  tls_spec :: "nat \<Rightarrow> nat option"
  heap :: "u64 multiset"
  pool_generation :: u64
  tls_key_once :: bool
  tls_key_valid :: bool

definition upd_pool :: "nat \<Rightarrow> (buffer_pool \<Rightarrow> buffer_pool) \<Rightarrow> pool_world \<Rightarrow> pool_world" where
  "upd_pool p f w = w\<lparr>pools := (pools w)[p := f (pools w ! p)]\<rparr>"

definition upd_cache :: "nat \<Rightarrow> (thread_cache \<Rightarrow> thread_cache) \<Rightarrow> pool_world \<Rightarrow> pool_world" where
  "upd_cache c f w = w\<lparr>caches := (caches w)[c := f (caches w ! c)]\<rparr>"

text \<open>\<open>free()\<close> of a list of buffers.\<close>

definition heap_free :: "u64 list \<Rightarrow> pool_world \<Rightarrow> pool_world" where
  "heap_free bs w = w\<lparr>heap := heap w - mset bs\<rparr>"

definition account :: "nat \<Rightarrow> nat \<Rightarrow> buffer_pool \<Rightarrow> buffer_pool" where
  "account bytes n pool =
     pool\<lparr>total_allocated := total_allocated pool + of_nat bytes,
          total_buffers := total_buffers pool + of_nat n\<rparr>"

definition unaccount :: "nat \<Rightarrow> nat \<Rightarrow> buffer_pool \<Rightarrow> buffer_pool" where
  "unaccount bytes n pool =
     pool\<lparr>total_allocated := total_allocated pool - of_nat bytes,
          total_buffers := total_buffers pool - of_nat n\<rparr>"

section \<open>Shards\<close>

definition shard_init :: "bool \<Rightarrow> bool \<Rightarrow> buffer_shard option" where
  "shard_init mutex_ok have_slots =
     (if \<not> mutex_ok then None
      else if \<not> have_slots then None
      else Some \<lparr>size_buckets = replicate BUFFER_SIZE_CLASSES [],
                 free_slots_list = [0..<BUFFER_POOL_DEFAULT_MAX_FREE_PER_SHARD],
                 slot_pool_size = BUFFER_POOL_DEFAULT_MAX_FREE_PER_SHARD,
                 sh_free_count = 0, max_free_count = int BUFFER_POOL_DEFAULT_MAX_FREE_PER_SHARD\<rparr>)"

definition shard_buffers :: "buffer_shard \<Rightarrow> u64 list" where
  "shard_buffers s = concat (map (map slot_buffer) (size_buckets s))"

text \<open>The buffers a destroyed shard frees, and the shard it leaves.\<close>

definition shard_destroy :: "buffer_shard \<Rightarrow> u64 list \<times> buffer_shard" where
  "shard_destroy s =
     (shard_buffers s, s\<lparr>size_buckets := replicate BUFFER_SIZE_CLASSES [], free_slots_list := [],
                         sh_free_count := 0\<rparr>)"

text \<open>Pop from and push to a bucket; a slot moves between the bucket and the free list.\<close>

definition shard_pop :: "nat \<Rightarrow> buffer_shard \<Rightarrow> (u64 \<times> buffer_shard) option" where
  "shard_pop cls s =
     (case size_buckets s ! cls of
        [] \<Rightarrow> None
      | sl # sls \<Rightarrow>
          Some (slot_buffer sl,
                s\<lparr>size_buckets := (size_buckets s)[cls := sls], sh_free_count := sh_free_count s - 1,
                  free_slots_list := slot_id sl # free_slots_list s\<rparr>))"

definition shard_push :: "nat \<Rightarrow> nat \<Rightarrow> u64 \<Rightarrow> buffer_shard \<Rightarrow> buffer_shard option" where
  "shard_push cls bucket_size buf s =
     (case free_slots_list s of
        [] \<Rightarrow> None
      | i # is \<Rightarrow>
          Some (s\<lparr>free_slots_list := is,
                  size_buckets := (size_buckets s)
                    [cls := \<lparr>slot_id = i, slot_buffer = buf, slot_size = bucket_size\<rparr> # size_buckets s ! cls],
                  sh_free_count := sh_free_count s + 1\<rparr>))"

definition shard_full :: "buffer_shard \<Rightarrow> bool" where
  "shard_full s \<longleftrightarrow> max_free_count s > 0 \<and> sh_free_count s \<ge> max_free_count s"

section \<open>Refill and flush\<close>

text \<open>The loops of \<open>cache_refill\<close> and \<open>cache_flush\<close> on one class of a cache.\<close>

fun refill_loop :: "nat \<Rightarrow> nat \<Rightarrow> buffer_shard \<Rightarrow> u64 list \<Rightarrow> nat \<Rightarrow> buffer_shard \<times> u64 list \<times> nat" where
  "refill_loop 0 cls s bufs n = (s, bufs, n)"
| "refill_loop (Suc left) cls s bufs n =
     (if length bufs < THREAD_CACHE_SIZE then
        (case shard_pop cls s of
           None \<Rightarrow> (s, bufs, n)
         | Some (buf, s') \<Rightarrow> refill_loop left cls s' (buf # bufs) (n + 1))
      else (s, bufs, n))"

fun flush_loop ::
    "nat \<Rightarrow> nat \<Rightarrow> buffer_shard \<Rightarrow> u64 list \<Rightarrow> u64 list \<Rightarrow> nat \<Rightarrow>
     buffer_shard \<times> u64 list \<times> u64 list \<times> nat" where
  "flush_loop cls bucket_size s [] to_free n = (s, [], to_free, n)"
| "flush_loop cls bucket_size s (buf # bufs) to_free n =
     (if n \<ge> THREAD_CACHE_BATCH_SIZE then (s, buf # bufs, to_free, n)
      else if shard_full s then (s, [], to_free @ buf # bufs, n)
      else case shard_push cls bucket_size buf s of
             None \<Rightarrow> flush_loop cls bucket_size s bufs (to_free @ [buf]) n
           | Some s' \<Rightarrow> flush_loop cls bucket_size s' bufs to_free (n + 1))"

definition cache_refill :: "nat \<Rightarrow> nat \<Rightarrow> nat \<Rightarrow> pool_world \<Rightarrow> nat \<times> pool_world" where
  "cache_refill p c cls w =
     (let cache = caches w ! c; i = tc_shard_id cache;
          (s, bufs, n) = refill_loop THREAD_CACHE_BATCH_SIZE cls (shards (pools w ! p) ! i)
                           (tc_buffers cache ! cls) 0;
          w1 = upd_pool p (\<lambda>pool. pool\<lparr>shards := (shards pool)[i := s]\<rparr>) w
      in (n, upd_cache c (\<lambda>tc. tc\<lparr>tc_buffers := (tc_buffers tc)[cls := bufs]\<rparr>) w1))"

definition cache_flush :: "nat \<Rightarrow> nat \<Rightarrow> nat \<Rightarrow> nat \<Rightarrow> pool_world \<Rightarrow> int \<times> pool_world" where
  "cache_flush p c cls bucket_size w =
     (let cache = caches w ! c; i = tc_shard_id cache;
          (s, bufs, to_free, n) = flush_loop cls bucket_size (shards (pools w ! p) ! i)
                                    (tc_buffers cache ! cls) [] 0;
          w1 = upd_pool p (\<lambda>pool. pool\<lparr>shards := (shards pool)[i := s]\<rparr>) w;
          w2 = upd_cache c (\<lambda>tc. tc\<lparr>tc_buffers := (tc_buffers tc)[cls := bufs]\<rparr>) w1;
          w3 = (if to_free \<noteq> [] then
                  heap_free to_free (upd_pool p (unaccount (bucket_size * length to_free) (length to_free)) w2)
                else w2)
      in (if n > 0 then int n else - int (length to_free), w3))"

section \<open>Cache clean-up\<close>

text \<open>\<open>while (cache->counts[class_idx] > 0) cache_flush(...)\<close>; every call takes a buffer.\<close>

fun flush_class :: "nat \<Rightarrow> nat \<Rightarrow> nat \<Rightarrow> nat \<Rightarrow> pool_world \<Rightarrow> pool_world" where
  "flush_class 0 p c cls w = w"
| "flush_class (Suc fuel) p c cls w =
     (if tc_buffers (caches w ! c) ! cls \<noteq> []
      then flush_class fuel p c cls (snd (cache_flush p c cls (class_to_size cls) w))
      else w)"

definition flush_all :: "nat \<Rightarrow> nat \<Rightarrow> pool_world \<Rightarrow> pool_world" where
  "flush_all p c w =
     fold (\<lambda>cls w. flush_class (length (tc_buffers (caches w ! c) ! cls)) p c cls w)
       [0..<BUFFER_SIZE_CLASSES] w"

text \<open>Freeing one class directly; \<open>p\<close> is \<open>None\<close> when the pool pointer is NULL.\<close>

definition free_class :: "nat option \<Rightarrow> nat \<Rightarrow> nat \<Rightarrow> pool_world \<Rightarrow> pool_world" where
  "free_class p c cls w =
     (let bufs = tc_buffers (caches w ! c) ! cls; n = length bufs
      in if n > 0 then
           let w1 = heap_free bufs w;
               w2 = (case p of None \<Rightarrow> w1 | Some q \<Rightarrow> upd_pool q (unaccount (class_to_size cls * n) n) w1)
           in upd_cache c (\<lambda>tc. tc\<lparr>tc_buffers := (tc_buffers tc)[cls := []]\<rparr>) w2
         else w)"

datatype cache_cleanup_mode = CACHE_CLEANUP_FLUSH | CACHE_CLEANUP_FREE

definition cleanup_cache_buffers_locked ::
    "nat option \<Rightarrow> nat \<Rightarrow> cache_cleanup_mode \<Rightarrow> pool_world \<Rightarrow> pool_world" where
  "cleanup_cache_buffers_locked p c mode w =
     (if cleaned_up (caches w ! c) then w
      else let w1 = (case p of
                       Some q \<Rightarrow> (if mode = CACHE_CLEANUP_FLUSH then flush_all q c w
                                 else fold (free_class p c) [0..<BUFFER_SIZE_CLASSES] w)
                     | None \<Rightarrow> fold (free_class p c) [0..<BUFFER_SIZE_CLASSES] w)
           in upd_cache c (\<lambda>tc. tc\<lparr>cleaned_up := True\<rparr>) w1)"

section \<open>Thread caches\<close>

definition set_tls :: "nat \<Rightarrow> nat option \<Rightarrow> pool_world \<Rightarrow> pool_world" where
  "set_tls t c w = w\<lparr>tls_cache := (tls_cache w)(t := c)\<rparr>"

definition set_tls_key :: "nat \<Rightarrow> nat option \<Rightarrow> pool_world \<Rightarrow> pool_world" where
  "set_tls_key t c w = (if tls_key_valid w then w\<lparr>tls_spec := (tls_spec w)(t := c)\<rparr> else w)"

definition round_robin :: "nat \<Rightarrow> pool_world \<Rightarrow> nat \<times> pool_world" where
  "round_robin p w =
     (unat (next_shard (pools w ! p) AND of_nat (shard_mask (pools w ! p))),
      upd_pool p (\<lambda>pool. pool\<lparr>next_shard := next_shard pool + 1\<rparr>) w)"

definition new_cache :: "nat \<Rightarrow> nat \<Rightarrow> u64 \<Rightarrow> nat \<Rightarrow> thread_cache" where
  "new_cache p t pid shard =
     \<lparr>tc_pool = Some p, tc_pool_id = pid, tc_owner = t, tc_shard_id = shard,
      tc_buffers = replicate BUFFER_SIZE_CLASSES [], cleaned_up = False, thread_exited = False,
      tc_live = True\<rparr>"

text \<open>\<open>pthread_once(&tls_key_once, tls_key_init)\<close>.\<close>

definition tls_key_init :: "bool \<Rightarrow> pool_world \<Rightarrow> pool_world" where
  "tls_key_init key_ok w =
     (if tls_key_once w then w else w\<lparr>tls_key_once := True, tls_key_valid := key_ok\<rparr>)"

text \<open>
  The creation of a cache: the key is made once, the shard is assigned round robin and the cache is
  pushed on the pool's list. \<open>key_ok\<close> is whether \<open>pthread_key_create\<close> succeeds if this call is the
  first to make the key, \<open>have_cache\<close> below whether the cache could be allocated and its mutex
  initialised.
\<close>

definition register_cache :: "bool \<Rightarrow> nat \<Rightarrow> nat \<Rightarrow> pool_world \<Rightarrow> nat \<times> pool_world" where
  "register_cache key_ok t p w =
     (let (i, w1) = round_robin p (tls_key_init key_ok w); c' = length (caches w1);
          w2 = w1\<lparr>caches := caches w1 @ [new_cache p t (pool_id (pools w ! p)) i]\<rparr>;
          w3 = upd_pool p (\<lambda>pool. pool\<lparr>thread_caches := c' # thread_caches pool\<rparr>) w2
      in (c', set_tls t (Some c') (set_tls_key t (Some c') w3)))"

definition get_thread_cache ::
    "bool \<Rightarrow> bool \<Rightarrow> nat \<Rightarrow> nat \<Rightarrow> pool_world \<Rightarrow> nat option \<times> pool_world" where
  "get_thread_cache key_ok have_cache t p w =
     (let pool = pools w ! p
      in case tls_cache w t of
           Some c \<Rightarrow>
             let cache = caches w ! c
             in if tc_pool cache = Some p \<and> tc_pool_id cache = pool_id pool \<and> \<not> destroyed pool
                then (Some c, w)
                else if destroyed pool then (None, set_tls t None w)
                else if tc_pool cache \<noteq> Some p then
                  (case tc_pool cache of
                     None \<Rightarrow>
                       (None, set_tls_key t None (set_tls t None
                                (upd_cache c (\<lambda>tc. tc\<lparr>tc_live := False\<rparr>) w)))
                   | Some q \<Rightarrow>
                       let mode = (if destroyed (pools w ! q) then CACHE_CLEANUP_FREE
                                   else CACHE_CLEANUP_FLUSH)
                       in (None, set_tls_key t None (set_tls t None
                                   (cleanup_cache_buffers_locked (Some q) c mode w))))
                else if \<not> have_cache then (None, tls_key_init key_ok w)
                else (let (c', w') = register_cache key_ok t p w in (Some c', w'))
         | None \<Rightarrow>
             if destroyed pool then (None, set_tls t None w)
             else if \<not> have_cache then (None, tls_key_init key_ok w)
             else (let (c', w') = register_cache key_ok t p w in (Some c', w')))"

text \<open>
  The destructor of the thread-specific key, run at the exit of thread \<open>t\<close>; the thread library
  resets the key's value before it calls the destructor.
\<close>

definition tls_destructor :: "nat \<Rightarrow> pool_world \<Rightarrow> pool_world" where
  "tls_destructor t w =
     (case tls_spec w t of
        None \<Rightarrow> w
      | Some c \<Rightarrow>
          let w1 = upd_cache c (\<lambda>tc. tc\<lparr>thread_exited := True\<rparr>)
                     (set_tls t None (w\<lparr>tls_spec := (tls_spec w)(t := None)\<rparr>));
              w2 = (case tc_pool (caches w1 ! c) of
                      Some q \<Rightarrow> (if destroyed (pools w1 ! q)
                                then cleanup_cache_buffers_locked None c CACHE_CLEANUP_FREE w1
                                else cleanup_cache_buffers_locked (Some q) c CACHE_CLEANUP_FLUSH w1)
                    | None \<Rightarrow> cleanup_cache_buffers_locked None c CACHE_CLEANUP_FREE w1)
          in if tc_pool (caches w2 ! c) = None
             then upd_cache c (\<lambda>tc. tc\<lparr>tc_live := False\<rparr>) w2 else w2)"

section \<open>Pool life cycle\<close>

function grow_shards :: "nat \<Rightarrow> nat \<Rightarrow> nat" where
  "grow_shards n target =
     (if 0 < n \<and> n < target \<and> n < BUFFER_POOL_MAX_SHARDS
      then grow_shards (n * 2) target else n)"
  by pat_completeness auto
termination by (relation "measure (\<lambda>(s, t). BUFFER_POOL_MAX_SHARDS - s)") auto

declare grow_shards.simps [simp del]

definition calculate_shard_count :: "int \<Rightarrow> nat" where
  "calculate_shard_count online_cpus =
     (let cpus = (if online_cpus < 1 then 1 else online_cpus);
          target = c_int (c_div cpus 4)
      in if target < int BUFFER_POOL_MIN_SHARDS then BUFFER_POOL_MIN_SHARDS
         else grow_shards BUFFER_POOL_MIN_SHARDS (nat target))"

text \<open>
  A new pool at the end of the world. \<open>shard_ok i\<close> is whether the mutex and the slots of shard
  \<open>i\<close> could be set up; on failure the shards made so far are released again.
\<close>

definition buffer_pool_init ::
    "int \<Rightarrow> bool \<Rightarrow> (nat \<Rightarrow> bool) \<Rightarrow> nat \<Rightarrow> pool_world \<Rightarrow> (int + nat) \<times> pool_world" where
  "buffer_pool_init online_cpus have_shards shard_ok alignment w =
     (if alignment = 0 \<or> (alignment AND (alignment - 1)) \<noteq> 0 \<or> alignment < 8 then (Inl EINVAL, w)
      else
        let n = calculate_shard_count online_cpus;
            w1 = w\<lparr>pool_generation := pool_generation w + 1\<rparr>
        in if \<not> have_shards then (Inl ENOMEM, w1)
           else if \<not> list_all shard_ok [0..<n] then (Inl ENOMEM, w1)
           else
             (Inr (length (pools w)),
              w1\<lparr>pools := pools w1 @
                 [\<lparr>shards = map (\<lambda>i. the (shard_init True True)) [0..<n], shard_count = n,
                   shard_mask = n - 1, pool_id = pool_generation w, bp_alignment = alignment,
                   thread_caches = [], destroyed = False, total_allocated = 0,
                   total_buffers = 0, next_shard = 0\<rparr>]\<rparr>))"

definition cleanup_phase_1_mark_destroyed :: "nat \<Rightarrow> pool_world \<Rightarrow> pool_world" where
  "cleanup_phase_1_mark_destroyed p w = upd_pool p (\<lambda>pool. pool\<lparr>destroyed := True\<rparr>) w"

text \<open>One cache of the detached list; \<open>t\<close> is the destroying thread.\<close>

definition orphan_cache :: "nat \<Rightarrow> nat \<Rightarrow> pool_world \<Rightarrow> pool_world" where
  "orphan_cache t c w =
     (let w1 = cleanup_cache_buffers_locked None c CACHE_CLEANUP_FREE w;
          w2 = upd_cache c (\<lambda>tc. tc\<lparr>tc_pool := None\<rparr>) w1;
          cache = caches w2 ! c
      in if tc_owner cache = t then
           let w3 = (if tls_cache w2 t = Some c then set_tls t None w2 else w2)
           in upd_cache c (\<lambda>tc. tc\<lparr>tc_live := False\<rparr>) (set_tls_key t None w3)
         else if thread_exited cache then upd_cache c (\<lambda>tc. tc\<lparr>tc_live := False\<rparr>) w2
         else w2)"

definition cleanup_phase_2_process_caches :: "nat \<Rightarrow> nat \<Rightarrow> pool_world \<Rightarrow> pool_world" where
  "cleanup_phase_2_process_caches t p w =
     fold (orphan_cache t) (thread_caches (pools w ! p))
       (upd_pool p (\<lambda>pool. pool\<lparr>thread_caches := []\<rparr>) w)"

definition cleanup_phase_3_destroy_shards :: "nat \<Rightarrow> pool_world \<Rightarrow> pool_world" where
  "cleanup_phase_3_destroy_shards p w =
     (let bufs = concat (map (fst \<circ> shard_destroy) (shards (pools w ! p)))
      in upd_pool p (\<lambda>pool. pool\<lparr>shards := [], shard_count := 0, shard_mask := 0,
           total_allocated := 0, total_buffers := 0\<rparr>) (heap_free bufs w))"

definition buffer_pool_destroy :: "nat \<Rightarrow> nat \<Rightarrow> pool_world \<Rightarrow> pool_world" where
  "buffer_pool_destroy t p w =
     cleanup_phase_3_destroy_shards p (cleanup_phase_2_process_caches t p
       (cleanup_phase_1_mark_destroyed p w))"

section \<open>Allocation and release\<close>

record alloc_env =
  env_key_ok :: bool
  env_have_cache :: bool
  env_memalign :: "int + u64"
  env_extras :: "u64 list"

text \<open>
  \<open>env_memalign\<close> is the answer of the first \<open>posix_memalign\<close> and \<open>env_extras\<close> those of the
  following ones up to the first failure.
\<close>

definition select_shard :: "nat \<Rightarrow> nat option \<Rightarrow> pool_world \<Rightarrow> nat \<times> pool_world" where
  "select_shard p cache w =
     (case cache of Some c \<Rightarrow> (tc_shard_id (caches w ! c), w) | None \<Rightarrow> round_robin p w)"

definition cache_pop :: "nat \<Rightarrow> nat \<Rightarrow> pool_world \<Rightarrow> u64 \<times> pool_world" where
  "cache_pop c cls w =
     (hd (tc_buffers (caches w ! c) ! cls),
      upd_cache c (\<lambda>tc. tc\<lparr>tc_buffers := (tc_buffers tc)[cls := tl (tc_buffers tc ! cls)]\<rparr>) w)"

definition cache_push :: "nat \<Rightarrow> nat \<Rightarrow> u64 list \<Rightarrow> pool_world \<Rightarrow> pool_world" where
  "cache_push c cls bufs w =
     upd_cache c (\<lambda>tc. tc\<lparr>tc_buffers := (tc_buffers tc)[cls := rev bufs @ tc_buffers tc ! cls]\<rparr>) w"

text \<open>The heap path (lines 891 to 938).\<close>

definition alloc_from_heap ::
    "alloc_env \<Rightarrow> nat \<Rightarrow> nat option \<Rightarrow> nat \<Rightarrow> pool_world \<Rightarrow> (int + u64) \<times> pool_world" where
  "alloc_from_heap env p cache cls w =
     (let bucket_size = class_to_size cls
      in case env_memalign env of
           Inl e \<Rightarrow> (Inl e, w)
         | Inr buf \<Rightarrow>
             let w1 = upd_pool p (account bucket_size 1) (w\<lparr>heap := add_mset buf (heap w)\<rparr>)
             in case cache of
                  None \<Rightarrow> (Inr buf, w1)
                | Some c \<Rightarrow>
                    let extras = take (THREAD_CACHE_BATCH_SIZE - 1) (env_extras env);
                        w2 = w1\<lparr>heap := heap w1 + mset extras\<rparr>;
                        room = (if cleaned_up (caches w2 ! c) \<or> destroyed (pools w2 ! p) then 0
                                else THREAD_CACHE_SIZE - length (tc_buffers (caches w2 ! c) ! cls));
                        stored = min room (length extras);
                        w3 = cache_push c cls (take stored extras) w2;
                        w4 = heap_free (drop stored extras) w3
                    in (Inr buf, upd_pool p (account (bucket_size * stored) stored) w4))"

definition buffer_pool_alloc ::
    "alloc_env \<Rightarrow> nat \<Rightarrow> nat \<Rightarrow> nat \<Rightarrow> pool_world \<Rightarrow> (int + u64) \<times> pool_world" where
  "buffer_pool_alloc env t p sz w =
     (if sz = 0 \<or> sz > BUFFER_POOL_MAX_SIZE then (Inl EINVAL, w)
      else
        let cls = size_to_class sz;
            (cache, w1) = get_thread_cache (env_key_ok env) (env_have_cache env) t p w;
            hit = (case cache of None \<Rightarrow> False | Some c \<Rightarrow> tc_buffers (caches w1 ! c) ! cls \<noteq> [])
        in if hit then (let (buf, w2) = cache_pop (the cache) cls w1 in (Inr buf, w2))
           else if destroyed (pools w1 ! p) then (Inl ENXIO, w1)
           else
             let (refilled, w2) = (case cache of None \<Rightarrow> (0, w1) | Some c \<Rightarrow> cache_refill p c cls w1)
             in if refilled > 0 then (let (buf, w3) = cache_pop (the cache) cls w2 in (Inr buf, w3))
                else
                  let (i, w3) = select_shard p cache w2
                  in case shard_pop cls (shards (pools w3 ! p) ! i) of
                       Some (buf, s) \<Rightarrow>
                         (Inr buf, upd_pool p (\<lambda>pool. pool\<lparr>shards := (shards pool)[i := s]\<rparr>) w3)
                     | None \<Rightarrow> alloc_from_heap env p cache cls w3)"

text \<open>Release to the shard, or to the heap when the shard is full (lines 1034 to 1068).\<close>

definition free_to_shard :: "nat \<Rightarrow> nat option \<Rightarrow> nat \<Rightarrow> u64 \<Rightarrow> pool_world \<Rightarrow> pool_world" where
  "free_to_shard p cache cls buf w =
     (let bucket_size = class_to_size cls; (i, w1) = select_shard p cache w;
          s = shards (pools w1 ! p) ! i;
          release = heap_free [buf] (upd_pool p (unaccount bucket_size 1) w1)
      in if shard_full s then release
         else case shard_push cls bucket_size buf s of
                None \<Rightarrow> release
              | Some s' \<Rightarrow> upd_pool p (\<lambda>pool. pool\<lparr>shards := (shards pool)[i := s']\<rparr>) w1)"

text \<open>A release with size 0 is an assertion failure in debug builds; the release build frees.\<close>

definition buffer_pool_free :: "alloc_env \<Rightarrow> nat \<Rightarrow> nat \<Rightarrow> u64 \<Rightarrow> nat \<Rightarrow> pool_world \<Rightarrow> pool_world" where
  "buffer_pool_free env t p buf sz w =
     (if buf = 0 then w
      else if sz = 0 then heap_free [buf] w
      else if destroyed (pools w ! p) then heap_free [buf] w
      else
        let cls = size_to_class sz;
            (cache, w1) = get_thread_cache (env_key_ok env) (env_have_cache env) t p w
        in case cache of
             None \<Rightarrow> free_to_shard p None cls buf w1
           | Some c \<Rightarrow>
               if length (tc_buffers (caches w1 ! c) ! cls) < THREAD_CACHE_SIZE then
                 (if cleaned_up (caches w1 ! c) then heap_free [buf] w1 else cache_push c cls [buf] w1)
               else
                 let w2 = snd (cache_flush p c cls (class_to_size cls) w1)
                 in if length (tc_buffers (caches w2 ! c) ! cls) < THREAD_CACHE_SIZE then
                      (if cleaned_up (caches w2 ! c) then heap_free [buf] w2 else cache_push c cls [buf] w2)
                    else free_to_shard p (Some c) cls buf w2)"

definition buffer_pool_free_tracked ::
    "alloc_env \<Rightarrow> nat \<Rightarrow> nat \<Rightarrow> u64 \<Rightarrow> buf_size_map \<Rightarrow> pool_world \<Rightarrow> buf_size_map \<times> pool_world" where
  "buffer_pool_free_tracked env t p buf m w =
     (if buf = 0 then (m, w)
      else let (class_idx, m') = buf_size_map_remove m buf
           in if class_idx < 0 then (m', heap_free [buf] w)
              else (m', buffer_pool_free env t p buf (class_to_size (nat class_idx)) w))"

section \<open>Size classes\<close>

lemma bit_length_upper: "x < 2 ^ bit_length x"
proof (induction x rule: bit_length.induct)
  case (1 x)
  show ?case
  proof (cases "x = 0")
    case False
    then have "x div 2 < 2 ^ bit_length (x div 2)" using 1 by blast
    then have "x < 2 * 2 ^ bit_length (x div 2)" by linarith
    then show ?thesis using False by (subst bit_length.simps) simp
  qed simp
qed

lemma bit_length_lower: "0 < x \<Longrightarrow> 2 ^ (bit_length x - 1) \<le> x"
proof (induction x rule: bit_length.induct)
  case (1 x)
  show ?case
  proof (cases "x = 1")
    case True
    then show ?thesis by (simp add: bit_length.simps)
  next
    case False
    then have d: "0 < x div 2" using 1(2) by simp
    then have "2 ^ (bit_length (x div 2) - 1) \<le> x div 2" using 1 by auto
    moreover have "bit_length (x div 2) = Suc (bit_length (x div 2) - 1)"
      using d by (subst (1 2) bit_length.simps) simp
    ultimately have "2 ^ bit_length (x div 2) \<le> x" by (metis power_Suc mult.commute times_div_less_eq_dividend mult_le_mono2 le_trans)
    then show ?thesis using 1(2) by (subst bit_length.simps) simp
  qed
qed

lemma bit_length_le: "x < 2 ^ k \<Longrightarrow> bit_length x \<le> k"
proof (cases "x = 0")
  case False
  assume "x < 2 ^ k"
  then have "(2 :: nat) ^ (bit_length x - 1) < 2 ^ k" using bit_length_lower[of x] False by linarith
  then have "bit_length x - 1 < k" by (rule power_less_imp_less_exp[rotated]) simp
  then show ?thesis by simp
qed (simp add: bit_length.simps)

lemma bit_length_ge: "2 ^ k \<le> x \<Longrightarrow> k < bit_length x"
proof -
  assume "2 ^ k \<le> x"
  then have "(2 :: nat) ^ k < 2 ^ bit_length x" using bit_length_upper[of x] by linarith
  then show ?thesis by (rule power_less_imp_less_exp[rotated]) simp
qed

lemma size_to_class_large:
  assumes "4096 < n" "n \<le> BUFFER_POOL_MAX_SIZE"
  shows "size_to_class n = bit_length (n - 1) - 12" "12 < bit_length (n - 1)" "bit_length (n - 1) \<le> 27"
proof -
  show "12 < bit_length (n - 1)" using bit_length_ge[of 12 "n - 1"] assms by simp
  show "bit_length (n - 1) \<le> 27" using bit_length_le[of "n - 1" 27] assms by simp
  then show "size_to_class n = bit_length (n - 1) - 12" using assms by (simp add: size_to_class_def Let_def)
qed

lemma class_to_size_pow: "12 \<le> b \<Longrightarrow> class_to_size (b - 12) = 2 ^ b"
proof -
  assume "12 \<le> b"
  then have "(2 :: nat) ^ b = 2 ^ 12 * 2 ^ (b - 12)" by (metis power_add le_add_diff_inverse)
  then show ?thesis by (simp add: class_to_size_def)
qed

lemma size_to_class_less: "size_to_class n < BUFFER_SIZE_CLASSES"
  by (simp add: size_to_class_def Let_def)

text \<open>
  The branchless size-to-class mapping is exact: a request between 1 byte and 128 MB
  gets a class below 16 whose buffers are large enough, and the next smaller class would not
  be, so no allocation is undersized and none is doubled needlessly.
\<close>

theorem size_class_exact:
  assumes "0 < n" and "n \<le> BUFFER_POOL_MAX_SIZE"
  shows "size_to_class n < BUFFER_SIZE_CLASSES \<and> n \<le> class_to_size (size_to_class n) \<and>
    (size_to_class n = 0 \<or> class_to_size (size_to_class n - 1) < n)"
proof (cases "n \<le> 4096")
  case True
  then show ?thesis by (simp add: size_to_class_def class_to_size_def)
next
  case False
  let ?b = "bit_length (n - 1)"
  have b: "size_to_class n = ?b - 12" "12 < ?b" using size_to_class_large[of n] False assms by auto
  have up: "n \<le> 2 ^ ?b" using bit_length_upper[of "n - 1"] by linarith
  have lo: "2 ^ (?b - 1) < n" using bit_length_lower[of "n - 1"] False by linarith
  have "class_to_size (?b - 12) = 2 ^ ?b" "class_to_size (?b - 1 - 12) = 2 ^ (?b - 1)"
    using b(2) by (intro class_to_size_pow; simp)+
  then have "n \<le> class_to_size (size_to_class n)" "class_to_size (size_to_class n - 1) < n"
    using up lo b by (simp_all add: diff_commute)
  then show ?thesis using size_to_class_less by blast
qed

lemma size_to_class_inverse: "cls < BUFFER_SIZE_CLASSES \<Longrightarrow> size_to_class (class_to_size cls) = cls"
proof (cases "cls = 0")
  case False
  assume c: "cls < BUFFER_SIZE_CLASSES"
  have e: "class_to_size cls = 2 ^ (cls + 12)" using class_to_size_pow[of "cls + 12"] by simp
  have p: "(2 :: nat) ^ 13 \<le> 2 ^ (cls + 12)" "(2 :: nat) ^ (cls + 12) \<le> 2 ^ 27"
    using False c by (intro power_increasing; simp)+
  then have n: "4096 < class_to_size cls" "class_to_size cls \<le> BUFFER_POOL_MAX_SIZE" unfolding e by simp_all
  have "(2 :: nat) ^ (cls + 12) = 2 * 2 ^ (cls + 11)" by (simp add: power_add)
  moreover have "(1 :: nat) \<le> 2 ^ (cls + 11)" by simp
  ultimately have "(2 :: nat) ^ (cls + 11) \<le> 2 ^ (cls + 12) - 1" "(2 :: nat) ^ (cls + 12) - 1 < 2 ^ (cls + 12)"
    by linarith+
  from bit_length_ge[OF this(1)] bit_length_le[OF this(2)]
  have "bit_length (class_to_size cls - 1) = cls + 12" unfolding e by linarith
  then show ?thesis using size_to_class_large(1)[OF n] by simp
qed (simp add: class_to_size_def size_to_class_def)

section \<open>Shard count\<close>

lemma grow_shards_power:
  "\<exists>k. n = 2 ^ k \<and> 1 \<le> k \<and> k \<le> 8 \<Longrightarrow> \<exists>k. grow_shards n target = 2 ^ k \<and> 1 \<le> k \<and> k \<le> 8"
proof (induction n target rule: grow_shards.induct)
  case (1 n target)
  show ?case
  proof (cases "0 < n \<and> n < target \<and> n < BUFFER_POOL_MAX_SHARDS")
    case True
    obtain k where k: "n = 2 ^ k" "1 \<le> k" "k \<le> 8" using 1(2) by blast
    have "(2 :: nat) ^ k < 2 ^ 8" using True k by simp
    then have "k < 8" by (rule power_less_imp_less_exp[rotated]) simp
    then have "\<exists>j. n * 2 = 2 ^ j \<and> 1 \<le> j \<and> j \<le> 8" using k by (intro exI[of _ "Suc k"]) simp
    then show ?thesis using 1(1)[OF True] True by (subst grow_shards.simps) simp
  next
    case False
    then have "grow_shards n target = n" by (subst grow_shards.simps) (simp only: if_False)
    then show ?thesis using 1(2) by simp
  qed
qed

lemma shard_count_power: "\<exists>k. calculate_shard_count cpus = 2 ^ k \<and> 1 \<le> k \<and> k \<le> 8"
proof -
  have "\<exists>k. (2 :: nat) = 2 ^ k \<and> 1 \<le> k \<and> k \<le> 8" by (intro exI[of _ 1]) simp
  then show ?thesis using grow_shards_power[of 2] by (simp add: calculate_shard_count_def Let_def)
qed

section \<open>Well-formedness\<close>

text \<open>
  A shard's slots are either on its free list or carry a buffer, so it cannot run out of slots
  before it is full.
\<close>

definition shard_wf :: "buffer_shard \<Rightarrow> bool" where
  "shard_wf s \<longleftrightarrow> length (size_buckets s) = BUFFER_SIZE_CLASSES \<and>
     length (free_slots_list s) + length (shard_buffers s) = slot_pool_size s \<and>
     sh_free_count s = int (length (shard_buffers s)) \<and> max_free_count s = int (slot_pool_size s)"

definition pool_wf :: "buffer_pool \<Rightarrow> bool" where
  "pool_wf pool \<longleftrightarrow> (\<forall>s \<in> set (shards pool). shard_wf s) \<and>
     (\<not> destroyed pool \<longrightarrow> (\<exists>k \<le> 8. length (shards pool) = 2 ^ k) \<and>
        shard_mask pool = length (shards pool) - 1)"

definition cache_wf :: "buffer_pool list \<Rightarrow> thread_cache \<Rightarrow> bool" where
  "cache_wf ps tc \<longleftrightarrow> length (tc_buffers tc) = BUFFER_SIZE_CLASSES \<and>
     (\<forall>q. tc_pool tc = Some q \<longrightarrow> q < length ps \<and>
        (\<not> destroyed (ps ! q) \<longrightarrow> tc_shard_id tc < length (shards (ps ! q))))"

definition world_wf :: "pool_world \<Rightarrow> bool" where
  "world_wf w \<longleftrightarrow> (\<forall>pool \<in> set (pools w). pool_wf pool) \<and>
     (\<forall>tc \<in> set (caches w). cache_wf (pools w) tc) \<and>
     (\<forall>t c. tls_cache w t = Some c \<longrightarrow> c < length (caches w)) \<and>
     (\<forall>t c. tls_spec w t = Some c \<longrightarrow> c < length (caches w)) \<and>
     (\<forall>pool \<in> set (pools w). set (thread_caches pool) \<subseteq> {..<length (caches w)})"

section \<open>Cached buffers\<close>

definition pool_cached :: "buffer_pool \<Rightarrow> u64 multiset" where
  "pool_cached pool = sum_list (map (\<lambda>s. mset (shard_buffers s)) (shards pool))"

definition cache_cached :: "thread_cache \<Rightarrow> u64 multiset" where
  "cache_cached tc = mset (concat (tc_buffers tc))"

definition world_cached :: "pool_world \<Rightarrow> u64 multiset" where
  "world_cached w = sum_list (map pool_cached (pools w)) + sum_list (map cache_cached (caches w))"

lemma sum_list_update_mset:
  fixes f :: "'a \<Rightarrow> 'b multiset"
  shows "i < length xs \<Longrightarrow> sum_list (map f (xs[i := x])) + f (xs ! i) = sum_list (map f xs) + f x"
proof (induction xs arbitrary: i)
  case (Cons y ys)
  show ?case
  proof (cases i)
    case (Suc j)
    then have "sum_list (map f (ys[j := x])) + f (ys ! j) = sum_list (map f ys) + f x"
      using Cons by simp
    then show ?thesis using Suc by (simp add: add.assoc)
  qed simp
qed simp

lemma mset_concat_update:
  "i < length xss \<Longrightarrow> mset (concat (xss[i := ys])) + mset (xss ! i) = mset (concat xss) + mset ys"
  using sum_list_update_mset[of i xss mset ys] by (simp add: mset_concat)

lemma length_concat_update:
  assumes "i < length xss"
  shows "length (concat (xss[i := ys])) + length (xss ! i) = length (concat xss) + length ys"
  using arg_cong[OF mset_concat_update[OF assms, of ys], of size] by simp

lemma shard_buffers_update:
  assumes "cls < length (size_buckets s)" "size_buckets s' = (size_buckets s)[cls := sls]"
  shows "mset (shard_buffers s') + mset (map slot_buffer (size_buckets s ! cls)) =
      mset (shard_buffers s) + mset (map slot_buffer sls)"
  using mset_concat_update[of cls "map (map slot_buffer) (size_buckets s)" "map slot_buffer sls"] assms
  by (simp add: shard_buffers_def map_update)

lemma shard_pop_props:
  assumes "shard_wf s" "cls < BUFFER_SIZE_CLASSES" "shard_pop cls s = Some (b, s')"
  shows "shard_wf s'" "mset (shard_buffers s) = add_mset b (mset (shard_buffers s'))"
proof -
  obtain sl sls where e: "size_buckets s ! cls = sl # sls" "b = slot_buffer sl"
    "s' = s\<lparr>size_buckets := (size_buckets s)[cls := sls], sh_free_count := sh_free_count s - 1,
            free_slots_list := slot_id sl # free_slots_list s\<rparr>"
    using assms(3) by (auto simp: shard_pop_def split: list.splits)
  have c: "cls < length (size_buckets s)" using assms by (simp add: shard_wf_def)
  have "mset (shard_buffers s') + mset (map slot_buffer (size_buckets s ! cls)) =
      mset (shard_buffers s) + mset (map slot_buffer sls)"
    by (rule shard_buffers_update[OF c]) (simp add: e(3))
  then show m: "mset (shard_buffers s) = add_mset b (mset (shard_buffers s'))" using e by simp
  then have "length (shard_buffers s) = Suc (length (shard_buffers s'))"
    by (metis size_mset size_add_mset)
  then show "shard_wf s'" using assms(1) e(3) by (simp add: shard_wf_def)
qed

lemma shard_push_props:
  assumes "shard_wf s" "cls < BUFFER_SIZE_CLASSES" "shard_push cls bs b s = Some s'"
  shows "shard_wf s'" "mset (shard_buffers s') = add_mset b (mset (shard_buffers s))"
proof -
  obtain i ids where e: "free_slots_list s = i # ids"
    "s' = s\<lparr>free_slots_list := ids, size_buckets := (size_buckets s)
       [cls := \<lparr>slot_id = i, slot_buffer = b, slot_size = bs\<rparr> # size_buckets s ! cls],
       sh_free_count := sh_free_count s + 1\<rparr>"
    using assms(3) by (auto simp: shard_push_def split: list.splits)
  have c: "cls < length (size_buckets s)" using assms by (simp add: shard_wf_def)
  have "mset (shard_buffers s') + mset (map slot_buffer (size_buckets s ! cls)) =
      mset (shard_buffers s) +
      mset (map slot_buffer (\<lparr>slot_id = i, slot_buffer = b, slot_size = bs\<rparr> # size_buckets s ! cls))"
    by (rule shard_buffers_update[OF c]) (simp add: e(2))
  then show m: "mset (shard_buffers s') = add_mset b (mset (shard_buffers s))" by simp
  then have "length (shard_buffers s') = Suc (length (shard_buffers s))"
    by (metis size_mset size_add_mset)
  then show "shard_wf s'" using assms(1) e by (simp add: shard_wf_def)
qed

text \<open>Slots and the high-water mark agree: only a full shard has no free slot.\<close>

lemma shard_push_none: "shard_wf s \<Longrightarrow> 0 < slot_pool_size s \<Longrightarrow> shard_push cls bs b s = None \<Longrightarrow> shard_full s"
  by (auto simp: shard_push_def shard_wf_def shard_full_def split: list.splits)

lemma refill_loop_props:
  assumes "refill_loop r cls s bufs n = (s', bufs', n')" "shard_wf s" "cls < BUFFER_SIZE_CLASSES"
  shows "shard_wf s'" "mset (shard_buffers s') + mset bufs' = mset (shard_buffers s) + mset bufs"
    "n \<le> n'" "n < n' \<Longrightarrow> bufs' \<noteq> []" "n = n' \<Longrightarrow> s' = s \<and> bufs' = bufs"
proof -
  have "shard_wf s' \<and> mset (shard_buffers s') + mset bufs' = mset (shard_buffers s) + mset bufs \<and>
      n \<le> n' \<and> (n < n' \<longrightarrow> bufs' \<noteq> []) \<and> (n = n' \<longrightarrow> s' = s \<and> bufs' = bufs)"
    using assms(1,2)
  proof (induction r arbitrary: s bufs n)
    case (Suc r)
    show ?case
    proof (cases "length bufs < THREAD_CACHE_SIZE \<and> shard_pop cls s \<noteq> None")
      case True
      then obtain b s1 where p: "shard_pop cls s = Some (b, s1)" by auto
      note sp = shard_pop_props[OF Suc.prems(2) assms(3) p]
      have "refill_loop r cls s1 (b # bufs) (n + 1) = (s', bufs', n')" using Suc.prems(1) True p by simp
      from Suc.IH[OF this sp(1)] sp(2) show ?thesis by (cases "n + 1 < n'") auto
    next
      case False
      then show ?thesis using Suc.prems by (auto split: if_splits option.splits)
    qed
  qed simp
  then show "shard_wf s'" "mset (shard_buffers s') + mset bufs' = mset (shard_buffers s) + mset bufs"
    "n \<le> n'" "n < n' \<Longrightarrow> bufs' \<noteq> []" "n = n' \<Longrightarrow> s' = s \<and> bufs' = bufs" by auto
qed

lemma flush_loop_props:
  assumes "flush_loop cls bs s bufs fr n = (s', bufs', fr', n')" "shard_wf s" "cls < BUFFER_SIZE_CLASSES"
  shows "shard_wf s'"
    "mset (shard_buffers s') + mset bufs' + mset fr' = mset (shard_buffers s) + mset bufs + mset fr"
    "n < THREAD_CACHE_BATCH_SIZE \<Longrightarrow> bufs \<noteq> [] \<Longrightarrow> length bufs' < length bufs"
    "length bufs' \<le> length bufs"
proof -
  have "shard_wf s' \<and> mset (shard_buffers s') + mset bufs' + mset fr' =
      mset (shard_buffers s) + mset bufs + mset fr \<and>
      (n < THREAD_CACHE_BATCH_SIZE \<longrightarrow> bufs \<noteq> [] \<longrightarrow> length bufs' < length bufs) \<and> length bufs' \<le> length bufs"
    using assms(1,2)
  proof (induction bufs arbitrary: s fr n)
    case (Cons b bufs)
    consider "n \<ge> THREAD_CACHE_BATCH_SIZE" | "n < THREAD_CACHE_BATCH_SIZE" "shard_full s"
      | "n < THREAD_CACHE_BATCH_SIZE" "\<not> shard_full s" "shard_push cls bs b s = None"
      | s1 where "n < THREAD_CACHE_BATCH_SIZE" "\<not> shard_full s" "shard_push cls bs b s = Some s1"
      by (cases "shard_push cls bs b s"; cases "shard_full s"; cases "n < THREAD_CACHE_BATCH_SIZE") auto
    then show ?case
    proof cases
      case 3
      then have "flush_loop cls bs s bufs (fr @ [b]) n = (s', bufs', fr', n')" using Cons.prems by simp
      from Cons.IH[OF this Cons.prems(2)] show ?thesis by (auto simp: add.assoc add.commute)
    next
      case (4 s1)
      note sp = shard_push_props[OF Cons.prems(2) assms(3) 4(3)]
      have "flush_loop cls bs s1 bufs fr (n + 1) = (s', bufs', fr', n')" using Cons.prems 4 by simp
      from Cons.IH[OF this sp(1)] sp(2) show ?thesis by auto
    qed (use Cons.prems in auto)
  qed simp
  then show "shard_wf s'"
    "mset (shard_buffers s') + mset bufs' + mset fr' = mset (shard_buffers s) + mset bufs + mset fr"
    "n < THREAD_CACHE_BATCH_SIZE \<Longrightarrow> bufs \<noteq> [] \<Longrightarrow> length bufs' < length bufs"
    "length bufs' \<le> length bufs" by auto
qed

section \<open>Effect of the primitive updates\<close>

lemma upd_frames [simp]:
  "caches (upd_pool p f w) = caches w" "tls_cache (upd_pool p f w) = tls_cache w"
  "tls_spec (upd_pool p f w) = tls_spec w" "heap (upd_pool p f w) = heap w"
  "length (pools (upd_pool p f w)) = length (pools w)"
  "pools (upd_cache c g w) = pools w" "tls_cache (upd_cache c g w) = tls_cache w"
  "tls_spec (upd_cache c g w) = tls_spec w" "heap (upd_cache c g w) = heap w"
  "length (caches (upd_cache c g w)) = length (caches w)"
  "pools (heap_free bs w) = pools w" "caches (heap_free bs w) = caches w"
  "tls_cache (heap_free bs w) = tls_cache w" "tls_spec (heap_free bs w) = tls_spec w"
  "heap (heap_free bs w) = heap w - mset bs"
  by (simp_all add: upd_pool_def upd_cache_def heap_free_def)

lemma exchange_inside:
  fixes a :: "'b multiset"
  assumes "a' + x = a + x'" "s' + a = s + a'"
  shows "s' + x = s + x'"
proof -
  have "(s' + x) + a = (s' + a) + x" by (simp add: ac_simps)
  also have "\<dots> = s + (a' + x)" unfolding assms(2) by (simp add: ac_simps)
  also have "\<dots> = (s + x') + a" unfolding assms(1) by (simp add: ac_simps)
  finally show ?thesis by simp
qed

lemma exchange_total:
  fixes a :: "'b multiset"
  assumes "r + old = m + bufs" "m + sh = a + sh'" "sh' + bufs + fr = sh + old"
  shows "r + fr = a"
proof -
  have "(r + fr) + (old + sh) = (r + old) + (sh + fr)" by (simp add: ac_simps)
  also have "\<dots> = (m + sh) + (bufs + fr)" unfolding assms(1) by (simp add: ac_simps)
  also have "\<dots> = a + (sh' + bufs + fr)" unfolding assms(2) by (simp add: ac_simps)
  also have "\<dots> = a + (old + sh)" unfolding assms(3) by (simp add: ac_simps)
  finally show ?thesis by simp
qed

lemma set_update_mem: "x \<in> set (xs[i := y]) \<Longrightarrow> x = y \<or> x \<in> set xs"
  using set_update_subset_insert by fastforce

lemma world_wf_pool: "world_wf w \<Longrightarrow> p < length (pools w) \<Longrightarrow> pool_wf (pools w ! p)"
  by (simp add: world_wf_def)

lemma world_wf_cache: "world_wf w \<Longrightarrow> c < length (caches w) \<Longrightarrow> cache_wf (pools w) (caches w ! c)"
  by (simp add: world_wf_def)

text \<open>A pool update that keeps or adds shards of the same number.\<close>

lemma upd_pool_wf:
  assumes w: "world_wf w" and p: "p < length (pools w)"
    and f: "pool_wf (f (pools w ! p))" "destroyed (f (pools w ! p)) = destroyed (pools w ! p)"
      "length (shards (f (pools w ! p))) = length (shards (pools w ! p))"
      "set (thread_caches (f (pools w ! p))) \<subseteq> {..<length (caches w)}"
  shows "world_wf (upd_pool p f w)"
proof -
  let ?ps = "(pools w)[p := f (pools w ! p)]"
  have same: "destroyed (?ps ! q) = destroyed (pools w ! q)"
      "length (shards (?ps ! q)) = length (shards (pools w ! q))" for q
    using f(2,3) p by (cases "q = p"; simp)+
  have "cache_wf ?ps tc" if "cache_wf (pools w) tc" for tc
    using that by (simp add: cache_wf_def same)
  moreover have "pool_wf pool \<and> set (thread_caches pool) \<subseteq> {..<length (caches w)}"
    if "pool \<in> set ((pools w)[p := f (pools w ! p)])" for pool
    using set_update_mem[OF that] w f by (auto simp: world_wf_def)
  ultimately show ?thesis using w by (auto simp: world_wf_def upd_pool_def)
qed

lemma upd_pool_neutral:
  assumes "world_wf w" "p < length (pools w)"
    "\<And>x. shards (f x) = shards x" "\<And>x. destroyed (f x) = destroyed x"
    "\<And>x. shard_mask (f x) = shard_mask x" "\<And>x. thread_caches (f x) = thread_caches x"
  shows "world_wf (upd_pool p f w)" "world_cached (upd_pool p f w) = world_cached w"
proof -
  have "pool_wf (f (pools w ! p))" using world_wf_pool[OF assms(1,2)] assms(3-5) by (simp add: pool_wf_def)
  moreover have "set (thread_caches (f (pools w ! p))) \<subseteq> {..<length (caches w)}"
    using assms(1,2,6) by (simp add: world_wf_def)
  ultimately show "world_wf (upd_pool p f w)" using assms(3,4) by (intro upd_pool_wf[OF assms(1,2)]) auto
  have "pool_cached (f (pools w ! p)) = pool_cached (pools w ! p)" using assms(3) by (simp add: pool_cached_def)
  then have "map pool_cached ((pools w)[p := f (pools w ! p)]) = map pool_cached (pools w)"
    by (simp add: map_update list_update_same_conv assms(2))
  then show "world_cached (upd_pool p f w) = world_cached w"
    unfolding world_cached_def upd_pool_def by simp
qed

lemma upd_shard:
  assumes w: "world_wf w" and p: "p < length (pools w)" and i: "i < length (shards (pools w ! p))"
    and s: "shard_wf s"
  shows "world_wf (upd_pool p (\<lambda>pool. pool\<lparr>shards := (shards pool)[i := s]\<rparr>) w)"
    "world_cached (upd_pool p (\<lambda>pool. pool\<lparr>shards := (shards pool)[i := s]\<rparr>) w) +
       mset (shard_buffers (shards (pools w ! p) ! i)) = world_cached w + mset (shard_buffers s)"
proof -
  let ?f = "\<lambda>pool. pool\<lparr>shards := (shards pool)[i := s]\<rparr>" and ?x = "pools w ! p"
  have "pool_wf (?f ?x)" using world_wf_pool[OF w p] s by (auto simp: pool_wf_def dest: set_update_mem)
  then show "world_wf (upd_pool p ?f w)"
    using w p by (intro upd_pool_wf[OF w p]) (auto simp: world_wf_def)
  have a: "pool_cached (?f ?x) + mset (shard_buffers (shards ?x ! i)) = pool_cached ?x + mset (shard_buffers s)"
    using sum_list_update_mset[OF i, of "\<lambda>s. mset (shard_buffers s)" s] by (simp add: pool_cached_def)
  have b: "sum_list (map pool_cached ((pools w)[p := ?f ?x])) + pool_cached ?x =
      sum_list (map pool_cached (pools w)) + pool_cached (?f ?x)"
    by (rule sum_list_update_mset[OF p])
  from exchange_inside[OF a b] show "world_cached (upd_pool p ?f w) + mset (shard_buffers (shards (pools w ! p) ! i)) =
      world_cached w + mset (shard_buffers s)"
    unfolding world_cached_def upd_pool_def by (simp add: ac_simps)
qed

lemma upd_cache_wf:
  assumes w: "world_wf w" and c: "c < length (caches w)" and g: "cache_wf (pools w) (g (caches w ! c))"
  shows "world_wf (upd_cache c g w)"
  using assms by (auto simp: world_wf_def upd_cache_def dest: set_update_mem)

lemma upd_cache_neutral:
  assumes "world_wf w" "c < length (caches w)"
    "\<And>x. tc_buffers (g x) = tc_buffers x" "\<And>x. tc_pool (g x) = tc_pool x \<or> tc_pool (g x) = None"
    "\<And>x. tc_shard_id (g x) = tc_shard_id x"
  shows "world_wf (upd_cache c g w)" "world_cached (upd_cache c g w) = world_cached w"
proof -
  have "cache_wf (pools w) (g (caches w ! c))"
    using world_wf_cache[OF assms(1,2)] assms(3-5) unfolding cache_wf_def by (metis option.distinct(1))
  then show "world_wf (upd_cache c g w)" by (rule upd_cache_wf[OF assms(1,2)])
  have "map cache_cached ((caches w)[c := g (caches w ! c)]) = map cache_cached (caches w)"
    using assms(2,3) by (simp add: map_update list_update_same_conv cache_cached_def)
  then show "world_cached (upd_cache c g w) = world_cached w"
    unfolding world_cached_def upd_cache_def by simp
qed

lemma upd_class:
  assumes w: "world_wf w" and c: "c < length (caches w)" and cls: "cls < BUFFER_SIZE_CLASSES"
  shows "world_wf (upd_cache c (\<lambda>tc. tc\<lparr>tc_buffers := (tc_buffers tc)[cls := bufs]\<rparr>) w)"
    "world_cached (upd_cache c (\<lambda>tc. tc\<lparr>tc_buffers := (tc_buffers tc)[cls := bufs]\<rparr>) w) +
       mset (tc_buffers (caches w ! c) ! cls) = world_cached w + mset bufs"
proof -
  let ?g = "\<lambda>tc. tc\<lparr>tc_buffers := (tc_buffers tc)[cls := bufs]\<rparr>" and ?x = "caches w ! c"
  have x: "cache_wf (pools w) ?x" by (rule world_wf_cache[OF w c])
  then show "world_wf (upd_cache c ?g w)" by (intro upd_cache_wf[OF w c]) (auto simp: cache_wf_def)
  have a: "cache_cached (?g ?x) + mset (tc_buffers ?x ! cls) = cache_cached ?x + mset bufs"
    using mset_concat_update[of cls "tc_buffers ?x" bufs] x cls by (simp add: cache_cached_def cache_wf_def)
  have b: "sum_list (map cache_cached ((caches w)[c := ?g ?x])) + cache_cached ?x =
      sum_list (map cache_cached (caches w)) + cache_cached (?g ?x)"
    by (rule sum_list_update_mset[OF c])
  from exchange_inside[OF a b] show "world_cached (upd_cache c ?g w) + mset (tc_buffers (caches w ! c) ! cls) = world_cached w + mset bufs"
    unfolding world_cached_def upd_cache_def by (simp add: ac_simps)
qed

text \<open>A simultaneous exchange between a shard and one class of a cache.\<close>

lemma shard_cache_exchange:
  assumes w: "world_wf w" and p: "p < length (pools w)" and i: "i < length (shards (pools w ! p))"
    and s: "shard_wf s" and c: "c < length (caches w)" and cls: "cls < BUFFER_SIZE_CLASSES"
    and e: "mset (shard_buffers s) + mset bufs + mset fr =
      mset (shard_buffers (shards (pools w ! p) ! i)) + mset (tc_buffers (caches w ! c) ! cls)"
  defines "w' \<equiv> upd_cache c (\<lambda>tc. tc\<lparr>tc_buffers := (tc_buffers tc)[cls := bufs]\<rparr>)
      (upd_pool p (\<lambda>pool. pool\<lparr>shards := (shards pool)[i := s]\<rparr>) w)"
  shows "world_wf w'" "world_cached w' + mset fr = world_cached w"
proof -
  let ?w1 = "upd_pool p (\<lambda>pool. pool\<lparr>shards := (shards pool)[i := s]\<rparr>) w"
  note s1 = upd_shard[OF w p i s]
  have c1: "c < length (caches ?w1)" using c by simp
  note s2 = upd_class[OF s1(1) c1 cls, of bufs]
  show "world_wf w'" unfolding w'_def by (rule s2(1))
  have "world_cached w' + mset (tc_buffers (caches w ! c) ! cls) = world_cached ?w1 + mset bufs"
    unfolding w'_def using s2(2) by simp
  moreover have "world_cached ?w1 + mset (shard_buffers (shards (pools w ! p) ! i)) =
      world_cached w + mset (shard_buffers s)" by (rule s1(2))
  ultimately show "world_cached w' + mset fr = world_cached w" using e by (rule exchange_total)
qed

section \<open>The operations conserve buffers\<close>

text \<open>Every live heap buffer is cached in the pool or outstanding with a user.\<close>

definition conserved :: "u64 multiset \<Rightarrow> pool_world \<Rightarrow> bool" where
  "conserved U w \<longleftrightarrow> world_wf w \<and> heap w = world_cached w + U"

lemma conserved_free:
  assumes "world_wf w" "heap w = world_cached w + U + mset bs"
  shows "conserved U (heap_free bs w)"
proof -
  have "world_wf (heap_free bs w)" using assms(1) by (simp add: world_wf_def)
  moreover have "world_cached (heap_free bs w) = world_cached w" by (simp add: world_cached_def)
  ultimately show ?thesis using assms(2) by (simp add: conserved_def)
qed

lemma cache_refill_conserved:
  assumes "conserved U w" "p < length (pools w)" "c < length (caches w)" "cls < BUFFER_SIZE_CLASSES"
    "tc_shard_id (caches w ! c) < length (shards (pools w ! p))" "cache_refill p c cls w = (n, w')"
  shows "conserved U w'" "n > 0 \<Longrightarrow> tc_buffers (caches w' ! c) ! cls \<noteq> []"
    "length (pools w') = length (pools w)" "length (caches w') = length (caches w)"
    "tc_shard_id (caches w' ! c) = tc_shard_id (caches w ! c)"
    "length (shards (pools w' ! p)) = length (shards (pools w ! p))"
proof -
  let ?i = "tc_shard_id (caches w ! c)"
  obtain s bufs where r: "refill_loop 16 cls (shards (pools w ! p) ! ?i) (tc_buffers (caches w ! c) ! cls) 0 = (s, bufs, n)"
    and w': "w' = upd_cache c (\<lambda>tc. tc\<lparr>tc_buffers := (tc_buffers tc)[cls := bufs]\<rparr>)
      (upd_pool p (\<lambda>pool. pool\<lparr>shards := (shards pool)[?i := s]\<rparr>) w)"
    using assms(6) by (auto simp: cache_refill_def Let_def split: prod.splits)
  have wf: "world_wf w" using assms(1) by (simp add: conserved_def)
  have sw: "shard_wf (shards (pools w ! p) ! ?i)"
    using world_wf_pool[OF wf assms(2)] assms(5) by (simp add: pool_wf_def)
  note rp = refill_loop_props[OF r sw assms(4)]
  have e: "mset (shard_buffers s) + mset bufs + mset [] =
      mset (shard_buffers (shards (pools w ! p) ! ?i)) + mset (tc_buffers (caches w ! c) ! cls)"
    using rp(2) by simp
  note ex = shard_cache_exchange[OF wf assms(2,5) rp(1) assms(3,4) e, folded w']
  show "conserved U w'" using assms(1) ex w' by (simp add: conserved_def)
  have "length (tc_buffers (caches w ! c)) = 16" using world_wf_cache[OF wf assms(3)] by (simp add: cache_wf_def)
  then show "n > 0 \<Longrightarrow> tc_buffers (caches w' ! c) ! cls \<noteq> []"
    using rp(4) assms(3,4) unfolding w' by (simp add: upd_cache_def upd_pool_def)
  show "length (pools w') = length (pools w)" "length (caches w') = length (caches w)"
    "tc_shard_id (caches w' ! c) = tc_shard_id (caches w ! c)"
    "length (shards (pools w' ! p)) = length (shards (pools w ! p))"
    using assms(2,3) unfolding w' by (simp_all add: upd_cache_def upd_pool_def)
qed

text \<open>The parts of a world that only registration and destruction change.\<close>

definition skel where
  "skel w = (map (\<lambda>x. (destroyed x, length (shards x))) (pools w),
             map (\<lambda>x. (tc_pool x, tc_shard_id x)) (caches w))"

lemma skel_lengths:
  "skel w' = skel w \<Longrightarrow> length (pools w') = length (pools w) \<and> length (caches w') = length (caches w)"
  by (auto simp: skel_def dest: arg_cong[where f = length])

lemma skel_nth:
  assumes "skel w' = skel w"
  shows "p < length (pools w) \<Longrightarrow> destroyed (pools w' ! p) = destroyed (pools w ! p) \<and>
      length (shards (pools w' ! p)) = length (shards (pools w ! p))"
    "c < length (caches w) \<Longrightarrow> tc_pool (caches w' ! c) = tc_pool (caches w ! c) \<and>
      tc_shard_id (caches w' ! c) = tc_shard_id (caches w ! c)"
proof -
  have "map (\<lambda>x. (destroyed x, length (shards x))) (pools w') = map (\<lambda>x. (destroyed x, length (shards x))) (pools w)"
    "map (\<lambda>x. (tc_pool x, tc_shard_id x)) (caches w') = map (\<lambda>x. (tc_pool x, tc_shard_id x)) (caches w)"
    using assms by (simp_all add: skel_def)
  then show "p < length (pools w) \<Longrightarrow> destroyed (pools w' ! p) = destroyed (pools w ! p) \<and>
      length (shards (pools w' ! p)) = length (shards (pools w ! p))"
    "c < length (caches w) \<Longrightarrow> tc_pool (caches w' ! c) = tc_pool (caches w ! c) \<and>
      tc_shard_id (caches w' ! c) = tc_shard_id (caches w ! c)"
    using skel_lengths[OF assms] by (metis (mono_tags, lifting) nth_map prod.inject)+
qed

lemma skel_upd_pool:
  assumes "\<And>x. destroyed (f x) = destroyed x" "\<And>x. length (shards (f x)) = length (shards x)"
  shows "skel (upd_pool p f w) = skel w"
  using assms by (cases "p < length (pools w)")
    (simp_all add: skel_def upd_pool_def map_update list_update_same_conv list_update_beyond)

lemma skel_upd_cache:
  assumes "\<And>x. tc_pool (g x) = tc_pool x" "\<And>x. tc_shard_id (g x) = tc_shard_id x"
  shows "skel (upd_cache c g w) = skel w"
  using assms by (cases "c < length (caches w)")
    (simp_all add: skel_def upd_cache_def map_update list_update_same_conv list_update_beyond)

lemma skel_heap_free [simp]: "skel (heap_free bs w) = skel w"
  by (simp add: skel_def)

text \<open>The shard a cache of a live pool is assigned to.\<close>

definition bound :: "nat \<Rightarrow> nat \<Rightarrow> pool_world \<Rightarrow> bool" where
  "bound p c w \<longleftrightarrow> p < length (pools w) \<and> c < length (caches w) \<and>
     tc_shard_id (caches w ! c) < length (shards (pools w ! p))"

lemma bound_skel: "skel w' = skel w \<Longrightarrow> bound p c w' = bound p c w"
  using skel_lengths[of w' w] skel_nth[of w' w] by (auto simp: bound_def)

lemma class_length:
  "conserved U w \<Longrightarrow> c < length (caches w) \<Longrightarrow> length (tc_buffers (caches w ! c)) = BUFFER_SIZE_CLASSES"
  using world_wf_cache[of w c] by (simp add: conserved_def cache_wf_def)

lemma cache_flush_conserved:
  fixes bs :: nat
  assumes "conserved U w" "bound p c w" "cls < BUFFER_SIZE_CLASSES"
  defines "w' \<equiv> snd (cache_flush p c cls bs w)"
  shows "conserved U w'" "skel w' = skel w"
    "tc_buffers (caches w ! c) ! cls \<noteq> [] \<Longrightarrow>
       length (tc_buffers (caches w' ! c) ! cls) < length (tc_buffers (caches w ! c) ! cls)"
    "tls_cache w' = tls_cache w"
proof -
  let ?i = "tc_shard_id (caches w ! c)"
  have b: "p < length (pools w)" "c < length (caches w)" "?i < length (shards (pools w ! p))"
    using assms(2) by (auto simp: bound_def)
  obtain s bufs fr n where r: "flush_loop cls bs (shards (pools w ! p) ! ?i)
      (tc_buffers (caches w ! c) ! cls) [] 0 = (s, bufs, fr, n)" by (metis prod_cases4)
  define w2 where "w2 = upd_cache c (\<lambda>tc. tc\<lparr>tc_buffers := (tc_buffers tc)[cls := bufs]\<rparr>)
      (upd_pool p (\<lambda>pool. pool\<lparr>shards := (shards pool)[?i := s]\<rparr>) w)"
  let ?un = "upd_pool p (unaccount (bs * length fr) (length fr)) w2"
  have w': "w' = (if fr \<noteq> [] then heap_free fr ?un else w2)"
    using r by (simp add: w'_def cache_flush_def Let_def w2_def)
  have wf: "world_wf w" using assms(1) by (simp add: conserved_def)
  have sw: "shard_wf (shards (pools w ! p) ! ?i)"
    using world_wf_pool[OF wf b(1)] b(3) by (simp add: pool_wf_def)
  note fp = flush_loop_props[OF r sw assms(3)]
  have e: "mset (shard_buffers s) + mset bufs + mset fr =
      mset (shard_buffers (shards (pools w ! p) ! ?i)) + mset (tc_buffers (caches w ! c) ! cls)"
    using fp(2) by simp
  note ex = shard_cache_exchange[OF wf b(1,3) fp(1) b(2) assms(3) e, folded w2_def]
  have b2: "p < length (pools w2)" using b(1) by (simp add: w2_def)
  note un = upd_pool_neutral[OF ex(1) b2, of "unaccount (bs * length fr) (length fr)", simplified unaccount_def, simplified]
  have "heap w2 = world_cached w2 + U + mset fr"
    using assms(1) ex(2) by (simp add: conserved_def w2_def ac_simps)
  then show "conserved U w'"
    using w' conserved_free[of ?un U fr] ex un by (simp add: conserved_def unaccount_def)
  have "skel w2 = skel w" unfolding w2_def by (simp add: skel_upd_cache skel_upd_pool)
  then show "skel w' = skel w" using w' by (simp add: skel_upd_pool unaccount_def)
  have "tc_buffers (caches w' ! c) ! cls = bufs"
    using w' b(2) assms(3) class_length[OF assms(1) b(2)]
    by (simp add: w2_def upd_cache_def)
  then show "tc_buffers (caches w ! c) ! cls \<noteq> [] \<Longrightarrow>
       length (tc_buffers (caches w' ! c) ! cls) < length (tc_buffers (caches w ! c) ! cls)"
    using fp(3) by simp
  show "tls_cache w' = tls_cache w" using w' by (simp add: w2_def)
qed

lemma flush_class_conserved:
  assumes "conserved U w" "bound p c w" "cls < BUFFER_SIZE_CLASSES"
  shows "conserved U (flush_class fuel p c cls w)" "skel (flush_class fuel p c cls w) = skel w"
proof -
  have "conserved U (flush_class fuel p c cls w) \<and> skel (flush_class fuel p c cls w) = skel w"
    using assms(1,2)
  proof (induction fuel arbitrary: w)
    case (Suc fuel)
    note f = cache_flush_conserved[OF Suc.prems assms(3), of "class_to_size cls"]
    have "bound p c (snd (cache_flush p c cls (class_to_size cls) w))"
      using Suc.prems(2) bound_skel[OF f(2)] by simp
    from Suc.IH[OF f(1) this] f(2) Suc.prems show ?case by simp
  qed simp
  then show "conserved U (flush_class fuel p c cls w)" "skel (flush_class fuel p c cls w) = skel w" by auto
qed

text \<open>With a unit of fuel per buffer the class ends up empty.\<close>

lemma flush_class_empties:
  assumes "conserved U w" "bound p c w" "cls < BUFFER_SIZE_CLASSES"
    "length (tc_buffers (caches w ! c) ! cls) \<le> fuel"
  shows "tc_buffers (caches (flush_class fuel p c cls w) ! c) ! cls = []"
  using assms(1,2,4)
proof (induction fuel arbitrary: w)
  case (Suc fuel)
  show ?case
  proof (cases "tc_buffers (caches w ! c) ! cls = []")
    case False
    note f = cache_flush_conserved[OF Suc.prems(1,2) assms(3), of "class_to_size cls"]
    have "bound p c (snd (cache_flush p c cls (class_to_size cls) w))"
      using Suc.prems(2) bound_skel[OF f(2)] by simp
    from Suc.IH[OF f(1) this] f(3)[OF False] Suc.prems(3) False show ?thesis by simp
  qed simp
qed simp

lemma fold_conserved:
  assumes "conserved U w" "bound p c w" "set cs \<subseteq> {..<BUFFER_SIZE_CLASSES}"
    and step: "\<And>cls w. cls < BUFFER_SIZE_CLASSES \<Longrightarrow> conserved U w \<Longrightarrow> bound p c w \<Longrightarrow>
      conserved U (f cls w) \<and> skel (f cls w) = skel w"
  shows "conserved U (fold f cs w) \<and> skel (fold f cs w) = skel w"
  using assms(1-3)
proof (induction cs arbitrary: w)
  case (Cons k cs)
  have f: "conserved U (f k w)" "skel (f k w) = skel w" using step[of k w] Cons.prems by auto
  have "bound p c (f k w)" using Cons.prems(2) bound_skel[OF f(2)] by simp
  from Cons.IH[OF f(1) this] Cons.prems(3) f(2) show ?case by simp
qed simp

lemma flush_all_conserved:
  assumes "conserved U w" "bound p c w"
  shows "conserved U (flush_all p c w) \<and> skel (flush_all p c w) = skel w"
  unfolding flush_all_def
  by (rule fold_conserved[OF assms]) (auto simp: flush_class_conserved)

lemma free_class_conserved:
  assumes "conserved U w" "c < length (caches w)" "cls < BUFFER_SIZE_CLASSES"
    "\<And>q. p = Some q \<Longrightarrow> q < length (pools w)"
  shows "conserved U (free_class p c cls w)" "skel (free_class p c cls w) = skel w"
proof -
  let ?bufs = "tc_buffers (caches w ! c) ! cls"
  let ?g = "\<lambda>tc. tc\<lparr>tc_buffers := (tc_buffers tc)[cls := []]\<rparr>"
  have wf: "world_wf w" using assms(1) by (simp add: conserved_def)
  note cl = upd_class[OF wf assms(2,3), of "[]"]
  have h: "heap (upd_cache c ?g w) = world_cached (upd_cache c ?g w) + U + mset ?bufs"
    using assms(1) cl(2) by (simp add: conserved_def ac_simps)
  have k: "skel (upd_cache c ?g w) = skel w" by (simp add: skel_upd_cache)
  have "conserved U (free_class p c cls w) \<and> skel (free_class p c cls w) = skel w"
  proof (cases "?bufs = []")
    case True
    then show ?thesis using assms(1) by (simp add: free_class_def)
  next
    case False
    let ?n = "length ?bufs"
    have comm: "upd_cache c ?g (heap_free bs x) = heap_free bs (upd_cache c ?g x)"
      "upd_cache c ?g (upd_pool q f x) = upd_pool q f (upd_cache c ?g x)" 
      "upd_pool q f (heap_free bs x) = heap_free bs (upd_pool q f x)" for bs x q f
      by (simp_all add: upd_cache_def heap_free_def upd_pool_def)
    show ?thesis
    proof (cases p)
      case None
      then have "free_class p c cls w = heap_free ?bufs (upd_cache c ?g w)"
        using False by (simp add: free_class_def Let_def comm)
      then show ?thesis using conserved_free[OF cl(1) h] k by simp
    next
      case (Some q)
      let ?u = "unaccount (class_to_size cls * ?n) ?n"
      have q: "q < length (pools (upd_cache c ?g w))" using assms(4) Some by simp
      have e: "free_class p c cls w = heap_free ?bufs (upd_pool q ?u (upd_cache c ?g w))"
        using False Some by (simp add: free_class_def Let_def comm)
      note u = upd_pool_neutral[OF cl(1) q, of ?u, simplified unaccount_def, simplified]
      have "heap (upd_pool q ?u (upd_cache c ?g w)) = world_cached (upd_pool q ?u (upd_cache c ?g w)) + U + mset ?bufs"
        using h u(2) by (simp add: unaccount_def)
      then show ?thesis
        using conserved_free[of "upd_pool q ?u (upd_cache c ?g w)" U ?bufs] u(1) e k
        by (simp add: unaccount_def skel_upd_pool)
    qed
  qed
  then show "conserved U (free_class p c cls w)" "skel (free_class p c cls w) = skel w" by auto
qed

lemma upd_cache_conserved:
  assumes "conserved U w" "c < length (caches w)"
    "\<And>x. tc_buffers (g x) = tc_buffers x" "\<And>x. tc_pool (g x) = tc_pool x \<or> tc_pool (g x) = None"
    "\<And>x. tc_shard_id (g x) = tc_shard_id x"
  shows "conserved U (upd_cache c g w)"
  using upd_cache_neutral[of w c g] assms by (simp add: conserved_def)

lemma fold_free_class_conserved:
  assumes "conserved U w" "c < length (caches w)" "\<And>q. p = Some q \<Longrightarrow> q < length (pools w)"
    "set cs \<subseteq> {..<BUFFER_SIZE_CLASSES}"
  shows "conserved U (fold (free_class p c) cs w) \<and> skel (fold (free_class p c) cs w) = skel w"
  using assms
proof (induction cs arbitrary: w)
  case (Cons k cs)
  have k: "k < BUFFER_SIZE_CLASSES" using Cons.prems(4) by simp
  note f = free_class_conserved[OF Cons.prems(1,2) k, of p, OF Cons.prems(3)]
  have "c < length (caches (free_class p c k w))" "\<And>q. p = Some q \<Longrightarrow> q < length (pools (free_class p c k w))"
    using skel_lengths[OF f(2)] Cons.prems(2,3) by auto
  from Cons.IH[OF f(1) this] Cons.prems(4) f(2) show ?case by simp
qed simp

lemma cleanup_conserved:
  assumes "conserved U w" "c < length (caches w)" "\<And>q. p = Some q \<Longrightarrow> q < length (pools w)"
    "\<And>q. p = Some q \<Longrightarrow> mode = CACHE_CLEANUP_FLUSH \<Longrightarrow> bound q c w"
  shows "conserved U (cleanup_cache_buffers_locked p c mode w) \<and>
    skel (cleanup_cache_buffers_locked p c mode w) = skel w"
proof (cases "cleaned_up (caches w ! c)")
  case True
  then show ?thesis using assms(1) by (simp add: cleanup_cache_buffers_locked_def)
next
  case False
  define w1 where "w1 = (case p of
      Some q \<Rightarrow> (if mode = CACHE_CLEANUP_FLUSH then flush_all q c w
                else fold (free_class p c) [0..<BUFFER_SIZE_CLASSES] w)
    | None \<Rightarrow> fold (free_class p c) [0..<BUFFER_SIZE_CLASSES] w)"
  have w1: "conserved U w1 \<and> skel w1 = skel w"
  proof (cases "\<exists>q. p = Some q \<and> mode = CACHE_CLEANUP_FLUSH")
    case True
    then obtain q where q: "p = Some q" "mode = CACHE_CLEANUP_FLUSH" by blast
    then have "w1 = flush_all q c w" by (simp add: w1_def)
    then show ?thesis using flush_all_conserved[OF assms(1) assms(4)[OF q]] by simp
  next
    case False
    then have "w1 = fold (free_class p c) [0..<BUFFER_SIZE_CLASSES] w"
      by (auto simp: w1_def split: option.split)
    then show ?thesis using fold_free_class_conserved[OF assms(1-3), where cs = "[0..<BUFFER_SIZE_CLASSES]"]
      by force
  qed
  have "c < length (caches w1)" using w1 skel_lengths[of w1 w] assms(2) by simp
  moreover have "cleanup_cache_buffers_locked p c mode w = upd_cache c (\<lambda>tc. tc\<lparr>cleaned_up := True\<rparr>) w1"
    using False by (simp add: cleanup_cache_buffers_locked_def w1_def Let_def)
  ultimately show ?thesis using w1 upd_cache_conserved[of U w1 c] by (simp add: skel_upd_cache)
qed

section \<open>Thread caches keep the buffers\<close>

lemma conserved_tls:
  assumes "conserved U w" "\<And>c. v = Some c \<Longrightarrow> c < length (caches w)"
  shows "conserved U (set_tls t v w)" "conserved U (set_tls_key t v w)"
  using assms by (auto simp: conserved_def set_tls_def set_tls_key_def world_wf_def world_cached_def)

lemma tls_frames [simp]:
  "pools (set_tls t v w) = pools w" "caches (set_tls t v w) = caches w" "heap (set_tls t v w) = heap w"
  "pools (set_tls_key t v w) = pools w" "caches (set_tls_key t v w) = caches w"
  "heap (set_tls_key t v w) = heap w"
  by (simp_all add: set_tls_def set_tls_key_def)

lemma key_init_frames [simp]:
  "pools (tls_key_init k w) = pools w" "caches (tls_key_init k w) = caches w"
  "heap (tls_key_init k w) = heap w" "tls_cache (tls_key_init k w) = tls_cache w"
  by (simp_all add: tls_key_init_def)

lemma key_init_conserved: "conserved U w \<Longrightarrow> conserved U (tls_key_init k w)"
  by (simp add: tls_key_init_def conserved_def world_wf_def world_cached_def)

text \<open>What an operation on a pool keeps of the other parts of the world.\<close>

definition pools_kept :: "pool_world \<Rightarrow> pool_world \<Rightarrow> bool" where
  "pools_kept w w' \<longleftrightarrow> map (\<lambda>x. (destroyed x, length (shards x))) (pools w') =
     map (\<lambda>x. (destroyed x, length (shards x))) (pools w)"

lemma pools_kept_refl [simp]: "pools_kept w w"
  by (simp add: pools_kept_def)

lemma pools_kept_trans: "pools_kept w w' \<Longrightarrow> pools_kept w' w'' \<Longrightarrow> pools_kept w w''"
  by (simp add: pools_kept_def)

lemma pools_kept_skel: "skel w' = skel w \<Longrightarrow> pools_kept w w'"
  by (simp add: pools_kept_def skel_def)

lemma pools_kept_same: "pools w' = pools w \<Longrightarrow> pools_kept w w'"
  by (simp add: pools_kept_def)

lemma pools_kept_nth:
  assumes "pools_kept w w'"
  shows "length (pools w') = length (pools w)"
    "p < length (pools w) \<Longrightarrow> destroyed (pools w' ! p) = destroyed (pools w ! p) \<and>
      length (shards (pools w' ! p)) = length (shards (pools w ! p))"
proof -
  let ?f = "\<lambda>x. (destroyed x, length (shards x))"
  have e: "map ?f (pools w') = map ?f (pools w)" using assms by (simp add: pools_kept_def)
  show l: "length (pools w') = length (pools w)" using arg_cong[OF e, of length] by simp
  assume "p < length (pools w)"
  then show "destroyed (pools w' ! p) = destroyed (pools w ! p) \<and>
      length (shards (pools w' ! p)) = length (shards (pools w ! p))"
    using arg_cong[OF e, of "\<lambda>xs. xs ! p"] l by simp
qed

lemma masked_index: "0 < n \<Longrightarrow> unat ((x :: u32) AND of_nat (n - 1)) < n"
proof -
  assume n: "0 < n"
  have "unat (x AND of_nat (n - 1)) \<le> unat (of_nat (n - 1) :: u32)"
    by (simp add: word_le_nat_alt[symmetric] word_and_le1)
  also have "\<dots> \<le> n - 1" by (simp only: unat_of_nat mod_less_eq_dividend)
  finally show ?thesis using n by linarith
qed

lemma round_robin_props:
  assumes "conserved U w" "p < length (pools w)" "\<not> destroyed (pools w ! p)" "round_robin p w = (i, w')"
  shows "i < length (shards (pools w ! p))" "conserved U w'" "skel w' = skel w" "heap w' = heap w"
    "shards (pools w' ! p) = shards (pools w ! p)" "tls_cache w' = tls_cache w" "caches w' = caches w"
proof -
  have wf: "world_wf w" using assms(1) by (simp add: conserved_def)
  obtain k where k: "k \<le> 8" "length (shards (pools w ! p)) = 2 ^ k" "shard_mask (pools w ! p) = 2 ^ k - 1"
    using world_wf_pool[OF wf assms(2)] assms(3) by (auto simp: pool_wf_def)
  let ?f = "\<lambda>pool. pool\<lparr>next_shard := next_shard pool + 1\<rparr>"
  have e: "i = unat (next_shard (pools w ! p) AND of_nat (shard_mask (pools w ! p)))" "w' = upd_pool p ?f w"
    using assms(4) by (simp_all add: round_robin_def)
  show "i < length (shards (pools w ! p))" using masked_index[of "2 ^ k"] k(2,3) e(1) by simp
  note u = upd_pool_neutral[OF wf assms(2), of ?f]
  show "conserved U w'" using assms(1) u e(2) by (simp add: conserved_def)
  show "skel w' = skel w" unfolding e(2) by (rule skel_upd_pool) simp_all
  show "heap w' = heap w" "tls_cache w' = tls_cache w" "caches w' = caches w" by (simp_all add: e(2))
  show "shards (pools w' ! p) = shards (pools w ! p)" using assms(2) by (simp add: e(2) upd_pool_def)
qed

text \<open>Registration appends an empty cache.\<close>

lemma append_cache_conserved:
  assumes "conserved U w" "p < length (pools w)" "i < length (shards (pools w ! p))"
  shows "conserved U (w\<lparr>caches := caches w @ [new_cache p t pid i]\<rparr>)"
proof -
  have e: "cache_cached (new_cache p t pid i) = {#}" by (simp add: cache_cached_def new_cache_def)
  have "cache_wf (pools w) (new_cache p t pid i)" using assms(2,3) by (simp add: cache_wf_def new_cache_def)
  then have "world_wf (w\<lparr>caches := caches w @ [new_cache p t pid i]\<rparr>)"
    using assms(1) by (force simp: conserved_def world_wf_def less_Suc_eq)
  then show ?thesis using assms(1) e by (simp add: conserved_def world_cached_def)
qed

lemma push_cache_list_conserved:
  assumes "conserved U w" "p < length (pools w)" "c < length (caches w)"
  shows "conserved U (upd_pool p (\<lambda>pool. pool\<lparr>thread_caches := c # thread_caches pool\<rparr>) w)"
proof -
  let ?f = "\<lambda>pool. pool\<lparr>thread_caches := c # thread_caches pool\<rparr>"
  have wf: "world_wf w" using assms(1) by (simp add: conserved_def)
  have a: "pool_wf (?f (pools w ! p))" using world_wf_pool[OF wf assms(2)] by (simp add: pool_wf_def)
  have b: "set (thread_caches (?f (pools w ! p))) \<subseteq> {..<length (caches w)}"
    using wf assms(2,3) by (auto simp: world_wf_def)
  have "world_wf (upd_pool p ?f w)" using a b by (intro upd_pool_wf[OF wf assms(2)]) auto
  moreover have "map pool_cached ((pools w)[p := ?f (pools w ! p)]) = map pool_cached (pools w)"
    using assms(2) by (simp add: map_update list_update_same_conv pool_cached_def)
  then have "world_cached (upd_pool p ?f w) = world_cached w"
    unfolding world_cached_def upd_pool_def by simp
  ultimately show ?thesis using assms(1) by (simp add: conserved_def)
qed

lemma register_cache_props:
  assumes "conserved U w" "p < length (pools w)" "\<not> destroyed (pools w ! p)" "register_cache key_ok t p w = (c, w')"
  shows "conserved U w'" "bound p c w'" "pools_kept w w'" "heap w' = heap w"
proof -
  let ?w0 = "tls_key_init key_ok w"
  obtain i w1 where r: "round_robin p ?w0 = (i, w1)" by (metis prod.exhaust)
  have c0: "conserved U ?w0" by (rule key_init_conserved[OF assms(1)])
  have p0: "p < length (pools ?w0)" "\<not> destroyed (pools ?w0 ! p)" using assms(2,3) by simp_all
  note rr = round_robin_props[OF c0 p0 r]
  let ?w2 = "w1\<lparr>caches := caches w1 @ [new_cache p t (pool_id (pools w ! p)) i]\<rparr>"
  let ?f = "\<lambda>pool. pool\<lparr>thread_caches := length (caches w1) # thread_caches pool\<rparr>"
  have l: "length (pools w1) = length (pools w)" using skel_lengths[OF rr(3)] by simp
  have p1: "p < length (pools w1)" "i < length (shards (pools w1 ! p))"
    using assms(2) l rr(1,5) by simp_all
  have c2: "conserved U ?w2" by (rule append_cache_conserved[OF rr(2) p1])
  have p2: "p < length (pools ?w2)" "length (caches w1) < length (caches ?w2)" using p1 by simp_all
  have c3: "conserved U (upd_pool p ?f ?w2)" by (rule push_cache_list_conserved[OF c2 p2])
  have e: "c = length (caches w1)"
    "w' = set_tls t (Some c) (set_tls_key t (Some c) (upd_pool p ?f ?w2))"
    using assms(4) r by (auto simp: register_cache_def Let_def)
  have "conserved U (set_tls_key t (Some c) (upd_pool p ?f ?w2))"
    by (rule conserved_tls(2)[OF c3]) (simp add: e(1))
  then show "conserved U w'" unfolding e(2) by (rule conserved_tls(1)) (simp add: e(1))
  show "bound p c w'" using p1 unfolding e bound_def by (simp add: upd_pool_def new_cache_def nth_append)
  have "map (\<lambda>x. (destroyed x, length (shards x))) (pools w1) =
      map (\<lambda>x. (destroyed x, length (shards x))) (pools w)" using rr(3) by (simp add: skel_def)
  moreover have "map (\<lambda>x. (destroyed x, length (shards x))) ((pools w1)[p := ?f (pools w1 ! p)]) =
      map (\<lambda>x. (destroyed x, length (shards x))) (pools w1)"
    using p1(1) by (simp add: map_update list_update_same_conv)
  ultimately show "pools_kept w w'" by (simp add: e(2) pools_kept_def upd_pool_def)
  show "heap w' = heap w" using rr(4) by (simp add: e(2))
qed

section \<open>Clean-up only frees\<close>

lemma cache_flush_heap: "heap (snd (cache_flush p c cls bs w)) \<subseteq># heap w"
  by (auto simp: cache_flush_def Let_def split: prod.splits)

lemma flush_class_heap: "heap (flush_class n p c cls w) \<subseteq># heap w"
proof (induction n arbitrary: w)
  case (Suc n)
  then show ?case using subset_mset.order_trans[OF Suc cache_flush_heap] by simp
qed simp

lemma fold_heap: "(\<And>x w. heap (f x w) \<subseteq># heap w) \<Longrightarrow> heap (fold f xs w) \<subseteq># heap w"
proof (induction xs arbitrary: w)
  case (Cons x xs)
  then show ?case using subset_mset.order_trans[of "heap (fold f xs (f x w))" "heap (f x w)"] by simp
qed simp

lemma free_class_heap: "heap (free_class p c cls w) \<subseteq># heap w"
  by (auto simp: free_class_def Let_def split: option.splits)

lemma cleanup_heap: "heap (cleanup_cache_buffers_locked p c mode w) \<subseteq># heap w"
  by (auto simp: cleanup_cache_buffers_locked_def flush_all_def Let_def flush_class_heap free_class_heap
      split: option.splits intro!: fold_heap)

lemma cache_refill_heap: "cache_refill p c cls w = (n, w') \<Longrightarrow> heap w' = heap w"
  by (auto simp: cache_refill_def Let_def split: prod.splits)

lemma bound_cache:
  assumes "conserved U w" "c < length (caches w)" "tc_pool (caches w ! c) = Some q" "\<not> destroyed (pools w ! q)"
  shows "bound q c w"
  using assms world_wf_cache[of w c] by (simp add: conserved_def cache_wf_def bound_def)

lemma cache_pool_index:
  assumes "conserved U w" "c < length (caches w)" "tc_pool (caches w ! c) = Some q"
  shows "q < length (pools w)"
  using assms world_wf_cache[of w c] by (simp add: conserved_def cache_wf_def)

lemma tls_index:
  assumes "conserved U w"
  shows "tls_cache w t = Some c \<Longrightarrow> c < length (caches w)" "tls_spec w t = Some c \<Longrightarrow> c < length (caches w)"
  using assms by (auto simp: conserved_def world_wf_def)

definition cache_result :: "u64 multiset \<Rightarrow> nat \<Rightarrow> pool_world \<Rightarrow> nat option \<times> pool_world \<Rightarrow> bool" where
  "cache_result U p w r \<longleftrightarrow> conserved U (snd r) \<and> pools_kept w (snd r) \<and> heap (snd r) \<subseteq># heap w \<and>
     (\<forall>c. fst r = Some c \<longrightarrow> bound p c (snd r) \<and> \<not> destroyed (pools (snd r) ! p))"

lemma register_result:
  assumes "conserved U w" "p < length (pools w)" "\<not> destroyed (pools w ! p)"
  shows "cache_result U p w (let (c', w') = register_cache k t p w in (Some c', w'))"
proof -
  obtain c' w' where r: "register_cache k t p w = (c', w')" by (metis prod.exhaust)
  note rc = register_cache_props[OF assms r]
  then show ?thesis using pools_kept_nth(2)[OF rc(3) assms(2)] assms(3) r by (simp add: cache_result_def)
qed

lemma key_init_result: "conserved U w \<Longrightarrow> cache_result U p w (None, tls_key_init k w)"
  by (simp add: cache_result_def key_init_conserved pools_kept_same)

lemma drop_tls_result:
  assumes "conserved U w'" "pools_kept w w'" "heap w' \<subseteq># heap w"
  shows "cache_result U p w (None, set_tls_key t None (set_tls t None w'))"
    "cache_result U p w (None, set_tls t None w')"
proof -
  have a: "conserved U (set_tls t None w')" by (rule conserved_tls(1)[OF assms(1)]) simp
  then have "conserved U (set_tls_key t None (set_tls t None w'))" by (rule conserved_tls(2)) simp
  with a show "cache_result U p w (None, set_tls_key t None (set_tls t None w'))"
    "cache_result U p w (None, set_tls t None w')"
    using assms(2,3) by (simp_all add: cache_result_def pools_kept_def)
qed

lemma get_thread_cache_result:
  assumes "conserved U w" "p < length (pools w)"
  shows "cache_result U p w (get_thread_cache k have_cache t p w)"
proof (cases "destroyed (pools w ! p)")
  case True
  then show ?thesis using drop_tls_result(2)[OF assms(1)]
    by (simp add: get_thread_cache_def Let_def split: option.split)
next
  case alive: False
  note fresh = register_result[OF assms alive, of k t] key_init_result[OF assms(1), of p k]
  show ?thesis
  proof (cases "tls_cache w t")
    case None
    then show ?thesis using alive fresh by (simp add: get_thread_cache_def)
  next
    case (Some c)
    have c: "c < length (caches w)" by (rule tls_index(1)[OF assms(1) Some])
    consider "tc_pool (caches w ! c) = Some p" | "tc_pool (caches w ! c) = None"
      | q where "tc_pool (caches w ! c) = Some q" "q \<noteq> p" by (cases "tc_pool (caches w ! c)") auto
    then show ?thesis
    proof cases
      case 1
      then have "cache_result U p w (Some c, w)"
        using bound_cache[OF assms(1) c 1 alive] assms(1) alive by (simp add: cache_result_def)
      then show ?thesis using Some alive 1 fresh by (simp add: get_thread_cache_def Let_def)
    next
      case 2
      let ?w = "upd_cache c (\<lambda>tc. tc\<lparr>tc_live := False\<rparr>) w"
      have "conserved U ?w" by (rule upd_cache_conserved[OF assms(1) c]) simp_all
      from drop_tls_result(1)[OF this, of w] show ?thesis using Some alive 2
        by (simp add: get_thread_cache_def pools_kept_same)
    next
      case (3 q)
      let ?m = "if destroyed (pools w ! q) then CACHE_CLEANUP_FREE else CACHE_CLEANUP_FLUSH"
      let ?w = "cleanup_cache_buffers_locked (Some q) c ?m w"
      have "conserved U ?w \<and> skel ?w = skel w"
        using cache_pool_index[OF assms(1) c 3(1)] bound_cache[OF assms(1) c 3(1)]
        by (intro cleanup_conserved[OF assms(1) c]) (auto split: if_splits)
      then have "cache_result U p w (None, set_tls_key t None (set_tls t None ?w))"
        by (intro drop_tls_result(1)) (auto simp: pools_kept_skel cleanup_heap)
      then show ?thesis using Some alive 3 by (simp add: get_thread_cache_def Let_def)
    qed
  qed
qed

section \<open>Allocation and release conserve buffers\<close>

lemma set_class_conserved:
  assumes "conserved U w" "c < length (caches w)" "cls < BUFFER_SIZE_CLASSES"
    "mset bufs + V = mset (tc_buffers (caches w ! c) ! cls) + U"
  shows "conserved V (upd_cache c (\<lambda>tc. tc\<lparr>tc_buffers := (tc_buffers tc)[cls := bufs]\<rparr>) w)"
proof -
  let ?w = "upd_cache c (\<lambda>tc. tc\<lparr>tc_buffers := (tc_buffers tc)[cls := bufs]\<rparr>) w"
  have wf: "world_wf w" and h: "heap w = world_cached w + U" using assms(1) by (auto simp: conserved_def)
  note u = upd_class[OF wf assms(2,3), of bufs]
  have "(world_cached ?w + V) + mset (tc_buffers (caches w ! c) ! cls) =
      (world_cached ?w + mset (tc_buffers (caches w ! c) ! cls)) + V" by (simp add: ac_simps)
  also have "\<dots> = world_cached w + (mset bufs + V)" unfolding u(2) by (simp add: ac_simps)
  also have "\<dots> = (world_cached w + U) + mset (tc_buffers (caches w ! c) ! cls)"
    unfolding assms(4) by (simp add: ac_simps)
  finally have "world_cached ?w + V = world_cached w + U" by simp
  then show ?thesis using u(1) h by (simp add: conserved_def)
qed

lemma cache_pop_conserved:
  assumes "conserved U w" "c < length (caches w)" "cls < BUFFER_SIZE_CLASSES"
    "tc_buffers (caches w ! c) ! cls \<noteq> []" "cache_pop c cls w = (b, w')"
  shows "conserved (add_mset b U) w'" "heap w' = heap w" "pools w' = pools w"
proof -
  obtain bs where bs: "tc_buffers (caches w ! c) ! cls = b # bs"
    and w': "w' = upd_cache c (\<lambda>tc. tc\<lparr>tc_buffers := (tc_buffers tc)[cls := tl (tc_buffers tc ! cls)]\<rparr>) w"
    using assms(4,5) by (cases "tc_buffers (caches w ! c) ! cls") (auto simp: cache_pop_def)
  have "w' = upd_cache c (\<lambda>tc. tc\<lparr>tc_buffers := (tc_buffers tc)[cls := bs]\<rparr>) w"
    using bs by (simp add: w' upd_cache_def)
  then show "conserved (add_mset b U) w'" "heap w' = heap w" "pools w' = pools w"
    using set_class_conserved[OF assms(1-3), of bs "add_mset b U"] bs by simp_all
qed

lemma cache_push_conserved:
  assumes "conserved (mset bs + U) w" "c < length (caches w)" "cls < BUFFER_SIZE_CLASSES"
  shows "conserved U (cache_push c cls bs w)"
proof -
  have "cache_push c cls bs w = upd_cache c
      (\<lambda>tc. tc\<lparr>tc_buffers := (tc_buffers tc)[cls := rev bs @ tc_buffers (caches w ! c) ! cls]\<rparr>) w"
    by (simp add: cache_push_def upd_cache_def)
  then show ?thesis
    using set_class_conserved[OF assms, of "rev bs @ tc_buffers (caches w ! c) ! cls" U] by (simp add: ac_simps)
qed

lemma cache_push_frames [simp]:
  "pools (cache_push c cls bs w) = pools w" "heap (cache_push c cls bs w) = heap w"
  by (simp_all add: cache_push_def)

lemma account_conserved:
  assumes "conserved U w" "p < length (pools w)"
  shows "conserved U (upd_pool p (account m n) w)" "conserved U (upd_pool p (unaccount m n) w)"
    "pools_kept w (upd_pool p (account m n) w)" "pools_kept w (upd_pool p (unaccount m n) w)"
proof -
  have wf: "world_wf w" using assms(1) by (simp add: conserved_def)
  show "conserved U (upd_pool p (account m n) w)"
    using upd_pool_neutral[OF wf assms(2), of "account m n"] assms(1) by (simp add: conserved_def account_def)
  show "conserved U (upd_pool p (unaccount m n) w)"
    using upd_pool_neutral[OF wf assms(2), of "unaccount m n"] assms(1) by (simp add: conserved_def unaccount_def)
  show "pools_kept w (upd_pool p (account m n) w)"
    by (intro pools_kept_skel skel_upd_pool) (simp_all add: account_def)
  show "pools_kept w (upd_pool p (unaccount m n) w)"
    by (intro pools_kept_skel skel_upd_pool) (simp_all add: unaccount_def)
qed

lemma heap_add_conserved: "conserved U w \<Longrightarrow> conserved (M + U) (w\<lparr>heap := heap w + M\<rparr>)"
  by (simp add: conserved_def world_wf_def world_cached_def ac_simps)

lemma heap_free_conserved: "conserved (mset bs + U) w \<Longrightarrow> conserved U (heap_free bs w)"
  using conserved_free[of w U bs] by (simp add: conserved_def ac_simps)

text \<open>
  An allocation hands one buffer to the caller or none; the heap only grows by what the system
  allocator answered.
\<close>

definition alloc_outcome ::
    "u64 multiset \<Rightarrow> u64 multiset \<Rightarrow> pool_world \<Rightarrow> (int + u64) \<times> pool_world \<Rightarrow> bool" where
  "alloc_outcome U H w r \<longleftrightarrow>
     (case fst r of Inl e \<Rightarrow> conserved U (snd r) | Inr b \<Rightarrow> conserved (add_mset b U) (snd r)) \<and>
     heap (snd r) \<subseteq># H \<and> pools_kept w (snd r)"

definition env_buffers :: "alloc_env \<Rightarrow> u64 list" where
  "env_buffers env = (case env_memalign env of Inl e \<Rightarrow> [] | Inr b \<Rightarrow> b # take 15 (env_extras env))"

lemma alloc_from_heap_outcome:
  assumes "conserved U w" "p < length (pools w)" "\<And>c. cache = Some c \<Longrightarrow> c < length (caches w)"
    "cls < BUFFER_SIZE_CLASSES"
  shows "alloc_outcome U (heap w + mset (env_buffers env)) w (alloc_from_heap env p cache cls w)"
proof (cases "env_memalign env")
  case (Inl e)
  then show ?thesis using assms(1) by (simp add: alloc_from_heap_def alloc_outcome_def env_buffers_def)
next
  case (Inr buf)
  let ?bs = "class_to_size cls"
  let ?w0 = "w\<lparr>heap := heap w + {#buf#}\<rparr>"
  define w1 where "w1 = upd_pool p (account ?bs 1) ?w0"
  have c0: "conserved ({#buf#} + U) ?w0" by (rule heap_add_conserved[OF assms(1)])
  have p0: "p < length (pools ?w0)" using assms(2) by simp
  have c1: "conserved (add_mset buf U) w1" "pools_kept w w1" "heap w1 = add_mset buf (heap w)"
    "length (pools w1) = length (pools w)" "caches w1 = caches w"
    using account_conserved(1,3)[OF c0 p0] by (simp_all add: w1_def pools_kept_def)
  show ?thesis
  proof (cases cache)
    case None
    then show ?thesis using Inr c1 by (simp add: alloc_from_heap_def alloc_outcome_def env_buffers_def w1_def)
  next
    case (Some c)
    define extras where "extras = take 15 (env_extras env)"
    define w2 where "w2 = w1\<lparr>heap := heap w1 + mset extras\<rparr>"
    define stored where "stored = min (if cleaned_up (caches w2 ! c) \<or> destroyed (pools w2 ! p) then 0
        else THREAD_CACHE_SIZE - length (tc_buffers (caches w2 ! c) ! cls)) (length extras)"
    define w3 where "w3 = cache_push c cls (take stored extras) w2"
    define w4 where "w4 = heap_free (drop stored extras) w3"
    have r: "alloc_from_heap env p cache cls w = (Inr buf, upd_pool p (account (?bs * stored) stored) w4)"
      unfolding alloc_from_heap_def Some Inr w4_def w3_def stored_def w2_def extras_def w1_def
      by (simp add: Let_def)
    have "mset extras = mset (take stored extras) + mset (drop stored extras)"
      by (metis append_take_drop_id mset_append)
    then have "conserved (mset (take stored extras) + (mset (drop stored extras) + add_mset buf U)) w2"
      using heap_add_conserved[OF c1(1), of "mset extras"] unfolding w2_def by (simp add: ac_simps)
    moreover have "c < length (caches w2)" using assms(3)[OF Some] c1(5) by (simp add: w2_def)
    ultimately have "conserved (mset (drop stored extras) + add_mset buf U) w3"
      unfolding w3_def using assms(4) by (rule cache_push_conserved)
    then have c4: "conserved (add_mset buf U) w4" unfolding w4_def by (rule heap_free_conserved)
    have p4: "pools w4 = pools w1" "heap w4 \<subseteq># heap w1 + mset extras"
      by (simp_all add: w4_def w3_def w2_def)
    then have "p < length (pools w4)" using assms(2) c1(4) by simp
    note a = account_conserved(1,3)[OF c4 this, of "?bs * stored" stored]
    have "heap w + mset (env_buffers env) = heap w1 + mset extras"
      using Inr c1(3) by (simp add: env_buffers_def extras_def)
    moreover have "pools_kept w w4" using c1(2) p4(1) by (simp add: pools_kept_def)
    ultimately show ?thesis using a p4(2) pools_kept_trans[OF _ a(2)] unfolding alloc_outcome_def r by simp
  qed
qed

lemma cache_refill_kept:
  assumes "p < length (pools w)" "cache_refill p c cls w = (n, w')"
  shows "pools_kept w w'"
  using assms
  by (auto simp: cache_refill_def Let_def pools_kept_def upd_pool_def map_update list_update_same_conv split: prod.splits)

lemma select_shard_props:
  assumes "conserved U w" "p < length (pools w)" "\<not> destroyed (pools w ! p)"
    "\<And>c. cache = Some c \<Longrightarrow> bound p c w" "select_shard p cache w = (i, w')"
  shows "i < length (shards (pools w' ! p))" "conserved U w'" "pools_kept w w'" "heap w' = heap w"
    "caches w' = caches w" "p < length (pools w')"
proof -
  have "i < length (shards (pools w' ! p)) \<and> conserved U w' \<and> pools_kept w w' \<and> heap w' = heap w \<and>
    caches w' = caches w \<and> p < length (pools w')"
  proof (cases cache)
    case None
    then have r: "round_robin p w = (i, w')" using assms(5) by (simp add: select_shard_def)
    note rr = round_robin_props[OF assms(1-3) r]
    then show ?thesis using skel_lengths[OF rr(3)] pools_kept_skel[OF rr(3)] assms(2) by simp
  next
    case (Some c)
    then show ?thesis using assms by (auto simp: select_shard_def bound_def)
  qed
  then show "i < length (shards (pools w' ! p))" "conserved U w'" "pools_kept w w'" "heap w' = heap w"
    "caches w' = caches w" "p < length (pools w')" by auto
qed

lemma set_shard_conserved:
  assumes "conserved U w" "p < length (pools w)" "i < length (shards (pools w ! p))" "shard_wf s"
    "mset (shard_buffers s) + V = mset (shard_buffers (shards (pools w ! p) ! i)) + U"
  shows "conserved V (upd_pool p (\<lambda>pool. pool\<lparr>shards := (shards pool)[i := s]\<rparr>) w)"
    "pools_kept w (upd_pool p (\<lambda>pool. pool\<lparr>shards := (shards pool)[i := s]\<rparr>) w)"
proof -
  let ?w = "upd_pool p (\<lambda>pool. pool\<lparr>shards := (shards pool)[i := s]\<rparr>) w"
  have wf: "world_wf w" and h: "heap w = world_cached w + U" using assms(1) by (auto simp: conserved_def)
  note u = upd_shard[OF wf assms(2,3,4)]
  let ?o = "mset (shard_buffers (shards (pools w ! p) ! i))"
  have "(world_cached ?w + V) + ?o = (world_cached ?w + ?o) + V" by (simp add: ac_simps)
  also have "\<dots> = world_cached w + (mset (shard_buffers s) + V)" unfolding u(2) by (simp add: ac_simps)
  also have "\<dots> = (world_cached w + U) + ?o" unfolding assms(5) by (simp add: ac_simps)
  finally have "world_cached ?w + V = world_cached w + U" by simp
  then show "conserved V ?w" using u(1) h by (simp add: conserved_def)
  show "pools_kept w ?w" by (intro pools_kept_skel skel_upd_pool) simp_all
qed

lemma shard_of_pool:
  assumes "conserved U w" "p < length (pools w)" "i < length (shards (pools w ! p))"
  shows "shard_wf (shards (pools w ! p) ! i)"
  using world_wf_pool[of w p] assms by (simp add: conserved_def pool_wf_def)

lemma pop_outcome:
  assumes "conserved U w" "bound p c w" "cls < BUFFER_SIZE_CLASSES" "tc_buffers (caches w ! c) ! cls \<noteq> []"
    "pools_kept w0 w" "heap w \<subseteq># H"
  shows "alloc_outcome U H w0 (let (buf, w2) = cache_pop c cls w in (Inr buf, w2))"
proof -
  obtain b w2 where r: "cache_pop c cls w = (b, w2)" by (metis prod.exhaust)
  have "c < length (caches w)" using assms(2) by (simp add: bound_def)
  from cache_pop_conserved[OF assms(1) this assms(3,4) r] r assms(5,6) show ?thesis
    by (simp add: alloc_outcome_def pools_kept_def)
qed

lemma shard_pop_outcome:
  assumes "conserved U w" "p < length (pools w)" "\<not> destroyed (pools w ! p)"
    "\<And>c. cache = Some c \<Longrightarrow> bound p c w" "cls < BUFFER_SIZE_CLASSES" "pools_kept w0 w" "heap w \<subseteq># H0"
    "H = H0 + mset (env_buffers env)"
  shows "alloc_outcome U H w0 (let (i, w3) = select_shard p cache w
      in case shard_pop cls (shards (pools w3 ! p) ! i) of
           Some (buf, s) \<Rightarrow> (Inr buf, upd_pool p (\<lambda>pool. pool\<lparr>shards := (shards pool)[i := s]\<rparr>) w3)
         | None \<Rightarrow> alloc_from_heap env p cache cls w3)"
proof -
  obtain i w3 where r: "select_shard p cache w = (i, w3)" by (metis prod.exhaust)
  note ss = select_shard_props[OF assms(1-4) r]
  have kept: "pools_kept w0 w3" using assms(6) ss(3) by (rule pools_kept_trans)
  have sub: "heap w3 + mset (env_buffers env) \<subseteq># H" using ss(4) assms(7,8) by simp
  show ?thesis
  proof (cases "shard_pop cls (shards (pools w3 ! p) ! i)")
    case None
    have "\<And>c. cache = Some c \<Longrightarrow> c < length (caches w3)" using assms(4) ss(5) by (simp add: bound_def)
    note a = alloc_from_heap_outcome[where cache = cache and env = env, OF ss(2,6) this assms(5)]
    from a have "alloc_outcome U H w0 (alloc_from_heap env p cache cls w3)"
      unfolding alloc_outcome_def using sub pools_kept_trans[OF kept] subset_mset.order_trans by blast
    then show ?thesis using r None by simp
  next
    case (Some bs)
    obtain buf s where bs: "bs = (buf, s)" by (cases bs)
    note sw = shard_of_pool[OF ss(2,6,1)]
    note sp = shard_pop_props[OF sw assms(5) Some[unfolded bs]]
    have "mset (shard_buffers s) + add_mset buf U = mset (shard_buffers (shards (pools w3 ! p) ! i)) + U"
      using sp(2) by simp
    note u = set_shard_conserved[OF ss(2,6,1) sp(1) this]
    have "heap w3 \<subseteq># H" using ss(4) assms(7,8) by (simp add: subset_mset.add_increasing2)
    then show ?thesis using r Some bs u pools_kept_trans[OF kept u(2)] by (simp add: alloc_outcome_def)
  qed
qed

lemma buffer_pool_alloc_outcome:
  assumes "conserved U w" "p < length (pools w)"
  shows "alloc_outcome U (heap w + mset (env_buffers env)) w (buffer_pool_alloc env t p sz w)"
proof (cases "sz = 0 \<or> sz > BUFFER_POOL_MAX_SIZE")
  case True
  then show ?thesis using assms(1) by (auto simp: buffer_pool_alloc_def alloc_outcome_def)
next
  case False
  let ?cls = "size_to_class sz" and ?H = "heap w + mset (env_buffers env)"
  have cls: "?cls < BUFFER_SIZE_CLASSES" by (rule size_to_class_less)
  obtain cache w1 where g: "get_thread_cache (env_key_ok env) (env_have_cache env) t p w = (cache, w1)"
    by (metis prod.exhaust)
  have gr: "cache_result U p w (cache, w1)" using get_thread_cache_result[OF assms] g by metis
  then have c1: "conserved U w1" "pools_kept w w1" "heap w1 \<subseteq># heap w"
    and b1: "\<And>c. cache = Some c \<Longrightarrow> bound p c w1" by (auto simp: cache_result_def)
  have p1: "p < length (pools w1)" using assms(2) pools_kept_nth(1)[OF c1(2)] by simp
  have h1: "heap w1 \<subseteq># ?H" using c1(3) by (simp add: subset_mset.add_increasing2)
  let ?hit = "case cache of None \<Rightarrow> False | Some c \<Rightarrow> tc_buffers (caches w1 ! c) ! ?cls \<noteq> []"
  let ?rest = "\<lambda>w2. let (i, w3) = select_shard p cache w2
      in case shard_pop ?cls (shards (pools w3 ! p) ! i) of
           Some (buf, s) \<Rightarrow> (Inr buf, upd_pool p (\<lambda>pool. pool\<lparr>shards := (shards pool)[i := s]\<rparr>) w3)
         | None \<Rightarrow> alloc_from_heap env p cache ?cls w3"
  have e: "buffer_pool_alloc env t p sz w =
     (if ?hit then (let (buf, w2) = cache_pop (the cache) ?cls w1 in (Inr buf, w2))
      else if destroyed (pools w1 ! p) then (Inl ENXIO, w1)
      else let (refilled, w2) = (case cache of None \<Rightarrow> (0, w1) | Some c \<Rightarrow> cache_refill p c ?cls w1)
           in if refilled > 0 then (let (buf, w3) = cache_pop (the cache) ?cls w2 in (Inr buf, w3))
              else ?rest w2)"
    using False g unfolding buffer_pool_alloc_def Let_def by simp
  consider "?hit" | "\<not> ?hit" "destroyed (pools w1 ! p)" | "\<not> ?hit" "\<not> destroyed (pools w1 ! p)" by blast
  then show ?thesis
  proof cases
    case 1
    then obtain c where c: "cache = Some c" "tc_buffers (caches w1 ! c) ! ?cls \<noteq> []"
      by (auto split: option.splits)
    have "alloc_outcome U ?H w (let (buf, w2) = cache_pop c ?cls w1 in (Inr buf, w2))"
      by (rule pop_outcome[OF c1(1) b1[OF c(1)] cls c(2) c1(2) h1])
    then show ?thesis unfolding e using 1 c(1) by simp
  next
    case 2
    then show ?thesis unfolding e using c1 h1 by (simp add: alloc_outcome_def)
  next
    case 3
    show ?thesis
    proof (cases cache)
      case None
      show ?thesis unfolding e using 3 None shard_pop_outcome[where cache = cache and env = env, OF c1(1) p1 3(2) b1 cls c1(2,3) refl] by simp
    next
      case (Some c)
      obtain n w2 where r: "cache_refill p c ?cls w1 = (n, w2)" by (metis prod.exhaust)
      have b: "c < length (caches w1)" "tc_shard_id (caches w1 ! c) < length (shards (pools w1 ! p))"
        using b1[OF Some] by (auto simp: bound_def)
      note rf = cache_refill_conserved[OF c1(1) p1 b(1) cls b(2) r]
      have b2: "bound p c w2" using b rf p1 by (simp add: bound_def)
      have kept: "pools_kept w w2" using c1(2) cache_refill_kept[OF p1 r] by (rule pools_kept_trans)
      have h2: "heap w2 \<subseteq># heap w" using cache_refill_heap[OF r] c1(3) by simp
      have d2: "\<not> destroyed (pools w2 ! p)" using pools_kept_nth(2)[OF cache_refill_kept[OF p1 r] p1] 3(2) by simp
      have p2: "p < length (pools w2)" using p1 rf(3) by simp
      show ?thesis
      proof (cases "n > 0")
        case True
        have "heap w2 \<subseteq># ?H" using h2 by (simp add: subset_mset.add_increasing2)
        from pop_outcome[OF rf(1) b2 cls rf(2)[OF True] kept this] show ?thesis
          unfolding e using 3 Some r True by simp
      next
        case False
        have "\<And>c'. cache = Some c' \<Longrightarrow> bound p c' w2" using b2 Some by simp
        from shard_pop_outcome[where cache = cache and env = env, OF rf(1) p2 d2 this cls kept h2 refl] show ?thesis
          unfolding e using 3 Some r False by simp
      qed
    qed
  qed
qed

text \<open>A release takes the buffer from its owner; the heap only shrinks.\<close>

definition free_outcome :: "u64 multiset \<Rightarrow> pool_world \<Rightarrow> pool_world \<Rightarrow> bool" where
  "free_outcome U w w' \<longleftrightarrow> conserved U w' \<and> heap w' \<subseteq># heap w \<and> pools_kept w w'"

lemma direct_free_outcome:
  assumes "conserved (add_mset b U) w'" "heap w' \<subseteq># heap w" "pools_kept w w'"
  shows "free_outcome U w (heap_free [b] w')"
  using heap_free_conserved[of "[b]" U w'] assms
  by (simp add: free_outcome_def pools_kept_def subset_mset.order_trans[OF diff_subset_eq_self])

lemma push_outcome:
  assumes "conserved (add_mset b U) w'" "c < length (caches w')" "cls < BUFFER_SIZE_CLASSES"
    "heap w' \<subseteq># heap w" "pools_kept w w'"
  shows "free_outcome U w (if cleaned_up (caches w' ! c) then heap_free [b] w' else cache_push c cls [b] w')"
  using direct_free_outcome[OF assms(1,4,5)] cache_push_conserved[of "[b]" U w' c cls] assms
  by (auto simp: free_outcome_def pools_kept_def)

lemma free_to_shard_outcome:
  assumes "conserved (add_mset b U) w" "p < length (pools w)" "\<not> destroyed (pools w ! p)"
    "\<And>c. cache = Some c \<Longrightarrow> bound p c w" "cls < BUFFER_SIZE_CLASSES"
    "heap w \<subseteq># heap w0" "pools_kept w0 w"
  shows "free_outcome U w0 (free_to_shard p cache cls b w)"
proof -
  obtain i w1 where r: "select_shard p cache w = (i, w1)" by (metis prod.exhaust)
  note ss = select_shard_props[OF assms(1-4) r]
  have k1: "pools_kept w0 w1" using assms(7) ss(3) by (rule pools_kept_trans)
  have h1: "heap w1 \<subseteq># heap w0" using ss(4) assms(6) by simp
  let ?s = "shards (pools w1 ! p) ! i"
  let ?u = "upd_pool p (unaccount (class_to_size cls) 1) w1"
  note un = account_conserved(2,4)[OF ss(2,6), of "class_to_size cls" 1]
  have rel: "free_outcome U w0 (heap_free [b] ?u)"
    by (rule direct_free_outcome[OF un(1)]) (use h1 pools_kept_trans[OF k1 un(2)] in simp_all)
  consider "shard_full ?s \<or> shard_push cls (class_to_size cls) b ?s = None"
    | s' where "\<not> shard_full ?s" "shard_push cls (class_to_size cls) b ?s = Some s'" by fastforce
  then show ?thesis
  proof cases
    case 1
    then show ?thesis using r rel by (auto simp: free_to_shard_def Let_def)
  next
    case (2 s')
    note sp = shard_push_props[OF shard_of_pool[OF ss(2,6,1)] assms(5) 2(2)]
    have "mset (shard_buffers s') + U = mset (shard_buffers ?s) + add_mset b U" using sp(2) by simp
    note u = set_shard_conserved[OF ss(2,6,1) sp(1) this]
    then show ?thesis using r 2 h1 pools_kept_trans[OF k1 u(2)]
      by (simp add: free_to_shard_def free_outcome_def)
  qed
qed

lemma buffer_pool_free_outcome:
  assumes "conserved (add_mset b U) w" "p < length (pools w)" "b \<noteq> 0"
  shows "free_outcome U w (buffer_pool_free env t p b sz w)"
proof (cases "sz = 0 \<or> destroyed (pools w ! p)")
  case True
  then show ?thesis using direct_free_outcome[OF assms(1), of w] assms(3) by (auto simp: buffer_pool_free_def)
next
  case False
  let ?cls = "size_to_class sz"
  have cls: "?cls < BUFFER_SIZE_CLASSES" by (rule size_to_class_less)
  obtain cache w1 where g: "get_thread_cache (env_key_ok env) (env_have_cache env) t p w = (cache, w1)"
    by (metis prod.exhaust)
  have gr: "cache_result (add_mset b U) p w (cache, w1)" using get_thread_cache_result[OF assms(1,2)] g by metis
  then have c1: "conserved (add_mset b U) w1" "pools_kept w w1" "heap w1 \<subseteq># heap w"
    and b1: "\<And>c. cache = Some c \<Longrightarrow> bound p c w1" by (auto simp: cache_result_def)
  have p1: "p < length (pools w1)" using assms(2) pools_kept_nth(1)[OF c1(2)] by simp
  have d1: "\<not> destroyed (pools w1 ! p)" using pools_kept_nth(2)[OF c1(2) assms(2)] False by simp
  show ?thesis
  proof (cases cache)
    case None
    then show ?thesis
      using False assms(3) g free_to_shard_outcome[where cache = None, OF c1(1) p1 d1 _ cls c1(3,2)]
      by (simp add: buffer_pool_free_def)
  next
    case (Some c)
    have c: "c < length (caches w1)" using b1[OF Some] by (simp add: bound_def)
    define w2 where "w2 = snd (cache_flush p c ?cls (class_to_size ?cls) w1)"
    note fl = cache_flush_conserved[OF c1(1) b1[OF Some] cls, of "class_to_size ?cls", folded w2_def]
    have k2: "pools_kept w w2" using c1(2) pools_kept_skel[OF fl(2)] by (rule pools_kept_trans)
    have h2: "heap w2 \<subseteq># heap w"
      using subset_mset.order_trans[OF cache_flush_heap c1(3)] by (simp add: w2_def)
    have b2: "bound p c w2" using b1[OF Some] bound_skel[OF fl(2)] by simp
    have p2: "p < length (pools w2)" "c < length (caches w2)" using b2 by (auto simp: bound_def)
    have d2: "\<not> destroyed (pools w2 ! p)" using pools_kept_nth(2)[OF k2 assms(2)] False by simp
    have "free_outcome U w (free_to_shard p (Some c) ?cls b w2)"
      using b2 by (intro free_to_shard_outcome[OF fl(1) p2(1) d2 _ cls h2 k2]) simp
    then show ?thesis
      using False assms(3) g Some push_outcome[OF c1(1) c cls c1(3,2)] push_outcome[OF fl(1) p2(2) cls h2 k2]
      by (simp add: buffer_pool_free_def Let_def w2_def[symmetric])
  qed
qed

section \<open>Thread exit and pool destruction\<close>

lemma mark_exited_conserved:
  assumes "conserved U w" "tls_spec w t = Some c"
  shows "conserved U (upd_cache c (\<lambda>tc. tc\<lparr>thread_exited := True\<rparr>)
     (set_tls t None (w\<lparr>tls_spec := (tls_spec w)(t := None)\<rparr>)))"
proof -
  have "conserved U (w\<lparr>tls_spec := (tls_spec w)(t := None)\<rparr>)"
    using assms(1) by (simp add: conserved_def world_wf_def world_cached_def)
  then have "conserved U (set_tls t None (w\<lparr>tls_spec := (tls_spec w)(t := None)\<rparr>))"
    by (rule conserved_tls(1)) simp
  then show ?thesis by (rule upd_cache_conserved) (use tls_index(2)[OF assms] in simp_all)
qed

lemma tls_destructor_outcome:
  assumes "conserved U w"
  shows "free_outcome U w (tls_destructor t w)"
proof (cases "tls_spec w t")
  case None
  then show ?thesis using assms by (simp add: tls_destructor_def free_outcome_def)
next
  case (Some c)
  define w1 where "w1 = upd_cache c (\<lambda>tc. tc\<lparr>thread_exited := True\<rparr>)
     (set_tls t None (w\<lparr>tls_spec := (tls_spec w)(t := None)\<rparr>))"
  have c1: "conserved U w1" unfolding w1_def by (rule mark_exited_conserved[OF assms Some])
  have c: "c < length (caches w1)" using tls_index(2)[OF assms Some] by (simp add: w1_def)
  have e1: "pools w1 = pools w" "heap w1 = heap w" by (simp_all add: w1_def)
  define w2 where "w2 = (case tc_pool (caches w1 ! c) of
                      Some q \<Rightarrow> (if destroyed (pools w1 ! q)
                                then cleanup_cache_buffers_locked None c CACHE_CLEANUP_FREE w1
                                else cleanup_cache_buffers_locked (Some q) c CACHE_CLEANUP_FLUSH w1)
                    | None \<Rightarrow> cleanup_cache_buffers_locked None c CACHE_CLEANUP_FREE w1)"
  have "conserved U w2 \<and> skel w2 = skel w1"
  proof (cases "\<exists>q. tc_pool (caches w1 ! c) = Some q \<and> \<not> destroyed (pools w1 ! q)")
    case True
    then obtain q where q: "tc_pool (caches w1 ! c) = Some q" "\<not> destroyed (pools w1 ! q)" by blast
    have "w2 = cleanup_cache_buffers_locked (Some q) c CACHE_CLEANUP_FLUSH w1" using q by (simp add: w2_def)
    then show ?thesis using cleanup_conserved[where p = "Some q" and mode = CACHE_CLEANUP_FLUSH, OF c1 c]
        bound_cache[OF c1 c q] by (simp add: bound_def)
  next
    case False
    then have "w2 = cleanup_cache_buffers_locked None c CACHE_CLEANUP_FREE w1"
      by (auto simp: w2_def split: option.split)
    then show ?thesis using cleanup_conserved[where p = None and mode = CACHE_CLEANUP_FREE, OF c1 c] by simp
  qed
  then have c2: "conserved U w2" "skel w2 = skel w1" by auto
  have h2: "heap w2 \<subseteq># heap w" unfolding w2_def e1(2)[symmetric]
    by (auto simp: cleanup_heap split: option.split)
  have k2: "pools_kept w w2" using pools_kept_skel[OF c2(2)] e1(1) by (simp add: pools_kept_def)
  have "conserved U (upd_cache c (\<lambda>tc. tc\<lparr>tc_live := False\<rparr>) w2)"
    by (rule upd_cache_conserved[OF c2(1)]) (use c skel_lengths[OF c2(2)] in simp_all)
  then have "free_outcome U w (if tc_pool (caches w2 ! c) = None
      then upd_cache c (\<lambda>tc. tc\<lparr>tc_live := False\<rparr>) w2 else w2)"
    using c2(1) h2 k2 by (simp add: free_outcome_def pools_kept_def)
  moreover have "tls_destructor t w = (if tc_pool (caches w2 ! c) = None
      then upd_cache c (\<lambda>tc. tc\<lparr>tc_live := False\<rparr>) w2 else w2)"
    unfolding tls_destructor_def Some w2_def w1_def by (simp only: option.case Let_def)
  ultimately show ?thesis by simp
qed

lemma cache_list_index:
  "world_wf w \<Longrightarrow> p < length (pools w) \<Longrightarrow> c \<in> set (thread_caches (pools w ! p)) \<Longrightarrow> c < length (caches w)"
  by (auto simp: world_wf_def dest: nth_mem)

lemma mark_destroyed_outcome:
  assumes "conserved U w" "p < length (pools w)"
  shows "conserved U (cleanup_phase_1_mark_destroyed p w)"
proof -
  let ?f = "\<lambda>pool. pool\<lparr>destroyed := True\<rparr>" and ?x = "pools w ! p"
  have wf: "world_wf w" using assms(1) by (simp add: conserved_def)
  have "cache_wf ((pools w)[p := ?f ?x]) tc" if "cache_wf (pools w) tc" for tc
    using that assms(2) by (auto simp: cache_wf_def nth_list_update)
  moreover have "pool_wf pool \<and> set (thread_caches pool) \<subseteq> {..<length (caches w)}"
    if "pool \<in> set ((pools w)[p := ?f ?x])" for pool
    using set_update_mem[OF that] wf world_wf_pool[OF wf assms(2)] cache_list_index[OF wf assms(2)]
    by (auto simp: world_wf_def pool_wf_def)
  ultimately have "world_wf (upd_pool p ?f w)" using wf by (auto simp: world_wf_def upd_pool_def)
  moreover have "map pool_cached ((pools w)[p := ?f ?x]) = map pool_cached (pools w)"
    using assms(2) by (simp add: map_update list_update_same_conv pool_cached_def)
  then have "world_cached (upd_pool p ?f w) = world_cached w"
    unfolding world_cached_def upd_pool_def by simp
  ultimately show ?thesis using assms(1) by (simp add: cleanup_phase_1_mark_destroyed_def conserved_def)
qed

lemma orphan_cache_outcome:
  assumes "conserved U w" "c < length (caches w)"
  shows "free_outcome U w (orphan_cache t c w)" "length (caches (orphan_cache t c w)) = length (caches w)"
proof -
  define w1 where "w1 = cleanup_cache_buffers_locked None c CACHE_CLEANUP_FREE w"
  have a: "conserved U w1 \<and> skel w1 = skel w"
    unfolding w1_def by (rule cleanup_conserved[OF assms]) simp_all
  have h: "heap w1 \<subseteq># heap w" unfolding w1_def by (rule cleanup_heap)
  have k: "pools_kept w w1" using a pools_kept_skel by blast
  have l: "length (caches w1) = length (caches w)" using a skel_lengths by blast
  define w2 where "w2 = upd_cache c (\<lambda>tc. tc\<lparr>tc_pool := None\<rparr>) w1"
  have b: "conserved U w2" unfolding w2_def by (rule upd_cache_conserved) (use a l assms(2) in simp_all)
  have b': "pools w2 = pools w1" "heap w2 = heap w1" "length (caches w2) = length (caches w)"
    by (simp_all add: w2_def l)
  define w3 where "w3 = (if tls_cache w2 t = Some c then set_tls t None w2 else w2)"
  have d: "conserved U w3" "pools w3 = pools w1" "heap w3 = heap w1" "caches w3 = caches w2"
    using b conserved_tls(1)[OF b, of None t] b' by (simp_all add: w3_def)
  have d4: "conserved U (set_tls_key t None w3)" by (rule conserved_tls(2)[OF d(1)]) simp
  have d5: "conserved U (upd_cache c (\<lambda>tc. tc\<lparr>tc_live := False\<rparr>) (set_tls_key t None w3))"
    "conserved U (upd_cache c (\<lambda>tc. tc\<lparr>tc_live := False\<rparr>) w2)"
    using upd_cache_conserved[OF d4, of c "\<lambda>tc. tc\<lparr>tc_live := False\<rparr>"]
      upd_cache_conserved[OF b, of c "\<lambda>tc. tc\<lparr>tc_live := False\<rparr>"] assms(2) b'(3) d(4) by simp_all
  have e: "orphan_cache t c w = (if tc_owner (caches w2 ! c) = t
      then upd_cache c (\<lambda>tc. tc\<lparr>tc_live := False\<rparr>) (set_tls_key t None w3)
      else if thread_exited (caches w2 ! c) then upd_cache c (\<lambda>tc. tc\<lparr>tc_live := False\<rparr>) w2 else w2)"
    unfolding orphan_cache_def w3_def w2_def w1_def by (simp add: Let_def)
  show "free_outcome U w (orphan_cache t c w)"
    unfolding e using b d5 h k b'(1,2) d(2,3) by (simp add: free_outcome_def pools_kept_def)
  show "length (caches (orphan_cache t c w)) = length (caches w)"
    unfolding e using b'(3) d(4) by simp
qed

lemma orphan_all_outcome:
  assumes "conserved U w" "set cs \<subseteq> {..<length (caches w)}"
  shows "free_outcome U w (fold (orphan_cache t) cs w)"
  using assms
proof (induction cs arbitrary: w)
  case Nil
  then show ?case by (simp add: free_outcome_def)
next
  case (Cons c cs)
  have c: "c < length (caches w)" using Cons.prems(2) by simp
  note o1 = orphan_cache_outcome[OF Cons.prems(1) c, of t]
  have "free_outcome U (orphan_cache t c w) (fold (orphan_cache t) cs (orphan_cache t c w))"
    using o1 Cons.prems(2) by (intro Cons.IH) (auto simp: free_outcome_def)
  then show ?case using o1(1) pools_kept_trans subset_mset.order_trans
    unfolding free_outcome_def fold_simps by blast
qed

lemma phase_2_outcome:
  assumes "conserved U w" "p < length (pools w)"
  shows "free_outcome U w (cleanup_phase_2_process_caches t p w)"
proof -
  let ?f = "\<lambda>pool. pool\<lparr>thread_caches := []\<rparr>" and ?cs = "thread_caches (pools w ! p)"
  have wf: "world_wf w" using assms(1) by (simp add: conserved_def)
  have "pool_wf (?f (pools w ! p))" using world_wf_pool[OF wf assms(2)] by (simp add: pool_wf_def)
  then have "world_wf (upd_pool p ?f w)" by (intro upd_pool_wf[OF wf assms(2)]) auto
  moreover have "map pool_cached ((pools w)[p := ?f (pools w ! p)]) = map pool_cached (pools w)"
    using assms(2) by (simp add: map_update list_update_same_conv pool_cached_def)
  then have "world_cached (upd_pool p ?f w) = world_cached w" unfolding world_cached_def upd_pool_def by simp
  ultimately have c: "conserved U (upd_pool p ?f w)" using assms(1) by (simp add: conserved_def)
  have "set ?cs \<subseteq> {..<length (caches (upd_pool p ?f w))}" using wf assms(2) by (simp add: world_wf_def)
  from orphan_all_outcome[OF c this, of t] have "free_outcome U (upd_pool p ?f w)
      (cleanup_phase_2_process_caches t p w)" by (simp add: cleanup_phase_2_process_caches_def)
  moreover have "pools_kept w (upd_pool p ?f w)" by (intro pools_kept_skel skel_upd_pool) simp_all
  ultimately show ?thesis using pools_kept_trans by (auto simp: free_outcome_def)
qed

lemma phase_3_outcome:
  assumes "conserved U w" "p < length (pools w)" "destroyed (pools w ! p)"
  shows "conserved U (cleanup_phase_3_destroy_shards p w)" "heap (cleanup_phase_3_destroy_shards p w) \<subseteq># heap w"
proof -
  let ?f = "\<lambda>pool. pool\<lparr>shards := [], shard_count := 0, shard_mask := 0, total_allocated := 0, total_buffers := 0\<rparr>"
  let ?x = "pools w ! p"
  define bufs where "bufs = concat (map (fst \<circ> shard_destroy) (shards ?x))"
  have e: "cleanup_phase_3_destroy_shards p w = upd_pool p ?f (heap_free bufs w)"
    by (simp add: cleanup_phase_3_destroy_shards_def bufs_def)
  have b: "mset bufs = pool_cached ?x"
    by (simp add: bufs_def pool_cached_def mset_concat shard_destroy_def o_def)
  have wf: "world_wf w" using assms(1) by (simp add: conserved_def)
  have "cache_wf ((pools w)[p := ?f ?x]) tc" if "cache_wf (pools w) tc" for tc
    using that assms(2,3) by (auto simp: cache_wf_def nth_list_update)
  moreover have "pool_wf pool \<and> set (thread_caches pool) \<subseteq> {..<length (caches w)}"
    if "pool \<in> set ((pools w)[p := ?f ?x])" for pool
    using set_update_mem[OF that] wf assms(3) cache_list_index[OF wf assms(2)]
    by (auto simp: world_wf_def pool_wf_def)
  ultimately have w: "world_wf (upd_pool p ?f (heap_free bufs w))"
    using wf by (auto simp: world_wf_def upd_pool_def)
  have "sum_list (map pool_cached ((pools w)[p := ?f ?x])) + pool_cached ?x =
      sum_list (map pool_cached (pools w)) + pool_cached (?f ?x)"
    by (rule sum_list_update_mset[OF assms(2)])
  then have "world_cached (upd_pool p ?f (heap_free bufs w)) + mset bufs = world_cached w"
    unfolding b by (simp add: world_cached_def upd_pool_def pool_cached_def ac_simps)
  then have "heap w = (world_cached (upd_pool p ?f (heap_free bufs w)) + U) + mset bufs"
    using assms(1) by (simp add: conserved_def ac_simps)
  then show "conserved U (cleanup_phase_3_destroy_shards p w)"
    unfolding e using w by (simp add: conserved_def)
  show "heap (cleanup_phase_3_destroy_shards p w) \<subseteq># heap w" by (simp add: e)
qed

lemma buffer_pool_destroy_outcome:
  assumes "conserved U w" "p < length (pools w)"
  shows "conserved U (buffer_pool_destroy t p w)" "heap (buffer_pool_destroy t p w) \<subseteq># heap w"
proof -
  let ?w1 = "cleanup_phase_1_mark_destroyed p w"
  have c1: "conserved U ?w1" by (rule mark_destroyed_outcome[OF assms])
  have p1: "p < length (pools ?w1)" "destroyed (pools ?w1 ! p)" "heap ?w1 = heap w"
    using assms(2) by (simp_all add: cleanup_phase_1_mark_destroyed_def upd_pool_def)
  let ?w2 = "cleanup_phase_2_process_caches t p ?w1"
  have o2: "free_outcome U ?w1 ?w2" by (rule phase_2_outcome[OF c1 p1(1)])
  then have c2: "conserved U ?w2" "heap ?w2 \<subseteq># heap w" "pools_kept ?w1 ?w2"
    using p1(3) by (auto simp: free_outcome_def)
  have p2: "p < length (pools ?w2)" "destroyed (pools ?w2 ! p)"
    using pools_kept_nth[OF c2(3)] p1 by auto
  note o3 = phase_3_outcome[OF c2(1) p2]
  show "conserved U (buffer_pool_destroy t p w)" using o3(1) by (simp add: buffer_pool_destroy_def)
  show "heap (buffer_pool_destroy t p w) \<subseteq># heap w"
    using subset_mset.order_trans[OF o3(2) c2(2)] by (simp add: buffer_pool_destroy_def)
qed

section \<open>Pool creation\<close>

lemma shard_init_wf: "shard_init True True = Some s \<Longrightarrow> shard_wf s \<and> shard_buffers s = []"
  by (auto simp: shard_init_def shard_wf_def shard_buffers_def)

lemma shard_init_some: "shard_wf (the (shard_init True True))" "shard_buffers (the (shard_init True True)) = []"
  by (simp_all add: shard_init_def shard_wf_def shard_buffers_def)

lemma append_pool_conserved:
  assumes "conserved U w" "pool_wf x" "pool_cached x = {#}" "thread_caches x = []"
  shows "conserved U (w\<lparr>pools := pools w @ [x]\<rparr>)"
proof -
  have "cache_wf (pools w @ [x]) tc" if "cache_wf (pools w) tc" for tc
    using that by (auto simp: cache_wf_def nth_append)
  then have "world_wf (w\<lparr>pools := pools w @ [x]\<rparr>)" using assms by (auto simp: conserved_def world_wf_def)
  then show ?thesis using assms(1,3) by (simp add: conserved_def world_cached_def)
qed

lemma new_pool_cached: "pool_cached (x\<lparr>shards := map (\<lambda>i. the (shard_init True True)) [0..<n]\<rparr>) = {#}"
  by (simp add: pool_cached_def shard_init_some o_def sum_list_0)

lemma buffer_pool_init_conserved:
  assumes "conserved U w" "buffer_pool_init cpus have_shards shard_ok alignment w = (r, w')"
  shows "conserved U w'" "heap w' = heap w"
proof -
  obtain k where k: "calculate_shard_count cpus = 2 ^ k" "k \<le> 8" using shard_count_power by blast
  let ?w1 = "w\<lparr>pool_generation := pool_generation w + 1\<rparr>"
  have c1: "conserved U ?w1" using assms(1) by (simp add: conserved_def world_wf_def world_cached_def)
  let ?x = "\<lparr>shards = map (\<lambda>i. the (shard_init True True)) [0..<2 ^ k], shard_count = 2 ^ k,
      shard_mask = 2 ^ k - 1, pool_id = pool_generation w, bp_alignment = alignment,
      thread_caches = [], destroyed = False, total_allocated = 0, total_buffers = 0, next_shard = 0\<rparr>"
  have "pool_wf ?x" using k(2) by (auto simp: pool_wf_def shard_init_some)
  moreover have "pool_cached ?x = {#}" by (simp add: pool_cached_def shard_init_some o_def sum_list_0)
  ultimately have c2: "conserved U (?w1\<lparr>pools := pools ?w1 @ [?x]\<rparr>)"
    by (intro append_pool_conserved[OF c1]) simp_all
  have "w' \<in> {w, ?w1, ?w1\<lparr>pools := pools ?w1 @ [?x]\<rparr>}"
    using assms(2) k(1) unfolding buffer_pool_init_def Let_def by (auto split: if_splits)
  then show "conserved U w'" "heap w' = heap w" using assms(1) c1 c2 by auto
qed

section \<open>Histories of a process\<close>

text \<open>
  The pools and caches of a process after some calls, and the multiset of the buffers its callers
  hold. \<open>posix_memalign\<close> answers memory that is not in use, and never NULL.
\<close>

definition fresh_env :: "alloc_env \<Rightarrow> pool_world \<Rightarrow> bool" where
  "fresh_env env w \<longleftrightarrow> distinct (env_buffers env) \<and> 0 \<notin> set (env_buffers env) \<and>
     list_all (\<lambda>b. b \<notin># heap w) (env_buffers env)"

definition new_world :: pool_world where
  "new_world = \<lparr>pools = [], caches = [], tls_cache = (\<lambda>t. None), tls_spec = (\<lambda>t. None), heap = {#},
     pool_generation = 0, tls_key_once = False, tls_key_valid = False\<rparr>"

inductive pool_reach :: "u64 multiset \<Rightarrow> pool_world \<Rightarrow> bool" where
  start: "pool_reach {#} new_world"
| init: "pool_reach U w \<Longrightarrow> buffer_pool_init cpus have_shards shard_ok alignment w = (r, w') \<Longrightarrow> pool_reach U w'"
| alloc_some: "pool_reach U w \<Longrightarrow> p < length (pools w) \<Longrightarrow> fresh_env env w \<Longrightarrow>
    buffer_pool_alloc env t p sz w = (Inr b, w') \<Longrightarrow> pool_reach (add_mset b U) w'"
| alloc_none: "pool_reach U w \<Longrightarrow> p < length (pools w) \<Longrightarrow> fresh_env env w \<Longrightarrow>
    buffer_pool_alloc env t p sz w = (Inl e, w') \<Longrightarrow> pool_reach U w'"
| free: "pool_reach (add_mset b U) w \<Longrightarrow> p < length (pools w) \<Longrightarrow>
    pool_reach U (buffer_pool_free env t p b sz w)"
| thread_exit: "pool_reach U w \<Longrightarrow> pool_reach U (tls_destructor t w)"
| destroy: "pool_reach U w \<Longrightarrow> p < length (pools w) \<Longrightarrow> pool_reach U (buffer_pool_destroy t p w)"

definition all_distinct :: "'a multiset \<Rightarrow> bool" where
  "all_distinct M \<longleftrightarrow> (\<forall>x. count M x \<le> 1)"

lemma all_distinct_mono: "all_distinct M \<Longrightarrow> N \<subseteq># M \<Longrightarrow> all_distinct N"
  by (meson all_distinct_def mset_subset_eq_count order_trans)

lemma all_distinct_add: "all_distinct (add_mset b M) \<longleftrightarrow> all_distinct M \<and> b \<notin># M"
  by (auto simp: all_distinct_def not_in_iff le_Suc_eq)

lemma all_distinct_fresh:
  "all_distinct M \<Longrightarrow> distinct bs \<Longrightarrow> list_all (\<lambda>b. b \<notin># M) bs \<Longrightarrow> all_distinct (M + mset bs)"
  by (induction bs) (auto simp: all_distinct_add)

definition heap_ok :: "u64 multiset \<Rightarrow> bool" where
  "heap_ok H \<longleftrightarrow> all_distinct H \<and> 0 \<notin># H"

lemma heap_ok_mono: "heap_ok H \<Longrightarrow> H' \<subseteq># H \<Longrightarrow> heap_ok H'"
  using all_distinct_mono[of H H'] mset_subset_eqD[of H' H] by (auto simp: heap_ok_def)

lemma heap_ok_fresh: "heap_ok (heap w) \<Longrightarrow> fresh_env env w \<Longrightarrow> heap_ok (heap w + mset (env_buffers env))"
  using all_distinct_fresh[of "heap w" "env_buffers env"] by (auto simp: heap_ok_def fresh_env_def)

lemma new_world_conserved: "conserved {#} new_world"
  by (simp add: conserved_def world_wf_def world_cached_def new_world_def)

lemma pool_reach_inv: "pool_reach U w \<Longrightarrow> conserved U w \<and> heap_ok (heap w)"
proof (induction rule: pool_reach.induct)
  case start
  then show ?case by (simp add: new_world_conserved) (simp add: new_world_def heap_ok_def all_distinct_def)
next
  case (init U w)
  then show ?case using buffer_pool_init_conserved[of U w] by metis
next
  case (alloc_some U w p env t sz b w')
  then have "alloc_outcome U (heap w + mset (env_buffers env)) w (Inr b, w')"
    using buffer_pool_alloc_outcome[of U w p env t sz] by simp
  then show ?case using heap_ok_mono[OF heap_ok_fresh, of w env "heap w'"] alloc_some
    by (simp add: alloc_outcome_def)
next
  case (alloc_none U w p env t sz e w')
  then have "alloc_outcome U (heap w + mset (env_buffers env)) w (Inl e, w')"
    using buffer_pool_alloc_outcome[of U w p env t sz] by simp
  then show ?case using heap_ok_mono[OF heap_ok_fresh, of w env "heap w'"] alloc_none
    by (simp add: alloc_outcome_def)
next
  case (free b U w p env t sz)
  have "b \<in># heap w" using free.IH by (simp add: conserved_def)
  then have "b \<noteq> 0" using free.IH by (auto simp: heap_ok_def)
  then have "free_outcome U w (buffer_pool_free env t p b sz w)"
    using buffer_pool_free_outcome free by blast
  then show ?case using heap_ok_mono free.IH by (auto simp: free_outcome_def)
next
  case (thread_exit U w t)
  then show ?case using tls_destructor_outcome[of U w t] heap_ok_mono by (auto simp: free_outcome_def)
next
  case (destroy U w p t)
  then show ?case using buffer_pool_destroy_outcome[of U w p t] heap_ok_mono by blast
qed

text \<open>
  Claim C35. In every history of pool creations, allocations, releases, thread exits and pool
  destructions, the live heap buffers are exactly those cached in shards and thread caches together
  with those the callers hold: no buffer is lost and none is both cached and held.
\<close>

theorem pool_conserves_buffers:
  assumes "pool_reach U w"
  shows "heap w = world_cached w + U \<and> (\<forall>b. count (world_cached w) b + count U b \<le> 1)"
proof -
  have "conserved U w" "heap_ok (heap w)" using pool_reach_inv[OF assms] by auto
  then show ?thesis
    by (auto simp: conserved_def heap_ok_def all_distinct_def)
qed

text \<open>
  An allocation never hands out a buffer that another caller holds, nor one that is still
  cached afterwards, and what it hands out is live heap memory.
\<close>

theorem alloc_never_doubles:
  assumes "pool_reach U w" "p < length (pools w)" "fresh_env env w"
    "buffer_pool_alloc env t p sz w = (Inr b, w')"
  shows "b \<notin># U \<and> b \<notin># world_cached w' \<and> b \<in># heap w' \<and> b \<noteq> 0"
proof -
  have r: "pool_reach (add_mset b U) w'" by (rule pool_reach.alloc_some[OF assms])
  have i: "heap w' = world_cached w' + add_mset b U" "heap_ok (heap w')"
    using pool_reach_inv[OF r] by (auto simp: conserved_def)
  then have "all_distinct (add_mset b (world_cached w' + U))" by (simp add: heap_ok_def)
  then have "b \<notin># world_cached w' + U" unfolding all_distinct_add by blast
  then show ?thesis using i by (auto simp: heap_ok_def)
qed

definition demo_world :: pool_world where
  "demo_world = snd (buffer_pool_init 4 True (\<lambda>i. True) 4096 new_world)"

definition demo_env :: alloc_env where
  "demo_env = \<lparr>env_key_ok = True, env_have_cache = False, env_memalign = Inr 65536, env_extras = [131072, 196608]\<rparr>"

lemma demo_reach: "pool_reach {#} demo_world"
  unfolding demo_world_def
  by (rule pool_reach.init[OF pool_reach.start, of 4 True "\<lambda>i. True" 4096
        "fst (buffer_pool_init 4 True (\<lambda>i. True) 4096 new_world)"]) simp

definition demo_shard :: buffer_shard where
  "demo_shard = the (shard_init True True)"

lemma demo_shard_buckets: "size_buckets demo_shard = replicate 16 []"
  by (simp add: demo_shard_def shard_init_def)

lemma demo_world_eq:
  "demo_world = new_world\<lparr>pool_generation := 1, pools :=
     [\<lparr>shards = [demo_shard, demo_shard], shard_count = 2, shard_mask = 1, pool_id = 0, bp_alignment = 4096,
       thread_caches = [], destroyed = False, total_allocated = 0, total_buffers = 0, next_shard = 0\<rparr>]\<rparr>"
proof -
  have "calculate_shard_count 4 = 2" by (simp add: calculate_shard_count_def c_int_def c_div_def)
  moreover have "[0..<2] = [0, 1]" by (simp add: upt_conv_Cons)
  ultimately show ?thesis
    by (simp add: demo_world_def buffer_pool_init_def new_world_def demo_shard_def)
qed

lemma demo_pools: "length (pools demo_world) = 1" "heap demo_world = {#}"
  by (simp_all add: demo_world_eq new_world_def)

lemma demo_fresh: "fresh_env demo_env demo_world"
  by (simp add: fresh_env_def demo_pools env_buffers_def demo_env_def)

lemma demo_alloc: "fst (buffer_pool_alloc demo_env 7 0 100 demo_world) = Inr 65536"
proof -
  have c: "size_to_class 100 = 0" by (simp add: size_to_class_def)
  have g: "get_thread_cache True False 7 0 demo_world = (None, tls_key_init True demo_world)"
    by (simp add: get_thread_cache_def demo_world_eq new_world_def)
  have "shards (pools (tls_key_init True demo_world) ! 0) = [demo_shard, demo_shard]"
    "next_shard (pools (tls_key_init True demo_world) ! 0) = 0"
    "\<not> destroyed (pools (tls_key_init True demo_world) ! 0)" "pools (tls_key_init True demo_world) \<noteq> []"
    by (simp_all add: demo_world_eq new_world_def)
  then show ?thesis
    by (simp add: buffer_pool_alloc_def demo_env_def c g select_shard_def round_robin_def upd_pool_def
        shard_pop_def demo_shard_buckets alloc_from_heap_def)
qed

definition demo_used :: pool_world where
  "demo_used = snd (buffer_pool_alloc demo_env 7 0 100 demo_world)"

lemma demo_used_alloc: "buffer_pool_alloc demo_env 7 0 100 demo_world = (Inr 65536, demo_used)"
  using demo_alloc unfolding demo_used_def by (metis prod.collapse)

lemma demo_used_reach: "pool_reach {#65536#} demo_used"
  using pool_reach.alloc_some[OF demo_reach _ demo_fresh demo_used_alloc] by (simp add: demo_pools)

theorem pool_conserves_buffers_witness:
  "heap demo_used = world_cached demo_used + {#65536#} \<and> count (world_cached demo_used) 65536 = 0"
  using pool_conserves_buffers[OF demo_used_reach] by (auto dest: spec[of _ 65536])

end
