(* ===== verification/Buffer_Classes.thy ===== *)
theory Buffer_Classes
  imports Buffer_Pool
begin

text \<open>
  Where the pool of src/engine/src/adaptive_buffer.c keeps a buffer: the size class it is stored under, in a shard or in a thread cache. No
  operation moves a buffer to another class.
\<close>

definition class_pairs :: "u64 list list \<Rightarrow> (nat \<times> u64) set" where
  "class_pairs bss = {(cls, b). cls < length bss \<and> b \<in> set (bss ! cls)}"

definition shard_placed :: "buffer_shard \<Rightarrow> (nat \<times> u64) set" where
  "shard_placed s = class_pairs (map (map slot_buffer) (size_buckets s))"

definition placed :: "pool_world \<Rightarrow> (nat \<times> u64) set" where
  "placed w = (\<Union>pool \<in> set (pools w). \<Union>s \<in> set (shards pool). shard_placed s) \<union> (\<Union>tc \<in> set (caches w). class_pairs (tc_buffers tc))"

lemma class_pairs_update: "class_pairs (bss[cls := bs]) \<subseteq> class_pairs bss \<union> Pair cls ` set bs"
proof -
  have "b \<in> set (bss ! k) \<or> k = cls \<and> b \<in> set bs" if "k < length bss" "b \<in> set (bss[cls := bs] ! k)" for k b
    using that by (cases "k = cls") simp_all
  then show ?thesis by (auto simp: class_pairs_def)
qed

lemma class_pairs_nth: "cls < length bss \<Longrightarrow> Pair cls ` set (bss ! cls) \<subseteq> class_pairs bss"
  by (auto simp: class_pairs_def)

lemma placed_member: "pool \<in> set (pools w) \<Longrightarrow> s \<in> set (shards pool) \<Longrightarrow> shard_placed s \<subseteq> placed w"
  unfolding placed_def by blast

lemma placed_shard: "p < length (pools w) \<Longrightarrow> i < length (shards (pools w ! p)) \<Longrightarrow> shard_placed (shards (pools w ! p) ! i) \<subseteq> placed w"
  using placed_member[of "pools w ! p"] by simp

lemma placed_cache: "c < length (caches w) \<Longrightarrow> class_pairs (tc_buffers (caches w ! c)) \<subseteq> placed w"
  by (force simp: placed_def)

lemma placed_cached:
  assumes "(cls, b) \<in> placed w"
  shows "b \<in># world_cached w"
proof -
  have c: "b \<in> set (concat bss)" if "(cls, b) \<in> class_pairs bss" for bss using that by (force simp: class_pairs_def)
  consider pool s where "pool \<in> set (pools w)" "s \<in> set (shards pool)" "(cls, b) \<in> shard_placed s"
    | tc where "tc \<in> set (caches w)" "(cls, b) \<in> class_pairs (tc_buffers tc)" using assms by (auto simp: placed_def)
  then show ?thesis
  proof cases
    case 1
    have "b \<in> set (shard_buffers s)" using c[OF 1(3)[unfolded shard_placed_def]] by (simp add: shard_buffers_def)
    then have "b \<in># pool_cached pool" using 1(2) by (auto simp: pool_cached_def)
    then show ?thesis using 1(1) by (auto simp: world_cached_def)
  next
    case 2
    have "b \<in># cache_cached tc" using c[OF 2(2)] by (simp add: cache_cached_def)
    then show ?thesis using 2(1) by (auto simp: world_cached_def)
  qed
qed

section \<open>Updates of one pool or one cache\<close>

lemma placed_upd_pool:
  assumes "\<And>s. p < length (pools w) \<Longrightarrow> s \<in> set (shards (f (pools w ! p))) \<Longrightarrow> shard_placed s \<subseteq> placed w \<union> X"
  shows "placed (upd_pool p f w) \<subseteq> placed w \<union> X"
proof (cases "p < length (pools w)")
  case True
  have "shard_placed s \<subseteq> placed w \<union> X" if "pool \<in> set ((pools w)[p := f (pools w ! p)])" "s \<in> set (shards pool)" for pool s
    using set_update_mem[OF that(1)]
  proof
    assume "pool \<in> set (pools w)"
    then show ?thesis using placed_member that(2) by blast
  qed (use assms[OF True] that(2) in blast)
  moreover have "class_pairs (tc_buffers tc) \<subseteq> placed w" if "tc \<in> set (caches w)" for tc using that by (auto simp: placed_def)
  moreover have "placed (upd_pool p f w) = (\<Union>pool \<in> set ((pools w)[p := f (pools w ! p)]). \<Union>s \<in> set (shards pool). shard_placed s) \<union>
      (\<Union>tc \<in> set (caches w). class_pairs (tc_buffers tc))"
    by (simp add: placed_def upd_pool_def)
  ultimately show ?thesis by blast
qed (simp add: upd_pool_def list_update_beyond le_supI1)

lemma placed_upd_cache:
  assumes "c < length (caches w) \<Longrightarrow> class_pairs (tc_buffers (g (caches w ! c))) \<subseteq> placed w \<union> X"
  shows "placed (upd_cache c g w) \<subseteq> placed w \<union> X"
proof (cases "c < length (caches w)")
  case True
  have "class_pairs (tc_buffers tc) \<subseteq> placed w \<union> X" if "tc \<in> set ((caches w)[c := g (caches w ! c)])" for tc
    using set_update_mem[OF that]
  proof
    assume "tc \<in> set (caches w)"
    then show ?thesis by (auto simp: placed_def)
  qed (use assms[OF True] in simp)
  moreover have "shard_placed s \<subseteq> placed w" if "pool \<in> set (pools w)" "s \<in> set (shards pool)" for pool s using that by (auto simp: placed_def)
  moreover have "placed (upd_cache c g w) = (\<Union>pool \<in> set (pools w). \<Union>s \<in> set (shards pool). shard_placed s) \<union>
      (\<Union>tc \<in> set ((caches w)[c := g (caches w ! c)]). class_pairs (tc_buffers tc))"
    by (simp add: placed_def upd_cache_def)
  ultimately show ?thesis by blast
qed (simp add: upd_cache_def list_update_beyond le_supI1)

lemma placed_pool_same: "(\<And>x. shards (f x) = shards x) \<Longrightarrow> placed (upd_pool p f w) \<subseteq> placed w"
  using placed_upd_pool[of p w f "{}"] placed_member[OF nth_mem] by simp

lemma placed_cache_same: "(\<And>x. tc_buffers (g x) = tc_buffers x) \<Longrightarrow> placed (upd_cache c g w) \<subseteq> placed w"
  using placed_upd_cache[of c w g "{}"] placed_cache[of c w] by auto

lemma placed_set_shard:
  assumes "shard_placed s \<subseteq> placed w \<union> X"
  shows "placed (upd_pool p (\<lambda>pool. pool\<lparr>shards := (shards pool)[i := s]\<rparr>) w) \<subseteq> placed w \<union> X"
proof (rule placed_upd_pool)
  fix x assume p: "p < length (pools w)" and "x \<in> set (shards ((pools w ! p)\<lparr>shards := (shards (pools w ! p))[i := s]\<rparr>))"
  then have "x = s \<or> x \<in> set (shards (pools w ! p))" using set_update_mem[of x] by simp
  then show "shard_placed x \<subseteq> placed w \<union> X"
  proof
    assume "x \<in> set (shards (pools w ! p))"
    then show ?thesis using placed_member[OF nth_mem[OF p]] by blast
  qed (use assms in simp)
qed

lemma placed_set_class:
  assumes "c < length (caches w) \<Longrightarrow> Pair cls ` set bufs \<subseteq> placed w \<union> X"
  shows "placed (upd_cache c (\<lambda>tc. tc\<lparr>tc_buffers := (tc_buffers tc)[cls := bufs]\<rparr>) w) \<subseteq> placed w \<union> X"
proof (rule placed_upd_cache)
  assume c: "c < length (caches w)"
  show "class_pairs (tc_buffers ((caches w ! c)\<lparr>tc_buffers := (tc_buffers (caches w ! c))[cls := bufs]\<rparr>)) \<subseteq> placed w \<union> X"
    using class_pairs_update[of "tc_buffers (caches w ! c)" cls bufs] placed_cache[OF c] assms[OF c] by auto
qed

lemma placed_frames [simp]:
  "placed (heap_free bs w) = placed w" "placed (set_tls t v w) = placed w" "placed (set_tls_key t v w) = placed w"
  "placed (tls_key_init k w) = placed w" "placed (w\<lparr>heap := H\<rparr>) = placed w"
  by (simp_all add: placed_def)

section \<open>Shards\<close>

lemma shard_pop_placed:
  assumes "shard_pop cls s = Some (b, s')" "cls < length (size_buckets s)"
  shows "(cls, b) \<in> shard_placed s" "shard_placed s' \<subseteq> shard_placed s" "length (size_buckets s') = length (size_buckets s)"
proof -
  obtain sl sls where e: "size_buckets s ! cls = sl # sls" "b = slot_buffer sl" "size_buckets s' = (size_buckets s)[cls := sls]"
    using assms(1) by (auto simp: shard_pop_def split: list.splits)
  show "(cls, b) \<in> shard_placed s" using e assms(2) by (simp add: shard_placed_def class_pairs_def)
  show "shard_placed s' \<subseteq> shard_placed s" using e assms(2) by (auto simp: shard_placed_def class_pairs_def nth_list_update split: if_splits)
  show "length (size_buckets s') = length (size_buckets s)" using e(3) by simp
qed

lemma shard_push_placed:
  assumes "shard_push cls bs b s = Some s'" "cls < length (size_buckets s)"
  shows "shard_placed s' \<subseteq> insert (cls, b) (shard_placed s)" "length (size_buckets s') = length (size_buckets s)"
  using assms by (auto simp: shard_push_def shard_placed_def class_pairs_def nth_list_update split: list.splits if_splits)

lemma refill_loop_placed:
  "refill_loop k cls s bufs n = (s', bufs', n') \<Longrightarrow> cls < length (size_buckets s) \<Longrightarrow>
     shard_placed s' \<union> Pair cls ` set bufs' \<subseteq> shard_placed s \<union> Pair cls ` set bufs"
proof (induction k arbitrary: s bufs n)
  case (Suc k)
  show ?case
  proof (cases "length bufs < 32")
    case len: True
    show ?thesis
    proof (cases "shard_pop cls s")
      case (Some r)
      then obtain b s1 where r: "shard_pop cls s = Some (b, s1)" by (cases r) auto
      note p = shard_pop_placed[OF r Suc.prems(2)]
      have "refill_loop k cls s1 (b # bufs) (n + 1) = (s', bufs', n')" using Suc.prems(1) len r by simp
      from Suc.IH[OF this] p Suc.prems(2) show ?thesis by auto
    qed (use Suc.prems len in simp)
  qed (use Suc.prems in simp)
qed simp

lemma flush_loop_placed:
  "flush_loop cls bs s bufs fr n = (s', bufs', fr', n') \<Longrightarrow> cls < length (size_buckets s) \<Longrightarrow>
     shard_placed s' \<union> Pair cls ` set bufs' \<subseteq> shard_placed s \<union> Pair cls ` set bufs"
proof (induction bufs arbitrary: s fr n)
  case (Cons b bufs)
  consider "n \<ge> 16 \<or> shard_full s" | "n < 16" "\<not> shard_full s" "shard_push cls bs b s = None"
    | s1 where "n < 16" "\<not> shard_full s" "shard_push cls bs b s = Some s1" by fastforce
  then show ?case
  proof cases
    case 1
    then show ?thesis using Cons.prems by (auto split: if_splits)
  next
    case 2
    then have "flush_loop cls bs s bufs (fr @ [b]) n = (s', bufs', fr', n')" using Cons.prems(1) by simp
    from Cons.IH[OF this Cons.prems(2)] show ?thesis by auto
  next
    case (3 s1)
    note p = shard_push_placed[OF 3(3) Cons.prems(2)]
    have "flush_loop cls bs s1 bufs fr (n + 1) = (s', bufs', fr', n')" using 3 Cons.prems(1) by simp
    from Cons.IH[OF this] p Cons.prems(2) show ?thesis by auto
  qed
qed simp

section \<open>Pool operations\<close>

lemma bucket_length: "conserved U w \<Longrightarrow> bound p c w \<Longrightarrow> cls < 16 \<Longrightarrow> cls < length (size_buckets (shards (pools w ! p) ! tc_shard_id (caches w ! c)))"
  using shard_of_pool[of U w p "tc_shard_id (caches w ! c)"] by (simp add: bound_def shard_wf_def)

lemma class_placed: "conserved U w \<Longrightarrow> c < length (caches w) \<Longrightarrow> cls < 16 \<Longrightarrow> Pair cls ` set (tc_buffers (caches w ! c) ! cls) \<subseteq> placed w"
  using class_length[of U w c] class_pairs_nth[of cls "tc_buffers (caches w ! c)"] placed_cache[of c w] by auto

text \<open>Moving buffers of one class between a shard and a cache.\<close>

lemma exchange_placed:
  assumes "conserved U w" "bound p c w" "cls < 16"
    "shard_placed s \<union> Pair cls ` set bufs \<subseteq>
       shard_placed (shards (pools w ! p) ! tc_shard_id (caches w ! c)) \<union> Pair cls ` set (tc_buffers (caches w ! c) ! cls)"
  shows "placed (upd_cache c (\<lambda>tc. tc\<lparr>tc_buffers := (tc_buffers tc)[cls := bufs]\<rparr>)
    (upd_pool p (\<lambda>pool. pool\<lparr>shards := (shards pool)[tc_shard_id (caches w ! c) := s]\<rparr>) w)) \<subseteq> placed w"
    (is "placed (upd_cache c ?g ?w1) \<subseteq> _")
proof -
  have b: "p < length (pools w)" "c < length (caches w)" "tc_shard_id (caches w ! c) < length (shards (pools w ! p))"
    using assms(2) by (auto simp: bound_def)
  have i: "shard_placed s \<subseteq> placed w" "Pair cls ` set bufs \<subseteq> placed w"
    using subset_trans[OF assms(4) Un_least[OF placed_shard[OF b(1,3)] class_placed[OF assms(1) b(2) assms(3)]]] by simp_all
  have "placed ?w1 \<subseteq> placed w" using placed_set_shard[of s w "{}"] i(1) by simp
  moreover have "placed (upd_cache c ?g ?w1) \<subseteq> placed ?w1 \<union> placed w" by (rule placed_set_class) (use i(2) in blast)
  ultimately show ?thesis by blast
qed

lemma cache_refill_placed:
  assumes "conserved U w" "bound p c w" "cls < 16" "cache_refill p c cls w = (n, w')"
  shows "placed w' \<subseteq> placed w"
proof -
  let ?i = "tc_shard_id (caches w ! c)"
  obtain s bufs where r: "refill_loop 16 cls (shards (pools w ! p) ! ?i) (tc_buffers (caches w ! c) ! cls) 0 = (s, bufs, n)"
    and w': "w' = upd_cache c (\<lambda>tc. tc\<lparr>tc_buffers := (tc_buffers tc)[cls := bufs]\<rparr>)
      (upd_pool p (\<lambda>pool. pool\<lparr>shards := (shards pool)[?i := s]\<rparr>) w)"
    using assms(4) by (auto simp: cache_refill_def Let_def split: prod.splits)
  show ?thesis unfolding w' by (rule exchange_placed[OF assms(1-3) refill_loop_placed[OF r bucket_length[OF assms(1-3)]]])
qed

lemma cache_flush_placed:
  assumes "conserved U w" "bound p c w" "cls < 16"
  shows "placed (snd (cache_flush p c cls bs w)) \<subseteq> placed w"
proof -
  let ?i = "tc_shard_id (caches w ! c)"
  obtain s bufs fr n where r: "flush_loop cls bs (shards (pools w ! p) ! ?i) (tc_buffers (caches w ! c) ! cls) [] 0 = (s, bufs, fr, n)"
    by (metis prod_cases4)
  define w2 where "w2 = upd_cache c (\<lambda>tc. tc\<lparr>tc_buffers := (tc_buffers tc)[cls := bufs]\<rparr>)
      (upd_pool p (\<lambda>pool. pool\<lparr>shards := (shards pool)[?i := s]\<rparr>) w)"
  have "placed w2 \<subseteq> placed w"
    unfolding w2_def by (rule exchange_placed[OF assms flush_loop_placed[OF r bucket_length[OF assms]]])
  moreover have "placed (upd_pool p (unaccount m k) w2) \<subseteq> placed w2" for m k by (rule placed_pool_same) (simp add: unaccount_def)
  moreover have "snd (cache_flush p c cls bs w) =
      (if fr \<noteq> [] then heap_free fr (upd_pool p (unaccount (bs * length fr) (length fr)) w2) else w2)"
    using r by (simp add: cache_flush_def Let_def w2_def)
  ultimately show ?thesis by auto
qed

lemma flush_class_placed:
  assumes "conserved U w" "bound p c w" "cls < 16"
  shows "placed (flush_class fuel p c cls w) \<subseteq> placed w"
  using assms(1,2)
proof (induction fuel arbitrary: w)
  case (Suc fuel)
  let ?w = "snd (cache_flush p c cls (class_to_size cls) w)"
  note f = cache_flush_conserved[OF Suc.prems assms(3), of "class_to_size cls"]
  have "bound p c ?w" using Suc.prems(2) bound_skel[OF f(2)] by simp
  from Suc.IH[OF f(1) this] cache_flush_placed[OF Suc.prems assms(3)] show ?case by auto
qed simp

lemma fold_placed:
  assumes "conserved U w" "bound p c w" "set cs \<subseteq> {..<16}"
    and step: "\<And>cls w. cls < 16 \<Longrightarrow> conserved U w \<Longrightarrow> bound p c w \<Longrightarrow>
      conserved U (f cls w) \<and> skel (f cls w) = skel w \<and> placed (f cls w) \<subseteq> placed w"
  shows "placed (fold f cs w) \<subseteq> placed w"
  using assms(1-3)
proof (induction cs arbitrary: w)
  case (Cons k cs)
  have f: "conserved U (f k w)" "skel (f k w) = skel w" "placed (f k w) \<subseteq> placed w" using step[of k w] Cons.prems by auto
  have "bound p c (f k w)" using Cons.prems(2) bound_skel[OF f(2)] by simp
  from Cons.IH[OF f(1) this] Cons.prems(3) f(3) show ?case by auto
qed simp

lemma flush_all_placed: "conserved U w \<Longrightarrow> bound p c w \<Longrightarrow> placed (flush_all p c w) \<subseteq> placed w"
  unfolding flush_all_def by (erule fold_placed, assumption) (auto simp: flush_class_conserved dest: flush_class_placed)

lemma free_class_placed: "placed (free_class p c cls w) \<subseteq> placed w"
proof -
  have u: "placed (upd_pool q (unaccount m k) x) \<subseteq> placed x" for q m k x by (rule placed_pool_same) (simp add: unaccount_def)
  have g: "placed (upd_cache c (\<lambda>tc. tc\<lparr>tc_buffers := (tc_buffers tc)[cls := []]\<rparr>) x) \<subseteq> placed x" for x
    using placed_set_class[of c x cls "[]" "{}"] by simp
  show ?thesis using order_trans[OF g u] g[of "heap_free (tc_buffers (caches w ! c) ! cls) w"]
    by (auto simp: free_class_def Let_def split: option.split) (metis (no_types, lifting) placed_frames(1) subsetD)+
qed

lemma cleanup_placed:
  assumes "conserved U w" "\<And>q. p = Some q \<Longrightarrow> mode = CACHE_CLEANUP_FLUSH \<Longrightarrow> bound q c w"
  shows "placed (cleanup_cache_buffers_locked p c mode w) \<subseteq> placed w"
proof -
  have f: "placed (fold (free_class p c) cs x) \<subseteq> placed x" for p cs x
    by (induction cs arbitrary: x) (use free_class_placed in \<open>auto, blast\<close>)
  have g: "placed (upd_cache c (\<lambda>tc. tc\<lparr>cleaned_up := True\<rparr>) x) \<subseteq> placed x" for x by (rule placed_cache_same) simp
  have "placed (flush_all q c w) \<subseteq> placed w" if "p = Some q" "mode = CACHE_CLEANUP_FLUSH" for q
    by (rule flush_all_placed[OF assms(1) assms(2)[OF that]])
  then show ?thesis using order_trans[OF g f] order_trans[OF g]
    by (simp add: cleanup_cache_buffers_locked_def Let_def split: option.split)
qed

lemma placed_append_cache: "placed (w\<lparr>caches := caches w @ [new_cache p t pid i]\<rparr>) = placed w"
  by (auto simp: placed_def new_cache_def class_pairs_def)

lemma round_robin_placed: "placed (snd (round_robin p w)) \<subseteq> placed w"
  unfolding round_robin_def snd_conv by (rule placed_pool_same) simp

lemma register_cache_placed: "placed (snd (register_cache k t p w)) \<subseteq> placed w"
proof -
  let ?w1 = "snd (round_robin p (tls_key_init k w))"
  have "placed ?w1 \<subseteq> placed w" using round_robin_placed[of p "tls_key_init k w"] by simp
  moreover have "placed (upd_pool p (\<lambda>pool. pool\<lparr>thread_caches := x # thread_caches pool\<rparr>) y) \<subseteq> placed y" for x y
    by (rule placed_pool_same) simp
  from this[of _ "?w1\<lparr>caches := caches ?w1 @ [new_cache p t (pool_id (pools w ! p)) (fst (round_robin p (tls_key_init k w)))]\<rparr>"]
  have "placed (snd (register_cache k t p w)) \<subseteq> placed ?w1"
    by (simp add: register_cache_def Let_def case_prod_beta placed_append_cache)
  ultimately show ?thesis by blast
qed

lemma get_thread_cache_placed:
  assumes "conserved U w"
  shows "placed (snd (get_thread_cache k h t p w)) \<subseteq> placed w"
proof -
  have live: "placed (upd_cache c (\<lambda>tc. tc\<lparr>tc_live := False\<rparr>) w) \<subseteq> placed w" for c by (rule placed_cache_same) simp
  have cl: "placed (cleanup_cache_buffers_locked (Some q) c
      (if destroyed (pools w ! q) then CACHE_CLEANUP_FREE else CACHE_CLEANUP_FLUSH) w) \<subseteq> placed w"
    if "tls_cache w t = Some c" "tc_pool (caches w ! c) = Some q" for c q
    using bound_cache[OF assms tls_index(1)[OF assms that(1)] that(2)] by (intro cleanup_placed[OF assms]) (auto split: if_splits)
  show ?thesis using register_cache_placed[of k t p w] live cl
    by (auto simp: get_thread_cache_def Let_def case_prod_beta split: option.split)
qed

lemma cache_pop_placed:
  assumes "conserved U w" "c < length (caches w)" "cls < 16" "tc_buffers (caches w ! c) ! cls \<noteq> []" "cache_pop c cls w = (b, w')"
  shows "(cls, b) \<in> placed w" "placed w' \<subseteq> placed w"
proof -
  let ?bs = "tc_buffers (caches w ! c) ! cls"
  have e: "b = hd ?bs" "w' = upd_cache c (\<lambda>tc. tc\<lparr>tc_buffers := (tc_buffers tc)[cls := tl ?bs]\<rparr>) w"
    using assms(5) by (simp_all add: cache_pop_def upd_cache_def)
  note cp = class_placed[OF assms(1-3)]
  then show "(cls, b) \<in> placed w" using assms(4) e(1) by (auto dest: hd_in_set)
  have "Pair cls ` set (tl ?bs) \<subseteq> placed w" using cp assms(4) by (auto dest: list.set_sel(2))
  then show "placed w' \<subseteq> placed w" using placed_set_class[of c w cls "tl ?bs" "{}"] e(2) by simp
qed

lemma cache_push_placed:
  assumes "conserved U w" "c < length (caches w)" "cls < 16"
  shows "placed (cache_push c cls bs w) \<subseteq> placed w \<union> Pair cls ` set bs"
proof -
  have "cache_push c cls bs w = upd_cache c
      (\<lambda>tc. tc\<lparr>tc_buffers := (tc_buffers tc)[cls := rev bs @ tc_buffers (caches w ! c) ! cls]\<rparr>) w"
    by (simp add: cache_push_def upd_cache_def)
  moreover have "Pair cls ` set (rev bs @ tc_buffers (caches w ! c) ! cls) \<subseteq> placed w \<union> Pair cls ` set bs"
    using class_placed[OF assms] by auto
  ultimately show ?thesis using placed_set_class[of c w cls "rev bs @ tc_buffers (caches w ! c) ! cls"] by simp
qed

section \<open>Allocation and release\<close>

text \<open>
  What an allocation of class \<open>cls\<close> answers was stored under that class or comes from the heap, and new buffers are only stored under it.
\<close>

definition alloc_class :: "alloc_env \<Rightarrow> nat \<Rightarrow> pool_world \<Rightarrow> (int + u64) \<times> pool_world \<Rightarrow> bool" where
  "alloc_class env cls w r \<longleftrightarrow> placed (snd r) \<subseteq> placed w \<union> Pair cls ` set (env_buffers env) \<and>
     (\<forall>b. fst r = Inr b \<longrightarrow> (cls, b) \<in> placed w \<or> b \<in> set (env_buffers env))"

lemma alloc_class_later: "alloc_class env cls w' r \<Longrightarrow> placed w' \<subseteq> placed w \<Longrightarrow> alloc_class env cls w r"
  by (auto simp: alloc_class_def)

lemma alloc_from_heap_class:
  assumes "conserved U w" "\<And>c. cache = Some c \<Longrightarrow> c < length (caches w)" "cls < 16"
  shows "alloc_class env cls w (alloc_from_heap env p cache cls w)"
proof (cases "env_memalign env")
  case (Inr buf)
  let ?a = "\<lambda>m n. upd_pool p (account m n)"
  have acc: "placed (?a m n x) \<subseteq> placed x" for m n x by (rule placed_pool_same) (simp add: account_def)
  define w1 where "w1 = ?a (class_to_size cls) 1 (w\<lparr>heap := add_mset buf (heap w)\<rparr>)"
  have p1: "placed w1 \<subseteq> placed w" using acc[of "class_to_size cls" 1 "w\<lparr>heap := add_mset buf (heap w)\<rparr>"] by (simp add: w1_def)
  show ?thesis
  proof (cases cache)
    case None
    then show ?thesis using Inr p1 by (auto simp: alloc_from_heap_def alloc_class_def env_buffers_def w1_def Let_def)
  next
    case (Some c)
    have c: "c < length (caches w)" using assms(2) Some by blast
    let ?ex = "take 15 (env_extras env)"
    have n15: "(16 :: nat) - 1 = 15" by simp
    define w2 where "w2 = w1\<lparr>heap := heap w1 + mset ?ex\<rparr>"
    have cs: "caches w2 = caches w" by (simp add: w2_def w1_def upd_pool_def)
    have l: "length (tc_buffers (caches w2 ! c)) = 16" using class_length[OF assms(1) c] by (simp add: cs)
    define k where "k = min (if cleaned_up (caches w2 ! c) \<or> destroyed (pools w2 ! p) then 0
      else 32 - length (tc_buffers (caches w2 ! c) ! cls)) (length ?ex)"
    have "placed (cache_push c cls (take k ?ex) w2) \<subseteq> placed w2 \<union> Pair cls ` set (take k ?ex)"
    proof -
      have "Pair cls ` set (rev (take k ?ex) @ tc_buffers (caches w2 ! c) ! cls) \<subseteq> placed w2 \<union> Pair cls ` set (take k ?ex)"
        using class_pairs_nth[of cls "tc_buffers (caches w2 ! c)"] placed_cache[of c w2] l assms(3) c cs by auto
      then show ?thesis using placed_set_class[of c w2 cls "rev (take k ?ex) @ tc_buffers (caches w2 ! c) ! cls"]
        by (simp add: cache_push_def upd_cache_def)
    qed
    moreover have "set (take k ?ex) \<subseteq> set ?ex" by (rule set_take_subset)
    moreover have "placed w2 \<subseteq> placed w" using p1 by (simp add: w2_def)
    ultimately have "placed (cache_push c cls (take k ?ex) w2) \<subseteq> placed w \<union> Pair cls ` set ?ex" by blast
    then have "placed (?a (class_to_size cls * k) k (heap_free (drop k ?ex) (cache_push c cls (take k ?ex) w2))) \<subseteq> placed w \<union> Pair cls ` set ?ex"
      using acc[of "class_to_size cls * k" k "heap_free (drop k ?ex) (cache_push c cls (take k ?ex) w2)"] by auto
    moreover have "alloc_from_heap env p cache cls w =
        (Inr buf, ?a (class_to_size cls * k) k (heap_free (drop k ?ex) (cache_push c cls (take k ?ex) w2)))"
      unfolding alloc_from_heap_def Inr Some by (simp only: sum.case option.case Let_def k_def w2_def w1_def n15)
    ultimately show ?thesis using Inr by (auto simp: alloc_class_def env_buffers_def)
  qed
qed (auto simp: alloc_from_heap_def alloc_class_def)

lemma pop_class:
  assumes "conserved U w" "bound p c w" "cls < 16" "tc_buffers (caches w ! c) ! cls \<noteq> []"
  shows "alloc_class env cls w (let (buf, w2) = cache_pop c cls w in (Inr buf, w2))"
proof -
  obtain b w2 where r: "cache_pop c cls w = (b, w2)" by (metis prod.exhaust)
  have "c < length (caches w)" using assms(2) by (simp add: bound_def)
  from cache_pop_placed[OF assms(1) this assms(3,4) r] show ?thesis using r by (auto simp: alloc_class_def)
qed

lemma select_shard_placed: "select_shard p cache w = (i, w') \<Longrightarrow> placed w' \<subseteq> placed w"
  using round_robin_placed[of p w] by (cases cache) (auto simp: select_shard_def)

lemma shard_pop_class:
  assumes "conserved U w" "p < length (pools w)" "\<not> destroyed (pools w ! p)" "\<And>c. cache = Some c \<Longrightarrow> bound p c w" "cls < 16"
  shows "alloc_class env cls w (let (i, w3) = select_shard p cache w
      in case shard_pop cls (shards (pools w3 ! p) ! i) of
           Some (buf, s) \<Rightarrow> (Inr buf, upd_pool p (\<lambda>pool. pool\<lparr>shards := (shards pool)[i := s]\<rparr>) w3)
         | None \<Rightarrow> alloc_from_heap env p cache cls w3)"
proof -
  obtain i w3 where r: "select_shard p cache w = (i, w3)" by (metis prod.exhaust)
  note ss = select_shard_props[OF assms(1-4) r] and sp = select_shard_placed[OF r]
  have "alloc_class env cls w3 (case shard_pop cls (shards (pools w3 ! p) ! i) of
      Some (buf, s) \<Rightarrow> (Inr buf, upd_pool p (\<lambda>pool. pool\<lparr>shards := (shards pool)[i := s]\<rparr>) w3)
    | None \<Rightarrow> alloc_from_heap env p cache cls w3)"
  proof (cases "shard_pop cls (shards (pools w3 ! p) ! i)")
    case None
    have "\<And>c. cache = Some c \<Longrightarrow> c < length (caches w3)" using assms(4) ss(5) by (simp add: bound_def)
    then show ?thesis using None alloc_from_heap_class[OF ss(2) _ assms(5), of cache env p] by simp
  next
    case (Some r)
    then obtain b s where s: "shard_pop cls (shards (pools w3 ! p) ! i) = Some (b, s)" by (cases r) auto
    have "cls < length (size_buckets (shards (pools w3 ! p) ! i))" using shard_of_pool[OF ss(2,6,1)] assms(5) by (simp add: shard_wf_def)
    note q = shard_pop_placed[OF s this] and m = placed_shard[OF ss(6,1)]
    have "placed (upd_pool p (\<lambda>pool. pool\<lparr>shards := (shards pool)[i := s]\<rparr>) w3) \<subseteq> placed w3"
      using placed_set_shard[of s w3 "{}" p i] q(2) m by auto
    then show ?thesis using s q(1) m by (auto simp: alloc_class_def)
  qed
  then show ?thesis using alloc_class_later[OF _ sp] r by simp
qed

lemma buffer_pool_alloc_class:
  assumes "conserved U w" "p < length (pools w)"
  shows "alloc_class env (size_to_class sz) w (buffer_pool_alloc env t p sz w)"
proof (cases "sz = 0 \<or> sz > BUFFER_POOL_MAX_SIZE")
  case True
  then show ?thesis by (auto simp: buffer_pool_alloc_def alloc_class_def)
next
  case False
  let ?cls = "size_to_class sz"
  have cls: "?cls < 16" by (rule size_to_class_less)
  obtain cache w1 where g: "get_thread_cache (env_key_ok env) (env_have_cache env) t p w = (cache, w1)" by (metis prod.exhaust)
  have gr: "cache_result U p w (cache, w1)" using get_thread_cache_result[OF assms] g by metis
  then have c1: "conserved U w1" "pools_kept w w1" and b1: "\<And>c. cache = Some c \<Longrightarrow> bound p c w1" by (auto simp: cache_result_def)
  have p1: "p < length (pools w1)" using assms(2) pools_kept_nth(1)[OF c1(2)] by simp
  have k1: "placed w1 \<subseteq> placed w" using get_thread_cache_placed[OF assms(1)] g by (metis snd_conv)
  let ?hit = "case cache of None \<Rightarrow> False | Some c \<Rightarrow> tc_buffers (caches w1 ! c) ! ?cls \<noteq> []"
  let ?rest = "\<lambda>w2. let (i, w3) = select_shard p cache w2
      in case shard_pop ?cls (shards (pools w3 ! p) ! i) of
           Some (buf, s) \<Rightarrow> (Inr buf, upd_pool p (\<lambda>pool. pool\<lparr>shards := (shards pool)[i := s]\<rparr>) w3)
         | None \<Rightarrow> alloc_from_heap env p cache ?cls w3"
  have e: "buffer_pool_alloc env t p sz w =
     (if ?hit then (let (buf, w2) = cache_pop (the cache) ?cls w1 in (Inr buf, w2))
      else if destroyed (pools w1 ! p) then (Inl ENXIO, w1)
      else let (refilled, w2) = (case cache of None \<Rightarrow> (0, w1) | Some c \<Rightarrow> cache_refill p c ?cls w1)
           in if refilled > 0 then (let (buf, w3) = cache_pop (the cache) ?cls w2 in (Inr buf, w3))
              else ?rest w2)"
    using False g unfolding buffer_pool_alloc_def Let_def by simp
  have "alloc_class env ?cls w1 (buffer_pool_alloc env t p sz w)"
  proof (cases "?hit \<or> destroyed (pools w1 ! p) \<or> cache = None")
    case True
    then consider c where "cache = Some c" "tc_buffers (caches w1 ! c) ! ?cls \<noteq> []" | "\<not> ?hit" "destroyed (pools w1 ! p)"
      | "\<not> ?hit" "\<not> destroyed (pools w1 ! p)" "cache = None" by (cases cache) auto
    then show ?thesis
    proof cases
      case (1 c)
      then show ?thesis unfolding e using pop_class[OF c1(1) b1[OF 1(1)] cls 1(2)] by simp
    next
      case 2
      then show ?thesis unfolding e by (simp add: alloc_class_def)
    next
      case 3
      then show ?thesis unfolding e using shard_pop_class[OF c1(1) p1 3(2) b1 cls, of cache env] by simp
    qed
  next
    case F: False
    then obtain c where c: "cache = Some c" by blast
    obtain n w2 where r: "cache_refill p c ?cls w1 = (n, w2)" by (metis prod.exhaust)
    have b: "c < length (caches w1)" "tc_shard_id (caches w1 ! c) < length (shards (pools w1 ! p))" using b1[OF c] by (auto simp: bound_def)
    note rf = cache_refill_conserved[OF c1(1) p1 b(1) cls b(2) r] and rp = cache_refill_placed[OF c1(1) b1[OF c] cls r]
    have b2: "bound p c w2" using b rf p1 by (simp add: bound_def)
    have d2: "\<not> destroyed (pools w2 ! p)" using pools_kept_nth(2)[OF cache_refill_kept[OF p1 r] p1] F by simp
    have p2: "p < length (pools w2)" using p1 rf(3) by simp
    have "n > 0 \<Longrightarrow> alloc_class env ?cls w2 (let (buf, w3) = cache_pop c ?cls w2 in (Inr buf, w3))"
      using pop_class[OF rf(1) b2 cls rf(2)] by blast
    moreover have "alloc_class env ?cls w2 (?rest w2)" using shard_pop_class[OF rf(1) p2 d2 _ cls, of cache env] b2 c by simp
    ultimately show ?thesis unfolding e using F c r alloc_class_later[OF _ rp] by simp
  qed
  then show ?thesis by (rule alloc_class_later[OF _ k1])
qed

lemma free_to_shard_placed:
  assumes "conserved U w" "p < length (pools w)" "\<not> destroyed (pools w ! p)" "\<And>c. cache = Some c \<Longrightarrow> bound p c w" "cls < 16"
  shows "placed (free_to_shard p cache cls b w) \<subseteq> insert (cls, b) (placed w)"
proof -
  obtain i w1 where r: "select_shard p cache w = (i, w1)" by (metis prod.exhaust)
  note ss = select_shard_props[OF assms(1-4) r] and sp = select_shard_placed[OF r]
  let ?s = "shards (pools w1 ! p) ! i"
  have u: "placed (upd_pool p (unaccount m k) w1) \<subseteq> placed w1" for m k by (rule placed_pool_same) (simp add: unaccount_def)
  have "placed (upd_pool p (\<lambda>pool. pool\<lparr>shards := (shards pool)[i := s']\<rparr>) w1) \<subseteq> insert (cls, b) (placed w1)"
    if "shard_push cls (class_to_size cls) b ?s = Some s'" for s'
  proof -
    have "cls < length (size_buckets ?s)" using shard_of_pool[OF ss(2,6,1)] assms(5) by (simp add: shard_wf_def)
    then show ?thesis using placed_set_shard[of s' w1 "{(cls, b)}" p i] shard_push_placed(1)[OF that] placed_shard[OF ss(6,1)] by auto
  qed
  moreover have "placed (heap_free [b] (upd_pool p (unaccount (class_to_size cls) 1) w1)) \<subseteq> insert (cls, b) (placed w1)"
    using u[of "class_to_size cls" 1] by auto
  ultimately have "placed (free_to_shard p cache cls b w) \<subseteq> insert (cls, b) (placed w1)"
    using r by (simp add: free_to_shard_def Let_def split: option.split)
  then show ?thesis using sp by blast
qed

lemma free_push_placed:
  assumes "conserved U w" "c < length (caches w)" "cls < 16"
  shows "placed (if cleaned_up (caches w ! c) then heap_free [b] w else cache_push c cls [b] w) \<subseteq> insert (cls, b) (placed w)"
  using cache_push_placed[OF assms, of "[b]"] by auto

lemma buffer_pool_free_placed:
  assumes "conserved U w" "p < length (pools w)"
  shows "placed (buffer_pool_free env t p b sz w) \<subseteq> insert (size_to_class sz, b) (placed w)"
proof (cases "b = 0 \<or> sz = 0 \<or> destroyed (pools w ! p)")
  case True
  then show ?thesis by (auto simp: buffer_pool_free_def)
next
  case False
  let ?cls = "size_to_class sz"
  have cls: "?cls < 16" by (rule size_to_class_less)
  obtain cache w1 where g: "get_thread_cache (env_key_ok env) (env_have_cache env) t p w = (cache, w1)" by (metis prod.exhaust)
  have gr: "cache_result U p w (cache, w1)" using get_thread_cache_result[OF assms] g by metis
  then have c1: "conserved U w1" "pools_kept w w1" and b1: "\<And>c. cache = Some c \<Longrightarrow> bound p c w1" by (auto simp: cache_result_def)
  have p1: "p < length (pools w1)" "\<not> destroyed (pools w1 ! p)" using assms(2) pools_kept_nth[OF c1(2)] False by simp_all
  have k1: "placed w1 \<subseteq> placed w" using get_thread_cache_placed[OF assms(1)] g by (metis snd_conv)
  have "placed (buffer_pool_free env t p b sz w) \<subseteq> insert (?cls, b) (placed w1)"
  proof (cases cache)
    case None
    then show ?thesis using False g free_to_shard_placed[OF c1(1) p1 _ cls, of None b] by (simp add: buffer_pool_free_def)
  next
    case (Some c)
    have c: "c < length (caches w1)" using b1[OF Some] by (simp add: bound_def)
    define w2 where "w2 = snd (cache_flush p c ?cls (class_to_size ?cls) w1)"
    note fl = cache_flush_conserved[OF c1(1) b1[OF Some] cls, of "class_to_size ?cls", folded w2_def]
    have k2: "placed w2 \<subseteq> placed w1" unfolding w2_def by (rule cache_flush_placed[OF c1(1) b1[OF Some] cls])
    have b2: "bound p c w2" using b1[OF Some] bound_skel[OF fl(2)] by simp
    have p2: "p < length (pools w2)" "c < length (caches w2)" "\<not> destroyed (pools w2 ! p)"
      using b2 skel_nth(1)[OF fl(2) p1(1)] p1(2) by (auto simp: bound_def)
    note f1 = free_push_placed[OF c1(1) c cls, of b] and f2 = subset_trans[OF free_push_placed[OF fl(1) p2(2) cls, of b] insert_mono[OF k2]]
    have "bound p x w2" if "Some c = Some x" for x using that b2 by simp
    note f3 = subset_trans[OF free_to_shard_placed[where b = b, OF fl(1) p2(1,3) this cls] insert_mono[OF k2]]
    have e: "buffer_pool_free env t p b sz w =
       (if length (tc_buffers (caches w1 ! c) ! ?cls) < THREAD_CACHE_SIZE then
          (if cleaned_up (caches w1 ! c) then heap_free [b] w1 else cache_push c ?cls [b] w1)
        else if length (tc_buffers (caches w2 ! c) ! ?cls) < THREAD_CACHE_SIZE then
          (if cleaned_up (caches w2 ! c) then heap_free [b] w2 else cache_push c ?cls [b] w2)
        else free_to_shard p (Some c) ?cls b w2)"
      using False g Some by (simp add: buffer_pool_free_def Let_def w2_def[symmetric])
    consider "length (tc_buffers (caches w1 ! c) ! ?cls) < 32"
      | "\<not> length (tc_buffers (caches w1 ! c) ! ?cls) < 32" "length (tc_buffers (caches w2 ! c) ! ?cls) < 32"
      | "\<not> length (tc_buffers (caches w1 ! c) ! ?cls) < 32" "\<not> length (tc_buffers (caches w2 ! c) ! ?cls) < 32" by blast
    then show ?thesis
    proof cases
      case 1
      show ?thesis unfolding e if_P[OF 1] by (rule f1)
    next
      case 2
      show ?thesis unfolding e if_not_P[OF 2(1)] if_P[OF 2(2)] by (rule f2)
    next
      case 3
      show ?thesis unfolding e if_not_P[OF 3(1)] if_not_P[OF 3(2)] by (rule f3)
    qed
  qed
  then show ?thesis using k1 by blast
qed

lemma tls_destructor_placed:
  assumes "conserved U w"
  shows "placed (tls_destructor t w) \<subseteq> placed w"
proof (cases "tls_spec w t")
  case (Some c)
  define w1 where "w1 = upd_cache c (\<lambda>tc. tc\<lparr>thread_exited := True\<rparr>) (set_tls t None (w\<lparr>tls_spec := (tls_spec w)(t := None)\<rparr>))"
  have c1: "conserved U w1" unfolding w1_def by (rule mark_exited_conserved[OF assms Some])
  have c: "c < length (caches w1)" using tls_index(2)[OF assms Some] by (simp add: w1_def)
  have "placed w1 \<subseteq> placed (set_tls t None (w\<lparr>tls_spec := (tls_spec w)(t := None)\<rparr>))" unfolding w1_def by (rule placed_cache_same) simp
  then have p1: "placed w1 \<subseteq> placed w" by (simp add: placed_def)
  have live: "placed (upd_cache c (\<lambda>tc. tc\<lparr>tc_live := False\<rparr>) x) \<subseteq> placed x" for x by (rule placed_cache_same) simp
  define w2 where "w2 = (case tc_pool (caches w1 ! c) of
                      Some q \<Rightarrow> (if destroyed (pools w1 ! q)
                                then cleanup_cache_buffers_locked None c CACHE_CLEANUP_FREE w1
                                else cleanup_cache_buffers_locked (Some q) c CACHE_CLEANUP_FLUSH w1)
                    | None \<Rightarrow> cleanup_cache_buffers_locked None c CACHE_CLEANUP_FREE w1)"
  have "placed (cleanup_cache_buffers_locked None c CACHE_CLEANUP_FREE w1) \<subseteq> placed w1" by (rule cleanup_placed[OF c1]) simp_all
  moreover have "placed (cleanup_cache_buffers_locked (Some q) c CACHE_CLEANUP_FLUSH w1) \<subseteq> placed w1"
    if "tc_pool (caches w1 ! c) = Some q" "\<not> destroyed (pools w1 ! q)" for q
    using bound_cache[OF c1 c that] by (intro cleanup_placed[OF c1]) simp
  ultimately have "placed w2 \<subseteq> placed w1" by (auto simp: w2_def split: option.split)
  moreover have "tls_destructor t w = (if tc_pool (caches w2 ! c) = None then upd_cache c (\<lambda>tc. tc\<lparr>tc_live := False\<rparr>) w2 else w2)"
    unfolding tls_destructor_def Some w2_def w1_def by (simp only: option.case Let_def)
  ultimately show ?thesis using p1 live[of w2] by auto
qed (simp add: tls_destructor_def)

end
