(* ===== verification/Latency_Histogram.thy ===== *)
theory Latency_Histogram
  imports Aura_Prelude
begin

text \<open>
  The tiered latency histogram of \<^verbatim>\<open>src/engine/src/adaptive_engine.h\<close> (the tier table and
  the bucket maps) and \<^verbatim>\<open>src/engine/src/adaptive_engine.c\<close> (recording, reset, P99, and the
  double-buffered pair), with the public percentile functions of
  \<^verbatim>\<open>src/engine/src/aura.c\<close>. Bucket counters are 32-bit words and the sample count a 64-bit
  word, as the C atomics are; latencies are \<open>int64_t\<close> values, here \<open>int\<close>; C doubles are
  real numbers.
\<close>

section \<open>The tier table\<close>

record latency_tier =
  start_us :: int
  width_us :: int
  bucket_count :: int
  base_bucket :: int

definition LATENCY_TIERS :: "latency_tier list" where
  "LATENCY_TIERS =
    [\<lparr>start_us = 0, width_us = 10, bucket_count = 100, base_bucket = 0\<rparr>,
     \<lparr>start_us = 1000, width_us = 50, bucket_count = 80, base_bucket = 100\<rparr>,
     \<lparr>start_us = 5000, width_us = 250, bucket_count = 60, base_bucket = 180\<rparr>,
     \<lparr>start_us = 20000, width_us = 1000, bucket_count = 80, base_bucket = 240\<rparr>]"

abbreviation LATENCY_BUCKET_COUNT :: nat where "LATENCY_BUCKET_COUNT \<equiv> 320"
abbreviation LATENCY_TIERED_MAX_US :: int where "LATENCY_TIERED_MAX_US \<equiv> 100000"

text \<open>
  The three maps scan the tiers from the last to the first; each scan is a recursion over
  the reversed table, with the value the C function returns when the loop falls through.
\<close>

fun us_to_bucket_scan :: "latency_tier list \<Rightarrow> int \<Rightarrow> int" where
  "us_to_bucket_scan [] latency = 0"
| "us_to_bucket_scan (tier # ts) latency =
     (if latency \<ge> start_us tier then
        let offset = c_div (c_int (latency - start_us tier)) (width_us tier)
        in if offset \<ge> bucket_count tier then -1 else base_bucket tier + offset
      else us_to_bucket_scan ts latency)"

definition latency_us_to_bucket :: "int \<Rightarrow> int" where
  "latency_us_to_bucket latency =
     us_to_bucket_scan (rev LATENCY_TIERS) (if latency < 0 then 0 else latency)"

fun midpoint_scan :: "latency_tier list \<Rightarrow> int \<Rightarrow> real" where
  "midpoint_scan [] bucket = 0"
| "midpoint_scan (tier # ts) bucket =
     (if bucket \<ge> base_bucket tier then
        let offset = bucket - base_bucket tier
        in real_of_int (start_us tier) + (real_of_int offset + 0.5) * real_of_int (width_us tier)
      else midpoint_scan ts bucket)"

definition bucket_to_midpoint_us :: "int \<Rightarrow> real" where
  "bucket_to_midpoint_us bucket = midpoint_scan (rev LATENCY_TIERS) bucket"

fun upper_bound_scan :: "latency_tier list \<Rightarrow> int \<Rightarrow> int" where
  "upper_bound_scan [] bucket = 0"
| "upper_bound_scan (tier # ts) bucket =
     (if bucket \<ge> base_bucket tier then
        let offset = bucket - base_bucket tier
        in start_us tier + (offset + 1) * width_us tier
      else upper_bound_scan ts bucket)"

definition bucket_upper_bound_us :: "int \<Rightarrow> int" where
  "bucket_upper_bound_us bucket = upper_bound_scan (rev LATENCY_TIERS) bucket"

section \<open>Histograms\<close>

record adaptive_histogram =
  buckets :: "u32 list"
  overflow :: u32
  total_count :: u64

definition adaptive_hist_reset :: "adaptive_histogram \<Rightarrow> adaptive_histogram" where
  "adaptive_hist_reset hist =
     hist\<lparr>buckets := replicate LATENCY_BUCKET_COUNT 0, overflow := 0, total_count := 0\<rparr>"

definition adaptive_hist_record :: "adaptive_histogram \<Rightarrow> int \<Rightarrow> adaptive_histogram" where
  "adaptive_hist_record hist latency =
     (let bucket = latency_us_to_bucket latency;
          hist' = (if bucket < 0 then hist\<lparr>overflow := overflow hist + 1\<rparr>
                   else hist\<lparr>buckets := (buckets hist)
                          [nat bucket := buckets hist ! nat bucket + 1]\<rparr>)
      in hist'\<lparr>total_count := total_count hist' + 1\<rparr>)"

text \<open>
  The rank the percentile scan looks for: 1\% of the samples, or 5\% rounded up below 100
  samples. The quotient is computed on 64 bits and stored in a \<open>uint32_t\<close>.
\<close>

definition p99_target :: "u64 \<Rightarrow> u32" where
  "p99_target total_n =
     (let target = (if total_n \<ge> 100 then ucast (total_n div 100) else ucast ((total_n + 19) div 20))
      in if target = 0 then 1 else target)"

text \<open>The scan \<open>for (i = LATENCY_BUCKET_COUNT - 1; i >= 0; i--)\<close>; \<open>n\<close> is \<open>i + 1\<close>.\<close>

fun p99_scan :: "u32 list \<Rightarrow> nat \<Rightarrow> u64 \<Rightarrow> u32 \<Rightarrow> nat option" where
  "p99_scan bs 0 count target = None"
| "p99_scan bs (Suc i) count target =
     (let count' = count + ucast (bs ! i)
      in if count' \<ge> ucast target then Some i else p99_scan bs i count' target)"

definition adaptive_hist_p99 :: "adaptive_histogram \<Rightarrow> real" where
  "adaptive_hist_p99 hist =
     (let total_n = total_count hist
      in if total_n = 0 then -1
         else let target = p99_target total_n; count = ucast (overflow hist) :: u64
              in if count \<ge> ucast target
                 then real_of_int LATENCY_TIERED_MAX_US * 2 / 1000
                 else case p99_scan (buckets hist) LATENCY_BUCKET_COUNT count target of
                        Some i \<Rightarrow> bucket_to_midpoint_us (int i) / 1000
                      | None \<Rightarrow> -1)"

section \<open>The double-buffered pair\<close>

record adaptive_histogram_pair =
  active_index :: nat
  histograms :: "adaptive_histogram list"
  pending_reset :: "nat option"

definition empty_hist :: adaptive_histogram where
  "empty_hist = \<lparr>buckets = replicate LATENCY_BUCKET_COUNT 0, overflow = 0, total_count = 0\<rparr>"

definition adaptive_hist_pair_init :: adaptive_histogram_pair where
  "adaptive_hist_pair_init =
     \<lparr>active_index = 0, histograms = [empty_hist, empty_hist], pending_reset = None\<rparr>"

definition adaptive_hist_active :: "adaptive_histogram_pair \<Rightarrow> adaptive_histogram" where
  "adaptive_hist_active pair = histograms pair ! active_index pair"

text \<open>\<open>adaptive_hist_swap\<close> returns the index of the histogram it deactivates.\<close>

definition adaptive_hist_swap :: "adaptive_histogram_pair \<Rightarrow> adaptive_histogram_pair \<times> nat" where
  "adaptive_hist_swap pair =
     (let old_idx = active_index pair
      in (pair\<lparr>active_index := (if old_idx = 0 then 1 else 0)\<rparr>, old_idx))"

text \<open>Resetting the histogram swapped out one generation earlier.\<close>

definition flush_pending_reset :: "adaptive_histogram_pair \<Rightarrow> adaptive_histogram_pair" where
  "flush_pending_reset pair =
     (case pending_reset pair of
        None \<Rightarrow> pair
      | Some h \<Rightarrow> pair\<lparr>histograms := (histograms pair)
                        [h := adaptive_hist_reset (histograms pair ! h)],
                       pending_reset := None\<rparr>)"

definition adaptive_pair_record :: "adaptive_histogram_pair \<Rightarrow> int \<Rightarrow> adaptive_histogram_pair" where
  "adaptive_pair_record pair latency =
     pair\<lparr>histograms := (histograms pair)
            [active_index pair := adaptive_hist_record (adaptive_hist_active pair) latency]\<rparr>"


section \<open>The bucket maps\<close>

lemmas tier_defs [model_defs] = LATENCY_TIERS_def latency_us_to_bucket_def
  bucket_upper_bound_us_def bucket_to_midpoint_us_def

lemma tier_offset_less:
  fixes l :: int
  shows "l < 20000 \<Longrightarrow> (l - 5000) div 250 < 60" "l < 5000 \<Longrightarrow> (l - 1000) div 50 < 80"
    "l < 1000 \<Longrightarrow> l div 10 < 100"
  by (simp_all only: zdiv_less_iff zero_less_numeral)

lemma latency_us_to_bucket_cases:
  "latency_us_to_bucket l =
     (if l \<ge> 20000 then
        (let offset = c_div (c_int (l - 20000)) 1000 in if offset \<ge> 80 then -1 else 240 + offset)
      else if l \<ge> 5000 then 180 + (l - 5000) div 250
      else if l \<ge> 1000 then 100 + (l - 1000) div 50
      else if l \<ge> 0 then l div 10 else 0)"
  using tier_offset_less[of l]
  by (auto simp: tier_defs Let_def c_int_id c_div_nonneg)

lemma bucket_upper_bound_us_cases:
  "bucket_upper_bound_us b =
     (if b \<ge> 240 then 20000 + (b - 239) * 1000
      else if b \<ge> 180 then 5000 + (b - 179) * 250
      else if b \<ge> 100 then 1000 + (b - 99) * 50
      else if b \<ge> 0 then (b + 1) * 10 else 0)"
  by (simp add: tier_defs)

lemma bucket_to_midpoint_us_cases:
  "bucket_to_midpoint_us b =
     (if b \<ge> 240 then 20000 + (real_of_int b - 239.5) * 1000
      else if b \<ge> 180 then 5000 + (real_of_int b - 179.5) * 250
      else if b \<ge> 100 then 1000 + (real_of_int b - 99.5) * 50
      else if b \<ge> 0 then (real_of_int b + 0.5) * 10 else 0)"
  by (simp add: tier_defs algebra_simps)

text \<open>No latency, however large or negative, indexes past the bucket array.\<close>

lemma latency_us_to_bucket_less: "latency_us_to_bucket l < 320"
  using tier_offset_less[of l] by (auto simp: latency_us_to_bucket_cases Let_def)

lemma latency_us_to_bucket_tracked:
  assumes "0 \<le> l" "l < 100000"
  shows "0 \<le> latency_us_to_bucket l"
    and "bucket_upper_bound_us (latency_us_to_bucket l - 1) \<le> l"
    and "l < bucket_upper_bound_us (latency_us_to_bucket l)"
proof -
  have d: "c_div (c_int (l - 20000)) 1000 = (l - 20000) div 1000" if "l \<ge> 20000"
    using that assms by (simp add: c_int_id c_div_nonneg)
  consider "l < 1000" | "1000 \<le> l" "l < 5000" | "5000 \<le> l" "l < 20000" | "20000 \<le> l"
    by linarith
  then have "0 \<le> latency_us_to_bucket l \<and>
      bucket_upper_bound_us (latency_us_to_bucket l - 1) \<le> l \<and>
      l < bucket_upper_bound_us (latency_us_to_bucket l)"
  proof cases
    case 1
    then have "latency_us_to_bucket l = l div 10" "l div 10 < 100" "0 \<le> l div 10"
      using assms by (auto simp: latency_us_to_bucket_cases)
    then show ?thesis using assms by (auto simp: bucket_upper_bound_us_cases)
  next
    case 2
    then have "latency_us_to_bucket l = 100 + (l - 1000) div 50"
      "(l - 1000) div 50 < 80" "0 \<le> (l - 1000) div 50"
      using assms by (auto simp: latency_us_to_bucket_cases)
    then show ?thesis using assms 2 by (auto simp: bucket_upper_bound_us_cases)
  next
    case 3
    then have "latency_us_to_bucket l = 180 + (l - 5000) div 250"
      "(l - 5000) div 250 < 60" "0 \<le> (l - 5000) div 250"
      using assms by (auto simp: latency_us_to_bucket_cases)
    then show ?thesis using assms 3 by (auto simp: bucket_upper_bound_us_cases)
  next
    case 4
    then have "latency_us_to_bucket l = 240 + (l - 20000) div 1000"
      "(l - 20000) div 1000 < 80" "0 \<le> (l - 20000) div 1000"
      using assms by (auto simp: latency_us_to_bucket_cases d Let_def)
    then show ?thesis using assms 4 by (auto simp: bucket_upper_bound_us_cases)
  qed
  then show "0 \<le> latency_us_to_bucket l"
    and "bucket_upper_bound_us (latency_us_to_bucket l - 1) \<le> l"
    and "l < bucket_upper_bound_us (latency_us_to_bucket l)" by auto
qed

lemma latency_us_to_bucket_overflow:
  assumes "100000 \<le> l" "l < 2 ^ 31 + 20000"
  shows "latency_us_to_bucket l = -1"
proof -
  have "c_div (c_int (l - 20000)) 1000 = (l - 20000) div 1000"
    using assms by (simp add: c_int_id c_div_nonneg)
  moreover have "80 \<le> (l - 20000) div 1000" using assms by (simp add: le_zdiv_iff)
  ultimately show ?thesis using assms by (simp add: latency_us_to_bucket_cases Let_def)
qed

lemma latency_us_to_bucket_neg: "l < 0 \<Longrightarrow> latency_us_to_bucket l = 0"
  by (simp add: latency_us_to_bucket_cases)

lemma bucket_upper_bound_us_strict_mono:
  assumes "-1 \<le> a" "a < b"
  shows "bucket_upper_bound_us a < bucket_upper_bound_us b"
  using assms by (auto simp: bucket_upper_bound_us_cases)

text \<open>The order the scan relies on: a larger bucket holds larger latencies.\<close>

lemma latency_us_to_bucket_ge_iff:
  assumes "l < 100000" "0 \<le> b"
  shows "b \<le> latency_us_to_bucket l \<longleftrightarrow> bucket_upper_bound_us (b - 1) \<le> max 0 l"
proof (cases "l < 0")
  case True
  then show ?thesis using assms
    by (auto simp: latency_us_to_bucket_neg bucket_upper_bound_us_cases)
next
  case False
  let ?c = "latency_us_to_bucket l"
  have tr: "0 \<le> ?c" "bucket_upper_bound_us (?c - 1) \<le> l" "l < bucket_upper_bound_us ?c"
    using latency_us_to_bucket_tracked False assms by auto
  have "bucket_upper_bound_us (b - 1) \<le> l" if "b \<le> ?c"
    using bucket_upper_bound_us_strict_mono[of "b - 1" "?c - 1"] that assms tr by fastforce
  moreover have "b \<le> ?c" if "bucket_upper_bound_us (b - 1) \<le> l"
    using bucket_upper_bound_us_strict_mono[of "?c" "b - 1"] that assms tr
    by (cases "b - 1 = ?c") force+
  ultimately show ?thesis using False by (auto simp: max_def)
qed

lemma bucket_upper_bound_us_le_max: "b < 320 \<Longrightarrow> bucket_upper_bound_us b \<le> 100000"
  by (auto simp: bucket_upper_bound_us_cases)

lemma midpoint_roundtrip:
  assumes "0 \<le> b" "b < 320"
  shows "latency_us_to_bucket \<lfloor>bucket_to_midpoint_us b\<rfloor> = b"
proof -
  consider "b < 100" | "100 \<le> b" "b < 180" | "180 \<le> b" "b < 240" | "240 \<le> b" by linarith
  then show ?thesis
  proof cases
    case 1
    then have "bucket_to_midpoint_us b = real_of_int (b * 10 + 5)"
      using assms by (simp add: bucket_to_midpoint_us_cases)
    then have "\<lfloor>bucket_to_midpoint_us b\<rfloor> = b * 10 + 5" by (metis floor_of_int)
    then show ?thesis using 1 assms by (simp add: latency_us_to_bucket_cases)
  next
    case 2
    then have "bucket_to_midpoint_us b = real_of_int (1000 + (b - 100) * 50 + 25)"
      by (simp add: bucket_to_midpoint_us_cases)
    then have "\<lfloor>bucket_to_midpoint_us b\<rfloor> = 1000 + (b - 100) * 50 + 25" by (metis floor_of_int)
    then show ?thesis using 2 by (simp add: latency_us_to_bucket_cases)
  next
    case 3
    then have "bucket_to_midpoint_us b = real_of_int (5000 + (b - 180) * 250 + 125)"
      by (simp add: bucket_to_midpoint_us_cases)
    then have "\<lfloor>bucket_to_midpoint_us b\<rfloor> = 5000 + (b - 180) * 250 + 125" by (metis floor_of_int)
    then show ?thesis using 3 by (simp add: latency_us_to_bucket_cases)
  next
    case 4
    then have "bucket_to_midpoint_us b = real_of_int (20000 + (b - 240) * 1000 + 500)"
      by (simp add: bucket_to_midpoint_us_cases)
    then have f: "\<lfloor>bucket_to_midpoint_us b\<rfloor> = 20000 + (b - 240) * 1000 + 500"
      by (metis floor_of_int)
    have "c_div (c_int ((b - 240) * 1000 + 500)) 1000 = b - 240"
      using 4 assms by (simp add: c_int_id c_div_nonneg)
    then show ?thesis using 4 f assms by (simp add: latency_us_to_bucket_cases Let_def)
  qed
qed

lemma unat_ucast_32_64 [simp]: "unat (ucast (w :: u32) :: u64) = unat w"
  by (simp add: unsigned_ucast_eq take_bit_nat_eq_self_iff order.strict_trans[OF unsigned_less])
section \<open>Counting\<close>

text \<open>The histogram after a reset and a sequence of recorded latencies.\<close>

definition hist_of :: "int list \<Rightarrow> adaptive_histogram" where
  "hist_of xs = foldl adaptive_hist_record empty_hist xs"

lemma hist_of_snoc: "hist_of (xs @ [x]) = adaptive_hist_record (hist_of xs) x"
  by (simp add: hist_of_def)

definition hist_counts :: "adaptive_histogram \<Rightarrow> int list \<Rightarrow> bool" where
  "hist_counts h xs \<longleftrightarrow> length (buckets h) = LATENCY_BUCKET_COUNT \<and>
     (\<forall>i < LATENCY_BUCKET_COUNT. unat (buckets h ! i) =
        length (filter (\<lambda>l. latency_us_to_bucket l = int i) xs)) \<and>
     unat (overflow h) = length (filter (\<lambda>l. latency_us_to_bucket l < 0) xs) \<and>
     unat (total_count h) = length xs"

lemma hist_counts_record:
  assumes h: "hist_counts h xs" and len: "length xs + 1 < 2 ^ 32"
  shows "hist_counts (adaptive_hist_record h x) (xs @ [x])"
proof -
  let ?b = "latency_us_to_bucket x"
  have fl: "length (filter P xs) + 1 < 2 ^ 32" for P
    using len le_less_trans[OF add_right_mono[OF length_filter_le]] by blast
  have tot: "unat (total_count h + 1) = length xs + 1"
    using h len by (subst unat_inc) (auto simp: hist_counts_def)
  have ov: "unat (overflow h + 1) = length (filter (\<lambda>l. latency_us_to_bucket l < 0) xs) + 1"
    using h fl by (subst unat_inc) (auto simp: hist_counts_def)
  have bu: "unat (buckets h ! i + 1) =
      length (filter (\<lambda>l. latency_us_to_bucket l = int i) xs) + 1" if "i < 320" for i
    using h fl that by (subst unat_inc) (auto simp: hist_counts_def)
  have lt: "?b < 320" by (rule latency_us_to_bucket_less)
  show ?thesis
  proof (cases "?b < 0")
    case True
    then show ?thesis using h tot ov
      by (auto simp: hist_counts_def adaptive_hist_record_def Let_def)
  next
    case False
    then show ?thesis using h tot bu lt
      by (auto simp: hist_counts_def adaptive_hist_record_def Let_def nth_list_update)
  qed
qed

lemma hist_counts_of: "length xs < 2 ^ 32 \<Longrightarrow> hist_counts (hist_of xs) xs"
proof (induction xs rule: rev_induct)
  case Nil
  then show ?case by (simp add: hist_of_def hist_counts_def empty_hist_def)
next
  case (snoc x xs)
  then show ?case by (simp add: hist_of_snoc hist_counts_record)
qed

text \<open>The scan from the top: the samples in the buckets from \<open>i\<close> upwards, overflow included.\<close>

abbreviation bucket_sum :: "u32 list \<Rightarrow> nat" where
  "bucket_sum bs \<equiv> sum_list (map unat bs)"

lemma p99_scan_correct:
  assumes "n \<le> length bs" "unat c + bucket_sum (take n bs) < 2 ^ 64"
  shows "case p99_scan bs n c t of
      None \<Rightarrow> unat c < unat t \<longrightarrow> unat c + bucket_sum (take n bs) < unat t
    | Some i \<Rightarrow> i < n \<and> unat t \<le> unat c + bucket_sum (drop i (take n bs)) \<and>
        (unat c < unat t \<longrightarrow> unat c + bucket_sum (drop (Suc i) (take n bs)) < unat t)"
  using assms
proof (induction n arbitrary: c)
  case 0
  then show ?case by simp
next
  case (Suc n)
  let ?c = "c + ucast (bs ! n) :: u64"
  have tk: "take (Suc n) bs = take n bs @ [bs ! n]"
    using Suc.prems by (simp add: take_Suc_conv_app_nth)
  have c: "unat ?c = unat c + unat (bs ! n)"
    using Suc.prems(2) by (simp add: tk unat_word_ariths)
  have ge: "?c \<ge> ucast t \<longleftrightarrow> unat t \<le> unat c + unat (bs ! n)"
    by (simp add: word_le_nat_alt c)
  show ?case
  proof (cases "?c \<ge> ucast t")
    case True
    then show ?thesis using Suc.prems ge by (auto simp: tk)
  next
    case False
    have IH: "case p99_scan bs n ?c t of
      None \<Rightarrow> unat ?c < unat t \<longrightarrow> unat ?c + bucket_sum (take n bs) < unat t
    | Some i \<Rightarrow> i < n \<and> unat t \<le> unat ?c + bucket_sum (drop i (take n bs)) \<and>
        (unat ?c < unat t \<longrightarrow> unat ?c + bucket_sum (drop (Suc i) (take n bs)) < unat t)"
      using Suc.prems c by (intro Suc.IH) (auto simp: tk)
    then show ?thesis using False ge c Suc.prems(1)
      by (auto simp: tk Let_def min_absorb2 split: option.splits)
  qed
qed

lemma bucket_sum_drop:
  assumes h: "hist_counts h xs" and i: "i \<le> LATENCY_BUCKET_COUNT"
  shows "unat (overflow h) + bucket_sum (drop i (buckets h)) =
    length (filter (\<lambda>l. latency_us_to_bucket l < 0 \<or> int i \<le> latency_us_to_bucket l) xs)"
  using i
proof (induction "LATENCY_BUCKET_COUNT - i" arbitrary: i)
  case 0
  then have "i = 320" by simp
  moreover have "\<not> int 320 \<le> latency_us_to_bucket l" for l
    using latency_us_to_bucket_less[of l] by simp
  ultimately show ?case using h by (simp add: hist_counts_def)
next
  case (Suc k)
  then have i: "i < 320" by simp
  have dr: "drop i (buckets h) = buckets h ! i # drop (Suc i) (buckets h)"
    using h i by (simp add: hist_counts_def Cons_nth_drop_Suc)
  have "unat (overflow h) + bucket_sum (drop (Suc i) (buckets h)) =
    length (filter (\<lambda>l. latency_us_to_bucket l < 0 \<or> int (Suc i) \<le> latency_us_to_bucket l) xs)"
    using Suc by (intro Suc.hyps) auto
  moreover have "unat (buckets h ! i) = length (filter (\<lambda>l. latency_us_to_bucket l = int i) xs)"
    using h i by (simp add: hist_counts_def)
  moreover have "length (filter (\<lambda>l. latency_us_to_bucket l < 0 \<or> int i \<le> latency_us_to_bucket l) xs) =
     length (filter (\<lambda>l. latency_us_to_bucket l < 0 \<or> int (Suc i) \<le> latency_us_to_bucket l) xs) +
     length (filter (\<lambda>l. latency_us_to_bucket l = int i) xs)"
    by (induction xs) auto
  ultimately show ?case by (simp add: dr)
qed

section \<open>Rotation of the double buffer\<close>

text \<open>
  What \<open>tick_swap_and_compute_stats\<close> and \<open>adaptive_reset_to_baseline\<close> do with the pair: reset
  the histogram swapped out one generation earlier, swap, and leave the newly inactive one
  (whose index is returned) to be reset by the next rotation.
\<close>

definition hist_rotate :: "adaptive_histogram_pair \<Rightarrow> adaptive_histogram_pair \<times> nat" where
  "hist_rotate pair =
     (let (pair', old) = adaptive_hist_swap (flush_pending_reset pair)
      in (pair'\<lparr>pending_reset := Some old\<rparr>, old))"

definition pair_wf :: "adaptive_histogram_pair \<Rightarrow> bool" where
  "pair_wf p \<longleftrightarrow> active_index p < 2 \<and> length (histograms p) = 2 \<and>
     (case pending_reset p of
        None \<Rightarrow> histograms p ! (1 - active_index p) = empty_hist
      | Some h \<Rightarrow> h = 1 - active_index p)"

lemma reset_is_empty: "adaptive_hist_reset h = empty_hist"
  by (simp add: adaptive_hist_reset_def empty_hist_def)

lemma pair_wf_init [wf_intros]: "pair_wf adaptive_hist_pair_init"
  by (simp add: pair_wf_def adaptive_hist_pair_init_def)

lemma pair_wf_record [wf_intros]: "pair_wf p \<Longrightarrow> pair_wf (adaptive_pair_record p l)"
  by (cases "active_index p")
    (auto simp: pair_wf_def adaptive_pair_record_def split: option.splits)

lemma active_pair_record:
  "pair_wf p \<Longrightarrow> adaptive_hist_active (adaptive_pair_record p l) =
     adaptive_hist_record (adaptive_hist_active p) l"
  by (simp add: pair_wf_def adaptive_pair_record_def adaptive_hist_active_def)

lemma hist_rotate_wf:
  assumes "pair_wf p" "hist_rotate p = (p', old)"
  shows "pair_wf p'" "adaptive_hist_active p' = empty_hist"
    "histograms p' ! old = adaptive_hist_active p" "pending_reset p' = Some old"
    "active_index p' = 1 - active_index p"
proof -
  have a: "active_index p = 0 \<or> active_index p = 1" using assms by (auto simp: pair_wf_def)
  have "pair_wf p' \<and> adaptive_hist_active p' = empty_hist \<and>
    histograms p' ! old = adaptive_hist_active p \<and> pending_reset p' = Some old \<and>
    active_index p' = 1 - active_index p"
    using a assms
    by (auto simp: pair_wf_def hist_rotate_def adaptive_hist_swap_def flush_pending_reset_def
        adaptive_hist_active_def reset_is_empty Let_def split: option.splits)
  then show "pair_wf p'" "adaptive_hist_active p' = empty_hist"
    "histograms p' ! old = adaptive_hist_active p" "pending_reset p' = Some old"
    "active_index p' = 1 - active_index p" by auto
qed

lemma foldl_pair_record:
  assumes "pair_wf p"
  shows "pair_wf (foldl adaptive_pair_record p xs)"
    "adaptive_hist_active (foldl adaptive_pair_record p xs) =
      foldl adaptive_hist_record (adaptive_hist_active p) xs"
  using assms by (induction xs arbitrary: p) (auto simp: wf_intros active_pair_record)

text \<open>The rank as a function of the number of samples.\<close>

definition percentile_rank :: "nat \<Rightarrow> nat" where
  "percentile_rank n = (if n \<ge> 100 then n div 100 else (n + 19) div 20)"

lemma percentile_rank_bounds: "0 < n \<Longrightarrow> 1 \<le> percentile_rank n \<and> percentile_rank n \<le> n"
  by (simp add: percentile_rank_def) linarith

lemma unat_ucast_64_32: "unat (w :: u64) < 2 ^ 32 \<Longrightarrow> unat (ucast w :: u32) = unat w"
  by (simp add: unsigned_ucast_eq take_bit_nat_eq_self_iff)

lemma unat_p99_target:
  assumes "0 < unat w" "unat w < 2 ^ 32"
  shows "unat (p99_target w) = percentile_rank (unat w)"
proof -
  let ?t = "if w \<ge> 100 then w div 100 else (w + 19) div 20"
  have w19: "unat (w + 19) = unat w + 19"
    using assms by (simp add: unat_word_ariths)
  have t: "unat ?t = percentile_rank (unat w)"
    by (auto simp: percentile_rank_def word_le_nat_alt unat_div w19)
  have r: "1 \<le> percentile_rank (unat w)" "percentile_rank (unat w) < 2 ^ 32"
    using percentile_rank_bounds[OF assms(1)] assms(2) by auto
  have u: "unat (ucast ?t :: u32) = percentile_rank (unat w)"
    using unat_ucast_64_32[of ?t] t r by simp
  then have "(ucast ?t :: u32) \<noteq> 0" using r by (metis not_one_le_zero unat_0)
  moreover have "p99_target w = (let t = ucast ?t in if t = 0 then 1 else t)"
    by (simp add: p99_target_def)
  ultimately show ?thesis using u by simp
qed

lemma bucket_ge_or_overflow_iff:
  assumes "l < 2 ^ 31" "i \<le> 320"
  shows "(latency_us_to_bucket l < 0 \<or> int i \<le> latency_us_to_bucket l) \<longleftrightarrow>
    bucket_upper_bound_us (int i - 1) \<le> max 0 l"
proof (cases "l < 100000")
  case True
  then have "\<not> latency_us_to_bucket l < 0"
    using latency_us_to_bucket_tracked(1)[of l] latency_us_to_bucket_neg[of l] by (cases "l < 0") auto
  with True show ?thesis by (simp add: latency_us_to_bucket_ge_iff)
next
  case False
  then have "latency_us_to_bucket l = -1" using latency_us_to_bucket_overflow assms by simp
  moreover have "bucket_upper_bound_us (int i - 1) \<le> 100000"
    using assms by (intro bucket_upper_bound_us_le_max) simp
  ultimately show ?thesis using False by simp
qed

abbreviation samples_ge :: "int \<Rightarrow> int list \<Rightarrow> nat" where
  "samples_ge us xs \<equiv> length (filter (\<lambda>l. us \<le> max 0 l) xs)"

lemma scan_count_samples:
  assumes "length xs < 2 ^ 32" "\<forall>l \<in> set xs. l < 2 ^ 31" "i \<le> 320"
  shows "unat (overflow (hist_of xs)) + bucket_sum (drop i (buckets (hist_of xs))) =
    samples_ge (bucket_upper_bound_us (int i - 1)) xs"
proof -
  have "filter (\<lambda>l. latency_us_to_bucket l < 0 \<or> int i \<le> latency_us_to_bucket l) xs =
     filter (\<lambda>l. bucket_upper_bound_us (int i - 1) \<le> max 0 l) xs"
    using assms by (intro filter_cong refl bucket_ge_or_overflow_iff) auto
  then show ?thesis using bucket_sum_drop[OF hist_counts_of] assms by simp
qed

text \<open>
  Claim C33. The P99 of a histogram is a correct order statistic of the recorded latencies:
  with \<open>k\<close> the rank (1\% of the samples, 5\% rounded up below 100 samples), the function
  returns 200 ms exactly when at least \<open>k\<close> samples reached 100 ms, and otherwise the
  midpoint of the one bucket such that at least \<open>k\<close> samples lie in or above it and fewer than
  \<open>k\<close> lie above it. In particular it never reports "no data" on a non-empty histogram.
\<close>

theorem hist_p99_order_statistic:
  assumes "xs \<noteq> []" and "length xs < 2 ^ 32" and "\<forall>l \<in> set xs. l < 2 ^ 31"
  shows "if percentile_rank (length xs) \<le> samples_ge 100000 xs
    then adaptive_hist_p99 (hist_of xs) = 200
    else \<exists>b. 0 \<le> b \<and> b < 320 \<and>
      adaptive_hist_p99 (hist_of xs) = bucket_to_midpoint_us b / 1000 \<and>
      samples_ge (bucket_upper_bound_us b) xs < percentile_rank (length xs) \<and>
      percentile_rank (length xs) \<le> samples_ge (bucket_upper_bound_us (b - 1)) xs"
proof -
  let ?h = "hist_of xs" and ?k = "percentile_rank (length xs)"
  let ?t = "p99_target (total_count ?h)" and ?c = "ucast (overflow ?h) :: u64"
  have hc: "hist_counts ?h xs" using assms hist_counts_of by blast
  then have len: "length (buckets ?h) = 320" and tot: "unat (total_count ?h) = length xs"
    by (auto simp: hist_counts_def)
  have k: "unat ?t = ?k" using assms tot unat_p99_target by auto
  have nz: "total_count ?h \<noteq> 0" using assms tot by (metis length_0_conv unat_0)
  have ov: "unat ?c = samples_ge 100000 xs"
    using scan_count_samples[OF assms(2,3), of 320] len by (simp add: bucket_upper_bound_us_cases)
  have all: "unat ?c + bucket_sum (buckets ?h) = length xs"
    using scan_count_samples[OF assms(2,3), of 0] by (simp add: bucket_upper_bound_us_cases)
  show ?thesis
  proof (cases "?k \<le> samples_ge 100000 xs")
    case True
    then show ?thesis using nz ov k
      by (simp add: adaptive_hist_p99_def Let_def word_le_nat_alt)
  next
    case False
    have "unat ?c + bucket_sum (take 320 (buckets ?h)) < 2 ^ 64" using all len assms(2) by simp
    from p99_scan_correct[OF _ this, of ?t] obtain i where
      i: "p99_scan (buckets ?h) 320 ?c ?t = Some i" "i < 320"
        "?k \<le> unat ?c + bucket_sum (drop i (buckets ?h))"
        "unat ?c + bucket_sum (drop (Suc i) (buckets ?h)) < ?k"
      using len k all False ov percentile_rank_bounds[of "length xs"] assms(1)
      by (auto split: option.splits)
    have "adaptive_hist_p99 ?h = bucket_to_midpoint_us (int i) / 1000"
      using nz i(1) False ov k by (simp add: adaptive_hist_p99_def Let_def word_le_nat_alt)
    moreover have "samples_ge (bucket_upper_bound_us (int i)) xs < ?k"
      using scan_count_samples[OF assms(2,3), of "Suc i"] i by simp
    moreover have "?k \<le> samples_ge (bucket_upper_bound_us (int i - 1)) xs"
      using scan_count_samples[OF assms(2,3), of i] i by simp
    ultimately show ?thesis using False i(2) by (auto intro!: exI[of _ "int i"])
  qed
qed

theorem hist_p99_order_statistic_witness:
  "adaptive_hist_p99 (hist_of [80, 250000]) = 200"
  using hist_p99_order_statistic[of "[80, 250000]"] by (simp add: percentile_rank_def)

end
