(* ===== verification/Adaptive_Controller.thy ===== *)
theory Adaptive_Controller
  imports Latency_Histogram
begin

text \<open>
  The AIMD controller of \<^verbatim>\<open>src/engine/src/adaptive_engine.c\<close>: its state, initialisation,
  the hot-path recorders, the per-tick statistics, the seven phase handlers and
  \<open>adaptive_tick\<close> itself. Doubles are real numbers and \<open>NAN\<close> is \<open>None\<close>; every call of
  \<open>get_time_ns\<close> reads a clock value that is an argument of the model, so the clock may step
  back. C \<open>int\<close> fields are integers; the invariant bounds the ones that steer the engine.
\<close>

section \<open>State\<close>

datatype adaptive_phase =
    PHASE_BASELINE | PHASE_PROBING | PHASE_STEADY | PHASE_BACKOFF | PHASE_SETTLING
  | PHASE_CONVERGED | PHASE_PASSTHROUGH

record adaptive_controller =
  current_in_flight_limit :: int
  current_batch_threshold :: int
  submit_calls :: u32
  sqes_submitted :: u32
  sample_start_ns :: int
  sample_bytes :: u64
  current_p99_ms :: real
  current_throughput_bps :: real
  phase :: adaptive_phase
  passthrough_mode :: bool
  max_queue_depth :: int
  min_in_flight :: int
  aimd_initial_in_flight :: int
  prev_in_flight_limit :: int
  baseline_p99_ms :: real
  latency_rise_threshold :: real
  max_p99_ms :: real
  prev_throughput_bps :: real
  warmup_count :: int
  plateau_count :: int
  steady_count :: int
  spike_count :: int
  settling_timer :: int
  entered_via_backoff :: bool
  passthrough_qualify_count :: int
  pressure_qualify_count :: int
  prev_pending_snapshot :: int
  batch_threshold_fixed :: bool
  p99_head :: nat
  p99_count :: nat
  throughput_head :: nat
  throughput_count :: nat
  baseline_head :: nat
  baseline_count :: nat
  p99_window :: "real list"
  throughput_window :: "real list"
  baseline_window :: "real list"
  hist_pair :: adaptive_histogram_pair
  tick_entered :: int

abbreviation ADAPTIVE_WARMUP_SAMPLES :: int where "ADAPTIVE_WARMUP_SAMPLES \<equiv> 10"
abbreviation ADAPTIVE_P99_WINDOW :: nat where "ADAPTIVE_P99_WINDOW \<equiv> 15"
abbreviation ADAPTIVE_THROUGHPUT_WINDOW :: nat where "ADAPTIVE_THROUGHPUT_WINDOW \<equiv> 25"
abbreviation ADAPTIVE_BASELINE_WINDOW :: nat where "ADAPTIVE_BASELINE_WINDOW \<equiv> 50"
abbreviation ADAPTIVE_AIMD_INCREASE :: int where "ADAPTIVE_AIMD_INCREASE \<equiv> 1"
abbreviation ADAPTIVE_AIMD_DECREASE :: real where "ADAPTIVE_AIMD_DECREASE \<equiv> 0.80"
abbreviation ADAPTIVE_ER_EPSILON_RATIO :: real where "ADAPTIVE_ER_EPSILON_RATIO \<equiv> 0.01"
abbreviation ADAPTIVE_LATENCY_GUARD_MULT :: real where "ADAPTIVE_LATENCY_GUARD_MULT \<equiv> 10"
abbreviation ADAPTIVE_LOW_IOPS_MIN_SAMPLES :: int where "ADAPTIVE_LOW_IOPS_MIN_SAMPLES \<equiv> 20"
abbreviation ADAPTIVE_MIN_SAMPLE_WINDOW_MS :: int where "ADAPTIVE_MIN_SAMPLE_WINDOW_MS \<equiv> 100"
abbreviation ADAPTIVE_MIN_BATCH :: int where "ADAPTIVE_MIN_BATCH \<equiv> 2"
abbreviation ADAPTIVE_TARGET_SQE_RATIO :: real where "ADAPTIVE_TARGET_SQE_RATIO \<equiv> 8"
abbreviation ADAPTIVE_MAX_BATCH_THRESHOLD :: int where "ADAPTIVE_MAX_BATCH_THRESHOLD \<equiv> 64"
abbreviation ADAPTIVE_DEFAULT_LATENCY_GUARD :: real where "ADAPTIVE_DEFAULT_LATENCY_GUARD \<equiv> 50"
abbreviation ADAPTIVE_SETTLING_TICKS :: int where "ADAPTIVE_SETTLING_TICKS \<equiv> 10"
abbreviation ADAPTIVE_STEADY_THRESHOLD :: int where "ADAPTIVE_STEADY_THRESHOLD \<equiv> 500"
abbreviation ADAPTIVE_REPROBE_INTERVAL :: int where "ADAPTIVE_REPROBE_INTERVAL \<equiv> 100"
abbreviation AIMD_ENGAGE_TICKS :: int where "AIMD_ENGAGE_TICKS \<equiv> 8"
abbreviation AIMD_ENGAGE_PENDING_DELTA :: int where "AIMD_ENGAGE_PENDING_DELTA \<equiv> 16"
abbreviation PASSTHROUGH_REENTER_TICKS :: int where "PASSTHROUGH_REENTER_TICKS \<equiv> 10"
abbreviation PASSTHROUGH_REENTER_DELTA_MAX :: int where "PASSTHROUGH_REENTER_DELTA_MAX \<equiv> 2"

section \<open>Sliding windows\<close>

definition window_add :: "real list \<Rightarrow> nat \<Rightarrow> nat \<Rightarrow> nat \<Rightarrow> real \<Rightarrow> real list \<times> nat \<times> nat" where
  "window_add window head count max_size value =
     (window[head := value], (head + 1) mod max_size,
      if count < max_size then count + 1 else count)"

fun window_min_from :: "real list \<Rightarrow> nat \<Rightarrow> nat \<Rightarrow> real \<Rightarrow> real" where
  "window_min_from window i 0 min_val = min_val"
| "window_min_from window i (Suc n) min_val =
     window_min_from window (Suc i) n (if window ! i < min_val then window ! i else min_val)"

definition window_min :: "real list \<Rightarrow> nat \<Rightarrow> real" where
  "window_min window count =
     (if count = 0 then 0 else window_min_from window 1 (count - 1) (window ! 0))"

section \<open>Per-tick statistics\<close>

record tick_stats =
  sample_count :: u32
  p99_ms :: real
  throughput_bps :: real
  sqe_ratio :: real
  latency_guard_ms :: real
  elapsed_ns :: int
  have_valid_p99 :: bool
  latency_rising :: bool
  efficiency_ratio :: "real option"
  delta_inflight :: int

text \<open>Lines 125 to 144: the windows are extended and the baseline recomputed.\<close>

definition update_windows :: "adaptive_controller \<Rightarrow> real \<Rightarrow> real \<Rightarrow> adaptive_controller" where
  "update_windows ctrl p99 throughput =
     (let c1 = (if p99 \<ge> 0 then
            let (w, h, n) = window_add (p99_window ctrl) (p99_head ctrl) (p99_count ctrl)
                              ADAPTIVE_P99_WINDOW p99;
                c = ctrl\<lparr>p99_window := w, p99_head := h, p99_count := n\<rparr>
            in if phase c \<noteq> PHASE_BACKOFF \<and>
                  \<not> (phase c = PHASE_SETTLING \<and> entered_via_backoff c)
               then let (bw, bh, bn) = window_add (baseline_window c) (baseline_head c)
                          (baseline_count c) ADAPTIVE_BASELINE_WINDOW p99
                    in c\<lparr>baseline_window := bw, baseline_head := bh, baseline_count := bn\<rparr>
               else c
          else ctrl);
          (tw, th, tn) = window_add (throughput_window c1) (throughput_head c1)
                           (throughput_count c1) ADAPTIVE_THROUGHPUT_WINDOW throughput;
          c2 = c1\<lparr>throughput_window := tw, throughput_head := th, throughput_count := tn\<rparr>
      in if baseline_count c2 > 0
         then c2\<lparr>baseline_p99_ms := window_min (baseline_window c2) (baseline_count c2)\<rparr>
         else c2)"

definition effective_guard :: "adaptive_controller \<Rightarrow> real" where
  "effective_guard ctrl =
     (if max_p99_ms ctrl > 0 then max_p99_ms ctrl
      else if baseline_p99_ms ctrl > 0 then baseline_p99_ms ctrl * ADAPTIVE_LATENCY_GUARD_MULT
      else ADAPTIVE_DEFAULT_LATENCY_GUARD)"

definition tick_swap_and_compute_stats ::
    "adaptive_controller \<Rightarrow> int \<Rightarrow> adaptive_controller \<times> tick_stats" where
  "tick_swap_and_compute_stats ctrl elapsed0 =
     (let elapsed = (if elapsed0 \<le> 0 then 1 else elapsed0);
          (pair, old) = hist_rotate (hist_pair ctrl);
          old_hist = histograms pair ! old;
          samples = ucast (total_count old_hist) :: u32;
          p99 = adaptive_hist_p99 old_hist;
          elapsed_sec = real_of_int elapsed / 1000000000;
          bytes = sample_bytes ctrl;
          throughput = (if elapsed_sec > 0 then real (unat bytes) / elapsed_sec else 0);
          calls = submit_calls ctrl;
          sqes = sqes_submitted ctrl;
          ratio = (if calls > 0 then real (unat sqes) / real (unat calls) else 0);
          c1 = ctrl\<lparr>hist_pair := pair, sample_bytes := 0, submit_calls := 0, sqes_submitted := 0,
                    current_throughput_bps := throughput,
                    current_p99_ms := (if p99 \<ge> 0 then p99 else -1)\<rparr>;
          c2 = update_windows c1 p99 throughput;
          guard = effective_guard c2;
          c3 = c2\<lparr>latency_rise_threshold := guard\<rparr>;
          valid = (samples \<ge> of_int ADAPTIVE_LOW_IOPS_MIN_SAMPLES \<and> p99 \<ge> 0);
          limit = current_in_flight_limit c3;
          changed = (prev_in_flight_limit c3 > 0 \<and> limit \<noteq> prev_in_flight_limit c3);
          delta = (if changed then limit - prev_in_flight_limit c3 else 0);
          er = (if changed \<and> delta > 0
                then Some ((throughput - prev_throughput_bps c3) / real_of_int delta) else None)
      in (c3, \<lparr>sample_count = samples, p99_ms = p99, throughput_bps = throughput,
               sqe_ratio = ratio, latency_guard_ms = guard, elapsed_ns = elapsed,
               have_valid_p99 = valid, latency_rising = (valid \<and> p99 \<ge> guard),
               efficiency_ratio = er, delta_inflight = delta\<rparr>))"

section \<open>Lifecycle and hot path\<close>

text \<open>
  \<open>adaptive_init\<close> returns -1 on bad arguments (\<open>None\<close>). The controller is initialised whatever
  it held; \<open>tick_entered\<close> is set to 0 by \<open>atomic_init\<close> in debug builds and by the \<open>memset\<close> of
  \<open>ring_init\<close> before it in every build.
\<close>

definition adaptive_init :: "int \<Rightarrow> int \<Rightarrow> int \<Rightarrow> int \<Rightarrow> adaptive_controller option" where
  "adaptive_init now max_qd initial_inflight min_inflight =
     (if max_qd < 1 \<or> initial_inflight < 1 then None
      else Some \<lparr>current_in_flight_limit = max_qd, current_batch_threshold = ADAPTIVE_MIN_BATCH,
        submit_calls = 0, sqes_submitted = 0, sample_start_ns = now, sample_bytes = 0,
        current_p99_ms = 0, current_throughput_bps = 0, phase = PHASE_PASSTHROUGH,
        passthrough_mode = True, max_queue_depth = max_qd,
        min_in_flight = (if min_inflight < 1 then 4 else min_inflight),
        aimd_initial_in_flight = initial_inflight, prev_in_flight_limit = 0,
        baseline_p99_ms = 0, latency_rise_threshold = 0, max_p99_ms = 0,
        prev_throughput_bps = 0, warmup_count = 0, plateau_count = 0, steady_count = 0,
        spike_count = 0, settling_timer = 0, entered_via_backoff = False,
        passthrough_qualify_count = 0, pressure_qualify_count = 0, prev_pending_snapshot = 0,
        batch_threshold_fixed = False, p99_head = 0, p99_count = 0, throughput_head = 0,
        throughput_count = 0, baseline_head = 0, baseline_count = 0,
        p99_window = replicate ADAPTIVE_P99_WINDOW 0,
        throughput_window = replicate ADAPTIVE_THROUGHPUT_WINDOW 0,
        baseline_window = replicate ADAPTIVE_BASELINE_WINDOW 0,
        hist_pair = adaptive_hist_pair_init, tick_entered = 0\<rparr>)"

definition adaptive_record_completion ::
    "adaptive_controller \<Rightarrow> int \<Rightarrow> u64 \<Rightarrow> adaptive_controller" where
  "adaptive_record_completion ctrl latency_ns bytes =
     ctrl\<lparr>hist_pair := adaptive_pair_record (hist_pair ctrl) (c_div latency_ns 1000),
          sample_bytes := sample_bytes ctrl + bytes\<rparr>"

definition adaptive_record_submit :: "adaptive_controller \<Rightarrow> int \<Rightarrow> adaptive_controller" where
  "adaptive_record_submit ctrl sqe_count =
     (if sqe_count \<le> 0 then ctrl
      else ctrl\<lparr>submit_calls := submit_calls ctrl + 1,
                sqes_submitted := sqes_submitted ctrl + of_int sqe_count\<rparr>)"

definition adaptive_get_inflight_limit :: "adaptive_controller \<Rightarrow> int" where
  "adaptive_get_inflight_limit ctrl = current_in_flight_limit ctrl"

definition adaptive_get_batch_threshold :: "adaptive_controller \<Rightarrow> int" where
  "adaptive_get_batch_threshold ctrl = current_batch_threshold ctrl"

definition adaptive_is_passthrough :: "adaptive_controller \<Rightarrow> bool" where
  "adaptive_is_passthrough ctrl = passthrough_mode ctrl"

fun adaptive_phase_name :: "adaptive_phase \<Rightarrow> string" where
  "adaptive_phase_name PHASE_BASELINE = ''BASELINE''"
| "adaptive_phase_name PHASE_PROBING = ''PROBING''"
| "adaptive_phase_name PHASE_STEADY = ''STEADY''"
| "adaptive_phase_name PHASE_BACKOFF = ''BACKOFF''"
| "adaptive_phase_name PHASE_SETTLING = ''SETTLING''"
| "adaptive_phase_name PHASE_CONVERGED = ''CONVERGED''"
| "adaptive_phase_name PHASE_PASSTHROUGH = ''PASSTHROUGH''"

section \<open>Phase handlers\<close>

text \<open>Each handler returns the new state and whether it reports changed parameters.\<close>

definition check_spike_backoff ::
    "adaptive_controller \<Rightarrow> tick_stats \<Rightarrow> adaptive_controller \<times> bool" where
  "check_spike_backoff ctrl stats =
     (if latency_rising stats then
        let c = ctrl\<lparr>spike_count := spike_count ctrl + 1\<rparr>
        in if spike_count c \<ge> 2 then (c\<lparr>phase := PHASE_BACKOFF, spike_count := 0\<rparr>, True)
           else (c, False)
      else (ctrl\<lparr>spike_count := 0\<rparr>, False))"

definition aimd_increase :: "adaptive_controller \<Rightarrow> adaptive_controller \<times> bool" where
  "aimd_increase ctrl =
     (let limit = current_in_flight_limit ctrl
      in if limit < max_queue_depth ctrl then
           let l1 = limit + ADAPTIVE_AIMD_INCREASE;
               l2 = (if l1 > max_queue_depth ctrl then max_queue_depth ctrl else l1)
           in (ctrl\<lparr>current_in_flight_limit := l2\<rparr>, True)
         else (ctrl, False))"

definition handle_baseline_phase ::
    "adaptive_controller \<Rightarrow> tick_stats \<Rightarrow> adaptive_controller \<times> bool" where
  "handle_baseline_phase ctrl stats =
     (let c = ctrl\<lparr>warmup_count := warmup_count ctrl + 1\<rparr>
      in if warmup_count c \<ge> ADAPTIVE_WARMUP_SAMPLES
         then (c\<lparr>phase := PHASE_PROBING, prev_throughput_bps := throughput_bps stats,
                 prev_in_flight_limit := current_in_flight_limit c\<rparr>, False)
         else (c, False))"

definition er_threshold :: "tick_stats \<Rightarrow> real" where
  "er_threshold stats =
     (if throughput_bps stats > 0 \<and> delta_inflight stats \<noteq> 0
      then throughput_bps stats * ADAPTIVE_ER_EPSILON_RATIO / \<bar>real_of_int (delta_inflight stats)\<bar>
      else 0)"

definition handle_probing_phase ::
    "adaptive_controller \<Rightarrow> tick_stats \<Rightarrow> adaptive_controller \<times> bool" where
  "handle_probing_phase ctrl stats =
     (case check_spike_backoff ctrl stats of (c, spiked) \<Rightarrow>
        if spiked then (c, False)
        else if sample_count stats = 0 then (c, False)
        else case efficiency_ratio stats of
          None \<Rightarrow>
            (case aimd_increase c of (c', increased) \<Rightarrow>
               if increased then (c'\<lparr>plateau_count := 0\<rparr>, True)
               else (c'\<lparr>plateau_count := plateau_count c' + 1\<rparr>, False))
        | Some er \<Rightarrow>
            if er > er_threshold stats then
              (case aimd_increase c of (c', increased) \<Rightarrow> (c'\<lparr>plateau_count := 0\<rparr>, increased))
            else if max_p99_ms c > 0 \<and> have_valid_p99 stats \<and> p99_ms stats < max_p99_ms c then
              (case aimd_increase c of (c', increased) \<Rightarrow> (c'\<lparr>plateau_count := 0\<rparr>, increased))
            else
              let c' = c\<lparr>plateau_count := plateau_count c + 1\<rparr>
              in if plateau_count c' \<ge> 3
                 then (c'\<lparr>entered_via_backoff := False, spike_count := 0,
                         phase := PHASE_SETTLING, settling_timer := 0\<rparr>, False)
                 else (c', False))"

definition handle_settling_phase ::
    "adaptive_controller \<Rightarrow> tick_stats \<Rightarrow> adaptive_controller \<times> bool" where
  "handle_settling_phase ctrl stats =
     (if latency_rising stats
      then (ctrl\<lparr>entered_via_backoff := True, phase := PHASE_BACKOFF, settling_timer := 0,
                 spike_count := 0\<rparr>, False)
      else let c = ctrl\<lparr>settling_timer := settling_timer ctrl + 1\<rparr>
           in if settling_timer c \<ge> ADAPTIVE_SETTLING_TICKS
              then (c\<lparr>phase := PHASE_STEADY, steady_count := 0\<rparr>, False)
              else (c, False))"

definition handle_steady_phase ::
    "adaptive_controller \<Rightarrow> tick_stats \<Rightarrow> adaptive_controller \<times> bool" where
  "handle_steady_phase ctrl stats =
     (case check_spike_backoff (ctrl\<lparr>steady_count := steady_count ctrl + 1\<rparr>) stats of
        (c, spiked) \<Rightarrow>
          if spiked then (c\<lparr>steady_count := 0\<rparr>, False)
          else if entered_via_backoff c \<and> steady_count c \<ge> ADAPTIVE_REPROBE_INTERVAL
          then (c\<lparr>phase := PHASE_PROBING, entered_via_backoff := False, plateau_count := 0\<rparr>, False)
          else if \<not> entered_via_backoff c \<and> steady_count c \<ge> ADAPTIVE_STEADY_THRESHOLD
          then (c\<lparr>phase := PHASE_CONVERGED\<rparr>, False)
          else (c, False))"

definition handle_backoff_phase ::
    "adaptive_controller \<Rightarrow> tick_stats \<Rightarrow> adaptive_controller \<times> bool" where
  "handle_backoff_phase ctrl stats =
     (let limit = current_in_flight_limit ctrl;
          reduced = \<lfloor>real_of_int limit * ADAPTIVE_AIMD_DECREASE\<rfloor>;
          new_limit = (if reduced > min_in_flight ctrl then reduced else min_in_flight ctrl)
      in (ctrl\<lparr>current_in_flight_limit := new_limit, plateau_count := 0,
               entered_via_backoff := True, phase := PHASE_SETTLING, settling_timer := 0\<rparr>, True))"

definition handle_converged_phase ::
    "adaptive_controller \<Rightarrow> tick_stats \<Rightarrow> adaptive_controller \<times> bool" where
  "handle_converged_phase ctrl stats =
     (case check_spike_backoff ctrl stats of
        (c, spiked) \<Rightarrow> (if spiked then c\<lparr>steady_count := 0\<rparr> else c, False))"

definition adaptive_reset_to_baseline :: "int \<Rightarrow> adaptive_controller \<Rightarrow> adaptive_controller" where
  "adaptive_reset_to_baseline now ctrl =
     (let initial0 = (if aimd_initial_in_flight ctrl > 0 then aimd_initial_in_flight ctrl
                      else c_div (max_queue_depth ctrl) 2);
          initial = (if initial0 < min_in_flight ctrl then min_in_flight ctrl else initial0)
      in ctrl\<lparr>phase := PHASE_BASELINE, current_in_flight_limit := initial, warmup_count := 0,
              plateau_count := 0, steady_count := 0, spike_count := 0, settling_timer := 0,
              entered_via_backoff := False, passthrough_qualify_count := 0,
              p99_head := 0, p99_count := 0, throughput_head := 0, throughput_count := 0,
              baseline_head := 0, baseline_count := 0, baseline_p99_ms := 0,
              prev_throughput_bps := 0, prev_in_flight_limit := 0,
              hist_pair := fst (hist_rotate (hist_pair ctrl)),
              sample_start_ns := now, sample_bytes := 0, submit_calls := 0, sqes_submitted := 0\<rparr>)"

section \<open>The tick\<close>

text \<open>The inner loop (lines 757 to 775).\<close>

definition batch_optimizer ::
    "adaptive_controller \<Rightarrow> tick_stats \<Rightarrow> adaptive_controller \<times> bool" where
  "batch_optimizer ctrl stats =
     (let b = current_batch_threshold ctrl
      in if \<not> batch_threshold_fixed ctrl \<and> sqe_ratio stats > 0 then
           if sqe_ratio stats < ADAPTIVE_TARGET_SQE_RATIO \<and> b < ADAPTIVE_MAX_BATCH_THRESHOLD
           then (ctrl\<lparr>current_batch_threshold := b + 1\<rparr>, True)
           else if sqe_ratio stats > ADAPTIVE_TARGET_SQE_RATIO * 1.5 \<and> b > ADAPTIVE_MIN_BATCH
           then (ctrl\<lparr>current_batch_threshold := b - 1\<rparr>, True)
           else (ctrl, False)
         else (ctrl, False))"

text \<open>The outer loop: dispatch on the phase (lines 791 to 815).\<close>

fun phase_handler ::
    "adaptive_phase \<Rightarrow> adaptive_controller \<Rightarrow> tick_stats \<Rightarrow> adaptive_controller \<times> bool" where
  "phase_handler PHASE_BASELINE c s = handle_baseline_phase c s"
| "phase_handler PHASE_PROBING c s = handle_probing_phase c s"
| "phase_handler PHASE_SETTLING c s = handle_settling_phase c s"
| "phase_handler PHASE_STEADY c s = handle_steady_phase c s"
| "phase_handler PHASE_BACKOFF c s = handle_backoff_phase c s"
| "phase_handler PHASE_CONVERGED c s = handle_converged_phase c s"
| "phase_handler PHASE_PASSTHROUGH c s = (c, False)"

text \<open>Passthrough re-entry (lines 818 to 834).\<close>

definition passthrough_reentry :: "adaptive_controller \<Rightarrow> int \<Rightarrow> adaptive_controller \<times> bool" where
  "passthrough_reentry ctrl pending_delta =
     (if phase ctrl = PHASE_CONVERGED then
        if \<bar>pending_delta\<bar> \<le> PASSTHROUGH_REENTER_DELTA_MAX then
          let c = ctrl\<lparr>passthrough_qualify_count := passthrough_qualify_count ctrl + 1\<rparr>
          in if passthrough_qualify_count c \<ge> PASSTHROUGH_REENTER_TICKS
             then (c\<lparr>passthrough_mode := True, phase := PHASE_PASSTHROUGH,
                     current_in_flight_limit := max_queue_depth c,
                     passthrough_qualify_count := 0\<rparr>, True)
             else (c, False)
        else (ctrl\<lparr>passthrough_qualify_count := 0\<rparr>, False)
      else (ctrl, False))"

text \<open>Passthrough monitoring (lines 725 to 750); the clock is read after the statistics
  (\<open>t_mid\<close>) and by the reset (\<open>t_end\<close>).\<close>

definition passthrough_monitor ::
    "int \<Rightarrow> int \<Rightarrow> adaptive_controller \<Rightarrow> int \<Rightarrow> int \<Rightarrow> adaptive_controller \<times> bool" where
  "passthrough_monitor t_mid t_end ctrl elapsed pending_delta =
     (let pressure0 = (pending_delta > AIMD_ENGAGE_PENDING_DELTA);
          (c, pressure) =
            (if \<not> pressure0 \<and> max_p99_ms ctrl > 0 then
               let (c1, st) = tick_swap_and_compute_stats ctrl elapsed
               in (c1\<lparr>sample_start_ns := t_mid\<rparr>, have_valid_p99 st \<and> p99_ms st > max_p99_ms c1)
             else (ctrl, pressure0))
      in if pressure then
           let c1 = c\<lparr>pressure_qualify_count := pressure_qualify_count c + 1\<rparr>
           in if pressure_qualify_count c1 \<ge> AIMD_ENGAGE_TICKS
              then ((adaptive_reset_to_baseline t_end (c1\<lparr>passthrough_mode := False\<rparr>))
                      \<lparr>pressure_qualify_count := 0\<rparr>, True)
              else (c1, False)
         else (c\<lparr>pressure_qualify_count := 0\<rparr>, False))"

text \<open>The active control path (lines 752 to 841).\<close>

definition aimd_tick ::
    "int \<Rightarrow> adaptive_controller \<Rightarrow> int \<Rightarrow> int \<Rightarrow> adaptive_controller \<times> bool" where
  "aimd_tick t_end ctrl elapsed pending_delta =
     (let (c1, stats) = tick_swap_and_compute_stats ctrl elapsed;
          (c2, ch1) = batch_optimizer c1 stats;
          c3 = c2\<lparr>prev_throughput_bps := throughput_bps stats,
                  prev_in_flight_limit := current_in_flight_limit c2\<rparr>;
          (c4, ch2) = phase_handler (phase c3) c3 stats;
          (c5, ch3) = passthrough_reentry c4 pending_delta
      in (c5\<lparr>sample_start_ns := t_end\<rparr>, ch1 \<or> ch2 \<or> ch3))"

definition adaptive_tick ::
    "int \<Rightarrow> int \<Rightarrow> int \<Rightarrow> adaptive_controller \<Rightarrow> int \<Rightarrow> adaptive_controller \<times> bool" where
  "adaptive_tick now t_mid t_end ctrl pending_count =
     (if tick_entered ctrl \<noteq> 0 then (ctrl, False)
      else
        let elapsed0 = now - sample_start_ns ctrl;
            (c0, elapsed) =
              (if elapsed0 < 0
               then (ctrl\<lparr>sample_start_ns := now, sample_bytes := 0, submit_calls := 0,
                          sqes_submitted := 0\<rparr>, 0)
               else (ctrl, elapsed0));
            elapsed_ms = c_div elapsed 1000000;
            peek_count = c_int (int (unat (total_count (adaptive_hist_active (hist_pair c0)))))
        in if \<not> peek_count \<ge> ADAPTIVE_LOW_IOPS_MIN_SAMPLES \<and>
              \<not> elapsed_ms \<ge> ADAPTIVE_MIN_SAMPLE_WINDOW_MS
           then (c0, False)
           else
             let pending_delta = pending_count - prev_pending_snapshot c0;
                 c1 = c0\<lparr>prev_pending_snapshot := pending_count\<rparr>
             in if adaptive_is_passthrough c1
                then passthrough_monitor t_mid t_end c1 elapsed pending_delta
                else aimd_tick t_end c1 elapsed pending_delta)"

section \<open>Well-formedness\<close>

definition limits_ok :: "adaptive_controller \<Rightarrow> bool" where
  "limits_ok c \<longleftrightarrow> 1 \<le> min_in_flight c \<and> min_in_flight c \<le> max_queue_depth c \<and>
     aimd_initial_in_flight c \<le> max_queue_depth c \<and>
     1 \<le> current_in_flight_limit c \<and> current_in_flight_limit c \<le> max_queue_depth c"

definition mode_ok :: "adaptive_controller \<Rightarrow> bool" where
  "mode_ok c \<longleftrightarrow> (passthrough_mode c \<longleftrightarrow> phase c = PHASE_PASSTHROUGH) \<and>
     (passthrough_mode c \<longrightarrow> current_in_flight_limit c = max_queue_depth c)"

definition windows_ok :: "adaptive_controller \<Rightarrow> bool" where
  "windows_ok c \<longleftrightarrow>
     length (p99_window c) = ADAPTIVE_P99_WINDOW \<and> p99_head c < ADAPTIVE_P99_WINDOW \<and>
     p99_count c \<le> ADAPTIVE_P99_WINDOW \<and>
     length (throughput_window c) = ADAPTIVE_THROUGHPUT_WINDOW \<and>
     throughput_head c < ADAPTIVE_THROUGHPUT_WINDOW \<and>
     throughput_count c \<le> ADAPTIVE_THROUGHPUT_WINDOW \<and>
     length (baseline_window c) = ADAPTIVE_BASELINE_WINDOW \<and>
     baseline_head c < ADAPTIVE_BASELINE_WINDOW \<and> baseline_count c \<le> ADAPTIVE_BASELINE_WINDOW"

definition counters_ok :: "adaptive_controller \<Rightarrow> bool" where
  "counters_ok c \<longleftrightarrow> 0 \<le> spike_count c \<and> spike_count c \<le> 1 \<and>
     0 \<le> pressure_qualify_count c \<and> pressure_qualify_count c < AIMD_ENGAGE_TICKS \<and>
     0 \<le> passthrough_qualify_count c \<and> passthrough_qualify_count c < PASSTHROUGH_REENTER_TICKS \<and>
     1 \<le> current_batch_threshold c"

definition ctrl_wf :: "adaptive_controller \<Rightarrow> bool" where
  "ctrl_wf c \<longleftrightarrow> limits_ok c \<and> mode_ok c \<and> windows_ok c \<and> counters_ok c \<and> pair_wf (hist_pair c)"

lemmas ctrl_wf_defs = ctrl_wf_def limits_ok_def mode_ok_def windows_ok_def counters_ok_def

section \<open>Statistics\<close>

lemma update_windows_frame [simp]:
  "current_in_flight_limit (update_windows c p t) = current_in_flight_limit c"
  "current_batch_threshold (update_windows c p t) = current_batch_threshold c"
  "phase (update_windows c p t) = phase c"
  "passthrough_mode (update_windows c p t) = passthrough_mode c"
  "max_queue_depth (update_windows c p t) = max_queue_depth c"
  "min_in_flight (update_windows c p t) = min_in_flight c"
  "aimd_initial_in_flight (update_windows c p t) = aimd_initial_in_flight c"
  "prev_in_flight_limit (update_windows c p t) = prev_in_flight_limit c"
  "prev_throughput_bps (update_windows c p t) = prev_throughput_bps c"
  "max_p99_ms (update_windows c p t) = max_p99_ms c"
  "spike_count (update_windows c p t) = spike_count c"
  "plateau_count (update_windows c p t) = plateau_count c"
  "warmup_count (update_windows c p t) = warmup_count c"
  "steady_count (update_windows c p t) = steady_count c"
  "settling_timer (update_windows c p t) = settling_timer c"
  "entered_via_backoff (update_windows c p t) = entered_via_backoff c"
  "pressure_qualify_count (update_windows c p t) = pressure_qualify_count c"
  "passthrough_qualify_count (update_windows c p t) = passthrough_qualify_count c"
  "prev_pending_snapshot (update_windows c p t) = prev_pending_snapshot c"
  "batch_threshold_fixed (update_windows c p t) = batch_threshold_fixed c"
  "hist_pair (update_windows c p t) = hist_pair c"
  "tick_entered (update_windows c p t) = tick_entered c"
  "sample_start_ns (update_windows c p t) = sample_start_ns c"
  "sample_bytes (update_windows c p t) = sample_bytes c"
  "submit_calls (update_windows c p t) = submit_calls c"
  "sqes_submitted (update_windows c p t) = sqes_submitted c"
  by (simp_all add: update_windows_def window_add_def Let_def)

lemma update_windows_ok [wf_intros]: "windows_ok c \<Longrightarrow> windows_ok (update_windows c p t)"
  by (auto simp: update_windows_def window_add_def windows_ok_def Let_def)

lemma fst_tick_swap:
  "\<exists>p99 tp p99' g. fst (tick_swap_and_compute_stats c e) =
    (update_windows (c\<lparr>hist_pair := fst (hist_rotate (hist_pair c)), sample_bytes := 0,
       submit_calls := 0, sqes_submitted := 0, current_throughput_bps := tp,
       current_p99_ms := p99'\<rparr>) p99 tp)\<lparr>latency_rise_threshold := g\<rparr>"
  unfolding tick_swap_and_compute_stats_def Let_def split_beta fst_conv by blast

lemma tick_swap_frame [simp]:
  "current_in_flight_limit (fst (tick_swap_and_compute_stats c e)) = current_in_flight_limit c"
  "current_batch_threshold (fst (tick_swap_and_compute_stats c e)) = current_batch_threshold c"
  "phase (fst (tick_swap_and_compute_stats c e)) = phase c"
  "passthrough_mode (fst (tick_swap_and_compute_stats c e)) = passthrough_mode c"
  "max_queue_depth (fst (tick_swap_and_compute_stats c e)) = max_queue_depth c"
  "min_in_flight (fst (tick_swap_and_compute_stats c e)) = min_in_flight c"
  "aimd_initial_in_flight (fst (tick_swap_and_compute_stats c e)) = aimd_initial_in_flight c"
  "prev_in_flight_limit (fst (tick_swap_and_compute_stats c e)) = prev_in_flight_limit c"
  "max_p99_ms (fst (tick_swap_and_compute_stats c e)) = max_p99_ms c"
  "spike_count (fst (tick_swap_and_compute_stats c e)) = spike_count c"
  "plateau_count (fst (tick_swap_and_compute_stats c e)) = plateau_count c"
  "warmup_count (fst (tick_swap_and_compute_stats c e)) = warmup_count c"
  "steady_count (fst (tick_swap_and_compute_stats c e)) = steady_count c"
  "settling_timer (fst (tick_swap_and_compute_stats c e)) = settling_timer c"
  "entered_via_backoff (fst (tick_swap_and_compute_stats c e)) = entered_via_backoff c"
  "pressure_qualify_count (fst (tick_swap_and_compute_stats c e)) = pressure_qualify_count c"
  "passthrough_qualify_count (fst (tick_swap_and_compute_stats c e)) = passthrough_qualify_count c"
  "prev_pending_snapshot (fst (tick_swap_and_compute_stats c e)) = prev_pending_snapshot c"
  "batch_threshold_fixed (fst (tick_swap_and_compute_stats c e)) = batch_threshold_fixed c"
  "tick_entered (fst (tick_swap_and_compute_stats c e)) = tick_entered c"
  "hist_pair (fst (tick_swap_and_compute_stats c e)) = fst (hist_rotate (hist_pair c))"
  "sample_bytes (fst (tick_swap_and_compute_stats c e)) = 0"
  "submit_calls (fst (tick_swap_and_compute_stats c e)) = 0"
  "sqes_submitted (fst (tick_swap_and_compute_stats c e)) = 0"
  using fst_tick_swap[of c e] by (elim exE, simp)+

lemma tick_swap_windows_ok: "windows_ok c \<Longrightarrow> windows_ok (fst (tick_swap_and_compute_stats c e))"
proof -
  assume w: "windows_ok c"
  have "windows_ok (update_windows (c\<lparr>hist_pair := p, sample_bytes := 0, submit_calls := 0,
      sqes_submitted := 0, current_throughput_bps := a, current_p99_ms := b\<rparr>) x y)" for p a b x y
    using w by (intro update_windows_ok) (simp add: windows_ok_def)
  then show ?thesis
    by (simp add: tick_swap_and_compute_stats_def Let_def windows_ok_def split: prod.splits)
qed

lemma tick_swap_wf [wf_intros]:
  assumes "ctrl_wf c"
  shows "ctrl_wf (fst (tick_swap_and_compute_stats c e))"
proof -
  have "pair_wf (fst (hist_rotate (hist_pair c)))"
    using assms hist_rotate_wf(1)[of "hist_pair c"] by (cases "hist_rotate (hist_pair c)")
      (auto simp: ctrl_wf_def)
  moreover have "windows_ok (fst (tick_swap_and_compute_stats c e))"
    using assms by (simp add: ctrl_wf_def tick_swap_windows_ok)
  ultimately show ?thesis using assms
    by (auto simp: ctrl_wf_def limits_ok_def mode_ok_def counters_ok_def)
qed

section \<open>The handlers keep the invariant\<close>

text \<open>Fields the invariant does not mention.\<close>

lemma ctrl_wf_irrelevant [simp]:
  "ctrl_wf (sample_start_ns_update f c) = ctrl_wf c"
  "ctrl_wf (prev_pending_snapshot_update f c) = ctrl_wf c"
  "ctrl_wf (prev_throughput_bps_update g c) = ctrl_wf c"
  "ctrl_wf (prev_in_flight_limit_update f c) = ctrl_wf c"
  "ctrl_wf (sample_bytes_update b c) = ctrl_wf c"
  "ctrl_wf (submit_calls_update w c) = ctrl_wf c"
  "ctrl_wf (sqes_submitted_update w c) = ctrl_wf c"
  "ctrl_wf (plateau_count_update f c) = ctrl_wf c"
  "ctrl_wf (warmup_count_update f c) = ctrl_wf c"
  "ctrl_wf (steady_count_update f c) = ctrl_wf c"
  "ctrl_wf (settling_timer_update f c) = ctrl_wf c"
  "ctrl_wf (entered_via_backoff_update h c) = ctrl_wf c"
  by (simp_all add: ctrl_wf_defs)

lemma ctrl_wf_spike [simp]:
  "ctrl_wf c \<Longrightarrow> 0 \<le> n \<Longrightarrow> n \<le> 1 \<Longrightarrow> ctrl_wf (c\<lparr>spike_count := n\<rparr>)"
  by (simp add: ctrl_wf_defs)

lemma ctrl_wf_phase [simp]:
  "ctrl_wf c \<Longrightarrow> \<not> passthrough_mode c \<Longrightarrow> q \<noteq> PHASE_PASSTHROUGH \<Longrightarrow> ctrl_wf (c\<lparr>phase := q\<rparr>)"
  by (simp add: ctrl_wf_defs)

lemma ctrl_wf_limit:
  "ctrl_wf c \<Longrightarrow> \<not> passthrough_mode c \<Longrightarrow> 1 \<le> l \<Longrightarrow> l \<le> max_queue_depth c \<Longrightarrow>
     ctrl_wf (c\<lparr>current_in_flight_limit := l\<rparr>)"
  by (simp add: ctrl_wf_defs)

lemma ctrl_wfD:
  "ctrl_wf c \<Longrightarrow> 0 \<le> spike_count c \<and> spike_count c \<le> 1 \<and> 1 \<le> current_in_flight_limit c \<and>
     current_in_flight_limit c \<le> max_queue_depth c \<and> 1 \<le> min_in_flight c \<and>
     min_in_flight c \<le> max_queue_depth c"
  by (simp add: ctrl_wf_defs)

lemma ctrl_wf_pressure:
  "ctrl_wf c \<Longrightarrow> 0 \<le> n \<Longrightarrow> n < AIMD_ENGAGE_TICKS \<Longrightarrow> ctrl_wf (c\<lparr>pressure_qualify_count := n\<rparr>)"
  by (simp add: ctrl_wf_defs)

lemma ctrl_wf_pressure_nonneg: "ctrl_wf c \<Longrightarrow> 0 \<le> pressure_qualify_count c"
  by (simp add: ctrl_wf_defs)

lemma floor_decrease_le: "0 \<le> l \<Longrightarrow> \<lfloor>real_of_int l * ADAPTIVE_AIMD_DECREASE\<rfloor> \<le> l"
  by (simp add: floor_le_iff)

lemma floor_decrease_less: "1 \<le> l \<Longrightarrow> \<lfloor>real_of_int l * ADAPTIVE_AIMD_DECREASE\<rfloor> < l"
  by (simp add: floor_less_iff)

lemma aimd_increase_eq:
  "aimd_increase c =
     (if current_in_flight_limit c < max_queue_depth c
      then (c\<lparr>current_in_flight_limit := current_in_flight_limit c + 1\<rparr>, True) else (c, False))"
  by (simp add: aimd_increase_def Let_def)

lemmas handler_defs = handle_baseline_phase_def handle_probing_phase_def handle_settling_phase_def
  handle_steady_phase_def handle_backoff_phase_def handle_converged_phase_def
  check_spike_backoff_def aimd_increase_eq

lemma check_spike_wf:
  assumes "ctrl_wf c" "\<not> passthrough_mode c"
  shows "ctrl_wf (fst (check_spike_backoff c s))" "\<not> passthrough_mode (fst (check_spike_backoff c s))"
  using assms ctrl_wfD[OF assms(1)] by (auto simp: check_spike_backoff_def Let_def)

lemma aimd_increase_wf:
  assumes "ctrl_wf c" "\<not> passthrough_mode c"
  shows "ctrl_wf (fst (aimd_increase c))" "\<not> passthrough_mode (fst (aimd_increase c))"
  using assms ctrl_wfD[OF assms(1)] by (auto simp: aimd_increase_eq intro: ctrl_wf_limit)

lemma baseline_wf:
  assumes "ctrl_wf c" "\<not> passthrough_mode c"
  shows "ctrl_wf (fst (handle_baseline_phase c s))"
    "\<not> passthrough_mode (fst (handle_baseline_phase c s))"
  using assms by (auto simp: handle_baseline_phase_def Let_def)

lemma probing_wf:
  assumes "ctrl_wf c" "\<not> passthrough_mode c"
  shows "ctrl_wf (fst (handle_probing_phase c s)) \<and>
    \<not> passthrough_mode (fst (handle_probing_phase c s))"
proof -
  obtain d b where d: "check_spike_backoff c s = (d, b)" by fastforce
  then have dw: "ctrl_wf d" "\<not> passthrough_mode d"
    using check_spike_wf[OF assms, of s] by auto
  obtain e i where e: "aimd_increase d = (e, i)" by fastforce
  then have ew: "ctrl_wf e" "\<not> passthrough_mode e"
    using aimd_increase_wf[OF dw] by auto
  show ?thesis using dw ew
    by (cases "efficiency_ratio s") (simp_all add: handle_probing_phase_def d e Let_def)
qed

lemma settling_wf:
  assumes "ctrl_wf c" "\<not> passthrough_mode c"
  shows "ctrl_wf (fst (handle_settling_phase c s))"
    "\<not> passthrough_mode (fst (handle_settling_phase c s))"
  using assms by (auto simp: handle_settling_phase_def Let_def)

lemma steady_wf:
  assumes "ctrl_wf c" "\<not> passthrough_mode c"
  shows "ctrl_wf (fst (handle_steady_phase c s)) \<and>
    \<not> passthrough_mode (fst (handle_steady_phase c s))"
proof -
  let ?c = "c\<lparr>steady_count := steady_count c + 1\<rparr>"
  obtain d b where d: "check_spike_backoff ?c s = (d, b)" by fastforce
  then have "ctrl_wf d" "\<not> passthrough_mode d"
    using check_spike_wf[of ?c s] assms by auto
  then show ?thesis by (simp add: handle_steady_phase_def d)
qed

lemma backoff_limit:
  fixes c s
  assumes "limits_ok c"
  defines "l \<equiv> current_in_flight_limit (fst (handle_backoff_phase c s))"
  shows "l = max (min_in_flight c) \<lfloor>real_of_int (current_in_flight_limit c) * 0.80\<rfloor>"
    "min_in_flight c \<le> l" "l \<le> max_queue_depth c"
    "min_in_flight c < current_in_flight_limit c \<Longrightarrow> l < current_in_flight_limit c"
  using assms floor_decrease_le[of "current_in_flight_limit c"]
    floor_decrease_less[of "current_in_flight_limit c"]
  by (auto simp: handle_backoff_phase_def Let_def limits_ok_def max_def)

lemma backoff_wf:
  assumes "ctrl_wf c" "\<not> passthrough_mode c"
  shows "ctrl_wf (fst (handle_backoff_phase c s))"
    "\<not> passthrough_mode (fst (handle_backoff_phase c s))"
proof -
  let ?l = "current_in_flight_limit (fst (handle_backoff_phase c s))"
  have "1 \<le> ?l" "?l \<le> max_queue_depth c"
    using assms ctrl_wfD[OF assms(1)] backoff_limit[of c s] by (auto simp: ctrl_wf_def)
  then have "ctrl_wf (c\<lparr>current_in_flight_limit := ?l\<rparr>)" using assms by (intro ctrl_wf_limit)
  then show "ctrl_wf (fst (handle_backoff_phase c s))"
    using assms by (simp add: handle_backoff_phase_def Let_def)
  show "\<not> passthrough_mode (fst (handle_backoff_phase c s))"
    using assms by (simp add: handle_backoff_phase_def Let_def)
qed

lemma converged_wf:
  assumes "ctrl_wf c" "\<not> passthrough_mode c"
  shows "ctrl_wf (fst (handle_converged_phase c s))"
    "\<not> passthrough_mode (fst (handle_converged_phase c s))"
  using check_spike_wf[OF assms, of s]
  by (auto simp: handle_converged_phase_def split: prod.splits)

lemma phase_handler_wf:
  assumes "ctrl_wf c" "\<not> passthrough_mode c"
  shows "ctrl_wf (fst (phase_handler p c s)) \<and> \<not> passthrough_mode (fst (phase_handler p c s))"
  using assms baseline_wf probing_wf settling_wf steady_wf backoff_wf converged_wf
  by (cases p) auto

lemma batch_optimizer_wf:
  assumes "ctrl_wf c"
  shows "ctrl_wf (fst (batch_optimizer c s))"
    "passthrough_mode (fst (batch_optimizer c s)) = passthrough_mode c"
  using assms by (auto simp: batch_optimizer_def ctrl_wf_defs Let_def)

lemma passthrough_reentry_wf: "ctrl_wf c \<Longrightarrow> ctrl_wf (fst (passthrough_reentry c d))"
  by (auto simp: passthrough_reentry_def ctrl_wf_defs Let_def)

lemma reset_initial_bounds:
  assumes "limits_ok c"
  shows "limits_ok (adaptive_reset_to_baseline t c)"
proof -
  have "c_div (max_queue_depth c) 2 \<le> max_queue_depth c"
    using assms by (simp add: limits_ok_def c_div_nonneg) presburger
  then show ?thesis using assms
    by (auto simp: limits_ok_def adaptive_reset_to_baseline_def Let_def)
qed

lemma reset_to_baseline_wf:
  assumes "limits_ok c" "windows_ok c" "pair_wf (hist_pair c)" "\<not> passthrough_mode c"
    "0 \<le> pressure_qualify_count c" "1 \<le> current_batch_threshold c"
  shows "ctrl_wf ((adaptive_reset_to_baseline t c)\<lparr>pressure_qualify_count := 0\<rparr>)"
proof -
  have "pair_wf (fst (hist_rotate (hist_pair c)))"
    using assms hist_rotate_wf(1)[of "hist_pair c"] by (cases "hist_rotate (hist_pair c)") auto
  then show ?thesis using assms reset_initial_bounds[of c t]
    by (auto simp: ctrl_wf_defs adaptive_reset_to_baseline_def Let_def)
qed

lemma passthrough_monitor_wf:
  assumes "ctrl_wf c" "passthrough_mode c"
  shows "ctrl_wf (fst (passthrough_monitor tm te c e d))"
proof -
  define r where "r = (if \<not> AIMD_ENGAGE_PENDING_DELTA < d \<and> max_p99_ms c > 0 then
      let (c1, st) = tick_swap_and_compute_stats c e
      in (c1\<lparr>sample_start_ns := tm\<rparr>, have_valid_p99 st \<and> p99_ms st > max_p99_ms c1)
    else (c, AIMD_ENGAGE_PENDING_DELTA < d))"
  obtain c1 pr where r: "r = (c1, pr)" by fastforce
  have w: "ctrl_wf c1"
    using assms tick_swap_wf[of c e] r
    by (auto simp: r_def Let_def split: prod.splits if_splits)
  let ?d = "c1\<lparr>pressure_qualify_count := pressure_qualify_count c1 + 1, passthrough_mode := False\<rparr>"
  have "ctrl_wf ((adaptive_reset_to_baseline te ?d)\<lparr>pressure_qualify_count := 0\<rparr>)"
    using w by (intro reset_to_baseline_wf) (auto simp: ctrl_wf_defs)
  moreover have "passthrough_monitor tm te c e d =
     (if pr then
        if pressure_qualify_count c1 + 1 \<ge> AIMD_ENGAGE_TICKS
        then ((adaptive_reset_to_baseline te ?d)\<lparr>pressure_qualify_count := 0\<rparr>, True)
        else (c1\<lparr>pressure_qualify_count := pressure_qualify_count c1 + 1\<rparr>, False)
      else (c1\<lparr>pressure_qualify_count := 0\<rparr>, False))"
    using r by (simp add: passthrough_monitor_def r_def Let_def)
  ultimately show ?thesis using w ctrl_wf_pressure_nonneg[OF w] by (auto intro: ctrl_wf_pressure)
qed

lemma aimd_tick_wf:
  assumes "ctrl_wf c" "\<not> passthrough_mode c"
  shows "ctrl_wf (fst (aimd_tick te c e d))"
proof -
  obtain c1 st where 1: "tick_swap_and_compute_stats c e = (c1, st)" by fastforce
  obtain c2 b2 where 2: "batch_optimizer c1 st = (c2, b2)" by fastforce
  let ?c3 = "c2\<lparr>prev_throughput_bps := throughput_bps st,
                prev_in_flight_limit := current_in_flight_limit c2\<rparr>"
  obtain c4 b4 where 4: "phase_handler (phase ?c3) ?c3 st = (c4, b4)" by fastforce
  obtain c5 b5 where 5: "passthrough_reentry c4 d = (c5, b5)" by fastforce
  have "ctrl_wf c1" "\<not> passthrough_mode c1"
    using tick_swap_wf[OF assms(1), of e] assms(2) tick_swap_frame(4)[of c e] 1 by auto
  then have "ctrl_wf c2" "\<not> passthrough_mode c2" using batch_optimizer_wf[of c1 st] 2 by auto
  then have "ctrl_wf ?c3" "\<not> passthrough_mode ?c3" by auto
  then have "ctrl_wf c4" using phase_handler_wf[of ?c3 "phase ?c3" st] 4 by auto
  then have "ctrl_wf c5" using passthrough_reentry_wf[of c4 d] 5 by auto
  then show ?thesis using 1 2 4 5 by (auto simp: aimd_tick_def Let_def)
qed

lemma adaptive_tick_keeps_wf:
  assumes "ctrl_wf c"
  shows "ctrl_wf (fst (adaptive_tick now tm te c p))"
proof -
  define c0 where "c0 = (if now - sample_start_ns c < 0
      then c\<lparr>sample_start_ns := now, sample_bytes := 0, submit_calls := 0, sqes_submitted := 0\<rparr>
      else c)"
  have w0: "ctrl_wf c0" "ctrl_wf (c0\<lparr>prev_pending_snapshot := p\<rparr>)"
    using assms by (auto simp: c0_def)
  show ?thesis
    using assms w0 passthrough_monitor_wf[OF w0(2)] aimd_tick_wf[OF w0(2)]
    by (auto simp: adaptive_tick_def Let_def c0_def adaptive_is_passthrough_def)
qed

section \<open>Phase transitions\<close>

text \<open>The transition diagram of the controller, one rule per edge a tick can take.\<close>

inductive phase_step :: "adaptive_phase \<Rightarrow> adaptive_phase \<Rightarrow> bool" where
  stay: "phase_step p p"
| engage: "phase_step PHASE_PASSTHROUGH PHASE_BASELINE"
| warmed_up: "phase_step PHASE_BASELINE PHASE_PROBING"
| plateau: "phase_step PHASE_PROBING PHASE_SETTLING"
| settled: "phase_step PHASE_SETTLING PHASE_STEADY"
| reprobe: "phase_step PHASE_STEADY PHASE_PROBING"
| converge: "phase_step PHASE_STEADY PHASE_CONVERGED"
| spike: "p \<in> {PHASE_PROBING, PHASE_SETTLING, PHASE_STEADY, PHASE_CONVERGED} \<Longrightarrow>
    phase_step p PHASE_BACKOFF"
| backed_off: "phase_step PHASE_BACKOFF PHASE_SETTLING"
| reenter: "p \<in> {PHASE_STEADY, PHASE_CONVERGED} \<Longrightarrow> phase_step p PHASE_PASSTHROUGH"

inductive_simps phase_step_iff: "phase_step p q"

lemma probing_phase:
  "phase c = PHASE_PROBING \<Longrightarrow> phase (fst (handle_probing_phase c s)) \<in>
     {PHASE_PROBING, PHASE_BACKOFF, PHASE_SETTLING}"
  by (cases "efficiency_ratio s")
    (simp_all add: handle_probing_phase_def check_spike_backoff_def aimd_increase_eq Let_def)

lemma handler_phase:
  "phase (fst (phase_handler (phase c) c s)) = phase c \<or>
   phase_step (phase c) (phase (fst (phase_handler (phase c) c s))) \<and>
   phase (fst (phase_handler (phase c) c s)) \<noteq> PHASE_PASSTHROUGH"
proof (cases "phase c")
  case PHASE_PROBING
  then show ?thesis using probing_phase[of c s] by (auto intro: phase_step.intros)
qed (auto simp: handle_baseline_phase_def handle_settling_phase_def handle_steady_phase_def
    handle_backoff_phase_def handle_converged_phase_def check_spike_backoff_def Let_def
    intro: phase_step.intros)

lemma reentry_phase:
  "phase (fst (passthrough_reentry c d)) =
     (if phase c = PHASE_CONVERGED \<and> \<bar>d\<bar> \<le> 2 \<and> passthrough_qualify_count c + 1 \<ge> 10
      then PHASE_PASSTHROUGH else phase c)"
  by (simp add: passthrough_reentry_def Let_def)

lemma batch_optimizer_frame [simp]:
  "phase (fst (batch_optimizer c s)) = phase c"
  "current_in_flight_limit (fst (batch_optimizer c s)) = current_in_flight_limit c"
  "max_queue_depth (fst (batch_optimizer c s)) = max_queue_depth c"
  "min_in_flight (fst (batch_optimizer c s)) = min_in_flight c"
  "max_p99_ms (fst (batch_optimizer c s)) = max_p99_ms c"
  "spike_count (fst (batch_optimizer c s)) = spike_count c"
  "plateau_count (fst (batch_optimizer c s)) = plateau_count c"
  "passthrough_mode (fst (batch_optimizer c s)) = passthrough_mode c"
  "tick_entered (fst (batch_optimizer c s)) = tick_entered c"
  "hist_pair (fst (batch_optimizer c s)) = hist_pair c"
  "batch_threshold_fixed (fst (batch_optimizer c s)) = batch_threshold_fixed c"
  by (simp_all add: batch_optimizer_def Let_def)

text \<open>The state the phase handler of an active tick starts from.\<close>

definition tick_prepare :: "adaptive_controller \<Rightarrow> int \<Rightarrow> adaptive_controller \<times> tick_stats" where
  "tick_prepare c e =
     (let (c1, st) = tick_swap_and_compute_stats c e; c2 = fst (batch_optimizer c1 st)
      in (c2\<lparr>prev_throughput_bps := throughput_bps st,
             prev_in_flight_limit := current_in_flight_limit c2\<rparr>, st))"

lemma tick_prepare_frame [simp]:
  "phase (fst (tick_prepare c e)) = phase c"
  "current_in_flight_limit (fst (tick_prepare c e)) = current_in_flight_limit c"
  "max_queue_depth (fst (tick_prepare c e)) = max_queue_depth c"
  "min_in_flight (fst (tick_prepare c e)) = min_in_flight c"
  "max_p99_ms (fst (tick_prepare c e)) = max_p99_ms c"
  "spike_count (fst (tick_prepare c e)) = spike_count c"
  "plateau_count (fst (tick_prepare c e)) = plateau_count c"
  "passthrough_mode (fst (tick_prepare c e)) = passthrough_mode c"
  "tick_entered (fst (tick_prepare c e)) = tick_entered c"
  "hist_pair (fst (tick_prepare c e)) = fst (hist_rotate (hist_pair c))"
  "snd (tick_prepare c e) = snd (tick_swap_and_compute_stats c e)"
  by (simp_all add: tick_prepare_def Let_def split_beta)

lemma fst_aimd_tick:
  "fst (aimd_tick te c e d) =
    (let (c3, st) = tick_prepare c e
     in (fst (passthrough_reentry (fst (phase_handler (phase c3) c3 st)) d))\<lparr>sample_start_ns := te\<rparr>)"
  by (simp add: aimd_tick_def tick_prepare_def Let_def split_beta)

lemma aimd_tick_phase_step: "phase_step (phase c) (phase (fst (aimd_tick te c e d)))"
proof -
  let ?c3 = "fst (tick_prepare c e)" and ?st = "snd (tick_prepare c e)"
  let ?c4 = "fst (phase_handler (phase ?c3) ?c3 ?st)"
  have h: "phase ?c4 = phase c \<or> phase_step (phase c) (phase ?c4) \<and> phase ?c4 \<noteq> PHASE_PASSTHROUGH"
    using handler_phase[of ?c3 ?st] by simp
  have eq: "phase (fst (aimd_tick te c e d)) = phase (fst (passthrough_reentry ?c4 d))"
    by (simp add: fst_aimd_tick split_beta Let_def)
  show ?thesis unfolding eq reentry_phase
    using h by (auto simp: phase_step_iff)
qed

lemma passthrough_monitor_phase:
  "phase c = PHASE_PASSTHROUGH \<Longrightarrow>
     phase (fst (passthrough_monitor tm te c e d)) \<in> {PHASE_PASSTHROUGH, PHASE_BASELINE}"
  by (auto simp: passthrough_monitor_def adaptive_reset_to_baseline_def Let_def split_beta)


section \<open>The control law\<close>

text \<open>
  What one tick may do to the in-flight limit: nothing, one step up, a multiplicative cut
  clamped at the floor, the initial limit when control engages, or the full depth when the
  controller returns to passthrough.
\<close>

definition aimd_initial_limit :: "adaptive_controller \<Rightarrow> int" where
  "aimd_initial_limit c =
     max (min_in_flight c)
       (if aimd_initial_in_flight c > 0 then aimd_initial_in_flight c
        else max_queue_depth c div 2)"

inductive limit_step :: "adaptive_controller \<Rightarrow> int \<Rightarrow> bool" where
  keep: "limit_step c (current_in_flight_limit c)"
| up: "phase c = PHASE_PROBING \<Longrightarrow> current_in_flight_limit c < max_queue_depth c \<Longrightarrow>
    limit_step c (current_in_flight_limit c + 1)"
| cut: "phase c = PHASE_BACKOFF \<Longrightarrow>
    limit_step c (max (min_in_flight c) \<lfloor>real_of_int (current_in_flight_limit c) * 0.80\<rfloor>)"
| engaged: "phase c = PHASE_PASSTHROUGH \<Longrightarrow> limit_step c (aimd_initial_limit c)"
| released: "phase c \<in> {PHASE_STEADY, PHASE_CONVERGED} \<Longrightarrow> limit_step c (max_queue_depth c)"

inductive_simps limit_step_iff: "limit_step c l"

lemma probing_limit:
  "current_in_flight_limit (fst (handle_probing_phase c s)) = current_in_flight_limit c \<or>
   current_in_flight_limit c < max_queue_depth c \<and>
   current_in_flight_limit (fst (handle_probing_phase c s)) = current_in_flight_limit c + 1"
  by (cases "efficiency_ratio s")
    (simp_all add: handle_probing_phase_def check_spike_backoff_def aimd_increase_eq Let_def)

lemma backoff_limit_eq:
  "current_in_flight_limit (fst (handle_backoff_phase c s)) =
    max (min_in_flight c) \<lfloor>real_of_int (current_in_flight_limit c) * 0.80\<rfloor>"
  by (simp add: handle_backoff_phase_def Let_def max_def)

lemma handler_limit:
  "limit_step c (current_in_flight_limit (fst (phase_handler (phase c) c s))) \<and>
   max_queue_depth (fst (phase_handler (phase c) c s)) = max_queue_depth c"
proof (cases "phase c")
  case PHASE_PROBING
  moreover have "max_queue_depth (fst (handle_probing_phase c s)) = max_queue_depth c"
    by (cases "efficiency_ratio s")
      (simp_all add: handle_probing_phase_def check_spike_backoff_def aimd_increase_eq Let_def)
  ultimately show ?thesis using probing_limit[of c s] by (auto intro: limit_step.intros)
next
  case PHASE_BACKOFF
  then show ?thesis
    using limit_step.cut[of c] by (simp add: backoff_limit_eq) (simp add: handle_backoff_phase_def Let_def)
qed (auto simp: handle_baseline_phase_def handle_settling_phase_def handle_steady_phase_def
    handle_converged_phase_def check_spike_backoff_def Let_def intro: limit_step.keep)

lemma aimd_tick_limit:
  "limit_step c (current_in_flight_limit (fst (aimd_tick te c e d)))"
proof -
  let ?c3 = "fst (tick_prepare c e)" and ?st = "snd (tick_prepare c e)"
  let ?c4 = "fst (phase_handler (phase ?c3) ?c3 ?st)"
  have cong: "limit_step ?c3 l \<longleftrightarrow> limit_step c l" if "phase c \<noteq> PHASE_PASSTHROUGH" for l
    using that by (simp add: limit_step_iff)
  have eq: "current_in_flight_limit (fst (aimd_tick te c e d)) =
      current_in_flight_limit (fst (passthrough_reentry ?c4 d))"
    by (simp add: fst_aimd_tick split_beta Let_def)
  have keep: "limit_step c (current_in_flight_limit ?c4)"
    using handler_limit[of ?c3 ?st] cong limit_step.keep[of c]
    by (cases "phase c = PHASE_PASSTHROUGH") auto
  have conv: "phase c \<in> {PHASE_STEADY, PHASE_CONVERGED}" if "phase ?c4 = PHASE_CONVERGED"
    using handler_phase[of ?c3 ?st] that by (auto simp: phase_step_iff)
  have mx: "max_queue_depth ?c4 = max_queue_depth c"
    using handler_limit[of ?c3 ?st] by simp
  show ?thesis unfolding eq using keep conv mx limit_step.released[of c]
    by (auto simp: passthrough_reentry_def Let_def)
qed

lemma passthrough_monitor_limit:
  assumes "phase c = PHASE_PASSTHROUGH" "0 \<le> max_queue_depth c"
  shows "limit_step c (current_in_flight_limit (fst (passthrough_monitor tm te c e d)))"
proof -
  have "current_in_flight_limit (fst (passthrough_monitor tm te c e d))
      \<in> {current_in_flight_limit c, aimd_initial_limit c}"
    using assms(2) by (auto simp: passthrough_monitor_def adaptive_reset_to_baseline_def Let_def
        split_beta aimd_initial_limit_def max_def c_div_nonneg)
  then show ?thesis using assms limit_step.keep[of c] limit_step.engaged[of c] by auto
qed


section \<open>Runtime setters and runs\<close>

text \<open>
  The per-ring bodies of \<open>aura_set_max_p99_latency\<close>, \<open>aura_set_min_in_flight\<close> and
  \<open>aura_set_batch_threshold\<close>.
\<close>

definition ctrl_set_max_p99 :: "real \<Rightarrow> adaptive_controller \<Rightarrow> adaptive_controller" where
  "ctrl_set_max_p99 latency_ms c = c\<lparr>max_p99_ms := latency_ms\<rparr>"

definition ctrl_set_min_in_flight :: "int \<Rightarrow> adaptive_controller \<Rightarrow> adaptive_controller" where
  "ctrl_set_min_in_flight m c = c\<lparr>min_in_flight := m\<rparr>"

definition ctrl_set_batch_threshold :: "int \<Rightarrow> adaptive_controller \<Rightarrow> adaptive_controller" where
  "ctrl_set_batch_threshold threshold c =
     (if threshold = -1 then c\<lparr>batch_threshold_fixed := False\<rparr>
      else if threshold = 0
      then c\<lparr>current_batch_threshold := INT_MAX, batch_threshold_fixed := True\<rparr>
      else c\<lparr>current_batch_threshold := threshold, batch_threshold_fixed := True\<rparr>)"

text \<open>
  Everything that happens to a controller after its initialisation: ticks, completions,
  submissions, and the setters with the argument checks of their public entry points.
\<close>

datatype ctrl_event =
    Tick int int int int
  | Completion int u64
  | Submit int
  | SetMaxP99 real
  | SetMinInFlight int
  | SetBatchThreshold int

fun ctrl_apply :: "ctrl_event \<Rightarrow> adaptive_controller \<Rightarrow> adaptive_controller" where
  "ctrl_apply (Tick now tm te p) c = fst (adaptive_tick now tm te c p)"
| "ctrl_apply (Completion latency bytes) c = adaptive_record_completion c latency bytes"
| "ctrl_apply (Submit n) c = adaptive_record_submit c n"
| "ctrl_apply (SetMaxP99 r) c = (if r < 0 then c else ctrl_set_max_p99 r c)"
| "ctrl_apply (SetMinInFlight m) c =
     (if m < 1 \<or> m > max_queue_depth c then c else ctrl_set_min_in_flight m c)"
| "ctrl_apply (SetBatchThreshold t) c = (if t < -1 then c else ctrl_set_batch_threshold t c)"

lemma record_completion_wf:
  "ctrl_wf c \<Longrightarrow> ctrl_wf (adaptive_record_completion c l b)"
  by (simp add: adaptive_record_completion_def) (simp add: ctrl_wf_defs pair_wf_record)

lemma ctrl_apply_wf: "ctrl_wf c \<Longrightarrow> ctrl_wf (ctrl_apply ev c)"
proof (cases ev)
  case (SetMinInFlight m)
  then show "ctrl_wf c \<Longrightarrow> ?thesis"
    by (simp add: ctrl_set_min_in_flight_def) (simp add: ctrl_wf_defs)
next
  case (SetBatchThreshold t)
  then show "ctrl_wf c \<Longrightarrow> ?thesis"
    by (simp add: ctrl_set_batch_threshold_def) (simp add: ctrl_wf_defs)
next
  case (Submit n)
  then show "ctrl_wf c \<Longrightarrow> ?thesis"
    by (simp add: adaptive_record_submit_def)
next
  case (SetMaxP99 r)
  then show "ctrl_wf c \<Longrightarrow> ?thesis"
    by (simp add: ctrl_set_max_p99_def) (simp add: ctrl_wf_defs)
qed (simp_all add: adaptive_tick_keeps_wf record_completion_wf)

lemma ctrl_run_wf: "ctrl_wf c \<Longrightarrow> ctrl_wf (fold ctrl_apply evs c)"
  by (induction evs arbitrary: c) (simp_all add: ctrl_apply_wf)

lemma adaptive_init_wf:
  assumes "adaptive_init now qd initial mn = Some c" "initial \<le> qd"
    "(if mn < 1 then 4 else mn) \<le> qd"
  shows "ctrl_wf c" "max_queue_depth c = qd"
  using assms
  by (auto simp: adaptive_init_def ctrl_wf_defs pair_wf_init split: if_splits)

lemma passthrough_monitor_max:
  "max_queue_depth (fst (passthrough_monitor tm te c e d)) = max_queue_depth c"
  by (simp add: passthrough_monitor_def adaptive_reset_to_baseline_def Let_def split_beta)

lemma aimd_tick_max: "max_queue_depth (fst (aimd_tick te c e d)) = max_queue_depth c"
proof -
  let ?c3 = "fst (tick_prepare c e)" and ?st = "snd (tick_prepare c e)"
  have "max_queue_depth (fst (phase_handler (phase ?c3) ?c3 ?st)) = max_queue_depth c"
    using handler_limit[of ?c3 ?st] by simp
  then show ?thesis
    by (simp add: fst_aimd_tick passthrough_reentry_def Let_def split_beta)
qed

lemma ctrl_apply_max: "max_queue_depth (ctrl_apply ev c) = max_queue_depth c"
  by (cases ev) (simp_all add: adaptive_tick_def Let_def split_beta passthrough_monitor_max
      aimd_tick_max adaptive_record_completion_def adaptive_record_submit_def
      ctrl_set_max_p99_def ctrl_set_min_in_flight_def ctrl_set_batch_threshold_def)

lemma ctrl_run_max: "max_queue_depth (fold ctrl_apply evs c) = max_queue_depth c"
  by (induction evs arbitrary: c) (simp_all add: ctrl_apply_max)

text \<open>
  Claim C31. Whatever ticks, clock readings, completions, submissions and runtime
  reconfigurations a controller goes through after a successful initialisation, its
  in-flight limit stays between 1 and the queue depth, equals the queue depth while in
  passthrough, passthrough mode and the PASSTHROUGH phase agree, and the write positions of
  the three sliding windows stay inside their arrays.
\<close>

theorem controller_run_invariant:
  fixes evs :: "ctrl_event list"
  assumes "adaptive_init now qd initial mn = Some c0" and "initial \<le> qd"
    and "(if mn < 1 then 4 else mn) \<le> qd"
  defines "c \<equiv> fold ctrl_apply evs c0"
  shows "1 \<le> current_in_flight_limit c \<and> current_in_flight_limit c \<le> qd \<and>
    (passthrough_mode c \<longrightarrow> current_in_flight_limit c = qd) \<and>
    (passthrough_mode c \<longleftrightarrow> phase c = PHASE_PASSTHROUGH) \<and>
    p99_head c < length (p99_window c) \<and> throughput_head c < length (throughput_window c) \<and>
    baseline_head c < length (baseline_window c)"
proof -
  have "ctrl_wf c0" "max_queue_depth c0 = qd" using adaptive_init_wf[OF assms(1,2,3)] by auto
  then have "ctrl_wf c" "max_queue_depth c = qd" by (auto simp: c_def ctrl_run_wf ctrl_run_max)
  then show ?thesis by (auto simp: ctrl_wf_defs)
qed

theorem controller_run_invariant_witness:
  "let c = fold ctrl_apply [Completion 5000 4096, Submit 3, Tick 200000000 0 0 40]
             (the (adaptive_init 0 256 64 4))
   in 1 \<le> current_in_flight_limit c \<and> current_in_flight_limit c \<le> 256"
proof -
  have "adaptive_init 0 256 64 4 = Some (the (adaptive_init 0 256 64 4))"
    by (simp add: adaptive_init_def)
  from controller_run_invariant[OF this, of "[Completion 5000 4096, Submit 3, Tick 200000000 0 0 40]"]
  show ?thesis by (simp add: Let_def)
qed

section \<open>Engaging control\<close>

definition run_ticks :: "(int \<times> int \<times> int \<times> int) list \<Rightarrow> adaptive_controller \<Rightarrow> adaptive_controller" where
  "run_ticks ts c = fold (\<lambda>(now, tm, te, p) c. fst (adaptive_tick now tm te c p)) ts c"

text \<open>A tick whose pending count grew by more than 16 while in passthrough.\<close>

lemma pressure_tick:
  assumes "passthrough_mode c" "tick_entered c = 0" "sample_start_ns c + 100000000 \<le> now"
    and "p - prev_pending_snapshot c > 16"
  shows "adaptive_tick now tm te c p =
    (let c1 = c\<lparr>prev_pending_snapshot := p, pressure_qualify_count := pressure_qualify_count c + 1\<rparr>
     in if pressure_qualify_count c + 1 \<ge> 8
        then ((adaptive_reset_to_baseline te (c1\<lparr>passthrough_mode := False\<rparr>))
                \<lparr>pressure_qualify_count := 0\<rparr>, True)
        else (c1, False))"
proof -
  have e: "\<not> now - sample_start_ns c < 0" using assms by simp
  have ms: "c_div (now - sample_start_ns c) 1000000 \<ge> 100"
    using assms e by (simp add: c_div_nonneg le_zdiv_iff)
  show ?thesis using assms e ms
    by (simp add: adaptive_tick_def Let_def adaptive_is_passthrough_def passthrough_monitor_def)
qed

fun growing :: "int \<Rightarrow> (int \<times> int \<times> int \<times> int) list \<Rightarrow> bool" where
  "growing prev [] = True"
| "growing prev ((now, tm, te, p) # ts) = (p - prev > 16 \<and> growing p ts)"

lemma pressure_run:
  assumes "passthrough_mode c" "tick_entered c = 0"
    and "\<forall>t \<in> set ts. sample_start_ns c + 100000000 \<le> fst t"
    and "growing (prev_pending_snapshot c) ts"
    and "pressure_qualify_count c + int (length ts) < 8"
  shows "\<exists>q. run_ticks ts c = c\<lparr>prev_pending_snapshot := q,
      pressure_qualify_count := pressure_qualify_count c + int (length ts)\<rparr> \<and>
      (ts \<noteq> [] \<longrightarrow> q = snd (snd (snd (last ts)))) \<and> (ts = [] \<longrightarrow> q = prev_pending_snapshot c)"
  using assms
proof (induction ts arbitrary: c)
  case Nil
  show ?case by (rule exI[of _ "prev_pending_snapshot c"]) (simp add: run_ticks_def)
next
  case (Cons t ts)
  obtain now tm te p where t: "t = (now, tm, te, p)" by (cases t) auto
  let ?c = "c\<lparr>prev_pending_snapshot := p, pressure_qualify_count := pressure_qualify_count c + 1\<rparr>"
  have step: "fst (adaptive_tick now tm te c p) = ?c"
  proof -
    have "sample_start_ns c + 100000000 \<le> now" "p - prev_pending_snapshot c > 16"
      "\<not> pressure_qualify_count c + 1 \<ge> 8"
      using Cons.prems(3,4,5) t by simp_all
    from pressure_tick[OF Cons.prems(1,2) this(1,2)] this(3) show ?thesis by (simp add: Let_def)
  qed
  obtain q where q: "run_ticks ts ?c = ?c\<lparr>prev_pending_snapshot := q,
      pressure_qualify_count := pressure_qualify_count ?c + int (length ts)\<rparr>"
      "ts \<noteq> [] \<longrightarrow> q = snd (snd (snd (last ts)))" "ts = [] \<longrightarrow> q = p"
  proof -
    have "growing p ts" "\<forall>t \<in> set ts. sample_start_ns c + 100000000 \<le> fst t"
      using Cons.prems(3,4) t by simp_all
    then have "\<exists>q. run_ticks ts ?c = ?c\<lparr>prev_pending_snapshot := q,
        pressure_qualify_count := pressure_qualify_count ?c + int (length ts)\<rparr> \<and>
        (ts \<noteq> [] \<longrightarrow> q = snd (snd (snd (last ts)))) \<and>
        (ts = [] \<longrightarrow> q = prev_pending_snapshot ?c)"
      using Cons.prems(1,2,5) by (intro Cons.IH) simp_all
    then show ?thesis using that by (elim exE conjE) simp
  qed
  have "run_ticks (t # ts) c = run_ticks ts ?c" using t step by (simp add: run_ticks_def)
  then show ?case using q t by (intro exI[of _ q]) (simp add: add.assoc)
qed



section \<open>Latency spikes\<close>

text \<open>
  What completions and submissions between two ticks do to a controller: they fill the
  histograms and the sample counters and touch nothing else.
\<close>

definition intake :: "adaptive_histogram_pair \<Rightarrow> u64 \<Rightarrow> u32 \<Rightarrow> u32 \<Rightarrow> adaptive_controller \<Rightarrow> adaptive_controller" where
  "intake hp bytes calls sqes c =
     c\<lparr>hist_pair := hp, sample_bytes := bytes, submit_calls := calls, sqes_submitted := sqes\<rparr>"

lemma intake_frame [simp]:
  "phase (intake hp b n s c) = phase c"
  "spike_count (intake hp b n s c) = spike_count c"
  "current_in_flight_limit (intake hp b n s c) = current_in_flight_limit c"
  "prev_in_flight_limit (intake hp b n s c) = prev_in_flight_limit c"
  "max_queue_depth (intake hp b n s c) = max_queue_depth c"
  "min_in_flight (intake hp b n s c) = min_in_flight c"
  "plateau_count (intake hp b n s c) = plateau_count c"
  by (simp_all add: intake_def)

definition spiking :: "adaptive_controller \<Rightarrow> int \<Rightarrow> bool" where
  "spiking c e \<longleftrightarrow> latency_rising (snd (tick_swap_and_compute_stats c e))"

lemma spike_handler:
  fixes s
  assumes "phase c \<in> {PHASE_PROBING, PHASE_STEADY, PHASE_CONVERGED}" "latency_rising s"
  defines "c' \<equiv> fst (phase_handler (phase c) c s)"
  shows "spike_count c = 1 \<Longrightarrow> phase c' = PHASE_BACKOFF"
    "spike_count c = 0 \<Longrightarrow> phase c' = PHASE_SETTLING \<or>
      phase c' \<in> {PHASE_PROBING, PHASE_STEADY, PHASE_CONVERGED} \<and> spike_count c' = 1"
    "min_in_flight c' = min_in_flight c"
proof -
  consider "phase c = PHASE_PROBING" "efficiency_ratio s = None"
    | er where "phase c = PHASE_PROBING" "efficiency_ratio s = Some er"
    | "phase c = PHASE_STEADY" | "phase c = PHASE_CONVERGED" using assms(1) by fastforce
  then have "(spike_count c = 1 \<longrightarrow> phase c' = PHASE_BACKOFF) \<and>
    (spike_count c = 0 \<longrightarrow> phase c' = PHASE_SETTLING \<or>
      phase c' \<in> {PHASE_PROBING, PHASE_STEADY, PHASE_CONVERGED} \<and> spike_count c' = 1) \<and>
    min_in_flight c' = min_in_flight c"
    by cases (simp_all add: c'_def assms(2) handler_defs Let_def)
  then show "spike_count c = 1 \<Longrightarrow> phase c' = PHASE_BACKOFF"
    "spike_count c = 0 \<Longrightarrow> phase c' = PHASE_SETTLING \<or>
      phase c' \<in> {PHASE_PROBING, PHASE_STEADY, PHASE_CONVERGED} \<and> spike_count c' = 1"
    "min_in_flight c' = min_in_flight c" by simp_all
qed

lemma reentry_pressed:
  "2 < \<bar>d\<bar> \<Longrightarrow> phase (fst (passthrough_reentry c d)) = phase c \<and>
     spike_count (fst (passthrough_reentry c d)) = spike_count c \<and>
     current_in_flight_limit (fst (passthrough_reentry c d)) = current_in_flight_limit c \<and>
     min_in_flight (fst (passthrough_reentry c d)) = min_in_flight c"
  by (simp add: passthrough_reentry_def)

lemma aimd_tick_pressed:
  fixes c e
  assumes "2 < \<bar>d\<bar>"
  defines "c3 \<equiv> fst (tick_prepare c e)"
  shows "phase (fst (aimd_tick te c e d)) = phase (fst (phase_handler (phase c) c3 (snd (tick_swap_and_compute_stats c e))))"
    "spike_count (fst (aimd_tick te c e d)) = spike_count (fst (phase_handler (phase c) c3 (snd (tick_swap_and_compute_stats c e))))"
    "current_in_flight_limit (fst (aimd_tick te c e d)) =
      current_in_flight_limit (fst (phase_handler (phase c) c3 (snd (tick_swap_and_compute_stats c e))))"
    "min_in_flight (fst (aimd_tick te c e d)) = min_in_flight (fst (phase_handler (phase c) c3 (snd (tick_swap_and_compute_stats c e))))"
  using reentry_pressed[OF assms(1)] unfolding c3_def by (simp_all add: fst_aimd_tick Let_def split_beta)

lemma backoff_tick:
  assumes "phase c = PHASE_BACKOFF"
  shows "phase (fst (aimd_tick te c e d)) = PHASE_SETTLING"
    "current_in_flight_limit (fst (aimd_tick te c e d)) =
      max (min_in_flight c) \<lfloor>real_of_int (current_in_flight_limit c) * 0.80\<rfloor>"
    "entered_via_backoff (fst (aimd_tick te c e d))"
  using assms by (simp_all add: fst_aimd_tick Let_def split_beta handle_backoff_phase_def
      passthrough_reentry_def max_def)

lemma spike_tick:
  fixes te
  assumes "phase c \<in> {PHASE_PROBING, PHASE_STEADY, PHASE_CONVERGED}" "spiking c e" "2 < \<bar>d\<bar>"
  defines "c' \<equiv> fst (aimd_tick te c e d)"
  shows "spike_count c = 1 \<Longrightarrow> phase c' = PHASE_BACKOFF"
    "spike_count c = 0 \<Longrightarrow> phase c' = PHASE_SETTLING \<or>
      phase c' \<in> {PHASE_PROBING, PHASE_STEADY, PHASE_CONVERGED} \<and> spike_count c' = 1"
    "min_in_flight c' = min_in_flight c"
  using spike_handler[of "fst (tick_prepare c e)" "snd (tick_swap_and_compute_stats c e)"] assms(1,2)
    aimd_tick_pressed[OF assms(3), of te c e] unfolding c'_def spiking_def by auto

lemma settling_spike_tick:
  assumes "phase c = PHASE_SETTLING" "spiking c e" "2 < \<bar>d\<bar>"
  shows "phase (fst (aimd_tick te c e d)) = PHASE_BACKOFF"
    "min_in_flight (fst (aimd_tick te c e d)) = min_in_flight c"
  using assms aimd_tick_pressed[OF assms(3), of te c e]
  by (auto simp: spiking_def handle_settling_phase_def)

text \<open>
  Response to a latency spike: when two consecutive ticks with samples see the P99 at
  or above the guard in PROBING, STEADY or CONVERGED, the controller is in BACKOFF after the
  second, and the tick after that cuts the limit to 80\% rounded down (but not below the
  floor) and enters SETTLING marked as coming from a backoff. Completions and submissions
  between the ticks are arbitrary; the pending count moves by more than 2 on the first two, so
  that re-entry into passthrough does not interfere.
\<close>

theorem latency_spike_backs_off:
  assumes "phase c \<in> {PHASE_PROBING, PHASE_STEADY, PHASE_CONVERGED}" and "spike_count c = 0"
    and "spiking c e1" and "2 < \<bar>d1\<bar>" and "2 < \<bar>d2\<bar>"
    and "c1 = intake hp1 b1 n1 s1 (fst (aimd_tick t1 c e1 d1))" and "spiking c1 e2"
    and "c2 = intake hp2 b2 n2 s2 (fst (aimd_tick t2 c1 e2 d2))"
    and "c3 = fst (aimd_tick t3 c2 e3 d3)"
  shows "phase c2 = PHASE_BACKOFF \<and> phase c3 = PHASE_SETTLING \<and> entered_via_backoff c3 \<and>
    current_in_flight_limit c3 =
      max (min_in_flight c) \<lfloor>real_of_int (current_in_flight_limit c2) * 0.80\<rfloor>"
proof -
  have 1: "phase c1 = PHASE_SETTLING \<or>
      phase c1 \<in> {PHASE_PROBING, PHASE_STEADY, PHASE_CONVERGED} \<and> spike_count c1 = 1"
    "min_in_flight c1 = min_in_flight c"
    using spike_tick[OF assms(1,3,4), of t1] assms(2,6) by auto
  have 2: "phase c2 = PHASE_BACKOFF" "min_in_flight c2 = min_in_flight c1"
    using 1 spike_tick[OF _ assms(7,5), of t2] settling_spike_tick[OF _ assms(7,5), of t2]
    unfolding assms(8) by auto
  then show ?thesis using 1(2) backoff_tick[OF 2(1), of t3 e3 d3] unfolding assms(9) by auto
qed

definition slow_pair :: adaptive_histogram_pair where
  "slow_pair = adaptive_hist_pair_init
     \<lparr>histograms := [empty_hist\<lparr>total_count := 20, overflow := 20\<rparr>, empty_hist]\<rparr>"

definition steady_example :: adaptive_controller where
  "steady_example = (the (adaptive_init 0 256 64 4))
     \<lparr>phase := PHASE_STEADY, passthrough_mode := False, current_in_flight_limit := 100,
      max_p99_ms := 10, hist_pair := slow_pair\<rparr>"

lemma slow_pair_stats:
  "snd (hist_rotate slow_pair) = 0" "total_count (histograms (fst (hist_rotate slow_pair)) ! 0) = 20"
  "adaptive_hist_p99 (histograms (fst (hist_rotate slow_pair)) ! 0) = 200"
  by (simp_all add: slow_pair_def hist_rotate_def adaptive_hist_pair_init_def adaptive_hist_swap_def
      flush_pending_reset_def adaptive_hist_p99_def p99_target_def Let_def)

lemma slow_pair_spikes:
  "0 < max_p99_ms c \<Longrightarrow> max_p99_ms c \<le> 200 \<Longrightarrow> hist_pair c = slow_pair \<Longrightarrow> spiking c e"
  by (simp add: spiking_def tick_swap_and_compute_stats_def Let_def split_beta slow_pair_stats
      effective_guard_def)

lemma aimd_tick_max_p99: "max_p99_ms (fst (aimd_tick te c e d)) = max_p99_ms c"
proof -
  have h: "max_p99_ms (fst (phase_handler (phase x) x s)) = max_p99_ms x" for x s
    by (cases "phase x"; cases "efficiency_ratio s") (simp_all add: handler_defs Let_def)
  show ?thesis using h[of "fst (tick_prepare c e)" "snd (tick_swap_and_compute_stats c e)"]
    by (simp add: fst_aimd_tick Let_def split_beta passthrough_reentry_def)
qed

theorem latency_spike_backs_off_witness:
  "let c1 = intake slow_pair 0 0 0 (fst (aimd_tick 200000000 steady_example 100000000 5));
       c2 = intake slow_pair 0 0 0 (fst (aimd_tick 300000000 c1 100000000 5));
       c3 = fst (aimd_tick 400000000 c2 100000000 0)
   in phase c2 = PHASE_BACKOFF \<and> phase c3 = PHASE_SETTLING \<and>
     current_in_flight_limit c3 = max 4 \<lfloor>real_of_int (current_in_flight_limit c2) * 0.80\<rfloor>"
proof -
  let ?c0 = "steady_example"
  let ?c1 = "intake slow_pair 0 0 0 (fst (aimd_tick 200000000 ?c0 100000000 5))"
  have c0: "phase ?c0 = PHASE_STEADY" "spike_count ?c0 = 0" "min_in_flight ?c0 = 4"
      "max_p99_ms ?c0 = 10" "hist_pair ?c0 = slow_pair"
    by (simp_all add: steady_example_def adaptive_init_def)
  have s0: "spiking ?c0 100000000" using c0 by (simp add: slow_pair_spikes)
  have s1: "spiking ?c1 100000000"
    by (rule slow_pair_spikes) (simp_all add: intake_def aimd_tick_max_p99 c0)
  show ?thesis
    using latency_spike_backs_off[OF _ c0(2) s0 _ _ refl s1 refl refl] c0 by (simp add: Let_def)
qed

section \<open>Probing at the queue depth\<close>

type_synonym active_tick = "adaptive_histogram_pair \<times> u64 \<times> int \<times> int \<times> int"

text \<open>A run of active ticks: what was recorded before each, and the tick's clock and pending delta.\<close>

fun active_run :: "active_tick list \<Rightarrow> adaptive_controller \<Rightarrow> adaptive_controller" where
  "active_run [] c = c"
| "active_run ((hp, b, e, d, te) # ts) c = active_run ts (fst (aimd_tick te (intake hp b 0 0 c) e d))"

fun calm_run :: "active_tick list \<Rightarrow> adaptive_controller \<Rightarrow> bool" where
  "calm_run [] c = True"
| "calm_run ((hp, b, e, d, te) # ts) c =
     (\<not> spiking (intake hp b 0 0 c) e \<and> 
      sample_count (snd (tick_swap_and_compute_stats (intake hp b 0 0 c) e)) \<noteq> 0 \<and>
      calm_run ts (fst (aimd_tick te (intake hp b 0 0 c) e d)))"

definition probing_at_depth :: "adaptive_controller \<Rightarrow> bool" where
  "probing_at_depth c \<longleftrightarrow> phase c = PHASE_PROBING \<and> current_in_flight_limit c = max_queue_depth c \<and>
     prev_in_flight_limit c = current_in_flight_limit c"

lemma no_delta_no_ratio:
  "prev_in_flight_limit c = current_in_flight_limit c \<Longrightarrow>
     efficiency_ratio (snd (tick_swap_and_compute_stats c e)) = None"
  by (simp add: tick_swap_and_compute_stats_def Let_def split_beta)

lemma tick_prepare_prev: "prev_in_flight_limit (fst (tick_prepare c e)) = current_in_flight_limit c"
  by (simp add: tick_prepare_def Let_def split_beta)

lemma probing_at_depth_tick:
  assumes "probing_at_depth c" "\<not> spiking c e"
    "sample_count (snd (tick_swap_and_compute_stats c e)) \<noteq> 0"
  shows "probing_at_depth (fst (aimd_tick te c e d)) \<and>
    plateau_count (fst (aimd_tick te c e d)) = plateau_count c + 1"
proof -
  have "efficiency_ratio (snd (tick_swap_and_compute_stats c e)) = None"
    using assms(1) by (intro no_delta_no_ratio) (simp add: probing_at_depth_def)
  then show ?thesis using assms
    by (simp add: probing_at_depth_def spiking_def fst_aimd_tick split_beta Let_def
        handle_probing_phase_def check_spike_backoff_def aimd_increase_eq passthrough_reentry_def
        tick_prepare_prev)
qed

lemma probing_at_depth_run:
  "probing_at_depth c \<Longrightarrow> calm_run ts c \<Longrightarrow>
    probing_at_depth (active_run ts c) \<and>
    plateau_count (active_run ts c) = plateau_count c + int (length ts)"
proof (induction ts c rule: active_run.induct)
  case (2 hp b e d te ts c)
  let ?c = "intake hp b 0 0 c"
  have "probing_at_depth ?c" using 2(2) by (simp add: probing_at_depth_def)
  then have "probing_at_depth (fst (aimd_tick te ?c e d)) \<and>
      plateau_count (fst (aimd_tick te ?c e d)) = plateau_count c + 1"
    using 2(3) probing_at_depth_tick[of ?c e te d] by simp
  then show ?case using 2(1,3) by simp
qed simp

text \<open>
  A controller that has probed up to the queue depth does not settle: as long as no
  tick sees a latency spike it stays in PROBING with the limit at the queue depth however many
  ticks with samples it runs, although every one of them increments the plateau counter, whose
  threshold of 3 only the branch with a finite efficiency ratio tests.
\<close>

theorem probing_at_depth_never_settles:
  assumes "phase c = PHASE_PROBING" and "current_in_flight_limit c = max_queue_depth c"
    and "prev_in_flight_limit c = current_in_flight_limit c" and "calm_run ts c"
  shows "phase (active_run ts c) = PHASE_PROBING \<and>
    current_in_flight_limit (active_run ts c) = max_queue_depth (active_run ts c) \<and>
    plateau_count (active_run ts c) = plateau_count c + int (length ts)"
  using probing_at_depth_run[of c ts] assms by (simp add: probing_at_depth_def)

definition probing_example :: adaptive_controller where
  "probing_example = (the (adaptive_init 0 256 64 4))
     \<lparr>phase := PHASE_PROBING, passthrough_mode := False, current_in_flight_limit := 256,
      prev_in_flight_limit := 256, max_p99_ms := 500\<rparr>"

lemma slow_pair_calm:
  "200 < max_p99_ms c \<Longrightarrow> \<not> spiking (intake slow_pair b 0 0 c) e"
  "sample_count (snd (tick_swap_and_compute_stats (intake slow_pair b 0 0 c) e)) = 20"
  by (simp_all add: spiking_def tick_swap_and_compute_stats_def Let_def split_beta slow_pair_stats
      effective_guard_def intake_def)

theorem probing_at_depth_never_settles_witness:
  "let ts = [(slow_pair, 0, 100000000, 0, 0), (slow_pair, 0, 100000000, 0, 0),
     (slow_pair, 0, 100000000, 0, 0), (slow_pair, 0, 100000000, 0, 0)]
   in phase (active_run ts probing_example) = PHASE_PROBING \<and>
     plateau_count (active_run ts probing_example) = 4"
proof -
  let ?ts = "[(slow_pair, 0, 100000000, 0, 0), (slow_pair, 0, 100000000, 0, 0),
     (slow_pair, 0, 100000000, 0, 0), (slow_pair, 0, 100000000, 0, 0)] :: active_tick list"
  have f: "phase probing_example = PHASE_PROBING" "plateau_count probing_example = 0"
    "current_in_flight_limit probing_example = max_queue_depth probing_example"
    "prev_in_flight_limit probing_example = current_in_flight_limit probing_example"
    "max_p99_ms probing_example = 500"
    by (simp_all add: probing_example_def adaptive_init_def)
  have "max_p99_ms (intake p b n s c) = max_p99_ms c" for p b n s c by (simp add: intake_def)
  then have "calm_run ?ts probing_example"
    by (simp add: slow_pair_calm aimd_tick_max_p99 f)
  then show ?thesis
    using probing_at_depth_never_settles[of probing_example ?ts] f by (simp add: Let_def)
qed

section \<open>Batch threshold\<close>

lemma batch_optimizer_step:
  "\<bar>current_batch_threshold (fst (batch_optimizer c s)) - current_batch_threshold c\<bar> \<le> 1"
  by (simp add: batch_optimizer_def Let_def)

lemma handler_batch:
  "current_batch_threshold (fst (phase_handler (phase c) c s)) = current_batch_threshold c"
  by (cases "phase c"; cases "efficiency_ratio s") (simp_all add: handler_defs Let_def)

lemma tick_batch_step:
  "\<bar>current_batch_threshold (fst (adaptive_tick now tm te c p)) - current_batch_threshold c\<bar> \<le> 1"
proof -
  have a: "\<bar>current_batch_threshold (fst (aimd_tick te c e d)) - current_batch_threshold c\<bar> \<le> 1"
    for c e d
  proof -
    have "current_batch_threshold (fst (aimd_tick te c e d)) =
        current_batch_threshold (fst (tick_prepare c e))"
      using handler_batch[of "fst (tick_prepare c e)" "snd (tick_swap_and_compute_stats c e)"]
      by (simp add: fst_aimd_tick Let_def split_beta passthrough_reentry_def)
    also have "\<dots> = current_batch_threshold (fst (batch_optimizer
        (fst (tick_swap_and_compute_stats c e)) (snd (tick_swap_and_compute_stats c e))))"
      by (simp add: tick_prepare_def Let_def split_beta)
    finally show ?thesis
      using batch_optimizer_step[of "fst (tick_swap_and_compute_stats c e)"] by simp
  qed
  have b: "current_batch_threshold (fst (passthrough_monitor tm te c e d)) = current_batch_threshold c"
    for c e d
    by (simp add: passthrough_monitor_def adaptive_reset_to_baseline_def Let_def split_beta)
  show ?thesis
    using a[of "c\<lparr>prev_pending_snapshot := p\<rparr>"] 
      a[of "c\<lparr>sample_start_ns := now, sample_bytes := 0, submit_calls := 0, sqes_submitted := 0, prev_pending_snapshot := p\<rparr>"] b
    by (auto simp: adaptive_tick_def Let_def)
qed

fun sets_batch :: "ctrl_event \<Rightarrow> bool" where
  "sets_batch (SetBatchThreshold t) = True"
| "sets_batch _ = False"

lemma ctrl_apply_batch:
  "\<not> sets_batch ev \<Longrightarrow> current_batch_threshold c - 1 \<le> current_batch_threshold (ctrl_apply ev c)"
proof (cases ev)
  case (Tick now tm te p)
  then show ?thesis using tick_batch_step[of now tm te c p] by simp
qed (simp_all add: adaptive_record_completion_def adaptive_record_submit_def
      ctrl_set_max_p99_def ctrl_set_min_in_flight_def)

lemma ctrl_run_batch:
  "\<forall>ev \<in> set evs. \<not> sets_batch ev \<Longrightarrow>
     current_batch_threshold c - int (length evs) \<le> current_batch_threshold (fold ctrl_apply evs c)"
proof (induction evs arbitrary: c)
  case (Cons ev evs)
  have "current_batch_threshold (ctrl_apply ev c) - int (length evs) \<le>
      current_batch_threshold (fold ctrl_apply evs (ctrl_apply ev c))"
    using Cons.prems by (intro Cons.IH) simp
  moreover have "current_batch_threshold c - 1 \<le> current_batch_threshold (ctrl_apply ev c)"
    using Cons.prems by (intro ctrl_apply_batch) simp
  ultimately show ?case by simp
qed simp

text \<open>
  Switching the batch threshold to "full batch" (0) and then back to automatic (-1)
  does not restore automatic batching: the threshold is left at INT\_MAX and the optimiser
  moves it by at most one per tick, so after any run of events with \<open>n\<close> of them the threshold
  is still at least INT\_MAX - n.
\<close>

theorem batch_auto_keeps_full_batch:
  assumes "\<forall>ev \<in> set evs. \<not> sets_batch ev"
  shows "INT_MAX - int (length evs) \<le> current_batch_threshold
    (fold ctrl_apply (SetBatchThreshold 0 # SetBatchThreshold (-1) # evs) c)"
  using ctrl_run_batch[OF assms, of "ctrl_set_batch_threshold (-1) (ctrl_set_batch_threshold 0 c)"]
  by (simp add: ctrl_set_batch_threshold_def)

theorem batch_auto_keeps_full_batch_witness:
  "INT_MAX - 2 \<le> current_batch_threshold (fold ctrl_apply [SetBatchThreshold 0,
     SetBatchThreshold (-1), Submit 100, Tick 200000000 0 0 40] (the (adaptive_init 0 256 64 4)))"
  using batch_auto_keeps_full_batch[of "[Submit 100, Tick 200000000 0 0 40]" "the (adaptive_init 0 256 64 4)"]
  by simp



end
