(* ===== verification/Ring.thy ===== *)
theory Ring
  imports Adaptive_Controller
begin

text \<open>
  The io_uring ring of \<^verbatim>\<open>src/engine/src/adaptive_ring.c\<close> and \<^verbatim>\<open>adaptive_ring.h\<close>: request slots
  and their free stack, ring set-up with its retry ladder, the submission operations that
  prepare an SQE and mark a slot in flight, the flush to the kernel and the conditional locks.

  The kernel side is an argument of each operation: whether \<open>io_uring_get_sqe\<close> found a free
  entry, what \<open>io_uring_submit\<close> and \<open>io_uring_queue_init_params\<close> returned. A request pointer
  is the index of its slot, other pointers are numbers with 0 for NULL; the guards against a
  NULL \<open>ctx\<close> or \<open>req\<close> are not modelled, since both are always values here. A result is
  \<open>Inl errno\<close> where the code stores errno and returns -1. A mutex is the number of its
  outstanding acquisitions, so a value above 1 is a self-deadlock.
\<close>

section \<open>Requests\<close>

datatype aura_op_type =
    AURA_OP_READ | AURA_OP_WRITE | AURA_OP_READV | AURA_OP_WRITEV | AURA_OP_FSYNC
  | AURA_OP_FDATASYNC | AURA_OP_CANCEL | AURA_OP_READ_FIXED | AURA_OP_WRITE_FIXED
  | AURA_OP_OPENAT | AURA_OP_CLOSE | AURA_OP_STATX | AURA_OP_FALLOCATE | AURA_OP_FTRUNCATE
  | AURA_OP_SYNC_FILE_RANGE

datatype request_meta =
    MetaNone
  | MetaOpen nat int int
  | MetaStatx nat nat int int
  | MetaFallocate int
  | MetaSyncRange int

record aura_request =
  rq_op_type :: aura_op_type
  rq_fd :: int
  rq_offset :: int
  rq_buffer :: nat
  rq_len :: nat
  rq_buf_index :: int
  rq_iovcnt :: int
  rq_buf_offset :: nat
  rq_iov :: nat
  rq_callback :: nat
  rq_user_data :: nat
  rq_submit_time_ns :: int
  rq_ring_idx :: int
  rq_op_idx :: int
  rq_uses_registered_buffer :: bool
  rq_uses_registered_file :: bool
  rq_pending :: bool
  rq_original_fd :: int
  rq_meta :: request_meta
  rq_in_pool :: bool
  rq_linked :: bool

text \<open>The SQEs, one constructor per \<open>io_uring_prep_*\<close> call the ring makes.\<close>

datatype sqe_prep =
    PrepRead int nat nat int
  | PrepWrite int nat nat int
  | PrepReadv int nat int int
  | PrepWritev int nat int int
  | PrepFsync int bool
  | PrepCancel nat
  | PrepReadFixed int nat nat int int
  | PrepWriteFixed int nat nat int int
  | PrepOpenat int nat int int
  | PrepClose int
  | PrepStatx int nat int int nat
  | PrepFallocate int int int int
  | PrepFtruncate int int
  | PrepSyncFileRange int nat int int

record io_uring_sqe =
  sqe_op :: sqe_prep
  sqe_fixed_file :: bool
  sqe_io_link :: bool
  sqe_user_data :: nat

text \<open>
  The submission queue holds the prepared SQEs the kernel has not consumed; \<open>sq_seq\<close> counts the
  consumed ones, so the SQE at position \<open>i\<close> is number \<open>sq_seq + i\<close>.
\<close>

record io_uring =
  ring_fd :: int
  sq :: "io_uring_sqe list"
  sq_seq :: nat

record ring_ctx =
  ring :: io_uring
  ring_initialized :: bool
  shutting_down :: bool
  sqpoll_enabled :: bool
  cpu_id :: int
  ring_idx :: int
  lock :: int
  cq_lock :: int
  requests :: "aura_request list"
  free_request_stack :: "nat list"
  free_request_count :: nat
  max_requests :: nat
  pending_count :: int
  peak_pending_count :: int
  adaptive :: adaptive_controller
  queued_sqes :: int
  sample_counter :: u32
  bytes_completed :: int
  ops_completed :: int
  fixed_buf_inflight :: u32
  fixed_file_inflight :: u32
  poll_batch_size :: nat
  single_thread :: bool
  st_users :: int
  st_cq_users :: int
  owner_count :: int
  single_issuer_enabled :: bool
  needs_enable :: bool

text \<open>The thread-locals of the calling thread; \<open>tls_last_sqe\<close> names a ring and an SQE number.\<close>

record thread_locals =
  callback_context_depth :: int
  tls_last_sqe :: "(int \<times> nat) option"

abbreviation RING_MIN_POLL_BATCH :: nat where "RING_MIN_POLL_BATCH \<equiv> 16"
abbreviation RING_MAX_POLL_BATCH :: nat where "RING_MAX_POLL_BATCH \<equiv> 128"
abbreviation RING_LATENCY_SAMPLE_MASK :: u32 where "RING_LATENCY_SAMPLE_MASK \<equiv> 7"
abbreviation PASSTHROUGH_SAMPLE_MASK :: u32 where "PASSTHROUGH_SAMPLE_MASK \<equiv> 63"
abbreviation IOV_MAX :: int where "IOV_MAX \<equiv> 1024"

fun op_is_data_transfer :: "aura_op_type \<Rightarrow> bool" where
  "op_is_data_transfer AURA_OP_READ = True"
| "op_is_data_transfer AURA_OP_WRITE = True"
| "op_is_data_transfer AURA_OP_READV = True"
| "op_is_data_transfer AURA_OP_WRITEV = True"
| "op_is_data_transfer AURA_OP_READ_FIXED = True"
| "op_is_data_transfer AURA_OP_WRITE_FIXED = True"
| "op_is_data_transfer _ = False"

definition upd_request :: "nat \<Rightarrow> (aura_request \<Rightarrow> aura_request) \<Rightarrow> ring_ctx \<Rightarrow> ring_ctx" where
  "upd_request i f ctx = ctx\<lparr>requests := (requests ctx)[i := f (requests ctx ! i)]\<rparr>"

section \<open>Conditional locks\<close>

text \<open>
  \<open>ring_lock\<close> returns whether the single-thread path was taken; without an interleaved thread
  the re-check of \<open>single_thread\<close> sees the same value.
\<close>

definition ring_lock :: "ring_ctx \<Rightarrow> bool \<times> ring_ctx" where
  "ring_lock ctx =
     (if single_thread ctx then (True, ctx\<lparr>st_users := st_users ctx + 1\<rparr>)
      else (False, ctx\<lparr>lock := lock ctx + 1\<rparr>))"

definition ring_unlock :: "bool \<Rightarrow> ring_ctx \<Rightarrow> ring_ctx" where
  "ring_unlock st ctx =
     (if st then ctx\<lparr>st_users := st_users ctx - 1\<rparr> else ctx\<lparr>lock := lock ctx - 1\<rparr>)"

text \<open>\<open>ring_trylock\<close> returns the outcome, the snapshot of the flag and the new state.\<close>

definition ring_trylock :: "ring_ctx \<Rightarrow> bool \<times> bool \<times> ring_ctx" where
  "ring_trylock ctx =
     (if single_thread ctx then (True, True, ctx\<lparr>st_users := st_users ctx + 1\<rparr>)
      else if lock ctx = 0 then (True, False, ctx\<lparr>lock := 1\<rparr>)
      else (False, False, ctx))"

definition ring_cq_lock :: "ring_ctx \<Rightarrow> bool \<times> ring_ctx" where
  "ring_cq_lock ctx =
     (if single_thread ctx then (True, ctx\<lparr>st_cq_users := st_cq_users ctx + 1\<rparr>)
      else (False, ctx\<lparr>cq_lock := cq_lock ctx + 1\<rparr>))"

definition ring_cq_unlock :: "bool \<Rightarrow> ring_ctx \<Rightarrow> ring_ctx" where
  "ring_cq_unlock st ctx =
     (if st then ctx\<lparr>st_cq_users := st_cq_users ctx - 1\<rparr> else ctx\<lparr>cq_lock := cq_lock ctx - 1\<rparr>)"

section \<open>Ring life cycle\<close>

record ring_options =
  enable_sqpoll :: bool
  sqpoll_idle_ms :: int
  enable_single_issuer :: bool
  start_disabled :: bool

record io_uring_params =
  p_coop_taskrun :: bool
  p_sqpoll :: bool
  p_sq_thread_idle :: int
  p_single_issuer :: bool
  p_r_disabled :: bool

definition no_params :: io_uring_params where
  "no_params = \<lparr>p_coop_taskrun = False, p_sqpoll = False, p_sq_thread_idle = 0,
     p_single_issuer = False, p_r_disabled = False\<rparr>"

definition apply_sqpoll_params :: "ring_options option \<Rightarrow> io_uring_params \<Rightarrow> io_uring_params" where
  "apply_sqpoll_params options p =
     (case options of
        None \<Rightarrow> p
      | Some opt \<Rightarrow>
          if enable_sqpoll opt
          then p\<lparr>p_sqpoll := True,
                 p_sq_thread_idle := (if sqpoll_idle_ms opt > 0 then sqpoll_idle_ms opt else 1000)\<rparr>
          else p)"

definition apply_single_issuer_params :: "bool \<Rightarrow> bool \<Rightarrow> io_uring_params \<Rightarrow> io_uring_params" where
  "apply_single_issuer_params si rd p =
     (if si then p\<lparr>p_single_issuer := True, p_r_disabled := rd \<or> p_r_disabled p\<rparr> else p)"

text \<open>
  The set-up ladder (lines 134 to 196): the result of the last attempt, whether SQPOLL is on,
  and whether SINGLE\_ISSUER was obtained. \<open>kinit n p\<close> is the kernel's answer to attempt \<open>n\<close>.
\<close>

definition queue_init_ladder ::
    "(nat \<Rightarrow> io_uring_params \<Rightarrow> int) \<Rightarrow> ring_options option \<Rightarrow> int \<times> bool \<times> bool" where
  "queue_init_ladder kinit options =
     (let try_sqpoll = (case options of None \<Rightarrow> False | Some opt \<Rightarrow> enable_sqpoll opt);
          try_si = (case options of None \<Rightarrow> False | Some opt \<Rightarrow> enable_single_issuer opt);
          try_dis = (case options of None \<Rightarrow> False | Some opt \<Rightarrow> start_disabled opt);
          coop = no_params\<lparr>p_coop_taskrun := True\<rparr>;
          ret0 = kinit 0 (apply_single_issuer_params try_si try_dis (apply_sqpoll_params options coop))
      in if ret0 < 0 then
           let ret1 = kinit 1 (apply_sqpoll_params options coop);
               sp1 = (try_sqpoll \<and> ret1 \<ge> 0);
               (ret2, sp2) = (if ret1 < 0
                 then let ret = kinit 2 (apply_sqpoll_params options no_params)
                      in (ret, try_sqpoll \<and> ret \<ge> 0)
                 else (ret1, sp1))
           in if ret2 < 0 \<and> try_sqpoll then (kinit 3 no_params, False, False)
              else (ret2, sp2, False)
         else (ret0, try_sqpoll, try_si))"

definition zero_request :: "nat \<Rightarrow> aura_request" where
  "zero_request i =
     \<lparr>rq_op_type = AURA_OP_READ, rq_fd = 0, rq_offset = 0, rq_buffer = 0, rq_len = 0,
      rq_buf_index = 0, rq_iovcnt = 0, rq_buf_offset = 0, rq_iov = 0, rq_callback = 0,
      rq_user_data = 0, rq_submit_time_ns = 0, rq_ring_idx = 0, rq_op_idx = int i,
      rq_uses_registered_buffer = False, rq_uses_registered_file = False, rq_pending = False,
      rq_original_fd = 0, rq_meta = MetaNone, rq_in_pool = True, rq_linked = False\<rparr>"

definition poll_batch_for :: "nat \<Rightarrow> nat" where
  "poll_batch_for queue_depth =
     (let batch = queue_depth div 4;
          b1 = (if batch < RING_MIN_POLL_BATCH then RING_MIN_POLL_BATCH else batch)
      in if b1 > RING_MAX_POLL_BATCH then RING_MAX_POLL_BATCH else b1)"

definition initial_inflight_for :: "int \<Rightarrow> int" where
  "initial_inflight_for queue_depth =
     (let i0 = c_div queue_depth 4; i1 = (if i0 < 4 then 4 else i0)
      in if i1 > queue_depth then queue_depth else i1)"

text \<open>
  \<open>mutex_ok1\<close> and \<open>mutex_ok2\<close> are the results of the two \<open>pthread_mutex_init\<close> calls,
  \<open>fd\<close> the descriptor of the new ring, \<open>have_requests\<close> and \<open>have_stack\<close> whether the two
  allocations succeeded, \<open>now\<close> the clock. \<open>memset\<close> leaves every other field zero.
\<close>

definition ring_init ::
    "int \<Rightarrow> int \<Rightarrow> (nat \<Rightarrow> io_uring_params \<Rightarrow> int) \<Rightarrow> int \<Rightarrow> bool \<Rightarrow> bool \<Rightarrow> int \<Rightarrow>
     int \<Rightarrow> int \<Rightarrow> ring_options option \<Rightarrow> int + ring_ctx" where
  "ring_init mutex_ok1 mutex_ok2 kinit fd have_requests have_stack now queue_depth cpu options =
     (if queue_depth < 1 then Inl EINVAL
      else if mutex_ok1 \<noteq> 0 then Inl mutex_ok1
      else if mutex_ok2 \<noteq> 0 then Inl mutex_ok2
      else
        let (ret, sqp, got_si) = queue_init_ladder kinit options;
            try_dis = (case options of None \<Rightarrow> False | Some opt \<Rightarrow> start_disabled opt)
        in if ret < 0 then Inl (- ret)
           else if \<not> have_requests then Inl ENOMEM
           else if \<not> have_stack then Inl ENOMEM
           else
             case adaptive_init now queue_depth (initial_inflight_for queue_depth) 4 of
               None \<Rightarrow> Inl EINVAL
             | Some ctrl \<Rightarrow>
                 Inr \<lparr>ring = \<lparr>ring_fd = fd, sq = [], sq_seq = 0\<rparr>, ring_initialized = True,
                   shutting_down = False, sqpoll_enabled = sqp, cpu_id = cpu, ring_idx = 0,
                   lock = 0, cq_lock = 0,
                   requests = map zero_request [0..<nat queue_depth],
                   free_request_stack = [0..<nat queue_depth],
                   free_request_count = nat queue_depth, max_requests = nat queue_depth,
                   pending_count = 0, peak_pending_count = 0, adaptive = ctrl, queued_sqes = 0,
                   sample_counter = 0, bytes_completed = 0, ops_completed = 0,
                   fixed_buf_inflight = 0, fixed_file_inflight = 0,
                   poll_batch_size = poll_batch_for (nat queue_depth),
                   single_thread = False, st_users = 0, st_cq_users = 0, owner_count = 0,
                   single_issuer_enabled = got_si, needs_enable = (got_si \<and> try_dis)\<rparr>)"

definition ring_enable :: "int \<Rightarrow> ring_ctx \<Rightarrow> (int + unit) \<times> ring_ctx" where
  "ring_enable kret ctx =
     (if \<not> ring_initialized ctx then (Inl EINVAL, ctx)
      else if \<not> needs_enable ctx then (Inr (), ctx)
      else if kret < 0 then (Inl (- kret), ctx)
      else (Inr (), ctx\<lparr>needs_enable := False\<rparr>))"

section \<open>Request slots\<close>

definition fresh_request :: "aura_request \<Rightarrow> aura_request" where
  "fresh_request req =
     req\<lparr>rq_offset := 0, rq_buffer := 0, rq_len := 0, rq_buf_index := 0, rq_iovcnt := 0,
         rq_buf_offset := 0, rq_iov := 0, rq_uses_registered_buffer := False,
         rq_uses_registered_file := False, rq_original_fd := -1, rq_in_pool := False,
         rq_linked := False, rq_pending := False\<rparr>"

definition ring_get_request :: "ring_ctx \<Rightarrow> (nat \<times> ring_ctx) option" where
  "ring_get_request ctx =
     (if free_request_count ctx = 0 then None
      else let n = free_request_count ctx - 1; idx = free_request_stack ctx ! n
           in Some (idx, upd_request idx fresh_request (ctx\<lparr>free_request_count := n\<rparr>)))"

definition ring_put_request :: "ring_ctx \<Rightarrow> int \<Rightarrow> ring_ctx" where
  "ring_put_request ctx op_idx =
     (if op_idx < 0 \<or> op_idx \<ge> int (max_requests ctx) then ctx
      else let i = nat op_idx
           in if rq_in_pool (requests ctx ! i) then ctx
              else if rq_pending (requests ctx ! i) then ctx
              else (upd_request i (\<lambda>req. req\<lparr>rq_in_pool := True\<rparr>) ctx)
                     \<lparr>free_request_stack := (free_request_stack ctx)[free_request_count ctx := i],
                      free_request_count := free_request_count ctx + 1\<rparr>)"

section \<open>Submission\<close>

definition sqe_apply_fixed_file :: "aura_request \<Rightarrow> io_uring_sqe \<Rightarrow> io_uring_sqe" where
  "sqe_apply_fixed_file req sqe =
     (if rq_uses_registered_file req then sqe\<lparr>sqe_fixed_file := True\<rparr> else sqe)"

definition sqe_apply_link :: "aura_request \<Rightarrow> io_uring_sqe \<Rightarrow> io_uring_sqe" where
  "sqe_apply_link req sqe = (if rq_linked req then sqe\<lparr>sqe_io_link := True\<rparr> else sqe)"

text \<open>\<open>have_sqe\<close> is whether \<open>io_uring_get_sqe\<close> returned an entry.\<close>

definition submit_get_sqe :: "bool \<Rightarrow> ring_ctx \<Rightarrow> int + unit" where
  "submit_get_sqe have_sqe ctx =
     (if \<not> ring_initialized ctx then Inl EINVAL
      else if shutting_down ctx then Inl ESHUTDOWN
      else if \<not> have_sqe then Inl EBUSY
      else Inr ())"

definition sq_push :: "io_uring_sqe \<Rightarrow> ring_ctx \<Rightarrow> ring_ctx" where
  "sq_push sqe ctx = ctx\<lparr>ring := (ring ctx)\<lparr>sq := sq (ring ctx) @ [sqe]\<rparr>\<rparr>"

definition next_sqe :: "ring_ctx \<Rightarrow> int \<times> nat" where
  "next_sqe ctx = (ring_idx ctx, sq_seq (ring ctx) + length (sq (ring ctx)))"

definition data_finish :: "int \<Rightarrow> aura_op_type \<Rightarrow> nat \<Rightarrow> ring_ctx \<Rightarrow> ring_ctx" where
  "data_finish now op i ctx =
     (let mask = (if adaptive_is_passthrough (adaptive ctx) then PASSTHROUGH_SAMPLE_MASK
                  else RING_LATENCY_SAMPLE_MASK);
          sc = sample_counter ctx
      in (upd_request i (\<lambda>req. req\<lparr>rq_op_type := op,
             rq_submit_time_ns := (if and sc mask = 0 then now else 0), rq_pending := True\<rparr>) ctx)
           \<lparr>sample_counter := sc + 1, queued_sqes := queued_sqes ctx + 1,
            pending_count := pending_count ctx + 1\<rparr>)"

definition meta_finish :: "aura_op_type \<Rightarrow> nat \<Rightarrow> ring_ctx \<Rightarrow> ring_ctx" where
  "meta_finish op i ctx =
     (upd_request i (\<lambda>req. req\<lparr>rq_op_type := op, rq_submit_time_ns := 0, rq_pending := True\<rparr>) ctx)
        \<lparr>queued_sqes := queued_sqes ctx + 1, pending_count := pending_count ctx + 1\<rparr>"

text \<open>The three submission macros. A submission is a result, the thread-locals and the ring.\<close>

type_synonym ring_submission = "(int + unit) \<times> thread_locals \<times> ring_ctx"

definition blank_sqe :: "sqe_prep \<Rightarrow> nat \<Rightarrow> io_uring_sqe" where
  "blank_sqe prep i =
     \<lparr>sqe_op = prep, sqe_fixed_file = False, sqe_io_link = False, sqe_user_data = i\<rparr>"

definition RING_SUBMIT_DATA_OP ::
    "bool \<Rightarrow> int \<Rightarrow> aura_op_type \<Rightarrow> sqe_prep \<Rightarrow> nat \<Rightarrow> thread_locals \<Rightarrow> ring_ctx \<Rightarrow> ring_submission" where
  "RING_SUBMIT_DATA_OP have_sqe now op prep i tls ctx =
     (case submit_get_sqe have_sqe ctx of
        Inl e \<Rightarrow> (Inl e, tls, ctx)
      | Inr _ \<Rightarrow>
          let req = requests ctx ! i;
              sqe = sqe_apply_link req (sqe_apply_fixed_file req (blank_sqe prep i))
          in (Inr (), tls\<lparr>tls_last_sqe := Some (next_sqe ctx)\<rparr>, data_finish now op i (sq_push sqe ctx)))"

definition RING_SUBMIT_META_OP ::
    "bool \<Rightarrow> aura_op_type \<Rightarrow> sqe_prep \<Rightarrow> nat \<Rightarrow> thread_locals \<Rightarrow> ring_ctx \<Rightarrow> ring_submission" where
  "RING_SUBMIT_META_OP have_sqe op prep i tls ctx =
     (case submit_get_sqe have_sqe ctx of
        Inl e \<Rightarrow> (Inl e, tls, ctx)
      | Inr _ \<Rightarrow>
          let req = requests ctx ! i; sqe = sqe_apply_link req (blank_sqe prep i)
          in (Inr (), tls\<lparr>tls_last_sqe := Some (next_sqe ctx)\<rparr>, meta_finish op i (sq_push sqe ctx)))"

definition RING_SUBMIT_META_OP_FIXED ::
    "bool \<Rightarrow> aura_op_type \<Rightarrow> sqe_prep \<Rightarrow> nat \<Rightarrow> thread_locals \<Rightarrow> ring_ctx \<Rightarrow> ring_submission" where
  "RING_SUBMIT_META_OP_FIXED have_sqe op prep i tls ctx =
     (case submit_get_sqe have_sqe ctx of
        Inl e \<Rightarrow> (Inl e, tls, ctx)
      | Inr _ \<Rightarrow>
          let req = requests ctx ! i;
              sqe = sqe_apply_link req (sqe_apply_fixed_file req (blank_sqe prep i))
          in (Inr (), tls\<lparr>tls_last_sqe := Some (next_sqe ctx)\<rparr>, meta_finish op i (sq_push sqe ctx)))"

definition ring_submit_read ::
    "bool \<Rightarrow> int \<Rightarrow> nat \<Rightarrow> thread_locals \<Rightarrow> ring_ctx \<Rightarrow> ring_submission" where
  "ring_submit_read have_sqe now i tls ctx =
     (let req = requests ctx ! i
      in if rq_len req > UINT_MAX then (Inl EINVAL, tls, ctx)
         else RING_SUBMIT_DATA_OP have_sqe now AURA_OP_READ
                (PrepRead (rq_fd req) (rq_buffer req) (rq_len req) (rq_offset req)) i tls ctx)"

definition ring_submit_write ::
    "bool \<Rightarrow> int \<Rightarrow> nat \<Rightarrow> thread_locals \<Rightarrow> ring_ctx \<Rightarrow> ring_submission" where
  "ring_submit_write have_sqe now i tls ctx =
     (let req = requests ctx ! i
      in if rq_len req > UINT_MAX then (Inl EINVAL, tls, ctx)
         else RING_SUBMIT_DATA_OP have_sqe now AURA_OP_WRITE
                (PrepWrite (rq_fd req) (rq_buffer req) (rq_len req) (rq_offset req)) i tls ctx)"

definition ring_submit_readv ::
    "bool \<Rightarrow> int \<Rightarrow> nat \<Rightarrow> thread_locals \<Rightarrow> ring_ctx \<Rightarrow> ring_submission" where
  "ring_submit_readv have_sqe now i tls ctx =
     (let req = requests ctx ! i
      in if rq_iov req = 0 \<or> rq_iovcnt req \<le> 0 \<or> rq_iovcnt req > IOV_MAX then (Inl EINVAL, tls, ctx)
         else RING_SUBMIT_DATA_OP have_sqe now AURA_OP_READV
                (PrepReadv (rq_fd req) (rq_iov req) (rq_iovcnt req) (rq_offset req)) i tls ctx)"

definition ring_submit_writev ::
    "bool \<Rightarrow> int \<Rightarrow> nat \<Rightarrow> thread_locals \<Rightarrow> ring_ctx \<Rightarrow> ring_submission" where
  "ring_submit_writev have_sqe now i tls ctx =
     (let req = requests ctx ! i
      in if rq_iov req = 0 \<or> rq_iovcnt req \<le> 0 \<or> rq_iovcnt req > IOV_MAX then (Inl EINVAL, tls, ctx)
         else RING_SUBMIT_DATA_OP have_sqe now AURA_OP_WRITEV
                (PrepWritev (rq_fd req) (rq_iov req) (rq_iovcnt req) (rq_offset req)) i tls ctx)"

text \<open>A cancel keeps no link target: the thread's last SQE is cleared.\<close>

definition ring_submit_cancel ::
    "bool \<Rightarrow> nat \<Rightarrow> nat \<Rightarrow> thread_locals \<Rightarrow> ring_ctx \<Rightarrow> ring_submission" where
  "ring_submit_cancel have_sqe i target tls ctx =
     (if \<not> rq_pending (requests ctx ! target) then (Inl EALREADY, tls, ctx)
      else case submit_get_sqe have_sqe ctx of
             Inl e \<Rightarrow> (Inl e, tls, ctx)
           | Inr _ \<Rightarrow>
               (Inr (), tls\<lparr>tls_last_sqe := None\<rparr>,
                meta_finish AURA_OP_CANCEL i (sq_push (blank_sqe (PrepCancel target) i) ctx)))"

definition ring_submit_read_fixed ::
    "bool \<Rightarrow> int \<Rightarrow> nat \<Rightarrow> thread_locals \<Rightarrow> ring_ctx \<Rightarrow> ring_submission" where
  "ring_submit_read_fixed have_sqe now i tls ctx =
     (let req = requests ctx ! i
      in if rq_len req > UINT_MAX then (Inl EINVAL, tls, ctx)
         else RING_SUBMIT_DATA_OP have_sqe now AURA_OP_READ_FIXED
                (PrepReadFixed (rq_fd req) (rq_buffer req) (rq_len req) (rq_offset req)
                   (rq_buf_index req)) i tls ctx)"

definition ring_submit_write_fixed ::
    "bool \<Rightarrow> int \<Rightarrow> nat \<Rightarrow> thread_locals \<Rightarrow> ring_ctx \<Rightarrow> ring_submission" where
  "ring_submit_write_fixed have_sqe now i tls ctx =
     (let req = requests ctx ! i
      in if rq_len req > UINT_MAX then (Inl EINVAL, tls, ctx)
         else RING_SUBMIT_DATA_OP have_sqe now AURA_OP_WRITE_FIXED
                (PrepWriteFixed (rq_fd req) (rq_buffer req) (rq_len req) (rq_offset req)
                   (rq_buf_index req)) i tls ctx)"

definition ring_submit_fsync :: "bool \<Rightarrow> nat \<Rightarrow> thread_locals \<Rightarrow> ring_ctx \<Rightarrow> ring_submission" where
  "ring_submit_fsync have_sqe i tls ctx =
     RING_SUBMIT_META_OP_FIXED have_sqe AURA_OP_FSYNC
       (PrepFsync (rq_fd (requests ctx ! i)) False) i tls ctx"

definition ring_submit_fdatasync :: "bool \<Rightarrow> nat \<Rightarrow> thread_locals \<Rightarrow> ring_ctx \<Rightarrow> ring_submission" where
  "ring_submit_fdatasync have_sqe i tls ctx =
     RING_SUBMIT_META_OP_FIXED have_sqe AURA_OP_FDATASYNC
       (PrepFsync (rq_fd (requests ctx ! i)) True) i tls ctx"

text \<open>The union member the operation reads; the caller has stored that member.\<close>

fun open_args :: "request_meta \<Rightarrow> nat \<times> int \<times> int" where
  "open_args (MetaOpen path flags mode) = (path, flags, mode)"
| "open_args _ = (0, 0, 0)"

fun statx_args :: "request_meta \<Rightarrow> nat \<times> int \<times> int \<times> nat" where
  "statx_args (MetaStatx path buf flags msk) = (path, flags, msk, buf)"
| "statx_args _ = (0, 0, 0, 0)"

fun fallocate_mode :: "request_meta \<Rightarrow> int" where
  "fallocate_mode (MetaFallocate mode) = mode"
| "fallocate_mode _ = 0"

fun sync_range_flags :: "request_meta \<Rightarrow> int" where
  "sync_range_flags (MetaSyncRange flags) = flags"
| "sync_range_flags _ = 0"

definition ring_submit_openat :: "bool \<Rightarrow> nat \<Rightarrow> thread_locals \<Rightarrow> ring_ctx \<Rightarrow> ring_submission" where
  "ring_submit_openat have_sqe i tls ctx =
     (let req = requests ctx ! i; (path, flags, mode) = open_args (rq_meta req)
      in RING_SUBMIT_META_OP have_sqe AURA_OP_OPENAT (PrepOpenat (rq_fd req) path flags mode) i tls ctx)"

definition ring_submit_close :: "bool \<Rightarrow> nat \<Rightarrow> thread_locals \<Rightarrow> ring_ctx \<Rightarrow> ring_submission" where
  "ring_submit_close have_sqe i tls ctx =
     RING_SUBMIT_META_OP have_sqe AURA_OP_CLOSE (PrepClose (rq_fd (requests ctx ! i))) i tls ctx"

definition ring_submit_statx :: "bool \<Rightarrow> nat \<Rightarrow> thread_locals \<Rightarrow> ring_ctx \<Rightarrow> ring_submission" where
  "ring_submit_statx have_sqe i tls ctx =
     (let req = requests ctx ! i; (path, flags, msk, buf) = statx_args (rq_meta req)
      in RING_SUBMIT_META_OP have_sqe AURA_OP_STATX (PrepStatx (rq_fd req) path flags msk buf) i tls ctx)"

definition ring_submit_fallocate :: "bool \<Rightarrow> nat \<Rightarrow> thread_locals \<Rightarrow> ring_ctx \<Rightarrow> ring_submission" where
  "ring_submit_fallocate have_sqe i tls ctx =
     (let req = requests ctx ! i
      in if rq_len req > INT64_MAX then (Inl EOVERFLOW, tls, ctx)
         else RING_SUBMIT_META_OP_FIXED have_sqe AURA_OP_FALLOCATE
                (PrepFallocate (rq_fd req) (fallocate_mode (rq_meta req)) (rq_offset req)
                   (int (rq_len req))) i tls ctx)"

text \<open>\<open>have_ftruncate\<close> is the build-time feature test HAVE\_FTRUNCATE\_SUPPORT.\<close>

definition ring_submit_ftruncate ::
    "bool \<Rightarrow> bool \<Rightarrow> nat \<Rightarrow> thread_locals \<Rightarrow> ring_ctx \<Rightarrow> ring_submission" where
  "ring_submit_ftruncate have_ftruncate have_sqe i tls ctx =
     (let req = requests ctx ! i
      in if rq_len req > INT64_MAX then (Inl EOVERFLOW, tls, ctx)
         else if \<not> have_ftruncate then (Inl ENOSYS, tls, ctx)
         else RING_SUBMIT_META_OP_FIXED have_sqe AURA_OP_FTRUNCATE
                (PrepFtruncate (rq_fd req) (int (rq_len req))) i tls ctx)"

definition ring_submit_sync_file_range ::
    "bool \<Rightarrow> nat \<Rightarrow> thread_locals \<Rightarrow> ring_ctx \<Rightarrow> ring_submission" where
  "ring_submit_sync_file_range have_sqe i tls ctx =
     (let req = requests ctx ! i
      in if rq_len req > UINT_MAX then (Inl EINVAL, tls, ctx)
         else RING_SUBMIT_META_OP_FIXED have_sqe AURA_OP_SYNC_FILE_RANGE
                (PrepSyncFileRange (rq_fd req) (rq_len req) (rq_offset req)
                   (sync_range_flags (rq_meta req))) i tls ctx)"

section \<open>Flush\<close>

text \<open>
  \<open>submitted\<close> is the answer of \<open>io_uring_submit\<close>: an errno negated, or how many SQEs the
  kernel consumed from the head of the queue.
\<close>

definition sq_consume :: "int \<Rightarrow> ring_ctx \<Rightarrow> ring_ctx" where
  "sq_consume n ctx =
     ctx\<lparr>ring := (ring ctx)\<lparr>sq := drop (nat n) (sq (ring ctx)),
                           sq_seq := sq_seq (ring ctx) + min (nat n) (length (sq (ring ctx)))\<rparr>\<rparr>"

definition ring_flush :: "int \<Rightarrow> thread_locals \<Rightarrow> ring_ctx \<Rightarrow> (int + int) \<times> thread_locals \<times> ring_ctx" where
  "ring_flush submitted tls ctx =
     (if \<not> ring_initialized ctx then (Inr 0, tls, ctx)
      else let queued = queued_sqes ctx
           in if queued = 0 then (Inr 0, tls, ctx)
              else let tls' = tls\<lparr>tls_last_sqe := None\<rparr>
                   in if submitted < 0 then (Inl (- submitted), tls', ctx)
                      else let c1 = sq_consume submitted ctx;
                               c2 = c1\<lparr>adaptive := adaptive_record_submit (adaptive c1) submitted\<rparr>;
                               old = queued_sqes c2;
                               sub = (if submitted < old then submitted else old);
                               c3 = (if submitted > 0 then c2\<lparr>queued_sqes := old - sub\<rparr> else c2)
                           in (Inr submitted, tls', c3))"

text \<open>The inline variant for single-thread rings skips the check that the ring is set up.\<close>

definition ring_flush_fast ::
    "int \<Rightarrow> thread_locals \<Rightarrow> ring_ctx \<Rightarrow> (int + int) \<times> thread_locals \<times> ring_ctx" where
  "ring_flush_fast submitted tls ctx =
     (let queued = queued_sqes ctx
      in if queued = 0 then (Inr 0, tls, ctx)
         else let tls' = tls\<lparr>tls_last_sqe := None\<rparr>
              in if submitted < 0 then (Inl (- submitted), tls', ctx)
                 else let c1 = sq_consume submitted ctx;
                          c2 = c1\<lparr>adaptive := adaptive_record_submit (adaptive c1) submitted\<rparr>;
                          old = queued_sqes c2;
                          sub = (if submitted < old then submitted else old);
                          c3 = (if submitted > 0 then c2\<lparr>queued_sqes := old - sub\<rparr> else c2)
                      in (Inr submitted, tls', c3))"

section \<open>Admission\<close>

definition ring_can_submit :: "ring_ctx \<Rightarrow> bool" where
  "ring_can_submit ctx =
     (if adaptive_is_passthrough (adaptive ctx) then True
      else pending_count ctx < adaptive_get_inflight_limit (adaptive ctx))"

definition ring_should_flush :: "ring_ctx \<Rightarrow> bool" where
  "ring_should_flush ctx = (queued_sqes ctx \<ge> adaptive_get_batch_threshold (adaptive ctx))"

definition ring_get_fd :: "ring_ctx \<Rightarrow> int" where
  "ring_get_fd ctx = (if \<not> ring_initialized ctx then -1 else ring_fd (ring ctx))"

section \<open>Slot ownership\<close>

text \<open>
  A slot is free (on the stack), pending (owned by the kernel) or held (checked out by a
  submitter or by a completion that has not retired it).
\<close>

definition free_slots :: "ring_ctx \<Rightarrow> nat set" where
  "free_slots ctx = set (take (free_request_count ctx) (free_request_stack ctx))"

definition pending_slots :: "ring_ctx \<Rightarrow> nat set" where
  "pending_slots ctx = {i. i < max_requests ctx \<and> rq_pending (requests ctx ! i)}"

definition held_slots :: "ring_ctx \<Rightarrow> nat set" where
  "held_slots ctx = {i. i < max_requests ctx \<and> \<not> rq_in_pool (requests ctx ! i) \<and>
     \<not> rq_pending (requests ctx ! i)}"

definition slots_wf :: "ring_ctx \<Rightarrow> bool" where
  "slots_wf ctx \<longleftrightarrow>
     length (requests ctx) = max_requests ctx \<and>
     length (free_request_stack ctx) = max_requests ctx \<and>
     free_request_count ctx \<le> max_requests ctx \<and>
     distinct (take (free_request_count ctx) (free_request_stack ctx)) \<and>
     free_slots ctx = {i. i < max_requests ctx \<and> rq_in_pool (requests ctx ! i)} \<and>
     free_slots ctx \<inter> pending_slots ctx = {} \<and>
     (\<forall>i < max_requests ctx. rq_op_idx (requests ctx ! i) = int i)"

lemma slots_partition:
  assumes "slots_wf ctx"
  shows "free_slots ctx \<union> held_slots ctx \<union> pending_slots ctx = {..<max_requests ctx}"
    "free_slots ctx \<inter> held_slots ctx = {}" "free_slots ctx \<inter> pending_slots ctx = {}"
    "held_slots ctx \<inter> pending_slots ctx = {}"
  using assms by (auto simp: slots_wf_def held_slots_def pending_slots_def)

lemma finite_slots [simp]: "finite (free_slots ctx)" "finite (pending_slots ctx)" "finite (held_slots ctx)"
  by (auto simp: free_slots_def pending_slots_def held_slots_def)

lemma card_free_slots: "slots_wf ctx \<Longrightarrow> card (free_slots ctx) = free_request_count ctx"
  unfolding free_slots_def by (subst distinct_card) (auto simp: slots_wf_def)

lemma upd_request_frame [simp]:
  "max_requests (upd_request i f c) = max_requests c"
  "free_request_stack (upd_request i f c) = free_request_stack c"
  "free_request_count (upd_request i f c) = free_request_count c"
  "length (requests (upd_request i f c)) = length (requests c)"
  "pending_count (upd_request i f c) = pending_count c"
  "queued_sqes (upd_request i f c) = queued_sqes c"
  "ring (upd_request i f c) = ring c"
  "adaptive (upd_request i f c) = adaptive c"
  by (simp_all add: upd_request_def)

lemma requests_upd_request:
  "i < length (requests c) \<Longrightarrow>
     requests (upd_request i f c) ! j = (if j = i then f (requests c ! i) else requests c ! j)"
  by (simp add: upd_request_def)

lemma slots_upd_request:
  assumes "i < max_requests c" "length (requests c) = max_requests c"
  shows "pending_slots (upd_request i f c) =
      (if rq_pending (f (requests c ! i)) then insert i (pending_slots c) else pending_slots c - {i})"
    "held_slots (upd_request i f c) =
      (if \<not> rq_in_pool (f (requests c ! i)) \<and> \<not> rq_pending (f (requests c ! i))
       then insert i (held_slots c) else held_slots c - {i})"
    "free_slots (upd_request i f c) = free_slots c"
  using assms
  by (auto simp: pending_slots_def held_slots_def free_slots_def requests_upd_request)

text \<open>An update that keeps a slot's owner and its index keeps the invariant.\<close>

lemma slots_wf_upd_same:
  assumes "slots_wf c" "i < max_requests c"
    "rq_in_pool (f (requests c ! i)) = rq_in_pool (requests c ! i)"
    "rq_in_pool (requests c ! i) \<Longrightarrow> \<not> rq_pending (f (requests c ! i))"
    "rq_op_idx (f (requests c ! i)) = rq_op_idx (requests c ! i)"
  shows "slots_wf (upd_request i f c)"
  using assms slots_upd_request[of i c f]
  by (auto simp: slots_wf_def requests_upd_request)

lemma slots_cong:
  assumes "requests c' = requests c" "free_request_stack c' = free_request_stack c"
    "free_request_count c' = free_request_count c" "max_requests c' = max_requests c"
  shows "slots_wf c' = slots_wf c" "free_slots c' = free_slots c" "held_slots c' = held_slots c"
    "pending_slots c' = pending_slots c"
  using assms by (simp_all add: slots_wf_def free_slots_def held_slots_def pending_slots_def)

section \<open>The slot pool interface\<close>

text \<open>
  What the submission and completion paths rely on: \<open>get\<close> hands out a free slot and
  \<open>put\<close> takes back a held one and ignores any other, so a double return or the return of a
  slot still in flight is harmless.
\<close>

locale slot_pool =
  fixes get :: "'s \<Rightarrow> (nat \<times> 's) option"
    and put :: "'s \<Rightarrow> nat \<Rightarrow> 's"
    and wf :: "'s \<Rightarrow> bool"
    and free held busy :: "'s \<Rightarrow> nat set"
  assumes finite_free: "finite (free s)"
    and disjoint: "wf s \<Longrightarrow> free s \<inter> held s = {}"
    and get_none: "wf s \<Longrightarrow> get s = None \<longleftrightarrow> free s = {}"
    and get_wf: "wf s \<Longrightarrow> get s = Some (i, s') \<Longrightarrow> wf s'"
    and get_free: "wf s \<Longrightarrow> get s = Some (i, s') \<Longrightarrow> i \<in> free s \<and> free s' = free s - {i}"
    and get_held: "wf s \<Longrightarrow> get s = Some (i, s') \<Longrightarrow> held s' = insert i (held s) \<and> busy s' = busy s"
    and put_wf: "wf s \<Longrightarrow> wf (put s i)"
    and put_held: "wf s \<Longrightarrow> i \<in> held s \<Longrightarrow> free (put s i) = insert i (free s) \<and>
          held (put s i) = held s - {i} \<and> busy (put s i) = busy s"
    and put_ignored: "wf s \<Longrightarrow> i \<notin> held s \<Longrightarrow> put s i = s"
begin

lemma get_put_sets:
  assumes "wf s" "get s = Some (i, s')"
  shows "free (put s' i) = free s" "held (put s' i) = held s" "busy (put s' i) = busy s"
proof -
  have w: "wf s'" and f: "i \<in> free s" "free s' = free s - {i}"
    and h: "held s' = insert i (held s)" "busy s' = busy s"
    using assms get_wf get_free get_held by blast+
  have "i \<notin> held s" using disjoint[OF assms(1)] f by blast
  then show "free (put s' i) = free s" "held (put s' i) = held s" "busy (put s' i) = busy s"
    using put_held[OF w, of i] f h by auto
qed

lemma double_put: "wf s \<Longrightarrow> i \<in> held s \<Longrightarrow> put (put s i) i = put s i"
  using put_wf[of s i] put_held[of s i] put_ignored[of "put s i" i] by simp

lemma put_all:
  assumes "wf s" "distinct is" "set is \<subseteq> held s"
  shows "wf (foldl put s is) \<and> free (foldl put s is) = free s \<union> set is \<and>
    held (foldl put s is) = held s - set is \<and> busy (foldl put s is) = busy s"
  using assms
proof (induction "is" arbitrary: s)
  case (Cons i "is")
  have "wf (put s i)" "free (put s i) = insert i (free s)" "held (put s i) = held s - {i}"
      "busy (put s i) = busy s"
    using put_wf put_held Cons.prems by auto
  then show ?case using Cons.IH[of "put s i"] Cons.prems by auto
qed simp

end

text \<open>Checking out up to \<open>n\<close> slots in a row.\<close>

fun take_slots :: "('s \<Rightarrow> (nat \<times> 's) option) \<Rightarrow> nat \<Rightarrow> 's \<Rightarrow> nat list \<times> 's" where
  "take_slots get 0 s = ([], s)"
| "take_slots get (Suc n) s =
     (case get s of
        None \<Rightarrow> ([], s)
      | Some (i, s') \<Rightarrow> let (is, s'') = take_slots get n s' in (i # is, s''))"

context slot_pool
begin

lemma take_slots_props:
  assumes "wf s" "take_slots get n s = (is, s')"
  shows "wf s' \<and> distinct is \<and> set is \<subseteq> free s \<and> free s' = free s - set is \<and>
    held s' = held s \<union> set is \<and> busy s' = busy s \<and> length is = min n (card (free s))"
  using assms
proof (induction n arbitrary: s "is" s')
  case (Suc n)
  show ?case
  proof (cases "get s")
    case None
    moreover from None have "free s = {}" using get_none[OF Suc.prems(1)] by simp
    ultimately show ?thesis using Suc.prems by simp
  next
    case (Some p)
    then obtain i t where g: "get s = Some (i, t)" by (cases p) auto
    obtain js where r: "take_slots get n t = (js, s')" "is = i # js"
      using Suc.prems(2) g by (auto split: prod.splits)
    have t: "wf t" "i \<in> free s" "free t = free s - {i}" "held t = insert i (held s)" "busy t = busy s"
      using g Suc.prems(1) get_wf get_free get_held by blast+
    have "card (free t) = card (free s) - 1" "0 < card (free s)"
      using t finite_free[of s] by (auto simp: card_gt_0_iff)
    then show ?thesis using Suc.IH[OF t(1) r(1)] t r(2) by auto
  qed
qed auto

end

lemma fresh_request_flags [simp]:
  "\<not> rq_in_pool (fresh_request q)" "\<not> rq_pending (fresh_request q)"
  "rq_op_idx (fresh_request q) = rq_op_idx q"
  by (simp_all add: fresh_request_def)

lemma ring_get_request_slots:
  assumes w: "slots_wf c" and g: "ring_get_request c = Some (i, c')"
  shows "slots_wf c'" "i \<in> free_slots c" "free_slots c' = free_slots c - {i}"
    "held_slots c' = insert i (held_slots c)" "pending_slots c' = pending_slots c"
    "max_requests c' = max_requests c"
proof -
  let ?n = "free_request_count c - 1" and ?d = "c\<lparr>free_request_count := free_request_count c - 1\<rparr>"
  have n: "0 < free_request_count c" "i = free_request_stack c ! ?n"
      "c' = upd_request i fresh_request ?d"
    using g by (auto simp: ring_get_request_def Let_def split: if_splits)
  have len: "length (free_request_stack c) = max_requests c" "free_request_count c \<le> max_requests c"
      "length (requests c) = max_requests c" using w by (auto simp: slots_wf_def)
  have take: "take (free_request_count c) (free_request_stack c) =
      take ?n (free_request_stack c) @ [i]"
    using n len by (metis Suc_pred' take_Suc_conv_app_nth less_le_trans diff_less zero_less_one)
  then show i: "i \<in> free_slots c" by (simp add: free_slots_def)
  have fr: "free_slots ?d = free_slots c - {i}"
    using take w by (auto simp: free_slots_def slots_wf_def)
  have im: "i < max_requests c" "\<not> rq_pending (requests c ! i)" "rq_in_pool (requests c ! i)"
    using i w by (auto simp: slots_wf_def pending_slots_def)
  have up: "pending_slots c' = pending_slots ?d - {i}" "held_slots c' = insert i (held_slots ?d)"
      "free_slots c' = free_slots ?d"
    using slots_upd_request[of i ?d fresh_request] im len n(3) by auto
  show "free_slots c' = free_slots c - {i}" using up fr by simp
  show "held_slots c' = insert i (held_slots c)" using up by (auto simp: held_slots_def)
  show p: "pending_slots c' = pending_slots c" using up im by (auto simp: pending_slots_def)
  show "max_requests c' = max_requests c" using n by simp
  have "rq_in_pool (requests c' ! j) \<longleftrightarrow> rq_in_pool (requests c ! j) \<and> j \<noteq> i"
    "rq_op_idx (requests c' ! j) = rq_op_idx (requests c ! j)" for j
    using n(3) im len by (auto simp: requests_upd_request)
  then show "slots_wf c'"
    using w len take up(3) fr p n by (auto simp: slots_wf_def)
qed

lemma ring_put_request_held:
  assumes w: "slots_wf c" and h: "i \<in> held_slots c"
  shows "slots_wf (ring_put_request c (int i))"
    "free_slots (ring_put_request c (int i)) = insert i (free_slots c)"
    "held_slots (ring_put_request c (int i)) = held_slots c - {i}"
    "pending_slots (ring_put_request c (int i)) = pending_slots c"
    "max_requests (ring_put_request c (int i)) = max_requests c"
proof -
  let ?n = "free_request_count c" and ?u = "upd_request i (\<lambda>q. q\<lparr>rq_in_pool := True\<rparr>) c"
  let ?p = "ring_put_request c (int i)"
  have i: "i < max_requests c" "\<not> rq_in_pool (requests c ! i)" "\<not> rq_pending (requests c ! i)"
    using h by (auto simp: held_slots_def)
  have len: "length (free_request_stack c) = max_requests c" "length (requests c) = max_requests c"
    "card (free_slots c) = ?n" "i \<notin> free_slots c" "free_slots c \<subseteq> {..<max_requests c}"
    using w i card_free_slots by (auto simp: slots_wf_def)
  have lt: "?n < max_requests c"
    using psubset_card_mono[of "{..<max_requests c}" "free_slots c"] len i by auto
  have p: "?p = ?u\<lparr>free_request_stack := (free_request_stack c)[?n := i],
      free_request_count := ?n + 1\<rparr>"
    using i by (simp add: ring_put_request_def Let_def)
  have take: "take (?n + 1) ((free_request_stack c)[?n := i]) = take ?n (free_request_stack c) @ [i]"
    using lt len by (simp add: take_Suc_conv_app_nth)
  show fr: "free_slots ?p = insert i (free_slots c)"
    unfolding p using take by (auto simp: free_slots_def)
  have up: "pending_slots ?u = pending_slots c - {i}" "held_slots ?u = held_slots c - {i}"
    using slots_upd_request[of i c] i len by auto
  show hd: "held_slots ?p = held_slots c - {i}" unfolding p using up by (simp add: held_slots_def)
  show pe: "pending_slots ?p = pending_slots c"
    unfolding p using up i by (auto simp: pending_slots_def)
  show "max_requests ?p = max_requests c" unfolding p by simp
  have "rq_in_pool (requests ?p ! j) \<longleftrightarrow> rq_in_pool (requests c ! j) \<or> j = i"
    "rq_op_idx (requests ?p ! j) = rq_op_idx (requests c ! j)" for j
    unfolding p using i len by (auto simp: requests_upd_request)
  moreover have "distinct (take (?n + 1) ((free_request_stack c)[?n := i]))"
    unfolding take using w len by (auto simp: slots_wf_def free_slots_def)
  moreover have "free_slots ?p \<inter> pending_slots ?p = {}"
    unfolding fr pe using w i by (auto simp: slots_wf_def pending_slots_def)
  ultimately show "slots_wf ?p"
    using w lt i fr unfolding slots_wf_def by (auto simp: p)
qed

lemma ring_put_request_ignored:
  assumes "slots_wf c" "i \<notin> held_slots c"
  shows "ring_put_request c (int i) = c"
  using assms by (auto simp: ring_put_request_def held_slots_def Let_def)

lemma ring_get_request_none: "slots_wf c \<Longrightarrow> ring_get_request c = None \<longleftrightarrow> free_slots c = {}"
  using card_free_slots[of c] by (auto simp: ring_get_request_def Let_def)

interpretation ring_pool: slot_pool ring_get_request "\<lambda>c i. ring_put_request c (int i)"
    slots_wf free_slots held_slots pending_slots
proof unfold_locales
  fix c c' :: ring_ctx and i
  show "slots_wf c \<Longrightarrow> slots_wf (ring_put_request c (int i))"
    by (cases "i \<in> held_slots c") (simp_all add: ring_put_request_held ring_put_request_ignored)
qed (auto simp: ring_get_request_none ring_put_request_ignored slots_partition(2) ring_put_request_held
    dest: ring_get_request_slots)

section \<open>The ring invariant\<close>

text \<open>
  Slots are well formed, the submission counter matches the queue of prepared SQEs, no lock is
  outstanding beyond what the invariant's caller holds, and the in-flight count exceeds the
  number of pending slots by exactly \<open>k\<close>, the completions whose slots are not retired yet.
\<close>

definition ring_inv :: "int \<Rightarrow> ring_ctx \<Rightarrow> bool" where
  "ring_inv k ctx \<longleftrightarrow> slots_wf ctx \<and> pending_count ctx = int (card (pending_slots ctx)) + k \<and>
     queued_sqes ctx = int (length (sq (ring ctx)))"

lemma ring_inv_cong:
  assumes "requests c' = requests c" "free_request_stack c' = free_request_stack c"
    "free_request_count c' = free_request_count c" "max_requests c' = max_requests c"
    "pending_count c' = pending_count c" "queued_sqes c' = queued_sqes c" "ring c' = ring c"
  shows "ring_inv k c' = ring_inv k c"
  using slots_cong[OF assms(1-4)] assms by (simp add: ring_inv_def)

lemma initial_slots:
  "map zero_request [0..<n] ! i = (if i < n then zero_request i else map zero_request [0..<n] ! i)"
  by simp

lemma ring_init_inv:
  assumes "ring_init m1 m2 kinit fd hr hs now qd cpu opt = Inr c"
  shows "ring_inv 0 c" "free_slots c = {..<nat qd}" "max_requests c = nat qd" "0 < qd"
    "poll_batch_size c = poll_batch_for (nat qd)" "lock c = 0" "cq_lock c = 0"
    "adaptive_init now qd (initial_inflight_for qd) 4 = Some (adaptive c)"
    "ring_initialized c" "\<not> shutting_down c"
proof -
  from assms obtain ret sqp si ctrl where
    q: "\<not> qd < 1" and l: "queue_init_ladder kinit opt = (ret, sqp, si)" and
    a: "adaptive_init now qd (initial_inflight_for qd) 4 = Some ctrl"
    by (cases "queue_init_ladder kinit opt")
      (auto simp: ring_init_def Let_def split: if_splits option.splits)
  have c: "requests c = map zero_request [0..<nat qd]" "free_request_stack c = [0..<nat qd]"
      "free_request_count c = nat qd" "max_requests c = nat qd" "pending_count c = 0"
      "queued_sqes c = 0" "sq (ring c) = []" "poll_batch_size c = poll_batch_for (nat qd)"
      "lock c = 0" "cq_lock c = 0" "adaptive c = ctrl" "ring_initialized c" "\<not> shutting_down c"
    using assms l a by (auto simp: ring_init_def Let_def split: if_splits)
  show fr: "free_slots c = {..<nat qd}" using c by (auto simp: free_slots_def)
  have pe: "pending_slots c = {}" using c by (auto simp: pending_slots_def zero_request_def)
  have "slots_wf c" unfolding slots_wf_def fr pe using c by (auto simp: zero_request_def)
  then show "ring_inv 0 c" using pe c by (simp add: ring_inv_def)
  show "max_requests c = nat qd" "0 < qd" "poll_batch_size c = poll_batch_for (nat qd)"
    "lock c = 0" "cq_lock c = 0" "ring_initialized c" "\<not> shutting_down c" using c q by auto
  show "adaptive_init now qd (initial_inflight_for qd) 4 = Some (adaptive c)" using a c by simp
qed

lemma poll_batch_bounds: "16 \<le> poll_batch_for n \<and> poll_batch_for n \<le> 128"
  by (simp add: poll_batch_for_def Let_def)

lemma initial_inflight_bounds:
  "1 \<le> q \<Longrightarrow> 1 \<le> initial_inflight_for q \<and> initial_inflight_for q \<le> q"
  by (simp add: initial_inflight_for_def Let_def c_div_nonneg)

lemma ring_init_ctrl_wf:
  assumes "ring_init m1 m2 kinit fd hr hs now qd cpu opt = Inr c" "4 \<le> qd"
  shows "ctrl_wf (adaptive c)"
  using adaptive_init_wf[OF ring_init_inv(8)[OF assms(1)]] assms(2) initial_inflight_bounds[of qd]
  by simp

section \<open>Submission moves a held slot to the kernel\<close>

text \<open>
  The state a successful submission leaves: the SQE queued, the slot stamped and marked
  pending, both counters up by one; \<open>sc\<close> is the new sampling counter.
\<close>

definition in_flight ::
    "aura_op_type \<Rightarrow> int \<Rightarrow> u32 \<Rightarrow> io_uring_sqe \<Rightarrow> nat \<Rightarrow> ring_ctx \<Rightarrow> ring_ctx" where
  "in_flight op ts sc sqe i c =
     (upd_request i (\<lambda>req. req\<lparr>rq_op_type := op, rq_submit_time_ns := ts, rq_pending := True\<rparr>)
        (sq_push sqe c))
       \<lparr>sample_counter := sc, queued_sqes := queued_sqes c + 1, pending_count := pending_count c + 1\<rparr>"

lemma data_finish_in_flight:
  "\<exists>ts. data_finish now op i (sq_push sqe c) = in_flight op ts (sample_counter c + 1) sqe i c"
  unfolding data_finish_def in_flight_def sq_push_def Let_def
  by (auto simp: upd_request_def)

lemma meta_finish_in_flight:
  "meta_finish op i (sq_push sqe c) = in_flight op 0 (sample_counter c) sqe i c"
  unfolding meta_finish_def in_flight_def sq_push_def Let_def
  by (simp add: upd_request_def)

text \<open>The outcome of every submission operation on slot \<open>i\<close>.\<close>

inductive submits :: "aura_op_type \<Rightarrow> nat \<Rightarrow> thread_locals \<Rightarrow> ring_ctx \<Rightarrow> ring_submission \<Rightarrow> bool"
  for op i tls c where
  refused: "submits op i tls c (Inl e, tls, c)"
| accepted: "ring_initialized c \<Longrightarrow> \<not> shutting_down c \<Longrightarrow> sqe_user_data sqe = i \<Longrightarrow>
    sqe_fixed_file sqe = (rq_uses_registered_file (requests c ! i) \<and>
      op \<notin> {AURA_OP_OPENAT, AURA_OP_CLOSE, AURA_OP_STATX, AURA_OP_CANCEL}) \<Longrightarrow>
    sqe_io_link sqe = (rq_linked (requests c ! i) \<and> op \<noteq> AURA_OP_CANCEL) \<Longrightarrow>
    tls' = tls\<lparr>tls_last_sqe := (if op = AURA_OP_CANCEL then None else Some (next_sqe c))\<rparr> \<Longrightarrow>
    submits op i tls c (Inr (), tls', in_flight op ts sc sqe i c)"

named_theorems submit_intros \<open>outcomes of the submission operations\<close>

lemma submit_get_sqe_cases:
  "submit_get_sqe h c = Inr u \<Longrightarrow> ring_initialized c \<and> \<not> shutting_down c"
  by (auto simp: submit_get_sqe_def split: if_splits)

lemma submits_data [submit_intros]:
  assumes "op \<notin> {AURA_OP_OPENAT, AURA_OP_CLOSE, AURA_OP_STATX, AURA_OP_CANCEL}"
  shows "submits op i tls c (RING_SUBMIT_DATA_OP h now op prep i tls c)"
proof (cases "submit_get_sqe h c")
  case (Inr u)
  define sqe where "sqe = sqe_apply_link (requests c ! i)
      (sqe_apply_fixed_file (requests c ! i) (blank_sqe prep i))"
  obtain ts where "data_finish now op i (sq_push sqe c) = in_flight op ts (sample_counter c + 1) sqe i c"
    using data_finish_in_flight by blast
  then have "RING_SUBMIT_DATA_OP h now op prep i tls c =
      (Inr (), tls\<lparr>tls_last_sqe := Some (next_sqe c)\<rparr>, in_flight op ts (sample_counter c + 1) sqe i c)"
    using Inr by (simp add: RING_SUBMIT_DATA_OP_def sqe_def Let_def)
  moreover have "sqe_user_data sqe = i" "sqe_fixed_file sqe = rq_uses_registered_file (requests c ! i)"
      "sqe_io_link sqe = rq_linked (requests c ! i)"
    by (simp_all add: sqe_def sqe_apply_link_def sqe_apply_fixed_file_def blank_sqe_def)
  ultimately show ?thesis using submit_get_sqe_cases[OF Inr] assms by (auto intro: submits.accepted)
qed (simp add: RING_SUBMIT_DATA_OP_def submits.refused)

lemma submits_meta [submit_intros]:
  assumes "op \<in> {AURA_OP_OPENAT, AURA_OP_CLOSE, AURA_OP_STATX}"
  shows "submits op i tls c (RING_SUBMIT_META_OP h op prep i tls c)"
proof (cases "submit_get_sqe h c")
  case (Inr u)
  define sqe where "sqe = sqe_apply_link (requests c ! i) (blank_sqe prep i)"
  have "RING_SUBMIT_META_OP h op prep i tls c =
      (Inr (), tls\<lparr>tls_last_sqe := Some (next_sqe c)\<rparr>, in_flight op 0 (sample_counter c) sqe i c)"
    using Inr by (simp add: RING_SUBMIT_META_OP_def sqe_def Let_def meta_finish_in_flight)
  moreover have "sqe_user_data sqe = i" "\<not> sqe_fixed_file sqe"
      "sqe_io_link sqe = rq_linked (requests c ! i)"
    by (simp_all add: sqe_def sqe_apply_link_def blank_sqe_def)
  ultimately show ?thesis using submit_get_sqe_cases[OF Inr] assms by (auto intro: submits.accepted)
qed (simp add: RING_SUBMIT_META_OP_def submits.refused)

lemma submits_meta_fixed [submit_intros]:
  assumes "op \<notin> {AURA_OP_OPENAT, AURA_OP_CLOSE, AURA_OP_STATX, AURA_OP_CANCEL}"
  shows "submits op i tls c (RING_SUBMIT_META_OP_FIXED h op prep i tls c)"
proof (cases "submit_get_sqe h c")
  case (Inr u)
  define sqe where "sqe = sqe_apply_link (requests c ! i)
      (sqe_apply_fixed_file (requests c ! i) (blank_sqe prep i))"
  have "RING_SUBMIT_META_OP_FIXED h op prep i tls c =
      (Inr (), tls\<lparr>tls_last_sqe := Some (next_sqe c)\<rparr>, in_flight op 0 (sample_counter c) sqe i c)"
    using Inr by (simp add: RING_SUBMIT_META_OP_FIXED_def sqe_def Let_def meta_finish_in_flight)
  moreover have "sqe_user_data sqe = i" "sqe_fixed_file sqe = rq_uses_registered_file (requests c ! i)"
      "sqe_io_link sqe = rq_linked (requests c ! i)"
    by (simp_all add: sqe_def sqe_apply_link_def sqe_apply_fixed_file_def blank_sqe_def)
  ultimately show ?thesis using submit_get_sqe_cases[OF Inr] assms by (auto intro: submits.accepted)
qed (simp add: RING_SUBMIT_META_OP_FIXED_def submits.refused)

lemma submits_cancel [submit_intros]:
  "submits AURA_OP_CANCEL i tls c (ring_submit_cancel h i target tls c)"
proof (cases "rq_pending (requests c ! target)")
  case True
  show ?thesis
  proof (cases "submit_get_sqe h c")
    case (Inr u)
    then show ?thesis
      using True submit_get_sqe_cases[OF Inr] submits.accepted[of c "blank_sqe (PrepCancel target) i" i AURA_OP_CANCEL]
      by (simp add: ring_submit_cancel_def meta_finish_in_flight blank_sqe_def)
  qed (simp add: ring_submit_cancel_def True submits.refused)
qed (simp add: ring_submit_cancel_def submits.refused)

text \<open>The submission operations by operation type; only a cancel reads its target.\<close>

fun ring_submit_op ::
    "aura_op_type \<Rightarrow> nat \<Rightarrow> bool \<Rightarrow> bool \<Rightarrow> int \<Rightarrow> nat \<Rightarrow> thread_locals \<Rightarrow> ring_ctx \<Rightarrow> ring_submission" where
  "ring_submit_op AURA_OP_READ target ft h now i tls c = ring_submit_read h now i tls c"
| "ring_submit_op AURA_OP_WRITE target ft h now i tls c = ring_submit_write h now i tls c"
| "ring_submit_op AURA_OP_READV target ft h now i tls c = ring_submit_readv h now i tls c"
| "ring_submit_op AURA_OP_WRITEV target ft h now i tls c = ring_submit_writev h now i tls c"
| "ring_submit_op AURA_OP_FSYNC target ft h now i tls c = ring_submit_fsync h i tls c"
| "ring_submit_op AURA_OP_FDATASYNC target ft h now i tls c = ring_submit_fdatasync h i tls c"
| "ring_submit_op AURA_OP_CANCEL target ft h now i tls c = ring_submit_cancel h i target tls c"
| "ring_submit_op AURA_OP_READ_FIXED target ft h now i tls c = ring_submit_read_fixed h now i tls c"
| "ring_submit_op AURA_OP_WRITE_FIXED target ft h now i tls c = ring_submit_write_fixed h now i tls c"
| "ring_submit_op AURA_OP_OPENAT target ft h now i tls c = ring_submit_openat h i tls c"
| "ring_submit_op AURA_OP_CLOSE target ft h now i tls c = ring_submit_close h i tls c"
| "ring_submit_op AURA_OP_STATX target ft h now i tls c = ring_submit_statx h i tls c"
| "ring_submit_op AURA_OP_FALLOCATE target ft h now i tls c = ring_submit_fallocate h i tls c"
| "ring_submit_op AURA_OP_FTRUNCATE target ft h now i tls c = ring_submit_ftruncate ft h i tls c"
| "ring_submit_op AURA_OP_SYNC_FILE_RANGE target ft h now i tls c = ring_submit_sync_file_range h i tls c"

lemma submits_op: "submits op i tls c (ring_submit_op op target ft h now i tls c)"
  by (cases op) (simp_all add: ring_submit_read_def ring_submit_write_def ring_submit_readv_def
      ring_submit_writev_def ring_submit_fsync_def ring_submit_fdatasync_def
      ring_submit_read_fixed_def ring_submit_write_fixed_def ring_submit_openat_def
      ring_submit_close_def ring_submit_statx_def ring_submit_fallocate_def
      ring_submit_ftruncate_def ring_submit_sync_file_range_def Let_def split_beta
      submit_intros submits.refused)

lemma in_flight_slots:
  assumes "slots_wf c" "i \<in> held_slots c"
  shows "slots_wf (in_flight op ts sc sqe i c)"
    "pending_slots (in_flight op ts sc sqe i c) = insert i (pending_slots c)"
    "held_slots (in_flight op ts sc sqe i c) = held_slots c - {i}"
    "free_slots (in_flight op ts sc sqe i c) = free_slots c"
    "i \<notin> pending_slots c"
proof -
  let ?f = "\<lambda>req. req\<lparr>rq_op_type := op, rq_submit_time_ns := ts, rq_pending := True\<rparr>"
  let ?p = "sq_push sqe c" and ?u = "upd_request i ?f (sq_push sqe c)"
  have p: "slots_wf ?p" "held_slots ?p = held_slots c" "pending_slots ?p = pending_slots c"
      "free_slots ?p = free_slots c" "requests ?p = requests c" "max_requests ?p = max_requests c"
    using assms(1) slots_cong[of ?p c] by (auto simp: sq_push_def)
  have i: "i < max_requests c" "\<not> rq_in_pool (requests c ! i)" "length (requests c) = max_requests c"
    using assms by (auto simp: held_slots_def slots_wf_def)
  have u: "slots_wf ?u" "pending_slots ?u = insert i (pending_slots c)"
      "held_slots ?u = held_slots c - {i}" "free_slots ?u = free_slots c"
    using slots_upd_request[of i ?p ?f] slots_wf_upd_same[of ?p i ?f] i p by auto
  have e: "requests (in_flight op ts sc sqe i c) = requests ?u"
      "free_request_stack (in_flight op ts sc sqe i c) = free_request_stack ?u"
      "free_request_count (in_flight op ts sc sqe i c) = free_request_count ?u"
      "max_requests (in_flight op ts sc sqe i c) = max_requests ?u"
    by (simp_all add: in_flight_def)
  show "slots_wf (in_flight op ts sc sqe i c)"
    "pending_slots (in_flight op ts sc sqe i c) = insert i (pending_slots c)"
    "held_slots (in_flight op ts sc sqe i c) = held_slots c - {i}"
    "free_slots (in_flight op ts sc sqe i c) = free_slots c"
    using slots_cong[OF e] u by simp_all
  show "i \<notin> pending_slots c" using assms(2) by (auto simp: held_slots_def pending_slots_def)
qed

lemma in_flight_frame [simp]:
  "pending_count (in_flight op ts sc sqe i c) = pending_count c + 1"
  "queued_sqes (in_flight op ts sc sqe i c) = queued_sqes c + 1"
  "sq (ring (in_flight op ts sc sqe i c)) = sq (ring c) @ [sqe]"
  "sq_seq (ring (in_flight op ts sc sqe i c)) = sq_seq (ring c)"
  "max_requests (in_flight op ts sc sqe i c) = max_requests c"
  "single_thread (in_flight op ts sc sqe i c) = single_thread c"
  "lock (in_flight op ts sc sqe i c) = lock c"
  "cq_lock (in_flight op ts sc sqe i c) = cq_lock c"
  "st_users (in_flight op ts sc sqe i c) = st_users c"
  "st_cq_users (in_flight op ts sc sqe i c) = st_cq_users c"
  "poll_batch_size (in_flight op ts sc sqe i c) = poll_batch_size c"
  "ring_initialized (in_flight op ts sc sqe i c) = ring_initialized c"
  "ring_idx (in_flight op ts sc sqe i c) = ring_idx c"
  "needs_enable (in_flight op ts sc sqe i c) = needs_enable c"
  "owner_count (in_flight op ts sc sqe i c) = owner_count c"
  by (simp_all add: in_flight_def sq_push_def upd_request_def)

lemma in_flight_inv:
  assumes "ring_inv k c" "i \<in> held_slots c"
  shows "ring_inv k (in_flight op ts sc sqe i c)"
  using assms in_flight_slots[of c i] by (auto simp: ring_inv_def)

text \<open>
  Claim C5. Submission hands a checked-out slot to the kernel exactly once. For every
  operation type, a refused submission changes neither the ring nor the thread's state, so the
  caller still owns the slot; an accepted one appends one SQE that carries the slot as user
  data, with IOSQE\_FIXED\_FILE exactly on the operations that take registered files (never on
  close, openat, statx or cancel) and IOSQE\_IO\_LINK as requested, moves the slot from held to
  pending, and keeps the slot, in-flight and queue accounting exact.
\<close>

theorem ring_submit_transfers_slot:
  assumes "ring_inv k c" and "i \<in> held_slots c"
    and "ring_submit_op op target ft h now i tls c = (r, tls', c')"
  shows "ring_inv k c' \<and>
    (case r of
       Inl e \<Rightarrow> c' = c \<and> tls' = tls
     | Inr _ \<Rightarrow>
         i \<notin> pending_slots c \<and> pending_slots c' = insert i (pending_slots c) \<and>
         held_slots c' = held_slots c - {i} \<and> free_slots c' = free_slots c \<and>
         (\<exists>sqe. sq (ring c') = sq (ring c) @ [sqe] \<and> sqe_user_data sqe = i \<and>
            sqe_fixed_file sqe = (rq_uses_registered_file (requests c ! i) \<and>
              op \<notin> {AURA_OP_OPENAT, AURA_OP_CLOSE, AURA_OP_STATX, AURA_OP_CANCEL}) \<and>
            sqe_io_link sqe = (rq_linked (requests c ! i) \<and> op \<noteq> AURA_OP_CANCEL)))"
proof -
  have "submits op i tls c (r, tls', c')" using submits_op[of op i tls c] assms(3) by metis
  then show ?thesis
  proof cases
    case refused
    then show ?thesis using assms(1) by simp
  next
    case (accepted sqe ts sc)
    have w: "slots_wf c" using assms(1) by (simp add: ring_inv_def)
    show ?thesis using accepted in_flight_inv[OF assms(1,2)] in_flight_slots[OF w assms(2)] by auto
  qed
qed

section \<open>Flush\<close>

lemma sq_consume_frame [simp]:
  "requests (sq_consume n c) = requests c" "max_requests (sq_consume n c) = max_requests c"
  "free_request_stack (sq_consume n c) = free_request_stack c"
  "free_request_count (sq_consume n c) = free_request_count c"
  "pending_count (sq_consume n c) = pending_count c" "queued_sqes (sq_consume n c) = queued_sqes c"
  "sq (ring (sq_consume n c)) = drop (nat n) (sq (ring c))"
  "adaptive (sq_consume n c) = adaptive c"
  by (simp_all add: sq_consume_def)

lemma ring_flush_inv:
  assumes "ring_inv k c" "ring_flush n tls c = (r, tls', c')"
  shows "ring_inv k c'" "pending_slots c' = pending_slots c" "held_slots c' = held_slots c"
    "free_slots c' = free_slots c" "max_requests c' = max_requests c"
proof -
  have e: "requests c' = requests c" "free_request_stack c' = free_request_stack c"
      "free_request_count c' = free_request_count c" "max_requests c' = max_requests c"
      "pending_count c' = pending_count c" "queued_sqes c' = int (length (sq (ring c')))"
    using assms by (auto simp: ring_flush_def ring_inv_def Let_def split: if_splits)
  show "ring_inv k c'" "pending_slots c' = pending_slots c" "held_slots c' = held_slots c"
    "free_slots c' = free_slots c" "max_requests c' = max_requests c"
    using slots_cong[OF e(1-4)] e assms(1) by (simp_all add: ring_inv_def)
qed

text \<open>
  Claim C6. A flush never loses an SQE: a failed \<open>io_uring_submit\<close> leaves the ring unchanged for
  the next attempt and reports the errno, a successful one removes exactly the SQEs the kernel
  took from the head of the queue, and the counter of queued SQEs equals the length of what
  remains even when the kernel consumed more than was counted. Slots and the in-flight count are untouched,
  and once the kernel was entered the thread has no SQE left to link to.
\<close>

theorem ring_flush_keeps_unsent:
  assumes "ring_inv k c" and "ring_initialized c" and "sq (ring c) \<noteq> []"
    and "ring_flush submitted tls c = (r, tls', c')"
  shows "ring_inv k c' \<and> pending_slots c' = pending_slots c \<and> free_slots c' = free_slots c \<and>
    tls_last_sqe tls' = None \<and>
    (if submitted < 0 then r = Inl (- submitted) \<and> c' = c
     else r = Inr submitted \<and> sq (ring c') = drop (nat submitted) (sq (ring c)) \<and>
       queued_sqes c' = int (length (sq (ring c)) - nat submitted))"
  using assms ring_flush_inv[OF assms(1,4)]
  by (auto simp: ring_flush_def ring_inv_def Let_def split: if_splits)

lemma ring_flush_fast_eq: "ring_initialized c \<Longrightarrow> ring_flush_fast n tls c = ring_flush n tls c"
  by (simp add: ring_flush_fast_def ring_flush_def)

section \<open>A concrete ring\<close>

text \<open>A ring of depth 8 whose set-up succeeded at the first attempt, and one slot checked out.\<close>

definition demo_ring :: ring_ctx where
  "demo_ring = projr (ring_init 0 0 (\<lambda>_ _. 0) 3 True True 0 8 (-1) None)"

definition demo_held :: ring_ctx where
  "demo_held = snd (the (ring_get_request demo_ring))"

definition demo_tls :: thread_locals where
  "demo_tls = \<lparr>callback_context_depth = 0, tls_last_sqe = None\<rparr>"

lemma demo_ring_init: "ring_init 0 0 (\<lambda>_ _. 0) 3 True True 0 8 (-1) None = Inr demo_ring"
  by (simp add: demo_ring_def ring_init_def queue_init_ladder_def Let_def adaptive_init_def
      initial_inflight_for_def c_div_def)

lemma demo_held_facts:
  "ring_get_request demo_ring = Some (7, demo_held)" "ring_inv 0 demo_held" "7 \<in> held_slots demo_held"
  "pending_slots demo_held = {}" "free_slots demo_held = {..<7}" "max_requests demo_held = 8"
  "ring_initialized demo_held" "queued_sqes demo_held = 0"
proof -
  have fc: "free_request_count demo_ring = 8" "free_request_stack demo_ring = [0..<8]"
    "queued_sqes demo_ring = 0" "sq (ring demo_ring) = []" "pending_count demo_ring = 0"
    "ring_initialized demo_ring"
    by (simp_all add: demo_ring_def ring_init_def queue_init_ladder_def Let_def adaptive_init_def
        initial_inflight_for_def c_div_def)
  show g: "ring_get_request demo_ring = Some (7, demo_held)"
    by (simp add: demo_held_def ring_get_request_def fc Let_def)
  have i: "ring_inv 0 demo_ring" "free_slots demo_ring = {..<8}" "max_requests demo_ring = 8"
    using ring_init_inv[OF demo_ring_init] by auto
  then have w: "slots_wf demo_ring" "pending_slots demo_ring = {}"
    using fc by (auto simp: ring_inv_def)
  show "7 \<in> held_slots demo_held" "pending_slots demo_held = {}" "free_slots demo_held = {..<7}"
      "max_requests demo_held = 8"
    using ring_get_request_slots[OF w(1) g] i w by auto
  show q: "ring_initialized demo_held" "queued_sqes demo_held = 0"
    by (simp_all add: demo_held_def ring_get_request_def fc Let_def upd_request_def)
  have "pending_count demo_held = 0" "sq (ring demo_held) = []"
    by (simp_all add: demo_held_def ring_get_request_def fc Let_def)
  then show "ring_inv 0 demo_held"
    using ring_get_request_slots[OF w(1) g] w q by (simp add: ring_inv_def)
qed

theorem ring_submit_transfers_slot_witness:
  "case ring_submit_op AURA_OP_READ 0 True True 5 7 demo_tls demo_held of
     (r, tls', c') \<Rightarrow> ring_inv 0 c' \<and> (r = Inr () \<longrightarrow> pending_slots c' = {7})"
proof -
  obtain r t c where e: "ring_submit_op AURA_OP_READ 0 True True 5 7 demo_tls demo_held = (r, t, c)"
    by (metis prod_cases3)
  from ring_submit_transfers_slot[OF demo_held_facts(2,3) e] demo_held_facts(4)
  show ?thesis unfolding e by (auto split: sum.splits)
qed

definition demo_flying :: ring_ctx where
  "demo_flying = in_flight AURA_OP_READ 5 1 (blank_sqe (PrepRead 3 64 512 0) 7) 7 demo_held"

theorem ring_flush_keeps_unsent_witness:
  "case ring_flush (- EAGAIN) demo_tls demo_flying of
     (r, tls', c') \<Rightarrow> r = Inl EAGAIN \<and> c' = demo_flying \<and> queued_sqes c' = 1"
proof -
  have inv: "ring_inv 0 demo_flying" unfolding demo_flying_def
    by (rule in_flight_inv[OF demo_held_facts(2,3)])
  have i: "ring_initialized demo_flying" "sq (ring demo_flying) \<noteq> []"
    by (simp_all add: demo_flying_def demo_held_facts(7))
  obtain r t c where e: "ring_flush (- EAGAIN) demo_tls demo_flying = (r, t, c)"
    by (metis prod_cases3)
  have "queued_sqes demo_flying = 1" by (simp add: demo_flying_def demo_held_facts(8))
  then show ?thesis using ring_flush_keeps_unsent[OF inv i e] unfolding e by auto
qed

end
