(* ===== verification/Ring_Completion.thy ===== *)
theory Ring_Completion
  imports Ring
begin

text \<open>
  The completion side of \<^verbatim>\<open>src/engine/src/adaptive_ring.c\<close>: processing one CQE, batched and
  inline retirement, the two drain loops, \<open>ring_poll\<close>, \<open>ring_wait\<close> and \<open>ring_destroy\<close>.

  A CQE carries its request (none when its user data is NULL), its result and the clock
  reading taken while it is processed. The user's callback is a parameter: a function of the
  callback pointer, the request, the result and the user data on the thread-locals and the
  ring, since a callback may submit further operations. What the ring needs of it is the
  locale \<open>completion_callback\<close>.
\<close>

section \<open>Processing completions\<close>

record io_uring_cqe =
  cqe_req :: "nat option"
  cqe_res :: int
  cqe_now :: int

record retire_entry =
  re_op_idx :: int
  re_result :: int
  re_op_type :: aura_op_type

type_synonym ring_state = "thread_locals \<times> ring_ctx"
type_synonym completion_fn = "nat \<Rightarrow> nat \<Rightarrow> int \<Rightarrow> nat \<Rightarrow> ring_state \<Rightarrow> ring_state"

definition ring_in_callback_context :: "thread_locals \<Rightarrow> bool" where
  "ring_in_callback_context tls = (callback_context_depth tls > 0)"

text \<open>The state just before the callback: the slot claimed, the sample recorded, the
  registered-resource counters decremented.\<close>

definition claim_completion :: "io_uring_cqe \<Rightarrow> nat \<Rightarrow> ring_ctx \<Rightarrow> ring_ctx" where
  "claim_completion cqe i ctx =
     (let req = requests ctx ! i;
          c1 = upd_request i (\<lambda>req. req\<lparr>rq_pending := False\<rparr>) ctx;
          c2 = (if rq_submit_time_ns req \<noteq> 0 then
                  let latency_ns = cqe_now cqe - rq_submit_time_ns req;
                      bytes = (if cqe_res cqe > 0 then of_int (cqe_res cqe) else 0) :: u64
                  in if latency_ns > 0
                     then c1\<lparr>adaptive := adaptive_record_completion (adaptive c1) latency_ns bytes\<rparr>
                     else c1
                else c1);
          c3 = (if rq_uses_registered_buffer req
                then c2\<lparr>fixed_buf_inflight := fixed_buf_inflight c2 - 1\<rparr> else c2)
      in if rq_uses_registered_file req
         then c3\<lparr>fixed_file_inflight := fixed_file_inflight c3 - 1\<rparr> else c3)"

definition process_completion ::
    "completion_fn \<Rightarrow> io_uring_cqe \<Rightarrow> ring_state \<Rightarrow> retire_entry \<times> ring_state" where
  "process_completion cb cqe s =
     (let (tls, ctx) = s;
          skip = \<lparr>re_op_idx = -1, re_result = cqe_res cqe, re_op_type = AURA_OP_CANCEL\<rparr>
      in case cqe_req cqe of
           None \<Rightarrow> (skip, s)
         | Some i \<Rightarrow>
             let req = requests ctx ! i
             in if \<not> rq_pending req then (skip, s)
                else
                  let retire = skip\<lparr>re_op_idx := rq_op_idx req, re_op_type := rq_op_type req\<rparr>;
                      c = claim_completion cqe i ctx
                  in if rq_callback req \<noteq> 0 then
                       let saved_depth = callback_context_depth tls;
                           (tls', c') = cb (rq_callback req) i (cqe_res cqe) (rq_user_data req)
                             (tls\<lparr>callback_context_depth := saved_depth + 1\<rparr>, c)
                       in (retire, tls'\<lparr>callback_context_depth := saved_depth\<rparr>, c')
                     else (retire, tls, c))"

text \<open>The counters and the slot of one retired entry (lines 860 to 877 and 968 to 977).\<close>

definition retire_counters :: "retire_entry \<Rightarrow> ring_ctx \<Rightarrow> ring_ctx" where
  "retire_counters e ctx =
     (if re_op_type e \<noteq> AURA_OP_CANCEL then
        let c1 = ctx\<lparr>ops_completed := ops_completed ctx + 1\<rparr>
        in if re_result e > 0 \<and> op_is_data_transfer (re_op_type e)
           then c1\<lparr>bytes_completed := bytes_completed c1 + re_result e\<rparr> else c1
      else ctx)"

definition retire_one :: "retire_entry \<Rightarrow> ring_ctx \<Rightarrow> ring_ctx" where
  "retire_one e ctx =
     (if re_op_idx e < 0 then ctx else ring_put_request (retire_counters e ctx) (re_op_idx e))"

definition ring_retire_batch :: "retire_entry list \<Rightarrow> ring_ctx \<Rightarrow> ring_ctx" where
  "ring_retire_batch entries ctx =
     (if entries = [] then ctx
      else let (st, c1) = ring_lock ctx;
               c2 = fold retire_one entries c1;
               pending_delta = length (filter (\<lambda>e. \<not> re_op_idx e < 0) entries);
               c3 = c2\<lparr>pending_count := pending_count c2 - int pending_delta\<rparr>
           in ring_unlock st c3)"

text \<open>The callback phase of a batch: entries in CQE order.\<close>

fun process_batch ::
    "completion_fn \<Rightarrow> io_uring_cqe list \<Rightarrow> ring_state \<Rightarrow> retire_entry list \<times> ring_state" where
  "process_batch cb [] s = ([], s)"
| "process_batch cb (q # qs) s =
     (let (e, s1) = process_completion cb q s; (es, s2) = process_batch cb qs s1 in (e # es, s2))"

section \<open>The drain loops\<close>

text \<open>
  \<open>cq\<close> is the completion queue on entry and \<open>arrivals\<close> what the kernel appends before the
  successive peeks; the loop ends at the first peek that finds the queue empty.
\<close>

definition cq_refill :: "io_uring_cqe list \<Rightarrow> io_uring_cqe list list \<Rightarrow> io_uring_cqe list" where
  "cq_refill cq arrivals = cq @ (case arrivals of [] \<Rightarrow> [] | a # _ \<Rightarrow> a)"

definition cq_weight :: "io_uring_cqe list \<Rightarrow> io_uring_cqe list list \<Rightarrow> nat" where
  "cq_weight cq arrivals = length cq + sum_list (map length arrivals)"

lemma cq_weight_refill: "cq_weight (cq_refill cq arrivals) (tl arrivals) = cq_weight cq arrivals"
  by (cases arrivals) (simp_all add: cq_weight_def cq_refill_def)

lemma cq_weight_drop:
  "n \<noteq> 0 \<Longrightarrow> n \<le> length (cq_refill cq arrivals) \<Longrightarrow>
     cq_weight (drop n (cq_refill cq arrivals)) (tl arrivals) < cq_weight cq arrivals"
  using cq_weight_refill[of cq arrivals] by (simp add: cq_weight_def)

function drain_loop ::
    "completion_fn \<Rightarrow> nat \<Rightarrow> io_uring_cqe list \<Rightarrow> io_uring_cqe list list \<Rightarrow> nat \<Rightarrow> ring_state \<Rightarrow>
     nat \<times> ring_state" where
  "drain_loop cb batch_size cq arrivals completed s =
     (let (cq_st, c0) = ring_cq_lock (snd s);
          avail = cq_refill cq arrivals;
          n = min batch_size (length avail);
          s1 = (fst s, ring_cq_unlock cq_st c0)
      in if n = 0 then (completed, s1)
         else let (entries, tls, c) = process_batch cb (take n avail) s1
              in drain_loop cb batch_size (drop n avail) (tl arrivals) (completed + n)
                   (tls, ring_retire_batch entries c))"
  by pat_completeness auto
termination
  by (relation "measure (\<lambda>(cb, b, cq, arrivals, k, s). cq_weight cq arrivals)")
    (auto intro: cq_weight_drop)

definition ring_drain_cqes ::
    "completion_fn \<Rightarrow> io_uring_cqe list \<Rightarrow> io_uring_cqe list list \<Rightarrow> ring_state \<Rightarrow> nat \<times> ring_state" where
  "ring_drain_cqes cb cq arrivals s = drain_loop cb (poll_batch_size (snd s)) cq arrivals 0 s"

text \<open>Inline retirement of the single-thread path.\<close>

definition retire_inline :: "retire_entry \<Rightarrow> ring_ctx \<Rightarrow> ring_ctx" where
  "retire_inline e ctx =
     (if re_op_idx e \<ge> 0 then
        let c = ring_put_request (retire_counters e ctx) (re_op_idx e)
        in c\<lparr>pending_count := pending_count c - 1\<rparr>
      else ctx)"

function drain_fast_loop ::
    "completion_fn \<Rightarrow> io_uring_cqe list \<Rightarrow> io_uring_cqe list list \<Rightarrow> nat \<Rightarrow> ring_state \<Rightarrow>
     nat \<times> ring_state" where
  "drain_fast_loop cb cq arrivals completed s =
     (case cq_refill cq arrivals of
        [] \<Rightarrow> (completed, s)
      | q # qs \<Rightarrow>
          let (e, tls, c) = process_completion cb q s
          in drain_fast_loop cb qs (tl arrivals) (completed + 1) (tls, retire_inline e c))"
  by pat_completeness auto
termination
proof (relation "measure (\<lambda>(cb, cq, arrivals, k, s). cq_weight cq arrivals)", goal_cases)
  case (2 cb cq arrivals completed s q qs)
  then show ?case using cq_weight_drop[of 1 cq arrivals] by simp
qed simp

definition ring_drain_cqes_fast ::
    "completion_fn \<Rightarrow> io_uring_cqe list \<Rightarrow> io_uring_cqe list list \<Rightarrow> ring_state \<Rightarrow> nat \<times> ring_state" where
  "ring_drain_cqes_fast cb cq arrivals s =
     (if \<not> ring_initialized (snd s) then (0, s) else drain_fast_loop cb cq arrivals 0 s)"

declare drain_loop.simps [simp del] drain_fast_loop.simps [simp del]

definition ring_poll ::
    "completion_fn \<Rightarrow> io_uring_cqe list \<Rightarrow> io_uring_cqe list list \<Rightarrow> ring_state \<Rightarrow> nat \<times> ring_state" where
  "ring_poll cb cq arrivals s =
     (if \<not> ring_initialized (snd s) then (0, s)
      else if single_thread (snd s) then ring_drain_cqes_fast cb cq arrivals s
      else ring_drain_cqes cb cq arrivals s)"

section \<open>Waiting\<close>

text \<open>
  What the kernel does during a wait: the completion queue at the first peek, the answers of
  the successive \<open>io_uring_wait_cqe_timeout\<close> calls, the queue after the wait and later arrivals.
\<close>

record wait_reply =
  w_cq :: "io_uring_cqe list"
  w_answers :: "int list"
  w_cq_after :: "io_uring_cqe list"
  w_arrivals :: "io_uring_cqe list list"

text \<open>The loop of one-second waits; \<open>None\<close> when the answers end while it still waits.\<close>

fun wait_forever :: "ring_ctx \<Rightarrow> int list \<Rightarrow> int option" where
  "wait_forever ctx [] = None"
| "wait_forever ctx (ret # rets) =
     (if ret \<noteq> - ETIME \<and> ret \<noteq> - EAGAIN then Some ret
      else if pending_count ctx = 0 then Some ret
      else if shutting_down ctx then Some ret
      else wait_forever ctx rets)"

definition ring_wait ::
    "completion_fn \<Rightarrow> wait_reply \<Rightarrow> int \<Rightarrow> ring_state \<Rightarrow> ((int + int) \<times> ring_state) option" where
  "ring_wait cb reply timeout_ms s =
     (let ctx = snd s
      in if \<not> ring_initialized ctx then Some (Inl EINVAL, s)
         else if pending_count ctx = 0 then Some (Inr 0, s)
         else if timeout_ms = 0 then
           (let (n, s') = (if single_thread ctx then ring_drain_cqes_fast cb (w_cq reply) (w_arrivals reply) s
                           else ring_drain_cqes cb (w_cq reply) (w_arrivals reply) s)
            in Some (Inr (int n), s'))
         else
           let (cq_st, c0) = ring_cq_lock ctx; s1 = (fst s, ring_cq_unlock cq_st c0)
           in if w_cq reply \<noteq> [] then
                (let (n, s') = ring_drain_cqes cb (w_cq reply) (w_arrivals reply) s1
                 in Some (Inr (int n), s'))
              else
                case (if timeout_ms < 0 then wait_forever (snd s1) (w_answers reply)
                      else (case w_answers reply of [] \<Rightarrow> None | ret # _ \<Rightarrow> Some ret)) of
                  None \<Rightarrow> None
                | Some ret \<Rightarrow>
                    if ret < 0 \<and> ret \<noteq> - ETIME \<and> ret \<noteq> - EAGAIN \<and> ret \<noteq> - EINTR
                    then Some (Inl (- ret), s1)
                    else (let (n, s') = ring_drain_cqes cb (w_cq_after reply) (w_arrivals reply) s1
                          in Some (Inr (int n), s')))"

section \<open>Destruction\<close>

abbreviation RING_DESTROY_MAX_DRAIN_ATTEMPTS :: nat where "RING_DESTROY_MAX_DRAIN_ATTEMPTS \<equiv> 100"

text \<open>Flush under the ring lock; the result is ignored.\<close>

definition locked_flush :: "int \<Rightarrow> ring_state \<Rightarrow> ring_state" where
  "locked_flush submitted s =
     (let (st, c0) = ring_lock (snd s); (r, tls, c1) = ring_flush submitted (fst s) c0
      in (tls, ring_unlock st c1))"

text \<open>
  The drain loop of \<open>ring_destroy\<close>: \<open>replies n\<close> is what the kernel does during attempt \<open>n\<close>,
  \<open>fuel\<close> the attempts that remain. A timed wait always answers.
\<close>

fun destroy_drain ::
    "completion_fn \<Rightarrow> (nat \<Rightarrow> int \<times> wait_reply) \<Rightarrow> nat \<Rightarrow> nat \<Rightarrow> ring_state \<Rightarrow> ring_state" where
  "destroy_drain cb replies attempt 0 s = s"
| "destroy_drain cb replies attempt (Suc fuel) s =
     (if pending_count (snd s) > 0 then
        let (submitted, reply) = replies attempt;
            s1 = locked_flush submitted s;
            s2 = (case ring_wait cb reply 100 s1 of None \<Rightarrow> s1 | Some (r, s') \<Rightarrow> s')
        in destroy_drain cb replies (Suc attempt) fuel s2
      else s)"

definition ring_destroy ::
    "completion_fn \<Rightarrow> int \<Rightarrow> int \<Rightarrow> (nat \<Rightarrow> int \<times> wait_reply) \<Rightarrow> ring_state \<Rightarrow> ring_state" where
  "ring_destroy cb enable_ret submitted replies s =
     (let c0 = (if needs_enable (snd s) then snd (ring_enable enable_ret (snd s)) else snd s);
          s1 = locked_flush submitted (fst s, c0\<lparr>shutting_down := True\<rparr>);
          s2 = destroy_drain cb replies 0 RING_DESTROY_MAX_DRAIN_ATTEMPTS s1
      in (fst s2, (snd s2)\<lparr>ring_initialized := False, free_request_stack := [], requests := []\<rparr>))"

section \<open>What a callback must respect\<close>

text \<open>The configuration and lock state of a ring, which completions leave alone.\<close>

definition ring_frame where
  "ring_frame c = (max_requests c, lock c, cq_lock c, st_users c, st_cq_users c, single_thread c,
     poll_batch_size c, ring_initialized c, ring_idx c, needs_enable c, owner_count c)"

text \<open>
  A callback runs with the completed slot still checked out. Whatever it does through the
  library keeps the ring invariant, leaves exactly the checked-out slots checked out (it can
  neither return nor resubmit the slot of the request it was called for, and submits or returns
  the slots it takes) and releases the locks it takes.
\<close>

locale completion_callback =
  fixes cb :: completion_fn
  assumes cb_inv: "ring_inv k c \<Longrightarrow> ring_inv k (snd (cb f i res ud (t, c)))"
    and cb_held: "ring_inv k c \<Longrightarrow> held_slots (snd (cb f i res ud (t, c))) = held_slots c"
    and cb_frame: "ring_inv k c \<Longrightarrow> ring_frame (snd (cb f i res ud (t, c))) = ring_frame c"

text \<open>CQEs name slots of the ring or carry no request.\<close>

definition cqe_valid :: "ring_ctx \<Rightarrow> io_uring_cqe \<Rightarrow> bool" where
  "cqe_valid c q = (case cqe_req q of None \<Rightarrow> True | Some i \<Rightarrow> i < max_requests c)"

lemma cqe_valid_frame: "ring_frame c' = ring_frame c \<Longrightarrow> cqe_valid c' = cqe_valid c"
  by (rule ext) (simp add: cqe_valid_def ring_frame_def split: option.split)

lemma claim_completion_fields:
  "requests (claim_completion q i c) = requests (upd_request i (\<lambda>r. r\<lparr>rq_pending := False\<rparr>) c)"
  "free_request_stack (claim_completion q i c) = free_request_stack c"
  "free_request_count (claim_completion q i c) = free_request_count c"
  "max_requests (claim_completion q i c) = max_requests c"
  "pending_count (claim_completion q i c) = pending_count c"
  "queued_sqes (claim_completion q i c) = queued_sqes c" "ring (claim_completion q i c) = ring c"
  "ring_frame (claim_completion q i c) = ring_frame c"
  by (simp_all add: claim_completion_def Let_def ring_frame_def upd_request_def)

lemma claim_completion_slots:
  assumes "ring_inv k c" "i \<in> pending_slots c"
  shows "ring_inv (k + 1) (claim_completion q i c)"
    "pending_slots (claim_completion q i c) = pending_slots c - {i}"
    "held_slots (claim_completion q i c) = insert i (held_slots c)"
    "free_slots (claim_completion q i c) = free_slots c"
proof -
  let ?u = "upd_request i (\<lambda>r. r\<lparr>rq_pending := False\<rparr>) c"
  have w: "slots_wf c" using assms by (simp add: ring_inv_def)
  have i: "i < max_requests c" "\<not> rq_in_pool (requests c ! i)" "length (requests c) = max_requests c"
    using assms(2) w by (auto simp: slots_wf_def pending_slots_def)
  have u: "slots_wf ?u" "pending_slots ?u = pending_slots c - {i}"
      "held_slots ?u = insert i (held_slots c)" "free_slots ?u = free_slots c"
    using slots_upd_request[of i c "\<lambda>r. r\<lparr>rq_pending := False\<rparr>"] slots_wf_upd_same[OF w i(1)] i by auto
  have cong: "slots_wf (claim_completion q i c) = slots_wf ?u"
      "free_slots (claim_completion q i c) = free_slots ?u"
      "held_slots (claim_completion q i c) = held_slots ?u"
      "pending_slots (claim_completion q i c) = pending_slots ?u"
    by (rule slots_cong; simp add: claim_completion_fields)+
  show p: "pending_slots (claim_completion q i c) = pending_slots c - {i}"
    "held_slots (claim_completion q i c) = insert i (held_slots c)"
    "free_slots (claim_completion q i c) = free_slots c" using cong u by simp_all
  have "card (pending_slots c) = card (pending_slots c - {i}) + 1"
    using card_Suc_Diff1[OF finite_slots(2) assms(2)] by simp
  then show "ring_inv (k + 1) (claim_completion q i c)"
    using assms(1) cong u p by (simp add: ring_inv_def claim_completion_fields)
qed

text \<open>The slots named by the entries that retire one.\<close>

definition retired :: "retire_entry list \<Rightarrow> nat list" where
  "retired es = map (\<lambda>e. nat (re_op_idx e)) (filter (\<lambda>e. \<not> re_op_idx e < 0) es)"

lemma retired_simps [simp]:
  "retired [] = []"
  "retired (e # es) = (if re_op_idx e < 0 then retired es else nat (re_op_idx e) # retired es)"
  by (simp_all add: retired_def)

context completion_callback
begin

lemma process_completion_cases:
  assumes "ring_inv k c" "cqe_valid c q" "process_completion cb q (t, c) = (e, t', c')"
  obtains (ignored) "re_op_idx e = -1" "t' = t" "c' = c"
      "\<And>i. cqe_req q = Some i \<Longrightarrow> i \<notin> pending_slots c"
  | (completed) i where "cqe_req q = Some i" "i \<in> pending_slots c" "re_op_idx e = int i"
      "ring_inv (k + 1) c'" "held_slots c' = insert i (held_slots c)" "ring_frame c' = ring_frame c"
proof (cases "cqe_req q")
  case None
  then show thesis using assms ignored by (auto simp: process_completion_def)
next
  case (Some i)
  have i: "i < max_requests c" using Some assms(2) by (simp add: cqe_valid_def)
  show thesis
  proof (cases "rq_pending (requests c ! i)")
    case False
    then show thesis using Some assms(3) ignored
      by (auto simp: process_completion_def Let_def pending_slots_def)
  next
    case True
    then have p: "i \<in> pending_slots c" using i by (simp add: pending_slots_def)
    note cl = claim_completion_slots[OF assms(1) p, of q]
    have idx: "rq_op_idx (requests c ! i) = int i" using assms(1) i by (auto simp: ring_inv_def slots_wf_def)
    have "re_op_idx e = int i \<and> ring_inv (k + 1) c' \<and> held_slots c' = insert i (held_slots c) \<and>
        ring_frame c' = ring_frame c"
    proof (cases "rq_callback (requests c ! i) = 0")
      case True
      then show ?thesis using Some assms(3) \<open>rq_pending (requests c ! i)\<close> cl idx
        by (auto simp: process_completion_def Let_def claim_completion_fields)
    next
      case False
      define r where "r = cb (rq_callback (requests c ! i)) i (cqe_res q) (rq_user_data (requests c ! i))
          (t\<lparr>callback_context_depth := callback_context_depth t + 1\<rparr>, claim_completion q i c)"
      have "re_op_idx e = int i" "c' = snd r"
        using Some assms(3) \<open>rq_pending (requests c ! i)\<close> False idx
        by (auto simp: process_completion_def Let_def r_def split_beta)
      moreover have "ring_inv (k + 1) (snd r)" "held_slots (snd r) = held_slots (claim_completion q i c)"
          "ring_frame (snd r) = ring_frame (claim_completion q i c)"
        unfolding r_def by (rule cb_inv[OF cl(1)] cb_held[OF cl(1)] cb_frame[OF cl(1)])+
      ultimately show ?thesis using cl by (simp add: claim_completion_fields)
    qed
    then show thesis using completed Some p by blast
  qed
qed

lemma process_batch_props:
  assumes "ring_inv k c" "\<forall>q \<in> set qs. cqe_valid c q" "process_batch cb qs (t, c) = (es, t', c')"
  shows "ring_inv (k + int (length (retired es))) c' \<and> distinct (retired es) \<and>
    set (retired es) \<inter> held_slots c = {} \<and> held_slots c' = held_slots c \<union> set (retired es) \<and>
    ring_frame c' = ring_frame c \<and> length es = length qs"
  using assms
proof (induction qs arbitrary: k c t es)
  case (Cons q qs)
  obtain e t1 c1 where 1: "process_completion cb q (t, c) = (e, t1, c1)" by (metis prod_cases3)
  obtain fs where 2: "process_batch cb qs (t1, c1) = (fs, t', c')" "es = e # fs"
    using Cons.prems(3) 1 by (auto split: prod.splits)
  have v: "cqe_valid c q" "\<forall>x \<in> set qs. cqe_valid c x" using Cons.prems(2) by auto
  show ?case
  proof (cases rule: process_completion_cases[OF Cons.prems(1) v(1) 1, case_names ignored completed])
    case ignored
    then show ?thesis using Cons.IH[OF Cons.prems(1) v(2)] 2 by auto
  next
    case (completed i)
    have "\<forall>x \<in> set qs. cqe_valid c1 x" using v(2) cqe_valid_frame[OF completed(6)] by simp
    from Cons.IH[OF completed(4) this 2(1)] completed 2(2) slots_partition(4)[of c] Cons.prems(1)
    show ?thesis by (auto simp: ring_inv_def)
  qed
qed simp

end

section \<open>Retirement\<close>

lemma retire_counters_fields:
  "requests (retire_counters e c) = requests c" "free_request_stack (retire_counters e c) = free_request_stack c"
  "free_request_count (retire_counters e c) = free_request_count c"
  "max_requests (retire_counters e c) = max_requests c"
  "pending_count (retire_counters e c) = pending_count c"
  "queued_sqes (retire_counters e c) = queued_sqes c" "ring (retire_counters e c) = ring c"
  "ring_frame (retire_counters e c) = ring_frame c"
  by (simp_all add: retire_counters_def Let_def ring_frame_def)

lemma ring_put_request_frame [simp]:
  "pending_count (ring_put_request c i) = pending_count c"
  "queued_sqes (ring_put_request c i) = queued_sqes c" "ring (ring_put_request c i) = ring c"
  "ring_frame (ring_put_request c i) = ring_frame c"
  by (simp_all add: ring_put_request_def Let_def ring_frame_def upd_request_def)

lemma retire_one_slots:
  assumes "slots_wf c" "re_op_idx e = int i" "i \<in> held_slots c"
  shows "slots_wf (retire_one e c)" "free_slots (retire_one e c) = insert i (free_slots c)"
    "held_slots (retire_one e c) = held_slots c - {i}" "pending_slots (retire_one e c) = pending_slots c"
    "pending_count (retire_one e c) = pending_count c" "queued_sqes (retire_one e c) = queued_sqes c"
    "ring (retire_one e c) = ring c" "ring_frame (retire_one e c) = ring_frame c"
proof -
  let ?d = "retire_counters e c"
  have d: "slots_wf ?d" "held_slots ?d = held_slots c" "free_slots ?d = free_slots c"
      "pending_slots ?d = pending_slots c"
    using slots_cong[of ?d c] assms(1) by (simp_all add: retire_counters_fields)
  have r: "retire_one e c = ring_put_request ?d (int i)" using assms(2) by (simp add: retire_one_def)
  show "slots_wf (retire_one e c)" "free_slots (retire_one e c) = insert i (free_slots c)"
    "held_slots (retire_one e c) = held_slots c - {i}" "pending_slots (retire_one e c) = pending_slots c"
    "pending_count (retire_one e c) = pending_count c" "queued_sqes (retire_one e c) = queued_sqes c"
    "ring (retire_one e c) = ring c" "ring_frame (retire_one e c) = ring_frame c"
    unfolding r using ring_put_request_held[of ?d i] d assms(3) by (simp_all add: retire_counters_fields)
qed

lemma fold_retire:
  assumes "slots_wf c" "distinct (retired es)" "set (retired es) \<subseteq> held_slots c"
  shows "slots_wf (fold retire_one es c) \<and>
    free_slots (fold retire_one es c) = free_slots c \<union> set (retired es) \<and>
    held_slots (fold retire_one es c) = held_slots c - set (retired es) \<and>
    pending_slots (fold retire_one es c) = pending_slots c \<and>
    pending_count (fold retire_one es c) = pending_count c \<and>
    queued_sqes (fold retire_one es c) = queued_sqes c \<and> ring (fold retire_one es c) = ring c \<and>
    ring_frame (fold retire_one es c) = ring_frame c"
  using assms
proof (induction es arbitrary: c)
  case (Cons e es)
  show ?case
  proof (cases "re_op_idx e < 0")
    case True
    then show ?thesis using Cons by (simp add: retire_one_def)
  next
    case False
    define i where "i = nat (re_op_idx e)"
    have i: "re_op_idx e = int i" "i \<in> held_slots c" using False Cons.prems(3) by (auto simp: i_def)
    note r = retire_one_slots[OF Cons.prems(1) i]
    have "distinct (retired es)" "set (retired es) \<subseteq> held_slots (retire_one e c)"
      using Cons.prems(2,3) False r(3) by (auto simp: i_def)
    from Cons.IH[OF r(1) this] show ?thesis using r False by (auto simp: i_def)
  qed
qed simp

lemma ring_lock_unlock_fields:
  "ring_lock c = (st, d) \<Longrightarrow> requests d = requests c \<and> free_request_stack d = free_request_stack c \<and>
    free_request_count d = free_request_count c \<and> max_requests d = max_requests c \<and>
    pending_count d = pending_count c \<and> queued_sqes d = queued_sqes c \<and> ring d = ring c"
  "requests (ring_unlock st d) = requests d" "free_request_stack (ring_unlock st d) = free_request_stack d"
  "free_request_count (ring_unlock st d) = free_request_count d"
  "max_requests (ring_unlock st d) = max_requests d" "pending_count (ring_unlock st d) = pending_count d"
  "queued_sqes (ring_unlock st d) = queued_sqes d" "ring (ring_unlock st d) = ring d"
  by (auto simp: ring_lock_def ring_unlock_def split: if_splits)

lemma unlock_frame:
  assumes "ring_lock c = (st, d)" "ring_frame d' = ring_frame d"
  shows "ring_frame (ring_unlock st d') = ring_frame c"
  using assms by (auto simp: ring_frame_def ring_lock_def ring_unlock_def split: if_splits)

lemma retire_batch_props:
  assumes "ring_inv k c" "distinct (retired es)" "set (retired es) \<subseteq> held_slots c"
  shows "ring_inv (k - int (length (retired es))) (ring_retire_batch es c) \<and>
    free_slots (ring_retire_batch es c) = free_slots c \<union> set (retired es) \<and>
    held_slots (ring_retire_batch es c) = held_slots c - set (retired es) \<and>
    pending_slots (ring_retire_batch es c) = pending_slots c \<and>
    ring_frame (ring_retire_batch es c) = ring_frame c"
proof (cases "es = []")
  case True
  then show ?thesis using assms(1) by (simp add: ring_retire_batch_def)
next
  case False
  obtain st d where l: "ring_lock c = (st, d)" by fastforce
  note lf = ring_lock_unlock_fields(1)[OF l]
  have d: "slots_wf d" "held_slots d = held_slots c" "free_slots d = free_slots c"
      "pending_slots d = pending_slots c"
    using slots_cong[of d c] lf assms(1) by (simp_all add: ring_inv_def)
  let ?f = "fold retire_one es d"
  let ?g = "?f\<lparr>pending_count := pending_count ?f - int (length (retired es))\<rparr>"
  have f: "slots_wf ?f" "free_slots ?f = free_slots c \<union> set (retired es)"
    "held_slots ?f = held_slots c - set (retired es)" "pending_slots ?f = pending_slots c"
    "pending_count ?f = pending_count c" "queued_sqes ?f = queued_sqes c" "ring ?f = ring c"
    "ring_frame ?f = ring_frame d"
    using fold_retire[OF d(1) assms(2)] assms(3) d lf by auto
  have r: "ring_retire_batch es c = ring_unlock st ?g"
    using False l by (simp add: ring_retire_batch_def Let_def retired_def)
  have g: "ring_frame ?g = ring_frame d" using f(8) by (simp add: ring_frame_def)
  have u: "slots_wf (ring_unlock st ?g)" "free_slots (ring_unlock st ?g) = free_slots ?f"
    "held_slots (ring_unlock st ?g) = held_slots ?f" "pending_slots (ring_unlock st ?g) = pending_slots ?f"
    using slots_cong[of "ring_unlock st ?g" ?f] f(1) by (simp_all add: ring_lock_unlock_fields(2-))
  show ?thesis unfolding r ring_inv_def
    using assms(1) f u unlock_frame[OF l g] by (simp add: ring_lock_unlock_fields(2-) ring_inv_def)
qed

section \<open>Draining\<close>

lemma cq_lock_unlock: "ring_cq_lock c = (st, d) \<Longrightarrow> ring_cq_unlock st d = c"
  by (auto simp: ring_cq_lock_def ring_cq_unlock_def split: if_splits)

lemma drain_loop_unfold:
  "drain_loop cb b cq arrivals k s =
     (let avail = cq_refill cq arrivals; n = min b (length avail)
      in if n = 0 then (k, s)
         else let (es, t, c) = process_batch cb (take n avail) s
              in drain_loop cb b (drop n avail) (tl arrivals) (k + n) (t, ring_retire_batch es c))"
proof -
  obtain st d where l: "ring_cq_lock (snd s) = (st, d)" by fastforce
  then have "(fst s, ring_cq_unlock st d) = s" using cq_lock_unlock[OF l] by simp
  then show ?thesis by (subst drain_loop.simps) (simp only: l Let_def split)
qed

definition cqes_valid :: "ring_ctx \<Rightarrow> io_uring_cqe list \<Rightarrow> io_uring_cqe list list \<Rightarrow> bool" where
  "cqes_valid c cq arrivals \<longleftrightarrow> (\<forall>q \<in> set (cq @ concat arrivals). cqe_valid c q)"

lemma cqes_valid_refill:
  "cqes_valid c cq arrivals \<Longrightarrow> cqes_valid c (cq_refill cq arrivals) (tl arrivals)"
  by (cases arrivals) (auto simp: cqes_valid_def cq_refill_def)

lemma cqes_valid_parts:
  "cqes_valid c cq arrivals \<Longrightarrow> \<forall>q \<in> set (take n cq). cqe_valid c q"
  "cqes_valid c cq arrivals \<Longrightarrow> cqes_valid c (drop n cq) arrivals"
  by (auto simp: cqes_valid_def dest: in_set_takeD in_set_dropD)

lemma cqes_valid_frame: "ring_frame c' = ring_frame c \<Longrightarrow> cqes_valid c' = cqes_valid c"
  using cqe_valid_frame[of c' c] by (simp add: cqes_valid_def fun_eq_iff)

context completion_callback
begin

lemma batch_step:
  assumes "ring_inv k c" "\<forall>q \<in> set qs. cqe_valid c q" "process_batch cb qs (t, c) = (es, t', c')"
  shows "ring_inv k (ring_retire_batch es c') \<and> held_slots (ring_retire_batch es c') = held_slots c \<and>
    ring_frame (ring_retire_batch es c') = ring_frame c"
proof -
  from process_batch_props[OF assms]
  have p: "ring_inv (k + int (length (retired es))) c'" "distinct (retired es)"
    "set (retired es) \<inter> held_slots c = {}" "held_slots c' = held_slots c \<union> set (retired es)"
    "ring_frame c' = ring_frame c" by auto
  then have "set (retired es) \<subseteq> held_slots c'" by blast
  from retire_batch_props[OF p(1,2) this] p show ?thesis by auto
qed

lemma drain_loop_inv:
  assumes "ring_inv k (snd s)" "cqes_valid (snd s) cq arrivals"
    "drain_loop cb b cq arrivals n s = (m, s')"
  shows "ring_inv k (snd s') \<and> held_slots (snd s') = held_slots (snd s) \<and>
    ring_frame (snd s') = ring_frame (snd s)"
  using assms
proof (induction "cq_weight cq arrivals" arbitrary: cq arrivals n s rule: less_induct)
  case less
  let ?a = "cq_refill cq arrivals" and ?n = "min b (length (cq_refill cq arrivals))"
  obtain t c where s: "s = (t, c)" by fastforce
  obtain es t1 c1 where b: "process_batch cb (take ?n ?a) (t, c) = (es, t1, c1)" by (metis prod_cases3)
  show ?case
  proof (cases "?n = 0")
    case True
    then have "s' = s" using less.prems(3) by (subst (asm) drain_loop_unfold) (simp add: Let_def)
    then show ?thesis using less.prems(1) by simp
  next
    case False
    note v = cqes_valid_refill[OF less.prems(2)]
    have st: "ring_inv k (ring_retire_batch es c1)" "held_slots (ring_retire_batch es c1) = held_slots c"
        "ring_frame (ring_retire_batch es c1) = ring_frame c"
      using batch_step[OF _ _ b] less.prems(1) cqes_valid_parts(1)[OF v] s by auto
    have d: "drain_loop cb b (drop ?n ?a) (tl arrivals) (n + ?n) (t1, ring_retire_batch es c1) = (m, s')"
      using less.prems(3) False b unfolding s by (subst (asm) drain_loop_unfold) (simp add: Let_def)
    have w: "cq_weight (drop ?n ?a) (tl arrivals) < cq_weight cq arrivals"
      by (rule cq_weight_drop[OF False]) simp
    have "cqes_valid (ring_retire_batch es c1) (drop ?n ?a) (tl arrivals)"
      using cqes_valid_parts(2)[OF v] cqes_valid_frame[OF st(3)] s by simp
    from less.hyps[OF w _ _ d] this st s show ?thesis by auto
  qed
qed

lemma fast_step:
  assumes "ring_inv k c" "cqe_valid c q" "process_completion cb q (t, c) = (e, t', c')"
  shows "ring_inv k (retire_inline e c') \<and> held_slots (retire_inline e c') = held_slots c \<and>
    ring_frame (retire_inline e c') = ring_frame c"
proof (cases rule: process_completion_cases[OF assms, case_names ignored completed])
  case ignored
  then show ?thesis using assms(1) by (simp add: retire_inline_def)
next
  case (completed i)
  let ?r = "retire_one e c'"
  have r: "retire_inline e c' = ?r\<lparr>pending_count := pending_count ?r - 1\<rparr>"
    using completed(3) by (simp add: retire_inline_def retire_one_def Let_def)
  have w: "slots_wf c'" "i \<in> held_slots c'" using completed by (auto simp: ring_inv_def)
  have cong: "slots_wf (retire_inline e c') = slots_wf ?r" "held_slots (retire_inline e c') = held_slots ?r"
      "pending_slots (retire_inline e c') = pending_slots ?r"
    unfolding r by (rule slots_cong; simp)+
  have "i \<notin> held_slots c" using completed(2) by (auto simp: pending_slots_def held_slots_def)
  then show ?thesis
    using retire_one_slots[OF w(1) completed(3) w(2)] cong completed(4-6)
    by (auto simp: ring_inv_def r ring_frame_def)
qed

lemma drain_fast_loop_inv:
  assumes "ring_inv k (snd s)" "cqes_valid (snd s) cq arrivals"
    "drain_fast_loop cb cq arrivals n s = (m, s')"
  shows "ring_inv k (snd s') \<and> held_slots (snd s') = held_slots (snd s) \<and>
    ring_frame (snd s') = ring_frame (snd s)"
  using assms
proof (induction "cq_weight cq arrivals" arbitrary: cq arrivals n s rule: less_induct)
  case less
  obtain t c where s: "s = (t, c)" by fastforce
  show ?case
  proof (cases "cq_refill cq arrivals")
    case Nil
    then have "s' = s" using less.prems(3) by (subst (asm) drain_fast_loop.simps) simp
    then show ?thesis using less.prems(1) by simp
  next
    case (Cons q qs)
    obtain e t1 c1 where b: "process_completion cb q (t, c) = (e, t1, c1)" by (metis prod_cases3)
    have v: "cqes_valid c (q # qs) (tl arrivals)"
      using cqes_valid_refill[OF less.prems(2)] Cons s by simp
    then have v1: "cqe_valid c q" "cqes_valid c qs (tl arrivals)" by (auto simp: cqes_valid_def)
    have st: "ring_inv k (retire_inline e c1)" "held_slots (retire_inline e c1) = held_slots c"
        "ring_frame (retire_inline e c1) = ring_frame c"
      using fast_step[OF _ v1(1) b] less.prems(1) s by auto
    have d: "drain_fast_loop cb qs (tl arrivals) (n + 1) (t1, retire_inline e c1) = (m, s')"
      using less.prems(3) Cons b unfolding s by (subst (asm) drain_fast_loop.simps) (simp add: Let_def)
    have w: "cq_weight qs (tl arrivals) < cq_weight cq arrivals"
      using cq_weight_drop[of 1 cq arrivals] Cons by simp
    have "cqes_valid (retire_inline e c1) qs (tl arrivals)"
      using v1(2) cqes_valid_frame[OF st(3)] by simp
    from less.hyps[OF w _ _ d] this st s show ?thesis by auto
  qed
qed

lemma ring_poll_inv:
  assumes "ring_inv k (snd s)" "cqes_valid (snd s) cq arrivals" "ring_poll cb cq arrivals s = (m, s')"
  shows "ring_inv k (snd s') \<and> held_slots (snd s') = held_slots (snd s) \<and>
    ring_frame (snd s') = ring_frame (snd s)"
  using assms drain_loop_inv[OF assms(1,2)] drain_fast_loop_inv[OF assms(1,2)]
  by (auto simp: ring_poll_def ring_drain_cqes_def ring_drain_cqes_fast_def split: if_splits)

lemma duplicate_ignored:
  assumes "ring_inv k c" "cqe_valid c q" "process_completion cb q (t, c) = (e, t', c')"
    "cqe_req q' = cqe_req q"
  shows "re_op_idx (fst (process_completion cb q' (t', c'))) = -1 \<and>
    snd (process_completion cb q' (t', c')) = (t', c')"
proof (cases rule: process_completion_cases[OF assms(1-3), case_names ignored completed])
  case ignored
  show ?thesis
  proof (cases "cqe_req q")
    case (Some i)
    then show ?thesis using ignored assms(2,4)
      by (auto simp: process_completion_def Let_def cqe_valid_def pending_slots_def)
  qed (use assms(4) ignored in \<open>simp add: process_completion_def\<close>)
next
  case (completed i)
  then have "\<not> rq_pending (requests c' ! i)" by (auto simp: held_slots_def)
  then show ?thesis using completed(1) assms(4) by (simp add: process_completion_def Let_def)
qed

end

section \<open>Callbacks that submit more work\<close>

text \<open>
  What a callback can do to the ring that runs it: check out a slot, fill it and submit it
  under the ring lock, returning the slot when the submission is refused, or flush.
\<close>

datatype cb_action =
    CbSubmit aura_op_type nat int nat nat int nat nat bool int
  | CbFlush int

definition fill_request ::
    "int \<Rightarrow> nat \<Rightarrow> nat \<Rightarrow> int \<Rightarrow> nat \<Rightarrow> nat \<Rightarrow> aura_request \<Rightarrow> aura_request" where
  "fill_request fd buf n off callback ud req =
     req\<lparr>rq_fd := fd, rq_buffer := buf, rq_len := n, rq_offset := off, rq_callback := callback,
         rq_user_data := ud\<rparr>"

definition submit_slot ::
    "aura_op_type \<Rightarrow> nat \<Rightarrow> (aura_request \<Rightarrow> aura_request) \<Rightarrow> bool \<Rightarrow> int \<Rightarrow> ring_state \<Rightarrow> ring_state" where
  "submit_slot op target fill have_sqe now s =
     (case ring_get_request (snd s) of
        None \<Rightarrow> s
      | Some (i, c1) \<Rightarrow>
          (case ring_submit_op op target True have_sqe now i (fst s) (upd_request i fill c1) of
             (Inl e, t, c2) \<Rightarrow> (t, ring_put_request c2 (int i))
           | (Inr _, t, c2) \<Rightarrow> (t, c2)))"

fun run_action :: "cb_action \<Rightarrow> ring_state \<Rightarrow> ring_state" where
  "run_action (CbSubmit op target fd buf n off callback ud have_sqe now) s =
     submit_slot op target (fill_request fd buf n off callback ud) have_sqe now s"
| "run_action (CbFlush submitted) s = locked_flush submitted s"

definition action_callback ::
    "(nat \<Rightarrow> nat \<Rightarrow> int \<Rightarrow> nat \<Rightarrow> cb_action list) \<Rightarrow> completion_fn" where
  "action_callback prog f i res ud s = fold run_action (prog f i res ud) s"

lemma ring_get_request_frame:
  "ring_get_request c = Some (i, c') \<Longrightarrow> pending_count c' = pending_count c \<and>
     queued_sqes c' = queued_sqes c \<and> ring c' = ring c \<and> ring_frame c' = ring_frame c"
  by (auto simp: ring_get_request_def Let_def ring_frame_def upd_request_def split: if_splits)

text \<open>Filling in the fields of a checked-out request leaves the pool alone.\<close>

definition keeps_slot_state :: "(aura_request \<Rightarrow> aura_request) \<Rightarrow> bool" where
  "keeps_slot_state f \<longleftrightarrow> (\<forall>q. rq_in_pool (f q) = rq_in_pool q \<and> rq_pending (f q) = rq_pending q \<and>
     rq_op_idx (f q) = rq_op_idx q)"

lemma upd_held_request:
  assumes "ring_inv k c" "i \<in> held_slots c" "keeps_slot_state f"
  shows "ring_inv k (upd_request i f c)" "held_slots (upd_request i f c) = held_slots c"
    "ring_frame (upd_request i f c) = ring_frame c" "free_slots (upd_request i f c) = free_slots c"
    "pending_slots (upd_request i f c) = pending_slots c"
proof -
  have i: "i < max_requests c" "length (requests c) = max_requests c" "slots_wf c"
      "\<not> rq_in_pool (requests c ! i)" "\<not> rq_pending (requests c ! i)"
    using assms by (auto simp: ring_inv_def held_slots_def slots_wf_def)
  have s: "held_slots (upd_request i f c) = held_slots c"
      "pending_slots (upd_request i f c) = pending_slots c"
      "free_slots (upd_request i f c) = free_slots c"
    using slots_upd_request[OF i(1,2), of f] i assms(2,3)
    by (auto simp: keeps_slot_state_def pending_slots_def)
  have "slots_wf (upd_request i f c)"
    using slots_wf_upd_same[OF i(3,1), of f] i assms(3) by (simp add: keeps_slot_state_def)
  then show "ring_inv k (upd_request i f c)" using assms(1) s by (simp add: ring_inv_def)
  show "held_slots (upd_request i f c) = held_slots c" "free_slots (upd_request i f c) = free_slots c"
    "pending_slots (upd_request i f c) = pending_slots c" by (fact s)+
  show "ring_frame (upd_request i f c) = ring_frame c" by (simp add: ring_frame_def upd_request_def)
qed

lemma keeps_fill [simp]: "keeps_slot_state (fill_request fd buf n off f ud)"
  by (simp add: keeps_slot_state_def fill_request_def)

lemmas fill_request_slots = upd_held_request[OF _ _ keeps_fill]

lemma in_flight_ring_frame: "ring_frame (in_flight op ts sc sqe i c) = ring_frame c"
  by (simp add: ring_frame_def)

lemma submit_slot_props:
  fixes op target fd buf n off f ud h now t
  assumes "ring_inv k c"
  defines "s' \<equiv> submit_slot op target (fill_request fd buf n off f ud) h now (t, c)"
  shows "ring_inv k (snd s') \<and> held_slots (snd s') = held_slots c \<and> ring_frame (snd s') = ring_frame c"
proof (cases "ring_get_request c")
  case None
  then show ?thesis using assms by (simp add: submit_slot_def)
next
  case (Some p)
  then obtain i c1 where g: "ring_get_request c = Some (i, c1)" by (cases p) auto
  have w: "slots_wf c" using assms by (simp add: ring_inv_def)
  note gs = ring_get_request_slots[OF w g] and gf = ring_get_request_frame[OF g]
  have c1: "ring_inv k c1" "i \<in> held_slots c1" "i \<notin> held_slots c"
    using gs gf assms slots_partition(2)[OF w] by (auto simp: ring_inv_def)
  let ?c2 = "upd_request i (fill_request fd buf n off f ud) c1"
  note fl = fill_request_slots[OF c1(1,2), of fd buf n off f ud]
  obtain r t2 c3 where sub: "ring_submit_op op target True h now i t ?c2 = (r, t2, c3)"
    by (metis prod_cases3)
  have "submits op i t ?c2 (r, t2, c3)" using submits_op[of op i t ?c2] sub by metis
  then show ?thesis
  proof cases
    case refused
    have "s' = (t2, ring_put_request c3 (int i))"
      using g sub refused(1) by (simp add: s'_def submit_slot_def)
    moreover have "ring_inv k (ring_put_request ?c2 (int i))"
      "held_slots (ring_put_request ?c2 (int i)) = held_slots c"
      using ring_put_request_held[of ?c2 i] fl c1 gs by (auto simp: ring_inv_def)
    ultimately show ?thesis using refused fl gf by simp
  next
    case (accepted sqe ts sc)
    have s': "s' = (t2, c3)" using g sub accepted(1) by (simp add: s'_def submit_slot_def)
    have "held_slots c3 = held_slots c"
      using accepted(2) in_flight_slots[of ?c2 i] fl c1 gs by (auto simp: ring_inv_def)
    then show ?thesis
      using s' accepted(2) in_flight_inv[OF fl(1)] fl c1 gf by (simp add: in_flight_ring_frame)
  qed
qed

lemma locked_flush_props:
  assumes "ring_inv k (snd s)"
  shows "ring_inv k (snd (locked_flush n s)) \<and> held_slots (snd (locked_flush n s)) = held_slots (snd s) \<and>
    pending_slots (snd (locked_flush n s)) = pending_slots (snd s) \<and>
    ring_frame (snd (locked_flush n s)) = ring_frame (snd s)"
proof -
  obtain st d where l: "ring_lock (snd s) = (st, d)" by fastforce
  obtain r t e where f: "ring_flush n (fst s) d = (r, t, e)" by (metis prod_cases3)
  have d: "ring_inv k d" "held_slots d = held_slots (snd s)" "pending_slots d = pending_slots (snd s)"
    using assms ring_lock_unlock_fields(1)[OF l] ring_inv_cong[of d "snd s"] slots_cong[of d "snd s"] by auto
  note fi = ring_flush_inv[OF d(1) f]
  have u: "ring_inv k (ring_unlock st e)" "held_slots (ring_unlock st e) = held_slots e"
      "pending_slots (ring_unlock st e) = pending_slots e"
    using ring_inv_cong[of "ring_unlock st e" e] slots_cong[of "ring_unlock st e" e] fi(1)
    by (simp_all add: ring_lock_unlock_fields(2-))
  have "ring_frame e = ring_frame d"
    using f by (auto simp: ring_flush_def Let_def ring_frame_def sq_consume_def split: if_splits)
  then show ?thesis using l f u fi d unlock_frame[OF l, of e] by (simp add: locked_flush_def)
qed

lemma run_action_props:
  "ring_inv k (snd s) \<Longrightarrow> ring_inv k (snd (run_action a s)) \<and>
    held_slots (snd (run_action a s)) = held_slots (snd s) \<and>
    ring_frame (snd (run_action a s)) = ring_frame (snd s)"
  using submit_slot_props[of k "snd s"] locked_flush_props[of k s]
  by (cases a; cases s) auto

lemma fold_run_action_props:
  "ring_inv k (snd s) \<Longrightarrow> ring_inv k (snd (fold run_action as s)) \<and>
    held_slots (snd (fold run_action as s)) = held_slots (snd s) \<and>
    ring_frame (snd (fold run_action as s)) = ring_frame (snd s)"
proof (induction as arbitrary: s)
  case (Cons a as)
  then show ?case using Cons.IH[of "run_action a s"] run_action_props[of k s a] by simp
qed simp

interpretation chained: completion_callback "action_callback prog" for prog
  by unfold_locales (simp_all add: action_callback_def fold_run_action_props)

section \<open>Batched and inline retirement agree\<close>

text \<open>A callback that touches nothing; a request without a callback behaves the same.\<close>

definition idle_callback :: completion_fn where
  "idle_callback f i res ud s = s"

interpretation idle: completion_callback idle_callback
  by unfold_locales (simp_all add: idle_callback_def)

lemma process_idle:
  "process_completion idle_callback q (t, c) =
     (case cqe_req q of
        Some i \<Rightarrow>
          if rq_pending (requests c ! i)
          then (\<lparr>re_op_idx = rq_op_idx (requests c ! i), re_result = cqe_res q,
                 re_op_type = rq_op_type (requests c ! i)\<rparr>, t, claim_completion q i c)
          else (\<lparr>re_op_idx = -1, re_result = cqe_res q, re_op_type = AURA_OP_CANCEL\<rparr>, t, c)
      | None \<Rightarrow> (\<lparr>re_op_idx = -1, re_result = cqe_res q, re_op_type = AURA_OP_CANCEL\<rparr>, t, c))"
  by (simp add: process_completion_def idle_callback_def Let_def split: option.split)

definition retire_ops :: "retire_entry \<Rightarrow> int" where
  "retire_ops e = (if re_op_type e \<noteq> AURA_OP_CANCEL then 1 else 0)"

definition retire_bytes :: "retire_entry \<Rightarrow> int" where
  "retire_bytes e = (if re_op_type e \<noteq> AURA_OP_CANCEL \<and> re_result e > 0 \<and>
     op_is_data_transfer (re_op_type e) then re_result e else 0)"

lemma retire_inline_held:
  assumes "re_op_idx e = int j" "j \<in> held_slots c"
  shows "retire_inline e c = c\<lparr>requests := (requests c)[j := (requests c ! j)\<lparr>rq_in_pool := True\<rparr>],
    free_request_stack := (free_request_stack c)[free_request_count c := j],
    free_request_count := free_request_count c + 1, pending_count := pending_count c - 1,
    ops_completed := ops_completed c + retire_ops e,
    bytes_completed := bytes_completed c + retire_bytes e\<rparr>"
  using assms
  by (simp add: retire_inline_def ring_put_request_def retire_counters_def held_slots_def Let_def
      upd_request_def retire_ops_def retire_bytes_def)

lemma claim_completion_form:
  fixes c :: ring_ctx
  shows "\<exists>ctrl nb nf. \<forall>d. requests d ! i = requests c ! i \<longrightarrow> adaptive d = adaptive c \<longrightarrow>
     fixed_buf_inflight d = fixed_buf_inflight c \<longrightarrow> fixed_file_inflight d = fixed_file_inflight c \<longrightarrow>
     claim_completion q i d = d\<lparr>requests := (requests d)[i := (requests c ! i)\<lparr>rq_pending := False\<rparr>],
       adaptive := ctrl, fixed_buf_inflight := nb, fixed_file_inflight := nf\<rparr>"
proof -
  let ?x = "claim_completion q i c"
  have "\<forall>d. requests d ! i = requests c ! i \<longrightarrow> adaptive d = adaptive c \<longrightarrow>
     fixed_buf_inflight d = fixed_buf_inflight c \<longrightarrow> fixed_file_inflight d = fixed_file_inflight c \<longrightarrow>
     claim_completion q i d = d\<lparr>requests := (requests d)[i := (requests c ! i)\<lparr>rq_pending := False\<rparr>],
       adaptive := adaptive ?x, fixed_buf_inflight := fixed_buf_inflight ?x,
       fixed_file_inflight := fixed_file_inflight ?x\<rparr>"
    by (simp add: claim_completion_def Let_def upd_request_def)
  then show ?thesis by blast
qed

lemma claim_retire_commute:
  assumes "re_op_idx e = int j" "j \<in> held_slots c" "i \<in> pending_slots c"
  shows "claim_completion q i (retire_inline e c) = retire_inline e (claim_completion q i c)"
proof -
  obtain ctrl nb nf where f: "\<And>d. requests d ! i = requests c ! i \<Longrightarrow> adaptive d = adaptive c \<Longrightarrow>
     fixed_buf_inflight d = fixed_buf_inflight c \<Longrightarrow> fixed_file_inflight d = fixed_file_inflight c \<Longrightarrow>
     claim_completion q i d = d\<lparr>requests := (requests d)[i := (requests c ! i)\<lparr>rq_pending := False\<rparr>],
       adaptive := ctrl, fixed_buf_inflight := nb, fixed_file_inflight := nf\<rparr>"
    using claim_completion_form[of i c q] by blast
  have ij: "i \<noteq> j" "j \<noteq> i" using assms by (auto simp: held_slots_def pending_slots_def)
  note r = retire_inline_held[OF assms(1,2)]
  let ?cl = "c\<lparr>requests := (requests c)[i := (requests c ! i)\<lparr>rq_pending := False\<rparr>],
       adaptive := ctrl, fixed_buf_inflight := nb, fixed_file_inflight := nf\<rparr>"
  have cl: "claim_completion q i c = ?cl" by (rule f) simp_all
  have "j \<in> held_slots ?cl" using assms(2) ij by (simp add: held_slots_def)
  note r2 = retire_inline_held[OF assms(1) this]
  have "claim_completion q i (retire_inline e c) =
      (retire_inline e c)\<lparr>requests := (requests (retire_inline e c))[i := (requests c ! i)\<lparr>rq_pending := False\<rparr>],
       adaptive := ctrl, fixed_buf_inflight := nb, fixed_file_inflight := nf\<rparr>"
    by (rule f) (simp_all add: r ij)
  then show ?thesis unfolding cl r r2 by (simp add: ij list_update_swap)
qed

lemma process_retire_commute:
  assumes "slots_wf c" "re_op_idx e < 0 \<or> (\<exists>j. re_op_idx e = int j \<and> j \<in> held_slots c)"
    "cqe_valid c q" "process_completion idle_callback q (t, c) = (e', t, c')"
  shows "process_completion idle_callback q (t, retire_inline e c) = (e', t, retire_inline e c')"
proof (cases "re_op_idx e < 0")
  case True
  then show ?thesis using assms(4) by (simp add: retire_inline_def)
next
  case False
  then obtain j where j: "re_op_idx e = int j" "j \<in> held_slots c" using assms(2) by auto
  have same: "rq_pending (requests (retire_inline e c) ! i) = rq_pending (requests c ! i)"
     "rq_op_idx (requests (retire_inline e c) ! i) = rq_op_idx (requests c ! i)"
     "rq_op_type (requests (retire_inline e c) ! i) = rq_op_type (requests c ! i)" for i
    by (cases "i = j"; cases "j < length (requests c)";
        simp add: retire_inline_held[OF j] list_update_beyond)+
  show ?thesis
  proof (cases "\<exists>i. cqe_req q = Some i \<and> rq_pending (requests c ! i)")
    case True
    then obtain i where i: "cqe_req q = Some i" "rq_pending (requests c ! i)" by blast
    then have "i \<in> pending_slots c" using assms(3) by (simp add: cqe_valid_def pending_slots_def)
    from claim_retire_commute[OF j this] i assms(4) show ?thesis by (auto simp: process_idle same)
  next
    case False
    then show ?thesis using assms(4) by (auto simp: process_idle same split: option.splits)
  qed
qed

lemma process_idle_tls: "fst (snd (process_completion idle_callback q (t, c))) = t"
  by (simp add: process_idle split: option.split)

lemma process_batch_idle_tls: "process_batch idle_callback qs (t, c) = (es, t', c') \<Longrightarrow> t' = t"
proof (induction qs arbitrary: c es)
  case (Cons q qs)
  obtain e t1 c1 where 1: "process_completion idle_callback q (t, c) = (e, t1, c1)" by (metis prod_cases3)
  then have "t1 = t" using process_idle_tls[of q t c] by simp
  then show ?case using Cons 1 by (auto split: prod.splits)
qed simp

lemma process_batch_retire_commute:
  assumes "ring_inv k c" "re_op_idx e < 0 \<or> (\<exists>j. re_op_idx e = int j \<and> j \<in> held_slots c)"
    "\<forall>q \<in> set qs. cqe_valid c q" "process_batch idle_callback qs (t, c) = (es, t', c')"
  shows "process_batch idle_callback qs (t, retire_inline e c) = (es, t, retire_inline e c')"
  using assms
proof (induction qs arbitrary: k c es)
  case (Cons q qs)
  obtain e1 c1 where 1: "process_completion idle_callback q (t, c) = (e1, t, c1)"
    using process_idle_tls[of q t c] by (metis prod.collapse)
  obtain fs where 2: "process_batch idle_callback qs (t, c1) = (fs, t', c')" "es = e1 # fs"
    using Cons.prems(4) 1 by (auto split: prod.splits)
  have v: "cqe_valid c q" "\<forall>x \<in> set qs. cqe_valid c x" using Cons.prems(3) by auto
  have w: "slots_wf c" using Cons.prems(1) by (simp add: ring_inv_def)
  note p = process_retire_commute[OF w Cons.prems(2) v(1) 1]
  have "\<exists>k'. ring_inv k' c1 \<and> held_slots c \<subseteq> held_slots c1 \<and> ring_frame c1 = ring_frame c"
    using Cons.prems(1) by (cases rule: idle.process_completion_cases[OF Cons.prems(1) v(1) 1]) auto
  then obtain k' where k: "ring_inv k' c1" "held_slots c \<subseteq> held_slots c1" "ring_frame c1 = ring_frame c"
    by blast
  have "process_batch idle_callback qs (t, retire_inline e c1) = (fs, t, retire_inline e c')"
    using Cons.IH[OF k(1) _ _ 2(1)] Cons.prems(2) k v(2) cqe_valid_frame[OF k(3)] by auto
  then show ?case using p 2(2) by simp
qed simp

lemma retire_counters_comm:
  "retire_counters e (c\<lparr>pending_count := x\<rparr>) = (retire_counters e c)\<lparr>pending_count := x\<rparr>"
  "retire_counters e (c\<lparr>lock := y\<rparr>) = (retire_counters e c)\<lparr>lock := y\<rparr>"
  "retire_counters e (c\<lparr>st_users := y\<rparr>) = (retire_counters e c)\<lparr>st_users := y\<rparr>"
  "lock (retire_counters e c) = lock c" "st_users (retire_counters e c) = st_users c"
  by (simp_all add: retire_counters_def Let_def)

lemma put_request_comm:
  "ring_put_request (c\<lparr>pending_count := x\<rparr>) i = (ring_put_request c i)\<lparr>pending_count := x\<rparr>"
  "ring_put_request (c\<lparr>lock := y\<rparr>) i = (ring_put_request c i)\<lparr>lock := y\<rparr>"
  "ring_put_request (c\<lparr>st_users := y\<rparr>) i = (ring_put_request c i)\<lparr>st_users := y\<rparr>"
  "lock (ring_put_request c i) = lock c" "st_users (ring_put_request c i) = st_users c"
  by (simp_all add: ring_put_request_def Let_def upd_request_def)

lemma retire_one_comm:
  "retire_one e (c\<lparr>pending_count := x\<rparr>) = (retire_one e c)\<lparr>pending_count := x\<rparr>"
  "retire_one e (c\<lparr>lock := y\<rparr>) = (retire_one e c)\<lparr>lock := y\<rparr>"
  "retire_one e (c\<lparr>st_users := y\<rparr>) = (retire_one e c)\<lparr>st_users := y\<rparr>"
  "lock (retire_one e c) = lock c" "st_users (retire_one e c) = st_users c"
  "pending_count (retire_one e c) = pending_count c"
  by (simp_all add: retire_one_def retire_counters_comm put_request_comm retire_counters_fields)

lemma fold_retire_one_comm:
  "fold retire_one es (c\<lparr>lock := y\<rparr>) = (fold retire_one es c)\<lparr>lock := y\<rparr>"
  "fold retire_one es (c\<lparr>st_users := y\<rparr>) = (fold retire_one es c)\<lparr>st_users := y\<rparr>"
  "lock (fold retire_one es c) = lock c" "st_users (fold retire_one es c) = st_users c"
  "pending_count (fold retire_one es c) = pending_count c"
  "fold retire_one es (c\<lparr>pending_count := x\<rparr>) = (fold retire_one es c)\<lparr>pending_count := x\<rparr>"
  by (induction es arbitrary: c) (simp_all add: retire_one_comm)

lemma fold_retire_inline:
  "fold retire_inline es c =
     (fold retire_one es c)\<lparr>pending_count := pending_count c - int (length (retired es))\<rparr>"
proof (induction es arbitrary: c)
  case (Cons e es)
  have "retire_inline e c = (retire_one e c)\<lparr>pending_count :=
      pending_count c - (if re_op_idx e < 0 then 0 else 1)\<rparr>"
    by (simp add: retire_inline_def retire_one_def Let_def retire_counters_fields)
  then show ?case using Cons.IH[of "retire_inline e c"]
    by (simp add: fold_retire_one_comm retire_one_comm)
qed simp

lemma retire_batch_inline: "ring_retire_batch es c = fold retire_inline es c"
  by (cases "es = []"; cases "single_thread c")
    (simp_all add: ring_retire_batch_def ring_lock_def ring_unlock_def fold_retire_inline Let_def
      fold_retire_one_comm retired_def)

text \<open>The inline path on a fixed queue.\<close>

fun fast_run :: "io_uring_cqe list \<Rightarrow> ring_state \<Rightarrow> ring_state" where
  "fast_run [] s = s"
| "fast_run (q # qs) s =
     (let (e, t, c) = process_completion idle_callback q s in fast_run qs (t, retire_inline e c))"

lemma drain_fast_loop_run:
  "drain_fast_loop idle_callback cq [] n s = (n + length cq, fast_run cq s)"
proof (induction cq arbitrary: n s)
  case (Cons q qs)
  show ?case by (subst drain_fast_loop.simps) (simp add: cq_refill_def Cons split_beta Let_def)
qed (simp add: drain_fast_loop.simps cq_refill_def)

lemma fast_run_append: "fast_run (xs @ ys) s = fast_run ys (fast_run xs s)"
  by (induction xs arbitrary: s) (simp_all add: split_beta Let_def)

lemma batch_eq_fast_run:
  assumes "ring_inv k c" "\<forall>q \<in> set qs. cqe_valid c q" "process_batch idle_callback qs (t, c) = (es, t', c')"
  shows "fast_run qs (t, c) = (t, ring_retire_batch es c')"
  using assms unfolding retire_batch_inline
proof (induction qs arbitrary: c c' es)
  case (Cons q qs)
  obtain e c1 where 1: "process_completion idle_callback q (t, c) = (e, t, c1)"
    using process_idle_tls[of q t c] by (metis prod.collapse)
  obtain fs where 2: "process_batch idle_callback qs (t, c1) = (fs, t', c')" "es = e # fs"
    using Cons.prems(3) 1 by (auto split: prod.splits)
  have v: "cqe_valid c q" "\<forall>x \<in> set qs. cqe_valid c x" using Cons.prems(2) by auto
  have "\<exists>k'. ring_inv k' c1 \<and> ring_frame c1 = ring_frame c \<and>
      (re_op_idx e < 0 \<or> (\<exists>j. re_op_idx e = int j \<and> j \<in> held_slots c1))"
    using Cons.prems(1) by (cases rule: idle.process_completion_cases[OF Cons.prems(1) v(1) 1]) auto
  then obtain k' where k: "ring_inv k' c1" "ring_frame c1 = ring_frame c"
      "re_op_idx e < 0 \<or> (\<exists>j. re_op_idx e = int j \<and> j \<in> held_slots c1)" by blast
  have "process_batch idle_callback qs (t, retire_inline e c1) = (fs, t, retire_inline e c')"
    using process_batch_retire_commute[OF k(1,3) _ 2(1)] v(2) cqe_valid_frame[OF k(2)] by simp
  moreover have st: "ring_inv k (retire_inline e c1)" "ring_frame (retire_inline e c1) = ring_frame c"
    using idle.fast_step[OF Cons.prems(1) v(1) 1] by auto
  moreover have "\<forall>x \<in> set qs. cqe_valid (retire_inline e c1) x"
    using v(2) cqe_valid_frame[OF st(2)] by simp
  moreover have "t' = t" using process_batch_idle_tls[OF 2(1)] .
  ultimately have "fast_run qs (t, retire_inline e c1) = (t, fold retire_inline fs (retire_inline e c'))"
    using Cons.IH[OF st(1)] by blast
  then show ?case using 1 2(2) by simp
qed simp

text \<open>
  Claim C8. The batched drain of shared rings and the inline drain of single-thread rings are
  the same function when the callbacks do not touch the ring: on any completion queue,
  duplicates and unknown CQEs included, they report the same count and leave the same slots,
  counters, statistics and controller, although the first defers retirement by a whole batch
  and adjusts the in-flight count once.
\<close>

theorem batched_drain_equals_fast_drain:
  assumes "ring_inv k c" and "cqes_valid c cq []" and "0 < poll_batch_size c" and "ring_initialized c"
  shows "ring_drain_cqes idle_callback cq [] (t, c) = ring_drain_cqes_fast idle_callback cq [] (t, c)"
proof -
  have "drain_loop idle_callback b cq [] n (t, c) = (n + length cq, fast_run cq (t, c))"
    if "0 < b" "ring_inv k c" "cqes_valid c cq []" for b n c
    using that(2,3)
  proof (induction "length cq" arbitrary: cq n c rule: less_induct)
    case less
    let ?n = "min b (length cq)"
    obtain es t' c' where b: "process_batch idle_callback (take ?n cq) (t, c) = (es, t', c')"
      by (metis prod_cases3)
    have t': "t' = t" using process_batch_idle_tls[OF b] .
    have v: "\<forall>q \<in> set (take ?n cq). cqe_valid c q" using cqes_valid_parts(1)[OF less.prems(2)] .
    show ?case
    proof (cases "cq = []")
      case True
      then show ?thesis by (subst drain_loop_unfold) (simp add: cq_refill_def)
    next
      case False
      note st = idle.batch_step[OF less.prems(1) v b]
      have f: "fast_run (take ?n cq) (t, c) = (t, ring_retire_batch es c')"
        using batch_eq_fast_run[OF less.prems(1) v b] .
      have len: "length (drop ?n cq) < length cq" using False \<open>0 < b\<close> by auto
      have "cqes_valid (ring_retire_batch es c') (drop ?n cq) []"
        using cqes_valid_parts(2)[OF less.prems(2)] cqes_valid_frame st by metis
      from less.hyps[OF len _ this, of "n + ?n"] st
      have "drain_loop idle_callback b (drop ?n cq) [] (n + ?n) (t, ring_retire_batch es c') =
          (n + length cq, fast_run (drop ?n cq) (t, ring_retire_batch es c'))" by simp
      moreover have "fast_run cq (t, c) = fast_run (drop ?n cq) (t, ring_retire_batch es c')"
        using fast_run_append[of "take ?n cq" "drop ?n cq"] f by simp
      ultimately show ?thesis using False \<open>0 < b\<close> b t'
        by (subst drain_loop_unfold) (simp add: cq_refill_def Let_def)
    qed
  qed
  then show ?thesis using assms
    by (simp add: ring_drain_cqes_def ring_drain_cqes_fast_def drain_fast_loop_run)
qed

definition demo_cqe :: io_uring_cqe where
  "demo_cqe = \<lparr>cqe_req = Some 7, cqe_res = 512, cqe_now = 2005\<rparr>"

text \<open>A callback that answers every completion by reading the next block.\<close>

definition read_next :: completion_fn where
  "read_next = action_callback (\<lambda>f i res ud. [CbSubmit AURA_OP_READ 0 3 64 512 res f ud True 9])"

lemma demo_flying_facts:
  "ring_inv 0 demo_flying" "pending_slots demo_flying = {7}" "max_requests demo_flying = 8"
  "ring_initialized demo_flying" "poll_batch_size demo_flying = 16"
proof -
  have w: "slots_wf demo_held" using demo_held_facts(2) by (simp add: ring_inv_def)
  show "ring_inv 0 demo_flying" "pending_slots demo_flying = {7}" "max_requests demo_flying = 8"
      "ring_initialized demo_flying"
    using in_flight_slots(2)[OF w demo_held_facts(3)] demo_held_facts
      in_flight_inv[OF demo_held_facts(2,3)] by (simp_all add: demo_flying_def)
  have "poll_batch_size demo_held = poll_batch_size demo_ring"
    using ring_get_request_frame[OF demo_held_facts(1)] by (simp add: ring_frame_def)
  then show "poll_batch_size demo_flying = 16"
    using ring_init_inv(5)[OF demo_ring_init] by (simp add: demo_flying_def poll_batch_for_def)
qed



text \<open>
  Claim C7. A request completes once: after a CQE for a slot was processed, its callback
  included, another CQE for the same slot is ignored until the slot is retired. It retires
  nothing and changes no state, even when the callback submitted further operations, because
  the slot stays checked out while its callback runs.
\<close>

theorem duplicate_completion_ignored:
  assumes "completion_callback cb" and "ring_inv k c" and "cqe_valid c q"
    and "process_completion cb q (tls, c) = (e, tls', c')" and "cqe_req q' = cqe_req q"
  shows "re_op_idx (fst (process_completion cb q' (tls', c'))) = -1 \<and>
    snd (process_completion cb q' (tls', c')) = (tls', c')"
  using completion_callback.duplicate_ignored[OF assms] .

theorem duplicate_completion_ignored_witness:
  "case process_completion read_next demo_cqe (demo_tls, demo_flying) of
     (e, s') \<Rightarrow> re_op_idx e = 7 \<and> snd (process_completion read_next demo_cqe s') = s'"
proof -
  have cb: "completion_callback read_next"
    unfolding read_next_def by (rule chained.completion_callback_axioms)
  have v: "cqe_valid demo_flying demo_cqe"
    by (simp add: cqe_valid_def demo_cqe_def demo_flying_facts(3))
  obtain e t c where p: "process_completion read_next demo_cqe (demo_tls, demo_flying) = (e, t, c)"
    by (metis prod_cases3)
  have "re_op_idx e = 7"
    by (cases rule: completion_callback.process_completion_cases[OF cb demo_flying_facts(1) v p])
      (auto simp: demo_cqe_def demo_flying_facts(2))
  then show ?thesis
    using duplicate_completion_ignored[OF cb demo_flying_facts(1) v p refl] unfolding p by simp
qed

theorem batched_drain_equals_fast_drain_witness:
  "ring_drain_cqes idle_callback [demo_cqe, demo_cqe] [] (demo_tls, demo_flying) =
   ring_drain_cqes_fast idle_callback [demo_cqe, demo_cqe] [] (demo_tls, demo_flying)"
  by (rule batched_drain_equals_fast_drain[OF demo_flying_facts(1)])
    (simp_all add: cqes_valid_def cqe_valid_def demo_cqe_def demo_flying_facts)

end
