(* ===== verification/Ring_Fixed_Use.thy ===== *)
theory Ring_Fixed_Use
  imports Ring_Completion
begin

text \<open>
  The counters of a ring that hold back the unregistration of buffers and files: each equals
  the number of requests in flight that use a registered buffer or file, and completions and
  callbacks keep it so.
\<close>

section \<open>Users of registered buffers and files\<close>

definition buf_users :: "ring_ctx \<Rightarrow> nat set" where
  "buf_users c = {i \<in> pending_slots c. rq_uses_registered_buffer (requests c ! i)}"

definition file_users :: "ring_ctx \<Rightarrow> nat set" where
  "file_users c = {i \<in> pending_slots c. rq_uses_registered_file (requests c ! i)}"

text \<open>The two counters of a ring are the numbers of requests in flight that use each kind.\<close>

definition uses_ok :: "ring_ctx \<Rightarrow> bool" where
  "uses_ok c \<longleftrightarrow> fixed_buf_inflight c = of_nat (card (buf_users c)) \<and>
     fixed_file_inflight c = of_nat (card (file_users c))"

lemma finite_users [simp]: "finite (buf_users c)" "finite (file_users c)"
  by (simp_all add: buf_users_def file_users_def)

lemma users_cong:
  assumes "pending_slots c' = pending_slots c"
    "\<And>i. i \<in> pending_slots c \<Longrightarrow> rq_uses_registered_buffer (requests c' ! i) = rq_uses_registered_buffer (requests c ! i) \<and>
       rq_uses_registered_file (requests c' ! i) = rq_uses_registered_file (requests c ! i)"
  shows "buf_users c' = buf_users c" "file_users c' = file_users c"
  using assms by (auto simp: buf_users_def file_users_def)

lemma uses_cong:
  assumes "pending_slots c' = pending_slots c"
    "\<And>i. i \<in> pending_slots c \<Longrightarrow> rq_uses_registered_buffer (requests c' ! i) = rq_uses_registered_buffer (requests c ! i) \<and>
       rq_uses_registered_file (requests c' ! i) = rq_uses_registered_file (requests c ! i)"
    "fixed_buf_inflight c' = fixed_buf_inflight c" "fixed_file_inflight c' = fixed_file_inflight c"
  shows "uses_ok c' = uses_ok c"
  using users_cong[OF assms(1,2)] assms(3,4) by (simp add: uses_ok_def)

text \<open>Steps that touch neither the requests' flags nor the counters.\<close>

definition uses_view where
  "uses_view c = (map (\<lambda>q. (rq_pending q, rq_uses_registered_buffer q, rq_uses_registered_file q)) (requests c),
     max_requests c, fixed_buf_inflight c, fixed_file_inflight c)"

lemma uses_view_ok:
  assumes "uses_view c' = uses_view c" "length (requests c) = max_requests c"
  shows "uses_ok c' = uses_ok c"
proof (rule uses_cong)
  have l: "length (requests c') = length (requests c)" "max_requests c' = max_requests c"
    using assms(1) by (auto simp: uses_view_def dest: map_eq_imp_length_eq)
  have n: "rq_pending (requests c' ! i) = rq_pending (requests c ! i) \<and>
      rq_uses_registered_buffer (requests c' ! i) = rq_uses_registered_buffer (requests c ! i) \<and>
      rq_uses_registered_file (requests c' ! i) = rq_uses_registered_file (requests c ! i)" if "i < max_requests c" for i
  proof -
    have "map (\<lambda>q. (rq_pending q, rq_uses_registered_buffer q, rq_uses_registered_file q)) (requests c') ! i =
      map (\<lambda>q. (rq_pending q, rq_uses_registered_buffer q, rq_uses_registered_file q)) (requests c) ! i"
      using assms(1) by (simp add: uses_view_def)
    then show ?thesis using that l assms(2) by simp
  qed
  show "pending_slots c' = pending_slots c" using n l by (auto simp: pending_slots_def)
  show "rq_uses_registered_buffer (requests c' ! i) = rq_uses_registered_buffer (requests c ! i) \<and>
       rq_uses_registered_file (requests c' ! i) = rq_uses_registered_file (requests c ! i)" if "i \<in> pending_slots c" for i
    using n that by (simp add: pending_slots_def)
qed (use assms in \<open>simp_all add: uses_view_def\<close>)

lemma inv_requests: "ring_inv k c \<Longrightarrow> length (requests c) = max_requests c"
  by (simp add: ring_inv_def slots_wf_def)

lemma map_upd_same: "f (g (xs ! i)) = f (xs ! i) \<Longrightarrow> map f (xs[i := g (xs ! i)]) = map f xs"
  by (metis list_update_id map_update)

lemma view_put [simp]: "uses_view (ring_put_request c j) = uses_view c"
  unfolding ring_put_request_def Let_def uses_view_def upd_request_def by (simp add: map_upd_same)

lemma view_counters [simp]: "uses_view (retire_counters e c) = uses_view c"
  by (simp add: retire_counters_def uses_view_def Let_def)

lemma view_pending [simp]: "uses_view (c\<lparr>pending_count := n\<rparr>) = uses_view c"
  by (simp add: uses_view_def)

lemma view_locks [simp]: "uses_view (ring_unlock st c) = uses_view c" "uses_view (snd (ring_lock c)) = uses_view c"
  by (simp_all add: ring_unlock_def ring_lock_def uses_view_def)

lemma view_retire [simp]: "uses_view (retire_one e c) = uses_view c" "uses_view (retire_inline e c) = uses_view c"
  by (simp_all add: retire_one_def retire_inline_def Let_def)

lemma view_fold_retire: "uses_view (fold retire_one es c) = uses_view c"
  by (induction es arbitrary: c) simp_all

lemma view_batch [simp]: "uses_view (ring_retire_batch es c) = uses_view c"
  by (simp add: ring_retire_batch_def Let_def split_beta view_fold_retire)

lemma view_flush: "ring_flush n t c = (r, t', c') \<Longrightarrow> uses_view c' = uses_view c"
  by (auto simp: ring_flush_def Let_def uses_view_def sq_consume_def split: if_splits)

section \<open>Completions\<close>

lemma claim_uses:
  assumes "ring_inv k c" "i \<in> pending_slots c" "uses_ok c"
  shows "uses_ok (claim_completion q i c)"
proof -
  let ?c = "claim_completion q i c"
  note p = claim_completion_slots(2)[OF assms(1,2), of q]
  have l: "i < length (requests c)" using assms(1,2) inv_requests by (simp add: pending_slots_def)
  have flags: "rq_uses_registered_buffer (requests ?c ! j) = rq_uses_registered_buffer (requests c ! j)"
    "rq_uses_registered_file (requests ?c ! j) = rq_uses_registered_file (requests c ! j)" for j
    using l by (auto simp: claim_completion_fields requests_upd_request)
  have b: "buf_users ?c = buf_users c - {i}" "file_users ?c = file_users c - {i}"
    using p flags by (auto simp: buf_users_def file_users_def)
  have cnt: "fixed_buf_inflight ?c = fixed_buf_inflight c - (if rq_uses_registered_buffer (requests c ! i) then 1 else 0)"
    "fixed_file_inflight ?c = fixed_file_inflight c - (if rq_uses_registered_file (requests c ! i) then 1 else 0)"
    by (simp_all add: claim_completion_def Let_def upd_request_def)
  have "(of_nat (card (S - {i})) :: u32) = of_nat (card S) - (if i \<in> S then 1 else 0)" if "finite S" for S :: "nat set"
  proof (cases "i \<in> S")
    case True
    then have "card S = card (S - {i}) + 1" using card_Suc_Diff1[OF that] by simp
    then show ?thesis using True by simp
  qed simp
  from this[of "buf_users c"] this[of "file_users c"] show ?thesis
    using assms(2,3) b cnt by (simp add: uses_ok_def buf_users_def file_users_def)
qed

text \<open>Callbacks that also keep the counters.\<close>

locale counting_callback = completion_callback +
  assumes cb_uses: "ring_inv k c \<Longrightarrow> uses_ok c \<Longrightarrow> uses_ok (snd (cb f i res ud (t, c)))"
begin

lemma process_completion_uses:
  assumes "ring_inv k c" "cqe_valid c q" "uses_ok c" "process_completion cb q (t, c) = (e, t', c')"
  shows "uses_ok c'"
proof (cases "\<exists>i. cqe_req q = Some i \<and> rq_pending (requests c ! i)")
  case False
  then show ?thesis using assms(3,4) by (auto simp: process_completion_def Let_def split: option.splits)
next
  case True
  then obtain i where i: "cqe_req q = Some i" "rq_pending (requests c ! i)" by blast
  then have p: "i \<in> pending_slots c" using assms(2) by (simp add: cqe_valid_def pending_slots_def)
  note cl = claim_uses[OF assms(1) p assms(3), of q] and inv = claim_completion_slots(1)[OF assms(1) p, of q]
  show ?thesis using assms(4) i cl cb_uses[OF inv cl]
    by (auto simp: process_completion_def Let_def split_beta split: if_splits)
qed

lemma process_batch_uses:
  assumes "ring_inv k c" "\<forall>q \<in> set qs. cqe_valid c q" "uses_ok c" "process_batch cb qs (t, c) = (es, t', c')"
  shows "uses_ok c'"
  using assms
proof (induction qs arbitrary: k c t es)
  case (Cons q qs)
  obtain e t1 c1 where 1: "process_completion cb q (t, c) = (e, t1, c1)" by (metis prod_cases3)
  obtain fs where 2: "process_batch cb qs (t1, c1) = (fs, t', c')"
    using Cons.prems(4) 1 by (auto split: prod.splits)
  have v: "cqe_valid c q" "\<forall>x \<in> set qs. cqe_valid c x" using Cons.prems(2) by auto
  have "\<exists>k'. ring_inv k' c1 \<and> ring_frame c1 = ring_frame c"
    by (cases rule: process_completion_cases[OF Cons.prems(1) v(1) 1, case_names ignored completed])
      (use Cons.prems(1) in auto)
  then obtain k' where k': "ring_inv k' c1" "ring_frame c1 = ring_frame c" by blast
  have v1: "\<forall>x \<in> set qs. cqe_valid c1 x" using v(2) cqe_valid_frame[OF k'(2)] by simp
  show ?case
    by (rule Cons.IH[OF k'(1) v1 process_completion_uses[OF Cons.prems(1) v(1) Cons.prems(3) 1] 2])
qed simp

lemma drain_loop_uses:
  assumes "ring_inv k (snd s)" "cqes_valid (snd s) cq arrivals" "uses_ok (snd s)"
    "drain_loop cb b cq arrivals n s = (m, s')"
  shows "uses_ok (snd s')"
  using assms
proof (induction "cq_weight cq arrivals" arbitrary: cq arrivals n s rule: less_induct)
  case less
  let ?a = "cq_refill cq arrivals" and ?n = "min b (length (cq_refill cq arrivals))"
  obtain t c where s: "s = (t, c)" by fastforce
  obtain es t1 c1 where b: "process_batch cb (take ?n ?a) (t, c) = (es, t1, c1)" by (metis prod_cases3)
  show ?case
  proof (cases "?n = 0")
    case True
    then have "s' = s" using less.prems(4) by (subst (asm) drain_loop_unfold) (simp add: Let_def)
    then show ?thesis using less.prems(3) by simp
  next
    case False
    note v = cqes_valid_refill[OF less.prems(2)]
    have q: "\<forall>q \<in> set (take ?n ?a). cqe_valid c q" using cqes_valid_parts(1)[OF v] s by simp
    have c: "ring_inv k c" "uses_ok c" using less.prems(1,3) s by simp_all
    note st = batch_step[OF c(1) q b]
    have "ring_inv (k + int (length (retired es))) c1" using process_batch_props[OF c(1) q b] by simp
    then have u: "uses_ok (ring_retire_batch es c1)"
      using uses_view_ok[OF view_batch inv_requests] process_batch_uses[OF c(1) q c(2) b] by blast
    have d: "drain_loop cb b (drop ?n ?a) (tl arrivals) (n + ?n) (t1, ring_retire_batch es c1) = (m, s')"
      using less.prems(4) False b unfolding s by (subst (asm) drain_loop_unfold) (simp add: Let_def)
    have w: "cq_weight (drop ?n ?a) (tl arrivals) < cq_weight cq arrivals"
      by (rule cq_weight_drop[OF False]) simp
    have "cqes_valid (ring_retire_batch es c1) (drop ?n ?a) (tl arrivals)"
      using cqes_valid_parts(2)[OF v] cqes_valid_frame[of "ring_retire_batch es c1" c] st s by simp
    from less.hyps[OF w _ _ _ d] this st u show ?thesis by auto
  qed
qed

lemma drain_fast_loop_uses:
  assumes "ring_inv k (snd s)" "cqes_valid (snd s) cq arrivals" "uses_ok (snd s)"
    "drain_fast_loop cb cq arrivals n s = (m, s')"
  shows "uses_ok (snd s')"
  using assms
proof (induction "cq_weight cq arrivals" arbitrary: cq arrivals n s rule: less_induct)
  case less
  obtain t c where s: "s = (t, c)" by fastforce
  show ?case
  proof (cases "cq_refill cq arrivals")
    case Nil
    then have "s' = s" using less.prems(4) by (subst (asm) drain_fast_loop.simps) simp
    then show ?thesis using less.prems(3) by simp
  next
    case (Cons q qs)
    obtain e t1 c1 where b: "process_completion cb q (t, c) = (e, t1, c1)" by (metis prod_cases3)
    have v: "cqes_valid c (q # qs) (tl arrivals)"
      using cqes_valid_refill[OF less.prems(2)] Cons s by simp
    then have v1: "cqe_valid c q" "cqes_valid c qs (tl arrivals)" by (auto simp: cqes_valid_def)
    have c: "ring_inv k c" "uses_ok c" using less.prems(1,3) s by simp_all
    note st = fast_step[OF c(1) v1(1) b]
    have "\<exists>k'. ring_inv k' c1"
      by (cases rule: process_completion_cases[OF c(1) v1(1) b, case_names ignored completed]) (use c(1) in auto)
    then have u: "uses_ok (retire_inline e c1)"
      using uses_view_ok[OF view_retire(2) inv_requests] process_completion_uses[OF c(1) v1(1) c(2) b] by blast
    have d: "drain_fast_loop cb qs (tl arrivals) (n + 1) (t1, retire_inline e c1) = (m, s')"
      using less.prems(4) Cons b unfolding s by (subst (asm) drain_fast_loop.simps) (simp add: Let_def)
    have w: "cq_weight qs (tl arrivals) < cq_weight cq arrivals"
      using cq_weight_drop[of 1 cq arrivals] Cons by simp
    have "cqes_valid (retire_inline e c1) qs (tl arrivals)"
      using v1(2) cqes_valid_frame[of "retire_inline e c1" c] st by simp
    from less.hyps[OF w _ _ _ d] this st u show ?thesis by auto
  qed
qed

lemma ring_poll_uses:
  assumes "ring_inv k (snd s)" "cqes_valid (snd s) cq arrivals" "uses_ok (snd s)" "ring_poll cb cq arrivals s = (m, s')"
  shows "uses_ok (snd s')"
  using assms drain_loop_uses[OF assms(1-3)] drain_fast_loop_uses[OF assms(1-3)]
  by (auto simp: ring_poll_def ring_drain_cqes_def ring_drain_cqes_fast_def split: if_splits)

end


section \<open>Submissions\<close>

lemma get_request_uses:
  assumes "slots_wf c" "ring_get_request c = Some (i, c')"
  shows "uses_ok c' = uses_ok c" "\<not> rq_uses_registered_buffer (requests c' ! i)" "\<not> rq_uses_registered_file (requests c' ! i)"
    "i < length (requests c')"
proof -
  note g = ring_get_request_slots[OF assms]
  have l: "i < length (requests c)" using g(2) assms(1) by (auto simp: slots_wf_def)
  have r: "requests c' = (requests c)[i := fresh_request (requests c ! i)]"
    "fixed_buf_inflight c' = fixed_buf_inflight c" "fixed_file_inflight c' = fixed_file_inflight c"
    using assms(2) by (auto simp: ring_get_request_def Let_def upd_request_def split: if_splits)
  have "i \<notin> pending_slots c" using g(2) assms(1) by (auto simp: slots_wf_def)
  then have "rq_uses_registered_buffer (requests c' ! j) = rq_uses_registered_buffer (requests c ! j) \<and>
       rq_uses_registered_file (requests c' ! j) = rq_uses_registered_file (requests c ! j)" if "j \<in> pending_slots c" for j
    using that r(1) by (cases "j = i") auto
  then show "uses_ok c' = uses_ok c" by (rule uses_cong[OF g(5)]) (use r in auto)
  show "\<not> rq_uses_registered_buffer (requests c' ! i)" "\<not> rq_uses_registered_file (requests c' ! i)" "i < length (requests c')"
    using l r(1) by (simp_all add: fresh_request_def)
qed

lemma upd_held_uses:
  assumes "ring_inv k c" "i \<in> held_slots c" "keeps_slot_state f"
  shows "uses_ok (upd_request i f c) = uses_ok c"
proof (rule uses_cong[OF upd_held_request(5)[OF assms]])
  fix j
  assume "j \<in> pending_slots c"
  then have "j \<noteq> i" using assms(2) by (auto simp: held_slots_def pending_slots_def)
  then show "rq_uses_registered_buffer (requests (upd_request i f c) ! j) = rq_uses_registered_buffer (requests c ! j) \<and>
       rq_uses_registered_file (requests (upd_request i f c) ! j) = rq_uses_registered_file (requests c ! j)"
    by (simp add: upd_request_def)
qed (simp_all add: upd_request_def)

lemma in_flight_users:
  assumes "slots_wf c" "i \<in> held_slots c"
  shows "buf_users (in_flight op ts sc sqe i c) =
      (if rq_uses_registered_buffer (requests c ! i) then insert i (buf_users c) else buf_users c)"
    "file_users (in_flight op ts sc sqe i c) =
      (if rq_uses_registered_file (requests c ! i) then insert i (file_users c) else file_users c)"
    "i \<notin> buf_users c" "i \<notin> file_users c"
    "fixed_buf_inflight (in_flight op ts sc sqe i c) = fixed_buf_inflight c"
    "fixed_file_inflight (in_flight op ts sc sqe i c) = fixed_file_inflight c"
proof -
  have l: "i < length (requests c)" using assms by (auto simp: slots_wf_def held_slots_def)
  have r: "rq_uses_registered_buffer (requests (in_flight op ts sc sqe i c) ! j) = rq_uses_registered_buffer (requests c ! j)"
    "rq_uses_registered_file (requests (in_flight op ts sc sqe i c) ! j) = rq_uses_registered_file (requests c ! j)" for j
    using l by (auto simp: in_flight_def sq_push_def requests_upd_request)
  show "buf_users (in_flight op ts sc sqe i c) =
      (if rq_uses_registered_buffer (requests c ! i) then insert i (buf_users c) else buf_users c)"
    "file_users (in_flight op ts sc sqe i c) =
      (if rq_uses_registered_file (requests c ! i) then insert i (file_users c) else file_users c)"
    using in_flight_slots(2)[OF assms] r by (auto simp: buf_users_def file_users_def)
  show "i \<notin> buf_users c" "i \<notin> file_users c"
    using assms(2) by (auto simp: buf_users_def file_users_def held_slots_def pending_slots_def)
  show "fixed_buf_inflight (in_flight op ts sc sqe i c) = fixed_buf_inflight c"
    "fixed_file_inflight (in_flight op ts sc sqe i c) = fixed_file_inflight c"
    by (simp_all add: in_flight_def sq_push_def upd_request_def)
qed

text \<open>A request goes in flight, its uses counted before or after.\<close>

lemma in_flight_uses:
  assumes "slots_wf c" "i \<in> held_slots c" "uses_ok c"
  shows "uses_ok ((in_flight op ts sc sqe i c)\<lparr>
      fixed_buf_inflight := fixed_buf_inflight c + (if rq_uses_registered_buffer (requests c ! i) then 1 else 0),
      fixed_file_inflight := fixed_file_inflight c + (if rq_uses_registered_file (requests c ! i) then 1 else 0)\<rparr>)"
proof -
  let ?d = "in_flight op ts sc sqe i c"
  have v: "buf_users (?d\<lparr>fixed_buf_inflight := x, fixed_file_inflight := y\<rparr>) = buf_users ?d"
    "file_users (?d\<lparr>fixed_buf_inflight := x, fixed_file_inflight := y\<rparr>) = file_users ?d" for x y
    by (simp_all add: buf_users_def file_users_def pending_slots_def)
  show ?thesis unfolding uses_ok_def v
    using in_flight_users[OF assms(1,2)] assms(3) by (simp add: uses_ok_def)
qed

lemma submit_slot_uses:
  assumes "ring_inv k c" "uses_ok c"
  shows "uses_ok (snd (submit_slot op target (fill_request fd buf n off f ud) h now (t, c)))"
proof (cases "ring_get_request c")
  case None
  then show ?thesis using assms by (simp add: submit_slot_def)
next
  case (Some p)
  then obtain i c1 where g: "ring_get_request c = Some (i, c1)" by (cases p) auto
  have w: "slots_wf c" using assms by (simp add: ring_inv_def)
  note gs = ring_get_request_slots[OF w g] and gf = ring_get_request_frame[OF g] and gu = get_request_uses[OF w g]
  have c1: "ring_inv k c1" "i \<in> held_slots c1" using gs gf assms by (auto simp: ring_inv_def)
  let ?c2 = "upd_request i (fill_request fd buf n off f ud) c1"
  note fl = fill_request_slots[OF c1, of fd buf n off f ud] and fu = upd_held_uses[OF c1 keeps_fill, of fd buf n off f ud]
  have u2: "uses_ok ?c2" using fu gu(1) assms(2) by simp
  have flags: "\<not> rq_uses_registered_buffer (requests ?c2 ! i)" "\<not> rq_uses_registered_file (requests ?c2 ! i)"
    using gu(2-4) by (simp_all add: requests_upd_request fill_request_def)
  obtain r t2 c3 where sub: "ring_submit_op op target True h now i t ?c2 = (r, t2, c3)" by (metis prod_cases3)
  have "submits op i t ?c2 (r, t2, c3)" using submits_op[of op i t ?c2] sub by metis
  then show ?thesis
  proof cases
    case (refused err)
    then show ?thesis using g sub u2 uses_view_ok[OF view_put inv_requests[OF fl(1)]] by (simp add: submit_slot_def)
  next
    case (accepted sqe ts sc)
    have "slots_wf ?c2" "i \<in> held_slots ?c2" using fl c1(2) by (simp_all add: ring_inv_def)
    from in_flight_uses[OF this u2, of op ts sc sqe] flags in_flight_users(5,6)[OF this, of op ts sc sqe] accepted(2)
    have "uses_ok (c3\<lparr>fixed_buf_inflight := fixed_buf_inflight c3, fixed_file_inflight := fixed_file_inflight c3\<rparr>)" by simp
    then show ?thesis using g sub accepted(1) by (simp add: submit_slot_def)
  qed
qed

lemma locked_flush_uses:
  assumes "ring_inv k (snd s)" "uses_ok (snd s)"
  shows "uses_ok (snd (locked_flush n s))"
proof -
  obtain st d where l: "ring_lock (snd s) = (st, d)" by fastforce
  obtain r t e where f: "ring_flush n (fst s) d = (r, t, e)" by (metis prod_cases3)
  have "uses_view (ring_unlock st e) = uses_view (snd s)" using view_flush[OF f] view_locks(2)[of "snd s"] l by simp
  then show ?thesis using uses_view_ok[OF _ inv_requests[OF assms(1)]] assms(2) l f by (simp add: locked_flush_def)
qed

lemma fold_run_action_uses:
  "ring_inv k (snd s) \<Longrightarrow> uses_ok (snd s) \<Longrightarrow> uses_ok (snd (fold run_action as s))"
proof (induction as arbitrary: s)
  case (Cons a as)
  have "uses_ok (snd (run_action a s))"
    using submit_slot_uses[of k "snd s"] locked_flush_uses[of k s] Cons.prems by (cases a; cases s) auto
  then show ?case using Cons.IH[of "run_action a s"] run_action_props[OF Cons.prems(1), of a] by simp
qed simp

interpretation counted: counting_callback "action_callback prog" for prog
  by unfold_locales (simp add: action_callback_def fold_run_action_uses)

text \<open>
  The counters that hold back unregistration are exact through completions: if before
  a poll each counter of the ring equals the number of requests in flight that use a registered
  buffer (or file), it does after, whatever completions arrive and whatever further operations
  the callbacks submit.
\<close>

theorem poll_keeps_use_counts:
  assumes "counting_callback cb" and "ring_inv 0 c" and "uses_ok c" and "cqes_valid c cq arrivals"
    and "ring_poll cb cq arrivals (tls, c) = (n, tls', c')"
  shows "fixed_buf_inflight c' = of_nat (card {i \<in> pending_slots c'. rq_uses_registered_buffer (requests c' ! i)}) \<and>
    fixed_file_inflight c' = of_nat (card {i \<in> pending_slots c'. rq_uses_registered_file (requests c' ! i)})"
  using counting_callback.ring_poll_uses[OF assms(1) _ _ _ assms(5), of 0] assms(2-4)
  by (simp add: uses_ok_def buf_users_def file_users_def)

definition demo_fixed :: ring_ctx where
  "demo_fixed = (in_flight AURA_OP_READ 5 1 (blank_sqe (PrepRead 3 64 512 0) 7) 7
     (upd_request 7 (\<lambda>q. q\<lparr>rq_uses_registered_file := True\<rparr>) demo_held))\<lparr>fixed_buf_inflight := 0, fixed_file_inflight := 1\<rparr>"

lemma demo_fixed_facts: "ring_inv 0 demo_fixed" "uses_ok demo_fixed" "max_requests demo_fixed = 8"
proof -
  let ?f = "\<lambda>q. q\<lparr>rq_uses_registered_file := True\<rparr>"
  let ?c = "upd_request 7 ?f demo_held"
  have k: "keeps_slot_state ?f" by (simp add: keeps_slot_state_def)
  note u = upd_held_request[OF demo_held_facts(2,3) k]
  have w: "slots_wf ?c" "7 \<in> held_slots ?c" using u demo_held_facts(3) by (simp_all add: ring_inv_def)
  have r: "rq_uses_registered_file (requests ?c ! 7)" "rq_uses_registered_buffer (requests ?c ! 7) = False"
    "fixed_buf_inflight ?c = 0" "fixed_file_inflight ?c = 0"
    by (simp_all add: demo_held_def demo_ring_def ring_init_def queue_init_ladder_def Let_def adaptive_init_def
        initial_inflight_for_def c_div_def ring_get_request_def upd_request_def fresh_request_def)
  have "uses_ok ?c" using u(5) demo_held_facts(4) r by (simp add: uses_ok_def buf_users_def file_users_def)
  then show "uses_ok demo_fixed" unfolding demo_fixed_def
    using in_flight_uses[OF w, of AURA_OP_READ 5 1 "blank_sqe (PrepRead 3 64 512 0) 7"] r
      in_flight_users(5)[OF w, of AURA_OP_READ 5 1 "blank_sqe (PrepRead 3 64 512 0) 7"] by simp
  have "ring_inv 0 (in_flight AURA_OP_READ 5 1 (blank_sqe (PrepRead 3 64 512 0) 7) 7 ?c)"
    by (rule in_flight_inv[OF u(1) w(2)])
  then show "ring_inv 0 demo_fixed" unfolding demo_fixed_def
    by (subst ring_inv_cong[of _ "in_flight AURA_OP_READ 5 1 (blank_sqe (PrepRead 3 64 512 0) 7) 7 ?c"]) simp_all
  show "max_requests demo_fixed = 8" using demo_held_facts(6) by (simp add: demo_fixed_def)
qed

theorem poll_keeps_use_counts_witness:
  "case ring_poll read_next [demo_cqe] [] (demo_tls, demo_fixed) of
     (n, tls', c') \<Rightarrow> fixed_file_inflight c' =
       of_nat (card {i \<in> pending_slots c'. rq_uses_registered_file (requests c' ! i)})"
proof -
  have cb: "counting_callback read_next" unfolding read_next_def by (rule counted.counting_callback_axioms)
  have v: "cqes_valid demo_fixed [demo_cqe] []"
    by (simp add: cqes_valid_def cqe_valid_def demo_cqe_def demo_fixed_facts(3))
  obtain n t c where e: "ring_poll read_next [demo_cqe] [] (demo_tls, demo_fixed) = (n, t, c)"
    by (metis prod_cases3)
  from poll_keeps_use_counts[OF cb demo_fixed_facts(1,2) v e] show ?thesis unfolding e by simp
qed

end
