(* ===== verification/Engine_Core.thy ===== *)
theory Engine_Core
  imports Ring_Fixed_Use
begin

text \<open>
  The engine of \<^verbatim>\<open>src/engine/src/aura.c\<close>: its state, ring selection, the latched fatal error,
  registered files and buffers at submission, and the submission operations of the public
  interface with their begin, end and abort steps.

  The number of rings and of registered files and buffers are the lengths of the arrays. A
  pointer to a ring is the identity of the engine with the index in its array; a request
  pointer is the ring's index with the slot. The reader-writer lock is the number of outstanding
  read and write acquisitions. The kernel's answers, the clock and the current CPU are arguments;
  a callback acts on the ring whose completion it handles. An operation is one step of one thread;
  the value \<open>None\<close> is a spin loop on a counter that only another thread could change.
\<close>

section \<open>State\<close>

datatype aura_ring_select =
    AURA_SELECT_ADAPTIVE | AURA_SELECT_CPU_LOCAL | AURA_SELECT_ROUND_ROBIN | AURA_SELECT_THREAD_LOCAL

record aura_engine =
  eng_id :: nat
  rings :: "ring_ctx list"
  eng_queue_depth :: int
  next_ring :: u32
  avg_ring_pending :: int
  eng_shutting_down :: bool
  ring_select :: aura_ring_select
  eng_single_thread :: bool
  fatal_submit_errno :: int
  buffers_registered :: bool
  files_registered :: bool
  buffers_unreg_pending :: bool
  files_unreg_pending :: bool
  reg_readers :: int
  reg_writers :: int
  registered_buffers :: "(nat \<times> nat) list"
  registered_files :: "int list"
  running :: bool
  stop_requested :: bool
  tick_running :: bool
  adaptive_enabled :: bool
  eng_sqpoll_enabled :: bool
  event_fd :: int
  eventfd_registered :: bool
  eventfd_value :: nat
  buffer_alignment :: nat
  adaptive_spills :: u64

type_synonym ring_ptr = "nat \<times> nat"
type_synonym request_ptr = "nat \<times> nat"

record engine_tls =
  tl_ring :: thread_locals
  pthread_self :: u64
  cached_cpu :: int
  cpu_refresh_counter :: int
  tls_link_ring :: "ring_ptr option"
  tls_link_depth :: int
  tls_last_ring :: "ring_ptr option"
  tls_owned_ring :: "ring_ptr option"
  tls_engine :: "nat option"
  tls_rng_state :: u32

abbreviation ring_count :: "aura_engine \<Rightarrow> nat" where
  "ring_count e \<equiv> length (rings e)"

definition set_ring :: "nat \<Rightarrow> ring_ctx \<Rightarrow> aura_engine \<Rightarrow> aura_engine" where
  "set_ring i c e = e\<lparr>rings := (rings e)[i := c]\<rparr>"

text \<open>A ring pointer that belongs to this engine (the range checks of lines 224, 789, 1972).\<close>

definition points_into :: "aura_engine \<Rightarrow> ring_ptr option \<Rightarrow> bool" where
  "points_into e p = (case p of None \<Rightarrow> False | Some (d, i) \<Rightarrow> d = eng_id e \<and> i < ring_count e)"

definition ring_of :: "ring_ptr option \<Rightarrow> nat" where
  "ring_of p = (case p of None \<Rightarrow> 0 | Some (d, i) \<Rightarrow> i)"

section \<open>Ring selection\<close>

abbreviation SELECT_RING_REFRESH :: int where "SELECT_RING_REFRESH \<equiv> 32"

text \<open>\<open>cpu\<close> is the answer of \<open>sched_getcpu\<close>.\<close>

definition select_ring_cpu_local :: "int \<Rightarrow> engine_tls \<Rightarrow> aura_engine \<Rightarrow> nat \<times> engine_tls" where
  "select_ring_cpu_local cpu t e =
     (let n = int (ring_count e);
          k = cpu_refresh_counter t - 1;
          t1 = (if k \<le> 0 then t\<lparr>cpu_refresh_counter := SELECT_RING_REFRESH, cached_cpu := cpu\<rparr>
                else t\<lparr>cpu_refresh_counter := k\<rparr>)
      in if cached_cpu t1 \<ge> 0 \<and> cached_cpu t1 < n then (nat (cached_cpu t1), t1)
         else let c = uint (pthread_self t1) mod n in (nat c, t1\<lparr>cached_cpu := c\<rparr>))"

definition xorshift_tls :: "engine_tls \<Rightarrow> u32 \<times> engine_tls" where
  "xorshift_tls t =
     (let s0 = tls_rng_state t;
          s1 = (if s0 = 0 then
                  let s = xor (ucast (pthread_self t)) 0x5A5A5A5A in if s = 0 then 1 else s
                else s0);
          s2 = xor s1 (push_bit 13 s1);
          s3 = xor s2 (drop_bit 17 s2);
          s4 = xor s3 (push_bit 5 s3)
      in (s4, t\<lparr>tls_rng_state := s4\<rparr>))"

text \<open>
  The claim of a ring by a thread. The second claim of a ring waits for the counters of the
  lock-free critical sections to drain; \<open>enable_ret\<close> is the kernel's answer to the enable call.
\<close>

definition select_ring_thread_local ::
    "int \<Rightarrow> engine_tls \<Rightarrow> aura_engine \<Rightarrow> (nat \<times> engine_tls \<times> aura_engine) option" where
  "select_ring_thread_local enable_ret t e =
     (if tls_engine t = Some (eng_id e) \<and> points_into e (tls_owned_ring t)
      then Some (ring_of (tls_owned_ring t), t, e)
      else
        let i = unat (next_ring e) mod ring_count e;
            e1 = e\<lparr>next_ring := next_ring e + 1\<rparr>;
            c = rings e1 ! i;
            c1 = c\<lparr>owner_count := owner_count c + 1\<rparr>;
            t1 = t\<lparr>tls_owned_ring := Some (eng_id e, i), tls_engine := Some (eng_id e)\<rparr>
        in if owner_count c = 0 then
             let c2 = (if needs_enable c1 then snd (ring_enable enable_ret c1) else c1)
             in Some (i, t1, set_ring i (c2\<lparr>single_thread := True\<rparr>) e1)
           else if st_users c1 > 0 \<or> st_cq_users c1 > 0 then None
           else Some (i, t1, set_ring i (c1\<lparr>single_thread := False\<rparr>) e1))"

text \<open>The two random rings other than the local one (lines 304 to 321).\<close>

definition spill_target :: "nat \<Rightarrow> engine_tls \<Rightarrow> aura_engine \<Rightarrow> nat \<times> engine_tls" where
  "spill_target local_idx t e =
     (let rc = ring_count e;
          (x, t1) = xorshift_tls t;
          a0 = unat x mod (rc - 1);
          a = (if a0 \<ge> local_idx then a0 + 1 else a0);
          (b, t2) = (if rc - 1 \<ge> 2 then
                       let (y, t2) = xorshift_tls t1;
                           b0 = unat y mod (rc - 2);
                           skip1 = (if local_idx < a then local_idx else a);
                           skip2 = (if local_idx < a then a else local_idx);
                           b1 = (if b0 \<ge> skip1 then b0 + 1 else b0);
                           b2 = (if b1 \<ge> skip2 then b1 + 1 else b1)
                       in (b2, t2)
                     else (a, t1));
          pa = pending_count (rings e ! a);
          pb = pending_count (rings e ! b)
      in (if pa \<le> pb then a else b, t2))"

definition select_ring ::
    "int \<Rightarrow> int \<Rightarrow> engine_tls \<Rightarrow> aura_engine \<Rightarrow> (nat \<times> engine_tls \<times> aura_engine) option" where
  "select_ring cpu enable_ret t e =
     (if ring_count e = 1 \<and> \<not> needs_enable (rings e ! 0) then Some (0, t, e)
      else case ring_select e of
        AURA_SELECT_THREAD_LOCAL \<Rightarrow> select_ring_thread_local enable_ret t e
      | AURA_SELECT_ROUND_ROBIN \<Rightarrow>
          Some (unat (next_ring e) mod ring_count e, t, e\<lparr>next_ring := next_ring e + 1\<rparr>)
      | AURA_SELECT_CPU_LOCAL \<Rightarrow>
          (let (i, t1) = select_ring_cpu_local cpu t e in Some (i, t1, e))
      | AURA_SELECT_ADAPTIVE \<Rightarrow>
          (let (l, t1) = select_ring_cpu_local cpu t e;
               pending = pending_count (rings e ! l);
               limit = adaptive_get_inflight_limit (adaptive (rings e ! l));
               avg = avg_ring_pending e
           in if pending < c_div (limit * 3) 4 then Some (l, t1, e)
              else if avg > 0 \<and> pending \<le> avg * 2 then Some (l, t1, e)
              else let (i, t2) = spill_target l t1 e
                   in Some (i, t2, e\<lparr>adaptive_spills := adaptive_spills e + 1\<rparr>)))"

section \<open>The latched fatal error\<close>

definition flush_error_is_fatal :: "int \<Rightarrow> bool" where
  "flush_error_is_fatal err \<longleftrightarrow> err \<noteq> EAGAIN \<and> err \<noteq> EBUSY \<and> err \<noteq> EINTR"

definition latch_fatal_submit_errno :: "int \<Rightarrow> aura_engine \<Rightarrow> aura_engine" where
  "latch_fatal_submit_errno err e =
     (let err' = (if err \<le> 0 then EIO else err)
      in if fatal_submit_errno e \<noteq> 0 then e
         else let e1 = e\<lparr>fatal_submit_errno := err'\<rparr>
              in if event_fd e1 \<ge> 0 then e1\<lparr>eventfd_value := eventfd_value e1 + 1\<rparr> else e1)"

text \<open>What a failed flush does to the engine where the code latches fatal errors only.\<close>

definition latch_flush_result :: "int + int \<Rightarrow> aura_engine \<Rightarrow> aura_engine" where
  "latch_flush_result r e =
     (case r of
        Inl err \<Rightarrow> if flush_error_is_fatal err then latch_fatal_submit_errno err e else e
      | Inr n \<Rightarrow> e)"

definition flush_ring_checked ::
    "int \<Rightarrow> nat \<Rightarrow> engine_tls \<Rightarrow> aura_engine \<Rightarrow> bool \<times> engine_tls \<times> aura_engine" where
  "flush_ring_checked submitted i t e =
     (let (r, tr, c) = ring_flush submitted (tl_ring t) (rings e ! i);
          fatal = (case r of Inl err \<Rightarrow> flush_error_is_fatal err | Inr n \<Rightarrow> False)
      in (fatal, t\<lparr>tl_ring := tr\<rparr>, latch_flush_result r (set_ring i c e)))"

definition ring_is_sole_owner :: "aura_engine \<Rightarrow> ring_ctx \<Rightarrow> bool" where
  "ring_is_sole_owner e c \<longleftrightarrow>
     single_thread c \<and> (ring_select e = AURA_SELECT_THREAD_LOCAL \<or> ring_count e = 1)"

definition drain_eventfd :: "aura_engine \<Rightarrow> aura_engine" where
  "drain_eventfd e = (if event_fd e \<ge> 0 then e\<lparr>eventfd_value := 0\<rparr> else e)"

section \<open>Registered files and buffers at submission\<close>

record file_resolve_guard =
  g_submit_fd :: int
  g_uses_registered_file :: bool
  g_locked :: bool

fun find_fd :: "int \<Rightarrow> int list \<Rightarrow> nat \<Rightarrow> nat option" where
  "find_fd fd [] i = None"
| "find_fd fd (x # xs) i = (if x = fd then Some i else find_fd fd xs (i + 1))"

definition resolve_registered_file_locked :: "aura_engine \<Rightarrow> int \<Rightarrow> nat option" where
  "resolve_registered_file_locked e fd =
     (if \<not> files_registered e \<or> files_unreg_pending e then None
      else find_fd fd (registered_files e) 0)"

definition reg_rdlock :: "aura_engine \<Rightarrow> aura_engine" where
  "reg_rdlock e = e\<lparr>reg_readers := reg_readers e + 1\<rparr>"

definition reg_rdunlock :: "aura_engine \<Rightarrow> aura_engine" where
  "reg_rdunlock e = e\<lparr>reg_readers := reg_readers e - 1\<rparr>"

definition resolve_file_begin :: "int \<Rightarrow> aura_engine \<Rightarrow> file_resolve_guard \<times> aura_engine" where
  "resolve_file_begin fd e =
     (let g = \<lparr>g_submit_fd = fd, g_uses_registered_file = False, g_locked = False\<rparr>
      in if \<not> files_registered e then (g, e)
         else
           let locked = (\<not> eng_single_thread e);
               e1 = (if locked then reg_rdlock e else e)
           in case resolve_registered_file_locked e1 fd of
                Some i \<Rightarrow> (\<lparr>g_submit_fd = int i, g_uses_registered_file = True, g_locked = locked\<rparr>, e1)
              | None \<Rightarrow> if locked then (g, reg_rdunlock e1) else (g, e1))"

definition resolve_file_end :: "file_resolve_guard \<Rightarrow> aura_engine \<Rightarrow> aura_engine" where
  "resolve_file_end g e = (if g_locked g then reg_rdunlock e else e)"

definition validate_fixed_file :: "aura_engine \<Rightarrow> int \<Rightarrow> bool" where
  "validate_fixed_file e index \<longleftrightarrow>
     files_registered e \<and> \<not> index < 0 \<and> index < int (length (registered_files e))"

abbreviation AURA_FIXED_FILE :: u32 where "AURA_FIXED_FILE \<equiv> 1"

text \<open>\<open>VALIDATE_SUBMIT_FLAGS\<close>, and the test for the fixed-file flag.\<close>

definition valid_submit_flags :: "u32 \<Rightarrow> bool" where
  "valid_submit_flags flags \<longleftrightarrow> and flags (not AURA_FIXED_FILE) = 0"

definition has_fixed_file :: "u32 \<Rightarrow> bool" where
  "has_fixed_file flags \<longleftrightarrow> and flags AURA_FIXED_FILE \<noteq> 0"

text \<open>On success the read lock stays held unless the engine is single-threaded.\<close>

definition validate_registered_buffer ::
    "int \<Rightarrow> nat \<Rightarrow> nat \<Rightarrow> aura_engine \<Rightarrow> (int + nat \<times> nat) \<times> aura_engine" where
  "validate_registered_buffer buf_index buf_offset len e =
     (let e1 = (if eng_single_thread e then e else reg_rdlock e);
          release = (if eng_single_thread e1 then e1 else reg_rdunlock e1)
      in if \<not> buffers_registered e1 then (Inl ENOENT, release)
         else if buffers_unreg_pending e1 then (Inl EBUSY, release)
         else if buf_index < 0 \<or> buf_index \<ge> int (length (registered_buffers e1))
         then (Inl EINVAL, release)
         else let (base, iov_len) = registered_buffers e1 ! nat buf_index
              in if buf_offset \<ge> iov_len \<or> len > iov_len - buf_offset then (Inl EOVERFLOW, release)
                 else (Inr (base, iov_len), e1))"

section \<open>Submission steps\<close>

text \<open>
  What the environment answers during one submission: the current CPU, the enable call of a
  claimed ring, the flush and the completions met when the ring is at its limit, whether an SQE
  was free, the clock, the flush at the end, and the build's ftruncate support.
\<close>

record submit_env =
  sv_cpu :: int
  sv_enable :: int
  sv_flush :: int
  sv_cq :: "io_uring_cqe list"
  sv_arrivals :: "io_uring_cqe list list"
  sv_have_sqe :: bool
  sv_now :: int
  sv_end_flush :: int
  sv_ftruncate :: bool

record submit_ctx =
  sc_ring :: nat
  sc_req :: nat
  sc_lock_st :: bool

type_synonym submit_start = "(int + submit_ctx) \<times> engine_tls \<times> aura_engine"

text \<open>The ring of a submission: the pinned ring of a link chain or a selected one.\<close>

definition pick_ring :: "submit_env \<Rightarrow> engine_tls \<Rightarrow> aura_engine \<Rightarrow> (nat \<times> engine_tls \<times> aura_engine) option" where
  "pick_ring env t e =
     (if tls_engine t = Some (eng_id e) \<and> points_into e (tls_link_ring t)
      then Some (ring_of (tls_link_ring t), t, e)
      else
        let t1 = (if tls_link_ring t \<noteq> None then t\<lparr>tls_link_ring := None, tls_link_depth := 0\<rparr> else t)
        in select_ring (sv_cpu env) (sv_enable env) t1 e)"

text \<open>Taking a slot of ring \<open>i\<close> in state \<open>c\<close>; \<open>c_fail\<close> is the ring an empty pool leaves.\<close>

definition take_slot ::
    "nat \<Rightarrow> bool \<Rightarrow> engine_tls \<Rightarrow> ring_ctx \<Rightarrow> ring_ctx \<Rightarrow> aura_engine \<Rightarrow> submit_start" where
  "take_slot i lock_st t c c_fail e =
     (case ring_get_request c of
        None \<Rightarrow> (Inl ENOMEM, t, set_ring i c_fail e)
      | Some (op_idx, c') \<Rightarrow>
          (Inr \<lparr>sc_ring = i, sc_req = op_idx, sc_lock_st = lock_st\<rparr>, t, set_ring i c' e))"

definition begin_fast :: "completion_fn \<Rightarrow> submit_env \<Rightarrow> nat \<Rightarrow> engine_tls \<Rightarrow> aura_engine \<Rightarrow> submit_start" where
  "begin_fast cb env i t e =
     (let c = rings e ! i
      in if ring_can_submit c then take_slot i True t c c e
         else
           let (r, t1, c1) = ring_flush_fast (sv_flush env) (tl_ring t) c;
               (n, t2, c2) = ring_drain_cqes_fast cb (sv_cq env) (sv_arrivals env) (t1, c1);
               t' = t\<lparr>tl_ring := t2\<rparr>
           in if \<not> ring_can_submit c2 then (Inl EAGAIN, t', set_ring i c2 e)
              else take_slot i True t' c2 c2 e)"

text \<open>After the flush of a full ring: poll without the lock if allowed, and test again.\<close>

definition begin_retry ::
    "completion_fn \<Rightarrow> submit_env \<Rightarrow> bool \<Rightarrow> nat \<Rightarrow> bool \<Rightarrow> engine_tls \<Rightarrow> ring_ctx \<Rightarrow> aura_engine \<Rightarrow> submit_start" where
  "begin_retry cb env allow_poll i st t c e =
     (let (st', tr, c') =
            (if allow_poll then
               let (n, t2, c2) = ring_poll cb (sv_cq env) (sv_arrivals env) (tl_ring t, ring_unlock st c);
                   (st2, c3) = ring_lock c2
               in (st2, t2, c3)
             else (st, tl_ring t, c));
          t' = t\<lparr>tl_ring := tr\<rparr>
      in if \<not> ring_can_submit c' then (Inl EAGAIN, t', set_ring i (ring_unlock st' c') e)
         else take_slot i st' t' c' (ring_unlock st' c') e)"

definition begin_locked ::
    "completion_fn \<Rightarrow> submit_env \<Rightarrow> bool \<Rightarrow> nat \<Rightarrow> engine_tls \<Rightarrow> aura_engine \<Rightarrow> submit_start" where
  "begin_locked cb env allow_poll i t e =
     (let (st, c0) = ring_lock (rings e ! i)
      in if ring_can_submit c0 then take_slot i st t c0 (ring_unlock st c0) e
         else
           let (r, t1, c1) = ring_flush (sv_flush env) (tl_ring t) c0; t' = t\<lparr>tl_ring := t1\<rparr>
           in case r of
                Inl err \<Rightarrow>
                  if flush_error_is_fatal err
                  then (Inl err, t', latch_fatal_submit_errno err (set_ring i (ring_unlock st c1) e))
                  else begin_retry cb env allow_poll i st t' c1 e
              | Inr k \<Rightarrow> begin_retry cb env allow_poll i st t' c1 e)"

definition submit_begin ::
    "completion_fn \<Rightarrow> submit_env \<Rightarrow> bool \<Rightarrow> engine_tls \<Rightarrow> aura_engine \<Rightarrow> submit_start option" where
  "submit_begin cb env allow_poll t e =
     (if fatal_submit_errno e \<noteq> 0 then Some (Inl (fatal_submit_errno e), t, e)
      else if eng_shutting_down e then Some (Inl ESHUTDOWN, t, e)
      else case pick_ring env t e of
             None \<Rightarrow> None
           | Some (i, t1, e1) \<Rightarrow>
               if ring_is_sole_owner e1 (rings e1 ! i) \<and> tls_link_ring t1 = None
               then Some (begin_fast cb env i t1 e1)
               else Some (begin_locked cb env allow_poll i t1 e1))"

definition submit_end :: "submit_env \<Rightarrow> submit_ctx \<Rightarrow> engine_tls \<Rightarrow> aura_engine \<Rightarrow> engine_tls \<times> aura_engine" where
  "submit_end env ctx t e =
     (let i = sc_ring ctx; c = rings e ! i;
          c1 = (if rq_uses_registered_file (requests c ! sc_req ctx)
                then c\<lparr>fixed_file_inflight := fixed_file_inflight c + 1\<rparr> else c);
          t1 = t\<lparr>tls_last_ring := Some (eng_id e, i)\<rparr>
      in if ring_is_sole_owner e c1 \<and> tls_link_ring t = None then
           (if ring_should_flush c1 then
              let (r, tr, c2) = ring_flush_fast (sv_end_flush env) (tl_ring t1) c1
              in (t1\<lparr>tl_ring := tr\<rparr>, set_ring i c2 e)
            else (t1, set_ring i c1 e))
         else if tls_link_ring t \<noteq> None then
           let (st, c2) = (if sc_lock_st ctx then ring_lock c1 else (False, c1));
               (r, tr, c3) = ring_flush (sv_end_flush env) (tl_ring t1) c2
           in (t1\<lparr>tl_ring := tr\<lparr>tls_last_sqe := None\<rparr>, tls_link_ring := None, tls_link_depth := 0\<rparr>,
               latch_flush_result r (set_ring i (ring_unlock st c3) e))
         else if ring_should_flush c1 then
           let (r, tr, c2) = ring_flush (sv_end_flush env) (tl_ring t1) c1
           in (t1\<lparr>tl_ring := tr\<rparr>, latch_flush_result r (set_ring i (ring_unlock (sc_lock_st ctx) c2) e))
         else (t1, set_ring i (ring_unlock (sc_lock_st ctx) c1) e))"

definition submit_abort :: "submit_env \<Rightarrow> submit_ctx \<Rightarrow> engine_tls \<Rightarrow> aura_engine \<Rightarrow> engine_tls \<times> aura_engine" where
  "submit_abort env ctx t e =
     (let i = sc_ring ctx; c = ring_put_request (rings e ! i) (int (sc_req ctx))
      in if tls_link_ring t \<noteq> None then
           let (r, tr, c1) = ring_flush (sv_end_flush env) (tl_ring t) c
           in (t\<lparr>tl_ring := tr, tls_link_ring := None, tls_link_depth := 0\<rparr>,
               set_ring i (ring_unlock (sc_lock_st ctx) c1) e)
         else (t, set_ring i (ring_unlock (sc_lock_st ctx) c) e))"

section \<open>The submission operations\<close>

type_synonym submit_result = "((int + request_ptr) \<times> engine_tls \<times> aura_engine) option"
type_synonym ring_submit_fn = "nat \<Rightarrow> thread_locals \<Rightarrow> ring_ctx \<Rightarrow> ring_submission"

text \<open>
  From a started submission to its end or abort: store the request's fields, call the ring's
  submission function; on failure \<open>undo\<close> is applied to the ring first.
\<close>

definition submit_finish ::
    "submit_env \<Rightarrow> submit_ctx \<Rightarrow> (aura_request \<Rightarrow> aura_request) \<Rightarrow> (ring_ctx \<Rightarrow> ring_ctx) \<Rightarrow>
     (ring_ctx \<Rightarrow> ring_ctx) \<Rightarrow> ring_submit_fn \<Rightarrow> engine_tls \<Rightarrow> aura_engine \<Rightarrow>
     (int + request_ptr) \<times> engine_tls \<times> aura_engine" where
  "submit_finish env ctx setup prepare undo submit_fn t e =
     (let i = sc_ring ctx;
          c = prepare (upd_request (sc_req ctx)
                (\<lambda>req. (setup req)\<lparr>rq_ring_idx := ring_idx (rings e ! i)\<rparr>) (rings e ! i));
          (r, tr, c1) = submit_fn (sc_req ctx) (tl_ring t) c;
          t1 = t\<lparr>tl_ring := tr\<rparr>
      in case r of
           Inl err \<Rightarrow>
             let (t2, e2) = submit_abort env ctx t1 (set_ring i (undo c1) e) in (Inl err, t2, e2)
         | Inr u \<Rightarrow>
             let (t2, e2) = submit_end env ctx t1 (set_ring i c1 e) in (Inr (i, sc_req ctx), t2, e2))"

text \<open>The guard of a submission with an explicit index or a descriptor to look up.\<close>

definition file_guard :: "int \<Rightarrow> u32 \<Rightarrow> aura_engine \<Rightarrow> (file_resolve_guard \<times> aura_engine) option" where
  "file_guard fd flags e =
     (if has_fixed_file flags then
        (if \<not> validate_fixed_file e fd then None
         else Some (\<lparr>g_submit_fd = fd, g_uses_registered_file = True, g_locked = False\<rparr>, e))
      else Some (resolve_file_begin fd e))"

definition SUBMIT_FILE_RESOLVED_OP ::
    "completion_fn \<Rightarrow> submit_env \<Rightarrow> int \<Rightarrow> u32 \<Rightarrow> nat \<Rightarrow> nat \<Rightarrow> ring_submit_fn \<Rightarrow>
     (aura_request \<Rightarrow> aura_request) \<Rightarrow> engine_tls \<Rightarrow> aura_engine \<Rightarrow> submit_result" where
  "SUBMIT_FILE_RESOLVED_OP cb env fd flags callback user_data submit_fn setup t e =
     (if \<not> valid_submit_flags flags then Some (Inl EINVAL, t, e)
      else case file_guard fd flags e of
             None \<Rightarrow> Some (Inl EINVAL, t, e)
           | Some (g, e1) \<Rightarrow>
               (case submit_begin cb env (\<not> g_uses_registered_file g) t e1 of
                  None \<Rightarrow> None
                | Some (Inl err, t2, e2) \<Rightarrow> Some (Inl err, t2, resolve_file_end g e2)
                | Some (Inr ctx, t2, e2) \<Rightarrow>
                    let (r, t3, e3) = submit_finish env ctx
                          (\<lambda>req. setup (req\<lparr>rq_fd := g_submit_fd g, rq_original_fd := fd,
                             rq_callback := callback, rq_user_data := user_data,
                             rq_uses_registered_file := g_uses_registered_file g\<rparr>))
                          id id submit_fn t2 e2
                    in Some (r, t3, resolve_file_end g e3)))"

text \<open>
  \<open>submit_unregistered_io\<close> and \<open>aura_fsync\<close> write the same steps out; their callers have checked
  the flags.
\<close>

definition submit_unregistered_io ::
    "completion_fn \<Rightarrow> submit_env \<Rightarrow> int \<Rightarrow> nat \<Rightarrow> nat \<Rightarrow> int \<Rightarrow> u32 \<Rightarrow> nat \<Rightarrow> nat \<Rightarrow> ring_submit_fn \<Rightarrow>
     engine_tls \<Rightarrow> aura_engine \<Rightarrow> submit_result" where
  "submit_unregistered_io cb env fd buffer len offset flags callback user_data submit_fn t e =
     (case file_guard fd flags e of
        None \<Rightarrow> Some (Inl EINVAL, t, e)
      | Some (g, e1) \<Rightarrow>
          (case submit_begin cb env (\<not> g_uses_registered_file g) t e1 of
             None \<Rightarrow> None
           | Some (Inl err, t2, e2) \<Rightarrow> Some (Inl err, t2, resolve_file_end g e2)
           | Some (Inr ctx, t2, e2) \<Rightarrow>
               let (r, t3, e3) = submit_finish env ctx
                     (\<lambda>req. req\<lparr>rq_fd := g_submit_fd g, rq_original_fd := fd, rq_len := len,
                        rq_offset := offset, rq_callback := callback, rq_user_data := user_data,
                        rq_uses_registered_file := g_uses_registered_file g, rq_buffer := buffer\<rparr>)
                     id id submit_fn t2 e2
               in Some (r, t3, resolve_file_end g e3)))"

definition submit_registered_buffer_io ::
    "completion_fn \<Rightarrow> submit_env \<Rightarrow> int \<Rightarrow> nat \<times> nat \<Rightarrow> int \<Rightarrow> nat \<Rightarrow> nat \<Rightarrow> int \<Rightarrow> u32 \<Rightarrow> nat \<Rightarrow> nat \<Rightarrow>
     ring_submit_fn \<Rightarrow> engine_tls \<Rightarrow> aura_engine \<Rightarrow> submit_result" where
  "submit_registered_buffer_io cb env fd reg_iov buf_index buf_offset len offset flags callback
       user_data submit_fn t e =
     (let st = eng_single_thread e; release = (if st then id else reg_rdunlock)
      in case submit_begin cb env False t e of
           None \<Rightarrow> None
         | Some (Inl err, t1, e1) \<Rightarrow> Some (Inl err, t1, release e1)
         | Some (Inr ctx, t1, e1) \<Rightarrow>
             if has_fixed_file flags \<and> \<not> validate_fixed_file e1 fd then Some (Inl EINVAL, t1, release e1)
             else
               let (submit_fd, use_registered_file) =
                     (if has_fixed_file flags then (fd, True)
                      else case resolve_registered_file_locked e1 fd of
                             Some i \<Rightarrow> (int i, True) | None \<Rightarrow> (fd, False));
                   (r, t2, e2) = submit_finish env ctx
                     (\<lambda>req. req\<lparr>rq_fd := submit_fd, rq_original_fd := fd, rq_len := len,
                        rq_offset := offset, rq_callback := callback, rq_user_data := user_data,
                        rq_uses_registered_buffer := True, rq_uses_registered_file := use_registered_file,
                        rq_buffer := fst reg_iov + buf_offset, rq_buf_index := buf_index,
                        rq_buf_offset := buf_offset\<rparr>)
                     (\<lambda>c. c\<lparr>fixed_buf_inflight := fixed_buf_inflight c + 1\<rparr>)
                     (\<lambda>c. c\<lparr>fixed_buf_inflight := fixed_buf_inflight c - 1\<rparr>)
                     submit_fn t1 e1
               in Some (r, t2, release e2))"

datatype aura_buf = AuraBufUnregistered nat | AuraBufRegistered int nat

definition submit_io_generic ::
    "completion_fn \<Rightarrow> submit_env \<Rightarrow> int \<Rightarrow> aura_buf \<Rightarrow> nat \<Rightarrow> int \<Rightarrow> u32 \<Rightarrow> nat \<Rightarrow> nat \<Rightarrow>
     ring_submit_fn \<Rightarrow> ring_submit_fn \<Rightarrow> engine_tls \<Rightarrow> aura_engine \<Rightarrow> submit_result" where
  "submit_io_generic cb env fd buf len offset flags callback user_data submit_unreg submit_reg t e =
     (if fd < 0 \<or> len = 0 then Some (Inl EINVAL, t, e)
      else if \<not> valid_submit_flags flags then Some (Inl EINVAL, t, e)
      else case buf of
             AuraBufUnregistered ptr \<Rightarrow>
               if ptr = 0 then Some (Inl EINVAL, t, e)
               else submit_unregistered_io cb env fd ptr len offset flags callback user_data submit_unreg t e
           | AuraBufRegistered index boff \<Rightarrow>
               (case validate_registered_buffer index boff len e of
                  (Inl err, e1) \<Rightarrow> Some (Inl err, t, e1)
                | (Inr iov, e1) \<Rightarrow>
                    submit_registered_buffer_io cb env fd iov index boff len offset flags callback
                      user_data submit_reg t e1))"

definition aura_read ::
    "completion_fn \<Rightarrow> submit_env \<Rightarrow> int \<Rightarrow> aura_buf \<Rightarrow> nat \<Rightarrow> int \<Rightarrow> u32 \<Rightarrow> nat \<Rightarrow> nat \<Rightarrow>
     engine_tls \<Rightarrow> aura_engine \<Rightarrow> submit_result" where
  "aura_read cb env fd buf len offset flags callback user_data =
     submit_io_generic cb env fd buf len offset flags callback user_data
       (ring_submit_read (sv_have_sqe env) (sv_now env)) (ring_submit_read_fixed (sv_have_sqe env) (sv_now env))"

definition aura_write ::
    "completion_fn \<Rightarrow> submit_env \<Rightarrow> int \<Rightarrow> aura_buf \<Rightarrow> nat \<Rightarrow> int \<Rightarrow> u32 \<Rightarrow> nat \<Rightarrow> nat \<Rightarrow>
     engine_tls \<Rightarrow> aura_engine \<Rightarrow> submit_result" where
  "aura_write cb env fd buf len offset flags callback user_data =
     submit_io_generic cb env fd buf len offset flags callback user_data
       (ring_submit_write (sv_have_sqe env) (sv_now env)) (ring_submit_write_fixed (sv_have_sqe env) (sv_now env))"

abbreviation AURA_FSYNC_DATASYNC :: u32 where "AURA_FSYNC_DATASYNC \<equiv> 1"
abbreviation AT_FDCWD :: int where "AT_FDCWD \<equiv> -100"

definition aura_fsync ::
    "completion_fn \<Rightarrow> submit_env \<Rightarrow> int \<Rightarrow> u32 \<Rightarrow> u32 \<Rightarrow> nat \<Rightarrow> nat \<Rightarrow> engine_tls \<Rightarrow> aura_engine \<Rightarrow> submit_result" where
  "aura_fsync cb env fd fsync_flags flags callback user_data t e =
     (if fd < 0 then Some (Inl EINVAL, t, e)
      else if and fsync_flags (not AURA_FSYNC_DATASYNC) \<noteq> 0 then Some (Inl EINVAL, t, e)
      else SUBMIT_FILE_RESOLVED_OP cb env fd flags callback user_data
             (if and fsync_flags AURA_FSYNC_DATASYNC \<noteq> 0 then ring_submit_fdatasync (sv_have_sqe env)
              else ring_submit_fsync (sv_have_sqe env)) id t e)"

text \<open>The operations on a path or a raw descriptor take no registered file.\<close>

definition submit_plain_op ::
    "completion_fn \<Rightarrow> submit_env \<Rightarrow> (aura_request \<Rightarrow> aura_request) \<Rightarrow> ring_submit_fn \<Rightarrow>
     engine_tls \<Rightarrow> aura_engine \<Rightarrow> submit_result" where
  "submit_plain_op cb env setup submit_fn t e =
     (case submit_begin cb env True t e of
        None \<Rightarrow> None
      | Some (Inl err, t1, e1) \<Rightarrow> Some (Inl err, t1, e1)
      | Some (Inr ctx, t1, e1) \<Rightarrow> Some (submit_finish env ctx setup id id submit_fn t1 e1))"

definition aura_openat ::
    "completion_fn \<Rightarrow> submit_env \<Rightarrow> int \<Rightarrow> nat \<Rightarrow> int \<Rightarrow> int \<Rightarrow> u32 \<Rightarrow> nat \<Rightarrow> nat \<Rightarrow>
     engine_tls \<Rightarrow> aura_engine \<Rightarrow> submit_result" where
  "aura_openat cb env dirfd pathname open_flags mode flags callback user_data t e =
     (if pathname = 0 \<or> (dirfd < 0 \<and> dirfd \<noteq> AT_FDCWD) then Some (Inl EINVAL, t, e)
      else if flags \<noteq> 0 then Some (Inl EINVAL, t, e)
      else submit_plain_op cb env
             (\<lambda>req. req\<lparr>rq_fd := dirfd, rq_original_fd := dirfd, rq_meta := MetaOpen pathname open_flags mode,
                rq_callback := callback, rq_user_data := user_data, rq_uses_registered_file := False\<rparr>)
             (ring_submit_openat (sv_have_sqe env)) t e)"

definition aura_close ::
    "completion_fn \<Rightarrow> submit_env \<Rightarrow> int \<Rightarrow> u32 \<Rightarrow> nat \<Rightarrow> nat \<Rightarrow> engine_tls \<Rightarrow> aura_engine \<Rightarrow> submit_result" where
  "aura_close cb env fd flags callback user_data t e =
     (if fd < 0 then Some (Inl EINVAL, t, e)
      else if flags \<noteq> 0 then Some (Inl EINVAL, t, e)
      else submit_plain_op cb env
             (\<lambda>req. req\<lparr>rq_fd := fd, rq_original_fd := fd, rq_callback := callback,
                rq_user_data := user_data, rq_uses_registered_file := False\<rparr>)
             (ring_submit_close (sv_have_sqe env)) t e)"

definition aura_statx ::
    "completion_fn \<Rightarrow> submit_env \<Rightarrow> int \<Rightarrow> nat \<Rightarrow> int \<Rightarrow> int \<Rightarrow> nat \<Rightarrow> u32 \<Rightarrow> nat \<Rightarrow> nat \<Rightarrow>
     engine_tls \<Rightarrow> aura_engine \<Rightarrow> submit_result" where
  "aura_statx cb env dirfd pathname statx_flags stmask statxbuf flags callback user_data t e =
     (if pathname = 0 \<or> statxbuf = 0 \<or> (dirfd < 0 \<and> dirfd \<noteq> AT_FDCWD) then Some (Inl EINVAL, t, e)
      else if flags \<noteq> 0 then Some (Inl EINVAL, t, e)
      else submit_plain_op cb env
             (\<lambda>req. req\<lparr>rq_fd := dirfd, rq_original_fd := dirfd,
                rq_meta := MetaStatx pathname statxbuf statx_flags stmask,
                rq_callback := callback, rq_user_data := user_data, rq_uses_registered_file := False\<rparr>)
             (ring_submit_statx (sv_have_sqe env)) t e)"

definition aura_fallocate ::
    "completion_fn \<Rightarrow> submit_env \<Rightarrow> int \<Rightarrow> int \<Rightarrow> int \<Rightarrow> int \<Rightarrow> u32 \<Rightarrow> nat \<Rightarrow> nat \<Rightarrow>
     engine_tls \<Rightarrow> aura_engine \<Rightarrow> submit_result" where
  "aura_fallocate cb env fd mode offset len flags callback user_data t e =
     (if fd < 0 \<or> offset < 0 \<or> len \<le> 0 then Some (Inl EINVAL, t, e)
      else SUBMIT_FILE_RESOLVED_OP cb env fd flags callback user_data
             (ring_submit_fallocate (sv_have_sqe env))
             (\<lambda>req. req\<lparr>rq_offset := offset, rq_len := nat len, rq_meta := MetaFallocate mode\<rparr>) t e)"

definition aura_ftruncate ::
    "completion_fn \<Rightarrow> submit_env \<Rightarrow> int \<Rightarrow> int \<Rightarrow> u32 \<Rightarrow> nat \<Rightarrow> nat \<Rightarrow> engine_tls \<Rightarrow> aura_engine \<Rightarrow> submit_result" where
  "aura_ftruncate cb env fd file_length flags callback user_data t e =
     (if fd < 0 \<or> file_length < 0 then Some (Inl EINVAL, t, e)
      else SUBMIT_FILE_RESOLVED_OP cb env fd flags callback user_data
             (ring_submit_ftruncate (sv_ftruncate env) (sv_have_sqe env))
             (\<lambda>req. req\<lparr>rq_len := nat file_length\<rparr>) t e)"

definition aura_sync_file_range ::
    "completion_fn \<Rightarrow> submit_env \<Rightarrow> int \<Rightarrow> int \<Rightarrow> int \<Rightarrow> int \<Rightarrow> u32 \<Rightarrow> nat \<Rightarrow> nat \<Rightarrow>
     engine_tls \<Rightarrow> aura_engine \<Rightarrow> submit_result" where
  "aura_sync_file_range cb env fd offset nbytes range_flags flags callback user_data t e =
     (if fd < 0 \<or> offset < 0 \<or> nbytes < 0 then Some (Inl EINVAL, t, e)
      else SUBMIT_FILE_RESOLVED_OP cb env fd flags callback user_data
             (ring_submit_sync_file_range (sv_have_sqe env))
             (\<lambda>req. req\<lparr>rq_offset := offset, rq_len := nat nbytes, rq_meta := MetaSyncRange range_flags\<rparr>) t e)"

definition aura_readv ::
    "completion_fn \<Rightarrow> submit_env \<Rightarrow> int \<Rightarrow> nat \<Rightarrow> int \<Rightarrow> int \<Rightarrow> u32 \<Rightarrow> nat \<Rightarrow> nat \<Rightarrow>
     engine_tls \<Rightarrow> aura_engine \<Rightarrow> submit_result" where
  "aura_readv cb env fd iov iovcnt offset flags callback user_data t e =
     (if fd < 0 \<or> iov = 0 \<or> iovcnt \<le> 0 \<or> iovcnt > IOV_MAX then Some (Inl EINVAL, t, e)
      else SUBMIT_FILE_RESOLVED_OP cb env fd flags callback user_data
             (ring_submit_readv (sv_have_sqe env) (sv_now env))
             (\<lambda>req. req\<lparr>rq_iov := iov, rq_iovcnt := iovcnt, rq_offset := offset\<rparr>) t e)"

definition aura_writev ::
    "completion_fn \<Rightarrow> submit_env \<Rightarrow> int \<Rightarrow> nat \<Rightarrow> int \<Rightarrow> int \<Rightarrow> u32 \<Rightarrow> nat \<Rightarrow> nat \<Rightarrow>
     engine_tls \<Rightarrow> aura_engine \<Rightarrow> submit_result" where
  "aura_writev cb env fd iov iovcnt offset flags callback user_data t e =
     (if fd < 0 \<or> iov = 0 \<or> iovcnt \<le> 0 \<or> iovcnt > IOV_MAX then Some (Inl EINVAL, t, e)
      else SUBMIT_FILE_RESOLVED_OP cb env fd flags callback user_data
             (ring_submit_writev (sv_have_sqe env) (sv_now env))
             (\<lambda>req. req\<lparr>rq_iov := iov, rq_iovcnt := iovcnt, rq_offset := offset\<rparr>) t e)"

section \<open>Cancellation, linking and introspection\<close>

definition aura_cancel :: "submit_env \<Rightarrow> request_ptr \<Rightarrow> engine_tls \<Rightarrow> aura_engine \<Rightarrow> (int + unit) \<times> engine_tls \<times> aura_engine" where
  "aura_cancel env rp t e =
     (let req = requests (rings e ! fst rp) ! snd rp
      in if eng_shutting_down e then (Inl ESHUTDOWN, t, e)
         else if \<not> rq_pending req then (Inl EALREADY, t, e)
         else if rq_ring_idx req < 0 \<or> rq_ring_idx req \<ge> int (ring_count e) then (Inl EINVAL, t, e)
         else
           let i = nat (rq_ring_idx req); (st, c0) = ring_lock (rings e ! i)
           in case ring_get_request c0 of
                None \<Rightarrow> (Inl ENOMEM, t, set_ring i (ring_unlock st c0) e)
              | Some (op_idx, c1) \<Rightarrow>
                  let c2 = upd_request op_idx (\<lambda>q. q\<lparr>rq_ring_idx := ring_idx c1, rq_fd := -1,
                             rq_original_fd := -1, rq_callback := 0, rq_user_data := 0\<rparr>) c1;
                      (r, tr, c3) = ring_submit_cancel (sv_have_sqe env) op_idx (snd rp) (tl_ring t) c2
                  in case r of
                       Inl err \<Rightarrow>
                         (Inl (if err = 0 then EIO else err), t\<lparr>tl_ring := tr\<rparr>,
                          set_ring i (ring_unlock st (ring_put_request c3 (int op_idx))) e)
                     | Inr u \<Rightarrow>
                         let (r2, tr2, c4) = ring_flush (sv_flush env) tr c3;
                             e1 = set_ring i (ring_unlock st c4) e; t1 = t\<lparr>tl_ring := tr2\<rparr>
                         in case r2 of
                              Inr n \<Rightarrow> (Inr (), t1, e1)
                            | Inl err \<Rightarrow>
                                if \<not> flush_error_is_fatal err then (Inr (), t1, e1)
                                else let e2 = latch_fatal_submit_errno err e1
                                     in (Inl (fatal_submit_errno e2), t1, e2))"

text \<open>
  Linking the request just submitted to the next one; the engine is the one the thread's
  \<open>tls_engine\<close> points to. The SQE is found by its number in the ring's queue.
\<close>

definition link_sqe :: "nat \<Rightarrow> ring_ctx \<Rightarrow> ring_ctx" where
  "link_sqe n c =
     (let k = n - sq_seq (ring c)
      in if n < sq_seq (ring c) \<or> k \<ge> length (sq (ring c)) then c
         else c\<lparr>ring := (ring c)\<lparr>sq := (sq (ring c))[k := (sq (ring c) ! k)\<lparr>sqe_io_link := True\<rparr>]\<rparr>\<rparr>)"

definition aura_request_set_linked :: "request_ptr \<Rightarrow> engine_tls \<Rightarrow> aura_engine \<Rightarrow> (int + unit) \<times> engine_tls \<times> aura_engine" where
  "aura_request_set_linked rp t e =
     (if tls_engine t \<noteq> Some (eng_id e) \<or> ring_select e \<noteq> AURA_SELECT_THREAD_LOCAL then (Inl EINVAL, t, e)
      else
        let e1 = set_ring (fst rp) (upd_request (snd rp) (\<lambda>q. q\<lparr>rq_linked := True\<rparr>) (rings e ! fst rp)) e;
            e2 = (case tls_last_sqe (tl_ring t) of
                    None \<Rightarrow> e1
                  | Some (k, n) \<Rightarrow> set_ring (nat k) (link_sqe n (rings e1 ! nat k)) e1)
        in case tls_last_ring t of
             None \<Rightarrow> (Inr (), t, e2)
           | Some p \<Rightarrow> (Inr (), t\<lparr>tls_link_ring := Some p, tls_link_depth := tls_link_depth t + 1\<rparr>, e2))"

definition aura_request_is_linked :: "aura_request \<Rightarrow> bool" where
  "aura_request_is_linked req = rq_linked req"

definition aura_request_pending :: "aura_request \<Rightarrow> bool" where
  "aura_request_pending req = rq_pending req"

definition aura_request_fd :: "aura_request \<Rightarrow> int" where
  "aura_request_fd req = (if rq_uses_registered_file req then rq_original_fd req else rq_fd req)"

definition aura_request_user_data :: "aura_request \<Rightarrow> nat" where
  "aura_request_user_data req = rq_user_data req"

definition aura_request_op_type :: "aura_request \<Rightarrow> aura_op_type" where
  "aura_request_op_type req = rq_op_type req"

section \<open>Ring selection stays inside the engine\<close>

lemma cpu_local_index:
  assumes "select_ring_cpu_local cpu t e = (i, t')" "0 < ring_count e"
  shows "i < ring_count e"
proof -
  have "nat (uint x mod int (ring_count e)) < ring_count e" for x :: u64
    using assms(2) by (simp add: nat_less_iff)
  then show ?thesis using assms by (auto simp: select_ring_cpu_local_def Let_def split: if_splits)
qed

lemma spill_target_props:
  assumes "spill_target l t e = (i, t')" "2 \<le> ring_count e" "l < ring_count e"
  shows "i < ring_count e" "i \<noteq> l"
proof -
  let ?rc = "ring_count e"
  obtain x t1 where x: "xorshift_tls t = (x, t1)" by (metis prod.exhaust)
  obtain y t2 where y: "xorshift_tls t1 = (y, t2)" by (metis prod.exhaust)
  define a0 where "a0 = unat x mod (?rc - 1)"
  define a where "a = (if l \<le> a0 then a0 + 1 else a0)"
  define b0 where "b0 = unat y mod (?rc - 2)"
  define b1 where "b1 = (if (if l < a then l else a) \<le> b0 then b0 + 1 else b0)"
  define b2 where "b2 = (if (if l < a then a else l) \<le> b1 then b1 + 1 else b1)"
  have a0: "a0 < ?rc - 1" using assms(2) by (simp add: a0_def)
  then have a: "a < ?rc" "a \<noteq> l" using assms(2,3) by (auto simp: a_def)
  have b: "b2 < ?rc" "b2 \<noteq> l" if "2 \<le> ?rc - 1"
  proof -
    have "b0 < ?rc - 2" using that by (simp add: b0_def)
    moreover have "b1 \<le> b0 + 1" "b2 \<le> b1 + 1" by (simp_all add: b1_def b2_def)
    ultimately show "b2 < ?rc" using that by linarith
    show "b2 \<noteq> l"
    proof (cases "l < a")
      case True
      then have "b1 \<noteq> l" "b2 = (if a \<le> b1 then b1 + 1 else b1)" by (simp_all add: b1_def b2_def)
      then show ?thesis using True by simp
    next
      case False
      then have "b2 = (if l \<le> b1 then b1 + 1 else b1)" by (simp add: b2_def)
      then show ?thesis by simp
    qed
  qed
  have "spill_target l t e = (let (b, t2) = (if 2 \<le> ?rc - 1 then (b2, t2) else (a, t1))
      in (if pending_count (rings e ! a) \<le> pending_count (rings e ! b) then a else b, t2))"
    unfolding spill_target_def Let_def x y prod.case a0_def[symmetric] a_def[symmetric] b0_def[symmetric]
      b1_def[symmetric] b2_def[symmetric] by (rule refl)
  then have "i = a \<or> (2 \<le> ?rc - 1 \<and> i = b2)" using assms(1) by (auto split: if_splits)
  then show "i < ?rc" "i \<noteq> l" using a b by auto
qed

text \<open>Configurations in which the spill path is taken only with another ring to spill to.\<close>

definition select_wf :: "aura_engine \<Rightarrow> bool" where
  "select_wf e \<longleftrightarrow> 0 < ring_count e \<and>
     (ring_select e = AURA_SELECT_ADAPTIVE \<and> ring_count e = 1 \<longrightarrow> \<not> needs_enable (rings e ! 0))"

lemma thread_local_index:
  assumes "select_ring_thread_local er t e = Some (i, t', e')" "0 < ring_count e"
  shows "i < ring_count e"
  using assms
  by (auto simp: select_ring_thread_local_def Let_def points_into_def ring_of_def split: if_splits option.splits)

lemma select_ring_index:
  assumes "select_wf e" "select_ring cpu er t e = Some (i, t', e')"
  shows "i < ring_count e"
proof -
  have n: "0 < ring_count e" using assms(1) by (simp add: select_wf_def)
  show ?thesis
  proof (cases "ring_count e = 1 \<and> \<not> needs_enable (rings e ! 0)")
    case True
    then show ?thesis using assms(2) by (simp add: select_ring_def)
  next
    case False
    show ?thesis
    proof (cases "ring_select e")
      case AURA_SELECT_ADAPTIVE
      then have "ring_count e \<noteq> 1" using False assms(1) by (auto simp: select_wf_def)
      then have rc: "2 \<le> ring_count e" using n by linarith
      obtain l t1 where l: "select_ring_cpu_local cpu t e = (l, t1)" by (metis prod.exhaust)
      obtain j t2 where j: "spill_target l t1 e = (j, t2)" by (metis prod.exhaust)
      have "l < ring_count e" by (rule cpu_local_index[OF l n])
      then show ?thesis using assms(2) False AURA_SELECT_ADAPTIVE l j spill_target_props(1)[OF j rc]
        by (auto simp: select_ring_def Let_def split: if_splits)
    next
      case AURA_SELECT_CPU_LOCAL
      then show ?thesis using assms(2) False cpu_local_index[OF _ n]
        by (auto simp: select_ring_def split: prod.splits)
    next
      case AURA_SELECT_ROUND_ROBIN
      then show ?thesis using assms(2) False n by (auto simp: select_ring_def)
    next
      case AURA_SELECT_THREAD_LOCAL
      have "select_ring_thread_local er t e = Some (i, t', e')"
        using assms(2) False AURA_SELECT_THREAD_LOCAL unfolding select_ring_def
        by (simp only: if_False aura_ring_select.case)
      then show ?thesis by (rule thread_local_index[OF _ n])
    qed
  qed
qed


text \<open>
  An engine with one ring in thread-local mode hands the ring to every further thread
  without claiming it: after the first owner has made the ring lock-free, another thread's
  selection leaves the owner count at one and the ring lock-free, so both threads take the
  lock-free submission path on it.
\<close>

theorem single_ring_shared_without_lock:
  assumes "ring_select e = AURA_SELECT_THREAD_LOCAL" and "ring_count e = 1"
    and "owner_count (rings e ! 0) = 0" and "ring_initialized (rings e ! 0)"
    and "needs_enable (rings e ! 0)" and "0 \<le> er"
    and "tls_engine t1 = None" and "select_ring cpu er t1 e = Some (i, t1', e1)"
  shows "\<exists>e2. select_ring cpu' er' t2 e1 = Some (0, t2, e2) \<and> owner_count (rings e2 ! 0) = 1 \<and>
    ring_is_sole_owner e2 (rings e2 ! 0)"
proof -
  obtain c where c: "rings e = [c]" using assms(2) by (cases "rings e") auto
  have "e1 = set_ring 0 (c\<lparr>owner_count := 1, needs_enable := False, single_thread := True\<rparr>)
      (e\<lparr>next_ring := next_ring e + 1\<rparr>)"
    using assms c by (simp add: select_ring_def select_ring_thread_local_def ring_enable_def Let_def)
  then show ?thesis using assms(1) c
    by (simp add: select_ring_def set_ring_def ring_is_sole_owner_def)
qed

section \<open>The fatal error is sticky\<close>

lemma latch_fatal_sticky:
  "fatal_submit_errno e \<noteq> 0 \<Longrightarrow> latch_fatal_submit_errno err e = e"
  by (simp add: latch_fatal_submit_errno_def Let_def)

lemma latch_fatal_nonzero: "fatal_submit_errno (latch_fatal_submit_errno err e) \<noteq> 0"
  by (simp add: latch_fatal_submit_errno_def Let_def)

section \<open>Registered buffers are used within their bounds\<close>

text \<open>
  Claim C28. A registered-buffer reference is accepted exactly when buffers are registered and not
  being unregistered, the index is in range and the range from the offset lies inside the buffer,
  computed without overflow; the read lock is held after success and released on every error.
\<close>

theorem validate_registered_buffer_exact:
  assumes "validate_registered_buffer idx off len e = (r, e')"
  shows "((\<exists>iov. r = Inr iov) \<longleftrightarrow> buffers_registered e \<and> \<not> buffers_unreg_pending e \<and> 0 \<le> idx \<and>
      idx < int (length (registered_buffers e)) \<and> off < snd (registered_buffers e ! nat idx) \<and>
      off + len \<le> snd (registered_buffers e ! nat idx)) \<and>
    (case r of
       Inr iov \<Rightarrow> iov = registered_buffers e ! nat idx \<and>
         reg_readers e' = reg_readers e + (if eng_single_thread e then 0 else 1)
     | Inl err \<Rightarrow> e' = e \<and> err \<in> {ENOENT, EBUSY, EINVAL, EOVERFLOW})"
  using assms
  by (auto simp: validate_registered_buffer_def Let_def reg_rdlock_def reg_rdunlock_def split: if_splits prod.splits)

end
