(* ===== verification/Engine_Submission.thy ===== *)
theory Engine_Submission
  imports Engine_Core
begin

text \<open>
  Submissions through the engine: on engines whose rings are shared between threads every
  submission operation releases what it takes (ring locks, registration read locks, request
  slots) on every path; the paths of the single-thread rings and of registered buffers that do
  not; and the latched fatal error.
\<close>

section \<open>Submissions on shared rings\<close>

text \<open>
  What a submission may touch of the engine: the round-robin and spill counters, the latched
  error and the wake-up counter. Everything else is its frame.
\<close>

definition engine_frame where
  "engine_frame e = (eng_id e, ring_select e, eng_single_thread e, eng_shutting_down e, reg_readers e,
     reg_writers e, buffers_registered e, files_registered e, buffers_unreg_pending e,
     files_unreg_pending e, registered_buffers e, registered_files e)"

definition shared_ring :: "ring_ctx \<Rightarrow> bool" where
  "shared_ring c \<longleftrightarrow> ring_inv 0 c \<and> \<not> single_thread c \<and> \<not> needs_enable c"

definition shared_engine :: "aura_engine \<Rightarrow> bool" where
  "shared_engine e \<longleftrightarrow> rings e \<noteq> [] \<and> ring_select e \<noteq> AURA_SELECT_THREAD_LOCAL \<and>
     (\<forall>c \<in> set (rings e). shared_ring c)"

text \<open>
  Ring \<open>d\<close> in place of \<open>c\<close>: still consistent, the same locks, the same slots checked out, and
  the counters of registered resources exact if they were.
\<close>

definition settled :: "ring_ctx \<Rightarrow> ring_ctx \<Rightarrow> bool" where
  "settled c d \<longleftrightarrow> ring_inv 0 d \<and> ring_frame d = ring_frame c \<and> held_slots d = held_slots c \<and>
     (uses_ok c \<longrightarrow> uses_ok d)"

text \<open>The same with the mutex taken once.\<close>

definition locked :: "ring_ctx \<Rightarrow> ring_ctx \<Rightarrow> bool" where
  "locked c d \<longleftrightarrow> settled (c\<lparr>lock := lock c + 1\<rparr>) d"

definition settled_engine :: "aura_engine \<Rightarrow> aura_engine \<Rightarrow> bool" where
  "settled_engine e e' \<longleftrightarrow> engine_frame e' = engine_frame e \<and> list_all2 settled (rings e) (rings e')"

text \<open>
  Ring \<open>d\<close> after the start of a submission: the lock taken once, one more slot checked out;
  with its request as it came from the pool.
\<close>

definition begun :: "ring_ctx \<Rightarrow> nat \<Rightarrow> ring_ctx \<Rightarrow> bool" where
  "begun c i d \<longleftrightarrow> ring_inv 0 d \<and> ring_frame d = ring_frame (c\<lparr>lock := lock c + 1\<rparr>) \<and>
     held_slots d = insert i (held_slots c) \<and> i \<notin> held_slots c"

definition fresh_use :: "ring_ctx \<Rightarrow> nat \<Rightarrow> ring_ctx \<Rightarrow> bool" where
  "fresh_use c i d \<longleftrightarrow> (uses_ok c \<longrightarrow> uses_ok d) \<and> \<not> rq_uses_registered_buffer (requests d ! i) \<and>
     \<not> rq_uses_registered_file (requests d ! i)"

lemma shared_lock: "\<not> single_thread c \<Longrightarrow> ring_lock c = (False, c\<lparr>lock := lock c + 1\<rparr>)"
  by (simp add: ring_lock_def)

lemma lock_field_cong [simp]:
  "ring_inv k (c\<lparr>lock := n\<rparr>) = ring_inv k c" "held_slots (c\<lparr>lock := n\<rparr>) = held_slots c"
  "free_slots (c\<lparr>lock := n\<rparr>) = free_slots c" "pending_slots (c\<lparr>lock := n\<rparr>) = pending_slots c"
  by (simp_all add: ring_inv_def held_slots_def free_slots_def pending_slots_def slots_wf_def)

lemma lock_field_uses [simp]: "uses_ok (c\<lparr>lock := n\<rparr>) = uses_ok c"
  by (rule uses_cong) simp_all

lemma settled_refl: "ring_inv 0 c \<Longrightarrow> settled c c" by (simp add: settled_def)

lemma settled_trans: "settled a b \<Longrightarrow> settled b c \<Longrightarrow> settled a c" by (simp add: settled_def)

lemma settled_shared: "settled c d \<Longrightarrow> shared_ring c \<Longrightarrow> shared_ring d"
  by (auto simp: settled_def shared_ring_def ring_frame_def)

lemma shared_rings: "shared_engine e \<Longrightarrow> i < ring_count e \<Longrightarrow> shared_ring (rings e ! i)"
  by (simp add: shared_engine_def)

lemma settled_self: "shared_engine e \<Longrightarrow> i < ring_count e \<Longrightarrow> settled (rings e ! i) (rings e ! i)"
  using shared_rings[of e i] by (simp add: shared_ring_def settled_refl)

lemma settled_engine_shared:
  assumes "settled_engine e e'" "shared_engine e"
  shows "shared_engine e'"
proof -
  have l: "ring_count e' = ring_count e" "ring_select e' = ring_select e"
    using assms(1) by (auto simp: settled_engine_def engine_frame_def dest: list_all2_lengthD)
  have "shared_ring (rings e' ! i)" if "i < ring_count e'" for i
    using assms(1) that l settled_shared[OF _ shared_rings[OF assms(2)]]
    by (auto simp: settled_engine_def list_all2_conv_all_nth)
  then show ?thesis using l assms(2) by (auto simp: shared_engine_def in_set_conv_nth)
qed

lemma settled_engine_refl:
  "shared_engine e \<Longrightarrow> engine_frame e' = engine_frame e \<Longrightarrow> rings e' = rings e \<Longrightarrow> settled_engine e e'"
  by (simp add: settled_engine_def list_all2_conv_all_nth settled_self)

lemma settled_set_ring:
  assumes "shared_engine e" "engine_frame e' = engine_frame e" "rings e' = (rings e)[i := d]"
    "settled (rings e ! i) d"
  shows "settled_engine e e'"
proof -
  have "settled (rings e ! j) ((rings e)[i := d] ! j)" if "j < ring_count e" for j
    using that assms(4) settled_self[OF assms(1) that] by (cases "j = i") simp_all
  then show ?thesis using assms(2,3) by (simp add: settled_engine_def list_all2_conv_all_nth)
qed

text \<open>A locked ring whose work is done, unlocked.\<close>

lemma unlock_uses [simp]: "uses_ok (ring_unlock st c) = uses_ok c"
  by (rule uses_cong) (simp_all add: ring_unlock_def pending_slots_def)

lemma unlock_settled: "locked c d \<Longrightarrow> settled c (ring_unlock False d)"
  by (simp add: locked_def settled_def) (simp add: ring_unlock_def ring_frame_def)

lemma locked_lock: "ring_inv 0 c \<Longrightarrow> locked c (c\<lparr>lock := lock c + 1\<rparr>)"
  by (simp add: locked_def settled_def)

lemma ring_flush_frame:
  assumes "ring_flush n t c = (r, t', c')"
  shows "ring_frame c' = ring_frame c"
  using assms by (auto simp: ring_flush_def Let_def ring_frame_def sq_consume_def split: if_splits)

lemma ring_flush_uses: "ring_flush n t c = (r, t', c') \<Longrightarrow> ring_inv k c \<Longrightarrow> uses_ok c' = uses_ok c"
  using uses_view_ok[OF view_flush inv_requests] by blast

lemma flush_settled: "ring_flush n t d = (r, t', d') \<Longrightarrow> settled c d \<Longrightarrow> settled c d'"
  using ring_flush_inv[of 0 d n t r t' d'] ring_flush_frame[of n t d r t' d'] ring_flush_uses[of n t d r t' d' 0]
  by (simp add: settled_def)

lemma flush_locked: "ring_flush n t d = (r, t', d') \<Longrightarrow> locked c d \<Longrightarrow> locked c d'"
  unfolding locked_def by (rule flush_settled)

lemma get_request_begun:
  assumes "ring_get_request d = Some (i, d')" "locked c d"
  shows "begun c i d'" "fresh_use c i d'"
proof -
  have w: "slots_wf d" "ring_inv 0 d" using assms(2) by (simp_all add: locked_def settled_def ring_inv_def)
  note g = ring_get_request_slots[OF w(1) assms(1)] and f = ring_get_request_frame[OF assms(1)]
    and u = get_request_uses[OF w(1) assms(1)]
  have "i \<notin> held_slots d" using g(2) slots_partition(2)[OF w(1)] by blast
  then show "begun c i d'" using g f assms(2) by (simp add: begun_def ring_inv_def locked_def settled_def)
  show "fresh_use c i d'" using u assms(2) by (simp add: fresh_use_def locked_def settled_def)
qed

lemma begun_put:
  assumes "begun c i d" "uses_ok c \<longrightarrow> uses_ok d"
  shows "locked c (ring_put_request d (int i))"
proof -
  have d: "slots_wf d" "i \<in> held_slots d" "ring_inv 0 d" using assms by (auto simp: begun_def ring_inv_def)
  note p = ring_put_request_held[OF d(1,2)] and u = uses_view_ok[OF view_put inv_requests[OF d(3)]]
  show ?thesis using p u assms by (auto simp: begun_def ring_inv_def locked_def settled_def)
qed

text \<open>The outcome of starting a submission on a shared engine.\<close>

definition started :: "aura_engine \<Rightarrow> submit_start \<Rightarrow> bool" where
  "started e s = (case s of
     (Inl err, t', e') \<Rightarrow> settled_engine e e'
   | (Inr ctx, t', e') \<Rightarrow> engine_frame e' = engine_frame e \<and> \<not> sc_lock_st ctx \<and> sc_ring ctx < ring_count e \<and>
       (\<exists>d. rings e' = (rings e)[sc_ring ctx := d] \<and> begun (rings e ! sc_ring ctx) (sc_req ctx) d \<and>
          fresh_use (rings e ! sc_ring ctx) (sc_req ctx) d))"

lemma started_Inl [simp]: "started e (Inl err, t', e') = settled_engine e e'"
  by (simp add: started_def)

lemma set_ring_frame [simp]:
  "engine_frame (set_ring i c e) = engine_frame e" "rings (set_ring i c e) = (rings e)[i := c]"
  by (simp_all add: set_ring_def engine_frame_def)

lemma latch_frame [simp]:
  "engine_frame (latch_fatal_submit_errno err e) = engine_frame e"
  "rings (latch_fatal_submit_errno err e) = rings e"
  "engine_frame (latch_flush_result r e) = engine_frame e" "rings (latch_flush_result r e) = rings e"
  by (simp_all add: latch_fatal_submit_errno_def latch_flush_result_def engine_frame_def Let_def split: sum.split)

lemma take_slot_started:
  assumes "shared_engine e" "engine_frame e1 = engine_frame e" "rings e1 = rings e" "i < ring_count e"
    "locked (rings e ! i) d"
  shows "started e (take_slot i False t d (ring_unlock False d) e1)"
proof (cases "ring_get_request d")
  case None
  then show ?thesis
    using settled_set_ring[OF assms(1), of "set_ring i (ring_unlock False d) e1" i] assms(2,3)
      unlock_settled[OF assms(5)]
    by (simp add: started_def take_slot_def)
next
  case (Some p)
  then obtain j d' where g: "ring_get_request d = Some (j, d')" by (cases p) auto
  then show ?thesis using get_request_begun[OF g assms(5)] assms(2-4)
    by (auto simp: started_def take_slot_def)
qed

lemma cqes_valid_settled: "settled c d \<Longrightarrow> cqes_valid d = cqes_valid c"
  by (rule cqes_valid_frame) (simp add: settled_def)

context counting_callback
begin

lemma poll_settled:
  assumes "settled c d" "cqes_valid c cq arrivals" "ring_poll cb cq arrivals (t, d) = (n, t', d')"
  shows "settled c d'"
  using ring_poll_inv[OF _ _ assms(3), of 0] ring_poll_uses[OF _ _ _ assms(3), of 0] assms(1,2)
    cqes_valid_settled[OF assms(1)]
  by (simp add: settled_def)

lemma begin_retry_started:
  assumes "shared_engine e" "engine_frame e1 = engine_frame e" "rings e1 = rings e" "i < ring_count e"
    and d: "locked (rings e ! i) d" and v: "cqes_valid (rings e ! i) (sv_cq env) (sv_arrivals env)"
  shows "started e (begin_retry cb env allow_poll i False t d e1)"
proof -
  let ?c = "rings e ! i"
  have c: "\<not> single_thread ?c" using shared_rings[OF assms(1,4)] by (simp add: shared_ring_def)
  obtain tr d2 where p: "(if allow_poll then
       let (n, t2, c2) = ring_poll cb (sv_cq env) (sv_arrivals env) (tl_ring t, ring_unlock False d);
           (st2, c3) = ring_lock c2
       in (st2, t2, c3)
     else (False, tl_ring t, d)) = (False, tr, d2)" and d2: "locked ?c d2"
  proof (cases allow_poll)
    case True
    obtain n t2 c2 where q: "ring_poll cb (sv_cq env) (sv_arrivals env) (tl_ring t, ring_unlock False d) = (n, t2, c2)"
      by (metis prod_cases3)
    have s: "settled ?c c2" using poll_settled[OF unlock_settled[OF d] v q] .
    then have "\<not> single_thread c2" using c by (simp add: settled_def ring_frame_def)
    then have "ring_lock c2 = (False, c2\<lparr>lock := lock c2 + 1\<rparr>)" by (rule shared_lock)
    moreover have "locked ?c (c2\<lparr>lock := lock c2 + 1\<rparr>)"
      using s by (simp add: locked_def settled_def ring_frame_def)
    ultimately show thesis using that True q by simp
  qed (use d that in simp)
  show ?thesis
  proof (cases "ring_can_submit d2")
    case True
    then show ?thesis using take_slot_started[OF assms(1-4) d2] by (simp add: begin_retry_def p)
  next
    case False
    then show ?thesis
      using settled_set_ring[OF assms(1), of "set_ring i (ring_unlock False d2) e1" i] assms(2,3)
        unlock_settled[OF d2] by (simp add: begin_retry_def p)
  qed
qed

lemma begin_locked_started:
  assumes "shared_engine e" "engine_frame e1 = engine_frame e" "rings e1 = rings e" "i < ring_count e"
    and v: "cqes_valid (rings e ! i) (sv_cq env) (sv_arrivals env)"
  shows "started e (begin_locked cb env allow_poll i t e1)"
proof -
  let ?c = "rings e ! i" and ?d = "(rings e ! i)\<lparr>lock := lock (rings e ! i) + 1\<rparr>"
  have c: "ring_inv 0 ?c" "\<not> single_thread ?c" using shared_rings[OF assms(1,4)] by (auto simp: shared_ring_def)
  have l: "ring_lock (rings e1 ! i) = (False, ?d)" using shared_lock[OF c(2)] assms(3) by simp
  note d = locked_lock[OF c(1)]
  obtain r t1 d1 where f: "ring_flush (sv_flush env) (tl_ring t) ?d = (r, t1, d1)" by (metis prod_cases3)
  note d1 = flush_locked[OF f d]
  note retry = begin_retry_started[OF assms(1-4) d1 v]
  have "settled_engine e (latch_fatal_submit_errno err (set_ring i (ring_unlock False d1) e1))" for err
    using settled_set_ring[OF assms(1), of "latch_fatal_submit_errno err (set_ring i (ring_unlock False d1) e1)" i]
      assms(2,3) unlock_settled[OF d1] by simp
  then show ?thesis using retry take_slot_started[OF assms(1-4) d]
    by (cases r) (simp_all add: begin_locked_def l f Let_def)
qed

end

lemma shared_select:
  assumes "shared_engine e"
  obtains i t' e' where "select_ring cpu er t e = Some (i, t', e')" "i < ring_count e"
    "engine_frame e' = engine_frame e" "rings e' = rings e"
proof -
  have ne: "\<not> needs_enable (rings e ! 0)"
    using shared_rings[OF assms, of 0] assms by (simp add: shared_ring_def shared_engine_def)
  have "\<exists>i t' e'. select_ring cpu er t e = Some (i, t', e') \<and> engine_frame e' = engine_frame e \<and> rings e' = rings e"
    using assms by (cases "ring_select e")
      (auto simp: select_ring_def shared_engine_def engine_frame_def Let_def split: prod.split)
  moreover have "select_wf e" using ne assms by (simp add: select_wf_def shared_engine_def)
  ultimately show thesis using that select_ring_index by blast
qed

lemma shared_pick:
  assumes "shared_engine e"
  obtains i t' e' where "pick_ring env t e = Some (i, t', e')" "i < ring_count e"
    "engine_frame e' = engine_frame e" "rings e' = rings e"
proof (cases "tls_engine t = Some (eng_id e) \<and> points_into e (tls_link_ring t)")
  case True
  then have "ring_of (tls_link_ring t) < ring_count e" by (auto simp: points_into_def ring_of_def split: option.splits)
  moreover have "pick_ring env t e = Some (ring_of (tls_link_ring t), t, e)"
    using True by (simp add: pick_ring_def)
  ultimately show thesis using that[of _ t e] by blast
next
  case False
  define t1 where "t1 = (if tls_link_ring t \<noteq> None then t\<lparr>tls_link_ring := None, tls_link_depth := 0\<rparr> else t)"
  have "pick_ring env t e = select_ring (sv_cpu env) (sv_enable env) t1 e"
    unfolding pick_ring_def t1_def Let_def using False by (simp only: if_False)
  moreover obtain i t' e' where "select_ring (sv_cpu env) (sv_enable env) t1 e = Some (i, t', e')"
    "i < ring_count e" "engine_frame e' = engine_frame e" "rings e' = rings e"
    by (rule shared_select[OF assms])
  ultimately show thesis using that by simp
qed

context counting_callback
begin

lemma submit_begin_started:
  assumes "shared_engine e" "\<forall>c \<in> set (rings e). cqes_valid c (sv_cq env) (sv_arrivals env)"
  obtains s where "submit_begin cb env allow_poll t e = Some s" "started e s"
proof (cases "fatal_submit_errno e \<noteq> 0 \<or> eng_shutting_down e")
  case True
  then show thesis using that settled_engine_refl[OF assms(1), of e]
    by (cases "fatal_submit_errno e \<noteq> 0") (simp_all add: submit_begin_def)
next
  case False
  obtain i t1 e1 where p: "pick_ring env t e = Some (i, t1, e1)" "i < ring_count e"
    "engine_frame e1 = engine_frame e" "rings e1 = rings e"
    by (rule shared_pick[OF assms(1)])
  have "\<not> ring_is_sole_owner e1 (rings e1 ! i)"
    using shared_rings[OF assms(1) p(2)] p(4) by (simp add: ring_is_sole_owner_def shared_ring_def)
  moreover have "cqes_valid (rings e ! i) (sv_cq env) (sv_arrivals env)" using assms(2) p(2) by simp
  ultimately show thesis using that False p begin_locked_started[OF assms(1) p(3,4,2)]
    by (simp add: submit_begin_def)
qed

end

definition counts_only :: "(ring_ctx \<Rightarrow> ring_ctx) \<Rightarrow> bool" where
  "counts_only g \<longleftrightarrow> (\<forall>c. \<exists>n. g c = c\<lparr>fixed_buf_inflight := n\<rparr>)"

lemma fixed_fields_cong [simp]:
  "ring_inv k (c\<lparr>fixed_buf_inflight := n\<rparr>) = ring_inv k c" "held_slots (c\<lparr>fixed_buf_inflight := n\<rparr>) = held_slots c"
  "pending_slots (c\<lparr>fixed_buf_inflight := n\<rparr>) = pending_slots c"
  "ring_frame (c\<lparr>fixed_buf_inflight := n\<rparr>) = ring_frame c"
  "ring_inv k (c\<lparr>fixed_file_inflight := n\<rparr>) = ring_inv k c" "held_slots (c\<lparr>fixed_file_inflight := n\<rparr>) = held_slots c"
  "pending_slots (c\<lparr>fixed_file_inflight := n\<rparr>) = pending_slots c"
  "ring_frame (c\<lparr>fixed_file_inflight := n\<rparr>) = ring_frame c"
  by (simp_all add: ring_inv_def held_slots_def free_slots_def pending_slots_def slots_wf_def ring_frame_def)

lemma counts_begun: "counts_only g \<Longrightarrow> begun c i (g d) = begun c i d"
  unfolding counts_only_def begun_def by (metis fixed_fields_cong(1,2,4))

lemma upd_begun: "begun c i d \<Longrightarrow> keeps_slot_state f \<Longrightarrow> begun c i (upd_request i f d)"
  using upd_held_request[of 0 d i f] by (simp add: begun_def)

text \<open>The engine while a submission on ring \<open>i\<close> of the shared engine \<open>e0\<close> is under way.\<close>

definition underway :: "aura_engine \<Rightarrow> nat \<Rightarrow> ring_ctx \<Rightarrow> aura_engine \<Rightarrow> bool" where
  "underway e0 i d e \<longleftrightarrow> shared_engine e0 \<and> i < ring_count e0 \<and> engine_frame e = engine_frame e0 \<and>
     rings e = (rings e0)[i := d]"

lemma underway_settled:
  assumes "underway e0 i d e" "engine_frame e' = engine_frame e" "rings e' = (rings e)[i := ring_unlock False d']"
    "locked (rings e0 ! i) d'"
  shows "settled_engine e0 e'"
  using assms settled_set_ring[of e0 e' i "ring_unlock False d'"] unlock_settled[OF assms(4)]
  by (simp add: underway_def)

lemma submit_abort_settled:
  assumes "underway e0 (sc_ring ctx) d e" "begun (rings e0 ! sc_ring ctx) (sc_req ctx) d"
    "uses_ok (rings e0 ! sc_ring ctx) \<longrightarrow> uses_ok d" "\<not> sc_lock_st ctx" "submit_abort env ctx t e = (t', e')"
  shows "settled_engine e0 e'"
proof -
  let ?i = "sc_ring ctx" and ?p = "ring_put_request d (int (sc_req ctx))"
  note p = begun_put[OF assms(2,3)]
  obtain r tr c1 where f: "ring_flush (sv_end_flush env) (tl_ring t) ?p = (r, tr, c1)" by (metis prod_cases3)
  have c: "ring_put_request (rings e ! ?i) (int (sc_req ctx)) = ?p" using assms(1) by (simp add: underway_def)
  have "engine_frame e' = engine_frame e \<and>
      (rings e' = (rings e)[?i := ring_unlock False c1] \<or> rings e' = (rings e)[?i := ring_unlock False ?p])"
    using assms(4,5) f by (auto simp: submit_abort_def c Let_def split: if_splits)
  then show ?thesis using underway_settled[OF assms(1)] p flush_locked[OF f p] by auto
qed

text \<open>
  A ring on which the started submission's request is in flight, the lock still held; before the
  use of a registered file is counted, and after.
\<close>

definition landed :: "ring_ctx \<Rightarrow> nat \<Rightarrow> aura_request \<Rightarrow> ring_ctx \<Rightarrow> bool" where
  "landed c j q d \<longleftrightarrow> locked c d \<and> j \<in> pending_slots d \<and> requests d ! j = q"

definition flying :: "ring_ctx \<Rightarrow> nat \<Rightarrow> aura_request \<Rightarrow> ring_ctx \<Rightarrow> bool" where
  "flying c j q d \<longleftrightarrow> landed c j q
     (d\<lparr>fixed_file_inflight := fixed_file_inflight d + (if rq_uses_registered_file q then 1 else 0)\<rparr>)"

lemma landed_flush: "ring_flush n t d = (r, t', d') \<Longrightarrow> landed c j q d \<Longrightarrow> landed c j q d'"
  using flush_locked[of n t d r t' d' c] ring_flush_inv(2)[of 0 d n t r t' d']
  by (auto simp: landed_def locked_def settled_def ring_flush_def Let_def split: if_splits)

lemma submit_end_settled:
  assumes u: "underway e0 (sc_ring ctx) d e" and f: "flying (rings e0 ! sc_ring ctx) (sc_req ctx) q d"
    and st: "\<not> sc_lock_st ctx" and r: "submit_end env ctx t e = (t', e')"
  shows "settled_engine e0 e' \<and> sc_req ctx \<in> pending_slots (rings e' ! sc_ring ctx) \<and>
    requests (rings e' ! sc_ring ctx) ! sc_req ctx = q"
proof -
  let ?i = "sc_ring ctx" and ?c = "rings e0 ! sc_ring ctx"
  define c1 where "c1 = (if rq_uses_registered_file (requests d ! sc_req ctx)
      then d\<lparr>fixed_file_inflight := fixed_file_inflight d + 1\<rparr> else d)"
  have d: "rings e ! ?i = d" "?i < ring_count e" using u by (auto simp: underway_def)
  have "requests d ! sc_req ctx = q" using f by (simp add: flying_def landed_def)
  then have c1: "landed ?c (sc_req ctx) q c1" using f by (auto simp: c1_def flying_def)
  have "shared_ring ?c" using u shared_rings by (auto simp: underway_def)
  then have "\<not> single_thread c1" using c1 by (simp add: landed_def locked_def settled_def ring_frame_def shared_ring_def)
  then have so: "\<not> ring_is_sole_owner e c1" by (simp add: ring_is_sole_owner_def)
  obtain r0 tr c2 where fl: "ring_flush (sv_end_flush env) (tl_ring (t\<lparr>tls_last_ring := Some (eng_id e, ?i)\<rparr>)) c1 = (r0, tr, c2)"
    by (metis prod_cases3)
  have "\<exists>c3. landed ?c (sc_req ctx) q c3 \<and> engine_frame e' = engine_frame e \<and>
      rings e' = (rings e)[?i := ring_unlock False c3]"
    using r so st fl c1 landed_flush[OF fl c1] unfolding submit_end_def d(1) Let_def c1_def[symmetric]
    by (auto simp: split: if_splits)
  then obtain c3 where c3: "landed ?c (sc_req ctx) q c3" "engine_frame e' = engine_frame e"
      "rings e' = (rings e)[?i := ring_unlock False c3]" by blast
  then show ?thesis using underway_settled[OF u c3(2,3)] d(2)
    by (simp add: landed_def) (auto simp: ring_unlock_def pending_slots_def)
qed

lemma in_flight_buf:
  "in_flight op ts sc sqe i (c\<lparr>fixed_buf_inflight := x\<rparr>) = (in_flight op ts sc sqe i c)\<lparr>fixed_buf_inflight := x\<rparr>"
  by (simp add: in_flight_def sq_push_def upd_request_def)

lemma in_flight_flying:
  assumes "begun c i d" "i < length (requests d)" "uses_ok c \<longrightarrow> uses_ok d"
    "x = fixed_buf_inflight d + (if rq_uses_registered_buffer (requests d ! i) then 1 else 0)"
  shows "flying c i ((requests d ! i)\<lparr>rq_op_type := op, rq_submit_time_ns := ts, rq_pending := True\<rparr>)
    (in_flight op ts sc sqe i (d\<lparr>fixed_buf_inflight := x\<rparr>))"
proof -
  have w: "slots_wf d" "i \<in> held_slots d" "ring_inv 0 d" using assms(1) by (auto simp: begun_def ring_inv_def)
  let ?d = "in_flight op ts sc sqe i d"
  let ?q = "(requests d ! i)\<lparr>rq_op_type := op, rq_submit_time_ns := ts, rq_pending := True\<rparr>"
  have "requests ?d ! i = ?q" using assms(2) by (simp add: in_flight_def sq_push_def requests_upd_request)
  moreover have "uses_ok (?d\<lparr>fixed_buf_inflight := x, fixed_file_inflight := fixed_file_inflight ?d +
      (if rq_uses_registered_file ?q then 1 else 0)\<rparr>)" if "uses_ok c"
    using in_flight_uses[OF w(1,2), of op ts sc sqe] in_flight_users(6)[OF w(1,2), of op ts sc sqe] assms(3,4) that by simp
  ultimately show ?thesis
    using in_flight_slots[OF w(1,2)] in_flight_inv[OF w(3,2)] assms(1)
    by (auto simp: flying_def landed_def locked_def settled_def begun_def in_flight_ring_frame in_flight_buf)
qed

text \<open>
  How the fields of a request and the count of registered buffers go together: the counter moves
  by one exactly when the filled-in request uses a registered buffer.
\<close>

definition books :: "(aura_request \<Rightarrow> aura_request) \<Rightarrow> (ring_ctx \<Rightarrow> ring_ctx) \<Rightarrow> (ring_ctx \<Rightarrow> ring_ctx) \<Rightarrow> bool" where
  "books setup prepare undo \<longleftrightarrow> (\<exists>ub.
     (\<forall>q. \<not> rq_uses_registered_buffer q \<longrightarrow> rq_uses_registered_buffer (setup q) = ub) \<and>
     (\<forall>c. prepare c = c\<lparr>fixed_buf_inflight := fixed_buf_inflight c + (if ub then 1 else 0)\<rparr>) \<and>
     (\<forall>c. undo c = c\<lparr>fixed_buf_inflight := fixed_buf_inflight c - (if ub then 1 else 0)\<rparr>))"

lemma books_id: "(\<And>q. rq_uses_registered_buffer (setup q) = rq_uses_registered_buffer q) \<Longrightarrow> books setup id id"
  unfolding books_def by (rule exI[of _ False]) simp

text \<open>
  The result of a submission with callback \<open>f\<close> and user data \<open>ud\<close>: it returns, the engine is
  settled, and a returned request is in flight on one of the engine's rings and carries them.
\<close>

definition delivers :: "nat \<Rightarrow> nat \<Rightarrow> aura_engine \<Rightarrow> (int + request_ptr) \<times> engine_tls \<times> aura_engine \<Rightarrow> bool" where
  "delivers f ud e0 res = (case res of (r, t', e') \<Rightarrow> settled_engine e0 e' \<and>
     (case r of
        Inl err \<Rightarrow> True
      | Inr (i, j) \<Rightarrow> i < ring_count e0 \<and> j \<in> pending_slots (rings e' ! i) \<and>
          rq_callback (requests (rings e' ! i) ! j) = f \<and> rq_user_data (requests (rings e' ! i) ! j) = ud))"

definition stores :: "nat \<Rightarrow> nat \<Rightarrow> (aura_request \<Rightarrow> aura_request) \<Rightarrow> bool" where
  "stores f ud setup \<longleftrightarrow> keeps_slot_state setup \<and> (\<forall>q. rq_callback (setup q) = f \<and> rq_user_data (setup q) = ud)"

lemma submit_finish_delivers:
  assumes u: "underway e0 (sc_ring ctx) d e" and b: "begun (rings e0 ! sc_ring ctx) (sc_req ctx) d"
    and fr: "fresh_use (rings e0 ! sc_ring ctx) (sc_req ctx) d"
    and st: "\<not> sc_lock_st ctx" and k: "stores f ud setup" and g: "books setup prepare undo"
    and s: "\<And>i tr c. \<exists>op. submits op i tr c (submit_fn i tr c)"
  shows "delivers f ud e0 (submit_finish env ctx setup prepare undo submit_fn t e)"
proof -
  let ?i = "sc_ring ctx" and ?j = "sc_req ctx"
  define h where "h = (\<lambda>req. (setup req)\<lparr>rq_ring_idx := ring_idx d\<rparr>)"
  define c0 where "c0 = upd_request ?j h d"
  obtain ub where ub: "\<And>q. \<not> rq_uses_registered_buffer q \<Longrightarrow> rq_uses_registered_buffer (setup q) = ub"
    "\<And>c. prepare c = c\<lparr>fixed_buf_inflight := fixed_buf_inflight c + (if ub then 1 else 0)\<rparr>"
    "\<And>c. undo c = c\<lparr>fixed_buf_inflight := fixed_buf_inflight c - (if ub then 1 else 0)\<rparr>"
    using g by (auto simp: books_def)
  have d: "rings e ! ?i = d" "?i < ring_count e0" using u by (auto simp: underway_def)
  have hk: "keeps_slot_state h" using k by (simp add: h_def stores_def keeps_slot_state_def)
  have cb: "begun (rings e0 ! ?i) ?j c0" unfolding c0_def by (rule upd_begun[OF b hk])
  have cu: "uses_ok (rings e0 ! ?i) \<longrightarrow> uses_ok c0"
    using upd_held_uses[of 0 d ?j h] b fr hk by (simp add: c0_def fresh_use_def begun_def)
  have j: "?j < length (requests d)" using b by (auto simp: begun_def held_slots_def ring_inv_def slots_wf_def)
  have cj: "requests c0 ! ?j = h (requests d ! ?j)" "?j < length (requests c0)"
    using j by (simp_all add: c0_def requests_upd_request)
  have ubj: "rq_uses_registered_buffer (requests c0 ! ?j) = ub" using cj(1) ub(1) fr by (simp add: h_def fresh_use_def)
  obtain r tr c1 where sub: "submit_fn ?j (tl_ring t) (prepare c0) = (r, tr, c1)" by (metis prod_cases3)
  obtain op where "submits op ?j (tl_ring t) (prepare c0) (r, tr, c1)" using s[of ?j "tl_ring t" "prepare c0"] sub by auto
  then show ?thesis
  proof cases
    case (refused err)
    obtain t2 e2 where a: "submit_abort env ctx (t\<lparr>tl_ring := tr\<rparr>) (set_ring ?i (undo c1) e) = (t2, e2)"
      by (metis prod.exhaust)
    have c1: "undo c1 = c0" using refused ub(2,3) by simp
    have "underway e0 ?i c0 (set_ring ?i (undo c1) e)" using u c1 by (simp add: underway_def)
    from submit_abort_settled[OF this cb cu st a] show ?thesis using refused(1) sub a
      unfolding submit_finish_def d(1) h_def[symmetric] Let_def c0_def[symmetric] by (simp add: delivers_def)
  next
    case (accepted sqe ts sc)
    obtain t2 e2 where a: "submit_end env ctx (t\<lparr>tl_ring := tr\<rparr>) (set_ring ?i c1 e) = (t2, e2)"
      by (metis prod.exhaust)
    have "underway e0 ?i c1 (set_ring ?i c1 e)" using u by (simp add: underway_def)
    moreover have "flying (rings e0 ! ?i) ?j
        ((requests c0 ! ?j)\<lparr>rq_op_type := op, rq_submit_time_ns := ts, rq_pending := True\<rparr>) c1"
      unfolding accepted(2) ub(2) by (rule in_flight_flying[OF cb cj(2) cu]) (simp add: ubj)
    ultimately have "settled_engine e0 e2 \<and> ?j \<in> pending_slots (rings e2 ! ?i) \<and>
        requests (rings e2 ! ?i) ! ?j =
          (requests c0 ! ?j)\<lparr>rq_op_type := op, rq_submit_time_ns := ts, rq_pending := True\<rparr>"
      using submit_end_settled[OF _ _ st a] by blast
    then show ?thesis using accepted(1) sub a k d(2)
      unfolding submit_finish_def d(1) h_def[symmetric] Let_def c0_def[symmetric]
      by (simp add: delivers_def cj(1) h_def stores_def)
  qed
qed

section \<open>The submission operations return what they take\<close>

text \<open>The submissions of the public interface, one constructor per function.\<close>

datatype aura_submission =
    SubRead int aura_buf nat int u32
  | SubWrite int aura_buf nat int u32
  | SubFsync int u32 u32
  | SubOpenat int nat int int u32
  | SubClose int u32
  | SubStatx int nat int int nat u32
  | SubFallocate int int int int u32
  | SubFtruncate int int u32
  | SubSyncFileRange int int int int u32
  | SubReadv int nat int int u32
  | SubWritev int nat int int u32

fun run_submission ::
    "completion_fn \<Rightarrow> submit_env \<Rightarrow> nat \<Rightarrow> nat \<Rightarrow> engine_tls \<Rightarrow> aura_engine \<Rightarrow> aura_submission \<Rightarrow> submit_result" where
  "run_submission cb env f ud t e (SubRead fd buf n off fl) = aura_read cb env fd buf n off fl f ud t e"
| "run_submission cb env f ud t e (SubWrite fd buf n off fl) = aura_write cb env fd buf n off fl f ud t e"
| "run_submission cb env f ud t e (SubFsync fd how fl) = aura_fsync cb env fd how fl f ud t e"
| "run_submission cb env f ud t e (SubOpenat dir path how mode fl) = aura_openat cb env dir path how mode fl f ud t e"
| "run_submission cb env f ud t e (SubClose fd fl) = aura_close cb env fd fl f ud t e"
| "run_submission cb env f ud t e (SubStatx dir path how smask buf fl) = aura_statx cb env dir path how smask buf fl f ud t e"
| "run_submission cb env f ud t e (SubFallocate fd mode off n fl) = aura_fallocate cb env fd mode off n fl f ud t e"
| "run_submission cb env f ud t e (SubFtruncate fd n fl) = aura_ftruncate cb env fd n fl f ud t e"
| "run_submission cb env f ud t e (SubSyncFileRange fd off n how fl) = aura_sync_file_range cb env fd off n how fl f ud t e"
| "run_submission cb env f ud t e (SubReadv fd iov n off fl) = aura_readv cb env fd iov n off fl f ud t e"
| "run_submission cb env f ud t e (SubWritev fd iov n off fl) = aura_writev cb env fd iov n off fl f ud t e"

text \<open>A registered buffer together with a registered-file index that is not valid.\<close>

fun bad_fixed_index :: "aura_engine \<Rightarrow> aura_submission \<Rightarrow> bool" where
  "bad_fixed_index e (SubRead fd (AuraBufRegistered b k) n off fl) = (has_fixed_file fl \<and> \<not> validate_fixed_file e fd)"
| "bad_fixed_index e (SubWrite fd (AuraBufRegistered b k) n off fl) = (has_fixed_file fl \<and> \<not> validate_fixed_file e fd)"
| "bad_fixed_index e s = False"

lemma rd_inverse [simp]: "reg_rdunlock (reg_rdlock e) = e"
  by (simp add: reg_rdunlock_def reg_rdlock_def)

lemma rings_rd [simp]: "rings (reg_rdlock e) = rings e" "rings (reg_rdunlock e) = rings e"
  by (simp_all add: reg_rdunlock_def reg_rdlock_def)

lemma shared_rdlock [simp]: "shared_engine (reg_rdlock e) = shared_engine e"
  by (simp add: shared_engine_def reg_rdlock_def)

lemma settled_release: "settled_engine (reg_rdlock e) e' \<Longrightarrow> settled_engine e (reg_rdunlock e')"
  by (auto simp: settled_engine_def engine_frame_def reg_rdlock_def reg_rdunlock_def)

lemma delivers_release: "delivers f ud (reg_rdlock e) (r, t, e') \<Longrightarrow> delivers f ud e (r, t, reg_rdunlock e')"
  using settled_release[of e e'] by (auto simp: delivers_def split: sum.splits)

lemma file_guard_cases:
  assumes "file_guard fd flags e = Some (g, e1)"
  shows "e1 = (if g_locked g then reg_rdlock e else e)"
  using assms
  by (auto simp: file_guard_def resolve_file_begin_def Let_def split: if_splits option.splits)

lemma file_end_delivers:
  assumes "file_guard fd flags e = Some (g, e1)" "delivers f ud e1 (r, t, e')"
  shows "delivers f ud e (r, t, resolve_file_end g e')"
  using assms file_guard_cases[OF assms(1)] delivers_release[of f ud e r t e']
  by (simp add: resolve_file_end_def split: if_splits)

lemma started_underway:
  assumes "started e (Inr ctx, t', e')" "shared_engine e"
  obtains d where "underway e (sc_ring ctx) d e'" "begun (rings e ! sc_ring ctx) (sc_req ctx) d"
    "fresh_use (rings e ! sc_ring ctx) (sc_req ctx) d" "\<not> sc_lock_st ctx"
  using assms by (auto simp: started_def underway_def)

lemma counts_id [simp]: "counts_only id"
proof -
  have "c = c\<lparr>fixed_buf_inflight := fixed_buf_inflight c\<rparr>" for c :: ring_ctx by simp
  then show ?thesis unfolding counts_only_def by (metis id_apply)
qed


text \<open>A submission function of the ring, whatever the operation.\<close>

definition ring_submits :: "ring_submit_fn \<Rightarrow> bool" where
  "ring_submits g \<longleftrightarrow> (\<exists>op. \<forall>i tr c. submits op i tr c (g i tr c))"

lemma ring_submits_op: "(\<And>i tr c. g i tr c = ring_submit_op op n ft h now i tr c) \<Longrightarrow> ring_submits g"
  unfolding ring_submits_def by (rule exI[of _ op]) (simp add: submits_op)

lemma ring_submits_fns [simp]:
  "ring_submits (ring_submit_read h now)" "ring_submits (ring_submit_write h now)"
  "ring_submits (ring_submit_readv h now)" "ring_submits (ring_submit_writev h now)"
  "ring_submits (ring_submit_read_fixed h now)" "ring_submits (ring_submit_write_fixed h now)"
  "ring_submits (ring_submit_fsync h)" "ring_submits (ring_submit_fdatasync h)"
  "ring_submits (ring_submit_openat h)" "ring_submits (ring_submit_close h)"
  "ring_submits (ring_submit_statx h)" "ring_submits (ring_submit_fallocate h)"
  "ring_submits (ring_submit_ftruncate ft h)" "ring_submits (ring_submit_sync_file_range h)"
  by (rule ring_submits_op[where op=AURA_OP_READ], simp
    , rule ring_submits_op[where op=AURA_OP_WRITE], simp
    , rule ring_submits_op[where op=AURA_OP_READV], simp
    , rule ring_submits_op[where op=AURA_OP_WRITEV], simp
    , rule ring_submits_op[where op=AURA_OP_READ_FIXED], simp
    , rule ring_submits_op[where op=AURA_OP_WRITE_FIXED], simp
    , rule ring_submits_op[where op=AURA_OP_FSYNC], simp
    , rule ring_submits_op[where op=AURA_OP_FDATASYNC], simp
    , rule ring_submits_op[where op=AURA_OP_OPENAT], simp
    , rule ring_submits_op[where op=AURA_OP_CLOSE], simp
    , rule ring_submits_op[where op=AURA_OP_STATX], simp
    , rule ring_submits_op[where op=AURA_OP_FALLOCATE], simp
    , rule ring_submits_op[where op=AURA_OP_FTRUNCATE and ft=ft], simp
    , rule ring_submits_op[where op=AURA_OP_SYNC_FILE_RANGE], simp)

lemma finish_started:
  assumes "started e (Inr ctx, t1, e1)" "shared_engine e" "stores f ud setup"
    "books setup prepare undo" "ring_submits submit_fn"
  shows "delivers f ud e (submit_finish env ctx setup prepare undo submit_fn t1 e1)"
proof -
  have "\<exists>op. submits op i tr c (submit_fn i tr c)" for i tr c using assms(5) by (auto simp: ring_submits_def)
  then show ?thesis
    using started_underway[OF assms(1,2)] submit_finish_delivers[OF _ _ _ _ assms(3,4)] by metis
qed

context counting_callback
begin

lemma resolved_op_delivers:
  assumes e: "shared_engine e" "\<forall>c \<in> set (rings e). cqes_valid c (sv_cq env) (sv_arrivals env)"
    and k: "\<And>sfd ur. stores f ud (setup sfd ur)" "\<And>sfd ur q. rq_uses_registered_buffer (setup sfd ur q) = rq_uses_registered_buffer q"
    and g: "ring_submits submit_fn"
  obtains res where "(case file_guard fd flags e of
       None \<Rightarrow> Some (Inl EINVAL, t, e)
     | Some (g, e1) \<Rightarrow>
         (case submit_begin cb env (\<not> g_uses_registered_file g) t e1 of
            None \<Rightarrow> None
          | Some (Inl err, t2, e2) \<Rightarrow> Some (Inl err, t2, resolve_file_end g e2)
          | Some (Inr ctx, t2, e2) \<Rightarrow>
              let (r, t3, e3) = submit_finish env ctx (setup (g_submit_fd g) (g_uses_registered_file g))
                    id id submit_fn t2 e2
              in Some (r, t3, resolve_file_end g e3))) = Some res" "delivers f ud e res"
proof (cases "file_guard fd flags e")
  case None
  then show thesis using that settled_engine_refl[OF e(1), of e] by (simp add: delivers_def)
next
  case (Some p)
  then obtain gd e1 where fg: "file_guard fd flags e = Some (gd, e1)" by (cases p) auto
  have e1: "shared_engine e1" "rings e1 = rings e" using file_guard_cases[OF fg] e(1) by simp_all
  obtain s where b: "submit_begin cb env (\<not> g_uses_registered_file gd) t e1 = Some s" "started e1 s"
    using submit_begin_started[OF e1(1)] e(2) e1(2) by metis
  obtain r0 t2 e2 where s: "s = (r0, t2, e2)" by (metis prod_cases3)
  show thesis
  proof (cases r0)
    case (Inl err)
    have "delivers f ud e1 (Inl err, t2, e2)" using b(2) s Inl by (simp add: delivers_def)
    from file_end_delivers[OF fg this] show thesis using that fg b(1) s Inl by simp
  next
    case (Inr ctx)
    obtain r t3 e3 where fin: "submit_finish env ctx (setup (g_submit_fd gd) (g_uses_registered_file gd))
        id id submit_fn t2 e2 = (r, t3, e3)" by (metis prod_cases3)
    have "delivers f ud e1 (r, t3, e3)"
      using finish_started[OF _ e1(1) k(1) books_id[OF k(2)] g, of ctx t2 e2 env] b(2) s Inr fin
      by metis
    from file_end_delivers[OF fg this] show thesis using that fg b(1) s Inr fin by simp
  qed
qed

lemma plain_op_delivers:
  assumes e: "shared_engine e" "\<forall>c \<in> set (rings e). cqes_valid c (sv_cq env) (sv_arrivals env)"
    and k: "stores f ud setup" "\<And>q. rq_uses_registered_buffer (setup q) = rq_uses_registered_buffer q"
    and g: "ring_submits submit_fn"
  shows "\<exists>res. submit_plain_op cb env setup submit_fn t e = Some res \<and> delivers f ud e res"
proof -
  obtain s where b: "submit_begin cb env True t e = Some s" "started e s"
    using submit_begin_started[OF e] by metis
  obtain r0 t2 e2 where s: "s = (r0, t2, e2)" by (metis prod_cases3)
  show ?thesis
  proof (cases r0)
    case (Inl err)
    then show ?thesis using b s by (simp add: submit_plain_op_def delivers_def)
  next
    case (Inr ctx)
    have "delivers f ud e (submit_finish env ctx setup id id submit_fn t2 e2)"
      using finish_started[OF _ e(1) k(1) books_id[OF k(2)] g, of ctx t2 e2 env] b(2) s Inr by metis
    then show ?thesis using b(1) s Inr by (simp add: submit_plain_op_def)
  qed
qed


lemma SUBMIT_FILE_RESOLVED_OP_delivers:
  assumes "shared_engine e" "\<forall>c \<in> set (rings e). cqes_valid c (sv_cq env) (sv_arrivals env)"
    and "\<And>q. rq_in_pool (setup q) = rq_in_pool q" "\<And>q. rq_pending (setup q) = rq_pending q"
      "\<And>q. rq_op_idx (setup q) = rq_op_idx q" "\<And>q. rq_callback (setup q) = rq_callback q"
      "\<And>q. rq_user_data (setup q) = rq_user_data q"
      "\<And>q. rq_uses_registered_buffer (setup q) = rq_uses_registered_buffer q" and "ring_submits submit_fn"
  shows "\<exists>res. SUBMIT_FILE_RESOLVED_OP cb env fd flags f ud submit_fn setup t e = Some res \<and> delivers f ud e res"
proof -
  let ?s = "\<lambda>sfd ur req. setup (req\<lparr>rq_fd := sfd, rq_original_fd := fd, rq_callback := f, rq_user_data := ud,
      rq_uses_registered_file := ur\<rparr>)"
  have "stores f ud (?s sfd ur)" "rq_uses_registered_buffer (?s sfd ur q) = rq_uses_registered_buffer q" for sfd ur q
    using assms(3-8) by (simp_all add: stores_def keeps_slot_state_def)
  note r = resolved_op_delivers[OF assms(1,2), of f ud ?s, OF this assms(9), where fd=fd and flags=flags and t=t]
  show ?thesis
  proof (cases "valid_submit_flags flags")
    case True
    show ?thesis unfolding SUBMIT_FILE_RESOLVED_OP_def using True r
      by (simp only: not_True_eq_False if_False) blast
  next
    case False
    then show ?thesis using settled_engine_refl[OF assms(1), of e]
      by (simp add: SUBMIT_FILE_RESOLVED_OP_def delivers_def)
  qed
qed

lemma submit_unregistered_io_delivers:
  assumes "shared_engine e" "\<forall>c \<in> set (rings e). cqes_valid c (sv_cq env) (sv_arrivals env)"
    "ring_submits submit_fn"
  shows "\<exists>res. submit_unregistered_io cb env fd buf n off flags f ud submit_fn t e = Some res \<and> delivers f ud e res"
proof -
  let ?s = "\<lambda>sfd ur req. req\<lparr>rq_fd := sfd, rq_original_fd := fd, rq_len := n,
      rq_offset := off, rq_callback := f, rq_user_data := ud, rq_uses_registered_file := ur, rq_buffer := buf\<rparr>"
  have "stores f ud (?s sfd ur)" "rq_uses_registered_buffer (?s sfd ur q) = rq_uses_registered_buffer q" for sfd ur q
    by (simp_all add: stores_def keeps_slot_state_def)
  from resolved_op_delivers[OF assms(1,2), of f ud ?s, OF this assms(3), where fd=fd and flags=flags and t=t]
  show ?thesis unfolding submit_unregistered_io_def by blast
qed

lemma submit_registered_buffer_io_delivers:
  assumes e: "shared_engine e1" "\<forall>c \<in> set (rings e1). cqes_valid c (sv_cq env) (sv_arrivals env)"
    "ring_submits submit_fn" and ok: "has_fixed_file flags \<Longrightarrow> validate_fixed_file e1 fd"
    and e1: "e1 = (if eng_single_thread e then e else reg_rdlock e)"
  shows "\<exists>res. submit_registered_buffer_io cb env fd iov bi bo n off flags f ud submit_fn t e1 = Some res \<and>
    delivers f ud e res"
proof -
  have st: "eng_single_thread e1 = eng_single_thread e" using e1 by (simp add: reg_rdlock_def)
  have rel: "delivers f ud e (r, t', (if eng_single_thread e then id else reg_rdunlock) e')"
    if "delivers f ud e1 (r, t', e')" for r t' e'
    using that e1 delivers_release by (cases "eng_single_thread e") auto
  obtain s where b: "submit_begin cb env False t e1 = Some s" "started e1 s"
    using submit_begin_started[OF e(1,2)] by metis
  obtain r0 t2 e2 where s: "s = (r0, t2, e2)" by (metis prod_cases3)
  show ?thesis
  proof (cases r0)
    case (Inl err)
    then have "delivers f ud e1 (Inl err, t2, e2)" using b s by (simp add: delivers_def)
    from rel[OF this] show ?thesis using b(1) s Inl by (simp add: submit_registered_buffer_io_def st)
  next
    case (Inr ctx)
    have "engine_frame e2 = engine_frame e1" using b(2) s Inr by (simp add: started_def)
    then have v: "validate_fixed_file e2 fd = validate_fixed_file e1 fd"
      by (simp add: validate_fixed_file_def engine_frame_def)
    define p where "p = (if has_fixed_file flags then (fd, True)
        else case resolve_registered_file_locked e2 fd of Some i \<Rightarrow> (int i, True) | None \<Rightarrow> (fd, False))"
    let ?s = "\<lambda>req. req\<lparr>rq_fd := fst p, rq_original_fd := fd, rq_len := n,
        rq_offset := off, rq_callback := f, rq_user_data := ud,
        rq_uses_registered_buffer := True, rq_uses_registered_file := snd p,
        rq_buffer := fst iov + bo, rq_buf_index := bi, rq_buf_offset := bo\<rparr>"
    let ?up = "\<lambda>c. c\<lparr>fixed_buf_inflight := fixed_buf_inflight c + 1\<rparr>"
    let ?down = "\<lambda>c. c\<lparr>fixed_buf_inflight := fixed_buf_inflight c - 1\<rparr>"
    obtain r t3 e3 where fin: "submit_finish env ctx ?s ?up ?down submit_fn t2 e2 = (r, t3, e3)"
      by (rule prod_cases3)
    have "stores f ud ?s" by (simp add: stores_def keeps_slot_state_def)
    moreover have "books ?s ?up ?down" unfolding books_def by (rule exI[of _ True]) simp
    ultimately have "delivers f ud e1 (r, t3, e3)"
      using finish_started[of e1 ctx t2 e2 f ud ?s ?up ?down submit_fn env] b(2) e
      unfolding s Inr fin by blast
    moreover have "\<not> (has_fixed_file flags \<and> \<not> validate_fixed_file e2 fd)" using ok v by blast
    then have "submit_registered_buffer_io cb env fd iov bi bo n off flags f ud submit_fn t e1 =
        Some (r, t3, (if eng_single_thread e then id else reg_rdunlock) e3)"
      unfolding submit_registered_buffer_io_def Let_def b(1) s Inr option.case sum.case prod.case
        p_def[symmetric] st by (auto simp: split_beta fin)
    ultimately show ?thesis using rel by blast
  qed
qed

lemma submit_io_generic_delivers:
  assumes e: "shared_engine e" "\<forall>c \<in> set (rings e). cqes_valid c (sv_cq env) (sv_arrivals env)"
    "ring_submits g" "ring_submits h"
    and ok: "\<And>bi bo. buf = AuraBufRegistered bi bo \<Longrightarrow> has_fixed_file flags \<Longrightarrow> validate_fixed_file e fd"
  shows "\<exists>res. submit_io_generic cb env fd buf n off flags f ud g h t e = Some res \<and> delivers f ud e res"
proof -
  have bad: "delivers f ud e (Inl err, t, e)" for err
    using settled_engine_refl[OF e(1), of e] by (simp add: delivers_def)
  show ?thesis
  proof (cases "fd < 0 \<or> n = 0 \<or> \<not> valid_submit_flags flags")
    case True
    then show ?thesis using bad by (cases "fd < 0 \<or> n = 0") (simp_all add: submit_io_generic_def)
  next
    case False
    show ?thesis
    proof (cases buf)
      case (AuraBufUnregistered ptr)
      then show ?thesis using False bad submit_unregistered_io_delivers[OF e(1-3), of fd ptr n off flags f ud t]
        by (cases "ptr = 0") (simp_all add: submit_io_generic_def)
    next
      case (AuraBufRegistered bi bo)
      obtain v e1 where vb: "validate_registered_buffer bi bo n e = (v, e1)" by (metis prod.exhaust)
      show ?thesis
      proof (cases v)
        case (Inl err)
        then have "e1 = e" using vb
          by (auto simp: validate_registered_buffer_def Let_def reg_rdlock_def reg_rdunlock_def
              split: if_splits prod.splits)
        then show ?thesis using False AuraBufRegistered vb Inl bad by (simp add: submit_io_generic_def)
      next
        case (Inr iov)
        then have e1: "e1 = (if eng_single_thread e then e else reg_rdlock e)" using vb
          by (auto simp: validate_registered_buffer_def Let_def reg_rdlock_def reg_rdunlock_def
              split: if_splits prod.splits)
        have "validate_fixed_file e1 fd = validate_fixed_file e fd"
          using e1 by (simp add: validate_fixed_file_def reg_rdlock_def)
        then have "shared_engine e1" "\<forall>c \<in> set (rings e1). cqes_valid c (sv_cq env) (sv_arrivals env)"
          "has_fixed_file flags \<Longrightarrow> validate_fixed_file e1 fd"
          using e e1 ok[OF AuraBufRegistered] by simp_all
        from submit_registered_buffer_io_delivers[OF this(1,2) e(4) this(3) e1]
        show ?thesis using False AuraBufRegistered vb Inr by (simp add: submit_io_generic_def)
      qed
    qed
  qed
qed

end


lemma run_submission_delivers:
  assumes "counting_callback cb" and "shared_engine e"
    and "\<forall>c \<in> set (rings e). cqes_valid c (sv_cq env) (sv_arrivals env)"
    and "\<not> bad_fixed_index e s"
  shows "\<exists>res. run_submission cb env f ud t e s = Some res \<and> delivers f ud e res"
proof -
  note io = counting_callback.submit_io_generic_delivers[OF assms(1-3)]
    and fileop = counting_callback.SUBMIT_FILE_RESOLVED_OP_delivers[OF assms(1-3)]
    and plain = counting_callback.plain_op_delivers[OF assms(1-3)]
  have bad: "delivers f ud e (Inl err, t, e)" for err
    using settled_engine_refl[OF assms(2), of e] by (simp add: delivers_def)
  show ?thesis
  proof (cases s)
    case (SubRead fd buf n off fl)
    then have "validate_fixed_file e fd" if "buf = AuraBufRegistered bi bo" "has_fixed_file fl" for bi bo
      using that assms(4) by simp
    then show ?thesis unfolding SubRead run_submission.simps aura_read_def by (intro io) simp_all
  next
    case (SubWrite fd buf n off fl)
    then have "validate_fixed_file e fd" if "buf = AuraBufRegistered bi bo" "has_fixed_file fl" for bi bo
      using that assms(4) by simp
    then show ?thesis unfolding SubWrite run_submission.simps aura_write_def by (intro io) simp_all
  next
    case (SubFsync fd how fl)
    then show ?thesis using fileop bad by (simp add: aura_fsync_def)
  next
    case (SubOpenat dir path how mode fl)
    then show ?thesis using plain bad by (simp add: aura_openat_def stores_def keeps_slot_state_def)
  next
    case (SubClose fd fl)
    then show ?thesis using plain bad by (simp add: aura_close_def stores_def keeps_slot_state_def)
  next
    case (SubStatx dir path how smask buf fl)
    then show ?thesis using plain bad by (simp add: aura_statx_def stores_def keeps_slot_state_def)
  next
    case (SubFallocate fd mode off n fl)
    then show ?thesis using fileop bad by (simp add: aura_fallocate_def)
  next
    case (SubFtruncate fd n fl)
    then show ?thesis using fileop bad by (simp add: aura_ftruncate_def)
  next
    case (SubSyncFileRange fd off n how fl)
    then show ?thesis using fileop bad by (simp add: aura_sync_file_range_def)
  next
    case (SubReadv fd iov n off fl)
    then show ?thesis using fileop bad by (simp add: aura_readv_def)
  next
    case (SubWritev fd iov n off fl)
    then show ?thesis using fileop bad by (simp add: aura_writev_def)
  qed
qed


section \<open>Where a submission keeps what it took\<close>

lemma started_available:
  assumes "shared_engine e" "fatal_submit_errno e = 0" "\<not> eng_shutting_down e"
    and "\<forall>c \<in> set (rings e). ring_can_submit c \<and> free_request_count c \<noteq> 0"
  obtains ctx t' e' where "submit_begin cb env allow_poll t e = Some (Inr ctx, t', e')"
    "engine_frame e' = engine_frame e" "\<not> sc_lock_st ctx" "sc_ring ctx < ring_count e"
    "\<exists>d. rings e' = (rings e)[sc_ring ctx := d] \<and> begun (rings e ! sc_ring ctx) (sc_req ctx) d"
proof -
  obtain i t1 e1 where p: "pick_ring env t e = Some (i, t1, e1)" "i < ring_count e"
    "engine_frame e1 = engine_frame e" "rings e1 = rings e"
    by (rule shared_pick[OF assms(1)])
  let ?c = "rings e ! i"
  define d where "d = ?c\<lparr>lock := lock ?c + 1\<rparr>"
  have c: "ring_inv 0 ?c" "\<not> single_thread ?c" "ring_can_submit ?c" "free_request_count ?c \<noteq> 0"
    using shared_rings[OF assms(1) p(2)] assms(4) p(2) by (auto simp: shared_ring_def)
  have d: "ring_lock (rings e1 ! i) = (False, d)" "ring_can_submit d" "locked ?c d" "free_request_count d \<noteq> 0"
    using c p(4) locked_lock[OF c(1)] by (simp_all add: shared_lock d_def ring_can_submit_def)
  obtain j d' where g: "ring_get_request d = Some (j, d')" using d(4) by (simp add: ring_get_request_def Let_def)
  have "\<not> ring_is_sole_owner e1 (rings e1 ! i)" using c(2) p(4) by (simp add: ring_is_sole_owner_def)
  then have "submit_begin cb env allow_poll t e = Some (Inr \<lparr>sc_ring = i, sc_req = j, sc_lock_st = False\<rparr>, t1, set_ring i d' e1)"
    using assms(2,3) p(1) d(1,2) g by (simp add: submit_begin_def begin_locked_def take_slot_def)
  then show thesis
    using that[of _ t1 "set_ring i d' e1"] get_request_begun(1)[OF g d(3)] p(2-4) by auto
qed

text \<open>
  Claim C18. A read or write through a registered buffer with an invalid registered-file
  index fails with EINVAL but keeps what the submission took: the mutex of the chosen ring is
  still locked and a request slot still checked out, so every later operation on that ring waits
  for ever and the slot is lost. (The index is checked after the submission was started, and the
  error path does not abort it.)
\<close>

theorem bad_fixed_index_leaks:
  assumes "shared_engine e" and "fatal_submit_errno e = 0" and "\<not> eng_shutting_down e"
    and "\<forall>c \<in> set (rings e). ring_can_submit c \<and> free_request_count c \<noteq> 0"
    and "validate_registered_buffer b k n e = (Inr iov, e1)" and "0 < n" and "0 \<le> fd"
    and "valid_submit_flags fl" and "has_fixed_file fl" and "\<not> validate_fixed_file e fd"
  shows "\<exists>t' e' i j. run_submission cb env f ud t e (SubRead fd (AuraBufRegistered b k) n off fl) =
      Some (Inl EINVAL, t', e') \<and> i < ring_count e \<and> reg_readers e' = reg_readers e \<and>
    lock (rings e' ! i) = lock (rings e ! i) + 1 \<and>
    held_slots (rings e' ! i) = insert j (held_slots (rings e ! i)) \<and> j \<notin> held_slots (rings e ! i)"
proof -
  have e1: "e1 = (if eng_single_thread e then e else reg_rdlock e)"
    using assms(5) by (auto simp: validate_registered_buffer_def Let_def split: if_splits prod.splits)
  then have s: "shared_engine e1" "fatal_submit_errno e1 = 0" "\<not> eng_shutting_down e1" "rings e1 = rings e"
    using assms(1-3) shared_rdlock[of e] by (simp_all add: reg_rdlock_def)
  obtain ctx t2 e2 where b: "submit_begin cb env False t e1 = Some (Inr ctx, t2, e2)"
    "engine_frame e2 = engine_frame e1" "sc_ring ctx < ring_count e1"
    "\<exists>d. rings e2 = (rings e1)[sc_ring ctx := d] \<and> begun (rings e1 ! sc_ring ctx) (sc_req ctx) d"
    by (rule started_available[OF s(1-3), of cb env False t]) (use assms(4) s(4) in auto)
  have v: "\<not> validate_fixed_file e2 fd" "eng_single_thread e1 = eng_single_thread e"
    using assms(10) b(2) e1 by (auto simp: validate_fixed_file_def engine_frame_def reg_rdlock_def)
  define e' where "e' = (if eng_single_thread e then id else reg_rdunlock) e2"
  have run: "run_submission cb env f ud t e (SubRead fd (AuraBufRegistered b k) n off fl) = Some (Inl EINVAL, t2, e')"
    using assms(5-9) b(1) v by (simp add: e'_def aura_read_def submit_io_generic_def submit_registered_buffer_io_def)
  have e': "reg_readers e' = reg_readers e" "rings e' = rings e2"
    using b(2) e1 by (auto simp: e'_def engine_frame_def reg_rdlock_def reg_rdunlock_def)
  obtain d where d: "rings e2 = (rings e)[sc_ring ctx := d]" "begun (rings e ! sc_ring ctx) (sc_req ctx) d"
    using b(4) s(4) by auto
  have "lock (rings e' ! sc_ring ctx) = lock (rings e ! sc_ring ctx) + 1"
    "held_slots (rings e' ! sc_ring ctx) = insert (sc_req ctx) (held_slots (rings e ! sc_ring ctx))"
    "sc_req ctx \<notin> held_slots (rings e ! sc_ring ctx)" "sc_ring ctx < ring_count e"
    using b(3) s(4) e'(2) d by (simp_all add: begun_def ring_frame_def)
  then show ?thesis using run e'(1) by blast
qed

section \<open>Single-thread rings\<close>

lemma submit_get_sqe_refuses: "\<exists>err. submit_get_sqe False c = Inl err"
  by (simp add: submit_get_sqe_def)

text \<open>
  The lock-free submission path of a sole owner takes no counter when it starts, but
  its abort gives one back: a refused submission leaves the ring's counter of lock-free critical
  sections one too low.
\<close>

theorem sole_owner_abort_unbalanced:
  assumes "rings e = [c]" and "single_thread c" and "\<not> needs_enable c" and "ring_inv 0 c"
    and "ring_can_submit c" and "free_request_count c \<noteq> 0" and "tls_link_ring t = None"
    and "fatal_submit_errno e = 0" and "\<not> eng_shutting_down e" and "\<not> sv_have_sqe env" and "0 \<le> fd"
  shows "\<exists>err t' c'. aura_close cb env fd 0 f ud t e = Some (Inl err, t', e\<lparr>rings := [c']\<rparr>) \<and>
    st_users c' = st_users c - 1 \<and> held_slots c' = held_slots c"
proof -
  obtain j d where g: "ring_get_request c = Some (j, d)" using assms(6) by (simp add: ring_get_request_def Let_def)
  have p: "pick_ring env t e = Some (0, t, e)" using assms(1,3,7) by (simp add: pick_ring_def points_into_def select_ring_def)
  have b: "submit_begin cb env True t e = Some (Inr \<lparr>sc_ring = 0, sc_req = j, sc_lock_st = True\<rparr>, t, e\<lparr>rings := [d]\<rparr>)"
    using assms g p by (simp add: submit_begin_def begin_fast_def take_slot_def ring_is_sole_owner_def set_ring_def)
  have w: "slots_wf c" using assms(4) by (simp add: ring_inv_def)
  note gs = ring_get_request_slots[OF w g] and gf = ring_get_request_frame[OF g]
  let ?s = "\<lambda>req. (req\<lparr>rq_fd := fd, rq_original_fd := fd, rq_callback := f, rq_user_data := ud,
      rq_uses_registered_file := False\<rparr>)\<lparr>rq_ring_idx := ring_idx d\<rparr>"
  let ?d = "upd_request j ?s d" and ?p = "ring_put_request (upd_request j ?s d) (int j)"
  have d: "ring_inv 0 d" "j \<in> held_slots d" "j \<notin> held_slots c" using gs gf assms(4) slots_partition(2)[OF w] by (auto simp: ring_inv_def)
  have k: "keeps_slot_state ?s" by (simp add: keeps_slot_state_def)
  note u = upd_held_request[OF d(1,2) k]
  have ps: "held_slots ?p = held_slots c" using ring_put_request_held(3)[of ?d j] u d gs(4) by (auto simp: ring_inv_def)
  have "ring_frame ?p = ring_frame c" using u(3) gf by simp
  then have st: "st_users ?p = st_users c" by (simp add: ring_frame_def)
  obtain err where "submit_get_sqe False ?d = Inl err" using submit_get_sqe_refuses by blast
  then have "aura_close cb env fd 0 f ud t e = Some (Inl err, t, e\<lparr>rings := [ring_unlock True ?p]\<rparr>)"
    using assms(7,10,11) b by (simp add: aura_close_def submit_plain_op_def submit_finish_def
      ring_submit_close_def RING_SUBMIT_META_OP_def submit_abort_def set_ring_def Let_def)
  moreover have "st_users (ring_unlock True ?p) = st_users c - 1" "held_slots (ring_unlock True ?p) = held_slots c"
    using st ps by (simp_all add: ring_unlock_def held_slots_def)
  ultimately show ?thesis by blast
qed

section \<open>Link chains\<close>

text \<open>Every successful submission is a started one that was finished.\<close>

definition finishes where
  "finishes cb env t e rp t' e' \<longleftrightarrow> (\<exists>ap e0 ctx t1 e1 setup prep undo fn e2.
     (e0 = e \<and> e' = e2 \<or> e0 = reg_rdlock e \<and> e' = reg_rdunlock e2) \<and>
     submit_begin cb env ap t e0 = Some (Inr ctx, t1, e1) \<and>
     submit_finish env ctx setup prep undo fn t1 e1 = (Inr rp, t', e2) \<and>
     counts_only prep \<and> ring_submits fn)"

lemma finishesI:
  assumes "submit_begin cb env ap t e0 = Some (Inr ctx, t1, e1)"
    "submit_finish env ctx setup prep undo fn t1 e1 = (Inr rp, t', e2)"
    "counts_only prep" "ring_submits fn"
    "e0 = e \<and> e' = e2 \<or> e0 = reg_rdlock e \<and> e' = reg_rdunlock e2"
  shows "finishes cb env t e rp t' e'"
  unfolding finishes_def using assms by blast

lemma plain_finishes:
  assumes "submit_plain_op cb env setup fn t e = Some (Inr rp, t', e')" "ring_submits fn"
  shows "finishes cb env t e rp t' e'"
proof -
  obtain ctx t1 e1 where "submit_begin cb env True t e = Some (Inr ctx, t1, e1)"
    "submit_finish env ctx setup id id fn t1 e1 = (Inr rp, t', e')"
    using assms(1) by (auto simp: submit_plain_op_def split: option.splits sum.splits)
  from finishesI[OF this counts_id assms(2)] show ?thesis by blast
qed

lemma resolved_finishes:
  assumes "(case file_guard fd flags e of
       None \<Rightarrow> Some (Inl EINVAL, t, e)
     | Some (g, e1) \<Rightarrow>
         (case submit_begin cb env (\<not> g_uses_registered_file g) t e1 of
            None \<Rightarrow> None
          | Some (Inl err, t2, e2) \<Rightarrow> Some (Inl err, t2, resolve_file_end g e2)
          | Some (Inr ctx, t2, e2) \<Rightarrow>
              let (r, t3, e3) = submit_finish env ctx (fill (g_submit_fd g) (g_uses_registered_file g))
                    id id fn t2 e2
              in Some (r, t3, resolve_file_end g e3))) = Some (Inr rp, t', e')" and "ring_submits fn"
  shows "finishes cb env t e rp t' e'"
proof -
  obtain g e0 ctx t1 e1 e2 where g: "file_guard fd flags e = Some (g, e0)"
    and b: "submit_begin cb env (\<not> g_uses_registered_file g) t e0 = Some (Inr ctx, t1, e1)"
    and f: "submit_finish env ctx (fill (g_submit_fd g) (g_uses_registered_file g)) id id fn t1 e1 = (Inr rp, t', e2)"
    and e': "e' = resolve_file_end g e2"
    using assms(1) by (auto split: option.splits sum.splits prod.splits)
  have "e0 = e \<and> e' = e2 \<or> e0 = reg_rdlock e \<and> e' = reg_rdunlock e2"
    using file_guard_cases[OF g] e' by (simp add: resolve_file_end_def)
  then show ?thesis using finishesI[OF b f counts_id assms(2)] by blast
qed

lemma file_op_finishes:
  assumes "SUBMIT_FILE_RESOLVED_OP cb env fd flags f ud fn setup t e = Some (Inr rp, t', e')" "ring_submits fn"
  shows "finishes cb env t e rp t' e'"
proof (rule resolved_finishes[OF _ assms(2)])
  show "(case file_guard fd flags e of
       None \<Rightarrow> Some (Inl EINVAL, t, e)
     | Some (g, e1) \<Rightarrow>
         (case submit_begin cb env (\<not> g_uses_registered_file g) t e1 of
            None \<Rightarrow> None
          | Some (Inl err, t2, e2) \<Rightarrow> Some (Inl err, t2, resolve_file_end g e2)
          | Some (Inr ctx, t2, e2) \<Rightarrow>
              let (r, t3, e3) = submit_finish env ctx ((\<lambda>sfd ur req. setup (req\<lparr>rq_fd := sfd,
                    rq_original_fd := fd, rq_callback := f, rq_user_data := ud, rq_uses_registered_file := ur\<rparr>))
                      (g_submit_fd g) (g_uses_registered_file g))
                    id id fn t2 e2
              in Some (r, t3, resolve_file_end g e3))) = Some (Inr rp, t', e')"
    using assms(1) unfolding SUBMIT_FILE_RESOLVED_OP_def by (cases "valid_submit_flags flags") simp_all
qed

lemma io_finishes:
  assumes "submit_io_generic cb env fd buf n off flags f ud g h t e = Some (Inr rp, t', e')"
    "ring_submits g" "ring_submits h"
  shows "finishes cb env t e rp t' e'"
proof -
  have c: "\<not> (fd < 0 \<or> n = 0)" "valid_submit_flags flags"
    using assms(1) by (auto simp: submit_io_generic_def split: if_splits)
  show ?thesis
  proof (cases buf)
    case (AuraBufUnregistered ptr)
    then have u: "submit_unregistered_io cb env fd ptr n off flags f ud g t e = Some (Inr rp, t', e')"
      using assms(1) c by (simp add: submit_io_generic_def split: if_splits)
    show ?thesis
      by (rule resolved_finishes[OF _ assms(2), where fd=fd and flags=flags and fill="\<lambda>sfd ur req. req\<lparr>rq_fd := sfd,
          rq_original_fd := fd, rq_len := n, rq_offset := off, rq_callback := f, rq_user_data := ud,
          rq_uses_registered_file := ur, rq_buffer := ptr\<rparr>"])
        (use u in \<open>simp only: submit_unregistered_io_def\<close>)
  next
    case (AuraBufRegistered b k)
    obtain iov e1 where v: "validate_registered_buffer b k n e = (Inr iov, e1)"
      and r: "submit_registered_buffer_io cb env fd iov b k n off flags f ud h t e1 = Some (Inr rp, t', e')"
      using assms(1) c AuraBufRegistered by (auto simp: submit_io_generic_def split: prod.splits sum.splits)
    have e1: "e1 = (if eng_single_thread e then e else reg_rdlock e)"
      using v by (auto simp: validate_registered_buffer_def Let_def split: if_splits prod.splits)
    have st: "eng_single_thread e1 = eng_single_thread e" using e1 by (simp add: reg_rdlock_def)
    obtain ctx t2 e2 fill prep revert e3 where b: "submit_begin cb env False t e1 = Some (Inr ctx, t2, e2)"
      and fin: "submit_finish env ctx fill prep revert h t2 e2 = (Inr rp, t', e3)" "counts_only prep"
      and e': "e' = (if eng_single_thread e1 then id else reg_rdunlock) e3"
      using r unfolding submit_registered_buffer_io_def Let_def
      by (auto simp: counts_only_def split: option.splits sum.splits prod.splits if_splits) blast+
    have "e1 = e \<and> e' = e3 \<or> e1 = reg_rdlock e \<and> e' = reg_rdunlock e3" using e1 e' st by simp
    from finishesI[OF b fin assms(3) this] show ?thesis .
  qed
qed

lemma run_submission_finishes:
  assumes "run_submission cb env f ud t e s = Some (Inr rp, t', e')"
  shows "finishes cb env t e rp t' e'"
proof (cases s)
  case (SubRead fd buf n off fl)
  then show ?thesis using assms io_finishes unfolding aura_read_def by (simp add: aura_read_def)
next
  case (SubWrite fd buf n off fl)
  then show ?thesis using assms io_finishes by (simp add: aura_write_def)
next
  case (SubFsync fd how fl)
  then show ?thesis using assms by (auto simp: aura_fsync_def split: if_splits intro: file_op_finishes)
next
  case (SubOpenat dir path how mode fl)
  then show ?thesis using assms by (auto simp: aura_openat_def split: if_splits intro: plain_finishes)
next
  case (SubClose fd fl)
  then show ?thesis using assms by (auto simp: aura_close_def split: if_splits intro: plain_finishes)
next
  case (SubStatx dir path how smask buf fl)
  then show ?thesis using assms by (auto simp: aura_statx_def split: if_splits intro: plain_finishes)
next
  case (SubFallocate fd mode off n fl)
  then show ?thesis using assms by (auto simp: aura_fallocate_def split: if_splits intro: file_op_finishes)
next
  case (SubFtruncate fd n fl)
  then show ?thesis using assms by (auto simp: aura_ftruncate_def split: if_splits intro: file_op_finishes)
next
  case (SubSyncFileRange fd off n how fl)
  then show ?thesis using assms by (auto simp: aura_sync_file_range_def split: if_splits intro: file_op_finishes)
next
  case (SubReadv fd iov n off fl)
  then show ?thesis using assms by (auto simp: aura_readv_def split: if_splits intro: file_op_finishes)
next
  case (SubWritev fd iov n off fl)
  then show ?thesis using assms by (auto simp: aura_writev_def split: if_splits intro: file_op_finishes)
qed

definition in_chain :: "engine_tls \<Rightarrow> aura_engine \<Rightarrow> bool" where
  "in_chain t e \<longleftrightarrow> tls_engine t = Some (eng_id e) \<and> points_into e (tls_link_ring t)"

lemma in_chain_frame:
  "in_chain t e \<Longrightarrow> tls_link_ring t \<noteq> None" "in_chain t (reg_rdlock e) = in_chain t e"
  by (auto simp: in_chain_def points_into_def reg_rdlock_def split: option.splits)

lemma take_slot_simps:
  assumes "take_slot i st t c c' e = (Inr ctx, t', e')"
  shows "t' = t \<and> engine_frame e' = engine_frame e \<and> sc_ring ctx = i \<and> sc_lock_st ctx = st \<and>
    (\<exists>d. ring_get_request c = Some (sc_req ctx, d) \<and> e' = set_ring i d e)"
  using assms by (auto simp: take_slot_def split: option.splits)

lemma chain_begin:
  assumes "in_chain t e" "submit_begin cb env ap t e = Some (Inr ctx, t1, e1)"
  shows "tls_link_ring t1 = tls_link_ring t" "tls_engine t1 = tls_engine t"
    "engine_frame e1 = engine_frame e"
proof -
  let ?i = "ring_of (tls_link_ring t)"
  have "begin_locked cb env ap ?i t e = (Inr ctx, t1, e1)"
    using assms in_chain_frame(1)[OF assms(1)]
    by (simp add: submit_begin_def pick_ring_def in_chain_def split: if_splits)
  then have "t1\<lparr>tl_ring := tl_ring t\<rparr> = t \<and> engine_frame e1 = engine_frame e"
    by (auto simp: begin_locked_def begin_retry_def Let_def dest!: take_slot_simps
        split: prod.splits if_splits sum.splits)
  moreover have "tls_link_ring (t1\<lparr>tl_ring := tl_ring t\<rparr>) = tls_link_ring t1"
    "tls_engine (t1\<lparr>tl_ring := tl_ring t\<rparr>) = tls_engine t1" by simp_all
  ultimately show "tls_link_ring t1 = tls_link_ring t" "tls_engine t1 = tls_engine t"
    "engine_frame e1 = engine_frame e" by simp_all
qed

lemma chain_finish:
  assumes "submit_finish env ctx stp prep revert fn t e = (Inr rp, t', e')" "tls_link_ring t \<noteq> None"
  shows "tls_last_sqe (tl_ring t') = None \<and> tls_engine t' = tls_engine t \<and> engine_frame e' = engine_frame e"
proof -
  obtain e1 tr where "submit_end env ctx (t\<lparr>tl_ring := tr\<rparr>) e1 = (t', e')" "engine_frame e1 = engine_frame e"
    using assms(1) by (auto simp: submit_finish_def Let_def split: prod.splits sum.splits)
  then show ?thesis using assms(2)
    by (auto simp: submit_end_def Let_def split: prod.splits if_splits)
qed

lemma map_ring_upd_request: "map ring (cs[i := upd_request j g (cs ! i)]) = map ring cs"
proof (rule nth_equalityI)
  fix k
  assume "k < length (map ring (cs[i := upd_request j g (cs ! i)]))"
  then show "map ring (cs[i := upd_request j g (cs ! i)]) ! k = map ring cs ! k"
    by (cases "k = i") (simp_all add: upd_request_def)
qed simp

lemma frame_ids: "engine_frame a = engine_frame b \<Longrightarrow> eng_id a = eng_id b \<and> ring_select a = ring_select b"
  by (simp add: engine_frame_def)

lemma rd_ids [simp]: "eng_id (reg_rdlock e) = eng_id e" "eng_id (reg_rdunlock e) = eng_id e"
  "ring_select (reg_rdlock e) = ring_select e" "ring_select (reg_rdunlock e) = ring_select e"
  by (simp_all add: reg_rdlock_def reg_rdunlock_def)

lemma set_linked_without_sqe:
  assumes "tls_engine t = Some (eng_id e)" "ring_select e = AURA_SELECT_THREAD_LOCAL" "tls_last_sqe (tl_ring t) = None"
  shows "\<exists>t' e'. aura_request_set_linked rp t e = (Inr (), t', e') \<and> map ring (rings e') = map ring (rings e)"
proof -
  define e1 where "e1 = set_ring (fst rp) (upd_request (snd rp) (\<lambda>q. q\<lparr>rq_linked := True\<rparr>) (rings e ! fst rp)) e"
  have m: "map ring (rings e1) = map ring (rings e)" by (simp only: e1_def set_ring_frame map_ring_upd_request)
  have "\<exists>t'. aura_request_set_linked rp t e = (Inr (), t', e1)"
    using assms unfolding aura_request_set_linked_def Let_def e1_def[symmetric]
    by (cases "tls_last_ring t") simp_all
  then show ?thesis using m by blast
qed

text \<open>
  A chain never has more than two operations: any submission made while the thread
  is inside a chain flushes the chain and forgets its own SQE, so linking it to a third operation
  reports success but sets the link flag on no SQE. The documentation builds longer chains by
  linking each operation but the last.
\<close>

theorem chain_stops_at_two:
  assumes "ring_select e = AURA_SELECT_THREAD_LOCAL" and "in_chain t e"
    and "run_submission cb env f ud t e s = Some (Inr rp, t', e')"
  shows "\<exists>t'' e''. aura_request_set_linked rp t' e' = (Inr (), t'', e'') \<and>
    map ring (rings e'') = map ring (rings e')"
proof -
  obtain ap e0 ctx t1 e1 stp prep revert fn e2 where
    e0: "e0 = e \<and> e' = e2 \<or> e0 = reg_rdlock e \<and> e' = reg_rdunlock e2"
    and b: "submit_begin cb env ap t e0 = Some (Inr ctx, t1, e1)"
    and f: "submit_finish env ctx stp prep revert fn t1 e1 = (Inr rp, t', e2)"
    using run_submission_finishes[OF assms(3)] unfolding finishes_def by blast
  have c: "in_chain t e0" using e0 assms(2) in_chain_frame(2) by auto
  note cb = chain_begin[OF c b]
  have "tls_link_ring t1 \<noteq> None" using cb(1) in_chain_frame(1)[OF c] by simp
  note cf = chain_finish[OF f this]
  have "eng_id e' = eng_id e" "ring_select e' = ring_select e"
    using e0 frame_ids[of e2 e0] cf cb(3) by auto
  then show ?thesis using set_linked_without_sqe assms(1,2) cf cb(2) by (simp add: in_chain_def)
qed

text \<open>The fields the lock-free protocol looks at.\<close>

definition st_view where
  "st_view c = (st_users c, single_thread c, owner_count c)"

lemma st_view_flush: "ring_flush n t c = (r, t', c') \<Longrightarrow> st_view c' = st_view c"
  using ring_flush_frame[of n t c r t' c'] by (simp add: st_view_def ring_frame_def)

lemma chain_begin_sole:
  assumes "in_chain t e" "submit_begin cb env ap t e = Some (Inr ctx, t1, e1)"
    and c: "single_thread (rings e ! ring_of (tls_link_ring t))" "ring_can_submit (rings e ! ring_of (tls_link_ring t))"
  shows "sc_ring ctx = ring_of (tls_link_ring t) \<and> sc_lock_st ctx \<and> t1 = t \<and>
    (\<exists>d. e1 = set_ring (ring_of (tls_link_ring t)) d e \<and>
       st_view d = st_view ((rings e ! ring_of (tls_link_ring t))\<lparr>st_users := st_users (rings e ! ring_of (tls_link_ring t)) + 1\<rparr>))"
proof -
  let ?i = "ring_of (tls_link_ring t)" and ?c = "rings e ! ring_of (tls_link_ring t)"
  let ?d = "?c\<lparr>st_users := st_users ?c + 1\<rparr>"
  have "begin_locked cb env ap ?i t e = (Inr ctx, t1, e1)"
    using assms(1,2) in_chain_frame(1)[OF assms(1)]
    by (simp add: submit_begin_def pick_ring_def in_chain_def split: if_splits)
  moreover have "ring_lock ?c = (True, ?d)" "ring_can_submit ?d"
    using c by (simp_all add: ring_lock_def ring_can_submit_def)
  ultimately have "take_slot ?i True t ?d (ring_unlock True ?d) e = (Inr ctx, t1, e1)"
    by (simp add: begin_locked_def)
  from take_slot_simps[OF this] obtain d where d: "ring_get_request ?d = Some (sc_req ctx, d)" "e1 = set_ring ?i d e"
    "t1 = t" "sc_ring ctx = ?i" "sc_lock_st ctx" by auto
  then show ?thesis using ring_get_request_frame[OF d(1)] by (auto simp: st_view_def ring_frame_def)
qed

lemma chain_end_sole:
  assumes "submit_end env ctx t e = (t', e')" "tls_link_ring t \<noteq> None" "sc_lock_st ctx"
    "sc_ring ctx < ring_count e" "single_thread (rings e ! sc_ring ctx)"
  shows "st_view (rings e' ! sc_ring ctx) = st_view (rings e ! sc_ring ctx)"
proof -
  let ?i = "sc_ring ctx" and ?c = "rings e ! sc_ring ctx"
  define c1 where "c1 = (if rq_uses_registered_file (requests ?c ! sc_req ctx)
      then ?c\<lparr>fixed_file_inflight := fixed_file_inflight ?c + 1\<rparr> else ?c)"
  let ?c2 = "c1\<lparr>st_users := st_users c1 + 1\<rparr>"
  have v: "st_view c1 = st_view ?c" by (simp add: c1_def st_view_def)
  then have l: "ring_lock c1 = (True, ?c2)" using assms(5) by (simp add: ring_lock_def st_view_def)
  obtain r tr c3 where fl: "ring_flush (sv_end_flush env) (tl_ring (t\<lparr>tls_last_ring := Some (eng_id e, ?i)\<rparr>)) ?c2 = (r, tr, c3)"
    by (rule prod_cases3)
  have "e' = latch_flush_result r (set_ring ?i (ring_unlock True c3) e)"
    using assms(1-3) l fl unfolding submit_end_def Let_def c1_def[symmetric] by simp
  then have "rings e' ! ?i = ring_unlock True c3" using assms(4) by simp
  then show ?thesis using st_view_flush[OF fl] v by (simp add: st_view_def ring_unlock_def)
qed

lemma chain_finish_sole:
  assumes f: "submit_finish env ctx stp prep revert fn t e = (Inr rp, t', e')" and t: "tls_link_ring t \<noteq> None"
    and d: "rings e ! sc_ring ctx = d" "sc_ring ctx < ring_count e" "single_thread d" "sc_lock_st ctx"
    and p: "counts_only prep" "ring_submits fn"
  shows "st_view (rings e' ! sc_ring ctx) = st_view d"
proof -
  let ?i = "sc_ring ctx" and ?j = "sc_req ctx"
  define c where "c = prep (upd_request ?j (\<lambda>req. (stp req)\<lparr>rq_ring_idx := ring_idx d\<rparr>) d)"
  obtain n where n: "c = (upd_request ?j (\<lambda>req. (stp req)\<lparr>rq_ring_idx := ring_idx d\<rparr>) d)\<lparr>fixed_buf_inflight := n\<rparr>"
    using p(1) by (auto simp: c_def counts_only_def)
  obtain r tr c1 where sub: "fn ?j (tl_ring t) c = (r, tr, c1)" by (rule prod_cases3)
  have f': "(case r of
           Inl err \<Rightarrow>
             let (t2, e2) = submit_abort env ctx (t\<lparr>tl_ring := tr\<rparr>) (set_ring ?i (revert c1) e) in (Inl err, t2, e2)
         | Inr u \<Rightarrow>
             let (t2, e2) = submit_end env ctx (t\<lparr>tl_ring := tr\<rparr>) (set_ring ?i c1 e) in (Inr (?i, ?j), t2, e2)) = (Inr rp, t', e')"
    using f sub unfolding submit_finish_def d(1) Let_def c_def[symmetric] by simp
  then obtain u where r: "r = Inr u" and en: "submit_end env ctx (t\<lparr>tl_ring := tr\<rparr>) (set_ring ?i c1 e) = (t', e')"
    by (cases r) (auto split: prod.splits)
  obtain op where "submits op ?j (tl_ring t) c (r, tr, c1)" using p(2) sub by (metis ring_submits_def)
  moreover have "st_view c = st_view d" by (simp add: n st_view_def upd_request_def)
  ultimately have c1: "st_view c1 = st_view d" by cases (simp_all add: st_view_def)
  have "st_view (rings e' ! ?i) = st_view (rings (set_ring ?i c1 e) ! ?i)"
    by (rule chain_end_sole[OF en]) (use t d c1 in \<open>simp_all add: st_view_def\<close>)
  then show ?thesis using c1 d(2) by simp
qed


section \<open>The fatal error\<close>

lemma begin_fatal: "fatal_submit_errno e \<noteq> 0 \<Longrightarrow> submit_begin cb env ap t e = Some (Inl (fatal_submit_errno e), t, e)"
  by (simp add: submit_begin_def)

lemma fatal_rdlock [simp]: "fatal_submit_errno (reg_rdlock e) = fatal_submit_errno e"
  by (simp add: reg_rdlock_def)

definition refuses where
  "refuses t e res \<longleftrightarrow> (\<exists>err. res = Some (Inl err, t, e) \<and>
     err \<in> {fatal_submit_errno e, EINVAL, ENOENT, EBUSY, EOVERFLOW})"

lemma refuses_Inl [simp]:
  "refuses t e (Some (Inl err, t, e)) \<longleftrightarrow> err \<in> {fatal_submit_errno e, EINVAL, ENOENT, EBUSY, EOVERFLOW}"
  by (auto simp: refuses_def)

lemma resolved_fatal:
  assumes "fatal_submit_errno e \<noteq> 0"
  shows "refuses t e (case file_guard fd flags e of
       None \<Rightarrow> Some (Inl EINVAL, t, e)
     | Some (g, e1) \<Rightarrow>
         (case submit_begin cb env (\<not> g_uses_registered_file g) t e1 of
            None \<Rightarrow> None
          | Some (Inl err, t2, e2) \<Rightarrow> Some (Inl err, t2, resolve_file_end g e2)
          | Some (Inr ctx, t2, e2) \<Rightarrow> rest g ctx t2 e2))"
proof (cases "file_guard fd flags e")
  case (Some p)
  then obtain g e1 where g: "file_guard fd flags e = Some (g, e1)" by (cases p) auto
  note c = file_guard_cases[OF g]
  have "fatal_submit_errno e1 = fatal_submit_errno e" using c by simp
  then show ?thesis using g c assms begin_fatal[of e1] by (simp add: resolve_file_end_def)
qed simp

lemma file_op_fatal:
  "fatal_submit_errno e \<noteq> 0 \<Longrightarrow> refuses t e (SUBMIT_FILE_RESOLVED_OP cb env fd flags f ud fn stp t e)"
  unfolding SUBMIT_FILE_RESOLVED_OP_def
  by (cases "valid_submit_flags flags") (simp_all only: not_True_eq_False if_False not_False_eq_True if_True
      resolved_fatal refuses_Inl insert_iff simp_thms)

lemma plain_op_fatal:
  "fatal_submit_errno e \<noteq> 0 \<Longrightarrow> refuses t e (submit_plain_op cb env stp fn t e)"
  by (simp add: submit_plain_op_def begin_fatal)

lemma io_fatal:
  assumes "fatal_submit_errno e \<noteq> 0"
  shows "refuses t e (submit_io_generic cb env fd buf n off flags f ud g h t e)"
proof -
  have "refuses t e (submit_unregistered_io cb env fd ptr n off flags f ud g t e)" for ptr
    unfolding submit_unregistered_io_def by (rule resolved_fatal[OF assms])
  moreover have "refuses t e (case validate_registered_buffer b k n e of
      (Inl err, e1) \<Rightarrow> Some (Inl err, t, e1)
    | (Inr iov, e1) \<Rightarrow> submit_registered_buffer_io cb env fd iov b k n off flags f ud h t e1)" for b k
  proof -
    obtain v e1 where v: "validate_registered_buffer b k n e = (v, e1)" by (metis prod.exhaust)
    show ?thesis
    proof (cases v)
      case (Inl err)
      then have "e1 = e" "err \<in> {EINVAL, ENOENT, EBUSY, EOVERFLOW}" using v
        by (auto simp: validate_registered_buffer_def Let_def reg_rdlock_def reg_rdunlock_def
            split: if_splits prod.splits)
      then show ?thesis using v Inl by (auto simp: refuses_def)
    next
      case (Inr iov)
      then have e1: "e1 = (if eng_single_thread e then e else reg_rdlock e)" using v
        by (auto simp: validate_registered_buffer_def Let_def split: if_splits prod.splits)
      then have "fatal_submit_errno e1 = fatal_submit_errno e" "eng_single_thread e1 = eng_single_thread e"
        by (simp_all add: reg_rdlock_def)
      then show ?thesis using v Inr e1 assms begin_fatal[of e1]
        by (simp add: submit_registered_buffer_io_def)
    qed
  qed
  ultimately show ?thesis by (simp add: submit_io_generic_def split: aura_buf.split)
qed

lemma run_submission_refused:
  assumes "fatal_submit_errno e \<noteq> 0"
  shows "refuses t e (run_submission cb env f ud t e s)"
proof -
  note io = io_fatal[OF assms] and fileop = file_op_fatal[OF assms] and plain = plain_op_fatal[OF assms]
  show ?thesis using io fileop plain
    by (cases s) (simp_all add: aura_read_def aura_write_def aura_fsync_def aura_openat_def aura_close_def
        aura_statx_def aura_fallocate_def aura_ftruncate_def aura_sync_file_range_def aura_readv_def aura_writev_def)
qed

text \<open>
  A fatal submission error is final: once one is latched, no later error replaces
  it, and every submission operation fails without changing anything of the engine or of the
  thread's state, with the latched error unless its arguments are invalid.
\<close>

theorem fatal_error_is_final:
  assumes "fatal_submit_errno e \<noteq> 0"
  shows "latch_fatal_submit_errno err' e = e \<and>
    (\<exists>err. run_submission cb env f ud t e s = Some (Inl err, t, e) \<and>
       err \<in> {fatal_submit_errno e, EINVAL, ENOENT, EBUSY, EOVERFLOW})"
  using run_submission_refused[OF assms, of t cb env f ud s] latch_fatal_sticky[OF assms] by (simp add: refuses_def)

section \<open>Concrete engines\<close>

definition demo_etls :: engine_tls where
  "demo_etls = \<lparr>tl_ring = demo_tls, pthread_self = 7, cached_cpu = -1, cpu_refresh_counter = 0,
     tls_link_ring = None, tls_link_depth = 0, tls_last_ring = None, tls_owned_ring = None,
     tls_engine = None, tls_rng_state = 0\<rparr>"

definition demo_engine :: "aura_ring_select \<Rightarrow> ring_ctx list \<Rightarrow> aura_engine" where
  "demo_engine sel cs = \<lparr>eng_id = 1, rings = cs, eng_queue_depth = 8, next_ring = 0, avg_ring_pending = 0,
     eng_shutting_down = False, ring_select = sel, eng_single_thread = False, fatal_submit_errno = 0,
     buffers_registered = False, files_registered = False, buffers_unreg_pending = False,
     files_unreg_pending = False, reg_readers = 0, reg_writers = 0, registered_buffers = [],
     registered_files = [], running = False, stop_requested = False, tick_running = False,
     adaptive_enabled = True, eng_sqpoll_enabled = False, event_fd = 4, eventfd_registered = True,
     eventfd_value = 0, buffer_alignment = 4096, adaptive_spills = 0\<rparr>"

definition demo_shared :: aura_engine where
  "demo_shared = demo_engine AURA_SELECT_CPU_LOCAL [demo_ring, demo_ring]"

definition demo_senv :: submit_env where
  "demo_senv = \<lparr>sv_cpu = 1, sv_enable = 0, sv_flush = 0, sv_cq = [], sv_arrivals = [], sv_have_sqe = True,
     sv_now = 5, sv_end_flush = 0, sv_ftruncate = True\<rparr>"

lemma demo_ring_facts:
  "ring_inv 0 demo_ring" "\<not> single_thread demo_ring" "\<not> needs_enable demo_ring" "ring_can_submit demo_ring"
  "free_request_count demo_ring = 8" "pending_count demo_ring = 0" "ring_initialized demo_ring"
  "\<not> shutting_down demo_ring" "owner_count demo_ring = 0" "st_users demo_ring = 0"
  "current_in_flight_limit (adaptive demo_ring) = 8"
  using ring_init_inv[OF demo_ring_init]
  by (simp_all add: demo_ring_def ring_init_def queue_init_ladder_def Let_def adaptive_init_def
      initial_inflight_for_def c_div_def no_params_def apply_single_issuer_params_def ring_can_submit_def
      adaptive_is_passthrough_def)

lemma demo_shared_ok: "shared_engine demo_shared" "shared_engine (demo_shared\<lparr>buffers_registered := b, registered_buffers := bs\<rparr>)"
  by (simp_all add: shared_engine_def shared_ring_def demo_shared_def demo_engine_def demo_ring_facts)

lemma demo_senv_valid: "\<forall>c \<in> S. cqes_valid c (sv_cq demo_senv) (sv_arrivals demo_senv)"
  by (simp add: cqes_valid_def demo_senv_def)

lemma read_next_ok: "counting_callback read_next"
  unfolding read_next_def by (rule counted.counting_callback_axioms)


theorem bad_fixed_index_leaks_witness:
  "\<exists>t' e' i. run_submission read_next demo_senv 5 6 demo_etls
      (demo_shared\<lparr>buffers_registered := True, registered_buffers := [(4096, 1024)]\<rparr>)
      (SubRead 3 (AuraBufRegistered 0 0) 512 0 1) = Some (Inl EINVAL, t', e') \<and>
    i < 2 \<and> lock (rings e' ! i) = lock demo_ring + 1"
proof -
  let ?e = "demo_shared\<lparr>buffers_registered := True, registered_buffers := [(4096, 1024)]\<rparr>"
  have r: "ring_count ?e = 2" "i < 2 \<Longrightarrow> rings ?e ! i = demo_ring" for i
    by (auto simp: demo_shared_def demo_engine_def less_2_cases_iff)
  have "\<exists>e1. validate_registered_buffer 0 0 512 ?e = (Inr (4096, 1024), e1)"
    by (simp add: validate_registered_buffer_def demo_shared_def demo_engine_def reg_rdlock_def Let_def)
  then obtain e1 where v: "validate_registered_buffer 0 0 512 ?e = (Inr (4096, 1024), e1)" by blast
  have h: "fatal_submit_errno ?e = 0" "\<not> eng_shutting_down ?e" "\<not> validate_fixed_file ?e 3"
    "\<forall>c \<in> set (rings ?e). ring_can_submit c \<and> free_request_count c \<noteq> 0"
    by (simp_all add: demo_shared_def demo_engine_def validate_fixed_file_def demo_ring_facts)
  have fl: "valid_submit_flags 1" "has_fixed_file 1" by (simp_all add: valid_submit_flags_def has_fixed_file_def)
  from bad_fixed_index_leaks[OF demo_shared_ok(2) h(1,2,4) v _ _ fl h(3), of read_next demo_senv 5 6 demo_etls 0]
  show ?thesis using r by fastforce
qed

theorem fatal_error_is_final_witness:
  "\<exists>err. run_submission read_next demo_senv 5 6 demo_etls (demo_shared\<lparr>fatal_submit_errno := EIO\<rparr>)
      (SubClose 3 0) = Some (Inl err, demo_etls, demo_shared\<lparr>fatal_submit_errno := EIO\<rparr>)"
proof -
  have "fatal_submit_errno (demo_shared\<lparr>fatal_submit_errno := EIO\<rparr>) \<noteq> 0" by simp
  from fatal_error_is_final[OF this] show ?thesis by blast
qed

text \<open>The same ring with a sole owner, and a thread inside a chain on it.\<close>

definition demo_owned :: ring_ctx where
  "demo_owned = demo_ring\<lparr>single_thread := True, owner_count := 1\<rparr>"

definition demo_local :: aura_engine where
  "demo_local = demo_engine AURA_SELECT_THREAD_LOCAL [demo_owned]"

definition demo_chain_tls :: engine_tls where
  "demo_chain_tls = demo_etls\<lparr>tls_engine := Some 1, tls_link_ring := Some (1, 0)\<rparr>"

lemma demo_owned_facts:
  "ring_inv 0 demo_owned" "single_thread demo_owned" "\<not> needs_enable demo_owned" "ring_can_submit demo_owned"
  "free_request_count demo_owned \<noteq> 0" "ring_initialized demo_owned" "\<not> shutting_down demo_owned"
  "owner_count demo_owned = 1" "st_users demo_owned = 0"
  using demo_ring_facts ring_inv_cong[of demo_owned demo_ring 0]
  by (simp_all add: demo_owned_def ring_can_submit_def adaptive_get_inflight_limit_def split: if_splits)

theorem sole_owner_abort_unbalanced_witness:
  "\<exists>err t' c'. aura_close read_next (demo_senv\<lparr>sv_have_sqe := False\<rparr>) 3 0 5 6 demo_etls demo_local =
      Some (Inl err, t', demo_local\<lparr>rings := [c']\<rparr>) \<and> st_users c' = -1"
proof -
  have e: "rings demo_local = [demo_owned]" "fatal_submit_errno demo_local = 0" "\<not> eng_shutting_down demo_local"
    "tls_link_ring demo_etls = None" "\<not> sv_have_sqe (demo_senv\<lparr>sv_have_sqe := False\<rparr>)"
    by (simp_all add: demo_local_def demo_engine_def demo_etls_def)
  from sole_owner_abort_unbalanced[OF e(1) demo_owned_facts(2,3,1,4,5) e(4,2,3,5), of 3 read_next 5 6] demo_owned_facts(9)
  show ?thesis by auto
qed

lemma demo_chain: "in_chain demo_chain_tls demo_local" "rings demo_local ! ring_of (tls_link_ring demo_chain_tls) = demo_owned"
  "ring_of (tls_link_ring demo_chain_tls) = 0" "ring_select demo_local = AURA_SELECT_THREAD_LOCAL"
  by (simp_all add: in_chain_def points_into_def ring_of_def demo_chain_tls_def demo_local_def demo_engine_def)

text \<open>Closing a file inside the chain succeeds.\<close>

lemma demo_chain_close:
  obtains rp t' e' where "run_submission read_next demo_senv 5 6 demo_chain_tls demo_local (SubClose 3 0) =
      Some (Inr rp, t', e')" "ring_count e' = 1"
proof -
  let ?d = "demo_owned\<lparr>st_users := 1\<rparr>"
  obtain j c where g: "ring_get_request ?d = Some (j, c)"
    using demo_owned_facts(5) by (simp add: ring_get_request_def Let_def)
  note gf = ring_get_request_frame[OF g]
  have sd: "\<not> shutting_down c" using g demo_owned_facts(7)
    by (auto simp: ring_get_request_def Let_def upd_request_def split: if_splits)
  have b: "submit_begin read_next demo_senv True demo_chain_tls demo_local =
      Some (Inr \<lparr>sc_ring = 0, sc_req = j, sc_lock_st = True\<rparr>, demo_chain_tls, demo_local\<lparr>rings := [c]\<rparr>)"
    using g demo_owned_facts(2,4,9)
    by (simp add: submit_begin_def pick_ring_def begin_locked_def take_slot_def ring_lock_def ring_can_submit_def
        points_into_def ring_of_def demo_chain_tls_def demo_local_def demo_engine_def set_ring_def)
  define ctx where "ctx = (\<lparr>sc_ring = 0, sc_req = j, sc_lock_st = True\<rparr> :: submit_ctx)"
  define h where "h = (\<lambda>req :: aura_request. req\<lparr>rq_fd := 3, rq_original_fd := 3, rq_callback := 5, rq_user_data := 6,
      rq_uses_registered_file := False\<rparr>)"
  have "ring_initialized c" using gf demo_owned_facts(6) by (simp add: ring_frame_def)
  then have "fst (submit_finish demo_senv ctx h id id (ring_submit_close (sv_have_sqe demo_senv))
      demo_chain_tls (demo_local\<lparr>rings := [c]\<rparr>)) = Inr (0, j) \<and>
    ring_count (snd (snd (submit_finish demo_senv ctx h id id (ring_submit_close (sv_have_sqe demo_senv))
      demo_chain_tls (demo_local\<lparr>rings := [c]\<rparr>)))) = 1"
    using sd unfolding submit_finish_def
    by (simp add: ctx_def ring_submit_close_def RING_SUBMIT_META_OP_def submit_get_sqe_def demo_senv_def
        Let_def submit_end_def demo_chain_tls_def split_beta upd_request_def)
  then show thesis
    using that b by (auto simp: aura_close_def submit_plain_op_def ctx_def h_def prod_eq_iff)
qed

theorem chain_stops_at_two_witness:
  "\<exists>rp t' e' t'' e''. run_submission read_next demo_senv 5 6 demo_chain_tls demo_local (SubClose 3 0) =
      Some (Inr rp, t', e') \<and> aura_request_set_linked rp t' e' = (Inr (), t'', e'') \<and>
    map ring (rings e'') = map ring (rings e')"
proof -
  obtain rp t' e' where r: "run_submission read_next demo_senv 5 6 demo_chain_tls demo_local (SubClose 3 0) =
      Some (Inr rp, t', e')" by (rule demo_chain_close)
  from chain_stops_at_two[OF demo_chain(4,1) r] r show ?thesis by blast
qed



theorem single_ring_shared_without_lock_witness:
  "\<exists>t1 e1 e2. select_ring 0 0 demo_etls (demo_engine AURA_SELECT_THREAD_LOCAL [demo_ring\<lparr>needs_enable := True\<rparr>]) =
      Some (0, t1, e1) \<and> select_ring 0 0 demo_chain_tls e1 = Some (0, demo_chain_tls, e2) \<and>
    ring_is_sole_owner e2 (rings e2 ! 0)"
proof -
  let ?e = "demo_engine AURA_SELECT_THREAD_LOCAL [demo_ring\<lparr>needs_enable := True\<rparr>]"
  have h: "ring_select ?e = AURA_SELECT_THREAD_LOCAL" "ring_count ?e = 1" "owner_count (rings ?e ! 0) = 0"
    "ring_initialized (rings ?e ! 0)" "needs_enable (rings ?e ! 0)" "tls_engine demo_etls = None"
    by (simp_all add: demo_engine_def demo_ring_facts demo_etls_def)
  obtain i t1 e1 where r: "select_ring 0 0 demo_etls ?e = Some (i, t1, e1)" "i = 0"
    by (simp add: select_ring_def select_ring_thread_local_def demo_engine_def demo_etls_def demo_ring_facts Let_def)
  from single_ring_shared_without_lock[OF h(1-5) _ h(6) r(1), of 0 0 demo_chain_tls] r show ?thesis by auto
qed

theorem validate_registered_buffer_exact_witness:
  "\<exists>e'. validate_registered_buffer 0 512 512
      (demo_shared\<lparr>buffers_registered := True, registered_buffers := [(4096, 1024)]\<rparr>) = (Inr (4096, 1024), e') \<and>
    reg_readers e' = 1"
proof -
  let ?e = "demo_shared\<lparr>buffers_registered := True, registered_buffers := [(4096, 1024)]\<rparr>"
  obtain r e' where v: "validate_registered_buffer 0 512 512 ?e = (r, e')" by (metis prod.exhaust)
  from validate_registered_buffer_exact[OF v] show ?thesis unfolding v
    by (auto simp: demo_shared_def demo_engine_def split: sum.splits)
qed

end
