(* ===== verification/Engine_Registration.thy ===== *)
theory Engine_Registration
  imports Engine_Submission
begin

text \<open>
  Registered buffers and files of \<^verbatim>\<open>src/engine/src/aura.c\<close>: registration with every
  ring and its undo, deferred unregistration, the update of one registered file with its rollback,
  the lifecycle they implement, and the in-flight counters that hold back an unregistration.
\<close>

section \<open>State\<close>

text \<open>
  The engine together with what the kernel has registered for each ring: the fixed buffers and
  the fixed file table, if any. A register call that answers a negative errno changes nothing.
\<close>

record reg_state =
  rs_engine :: aura_engine
  k_buffers :: "(nat \<times> nat) list option list"
  k_files :: "int list option list"

datatype aura_reg_type = AURA_REG_BUFFERS | AURA_REG_FILES

definition upd_engine :: "(aura_engine \<Rightarrow> aura_engine) \<Rightarrow> reg_state \<Rightarrow> reg_state" where
  "upd_engine f s = s\<lparr>rs_engine := f (rs_engine s)\<rparr>"

definition reg_wrlock :: "aura_engine \<Rightarrow> aura_engine" where
  "reg_wrlock e = e\<lparr>reg_writers := reg_writers e + 1\<rparr>"

definition reg_wrunlock :: "aura_engine \<Rightarrow> aura_engine" where
  "reg_wrunlock e = e\<lparr>reg_writers := reg_writers e - 1\<rparr>"

section \<open>Registration with every ring\<close>

primrec unregister_rings :: "nat \<Rightarrow> 'a option list \<Rightarrow> 'a option list" where
  "unregister_rings 0 ks = ks"
| "unregister_rings (Suc j) ks = (unregister_rings j ks)[j := None]"

text \<open>\<open>ret i\<close> is the kernel's answer for ring \<open>i\<close>; rings \<open>i\<close> to \<open>i + n - 1\<close> are left to do.\<close>

fun register_rings :: "(nat \<Rightarrow> int) \<Rightarrow> 'a \<Rightarrow> nat \<Rightarrow> nat \<Rightarrow> 'a option list \<Rightarrow> (int + unit) \<times> 'a option list" where
  "register_rings ret x 0 i ks = (Inr (), ks)"
| "register_rings ret x (Suc n) i ks =
     (if ret i < 0 then (Inl (- ret i), unregister_rings i ks)
      else register_rings ret x n (i + 1) (ks[i := Some x]))"

definition aura_register_buffers ::
    "bool \<Rightarrow> (nat \<Rightarrow> int) \<Rightarrow> (nat \<times> nat) list \<Rightarrow> reg_state \<Rightarrow> (int + unit) \<times> reg_state" where
  "aura_register_buffers malloc_ok ret iovs s =
     (if iovs = [] \<or> length iovs > nat INT_MAX then (Inl EINVAL, s)
      else
        let s1 = upd_engine reg_wrlock s; e = rs_engine s1; unlock = upd_engine reg_wrunlock
        in if buffers_registered e \<or> buffers_unreg_pending e then (Inl EBUSY, unlock s1)
           else if \<not> malloc_ok then (Inl ENOMEM, unlock (upd_engine (\<lambda>e. e\<lparr>registered_buffers := []\<rparr>) s1))
           else
             let s2 = upd_engine (\<lambda>e. e\<lparr>registered_buffers := iovs\<rparr>) s1
             in case register_rings ret iovs (ring_count e) 0 (k_buffers s2) of
                  (Inl err, ks) \<Rightarrow>
                    (Inl err, unlock (upd_engine (\<lambda>e. e\<lparr>registered_buffers := []\<rparr>) (s2\<lparr>k_buffers := ks\<rparr>)))
                | (Inr _, ks) \<Rightarrow>
                    (Inr (), unlock (upd_engine (\<lambda>e. e\<lparr>buffers_registered := True, buffers_unreg_pending := False\<rparr>)
                       (s2\<lparr>k_buffers := ks\<rparr>))))"

definition aura_register_files ::
    "bool \<Rightarrow> (nat \<Rightarrow> int) \<Rightarrow> int list \<Rightarrow> reg_state \<Rightarrow> (int + unit) \<times> reg_state" where
  "aura_register_files malloc_ok ret fds s =
     (if fds = [] \<or> length fds > nat INT_MAX then (Inl EINVAL, s)
      else
        let s1 = upd_engine reg_wrlock s; e = rs_engine s1; unlock = upd_engine reg_wrunlock
        in if files_registered e \<or> files_unreg_pending e then (Inl EBUSY, unlock s1)
           else if \<not> malloc_ok then (Inl ENOMEM, unlock (upd_engine (\<lambda>e. e\<lparr>registered_files := []\<rparr>) s1))
           else
             let s2 = upd_engine (\<lambda>e. e\<lparr>registered_files := fds\<rparr>) s1
             in case register_rings ret fds (ring_count e) 0 (k_files s2) of
                  (Inl err, ks) \<Rightarrow>
                    (Inl err, unlock (upd_engine (\<lambda>e. e\<lparr>registered_files := []\<rparr>) (s2\<lparr>k_files := ks\<rparr>)))
                | (Inr _, ks) \<Rightarrow>
                    (Inr (), unlock (upd_engine (\<lambda>e. e\<lparr>files_registered := True, files_unreg_pending := False\<rparr>)
                       (s2\<lparr>k_files := ks\<rparr>))))"

section \<open>Updating one registered file\<close>

definition update_slot :: "nat \<Rightarrow> int \<Rightarrow> int list option \<Rightarrow> int list option" where
  "update_slot index fd tbl = map_option (\<lambda>t. t[index := fd]) tbl"

text \<open>The rollback of rings \<open>0\<close> to \<open>i - 1\<close>; the result says whether any of them failed.\<close>

primrec rollback_rings ::
    "(nat \<Rightarrow> int) \<Rightarrow> nat \<Rightarrow> int \<Rightarrow> nat \<Rightarrow> int list option list \<Rightarrow> bool \<times> int list option list" where
  "rollback_rings rb index old_fd 0 ks = (False, ks)"
| "rollback_rings rb index old_fd (Suc j) ks =
     (let (failed, ks1) = rollback_rings rb index old_fd j ks
      in if rb j < 0 then (True, ks1) else (failed, ks1[j := update_slot index old_fd (ks1 ! j)]))"

fun update_rings ::
    "(nat \<Rightarrow> int) \<Rightarrow> (nat \<Rightarrow> int) \<Rightarrow> nat \<Rightarrow> int \<Rightarrow> int \<Rightarrow> nat \<Rightarrow> nat \<Rightarrow> int list option list \<Rightarrow>
     (int \<times> bool + unit) \<times> int list option list" where
  "update_rings ret rb index old_fd fd 0 i ks = (Inr (), ks)"
| "update_rings ret rb index old_fd fd (Suc n) i ks =
     (if ret i < 0 then
        let (failed, ks1) = rollback_rings rb index old_fd i ks in (Inl (- ret i, failed), ks1)
      else update_rings ret rb index old_fd fd n (i + 1) (ks[i := update_slot index fd (ks ! i)]))"

definition aura_update_file ::
    "(nat \<Rightarrow> int) \<Rightarrow> (nat \<Rightarrow> int) \<Rightarrow> int \<Rightarrow> int \<Rightarrow> reg_state \<Rightarrow> (int + unit) \<times> reg_state" where
  "aura_update_file ret rb index fd s =
     (if index < 0 then (Inl EINVAL, s)
      else
        let s1 = upd_engine reg_wrlock s; e = rs_engine s1; unlock = upd_engine reg_wrunlock
        in if \<not> files_registered e \<or> files_unreg_pending e
           then (Inl (if files_unreg_pending e then EBUSY else ENOENT), unlock s1)
           else if index \<ge> int (length (registered_files e)) then (Inl EINVAL, unlock s1)
           else
             let i = nat index; old_fd = registered_files e ! i
             in case update_rings ret rb i old_fd fd (ring_count e) 0 (k_files s1) of
                  (Inl (err, failed), ks) \<Rightarrow>
                    let s2 = s1\<lparr>k_files := ks\<rparr>;
                        s3 = (if failed then upd_engine (latch_fatal_submit_errno EIO) s2 else s2)
                    in (Inl err, unlock s3)
                | (Inr _, ks) \<Rightarrow>
                    (Inr (), unlock (upd_engine (\<lambda>e. e\<lparr>registered_files := (registered_files e)[i := fd]\<rparr>)
                       (s1\<lparr>k_files := ks\<rparr>))))"

section \<open>Deferred unregistration\<close>

definition fixed_buf_inflight_total :: "aura_engine \<Rightarrow> u32" where
  "fixed_buf_inflight_total e = foldl (\<lambda>total c. total + fixed_buf_inflight c) 0 (rings e)"

definition fixed_file_inflight_total :: "aura_engine \<Rightarrow> u32" where
  "fixed_file_inflight_total e = foldl (\<lambda>total c. total + fixed_file_inflight c) 0 (rings e)"

definition finalize_buffers :: "reg_state \<Rightarrow> reg_state" where
  "finalize_buffers s =
     (let e = rs_engine s
      in if buffers_registered e \<and> buffers_unreg_pending e \<and> fixed_buf_inflight_total e = 0
         then upd_engine (\<lambda>e. e\<lparr>registered_buffers := [], buffers_registered := False, buffers_unreg_pending := False\<rparr>)
                (s\<lparr>k_buffers := unregister_rings (ring_count e) (k_buffers s)\<rparr>)
         else s)"

definition finalize_files :: "reg_state \<Rightarrow> reg_state" where
  "finalize_files s =
     (let e = rs_engine s
      in if files_registered e \<and> files_unreg_pending e \<and> fixed_file_inflight_total e = 0
         then upd_engine (\<lambda>e. e\<lparr>registered_files := [], files_registered := False, files_unreg_pending := False\<rparr>)
                (s\<lparr>k_files := unregister_rings (ring_count e) (k_files s)\<rparr>)
         else s)"

definition finalize_deferred_unregistration :: "reg_state \<Rightarrow> (int + unit) \<times> reg_state" where
  "finalize_deferred_unregistration s =
     (Inr (), upd_engine reg_wrunlock (finalize_files (finalize_buffers (upd_engine reg_wrlock s))))"

definition maybe_finalize_deferred_unregistration :: "reg_state \<Rightarrow> (int + unit) \<times> reg_state" where
  "maybe_finalize_deferred_unregistration s =
     (if \<not> buffers_registered (rs_engine s) \<and> \<not> files_registered (rs_engine s) then (Inr (), s)
      else
        let s1 = upd_engine reg_rdlock s;
            need = (buffers_unreg_pending (rs_engine s1) \<or> files_unreg_pending (rs_engine s1));
            s2 = upd_engine reg_rdunlock s1
        in if \<not> need then (Inr (), s2) else finalize_deferred_unregistration s2)"

text \<open>The generic request works on the two flags it is given: here their reader and the writer of the second.\<close>

definition request_unregister_generic ::
    "(aura_engine \<Rightarrow> bool) \<Rightarrow> (aura_engine \<Rightarrow> bool) \<Rightarrow> (aura_engine \<Rightarrow> aura_engine) \<Rightarrow> reg_state \<Rightarrow>
     (int + unit) \<times> reg_state" where
  "request_unregister_generic registered unreg_pending set_pending s =
     (let s1 = upd_engine reg_wrlock s; e = rs_engine s1
      in if \<not> registered e \<and> \<not> unreg_pending e then (Inr (), upd_engine reg_wrunlock s1)
         else finalize_deferred_unregistration (upd_engine reg_wrunlock (upd_engine set_pending s1)))"

definition request_unregister_buffers :: "reg_state \<Rightarrow> (int + unit) \<times> reg_state" where
  "request_unregister_buffers =
     request_unregister_generic buffers_registered buffers_unreg_pending (\<lambda>e. e\<lparr>buffers_unreg_pending := True\<rparr>)"

definition request_unregister_files :: "reg_state \<Rightarrow> (int + unit) \<times> reg_state" where
  "request_unregister_files =
     request_unregister_generic files_registered files_unreg_pending (\<lambda>e. e\<lparr>files_unreg_pending := True\<rparr>)"

definition aura_request_unregister :: "aura_reg_type \<Rightarrow> reg_state \<Rightarrow> (int + unit) \<times> reg_state" where
  "aura_request_unregister ty s =
     (case ty of AURA_REG_BUFFERS \<Rightarrow> request_unregister_buffers s | AURA_REG_FILES \<Rightarrow> request_unregister_files s)"

section \<open>The lifecycle of a registration\<close>

text \<open>What a client may rely on: nothing registered, registered, or waiting for the last use.\<close>

datatype 'a lifecycle = Unregistered | Registered "'a list" | Leaving "'a list"

definition lifecycle_of :: "bool \<Rightarrow> bool \<Rightarrow> 'a list \<Rightarrow> 'a lifecycle" where
  "lifecycle_of registered unreg_pending table =
     (if \<not> registered then Unregistered else if unreg_pending then Leaving table else Registered table)"

definition buffers_phase :: "reg_state \<Rightarrow> (nat \<times> nat) lifecycle" where
  "buffers_phase s = lifecycle_of (buffers_registered (rs_engine s)) (buffers_unreg_pending (rs_engine s))
     (registered_buffers (rs_engine s))"

definition files_phase :: "reg_state \<Rightarrow> int lifecycle" where
  "files_phase s = lifecycle_of (files_registered (rs_engine s)) (files_unreg_pending (rs_engine s))
     (registered_files (rs_engine s))"

fun enter :: "'a list \<Rightarrow> 'a lifecycle \<Rightarrow> 'a lifecycle" where
  "enter xs Unregistered = Registered xs"
| "enter xs l = l"

fun leave :: "'a lifecycle \<Rightarrow> 'a lifecycle" where
  "leave (Registered xs) = Leaving xs"
| "leave l = l"

fun settle :: "bool \<Rightarrow> 'a lifecycle \<Rightarrow> 'a lifecycle" where
  "settle idle (Leaving xs) = (if idle then Unregistered else Leaving xs)"
| "settle idle l = l"

fun kernel_view :: "'a lifecycle \<Rightarrow> 'a list option" where
  "kernel_view Unregistered = None"
| "kernel_view (Registered xs) = Some xs"
| "kernel_view (Leaving xs) = Some xs"

text \<open>
  The interface of a registry: what registering, requesting and finalising promise about the phase
  and about the kernel's tables, one per ring.
\<close>

locale fixed_registry =
  fixes phase :: "'s \<Rightarrow> 'a lifecycle"
    and kernel :: "'s \<Rightarrow> 'a list option list"
    and nrings :: "'s \<Rightarrow> nat"
    and idle :: "'s \<Rightarrow> bool"
    and wf :: "'s \<Rightarrow> bool"
    and register :: "bool \<Rightarrow> (nat \<Rightarrow> int) \<Rightarrow> 'a list \<Rightarrow> 's \<Rightarrow> (int + unit) \<times> 's"
    and request :: "'s \<Rightarrow> (int + unit) \<times> 's"
    and finish :: "'s \<Rightarrow> (int + unit) \<times> 's"
  assumes register_wf: "wf s \<Longrightarrow> wf (snd (register m ret xs s))"
    and request_wf: "wf s \<Longrightarrow> wf (snd (request s))"
    and finish_wf: "wf s \<Longrightarrow> wf (snd (finish s))"
    and kernel_wf: "wf s \<Longrightarrow> kernel s = replicate (nrings s) (kernel_view (phase s))"
    and register_phase: "wf s \<Longrightarrow> phase (snd (register m ret xs s)) =
          (case fst (register m ret xs s) of Inl err \<Rightarrow> phase s | Inr _ \<Rightarrow> enter xs (phase s))"
    and register_busy: "wf s \<Longrightarrow> phase s \<noteq> Unregistered \<Longrightarrow> \<exists>err. fst (register m ret xs s) = Inl err"
    and request_phase: "wf s \<Longrightarrow> phase (snd (request s)) = settle (idle s) (leave (phase s))"
    and finish_phase: "wf s \<Longrightarrow> phase (snd (finish s)) = settle (idle s) (phase s)"
begin

text \<open>While an operation uses the registry, no call takes the tables away.\<close>

lemma kept_while_busy:
  assumes "wf s" "\<not> idle s" "phase s \<noteq> Unregistered"
  shows "kernel_view (phase (snd (register m ret xs s))) = kernel_view (phase s)"
    "kernel_view (phase (snd (request s))) = kernel_view (phase s)"
    "kernel_view (phase (snd (finish s))) = kernel_view (phase s)"
proof -
  obtain err where "fst (register m ret xs s) = Inl err" using register_busy[OF assms(1,3)] by blast
  then show "kernel_view (phase (snd (register m ret xs s))) = kernel_view (phase s)"
    using register_phase[OF assms(1), of m ret xs] by simp
  show "kernel_view (phase (snd (request s))) = kernel_view (phase s)"
    "kernel_view (phase (snd (finish s))) = kernel_view (phase s)"
    using request_phase[OF assms(1)] finish_phase[OF assms(1)] assms(2,3) by (cases "phase s"; simp)+
qed

text \<open>Once leaving, a registry that falls idle is gone at the next finalisation, and can be entered again.\<close>

lemma leave_and_enter:
  assumes "wf s" "idle s" "phase s = Leaving ys"
  shows "phase (snd (finish s)) = Unregistered"
    "fst (register m ret xs (snd (finish s))) = Inr () \<Longrightarrow>
       phase (snd (register m ret xs (snd (finish s)))) = Registered xs"
proof -
  show u: "phase (snd (finish s)) = Unregistered" using finish_phase[OF assms(1)] assms(2,3) by simp
  show "fst (register m ret xs (snd (finish s))) = Inr () \<Longrightarrow>
       phase (snd (register m ret xs (snd (finish s)))) = Registered xs"
    using register_phase[OF finish_wf[OF assms(1)], of m ret xs] u by simp
qed

end

section \<open>Kernel tables\<close>

lemma length_unregister [simp]: "length (unregister_rings j ks) = length ks"
  by (induction j) simp_all

lemma unregister_nth: "i < length ks \<Longrightarrow> unregister_rings j ks ! i = (if i < j then None else ks ! i)"
  by (induction j) (auto simp: nth_list_update less_Suc_eq)

lemma unregister_all: "unregister_rings (length ks) ks = replicate (length ks) None"
  by (rule nth_equalityI) (simp_all add: unregister_nth)

lemma register_rings_outcome:
  assumes "register_rings ret x n i ks = (r, ks')" "i + n = length ks"
    "\<And>j. j < i \<Longrightarrow> ks ! j = Some x" "\<And>j. i \<le> j \<Longrightarrow> j < length ks \<Longrightarrow> ks ! j = None"
  shows "ks' = replicate (length ks) (case r of Inl err \<Rightarrow> None | Inr _ \<Rightarrow> Some x)"
  using assms
proof (induction ret x n i ks rule: register_rings.induct)
  case (1 ret x i ks)
  then show ?case by (intro nth_equalityI) auto
next
  case (2 ret x n i ks)
  show ?case
  proof (cases "ret i < 0")
    case True
    then have "ks' = unregister_rings i ks" "r = Inl (- ret i)" using "2.prems"(1) by auto
    then show ?thesis using "2.prems"(2,4) by (intro nth_equalityI) (simp_all add: unregister_nth)
  next
    case False
    have "ks' = replicate (length (ks[i := Some x])) (case r of Inl err \<Rightarrow> None | Inr _ \<Rightarrow> Some x)"
      by (rule "2.IH"[OF False]) (use "2.prems" False in \<open>auto simp: nth_list_update less_Suc_eq\<close>)
    then show ?thesis by simp
  qed
qed

lemmas register_all = register_rings_outcome[where i = 0, simplified]

lemma length_rollback: "length (snd (rollback_rings rb index old i ks)) = length ks"
  by (induction i) (auto simp: split_beta Let_def)

lemma rollback_nth:
  assumes "rollback_rings rb index old i ks = (False, ks')" "i \<le> length ks" "j < length ks"
  shows "ks' ! j = (if j < i then update_slot index old (ks ! j) else ks ! j)"
  using assms
proof (induction i arbitrary: ks')
  case (Suc i)
  obtain f k1 where k: "rollback_rings rb index old i ks = (f, k1)" by fastforce
  then have f: "\<not> f" "ks' = k1[i := update_slot index old (k1 ! i)]"
    using Suc.prems(1) by (auto split: if_splits)
  have "length k1 = length ks" using length_rollback[of rb index old i ks] k by simp
  then show ?case using Suc.IH[of k1] k f Suc.prems(2,3) by (auto simp: nth_list_update less_Suc_eq)
qed simp

lemma update_rings_outcome:
  assumes "update_rings ret rb index (t ! index) fd n i ks = (r, ks')" "i + n = length ks" "index < length t"
    "\<And>j. j < i \<Longrightarrow> ks ! j = Some (t[index := fd])" "\<And>j. i \<le> j \<Longrightarrow> j < length ks \<Longrightarrow> ks ! j = Some t"
  shows "case r of Inr _ \<Rightarrow> ks' = replicate (length ks) (Some (t[index := fd]))
    | Inl (err, failed) \<Rightarrow> (\<not> failed \<longrightarrow> ks' = replicate (length ks) (Some t)) \<and> length ks' = length ks"
  using assms
proof (induction ret rb index "t ! index" fd n i ks rule: update_rings.induct)
  case (1 ret rb index fd i ks)
  then show ?case by (auto intro!: nth_equalityI)
next
  case (2 ret rb index fd n i ks)
  show ?case
  proof (cases "ret i < 0")
    case True
    obtain f k1 where k: "rollback_rings rb index (t ! index) i ks = (f, k1)" by fastforce
    then have r: "r = Inl (- ret i, f)" "ks' = k1" using "2.prems"(1) True by auto
    have l: "length k1 = length ks" using length_rollback[of rb index "t ! index" i ks] k by simp
    have "k1 = replicate (length ks) (Some t)" if "\<not> f"
    proof (rule nth_equalityI)
      fix j assume "j < length k1"
      then show "k1 ! j = replicate (length ks) (Some t) ! j"
        using rollback_nth[of rb index "t ! index" i ks k1 j] k that l "2.prems"(2,4,5)
        by (cases "j < i") (simp_all add: update_slot_def)
    qed (simp add: l)
    then show ?thesis using r l by simp
  next
    case False
    have u: "update_slot index fd (ks ! i) = Some (t[index := fd])"
      using "2.prems"(2,5) by (simp add: update_slot_def)
    have "case r of Inr _ \<Rightarrow> ks' = replicate (length (ks[i := update_slot index fd (ks ! i)])) (Some (t[index := fd]))
      | Inl (err, failed) \<Rightarrow> (\<not> failed \<longrightarrow> ks' = replicate (length (ks[i := update_slot index fd (ks ! i)])) (Some t)) \<and>
          length ks' = length (ks[i := update_slot index fd (ks ! i)])"
      by (rule "2.hyps"[OF False]) (use "2.prems" False u in \<open>auto simp: nth_list_update less_Suc_eq\<close>)
    then show ?thesis by (simp only: length_list_update)
  qed
qed


section \<open>Both registries implement the lifecycle\<close>

definition registry_ok :: "nat \<Rightarrow> bool \<Rightarrow> bool \<Rightarrow> 'a list \<Rightarrow> 'a list option list \<Rightarrow> bool" where
  "registry_ok n registered unreg_pending table ks \<longleftrightarrow>
     ks = replicate n (kernel_view (lifecycle_of registered unreg_pending table)) \<and>
     (\<not> registered \<longrightarrow> \<not> unreg_pending \<and> table = [])"

definition buffers_ok :: "reg_state \<Rightarrow> bool" where
  "buffers_ok s = registry_ok (ring_count (rs_engine s)) (buffers_registered (rs_engine s))
     (buffers_unreg_pending (rs_engine s)) (registered_buffers (rs_engine s)) (k_buffers s)"

definition files_ok :: "reg_state \<Rightarrow> bool" where
  "files_ok s = registry_ok (ring_count (rs_engine s)) (files_registered (rs_engine s))
     (files_unreg_pending (rs_engine s)) (registered_files (rs_engine s)) (k_files s)"

lemma upd_engine_simps [simp]:
  "rs_engine (upd_engine f s) = f (rs_engine s)" "k_buffers (upd_engine f s) = k_buffers s"
  "k_files (upd_engine f s) = k_files s"
  by (simp_all add: upd_engine_def)

lemma wrlock_simps [simp]:
  "rings (reg_wrlock e) = rings e" "rings (reg_wrunlock e) = rings e"
  "buffers_registered (reg_wrlock e) = buffers_registered e" "buffers_registered (reg_wrunlock e) = buffers_registered e"
  "buffers_unreg_pending (reg_wrlock e) = buffers_unreg_pending e" "buffers_unreg_pending (reg_wrunlock e) = buffers_unreg_pending e"
  "registered_buffers (reg_wrlock e) = registered_buffers e" "registered_buffers (reg_wrunlock e) = registered_buffers e"
  "files_registered (reg_wrlock e) = files_registered e" "files_registered (reg_wrunlock e) = files_registered e"
  "files_unreg_pending (reg_wrlock e) = files_unreg_pending e" "files_unreg_pending (reg_wrunlock e) = files_unreg_pending e"
  "registered_files (reg_wrlock e) = registered_files e" "registered_files (reg_wrunlock e) = registered_files e"
  "fixed_buf_inflight_total (reg_wrlock e) = fixed_buf_inflight_total e"
  "fixed_file_inflight_total (reg_wrlock e) = fixed_file_inflight_total e"
  by (simp_all add: reg_wrlock_def reg_wrunlock_def fixed_buf_inflight_total_def fixed_file_inflight_total_def)

lemmas registry_defs = buffers_ok_def files_ok_def registry_ok_def buffers_phase_def files_phase_def lifecycle_of_def

lemma unregister_replicate: "unregister_rings n (replicate n x) = replicate n None"
  using unregister_all[of "replicate n x"] by simp

lemma register_replicate:
  "register_rings ret x n 0 (replicate n None) = (r, ks') \<Longrightarrow>
     ks' = replicate n (case r of Inl err \<Rightarrow> None | Inr _ \<Rightarrow> Some x)"
  using register_all[of ret x n "replicate n None" r ks'] by simp

text \<open>Registering: the flags, the copy and the kernel's tables of the registry concerned.\<close>

lemma register_buffers_outcome:
  assumes "buffers_ok s" "aura_register_buffers m ret xs s = (r, s')"
  shows "buffers_ok s' \<and> buffers_phase s' = (case r of Inl err \<Rightarrow> buffers_phase s | Inr _ \<Rightarrow> enter xs (buffers_phase s)) \<and>
    (buffers_phase s \<noteq> Unregistered \<longrightarrow> (\<exists>err. r = Inl err))"
proof (cases "xs = [] \<or> length xs > nat INT_MAX \<or> buffers_registered (rs_engine s) \<or> buffers_unreg_pending (rs_engine s) \<or> \<not> m")
  case True
  then show ?thesis using assms
    by (auto simp: aura_register_buffers_def registry_defs Let_def split: if_splits)
next
  case False
  let ?n = "ring_count (rs_engine s)"
  obtain r0 ks where k: "register_rings ret xs ?n 0 (k_buffers s) = (r0, ks)" by fastforce
  have "k_buffers s = replicate ?n None" using assms(1) False by (simp add: registry_defs)
  then have "ks = replicate ?n (case r0 of Inl err \<Rightarrow> None | Inr _ \<Rightarrow> Some xs)"
    using register_replicate k by metis
  then show ?thesis using assms False k
    by (cases r0) (auto simp: aura_register_buffers_def registry_defs Let_def)
qed

lemma register_files_outcome:
  assumes "files_ok s" "aura_register_files m ret xs s = (r, s')"
  shows "files_ok s' \<and> files_phase s' = (case r of Inl err \<Rightarrow> files_phase s | Inr _ \<Rightarrow> enter xs (files_phase s)) \<and>
    (files_phase s \<noteq> Unregistered \<longrightarrow> (\<exists>err. r = Inl err))"
proof (cases "xs = [] \<or> length xs > nat INT_MAX \<or> files_registered (rs_engine s) \<or> files_unreg_pending (rs_engine s) \<or> \<not> m")
  case True
  then show ?thesis using assms
    by (auto simp: aura_register_files_def registry_defs Let_def split: if_splits)
next
  case False
  let ?n = "ring_count (rs_engine s)"
  obtain r0 ks where k: "register_rings ret xs ?n 0 (k_files s) = (r0, ks)" by fastforce
  have "k_files s = replicate ?n None" using assms(1) False by (simp add: registry_defs)
  then have "ks = replicate ?n (case r0 of Inl err \<Rightarrow> None | Inr _ \<Rightarrow> Some xs)"
    using register_replicate k by metis
  then show ?thesis using assms False k
    by (cases r0) (auto simp: aura_register_files_def registry_defs Let_def)
qed

text \<open>What each registry's operations leave alone of the other one.\<close>

definition buffers_part where
  "buffers_part s = (rings (rs_engine s), buffers_registered (rs_engine s), buffers_unreg_pending (rs_engine s),
     registered_buffers (rs_engine s), k_buffers s)"

definition files_part where
  "files_part s = (rings (rs_engine s), files_registered (rs_engine s), files_unreg_pending (rs_engine s),
     registered_files (rs_engine s), k_files s)"

lemma buffers_part_cong:
  assumes "buffers_part s' = buffers_part s"
  shows "buffers_ok s' = buffers_ok s" "buffers_phase s' = buffers_phase s"
    "fixed_buf_inflight_total (rs_engine s') = fixed_buf_inflight_total (rs_engine s)"
  using assms by (simp_all add: buffers_part_def buffers_ok_def buffers_phase_def fixed_buf_inflight_total_def)

lemma files_part_cong:
  assumes "files_part s' = files_part s"
  shows "files_ok s' = files_ok s" "files_phase s' = files_phase s"
    "fixed_file_inflight_total (rs_engine s') = fixed_file_inflight_total (rs_engine s)"
  using assms by (simp_all add: files_part_def files_ok_def files_phase_def fixed_file_inflight_total_def)

lemma lock_parts [simp]:
  "buffers_part (upd_engine reg_wrlock s) = buffers_part s" "buffers_part (upd_engine reg_wrunlock s) = buffers_part s"
  "files_part (upd_engine reg_wrlock s) = files_part s" "files_part (upd_engine reg_wrunlock s) = files_part s"
  by (simp_all add: buffers_part_def files_part_def)

lemma finalize_parts [simp]:
  "files_part (finalize_buffers s) = files_part s" "buffers_part (finalize_files s) = buffers_part s"
  by (simp_all add: finalize_buffers_def finalize_files_def files_part_def buffers_part_def Let_def)

lemma finalize_buffers_outcome:
  "buffers_ok s \<Longrightarrow> buffers_ok (finalize_buffers s) \<and>
     buffers_phase (finalize_buffers s) = settle (fixed_buf_inflight_total (rs_engine s) = 0) (buffers_phase s)"
  by (auto simp: finalize_buffers_def registry_defs Let_def unregister_replicate)

lemma finalize_files_outcome:
  "files_ok s \<Longrightarrow> files_ok (finalize_files s) \<and>
     files_phase (finalize_files s) = settle (fixed_file_inflight_total (rs_engine s) = 0) (files_phase s)"
  by (auto simp: finalize_files_def registry_defs Let_def unregister_replicate)

lemma finalize_outcome:
  fixes s
  defines "s' \<equiv> snd (finalize_deferred_unregistration s)"
  shows "buffers_ok s \<Longrightarrow> buffers_ok s' \<and>
      buffers_phase s' = settle (fixed_buf_inflight_total (rs_engine s) = 0) (buffers_phase s)"
    and "files_ok s \<Longrightarrow> files_ok s' \<and>
      files_phase s' = settle (fixed_file_inflight_total (rs_engine s) = 0) (files_phase s)"
proof -
  let ?l = "upd_engine reg_wrlock s"
  have b: "buffers_part s' = buffers_part (finalize_buffers ?l)"
    by (simp add: s'_def finalize_deferred_unregistration_def)
  note lb = buffers_part_cong[of ?l s, OF lock_parts(1)]
  show "buffers_ok s \<Longrightarrow> buffers_ok s' \<and>
      buffers_phase s' = settle (fixed_buf_inflight_total (rs_engine s) = 0) (buffers_phase s)"
    using finalize_buffers_outcome[of ?l] lb by (simp add: buffers_part_cong[OF b])
  have f: "files_part s' = files_part (finalize_files (finalize_buffers ?l))"
    by (simp add: s'_def finalize_deferred_unregistration_def)
  have "files_part (finalize_buffers ?l) = files_part s" by simp
  note lf = files_part_cong[OF this]
  show "files_ok s \<Longrightarrow> files_ok s' \<and>
      files_phase s' = settle (fixed_file_inflight_total (rs_engine s) = 0) (files_phase s)"
    using finalize_files_outcome[of "finalize_buffers ?l"] lf by (simp add: files_part_cong[OF f])
qed

lemma request_outcome:
  shows "buffers_ok s \<Longrightarrow> buffers_ok (snd (request_unregister_buffers s)) \<and>
      buffers_phase (snd (request_unregister_buffers s)) =
        settle (fixed_buf_inflight_total (rs_engine s) = 0) (leave (buffers_phase s))"
    and "files_ok s \<Longrightarrow> files_ok (snd (request_unregister_files s)) \<and>
      files_phase (snd (request_unregister_files s)) =
        settle (fixed_file_inflight_total (rs_engine s) = 0) (leave (files_phase s))"
proof -
  let ?b = "upd_engine reg_wrunlock (upd_engine (\<lambda>e. e\<lparr>buffers_unreg_pending := True\<rparr>) (upd_engine reg_wrlock s))"
  show "buffers_ok (snd (request_unregister_buffers s)) \<and>
      buffers_phase (snd (request_unregister_buffers s)) =
        settle (fixed_buf_inflight_total (rs_engine s) = 0) (leave (buffers_phase s))" if "buffers_ok s"
  proof (cases "buffers_registered (rs_engine s)")
    case True
    then have "buffers_ok ?b" "buffers_phase ?b = leave (buffers_phase s)"
      "fixed_buf_inflight_total (rs_engine ?b) = fixed_buf_inflight_total (rs_engine s)"
      using that by (simp_all add: registry_defs fixed_buf_inflight_total_def)
    then show ?thesis using finalize_outcome(1)[of ?b] True
      by (simp add: request_unregister_buffers_def request_unregister_generic_def)
  next
    case False
    then show ?thesis using that
      by (simp add: request_unregister_buffers_def request_unregister_generic_def registry_defs)
  qed
  let ?f = "upd_engine reg_wrunlock (upd_engine (\<lambda>e. e\<lparr>files_unreg_pending := True\<rparr>) (upd_engine reg_wrlock s))"
  show "files_ok (snd (request_unregister_files s)) \<and>
      files_phase (snd (request_unregister_files s)) =
        settle (fixed_file_inflight_total (rs_engine s) = 0) (leave (files_phase s))" if "files_ok s"
  proof (cases "files_registered (rs_engine s)")
    case True
    then have "files_ok ?f" "files_phase ?f = leave (files_phase s)"
      "fixed_file_inflight_total (rs_engine ?f) = fixed_file_inflight_total (rs_engine s)"
      using that by (simp_all add: registry_defs fixed_file_inflight_total_def)
    then show ?thesis using finalize_outcome(2)[of ?f] True
      by (simp add: request_unregister_files_def request_unregister_generic_def)
  next
    case False
    then show ?thesis using that
      by (simp add: request_unregister_files_def request_unregister_generic_def registry_defs)
  qed
qed

interpretation bufs: fixed_registry buffers_phase k_buffers "\<lambda>s. ring_count (rs_engine s)"
    "\<lambda>s. fixed_buf_inflight_total (rs_engine s) = 0" buffers_ok aura_register_buffers
    request_unregister_buffers finalize_deferred_unregistration
proof unfold_locales
  fix s m ret xs
  assume w: "buffers_ok s"
  note reg = register_buffers_outcome[OF w, of m ret xs "fst (aura_register_buffers m ret xs s)" "snd (aura_register_buffers m ret xs s)"]
    and fin = finalize_outcome(1)[OF w]
  show "buffers_ok (snd (aura_register_buffers m ret xs s))"
    "buffers_phase (snd (aura_register_buffers m ret xs s)) =
       (case fst (aura_register_buffers m ret xs s) of Inl err \<Rightarrow> buffers_phase s | Inr _ \<Rightarrow> enter xs (buffers_phase s))"
    "buffers_phase s \<noteq> Unregistered \<Longrightarrow> \<exists>err. fst (aura_register_buffers m ret xs s) = Inl err"
    using reg by simp_all
  show "buffers_ok (snd (finalize_deferred_unregistration s))"
    "buffers_phase (snd (finalize_deferred_unregistration s)) =
       settle (fixed_buf_inflight_total (rs_engine s) = 0) (buffers_phase s)" using fin by simp_all
  show "k_buffers s = replicate (ring_count (rs_engine s)) (kernel_view (buffers_phase s))"
    using w by (simp add: buffers_ok_def registry_ok_def buffers_phase_def)
qed (simp_all add: request_outcome(1))

interpretation fils: fixed_registry files_phase k_files "\<lambda>s. ring_count (rs_engine s)"
    "\<lambda>s. fixed_file_inflight_total (rs_engine s) = 0" files_ok aura_register_files
    request_unregister_files finalize_deferred_unregistration
proof unfold_locales
  fix s m ret xs
  assume w: "files_ok s"
  note reg = register_files_outcome[OF w, of m ret xs "fst (aura_register_files m ret xs s)" "snd (aura_register_files m ret xs s)"]
    and fin = finalize_outcome(2)[OF w]
  show "files_ok (snd (aura_register_files m ret xs s))"
    "files_phase (snd (aura_register_files m ret xs s)) =
       (case fst (aura_register_files m ret xs s) of Inl err \<Rightarrow> files_phase s | Inr _ \<Rightarrow> enter xs (files_phase s))"
    "files_phase s \<noteq> Unregistered \<Longrightarrow> \<exists>err. fst (aura_register_files m ret xs s) = Inl err"
    using reg by simp_all
  show "files_ok (snd (finalize_deferred_unregistration s))"
    "files_phase (snd (finalize_deferred_unregistration s)) =
       settle (fixed_file_inflight_total (rs_engine s) = 0) (files_phase s)" using fin by simp_all
  show "k_files s = replicate (ring_count (rs_engine s)) (kernel_view (files_phase s))"
    using w by (simp add: files_ok_def registry_ok_def files_phase_def)
qed (simp_all add: request_outcome(2))

section \<open>Updating a file on every ring\<close>

lemma latch_parts [simp]:
  "buffers_part (upd_engine (latch_fatal_submit_errno err) s) = buffers_part s"
  by (simp add: buffers_part_def latch_fatal_submit_errno_def Let_def)

lemma k_files_part [simp]: "buffers_part (s\<lparr>k_files := ks\<rparr>) = buffers_part s"
  by (simp add: buffers_part_def)

lemma set_files_part [simp]:
  "buffers_part (upd_engine (\<lambda>e. e\<lparr>registered_files := f e\<rparr>) s) = buffers_part s"
  "buffers_part (upd_engine (\<lambda>e. e\<lparr>files_registered := b, files_unreg_pending := d\<rparr>) s) = buffers_part s"
  "buffers_part (upd_engine (\<lambda>e. e\<lparr>files_unreg_pending := d\<rparr>) s) = buffers_part s"
  by (simp_all add: buffers_part_def)

lemma update_file_outcome:
  assumes w: "files_ok s" and u: "aura_update_file ret rb index fd s = (r, s')"
  shows "buffers_part s' = buffers_part s"
    and "r = Inr () \<Longrightarrow> files_ok s' \<and> (\<exists>t. files_phase s = Registered t \<and> 0 \<le> index \<and> nat index < length t \<and>
        files_phase s' = Registered (t[nat index := fd]))"
    and "r = Inl err \<Longrightarrow> files_ok s' \<and> files_phase s' = files_phase s \<or> fatal_submit_errno (rs_engine s') \<noteq> 0"
proof -
  let ?e = "rs_engine s"
  let ?t = "registered_files ?e" and ?n = "ring_count (rs_engine s)"
  show part: "buffers_part s' = buffers_part s"
    using u by (auto simp: aura_update_file_def Let_def split: if_splits sum.splits prod.splits)
  have main: "(r = Inr () \<longrightarrow> files_ok s' \<and> (\<exists>t. files_phase s = Registered t \<and> 0 \<le> index \<and> nat index < length t \<and>
        files_phase s' = Registered (t[nat index := fd]))) \<and>
    (\<forall>err. r = Inl err \<longrightarrow> files_ok s' \<and> files_phase s' = files_phase s \<or> fatal_submit_errno (rs_engine s') \<noteq> 0)"
  proof (cases "index < 0 \<or> \<not> files_registered ?e \<or> files_unreg_pending ?e \<or> index \<ge> int (length ?t)")
    case True
    then have "files_part s' = files_part s \<and> (\<exists>err. r = Inl err)"
      using u by (auto simp: aura_update_file_def Let_def split: if_splits)
    then show ?thesis using w files_part_cong[of s' s] by auto
  next
    case False
    then have i: "0 \<le> index" "nat index < length ?t" "files_registered ?e" "\<not> files_unreg_pending ?e" by auto
    have k: "k_files s = replicate ?n (Some ?t)" using w i by (simp add: registry_defs)
    obtain r0 ks where up: "update_rings ret rb (nat index) (?t ! nat index) fd ?n 0 (k_files s) = (r0, ks)" by fastforce
    note out = update_rings_outcome[OF up _ i(2)]
    show ?thesis
    proof (cases r0)
      case (Inr q)
      then have "ks = replicate ?n (Some (?t[nat index := fd]))" using out k by simp
      moreover have "r = Inr ()" "s' = upd_engine reg_wrunlock (upd_engine (\<lambda>e. e\<lparr>registered_files := (registered_files e)[nat index := fd]\<rparr>)
          ((upd_engine reg_wrlock s)\<lparr>k_files := ks\<rparr>))"
        using u up Inr False by (auto simp: aura_update_file_def Let_def)
      ultimately show ?thesis using i by (simp add: registry_defs)
    next
      case (Inl p)
      obtain er failed where p: "p = (er, failed)" by fastforce
      have s': "r = Inl er" "s' = upd_engine reg_wrunlock
          (if failed then upd_engine (latch_fatal_submit_errno EIO) ((upd_engine reg_wrlock s)\<lparr>k_files := ks\<rparr>)
           else (upd_engine reg_wrlock s)\<lparr>k_files := ks\<rparr>)"
        using u up Inl p False by (auto simp: aura_update_file_def Let_def)
      show ?thesis
      proof (cases failed)
        case True
        have "fatal_submit_errno (reg_wrunlock e) = fatal_submit_errno e" for e by (simp add: reg_wrunlock_def)
        then show ?thesis using s' True latch_fatal_nonzero by simp
      next
        case False
        then have "ks = k_files s" using out k Inl p by simp
        then have "files_part s' = files_part s" using s' False by (simp add: files_part_def)
        then show ?thesis using w files_part_cong[of s' s] s'(1) by simp
      qed
    qed
  qed
  show "r = Inr () \<Longrightarrow> files_ok s' \<and> (\<exists>t. files_phase s = Registered t \<and> 0 \<le> index \<and> nat index < length t \<and>
        files_phase s' = Registered (t[nat index := fd]))"
    "r = Inl err \<Longrightarrow> files_ok s' \<and> files_phase s' = files_phase s \<or> fatal_submit_errno (rs_engine s') \<noteq> 0"
    using main by blast+
qed


section \<open>Every history keeps the tables in step\<close>

text \<open>
  Histories of the registration calls, interleaved with anything else that goes on in the engine:
  submissions, completions and errors change the rings and the rest of the engine, never the
  registrations, and never clear a latched error.
\<close>

definition reg_untouched :: "reg_state \<Rightarrow> aura_engine \<Rightarrow> bool" where
  "reg_untouched s e' \<longleftrightarrow> (let e = rs_engine s in ring_count e' = ring_count e \<and>
     buffers_registered e' = buffers_registered e \<and> buffers_unreg_pending e' = buffers_unreg_pending e \<and>
     registered_buffers e' = registered_buffers e \<and> files_registered e' = files_registered e \<and>
     files_unreg_pending e' = files_unreg_pending e \<and> registered_files e' = registered_files e \<and>
     (fatal_submit_errno e \<noteq> 0 \<longrightarrow> fatal_submit_errno e' \<noteq> 0))"

inductive reg_reach :: "reg_state \<Rightarrow> bool" where
  start: "\<lbrakk>\<not> buffers_registered e; \<not> buffers_unreg_pending e; registered_buffers e = [];
     \<not> files_registered e; \<not> files_unreg_pending e; registered_files e = []\<rbrakk> \<Longrightarrow>
     reg_reach \<lparr>rs_engine = e, k_buffers = replicate (ring_count e) None, k_files = replicate (ring_count e) None\<rparr>"
| register_buffers: "reg_reach s \<Longrightarrow> reg_reach (snd (aura_register_buffers m ret iovs s))"
| register_files: "reg_reach s \<Longrightarrow> reg_reach (snd (aura_register_files m ret fds s))"
| update_file: "reg_reach s \<Longrightarrow> reg_reach (snd (aura_update_file ret rb index fd s))"
| request: "reg_reach s \<Longrightarrow> reg_reach (snd (aura_request_unregister ty s))"
| finalize: "reg_reach s \<Longrightarrow> reg_reach (snd (maybe_finalize_deferred_unregistration s))"
| engine_work: "reg_reach s \<Longrightarrow> reg_untouched s e' \<Longrightarrow> reg_reach (s\<lparr>rs_engine := e'\<rparr>)"

lemma lock_fatal [simp]:
  "fatal_submit_errno (reg_wrlock e) = fatal_submit_errno e" "fatal_submit_errno (reg_wrunlock e) = fatal_submit_errno e"
  by (simp_all add: reg_wrlock_def reg_wrunlock_def)

lemma finalize_fatal [simp]:
  "fatal_submit_errno (rs_engine (snd (finalize_deferred_unregistration s))) = fatal_submit_errno (rs_engine s)"
  by (simp add: finalize_deferred_unregistration_def finalize_buffers_def finalize_files_def Let_def)

lemma ops_fatal:
  "fatal_submit_errno (rs_engine (snd (aura_register_buffers m ret iovs s))) = fatal_submit_errno (rs_engine s)"
  "fatal_submit_errno (rs_engine (snd (aura_register_files m ret fds s))) = fatal_submit_errno (rs_engine s)"
  "fatal_submit_errno (rs_engine (snd (aura_request_unregister ty s))) = fatal_submit_errno (rs_engine s)"
  by (auto simp: aura_register_buffers_def aura_register_files_def Let_def aura_request_unregister_def
      request_unregister_buffers_def request_unregister_files_def request_unregister_generic_def
      split: sum.split prod.split aura_reg_type.split)

lemma update_fatal:
  "fatal_submit_errno (rs_engine s) \<noteq> 0 \<Longrightarrow> fatal_submit_errno (rs_engine (snd (aura_update_file ret rb index fd s))) \<noteq> 0"
  by (auto simp: aura_update_file_def Let_def latch_fatal_nonzero split: sum.split prod.split)

lemma cross_parts:
  "files_part (snd (aura_register_buffers m ret iovs s)) = files_part s"
  "buffers_part (snd (aura_register_files m ret fds s)) = buffers_part s"
  by (auto simp: aura_register_buffers_def aura_register_files_def Let_def files_part_def buffers_part_def
      split: sum.split prod.split)

lemma request_cross:
  "files_ok s \<Longrightarrow> files_ok (snd (request_unregister_buffers s))"
  "buffers_ok s \<Longrightarrow> buffers_ok (snd (request_unregister_files s))"
proof -
  let ?b = "upd_engine reg_wrunlock (upd_engine (\<lambda>e. e\<lparr>buffers_unreg_pending := True\<rparr>) (upd_engine reg_wrlock s))"
  let ?f = "upd_engine reg_wrunlock (upd_engine (\<lambda>e. e\<lparr>files_unreg_pending := True\<rparr>) (upd_engine reg_wrlock s))"
  have b: "files_part ?b = files_part s" "files_part (upd_engine reg_wrunlock (upd_engine reg_wrlock s)) = files_part s"
    and f: "buffers_part ?f = buffers_part s" "buffers_part (upd_engine reg_wrunlock (upd_engine reg_wrlock s)) = buffers_part s"
    by (simp_all add: files_part_def)
  show "files_ok s \<Longrightarrow> files_ok (snd (request_unregister_buffers s))"
    using finalize_outcome(2)[of ?b] files_part_cong(1)[OF b(1)] files_part_cong(1)[OF b(2)]
    by (simp add: request_unregister_buffers_def request_unregister_generic_def Let_def)
  show "buffers_ok s \<Longrightarrow> buffers_ok (snd (request_unregister_files s))"
    using finalize_outcome(1)[of ?f] buffers_part_cong(1)[OF f(1)] buffers_part_cong(1)[OF f(2)]
    by (simp add: request_unregister_files_def request_unregister_generic_def Let_def)
qed

lemma maybe_finalize_cases:
  "snd (maybe_finalize_deferred_unregistration s) = s \<or>
   snd (maybe_finalize_deferred_unregistration s) = snd (finalize_deferred_unregistration s)"
  by (simp add: maybe_finalize_deferred_unregistration_def Let_def upd_engine_def)

lemma reg_reach_inv: "reg_reach s \<Longrightarrow> buffers_ok s \<and> (files_ok s \<or> fatal_submit_errno (rs_engine s) \<noteq> 0)"
proof (induction rule: reg_reach.induct)
  case (start e)
  then show ?case by (simp add: registry_defs)
next
  case (register_buffers s m ret iovs)
  then show ?case using bufs.register_wf[of s m ret iovs] files_part_cong(1)[OF cross_parts(1), of m ret iovs s]
      ops_fatal(1)[of m ret iovs s] by simp
next
  case (register_files s m ret fds)
  then show ?case using fils.register_wf[of s m ret fds] buffers_part_cong(1)[OF cross_parts(2), of m ret fds s]
      ops_fatal(2)[of m ret fds s] by auto
next
  case (update_file s ret rb index fd)
  obtain r s' where u: "aura_update_file ret rb index fd s = (r, s')" by fastforce
  have "buffers_part s' = buffers_part s"
    using u by (auto simp: aura_update_file_def Let_def split: if_splits sum.splits prod.splits)
  moreover have "files_ok s' \<or> fatal_submit_errno (rs_engine s') \<noteq> 0"
  proof (cases "fatal_submit_errno (rs_engine s) \<noteq> 0")
    case True
    then show ?thesis using update_fatal[OF True, of ret rb index fd] u by simp
  next
    case False
    then show ?thesis using update_file_outcome(2,3)[OF _ u] update_file.IH by (cases r) auto
  qed
  ultimately show ?case using update_file.IH buffers_part_cong(1)[of s' s] u by simp
next
  case (request s ty)
  then show ?case using bufs.request_wf fils.request_wf request_cross ops_fatal(3)[of ty s]
    by (cases ty) (auto simp: aura_request_unregister_def)
next
  case (finalize s)
  then show ?case using maybe_finalize_cases[of s] bufs.finish_wf fils.finish_wf by auto
next
  case (engine_work s e')
  have "buffers_ok (s\<lparr>rs_engine := e'\<rparr>) = buffers_ok s" "files_ok (s\<lparr>rs_engine := e'\<rparr>) = files_ok s"
    "fatal_submit_errno (rs_engine s) \<noteq> 0 \<Longrightarrow> fatal_submit_errno e' \<noteq> 0"
    using engine_work.hyps(2) by (simp_all add: buffers_ok_def files_ok_def reg_untouched_def Let_def)
  then show ?case using engine_work.IH by auto
qed

section \<open>Unregistration waits for the last user\<close>

lemma foldl_counts:
  assumes "\<forall>c \<in> set cs. g c = (of_nat (f c) :: u32)"
  shows "foldl (\<lambda>t c. t + g c) x cs = x + of_nat (sum_list (map f cs))"
  using assms by (induction cs arbitrary: x) (simp_all add: ac_simps)

lemma of_nat_u32_zero: "(of_nat n :: u32) = 0 \<Longrightarrow> n < 2 ^ 32 \<Longrightarrow> n = 0"
  by (auto simp: word_of_nat_eq_0_iff dest: dvd_imp_le)

lemma counts_zero:
  assumes "\<forall>c \<in> set cs. g c = (of_nat (card (S c)) :: u32)" "\<forall>c \<in> set cs. finite (S c) \<and> card (S c) \<le> max_requests c"
    "sum_list (map max_requests cs) < 2 ^ 32" "foldl (\<lambda>t c. t + g c) 0 cs = 0" "c \<in> set cs"
  shows "S c = {}"
proof -
  let ?n = "sum_list (map (\<lambda>c. card (S c)) cs)"
  have "?n \<le> sum_list (map max_requests cs)" using assms(2) by (intro sum_list_mono) auto
  then have "?n < 2 ^ 32" using assms(3) by linarith
  moreover have "(of_nat ?n :: u32) = 0" using foldl_counts[OF assms(1), of 0] assms(4) by simp
  ultimately have "?n = 0" by (rule of_nat_u32_zero[rotated])
  then have "card (S c) = 0" using assms(5) by simp
  then show ?thesis using assms(2,5) by auto
qed

lemma users_bound: "card (buf_users c) \<le> max_requests c" "card (file_users c) \<le> max_requests c"
proof -
  have "buf_users c \<subseteq> {..<max_requests c}" "file_users c \<subseteq> {..<max_requests c}"
    by (auto simp: buf_users_def file_users_def pending_slots_def)
  from card_mono[OF _ this(1)] card_mono[OF _ this(2)]
  show "card (buf_users c) \<le> max_requests c" "card (file_users c) \<le> max_requests c" by simp_all
qed

lemma no_users:
  assumes "\<forall>c \<in> set (rings e). uses_ok c" "sum_list (map max_requests (rings e)) < 2 ^ 32" "c \<in> set (rings e)"
  shows "fixed_buf_inflight_total e = 0 \<Longrightarrow> buf_users c = {}"
    and "fixed_file_inflight_total e = 0 \<Longrightarrow> file_users c = {}"
  using counts_zero[of "rings e" fixed_buf_inflight buf_users c] counts_zero[of "rings e" fixed_file_inflight file_users c]
    assms users_bound
  by (auto simp: fixed_buf_inflight_total_def fixed_file_inflight_total_def uses_ok_def)

text \<open>The calls that can end a registration.\<close>

definition ending_calls :: "reg_state \<Rightarrow> reg_state set" where
  "ending_calls s = {snd (aura_request_unregister AURA_REG_BUFFERS s), snd (aura_request_unregister AURA_REG_FILES s),
     snd (maybe_finalize_deferred_unregistration s)}"

lemma settle_gone: "settle idle l = Unregistered \<Longrightarrow> l \<noteq> Unregistered \<Longrightarrow> idle"
  by (cases l) (auto split: if_splits)

lemma leave_gone: "leave l = Unregistered \<longleftrightarrow> l = Unregistered"
  by (cases l) simp_all

lemma request_cross_phase:
  "files_ok s \<Longrightarrow> files_phase (snd (request_unregister_buffers s)) \<in>
     {files_phase s, settle (fixed_file_inflight_total (rs_engine s) = 0) (files_phase s)}"
  "buffers_ok s \<Longrightarrow> buffers_phase (snd (request_unregister_files s)) \<in>
     {buffers_phase s, settle (fixed_buf_inflight_total (rs_engine s) = 0) (buffers_phase s)}"
proof -
  let ?b = "upd_engine reg_wrunlock (upd_engine (\<lambda>e. e\<lparr>buffers_unreg_pending := True\<rparr>) (upd_engine reg_wrlock s))"
  let ?f = "upd_engine reg_wrunlock (upd_engine (\<lambda>e. e\<lparr>files_unreg_pending := True\<rparr>) (upd_engine reg_wrlock s))"
  have b: "files_part ?b = files_part s" "files_part (upd_engine reg_wrunlock (upd_engine reg_wrlock s)) = files_part s"
    and f: "buffers_part ?f = buffers_part s" "buffers_part (upd_engine reg_wrunlock (upd_engine reg_wrlock s)) = buffers_part s"
    by (simp_all add: files_part_def)
  show "files_ok s \<Longrightarrow> files_phase (snd (request_unregister_buffers s)) \<in>
     {files_phase s, settle (fixed_file_inflight_total (rs_engine s) = 0) (files_phase s)}"
    using finalize_outcome(2)[of ?b] files_part_cong[OF b(1)] files_part_cong(2)[OF b(2)]
    by (simp add: request_unregister_buffers_def request_unregister_generic_def Let_def)
  show "buffers_ok s \<Longrightarrow> buffers_phase (snd (request_unregister_files s)) \<in>
     {buffers_phase s, settle (fixed_buf_inflight_total (rs_engine s) = 0) (buffers_phase s)}"
    using finalize_outcome(1)[of ?f] buffers_part_cong[OF f(1)] buffers_part_cong(2)[OF f(2)]
    by (simp add: request_unregister_files_def request_unregister_generic_def Let_def)
qed

lemma ending_idle:
  assumes "s' \<in> ending_calls s"
  shows "buffers_ok s \<Longrightarrow> buffers_phase s' = Unregistered \<Longrightarrow> buffers_phase s \<noteq> Unregistered \<Longrightarrow>
      fixed_buf_inflight_total (rs_engine s) = 0"
    and "files_ok s \<Longrightarrow> files_phase s' = Unregistered \<Longrightarrow> files_phase s \<noteq> Unregistered \<Longrightarrow>
      fixed_file_inflight_total (rs_engine s) = 0"
proof -
  show "fixed_buf_inflight_total (rs_engine s) = 0"
    if "buffers_ok s" "buffers_phase s' = Unregistered" "buffers_phase s \<noteq> Unregistered"
    using assms that settle_gone[of _ "buffers_phase s"] settle_gone[of _ "leave (buffers_phase s)"]
      leave_gone[of "buffers_phase s"] bufs.request_phase[of s] bufs.finish_phase[of s]
      request_cross_phase(2)[of s] maybe_finalize_cases[of s]
    by (auto simp: ending_calls_def aura_request_unregister_def)
  show "fixed_file_inflight_total (rs_engine s) = 0"
    if "files_ok s" "files_phase s' = Unregistered" "files_phase s \<noteq> Unregistered"
    using assms that settle_gone[of _ "files_phase s"] settle_gone[of _ "leave (files_phase s)"]
      leave_gone[of "files_phase s"] fils.request_phase[of s] fils.finish_phase[of s]
      request_cross_phase(1)[of s] maybe_finalize_cases[of s]
    by (auto simp: ending_calls_def aura_request_unregister_def)
qed

text \<open>
  Registered buffers and files are never taken from the kernel under an operation
  that uses them. Whenever a call ends a registration, no request in flight on any ring uses a
  buffer (or a file) of it, provided the per-ring counters are exact, which submissions and
  completions maintain.
\<close>

theorem unregistration_waits_for_users:
  assumes "reg_reach s" and "fatal_submit_errno (rs_engine s) = 0"
    and "\<forall>c \<in> set (rings (rs_engine s)). uses_ok c"
    and "sum_list (map max_requests (rings (rs_engine s))) < 2 ^ 32" and "s' \<in> ending_calls s"
  shows "(buffers_phase s \<noteq> Unregistered \<and> buffers_phase s' = Unregistered \<longrightarrow>
      (\<forall>c \<in> set (rings (rs_engine s)). buf_users c = {})) \<and>
    (files_phase s \<noteq> Unregistered \<and> files_phase s' = Unregistered \<longrightarrow>
      (\<forall>c \<in> set (rings (rs_engine s)). file_users c = {}))"
proof -
  have "buffers_ok s" "files_ok s" using reg_reach_inv[OF assms(1)] assms(2) by auto
  then show ?thesis using ending_idle[OF assms(5)] no_users[OF assms(3,4)] by blast
qed

text \<open>
  In every history of registration calls, whatever the kernel answers, the tables the
  kernel holds for the rings agree with each other and with the engine's copy: each ring has the
  registered buffers, or none has any, and likewise for files unless a failed rollback of a file
  update has latched a fatal error. An unregistration is pending only while something is registered.
\<close>

theorem registries_in_step:
  assumes "reg_reach s"
  shows "k_buffers s = replicate (ring_count (rs_engine s))
      (if buffers_registered (rs_engine s) then Some (registered_buffers (rs_engine s)) else None) \<and>
    (buffers_unreg_pending (rs_engine s) \<longrightarrow> buffers_registered (rs_engine s)) \<and>
    (fatal_submit_errno (rs_engine s) = 0 \<longrightarrow>
      k_files s = replicate (ring_count (rs_engine s))
        (if files_registered (rs_engine s) then Some (registered_files (rs_engine s)) else None) \<and>
      (files_unreg_pending (rs_engine s) \<longrightarrow> files_registered (rs_engine s)))"
  using reg_reach_inv[OF assms] by (auto simp: registry_defs)

text \<open>
  Claim C16. The buffer and file registries implement the lifecycle unregistered, registered,
  leaving: registering succeeds only from unregistered and leaves the phase alone on every error, a
  request makes a registered table leave, and a leaving table is gone exactly when no operation
  uses it any more.
\<close>

theorem registration_refines_lifecycle:
  assumes "reg_reach s" and "fatal_submit_errno (rs_engine s) = 0"
  shows "buffers_phase (snd (aura_register_buffers m ret iovs s)) =
      (case fst (aura_register_buffers m ret iovs s) of Inl err \<Rightarrow> buffers_phase s | Inr _ \<Rightarrow> enter iovs (buffers_phase s)) \<and>
    files_phase (snd (aura_register_files m ret fds s)) =
      (case fst (aura_register_files m ret fds s) of Inl err \<Rightarrow> files_phase s | Inr _ \<Rightarrow> enter fds (files_phase s)) \<and>
    buffers_phase (snd (aura_request_unregister AURA_REG_BUFFERS s)) =
      settle (fixed_buf_inflight_total (rs_engine s) = 0) (leave (buffers_phase s)) \<and>
    files_phase (snd (aura_request_unregister AURA_REG_FILES s)) =
      settle (fixed_file_inflight_total (rs_engine s) = 0) (leave (files_phase s)) \<and>
    (buffers_phase s \<noteq> Unregistered \<longrightarrow> (\<exists>err. fst (aura_register_buffers m ret iovs s) = Inl err)) \<and>
    (files_phase s \<noteq> Unregistered \<longrightarrow> (\<exists>err. fst (aura_register_files m ret fds s) = Inl err))"
proof -
  have "buffers_ok s" "files_ok s" using reg_reach_inv[OF assms(1)] assms(2) by auto
  then show ?thesis
    using bufs.register_phase fils.register_phase bufs.register_busy fils.register_busy
      bufs.request_phase fils.request_phase
    by (simp add: aura_request_unregister_def)
qed

text \<open>
  Claim C17. Replacing a registered file is all or nothing over the rings: on success every ring
  and the engine's copy have the new descriptor at the index and nothing else changed; on failure
  every ring still has the old table, or the rollback failed as well and the engine is stopped by a
  latched fatal error.
\<close>

theorem update_file_all_or_nothing:
  assumes "reg_reach s" and "fatal_submit_errno (rs_engine s) = 0"
    and "aura_update_file ret rb index fd s = (r, s')"
  shows "case r of
      Inr _ \<Rightarrow> \<exists>t. files_phase s = Registered t \<and> 0 \<le> index \<and> nat index < length t \<and>
        files_phase s' = Registered (t[nat index := fd]) \<and>
        k_files s' = replicate (ring_count (rs_engine s')) (Some (t[nat index := fd]))
    | Inl err \<Rightarrow> files_phase s' = files_phase s \<and> k_files s' = k_files s \<or> fatal_submit_errno (rs_engine s') \<noteq> 0"
proof -
  have w: "files_ok s" using reg_reach_inv[OF assms(1)] assms(2) by auto
  note o = update_file_outcome[OF w assms(3)]
  have n: "ring_count (rs_engine s') = ring_count (rs_engine s)" using o(1) by (simp add: buffers_part_def)
  show ?thesis
  proof (cases r)
    case (Inl err)
    then show ?thesis using o(3)[OF Inl] fils.kernel_wf[OF w] fils.kernel_wf[of s'] n by auto
  next
    case (Inr u)
    then have "r = Inr ()" by simp
    from o(2)[OF this] obtain t where t: "files_ok s'" "files_phase s = Registered t" "0 \<le> index" "nat index < length t"
        "files_phase s' = Registered (t[nat index := fd])" by blast
    then show ?thesis using Inr fils.kernel_wf[OF t(1)] by auto
  qed
qed

section \<open>A concrete history\<close>

definition demo_reg0 :: reg_state where
  "demo_reg0 = \<lparr>rs_engine = demo_shared, k_buffers = replicate 2 None, k_files = replicate 2 None\<rparr>"

text \<open>Two files registered on both rings.\<close>

definition demo_reg :: reg_state where
  "demo_reg = snd (aura_register_files True (\<lambda>_. 0) [10, 11] demo_reg0)"

lemma demo_reg_facts:
  "reg_reach demo_reg" "fatal_submit_errno (rs_engine demo_reg) = 0" "files_phase demo_reg = Registered [10, 11]"
  "rings (rs_engine demo_reg) = [demo_ring, demo_ring]" "buffers_phase demo_reg = Unregistered"
  "k_files demo_reg = [Some [10, 11], Some [10, 11]]"
proof -
  have c: "ring_count demo_shared = 2" by (simp add: demo_shared_def demo_engine_def)
  have "reg_reach \<lparr>rs_engine = demo_shared, k_buffers = replicate (ring_count demo_shared) None,
      k_files = replicate (ring_count demo_shared) None\<rparr>"
    by (rule reg_reach.start) (simp_all add: demo_shared_def demo_engine_def)
  then have "reg_reach demo_reg0" by (simp only: c demo_reg0_def)
  then show "reg_reach demo_reg" unfolding demo_reg_def by (rule reg_reach.register_files)
  show "fatal_submit_errno (rs_engine demo_reg) = 0" "files_phase demo_reg = Registered [10, 11]"
    "rings (rs_engine demo_reg) = [demo_ring, demo_ring]" "buffers_phase demo_reg = Unregistered"
    "k_files demo_reg = [Some [10, 11], Some [10, 11]]"
    by (simp_all add: demo_reg_def aura_register_files_def demo_reg0_def Let_def numeral_2_eq_2 c
        files_phase_def buffers_phase_def lifecycle_of_def)
      (simp_all add: demo_shared_def demo_engine_def)
qed

lemma demo_ring_uses: "uses_ok demo_ring" "max_requests demo_ring = 8"
proof -
  have p: "pending_slots demo_ring = {}" using demo_ring_facts(1,6) by (simp add: ring_inv_def)
  have "fixed_buf_inflight demo_ring = 0" "fixed_file_inflight demo_ring = 0"
    by (simp_all add: demo_ring_def ring_init_def queue_init_ladder_def Let_def adaptive_init_def
        initial_inflight_for_def c_div_def)
  then show "uses_ok demo_ring" by (simp add: uses_ok_def buf_users_def file_users_def p)
  show "max_requests demo_ring = 8" using ring_init_inv(3)[OF demo_ring_init] by simp
qed

theorem unregistration_waits_for_users_witness:
  "files_phase (snd (aura_request_unregister AURA_REG_FILES demo_reg)) = Unregistered \<and> file_users demo_ring = {}"
proof -
  have "\<forall>c \<in> set (rings (rs_engine demo_reg)). uses_ok c" "sum_list (map max_requests (rings (rs_engine demo_reg))) < 2 ^ 32"
    by (simp_all add: demo_reg_facts(4) demo_ring_uses)
  moreover have "snd (aura_request_unregister AURA_REG_FILES demo_reg) \<in> ending_calls demo_reg"
    by (simp add: ending_calls_def)
  moreover have "files_phase (snd (aura_request_unregister AURA_REG_FILES demo_reg)) = Unregistered"
  proof -
    have "fixed_file_inflight demo_ring = 0"
      using demo_ring_uses(1) demo_ring_facts(1,6) by (simp add: uses_ok_def file_users_def ring_inv_def)
    then have "fixed_file_inflight_total (rs_engine demo_reg) = 0"
      by (simp add: fixed_file_inflight_total_def demo_reg_facts(4))
    moreover have "files_ok demo_reg" using reg_reach_inv[OF demo_reg_facts(1)] demo_reg_facts(2) by auto
    ultimately show ?thesis
      using fils.request_phase[of demo_reg] by (simp add: aura_request_unregister_def demo_reg_facts(3))
  qed
  ultimately show ?thesis
    using unregistration_waits_for_users[OF demo_reg_facts(1,2)] by (simp add: demo_reg_facts(3,4))
qed

theorem registries_in_step_witness: "k_files demo_reg = replicate 2 (Some (registered_files (rs_engine demo_reg)))"
proof -
  have "files_registered (rs_engine demo_reg)"
    using demo_reg_facts(3) by (simp add: files_phase_def lifecycle_of_def split: if_splits)
  then show ?thesis using registries_in_step[OF demo_reg_facts(1)] by (simp add: demo_reg_facts(2,4) numeral_2_eq_2)
qed

theorem registration_refines_lifecycle_witness:
  "\<exists>err. fst (aura_register_files True (\<lambda>_. 0) [12] demo_reg) = Inl err"
  using registration_refines_lifecycle[OF demo_reg_facts(1,2), of True "\<lambda>_. 0" "[]" "[12]"]
  by (simp add: demo_reg_facts(3))

text \<open>The second ring refuses the update and the first one is rolled back.\<close>

theorem update_file_all_or_nothing_witness:
  "k_files (snd (aura_update_file (\<lambda>i. if i = 1 then -9 else 1) (\<lambda>_. 1) 0 12 demo_reg)) = k_files demo_reg"
proof -
  obtain r s' where u: "aura_update_file (\<lambda>i. if i = 1 then -9 else 1) (\<lambda>_. 1) 0 12 demo_reg = (r, s')" by fastforce
  have f: "fatal_submit_errno (reg_wrunlock e) = fatal_submit_errno e" "fatal_submit_errno (reg_wrlock e) = fatal_submit_errno e"
    "rings (reg_wrlock e) = rings e" for e
    by (simp_all add: reg_wrunlock_def reg_wrlock_def)
  have "(\<exists>err. r = Inl err) \<and> fatal_submit_errno (rs_engine s') = 0"
    using u demo_reg_facts(2) by (auto simp: aura_update_file_def Let_def demo_reg_facts(4) numeral_2_eq_2 f upd_engine_def split: if_splits prod.splits)
  then show ?thesis using update_file_all_or_nothing[OF demo_reg_facts(1,2) u] u by auto
qed
end
