(* ===== verification/Engine_Events.thy ===== *)
theory Engine_Events
  imports Engine_Registration
begin

text \<open>
  Event processing in \<^verbatim>\<open>src/engine/src/aura.c\<close>: flushing, polling and waiting over all rings,
  the event loop with its stop, draining, and the blocking unregistration.

  The calling thread's locals and the engine with its registrations are the state. What the
  kernel does is an argument: for each visit of a ring the answer of the submit call and the
  completion queue, for the blocking calls their answer. A loop that waits takes the list of
  what happens in its successive rounds; the value \<open>None\<close> says it is still waiting when the
  list ends.
\<close>

section \<open>One visit of a ring\<close>

type_synonym event_state = "engine_tls \<times> reg_state"

record ring_reply =
  rr_submitted :: int
  rr_cq :: "io_uring_cqe list"
  rr_arrivals :: "io_uring_cqe list list"

abbreviation ev_engine :: "event_state \<Rightarrow> aura_engine" where
  "ev_engine s \<equiv> rs_engine (snd s)"

definition put_ring :: "nat \<Rightarrow> ring_state \<Rightarrow> event_state \<Rightarrow> event_state" where
  "put_ring i x s = ((fst s)\<lparr>tl_ring := fst x\<rparr>, upd_engine (set_ring i (snd x)) (snd s))"

definition poll_ring :: "completion_fn \<Rightarrow> ring_reply \<Rightarrow> nat \<Rightarrow> event_state \<Rightarrow> nat \<times> event_state" where
  "poll_ring cb rr i s =
     (let (n, x) = ring_poll cb (rr_cq rr) (rr_arrivals rr) (tl_ring (fst s), rings (ev_engine s) ! i)
      in (n, put_ring i x s))"

text \<open>Flush under the ring lock; the result says whether the error was fatal.\<close>

definition release_ring :: "bool \<Rightarrow> nat \<Rightarrow> aura_engine \<Rightarrow> aura_engine" where
  "release_ring st i e = set_ring i (ring_unlock st (rings e ! i)) e"

definition flush_held_ring :: "ring_reply \<Rightarrow> nat \<Rightarrow> bool \<Rightarrow> ring_ctx \<Rightarrow> event_state \<Rightarrow> bool \<times> event_state" where
  "flush_held_ring rr i st c s =
     (let (fatal, t, e) = flush_ring_checked (rr_submitted rr) i (fst s) (set_ring i c (ev_engine s))
      in (fatal, t, (snd s)\<lparr>rs_engine := release_ring st i e\<rparr>))"

definition flush_ring_locked :: "ring_reply \<Rightarrow> nat \<Rightarrow> event_state \<Rightarrow> bool \<times> event_state" where
  "flush_ring_locked rr i s =
     (let (st, c) = ring_lock (rings (ev_engine s) ! i) in flush_held_ring rr i st c s)"

definition flush_ring_trylock :: "ring_reply \<Rightarrow> nat \<Rightarrow> event_state \<Rightarrow> (bool \<times> event_state) option" where
  "flush_ring_trylock rr i s =
     (let (got, st, c) = ring_trylock (rings (ev_engine s) ! i)
      in if got then Some (flush_held_ring rr i st c s) else None)"

definition flush_ring_fast :: "ring_reply \<Rightarrow> nat \<Rightarrow> event_state \<Rightarrow> event_state" where
  "flush_ring_fast rr i s =
     (let (r, x) = ring_flush_fast (rr_submitted rr) (tl_ring (fst s)) (rings (ev_engine s) ! i)
      in put_ring i x s)"

definition try_finalize :: "event_state \<Rightarrow> (int + unit) \<times> event_state" where
  "try_finalize s = (let (r, w) = maybe_finalize_deferred_unregistration (snd s) in (r, fst s, w))"

section \<open>Flush\<close>

definition flush_step :: "(nat \<Rightarrow> ring_reply) \<Rightarrow> nat \<Rightarrow> bool \<times> event_state \<Rightarrow> bool \<times> event_state" where
  "flush_step rrs i = (\<lambda>(fatal, s). let (f, s1) = flush_ring_locked (rrs i) i s in (fatal \<or> f, s1))"

definition aura_flush :: "(nat \<Rightarrow> ring_reply) \<Rightarrow> event_state \<Rightarrow> (int + unit) \<times> event_state" where
  "aura_flush rrs s =
     (let (fatal, s1) = fold (flush_step rrs) [0..<ring_count (ev_engine s)] (False, s)
      in if fatal then (Inl (fatal_submit_errno (ev_engine s1)), s1) else (Inr (), s1))"

section \<open>Poll\<close>

text \<open>The ring that the calling thread may use without locks, if any (lines 1963, 1972 and 2052, 2062).\<close>

definition own_ring :: "event_state \<Rightarrow> nat option" where
  "own_ring s =
     (let t = fst s; e = ev_engine s
      in if ring_count e = 1 \<and> ring_is_sole_owner e (rings e ! 0) then Some 0
         else if ring_select e = AURA_SELECT_THREAD_LOCAL \<and> tls_engine t = Some (eng_id e) \<and>
                 points_into e (tls_owned_ring t)
         then Some (ring_of (tls_owned_ring t))
         else None)"

text \<open>Flush and poll of the owned ring; a sole owner's ring is a single-thread ring.\<close>

definition visit_own_ring :: "completion_fn \<Rightarrow> ring_reply \<Rightarrow> nat \<Rightarrow> event_state \<Rightarrow> nat \<times> event_state" where
  "visit_own_ring cb rr i s =
     (let s1 = (if single_thread (rings (ev_engine s) ! i) then flush_ring_fast rr i s
                else snd (flush_ring_locked rr i s));
          (n, s2) = poll_ring cb rr i s1
      in (n, if buffers_unreg_pending (ev_engine s2) \<or> files_unreg_pending (ev_engine s2)
             then snd (try_finalize s2) else s2))"

definition poll_try_step ::
    "completion_fn \<Rightarrow> (nat \<Rightarrow> ring_reply) \<Rightarrow> nat \<Rightarrow> int \<times> nat \<times> bool \<times> event_state \<Rightarrow>
     int \<times> nat \<times> bool \<times> event_state" where
  "poll_try_step cb rrs i = (\<lambda>(total, skipped, fatal, s).
     case flush_ring_trylock (rrs i) i s of
       None \<Rightarrow> (total, skipped + 1, fatal, s)
     | Some (f, s1) \<Rightarrow>
         let (n, s2) = poll_ring cb (rrs i) i s1 in (total + int n, skipped, fatal \<or> f, s2))"

definition poll_step ::
    "completion_fn \<Rightarrow> (nat \<Rightarrow> ring_reply) \<Rightarrow> nat \<Rightarrow> int \<times> bool \<times> event_state \<Rightarrow> int \<times> bool \<times> event_state" where
  "poll_step cb rrs i = (\<lambda>(total, fatal, s).
     let (f, s1) = flush_ring_locked (rrs i) i s; (n, s2) = poll_ring cb (rrs i) i s1
     in (total + int n, fatal \<or> f, s2))"

definition drain_if_registered :: "event_state \<Rightarrow> event_state" where
  "drain_if_registered s =
     (if eventfd_registered (ev_engine s) then (fst s, upd_engine drain_eventfd (snd s)) else s)"

text \<open>\<open>rrs\<close> is what happens in the first pass over the rings and \<open>rrs2\<close> in the second.\<close>

definition aura_poll ::
    "completion_fn \<Rightarrow> (nat \<Rightarrow> ring_reply) \<Rightarrow> (nat \<Rightarrow> ring_reply) \<Rightarrow> event_state \<Rightarrow> (int + int) \<times> event_state" where
  "aura_poll cb rrs rrs2 s =
     (case own_ring s of
        Some i \<Rightarrow> let (n, s1) = visit_own_ring cb (rrs i) i s in (Inr (int n), s1)
      | None \<Rightarrow>
          let fatal0 = (fatal_submit_errno (ev_engine s) \<noteq> 0); rs = [0..<ring_count (ev_engine s)]
          in case try_finalize s of
               (Inl err, s1) \<Rightarrow> (Inl err, s1)
             | (Inr _, s1) \<Rightarrow>
                 let s2 = drain_if_registered s1;
                     (total1, skipped, fatal1, s3) = fold (poll_try_step cb rrs) rs (0, 0, fatal0, s2);
                     (total, fatal, s4) =
                       (if skipped > 0 \<and> total1 = 0 then fold (poll_step cb rrs2) rs (total1, fatal1, s3)
                        else (total1, fatal1, s3));
                     (fin, s5) = try_finalize s4
                 in case (fin, total = 0) of
                      (Inl err, True) \<Rightarrow> (Inl err, s5)
                    | _ \<Rightarrow> if fatal \<and> total = 0 then (Inl (fatal_submit_errno (ev_engine s5)), s5)
                           else (Inr total, s5))"

section \<open>Wait\<close>

text \<open>
  What happens during a wait: the first pass, the answer of \<open>poll\<close> on the event descriptor
  (a negative errno on failure), the pass after a wake-up, the last poll, and the blocking wait on
  one ring.
\<close>

record wait_env =
  we_first :: "nat \<Rightarrow> ring_reply"
  we_poll :: int
  we_woken :: "nat \<Rightarrow> ring_reply"
  we_last :: "nat \<Rightarrow> ring_reply"
  we_ring :: wait_reply

definition wait_ring ::
    "completion_fn \<Rightarrow> wait_reply \<Rightarrow> int \<Rightarrow> nat \<Rightarrow> event_state \<Rightarrow> ((int + int) \<times> event_state) option" where
  "wait_ring cb reply timeout_ms i s =
     map_option (\<lambda>(r, x). (r, put_ring i x s))
       (ring_wait cb reply timeout_ms (tl_ring (fst s), rings (ev_engine s) ! i))"

definition wait_step ::
    "completion_fn \<Rightarrow> (nat \<Rightarrow> ring_reply) \<Rightarrow> nat \<Rightarrow> int \<times> bool \<times> nat option \<times> event_state \<Rightarrow>
     int \<times> bool \<times> nat option \<times> event_state" where
  "wait_step cb rrs i = (\<lambda>(total, fatal, first_pending, s).
     let (f, s1) = flush_ring_locked (rrs i) i s;
         has_pending = (pending_count (rings (ev_engine s1) ! i) > 0);
         (n, s2) = poll_ring cb (rrs i) i s1
     in (total + int n, fatal \<or> f,
         if has_pending \<and> first_pending = None then Some i else first_pending, s2))"

definition poll_only_step ::
    "completion_fn \<Rightarrow> (nat \<Rightarrow> ring_reply) \<Rightarrow> nat \<Rightarrow> int \<times> event_state \<Rightarrow> int \<times> event_state" where
  "poll_only_step cb rrs i = (\<lambda>(total, s). let (n, s1) = poll_ring cb (rrs i) i s in (total + int n, s1))"

text \<open>The common end of the paths that found completions, and of those that did not.\<close>

definition finish_wait :: "(int + int) \<Rightarrow> event_state \<Rightarrow> (int + int) \<times> event_state" where
  "finish_wait r s = (case try_finalize s of (Inl err, s1) \<Rightarrow> (Inl err, s1) | (Inr _, s1) \<Rightarrow> (r, s1))"

text \<open>Blocking on the event descriptor (lines 2128 to 2170).\<close>

definition wait_last_poll :: "completion_fn \<Rightarrow> wait_env \<Rightarrow> event_state \<Rightarrow> (int + int) \<times> event_state" where
  "wait_last_poll cb env s =
     (let (completed, s1) = fold (poll_only_step cb (we_last env)) [0..<ring_count (ev_engine s)] (0, s)
      in if completed > 0 then finish_wait (Inr completed) s1 else finish_wait (Inl ETIMEDOUT) s1)"

definition wait_eventfd :: "completion_fn \<Rightarrow> wait_env \<Rightarrow> event_state \<Rightarrow> (int + int) \<times> event_state" where
  "wait_eventfd cb env s =
     (let pret = we_poll env
      in if pret > 0 then
           let s1 = (fst s, upd_engine drain_eventfd (snd s));
               (completed, f, s2) = fold (poll_step cb (we_woken env)) [0..<ring_count (ev_engine s)] (0, False, s1)
           in case try_finalize s2 of
                (Inl err, s3) \<Rightarrow> (Inl err, s3)
              | (Inr _, s3) \<Rightarrow> if completed > 0 then (Inr completed, s3) else wait_last_poll cb env s3
         else if pret < 0 \<and> - pret \<noteq> EINTR then (Inl (- pret), s)
         else wait_last_poll cb env s)"

text \<open>Without an event descriptor the wait blocks on one ring and then polls the others (lines 2178 to 2192).\<close>

definition wait_fallback ::
    "completion_fn \<Rightarrow> wait_env \<Rightarrow> int \<Rightarrow> nat \<Rightarrow> event_state \<Rightarrow> ((int + int) \<times> event_state) option" where
  "wait_fallback cb env timeout_ms i s =
     map_option (\<lambda>(r, s1). case r of
         Inl err \<Rightarrow> (Inl err, s1)
       | Inr n \<Rightarrow>
           if n > 0 then
             let (total, s2) = fold (poll_only_step cb (we_last env))
                   (filter (\<lambda>j. j \<noteq> i) [0..<ring_count (ev_engine s1)]) (n, s1)
             in finish_wait (Inr total) s2
           else finish_wait (Inl ETIMEDOUT) s1)
       (wait_ring cb (we_ring env) timeout_ms i s)"

definition aura_wait ::
    "completion_fn \<Rightarrow> wait_env \<Rightarrow> int \<Rightarrow> event_state \<Rightarrow> ((int + int) \<times> event_state) option" where
  "aura_wait cb env timeout_ms s =
     (case own_ring s of
        Some i \<Rightarrow>
          let (n, s1) = visit_own_ring cb (we_first env i) i s
          in if n > 0 then Some (Inr (int n), s1) else wait_ring cb (we_ring env) timeout_ms i s1
      | None \<Rightarrow>
          let fatal0 = (fatal_submit_errno (ev_engine s) \<noteq> 0)
          in case try_finalize s of
               (Inl err, s1) \<Rightarrow> Some (Inl err, s1)
             | (Inr _, s1) \<Rightarrow>
                 let s2 = drain_if_registered s1;
                     (total, fatal, first_pending, s3) =
                       fold (wait_step cb (we_first env)) [0..<ring_count (ev_engine s2)] (0, fatal0, None, s2)
                 in if total > 0 then Some (finish_wait (Inr total) s3)
                    else if fatal then Some (Inl (fatal_submit_errno (ev_engine s3)), s3)
                    else case first_pending of
                           None \<Rightarrow> Some (Inr 0, s3)
                         | Some i \<Rightarrow>
                             if event_fd (ev_engine s3) \<ge> 0 then Some (wait_eventfd cb env s3)
                             else wait_fallback cb env timeout_ms i s3)"

section \<open>The event loop\<close>

text \<open>\<open>io\_uring\<close> requests in flight on some ring (the tests of lines 2230 to 2236 and 2274 to 2282).\<close>

definition has_pending :: "aura_engine \<Rightarrow> bool" where
  "has_pending e = list_ex (\<lambda>c. pending_count c > 0) (rings e)"

definition aura_stop :: "event_state \<Rightarrow> event_state" where
  "aura_stop s = (fst s, upd_engine (\<lambda>e. e\<lparr>stop_requested := True\<rparr>) (snd s))"

definition real_error :: "int + int \<Rightarrow> bool" where
  "real_error r = (case r of Inl err \<Rightarrow> err \<noteq> ETIMEDOUT | Inr n \<Rightarrow> False)"

definition completed_some :: "int + int \<Rightarrow> bool" where
  "completed_some r = (case r of Inl err \<Rightarrow> False | Inr n \<Rightarrow> n > 0)"

abbreviation RUN_DRAIN_LIMIT :: nat where "RUN_DRAIN_LIMIT \<equiv> 100"

text \<open>A round of the loop: what happens in its wait, and whether \<open>aura_stop\<close> is called during it.\<close>

fun run_loop :: "completion_fn \<Rightarrow> (wait_env \<times> bool) list \<Rightarrow> nat \<Rightarrow> event_state \<Rightarrow> event_state option" where
  "run_loop cb [] drain_iterations s = None"
| "run_loop cb ((env, stop) # rounds) drain_iterations s =
     (case aura_wait cb env 100 s of
        None \<Rightarrow> None
      | Some (r, s1) \<Rightarrow>
          let s2 = (if stop then aura_stop s1 else s1)
          in if real_error r then Some s2
             else if \<not> stop_requested (ev_engine s2) then run_loop cb rounds 0 s2
             else if \<not> has_pending (ev_engine s2) \<and> \<not> completed_some r then Some s2
             else if drain_iterations + 1 \<ge> RUN_DRAIN_LIMIT then Some s2
             else run_loop cb rounds (drain_iterations + 1) s2)"

definition aura_run :: "completion_fn \<Rightarrow> (wait_env \<times> bool) list \<Rightarrow> event_state \<Rightarrow> event_state option" where
  "aura_run cb rounds s =
     (let s1 = (fst s, upd_engine (\<lambda>e. e\<lparr>stop_requested := False, running := True\<rparr>) (snd s))
      in map_option (\<lambda>s2. (fst s2, upd_engine (\<lambda>e. e\<lparr>running := False\<rparr>) (snd s2))) (run_loop cb rounds 0 s1))"

section \<open>Drain\<close>

text \<open>A round of the drain: the clock reading, what a poll finds, what a wait finds.\<close>

record drain_round =
  dr_now :: int
  dr_poll :: "nat \<Rightarrow> ring_reply"
  dr_poll2 :: "nat \<Rightarrow> ring_reply"
  dr_wait :: wait_env

definition drain_wait_ms :: "int \<Rightarrow> int" where
  "drain_wait_ms remaining_ns =
     (let ms = c_div remaining_ns 1000000; ms1 = (if ms \<le> 0 then 1 else ms) in if ms1 > 100 then 100 else ms1)"

fun drain_rings ::
    "completion_fn \<Rightarrow> int \<Rightarrow> int \<Rightarrow> drain_round list \<Rightarrow> int \<Rightarrow> event_state \<Rightarrow> ((int + int) \<times> event_state) option" where
  "drain_rings cb timeout_ms deadline_ns rounds drained s =
     (case try_finalize s of
        (Inl err, s1) \<Rightarrow> Some (Inl err, s1)
      | (Inr _, s1) \<Rightarrow>
          if \<not> has_pending (ev_engine s1) then Some (finish_wait (Inr drained) s1)
          else case rounds of
                 [] \<Rightarrow> None
               | d # rest \<Rightarrow>
                   if timeout_ms = 0 then
                     (case aura_poll cb (dr_poll d) (dr_poll2 d) s1 of
                        (Inr n, s2) \<Rightarrow> Some (Inr (drained + n), s2)
                      | (Inl err, s2) \<Rightarrow> Some (if drained > 0 then Inr drained else Inl err, s2))
                   else if timeout_ms > 0 \<and> deadline_ns - dr_now d \<le> 0 then Some (Inl ETIMEDOUT, s1)
                   else
                     let wait_ms = (if timeout_ms < 0 then 100 else drain_wait_ms (deadline_ns - dr_now d))
                     in case aura_wait cb (dr_wait d) wait_ms s1 of
                          None \<Rightarrow> None
                        | Some (r, s2) \<Rightarrow>
                            if real_error r then Some (r, s2)
                            else drain_rings cb timeout_ms deadline_ns rest
                                   (drained + (case r of Inl _ \<Rightarrow> 0 | Inr n \<Rightarrow> if n > 0 then n else 0)) s2)"

definition aura_drain ::
    "completion_fn \<Rightarrow> int \<Rightarrow> drain_round list \<Rightarrow> int \<Rightarrow> event_state \<Rightarrow> ((int + int) \<times> event_state) option" where
  "aura_drain cb now rounds timeout_ms s =
     drain_rings cb timeout_ms (if timeout_ms > 0 then now + timeout_ms * 1000000 else 0) rounds 0 s"

section \<open>Blocking unregistration\<close>

definition unregistered :: "aura_reg_type \<Rightarrow> aura_engine \<Rightarrow> bool" where
  "unregistered ty e = (case ty of
      AURA_REG_BUFFERS \<Rightarrow> \<not> buffers_registered e \<and> \<not> buffers_unreg_pending e
    | AURA_REG_FILES \<Rightarrow> \<not> files_registered e \<and> \<not> files_unreg_pending e)"

text \<open>A round: the clock in milliseconds and what happens in its wait.\<close>

fun unregister_loop ::
    "completion_fn \<Rightarrow> aura_reg_type \<Rightarrow> int \<Rightarrow> (int \<times> wait_env) list \<Rightarrow> event_state \<Rightarrow>
     ((int + unit) \<times> event_state) option" where
  "unregister_loop cb ty deadline_ms rounds s =
     (let s1 = (fst s, upd_engine reg_rdlock (snd s));
          is_done = unregistered ty (ev_engine s1);
          s2 = (fst s1, upd_engine reg_rdunlock (snd s1))
      in if is_done then Some (Inr (), s2)
         else case rounds of
                [] \<Rightarrow> None
              | (now_ms, env) # rest \<Rightarrow>
                  if now_ms \<ge> deadline_ms then Some (Inl ETIMEDOUT, s2)
                  else case aura_wait cb env 100 s2 of
                         None \<Rightarrow> None
                       | Some (r, s3) \<Rightarrow>
                           (case r of
                              Inl err \<Rightarrow> if err \<noteq> ETIMEDOUT then Some (Inl err, s3)
                                         else unregister_loop cb ty deadline_ms rest s3
                            | Inr n \<Rightarrow> unregister_loop cb ty deadline_ms rest s3))"

definition aura_unregister ::
    "completion_fn \<Rightarrow> aura_reg_type \<Rightarrow> int \<Rightarrow> (int \<times> wait_env) list \<Rightarrow> event_state \<Rightarrow>
     ((int + unit) \<times> event_state) option" where
  "aura_unregister cb ty start_ms rounds s =
     (case aura_request_unregister ty (snd s) of
        (r, w) \<Rightarrow>
          if ring_in_callback_context (tl_ring (fst s)) then Some (r, fst s, w)
          else case r of
                 Inl err \<Rightarrow> Some (Inl err, fst s, w)
               | Inr _ \<Rightarrow> unregister_loop cb ty (start_ms + 10000) rounds (fst s, w))"

declare drain_rings.simps [simp del] unregister_loop.simps [simp del]

section \<open>The descriptor for foreign event loops\<close>

text \<open>
  \<open>reg i\<close> is the kernel's answer to registering the event descriptor with ring \<open>i\<close>; \<open>ks\<close> is
  the descriptor each ring signals, if any.
\<close>

fun register_eventfd_rings :: "(nat \<Rightarrow> int) \<Rightarrow> int \<Rightarrow> nat \<Rightarrow> nat \<Rightarrow> int option list \<Rightarrow> (int + unit) \<times> int option list" where
  "register_eventfd_rings reg fd 0 i ks = (Inr (), ks)"
| "register_eventfd_rings reg fd (Suc n) i ks =
     (if reg i \<noteq> 0 then (Inl (- reg i), unregister_rings i ks)
      else register_eventfd_rings reg fd n (i + 1) (ks[i := Some fd]))"

definition aura_get_poll_fd ::
    "(nat \<Rightarrow> int) \<Rightarrow> int option list \<Rightarrow> aura_engine \<Rightarrow> (int + int) \<times> int option list \<times> aura_engine" where
  "aura_get_poll_fd reg ks e =
     (if ring_count e = 0 then (Inl EINVAL, ks, e)
      else if event_fd e \<ge> 0 \<and> \<not> eventfd_registered e then
        (case register_eventfd_rings reg (event_fd e) (ring_count e) 0 ks of
           (Inl err, ks1) \<Rightarrow> (Inl err, ks1, e)
         | (Inr _, ks1) \<Rightarrow> (Inr (event_fd e), ks1, e\<lparr>eventfd_registered := True\<rparr>))
      else (Inr (event_fd e), ks, e))"

end
