(* ===== verification/Event_Invariants.thy ===== *)
theory Event_Invariants
  imports Engine_Events
begin

text \<open>
  What event processing preserves, proved once for any predicate that the visits of single rings
  keep: the fields it leaves alone, the consistency of the rings with their locks and slots, and
  the registrations. Then the properties of flush, poll, wait, run, drain and unregister.
\<close>

section \<open>What event processing preserves\<close>

definition replies_ok ::
    "(nat \<Rightarrow> io_uring_cqe list \<Rightarrow> io_uring_cqe list list \<Rightarrow> bool) \<Rightarrow> (nat \<Rightarrow> ring_reply) \<Rightarrow> bool" where
  "replies_ok valid rrs \<longleftrightarrow> (\<forall>i. valid i (rr_cq (rrs i)) (rr_arrivals (rrs i)))"

definition wait_env_ok ::
    "(nat \<Rightarrow> io_uring_cqe list \<Rightarrow> io_uring_cqe list list \<Rightarrow> bool) \<Rightarrow> wait_env \<Rightarrow> bool" where
  "wait_env_ok valid env \<longleftrightarrow> replies_ok valid (we_first env) \<and> replies_ok valid (we_woken env) \<and>
     replies_ok valid (we_last env) \<and>
     (\<forall>i. valid i (w_cq (we_ring env)) (w_arrivals (we_ring env)) \<and>
          valid i (w_cq_after (we_ring env)) (w_arrivals (we_ring env)))"

definition drain_round_ok ::
    "(nat \<Rightarrow> io_uring_cqe list \<Rightarrow> io_uring_cqe list list \<Rightarrow> bool) \<Rightarrow> drain_round \<Rightarrow> bool" where
  "drain_round_ok valid d \<longleftrightarrow> replies_ok valid (dr_poll d) \<and> replies_ok valid (dr_poll2 d) \<and> wait_env_ok valid (dr_wait d)"

abbreviation nrings :: "event_state \<Rightarrow> nat" where
  "nrings s \<equiv> ring_count (ev_engine s)"

lemma put_ring_engine: "ev_engine (put_ring i x s) = set_ring i (snd x) (ev_engine s)"
  by (simp add: put_ring_def upd_engine_def)

lemma nrings_steps [simp]:
  "nrings (snd (poll_ring cb rr i s)) = nrings s"
  "nrings (snd (flush_held_ring rr i st c s)) = nrings s"
  "nrings (snd (flush_ring_locked rr i s)) = nrings s"
  "nrings (flush_ring_fast rr i s) = nrings s"
  "nrings (snd (try_finalize s)) = nrings s"
proof -
  show "nrings (snd (poll_ring cb rr i s)) = nrings s" "nrings (flush_ring_fast rr i s) = nrings s"
    by (simp_all add: poll_ring_def flush_ring_fast_def put_ring_engine set_ring_def split: prod.split)
  have e: "ring_count (latch_flush_result r e) = ring_count e" for r e
    by (simp add: latch_flush_result_def latch_fatal_submit_errno_def Let_def split: sum.split)
  then show h: "nrings (snd (flush_held_ring rr i st c s)) = nrings s" for st c
    by (simp add: flush_held_ring_def flush_ring_checked_def release_ring_def set_ring_def Let_def split: prod.split)
  show "nrings (snd (flush_ring_locked rr i s)) = nrings s"
    using h by (simp add: flush_ring_locked_def split: prod.split)
  have f: "ring_count (rs_engine (finalize_buffers w)) = ring_count (rs_engine w)"
    "ring_count (rs_engine (finalize_files w)) = ring_count (rs_engine w)" for w
    by (simp_all add: finalize_files_def finalize_buffers_def upd_engine_def Let_def)
  have "ring_count (rs_engine (snd (finalize_deferred_unregistration w))) = ring_count (rs_engine w)" for w
    by (simp add: finalize_deferred_unregistration_def upd_engine_def reg_wrlock_def reg_wrunlock_def f)
  then have "ring_count (rs_engine (snd (maybe_finalize_deferred_unregistration w))) = ring_count (rs_engine w)" for w
    using maybe_finalize_cases[of w] by metis
  then show "nrings (snd (try_finalize s)) = nrings s" by (simp add: try_finalize_def case_prod_beta)
qed

lemma nrings_held: "flush_held_ring rr i st c s = (f, s') \<Longrightarrow> nrings s' = nrings s"
  using nrings_steps(2)[of rr i st c s] by (metis snd_conv)

lemma nrings_try: "flush_ring_trylock rr i s = Some (f, s') \<Longrightarrow> nrings s' = nrings s"
  by (auto simp: flush_ring_trylock_def case_prod_beta split: if_splits dest: nrings_held)

lemma nrings_wait: "wait_ring cb reply tmo i s = Some (r, s') \<Longrightarrow> nrings s' = nrings s"
  by (auto simp: wait_ring_def put_ring_engine set_ring_def)

lemma own_ring_lt: "own_ring s = Some i \<Longrightarrow> i < nrings s"
  by (auto simp: own_ring_def points_into_def ring_of_def Let_def split: if_splits option.splits)

text \<open>
  The interface of an invariant of event processing: a predicate that every visit of a ring
  keeps is kept by every operation built from them. \<open>valid i\<close> says which completions ring \<open>i\<close>
  can be given.
\<close>

locale event_invariant =
  fixes cb :: completion_fn
    and valid :: "nat \<Rightarrow> io_uring_cqe list \<Rightarrow> io_uring_cqe list list \<Rightarrow> bool"
    and P :: "event_state \<Rightarrow> bool"
  assumes P_poll: "P s \<Longrightarrow> i < nrings s \<Longrightarrow> valid i (rr_cq rr) (rr_arrivals rr) \<Longrightarrow> P (snd (poll_ring cb rr i s))"
    and P_flush: "P s \<Longrightarrow> i < nrings s \<Longrightarrow> P (snd (flush_ring_locked rr i s))"
    and P_try: "P s \<Longrightarrow> i < nrings s \<Longrightarrow> flush_ring_trylock rr i s = Some (f, s') \<Longrightarrow> P s'"
    and P_fast: "P s \<Longrightarrow> i < nrings s \<Longrightarrow> P (flush_ring_fast rr i s)"
    and P_finalize: "P s \<Longrightarrow> P (snd (try_finalize s))"
    and P_drain: "P s \<Longrightarrow> P (fst s, upd_engine drain_eventfd (snd s))"
    and P_wait: "P s \<Longrightarrow> i < nrings s \<Longrightarrow> valid i (w_cq reply) (w_arrivals reply) \<Longrightarrow>
          valid i (w_cq_after reply) (w_arrivals reply) \<Longrightarrow> wait_ring cb reply tmo i s = Some (r, s') \<Longrightarrow> P s'"
begin

lemma flush_keeps:
  assumes "P s"
  shows "P (snd (aura_flush rrs s))"
proof -
  let ?Q = "\<lambda>(fatal::bool, s'). P s' \<and> nrings s' = nrings s"
  have "?Q (fold (flush_step rrs) [0..<nrings s] (False, s))"
  proof (rule fold_invariant[where Q = "\<lambda>i. i < nrings s"])
    fix i x assume "i < nrings s" "?Q x"
    then show "?Q (flush_step rrs i x)"
      using P_flush[of "snd x" i "rrs i"] by (simp add: flush_step_def Let_def case_prod_beta)
  qed (use assms in auto)
  then show ?thesis by (auto simp: aura_flush_def split: prod.splits)
qed

lemma poll_step_keeps:
  assumes "P s" "replies_ok valid rrs" "fold (poll_step cb rrs) [0..<nrings s] (a, f, s) = (a', f', s')"
  shows "P s' \<and> nrings s' = nrings s"
proof -
  let ?Q = "\<lambda>(a::int, f::bool, s'). P s' \<and> nrings s' = nrings s"
  have "?Q (fold (poll_step cb rrs) [0..<nrings s] (a, f, s))"
  proof (rule fold_invariant[where Q = "\<lambda>i. i < nrings s"])
    fix i x assume i: "i < nrings s" and x: "?Q x"
    obtain a0 f0 s0 where [simp]: "x = (a0, f0, s0)" by (rule prod_cases3)
    show "?Q (poll_step cb rrs i x)"
      using i x assms(2) P_flush[of s0 i "rrs i"] P_poll[of "snd (flush_ring_locked (rrs i) i s0)" i "rrs i"]
      by (simp add: poll_step_def replies_ok_def Let_def case_prod_beta)
  qed (use assms in auto)
  then show ?thesis using assms(3) by simp
qed

lemma poll_try_step_keeps:
  assumes "P s" "replies_ok valid rrs" "fold (poll_try_step cb rrs) [0..<nrings s] (a, k, f, s) = (a', k', f', s')"
  shows "P s' \<and> nrings s' = nrings s"
proof -
  let ?Q = "\<lambda>(a::int, k::nat, f::bool, s'). P s' \<and> nrings s' = nrings s"
  have "?Q (fold (poll_try_step cb rrs) [0..<nrings s] (a, k, f, s))"
  proof (rule fold_invariant[where Q = "\<lambda>i. i < nrings s"])
    fix i x assume i: "i < nrings s" and x: "?Q x"
    obtain a0 k0 f0 s0 where [simp]: "x = (a0, k0, f0, s0)" by (rule prod_cases4)
    show "?Q (poll_try_step cb rrs i x)"
    proof (cases "flush_ring_trylock (rrs i) i s0")
      case None
      then show ?thesis using x by (simp add: poll_try_step_def)
    next
      case (Some p)
      obtain f1 s1 where [simp]: "p = (f1, s1)" by (rule prod.exhaust)
      show ?thesis using i x assms(2) P_try[of s0 i "rrs i" f1 s1] nrings_try[of "rrs i" i s0 f1 s1] Some
          P_poll[of s1 i "rrs i"]
        by (simp add: poll_try_step_def replies_ok_def Let_def case_prod_beta)
    qed
  qed (use assms in auto)
  then show ?thesis using assms(3) by simp
qed

lemma wait_step_keeps:
  assumes "P s" "replies_ok valid rrs" "fold (wait_step cb rrs) [0..<nrings s] (a, f, None, s) = (a', f', first', s')"
  shows "P s' \<and> nrings s' = nrings s \<and> (\<forall>i. first' = Some i \<longrightarrow> i < nrings s)"
proof -
  let ?Q = "\<lambda>(a::int, f::bool, q, s'). P s' \<and> nrings s' = nrings s \<and> (\<forall>i. q = Some i \<longrightarrow> i < nrings s)"
  have "?Q (fold (wait_step cb rrs) [0..<nrings s] (a, f, None, s))"
  proof (rule fold_invariant[where Q = "\<lambda>i. i < nrings s"])
    fix i x assume i: "i < nrings s" and x: "?Q x"
    obtain a0 f0 q0 s0 where [simp]: "x = (a0, f0, q0, s0)" by (rule prod_cases4)
    show "?Q (wait_step cb rrs i x)"
      using i x assms(2) P_flush[of s0 i "rrs i"] P_poll[of "snd (flush_ring_locked (rrs i) i s0)" i "rrs i"]
      by (simp add: wait_step_def replies_ok_def Let_def case_prod_beta)
  qed (use assms in auto)
  then show ?thesis using assms(3) by simp
qed

lemma poll_only_keeps:
  assumes "P s" "replies_ok valid rrs" "\<forall>i \<in> set is. i < nrings s" "fold (poll_only_step cb rrs) is (a, s) = (a', s')"
  shows "P s' \<and> nrings s' = nrings s"
proof -
  let ?Q = "\<lambda>(a::int, s'). P s' \<and> nrings s' = nrings s"
  have "?Q (fold (poll_only_step cb rrs) is (a, s))"
  proof (rule fold_invariant[where Q = "\<lambda>i. i < nrings s"])
    fix i x assume i: "i < nrings s" and x: "?Q x"
    obtain a0 s0 where [simp]: "x = (a0, s0)" by (rule prod.exhaust)
    show "?Q (poll_only_step cb rrs i x)"
      using i x assms(2) P_poll[of s0 i "rrs i"]
      by (simp add: poll_only_step_def replies_ok_def Let_def case_prod_beta)
  qed (use assms in auto)
  then show ?thesis using assms(4) by simp
qed

lemma drain_if_keeps: "P s \<Longrightarrow> P (drain_if_registered s)"
  by (simp add: drain_if_registered_def P_drain)

lemma finish_keeps: "P s \<Longrightarrow> P (snd (finish_wait r s))"
  using P_finalize[of s] by (auto simp: finish_wait_def split: prod.splits sum.splits)

lemma own_keeps:
  assumes "P s" "i < nrings s" "valid i (rr_cq rr) (rr_arrivals rr)" "visit_own_ring cb rr i s = (n, s')"
  shows "P s' \<and> nrings s' = nrings s"
proof -
  let ?s1 = "if single_thread (rings (ev_engine s) ! i) then flush_ring_fast rr i s else snd (flush_ring_locked rr i s)"
  obtain k s2 where p: "poll_ring cb rr i ?s1 = (k, s2)" by (rule prod.exhaust)
  have "P ?s1" "nrings ?s1 = nrings s" using assms(1,2) P_fast P_flush by auto
  then have "P s2" "nrings s2 = nrings s"
    using P_poll[of ?s1 i rr] nrings_steps(1)[of cb rr i ?s1] assms(2,3) p by auto
  then show ?thesis using assms(4) p P_finalize[of s2] nrings_steps(5)[of s2]
    unfolding visit_own_ring_def Let_def by (auto split: if_splits)
qed

end

context event_invariant
begin

lemma poll_keeps:
  assumes "P s" "replies_ok valid rrs" "replies_ok valid rrs2"
  shows "P (snd (aura_poll cb rrs rrs2 s))"
proof (cases "own_ring s")
  case (Some i)
  obtain n s1 where v: "visit_own_ring cb (rrs i) i s = (n, s1)" by (rule prod.exhaust)
  have "P s1" using own_keeps[OF assms(1) own_ring_lt[OF Some] _ v] assms(2) by (simp add: replies_ok_def)
  then show ?thesis using Some v by (simp add: aura_poll_def)
next
  case None
  obtain r s1 where f: "try_finalize s = (r, s1)" by (rule prod.exhaust)
  let ?s2 = "drain_if_registered s1" and ?f0 = "fatal_submit_errno (ev_engine s) \<noteq> 0"
  have s2: "P ?s2" "nrings ?s2 = nrings s" "P s1"
    using P_finalize[OF assms(1)] nrings_steps(5)[of s] f drain_if_keeps
    by (auto simp: drain_if_registered_def drain_eventfd_def upd_engine_def)
  obtain a k fa s3 where p: "fold (poll_try_step cb rrs) [0..<nrings s] (0, 0, ?f0, ?s2) = (a, k, fa, s3)"
    by (rule prod_cases4)
  have s3: "P s3" "nrings s3 = nrings s"
    using poll_try_step_keeps[OF s2(1) assms(2) p[folded s2(2)]] s2(2) by simp_all
  obtain a' fa' s4 where q: "fold (poll_step cb rrs2) [0..<nrings s] (a, fa, s3) = (a', fa', s4)" by (rule prod_cases3)
  have "P s4" using poll_step_keeps[OF s3(1) assms(3) q[folded s3(2)]] by simp
  then have "P (snd (try_finalize s4))" "P (snd (try_finalize s3))" using P_finalize s3 by auto
  then show ?thesis using None f p q s2(3)
    by (cases r) (auto simp: aura_poll_def Let_def case_prod_beta split: sum.splits bool.splits)
qed

lemma last_poll_keeps:
  assumes "P s" "replies_ok valid (we_last env)"
  shows "P (snd (wait_last_poll cb env s))"
proof -
  obtain a s1 where p: "fold (poll_only_step cb (we_last env)) [0..<nrings s] (0, s) = (a, s1)" by (rule prod.exhaust)
  have "\<forall>i \<in> set [0..<nrings s]. i < nrings s" by simp
  with p have "P s1" using poll_only_keeps[OF assms] by blast
  then show ?thesis using p finish_keeps by (simp add: wait_last_poll_def)
qed

lemma eventfd_keeps:
  assumes "P s" "replies_ok valid (we_woken env)" "replies_ok valid (we_last env)"
  shows "P (snd (wait_eventfd cb env s))"
proof -
  let ?s1 = "(fst s, upd_engine drain_eventfd (snd s))"
  obtain a f s2 where p: "fold (poll_step cb (we_woken env)) [0..<nrings s] (0, False, ?s1) = (a, f, s2)" by (rule prod_cases3)
  have "P ?s1" "nrings ?s1 = nrings s" using P_drain[OF assms(1)] by (simp_all add: drain_eventfd_def upd_engine_def)
  then have "P s2" using poll_step_keeps[of ?s1, OF _ assms(2)] p by metis
  then have "P (snd (try_finalize s2))" by (rule P_finalize)
  then show ?thesis using p last_poll_keeps[OF _ assms(3)] assms(1)
    by (auto simp: wait_eventfd_def Let_def split: prod.splits sum.splits)
qed

lemma fallback_keeps:
  assumes "P s" "i < nrings s" "wait_env_ok valid env" "wait_fallback cb env tmo i s = Some (r, s')"
  shows "P s'"
proof -
  obtain x s1 where w: "wait_ring cb (we_ring env) tmo i s = Some (x, s1)"
    using assms(4) by (auto simp: wait_fallback_def)
  have s1: "P s1" "nrings s1 = nrings s"
    using P_wait[OF assms(1,2) _ _ w] assms(3) nrings_wait[OF w] by (auto simp: wait_env_ok_def)
  show ?thesis
  proof (cases x)
    case (Inl err)
    then show ?thesis using assms(4) w s1 by (simp add: wait_fallback_def)
  next
    case (Inr n)
    obtain a s2 where p: "fold (poll_only_step cb (we_last env)) (filter (\<lambda>j. j \<noteq> i) [0..<nrings s1]) (n, s1) = (a, s2)"
      by (rule prod.exhaust)
    have "P s2"
      using poll_only_keeps[OF s1(1) _ _ p] assms(3) by (auto simp: wait_env_ok_def)
    then have "P (snd (finish_wait (Inr a) s2))" "P (snd (finish_wait (Inl ETIMEDOUT) s1))"
      using finish_keeps s1 by auto
    moreover have "(r, s') = (if n > 0 then finish_wait (Inr a) s2 else finish_wait (Inl ETIMEDOUT) s1)"
      using assms(4) w Inr p by (auto simp: wait_fallback_def)
    ultimately show ?thesis by (metis snd_conv)
  qed
qed

lemma wait_keeps:
  assumes "P s" "wait_env_ok valid env" "aura_wait cb env tmo s = Some (r, s')"
  shows "P s'"
proof (cases "own_ring s")
  case (Some i)
  obtain n s1 where v: "visit_own_ring cb (we_first env i) i s = (n, s1)" by (rule prod.exhaust)
  have s1: "P s1" "i < nrings s1"
    using own_keeps[OF assms(1) own_ring_lt[OF Some] _ v] assms(2) own_ring_lt[OF Some]
    by (auto simp: wait_env_ok_def replies_ok_def)
  show ?thesis
  proof (cases "n > 0")
    case True
    then show ?thesis using assms(3) Some v s1 by (simp add: aura_wait_def)
  next
    case False
    then have w: "wait_ring cb (we_ring env) tmo i s1 = Some (r, s')" using assms(3) Some v by (simp add: aura_wait_def)
    show ?thesis using P_wait[OF s1 _ _ w] assms(2) by (simp add: wait_env_ok_def)
  qed
next
  case None
  obtain r0 s1 where f: "try_finalize s = (r0, s1)" by (rule prod.exhaust)
  let ?s2 = "drain_if_registered s1" and ?f0 = "fatal_submit_errno (ev_engine s) \<noteq> 0"
  have s2: "P ?s2" "P s1" using P_finalize[OF assms(1)] f drain_if_keeps by auto
  obtain a fa q s3 where p: "fold (wait_step cb (we_first env)) [0..<nrings ?s2] (0, ?f0, None, ?s2) = (a, fa, q, s3)"
    by (rule prod_cases4)
  have s3: "P s3" "nrings s3 = nrings ?s2" "\<And>i. q = Some i \<Longrightarrow> i < nrings ?s2"
    using wait_step_keeps[OF s2(1) _ p] assms(2) by (auto simp: wait_env_ok_def)
  have fin: "P (snd (finish_wait (Inr a) s3))" by (rule finish_keeps[OF s3(1)])
  have ev: "P (snd (wait_eventfd cb env s3))" using eventfd_keeps[OF s3(1)] assms(2) by (simp add: wait_env_ok_def)
  have fb: "wait_fallback cb env tmo i s3 = Some (r, s') \<Longrightarrow> q = Some i \<Longrightarrow> P s'" for i
    using fallback_keeps[OF s3(1) _ assms(2)] s3(2,3) by simp
  show ?thesis using assms(3) None f p s2(2) s3(1) fin ev fb
    by (cases r0) (auto simp: aura_wait_def Let_def split: if_splits option.splits)
qed

end

text \<open>The operations that also change the flags of the event loop or request an unregistration.\<close>

locale event_loop_invariant = event_invariant +
  assumes P_stop: "P s \<Longrightarrow> P (fst s, upd_engine (\<lambda>e. e\<lparr>stop_requested := b\<rparr>) (snd s))"
    and P_running: "P s \<Longrightarrow> P (fst s, upd_engine (\<lambda>e. e\<lparr>running := b\<rparr>) (snd s))"
    and P_request: "P s \<Longrightarrow> P (fst s, snd (aura_request_unregister ty (snd s)))"
begin

lemma run_loop_keeps:
  "P s \<Longrightarrow> \<forall>(env, stop) \<in> set rounds. wait_env_ok valid env \<Longrightarrow> run_loop cb rounds k s = Some s' \<Longrightarrow> P s'"
proof (induction rounds arbitrary: k s)
  case (Cons rd rounds)
  obtain env stop where [simp]: "rd = (env, stop)" by (rule prod.exhaust)
  obtain r s1 where w: "aura_wait cb env 100 s = Some (r, s1)"
    using Cons.prems(3) by (auto split: option.splits)
  have s1: "P s1" using wait_keeps[OF Cons.prems(1) _ w] Cons.prems(2) by simp
  define s2 where "s2 = (if stop then aura_stop s1 else s1)"
  have s2: "P s2" using s1 P_stop[OF s1] by (simp add: s2_def aura_stop_def)
  then show ?case using Cons.IH[OF s2] Cons.prems(2,3) w
    by (auto simp: s2_def[symmetric] split: if_splits)
qed simp

lemma run_keeps:
  assumes "P s" "\<forall>(env, stop) \<in> set rounds. wait_env_ok valid env" "aura_run cb rounds s = Some s'"
  shows "P s'"
proof -
  let ?s1 = "(fst s, upd_engine (\<lambda>e. e\<lparr>stop_requested := False, running := True\<rparr>) (snd s))"
  have "P ?s1" using P_running[OF P_stop[OF assms(1), of False], of True] by (simp add: upd_engine_def)
  moreover obtain s2 where "run_loop cb rounds 0 ?s1 = Some s2"
      "s' = (fst s2, upd_engine (\<lambda>e. e\<lparr>running := False\<rparr>) (snd s2))"
    using assms(3) by (auto simp: aura_run_def)
  ultimately show ?thesis using run_loop_keeps[OF _ assms(2)] P_running by blast
qed

lemma drain_rings_keeps:
  "P s \<Longrightarrow> \<forall>d \<in> set rounds. drain_round_ok valid d \<Longrightarrow>
     drain_rings cb tmo dl rounds a s = Some (r, s') \<Longrightarrow> P s'"
proof (induction rounds arbitrary: a s)
  case Nil
  obtain r0 s1 where f: "try_finalize s = (r0, s1)" by (rule prod.exhaust)
  have "P s1" using P_finalize[OF Nil.prems(1)] f by simp
  then show ?case using Nil.prems(3) f finish_keeps[of s1 "Inr a"]
    by (subst (asm) drain_rings.simps) (auto split: sum.splits if_splits)
next
  case (Cons d rounds)
  obtain r0 s1 where f: "try_finalize s = (r0, s1)" by (rule prod.exhaust)
  have s1: "P s1" using P_finalize[OF Cons.prems(1)] f by simp
  have ok: "replies_ok valid (dr_poll d)" "replies_ok valid (dr_poll2 d)" "wait_env_ok valid (dr_wait d)"
    "\<forall>d \<in> set rounds. drain_round_ok valid d"
    using Cons.prems(2) by (auto simp: drain_round_ok_def)
  have pl: "aura_poll cb (dr_poll d) (dr_poll2 d) s1 = (x, s2) \<Longrightarrow> P s2" for x s2
    using poll_keeps[OF s1 ok(1,2)] by simp
  have wt: "aura_wait cb (dr_wait d) w s1 = Some (x, s2) \<Longrightarrow> P s2" for w x s2
    by (rule wait_keeps[OF s1 ok(3)])
  show ?case using Cons.prems(3) f finish_keeps[OF s1, of "Inr a"] s1
    by (subst (asm) drain_rings.simps)
      (auto simp: Let_def split: sum.splits if_splits option.splits prod.splits dest!: pl wt intro: Cons.IH[OF _ ok(4)])
qed

lemma drain_keeps:
  "P s \<Longrightarrow> \<forall>d \<in> set rounds. drain_round_ok valid d \<Longrightarrow> aura_drain cb now rounds tmo s = Some (r, s') \<Longrightarrow> P s'"
  unfolding aura_drain_def by (rule drain_rings_keeps)

lemma unregister_loop_keeps:
  "P s \<Longrightarrow> \<forall>(now, env) \<in> set rounds. wait_env_ok valid env \<Longrightarrow>
     unregister_loop cb ty dl rounds s = Some (r, s') \<Longrightarrow> P s'"
proof (induction rounds arbitrary: s)
  case Nil
  then show ?case by (subst (asm) unregister_loop.simps) (auto simp: Let_def upd_engine_def split: if_splits)
next
  case (Cons rd rounds)
  obtain now env where [simp]: "rd = (now, env)" by (rule prod.exhaust)
  have s: "(fst s, upd_engine reg_rdunlock (upd_engine reg_rdlock (snd s))) = s" by (simp add: upd_engine_def)
  have wt: "aura_wait cb env 100 s = Some (x, s2) \<Longrightarrow> P s2" for x s2
    using wait_keeps[OF Cons.prems(1), of env 100 x s2] Cons.prems(2) by auto
  have ok: "\<forall>(now, env) \<in> set rounds. wait_env_ok valid env" using Cons.prems(2) by auto
  show ?case using Cons.prems(1,3)
    by (subst (asm) unregister_loop.simps)
      (auto simp: Let_def s split: sum.splits if_splits option.splits prod.splits dest!: wt intro: Cons.IH[OF _ ok])
qed

lemma unregister_keeps:
  assumes "P s" "\<forall>(now, env) \<in> set rounds. wait_env_ok valid env" "aura_unregister cb ty now rounds s = Some (r, s')"
  shows "P s'"
proof -
  have "P (fst s, snd (aura_request_unregister ty (snd s)))" by (rule P_request[OF assms(1)])
  then show ?thesis using assms(3) unregister_loop_keeps[OF _ assms(2)]
    by (auto simp: aura_unregister_def split: prod.splits sum.splits if_splits)
qed

end

section \<open>Interpretations\<close>

subsection \<open>What event processing leaves alone\<close>

definition loop_frame where
  "loop_frame e = (eng_id e, ring_select e, eng_single_thread e, eng_shutting_down e, reg_readers e, reg_writers e,
     event_fd e, eventfd_registered e, ring_count e)"

definition wait_frame where
  "wait_frame e = (stop_requested e, running e, loop_frame e)"

lemma frame_latch [simp]:
  "wait_frame (latch_fatal_submit_errno err e) = wait_frame e" "wait_frame (latch_flush_result r e) = wait_frame e"
  "wait_frame (set_ring i c e) = wait_frame e" "wait_frame (drain_eventfd e) = wait_frame e"
  "wait_frame (release_ring st i e) = wait_frame e"
  by (simp_all add: wait_frame_def loop_frame_def latch_fatal_submit_errno_def latch_flush_result_def Let_def set_ring_def
      drain_eventfd_def release_ring_def split: sum.split)

lemma frame_locks [simp]:
  "wait_frame (reg_wrunlock (e\<lparr>reg_writers := reg_writers e + 1\<rparr>)) = wait_frame e"
  by (simp add: reg_wrunlock_def wait_frame_def loop_frame_def)

lemma frame_finalize:
  "wait_frame (rs_engine (snd (finalize_deferred_unregistration w))) = wait_frame (rs_engine w)"
proof -
  have f: "wait_frame (rs_engine (finalize_buffers w)) = wait_frame (rs_engine w)"
    "wait_frame (rs_engine (finalize_files w)) = wait_frame (rs_engine w)" for w
    by (simp_all add: finalize_files_def finalize_buffers_def upd_engine_def Let_def wait_frame_def loop_frame_def)
  have u: "wait_frame e = wait_frame (reg_wrlock d) \<Longrightarrow> wait_frame (reg_wrunlock e) = wait_frame d" for d e
    by (auto simp: wait_frame_def loop_frame_def reg_wrlock_def reg_wrunlock_def)
  show ?thesis unfolding finalize_deferred_unregistration_def by (simp add: upd_engine_def u f)
qed

lemma frame_steps [simp]:
  "wait_frame (ev_engine (put_ring i x s)) = wait_frame (ev_engine s)"
  "wait_frame (ev_engine (snd (poll_ring cb rr i s))) = wait_frame (ev_engine s)"
  "wait_frame (ev_engine (snd (flush_held_ring rr i st c s))) = wait_frame (ev_engine s)"
  "wait_frame (ev_engine (snd (flush_ring_locked rr i s))) = wait_frame (ev_engine s)"
  "wait_frame (ev_engine (flush_ring_fast rr i s)) = wait_frame (ev_engine s)"
  "wait_frame (ev_engine (snd (try_finalize s))) = wait_frame (ev_engine s)"
proof -
  show p: "wait_frame (ev_engine (put_ring i x s)) = wait_frame (ev_engine s)" for x by (simp add: put_ring_engine)
  show "wait_frame (ev_engine (snd (poll_ring cb rr i s))) = wait_frame (ev_engine s)"
    "wait_frame (ev_engine (flush_ring_fast rr i s)) = wait_frame (ev_engine s)"
    by (simp_all add: poll_ring_def flush_ring_fast_def case_prod_beta p)
  show h: "wait_frame (ev_engine (snd (flush_held_ring rr i st c s))) = wait_frame (ev_engine s)" for st c
    by (simp add: flush_held_ring_def flush_ring_checked_def Let_def case_prod_beta)
  show "wait_frame (ev_engine (snd (flush_ring_locked rr i s))) = wait_frame (ev_engine s)"
    by (simp add: flush_ring_locked_def case_prod_beta h)
  show "wait_frame (ev_engine (snd (try_finalize s))) = wait_frame (ev_engine s)"
    using maybe_finalize_cases[of "snd s"] by (auto simp: try_finalize_def case_prod_beta frame_finalize)
qed

lemma frame_held: "flush_held_ring rr i st c s = (f, s') \<Longrightarrow> wait_frame (ev_engine s') = wait_frame (ev_engine s)"
  using frame_steps(3)[of rr i st c s] by (metis snd_conv)

lemma frame_try: "flush_ring_trylock rr i s = Some (f, s') \<Longrightarrow> wait_frame (ev_engine s') = wait_frame (ev_engine s)"
  by (auto simp: flush_ring_trylock_def case_prod_beta split: if_splits dest: frame_held)

lemma frame_wait: "wait_ring cb reply tmo i s = Some (r, s') \<Longrightarrow> wait_frame (ev_engine s') = wait_frame (ev_engine s)"
  by (auto simp: wait_ring_def)

lemma frame_loop: "wait_frame e = wait_frame e' \<Longrightarrow> loop_frame e = loop_frame e'"
  by (simp add: wait_frame_def)

interpretation frame: event_invariant cb "\<lambda>_ _ _. True" "\<lambda>s. wait_frame (ev_engine s) = F" for cb F
  by unfold_locales (auto simp: upd_engine_def dest: frame_try frame_wait)

lemma request_frame:
  "loop_frame (rs_engine (snd (aura_request_unregister ty w))) = loop_frame (rs_engine w)"
proof -
  have "loop_frame (rs_engine (snd (request_unregister_generic g h k w))) = loop_frame (rs_engine w)"
    if "\<And>e. loop_frame (k e) = loop_frame e" "\<And>e. reg_writers (k e) = reg_writers e" for g h k
  proof -
    have "loop_frame (reg_wrunlock (k (reg_wrlock e))) = loop_frame e" for e
      using that[of "reg_wrlock e"] by (auto simp: loop_frame_def reg_wrlock_def reg_wrunlock_def)
    then show ?thesis using frame_loop[OF frame_finalize]
      by (simp add: request_unregister_generic_def Let_def upd_engine_def)
        (simp add: loop_frame_def reg_wrlock_def reg_wrunlock_def)
  qed
  then show ?thesis
    by (cases ty) (simp_all add: aura_request_unregister_def request_unregister_buffers_def request_unregister_files_def,
      simp_all add: loop_frame_def)
qed

interpretation loop: event_loop_invariant cb "\<lambda>_ _ _. True" "\<lambda>s. loop_frame (ev_engine s) = F" for cb F
proof unfold_locales
  note steps = frame_steps(2,4,5,6)[THEN frame_loop]
  show "loop_frame (ev_engine s) = F \<Longrightarrow> loop_frame (ev_engine (snd (poll_ring cb rr i s))) = F"
    "loop_frame (ev_engine s) = F \<Longrightarrow> loop_frame (ev_engine (snd (flush_ring_locked rr i s))) = F"
    "loop_frame (ev_engine s) = F \<Longrightarrow> loop_frame (ev_engine (flush_ring_fast rr i s)) = F"
    "loop_frame (ev_engine s) = F \<Longrightarrow> loop_frame (ev_engine (snd (try_finalize s))) = F" for s rr i
    by (simp_all add: steps)
qed (auto simp: upd_engine_def loop_frame_def[of "_\<lparr>stop_requested := _\<rparr>"] loop_frame_def[of "_\<lparr>running := _\<rparr>"]
    frame_loop[OF frame_latch(4)] request_frame dest: frame_try[THEN frame_loop] frame_wait[THEN frame_loop],
    simp_all add: loop_frame_def)

subsection \<open>The rings\<close>

lemma st_field_cong [simp]:
  "ring_inv k (c\<lparr>st_users := n\<rparr>) = ring_inv k c" "held_slots (c\<lparr>st_users := n\<rparr>) = held_slots c"
  by (simp_all add: ring_inv_def held_slots_def free_slots_def pending_slots_def slots_wf_def)

lemma st_field_uses [simp]: "uses_ok (c\<lparr>st_users := n\<rparr>) = uses_ok c"
  by (rule uses_cong) (simp_all add: pending_slots_def)

text \<open>Whatever is done between taking and releasing a ring's lock, in either of its two forms.\<close>

lemma locked_section:
  assumes "ring_lock c = (st, c1)" "settled c1 c2"
  shows "settled c (ring_unlock st c2)"
proof (cases "single_thread c")
  case True
  then have "st" "c1 = c\<lparr>st_users := st_users c + 1\<rparr>" using assms(1) by (simp_all add: ring_lock_def)
  then show ?thesis using assms(2) by (simp add: settled_def) (simp add: ring_unlock_def ring_frame_def)
next
  case False
  then have "\<not> st" "c1 = c\<lparr>lock := lock c + 1\<rparr>" using assms(1) by (simp_all add: ring_lock_def)
  then show ?thesis using assms(2) unlock_settled[of c c2] by (simp add: locked_def)
qed

lemma lock_inv: "ring_lock c = (st, c1) \<Longrightarrow> ring_inv 0 c \<Longrightarrow> settled c1 c1"
  by (auto simp: ring_lock_def settled_def split: if_splits)

lemma trylock_lock: "ring_trylock c = (True, st, c1) \<Longrightarrow> ring_lock c = (st, c1)"
  by (auto simp: ring_trylock_def ring_lock_def split: if_splits)

lemma cq_section [simp]: "ring_cq_unlock (fst (ring_cq_lock c)) (snd (ring_cq_lock c)) = c"
  by (simp add: ring_cq_lock_def ring_cq_unlock_def)

context counting_callback
begin

lemma poll_settled:
  assumes "settled c0 c" "cqes_valid c0 cq arrivals" "ring_poll cb cq arrivals (t, c) = (n, x)"
  shows "settled c0 (snd x)"
proof -
  have c: "ring_inv 0 c" "cqes_valid c cq arrivals" "uses_ok c0 \<Longrightarrow> uses_ok c"
    using assms(1,2) cqes_valid_frame[of c c0] by (auto simp: settled_def)
  then show ?thesis
    using assms(1,3) ring_poll_inv[of 0 "(t, c)" cq arrivals n x] ring_poll_uses[of 0 "(t, c)" cq arrivals n x]
    by (auto simp: settled_def)
qed

lemma drains_settled:
  assumes "settled c0 c" "cqes_valid c0 cq arrivals"
  shows "ring_drain_cqes cb cq arrivals (t, c) = (n, x) \<Longrightarrow> settled c0 (snd x)"
    and "ring_drain_cqes_fast cb cq arrivals (t, c) = (n, x) \<Longrightarrow> settled c0 (snd x)"
proof -
  have c: "ring_inv 0 c" "cqes_valid c cq arrivals" "uses_ok c0 \<Longrightarrow> uses_ok c"
    using assms(1,2) cqes_valid_frame[of c c0] by (auto simp: settled_def)
  show "ring_drain_cqes cb cq arrivals (t, c) = (n, x) \<Longrightarrow> settled c0 (snd x)"
    using assms(1) c drain_loop_inv[of 0 "(t, c)" cq arrivals "poll_batch_size c" 0 n x]
      drain_loop_uses[of 0 "(t, c)" cq arrivals "poll_batch_size c" 0 n x]
    by (auto simp: settled_def ring_drain_cqes_def)
  have "drain_fast_loop cb cq arrivals 0 (t, c) = (n, x) \<Longrightarrow> settled c0 (snd x)"
    using assms(1) c drain_fast_loop_inv[of 0 "(t, c)" cq arrivals 0 n x]
      drain_fast_loop_uses[of 0 "(t, c)" cq arrivals 0 n x]
    by (auto simp: settled_def)
  then show "ring_drain_cqes_fast cb cq arrivals (t, c) = (n, x) \<Longrightarrow> settled c0 (snd x)"
    using assms(1) by (cases "ring_initialized c") (auto simp: ring_drain_cqes_fast_def)
qed

lemma wait_settled:
  assumes "settled c0 c" "cqes_valid c0 (w_cq reply) (w_arrivals reply)"
    "cqes_valid c0 (w_cq_after reply) (w_arrivals reply)" "ring_wait cb reply tmo (t, c) = Some (r, x)"
  shows "settled c0 (snd x)"
proof -
  have d: "settled c0 (snd (snd (ring_drain_cqes cb (w_cq reply) (w_arrivals reply) (t, c))))"
    "settled c0 (snd (snd (ring_drain_cqes_fast cb (w_cq reply) (w_arrivals reply) (t, c))))"
    "settled c0 (snd (snd (ring_drain_cqes cb (w_cq_after reply) (w_arrivals reply) (t, c))))"
    by (rule drains_settled(1)[OF assms(1,2)], rule prod.collapse[symmetric])
      (rule drains_settled(2)[OF assms(1,2)], rule prod.collapse[symmetric],
       rule drains_settled(1)[OF assms(1,3)], rule prod.collapse[symmetric])
  show ?thesis using assms(1,4) d unfolding ring_wait_def Let_def case_prod_beta snd_conv fst_conv cq_section
    by (simp split: if_splits option.splits) force+
qed

end

lemma list_all2_upd:
  "list_all2 R xs ys \<Longrightarrow> i < length xs \<Longrightarrow> (R (xs ! i) (ys ! i) \<Longrightarrow> R (xs ! i) y) \<Longrightarrow> list_all2 R xs (ys[i := y])"
  by (auto simp: list_all2_conv_all_nth nth_list_update)

lemma rings_put: "rings (ev_engine (put_ring i x s)) = (rings (ev_engine s))[i := snd x]"
  by (simp add: put_ring_engine set_ring_def)

lemma rings_latch [simp]: "rings (latch_flush_result r e) = rings e"
  by (simp add: latch_flush_result_def latch_fatal_submit_errno_def Let_def split: sum.split)

lemma rings_finalize:
  "rings (rs_engine (snd (finalize_deferred_unregistration w))) = rings (rs_engine w)"
proof -
  have f: "rings (rs_engine (finalize_buffers w)) = rings (rs_engine w)"
    "rings (rs_engine (finalize_files w)) = rings (rs_engine w)" for w
    by (simp_all add: finalize_files_def finalize_buffers_def upd_engine_def Let_def)
  then show ?thesis by (simp add: finalize_deferred_unregistration_def upd_engine_def reg_wrlock_def reg_wrunlock_def)
qed

lemma rings_try_finalize: "rings (ev_engine (snd (try_finalize s))) = rings (ev_engine s)"
  using maybe_finalize_cases[of "snd s"] rings_finalize[of "snd s"] by (auto simp: try_finalize_def case_prod_beta)

lemma rings_request: "rings (rs_engine (snd (aura_request_unregister ty w))) = rings (rs_engine w)"
proof -
  have "rings (rs_engine (snd (request_unregister_generic g h k w))) = rings (rs_engine w)"
    if "\<And>e. rings (k e) = rings e" for g h k
    using that by (simp add: request_unregister_generic_def Let_def rings_finalize upd_engine_def reg_wrlock_def reg_wrunlock_def)
  then show ?thesis
    by (cases ty) (simp_all add: aura_request_unregister_def request_unregister_buffers_def request_unregister_files_def)
qed

lemma flush_held_settled:
  assumes "list_all2 settled cs (rings (ev_engine s))" "i < nrings s" "ring_lock (rings (ev_engine s) ! i) = (st, c)"
    "flush_held_ring rr i st c s = (f, s')"
  shows "list_all2 settled cs (rings (ev_engine s'))"
proof -
  let ?d = "rings (ev_engine s) ! i"
  obtain r tr c2 where fl: "ring_flush (rr_submitted rr) (tl_ring (fst s)) c = (r, tr, c2)" by (rule prod_cases3)
  have i: "i < length cs" using assms(1,2) by (simp add: list_all2_lengthD)
  have d: "settled (cs ! i) ?d" using assms(1) i by (simp add: list_all2_nthD)
  have "settled c c2" using flush_settled[OF fl lock_inv[OF assms(3)]] d by (simp add: settled_def)
  then have "settled (cs ! i) (ring_unlock st c2)" using settled_trans[OF d locked_section[OF assms(3)]] by simp
  moreover have "rings (ev_engine s') = (rings (ev_engine s))[i := ring_unlock st c2]"
    using assms(2,4) fl by (auto simp: flush_held_ring_def flush_ring_checked_def set_ring_def release_ring_def)
  ultimately show ?thesis using list_all2_upd[OF assms(1) i] by simp
qed

text \<open>Rings of one engine: each stays consistent and keeps its locks and checked-out slots.\<close>

sublocale counting_callback \<subseteq> ringwise: event_loop_invariant cb "\<lambda>i. cqes_valid (cs ! i)"
  "\<lambda>s. list_all2 settled cs (rings (ev_engine s)) \<and> (\<forall>c \<in> set cs. ring_initialized c)" for cs
proof (unfold_locales, goal_cases)
  case (1 s i rr)
  obtain n x where p: "ring_poll cb (rr_cq rr) (rr_arrivals rr) (tl_ring (fst s), rings (ev_engine s) ! i) = (n, x)"
    by (rule prod.exhaust)
  have "i < length cs" using 1 by (auto dest: list_all2_lengthD)
  then show ?case using 1 p poll_settled[OF _ 1(3) p]
    by (auto simp: poll_ring_def rings_put intro!: list_all2_upd)
next
  case (2 s i rr)
  obtain st c f s' where h: "ring_lock (rings (ev_engine s) ! i) = (st, c)" "flush_held_ring rr i st c s = (f, s')"
    by (metis prod.exhaust)
  then show ?case using 2 flush_held_settled[OF _ _ h] by (simp add: flush_ring_locked_def)
next
  case (3 s i rr f s')
  then show ?case
    using flush_held_settled[of cs s i, OF _ _ trylock_lock]
    by (auto simp: flush_ring_trylock_def split: prod.splits if_splits)
next
  case (4 s i rr)
  let ?d = "rings (ev_engine s) ! i"
  obtain r tr c2 where fl: "ring_flush_fast (rr_submitted rr) (tl_ring (fst s)) ?d = (r, tr, c2)" by (rule prod_cases3)
  have i: "i < length cs" using 4 by (auto dest: list_all2_lengthD)
  then have d: "settled (cs ! i) ?d" "ring_initialized (cs ! i)" using 4 by (auto simp: list_all2_nthD)
  then have "ring_initialized ?d" by (simp add: settled_def ring_frame_def)
  then have "settled (cs ! i) c2" using fl flush_settled[OF _ d(1)] by (simp add: ring_flush_fast_eq)
  then show ?case using 4 i fl by (auto simp: flush_ring_fast_def rings_put intro!: list_all2_upd)
next
  case (5 s)
  then show ?case by (simp add: rings_try_finalize)
next
  case (6 s)
  then show ?case by (simp add: upd_engine_def drain_eventfd_def)
next
  case (7 s i reply tmo r s')
  then obtain x where w: "ring_wait cb reply tmo (tl_ring (fst s), rings (ev_engine s) ! i) = Some (r, x)" "s' = put_ring i x s"
    by (auto simp: wait_ring_def)
  have "i < length cs" using 7 by (auto dest: list_all2_lengthD)
  then show ?case using 7(1) w wait_settled[OF _ 7(3,4) w(1)] by (auto simp: rings_put intro!: list_all2_upd)
qed (simp_all add: upd_engine_def rings_request)

subsection \<open>The registrations\<close>

lemma untouched_steps:
  "ring_count e' = ring_count (rs_engine w) \<Longrightarrow> engine_frame e' = engine_frame (rs_engine w) \<Longrightarrow>
   (fatal_submit_errno (rs_engine w) \<noteq> 0 \<longrightarrow> fatal_submit_errno e' \<noteq> 0) \<Longrightarrow> reg_untouched w e'"
  by (simp add: reg_untouched_def engine_frame_def)

lemma frame_set_ring [simp]: "engine_frame (set_ring i c e) = engine_frame e" "engine_frame (release_ring st i e) = engine_frame e"
  "engine_frame (drain_eventfd e) = engine_frame e" "engine_frame (latch_flush_result r e) = engine_frame e"
  "engine_frame (e\<lparr>stop_requested := b\<rparr>) = engine_frame e" "engine_frame (e\<lparr>running := b\<rparr>) = engine_frame e"
  by (simp_all add: engine_frame_def set_ring_def release_ring_def drain_eventfd_def latch_flush_result_def
      latch_fatal_submit_errno_def Let_def split: sum.split)

lemma fatal_kept:
  "fatal_submit_errno (set_ring i c e) = fatal_submit_errno e" "fatal_submit_errno (release_ring st i e) = fatal_submit_errno e"
  "fatal_submit_errno (drain_eventfd e) = fatal_submit_errno e"
  "fatal_submit_errno e \<noteq> 0 \<Longrightarrow> fatal_submit_errno (latch_flush_result r e) = fatal_submit_errno e"
  by (simp_all add: set_ring_def release_ring_def drain_eventfd_def latch_flush_result_def latch_fatal_submit_errno_def
      Let_def split: sum.split)

lemma reach_held: "reg_reach (snd s) \<Longrightarrow> reg_reach (snd (snd (flush_held_ring rr i st c s)))"
  using nrings_steps(2)[of rr i st c s]
  by (auto simp: flush_held_ring_def flush_ring_checked_def case_prod_beta Let_def fatal_kept
      intro!: reg_reach.engine_work untouched_steps)

lemma reach_put: "reg_reach (snd s) \<Longrightarrow> reg_reach (snd (put_ring i x s))"
  using reg_reach.engine_work[of "snd s" "set_ring i (snd x) (ev_engine s)"]
  by (simp add: put_ring_def upd_engine_def untouched_steps fatal_kept)

interpretation reach: event_loop_invariant cb "\<lambda>_ _ _. True" "\<lambda>s. reg_reach (snd s)" for cb
proof (unfold_locales, goal_cases)
  case (1 s i rr)
  then show ?case by (simp add: poll_ring_def case_prod_beta reach_put)
next
  case (2 s i rr)
  then show ?case by (simp add: flush_ring_locked_def case_prod_beta reach_held)
next
  case (3 s i rr f s')
  then show ?case using reach_held[OF 3(1), of rr i]
    by (auto simp: flush_ring_trylock_def case_prod_beta split: if_splits) (metis snd_conv)
next
  case (4 s i rr)
  then show ?case by (simp add: flush_ring_fast_def case_prod_beta reach_put)
next
  case (5 s)
  then show ?case by (simp add: try_finalize_def case_prod_beta reg_reach.finalize)
next
  case (7 s i reply tmo r s')
  then show ?case by (auto simp: wait_ring_def reach_put)
next
  case (10 s ty)
  then show ?case by (simp add: reg_reach.request)
qed (auto simp: upd_engine_def fatal_kept intro!: reg_reach.engine_work untouched_steps, simp_all add: drain_eventfd_def)

section \<open>Every event operation keeps the engine consistent\<close>

datatype event_call =
    EvFlush "nat \<Rightarrow> ring_reply"
  | EvPoll "nat \<Rightarrow> ring_reply" "nat \<Rightarrow> ring_reply"
  | EvWait wait_env int
  | EvRun "(wait_env \<times> bool) list"
  | EvDrain int "drain_round list" int
  | EvUnregister aura_reg_type int "(int \<times> wait_env) list"

text \<open>The state after a call; \<open>None\<close> while it still waits.\<close>

fun run_event :: "completion_fn \<Rightarrow> event_call \<Rightarrow> event_state \<Rightarrow> event_state option" where
  "run_event cb (EvFlush rrs) s = Some (snd (aura_flush rrs s))"
| "run_event cb (EvPoll rrs rrs2) s = Some (snd (aura_poll cb rrs rrs2 s))"
| "run_event cb (EvWait env tmo) s = map_option snd (aura_wait cb env tmo s)"
| "run_event cb (EvRun rounds) s = aura_run cb rounds s"
| "run_event cb (EvDrain now rounds tmo) s = map_option snd (aura_drain cb now rounds tmo s)"
| "run_event cb (EvUnregister ty now rounds) s = map_option snd (aura_unregister cb ty now rounds s)"

fun event_ok ::
    "(nat \<Rightarrow> io_uring_cqe list \<Rightarrow> io_uring_cqe list list \<Rightarrow> bool) \<Rightarrow> event_call \<Rightarrow> bool" where
  "event_ok valid (EvFlush rrs) = True"
| "event_ok valid (EvPoll rrs rrs2) = (replies_ok valid rrs \<and> replies_ok valid rrs2)"
| "event_ok valid (EvWait env tmo) = wait_env_ok valid env"
| "event_ok valid (EvRun rounds) = (\<forall>(env, stop) \<in> set rounds. wait_env_ok valid env)"
| "event_ok valid (EvDrain now rounds tmo) = (\<forall>d \<in> set rounds. drain_round_ok valid d)"
| "event_ok valid (EvUnregister ty now rounds) = (\<forall>(now, env) \<in> set rounds. wait_env_ok valid env)"

lemma event_ok_True: "event_ok (\<lambda>_ _ _. True) call"
  by (cases call) (auto simp: replies_ok_def wait_env_ok_def drain_round_ok_def)

context event_loop_invariant
begin

lemma event_keeps:
  assumes "P s" "event_ok valid call" "run_event cb call s = Some s'"
  shows "P s'"
proof (cases call)
  case (EvFlush rrs)
  then show ?thesis using assms flush_keeps[of s rrs] by auto
next
  case (EvPoll rrs rrs2)
  then show ?thesis using assms poll_keeps[of s rrs rrs2] by auto
next
  case (EvWait env tmo)
  then show ?thesis using assms wait_keeps[of s env] by auto
next
  case (EvRun rounds)
  then show ?thesis using assms run_keeps[of s rounds s'] by simp
next
  case (EvDrain now rounds tmo)
  then show ?thesis using assms drain_keeps[of s rounds] by auto
next
  case (EvUnregister ty now rounds)
  then show ?thesis using assms unregister_keeps[of s rounds] by auto
qed

end

context counting_callback
begin

lemma event_settles:
  assumes "\<forall>c \<in> set (rings e). ring_inv 0 c \<and> ring_initialized c" "event_ok (\<lambda>i. cqes_valid (rings e ! i)) call"
    "run_event cb call s = Some s'" "ev_engine s = e"
  shows "list_all2 settled (rings e) (rings (ev_engine s'))"
proof -
  have "list_all2 settled (rings e) (rings e)" using assms(1) by (simp add: list_all2_conv_all_nth settled_refl)
  then show ?thesis using ringwise.event_keeps[OF _ assms(2,3)] assms(1,4) by simp
qed

end


section \<open>Waiting\<close>

text \<open>A poll that processes nothing changes nothing.\<close>

lemma poll_nothing: "ring_poll cb [] [] s = (0, s)"
proof -
  have "ring_drain_cqes cb [] [] s = (0, s)"
    unfolding ring_drain_cqes_def by (subst drain_loop.simps) (simp add: Let_def case_prod_beta cq_refill_def)
  moreover have "drain_fast_loop cb [] [] 0 s = (0, s)"
    by (subst drain_fast_loop.simps) (simp add: cq_refill_def)
  ultimately show ?thesis by (simp add: ring_poll_def ring_drain_cqes_fast_def)
qed

lemma drain_count_ge: "drain_loop cb b cq arrivals n s = (m, s') \<Longrightarrow> n \<le> m \<and> (m = n \<longrightarrow> s' = s)"
proof (induction "cq_weight cq arrivals" arbitrary: cq arrivals n s rule: less_induct)
  case less
  let ?av = "cq_refill cq arrivals"
  let ?n = "min b (length ?av)"
  show ?case
  proof (cases "?n = 0")
    case True
    then show ?thesis using less.prems by (subst (asm) drain_loop.simps) (auto simp: Let_def case_prod_beta)
  next
    case False
    obtain es t c where p: "process_batch cb (take ?n ?av) s = (es, t, c)" by (rule prod_cases3)
    have "drain_loop cb b (drop ?n ?av) (tl arrivals) (n + ?n) (t, ring_retire_batch es c) = (m, s')"
      using less.prems False p by (subst (asm) drain_loop.simps) (simp add: Let_def case_prod_beta)
    then have "n + ?n \<le> m" using less.hyps[OF cq_weight_drop[OF False]] by auto
    then have "n < m" using False by linarith
    then show ?thesis by simp
  qed
qed

lemma drain_fast_count_ge: "drain_fast_loop cb cq arrivals n s = (m, s') \<Longrightarrow> n \<le> m \<and> (m = n \<longrightarrow> s' = s)"
proof (induction "cq_weight cq arrivals" arbitrary: cq arrivals n s rule: less_induct)
  case less
  show ?case
  proof (cases "cq_refill cq arrivals")
    case Nil
    then show ?thesis using less.prems by (subst (asm) drain_fast_loop.simps) auto
  next
    case (Cons q qs)
    obtain e t c where p: "process_completion cb q s = (e, t, c)" by (rule prod_cases3)
    have "drain_fast_loop cb qs (tl arrivals) (n + 1) (t, retire_inline e c) = (m, s')"
      using less.prems Cons p by (subst (asm) drain_fast_loop.simps) (simp add: Let_def)
    moreover have "cq_weight qs (tl arrivals) < cq_weight cq arrivals"
      using cq_weight_drop[of 1 cq arrivals] Cons by simp
    ultimately have "n + 1 \<le> m" using less.hyps by blast
    then show ?thesis by auto
  qed
qed

lemma poll_zero: "ring_poll cb cq arrivals s = (0, s') \<Longrightarrow> s' = s"
  using drain_count_ge[of cb "poll_batch_size (snd s)" cq arrivals 0 s 0 s'] drain_fast_count_ge[of cb cq arrivals 0 s 0 s']
  by (auto simp: ring_poll_def ring_drain_cqes_def ring_drain_cqes_fast_def split: if_splits)

lemma put_ring_same: "i < nrings s \<Longrightarrow> put_ring i (tl_ring (fst s), rings (ev_engine s) ! i) s = s"
  by (cases s) (simp add: put_ring_def upd_engine_def set_ring_def)

lemma poll_ring_zero: "i < nrings s \<Longrightarrow> poll_ring cb rr i s = (0, s') \<Longrightarrow> s' = s"
  using poll_zero[of cb "rr_cq rr" "rr_arrivals rr" "(tl_ring (fst s), rings (ev_engine s) ! i)"] put_ring_same[of i s]
  by (auto simp: poll_ring_def split: prod.splits)

text \<open>
  The first pass of a wait over the rings already visited: if nothing completed and no ring was
  found with work in flight, none has any.
\<close>

definition pass_quiet :: "nat \<Rightarrow> int \<times> bool \<times> nat option \<times> event_state \<Rightarrow> bool" where
  "pass_quiet j x \<longleftrightarrow> (case x of (a, f, q, s) \<Rightarrow> 0 \<le> a \<and>
     (a = 0 \<longrightarrow> q = None \<longrightarrow> (\<forall>i < j. pending_count (rings (ev_engine s) ! i) \<le> 0)))"

lemma flush_locked_rings: "\<exists>c'. rings (ev_engine (snd (flush_ring_locked rr i s))) = (rings (ev_engine s))[i := c']"
  by (auto simp: flush_ring_locked_def flush_held_ring_def flush_ring_checked_def case_prod_beta Let_def
      release_ring_def set_ring_def)

lemma wait_step_quiet:
  assumes "j < nrings s" "pass_quiet j (a, f, q, s)"
  shows "pass_quiet (Suc j) (wait_step cb rrs j (a, f, q, s)) \<and> nrings (snd (snd (snd (wait_step cb rrs j (a, f, q, s))))) = nrings s"
proof -
  obtain f1 s1 where fl: "flush_ring_locked (rrs j) j s = (f1, s1)" by (rule prod.exhaust)
  obtain c' where c': "rings (ev_engine s1) = (rings (ev_engine s))[j := c']"
    using flush_locked_rings[of "rrs j" j s] fl by auto
  obtain n s2 where p: "poll_ring cb (rrs j) j s1 = (n, s2)" by (rule prod.exhaust)
  have n: "nrings s1 = nrings s" using c' by simp
  have n2: "nrings s2 = nrings s" using nrings_steps(1)[of cb "rrs j" j s1] p n by simp
  have "s2 = s1" if "n = 0" using that p poll_ring_zero[of j s1 cb "rrs j" s2] n assms(1) by simp
  then show ?thesis using assms fl p c' n2
    by (auto simp: wait_step_def pass_quiet_def less_Suc_eq nth_list_update split: if_splits)
qed

lemma wait_pass_quiet:
  "j \<le> nrings s \<Longrightarrow> pass_quiet j (fold (wait_step cb rrs) [0..<j] (0, f, None, s)) \<and>
     nrings (snd (snd (snd (fold (wait_step cb rrs) [0..<j] (0, f, None, s))))) = nrings s"
proof (induction j)
  case 0
  then show ?case by (simp add: pass_quiet_def)
next
  case (Suc j)
  obtain a f' q s' where x: "fold (wait_step cb rrs) [0..<j] (0, f, None, s) = (a, f', q, s')" by (rule prod_cases4)
  have "j < nrings s'" "pass_quiet j (a, f', q, s')" "nrings s' = nrings s" using Suc x by auto
  then show ?case using wait_step_quiet[of j s' a f' q cb rrs] x by simp
qed

lemma quiet_idle: "pass_quiet (nrings s) (0, f, None, s) \<Longrightarrow> \<not> has_pending (ev_engine s)"
  by (auto simp: pass_quiet_def has_pending_def list_ex_length not_less)

lemma poll_only_ge: "fold (poll_only_step cb rrs) js (a, s) = (a', s') \<Longrightarrow> a \<le> a'"
proof (induction js arbitrary: a s)
  case (Cons j js)
  obtain n s1 where p: "poll_ring cb (rrs j) j s = (n, s1)" by (rule prod.exhaust)
  then have "fold (poll_only_step cb rrs) js (a + int n, s1) = (a', s')" using Cons.prems by (simp add: poll_only_step_def[of cb rrs j])
  from Cons.IH[OF this] show ?case by simp
qed simp

lemma finish_value: "finish_wait r s = (Inr n, s') \<Longrightarrow> r = Inr n"
  by (auto simp: finish_wait_def split: prod.splits sum.splits)

lemma last_poll_value: "wait_last_poll cb env s = (Inr n, s') \<Longrightarrow> n > 0"
  by (auto simp: wait_last_poll_def split: prod.splits if_splits dest!: finish_value)

lemma eventfd_value: "wait_eventfd cb env s = (Inr n, s') \<Longrightarrow> n > 0"
  by (auto simp: wait_eventfd_def Let_def split: prod.splits sum.splits if_splits dest: last_poll_value)

lemma fallback_value:
  assumes "wait_fallback cb env tmo i s = Some (Inr n, s')"
  shows "n > 0"
proof -
  obtain x s1 where x: "wait_ring cb (we_ring env) tmo i s = Some (x, s1)"
    using assms by (auto simp: wait_fallback_def)
  then obtain k where w: "wait_ring cb (we_ring env) tmo i s = Some (Inr k, s1)"
    using assms by (cases x) (simp_all add: wait_fallback_def)
  obtain a s2 where p: "fold (poll_only_step cb (we_last env)) (filter (\<lambda>j. j \<noteq> i) [0..<nrings s1]) (k, s1) = (a, s2)"
    by (rule prod.exhaust)
  have "k > 0 \<and> n = a" using assms w p by (auto simp: wait_fallback_def split: if_splits dest!: finish_value)
  then show ?thesis using poll_only_ge[OF p] by simp
qed

text \<open>
  Claim C11. A wait on an engine whose rings are not owned by the calling thread reports a number of
  completions only if it processed that many, and zero only if no operation is in flight on any
  ring when it returns.
\<close>

theorem wait_zero_means_idle:
  assumes "own_ring s = None" and "aura_wait cb env timeout_ms s = Some (Inr n, s')"
  shows "n > 0 \<or> n = 0 \<and> \<not> has_pending (ev_engine s')"
proof -
  obtain r0 s1 where f: "try_finalize s = (r0, s1)" by (rule prod.exhaust)
  let ?s2 = "drain_if_registered s1" and ?f0 = "fatal_submit_errno (ev_engine s) \<noteq> 0"
  obtain a fa q s3 where p: "fold (wait_step cb (we_first env)) [0..<nrings ?s2] (0, ?f0, None, ?s2) = (a, fa, q, s3)"
    by (rule prod_cases4)
  have q: "pass_quiet (nrings s3) (a, fa, q, s3)"
    using wait_pass_quiet[of "nrings ?s2" ?s2 cb "we_first env" ?f0] p by simp
  then have "a = 0 \<Longrightarrow> q = None \<Longrightarrow> \<not> has_pending (ev_engine s3)" "0 \<le> a"
    using quiet_idle[of s3 fa] by (auto simp: pass_quiet_def)
  moreover obtain u where "r0 = Inr u" using assms f by (cases r0) (auto simp: aura_wait_def)
  ultimately show ?thesis using assms f p
    by (auto simp: aura_wait_def Let_def split: if_splits option.splits
        dest!: finish_value eventfd_value[OF sym] eventfd_value fallback_value)
qed

lemma flush_keeps_pending:
  "ring_flush n t c = (r, t', c') \<Longrightarrow> pending_count c' = pending_count c \<and> ring_initialized c' = ring_initialized c"
  "ring_flush_fast n t c = (r, t', c') \<Longrightarrow> pending_count c' = pending_count c \<and> ring_initialized c' = ring_initialized c"
  by (auto simp: ring_flush_def ring_flush_fast_def sq_consume_def Let_def split: if_splits)

lemma frame_own: "visit_own_ring cb rr i s = (n, s') \<Longrightarrow> nrings s' = nrings s"
  by (auto simp: visit_own_ring_def Let_def case_prod_beta)

text \<open>What a visit of the owned ring without completions leaves.\<close>

lemma visit_nothing:
  assumes "i < nrings s" "rr_cq rr = []" "rr_arrivals rr = []" "visit_own_ring cb rr i s = (n, s')"
  shows "n = 0 \<and> pending_count (rings (ev_engine s') ! i) = pending_count (rings (ev_engine s) ! i) \<and>
    ring_initialized (rings (ev_engine s') ! i) = ring_initialized (rings (ev_engine s) ! i)"
proof -
  let ?c = "rings (ev_engine s) ! i"
  define s1 where "s1 = (if single_thread ?c then flush_ring_fast rr i s else snd (flush_ring_locked rr i s))"
  obtain r t c' where f: "ring_flush_fast (rr_submitted rr) (tl_ring (fst s)) ?c = (r, t, c')" by (rule prod_cases3)
  obtain st c1 where l: "ring_lock ?c = (st, c1)" by (rule prod.exhaust)
  obtain r2 t2 c2 where g: "ring_flush (rr_submitted rr) (tl_ring (fst s)) c1 = (r2, t2, c2)" by (rule prod_cases3)
  have l1: "pending_count c1 = pending_count ?c" "ring_initialized c1 = ring_initialized ?c"
    using l by (auto simp: ring_lock_def split: if_splits)
  have "rings (ev_engine s1) = (rings (ev_engine s))[i := (if single_thread ?c then c' else ring_unlock st c2)]"
    using f g l assms(1) by (simp add: s1_def flush_ring_fast_def rings_put flush_ring_locked_def flush_held_ring_def
      flush_ring_checked_def release_ring_def set_ring_def)
  then have c: "pending_count (rings (ev_engine s1) ! i) = pending_count ?c"
    "ring_initialized (rings (ev_engine s1) ! i) = ring_initialized ?c" "i < nrings s1"
    using flush_keeps_pending(1)[OF g] flush_keeps_pending(2)[OF f] l1 assms(1) by (auto simp: ring_unlock_def)
  have "poll_ring cb rr i s1 = (0, s1)"
    using poll_nothing[of cb] put_ring_same[OF c(3)] assms(2,3) by (simp add: poll_ring_def)
  then have "n = 0" "s' = s1 \<or> s' = snd (try_finalize s1)"
    using assms(4) by (auto simp: visit_own_ring_def s1_def[symmetric] Let_def)
  then show ?thesis using c rings_try_finalize[of s1] by auto
qed

text \<open>
  A wait by the thread that owns its ring reports a timeout as zero, the value documented
  for nothing in flight: with an operation in flight on the owned ring and no completion before the
  timeout, the call returns 0 and the operation is still in flight.
\<close>

theorem owner_wait_timeout_is_zero:
  assumes "own_ring s = Some i" and "ring_initialized (rings (ev_engine s) ! i)"
    and "pending_count (rings (ev_engine s) ! i) > 0" and "timeout_ms > 0"
    and "rr_cq (we_first env i) = []" and "rr_arrivals (we_first env i) = []"
    and "w_cq (we_ring env) = []" and "w_answers (we_ring env) = [- ETIME]"
    and "w_cq_after (we_ring env) = []" and "w_arrivals (we_ring env) = []"
  shows "\<exists>s'. aura_wait cb env timeout_ms s = Some (Inr 0, s') \<and>
    pending_count (rings (ev_engine s') ! i) = pending_count (rings (ev_engine s) ! i)"
proof -
  obtain n s1 where v: "visit_own_ring cb (we_first env i) i s = (n, s1)" by (rule prod.exhaust)
  have i: "i < nrings s" by (rule own_ring_lt[OF assms(1)])
  note c = visit_nothing[OF i assms(5,6) v]
  let ?c = "rings (ev_engine s1) ! i" and ?x = "(tl_ring (fst s1), rings (ev_engine s1) ! i)"
  have d: "ring_drain_cqes cb [] [] ?x = (0, ?x)"
    unfolding ring_drain_cqes_def by (subst drain_loop.simps) (simp add: Let_def case_prod_beta cq_refill_def)
  have "ring_wait cb (we_ring env) timeout_ms ?x = Some (Inr 0, ?x)"
    using assms(2-4,7-10) c d by (simp add: ring_wait_def Let_def case_prod_beta)
  moreover have "nrings s1 = nrings s"
    using frame_own[OF v] by simp
  ultimately have "wait_ring cb (we_ring env) timeout_ms i s1 = Some (Inr 0, s1)"
    using put_ring_same[of i s1] i by (simp add: wait_ring_def)
  then show ?thesis using assms(1) v c by (simp add: aura_wait_def)
qed

section \<open>The loops end\<close>

text \<open>A wait with a timeout is answered.\<close>

definition wait_answered :: "wait_env \<Rightarrow> bool" where
  "wait_answered env \<longleftrightarrow> w_answers (we_ring env) \<noteq> []"

lemma wait_ring_returns:
  assumes "wait_answered env" "tmo \<ge> 0"
  shows "wait_ring cb (we_ring env) tmo i s \<noteq> None"
proof -
  obtain a as where "w_answers (we_ring env) = a # as"
    using assms(1) by (cases "w_answers (we_ring env)") (simp_all add: wait_answered_def)
  then have "ring_wait cb (we_ring env) tmo x \<noteq> None" for x
    using assms(2) by (simp add: ring_wait_def Let_def case_prod_beta)
  then show ?thesis by (simp add: wait_ring_def del: not_None_eq)
qed

lemma wait_returns:
  assumes "wait_answered env" "tmo \<ge> 0"
  obtains r s' where "aura_wait cb env tmo s = Some (r, s')"
proof -
  have "wait_fallback cb env tmo i x \<noteq> None" "wait_ring cb (we_ring env) tmo i x \<noteq> None" for i x
    using wait_ring_returns[OF assms, of cb i x] by (simp_all add: wait_fallback_def del: not_None_eq)
  then have "aura_wait cb env tmo s \<noteq> None"
    by (simp add: aura_wait_def Let_def case_prod_beta del: not_None_eq split: option.split sum.split)
  then show thesis using that by auto
qed

lemma wait_keeps_stop:
  "aura_wait cb env tmo s = Some (r, s') \<Longrightarrow> stop_requested (ev_engine s') = stop_requested (ev_engine s)"
  using frame.wait_keeps[where F = "wait_frame (ev_engine s)" and s = s and env = env and cb = cb and tmo = tmo and r = r and s' = s'] by (simp add: wait_env_ok_def replies_ok_def wait_frame_def)

lemma run_loop_stopping:
  "stop_requested (ev_engine s) \<Longrightarrow> k < RUN_DRAIN_LIMIT \<Longrightarrow> length rounds \<ge> RUN_DRAIN_LIMIT - k \<Longrightarrow>
   \<forall>(env, stop) \<in> set rounds. wait_answered env \<Longrightarrow> \<exists>s'. run_loop cb rounds k s = Some s'"
proof (induction rounds arbitrary: k s)
  case (Cons rd rounds)
  obtain env stop where [simp]: "rd = (env, stop)" by (rule prod.exhaust)
  have ans: "wait_answered env" using Cons.prems(4) by simp
  obtain r s1 where w: "aura_wait cb env 100 s = Some (r, s1)" by (rule wait_returns[OF ans, of 100]) simp_all
  define s2 where "s2 = (if stop then aura_stop s1 else s1)"
  have "stop_requested (ev_engine s2)"
    using wait_keeps_stop[OF w] Cons.prems(1) by (simp add: s2_def aura_stop_def upd_engine_def)
  then show ?case using w Cons.IH[of s2 "k + 1"] Cons.prems(3,4) by (auto simp: s2_def[symmetric])
qed simp

lemma run_loop_stops:
  "j < length rounds \<Longrightarrow> snd (rounds ! j) \<Longrightarrow> length rounds \<ge> j + RUN_DRAIN_LIMIT \<Longrightarrow> k < RUN_DRAIN_LIMIT \<Longrightarrow>
   \<forall>(env, stop) \<in> set rounds. wait_answered env \<Longrightarrow> \<exists>s'. run_loop cb rounds k s = Some s'"
proof (induction rounds arbitrary: j k s)
  case (Cons rd rounds)
  obtain env stop where [simp]: "rd = (env, stop)" by (rule prod.exhaust)
  have ans: "wait_answered env" using Cons.prems(5) by simp
  obtain r s1 where w: "aura_wait cb env 100 s = Some (r, s1)" by (rule wait_returns[OF ans, of 100]) simp_all
  define s2 where "s2 = (if stop then aura_stop s1 else s1)"
  have stopped: "stop_requested (ev_engine s2) \<Longrightarrow> k + 1 < RUN_DRAIN_LIMIT \<Longrightarrow> \<exists>s'. run_loop cb rounds (k + 1) s2 = Some s'"
    using run_loop_stopping[of s2 "k + 1" rounds cb] Cons.prems by simp
  have going: "\<exists>s'. run_loop cb rounds 0 s2 = Some s'" if "\<not> stop_requested (ev_engine s2)"
  proof -
    have "\<not> stop" using that by (auto simp: s2_def aura_stop_def upd_engine_def)
    then obtain j' where "j = Suc j'" using Cons.prems(2) by (cases j) simp_all
    then show ?thesis using Cons.IH[of j' 0 s2] Cons.prems by simp
  qed
  show ?case using w stopped going by (auto simp: s2_def[symmetric])
qed simp

text \<open>
  Claim C12. The event loop ends after a stop: if \<open>aura_stop\<close> is called during some round, then
  \<open>aura_run\<close> returns at most a hundred rounds later, whatever completes or fails to complete,
  and marks the loop as not running. (Waits with a timeout are answered.)
\<close>

theorem run_stops:
  assumes "j < length rounds" and "snd (rounds ! j)" and "j + RUN_DRAIN_LIMIT \<le> length rounds"
    and "\<forall>(env, stop) \<in> set rounds. wait_answered env"
  shows "\<exists>s'. aura_run cb rounds s = Some s' \<and> \<not> running (ev_engine s')"
  using run_loop_stops[OF assms(1-3) _ assms(4), of 0 cb] by (fastforce simp: aura_run_def upd_engine_def)

lemma has_pending_rings: "rings e = rings e' \<Longrightarrow> has_pending e = has_pending e'"
  by (simp add: has_pending_def)

lemma try_finalize_ok:
  obtains s1 where "try_finalize s = (Inr (), s1)" "rings (ev_engine s1) = rings (ev_engine s)"
proof -
  have "fst (try_finalize s) = Inr ()"
    by (simp add: try_finalize_def maybe_finalize_deferred_unregistration_def finalize_deferred_unregistration_def Let_def)
  then have "try_finalize s = (Inr (), snd (try_finalize s))" by (metis prod.collapse)
  then show thesis using that rings_try_finalize[of s] by blast
qed

lemma drain_idle:
  assumes "tmo \<noteq> 0" "drain_rings cb tmo dl rounds a s = Some (Inr n, s')"
  shows "\<not> has_pending (ev_engine s')"
  using assms(2)
proof (induction rounds arbitrary: a s)
  case Nil
  obtain s1 where f: "try_finalize s = (Inr (), s1)" by (rule try_finalize_ok)
  obtain s2 where g: "try_finalize s1 = (Inr (), s2)" "rings (ev_engine s2) = rings (ev_engine s1)" by (rule try_finalize_ok)
  show ?case using Nil f g has_pending_rings[OF g(2)]
    by (subst (asm) drain_rings.simps) (auto simp: finish_wait_def split: if_splits)
next
  case (Cons d rounds)
  obtain s1 where f: "try_finalize s = (Inr (), s1)" by (rule try_finalize_ok)
  obtain s2 where g: "try_finalize s1 = (Inr (), s2)" "rings (ev_engine s2) = rings (ev_engine s1)" by (rule try_finalize_ok)
  show ?case using Cons.prems f g has_pending_rings[OF g(2)] assms(1)
    by (subst (asm) drain_rings.simps)
      (auto simp: finish_wait_def Let_def real_error_def split: if_splits option.splits sum.splits dest: Cons.IH)
qed

lemma drain_wait_ms_pos: "drain_wait_ms n \<ge> 0"
  by (simp add: drain_wait_ms_def Let_def)

lemma drain_returns:
  assumes "tmo > 0"
  shows "\<exists>d \<in> set rounds. dr_now d \<ge> dl \<Longrightarrow> \<forall>d \<in> set rounds. wait_answered (dr_wait d) \<Longrightarrow>
    \<exists>r s'. drain_rings cb tmo dl rounds a s = Some (r, s')"
proof (induction rounds arbitrary: a s)
  case (Cons d rounds)
  obtain s1 where f: "try_finalize s = (Inr (), s1)" by (rule try_finalize_ok)
  obtain s3 where g: "try_finalize s1 = (Inr (), s3)" by (rule try_finalize_ok)
  have ans: "wait_answered (dr_wait d)" using Cons.prems(2) by simp
  obtain r s2 where w: "aura_wait cb (dr_wait d) (drain_wait_ms (dl - dr_now d)) s1 = Some (r, s2)"
    by (rule wait_returns[OF ans drain_wait_ms_pos])
  show ?case
  proof (cases "dr_now d \<ge> dl")
    case True
    then show ?thesis using f g assms by (subst drain_rings.simps) (auto simp: finish_wait_def)
  next
    case False
    then have "\<exists>r s'. drain_rings cb tmo dl rounds b s2 = Some (r, s')" for b
      using Cons.IH Cons.prems by auto
    then show ?thesis using f g assms w False by (subst drain_rings.simps) (auto simp: finish_wait_def)
  qed
qed simp


section \<open>Concrete calls\<close>

definition demo_quiet :: ring_reply where
  "demo_quiet = \<lparr>rr_submitted = 0, rr_cq = [], rr_arrivals = []\<rparr>"

definition demo_wait_env :: wait_env where
  "demo_wait_env = \<lparr>we_first = (\<lambda>_. demo_quiet), we_poll = 0, we_woken = (\<lambda>_. demo_quiet), we_last = (\<lambda>_. demo_quiet),
     we_ring = \<lparr>w_cq = [], w_answers = [- ETIME], w_cq_after = [], w_arrivals = []\<rparr>\<rparr>"

lemma demo_answered: "wait_answered demo_wait_env" by (simp add: wait_answered_def demo_wait_env_def)


lemma idle_wait_step:
  assumes "i < nrings s" "queued_sqes (rings (ev_engine s) ! i) = 0" "pending_count (rings (ev_engine s) ! i) = 0"
  shows "wait_step cb (\<lambda>_. demo_quiet) i (a, f, q, s) = (a, f, q, s)"
proof -
  let ?c = "rings (ev_engine s) ! i"
  have l: "ring_unlock (fst (ring_lock ?c)) (snd (ring_lock ?c)) = ?c" "queued_sqes (snd (ring_lock ?c)) = 0"
    using assms(2) by (simp_all add: ring_lock_def ring_unlock_def)
  have "ring_flush 0 t (snd (ring_lock ?c)) = (Inr 0, t, snd (ring_lock ?c))" for t using l(2) by (simp add: ring_flush_def)
  then have "flush_ring_locked demo_quiet i s = (False, s)"
    using l assms(1) by (cases s) (simp add: flush_ring_locked_def flush_held_ring_def flush_ring_checked_def case_prod_beta
        Let_def demo_quiet_def release_ring_def set_ring_def latch_flush_result_def)
  moreover have "poll_ring cb demo_quiet i s = (0, s)"
    using poll_nothing[of cb] put_ring_same[OF assms(1)] by (simp add: poll_ring_def demo_quiet_def)
  ultimately show ?thesis using assms(3) by (simp add: wait_step_def)
qed

theorem wait_zero_means_idle_witness:
  "\<exists>s'. aura_wait read_next demo_wait_env 100 (demo_etls, demo_reg) = Some (Inr 0, s') \<and> \<not> has_pending (ev_engine s')"
proof -
  let ?s = "(demo_etls, demo_reg)"
  have o: "own_ring ?s = None"
    by (simp add: own_ring_def Let_def demo_reg_facts(4) demo_etls_def points_into_def)
  obtain s1 where f: "try_finalize ?s = (Inr (), s1)" "rings (ev_engine s1) = rings (ev_engine ?s)" by (rule try_finalize_ok)
  let ?s2 = "drain_if_registered s1"
  have r: "rings (ev_engine ?s2) = [demo_ring, demo_ring]"
    using f(2) by (simp add: drain_if_registered_def drain_eventfd_def upd_engine_def demo_reg_facts(4))
  have q: "queued_sqes demo_ring = 0" using ring_init_inv(1)[OF demo_ring_init]
    by (simp add: demo_ring_def ring_init_def queue_init_ladder_def Let_def adaptive_init_def initial_inflight_for_def c_div_def)
  have st: "wait_step read_next (\<lambda>_. demo_quiet) i (0, False, None, ?s2) = (0, False, None, ?s2)" if "i < 2" for i
    using idle_wait_step[of i ?s2] that r q demo_ring_facts(6) by (auto simp: less_2_cases_iff)
  have "[0..<2] = [0, 1::nat]" by (simp add: numeral_2_eq_2)
  then have "fold (wait_step read_next (we_first demo_wait_env)) [0..<nrings ?s2] (0, False, None, ?s2) = (0, False, None, ?s2)"
    using st[of 0] st[of 1] r by (simp add: demo_wait_env_def numeral_2_eq_2)
  then have w: "aura_wait read_next demo_wait_env 100 ?s = Some (Inr 0, ?s2)"
    using o f(1) demo_reg_facts(2) by (simp add: aura_wait_def Let_def)
  from wait_zero_means_idle[OF o w] w show ?thesis by simp
qed

definition demo_waiting :: reg_state where
  "demo_waiting = \<lparr>rs_engine = demo_engine AURA_SELECT_THREAD_LOCAL [demo_flying\<lparr>single_thread := True\<rparr>],
     k_buffers = [None], k_files = [None]\<rparr>"

theorem owner_wait_timeout_is_zero_witness:
  "\<exists>s'. aura_wait read_next demo_wait_env 100 (demo_etls, demo_waiting) = Some (Inr 0, s') \<and>
     pending_count (rings (ev_engine s') ! 0) = 1"
proof -
  have r: "rings (rs_engine demo_waiting) = [demo_flying\<lparr>single_thread := True\<rparr>]"
    "ring_select (rs_engine demo_waiting) = AURA_SELECT_THREAD_LOCAL"
    by (simp_all add: demo_waiting_def demo_engine_def)
  have o: "own_ring (demo_etls, demo_waiting) = Some 0" by (simp add: own_ring_def r ring_is_sole_owner_def)
  have c: "ring_initialized demo_flying" "pending_count demo_flying = 1"
    using demo_held_facts by (simp_all add: demo_flying_def ring_inv_def)
  show ?thesis
    using owner_wait_timeout_is_zero[OF o, where cb = read_next and env = demo_wait_env and timeout_ms = 100] r c
    by (simp add: demo_wait_env_def demo_quiet_def)
qed

theorem run_stops_witness:
  "\<exists>s'. aura_run read_next (replicate 101 (demo_wait_env, True)) (demo_etls, demo_reg) = Some s' \<and> \<not> running (ev_engine s')"
  using run_stops[of 0 "replicate 101 (demo_wait_env, True)" read_next "(demo_etls, demo_reg)"] demo_answered by simp


section \<open>Draining from a thread that owns a ring\<close>

text \<open>The state in which a drain by an owner makes no progress: the owned ring \<open>i\<close> is idle, ring \<open>j\<close> is not.\<close>

definition foreign_work :: "nat \<Rightarrow> nat \<Rightarrow> event_state \<Rightarrow> bool" where
  "foreign_work i j s \<longleftrightarrow> i \<noteq> j \<and> j < nrings s \<and> own_ring s = Some i \<and>
     ring_initialized (rings (ev_engine s) ! i) \<and> pending_count (rings (ev_engine s) ! i) = 0 \<and>
     pending_count (rings (ev_engine s) ! j) > 0"

definition own_view where
  "own_view s = (tls_engine (fst s), tls_owned_ring (fst s), ring_select (ev_engine s), eng_id (ev_engine s), nrings s)"

lemma own_ring_view: "nrings s \<noteq> 1 \<Longrightarrow> own_view s' = own_view s \<Longrightarrow> own_ring s' = own_ring s"
  by (simp add: own_ring_def own_view_def points_into_def Let_def split: option.split)

lemma own_view_frame:
  "wait_frame (ev_engine s') = wait_frame (ev_engine s) \<Longrightarrow> tls_engine (fst s') = tls_engine (fst s) \<Longrightarrow>
   tls_owned_ring (fst s') = tls_owned_ring (fst s) \<Longrightarrow> own_view s' = own_view s"
  by (simp add: own_view_def wait_frame_def loop_frame_def)

lemma visit_own_view:
  assumes "visit_own_ring cb rr i s = (n, s')"
  shows "own_view s' = own_view s \<and> (\<forall>j. j \<noteq> i \<longrightarrow> rings (ev_engine s') ! j = rings (ev_engine s) ! j)"
proof -
  define s1 where "s1 = (if single_thread (rings (ev_engine s) ! i) then flush_ring_fast rr i s else snd (flush_ring_locked rr i s))"
  have tl: "tls_engine (fst (put_ring k x u)) = tls_engine (fst u) \<and> tls_owned_ring (fst (put_ring k x u)) = tls_owned_ring (fst u)" for k x u
    by (simp add: put_ring_def)
  have t1: "tls_engine (fst s1) = tls_engine (fst s)" "tls_owned_ring (fst s1) = tls_owned_ring (fst s)"
    by (simp_all add: s1_def flush_ring_fast_def flush_ring_locked_def flush_held_ring_def flush_ring_checked_def
        case_prod_beta Let_def tl)
  obtain c where c: "rings (ev_engine (snd (flush_ring_locked rr i s))) = (rings (ev_engine s))[i := c]"
    using flush_locked_rings by blast
  have r1: "j \<noteq> i \<Longrightarrow> rings (ev_engine s1) ! j = rings (ev_engine s) ! j" for j
    by (simp add: s1_def c flush_ring_fast_def case_prod_beta rings_put)
  have w1: "wait_frame (ev_engine s1) = wait_frame (ev_engine s)" by (simp add: s1_def)
  define s2 where "s2 = snd (poll_ring cb rr i s1)"
  have s2: "tls_engine (fst s2) = tls_engine (fst s)" "tls_owned_ring (fst s2) = tls_owned_ring (fst s)"
    "j \<noteq> i \<Longrightarrow> rings (ev_engine s2) ! j = rings (ev_engine s) ! j" "wait_frame (ev_engine s2) = wait_frame (ev_engine s)" for j
    using t1 r1 w1 by (simp_all add: s2_def poll_ring_def case_prod_beta tl rings_put)
  have "s' = s2 \<or> s' = snd (try_finalize s2)"
    using assms by (auto simp: visit_own_ring_def s1_def[symmetric] s2_def Let_def case_prod_beta split: if_splits)
  moreover have "fst (snd (try_finalize s2)) = fst s2" by (simp add: try_finalize_def case_prod_beta)
  ultimately show ?thesis using s2 own_view_frame[of s' s] rings_try_finalize[of s2] by auto
qed

lemma foreign_wait:
  assumes "foreign_work i j s" "rr_cq (we_first env i) = []" "rr_arrivals (we_first env i) = []"
  shows "\<exists>s'. aura_wait cb env tmo s = Some (Inr 0, s') \<and> foreign_work i j s'"
proof -
  obtain n s1 where v: "visit_own_ring cb (we_first env i) i s = (n, s1)" by (rule prod.exhaust)
  have s: "own_ring s = Some i" "i < nrings s" "j < nrings s" "i \<noteq> j" "pending_count (rings (ev_engine s) ! i) = 0"
    "ring_initialized (rings (ev_engine s) ! i)" "pending_count (rings (ev_engine s) ! j) > 0"
    using assms(1) own_ring_lt[of s i] by (auto simp: foreign_work_def)
  note q = visit_nothing[OF s(2) assms(2,3) v] and w = visit_own_view[OF v]
  have n1: "nrings s1 = nrings s" by (rule frame_own[OF v])
  have o: "own_ring s1 = Some i" using own_ring_view[of s s1] w s by auto
  have "wait_ring cb (we_ring env) tmo i s1 = Some (Inr 0, s1)"
    using q s(2,5,6) put_ring_same[of i s1] n1 by (simp add: wait_ring_def ring_wait_def)
  then show ?thesis using s v q w o n1 by (auto simp: aura_wait_def foreign_work_def)
qed

lemma foreign_finalize: "foreign_work i j s \<Longrightarrow> foreign_work i j (snd (try_finalize s))"
proof -
  assume f: "foreign_work i j s"
  have "own_view (snd (try_finalize s)) = own_view s"
    using own_view_frame[OF frame_steps(6), of s] by (simp add: try_finalize_def case_prod_beta)
  moreover have "nrings s \<noteq> 1" using f own_ring_lt[of s i] by (auto simp: foreign_work_def)
  ultimately have "own_ring (snd (try_finalize s)) = own_ring s" using own_ring_view by blast
  then show ?thesis using f by (simp add: foreign_work_def rings_try_finalize)
qed


definition demo_two_owners :: event_state where
  "demo_two_owners = (demo_etls\<lparr>tls_engine := Some 1, tls_owned_ring := Some (1, 0)\<rparr>,
     \<lparr>rs_engine = demo_engine AURA_SELECT_THREAD_LOCAL [demo_owned, demo_flying\<lparr>single_thread := True\<rparr>],
      k_buffers = [None, None], k_files = [None, None]\<rparr>)"


end
