(* ===== verification/Engine_Lifecycle.thy ===== *)
theory Engine_Lifecycle
  imports Event_Invariants Buffer_Pool
begin

text \<open>
  The life of an engine in \<^verbatim>\<open>src/engine/src/aura.c\<close>: options and their validation, creation in five
  stages with their cleanup, the tick of the controllers, cancellation, and destruction in four
  phases; what creation establishes and what destruction leaves.
\<close>

section \<open>Options\<close>

text \<open>
  The options structure. Its size is 88 bytes: the six reserved words start at byte 60 and end at
  byte 84, and four bytes of padding follow, which are \<open>opt_padding\<close> here.
\<close>

record aura_options =
  opt_struct_size :: nat
  opt_queue_depth :: int
  opt_ring_count :: int
  opt_initial_in_flight :: int
  opt_min_in_flight :: int
  opt_max_p99_latency_ms :: real
  opt_buffer_alignment :: nat
  opt_disable_adaptive :: bool
  opt_enable_sqpoll :: bool
  opt_sqpoll_idle_ms :: int
  opt_ring_select :: aura_ring_select
  opt_single_thread :: bool
  opt_batch_threshold :: int
  opt_reserved :: "u32 list"
  opt_padding :: u32

abbreviation SIZEOF_OPTIONS :: nat where "SIZEOF_OPTIONS \<equiv> 88"
abbreviation OFFSETOF_RESERVED :: nat where "OFFSETOF_RESERVED \<equiv> 60"
abbreviation DEFAULT_QUEUE_DEPTH :: int where "DEFAULT_QUEUE_DEPTH \<equiv> 1024"
abbreviation AURA_MAX_RINGS :: int where "AURA_MAX_RINGS \<equiv> 1024"

text \<open>\<open>page_size\<close> is the value of \<open>BUFFER_ALIGNMENT\<close>; clearing the structure clears its padding.\<close>

definition aura_options_init :: "nat \<Rightarrow> aura_options" where
  "aura_options_init page_size =
     \<lparr>opt_struct_size = SIZEOF_OPTIONS, opt_queue_depth = DEFAULT_QUEUE_DEPTH, opt_ring_count = 0,
      opt_initial_in_flight = 0, opt_min_in_flight = 4, opt_max_p99_latency_ms = 0,
      opt_buffer_alignment = page_size, opt_disable_adaptive = False, opt_enable_sqpoll = False,
      opt_sqpoll_idle_ms = 1000, opt_ring_select = AURA_SELECT_ADAPTIVE, opt_single_thread = False,
      opt_batch_threshold = -1, opt_reserved = replicate 6 0, opt_padding = 0\<rparr>"

text \<open>The loop over the reserved words counts them from the structure's size.\<close>

definition reserved_words :: "aura_options \<Rightarrow> u32 list" where
  "reserved_words opt =
     (if opt_struct_size opt > OFFSETOF_RESERVED
      then take ((opt_struct_size opt - OFFSETOF_RESERVED) div 4) (opt_reserved opt @ [opt_padding opt]) else [])"

definition options_error :: "aura_options \<Rightarrow> bool" where
  "options_error opt \<longleftrightarrow>
     opt_struct_size opt = 0 \<or> opt_struct_size opt > SIZEOF_OPTIONS \<or>
     list_ex (\<lambda>r. r \<noteq> 0) (reserved_words opt) \<or>
     opt_queue_depth opt < 0 \<or> opt_queue_depth opt > 32768 \<or> (opt_queue_depth opt > 0 \<and> opt_queue_depth opt < 4) \<or>
     (opt_buffer_alignment opt > 0 \<and> and (opt_buffer_alignment opt) (opt_buffer_alignment opt - 1) \<noteq> 0) \<or>
     opt_ring_count opt < 0 \<or> opt_ring_count opt > AURA_MAX_RINGS \<or>
     (let qdepth = (if opt_queue_depth opt > 0 then opt_queue_depth opt else DEFAULT_QUEUE_DEPTH);
          effective_min = (if opt_min_in_flight opt > 0 then opt_min_in_flight opt else 4)
      in (opt_min_in_flight opt \<noteq> 0 \<and> (opt_min_in_flight opt < 1 \<or> opt_min_in_flight opt > qdepth)) \<or>
         (opt_initial_in_flight opt \<noteq> 0 \<and>
            (opt_initial_in_flight opt < effective_min \<or> opt_initial_in_flight opt > qdepth)))"

section \<open>Creation\<close>

text \<open>
  What creation asks of the system: memory and the lock for the engine, its address (from which the
  first ring of the rotation is taken), the buffer pool's and the size map's memory, one set of
  answers per ring, the event descriptor and its registrations, and the thread.
\<close>

record ring_setup =
  su_mutex1 :: int
  su_mutex2 :: int
  su_kinit :: "nat \<Rightarrow> io_uring_params \<Rightarrow> int"
  su_fd :: int
  su_have_requests :: bool
  su_have_stack :: bool
  su_now :: int

record create_env =
  ce_page_size :: nat
  ce_cpus :: int
  ce_alloc_engine :: bool
  ce_address :: u64
  ce_rwlock :: int
  ce_have_shards :: bool
  ce_shard_ok :: "nat \<Rightarrow> bool"
  ce_map_entries :: bool
  ce_map_mutex :: bool
  ce_alloc_rings :: bool
  ce_ring :: "nat \<Rightarrow> ring_setup"
  ce_eventfd :: int
  ce_reg_eventfd :: "nat \<Rightarrow> int"
  ce_pthread :: int

definition get_cpu_count :: "int \<Rightarrow> int" where
  "get_cpu_count n = (let n1 = (if n < 1 then 1 else n) in if n1 > AURA_MAX_RINGS then AURA_MAX_RINGS else n1)"

definition validate_and_init_engine_core :: "create_env \<Rightarrow> nat \<Rightarrow> aura_options \<Rightarrow> int + aura_engine" where
  "validate_and_init_engine_core env eid opt =
     (if options_error opt then Inl EINVAL
      else if \<not> ce_alloc_engine env then Inl ENOMEM
      else if ce_rwlock env \<noteq> 0 then Inl (ce_rwlock env)
      else Inr \<lparr>eng_id = eid, rings = [],
        eng_queue_depth = (if opt_queue_depth opt > 0 then opt_queue_depth opt else DEFAULT_QUEUE_DEPTH),
        next_ring = ucast (drop_bit 6 (ce_address env)), avg_ring_pending = 0, eng_shutting_down = False,
        ring_select = opt_ring_select opt, eng_single_thread = False, fatal_submit_errno = 0,
        buffers_registered = False, files_registered = False, buffers_unreg_pending = False,
        files_unreg_pending = False, reg_readers = 0, reg_writers = 0, registered_buffers = [],
        registered_files = [], running = False, stop_requested = False, tick_running = False,
        adaptive_enabled = (\<not> opt_disable_adaptive opt), eng_sqpoll_enabled = False, event_fd = -1,
        eventfd_registered = False, eventfd_value = 0,
        buffer_alignment = (if opt_buffer_alignment opt > 0 then opt_buffer_alignment opt else ce_page_size env),
        adaptive_spills = 0\<rparr>)"

text \<open>The buffer pool's index in the world of pools, and the size map.\<close>

definition init_engine_buffer_pool ::
    "create_env \<Rightarrow> nat \<Rightarrow> aura_engine \<Rightarrow> pool_world \<Rightarrow> (int + nat \<times> buf_size_map) \<times> pool_world" where
  "init_engine_buffer_pool env thr e w =
     (case buffer_pool_init (ce_cpus env) (ce_have_shards env) (ce_shard_ok env) (buffer_alignment e) w of
        (Inl err, w1) \<Rightarrow> (Inl err, w1)
      | (Inr p, w1) \<Rightarrow>
          (case buf_size_map_init (ce_map_entries env) (ce_map_mutex env) of
             None \<Rightarrow> (Inl ENOMEM, buffer_pool_destroy thr p w1)
           | Some m \<Rightarrow> (Inr (p, m), w1)))"

text \<open>The settings applied to a ring after its initialisation (lines 1177 to 1209).\<close>

definition tune_controller :: "aura_options \<Rightarrow> adaptive_controller \<Rightarrow> adaptive_controller" where
  "tune_controller opt c0 =
     (let c1 = (if opt_initial_in_flight opt > 0 then c0\<lparr>aimd_initial_in_flight := opt_initial_in_flight opt\<rparr> else c0);
          c2 = (if opt_min_in_flight opt > 0 then c1\<lparr>min_in_flight := opt_min_in_flight opt\<rparr> else c1);
          c3 = (if opt_max_p99_latency_ms opt > 0 then c2\<lparr>max_p99_ms := opt_max_p99_latency_ms opt\<rparr> else c2)
      in if opt_batch_threshold opt = 0 then c3\<lparr>current_batch_threshold := INT_MAX, batch_threshold_fixed := True\<rparr>
         else if opt_batch_threshold opt > 0
         then c3\<lparr>current_batch_threshold := opt_batch_threshold opt, batch_threshold_fixed := True\<rparr>
         else c3)"

definition configure_ring :: "aura_options \<Rightarrow> nat \<Rightarrow> ring_ctx \<Rightarrow> ring_ctx" where
  "configure_ring opt i c =
     c\<lparr>ring_idx := int i, single_thread := opt_single_thread opt, adaptive := tune_controller opt (adaptive c)\<rparr>"

definition ring_options_for :: "aura_options \<Rightarrow> ring_options" where
  "ring_options_for opt =
     (let thread_local_mode = (opt_ring_select opt = AURA_SELECT_THREAD_LOCAL)
      in \<lparr>enable_sqpoll = opt_enable_sqpoll opt,
          sqpoll_idle_ms = (if opt_sqpoll_idle_ms opt > 0 then opt_sqpoll_idle_ms opt else 1000),
          enable_single_issuer = thread_local_mode, start_disabled = thread_local_mode\<rparr>)"

definition init_ring :: "ring_setup \<Rightarrow> int \<Rightarrow> nat \<Rightarrow> aura_options \<Rightarrow> int + ring_ctx" where
  "init_ring su depth i opt =
     ring_init (su_mutex1 su) (su_mutex2 su) (su_kinit su) (su_fd su) (su_have_requests su) (su_have_stack su)
       (su_now su) depth (int i) (Some (ring_options_for opt))"

text \<open>
  Rings \<open>i\<close> to \<open>i + n - 1\<close> are left to do. On a failure the rings made so far are destroyed, nothing
  having been submitted to them, and the array is freed.
\<close>

fun init_rings :: "(nat \<Rightarrow> ring_setup) \<Rightarrow> int \<Rightarrow> aura_options \<Rightarrow> nat \<Rightarrow> nat \<Rightarrow> ring_ctx list \<Rightarrow> int + ring_ctx list" where
  "init_rings su depth opt 0 i cs = Inr cs"
| "init_rings su depth opt (Suc n) i cs =
     (case init_ring (su i) depth i opt of
        Inl err \<Rightarrow> Inl err
      | Inr c \<Rightarrow> init_rings su depth opt n (i + 1) (cs @ [configure_ring opt i c]))"

definition init_engine_rings :: "create_env \<Rightarrow> aura_options \<Rightarrow> aura_engine \<Rightarrow> int + aura_engine" where
  "init_engine_rings env opt e =
     (let n = (if opt_ring_count opt > 0 then opt_ring_count opt else get_cpu_count (ce_cpus env))
      in if \<not> ce_alloc_rings env then Inl ENOMEM
         else case init_rings (ce_ring env) (eng_queue_depth e) opt (nat n) 0 [] of
                Inl err \<Rightarrow> Inl err
              | Inr cs \<Rightarrow> Inr (e\<lparr>rings := cs, eng_sqpoll_enabled := list_ex sqpoll_enabled cs,
                            eng_single_thread := opt_single_thread opt\<rparr>))"

text \<open>The list gives the event descriptor each ring signals.\<close>

definition register_eventfd_with_rings ::
    "create_env \<Rightarrow> aura_engine \<Rightarrow> (int + aura_engine) \<times> int option list" where
  "register_eventfd_with_rings env e =
     (let none = replicate (ring_count e) None
      in if ce_eventfd env < 0 then (Inl (- ce_eventfd env), none)
         else if ring_select e = AURA_SELECT_THREAD_LOCAL
         then (Inr (e\<lparr>event_fd := ce_eventfd env, eventfd_registered := False\<rparr>), none)
         else case register_eventfd_rings (ce_reg_eventfd env) (ce_eventfd env) (ring_count e) 0 none of
                (Inl err, ks) \<Rightarrow> (Inl err, ks)
              | (Inr _, ks) \<Rightarrow> (Inr (e\<lparr>event_fd := ce_eventfd env, eventfd_registered := True\<rparr>), ks))"

definition start_tick_thread :: "create_env \<Rightarrow> aura_engine \<Rightarrow> int + aura_engine" where
  "start_tick_thread env e =
     (if \<not> adaptive_enabled e then Inr e
      else if ce_pthread env \<noteq> 0 then Inl (ce_pthread env) else Inr (e\<lparr>tick_running := True\<rparr>))"

record engine_handle =
  h_engine :: aura_engine
  h_pool :: nat
  h_size_map :: buf_size_map
  h_eventfds :: "int option list"

definition aura_create_with_options ::
    "create_env \<Rightarrow> nat \<Rightarrow> nat \<Rightarrow> aura_options option \<Rightarrow> pool_world \<Rightarrow> (int + engine_handle) \<times> pool_world" where
  "aura_create_with_options env eid thr opts w =
     (let opt = (case opts of None \<Rightarrow> aura_options_init (ce_page_size env) | Some opt \<Rightarrow> opt)
      in case validate_and_init_engine_core env eid opt of
           Inl err \<Rightarrow> (Inl err, w)
         | Inr e0 \<Rightarrow>
             (case init_engine_buffer_pool env thr e0 w of
                (Inl err, w1) \<Rightarrow> (Inl err, w1)
              | (Inr (p, m), w1) \<Rightarrow>
                  (case init_engine_rings env opt e0 of
                     Inl err \<Rightarrow> (Inl err, buffer_pool_destroy thr p w1)
                   | Inr e1 \<Rightarrow>
                       (case register_eventfd_with_rings env e1 of
                          (Inl err, ks) \<Rightarrow> (Inl err, buffer_pool_destroy thr p w1)
                        | (Inr e2, ks) \<Rightarrow>
                            (case start_tick_thread env e2 of
                               Inl err \<Rightarrow> (Inl err, buffer_pool_destroy thr p w1)
                             | Inr e3 \<Rightarrow>
                                 (Inr \<lparr>h_engine = e3, h_pool = p, h_size_map = m, h_eventfds = ks\<rparr>, w1))))))"

definition aura_create :: "create_env \<Rightarrow> nat \<Rightarrow> nat \<Rightarrow> pool_world \<Rightarrow> (int + engine_handle) \<times> pool_world" where
  "aura_create env eid thr w = aura_create_with_options env eid thr None w"

section \<open>The tick thread\<close>

text \<open>One tick of every ring's controller (lines 968 to 983); \<open>clk i\<close> are the clock readings for ring \<open>i\<close>.\<close>

definition tick_ring :: "int \<times> int \<times> int \<Rightarrow> ring_ctx \<Rightarrow> ring_ctx" where
  "tick_ring clk c =
     (let pending = pending_count c; (now, t_mid, t_end) = clk;
          c1 = c\<lparr>adaptive := fst (adaptive_tick now t_mid t_end (adaptive c) pending)\<rparr>
      in if pending > peak_pending_count c1 then c1\<lparr>peak_pending_count := pending\<rparr> else c1)"

definition tick_rings :: "(nat \<Rightarrow> int \<times> int \<times> int) \<Rightarrow> aura_engine \<Rightarrow> aura_engine" where
  "tick_rings clk e =
     (let cs = map (\<lambda>i. tick_ring (clk i) (rings e ! i)) [0..<ring_count e];
          total_pending = sum_list (map pending_count (rings e))
      in if ring_count e > 0
         then e\<lparr>rings := cs, avg_ring_pending := c_div total_pending (int (ring_count e))\<rparr>
         else e\<lparr>rings := cs\<rparr>)"

section \<open>What creation establishes\<close>

text \<open>A ring nobody is using: consistent, unlocked, no slot checked out, exact use counters.\<close>

definition quiet_ring :: "ring_ctx \<Rightarrow> bool" where
  "quiet_ring c \<longleftrightarrow> ring_inv 0 c \<and> ring_initialized c \<and> held_slots c = {} \<and> lock c = 0 \<and> cq_lock c = 0 \<and>
     st_users c = 0 \<and> st_cq_users c = 0 \<and> uses_ok c"

definition ring_depth_ok :: "int \<Rightarrow> ring_ctx \<Rightarrow> bool" where
  "ring_depth_ok depth c \<longleftrightarrow> ctrl_wf (adaptive c) \<and> max_queue_depth (adaptive c) = depth \<and> max_requests c = nat depth"

lemma quiet_settled: "settled c d \<Longrightarrow> quiet_ring c \<Longrightarrow> quiet_ring d"
  by (simp add: settled_def quiet_ring_def) (simp add: ring_frame_def)

lemma options_ok:
  assumes "\<not> options_error opt"
  defines "d \<equiv> (if opt_queue_depth opt > 0 then opt_queue_depth opt else DEFAULT_QUEUE_DEPTH)"
  shows "4 \<le> d" "d \<le> 32768" "0 \<le> opt_min_in_flight opt" "opt_min_in_flight opt \<le> d"
    "0 \<le> opt_initial_in_flight opt" "opt_initial_in_flight opt \<le> d"
    "0 \<le> opt_ring_count opt" "opt_ring_count opt \<le> AURA_MAX_RINGS"
  using assms by (auto simp: options_error_def Let_def split: if_splits)

lemma tune_wf:
  assumes "ctrl_wf c" "\<not> options_error opt"
    "max_queue_depth c = (if opt_queue_depth opt > 0 then opt_queue_depth opt else DEFAULT_QUEUE_DEPTH)"
  shows "ctrl_wf (tune_controller opt c)" "max_queue_depth (tune_controller opt c) = max_queue_depth c"
proof -
  note o = options_ok[OF assms(2)]
  show "ctrl_wf (tune_controller opt c)"
    using assms(1,3) o by (simp add: tune_controller_def Let_def ctrl_wf_defs)
  show "max_queue_depth (tune_controller opt c) = max_queue_depth c"
    by (simp add: tune_controller_def Let_def)
qed

lemma ring_init_fields:
  assumes "ring_init m1 m2 kinit fd hr hs now qd cpu opt = Inr c"
  shows "st_users c = 0" "st_cq_users c = 0" "fixed_buf_inflight c = 0" "fixed_file_inflight c = 0"
    "(case opt of None \<Rightarrow> True | Some p \<Rightarrow> \<not> start_disabled p) \<Longrightarrow> \<not> needs_enable c" "owner_count c = 0"
proof -
  from assms obtain ret sqp si ctrl where
    l: "queue_init_ladder kinit opt = (ret, sqp, si)" and a: "adaptive_init now qd (initial_inflight_for qd) 4 = Some ctrl"
    by (cases "queue_init_ladder kinit opt") (auto simp: ring_init_def Let_def split: if_splits option.splits)
  then have "st_users c = 0 \<and> st_cq_users c = 0 \<and> fixed_buf_inflight c = 0 \<and> fixed_file_inflight c = 0 \<and> owner_count c = 0 \<and>
      needs_enable c = (si \<and> (case opt of None \<Rightarrow> False | Some opt \<Rightarrow> start_disabled opt))"
    using assms by (auto simp: ring_init_def Let_def split: if_splits)
  then show "st_users c = 0" "st_cq_users c = 0" "fixed_buf_inflight c = 0" "fixed_file_inflight c = 0"
    "(case opt of None \<Rightarrow> True | Some p \<Rightarrow> \<not> start_disabled p) \<Longrightarrow> \<not> needs_enable c" "owner_count c = 0"
    by (auto split: option.splits)
qed

lemma configure_cong [simp]:
  "ring_inv k (configure_ring opt i c) = ring_inv k c" "held_slots (configure_ring opt i c) = held_slots c"
  "pending_slots (configure_ring opt i c) = pending_slots c"
  by (simp_all add: configure_ring_def ring_inv_def held_slots_def free_slots_def pending_slots_def slots_wf_def)

lemma configure_uses [simp]: "uses_ok (configure_ring opt i c) = uses_ok c"
  by (rule uses_cong) (simp_all add: configure_ring_def pending_slots_def)

lemma init_ring_ok:
  assumes "init_ring su depth i opt = Inr c" "\<not> options_error opt"
    "depth = (if opt_queue_depth opt > 0 then opt_queue_depth opt else DEFAULT_QUEUE_DEPTH)"
  shows "quiet_ring (configure_ring opt i c)" "ring_depth_ok depth (configure_ring opt i c)"
    "opt_ring_select opt \<noteq> AURA_SELECT_THREAD_LOCAL \<Longrightarrow> \<not> needs_enable (configure_ring opt i c)"
    "pending_count (configure_ring opt i c) = 0"
proof -
  have r: "ring_init (su_mutex1 su) (su_mutex2 su) (su_kinit su) (su_fd su) (su_have_requests su) (su_have_stack su)
       (su_now su) depth (int i) (Some (ring_options_for opt)) = Inr c"
    using assms(1) by (simp add: init_ring_def)
  note i = ring_init_inv[OF r] and f = ring_init_fields[OF r] and o = options_ok[OF assms(2), folded assms(3)]
  have w: "slots_wf c" using i(1) by (simp add: ring_inv_def)
  have m: "max_requests c = nat depth" "free_slots c = {..<max_requests c}" using i by simp_all
  then have h: "held_slots c = {}" "pending_slots c = {}" using slots_partition[OF w] by blast+
  then show "pending_count (configure_ring opt i c) = 0" using i(1) by (simp add: ring_inv_def configure_ring_def)
  have "uses_ok c" by (simp add: uses_ok_def buf_users_def file_users_def h f)
  then show "quiet_ring (configure_ring opt i c)"
    using i f h by (simp add: quiet_ring_def) (simp add: configure_ring_def)
  have a: "adaptive_init (su_now su) depth (initial_inflight_for depth) 4 = Some (adaptive c)" using i(8) .
  have "initial_inflight_for depth \<le> depth" using o(1) by (simp add: initial_inflight_for_def c_div_def Let_def)
  then have "ctrl_wf (adaptive c)" "max_queue_depth (adaptive c) = depth"
    using adaptive_init_wf[OF a] o(1) by auto
  then show "ring_depth_ok depth (configure_ring opt i c)"
    using tune_wf[OF _ assms(2), of "adaptive c"] assms(3) m by (simp add: ring_depth_ok_def configure_ring_def)
  show "opt_ring_select opt \<noteq> AURA_SELECT_THREAD_LOCAL \<Longrightarrow> \<not> needs_enable (configure_ring opt i c)"
    using f(5) by (simp add: configure_ring_def ring_options_for_def Let_def)
qed

lemma init_rings_ok:
  assumes "\<not> options_error opt" "depth = (if opt_queue_depth opt > 0 then opt_queue_depth opt else DEFAULT_QUEUE_DEPTH)"
  shows "init_rings su depth opt n i cs = Inr ds \<Longrightarrow> length cs = i \<Longrightarrow>
    \<forall>j < i. quiet_ring (cs ! j) \<and> ring_depth_ok depth (cs ! j) \<and> pending_count (cs ! j) = 0 \<and> ring_idx (cs ! j) = int j \<and>
      single_thread (cs ! j) = opt_single_thread opt \<and>
      (opt_ring_select opt \<noteq> AURA_SELECT_THREAD_LOCAL \<longrightarrow> \<not> needs_enable (cs ! j)) \<Longrightarrow>
    length ds = i + n \<and> (\<forall>j < i + n. quiet_ring (ds ! j) \<and> ring_depth_ok depth (ds ! j) \<and> pending_count (ds ! j) = 0 \<and> ring_idx (ds ! j) = int j \<and>
      single_thread (ds ! j) = opt_single_thread opt \<and>
      (opt_ring_select opt \<noteq> AURA_SELECT_THREAD_LOCAL \<longrightarrow> \<not> needs_enable (ds ! j)))"
proof (induction n arbitrary: i cs)
  case (Suc n)
  obtain c where c: "init_ring (su i) depth i opt = Inr c" "init_rings su depth opt n (i + 1) (cs @ [configure_ring opt i c]) = Inr ds"
    using Suc.prems(1) by (auto split: sum.splits)
  note r = init_ring_ok[OF c(1) assms]
  have "ring_idx (configure_ring opt i c) = int i" "single_thread (configure_ring opt i c) = opt_single_thread opt"
    by (simp_all add: configure_ring_def)
  then show ?case using Suc.IH[OF c(2)] Suc.prems(2,3) r by (auto simp: nth_append less_Suc_eq)
qed simp

lemma create_cases:
  assumes "aura_create_with_options env eid thr (Some opt) w = (Inr h, w')"
  obtains e0 e1 where "validate_and_init_engine_core env eid opt = Inr e0" "init_engine_rings env opt e0 = Inr e1"
    "rings (h_engine h) = rings e1" "engine_frame (h_engine h) = engine_frame e1" "eng_queue_depth (h_engine h) = eng_queue_depth e1"
    "fatal_submit_errno (h_engine h) = fatal_submit_errno e1"
proof -
  obtain e0 where e0: "validate_and_init_engine_core env eid opt = Inr e0"
    using assms by (auto simp: aura_create_with_options_def Let_def split: sum.splits)
  obtain p m w1 where pm: "init_engine_buffer_pool env thr e0 w = (Inr (p, m), w1)"
    using assms e0 by (auto simp: aura_create_with_options_def Let_def split: sum.splits prod.splits)
  obtain e1 where e1: "init_engine_rings env opt e0 = Inr e1"
    using assms e0 pm by (auto simp: aura_create_with_options_def Let_def split: sum.splits prod.splits)
  obtain e2 ks where e2: "register_eventfd_with_rings env e1 = (Inr e2, ks)"
    using assms e0 pm e1 by (auto simp: aura_create_with_options_def Let_def split: sum.splits prod.splits)
  obtain e3 where e3: "start_tick_thread env e2 = Inr e3"
    using assms e0 pm e1 e2 by (auto simp: aura_create_with_options_def Let_def split: sum.splits prod.splits)
  have h: "h_engine h = e3" using assms e0 pm e1 e2 e3 by (auto simp: aura_create_with_options_def Let_def)
  have a: "rings e3 = rings e2" "engine_frame e3 = engine_frame e2" "eng_queue_depth e3 = eng_queue_depth e2"
    "fatal_submit_errno e3 = fatal_submit_errno e2"
    using e3 by (auto simp: start_tick_thread_def engine_frame_def split: if_splits)
  have b: "rings e2 = rings e1" "engine_frame e2 = engine_frame e1" "eng_queue_depth e2 = eng_queue_depth e1"
    "fatal_submit_errno e2 = fatal_submit_errno e1"
    using e2 by (auto simp: register_eventfd_with_rings_def engine_frame_def Let_def split: if_splits prod.splits sum.splits)
  show thesis using that[OF e0 e1] h a b by simp
qed

lemma get_cpu_count_bounds: "1 \<le> get_cpu_count n" "get_cpu_count n \<le> AURA_MAX_RINGS"
  by (simp_all add: get_cpu_count_def Let_def)

lemma created_wellformed:
  assumes "aura_create_with_options env eid thr (Some opt) w = (Inr h, w')"
  shows "let e = h_engine h in
    1 \<le> ring_count e \<and> ring_count e \<le> 1024 \<and> 4 \<le> eng_queue_depth e \<and> eng_queue_depth e \<le> 32768 \<and>
    (\<forall>i < ring_count e. quiet_ring (rings e ! i) \<and> ring_depth_ok (eng_queue_depth e) (rings e ! i) \<and>
       pending_count (rings e ! i) = 0 \<and> ring_idx (rings e ! i) = int i) \<and>
    ring_select e = opt_ring_select opt \<and> eng_id e = eid \<and> \<not> eng_shutting_down e \<and>
    reg_readers e = 0 \<and> reg_writers e = 0 \<and> fatal_submit_errno e = 0 \<and>
    reg_reach \<lparr>rs_engine = e, k_buffers = replicate (ring_count e) None, k_files = replicate (ring_count e) None\<rparr> \<and>
    (opt_ring_select opt \<noteq> AURA_SELECT_THREAD_LOCAL \<and> \<not> opt_single_thread opt \<longrightarrow> shared_engine e)"
proof -
  obtain e0 e1 where e: "validate_and_init_engine_core env eid opt = Inr e0" "init_engine_rings env opt e0 = Inr e1"
    "rings (h_engine h) = rings e1" "engine_frame (h_engine h) = engine_frame e1"
    "eng_queue_depth (h_engine h) = eng_queue_depth e1" "fatal_submit_errno (h_engine h) = fatal_submit_errno e1"
    by (rule create_cases[OF assms])
  define d where "d = (if opt_queue_depth opt > 0 then opt_queue_depth opt else DEFAULT_QUEUE_DEPTH)"
  define n where "n = (if opt_ring_count opt > 0 then opt_ring_count opt else get_cpu_count (ce_cpus env))"
  have ok: "\<not> options_error opt" using e(1) by (auto simp: validate_and_init_engine_core_def split: if_splits)
  note o = options_ok[OF ok, folded d_def]
  have e0: "eng_queue_depth e0 = d" "engine_frame e0 = (eid, opt_ring_select opt, False, False, 0, 0, False, False, False, False, [], [])"
    "fatal_submit_errno e0 = 0"
    using e(1) by (auto simp: validate_and_init_engine_core_def engine_frame_def d_def split: if_splits)
  obtain cs where cs: "init_rings (ce_ring env) d opt (nat n) 0 [] = Inr cs"
      "e1 = e0\<lparr>rings := cs, eng_sqpoll_enabled := list_ex sqpoll_enabled cs, eng_single_thread := opt_single_thread opt\<rparr>"
    using e(2) e0(1) by (auto simp: init_engine_rings_def n_def[symmetric] Let_def split: if_splits sum.splits)
  have r: "length cs = nat n" "\<forall>j < nat n. quiet_ring (cs ! j) \<and> ring_depth_ok d (cs ! j) \<and> pending_count (cs ! j) = 0 \<and> ring_idx (cs ! j) = int j \<and>
      single_thread (cs ! j) = opt_single_thread opt \<and>
      (opt_ring_select opt \<noteq> AURA_SELECT_THREAD_LOCAL \<longrightarrow> \<not> needs_enable (cs ! j))"
    using init_rings_ok[OF ok d_def cs(1)] by auto
  have n: "1 \<le> n" "n \<le> 1024" using o(7,8) get_cpu_count_bounds[of "ce_cpus env"] by (auto simp: n_def)
  let ?e = "h_engine h"
  have f: "rings ?e = cs" "eng_queue_depth ?e = d" "fatal_submit_errno ?e = 0"
    "engine_frame ?e = (eid, opt_ring_select opt, opt_single_thread opt, False, 0, 0, False, False, False, False, [], [])"
    using e(3-6) e0 cs(2) by (simp_all add: engine_frame_def)
  have rr: "reg_reach \<lparr>rs_engine = ?e, k_buffers = replicate (ring_count ?e) None, k_files = replicate (ring_count ?e) None\<rparr>"
    by (rule reg_reach.start) (use f(4) in \<open>simp_all add: engine_frame_def\<close>)
  have sh: "shared_engine ?e" if "opt_ring_select opt \<noteq> AURA_SELECT_THREAD_LOCAL" "\<not> opt_single_thread opt"
    using that r n f(1,4) by (auto simp: shared_engine_def shared_ring_def in_set_conv_nth quiet_ring_def engine_frame_def)
  have "1 \<le> nat n" "nat n \<le> 1024" using n by linarith+
  then show ?thesis using f r o(1,2) rr sh by (simp add: Let_def engine_frame_def)
qed

text \<open>
  Claim C14. An engine that creation hands out is well formed, for every accepted set of options and
  whatever the system answers along the way: it has between 1 and 1024 rings with consecutive
  indices, each of the engine's queue depth (4 to 32768) and with as many request slots; every ring
  has exact slot accounting, holds no lock, has nothing checked out or in flight and a well-formed
  controller;
  nothing is registered and no error is latched.
\<close>

theorem created_engine_wellformed:
  assumes "aura_create_with_options env eid thr (Some opt) w = (Inr h, w')"
  shows "let e = h_engine h in
    1 \<le> ring_count e \<and> ring_count e \<le> 1024 \<and> 4 \<le> eng_queue_depth e \<and> eng_queue_depth e \<le> 32768 \<and>
    (\<forall>i < ring_count e. quiet_ring (rings e ! i) \<and> ring_depth_ok (eng_queue_depth e) (rings e ! i) \<and>
       pending_count (rings e ! i) = 0 \<and> ring_idx (rings e ! i) = int i) \<and>
    ring_select e = opt_ring_select opt \<and> eng_id e = eid \<and> \<not> eng_shutting_down e \<and>
    reg_readers e = 0 \<and> reg_writers e = 0 \<and> fatal_submit_errno e = 0 \<and>
    reg_reach \<lparr>rs_engine = e, k_buffers = replicate (ring_count e) None, k_files = replicate (ring_count e) None\<rparr> \<and>
    (opt_ring_select opt \<noteq> AURA_SELECT_THREAD_LOCAL \<and> \<not> opt_single_thread opt \<longrightarrow> shared_engine e)"
  by (rule created_wellformed[OF assms])

text \<open>
  The check of the reserved option words reads one word too many: an options structure of
  the current size whose fields are all acceptable and whose six reserved words are zero is
  refused if the padding after them is not zero, which a caller that fills in the structure without
  \<open>aura_options_init\<close> cannot control; with the padding zero it is accepted.
\<close>

theorem padding_rejects_options:
  assumes "opt_struct_size opt = 88" and "length (opt_reserved opt) = 6" and "\<forall>r \<in> set (opt_reserved opt). r = 0"
    and "\<not> options_error (opt\<lparr>opt_padding := 0\<rparr>)" and "ce_alloc_engine env" and "ce_rwlock env = 0" and "p \<noteq> 0"
  shows "(\<exists>e. validate_and_init_engine_core env eid (opt\<lparr>opt_padding := 0\<rparr>) = Inr e) \<and>
    aura_create_with_options env eid thr (Some (opt\<lparr>opt_padding := p\<rparr>)) w = (Inl EINVAL, w)"
proof -
  have "list_ex (\<lambda>r. r \<noteq> 0) (reserved_words (opt\<lparr>opt_padding := p\<rparr>))"
    using assms(1,2,7) by (simp add: reserved_words_def)
  then have "options_error (opt\<lparr>opt_padding := p\<rparr>)" by (simp add: options_error_def)
  then show ?thesis using assms(4-6) by (simp add: aura_create_with_options_def validate_and_init_engine_core_def)
qed

section \<open>Cancellation\<close>

text \<open>A cancel request in flight on a locked ring.\<close>

lemma cancel_lands:
  assumes "begun c j d" "uses_ok c \<longrightarrow> uses_ok d" "\<not> rq_uses_registered_buffer (requests d ! j)"
    "\<not> rq_uses_registered_file (requests d ! j)" "ring_submit_cancel h j target tr d = (Inr u, tr', d')"
  shows "locked c d'"
proof -
  have "j \<in> held_slots d" using assms(1) by (auto simp: begun_def)
  then have j: "j < length (requests d)" using assms(1) by (auto simp: begun_def ring_inv_def slots_wf_def held_slots_def)
  have "submits AURA_OP_CANCEL j tr d (Inr u, tr', d')" using submits_cancel[of j tr d h target] assms(5) by simp
  then obtain ts sc sqe where d': "d' = in_flight AURA_OP_CANCEL ts sc sqe j d" by (cases rule: submits.cases) auto
  have "flying c j ((requests d ! j)\<lparr>rq_op_type := AURA_OP_CANCEL, rq_submit_time_ns := ts, rq_pending := True\<rparr>)
      (in_flight AURA_OP_CANCEL ts sc sqe j (d\<lparr>fixed_buf_inflight := fixed_buf_inflight d\<rparr>))"
    by (rule in_flight_flying[OF assms(1) j assms(2)]) (simp add: assms(3))
  then show ?thesis using assms(4) d' by (simp add: flying_def landed_def)
qed

lemma cancel_settled:
  assumes "shared_engine e" "aura_cancel env rp t e = (r, t', e')"
  shows "settled_engine e e'"
proof -
  let ?i = "nat (rq_ring_idx (requests (rings e ! fst rp) ! snd rp))"
  define bad where "bad \<longleftrightarrow> eng_shutting_down e \<or> \<not> rq_pending (requests (rings e ! fst rp) ! snd rp) \<or>
    rq_ring_idx (requests (rings e ! fst rp) ! snd rp) < 0 \<or> rq_ring_idx (requests (rings e ! fst rp) ! snd rp) \<ge> int (ring_count e)"
  show ?thesis
  proof (cases bad)
    case True
    then have "e' = e" using assms(2) by (auto simp: aura_cancel_def bad_def Let_def split: if_splits)
    then show ?thesis by (simp add: settled_engine_refl[OF assms(1)])
  next
    case False
    let ?c = "rings e ! ?i"
    let ?d = "?c\<lparr>lock := lock ?c + 1\<rparr>"
    have i: "?i < ring_count e" using False by (auto simp: bad_def)
    have sr: "ring_inv 0 ?c" "\<not> single_thread ?c" using shared_rings[OF assms(1) i] by (simp_all add: shared_ring_def)
    have l: "ring_lock ?c = (False, ?d)" "locked ?c ?d" using shared_lock[OF sr(2)] locked_lock[OF sr(1)] by simp_all
    have *: "\<exists>x. locked ?c x \<and> engine_frame e' = engine_frame e \<and> rings e' = (rings e)[?i := ring_unlock False x]"
    proof (cases "ring_get_request ?d")
      case None
      then have "e' = set_ring ?i (ring_unlock False ?d) e"
        using assms(2) False l(1) by (simp add: aura_cancel_def bad_def Let_def)
      then show ?thesis using l(2) by (auto simp: set_ring_def engine_frame_def)
    next
      case (Some p)
      obtain j c1 where p: "p = (j, c1)" by (rule prod.exhaust)
      note g = get_request_begun[OF Some[unfolded p] l(2)]
      define f where "f = (\<lambda>q :: aura_request. q\<lparr>rq_ring_idx := ring_idx c1, rq_fd := -1, rq_original_fd := -1, rq_callback := 0, rq_user_data := (0::nat)\<rparr>)"
      define c2 where "c2 = upd_request j f c1"
      have k: "keeps_slot_state f" by (simp add: keeps_slot_state_def f_def)
      have b: "begun ?c j c2" unfolding c2_def by (rule upd_begun[OF g(1) k])
      have j: "j < length (requests c1)" using g(1) by (auto simp: begun_def ring_inv_def slots_wf_def held_slots_def)
      have u: "\<not> rq_uses_registered_buffer (requests c2 ! j)" "\<not> rq_uses_registered_file (requests c2 ! j)"
        using g(2) j by (simp_all add: c2_def f_def upd_request_def fresh_use_def)
      have uo: "uses_ok ?c \<longrightarrow> uses_ok c2"
        using g upd_held_uses[of 0 c1 j f] k by (simp add: c2_def fresh_use_def begun_def)
      obtain r1 tr c3 where s: "ring_submit_cancel (sv_have_sqe env) j (snd rp) (tl_ring t) c2 = (r1, tr, c3)" by (rule prod_cases3)
      have e': "e' = (case r1 of Inl err \<Rightarrow> set_ring ?i (ring_unlock False (ring_put_request c3 (int j))) e
          | Inr u \<Rightarrow> latch_flush_result (fst (ring_flush (sv_flush env) tr c3))
              (set_ring ?i (ring_unlock False (snd (snd (ring_flush (sv_flush env) tr c3)))) e))"
        using assms(2) False l(1) Some p s
        by (auto simp: aura_cancel_def bad_def Let_def c2_def f_def latch_flush_result_def case_prod_beta split: sum.splits if_splits)
      show ?thesis
      proof (cases r1)
        case (Inl err)
        have "submits AURA_OP_CANCEL j (tl_ring t) c2 (Inl err, tr, c3)" using submits_cancel[of j "tl_ring t" c2] s Inl by metis
        then have "c3 = c2" by (cases rule: submits.cases) auto
        then show ?thesis using begun_put[OF b uo] e' Inl by (auto simp: set_ring_def engine_frame_def)
      next
        case (Inr u)
        have "locked ?c c3" by (rule cancel_lands[OF b uo u s[unfolded Inr]])
        then have "locked ?c (snd (snd (ring_flush (sv_flush env) tr c3)))"
          using flush_locked[of "sv_flush env" tr c3] by (metis prod.collapse)
        then show ?thesis using e' Inr by (intro exI[of _ "snd (snd (ring_flush (sv_flush env) tr c3))"]) (simp add: set_ring_def engine_frame_def[of "_\<lparr>rings := _\<rparr>"], simp add: engine_frame_def)
      qed
    qed
    then show ?thesis using settled_set_ring[OF assms(1)] unlock_settled by blast
  qed
qed

section \<open>Destruction\<close>

definition destroy_phase_1_shutdown :: "event_state \<Rightarrow> event_state" where
  "destroy_phase_1_shutdown s =
     (let s1 = (fst s, upd_engine (\<lambda>e. e\<lparr>eng_shutting_down := True,
                  tick_running := (if adaptive_enabled e then False else tick_running e)\<rparr>) (snd s))
      in aura_stop s1)"

definition clear_ring_pointers :: "event_state \<Rightarrow> event_state" where
  "clear_ring_pointers s =
     ((fst s)\<lparr>tls_owned_ring := None, tls_engine := None, tls_last_ring := None, tls_link_ring := None,
              tls_link_depth := 0\<rparr>, snd s)"

definition destroy_phase_3_unregister :: "reg_state \<Rightarrow> reg_state" where
  "destroy_phase_3_unregister s =
     (let e = rs_engine (upd_engine reg_rdlock s);
          need_unreg_bufs = (buffers_registered e \<and> \<not> buffers_unreg_pending e);
          need_unreg_files = (files_registered e \<and> \<not> files_unreg_pending e);
          s0 = upd_engine reg_rdunlock (upd_engine reg_rdlock s);
          s1 = (if need_unreg_bufs then snd (request_unregister_buffers s0) else s0);
          s2 = (if need_unreg_files then snd (request_unregister_files s1) else s1)
      in snd (finalize_deferred_unregistration s2))"

text \<open>What the kernel does while the rings are torn down: for each the answers \<open>ring_destroy\<close> gets.\<close>

record destroy_env =
  de_now :: int
  de_rounds :: "drain_round list"
  de_enable :: "nat \<Rightarrow> int"
  de_submitted :: "nat \<Rightarrow> int"
  de_replies :: "nat \<Rightarrow> nat \<Rightarrow> int \<times> wait_reply"

definition destroy_ring_at :: "completion_fn \<Rightarrow> destroy_env \<Rightarrow> nat \<Rightarrow> event_state \<Rightarrow> event_state" where
  "destroy_ring_at cb env i s =
     put_ring i (ring_destroy cb (de_enable env i) (de_submitted env i) (de_replies env i)
       (tl_ring (fst s), rings (ev_engine s) ! i)) s"

text \<open>The event descriptors of the rings, the rings, the size map and the pool, in this order.\<close>

definition destroy_phase_4_cleanup_resources ::
    "completion_fn \<Rightarrow> destroy_env \<Rightarrow> nat \<Rightarrow> event_state \<times> engine_handle \<times> pool_world \<Rightarrow>
     event_state \<times> engine_handle \<times> pool_world" where
  "destroy_phase_4_cleanup_resources cb env thr =
     (\<lambda>(s, h, w).
       let e = ev_engine s;
           fds = (if event_fd e \<ge> 0 \<and> eventfd_registered e
                  then unregister_rings (ring_count e) (h_eventfds h) else h_eventfds h);
           s1 = fold (destroy_ring_at cb env) [0..<ring_count e] s
       in (s1, h\<lparr>h_engine := ev_engine s1, h_eventfds := fds, h_size_map := buf_size_map_destroy (h_size_map h)\<rparr>,
           buffer_pool_destroy thr (h_pool h) w))"

definition aura_destroy ::
    "completion_fn \<Rightarrow> destroy_env \<Rightarrow> nat \<Rightarrow> event_state \<Rightarrow> engine_handle \<Rightarrow> pool_world \<Rightarrow>
     (event_state \<times> engine_handle \<times> pool_world) option" where
  "aura_destroy cb env thr s h w =
     map_option (\<lambda>(r, s2). destroy_phase_4_cleanup_resources cb env thr
         ((fst s2, destroy_phase_3_unregister (snd s2)), h, w))
       (aura_drain cb (de_now env) (de_rounds env) (-1) (clear_ring_pointers (destroy_phase_1_shutdown s)))"

text \<open>An idle ring has no request that uses a registered buffer or file.\<close>

lemma idle_no_uses:
  assumes "\<forall>c \<in> set (rings e). ring_inv 0 c \<and> uses_ok c" "\<not> has_pending e"
  shows "fixed_buf_inflight_total e = 0" "fixed_file_inflight_total e = 0"
proof -
  have z: "fixed_buf_inflight c = 0 \<and> fixed_file_inflight c = 0" if c: "c \<in> set (rings e)" for c
  proof -
    have "pending_count c \<le> 0" using assms(2) c by (auto simp: has_pending_def list_ex_iff not_less)
    then have "pending_slots c = {}" using assms(1) c by (auto simp: ring_inv_def)
    then show ?thesis using assms(1) c by (simp add: uses_ok_def buf_users_def file_users_def)
  qed
  have f: "foldl (\<lambda>t c. t + g c) (0::u32) cs = 0" if "\<forall>c \<in> set cs. g c = 0" for g and cs :: "ring_ctx list"
    using that by (induction cs rule: rev_induct) simp_all
  show "fixed_buf_inflight_total e = 0" "fixed_file_inflight_total e = 0"
    using z by (simp_all add: fixed_buf_inflight_total_def fixed_file_inflight_total_def f)
qed

lemma untouched_ok:
  assumes "reg_untouched s e'"
  shows "buffers_ok (s\<lparr>rs_engine := e'\<rparr>) = buffers_ok s" "files_ok (s\<lparr>rs_engine := e'\<rparr>) = files_ok s"
  using assms by (simp_all add: buffers_ok_def files_ok_def reg_untouched_def Let_def)

definition registries_ok :: "reg_state \<Rightarrow> bool" where
  "registries_ok s \<longleftrightarrow> buffers_ok s \<and> files_ok s"

lemma registries_untouched: "reg_untouched s e' \<Longrightarrow> registries_ok (s\<lparr>rs_engine := e'\<rparr>) = registries_ok s"
  by (simp add: registries_ok_def untouched_ok)

lemma registries_put: "registries_ok (snd (put_ring i x s)) = registries_ok (snd s)"
  using registries_untouched[of "snd s" "set_ring i (snd x) (ev_engine s)"]
  by (simp add: put_ring_def upd_engine_def untouched_steps fatal_kept)

lemma registries_held: "registries_ok (snd (snd (flush_held_ring rr i st c s))) = registries_ok (snd s)"
proof -
  have "reg_untouched (snd s) (ev_engine (snd (flush_held_ring rr i st c s)))"
    using nrings_steps(2)[of rr i st c s]
    by (auto simp: flush_held_ring_def flush_ring_checked_def case_prod_beta Let_def fatal_kept intro!: untouched_steps)
  then show ?thesis
    using registries_untouched[of "snd s"] by (auto simp: flush_held_ring_def case_prod_beta Let_def)
qed

lemma registries_finalize: "registries_ok s \<Longrightarrow> registries_ok (snd (finalize_deferred_unregistration s))"
  using finalize_outcome[of s] by (simp add: registries_ok_def)

lemma registries_request: "registries_ok s \<Longrightarrow> registries_ok (snd (aura_request_unregister ty s))"
  using bufs.request_wf[of s] fils.request_wf[of s] request_cross[of s]
  by (cases ty) (simp_all add: registries_ok_def aura_request_unregister_def)

interpretation regs: event_loop_invariant cb "\<lambda>_ _ _. True" "\<lambda>s. registries_ok (snd s)" for cb
proof (unfold_locales, goal_cases)
  case (3 s i rr f s')
  then show ?case using registries_held[of rr i _ _ s]
    by (auto simp: flush_ring_trylock_def case_prod_beta split: if_splits) (metis snd_conv)
next
  case (5 s)
  then show ?case using maybe_finalize_cases[of "snd s"] registries_finalize[of "snd s"]
    by (auto simp: try_finalize_def case_prod_beta)
next
  case (6 s)
  have "reg_untouched (snd s) (drain_eventfd (ev_engine s))"
    by (rule untouched_steps) (simp_all add: fatal_kept, simp add: drain_eventfd_def)
  then show ?case using 6 registries_untouched by (simp add: upd_engine_def)
next
  case (7 s i reply tmo r s')
  then show ?case by (auto simp: wait_ring_def registries_put)
next
  case (8 s b)
  then show ?case
    using registries_untouched[of "snd s" "(ev_engine s)\<lparr>stop_requested := b\<rparr>"] by (simp add: upd_engine_def untouched_steps)
next
  case (9 s b)
  then show ?case
    using registries_untouched[of "snd s" "(ev_engine s)\<lparr>running := b\<rparr>"] by (simp add: upd_engine_def untouched_steps)
next
  case (10 s ty)
  then show ?case by (simp add: registries_request)
qed (simp_all add: poll_ring_def flush_ring_locked_def flush_ring_fast_def case_prod_beta registries_put registries_held)

lemma phase_3_unregisters:
  assumes "registries_ok s" "fixed_buf_inflight_total (rs_engine s) = 0" "fixed_file_inflight_total (rs_engine s) = 0"
  shows "registries_ok (destroy_phase_3_unregister s)" "buffers_phase (destroy_phase_3_unregister s) = Unregistered"
    "files_phase (destroy_phase_3_unregister s) = Unregistered"
    "rings (rs_engine (destroy_phase_3_unregister s)) = rings (rs_engine s)"
proof -
  define s1 where "s1 = (if buffers_registered (rs_engine s) \<and> \<not> buffers_unreg_pending (rs_engine s)
      then snd (request_unregister_buffers s) else s)"
  define s2 where "s2 = (if files_registered (rs_engine s) \<and> \<not> files_unreg_pending (rs_engine s)
      then snd (request_unregister_files s1) else s1)"
  have lk: "upd_engine reg_rdunlock (upd_engine reg_rdlock s) = s" by (simp add: upd_engine_def)
  have fl: "buffers_registered (rs_engine (upd_engine reg_rdlock s)) = buffers_registered (rs_engine s)"
    "buffers_unreg_pending (rs_engine (upd_engine reg_rdlock s)) = buffers_unreg_pending (rs_engine s)"
    "files_registered (rs_engine (upd_engine reg_rdlock s)) = files_registered (rs_engine s)"
    "files_unreg_pending (rs_engine (upd_engine reg_rdlock s)) = files_unreg_pending (rs_engine s)"
    by (simp_all add: upd_engine_def reg_rdlock_def)
  have p: "destroy_phase_3_unregister s = snd (finalize_deferred_unregistration s2)"
    unfolding destroy_phase_3_unregister_def Let_def lk fl s1_def s2_def ..
  have rb: "rings (rs_engine (snd (request_unregister_buffers u))) = rings (rs_engine u)"
      "rings (rs_engine (snd (request_unregister_files u))) = rings (rs_engine u)" for u
    using rings_request[of AURA_REG_BUFFERS u] rings_request[of AURA_REG_FILES u] by (simp_all add: aura_request_unregister_def)
  have tot: "fixed_buf_inflight_total (rs_engine s2) = 0" "fixed_file_inflight_total (rs_engine s2) = 0"
    "fixed_buf_inflight_total (rs_engine s1) = 0" "fixed_file_inflight_total (rs_engine s1) = 0"
    using assms(2,3) by (simp_all add: s1_def s2_def fixed_buf_inflight_total_def fixed_file_inflight_total_def rb)
  have ok: "registries_ok s1" "registries_ok s2"
    using registries_request[OF assms(1), of AURA_REG_BUFFERS] registries_request[of s1 AURA_REG_FILES] assms(1)
    by (simp_all add: s1_def s2_def aura_request_unregister_def)
  have b1: "buffers_phase s1 \<in> {Unregistered} \<union> range Leaving"
    using bufs.request_phase[of s] assms by (auto simp: s1_def registries_ok_def buffers_phase_def lifecycle_of_def)
  have c2: "buffers_phase (snd (request_unregister_files s1)) \<in> {buffers_phase s1, settle True (buffers_phase s1)}"
    using request_cross_phase(2)[of s1] ok(1) tot(3) by (simp add: registries_ok_def)
  have b2: "buffers_phase s2 \<in> {Unregistered} \<union> range Leaving" using b1 c2 by (auto simp: s2_def)
  have f1: "files_phase s1 \<in> {files_phase s, settle True (files_phase s)}"
    using request_cross_phase(1)[of s] assms by (auto simp: s1_def registries_ok_def)
  have f2: "files_phase s2 \<in> {Unregistered} \<union> range Leaving"
  proof (cases "files_registered (rs_engine s) \<and> \<not> files_unreg_pending (rs_engine s)")
    case True
    then show ?thesis using fils.request_phase[of s1] ok(1) tot(4)
      by (cases "files_phase s1") (auto simp: s2_def registries_ok_def)
  next
    case False
    then have "files_phase s \<in> {Unregistered} \<union> range Leaving" by (auto simp: files_phase_def lifecycle_of_def)
    then show ?thesis using False f1 by (auto simp: s2_def)
  qed
  show "registries_ok (destroy_phase_3_unregister s)" using registries_finalize[OF ok(2)] p by simp
  show "buffers_phase (destroy_phase_3_unregister s) = Unregistered" "files_phase (destroy_phase_3_unregister s) = Unregistered"
    using finalize_outcome[of s2] ok(2) tot(1,2) b2 f2 p by (auto simp: registries_ok_def)
  show "rings (rs_engine (destroy_phase_3_unregister s)) = rings (rs_engine s)"
    using p rings_finalize[of s2] by (simp add: s1_def s2_def rb)
qed

lemma destroy_rings_end:
  "j \<le> nrings s \<Longrightarrow>
    nrings (fold (destroy_ring_at cb env) [0..<j] s) = nrings s \<and>
    k_buffers (snd (fold (destroy_ring_at cb env) [0..<j] s)) = k_buffers (snd s) \<and>
    k_files (snd (fold (destroy_ring_at cb env) [0..<j] s)) = k_files (snd s) \<and>
    (\<forall>i < j. \<not> ring_initialized (rings (ev_engine (fold (destroy_ring_at cb env) [0..<j] s)) ! i) \<and>
       requests (rings (ev_engine (fold (destroy_ring_at cb env) [0..<j] s)) ! i) = [])"
proof (induction j)
  case (Suc j)
  then show ?case
    by (auto simp: destroy_ring_at_def put_ring_def upd_engine_def set_ring_def ring_destroy_def Let_def nth_list_update less_Suc_eq)
qed simp

lemma phase_1_facts:
  "rings (ev_engine (clear_ring_pointers (destroy_phase_1_shutdown s))) = rings (ev_engine s)"
  "registries_ok (snd (clear_ring_pointers (destroy_phase_1_shutdown s))) = registries_ok (snd s)"
  "stop_requested (ev_engine (clear_ring_pointers (destroy_phase_1_shutdown s)))"
  by (simp_all add: clear_ring_pointers_def destroy_phase_1_shutdown_def aura_stop_def upd_engine_def Let_def
      registries_ok_def buffers_ok_def files_ok_def)

context counting_callback
begin

lemma drain_settles:
  assumes "\<forall>c \<in> set (rings (ev_engine s)). ring_inv 0 c \<and> ring_initialized c \<and> uses_ok c"
    "\<forall>d \<in> set rounds. drain_round_ok (\<lambda>i. cqes_valid (rings (ev_engine s) ! i)) d"
    "aura_drain cb now rounds tmo s = Some (r, s')"
  shows "\<forall>c \<in> set (rings (ev_engine s')). ring_inv 0 c \<and> uses_ok c"
proof -
  have "list_all2 settled (rings (ev_engine s)) (rings (ev_engine s'))"
    using event_settles[where call = "EvDrain now rounds tmo" and s = s and s' = s' and e = "ev_engine s"] assms by auto
  then have l: "length (rings (ev_engine s')) = nrings s"
    "\<And>i. i < nrings s \<Longrightarrow> settled (rings (ev_engine s) ! i) (rings (ev_engine s') ! i)"
    by (auto simp: list_all2_conv_all_nth)
  have "ring_inv 0 (rings (ev_engine s') ! i) \<and> uses_ok (rings (ev_engine s') ! i)" if "i < nrings s" for i
    using l(2)[OF that] assms(1) that by (simp add: settled_def)
  then show ?thesis using l(1) by (auto simp: in_set_conv_nth)
qed

end

text \<open>
  Claim C15. Destroying an engine with nothing stuck in the kernel releases everything: once the
  drain has ended with all operations complete, the kernel has no buffer or file registration left
  on any ring, and every ring is shut down with its request slots gone. The registrations end only
  after no operation in flight uses them.
\<close>

theorem destroy_releases_everything:
  assumes "counting_callback cb" and "\<forall>c \<in> set (rings (ev_engine s)). ring_inv 0 c \<and> ring_initialized c \<and> uses_ok c"
    and "registries_ok (snd s)" and "\<forall>d \<in> set (de_rounds env). drain_round_ok (\<lambda>i. cqes_valid (rings (ev_engine s) ! i)) d"
    and "aura_drain cb (de_now env) (de_rounds env) (-1) (clear_ring_pointers (destroy_phase_1_shutdown s)) = Some (Inr n, sd)"
    and "aura_destroy cb env thr s h w = Some (s', h', w')"
  shows "\<not> has_pending (ev_engine sd) \<and> k_buffers (snd s') = replicate (nrings sd) None \<and>
    k_files (snd s') = replicate (nrings sd) None \<and> nrings s' = nrings sd \<and>
    (\<forall>c \<in> set (rings (ev_engine s')). \<not> ring_initialized c \<and> requests c = [])"
proof -
  let ?s1 = "clear_ring_pointers (destroy_phase_1_shutdown s)" and ?w3 = "destroy_phase_3_unregister (snd sd)"
  have idle: "\<not> has_pending (ev_engine sd)" using assms(5) drain_idle[of "-1"] by (simp add: aura_drain_def)
  have "\<forall>c \<in> set (rings (ev_engine sd)). ring_inv 0 c \<and> uses_ok c"
    using counting_callback.drain_settles[OF assms(1) _ _ assms(5)] assms(2,4) by (simp add: phase_1_facts(1))
  note u = idle_no_uses[OF this idle]
  have "registries_ok (snd sd)"
    using regs.drain_keeps[OF _ _ assms(5)] assms(3) by (simp add: phase_1_facts(2) drain_round_ok_def replies_ok_def wait_env_ok_def)
  note p3 = phase_3_unregisters[OF this u]
  have k: "k_buffers ?w3 = replicate (nrings sd) None" "k_files ?w3 = replicate (nrings sd) None"
    using p3 bufs.kernel_wf[of ?w3] fils.kernel_wf[of ?w3] by (simp_all add: registries_ok_def)
  have "s' = fold (destroy_ring_at cb env) [0..<nrings sd] (fst sd, ?w3)"
    using assms(5,6) p3(4) by (auto simp: aura_destroy_def destroy_phase_4_cleanup_resources_def Let_def)
  then show ?thesis using idle k destroy_rings_end[of "nrings sd" "(fst sd, ?w3)" cb env] p3(4)
    by (auto simp: in_set_conv_nth)
qed

section \<open>A concrete engine\<close>

definition demo_setup :: ring_setup where
  "demo_setup = \<lparr>su_mutex1 = 0, su_mutex2 = 0, su_kinit = (\<lambda>_ _. 0), su_fd = 5, su_have_requests = True,
     su_have_stack = True, su_now = 0\<rparr>"

definition demo_create_env :: create_env where
  "demo_create_env = \<lparr>ce_page_size = 4096, ce_cpus = 2, ce_alloc_engine = True, ce_address = 64, ce_rwlock = 0,
     ce_have_shards = True, ce_shard_ok = (\<lambda>_. True), ce_map_entries = True, ce_map_mutex = True,
     ce_alloc_rings = True, ce_ring = (\<lambda>_. demo_setup), ce_eventfd = 7, ce_reg_eventfd = (\<lambda>_. 0), ce_pthread = 0\<rparr>"

definition demo_options :: aura_options where
  "demo_options = (aura_options_init 4096)\<lparr>opt_queue_depth := 8\<rparr>"

lemma demo_options_ok: "\<not> options_error demo_options" "opt_struct_size demo_options = 88"
  "opt_reserved demo_options = replicate 6 0" "demo_options\<lparr>opt_padding := 0\<rparr> = demo_options"
proof -
  have a: "and 4096 (4096 - 1) = (0::nat)" by simp
  show "\<not> options_error demo_options"
    by (simp add: options_error_def demo_options_def aura_options_init_def reserved_words_def a list_ex_iff)
  show "opt_struct_size demo_options = 88" "opt_reserved demo_options = replicate 6 0" "demo_options\<lparr>opt_padding := 0\<rparr> = demo_options"
    by (simp_all add: demo_options_def aura_options_init_def)
qed

lemma demo_created:
  obtains h w' where "aura_create_with_options demo_create_env 1 0 (Some demo_options) new_world = (Inr h, w')"
    "opt_ring_select demo_options \<noteq> AURA_SELECT_THREAD_LOCAL" "\<not> opt_single_thread demo_options"
proof -
  have sel: "opt_ring_select demo_options = AURA_SELECT_ADAPTIVE" "\<not> opt_single_thread demo_options"
    "opt_ring_count demo_options = 0" "opt_queue_depth demo_options = 8" "opt_buffer_alignment demo_options = 4096"
    "\<not> opt_disable_adaptive demo_options"
    by (simp_all add: demo_options_def aura_options_init_def)
  obtain e0 where e0: "validate_and_init_engine_core demo_create_env 1 demo_options = Inr e0"
    "eng_queue_depth e0 = 8" "buffer_alignment e0 = 4096" "ring_select e0 = AURA_SELECT_ADAPTIVE"
    using demo_options_ok(1) sel by (simp add: validate_and_init_engine_core_def demo_create_env_def)
  obtain p m w1 where p: "init_engine_buffer_pool demo_create_env 0 e0 new_world = (Inr (p, m), w1)"
    using e0(3) by (simp add: init_engine_buffer_pool_def buffer_pool_init_def demo_create_env_def Let_def list_all_iff
        buf_size_map_init_def)
  have r: "\<exists>c. init_ring demo_setup 8 i demo_options = Inr c" for i
    by (simp add: init_ring_def ring_init_def demo_setup_def Let_def queue_init_ladder_def ring_options_for_def sel
        adaptive_init_def initial_inflight_for_def c_div_def no_params_def apply_single_issuer_params_def
        split: prod.split)
  obtain c0 c1 where c: "init_ring demo_setup 8 0 demo_options = Inr c0" "init_ring demo_setup 8 1 demo_options = Inr c1" using r by blast
  have "init_rings (\<lambda>_. demo_setup) 8 demo_options 2 0 [] = Inr [configure_ring demo_options 0 c0, configure_ring demo_options 1 c1]"
    using c by (simp add: numeral_2_eq_2)
  then obtain e1 where e1: "init_engine_rings demo_create_env demo_options e0 = Inr e1" "ring_select e1 = AURA_SELECT_ADAPTIVE" "ring_count e1 = 2"
    using e0 sel by (simp add: init_engine_rings_def demo_create_env_def get_cpu_count_def)
  then obtain e2 ks where e2: "register_eventfd_with_rings demo_create_env e1 = (Inr e2, ks)"
    by (simp add: register_eventfd_with_rings_def demo_create_env_def Let_def numeral_2_eq_2)
  obtain e3 where "start_tick_thread demo_create_env e2 = Inr e3" by (cases "adaptive_enabled e2") (simp_all add: start_tick_thread_def demo_create_env_def)
  then show thesis using that sel(1,2) e0(1) p e1(1) e2 by (simp add: aura_create_with_options_def)
qed

theorem created_engine_wellformed_witness:
  "\<exists>h w'. aura_create_with_options demo_create_env 1 0 (Some demo_options) new_world = (Inr h, w') \<and> shared_engine (h_engine h)"
proof -
  obtain h w' where c: "aura_create_with_options demo_create_env 1 0 (Some demo_options) new_world = (Inr h, w')"
    "opt_ring_select demo_options \<noteq> AURA_SELECT_THREAD_LOCAL" "\<not> opt_single_thread demo_options"
    by (rule demo_created)
  from created_engine_wellformed[OF c(1)] c show ?thesis by (simp add: Let_def)
qed

theorem padding_rejects_options_witness:
  "aura_create_with_options demo_create_env 1 0 (Some (demo_options\<lparr>opt_padding := 7\<rparr>)) new_world = (Inl EINVAL, new_world)"
  using padding_rejects_options[of demo_options demo_create_env 7 1 0 new_world] demo_options_ok
  by (simp add: demo_create_env_def)

definition demo_destroy_env :: destroy_env where
  "demo_destroy_env = \<lparr>de_now = 0, de_rounds = [], de_enable = (\<lambda>_. 0), de_submitted = (\<lambda>_. 0),
     de_replies = (\<lambda>_ _. (0, we_ring demo_wait_env))\<rparr>"

definition demo_handle :: engine_handle where
  "demo_handle = \<lparr>h_engine = rs_engine demo_reg, h_pool = 0,
     h_size_map = \<lparr>entries = [], capacity = 0, map_count = 0\<rparr>, h_eventfds = []\<rparr>"

theorem destroy_releases_everything_witness:
  "\<exists>s' h' w'. aura_destroy read_next demo_destroy_env 0 (demo_etls, demo_reg) demo_handle new_world = Some (s', h', w') \<and>
     k_files (snd s') = replicate 2 None \<and> (\<forall>c \<in> set (rings (ev_engine s')). \<not> ring_initialized c)"
proof -
  let ?s = "(demo_etls, demo_reg)"
  let ?s1 = "clear_ring_pointers (destroy_phase_1_shutdown ?s)"
  obtain s1 where f: "try_finalize ?s1 = (Inr (), s1)" "rings (ev_engine s1) = rings (ev_engine ?s1)" by (rule try_finalize_ok)
  obtain s2 where g: "try_finalize s1 = (Inr (), s2)" "rings (ev_engine s2) = rings (ev_engine s1)" by (rule try_finalize_ok)
  have r: "rings (ev_engine s2) = [demo_ring, demo_ring]" using f(2) g(2) by (simp add: phase_1_facts(1) demo_reg_facts(4))
  have r1: "rings (ev_engine s1) = [demo_ring, demo_ring]" using f(2) by (simp add: phase_1_facts(1) demo_reg_facts(4))
  have d: "aura_drain read_next 0 [] (-1) ?s1 = Some (Inr 0, s2)"
    using f(1) g(1) r1 demo_ring_facts(6) unfolding aura_drain_def
    by (subst drain_rings.simps) (simp add: has_pending_def finish_wait_def)
  have "registries_ok (snd ?s)" using reg_reach_inv[OF demo_reg_facts(1)] demo_reg_facts(2) by (simp add: registries_ok_def)
  moreover have "\<forall>c \<in> set (rings (ev_engine ?s)). ring_inv 0 c \<and> ring_initialized c \<and> uses_ok c"
    by (simp add: demo_reg_facts(4) demo_ring_facts(1,7) demo_ring_uses(1))
  moreover obtain s' h' w' where a: "aura_destroy read_next demo_destroy_env 0 ?s demo_handle new_world = Some (s', h', w')"
    using d by (auto simp: aura_destroy_def demo_destroy_env_def destroy_phase_4_cleanup_resources_def Let_def)
  ultimately show ?thesis
    using destroy_releases_everything[OF read_next_ok _ _ _ _ a] d r by (auto simp: demo_destroy_env_def numeral_2_eq_2)
qed

end
