(* ===== verification/Managed_Buffers.thy ===== *)
theory Managed_Buffers
  imports Buffer_Classes Engine_Lifecycle
begin

text \<open>
  The buffers an engine manages for its caller (\<^verbatim>\<open>aura_buffer_alloc\<close> and \<^verbatim>\<open>aura_buffer_free\<close> of src/engine/src/aura.c): a buffer of the
  pool with its size class in the size map, so that a release needs no size. \<open>None\<close> would be an insertion into the map that does not return.
\<close>

definition aura_buffer_alloc ::
    "alloc_env \<Rightarrow> alloc_env \<Rightarrow> bool \<Rightarrow> nat \<Rightarrow> nat \<Rightarrow> engine_handle \<Rightarrow> pool_world \<Rightarrow> ((int + u64) \<times> engine_handle \<times> pool_world) option" where
  "aura_buffer_alloc env fenv have_new t sz h w =
     (if sz = 0 then Some (Inl EINVAL, h, w)
      else case buffer_pool_alloc env t (h_pool h) sz w of
          (Inl e, w1) \<Rightarrow> Some (Inl e, h, w1)
        | (Inr buf, w1) \<Rightarrow>
            (case buf_size_map_insert have_new (h_size_map h) buf (of_nat (size_to_class sz)) of
               None \<Rightarrow> None
             | Some (Inl e, m) \<Rightarrow> Some (Inl e, h\<lparr>h_size_map := m\<rparr>, buffer_pool_free fenv t (h_pool h) buf sz w1)
             | Some (Inr _, m) \<Rightarrow> Some (Inr buf, h\<lparr>h_size_map := m\<rparr>, w1)))"

definition aura_buffer_free :: "alloc_env \<Rightarrow> nat \<Rightarrow> u64 \<Rightarrow> engine_handle \<Rightarrow> pool_world \<Rightarrow> engine_handle \<times> pool_world" where
  "aura_buffer_free env t buf h w =
     (if buf = 0 then (h, w)
      else let (m, w') = buffer_pool_free_tracked env t (h_pool h) buf (h_size_map h) w in (h\<lparr>h_size_map := m\<rparr>, w'))"

section \<open>Histories\<close>

text \<open>
  The blocks that are new on the heap after an allocation have the bytes the call asks \<open>posix_memalign\<close> for: the size of the class it rounds
  the request up to.
\<close>

definition grant :: "(u64 \<Rightarrow> nat) \<Rightarrow> pool_world \<Rightarrow> pool_world \<Rightarrow> nat \<Rightarrow> u64 \<Rightarrow> nat" where
  "grant S w w' sz = (\<lambda>b. if b \<in># heap w' \<and> b \<notin># heap w then class_to_size (size_to_class sz) else S b)"

text \<open>
  The managed buffers of an engine after its creation and any allocations, releases of held buffers and exits of threads: \<open>S\<close> the bytes of
  every block, \<open>U\<close> the buffers callers hold.
\<close>

inductive managed :: "(u64 \<Rightarrow> nat) \<Rightarrow> u64 multiset \<Rightarrow> engine_handle \<Rightarrow> pool_world \<Rightarrow> bool" where
  created: "aura_create_with_options env eid thr opts new_world = (Inr h, w) \<Longrightarrow> managed (\<lambda>_. 0) {#} h w"
| allocated: "managed S U h w \<Longrightarrow> fresh_env env w \<Longrightarrow> aura_buffer_alloc env fenv have_new t sz h w = Some (r, h', w') \<Longrightarrow>
    managed (grant S w w' sz) (case r of Inr b \<Rightarrow> add_mset b U | Inl e \<Rightarrow> U) h' w'"
| released: "managed S (add_mset b U) h w \<Longrightarrow> aura_buffer_free env t b h w = (h', w') \<Longrightarrow> managed S U h' w'"
| thread_exit: "managed S U h w \<Longrightarrow> managed S U h (tls_destructor t w)"

definition tracked :: "(u64 \<Rightarrow> nat) \<Rightarrow> u64 multiset \<Rightarrow> buf_size_map \<Rightarrow> bool" where
  "tracked S U m \<longleftrightarrow> map_wf m \<and> (\<forall>b. b \<in># U \<longleftrightarrow> buf_map_abs m b \<noteq> None) \<and>
     (\<forall>b c. buf_map_abs m b = Some c \<longrightarrow> unat c < 16 \<and> S b = class_to_size (unat c))"

definition managed_ok :: "(u64 \<Rightarrow> nat) \<Rightarrow> u64 multiset \<Rightarrow> engine_handle \<Rightarrow> pool_world \<Rightarrow> bool" where
  "managed_ok S U h w \<longleftrightarrow> conserved U w \<and> heap_ok (heap w) \<and> h_pool h < length (pools w) \<and>
     (\<forall>cls b. (cls, b) \<in> placed w \<longrightarrow> S b = class_to_size cls) \<and> tracked S U (h_size_map h)"

lemma placed_live: "conserved U w \<Longrightarrow> (cls, b) \<in> placed w \<Longrightarrow> b \<in># heap w"
  using placed_cached[of cls b w] by (simp add: conserved_def)

lemma held_live: "conserved U w \<Longrightarrow> b \<in># U \<Longrightarrow> b \<in># heap w"
  by (simp add: conserved_def)

lemma grant_old: "b \<in># heap w \<Longrightarrow> grant S w w' sz b = S b"
  by (simp add: grant_def)

lemma create_pool:
  assumes "aura_create_with_options env eid thr opts w0 = (Inr h, w)"
  obtains e where "init_engine_buffer_pool env thr e w0 = (Inr (h_pool h, h_size_map h), w)"
  using assms by (auto simp: aura_create_with_options_def Let_def split: sum.splits prod.splits)

lemma created_managed:
  assumes "aura_create_with_options env eid thr opts new_world = (Inr h, w)"
  shows "managed_ok (\<lambda>_. 0) {#} h w"
proof -
  obtain e where "init_engine_buffer_pool env thr e new_world = (Inr (h_pool h, h_size_map h), w)" using create_pool[OF assms] .
  then have i: "buffer_pool_init (ce_cpus env) (ce_have_shards env) (ce_shard_ok env) (buffer_alignment e) new_world = (Inr (h_pool h), w)"
    and m: "buf_size_map_init (ce_map_entries env) (ce_map_mutex env) = Some (h_size_map h)"
    by (auto simp: init_engine_buffer_pool_def split: sum.splits prod.splits option.splits)
  have "buf_size_map_init True True = Some (h_size_map h)" using m by (auto simp: buf_size_map_init_def split: if_splits)
  then have t: "tracked (\<lambda>_. 0) {#} (h_size_map h)" using map_init_wf by (auto simp: tracked_def)
  have c: "conserved {#} w" "heap w = {#}" using buffer_pool_init_conserved[OF new_world_conserved i] by (simp_all add: new_world_def)
  then have "\<not> (cls, b) \<in> placed w" for cls b using placed_live by fastforce
  moreover have "h_pool h < length (pools w)" using i by (auto simp: buffer_pool_init_def Let_def new_world_def split: if_splits)
  ultimately show ?thesis using t c by (simp add: managed_ok_def heap_ok_def all_distinct_def)
qed

section \<open>Every step keeps track of every buffer\<close>

lemma new_sizes:
  assumes "managed_ok S U h w" "fresh_env env w" "conserved V w'" "placed w' \<subseteq> placed w \<union> Pair (size_to_class sz) ` set (env_buffers env)"
  shows "(cls, b) \<in> placed w' \<Longrightarrow> grant S w w' sz b = class_to_size cls"
proof -
  assume b: "(cls, b) \<in> placed w'"
  show ?thesis
  proof (cases "(cls, b) \<in> placed w")
    case True
    then show ?thesis using placed_live[of U w cls b] assms(1) by (simp add: managed_ok_def grant_old)
  next
    case False
    then have "cls = size_to_class sz" "b \<in> set (env_buffers env)" using assms(4) b by auto
    then show ?thesis using placed_live[OF assms(3) b] assms(2) by (simp add: grant_def fresh_env_def list_all_iff)
  qed
qed

lemma tracked_grant: "managed_ok S U h w \<Longrightarrow> tracked (grant S w w' sz) U (h_size_map h)"
proof -
  assume ok: "managed_ok S U h w"
  have "grant S w w' sz b = S b" if "buf_map_abs (h_size_map h) b = Some c" for b c
    using ok that held_live[of U w b] grant_old[of b w] by (auto simp: managed_ok_def tracked_def)
  then show ?thesis using ok by (simp add: managed_ok_def tracked_def)
qed

lemma tracked_insert:
  assumes "tracked S U m" "buf_size_map_insert a m b (of_nat (size_to_class sz)) = Some (Inr u, m')" "S b = class_to_size (size_to_class sz)"
  shows "tracked S (add_mset b U) m'"
proof -
  have "size_to_class sz < 16" by (rule size_to_class_less)
  then have n: "unat (of_nat (size_to_class sz) :: u8) = size_to_class sz" by (simp add: unat_of_nat)
  have m: "map_wf m" using assms(1) by (simp add: tracked_def)
  have "map_wf m'" "buf_map_abs m' = (buf_map_abs m)(b \<mapsto> of_nat (size_to_class sz))" using buf_map.insert_stored[OF m assms(2)] by auto
  then show ?thesis using assms(1,3) n size_to_class_less[of sz] by (auto simp: tracked_def)
qed

lemma class_fits: "sz \<le> BUFFER_POOL_MAX_SIZE \<Longrightarrow> sz \<le> class_to_size (size_to_class sz)"
  using size_class_exact[of sz] by (cases "sz = 0") simp_all

text \<open>What a successful allocation from the pool gives: a block of the right class, held from now on.\<close>

lemma pool_alloc_granted:
  assumes "managed_ok S U h w" "fresh_env env w" "buffer_pool_alloc env t (h_pool h) sz w = (Inr b, w1)"
  shows "conserved (add_mset b U) w1" "heap_ok (heap w1)" "h_pool h < length (pools w1)" "b \<noteq> 0"
    "placed w1 \<subseteq> placed w \<union> Pair (size_to_class sz) ` set (env_buffers env)"
    "(size_to_class sz, b) \<in> placed w \<union> Pair (size_to_class sz) ` set (env_buffers env)"
proof -
  have i: "conserved U w" "heap_ok (heap w)" "h_pool h < length (pools w)" using assms(1) by (simp_all add: managed_ok_def)
  note ao = buffer_pool_alloc_outcome[OF i(1,3), of env t sz, unfolded assms(3)]
    and ac = buffer_pool_alloc_class[OF i(1,3), of env sz t, unfolded assms(3)]
  show c: "conserved (add_mset b U) w1" using ao by (simp add: alloc_outcome_def)
  show h: "heap_ok (heap w1)" using ao heap_ok_mono[OF heap_ok_fresh[OF i(2) assms(2)]] by (simp add: alloc_outcome_def)
  show "h_pool h < length (pools w1)" using ao pools_kept_nth(1)[of w w1] i(3) by (simp add: alloc_outcome_def)
  show "b \<noteq> 0" using held_live[OF c, of b] h by (auto simp: heap_ok_def)
  show "placed w1 \<subseteq> placed w \<union> Pair (size_to_class sz) ` set (env_buffers env)"
    "(size_to_class sz, b) \<in> placed w \<union> Pair (size_to_class sz) ` set (env_buffers env)" using ac by (auto simp: alloc_class_def)
qed

lemma granted_size:
  assumes "managed_ok S U h w" "fresh_env env w" "(size_to_class sz, b) \<in> placed w \<union> Pair (size_to_class sz) ` set (env_buffers env)" "b \<in># heap w'"
  shows "grant S w w' sz b = class_to_size (size_to_class sz)"
proof (cases "(size_to_class sz, b) \<in> placed w")
  case True
  then show ?thesis using placed_live[of U w] assms(1) by (simp add: managed_ok_def grant_old)
next
  case False
  then have "b \<in> set (env_buffers env)" using assms(3) by auto
  then show ?thesis using assms(2,4) by (simp add: grant_def fresh_env_def list_all_iff)
qed

lemma allocated_managed:
  assumes "managed_ok S U h w" "fresh_env env w" "aura_buffer_alloc env fenv have_new t sz h w = Some (r, h', w')"
  shows "managed_ok (grant S w w' sz) (case r of Inr b \<Rightarrow> add_mset b U | Inl e \<Rightarrow> U) h' w'"
proof (cases "sz = 0")
  case True
  then have "r = Inl EINVAL" "h' = h" "w' = w" using assms(3) by (auto simp: aura_buffer_alloc_def)
  moreover have "grant S w w sz = S" by (simp add: grant_def fun_eq_iff)
  ultimately show ?thesis using assms(1) by simp
next
  case False
  have i: "conserved U w" "heap_ok (heap w)" "h_pool h < length (pools w)" "map_wf (h_size_map h)"
    using assms(1) by (simp_all add: managed_ok_def tracked_def)
  obtain pr w1 where a: "buffer_pool_alloc env t (h_pool h) sz w = (pr, w1)" by (rule prod.exhaust)
  show ?thesis
  proof (cases pr)
    case (Inl e)
    then have e: "r = Inl e" "h' = h" "w' = w1" using assms(3) a False by (auto simp: aura_buffer_alloc_def)
    note ao = buffer_pool_alloc_outcome[OF i(1,3), of env t sz, unfolded a Inl]
      and ac = buffer_pool_alloc_class[OF i(1,3), of env sz t, unfolded a Inl]
    have "conserved U w1" "heap_ok (heap w1)" "h_pool h < length (pools w1)"
      using ao heap_ok_mono[OF heap_ok_fresh[OF i(2) assms(2)]] pools_kept_nth(1)[of w w1] i(3) by (simp_all add: alloc_outcome_def)
    then show ?thesis using new_sizes[OF assms(1,2)] ac tracked_grant[OF assms(1)] e by (simp add: managed_ok_def alloc_class_def)
  next
    case (Inr b)
    note g = pool_alloc_granted[OF assms(1,2) a[unfolded Inr]]
    obtain q m where ins: "buf_size_map_insert have_new (h_size_map h) b (of_nat (size_to_class sz)) = Some (q, m)"
      using buf_map.insert_returns[OF i(4), of have_new b "of_nat (size_to_class sz)"] by fastforce
    show ?thesis
    proof (cases q)
      case q: (Inl e)
      then have e: "r = Inl e" "h' = h" "w' = buffer_pool_free fenv t (h_pool h) b sz w1"
        using assms(3) a Inr False ins buf_map.insert_refused[OF i(4) ins[unfolded q]] by (auto simp: aura_buffer_alloc_def)
      note fo = buffer_pool_free_outcome[OF g(1,3,4), of fenv t sz, folded e(3)]
      have "placed w' \<subseteq> placed w \<union> Pair (size_to_class sz) ` set (env_buffers env)"
        using buffer_pool_free_placed[OF g(1,3), of fenv t b sz, folded e(3)] g(5,6) by blast
      moreover have "conserved U w'" "heap_ok (heap w')" "h_pool h < length (pools w')"
        using fo heap_ok_mono[OF g(2)] pools_kept_nth(1)[of w1 w'] g(3) by (simp_all add: free_outcome_def)
      ultimately show ?thesis using new_sizes[OF assms(1,2)] tracked_grant[OF assms(1)] e(1,2) by (simp add: managed_ok_def)
    next
      case q: (Inr u)
      then have e: "r = Inr b" "h' = h\<lparr>h_size_map := m\<rparr>" "w' = w1"
        using assms(3) a Inr False ins by (auto simp: aura_buffer_alloc_def)
      have "grant S w w1 sz b = class_to_size (size_to_class sz)"
        using granted_size[OF assms(1,2) g(6)] held_live[OF g(1), of b] by simp
      then have "tracked (grant S w w1 sz) (add_mset b U) m" using tracked_insert[OF tracked_grant[OF assms(1)] ins[unfolded q]] by blast
      then show ?thesis using g(1-3) new_sizes[OF assms(1,2) g(1,5)] e by (simp add: managed_ok_def)
    qed
  qed
qed

lemma released_managed:
  assumes "managed_ok S (add_mset b U) h w" "aura_buffer_free env t b h w = (h', w')"
  shows "managed_ok S U h' w'"
proof -
  have i: "conserved (add_mset b U) w" "heap_ok (heap w)" "h_pool h < length (pools w)" "tracked S (add_mset b U) (h_size_map h)"
    using assms(1) by (simp_all add: managed_ok_def)
  have b: "b \<noteq> 0" "b \<notin># U"
    using held_live[OF i(1), of b] i(1,2) by (auto simp: heap_ok_def conserved_def all_distinct_add)
  have k: "map_wf (h_size_map h)" "buf_map_abs (h_size_map h) b \<noteq> None" using i(4) unfolding tracked_def by auto
  then obtain c where c: "buf_map_abs (h_size_map h) b = Some c" by blast
  then have n: "unat c < 16" "S b = class_to_size (unat c)" using i(4) by (simp_all add: tracked_def)
  obtain r m where rm: "buf_size_map_remove (h_size_map h) b = (r, m)" by (rule prod.exhaust)
  note rk = buf_map.remove_known[OF k(1) c rm]
  have e: "h' = h\<lparr>h_size_map := m\<rparr>" "w' = buffer_pool_free env t (h_pool h) b (class_to_size (unat c)) w"
    using assms(2) b(1) rm rk by (auto simp: aura_buffer_free_def buffer_pool_free_tracked_def)
  note fo = buffer_pool_free_outcome[OF i(1,3) b(1), of env t "class_to_size (unat c)", folded e(2)]
    and fp = buffer_pool_free_placed[OF i(1,3), of env t b "class_to_size (unat c)", folded e(2), unfolded size_to_class_inverse[OF n(1)]]
  have "conserved U w'" "heap_ok (heap w')" "h_pool h < length (pools w')"
    using fo heap_ok_mono[OF i(2)] pools_kept_nth(1)[of w w'] i(3) by (simp_all add: free_outcome_def)
  moreover have "S x = class_to_size cls" if "(cls, x) \<in> placed w'" for cls x
    using subsetD[OF fp that] assms(1) n(2) by (auto simp: managed_ok_def)
  moreover have "tracked S U m" using i(4) rk b(2) by (auto simp: tracked_def)
  ultimately show ?thesis using e(1) by (simp add: managed_ok_def)
qed

lemma exited_managed: "managed_ok S U h w \<Longrightarrow> managed_ok S U h (tls_destructor t w)"
proof -
  assume ok: "managed_ok S U h w"
  then have c: "conserved U w" by (simp add: managed_ok_def)
  note fo = tls_destructor_outcome[OF c, of t] and pl = tls_destructor_placed[OF c, of t]
  then show ?thesis using ok heap_ok_mono pools_kept_nth(1)[of w "tls_destructor t w"] by (auto simp: managed_ok_def free_outcome_def)
qed

lemma managed_inv: "managed S U h w \<Longrightarrow> managed_ok S U h w"
proof (induction rule: managed.induct)
  case (allocated S U h w env fenv have_new t sz r h' w')
  then show ?case using allocated_managed by blast
qed (simp_all add: created_managed released_managed exited_managed)

text \<open>
  Claim C36. In every history of an engine's managed buffers an allocation returns; when it hands out a buffer, the buffer is not NULL, no
  other caller holds it, it is live heap memory, and it has at least the bytes that were asked for, whether it is new or was used and released
  before.
\<close>

theorem managed_alloc_fits:
  assumes "managed S U h w" and "fresh_env env w"
  shows "\<exists>r h' w'. aura_buffer_alloc env fenv have_new t sz h w = Some (r, h', w') \<and>
    (\<forall>b. r = Inr b \<longrightarrow> b \<noteq> 0 \<and> b \<notin># U \<and> b \<in># heap w' \<and> sz \<le> grant S w w' sz b)"
proof -
  have ok: "managed_ok S U h w" by (rule managed_inv[OF assms(1)])
  then have m: "map_wf (h_size_map h)" by (simp add: managed_ok_def tracked_def)
  have n: "(buf_size_map_insert have_new (h_size_map h) b c = None) = False" for b c using buf_map.insert_returns[OF m] by blast
  have "aura_buffer_alloc env fenv have_new t sz h w \<noteq> None"
    by (simp add: n aura_buffer_alloc_def split: prod.split sum.split option.split)
  then obtain r h' w' where a: "aura_buffer_alloc env fenv have_new t sz h w = Some (r, h', w')" by auto
  have "b \<noteq> 0 \<and> b \<notin># U \<and> b \<in># heap w' \<and> sz \<le> grant S w w' sz b" if r: "r = Inr b" for b
  proof -
    have p: "buffer_pool_alloc env t (h_pool h) sz w = (Inr b, w')" "0 < sz"
      using a r by (auto simp: aura_buffer_alloc_def split: if_splits prod.splits sum.splits option.splits)
    then have le: "sz \<le> BUFFER_POOL_MAX_SIZE" by (auto simp: buffer_pool_alloc_def split: if_splits)
    note g = pool_alloc_granted[OF ok assms(2) p(1)]
    have l: "b \<in># heap w'" using held_live[OF g(1), of b] by simp
    have "b \<notin># U" using g(1,2) by (auto simp: heap_ok_def conserved_def all_distinct_add)
    then show ?thesis using g(4) l granted_size[OF ok assms(2) g(6) l] class_fits[OF le] by simp
  qed
  then show ?thesis using a by blast
qed

text \<open>
  In every such history the size map knows exactly the buffers callers hold, each with the class of its size; a buffer kept by the
  pool lies under the class of its size; and the heap consists of the kept and the held buffers.
\<close>

theorem managed_buffers_tracked:
  assumes "managed S U h w"
  shows "(\<forall>b. b \<in># U \<longleftrightarrow> buf_map_abs (h_size_map h) b \<noteq> None) \<and>
    (\<forall>b c. buf_map_abs (h_size_map h) b = Some c \<longrightarrow> S b = class_to_size (unat c)) \<and>
    (\<forall>cls b. (cls, b) \<in> placed w \<longrightarrow> S b = class_to_size cls) \<and> heap w = world_cached w + U"
  using managed_inv[OF assms] by (auto simp: managed_ok_def tracked_def conserved_def)

section \<open>A concrete history\<close>

lemma demo_managed:
  obtains h where "managed (\<lambda>_. 0) {#} h demo_world" "h_pool h = 0" "buf_size_map_init True True = Some (h_size_map h)"
proof -
  obtain h w where c: "aura_create_with_options demo_create_env 1 0 (Some demo_options) new_world = (Inr h, w)" by (rule demo_created)
  then obtain e where "validate_and_init_engine_core demo_create_env 1 demo_options = Inr e"
      "init_engine_buffer_pool demo_create_env 0 e new_world = (Inr (h_pool h, h_size_map h), w)"
    by (auto simp: aura_create_with_options_def Let_def split: sum.splits prod.splits)
  moreover have "opt_buffer_alignment demo_options = 4096" by (simp add: demo_options_def aura_options_init_def)
  ultimately have "buffer_alignment e = 4096" "init_engine_buffer_pool demo_create_env 0 e new_world = (Inr (h_pool h, h_size_map h), w)"
    by (auto simp: validate_and_init_engine_core_def demo_create_env_def split: if_splits)
  then have i: "buffer_pool_init 2 True (\<lambda>_. True) 4096 new_world = (Inr (h_pool h), w)" "buf_size_map_init True True = Some (h_size_map h)"
    by (auto simp: init_engine_buffer_pool_def demo_create_env_def split: sum.splits prod.splits option.splits)
  have "calculate_shard_count 2 = calculate_shard_count 4" by (simp add: calculate_shard_count_def c_int_def c_div_def)
  then have "buffer_pool_init 2 True (\<lambda>_. True) 4096 new_world = buffer_pool_init 4 True (\<lambda>_. True) 4096 new_world"
    unfolding buffer_pool_init_def by simp
  then have d: "w = demo_world" using i(1) unfolding demo_world_def by (metis snd_conv)
  moreover have "h_pool h = 0" using i(1) by (auto simp: buffer_pool_init_def Let_def new_world_def split: if_splits)
  ultimately show thesis using that managed.created[OF c] i(2) by simp
qed

lemma demo_insert: "buf_size_map_init True True = Some m \<Longrightarrow> \<exists>m'. buf_size_map_insert a m 65536 0 = Some (Inr (), m')"
proof -
  assume "buf_size_map_init True True = Some m"
  then have m: "entries m = replicate 1024 empty_entry" "capacity m = 1024" "map_count m = 0" by (auto simp: buf_size_map_init_def)
  have "buf_map_hash 65536 1023 < 1024" by (simp add: buf_map_hash_def)
  then have "insert_probe (replicate 1024 empty_entry) 1023 65536 (buf_map_hash 65536 1023) (Suc 1023) = buf_map_hash 65536 1023"
    unfolding insert_probe.simps(2) by (simp add: empty_entry_def)
  then have "insert_probe (replicate 1024 empty_entry) 1023 65536 (buf_map_hash 65536 1023) 1024 = buf_map_hash 65536 1023" by simp
  then show ?thesis using m \<open>buf_map_hash 65536 1023 < 1024\<close> by (simp add: buf_size_map_insert_def insert_at_def empty_entry_def)
qed

lemma demo_managed_alloc:
  assumes "h_pool h = 0" "buf_size_map_init True True = Some (h_size_map h)"
  obtains h' where "aura_buffer_alloc demo_env demo_env True 7 100 h demo_world = Some (Inr 65536, h', demo_used)"
  using demo_insert[OF assms(2), of True] demo_used_alloc assms(1) that by (auto simp: aura_buffer_alloc_def size_to_class_def)

theorem managed_alloc_fits_witness:
  "\<exists>h h'. managed (\<lambda>_. 0) {#} h demo_world \<and> aura_buffer_alloc demo_env demo_env True 7 100 h demo_world = Some (Inr 65536, h', demo_used) \<and>
     100 \<le> grant (\<lambda>_. 0) demo_world demo_used 100 65536"
proof -
  obtain h where h: "managed (\<lambda>_. 0) {#} h demo_world" "h_pool h = 0" "buf_size_map_init True True = Some (h_size_map h)" by (rule demo_managed)
  obtain h' where a: "aura_buffer_alloc demo_env demo_env True 7 100 h demo_world = Some (Inr 65536, h', demo_used)"
    using demo_managed_alloc[OF h(2,3)] .
  from managed_alloc_fits[OF h(1) demo_fresh, of demo_env True 7 100] a h(1) show ?thesis by auto
qed

theorem managed_buffers_tracked_witness:
  "\<exists>h. managed (grant (\<lambda>_. 0) demo_world demo_used 100) {#65536#} h demo_used \<and> buf_map_abs (h_size_map h) 65536 \<noteq> None"
proof -
  obtain h where h: "managed (\<lambda>_. 0) {#} h demo_world" "h_pool h = 0" "buf_size_map_init True True = Some (h_size_map h)" by (rule demo_managed)
  obtain h' where a: "aura_buffer_alloc demo_env demo_env True 7 100 h demo_world = Some (Inr 65536, h', demo_used)"
    using demo_managed_alloc[OF h(2,3)] .
  have m: "managed (grant (\<lambda>_. 0) demo_world demo_used 100) {#65536#} h' demo_used"
    using managed.allocated[OF h(1) demo_fresh a] by simp
  from managed_buffers_tracked[OF this] m show ?thesis by (auto intro!: exI[of _ h'])
qed

end
