(* ===== verification/Bffio_Jobs.thy ===== *)
theory Bffio_Jobs
  imports Aura_Prelude
begin

text \<open>
  The job parser of the benchmark (src/tools/BFFIO/job_parser.c): numbers, sizes and patterns, the parameters of a job, the job file and the
  command line, normalisation and validation. A C string is a list of characters other than NUL. \<open>strtod\<close> is an argument; a file is its
  content, \<open>None\<close> when it cannot be opened. The array of jobs grows by \<open>realloc\<close>, which may fail and may move it: a pointer to a job is the
  block it points into and an index.
\<close>

section \<open>Characters and numbers\<close>

definition isspace :: "char \<Rightarrow> bool" where
  "isspace c \<longleftrightarrow> c = CHR '' '' \<or> of_char c \<in> {9..13 :: nat}"

definition isdigit :: "char \<Rightarrow> bool" where
  "isdigit c \<longleftrightarrow> of_char c \<in> {48..57 :: nat}"

definition tolower :: "char \<Rightarrow> char" where
  "tolower c = (let n = of_char c :: nat in if n \<in> {65..90} then char_of (n + 32) else c)"

definition strcasecmp_eq :: "string \<Rightarrow> string \<Rightarrow> bool" where
  "strcasecmp_eq a b \<longleftrightarrow> map tolower a = map tolower b"

definition digits_value :: "string \<Rightarrow> nat" where
  "digits_value ds = foldl (\<lambda>n c. 10 * n + (of_char c - 48)) 0 ds"

text \<open>
  What \<open>strtol\<close> and \<open>strtoull\<close> read in base 10: white space, a sign and digits. \<open>None\<close> when there are no digits, otherwise the sign, the
  value and the rest.
\<close>

definition scan_number :: "string \<Rightarrow> (bool \<times> nat \<times> string) option" where
  "scan_number s =
     (let s1 = dropWhile isspace s;
          neg = (s1 \<noteq> [] \<and> hd s1 = CHR ''-'');
          s2 = (if s1 \<noteq> [] \<and> hd s1 \<in> {CHR ''-'', CHR ''+''} then tl s1 else s1);
          ds = takeWhile isdigit s2
      in if ds = [] then None else Some (neg, digits_value ds, dropWhile isdigit s2))"

abbreviation INT_MIN :: int where "INT_MIN \<equiv> - 2147483648"

text \<open>A value beyond \<open>long\<close> sets \<open>errno\<close> and is refused like any other beyond \<open>int\<close>.\<close>

definition parse_int :: "string \<Rightarrow> int option" where
  "parse_int s =
     (case scan_number s of
        None \<Rightarrow> None
      | Some (neg, n, rest) \<Rightarrow>
          let val = (if neg then - int n else int n)
          in if rest \<noteq> [] \<or> val < INT_MIN \<or> val > INT_MAX then None else Some val)"

definition strip :: "string \<Rightarrow> string" where
  "strip s = rev (dropWhile isspace (rev (dropWhile isspace s)))"

text \<open>Zero is the error value. A negative number wraps around, and so does the product.\<close>

definition parse_size_fio :: "string \<Rightarrow> u64" where
  "parse_size_fio str =
     (case scan_number str of
        None \<Rightarrow> 0
      | Some (neg, n, rest) \<Rightarrow>
          if n \<ge> 2 ^ 64 then 0
          else
            let val = (if neg then - of_nat n else of_nat n) :: u64
            in case rest of
                 [] \<Rightarrow> val
               | ch # _ \<Rightarrow>
                   if tolower ch = CHR ''k'' then val * 1024
                   else if tolower ch = CHR ''m'' then val * 1048576
                   else if tolower ch = CHR ''g'' then val * 1073741824 else 0)"

text \<open>\<open>None\<close> stands for -1. \<open>strtod\<close> answers the value and the rest, the text itself when there is no number.\<close>

definition parse_latency :: "(string \<Rightarrow> real \<times> string) \<Rightarrow> string \<Rightarrow> real option" where
  "parse_latency strtod str =
     (if str = [] then None
      else case strtod str of (val, rest) \<Rightarrow>
        if rest = str \<or> val < 0 then None
        else if rest = [] then Some val
        else if map tolower (take 2 rest) = ''us'' then Some (val / 1000)
        else if map tolower (take 2 rest) = ''ms'' then Some val
        else if tolower (hd rest) = CHR ''s'' then Some (val * 1000) else None)"

section \<open>Patterns\<close>

datatype rw_pattern = RW_READ | RW_WRITE | RW_RANDREAD | RW_RANDWRITE | RW_READWRITE | RW_RANDRW
datatype output_format = OUTPUT_NORMAL | OUTPUT_JSON
datatype file_service_type = FST_ROUNDROBIN | FST_SEQUENTIAL | FST_RANDOM

definition rw_table :: "(string \<times> rw_pattern) list" where
  "rw_table = [(''read'', RW_READ), (''write'', RW_WRITE), (''randread'', RW_RANDREAD), (''randwrite'', RW_RANDWRITE),
     (''readwrite'', RW_READWRITE), (''rw'', RW_READWRITE), (''randrw'', RW_RANDRW)]"

definition parse_rw :: "string \<Rightarrow> rw_pattern option" where
  "parse_rw str = map_option snd (find (\<lambda>(name, p). strcasecmp_eq str name) rw_table)"

fun rw_pattern_name :: "rw_pattern \<Rightarrow> string" where
  "rw_pattern_name RW_READ = ''read''"
| "rw_pattern_name RW_WRITE = ''write''"
| "rw_pattern_name RW_RANDREAD = ''randread''"
| "rw_pattern_name RW_RANDWRITE = ''randwrite''"
| "rw_pattern_name RW_READWRITE = ''readwrite''"
| "rw_pattern_name RW_RANDRW = ''randrw''"

fun file_service_type_name :: "file_service_type \<Rightarrow> string" where
  "file_service_type_name FST_ROUNDROBIN = ''roundrobin''"
| "file_service_type_name FST_SEQUENTIAL = ''sequential''"
| "file_service_type_name FST_RANDOM = ''random''"

section \<open>Jobs\<close>

record job_config =
  jc_name :: string
  jc_rw :: rw_pattern
  jc_rw_set :: bool
  jc_bs :: u64
  jc_size :: u64
  jc_filename :: string
  jc_directory :: string
  jc_direct :: int
  jc_runtime_sec :: int
  jc_time_based :: int
  jc_ramp_time_sec :: int
  jc_numjobs :: int
  jc_iodepth :: int
  jc_nrfiles :: int
  jc_filesize :: u64
  jc_file_service_type :: file_service_type
  jc_rwmixread :: int
  jc_group_reporting :: int
  jc_fsync_freq :: int
  jc_target_p99_ms :: real
  jc_ring_select :: int
  jc_sqpoll :: int

definition job_config_defaults :: job_config where
  "job_config_defaults = \<lparr>jc_name = ''default'', jc_rw = RW_READ, jc_rw_set = False, jc_bs = 4096, jc_size = 0, jc_filename = '''', jc_directory = '''',
     jc_direct = 0, jc_runtime_sec = 0, jc_time_based = 0, jc_ramp_time_sec = 0, jc_numjobs = 1, jc_iodepth = 256, jc_nrfiles = 1, jc_filesize = 0,
     jc_file_service_type = FST_ROUNDROBIN, jc_rwmixread = 50, jc_group_reporting = 0, jc_fsync_freq = 0, jc_target_p99_ms = 0, jc_ring_select = 0,
     jc_sqpoll = 0\<rparr>"

text \<open>\<open>snprintf\<close> into the name (128 bytes) and into a path (\<open>PATH_MAX\<close>, 4096 bytes).\<close>

abbreviation fit_name :: "string \<Rightarrow> string" where "fit_name s \<equiv> take 127 s"
abbreviation fit_path :: "string \<Rightarrow> string" where "fit_path s \<equiv> take 4095 s"

text \<open>The integer parameters: a value in \<open>[lo, hi]\<close> is stored, anything else is an error.\<close>

definition int_param :: "int \<Rightarrow> int \<Rightarrow> string \<Rightarrow> (int \<Rightarrow> job_config) \<Rightarrow> job_config option" where
  "int_param lo hi val set_field = (case parse_int val of None \<Rightarrow> None | Some v \<Rightarrow> if v < lo \<or> v > hi then None else Some (set_field v))"

definition size_param :: "string \<Rightarrow> (u64 \<Rightarrow> job_config) \<Rightarrow> job_config option" where
  "size_param val set_field = (let sz = parse_size_fio val in if sz = 0 then None else Some (set_field sz))"

text \<open>\<open>None\<close> stands for -1. An unknown parameter is skipped with a warning.\<close>

definition apply_param :: "(string \<Rightarrow> real \<times> string) \<Rightarrow> job_config \<Rightarrow> string \<Rightarrow> string \<Rightarrow> job_config option" where
  "apply_param strtod job key val =
     (if strcasecmp_eq key ''ioengine'' then Some job
      else if key \<in> {''rw'', ''readwrite''} then map_option (\<lambda>p. job\<lparr>jc_rw := p, jc_rw_set := True\<rparr>) (parse_rw val)
      else if key \<in> {''bs'', ''blocksize''} then size_param val (\<lambda>sz. job\<lparr>jc_bs := sz\<rparr>)
      else if key = ''size'' then size_param val (\<lambda>sz. job\<lparr>jc_size := sz\<rparr>)
      else if key = ''filename'' then Some (job\<lparr>jc_filename := fit_path val\<rparr>)
      else if key = ''directory'' then Some (job\<lparr>jc_directory := fit_path val\<rparr>)
      else if key = ''direct'' then int_param INT_MIN INT_MAX val (\<lambda>v. job\<lparr>jc_direct := v\<rparr>)
      else if key = ''runtime'' then int_param 0 INT_MAX val (\<lambda>v. job\<lparr>jc_runtime_sec := v\<rparr>)
      else if key = ''time_based'' then
        (if val = [] then Some (job\<lparr>jc_time_based := 1\<rparr>) else int_param INT_MIN INT_MAX val (\<lambda>v. job\<lparr>jc_time_based := v\<rparr>))
      else if key = ''ramp_time'' then int_param 0 INT_MAX val (\<lambda>v. job\<lparr>jc_ramp_time_sec := v\<rparr>)
      else if key = ''numjobs'' then int_param 1 INT_MAX val (\<lambda>v. job\<lparr>jc_numjobs := v\<rparr>)
      else if key = ''iodepth'' then int_param 1 INT_MAX val (\<lambda>v. job\<lparr>jc_iodepth := v\<rparr>)
      else if key = ''rwmixread'' then int_param 0 100 val (\<lambda>v. job\<lparr>jc_rwmixread := v\<rparr>)
      else if key = ''group_reporting'' then
        (if val = [] then Some (job\<lparr>jc_group_reporting := 1\<rparr>) else int_param INT_MIN INT_MAX val (\<lambda>v. job\<lparr>jc_group_reporting := v\<rparr>))
      else if key = ''fsync'' then int_param 0 INT_MAX val (\<lambda>v. job\<lparr>jc_fsync_freq := v\<rparr>)
      else if key = ''name'' then Some (job\<lparr>jc_name := fit_name val\<rparr>)
      else if key \<in> {''target_p99'', ''target-p99''} then map_option (\<lambda>ms. job\<lparr>jc_target_p99_ms := ms\<rparr>) (parse_latency strtod val)
      else if key = ''nrfiles'' then int_param 1 INT_MAX val (\<lambda>v. job\<lparr>jc_nrfiles := v\<rparr>)
      else if key = ''filesize'' then size_param val (\<lambda>sz. job\<lparr>jc_filesize := sz\<rparr>)
      else if key = ''file_service_type'' then
        (if strcasecmp_eq val ''roundrobin'' then Some (job\<lparr>jc_file_service_type := FST_ROUNDROBIN\<rparr>)
         else if strcasecmp_eq val ''sequential'' then Some (job\<lparr>jc_file_service_type := FST_SEQUENTIAL\<rparr>)
         else if strcasecmp_eq val ''random'' then Some (job\<lparr>jc_file_service_type := FST_RANDOM\<rparr>) else None)
      else if key \<in> {''ring_select'', ''ring-select''} then
        (if strcasecmp_eq val ''adaptive'' then Some (job\<lparr>jc_ring_select := 0\<rparr>)
         else if strcasecmp_eq val ''cpu_local'' then Some (job\<lparr>jc_ring_select := 1\<rparr>)
         else if strcasecmp_eq val ''round_robin'' then Some (job\<lparr>jc_ring_select := 2\<rparr>)
         else if strcasecmp_eq val ''thread_local'' then Some (job\<lparr>jc_ring_select := 3\<rparr>) else None)
      else if key = ''sqpoll'' then int_param INT_MIN INT_MAX val (\<lambda>v. job\<lparr>jc_sqpoll := v\<rparr>)
      else Some job)"

section \<open>The array of jobs\<close>

text \<open>\<open>bc_block\<close> names the memory block of the array; \<open>num_jobs\<close> is the length of the list.\<close>

record bench_config =
  bc_jobs :: "job_config list"
  bc_capacity :: nat
  bc_block :: nat
  bc_output_format :: output_format
  bc_output_file :: string

record realloc_env =
  re_ok :: "nat \<Rightarrow> bool"
  re_moves :: "nat \<Rightarrow> bool"

abbreviation INITIAL_JOBS_CAPACITY :: nat where "INITIAL_JOBS_CAPACITY \<equiv> 8"

definition bench_config_grow :: "realloc_env \<Rightarrow> bench_config \<Rightarrow> bench_config option" where
  "bench_config_grow env cfg =
     (if length (bc_jobs cfg) < bc_capacity cfg then Some cfg
      else
        let cap = max (bc_capacity cfg * 2) INITIAL_JOBS_CAPACITY
        in if \<not> re_ok env cap then None
           else Some (cfg\<lparr>bc_capacity := cap, bc_block := (if re_moves env cap then bc_block cfg + 1 else bc_block cfg)\<rparr>))"

definition bench_config_free :: "bench_config \<Rightarrow> bench_config" where
  "bench_config_free cfg = cfg\<lparr>bc_jobs := [], bc_capacity := 0\<rparr>"

text \<open>A new job at the end of the array, a copy of the defaults with its name.\<close>

definition add_job :: "realloc_env \<Rightarrow> job_config \<Rightarrow> string \<Rightarrow> bench_config \<Rightarrow> bench_config option" where
  "add_job env global name cfg =
     map_option (\<lambda>c. c\<lparr>bc_jobs := bc_jobs c @ [global\<lparr>jc_name := fit_name name\<rparr>]\<rparr>) (bench_config_grow env cfg)"

section \<open>Job files\<close>

text \<open>\<open>fgets\<close> with a buffer of 1024 bytes: up to a newline or 1023 characters; the C string ends at a NUL.\<close>

abbreviation newline :: char where "newline \<equiv> CHR 0x0A"

definition fgets_len :: "string \<Rightarrow> nat" where
  "fgets_len s = (let n = length (takeWhile (\<lambda>c. c \<noteq> newline) s) in min 1023 (if n < length s then n + 1 else n))"

function fgets_lines :: "string \<Rightarrow> string list" where
  "fgets_lines s = (if s = [] then [] else take (fgets_len s) s # fgets_lines (drop (fgets_len s) s))"
  by auto
termination
proof (relation "measure length")
  fix s :: string assume "s \<noteq> []"
  then have "0 < fgets_len s" by (cases s) (auto simp: fgets_len_def)
  then show "(drop (fgets_len s) s, s) \<in> measure length" using \<open>s \<noteq> []\<close> by simp
qed simp

declare fgets_lines.simps [simp del]

definition c_str :: "string \<Rightarrow> string" where
  "c_str s = takeWhile (\<lambda>c. c \<noteq> CHR 0x00) s"

record file_state =
  fs_global :: job_config
  fs_current :: "nat option"
  fs_in_global :: bool
  fs_config :: bench_config

definition section_line :: "realloc_env \<Rightarrow> string \<Rightarrow> file_state \<Rightarrow> file_state option" where
  "section_line env line st =
     (if CHR '']'' \<notin> set line then None
      else
        let name = strip (takeWhile (\<lambda>c. c \<noteq> CHR '']'') (tl line))
        in if strcasecmp_eq name ''global'' then Some (st\<lparr>fs_in_global := True, fs_current := None\<rparr>)
           else (case add_job env (fs_global st) name (fs_config st) of
                   None \<Rightarrow> None
                 | Some cfg \<Rightarrow>
                     Some (st\<lparr>fs_in_global := False, fs_current := Some (length (bc_jobs (fs_config st))), fs_config := cfg\<rparr>)))"

definition split_param :: "string \<Rightarrow> string \<times> string" where
  "split_param line =
     (if CHR ''='' \<in> set line
      then (strip (takeWhile (\<lambda>c. c \<noteq> CHR ''='') line), strip (tl (dropWhile (\<lambda>c. c \<noteq> CHR ''='') line)))
      else (strip line, []))"

definition param_line :: "(string \<Rightarrow> real \<times> string) \<Rightarrow> string \<Rightarrow> file_state \<Rightarrow> file_state option" where
  "param_line strtod line st =
     (let (key, val) = split_param line
      in case (if fs_in_global st then None else fs_current st) of
           None \<Rightarrow> map_option (\<lambda>g. st\<lparr>fs_global := g\<rparr>) (apply_param strtod (fs_global st) key val)
         | Some i \<Rightarrow>
             map_option (\<lambda>j. st\<lparr>fs_config := (fs_config st)\<lparr>bc_jobs := (bc_jobs (fs_config st))[i := j]\<rparr>\<rparr>)
               (apply_param strtod (bc_jobs (fs_config st) ! i) key val))"

definition parse_line :: "(string \<Rightarrow> real \<times> string) \<Rightarrow> realloc_env \<Rightarrow> string \<Rightarrow> file_state \<Rightarrow> file_state option" where
  "parse_line strtod env buf st =
     (let line = strip (c_str buf)
      in if line = [] \<or> hd line \<in> {CHR ''#'', CHR '';''} then Some st
         else if hd line = CHR ''['' then section_line env line st
         else param_line strtod line st)"

fun parse_lines :: "(string \<Rightarrow> real \<times> string) \<Rightarrow> realloc_env \<Rightarrow> string list \<Rightarrow> file_state \<Rightarrow> file_state option" where
  "parse_lines strtod env [] st = Some st"
| "parse_lines strtod env (l # ls) st = (case parse_line strtod env l st of None \<Rightarrow> None | Some st' \<Rightarrow> parse_lines strtod env ls st')"

text \<open>The result is \<open>None\<close> where the source returns -1.\<close>

definition job_parse_file :: "(string \<Rightarrow> real \<times> string) \<Rightarrow> realloc_env \<Rightarrow> string option \<Rightarrow> bench_config \<Rightarrow> bench_config option" where
  "job_parse_file strtod env content cfg =
     (case content of
        None \<Rightarrow> None
      | Some text \<Rightarrow>
          map_option fs_config (parse_lines strtod env (fgets_lines text)
            \<lparr>fs_global = job_config_defaults, fs_current = None, fs_in_global = False, fs_config = cfg\<rparr>))"

section \<open>The command line\<close>

text \<open>
  A pointer to the current job is the block and the index it was taken with. Using it after the array has moved is an access to freed memory.
\<close>

datatype cli_error = ParseFailed | FreedJob

record cli_state =
  cs_global :: job_config
  cs_current :: "(nat \<times> nat) option"
  cs_config :: bench_config

definition cli_param :: "(string \<Rightarrow> real \<times> string) \<Rightarrow> string \<Rightarrow> string \<Rightarrow> cli_state \<Rightarrow> cli_error + cli_state" where
  "cli_param strtod key val st =
     (case cs_current st of
        None \<Rightarrow>
          (case apply_param strtod (cs_global st) key val of None \<Rightarrow> Inl ParseFailed | Some g \<Rightarrow> Inr (st\<lparr>cs_global := g\<rparr>))
      | Some (blk, i) \<Rightarrow>
          if blk \<noteq> bc_block (cs_config st) then Inl FreedJob
          else (case apply_param strtod (bc_jobs (cs_config st) ! i) key val of
                  None \<Rightarrow> Inl ParseFailed
                | Some j \<Rightarrow> Inr (st\<lparr>cs_config := (cs_config st)\<lparr>bc_jobs := (bc_jobs (cs_config st))[i := j]\<rparr>\<rparr>)))"

definition cli_option :: "(string \<Rightarrow> real \<times> string) \<Rightarrow> realloc_env \<Rightarrow> string \<Rightarrow> string \<Rightarrow> cli_state \<Rightarrow> cli_error + cli_state" where
  "cli_option strtod env key val st =
     (if key \<in> {''output-format'', ''output_format''} then
        Inr (st\<lparr>cs_config := (cs_config st)\<lparr>bc_output_format := (if strcasecmp_eq val ''json'' then OUTPUT_JSON else OUTPUT_NORMAL)\<rparr>\<rparr>)
      else if key = ''output'' then Inr (st\<lparr>cs_config := (cs_config st)\<lparr>bc_output_file := fit_path val\<rparr>\<rparr>)
      else if key = ''name'' then
        (case add_job env (cs_global st) val (cs_config st) of
           None \<Rightarrow> Inl ParseFailed
         | Some cfg \<Rightarrow> Inr (st\<lparr>cs_config := cfg, cs_current := Some (bc_block cfg, length (bc_jobs (cs_config st)))\<rparr>))
      else cli_param strtod key val st)"

definition strip_dashes :: "string \<Rightarrow> string" where
  "strip_dashes arg =
     (let s1 = (if arg \<noteq> [] \<and> hd arg = CHR ''-'' then tl arg else arg)
      in if s1 \<noteq> [] \<and> hd s1 = CHR ''-'' then tl s1 else s1)"

definition starts_with_dash :: "string \<Rightarrow> bool" where
  "starts_with_dash arg \<longleftrightarrow> arg \<noteq> [] \<and> hd arg = CHR ''-''"

definition is_fio_name :: "string \<Rightarrow> bool" where
  "is_fio_name arg \<longleftrightarrow> length arg \<ge> 4 \<and> drop (length arg - 4) arg = ''.fio''"

text \<open>A key before \<open>=\<close> is cut to 255 characters; without \<open>=\<close> the next argument is the value unless it starts with a dash.\<close>

function cli_args ::
    "(string \<Rightarrow> real \<times> string) \<Rightarrow> realloc_env \<Rightarrow> (string \<Rightarrow> string option) \<Rightarrow> string list \<Rightarrow> cli_state \<Rightarrow> cli_error + cli_state" where
  "cli_args strtod env read_file [] st = Inr st"
| "cli_args strtod env read_file (arg # args) st =
     (if \<not> starts_with_dash arg then
        (if is_fio_name arg then
           (case job_parse_file strtod env (read_file arg) (cs_config st) of
              None \<Rightarrow> Inl ParseFailed
            | Some cfg \<Rightarrow> cli_args strtod env read_file args (st\<lparr>cs_config := cfg\<rparr>))
         else Inl ParseFailed)
      else
        let param = strip_dashes arg
        in if CHR ''='' \<in> set param then
             (case cli_option strtod env (take 255 (takeWhile (\<lambda>c. c \<noteq> CHR ''='') param)) (tl (dropWhile (\<lambda>c. c \<noteq> CHR ''='') param)) st of
                Inl e \<Rightarrow> Inl e
              | Inr st' \<Rightarrow> cli_args strtod env read_file args st')
           else if args \<noteq> [] \<and> \<not> starts_with_dash (hd args) then
             (case cli_option strtod env param (hd args) st of
                Inl e \<Rightarrow> Inl e
              | Inr st' \<Rightarrow> cli_args strtod env read_file (tl args) st')
           else
             (case cli_option strtod env param [] st of
                Inl e \<Rightarrow> Inl e
              | Inr st' \<Rightarrow> cli_args strtod env read_file args st'))"
  by pat_completeness auto
termination by (relation "measure (\<lambda>(strtod, env, read_file, args, st). length args)") auto

definition empty_config :: bench_config where
  "empty_config = \<lparr>bc_jobs = [], bc_capacity = 0, bc_block = 0, bc_output_format = OUTPUT_NORMAL, bc_output_file = []\<rparr>"

definition job_parse_cli ::
    "(string \<Rightarrow> real \<times> string) \<Rightarrow> realloc_env \<Rightarrow> (string \<Rightarrow> string option) \<Rightarrow> string list \<Rightarrow> cli_error + bench_config" where
  "job_parse_cli strtod env read_file args =
     (case cli_args strtod env read_file args \<lparr>cs_global = job_config_defaults, cs_current = None, cs_config = empty_config\<rparr> of
        Inl e \<Rightarrow> Inl e
      | Inr st \<Rightarrow>
          if bc_jobs (cs_config st) = [] \<and> jc_rw_set (cs_global st) then
            (case add_job env (cs_global st) ''job0'' (cs_config st) of None \<Rightarrow> Inl ParseFailed | Some cfg \<Rightarrow> Inr cfg)
          else Inr (cs_config st))"

section \<open>Normalisation and validation\<close>

definition job_config_normalize :: "job_config \<Rightarrow> job_config" where
  "job_config_normalize job =
     (if jc_nrfiles job \<le> 1 then job
      else let n = word_of_int (jc_nrfiles job) :: u64
        in if jc_filesize job > 0 then
             (if jc_filesize job > (- 1) div n then job\<lparr>jc_size := - 1\<rparr> else job\<lparr>jc_size := jc_filesize job * n\<rparr>)
           else if jc_size job > 0 then job\<lparr>jc_filesize := jc_size job div n\<rparr>
           else job)"

definition job_config_validate :: "job_config \<Rightarrow> bool" where
  "job_config_validate job \<longleftrightarrow>
     jc_rw_set job \<and> \<not> (jc_size job = 0 \<and> \<not> (jc_runtime_sec job > 0 \<and> jc_time_based job \<noteq> 0)) \<and>
     \<not> (jc_filename job = [] \<and> jc_directory job = []) \<and> \<not> jc_numjobs job < 1 \<and> \<not> jc_iodepth job < 1 \<and>
     \<not> (jc_rwmixread job < 0 \<or> jc_rwmixread job > 100) \<and> jc_bs job \<noteq> 0 \<and> \<not> (jc_nrfiles job > 1 \<and> jc_filename job \<noteq> [])"

section \<open>What a job file means\<close>

text \<open>
  A job file as sections of parameters, its text, and the jobs it stands for: a section called \<open>global\<close> changes the defaults of the sections
  after it, any other is a job with the defaults of its place and its own parameters.
\<close>

type_synonym ini_section = "string \<times> (string \<times> string) list"

definition render_param :: "string \<times> string \<Rightarrow> string" where
  "render_param kv = fst kv @ CHR ''='' # snd kv"

definition render_section :: "ini_section \<Rightarrow> string list" where
  "render_section sec = (CHR ''['' # fst sec @ [CHR '']'']) # map render_param (snd sec)"

definition render_file :: "ini_section list \<Rightarrow> string" where
  "render_file secs = concat (map (\<lambda>l. l @ [newline]) (concat (map render_section secs)))"

fun apply_params :: "(string \<Rightarrow> real \<times> string) \<Rightarrow> (string \<times> string) list \<Rightarrow> job_config \<Rightarrow> job_config option" where
  "apply_params strtod [] job = Some job"
| "apply_params strtod (kv # kvs) job =
     (case apply_param strtod job (fst kv) (snd kv) of None \<Rightarrow> None | Some job' \<Rightarrow> apply_params strtod kvs job')"

fun jobs_of :: "(string \<Rightarrow> real \<times> string) \<Rightarrow> ini_section list \<Rightarrow> job_config \<Rightarrow> job_config list option" where
  "jobs_of strtod [] global = Some []"
| "jobs_of strtod (sec # secs) global =
     (if strcasecmp_eq (fst sec) ''global''
      then (case apply_params strtod (snd sec) global of None \<Rightarrow> None | Some g \<Rightarrow> jobs_of strtod secs g)
      else (case apply_params strtod (snd sec) (global\<lparr>jc_name := fit_name (fst sec)\<rparr>) of
              None \<Rightarrow> None
            | Some j \<Rightarrow> map_option (Cons j) (jobs_of strtod secs global)))"

text \<open>Texts that survive stripping, fit the line buffer and have no character with a meaning of its own.\<close>

definition plain :: "string \<Rightarrow> bool" where
  "plain s \<longleftrightarrow> newline \<notin> set s \<and> CHR 0x00 \<notin> set s \<and> (s = [] \<or> \<not> isspace (hd s) \<and> \<not> isspace (last s)) \<and> length s \<le> 500"

definition param_ok :: "string \<times> string \<Rightarrow> bool" where
  "param_ok kv \<longleftrightarrow> plain (fst kv) \<and> plain (snd kv) \<and> fst kv \<noteq> [] \<and> hd (fst kv) \<notin> {CHR ''['', CHR ''#'', CHR '';''} \<and> CHR ''='' \<notin> set (fst kv)"

definition section_ok :: "ini_section \<Rightarrow> bool" where
  "section_ok sec \<longleftrightarrow> plain (fst sec) \<and> CHR '']'' \<notin> set (fst sec) \<and> list_all param_ok (snd sec)"

section \<open>Reading lines\<close>

lemma strip_plain: "s = [] \<or> \<not> isspace (hd s) \<and> \<not> isspace (last s) \<Longrightarrow> strip s = s"
proof -
  assume s: "s = [] \<or> \<not> isspace (hd s) \<and> \<not> isspace (last s)"
  have a: "dropWhile isspace s = s" using s by (cases s) auto
  have "dropWhile isspace (rev s) = rev s" using s by (cases s rule: rev_cases) auto
  then show ?thesis by (simp add: strip_def a)
qed

lemma strip_newline: "s \<noteq> [] \<Longrightarrow> \<not> isspace (hd s) \<Longrightarrow> \<not> isspace (last s) \<Longrightarrow> strip (s @ [newline]) = s"
proof -
  assume s: "s \<noteq> []" "\<not> isspace (hd s)" "\<not> isspace (last s)"
  have n: "isspace newline" by (simp add: isspace_def)
  have a: "dropWhile isspace (s @ [newline]) = s @ [newline]" using s by (cases s) auto
  have "dropWhile isspace (rev s) = rev s" using s by (cases s rule: rev_cases) auto
  then show ?thesis by (simp add: strip_def a n)
qed

lemma fgets_line:
  assumes "newline \<notin> set l" "length l < 1023"
  shows "fgets_lines (l @ newline # r) = (l @ [newline]) # fgets_lines r"
proof -
  have "takeWhile (\<lambda>c. c \<noteq> newline) (l @ newline # r) = l" using assms(1) by (simp add: takeWhile_append)
  then have "fgets_len (l @ newline # r) = length l + 1" using assms(2) by (simp add: fgets_len_def)
  then show ?thesis by (subst fgets_lines.simps) simp
qed

lemma fgets_render: "list_all (\<lambda>l. newline \<notin> set l \<and> length l < 1023) ls \<Longrightarrow>
    fgets_lines (concat (map (\<lambda>l. l @ [newline]) ls)) = map (\<lambda>l. l @ [newline]) ls"
  by (induction ls) (simp_all add: fgets_line, subst fgets_lines.simps, simp)

lemma c_str_line: "CHR 0x00 \<notin> set l \<Longrightarrow> c_str (l @ [newline]) = l @ [newline]"
  by (simp add: c_str_def takeWhile_append)

lemma parse_line_strip: "l \<noteq> [] \<Longrightarrow> \<not> isspace (hd l) \<Longrightarrow> \<not> isspace (last l) \<Longrightarrow> CHR 0x00 \<notin> set l \<Longrightarrow>
    parse_line strtod env (l @ [newline]) st =
      (if hd l \<in> {CHR ''#'', CHR '';''} then Some st
       else if hd l = CHR ''['' then section_line env l st else param_line strtod l st)"
  by (simp add: parse_line_def c_str_line strip_newline)

lemma not_space: "\<not> isspace CHR ''[''" "\<not> isspace CHR '']''" "\<not> isspace CHR ''=''"
  by (simp_all add: isspace_def)

lemma parse_param_line:
  assumes "param_ok kv"
  shows "parse_line strtod env (render_param kv @ [newline]) st = param_line strtod (render_param kv) st"
    "split_param (render_param kv) = kv"
proof -
  obtain k v where kv: "kv = (k, v)" by (rule prod.exhaust)
  have k: "k \<noteq> []" "hd k \<notin> {CHR ''['', CHR ''#'', CHR '';''}" "CHR ''='' \<notin> set k" "plain k" "plain v"
    using assms by (auto simp: param_ok_def kv)
  have h: "hd (render_param kv) = hd k" "render_param kv \<noteq> []" "last (render_param kv) = (if v = [] then CHR ''='' else last v)"
    using k(1) by (simp_all add: kv render_param_def)
  have "\<not> isspace (hd (render_param kv))" "\<not> isspace (last (render_param kv))" "CHR 0x00 \<notin> set (render_param kv)"
    using k h not_space by (auto simp: plain_def kv render_param_def)
  then show "parse_line strtod env (render_param kv @ [newline]) st = param_line strtod (render_param kv) st"
    using parse_line_strip[OF h(2)] h(1) k(2) by auto
  have "takeWhile (\<lambda>c. c \<noteq> CHR ''='') (k @ CHR ''='' # v) = k" "dropWhile (\<lambda>c. c \<noteq> CHR ''='') (k @ CHR ''='' # v) = CHR ''='' # v"
    using k(3) by (simp_all add: takeWhile_append dropWhile_append)
  then show "split_param (render_param kv) = kv" using k strip_plain[of k] strip_plain[of v]
    by (simp add: split_param_def render_param_def kv plain_def)
qed

lemma parse_section_line:
  assumes "section_ok sec"
  shows "parse_line strtod env ((CHR ''['' # fst sec @ [CHR '']'']) @ [newline]) st =
    (if strcasecmp_eq (fst sec) ''global'' then Some (st\<lparr>fs_in_global := True, fs_current := None\<rparr>)
     else (case add_job env (fs_global st) (fst sec) (fs_config st) of
             None \<Rightarrow> None
           | Some cfg \<Rightarrow> Some (st\<lparr>fs_in_global := False, fs_current := Some (length (bc_jobs (fs_config st))), fs_config := cfg\<rparr>)))"
proof -
  let ?l = "CHR ''['' # fst sec @ [CHR '']'']"
  have s: "plain (fst sec)" "CHR '']'' \<notin> set (fst sec)" using assms by (auto simp: section_ok_def)
  have "parse_line strtod env (?l @ [newline]) st = section_line env ?l st"
    using parse_line_strip[of ?l] s(1) not_space by (simp add: plain_def)
  moreover have "takeWhile (\<lambda>c. c \<noteq> CHR '']'') (fst sec @ [CHR '']'']) = fst sec" using s(2) by (simp add: takeWhile_append)
  ultimately show ?thesis using strip_plain[of "fst sec"] s(1) by (simp add: section_line_def plain_def)
qed

section \<open>The parser finds the jobs of a file\<close>

lemma parse_lines_append: "parse_lines strtod env (xs @ ys) st =
    (case parse_lines strtod env xs st of None \<Rightarrow> None | Some st' \<Rightarrow> parse_lines strtod env ys st')"
  by (induction xs arbitrary: st) (simp_all split: option.split)

lemma global_params:
  assumes "list_all param_ok kvs" "fs_in_global st"
  shows "parse_lines strtod env (map (\<lambda>kv. render_param kv @ [newline]) kvs) st =
    map_option (\<lambda>g. st\<lparr>fs_global := g\<rparr>) (apply_params strtod kvs (fs_global st))"
  using assms by (induction kvs arbitrary: st) (simp_all add: parse_param_line param_line_def case_prod_beta split: option.split)

lemma job_params:
  assumes "list_all param_ok kvs" "\<not> fs_in_global st" "fs_current st = Some (length js)" "bc_jobs (fs_config st) = js @ [j]"
  shows "parse_lines strtod env (map (\<lambda>kv. render_param kv @ [newline]) kvs) st =
    map_option (\<lambda>j. st\<lparr>fs_config := (fs_config st)\<lparr>bc_jobs := js @ [j]\<rparr>\<rparr>) (apply_params strtod kvs j)"
  using assms
proof (induction kvs arbitrary: st j)
  case Nil
  then have "st\<lparr>fs_config := (fs_config st)\<lparr>bc_jobs := js @ [j]\<rparr>\<rparr> = st" by (metis (no_types, lifting) bench_config.surjective bench_config.update_convs(1)
        file_state.surjective file_state.update_convs(4) bench_config.select_convs(1) file_state.select_convs(4))
  then show ?case by simp
next
  case (Cons kv kvs)
  have ok: "param_ok kv" using Cons.prems(1) by simp
  show ?case
  proof (cases "apply_param strtod j (fst kv) (snd kv)")
    case None
    then show ?thesis using Cons.prems ok by (simp add: parse_param_line param_line_def case_prod_beta)
  next
    case (Some j')
    let ?st = "st\<lparr>fs_config := (fs_config st)\<lparr>bc_jobs := js @ [j']\<rparr>\<rparr>"
    have "parse_line strtod env (render_param kv @ [newline]) st = Some ?st"
      using Some Cons.prems ok by (simp add: parse_param_line param_line_def case_prod_beta)
    then show ?thesis using Cons.IH[of ?st j'] Cons.prems Some by simp
  qed
qed

lemma add_job_ok: "\<forall>n. re_ok env n \<Longrightarrow> \<exists>cfg'. add_job env g name cfg = Some cfg' \<and> bc_jobs cfg' = bc_jobs cfg @ [g\<lparr>jc_name := fit_name name\<rparr>]"
  by (simp add: add_job_def bench_config_grow_def Let_def)

lemma parse_sections:
  assumes "\<forall>n. re_ok env n" "list_all section_ok secs"
  shows "case jobs_of strtod secs (fs_global st) of
      None \<Rightarrow> parse_lines strtod env (map (\<lambda>l. l @ [newline]) (concat (map render_section secs))) st = None
    | Some js \<Rightarrow> \<exists>st'. parse_lines strtod env (map (\<lambda>l. l @ [newline]) (concat (map render_section secs))) st = Some st' \<and>
        bc_jobs (fs_config st') = bc_jobs (fs_config st) @ js"
  using assms(2)
proof (induction secs arbitrary: st)
  case (Cons sec secs)
  let ?ps = "map (\<lambda>kv. render_param kv @ [newline]) (snd sec)" and ?rest = "map (\<lambda>l. l @ [newline]) (concat (map render_section secs))"
  have sec: "section_ok sec" "list_all section_ok secs" using Cons.prems by simp_all
  then have prm: "list_all param_ok (snd sec)" by (simp add: section_ok_def)
  have e: "parse_lines strtod env (map (\<lambda>l. l @ [newline]) (concat (map render_section (sec # secs)))) st =
      (case parse_line strtod env ((CHR ''['' # fst sec @ [CHR '']'']) @ [newline]) st of
         None \<Rightarrow> None
       | Some st1 \<Rightarrow> (case parse_lines strtod env ?ps st1 of None \<Rightarrow> None | Some st2 \<Rightarrow> parse_lines strtod env ?rest st2))"
    by (simp add: render_section_def parse_lines_append o_def split: option.split)
  show ?case
  proof (cases "strcasecmp_eq (fst sec) ''global''")
    case True
    let ?st = "st\<lparr>fs_in_global := True, fs_current := None\<rparr>"
    have p: "parse_lines strtod env ?ps ?st = map_option (\<lambda>g. ?st\<lparr>fs_global := g\<rparr>) (apply_params strtod (snd sec) (fs_global st))"
      using global_params[OF prm, of ?st] by simp
    have s: "parse_line strtod env ((CHR ''['' # fst sec @ [CHR '']'']) @ [newline]) st = Some ?st"
      using parse_section_line[OF sec(1)] True by simp
    show ?thesis
    proof (cases "apply_params strtod (snd sec) (fs_global st)")
      case None
      then show ?thesis unfolding e s using p True by simp
    next
      case (Some g)
      have "parse_lines strtod env ?ps ?st = Some (?st\<lparr>fs_global := g\<rparr>)" using p Some by simp
      then show ?thesis unfolding e s using Cons.IH[OF sec(2), of "?st\<lparr>fs_global := g\<rparr>"] Some True
        by (cases "jobs_of strtod secs g") simp_all
    qed
  next
    case False
    obtain cfg where c: "add_job env (fs_global st) (fst sec) (fs_config st) = Some cfg"
        "bc_jobs cfg = bc_jobs (fs_config st) @ [(fs_global st)\<lparr>jc_name := fit_name (fst sec)\<rparr>]" using add_job_ok[OF assms(1)] by blast
    let ?st = "st\<lparr>fs_in_global := False, fs_current := Some (length (bc_jobs (fs_config st))), fs_config := cfg\<rparr>"
    let ?a = "apply_params strtod (snd sec) ((fs_global st)\<lparr>jc_name := fit_name (fst sec)\<rparr>)"
    have p: "parse_lines strtod env ?ps ?st = map_option (\<lambda>j. ?st\<lparr>fs_config := cfg\<lparr>bc_jobs := bc_jobs (fs_config st) @ [j]\<rparr>\<rparr>) ?a"
      using job_params[OF prm, of ?st "bc_jobs (fs_config st)"] c(2) by simp
    have s: "parse_line strtod env ((CHR ''['' # fst sec @ [CHR '']'']) @ [newline]) st = Some ?st"
      using parse_section_line[OF sec(1)] False c(1) by simp
    show ?thesis
    proof (cases ?a)
      case None
      then show ?thesis unfolding e s using p False by simp
    next
      case (Some j)
      let ?st2 = "?st\<lparr>fs_config := cfg\<lparr>bc_jobs := bc_jobs (fs_config st) @ [j]\<rparr>\<rparr>"
      have "parse_lines strtod env ?ps ?st = Some ?st2" using p Some by simp
      then show ?thesis unfolding e s using Cons.IH[OF sec(2), of ?st2] Some False
        by (cases "jobs_of strtod secs (fs_global st)") simp_all
    qed
  qed
qed simp

text \<open>
  Claim C37. Reading a job file gives exactly the jobs its sections stand for: for any sections of plain names and parameters, parsing their
  text adds one job for each section other than \<open>global\<close>, in order, with the defaults the global sections before it have set and its own
  parameters, and fails exactly when a parameter has an invalid value.
\<close>

theorem job_file_meaning:
  assumes "\<forall>n. re_ok env n" and "list_all section_ok secs"
  shows "case jobs_of strtod secs job_config_defaults of
      None \<Rightarrow> job_parse_file strtod env (Some (render_file secs)) cfg = None
    | Some js \<Rightarrow> \<exists>cfg'. job_parse_file strtod env (Some (render_file secs)) cfg = Some cfg' \<and> bc_jobs cfg' = bc_jobs cfg @ js"
proof -
  have "list_all (\<lambda>l. newline \<notin> set l \<and> length l < 1023) (render_section sec)" if "section_ok sec" for sec
    using that by (auto simp: section_ok_def render_section_def plain_def param_ok_def render_param_def list_all_iff)
  then have "list_all (\<lambda>l. newline \<notin> set l \<and> length l < 1023) (concat (map render_section secs))"
    using assms(2) unfolding list_all_iff by auto
  then have "fgets_lines (render_file secs) = map (\<lambda>l. l @ [newline]) (concat (map render_section secs))"
    unfolding render_file_def by (rule fgets_render)
  moreover let ?st = "\<lparr>fs_global = job_config_defaults, fs_current = None, fs_in_global = False, fs_config = cfg\<rparr>"
  note parse_sections[OF assms, of strtod ?st]
  ultimately show ?thesis by (auto simp: job_parse_file_def split: option.splits)
qed

section \<open>Accepted jobs are within their ranges\<close>

definition job_ok :: "job_config \<Rightarrow> bool" where
  "job_ok j \<longleftrightarrow> 1 \<le> jc_numjobs j \<and> 1 \<le> jc_iodepth j \<and> 1 \<le> jc_nrfiles j \<and> 0 \<le> jc_rwmixread j \<and> jc_rwmixread j \<le> 100 \<and> jc_bs j \<noteq> 0 \<and>
     0 \<le> jc_runtime_sec j \<and> 0 \<le> jc_ramp_time_sec j \<and> 0 \<le> jc_fsync_freq j \<and> 0 \<le> jc_target_p99_ms j \<and>
     0 \<le> jc_ring_select j \<and> jc_ring_select j \<le> 3 \<and> length (jc_name j) \<le> 127 \<and> length (jc_filename j) \<le> 4095 \<and> length (jc_directory j) \<le> 4095"

definition config_ok :: "bench_config \<Rightarrow> bool" where
  "config_ok cfg \<longleftrightarrow> length (bc_jobs cfg) \<le> bc_capacity cfg \<and> (\<forall>j \<in> set (bc_jobs cfg). job_ok j)"

lemma defaults_ok: "job_ok job_config_defaults"
  by (simp add: job_ok_def job_config_defaults_def)

definition some_ok :: "job_config option \<Rightarrow> bool" where
  "some_ok r \<longleftrightarrow> (\<forall>j. r = Some j \<longrightarrow> job_ok j)"

lemma some_ok_if: "some_ok a \<Longrightarrow> some_ok b \<Longrightarrow> some_ok (if c then a else b)" by simp

lemma some_ok_int: "(\<And>v. lo \<le> v \<Longrightarrow> v \<le> hi \<Longrightarrow> job_ok (f v)) \<Longrightarrow> some_ok (int_param lo hi val f)"
  by (auto simp: some_ok_def int_param_def not_less split: option.splits if_splits)

lemma some_ok_size: "(\<And>sz. sz \<noteq> 0 \<Longrightarrow> job_ok (f sz)) \<Longrightarrow> some_ok (size_param val f)"
  by (auto simp: some_ok_def size_param_def Let_def split: if_splits)

lemma some_ok_map: "(\<And>x. r = Some x \<Longrightarrow> job_ok (f x)) \<Longrightarrow> some_ok (map_option f r)"
  by (auto simp: some_ok_def)

lemma some_ok_simps: "some_ok (Some j) = job_ok j" "some_ok None"
  by (simp_all add: some_ok_def)

lemma parse_latency_nonneg: "parse_latency strtod val = Some ms \<Longrightarrow> 0 \<le> ms"
  by (auto simp: parse_latency_def split: prod.splits if_splits)

lemma apply_param_ok: "apply_param strtod j key val = Some j' \<Longrightarrow> job_ok j \<Longrightarrow> job_ok j'"
proof -
  assume ok: "job_ok j"
  have "some_ok (apply_param strtod j key val)" unfolding apply_param_def
    by (intro some_ok_if some_ok_int some_ok_size some_ok_map; use ok parse_latency_nonneg in \<open>simp add: some_ok_simps job_ok_def\<close>)
  then show "apply_param strtod j key val = Some j' \<Longrightarrow> job_ok j'" by (simp add: some_ok_def)
qed

lemma add_job_config:
  assumes "add_job env g name cfg = Some cfg'" "config_ok cfg" "job_ok g"
  shows "config_ok cfg'" "length (bc_jobs cfg') = length (bc_jobs cfg) + 1"
  using assms by (auto simp: add_job_def bench_config_grow_def config_ok_def Let_def job_ok_def split: if_splits)

lemma config_update: "config_ok cfg \<Longrightarrow> job_ok j \<Longrightarrow> config_ok (cfg\<lparr>bc_jobs := (bc_jobs cfg)[i := j]\<rparr>)"
  by (auto simp: config_ok_def dest: set_update_subset_insert[THEN subsetD])

text \<open>The state of the file parser: the current job is one of the array.\<close>

definition file_ok :: "nat \<Rightarrow> file_state \<Rightarrow> bool" where
  "file_ok n st \<longleftrightarrow> job_ok (fs_global st) \<and> config_ok (fs_config st) \<and> n \<le> length (bc_jobs (fs_config st)) \<and>
     (\<forall>i. fs_current st = Some i \<longrightarrow> i < length (bc_jobs (fs_config st)))"

lemma section_line_ok: "section_line env l st = Some st' \<Longrightarrow> file_ok n st \<Longrightarrow> file_ok n st'"
  using add_job_config[of env "fs_global st" _ "fs_config st"]
  by (fastforce simp: section_line_def file_ok_def Let_def split: if_splits option.splits)

lemma param_line_ok:
  assumes "param_line strtod l st = Some st'" "file_ok n st"
  shows "file_ok n st'"
proof -
  obtain k v where kv: "split_param l = (k, v)" by (rule prod.exhaust)
  show ?thesis
  proof (cases "if fs_in_global st then None else fs_current st")
    case None
    then show ?thesis using assms kv apply_param_ok by (fastforce simp: param_line_def file_ok_def)
  next
    case (Some i)
    then have "i < length (bc_jobs (fs_config st))" using assms(2) by (auto simp: file_ok_def split: if_splits)
    then have "job_ok (bc_jobs (fs_config st) ! i)" using assms(2) by (simp add: file_ok_def config_ok_def)
    then show ?thesis using assms kv Some apply_param_ok config_update[of "fs_config st"] by (fastforce simp: param_line_def file_ok_def)
  qed
qed

lemma parse_lines_ok: "parse_lines strtod env ls st = Some st' \<Longrightarrow> file_ok n st \<Longrightarrow> file_ok n st'"
proof (induction ls arbitrary: st)
  case (Cons l ls)
  obtain st1 where 1: "parse_line strtod env l st = Some st1" "parse_lines strtod env ls st1 = Some st'"
    using Cons.prems(1) by (auto split: option.splits)
  have "file_ok n st1" using 1(1) Cons.prems(2) section_line_ok param_line_ok by (auto simp: parse_line_def Let_def split: if_splits)
  then show ?case by (rule Cons.IH[OF 1(2)])
qed simp

lemma job_parse_file_ok:
  assumes "job_parse_file strtod env content cfg = Some cfg'" "config_ok cfg"
  shows "config_ok cfg'" "length (bc_jobs cfg) \<le> length (bc_jobs cfg')"
proof -
  let ?st = "\<lparr>fs_global = job_config_defaults, fs_current = None, fs_in_global = False, fs_config = cfg\<rparr>"
  obtain ls st' where "parse_lines strtod env ls ?st = Some st'" "cfg' = fs_config st'"
    using assms(1) by (auto simp: job_parse_file_def split: option.splits)
  moreover have "file_ok (length (bc_jobs cfg)) ?st" using assms(2) defaults_ok by (simp add: file_ok_def)
  ultimately have "file_ok (length (bc_jobs cfg)) st'" "cfg' = fs_config st'" using parse_lines_ok by blast+
  then show "config_ok cfg'" "length (bc_jobs cfg) \<le> length (bc_jobs cfg')" by (simp_all add: file_ok_def)
qed

definition cli_ok :: "cli_state \<Rightarrow> bool" where
  "cli_ok st \<longleftrightarrow> job_ok (cs_global st) \<and> config_ok (cs_config st) \<and>
     (\<forall>b i. cs_current st = Some (b, i) \<longrightarrow> i < length (bc_jobs (cs_config st)))"

lemma cli_option_ok: "cli_option strtod env key val st = Inr st' \<Longrightarrow> cli_ok st \<Longrightarrow> cli_ok st'"
proof -
  assume r: "cli_option strtod env key val st = Inr st'" and ok: "cli_ok st"
  have p: "cli_ok st'" if "cli_param strtod key val st = Inr st'"
  proof (cases "cs_current st")
    case None
    then show ?thesis using that ok apply_param_ok by (fastforce simp: cli_param_def cli_ok_def split: option.splits)
  next
    case (Some bi)
    obtain b i where bi: "bi = (b, i)" by (rule prod.exhaust)
    then have "job_ok (bc_jobs (cs_config st) ! i)" using ok Some by (auto simp: cli_ok_def config_ok_def)
    then show ?thesis using that ok Some bi apply_param_ok config_update[of "cs_config st"]
      by (fastforce simp: cli_param_def cli_ok_def split: option.splits if_splits)
  qed
  consider "key \<in> {''output-format'', ''output_format'', ''output''}" | "key = ''name''" | "cli_param strtod key val st = Inr st'"
    using r by (auto simp: cli_option_def split: if_splits)
  then show "cli_ok st'"
  proof cases
    case 1
    then show ?thesis using r ok by (auto simp: cli_option_def cli_ok_def config_ok_def)
  next
    case 2
    then obtain cfg where "add_job env (cs_global st) val (cs_config st) = Some cfg"
        "st' = st\<lparr>cs_config := cfg, cs_current := Some (bc_block cfg, length (bc_jobs (cs_config st)))\<rparr>"
      using r by (auto simp: cli_option_def split: option.splits)
    then show ?thesis using add_job_config[of env "cs_global st" val "cs_config st" cfg] ok by (simp add: cli_ok_def)
  qed (rule p)
qed

lemma cli_args_ok: "cli_args strtod env read_file args st = Inr st' \<Longrightarrow> cli_ok st \<Longrightarrow> cli_ok st'"
proof (induction args arbitrary: st rule: length_induct)
  case (1 args)
  show ?case
  proof (cases args)
    case Nil
    then show ?thesis using 1 by simp
  next
    case (Cons arg rest)
    have IH: "cli_args strtod env read_file as s = Inr st' \<Longrightarrow> cli_ok s \<Longrightarrow> cli_ok st'" if "length as \<le> length rest" for as s
    proof -
      have "length as < length args" using that Cons by simp
      with 1(1) show "cli_args strtod env read_file as s = Inr st' \<Longrightarrow> cli_ok s \<Longrightarrow> cli_ok st'" by blast
    qed
    have f: "cli_ok (st\<lparr>cs_config := cfg\<rparr>)" if "job_parse_file strtod env content (cs_config st) = Some cfg" for content cfg
      using job_parse_file_ok[OF that] 1(3) by (fastforce simp: cli_ok_def)
    have t: "length (tl rest) \<le> length rest" by simp
    show ?thesis using 1(2,3) Cons f IH[OF le_refl] IH[OF t] cli_option_ok
      by (auto simp: Let_def split: if_splits option.splits sum.splits)
  qed
qed


text \<open>The printed names of the patterns and service types are read back, in any case of letters.\<close>

lemma tolower_idem [simp]: "tolower (tolower c) = tolower c"
proof -
  have "(of_char (char_of (n + 32) :: char) :: nat) = n + 32" if "n \<in> {65..90}" for n :: nat using that by (auto simp: of_char_of)
  then show ?thesis by (simp add: tolower_def Let_def)
qed

lemma strcasecmp_lower: "strcasecmp_eq (map tolower a) b = strcasecmp_eq a b"
  by (simp add: strcasecmp_eq_def o_def)

theorem parse_rw_names: "map tolower s = rw_pattern_name p \<Longrightarrow> parse_rw s = Some p"
proof -
  assume s: "map tolower s = rw_pattern_name p"
  have "parse_rw s = parse_rw (map tolower s)" unfolding parse_rw_def strcasecmp_lower ..
  moreover have "parse_rw (rw_pattern_name p) = Some p"
    by (cases p) (simp_all add: parse_rw_def rw_table_def strcasecmp_eq_def tolower_def)
  ultimately show ?thesis using s by simp
qed

theorem file_service_names:
  "apply_param strtod j ''file_service_type'' (file_service_type_name t) = Some (j\<lparr>jc_file_service_type := t\<rparr>)"
  by (cases t) (simp_all add: apply_param_def strcasecmp_eq_def tolower_def)

text \<open>Normalisation keeps the ranges; the total size of several files is their product, saturated at the largest 64-bit value.\<close>

theorem normalize_size:
  assumes "1 < jc_nrfiles job" and "jc_nrfiles job \<le> INT_MAX" and "jc_filesize job \<noteq> 0"
  shows "unat (jc_size (job_config_normalize job)) = min (unat (jc_filesize job) * nat (jc_nrfiles job)) (2 ^ 64 - 1)"
proof -
  define n where "n = (word_of_int (jc_nrfiles job) :: u64)"
  have u: "unat n = nat (jc_nrfiles job)" using assms(1,2) by (simp add: n_def unsigned_of_int take_bit_int_eq_self)
  have n0: "0 < unat n" using assms(1) u by simp
  have m: "unat (- 1 :: u64) = 2 ^ 64 - 1" by (simp add: unsigned_minus_1_eq_mask mask_eq_exp_minus_1)
  have le: "jc_filesize job \<le> (- 1) div n \<longleftrightarrow> unat (jc_filesize job) * unat n \<le> 2 ^ 64 - 1"
    using n0 unfolding word_le_nat_alt unat_div m by (simp add: less_eq_div_iff_mult_less_eq)
  have f: "jc_filesize job > 0" using assms(3) by (simp add: word_gt_0)
  have "jc_size (job_config_normalize job) = (if jc_filesize job > (- 1) div n then - 1 else jc_filesize job * n)"
    using assms(1) f by (simp add: job_config_normalize_def n_def Let_def)
  then show ?thesis using le m u by (cases "jc_filesize job \<le> (- 1) div n") (auto simp: unat_word_ariths not_le)
qed

section \<open>A job of the command line can be freed under it\<close>

text \<open>
  \<open>job_parse_cli\<close> keeps a pointer to the job of the last \<open>--name\<close> while a job file named after it appends to the same array. With eight jobs
  in the file the array is moved, and the next option writes to the freed block.
\<close>

definition eight_jobs :: "ini_section list" where
  "eight_jobs = replicate 8 (''j'', [])"

theorem job_file_frees_current:
  "job_parse_cli strtod \<lparr>re_ok = \<lambda>_. True, re_moves = \<lambda>_. True\<rparr> (\<lambda>_. Some (render_file eight_jobs)) [''--name=a'', ''b.fio'', ''--bs=4k''] = Inl FreedJob"
proof -
  let ?env = "\<lparr>re_ok = \<lambda>_. True, re_moves = \<lambda>_. True\<rparr>"
  let ?a = "job_config_defaults\<lparr>jc_name := ''a''\<rparr>" and ?j = "job_config_defaults\<lparr>jc_name := ''j''\<rparr>"
  define cfg where "cfg = empty_config\<lparr>bc_jobs := [?a], bc_capacity := 8, bc_block := 1\<rparr>"
  have n: "add_job ?env job_config_defaults ''a'' empty_config = Some cfg"
    by (simp add: add_job_def bench_config_grow_def empty_config_def cfg_def)
  have l: "fgets_lines (render_file eight_jobs) = replicate 8 (''[j]'' @ [newline])"
    unfolding render_file_def by (subst fgets_render) (simp_all add: eight_jobs_def render_section_def list_all_iff numeral_eq_Suc)
  have step: "parse_line strtod ?env (''[j]'' @ [newline]) st = (case add_job ?env (fs_global st) ''j'' (fs_config st) of
        None \<Rightarrow> None
      | Some c \<Rightarrow> Some (st\<lparr>fs_in_global := False, fs_current := Some (length (bc_jobs (fs_config st))), fs_config := c\<rparr>))" for st
    using parse_section_line[of "(''j'', [])" strtod ?env st]
    by (simp add: section_ok_def plain_def isspace_def strcasecmp_eq_def tolower_def)
  have "\<exists>st'. parse_lines strtod ?env (replicate 8 (''[j]'' @ [newline]))
      \<lparr>fs_global = job_config_defaults, fs_current = None, fs_in_global = False, fs_config = cfg\<rparr> = Some st' \<and>
      fs_config st' = cfg\<lparr>bc_jobs := ?a # replicate 8 ?j, bc_capacity := 16, bc_block := 2\<rparr>"
    unfolding cfg_def by (simp add: numeral_eq_Suc step[simplified] add_job_def bench_config_grow_def empty_config_def)
  then have "job_parse_file strtod ?env (Some (render_file eight_jobs)) cfg = Some (cfg\<lparr>bc_jobs := ?a # replicate 8 ?j, bc_capacity := 16, bc_block := 2\<rparr>)"
    using l by (auto simp: job_parse_file_def)
  then show ?thesis using n
    by (simp add: job_parse_cli_def starts_with_dash_def strip_dashes_def cli_option_def is_fio_name_def cli_param_def cfg_def empty_config_def)
qed

theorem job_file_meaning_witness:
  "case jobs_of (\<lambda>s. (0, s)) [(''global'', [(''bs'', ''8k'')]), (''r'', [(''rw'', ''randread'')])] job_config_defaults of
      None \<Rightarrow> False
    | Some js \<Rightarrow> \<exists>cfg'. job_parse_file (\<lambda>s. (0, s)) \<lparr>re_ok = \<lambda>_. True, re_moves = \<lambda>_. True\<rparr>
        (Some (render_file [(''global'', [(''bs'', ''8k'')]), (''r'', [(''rw'', ''randread'')])])) empty_config = Some cfg' \<and> bc_jobs cfg' = js \<and> length js = 1"
proof -
  let ?secs = "[(''global'', [(''bs'', ''8k'')]), (''r'', [(''rw'', ''randread'')])]"
  have ok: "list_all section_ok ?secs" by (simp add: section_ok_def param_ok_def plain_def isspace_def)
  obtain j where j: "jobs_of (\<lambda>s. (0, s)) ?secs job_config_defaults = Some [j]"
    by (simp add: strcasecmp_eq_def tolower_def apply_param_def size_param_def parse_size_fio_def scan_number_def isspace_def isdigit_def digits_value_def
        parse_rw_def rw_table_def)
  show ?thesis using job_file_meaning[OF _ ok, of "\<lparr>re_ok = \<lambda>_. True, re_moves = \<lambda>_. True\<rparr>" "\<lambda>s. (0, s)" empty_config] j
    by (simp add: empty_config_def)
qed


end
