(* ===== verification/Latency_Percentile.thy ===== *)
theory Latency_Percentile
  imports Latency_Histogram
begin

text \<open>
  Histogram snapshots as the library hands them out (\<^verbatim>\<open>aura_histogram_t\<close> of src/engine/include/aura.h): the copy of the active
  histogram with the tier table, percentiles and bucket bounds computed from it (src/engine/src/aura.c). A percentile is a real number.
\<close>

section \<open>Snapshots\<close>

record aura_histogram =
  ah_buckets :: "u32 list"
  ah_overflow :: u32
  ah_total_count :: u32
  ah_max_tracked_us :: int
  ah_tier_count :: nat
  ah_tier_start_us :: "int list"
  ah_tier_width_us :: "int list"
  ah_tier_base_bucket :: "int list"

text \<open>The copy \<open>aura_get_histogram\<close> makes under the ring lock; the 64-bit count saturates.\<close>

definition histogram_snapshot :: "adaptive_histogram \<Rightarrow> aura_histogram" where
  "histogram_snapshot h =
    \<lparr>ah_buckets = buckets h, ah_overflow = overflow h,
     ah_total_count = (if total_count h > 0xFFFFFFFF then 0xFFFFFFFF else ucast (total_count h)),
     ah_max_tracked_us = LATENCY_TIERED_MAX_US, ah_tier_count = 4,
     ah_tier_start_us = map start_us LATENCY_TIERS, ah_tier_width_us = map width_us LATENCY_TIERS, ah_tier_base_bucket = map base_bucket LATENCY_TIERS\<rparr>"

text \<open>The reverse maps scan the tiers of the snapshot from the last; \<open>n\<close> is \<open>t + 1\<close>.\<close>

fun snapshot_midpoint :: "aura_histogram \<Rightarrow> nat \<Rightarrow> int \<Rightarrow> real" where
  "snapshot_midpoint h 0 i = 0"
| "snapshot_midpoint h (Suc t) i =
    (if i \<ge> ah_tier_base_bucket h ! t
     then real_of_int (ah_tier_start_us h ! t) + (real_of_int (i - ah_tier_base_bucket h ! t) + 0.5) * real_of_int (ah_tier_width_us h ! t)
     else snapshot_midpoint h t i)"

fun snapshot_upper_bound :: "aura_histogram \<Rightarrow> nat \<Rightarrow> int \<Rightarrow> int" where
  "snapshot_upper_bound h 0 i = 0"
| "snapshot_upper_bound h (Suc t) i =
    (if i \<ge> ah_tier_base_bucket h ! t
     then ah_tier_start_us h ! t + (i - ah_tier_base_bucket h ! t + 1) * ah_tier_width_us h ! t
     else snapshot_upper_bound h t i)"

definition aura_histogram_bucket_upper_bound_us :: "aura_histogram \<Rightarrow> int \<Rightarrow> int" where
  "aura_histogram_bucket_upper_bound_us h bucket =
    (if bucket < 0 \<or> bucket \<ge> 320 then 0 else snapshot_upper_bound h (ah_tier_count h) bucket)"

section \<open>Percentiles\<close>

definition percentile_target :: "u32 \<Rightarrow> real \<Rightarrow> u64" where
  "percentile_target total_n percentile =
    (let target = word_of_int \<lfloor>((100 - percentile) / 100) * real (unat total_n)\<rfloor>
     in if target = 0 \<and> percentile < 100 then 1 else target)"

fun percentile_scan :: "u32 list \<Rightarrow> nat \<Rightarrow> u64 \<Rightarrow> u64 \<Rightarrow> nat option" where
  "percentile_scan bs 0 count target = None"
| "percentile_scan bs (Suc i) count target =
    (let count' = count + ucast (bs ! i) in if count' \<ge> target then Some i else percentile_scan bs i count' target)"

definition aura_histogram_percentile :: "aura_histogram \<Rightarrow> real \<Rightarrow> real" where
  "aura_histogram_percentile h percentile =
    (if percentile < 0 \<or> percentile > 100 then -1
     else if ah_total_count h = 0 then -1
     else let target = percentile_target (ah_total_count h) percentile; count = ucast (ah_overflow h) :: u64
       in if count \<ge> target then real_of_int (ah_max_tracked_us h) / 1000
          else case percentile_scan (ah_buckets h) 320 count target of
            Some i \<Rightarrow> snapshot_midpoint h (ah_tier_count h) (int i) / 1000
          | None \<Rightarrow> -1)"

section \<open>Correctness\<close>

lemma snapshot_fields: "ah_buckets (histogram_snapshot h) = buckets h" "ah_overflow (histogram_snapshot h) = overflow h"
    "ah_max_tracked_us (histogram_snapshot h) = 100000" "ah_tier_count (histogram_snapshot h) = 4"
  by (simp_all add: histogram_snapshot_def)

lemma snapshot_total: "unat (total_count h) < 2 ^ 32 \<Longrightarrow> unat (ah_total_count (histogram_snapshot h)) = unat (total_count h)"
  by (simp add: histogram_snapshot_def word_less_nat_alt unat_ucast_64_32)

text \<open>The tier table of a snapshot gives the same maps as the internal one.\<close>

lemma snapshot_midpoint_eq: "snapshot_midpoint (histogram_snapshot h) 4 i = bucket_to_midpoint_us i"
  by (simp add: histogram_snapshot_def tier_defs eval_nat_numeral)

lemma snapshot_upper_bound_eq: "0 \<le> b \<Longrightarrow> b < 320 \<Longrightarrow> aura_histogram_bucket_upper_bound_us (histogram_snapshot h) b = bucket_upper_bound_us b"
  by (simp add: aura_histogram_bucket_upper_bound_us_def histogram_snapshot_def tier_defs eval_nat_numeral)

lemma p99_scan_percentile: "p99_scan bs n c t = percentile_scan bs n c (ucast t)"
  by (induction n arbitrary: c) (simp_all add: Let_def)

text \<open>The rank of a percentile below 100: that share of the samples counted from the top, at least one.\<close>

definition top_rank :: "real \<Rightarrow> nat \<Rightarrow> nat" where
  "top_rank p n = max 1 (nat \<lfloor>(100 - p) / 100 * real n\<rfloor>)"

lemma top_rank_le: "0 \<le> p \<Longrightarrow> 0 < n \<Longrightarrow> top_rank p n \<le> n"
proof -
  assume "0 \<le> p" "0 < n"
  then have "(100 - p) / 100 * real n \<le> real n" by (simp add: field_simps)
  then have "\<lfloor>(100 - p) / 100 * real n\<rfloor> \<le> int n" by (metis floor_mono floor_of_nat)
  then show ?thesis using \<open>0 < n\<close> by (simp add: top_rank_def)
qed

lemma top_rank_antimono: "p \<le> q \<Longrightarrow> top_rank q n \<le> top_rank p n"
proof -
  assume "p \<le> q"
  then have "(100 - q) / 100 * real n \<le> (100 - p) / 100 * real n" by (intro mult_right_mono) simp_all
  then show ?thesis by (auto simp: top_rank_def intro!: max.coboundedI2 nat_mono floor_mono)
qed

lemma percentile_target_rank:
  assumes "0 \<le> p" "p < 100" "0 < unat w"
  shows "unat (percentile_target w p) = top_rank p (unat w)"
proof -
  define f where "f = \<lfloor>(100 - p) / 100 * real (unat w)\<rfloor>"
  have "0 \<le> \<lfloor>(100 - p) / 100 * real n\<rfloor>" for n :: nat using assms by simp
  from this[of "unat w"] have f0: "0 \<le> f" unfolding f_def .
  have "nat f \<le> unat w" using top_rank_le[OF assms(1,3)] unfolding top_rank_def f_def[symmetric] by simp
  moreover have "unat w < 2 ^ 32" by (rule order.strict_trans2[OF unsigned_less]) simp
  ultimately have n: "nat f < 2 ^ 64" by simp
  have "unat (word_of_int k :: u64) = nat k" if "0 \<le> k" "nat k < 2 ^ 64" for k :: int
  proof -
    have "k < 2 ^ 64" using that by (simp add: nat_less_iff)
    then have "take_bit 64 k = k" using that(1) by (simp add: take_bit_int_eq_self_iff)
    then show ?thesis by (simp add: unsigned_of_int)
  qed
  then have u: "unat (word_of_int f :: u64) = nat f" using n f0 by blast
  show ?thesis
  proof (cases "nat f = 0")
    case True
    then have "(word_of_int f :: u64) = 0" using u by (metis unat_eq_0)
    then show ?thesis using True assms(2) unfolding percentile_target_def top_rank_def f_def[symmetric] by simp
  next
    case False
    then have "(word_of_int f :: u64) \<noteq> 0" using u by (metis unat_0)
    then show ?thesis using False u unfolding percentile_target_def top_rank_def f_def[symmetric] by (simp add: Let_def)
  qed
qed

lemma percentile_scan_correct:
  assumes "n \<le> length bs" "unat c + bucket_sum (take n bs) < 2 ^ 64" "unat c < unat t" "unat t \<le> unat c + bucket_sum (take n bs)"
  shows "\<exists>i. percentile_scan bs n c t = Some i \<and> i < n \<and> unat t \<le> unat c + bucket_sum (drop i (take n bs)) \<and>
    unat c + bucket_sum (drop (Suc i) (take n bs)) < unat t"
  using assms
proof (induction n arbitrary: c)
  case (Suc n)
  let ?c = "c + ucast (bs ! n) :: u64"
  have tk: "take (Suc n) bs = take n bs @ [bs ! n]" using Suc.prems by (simp add: take_Suc_conv_app_nth)
  have c: "unat ?c = unat c + unat (bs ! n)" using Suc.prems(2) by (simp add: tk unat_word_ariths)
  have ge: "?c \<ge> t \<longleftrightarrow> unat t \<le> unat c + unat (bs ! n)" by (simp add: word_le_nat_alt c)
  show ?case
  proof (cases "?c \<ge> t")
    case True
    then show ?thesis using Suc.prems ge by (auto simp: tk)
  next
    case False
    have "\<exists>i. percentile_scan bs n ?c t = Some i \<and> i < n \<and> unat t \<le> unat ?c + bucket_sum (drop i (take n bs)) \<and>
        unat ?c + bucket_sum (drop (Suc i) (take n bs)) < unat t"
      using Suc.prems c False ge by (intro Suc.IH) (auto simp: tk)
    then show ?thesis using False c Suc.prems(1) by (auto simp: tk Let_def)
  qed
qed simp

text \<open>
  A percentile below 100 of a snapshot is an order statistic of the recorded latencies: with \<open>k\<close> the number of samples in the
  top share, at least one, it is the end of the tracked range when \<open>k\<close> samples lie beyond it, and otherwise the midpoint of the bucket such that at
  least \<open>k\<close> samples lie in or above it and fewer above it.
\<close>

theorem percentile_order_statistic:
  assumes "xs \<noteq> []" and "length xs < 2 ^ 32" and "\<forall>l \<in> set xs. l < 2 ^ 31" and "0 \<le> p" and "p < 100"
  shows "if top_rank p (length xs) \<le> samples_ge 100000 xs
    then aura_histogram_percentile (histogram_snapshot (hist_of xs)) p = 100
    else \<exists>b. 0 \<le> b \<and> b < 320 \<and> aura_histogram_percentile (histogram_snapshot (hist_of xs)) p = bucket_to_midpoint_us b / 1000 \<and>
      samples_ge (bucket_upper_bound_us b) xs < top_rank p (length xs) \<and> top_rank p (length xs) \<le> samples_ge (bucket_upper_bound_us (b - 1)) xs"
proof -
  let ?h = "hist_of xs" and ?k = "top_rank p (length xs)"
  let ?s = "histogram_snapshot ?h"
  let ?t = "percentile_target (ah_total_count ?s) p" and ?c = "ucast (overflow ?h) :: u64"
  have hc: "hist_counts ?h xs" using assms hist_counts_of by blast
  then have len: "length (buckets ?h) = 320" and tot: "unat (ah_total_count ?s) = length xs"
    using snapshot_total[of ?h] assms(2) by (auto simp: hist_counts_def)
  have k: "unat ?t = ?k" using percentile_target_rank[OF assms(4,5), of "ah_total_count ?s"] assms(1) tot by simp
  have nz: "ah_total_count ?s \<noteq> 0" using assms tot by (metis length_0_conv unat_0)
  have ov: "unat ?c = samples_ge 100000 xs"
    using scan_count_samples[OF assms(2,3), of 320] len by (simp add: bucket_upper_bound_us_cases)
  have all: "unat ?c + bucket_sum (buckets ?h) = length xs"
    using scan_count_samples[OF assms(2,3), of 0] by (simp add: bucket_upper_bound_us_cases)
  show ?thesis
  proof (cases "?k \<le> samples_ge 100000 xs")
    case True
    then show ?thesis using nz ov k assms(4,5) by (simp add: aura_histogram_percentile_def Let_def word_le_nat_alt snapshot_fields)
  next
    case False
    have "?k \<le> length xs" using top_rank_le[OF assms(4)] assms(1) by simp
    then obtain i where i: "percentile_scan (buckets ?h) 320 ?c ?t = Some i" "i < 320"
        "?k \<le> unat ?c + bucket_sum (drop i (buckets ?h))" "unat ?c + bucket_sum (drop (Suc i) (buckets ?h)) < ?k"
      using percentile_scan_correct[of 320 "buckets ?h" ?c ?t] len k all False ov assms(2) by auto
    have "aura_histogram_percentile ?s p = bucket_to_midpoint_us (int i) / 1000"
      using nz i(1) False ov k assms(4,5) by (simp add: aura_histogram_percentile_def Let_def word_le_nat_alt snapshot_fields snapshot_midpoint_eq)
    moreover have "samples_ge (bucket_upper_bound_us (int i)) xs < ?k"
      using scan_count_samples[OF assms(2,3), of "Suc i"] i by simp
    moreover have "?k \<le> samples_ge (bucket_upper_bound_us (int i - 1)) xs"
      using scan_count_samples[OF assms(2,3), of i] i by simp
    ultimately show ?thesis using False i(2) by (auto intro!: exI[of _ "int i"])
  qed
qed

theorem percentile_order_statistic_witness:
  "aura_histogram_percentile (histogram_snapshot (hist_of [80, 250000])) 50 = 100"
  using percentile_order_statistic[of "[80, 250000]" 50] by (simp add: top_rank_def)

text \<open>The public P99 is the one the controller uses when there are at least 100 samples and the answer lies in the tracked range.\<close>

lemma top_rank_99: "100 \<le> n \<Longrightarrow> top_rank 99 n = percentile_rank n"
proof -
  assume n: "100 \<le> n"
  have "\<lfloor>(100 - 99) / 100 * real n\<rfloor> = int (n div 100)" using floor_divide_of_nat_eq[of n 100, where ?'a = real] by simp
  then show ?thesis using n by (simp add: top_rank_def percentile_rank_def max_def)
qed

theorem percentile_agrees_with_p99:
  assumes "100 \<le> unat (total_count h)" "unat (total_count h) < 2 ^ 32" "unat (overflow h) < percentile_rank (unat (total_count h))"
  shows "aura_histogram_percentile (histogram_snapshot h) 99 = adaptive_hist_p99 h"
proof -
  let ?s = "histogram_snapshot h"
  have tot: "unat (ah_total_count ?s) = unat (total_count h)" by (rule snapshot_total[OF assms(2)])
  have t: "unat (percentile_target (ah_total_count ?s) 99) = percentile_rank (unat (total_count h))"
    using percentile_target_rank[of 99 "ah_total_count ?s"] top_rank_99[OF assms(1)] tot assms(1) by simp
  have "unat (ucast (p99_target (total_count h)) :: u64) = percentile_rank (unat (total_count h))" using unat_p99_target[of "total_count h"] assms by simp
  then have e: "percentile_target (ah_total_count ?s) 99 = ucast (p99_target (total_count h))" using t by (metis word_unat_eq_iff)
  have nz: "ah_total_count ?s \<noteq> 0" "total_count h \<noteq> 0" using tot assms(1) by (metis not_numeral_le_zero unat_0)+
  have "\<not> ucast (p99_target (total_count h)) \<le> (ucast (overflow h) :: u64)" using assms(3) e t by (simp add: word_le_nat_alt)
  then show ?thesis using nz by (simp add: aura_histogram_percentile_def adaptive_hist_p99_def e p99_scan_percentile snapshot_fields snapshot_midpoint_eq Let_def split: option.split)
qed

text \<open>
  They differ otherwise: beyond the tracked range the controller reports 200 ms and the public function 100 ms, and below 100 samples the
  controller takes the top twentieth.
\<close>

theorem percentile_differs_from_p99:
  "adaptive_hist_p99 (hist_of [250000]) = 200 \<and> aura_histogram_percentile (histogram_snapshot (hist_of [250000])) 99 = 100"
proof -
  have h: "hist_of [250000] = empty_hist\<lparr>overflow := 1, total_count := 1\<rparr>"
    by (simp add: hist_of_def adaptive_hist_record_def latency_us_to_bucket_cases c_int_id c_div_nonneg empty_hist_def Let_def)
  show ?thesis unfolding h
    by (simp add: adaptive_hist_p99_def p99_target_def aura_histogram_percentile_def histogram_snapshot_def percentile_target_def empty_hist_def)
qed

text \<open>The 100th percentile looks for no sample at all, so it is always the end of the tracked range, whatever was recorded.\<close>

theorem percentile_100_ignores_samples:
  "ah_total_count h \<noteq> 0 \<Longrightarrow> aura_histogram_percentile h 100 = real_of_int (ah_max_tracked_us h) / 1000"
  by (simp add: aura_histogram_percentile_def percentile_target_def)

end
