(* ===== verification/Engine_Stats.thy ===== *)
theory Engine_Stats
  imports Engine_Lifecycle Latency_Percentile
begin

text \<open>
  Monitoring and tuning of an engine (src/engine/src/aura.c): engine, ring, histogram and buffer statistics, the pending count, and the
  three setters of the controllers. A query fills a structure of its own and copies as many bytes of it as the caller's structure holds:
  \<open>Some (v, n)\<close> is the first \<open>n\<close> bytes of \<open>v\<close> written to the caller, \<open>None\<close> nothing. The 64-bit totals of operations and bytes are
  integers.
\<close>

section \<open>Queries\<close>

definition aura_pending_count :: "aura_engine \<Rightarrow> int" where
  "aura_pending_count e = fold (\<lambda>c n. c_int (n + pending_count c)) (rings e) 0"

record aura_stats =
  st_ops_completed :: int
  st_bytes_transferred :: int
  st_current_throughput_bps :: real
  st_p99_latency_ms :: real
  st_current_in_flight :: int
  st_optimal_in_flight :: int
  st_peak_in_flight :: int
  st_optimal_batch_size :: int
  st_adaptive_spills :: u64

definition zero_stats :: aura_stats where
  "zero_stats = \<lparr>st_ops_completed = 0, st_bytes_transferred = 0, st_current_throughput_bps = 0, st_p99_latency_ms = 0,
     st_current_in_flight = 0, st_optimal_in_flight = 0, st_peak_in_flight = 0, st_optimal_batch_size = 0, st_adaptive_spills = 0\<rparr>"

text \<open>One round of the loop over the rings, between \<open>ring_lock\<close> and \<open>ring_unlock\<close>; the batch total is kept in \<open>st_optimal_batch_size\<close>.\<close>

definition add_ring_stats :: "ring_ctx \<Rightarrow> aura_stats \<Rightarrow> aura_stats" where
  "add_ring_stats c s =
     (let ctrl = adaptive c; p99 = current_p99_ms ctrl
      in s\<lparr>st_ops_completed := st_ops_completed s + ops_completed c,
           st_bytes_transferred := st_bytes_transferred s + bytes_completed c,
           st_current_in_flight := c_int (st_current_in_flight s + pending_count c),
           st_peak_in_flight := c_int (st_peak_in_flight s + peak_pending_count c),
           st_optimal_in_flight := c_int (st_optimal_in_flight s + current_in_flight_limit ctrl),
           st_optimal_batch_size := c_int (st_optimal_batch_size s + current_batch_threshold ctrl),
           st_current_throughput_bps := st_current_throughput_bps s + current_throughput_bps ctrl,
           st_p99_latency_ms := (if p99 > st_p99_latency_ms s then p99 else st_p99_latency_ms s)\<rparr>)"

fun stats_rings :: "nat \<Rightarrow> nat \<Rightarrow> aura_stats \<Rightarrow> aura_engine \<Rightarrow> aura_stats \<times> aura_engine" where
  "stats_rings 0 i s e = (s, e)"
| "stats_rings (Suc n) i s e =
     (let (st, c) = ring_lock (rings e ! i); s' = add_ring_stats c s
      in stats_rings n (Suc i) s' (set_ring i (ring_unlock st c) e))"

definition aura_get_stats :: "nat \<Rightarrow> aura_engine \<Rightarrow> (int + unit) \<times> (aura_stats \<times> nat) option \<times> aura_engine" where
  "aura_get_stats stats_size e =
     (if stats_size = 0 then (Inl EINVAL, None, e)
      else
        let (tmp, e') = stats_rings (ring_count e) 0 zero_stats e;
            tmp' = tmp\<lparr>st_optimal_batch_size :=
                (if ring_count e > 0 then c_div (st_optimal_batch_size tmp) (int (ring_count e)) else 0),
              st_adaptive_spills := adaptive_spills e'\<rparr>
        in (Inr (), Some (tmp', min stats_size 72), e'))"

definition aura_get_ring_count :: "aura_engine \<Rightarrow> int" where
  "aura_get_ring_count e = int (ring_count e)"

record aura_ring_stats =
  rs_ops_completed :: int
  rs_bytes_transferred :: int
  rs_pending_count :: int
  rs_peak_in_flight :: int
  rs_in_flight_limit :: int
  rs_batch_threshold :: int
  rs_p99_latency_ms :: real
  rs_throughput_bps :: real
  rs_aimd_phase :: adaptive_phase
  rs_queue_depth :: int

text \<open>All bytes zero; phase 0 is BASELINE.\<close>

definition zero_ring_stats :: aura_ring_stats where
  "zero_ring_stats = \<lparr>rs_ops_completed = 0, rs_bytes_transferred = 0, rs_pending_count = 0, rs_peak_in_flight = 0,
     rs_in_flight_limit = 0, rs_batch_threshold = 0, rs_p99_latency_ms = 0, rs_throughput_bps = 0, rs_aimd_phase = PHASE_BASELINE,
     rs_queue_depth = 0\<rparr>"

definition read_ring_stats :: "ring_ctx \<Rightarrow> aura_ring_stats" where
  "read_ring_stats c =
     (let ctrl = adaptive c
      in \<lparr>rs_ops_completed = ops_completed c, rs_bytes_transferred = bytes_completed c, rs_pending_count = pending_count c,
          rs_peak_in_flight = peak_pending_count c, rs_in_flight_limit = current_in_flight_limit ctrl,
          rs_batch_threshold = current_batch_threshold ctrl, rs_p99_latency_ms = current_p99_ms ctrl,
          rs_throughput_bps = current_throughput_bps ctrl, rs_aimd_phase = phase ctrl, rs_queue_depth = int (max_requests c)\<rparr>)"

definition aura_get_ring_stats ::
    "int \<Rightarrow> nat \<Rightarrow> aura_engine \<Rightarrow> (int + unit) \<times> (aura_ring_stats \<times> nat) option \<times> aura_engine" where
  "aura_get_ring_stats idx stats_size e =
     (if stats_size = 0 then (Inl EINVAL, None, e)
      else if idx < 0 \<or> idx \<ge> int (ring_count e) then (Inl EINVAL, Some (zero_ring_stats, min stats_size 72), e)
      else
        let i = nat idx; (st, c) = ring_lock (rings e ! i); tmp = read_ring_stats c
        in (Inr (), Some (tmp, min stats_size 72), set_ring i (ring_unlock st c) e))"

definition zero_histogram :: aura_histogram where
  "zero_histogram = \<lparr>ah_buckets = replicate 320 0, ah_overflow = 0, ah_total_count = 0, ah_max_tracked_us = 0, ah_tier_count = 0,
     ah_tier_start_us = replicate 4 0, ah_tier_width_us = replicate 4 0, ah_tier_base_bucket = replicate 4 0\<rparr>"

definition aura_get_histogram ::
    "int \<Rightarrow> nat \<Rightarrow> aura_engine \<Rightarrow> (int + unit) \<times> (aura_histogram \<times> nat) option \<times> aura_engine" where
  "aura_get_histogram idx hist_size e =
     (if hist_size = 0 then (Inl EINVAL, None, e)
      else if idx < 0 \<or> idx \<ge> int (ring_count e) then (Inl EINVAL, Some (zero_histogram, min hist_size 1352), e)
      else
        let i = nat idx; (st, c) = ring_lock (rings e ! i);
            tmp = histogram_snapshot (adaptive_hist_active (hist_pair (adaptive c)))
        in (Inr (), Some (tmp, min hist_size 1352), set_ring i (ring_unlock st c) e))"

record aura_buffer_stats =
  bs_total_allocated_bytes :: u64
  bs_total_buffers :: u64
  bs_shard_count :: int

definition aura_get_buffer_stats :: "nat \<Rightarrow> engine_handle \<Rightarrow> pool_world \<Rightarrow> (int + unit) \<times> (aura_buffer_stats \<times> nat) option" where
  "aura_get_buffer_stats stats_size h w =
     (if stats_size = 0 then (Inl EINVAL, None)
      else
        let pool = pools w ! h_pool h
        in (Inr (), Some (\<lparr>bs_total_allocated_bytes = total_allocated pool, bs_total_buffers = total_buffers pool,
              bs_shard_count = int (shard_count pool)\<rparr>, min stats_size 40)))"

definition aura_get_fatal_error :: "aura_engine \<Rightarrow> int" where
  "aura_get_fatal_error e = fatal_submit_errno e"

section \<open>Tuning\<close>

text \<open>The setters run their body on every ring in turn, the first two between \<open>ring_lock\<close> and \<open>ring_unlock\<close>.\<close>

fun tune_rings :: "bool \<Rightarrow> (adaptive_controller \<Rightarrow> adaptive_controller) \<Rightarrow> nat \<Rightarrow> nat \<Rightarrow> aura_engine \<Rightarrow> aura_engine" where
  "tune_rings locking f 0 i e = e"
| "tune_rings locking f (Suc n) i e =
     (let (st, c) = (if locking then ring_lock (rings e ! i) else (False, rings e ! i));
          c1 = c\<lparr>adaptive := f (adaptive c)\<rparr>;
          c2 = (if locking then ring_unlock st c1 else c1)
      in tune_rings locking f n (Suc i) (set_ring i c2 e))"

definition aura_set_max_p99_latency :: "real \<Rightarrow> aura_engine \<Rightarrow> (int + unit) \<times> aura_engine" where
  "aura_set_max_p99_latency latency_ms e =
     (if latency_ms < 0 then (Inl EINVAL, e)
      else (Inr (), tune_rings True (ctrl_set_max_p99 latency_ms) (ring_count e) 0 e))"

definition aura_set_min_in_flight :: "int \<Rightarrow> aura_engine \<Rightarrow> (int + unit) \<times> aura_engine" where
  "aura_set_min_in_flight m e =
     (if m < 1 \<or> m > eng_queue_depth e then (Inl EINVAL, e)
      else (Inr (), tune_rings True (ctrl_set_min_in_flight m) (ring_count e) 0 e))"

definition aura_set_batch_threshold :: "int \<Rightarrow> aura_engine \<Rightarrow> (int + unit) \<times> aura_engine" where
  "aura_set_batch_threshold threshold e =
     (if threshold < -1 then (Inl EINVAL, e)
      else (Inr (), tune_rings False (ctrl_set_batch_threshold threshold) (ring_count e) 0 e))"

section \<open>Queries do not disturb the engine\<close>

lemma lock_unlock [simp]: "ring_lock c = (st, d) \<Longrightarrow> ring_unlock st d = c"
  by (auto simp: ring_lock_def ring_unlock_def split: if_splits)

lemma lock_adaptive: "ring_lock c = (st, d) \<Longrightarrow> ring_unlock st (d\<lparr>adaptive := f (adaptive d)\<rparr>) = c\<lparr>adaptive := f (adaptive c)\<rparr>"
  by (auto simp: ring_lock_def ring_unlock_def split: if_splits)

lemma set_ring_same [simp]: "set_ring i (rings e ! i) e = e"
  by (simp add: set_ring_def)

lemma lock_read:
  "ring_lock c = (st, d) \<Longrightarrow> add_ring_stats d s = add_ring_stats c s"
  "ring_lock c = (st, d) \<Longrightarrow> read_ring_stats d = read_ring_stats c"
  "ring_lock c = (st, d) \<Longrightarrow> adaptive d = adaptive c"
  by (auto simp: ring_lock_def add_ring_stats_def read_ring_stats_def split: if_splits)

lemma stats_rings_fold: "i + n \<le> ring_count e \<Longrightarrow> stats_rings n i s e = (fold add_ring_stats (take n (drop i (rings e))) s, e)"
proof (induction n arbitrary: i s)
  case (Suc n)
  then have "take (Suc n) (drop i (rings e)) = rings e ! i # take n (drop (Suc i) (rings e))" by (simp add: Cons_nth_drop_Suc[symmetric])
  then show ?case using Suc by (simp add: lock_read split: prod.split)
qed simp

text \<open>Sums of C integers that do not leave their range.\<close>

lemma c_int_sum:
  assumes "\<And>x. x \<in> set xs \<Longrightarrow> 0 \<le> f x" "0 \<le> a" "a + sum_list (map f xs) < 2 ^ 31"
  shows "fold (\<lambda>x n. c_int (n + f x)) xs a = a + sum_list (map f xs)"
  using assms
proof (induction xs arbitrary: a)
  case (Cons x xs)
  have "0 \<le> sum_list (map f xs)" using Cons.prems(1) by (intro sum_list_nonneg) auto
  moreover have "0 \<le> f x" using Cons.prems(1) by simp
  ultimately have "c_int (a + f x) = a + f x" using Cons.prems(2,3) by (intro c_int_id) simp_all
  then show ?case using Cons.IH[of "a + f x"] Cons.prems by (simp add: algebra_simps)
qed simp

lemma fold_stats:
  "st_ops_completed (fold add_ring_stats cs s) = st_ops_completed s + sum_list (map ops_completed cs)"
  "st_bytes_transferred (fold add_ring_stats cs s) = st_bytes_transferred s + sum_list (map bytes_completed cs)"
  "st_current_in_flight (fold add_ring_stats cs s) = fold (\<lambda>c n. c_int (n + pending_count c)) cs (st_current_in_flight s)"
  "st_optimal_in_flight (fold add_ring_stats cs s) = fold (\<lambda>c n. c_int (n + current_in_flight_limit (adaptive c))) cs (st_optimal_in_flight s)"
  "st_optimal_batch_size (fold add_ring_stats cs s) = fold (\<lambda>c n. c_int (n + current_batch_threshold (adaptive c))) cs (st_optimal_batch_size s)"
  "st_current_throughput_bps (fold add_ring_stats cs s) = st_current_throughput_bps s + sum_list (map (current_throughput_bps \<circ> adaptive) cs)"
  "st_p99_latency_ms (fold add_ring_stats cs s) = fold max (map (current_p99_ms \<circ> adaptive) cs) (st_p99_latency_ms s)"
  by (induction cs arbitrary: s) (simp_all add: add_ring_stats_def Let_def max_def algebra_simps)

lemma get_stats_eq:
  "0 < n \<Longrightarrow> aura_get_stats n e = (Inr (), Some ((fold add_ring_stats (rings e) zero_stats)
     \<lparr>st_optimal_batch_size := (if ring_count e > 0 then c_div (st_optimal_batch_size (fold add_ring_stats (rings e) zero_stats)) (int (ring_count e)) else 0),
      st_adaptive_spills := adaptive_spills e\<rparr>, min n 72), e)"
  by (simp add: aura_get_stats_def stats_rings_fold)

lemma queries_keep_engine:
  "snd (snd (aura_get_stats n e)) = e" "snd (snd (aura_get_ring_stats idx n e)) = e" "snd (snd (aura_get_histogram idx n e)) = e"
  by (simp_all add: aura_get_stats_def stats_rings_fold aura_get_ring_stats_def aura_get_histogram_def Let_def split: prod.split)

lemma fold_max_ge: "m \<le> fold max xs (m :: real)" "x \<in> set xs \<Longrightarrow> x \<le> fold max xs m"
  by (induction xs arbitrary: m) (auto intro: order_trans[OF max.cobounded1] order_trans[OF max.cobounded2] simp: max.coboundedI1)

lemma fold_max_in: "fold max xs m \<in> insert m (set xs)" for m :: real
  by (induction xs arbitrary: m) (auto simp: max_def split: if_splits)

text \<open>No total leaves the range of \<open>int\<close> in an engine of at most 1024 rings of at most 32768 requests.\<close>

definition in_range :: "(ring_ctx \<Rightarrow> int) \<Rightarrow> aura_engine \<Rightarrow> bool" where
  "in_range f e \<longleftrightarrow> (\<forall>c \<in> set (rings e). 0 \<le> f c) \<and> sum_list (map f (rings e)) < 2 ^ 31"

lemma in_range_sum: "in_range f e \<Longrightarrow> fold (\<lambda>c n. c_int (n + f c)) (rings e) 0 = sum_list (map f (rings e))"
  using c_int_sum[of "rings e" f 0] by (simp add: in_range_def)

lemma in_range_bounded:
  assumes "ring_count e \<le> 1024" "\<And>c. c \<in> set (rings e) \<Longrightarrow> 0 \<le> f c \<and> f c \<le> 32768"
  shows "in_range f e"
proof -
  have "sum_list (map f (rings e)) \<le> sum_list (map (\<lambda>_. 32768) (rings e))" using assms(2) by (intro sum_list_mono) auto
  also have "\<dots> = int (ring_count e) * 32768" by (simp add: sum_list_triv)
  finally show ?thesis using assms by (auto simp: in_range_def)
qed

section \<open>Tuning reaches every ring\<close>

definition tuned :: "(adaptive_controller \<Rightarrow> adaptive_controller) \<Rightarrow> ring_ctx \<Rightarrow> ring_ctx" where
  "tuned f c = c\<lparr>adaptive := f (adaptive c)\<rparr>"

lemma tune_step: "(let (st, c) = (if locking then ring_lock d else (False, d)); c1 = c\<lparr>adaptive := f (adaptive c)\<rparr>
     in if locking then ring_unlock st c1 else c1) = tuned f d"
  by (auto simp: tuned_def ring_lock_def ring_unlock_def)

lemma tune_rings_map:
  "i + n \<le> ring_count e \<Longrightarrow> tune_rings locking f n i e =
     e\<lparr>rings := take i (rings e) @ map (tuned f) (take n (drop i (rings e))) @ drop (i + n) (rings e)\<rparr>"
proof (induction n arbitrary: i e)
  case (Suc n)
  let ?e = "set_ring i (tuned f (rings e ! i)) e"
  have "tune_rings locking f (Suc n) i e = tune_rings locking f n (Suc i) ?e"
    using tune_step[of locking "rings e ! i" f] by (simp add: Let_def case_prod_beta)
  also have "\<dots> = ?e\<lparr>rings := take (Suc i) (rings ?e) @ map (tuned f) (take n (drop (Suc i) (rings ?e))) @ drop (Suc i + n) (rings ?e)\<rparr>"
    using Suc.prems by (intro Suc.IH) (simp add: set_ring_def)
  also have "\<dots> = e\<lparr>rings := take i (rings e) @ map (tuned f) (take (Suc n) (drop i (rings e))) @ drop (i + Suc n) (rings e)\<rparr>"
    using Suc.prems by (simp add: set_ring_def take_Suc_conv_app_nth Cons_nth_drop_Suc[symmetric])
  finally show ?case .
qed simp

lemma tune_all: "tune_rings locking f (ring_count e) 0 e = e\<lparr>rings := map (tuned f) (rings e)\<rparr>"
  using tune_rings_map[of 0 "ring_count e" e locking f] by simp

lemmas setter_defs = aura_set_max_p99_latency_def aura_set_min_in_flight_def aura_set_batch_threshold_def

lemma setter_results:
  assumes "(r, e') \<in> {aura_set_max_p99_latency x e, aura_set_min_in_flight m e, aura_set_batch_threshold b e}"
  obtains "r = Inl EINVAL" "e' = e" | f where "r = Inr ()" "e' = e\<lparr>rings := map (tuned f) (rings e)\<rparr>"
  using assms by (auto simp: setter_defs tune_all split: if_splits)

lemma depth_ok_min: "ring_depth_ok d c \<Longrightarrow> 1 \<le> m \<Longrightarrow> m \<le> d \<Longrightarrow> ring_depth_ok d (tuned (ctrl_set_min_in_flight m) c)"
  by (auto simp: ring_depth_ok_def tuned_def ctrl_set_min_in_flight_def ctrl_wf_defs)

lemma depth_ok_max: "ring_depth_ok d c \<Longrightarrow> ring_depth_ok d (tuned (ctrl_set_max_p99 x) c)"
  by (simp add: ring_depth_ok_def tuned_def ctrl_set_max_p99_def ctrl_wf_defs)

lemma depth_ok_batch: "ring_depth_ok d c \<Longrightarrow> -1 \<le> b \<Longrightarrow> ring_depth_ok d (tuned (ctrl_set_batch_threshold b) c)"
  by (simp add: ring_depth_ok_def tuned_def ctrl_set_batch_threshold_def ctrl_wf_defs)

text \<open>
  A setter with a valid argument changes its one parameter on every ring and nothing else, and keeps every controller well-formed within the
  queue depth; with an invalid argument it changes nothing.
\<close>

theorem setters_reach_every_ring:
  assumes "\<forall>c \<in> set (rings e). ring_depth_ok (eng_queue_depth e) c"
  shows "(if 1 \<le> m \<and> m \<le> eng_queue_depth e
      then \<exists>e'. aura_set_min_in_flight m e = (Inr (), e') \<and> e' = e\<lparr>rings := map (tuned (min_in_flight_update (\<lambda>_. m))) (rings e)\<rparr> \<and>
        (\<forall>c \<in> set (rings e'). ring_depth_ok (eng_queue_depth e) c)
      else aura_set_min_in_flight m e = (Inl EINVAL, e)) \<and>
    (if 0 \<le> x
      then \<exists>e'. aura_set_max_p99_latency x e = (Inr (), e') \<and> e' = e\<lparr>rings := map (tuned (max_p99_ms_update (\<lambda>_. x))) (rings e)\<rparr> \<and>
        (\<forall>c \<in> set (rings e'). ring_depth_ok (eng_queue_depth e) c)
      else aura_set_max_p99_latency x e = (Inl EINVAL, e)) \<and>
    (if -1 \<le> b
      then \<exists>e'. aura_set_batch_threshold b e = (Inr (), e') \<and> e' = e\<lparr>rings := map (tuned (ctrl_set_batch_threshold b)) (rings e)\<rparr> \<and>
        (\<forall>c \<in> set (rings e'). ring_depth_ok (eng_queue_depth e) c)
      else aura_set_batch_threshold b e = (Inl EINVAL, e))"
proof -
  have "ctrl_set_min_in_flight m = min_in_flight_update (\<lambda>_. m)" "ctrl_set_max_p99 x = max_p99_ms_update (\<lambda>_. x)"
    by (simp_all add: fun_eq_iff ctrl_set_min_in_flight_def ctrl_set_max_p99_def)
  then show ?thesis using assms depth_ok_min[of "eng_queue_depth e" _ m] depth_ok_max[of "eng_queue_depth e" _ x] depth_ok_batch[of "eng_queue_depth e" _ b]
    by (simp add: setter_defs tune_all)
qed

section \<open>The average batch size overflows\<close>

lemma c_int_add: "c_int (c_int a + b) = c_int (a + b)"
proof -
  have "(c_int a + b + 2 ^ 31) mod 2 ^ 32 = ((a + 2 ^ 31) mod 2 ^ 32 + b) mod 2 ^ 32" by (simp add: c_int_def)
  also have "\<dots> = (a + b + 2 ^ 31) mod 2 ^ 32" unfolding mod_add_left_eq by (simp add: ac_simps)
  finally show ?thesis by (simp add: c_int_def)
qed

lemma fold_const: "fold (\<lambda>c n. c_int (n + k)) cs (c_int a) = c_int (a + int (length cs) * k)"
proof (induction cs arbitrary: a)
  case (Cons c cs)
  have "fold (\<lambda>c n. c_int (n + k)) (c # cs) (c_int a) = fold (\<lambda>c n. c_int (n + k)) cs (c_int (a + k))" by (simp add: c_int_add)
  then show ?case unfolding Cons.IH by (simp add: algebra_simps)
qed simp

lemma even_max_wraps: "even n \<Longrightarrow> 0 < n \<Longrightarrow> n < 2 ^ 31 \<Longrightarrow> c_int (int n * INT_MAX) = - int n"
proof -
  assume n: "even n" "0 < n" "n < 2 ^ 31"
  then obtain k where k: "n = 2 * k" by blast
  have e: "int n * INT_MAX + 2 ^ 31 = (2 ^ 31 - int n) + int k * 2 ^ 32" by (simp add: k algebra_simps)
  have "(int n * INT_MAX + 2 ^ 31) mod 2 ^ 32 = (2 ^ 31 - int n) mod 2 ^ 32" unfolding e by simp
  also have "\<dots> = 2 ^ 31 - int n" using n by (intro mod_pos_pos_trivial) simp_all
  finally show ?thesis by (simp add: c_int_def)
qed

text \<open>
  With immediate submission turned off by \<open>aura_set_batch_threshold(engine, 0)\<close> every ring's threshold is \<open>INT_MAX\<close>, the sum wraps around,
  and the average batch size of an engine with an even number of rings is reported as -1.
\<close>

theorem batch_average_overflows:
  assumes "even (ring_count e)" and "0 < ring_count e" and "ring_count e \<le> 1024" and "0 < n"
  shows "\<exists>s. aura_get_stats n (snd (aura_set_batch_threshold 0 e)) = (Inr (), Some (s, min n 72), snd (aura_set_batch_threshold 0 e)) \<and>
    st_optimal_batch_size s = -1"
proof -
  let ?e = "snd (aura_set_batch_threshold 0 e)"
  have r: "rings ?e = map (tuned (ctrl_set_batch_threshold 0)) (rings e)" by (simp add: aura_set_batch_threshold_def tune_all)
  have "fold (\<lambda>c n. c_int (n + current_batch_threshold (adaptive c))) (rings ?e) (0 :: int) = fold (\<lambda>c n. c_int (n + INT_MAX)) (rings e) (c_int 0)"
    by (simp add: r fold_map o_def tuned_def ctrl_set_batch_threshold_def) (simp add: c_int_def)
  also have "\<dots> = - int (ring_count e)" using assms by (simp add: fold_const even_max_wraps)
  finally have "st_optimal_batch_size (fold add_ring_stats (rings ?e) zero_stats) = - int (ring_count e)" by (simp add: fold_stats zero_stats_def)
  moreover have "ring_count ?e = ring_count e" by (simp add: r)
  ultimately show ?thesis using assms by (simp add: get_stats_eq c_div_def)
qed

end
