(* ===== verification/Bffio_Stats.thy ===== *)
theory Bffio_Stats
  imports Engine_Stats
begin

text \<open>
  Statistics of the benchmark (src/tools/BFFIO/stats.c, stats.h): the counters and the latency histogram of a worker, the samples taken every
  second, aggregation over workers, percentiles and results. Atomic updates are single steps; a double is a real number.
\<close>

section \<open>Counters of a worker\<close>

abbreviation LAT_HIST_BUCKETS :: nat where "LAT_HIST_BUCKETS \<equiv> 200"
abbreviation LAT_HIST_BUCKET_US :: nat where "LAT_HIST_BUCKET_US \<equiv> 50"
abbreviation LAT_HIST_MAX_US :: nat where "LAT_HIST_MAX_US \<equiv> 10000"
abbreviation MAX_SAMPLES :: nat where "MAX_SAMPLES \<equiv> 600"

record thread_stats =
  ts_read_ops :: u64
  ts_write_ops :: u64
  ts_read_bytes :: u64
  ts_write_bytes :: u64
  ts_errors :: u64
  ts_inflight :: int
  ts_lat_hist :: "u64 list"
  ts_lat_overflow :: u64
  ts_lat_min_ns :: u64
  ts_lat_max_ns :: u64
  ts_lat_sum_ns :: u64
  ts_lat_count :: u64
  ts_bw_samples :: "u64 list"
  ts_iops_samples :: "u64 list"
  ts_sample_count :: nat
  ts_last_bytes :: u64
  ts_last_ops :: u64

definition stats_init :: thread_stats where
  "stats_init = \<lparr>ts_read_ops = 0, ts_write_ops = 0, ts_read_bytes = 0, ts_write_bytes = 0, ts_errors = 0, ts_inflight = 0,
     ts_lat_hist = replicate LAT_HIST_BUCKETS 0, ts_lat_overflow = 0, ts_lat_min_ns = - 1, ts_lat_max_ns = 0, ts_lat_sum_ns = 0, ts_lat_count = 0,
     ts_bw_samples = replicate MAX_SAMPLES 0, ts_iops_samples = replicate MAX_SAMPLES 0, ts_sample_count = 0, ts_last_bytes = 0, ts_last_ops = 0\<rparr>"

text \<open>The operations in flight are kept.\<close>

definition stats_reset :: "thread_stats \<Rightarrow> thread_stats" where
  "stats_reset s = s\<lparr>ts_read_ops := 0, ts_write_ops := 0, ts_read_bytes := 0, ts_write_bytes := 0, ts_errors := 0,
     ts_lat_hist := replicate LAT_HIST_BUCKETS 0, ts_lat_overflow := 0, ts_lat_min_ns := - 1, ts_lat_max_ns := 0, ts_lat_sum_ns := 0, ts_lat_count := 0,
     ts_bw_samples := replicate MAX_SAMPLES 0, ts_iops_samples := replicate MAX_SAMPLES 0, ts_sample_count := 0, ts_last_bytes := 0, ts_last_ops := 0\<rparr>"

definition stats_record_io_count :: "u64 \<Rightarrow> bool \<Rightarrow> thread_stats \<Rightarrow> thread_stats" where
  "stats_record_io_count bytes is_write s =
     (if is_write then s\<lparr>ts_write_ops := ts_write_ops s + 1, ts_write_bytes := ts_write_bytes s + bytes\<rparr>
      else s\<lparr>ts_read_ops := ts_read_ops s + 1, ts_read_bytes := ts_read_bytes s + bytes\<rparr>)"

text \<open>\<open>(int)(latency_us / 50)\<close>; the conversion to \<open>int\<close> wraps around.\<close>

definition lat_bucket :: "u64 \<Rightarrow> int" where
  "lat_bucket latency_ns = c_int (int (unat (latency_ns div 1000 div 50)))"

definition record_bucket :: "int \<Rightarrow> thread_stats \<Rightarrow> thread_stats" where
  "record_bucket bucket s =
     (if bucket \<ge> int LAT_HIST_BUCKETS then s\<lparr>ts_lat_overflow := ts_lat_overflow s + 1\<rparr>
      else s\<lparr>ts_lat_hist := (ts_lat_hist s)[nat bucket := ts_lat_hist s ! nat bucket + 1]\<rparr>)"

definition record_latency :: "u64 \<Rightarrow> thread_stats \<Rightarrow> thread_stats" where
  "record_latency latency_ns s =
     (let s1 = (if latency_ns < ts_lat_min_ns s then s\<lparr>ts_lat_min_ns := latency_ns\<rparr> else s);
          s2 = (if latency_ns > ts_lat_max_ns s1 then s1\<lparr>ts_lat_max_ns := latency_ns\<rparr> else s1)
      in s2\<lparr>ts_lat_sum_ns := ts_lat_sum_ns s2 + latency_ns, ts_lat_count := ts_lat_count s2 + 1\<rparr>)"

text \<open>\<open>None\<close> is an access before the start of the histogram, at a negative bucket.\<close>

definition stats_record_io :: "u64 \<Rightarrow> u64 \<Rightarrow> bool \<Rightarrow> thread_stats \<Rightarrow> thread_stats option" where
  "stats_record_io latency_ns bytes is_write s =
     (if lat_bucket latency_ns < 0 then None
      else Some (record_latency latency_ns (record_bucket (lat_bucket latency_ns) (stats_record_io_count bytes is_write s))))"

section \<open>Samples\<close>

definition stats_take_sample :: "thread_stats \<Rightarrow> thread_stats" where
  "stats_take_sample s =
     (if ts_sample_count s \<ge> MAX_SAMPLES then s
      else
        let cur_bytes = ts_read_bytes s + ts_write_bytes s; cur_ops = ts_read_ops s + ts_write_ops s; n = ts_sample_count s
        in s\<lparr>ts_bw_samples := (ts_bw_samples s)[n := cur_bytes - ts_last_bytes s], ts_iops_samples := (ts_iops_samples s)[n := cur_ops - ts_last_ops s],
             ts_last_bytes := cur_bytes, ts_last_ops := cur_ops, ts_sample_count := n + 1\<rparr>)"

section \<open>Aggregation\<close>

definition add_samples :: "nat \<Rightarrow> u64 list \<Rightarrow> u64 list \<Rightarrow> u64 list" where
  "add_samples n xs ys = map (\<lambda>i. if i < n then ys ! i + xs ! i else ys ! i) [0..<length ys]"

definition merge_stats :: "thread_stats \<Rightarrow> thread_stats \<Rightarrow> thread_stats" where
  "merge_stats src dst =
     dst\<lparr>ts_read_ops := ts_read_ops dst + ts_read_ops src, ts_write_ops := ts_write_ops dst + ts_write_ops src,
        ts_read_bytes := ts_read_bytes dst + ts_read_bytes src, ts_write_bytes := ts_write_bytes dst + ts_write_bytes src,
        ts_errors := ts_errors dst + ts_errors src, ts_lat_hist := map2 (+) (ts_lat_hist dst) (ts_lat_hist src),
        ts_lat_overflow := ts_lat_overflow dst + ts_lat_overflow src,
        ts_lat_min_ns := (if ts_lat_min_ns src < ts_lat_min_ns dst then ts_lat_min_ns src else ts_lat_min_ns dst),
        ts_lat_max_ns := (if ts_lat_max_ns src > ts_lat_max_ns dst then ts_lat_max_ns src else ts_lat_max_ns dst),
        ts_lat_sum_ns := ts_lat_sum_ns dst + ts_lat_sum_ns src, ts_lat_count := ts_lat_count dst + ts_lat_count src,
        ts_sample_count := (if ts_sample_count src > ts_sample_count dst then ts_sample_count src else ts_sample_count dst),
        ts_bw_samples := add_samples (ts_sample_count src) (ts_bw_samples src) (ts_bw_samples dst),
        ts_iops_samples := add_samples (ts_sample_count src) (ts_iops_samples src) (ts_iops_samples dst)\<rparr>"

definition stats_aggregate :: "thread_stats list \<Rightarrow> thread_stats" where
  "stats_aggregate per_thread = fold merge_stats per_thread stats_init"

section \<open>Percentiles\<close>

definition PERCENTILE_LIST :: "real list" where
  "PERCENTILE_LIST = [1, 5, 10, 20, 30, 40, 50, 60, 70, 80, 90, 95, 99, 99.5, 99.9, 99.95, 99.99]"

fun percentile_bucket :: "u64 list \<Rightarrow> nat \<Rightarrow> u64 \<Rightarrow> real \<Rightarrow> nat option" where
  "percentile_bucket [] i cumulative threshold = None"
| "percentile_bucket (c # cs) i cumulative threshold =
     (let cum = cumulative + c in if real (unat cum) \<ge> threshold then Some i else percentile_bucket cs (i + 1) cum threshold)"

definition stats_percentile :: "thread_stats \<Rightarrow> real \<Rightarrow> u64" where
  "stats_percentile s pct =
     (let grand_total = fold (\<lambda>c t. t + c) (ts_lat_hist s) 0 + ts_lat_overflow s
      in if grand_total = 0 then 0
         else case percentile_bucket (ts_lat_hist s) 0 0 ((pct / 100) * real (unat grand_total)) of
             Some i \<Rightarrow> of_nat (i + 1) * of_nat LAT_HIST_BUCKET_US * 1000
           | None \<Rightarrow> of_nat LAT_HIST_MAX_US * 1000)"

section \<open>Results\<close>

record sample_stats =
  ss_min :: int
  ss_max :: int
  ss_mean :: real
  ss_dev :: real

definition compute_sample_stats :: "u64 list \<Rightarrow> sample_stats" where
  "compute_sample_stats samples =
     (if samples = [] then \<lparr>ss_min = 0, ss_max = 0, ss_mean = 0, ss_dev = 0\<rparr>
      else
        let n = length samples; v0 = sint (hd samples);
            mn = fold (\<lambda>x m. if sint x < m then sint x else m) samples v0;
            mx = fold (\<lambda>x m. if sint x > m then sint x else m) samples v0;
            mean = sum_list (map (\<lambda>x. real (unat x)) samples) / real n;
            variance = sum_list (map (\<lambda>x. (real (unat x) - mean) * (real (unat x) - mean)) samples)
        in \<lparr>ss_min = mn, ss_max = mx, ss_mean = mean, ss_dev = sqrt (variance / real (if n > 1 then n - 1 else 1))\<rparr>)"

definition compute_lat_stddev_from_hist :: "thread_stats \<Rightarrow> real \<Rightarrow> real" where
  "compute_lat_stddev_from_hist s mean_ns =
     (let h = zip [0..<length (ts_lat_hist s)] (ts_lat_hist s);
          sq = sum_list (map (\<lambda>(i, c). real (unat c) * ((real i + 0.5) * real LAT_HIST_BUCKET_US * 1000 - mean_ns) ^ 2) h);
          d = real LAT_HIST_MAX_US * 1000 - mean_ns;
          over = ts_lat_overflow s;
          sq' = (if over > 0 then sq + real (unat over) * d * d else sq);
          total_n = fold (\<lambda>c t. t + c) (ts_lat_hist s) 0 + over
      in if total_n \<le> 1 then 0 else sqrt (sq' / real (unat (total_n - 1))))"

record direction_result =
  dr_io_bytes :: u64
  dr_io_kbytes :: u64
  dr_bw_bytes_sec :: int
  dr_bw_kbytes_sec :: int
  dr_iops :: real
  dr_runtime_ms :: int
  dr_total_ios :: u64
  dr_short_ios :: u64
  dr_lat_min_ns :: u64
  dr_lat_max_ns :: u64
  dr_lat_mean_ns :: real
  dr_lat_stddev_ns :: real
  dr_lat_count :: u64
  dr_lat_percentiles_ns :: "u64 list"
  dr_bw :: sample_stats
  dr_bw_samples :: nat
  dr_iops_stats :: sample_stats
  dr_iops_samples :: nat

definition zero_samples :: sample_stats where
  "zero_samples = \<lparr>ss_min = 0, ss_max = 0, ss_mean = 0, ss_dev = 0\<rparr>"

definition zero_direction :: direction_result where
  "zero_direction = \<lparr>dr_io_bytes = 0, dr_io_kbytes = 0, dr_bw_bytes_sec = 0, dr_bw_kbytes_sec = 0, dr_iops = 0, dr_runtime_ms = 0, dr_total_ios = 0,
     dr_short_ios = 0, dr_lat_min_ns = 0, dr_lat_max_ns = 0, dr_lat_mean_ns = 0, dr_lat_stddev_ns = 0, dr_lat_count = 0,
     dr_lat_percentiles_ns = replicate 17 0, dr_bw = zero_samples, dr_bw_samples = 0, dr_iops_stats = zero_samples, dr_iops_samples = 0\<rparr>"

definition compute_direction :: "thread_stats \<Rightarrow> u64 \<Rightarrow> bool \<Rightarrow> direction_result" where
  "compute_direction raw runtime_ms is_write =
     (let ops = (if is_write then ts_write_ops raw else ts_read_ops raw);
          bytes = (if is_write then ts_write_bytes raw else ts_read_bytes raw);
          d0 = zero_direction\<lparr>dr_total_ios := ops, dr_io_bytes := bytes, dr_io_kbytes := bytes div 1024, dr_short_ios := 0, dr_runtime_ms := sint runtime_ms\<rparr>;
          sec = real (unat runtime_ms) / 1000;
          bw = \<lfloor>real (unat bytes) / sec\<rfloor>;
          d1 = (if runtime_ms > 0
                then d0\<lparr>dr_bw_bytes_sec := bw, dr_bw_kbytes_sec := c_div bw 1024, dr_iops := real (unat ops) / sec\<rparr> else d0);
          n = ts_lat_count raw;
          mean = real (unat (ts_lat_sum_ns raw)) / real (unat n);
          d2 = d1\<lparr>dr_lat_count := n\<rparr>
      in if n > 0
         then d2\<lparr>dr_lat_min_ns := (if ts_lat_min_ns raw = - 1 then 0 else ts_lat_min_ns raw), dr_lat_max_ns := ts_lat_max_ns raw, dr_lat_mean_ns := mean,
                dr_lat_stddev_ns := compute_lat_stddev_from_hist raw mean, dr_lat_percentiles_ns := map (stats_percentile raw) PERCENTILE_LIST\<rparr>
         else d2)"

record job_result =
  jr_jobname :: string
  jr_read :: direction_result
  jr_write :: direction_result
  jr_runtime_ms :: int
  jr_final_depth :: int
  jr_phase :: adaptive_phase
  jr_phase_name :: string
  jr_p99_ms :: real
  jr_throughput_bps :: real
  jr_adaptive_spills :: u64

definition with_samples :: "sample_stats \<Rightarrow> sample_stats \<Rightarrow> nat \<Rightarrow> u64 \<Rightarrow> direction_result \<Rightarrow> direction_result" where
  "with_samples bw iops n ops d =
     (if ops > 0 then d\<lparr>dr_bw := bw, dr_bw_samples := n, dr_iops_stats := iops, dr_iops_samples := n\<rparr> else d)"

definition stats_compute_results :: "thread_stats \<Rightarrow> u64 \<Rightarrow> aura_engine \<Rightarrow> string \<Rightarrow> job_result \<times> aura_engine" where
  "stats_compute_results raw runtime_ms e jobname =
     (let n = ts_sample_count raw;
          bw = compute_sample_stats (map (\<lambda>x. x div 1024) (take n (ts_bw_samples raw)));
          iops = compute_sample_stats (take n (ts_iops_samples raw));
          rd = compute_direction raw runtime_ms False; wr = compute_direction raw runtime_ms True;
          r0 = \<lparr>jr_jobname = take 127 jobname, jr_read = (if n > 0 then with_samples bw iops n (ts_read_ops raw) rd else rd),
                jr_write = (if n > 0 then with_samples bw iops n (ts_write_ops raw) wr else wr), jr_runtime_ms = sint runtime_ms, jr_final_depth = 0,
                jr_phase = PHASE_BASELINE, jr_phase_name = [], jr_p99_ms = 0, jr_throughput_bps = 0, jr_adaptive_spills = 0\<rparr>;
          (_, out, e1) = aura_get_stats 72 e;
          st = (case out of Some (st, _) \<Rightarrow> st | None \<Rightarrow> zero_stats);
          r1 = r0\<lparr>jr_final_depth := st_peak_in_flight st, jr_p99_ms := st_p99_latency_ms st, jr_throughput_bps := st_current_throughput_bps st,
               jr_adaptive_spills := st_adaptive_spills st\<rparr>;
          (rc, rout, e2) = aura_get_ring_stats 0 72 e1
      in case (rc, rout) of
           (Inr _, Some (rs, _)) \<Rightarrow> (r1\<lparr>jr_phase := rs_aimd_phase rs, jr_phase_name := take 31 (adaptive_phase_name (rs_aimd_phase rs))\<rparr>, e2)
         | _ \<Rightarrow> (r1, e2))"

section \<open>Aggregation loses nothing\<close>

text \<open>A completed operation: its latency, its bytes and whether it was a write. Latencies below 29 hours have a bucket.\<close>

type_synonym io_sample = "u64 \<times> u64 \<times> bool"

definition sample_ok :: "io_sample \<Rightarrow> bool" where
  "sample_ok x \<longleftrightarrow> unat (fst x) < 50000 * 2 ^ 31"

definition record_sample :: "io_sample \<Rightarrow> thread_stats \<Rightarrow> thread_stats" where
  "record_sample x s = record_latency (fst x) (record_bucket (lat_bucket (fst x)) (stats_record_io_count (fst (snd x)) (snd (snd x)) s))"

lemma lat_bucket_div: "sample_ok x \<Longrightarrow> lat_bucket (fst x) = int (unat (fst x) div 50000)"
proof -
  assume "sample_ok x"
  then have "unat (fst x) div 50000 < 2 ^ 31" by (simp add: sample_ok_def less_mult_imp_div_less)
  moreover have "unat (fst x div 1000 div 50) = unat (fst x) div 50000" by (simp add: unat_div div_mult2_eq[symmetric])
  ultimately show ?thesis by (simp add: lat_bucket_def c_int_id)
qed

lemma record_io_sample: "sample_ok x \<Longrightarrow> stats_record_io (fst x) (fst (snd x)) (snd (snd x)) s = Some (record_sample x s)"
  by (simp add: stats_record_io_def record_sample_def lat_bucket_div)

definition recorded :: "io_sample list \<Rightarrow> thread_stats" where
  "recorded xs = fold record_sample xs stats_init"

definition stats_wf :: "thread_stats \<Rightarrow> bool" where
  "stats_wf s \<longleftrightarrow> length (ts_lat_hist s) = 200"

lemma init_wf [simp]: "stats_wf stats_init"
  by (simp add: stats_wf_def stats_init_def)

lemma record_wf [simp]: "stats_wf (record_sample x s) = stats_wf s"
  by (simp add: stats_wf_def record_sample_def record_latency_def record_bucket_def stats_record_io_count_def Let_def)

lemma merge_wf [simp]: "stats_wf src \<Longrightarrow> stats_wf dst \<Longrightarrow> stats_wf (merge_stats src dst)"
  by (simp add: stats_wf_def merge_stats_def)

lemma fold_record_wf [simp]: "stats_wf (fold record_sample xs s) = stats_wf s"
  by (induction xs arbitrary: s) simp_all

text \<open>A counter that a sample changes by a weight and a merge joins.\<close>

locale stat_field =
  fixes f :: "thread_stats \<Rightarrow> 'a" and join :: "'a \<Rightarrow> 'a \<Rightarrow> 'a" and wt :: "io_sample \<Rightarrow> 'a"
  assumes join_assoc: "join (join a b) c = join a (join b c)"
    and join_init: "join (f stats_init) a = a" "join a (f stats_init) = a"
    and f_record: "stats_wf s \<Longrightarrow> sample_ok x \<Longrightarrow> f (record_sample x s) = join (f s) (wt x)"
    and f_merge: "stats_wf src \<Longrightarrow> stats_wf dst \<Longrightarrow> f (merge_stats src dst) = join (f dst) (f src)"
begin

lemma fold_field: "stats_wf s \<Longrightarrow> list_all sample_ok xs \<Longrightarrow> f (fold record_sample xs s) = join (f s) (f (fold record_sample xs stats_init))"
proof (induction xs arbitrary: s)
  case (Cons x xs)
  have "f (fold record_sample (x # xs) s) = join (f (record_sample x s)) (f (fold record_sample xs stats_init))"
    using Cons.IH[of "record_sample x s"] Cons.prems by simp
  moreover have "f (fold record_sample (x # xs) stats_init) = join (f (record_sample x stats_init)) (f (fold record_sample xs stats_init))"
    using Cons.IH[of "record_sample x stats_init"] Cons.prems by simp
  ultimately show ?case using Cons.prems by (simp add: f_record join_assoc join_init)
qed (simp add: join_init)

lemma field_snoc: "sample_ok x \<Longrightarrow> f (recorded (xs @ [x])) = join (f (recorded xs)) (wt x)"
  using f_record[of "recorded xs" x] by (simp add: recorded_def)

lemma field_append: "list_all sample_ok xs \<Longrightarrow> list_all sample_ok ys \<Longrightarrow> f (recorded (xs @ ys)) = join (f (recorded xs)) (f (recorded ys))"
  using fold_field[of "recorded xs" ys] by (simp add: recorded_def)

lemma field_aggregate: "list_all (list_all sample_ok) xss \<Longrightarrow> f (stats_aggregate (map recorded xss)) = f (recorded (concat xss))"
proof -
  have "f (fold merge_stats (map recorded xss) d) = join (f d) (f (recorded (concat xss)))" if "list_all (list_all sample_ok) xss" "stats_wf d" for d
    using that
  proof (induction xss arbitrary: d)
    case Nil
    then show ?case by (simp add: recorded_def join_init)
  next
    case (Cons xs xss)
    have w: "stats_wf (recorded xs)" by (simp add: recorded_def)
    have c: "list_all sample_ok (concat xss)" using Cons.prems(1) by (induction xss) simp_all
    have "f (fold merge_stats (map recorded (xs # xss)) d) = join (join (f d) (f (recorded xs))) (f (recorded (concat xss)))"
      using Cons.IH[of "merge_stats (recorded xs) d"] Cons.prems w f_merge[OF w] by simp
    then show ?case using field_append[of xs "concat xss"] Cons.prems(1) c by (simp add: join_assoc)
  qed
  from this[of stats_init] show "list_all (list_all sample_ok) xss \<Longrightarrow> ?thesis" by (simp add: stats_aggregate_def join_init)
qed

end

lemmas record_defs = record_sample_def record_latency_def record_bucket_def stats_record_io_count_def Let_def

interpretation read_ops: stat_field ts_read_ops "(+)" "\<lambda>x. if snd (snd x) then 0 else 1"
  by unfold_locales (simp_all add: record_defs merge_stats_def stats_init_def ac_simps)

interpretation write_ops: stat_field ts_write_ops "(+)" "\<lambda>x. if snd (snd x) then 1 else 0"
  by unfold_locales (simp_all add: record_defs merge_stats_def stats_init_def ac_simps)

interpretation read_bytes: stat_field ts_read_bytes "(+)" "\<lambda>x. if snd (snd x) then 0 else fst (snd x)"
  by unfold_locales (simp_all add: record_defs merge_stats_def stats_init_def ac_simps)

interpretation write_bytes: stat_field ts_write_bytes "(+)" "\<lambda>x. if snd (snd x) then fst (snd x) else 0"
  by unfold_locales (simp_all add: record_defs merge_stats_def stats_init_def ac_simps)

interpretation lat_sum: stat_field ts_lat_sum_ns "(+)" fst
  by unfold_locales (simp_all add: record_defs merge_stats_def stats_init_def ac_simps)

interpretation lat_n: stat_field ts_lat_count "(+)" "\<lambda>x. 1"
  by unfold_locales (simp_all add: record_defs merge_stats_def stats_init_def ac_simps)

interpretation lat_over: stat_field ts_lat_overflow "(+)" "\<lambda>x. if lat_bucket (fst x) \<ge> 200 then 1 else 0"
  by unfold_locales (simp_all add: record_defs merge_stats_def stats_init_def ac_simps)

interpretation lat_min: stat_field ts_lat_min_ns min fst
proof
  show "min (ts_lat_min_ns stats_init) a = a" "min a (ts_lat_min_ns stats_init) = a" for a
    by (simp_all add: stats_init_def min_absorb1 min_absorb2)
qed (auto simp: record_defs merge_stats_def min_def)

interpretation lat_max: stat_field ts_lat_max_ns max fst
  by unfold_locales (auto simp: record_defs merge_stats_def stats_init_def max_def)

interpretation lat_hist: stat_field "\<lambda>s. if i < 200 then ts_lat_hist s ! i else 0" "(+)" "\<lambda>x. if i < 200 \<and> lat_bucket (fst x) = int i then 1 else 0" for i
proof
  fix s x
  assume "stats_wf s" "sample_ok x"
  then show "(if i < 200 then ts_lat_hist (record_sample x s) ! i else 0) =
      (if i < 200 then ts_lat_hist s ! i else 0) + (if i < 200 \<and> lat_bucket (fst x) = int i then 1 else 0)"
    by (auto simp: record_defs stats_wf_def lat_bucket_div nth_list_update)
qed (simp_all add: merge_stats_def stats_init_def stats_wf_def ac_simps)

lemma lat_hist_field:
  assumes "list_all (list_all sample_ok) xss"
  shows "ts_lat_hist (stats_aggregate (map recorded xss)) = ts_lat_hist (recorded (concat xss))"
proof (rule nth_equalityI)
  have "stats_wf (recorded xs)" for xs by (simp add: recorded_def)
  then have l: "length (ts_lat_hist (recorded xs)) = 200" for xs by (simp add: stats_wf_def)
  have "stats_wf (fold merge_stats (map recorded xss) d)" if "stats_wf d" for d
    using that by (induction xss arbitrary: d) (simp_all add: recorded_def)
  then have a: "length (ts_lat_hist (stats_aggregate (map recorded xss))) = 200" by (simp add: stats_aggregate_def stats_wf_def[symmetric])
  then show "length (ts_lat_hist (stats_aggregate (map recorded xss))) = length (ts_lat_hist (recorded (concat xss)))" using l by simp
  show "ts_lat_hist (stats_aggregate (map recorded xss)) ! i = ts_lat_hist (recorded (concat xss)) ! i"
    if "i < length (ts_lat_hist (stats_aggregate (map recorded xss)))" for i
    using lat_hist.field_aggregate[OF assms, of i] that a by simp
qed

text \<open>
  Claim C39. Aggregating the statistics of several workers gives the statistics one worker would have that did all their operations: every
  counter, every bucket of the latency histogram, the least and the greatest latency, their sum and their number.
\<close>

theorem aggregate_is_one_worker:
  assumes "list_all (list_all sample_ok) xss"
  shows "let a = stats_aggregate (map recorded xss); b = recorded (concat xss)
    in ts_read_ops a = ts_read_ops b \<and> ts_write_ops a = ts_write_ops b \<and> ts_read_bytes a = ts_read_bytes b \<and> ts_write_bytes a = ts_write_bytes b \<and>
       ts_lat_hist a = ts_lat_hist b \<and> ts_lat_overflow a = ts_lat_overflow b \<and> ts_lat_min_ns a = ts_lat_min_ns b \<and>
       ts_lat_max_ns a = ts_lat_max_ns b \<and> ts_lat_sum_ns a = ts_lat_sum_ns b \<and> ts_lat_count a = ts_lat_count b"
  unfolding Let_def
  by (simp only: lat_hist_field[OF assms] read_ops.field_aggregate[OF assms] write_ops.field_aggregate[OF assms] read_bytes.field_aggregate[OF assms]
      write_bytes.field_aggregate[OF assms] lat_over.field_aggregate[OF assms] lat_min.field_aggregate[OF assms] lat_max.field_aggregate[OF assms]
      lat_sum.field_aggregate[OF assms] lat_n.field_aggregate[OF assms])

theorem aggregate_is_one_worker_witness:
  "ts_lat_count (stats_aggregate (map recorded [[(70000, 4096, False)], [(90000, 4096, True)]])) = ts_lat_count (recorded [(70000, 4096, False), (90000, 4096, True)])"
proof -
  have "list_all (list_all sample_ok) [[(70000, 4096, False)], [(90000, 4096, True)]]" by (simp add: sample_ok_def)
  from aggregate_is_one_worker[OF this] show ?thesis by (simp add: Let_def)
qed

section \<open>Percentiles are order statistics\<close>

text \<open>The number of operations faster than \<open>k\<close> buckets.\<close>

definition faster :: "nat \<Rightarrow> io_sample list \<Rightarrow> nat" where
  "faster k xs = length (filter (\<lambda>x. unat (fst x) < k * 50000) xs)"

lemma faster_Suc: "faster (Suc k) xs = faster k xs + length (filter (\<lambda>x. unat (fst x) div 50000 = k) xs)"
proof (induction xs)
  case (Cons x xs)
  have "unat (fst x) < Suc k * 50000 \<longleftrightarrow> unat (fst x) < k * 50000 \<or> unat (fst x) div 50000 = k"
    using div_less_iff_less_mult[of 50000 "unat (fst x)" "Suc k"] div_less_iff_less_mult[of 50000 "unat (fst x)" k] by auto
  moreover have "\<not> (unat (fst x) < k * 50000 \<and> unat (fst x) div 50000 = k)" using div_less_iff_less_mult[of 50000 "unat (fst x)" k] by auto
  ultimately show ?case using Cons by (auto simp: faster_def)
qed (simp add: faster_def)

lemma hist_counts_samples:
  assumes "list_all sample_ok xs"
  shows "i < 200 \<Longrightarrow> ts_lat_hist (recorded xs) ! i = of_nat (length (filter (\<lambda>x. unat (fst x) div 50000 = i) xs))"
    "ts_lat_overflow (recorded xs) = of_nat (length (filter (\<lambda>x. \<not> unat (fst x) < 200 * 50000) xs))"
proof -
  have "(i < 200 \<longrightarrow> ts_lat_hist (recorded xs) ! i = of_nat (length (filter (\<lambda>x. unat (fst x) div 50000 = i) xs))) \<and>
      ts_lat_overflow (recorded xs) = of_nat (length (filter (\<lambda>x. \<not> unat (fst x) < 200 * 50000) xs))"
    using assms
  proof (induction xs rule: rev_induct)
    case Nil
    then show ?case by (simp add: recorded_def stats_init_def)
  next
    case (snoc x xs)
    have x: "sample_ok x" using snoc.prems by simp
    have "lat_bucket (fst x) \<ge> 200 \<longleftrightarrow> \<not> unat (fst x) < 200 * 50000"
      unfolding lat_bucket_div[OF x] using div_less_iff_less_mult[of 50000 "unat (fst x)" 200] by linarith
    then show ?case using snoc lat_hist.field_snoc[OF x, of i xs] lat_over.field_snoc[OF x, of xs] lat_bucket_div[OF x] by (auto simp: ac_simps)
  qed
  then show "i < 200 \<Longrightarrow> ts_lat_hist (recorded xs) ! i = of_nat (length (filter (\<lambda>x. unat (fst x) div 50000 = i) xs))"
    "ts_lat_overflow (recorded xs) = of_nat (length (filter (\<lambda>x. \<not> unat (fst x) < 200 * 50000) xs))" by auto
qed

lemma faster_mono: "j \<le> k \<Longrightarrow> faster j xs \<le> faster k xs"
proof -
  assume "j \<le> k"
  then have "x < j * 50000 \<Longrightarrow> x < k * 50000" for x :: nat using mult_le_mono1[of j k 50000] by linarith
  then show ?thesis by (induction xs) (auto simp: faster_def)
qed

lemma faster_le: "faster k xs \<le> length xs"
  by (simp add: faster_def)

lemma hist_length: "length (ts_lat_hist (recorded xs)) = 200"
proof -
  have "stats_wf (recorded xs)" by (simp add: recorded_def)
  then show ?thesis by (simp add: stats_wf_def)
qed

lemma hist_sum:
  assumes "list_all sample_ok xs"
  shows "k \<le> 200 \<Longrightarrow> fold (\<lambda>c t. t + c) (take k (ts_lat_hist (recorded xs))) 0 = of_nat (faster k xs)"
proof (induction k)
  case 0
  then show ?case by (simp add: faster_def)
next
  case (Suc k)
  then have "take (Suc k) (ts_lat_hist (recorded xs)) = take k (ts_lat_hist (recorded xs)) @ [ts_lat_hist (recorded xs) ! k]"
    by (simp add: take_Suc_conv_app_nth hist_length)
  then show ?case using Suc hist_counts_samples(1)[OF assms, of k] by (simp add: faster_Suc)
qed

lemma bucket_found:
  assumes "list_all sample_ok xs" "length xs < 2 ^ 64" "i \<le> 200"
  shows "case percentile_bucket (drop i (ts_lat_hist (recorded xs))) i (of_nat (faster i xs)) t of
      Some k \<Rightarrow> k < 200 \<and> t \<le> real (faster (Suc k) xs) \<and> (k = i \<or> real (faster k xs) < t)
    | None \<Rightarrow> i = 200 \<or> real (faster 200 xs) < t"
  using assms(3)
proof (induction "200 - i" arbitrary: i)
  case 0
  then show ?case by (simp add: hist_length)
next
  case (Suc n)
  let ?h = "ts_lat_hist (recorded xs)"
  have i: "i < 200" using Suc by simp
  then have d: "drop i ?h = ?h ! i # drop (Suc i) ?h" by (simp add: Cons_nth_drop_Suc hist_length)
  have c: "(of_nat (faster i xs) :: u64) + ?h ! i = of_nat (faster (Suc i) xs)" using hist_counts_samples(1)[OF assms(1) i] by (simp add: faster_Suc)
  have "faster (Suc i) xs < 2 ^ 64" using faster_le[of "Suc i" xs] assms(2) by linarith
  then have "unat (of_nat (faster (Suc i) xs) :: u64) = faster (Suc i) xs" by (simp add: unat_of_nat)
  then have u: "percentile_bucket (?h ! i # drop (Suc i) ?h) i (of_nat (faster i xs)) t =
      (if real (faster (Suc i) xs) \<ge> t then Some i else percentile_bucket (drop (Suc i) ?h) (i + 1) (of_nat (faster (Suc i) xs)) t)"
    unfolding percentile_bucket.simps Let_def c by (simp only:)
  have IH: "case percentile_bucket (drop (Suc i) ?h) (Suc i) (of_nat (faster (Suc i) xs)) t of
      Some k \<Rightarrow> k < 200 \<and> t \<le> real (faster (Suc k) xs) \<and> (k = Suc i \<or> real (faster k xs) < t) | None \<Rightarrow> Suc i = 200 \<or> real (faster 200 xs) < t"
    using Suc i by simp
  show ?case
  proof (cases "t \<le> real (faster (Suc i) xs)")
    case True
    then show ?thesis unfolding d u using i by simp
  next
    case False
    have e: "percentile_bucket (?h ! i # drop (Suc i) ?h) i (of_nat (faster i xs)) t = percentile_bucket (drop (Suc i) ?h) (Suc i) (of_nat (faster (Suc i) xs)) t"
      using False unfolding u by simp
    have lt: "real (faster (Suc i) xs) < t" using False by simp
    have "Suc i = 200 \<Longrightarrow> real (faster 200 xs) < t" using lt by (metis)
    then show ?thesis unfolding d e using IH lt by (auto split: option.splits)
  qed
qed



section \<open>Samples add up\<close>

text \<open>What happens to the statistics of one worker after their initialisation.\<close>

datatype stat_event = Timed u64 u64 bool | Counted u64 bool | Failed | SampleTick | StatReset

fun stat_step :: "stat_event \<Rightarrow> thread_stats \<Rightarrow> thread_stats option" where
  "stat_step (Timed l b w) s = stats_record_io l b w s"
| "stat_step (Counted b w) s = Some (stats_record_io_count b w s)"
| "stat_step Failed s = Some (s\<lparr>ts_errors := ts_errors s + 1\<rparr>)"
| "stat_step SampleTick s = Some (stats_take_sample s)"
| "stat_step StatReset s = Some (stats_reset s)"

fun stat_run :: "stat_event list \<Rightarrow> thread_stats \<Rightarrow> thread_stats option" where
  "stat_run [] s = Some s"
| "stat_run (e # es) s = (case stat_step e s of None \<Rightarrow> None | Some s' \<Rightarrow> stat_run es s')"

definition samples_ok :: "thread_stats \<Rightarrow> bool" where
  "samples_ok s \<longleftrightarrow> length (ts_bw_samples s) = 600 \<and> length (ts_iops_samples s) = 600 \<and> ts_sample_count s \<le> 600 \<and>
     sum_list (take (ts_sample_count s) (ts_bw_samples s)) = ts_last_bytes s \<and> sum_list (take (ts_sample_count s) (ts_iops_samples s)) = ts_last_ops s"

lemma samples_frame: "samples_ok (record_latency l s) = samples_ok s" "samples_ok (record_bucket b s) = samples_ok s"
    "samples_ok (stats_record_io_count n w s) = samples_ok s" "samples_ok (s\<lparr>ts_errors := x\<rparr>) = samples_ok s"
  by (simp_all add: samples_ok_def record_latency_def record_bucket_def stats_record_io_count_def Let_def)

lemma take_sample_ok: "samples_ok s \<Longrightarrow> samples_ok (stats_take_sample s)"
proof (cases "ts_sample_count s \<ge> 600")
  case False
  have "take (Suc n) (xs[n := v]) = take n xs @ [v]" if "n < length xs" for n :: nat and xs :: "u64 list" and v
    using that by (simp add: take_Suc_conv_app_nth)
  then show "samples_ok s \<Longrightarrow> ?thesis" using False by (simp add: samples_ok_def stats_take_sample_def Let_def)
qed (simp add: stats_take_sample_def)

lemma stat_step_ok: "stat_step e s = Some s' \<Longrightarrow> samples_ok s \<Longrightarrow> samples_ok s'"
  by (cases e) (auto simp: samples_frame take_sample_ok stats_record_io_def split: if_splits, simp add: samples_ok_def stats_reset_def)

lemma stat_run_ok: "stat_run es s = Some s' \<Longrightarrow> samples_ok s \<Longrightarrow> samples_ok s'"
  by (induction es arbitrary: s) (auto split: option.splits dest: stat_step_ok)

text \<open>
  The samples of bandwidth and operations taken every second add up: in every history of a worker's statistics the sum of the samples
  is the bytes and operations counted up to the last sample, so that nothing is counted twice or lost between two samples, and the sample arrays
  are never overrun.
\<close>

theorem samples_add_up:
  assumes "stat_run es stats_init = Some s"
  shows "ts_sample_count s \<le> MAX_SAMPLES \<and> length (ts_bw_samples s) = MAX_SAMPLES \<and>
    sum_list (take (ts_sample_count s) (ts_bw_samples s)) = ts_last_bytes s \<and> sum_list (take (ts_sample_count s) (ts_iops_samples s)) = ts_last_ops s \<and>
    (ts_sample_count s < MAX_SAMPLES \<longrightarrow> ts_last_bytes (stats_take_sample s) = ts_read_bytes s + ts_write_bytes s)"
proof -
  have "samples_ok stats_init" by (simp add: samples_ok_def stats_init_def)
  then have "samples_ok s" by (rule stat_run_ok[OF assms])
  then show ?thesis by (auto simp: samples_ok_def stats_take_sample_def Let_def)
qed

theorem samples_add_up_witness:
  "\<exists>s. stat_run [Counted 4096 False, SampleTick] stats_init = Some s \<and> sum_list (take (ts_sample_count s) (ts_bw_samples s)) = ts_last_bytes s"
proof -
  obtain s where s: "stat_run [Counted 4096 False, SampleTick] stats_init = Some s" by simp
  from samples_add_up[OF s] s show ?thesis by blast
qed

section \<open>Latencies without a bucket\<close>

text \<open>
  The bucket number is converted to \<open>int\<close> before it is compared: for a latency of more than 29 hours it is negative and the counter is
  written before the start of the histogram.
\<close>

theorem long_latency_outside_histogram: "stats_record_io 110000000000000 bytes is_write s = None"
proof -
  have "unat ((110000000000000 :: u64) div 1000 div 50) = 2200000000" by (simp add: unat_div)
  then show ?thesis by (simp add: stats_record_io_def lat_bucket_def c_int_def)
qed

text \<open>
  A completion time before the submission time gives a latency that wraps around; it is counted as the longest of all.
\<close>

theorem wrapped_latency_is_longest:
  "ts_lat_max_ns s < - 1000000 \<Longrightarrow> \<exists>s'. stats_record_io (- 1000000) bytes is_write s = Some s' \<and> ts_lat_max_ns s' = 18446744073708551616"
proof -
  assume m: "ts_lat_max_ns s < - 1000000"
  have "unat ((- 1000000 :: u64) div 1000 div 50) = 368934881474171" by (simp add: unat_div)
  then have "lat_bucket (- 1000000) = 1485715067" by (simp add: lat_bucket_def c_int_def)
  then show ?thesis using m by (simp add: stats_record_io_def record_latency_def record_bucket_def stats_record_io_count_def Let_def)
qed

end
