(* ===== verification/Bffio_Pool.thy ===== *)
theory Bffio_Pool
  imports Aura_Prelude
begin

text \<open>
  The pool of request contexts of a benchmark worker (src/tools/BFFIO/workload.c, workload.h): a lock-free stack of free slots. The owning
  thread takes slots, any thread that runs completions gives them back. Each atomic access is one step, so the theorems hold for every
  interleaving of one taker and any number of givers; a weak compare-and-exchange may fail for no reason.
\<close>

section \<open>Contexts and the pool\<close>

text \<open>
  The pointers to the worker's statistics, its engine, its ramp flag and its pool are the same for every context and left out; a buffer is a
  name, \<open>None\<close> is NULL.
\<close>

record io_ctx =
  ic_submit_time_ns :: u64
  ic_io_size :: u64
  ic_buffer :: "nat option"
  ic_reg_buf_index :: int
  ic_is_write :: bool
  ic_pool_idx :: int
  ic_next_free :: int

record io_ctx_pool =
  pl_slots :: "io_ctx list"
  pl_free_head :: int
  pl_capacity :: int

definition new_ctx :: "nat \<Rightarrow> io_ctx" where
  "new_ctx i = \<lparr>ic_submit_time_ns = 0, ic_io_size = 0, ic_buffer = None, ic_reg_buf_index = 0, ic_is_write = False, ic_pool_idx = int i,
     ic_next_free = int i - 1\<rparr>"

text \<open>\<open>ok\<close> is the answer of \<open>calloc\<close>; \<open>None\<close> stands for -1.\<close>

definition io_ctx_pool_init :: "bool \<Rightarrow> int \<Rightarrow> io_ctx_pool option" where
  "io_ctx_pool_init ok capacity =
     (if \<not> ok then None
      else Some \<lparr>pl_slots = map new_ctx [0..<nat capacity], pl_free_head = capacity - 1, pl_capacity = capacity\<rparr>)"

definition io_ctx_pool_destroy :: "io_ctx_pool \<Rightarrow> io_ctx_pool" where
  "io_ctx_pool_destroy pool = pool\<lparr>pl_slots := [], pl_capacity := 0\<rparr>"

definition upd_ctx :: "nat \<Rightarrow> (io_ctx \<Rightarrow> io_ctx) \<Rightarrow> io_ctx_pool \<Rightarrow> io_ctx_pool" where
  "upd_ctx i f pool = pool\<lparr>pl_slots := (pl_slots pool)[i := f (pl_slots pool ! i)]\<rparr>"

section \<open>Taking and giving, one access at a time\<close>

text \<open>Where the taker stands in \<open>io_ctx_pool_get\<close> and a giver in \<open>io_ctx_pool_put\<close>.\<close>

datatype get_pc = GetIdle | GetLoaded int | GetNext int int
datatype put_pc = PutIdle | PutLoaded nat int | PutStored nat int

text \<open>\<open>ps_held\<close> are the slots that were taken and that no giver has begun to give back.\<close>

record pool_state =
  ps_pool :: io_ctx_pool
  ps_get :: get_pc
  ps_put :: "nat \<Rightarrow> put_pc"
  ps_held :: "nat set"

text \<open>The loop test on the head just read: NULL is returned when it is negative.\<close>

definition get_test :: "int \<Rightarrow> get_pc" where
  "get_test idx = (if idx < 0 then GetIdle else GetLoaded idx)"

definition get_step :: "bool \<Rightarrow> pool_state \<Rightarrow> pool_state" where
  "get_step spurious s =
     (case ps_get s of
        GetIdle \<Rightarrow> s\<lparr>ps_get := get_test (pl_free_head (ps_pool s))\<rparr>
      | GetLoaded idx \<Rightarrow> s\<lparr>ps_get := GetNext idx (ic_next_free (pl_slots (ps_pool s) ! nat idx))\<rparr>
      | GetNext idx nxt \<Rightarrow>
          if pl_free_head (ps_pool s) = idx \<and> \<not> spurious
          then s\<lparr>ps_pool := (ps_pool s)\<lparr>pl_free_head := nxt\<rparr>, ps_get := GetIdle, ps_held := insert (nat idx) (ps_held s)\<rparr>
          else s\<lparr>ps_get := get_test (pl_free_head (ps_pool s))\<rparr>)"

definition put_begin :: "nat \<Rightarrow> nat \<Rightarrow> pool_state \<Rightarrow> pool_state" where
  "put_begin t i s =
     (if i \<in> ps_held s \<and> ps_put s t = PutIdle
      then s\<lparr>ps_put := (ps_put s)(t := PutLoaded i (pl_free_head (ps_pool s))), ps_held := ps_held s - {i}\<rparr>
      else s)"

definition put_step :: "bool \<Rightarrow> nat \<Rightarrow> pool_state \<Rightarrow> pool_state" where
  "put_step spurious t s =
     (case ps_put s t of
        PutIdle \<Rightarrow> s
      | PutLoaded i old \<Rightarrow>
          s\<lparr>ps_pool := upd_ctx i (\<lambda>c. c\<lparr>ic_next_free := old\<rparr>) (ps_pool s), ps_put := (ps_put s)(t := PutStored i old)\<rparr>
      | PutStored i old \<Rightarrow>
          if pl_free_head (ps_pool s) = old \<and> \<not> spurious
          then s\<lparr>ps_pool := (ps_pool s)\<lparr>pl_free_head := ic_pool_idx (pl_slots (ps_pool s) ! i)\<rparr>, ps_put := (ps_put s)(t := PutIdle)\<rparr>
          else s\<lparr>ps_put := (ps_put s)(t := PutLoaded i (pl_free_head (ps_pool s)))\<rparr>)"

text \<open>An event is a step of the taker, the start of a give by thread \<open>t\<close> of a slot that is out, or a step of a giver.\<close>

datatype pool_event = GetEv bool | PutBegin nat nat | PutEv bool nat

fun pool_step :: "pool_event \<Rightarrow> pool_state \<Rightarrow> pool_state" where
  "pool_step (GetEv b) s = get_step b s"
| "pool_step (PutBegin t i) s = put_begin t i s"
| "pool_step (PutEv b t) s = put_step b t s"

definition pool_start :: "io_ctx_pool \<Rightarrow> pool_state" where
  "pool_start pool = \<lparr>ps_pool = pool, ps_get = GetIdle, ps_put = (\<lambda>_. PutIdle), ps_held = {}\<rparr>"

text \<open>A whole call that is not interrupted.\<close>

definition io_ctx_pool_get :: "io_ctx_pool \<Rightarrow> (nat \<times> io_ctx_pool) option" where
  "io_ctx_pool_get pool =
     (let idx = pl_free_head pool
      in if idx < 0 then None else Some (nat idx, pool\<lparr>pl_free_head := ic_next_free (pl_slots pool ! nat idx)\<rparr>))"

definition io_ctx_pool_put :: "nat \<Rightarrow> io_ctx_pool \<Rightarrow> io_ctx_pool" where
  "io_ctx_pool_put i pool =
     (upd_ctx i (\<lambda>c. c\<lparr>ic_next_free := pl_free_head pool\<rparr>) pool)\<lparr>pl_free_head := ic_pool_idx (pl_slots pool ! i)\<rparr>"

section \<open>The list of free slots\<close>

fun free_chain :: "io_ctx list \<Rightarrow> int \<Rightarrow> nat list \<Rightarrow> bool" where
  "free_chain slots h [] \<longleftrightarrow> h = - 1"
| "free_chain slots h (i # is) \<longleftrightarrow> h = int i \<and> free_chain slots (ic_next_free (slots ! i)) is"

text \<open>The list as it is found by following the links, \<open>n\<close> of them at most.\<close>

fun follow :: "nat \<Rightarrow> io_ctx list \<Rightarrow> int \<Rightarrow> nat list" where
  "follow 0 slots h = []"
| "follow (Suc n) slots h = (if h < 0 then [] else nat h # follow n slots (ic_next_free (slots ! nat h)))"

definition free_list :: "io_ctx_pool \<Rightarrow> nat list" where
  "free_list pool = follow (length (pl_slots pool)) (pl_slots pool) (pl_free_head pool)"

lemma follow_chain: "free_chain slots h xs \<Longrightarrow> length xs \<le> n \<Longrightarrow> follow n slots h = xs"
proof (induction xs arbitrary: h n)
  case Nil
  then show ?case by (cases n) auto
next
  case (Cons i "is")
  then show ?case by (cases n) auto
qed

lemma free_chain_update:
  "i \<notin> set xs \<Longrightarrow> free_chain (slots[i := c]) h xs \<longleftrightarrow> free_chain slots h xs"
  by (induction slots h xs rule: free_chain.induct) auto

lemma free_chain_cong:
  "(\<And>i. i \<in> set xs \<Longrightarrow> ic_next_free (slots' ! i) = ic_next_free (slots ! i)) \<Longrightarrow> free_chain slots' h xs \<longleftrightarrow> free_chain slots h xs"
  by (induction slots h xs rule: free_chain.induct) auto

text \<open>A list of distinct slots is the list found.\<close>

lemma free_list_chain:
  assumes "free_chain (pl_slots pool) (pl_free_head pool) xs" "distinct xs" "set xs \<subseteq> {..<length (pl_slots pool)}"
  shows "free_list pool = xs"
proof -
  have "length xs = card (set xs)" using assms(2) by (simp add: distinct_card)
  also have "\<dots> \<le> card {..<length (pl_slots pool)}" using assms(3) by (intro card_mono) auto
  finally show ?thesis using assms(1) by (simp add: free_list_def follow_chain)
qed

section \<open>The invariant\<close>

fun put_slot :: "put_pc \<Rightarrow> nat option" where
  "put_slot PutIdle = None"
| "put_slot (PutLoaded i old) = Some i"
| "put_slot (PutStored i old) = Some i"

definition returning :: "pool_state \<Rightarrow> nat set" where
  "returning s = {i. \<exists>t. put_slot (ps_put s t) = Some i}"

fun get_ok :: "io_ctx list \<Rightarrow> nat list \<Rightarrow> get_pc \<Rightarrow> bool" where
  "get_ok slots xs GetIdle \<longleftrightarrow> True"
| "get_ok slots xs (GetLoaded idx) \<longleftrightarrow> idx \<ge> 0 \<and> nat idx \<in> set xs"
| "get_ok slots xs (GetNext idx nxt) \<longleftrightarrow> idx \<ge> 0 \<and> nat idx \<in> set xs \<and> ic_next_free (slots ! nat idx) = nxt"

fun put_ok :: "io_ctx list \<Rightarrow> put_pc \<Rightarrow> bool" where
  "put_ok slots (PutStored i old) \<longleftrightarrow> ic_next_free (slots ! i) = old"
| "put_ok slots pc \<longleftrightarrow> True"

text \<open>
  The head starts a list of distinct slots; these, the slots out and the slots being given back are all slots, each once. What the taker has
  read of a free slot is still true, which is why no other thread may take: the slot it looks at cannot have left the list.
\<close>

definition pool_inv :: "pool_state \<Rightarrow> nat list \<Rightarrow> bool" where
  "pool_inv s xs \<longleftrightarrow>
     (let slots = pl_slots (ps_pool s)
      in (\<forall>i < length slots. ic_pool_idx (slots ! i) = int i) \<and> free_chain slots (pl_free_head (ps_pool s)) xs \<and> distinct xs \<and>
         set xs \<union> ps_held s \<union> returning s = {..<length slots} \<and> set xs \<inter> ps_held s = {} \<and> set xs \<inter> returning s = {} \<and>
         ps_held s \<inter> returning s = {} \<and>
         (\<forall>t u i. put_slot (ps_put s t) = Some i \<longrightarrow> put_slot (ps_put s u) = Some i \<longrightarrow> t = u) \<and>
         get_ok slots xs (ps_get s) \<and> (\<forall>t. put_ok slots (ps_put s t)))"

lemma pool_invI:
  assumes "slots = pl_slots (ps_pool s)" "\<And>i. i < length slots \<Longrightarrow> ic_pool_idx (slots ! i) = int i"
    "free_chain slots (pl_free_head (ps_pool s)) xs" "distinct xs" "set xs \<union> ps_held s \<union> returning s = {..<length slots}"
    "set xs \<inter> ps_held s = {}" "set xs \<inter> returning s = {}" "ps_held s \<inter> returning s = {}"
    "\<And>t u i. put_slot (ps_put s t) = Some i \<Longrightarrow> put_slot (ps_put s u) = Some i \<Longrightarrow> t = u"
    "get_ok slots xs (ps_get s)" "\<And>t. put_ok slots (ps_put s t)"
  shows "pool_inv s xs"
  using assms by (auto simp: pool_inv_def Let_def)

lemma pool_invD:
  assumes "pool_inv s xs"
  shows "\<And>i. i < length (pl_slots (ps_pool s)) \<Longrightarrow> ic_pool_idx (pl_slots (ps_pool s) ! i) = int i"
    "free_chain (pl_slots (ps_pool s)) (pl_free_head (ps_pool s)) xs" "distinct xs"
    "set xs \<union> ps_held s \<union> returning s = {..<length (pl_slots (ps_pool s))}"
    "set xs \<inter> ps_held s = {}" "set xs \<inter> returning s = {}" "ps_held s \<inter> returning s = {}"
    "\<And>t u i. put_slot (ps_put s t) = Some i \<Longrightarrow> put_slot (ps_put s u) = Some i \<Longrightarrow> t = u"
    "get_ok (pl_slots (ps_pool s)) xs (ps_get s)" "\<And>t. put_ok (pl_slots (ps_pool s)) (ps_put s t)"
  using assms by (auto simp: pool_inv_def Let_def)

lemma returning_upd:
  assumes "\<And>t u i. put_slot (ps_put s t) = Some i \<Longrightarrow> put_slot (ps_put s u) = Some i \<Longrightarrow> t = u"
  shows "{i. \<exists>u. put_slot (((ps_put s)(t := pc)) u) = Some i} =
    {i \<in> returning s. put_slot (ps_put s t) \<noteq> Some i} \<union> {i. put_slot pc = Some i}"
proof (rule set_eqI)
  fix i
  have "i \<in> returning s \<and> put_slot (ps_put s t) \<noteq> Some i \<longleftrightarrow> (\<exists>u. u \<noteq> t \<and> put_slot (ps_put s u) = Some i)"
    using assms[of t i] by (auto simp: returning_def)
  then show "i \<in> {i. \<exists>u. put_slot (((ps_put s)(t := pc)) u) = Some i} \<longleftrightarrow>
      i \<in> {i \<in> returning s. put_slot (ps_put s t) \<noteq> Some i} \<union> {i. put_slot pc = Some i}"
    by (auto split: if_splits)
qed

lemma get_test_ok: "free_chain slots h xs \<Longrightarrow> get_ok slots xs (get_test h)"
  by (cases xs) (auto simp: get_test_def)

text \<open>A step of the taker keeps the invariant; the one that succeeds takes the first free slot.\<close>

lemma get_step_inv:
  assumes inv: "pool_inv s xs"
  shows "pool_inv (get_step b s) xs \<and> ps_held (get_step b s) = ps_held s \<or>
    (\<exists>i ys. xs = i # ys \<and> pool_inv (get_step b s) ys \<and> ps_held (get_step b s) = insert i (ps_held s))"
proof -
  note d = pool_invD[OF inv]
  have idle: "pool_inv (s\<lparr>ps_get := pc\<rparr>) xs" if "get_ok (pl_slots (ps_pool s)) xs pc" for pc
    using inv that by (simp add: pool_inv_def returning_def Let_def)
  have test: "pool_inv (s\<lparr>ps_get := get_test (pl_free_head (ps_pool s))\<rparr>) xs" by (rule idle[OF get_test_ok[OF d(2)]])
  show ?thesis
  proof (cases "ps_get s")
    case GetIdle
    then show ?thesis using test by (simp add: get_step_def)
  next
    case (GetLoaded idx)
    then have "get_ok (pl_slots (ps_pool s)) xs (GetNext idx (ic_next_free (pl_slots (ps_pool s) ! nat idx)))" using d(9) by simp
    then show ?thesis using idle GetLoaded by (simp add: get_step_def)
  next
    case (GetNext idx nxt)
    show ?thesis
    proof (cases "pl_free_head (ps_pool s) = idx \<and> \<not> b")
      case True
      have g: "idx \<ge> 0" "nat idx \<in> set xs" "ic_next_free (pl_slots (ps_pool s) ! nat idx) = nxt" using d(9) GetNext by auto
      obtain ys where xs: "xs = nat idx # ys" and c: "free_chain (pl_slots (ps_pool s)) nxt ys"
        using d(2) True g by (cases xs) auto
      have "pool_inv (get_step b s) ys"
        by (rule pool_invI[OF refl]) (use d GetNext True xs c in \<open>auto simp: get_step_def returning_def\<close>)
      then show ?thesis using xs GetNext True by (simp add: get_step_def)
    next
      case False
      then have "get_step b s = s\<lparr>ps_get := get_test (pl_free_head (ps_pool s))\<rparr>" by (auto simp: get_step_def GetNext)
      then show ?thesis using test by simp
    qed
  qed
qed

text \<open>A giver's slot goes from out to being given back, and to the front of the list.\<close>

lemma put_begin_inv:
  assumes inv: "pool_inv s xs"
  shows "pool_inv (put_begin t i s) xs \<and> ps_held (put_begin t i s) \<union> returning (put_begin t i s) = ps_held s \<union> returning s"
proof (cases "i \<in> ps_held s \<and> ps_put s t = PutIdle")
  case True
  note d = pool_invD[OF inv]
  let ?s = "put_begin t i s"
  have s: "?s = s\<lparr>ps_put := (ps_put s)(t := PutLoaded i (pl_free_head (ps_pool s))), ps_held := ps_held s - {i}\<rparr>"
    using True by (simp add: put_begin_def)
  have r: "returning ?s = insert i (returning s)"
    using returning_upd[where s = s and t = t and pc = "PutLoaded i (pl_free_head (ps_pool s))", OF d(8)] True by (auto simp: returning_def s)
  have u: "t' = u" if "put_slot (ps_put ?s t') = Some j" "put_slot (ps_put ?s u) = Some j" for t' u j
    using that True d(7,8) by (auto simp: s returning_def split: if_splits)
  have "pool_inv ?s xs"
    by (rule pool_invI[OF refl _ _ _ _ _ _ _ u]) (use d True r in \<open>auto simp: s\<close>)
  then show ?thesis using r True by (auto simp: s)
next
  case False
  then have "put_begin t i s = s" unfolding put_begin_def by (rule if_not_P)
  then show ?thesis using inv by simp
qed

lemma put_step_inv:
  assumes inv: "pool_inv s xs"
  shows "ps_held (put_step b t s) = ps_held s"
    "pool_inv (put_step b t s) xs \<and> returning (put_step b t s) = returning s \<or>
     (\<exists>i. put_slot (ps_put s t) = Some i \<and> pool_inv (put_step b t s) (i # xs) \<and> returning (put_step b t s) = returning s - {i})"
proof -
  note d = pool_invD[OF inv]
  show "ps_held (put_step b t s) = ps_held s" by (simp add: put_step_def split: put_pc.split)
  show "pool_inv (put_step b t s) xs \<and> returning (put_step b t s) = returning s \<or>
     (\<exists>i. put_slot (ps_put s t) = Some i \<and> pool_inv (put_step b t s) (i # xs) \<and> returning (put_step b t s) = returning s - {i})"
  proof (cases "ps_put s t")
    case PutIdle
    then show ?thesis using inv by (simp add: put_step_def)
  next
    case (PutLoaded i old)
    let ?slots = "pl_slots (ps_pool s)"
    let ?s = "put_step b t s"
    have s: "?s = s\<lparr>ps_pool := upd_ctx i (\<lambda>c. c\<lparr>ic_next_free := old\<rparr>) (ps_pool s), ps_put := (ps_put s)(t := PutStored i old)\<rparr>"
      using PutLoaded by (simp add: put_step_def)
    have i: "i \<in> returning s" using PutLoaded by (auto simp: returning_def intro!: exI[of _ t])
    then have il: "i < length ?slots" "i \<notin> set xs" using d(4,6) by auto
    have r: "returning ?s = returning s"
      using returning_upd[where s = s and t = t and pc = "PutStored i old", OF d(8)] PutLoaded i by (auto simp: returning_def s)
    have u: "t' = u" if "put_slot (ps_put ?s t') = Some j" "put_slot (ps_put ?s u) = Some j" for t' u j
      using that PutLoaded d(8)[of t j] d(8)[of _ j] by (auto simp: s split: if_splits)
    have p: "put_ok (pl_slots (ps_pool ?s)) (ps_put ?s v)" for v
    proof (cases "v = t")
      case True
      then show ?thesis using il by (simp add: s upd_ctx_def)
    next
      case False
      then have "put_slot (ps_put s v) \<noteq> Some i" using d(8)[of v i t] PutLoaded by auto
      then show ?thesis using False d(10)[of v] by (cases "ps_put s v") (auto simp: s upd_ctx_def)
    qed
    have "pool_inv ?s xs"
      by (rule pool_invI[OF refl _ _ _ _ _ _ _ u _ p])
        (use d r il in \<open>auto simp: s upd_ctx_def free_chain_update nth_list_update elim: get_ok.elims\<close>)
    then show ?thesis using r by simp
  next
    case (PutStored i old)
    let ?s = "put_step b t s"
    have i: "i \<in> returning s" using PutStored by (auto simp: returning_def intro!: exI[of _ t])
    have il: "i < length (pl_slots (ps_pool s))" "i \<notin> set xs" using d(4,6) i by auto
    show ?thesis
    proof (cases "pl_free_head (ps_pool s) = old \<and> \<not> b")
      case True
      have s: "?s = s\<lparr>ps_pool := (ps_pool s)\<lparr>pl_free_head := int i\<rparr>, ps_put := (ps_put s)(t := PutIdle)\<rparr>"
        using PutStored True d(1)[OF il(1)] by (simp add: put_step_def)
      have r: "returning ?s = returning s - {i}"
        using returning_upd[where s = s and t = t and pc = PutIdle, OF d(8)] PutStored by (auto simp: returning_def s)
      have n: "ic_next_free (pl_slots (ps_pool s) ! i) = old" using d(10)[of t] PutStored by simp
      have u: "t' = u" if "put_slot (ps_put ?s t') = Some j" "put_slot (ps_put ?s u) = Some j" for t' u j
        using that d(8) by (auto simp: s split: if_splits)
      have g: "get_ok (pl_slots (ps_pool ?s)) (i # xs) (ps_get ?s)" using d(9) by (cases "ps_get s") (auto simp: s)
      have "pool_inv ?s (i # xs)"
        by (rule pool_invI[OF refl _ _ _ _ _ _ _ u g]) (use d r il n i True[THEN conjunct1] in \<open>auto simp: s\<close>)
      then show ?thesis using r PutStored by auto
    next
      case False
      have s: "?s = s\<lparr>ps_put := (ps_put s)(t := PutLoaded i (pl_free_head (ps_pool s)))\<rparr>"
        using False by (auto simp: put_step_def PutStored)
      have r: "returning ?s = returning s"
        using returning_upd[where s = s and t = t and pc = "PutLoaded i (pl_free_head (ps_pool s))", OF d(8)] PutStored i by (auto simp: returning_def s)
      have u: "t' = u" if "put_slot (ps_put ?s t') = Some j" "put_slot (ps_put ?s u) = Some j" for t' u j
        using that PutStored d(8)[of t j] d(8)[of _ j] by (auto simp: s split: if_splits)
      have "pool_inv ?s xs" by (rule pool_invI[OF refl _ _ _ _ _ _ _ u]) (use d r in \<open>auto simp: s\<close>)
      then show ?thesis using r by simp
    qed
  qed
qed

section \<open>Every interleaving\<close>

definition pool_run :: "pool_event list \<Rightarrow> pool_state \<Rightarrow> pool_state" where
  "pool_run evs s = fold pool_step evs s"

text \<open>The stack the pool stands for: taking pops its first slot, giving pushes, every other access leaves it alone.\<close>

inductive stack_step :: "nat list \<times> nat set \<Rightarrow> nat list \<times> nat set \<Rightarrow> bool" where
  stay: "stack_step (xs, out) (xs, out)"
| pop: "stack_step (i # xs, out) (xs, insert i out)"
| push: "i \<in> out \<Longrightarrow> stack_step (xs, out) (i # xs, out - {i})"

definition pool_abs :: "pool_state \<Rightarrow> nat list \<times> nat set" where
  "pool_abs s = (free_list (ps_pool s), ps_held s \<union> returning s)"

lemma pool_step_length: "length (pl_slots (ps_pool (pool_step e s))) = length (pl_slots (ps_pool s))"
  by (cases e) (auto simp: get_step_def put_begin_def put_step_def upd_ctx_def split: get_pc.split put_pc.split)

lemma get_step_returning: "returning (get_step b s) = returning s"
  by (simp add: get_step_def returning_def split: get_pc.split)

lemma pool_inv_abs: "pool_inv s xs \<Longrightarrow> pool_abs s = (xs, ps_held s \<union> returning s)"
  using pool_invD(2-4)[of s xs] by (auto simp: pool_abs_def intro!: free_list_chain)

lemma pool_step_refines:
  assumes inv: "pool_inv s xs"
  shows "\<exists>ys. pool_inv (pool_step e s) ys \<and> stack_step (pool_abs s) (pool_abs (pool_step e s))"
proof (cases e)
  case (GetEv b)
  have r: "returning (get_step b s) = returning s" by (rule get_step_returning)
  from get_step_inv[OF inv, of b] show ?thesis
  proof
    assume "pool_inv (get_step b s) xs \<and> ps_held (get_step b s) = ps_held s"
    then show ?thesis using pool_inv_abs[OF inv] pool_inv_abs[of "get_step b s" xs] r GetEv by (auto intro: stack_step.stay)
  next
    assume "\<exists>i ys. xs = i # ys \<and> pool_inv (get_step b s) ys \<and> ps_held (get_step b s) = insert i (ps_held s)"
    then show ?thesis using pool_inv_abs[OF inv] pool_inv_abs[of "get_step b s"] r GetEv by (auto intro: stack_step.pop)
  qed
next
  case (PutBegin t i)
  then show ?thesis using put_begin_inv[OF inv, of t i] pool_inv_abs[OF inv] pool_inv_abs[of "put_begin t i s" xs]
    by (auto intro: stack_step.stay)
next
  case (PutEv b t)
  note h = put_step_inv(1)[OF inv, of b t]
  from put_step_inv(2)[OF inv, of b t] show ?thesis
  proof
    assume "pool_inv (put_step b t s) xs \<and> returning (put_step b t s) = returning s"
    then show ?thesis using pool_inv_abs[OF inv] pool_inv_abs[of "put_step b t s" xs] h PutEv by (auto intro: stack_step.stay)
  next
    assume "\<exists>i. put_slot (ps_put s t) = Some i \<and> pool_inv (put_step b t s) (i # xs) \<and> returning (put_step b t s) = returning s - {i}"
    then obtain i where i: "put_slot (ps_put s t) = Some i" "pool_inv (put_step b t s) (i # xs)" "returning (put_step b t s) = returning s - {i}"
      by blast
    have out: "i \<in> returning s" using i(1) by (auto simp: returning_def)
    then have "i \<notin> ps_held s" using pool_invD(7)[OF inv] by auto
    then have "ps_held s \<union> (returning s - {i}) = ps_held s \<union> returning s - {i}" by blast
    then show ?thesis using pool_inv_abs[OF inv] pool_inv_abs[OF i(2)] h i out PutEv by (auto intro!: exI[of _ "i # xs"] stack_step.push)
  qed
qed

text \<open>A pool as it is made: every slot is free, the last one first.\<close>

lemma new_chain: "n \<le> m \<Longrightarrow> free_chain (map new_ctx [0..<m]) (int n - 1) (rev [0..<n])"
  by (induction n) (auto simp: new_ctx_def)

lemma pool_start_inv:
  assumes "io_ctx_pool_init ok capacity = Some pool" "0 \<le> capacity"
  shows "pool_inv (pool_start pool) (rev [0..<nat capacity])" "length (pl_slots pool) = nat capacity"
proof -
  have p: "pool = \<lparr>pl_slots = map new_ctx [0..<nat capacity], pl_free_head = capacity - 1, pl_capacity = capacity\<rparr>"
    using assms(1) by (auto simp: io_ctx_pool_init_def split: if_splits)
  show "length (pl_slots pool) = nat capacity" by (simp add: p)
  have r: "returning (pool_start pool) = {}" by (simp add: returning_def pool_start_def)
  show "pool_inv (pool_start pool) (rev [0..<nat capacity])"
    by (rule pool_invI[OF refl]) (use r new_chain[of "nat capacity" "nat capacity"] assms(2) in
      \<open>auto simp: pool_start_def p, auto simp: new_ctx_def\<close>)
qed

lemma pool_run_inv: "pool_inv s xs \<Longrightarrow> \<exists>ys. pool_inv (pool_run evs s) ys \<and> length (pl_slots (ps_pool (pool_run evs s))) = length (pl_slots (ps_pool s))"
proof (induction evs arbitrary: s xs)
  case Nil
  then show ?case by (auto simp: pool_run_def)
next
  case (Cons e evs)
  obtain ys where "pool_inv (pool_step e s) ys" using pool_step_refines[OF Cons.prems] by blast
  from Cons.IH[OF this] show ?case by (simp add: pool_run_def pool_step_length)
qed

text \<open>
  Claim C90. The pool of contexts is safe without a lock: in every interleaving of one taker with any number of givers, each shared access being
  a step of its own and any compare-and-exchange allowed to fail, the free list, the slots out and the slots being given back are all slots of
  the pool, each once; every step acts on the free list as on a stack (it leaves it, pops its first slot or pushes a slot that was out), and a
  slot that is handed out was free, so it is never out twice.
\<close>

theorem pool_refines_stack:
  assumes "io_ctx_pool_init ok capacity = Some pool" "0 \<le> capacity"
  shows "let s = pool_run evs (pool_start pool); s' = pool_step e s; xs = free_list (ps_pool s)
    in stack_step (pool_abs s) (pool_abs s') \<and> distinct xs \<and> set xs \<union> ps_held s \<union> returning s = {..<nat capacity} \<and>
       set xs \<inter> ps_held s = {} \<and> set xs \<inter> returning s = {} \<and> ps_held s \<inter> returning s = {} \<and> ps_held s' - ps_held s \<subseteq> set (take 1 xs)"
proof -
  let ?s = "pool_run evs (pool_start pool)"
  obtain ys where inv: "pool_inv ?s ys" and len: "length (pl_slots (ps_pool ?s)) = nat capacity"
    using pool_run_inv[OF pool_start_inv(1)[OF assms]] pool_start_inv(2)[OF assms] by (auto simp: pool_start_def)
  note d = pool_invD[OF inv]
  have f: "free_list (ps_pool ?s) = ys" using pool_inv_abs[OF inv] by (simp add: pool_abs_def)
  have "ps_held (pool_step e ?s) - ps_held ?s \<subseteq> set (take 1 ys)"
  proof (cases e)
    case (GetEv b)
    then show ?thesis using get_step_inv[OF inv, of b] by auto
  next
    case (PutBegin t i)
    then show ?thesis by (auto simp: put_begin_def)
  next
    case (PutEv b t)
    then show ?thesis using put_step_inv(1)[OF inv] by simp
  qed
  then show ?thesis using d(3-7) len f pool_step_refines[OF inv, of e] by (simp add: Let_def)
qed

text \<open>Two slots, a taker that is overtaken by a giver between its accesses and fails once, then takes what was given.\<close>

theorem pool_refines_stack_witness:
  "let pool = \<lparr>pl_slots = map new_ctx [0..<2], pl_free_head = 1, pl_capacity = 2\<rparr>;
       s = pool_run [GetEv False, GetEv False, GetEv False, GetEv False, GetEv False, PutBegin 7 1, PutEv False 7, PutEv False 7, GetEv False,
         GetEv False] (pool_start pool);
       s' = pool_step (GetEv False) s
   in stack_step (pool_abs s) (pool_abs s') \<and> ps_held s' = {1} \<and> free_list (ps_pool s') = [0]"
proof -
  let ?pool = "\<lparr>pl_slots = map new_ctx [0..<2], pl_free_head = 1, pl_capacity = 2\<rparr>"
  let ?evs = "[GetEv False, GetEv False, GetEv False, GetEv False, GetEv False, PutBegin 7 1, PutEv False 7, PutEv False 7, GetEv False,
    GetEv False]"
  have i: "io_ctx_pool_init True 2 = Some ?pool" by (simp add: io_ctx_pool_init_def)
  have e: "ps_held (pool_step (GetEv False) (pool_run ?evs (pool_start ?pool))) = {1}"
    "free_list (ps_pool (pool_step (GetEv False) (pool_run ?evs (pool_start ?pool)))) = [0]"
    by (simp_all add: pool_run_def pool_start_def get_step_def get_test_def put_begin_def put_step_def upd_ctx_def new_ctx_def free_list_def
        numeral_2_eq_2)
  show ?thesis using pool_refines_stack[OF i, of ?evs "GetEv False"] e by (simp add: Let_def)
qed

section \<open>Uninterrupted calls\<close>

text \<open>A call that no other thread interrupts is the sequence of its accesses.\<close>

lemma get_alone:
  "ps_get s = GetIdle \<Longrightarrow> pool_run [GetEv False, GetEv False, GetEv False] s =
    (case io_ctx_pool_get (ps_pool s) of None \<Rightarrow> s | Some (i, pool) \<Rightarrow> s\<lparr>ps_pool := pool, ps_held := insert i (ps_held s)\<rparr>)"
  by (simp add: pool_run_def get_step_def get_test_def io_ctx_pool_get_def Let_def)

lemma put_alone:
  assumes "i \<in> ps_held s" "ps_put s t = PutIdle" "i < length (pl_slots (ps_pool s))"
  shows "pool_run [PutBegin t i, PutEv False t, PutEv False t] s = s\<lparr>ps_pool := io_ctx_pool_put i (ps_pool s), ps_held := ps_held s - {i}\<rparr>"
proof -
  have "(ps_put s)(t := PutIdle) = ps_put s" using assms(2) by auto
  then show ?thesis using assms by (simp add: pool_run_def put_begin_def put_step_def io_ctx_pool_put_def upd_ctx_def)
qed

text \<open>The invariant of a pool nobody is using: \<open>xs\<close> free, \<open>out\<close> handed out.\<close>

definition pool_ok :: "io_ctx_pool \<Rightarrow> nat list \<Rightarrow> nat set \<Rightarrow> bool" where
  "pool_ok pool xs out \<longleftrightarrow> pool_inv \<lparr>ps_pool = pool, ps_get = GetIdle, ps_put = (\<lambda>_. PutIdle), ps_held = out\<rparr> xs"

lemma pool_okD:
  assumes "pool_ok pool xs out"
  shows "distinct xs" "set xs \<union> out = {..<length (pl_slots pool)}" "set xs \<inter> out = {}" "finite out"
proof -
  note d = pool_invD[OF assms[unfolded pool_ok_def]]
  show "distinct xs" using d(3) .
  show e: "set xs \<union> out = {..<length (pl_slots pool)}" using d(4) by (simp add: returning_def)
  show "set xs \<inter> out = {}" using d(5) by simp
  show "finite out" by (rule finite_subset[of _ "{..<length (pl_slots pool)}"]) (use e in auto)
qed

lemma pool_ok_get:
  assumes "pool_ok pool xs out"
  shows "io_ctx_pool_get pool = (case xs of [] \<Rightarrow> None | i # ys \<Rightarrow> Some (i, pool\<lparr>pl_free_head := ic_next_free (pl_slots pool ! i)\<rparr>))"
    "xs = i # ys \<Longrightarrow> pool_ok (pool\<lparr>pl_free_head := ic_next_free (pl_slots pool ! i)\<rparr>) ys (insert i out)"
proof -
  note d = pool_invD[OF assms[unfolded pool_ok_def]]
  show "io_ctx_pool_get pool = (case xs of [] \<Rightarrow> None | i # ys \<Rightarrow> Some (i, pool\<lparr>pl_free_head := ic_next_free (pl_slots pool ! i)\<rparr>))"
    using d(2) by (cases xs) (auto simp: io_ctx_pool_get_def)
  show "pool_ok (pool\<lparr>pl_free_head := ic_next_free (pl_slots pool ! i)\<rparr>) ys (insert i out)" if "xs = i # ys"
    unfolding pool_ok_def by (rule pool_invI[OF refl]) (use d that in \<open>auto simp: returning_def\<close>)
qed

lemma pool_ok_put:
  assumes ok: "pool_ok pool xs out" and i: "i \<in> out"
  shows "pool_ok (io_ctx_pool_put i pool) (i # xs) (out - {i})"
proof -
  note d = pool_invD[OF ok[unfolded pool_ok_def]]
  have il: "i < length (pl_slots pool)" "i \<notin> set xs" using d(4,5) i by (auto simp: returning_def)
  show ?thesis unfolding pool_ok_def
    by (rule pool_invI[OF refl])
      (use d il i in \<open>auto simp: io_ctx_pool_put_def upd_ctx_def free_chain_update returning_def nth_list_update\<close>)
qed

text \<open>The owner of a slot may fill in everything but the two fields of the list.\<close>

lemma pool_ok_upd:
  assumes ok: "pool_ok pool xs out" and f: "\<And>c. ic_next_free (f c) = ic_next_free c" "\<And>c. ic_pool_idx (f c) = ic_pool_idx c"
  shows "pool_ok (upd_ctx i f pool) xs out"
proof -
  note d = pool_invD[OF ok[unfolded pool_ok_def]]
  have n: "ic_next_free ((pl_slots pool)[i := f (pl_slots pool ! i)] ! j) = ic_next_free (pl_slots pool ! j)" for j
    using f(1) by (simp add: nth_update_if)
  have "free_chain ((pl_slots pool)[i := f (pl_slots pool ! i)]) (pl_free_head pool) xs"
    using d(2) free_chain_cong[of xs, OF n] by simp
  then show ?thesis unfolding pool_ok_def
    by (intro pool_invI[OF refl]) (use d f(2) in \<open>auto simp: upd_ctx_def returning_def nth_update_if\<close>)
qed

lemma io_ctx_pool_put_length [simp]: "length (pl_slots (io_ctx_pool_put i pool)) = length (pl_slots pool)"
  by (simp add: io_ctx_pool_put_def upd_ctx_def)

lemma upd_ctx_length [simp]: "length (pl_slots (upd_ctx i f pool)) = length (pl_slots pool)"
  by (simp add: upd_ctx_def)

end
