(* ===== verification/Spec2Isabelle.thy ===== *)
theory Spec2Isabelle
  imports Copy_Tasks Hash_Tool Managed_Buffers Bffio_Jobs Bffio_Stats Bffio_Pool
begin

text \<open>
  A verification library for AuraIO (src/), an asynchronous I/O library over \<^verbatim>\<open>io_uring\<close> that tunes itself, and for
  the tools built on it.

  \<^bold>\<open>The program.\<close> An engine owns several rings, a pool of aligned buffers and two registries, one of buffers and one of
  files. A submission picks a ring, takes its lock and a request slot, prepares an SQE and flushes it when the batch
  threshold is met. Completions are drained from the rings by poll, wait, run and drain, which retire the slots, call the
  callbacks and record latencies. A controller per ring is ticked every 10 ms and moves the in-flight limit and the batch
  threshold. The tools are clients of the engine with a pipeline of buffers each.

  \<^bold>\<open>Which theory models what.\<close> Names follow the source.
  \<^item> \<open>Aura_Prelude\<close>: C conversions, errno values, generic list lemmas.
  \<^item> \<open>Latency_Histogram\<close>: the tiered histogram of \<^verbatim>\<open>adaptive_engine.h\<close> (tiers, buckets, P99 scan, active and inactive copy).
  \<^item> \<open>Adaptive_Controller\<close>: \<^verbatim>\<open>adaptive_engine.c\<close>; the controller record, the sampling windows, the seven phases, \<open>adaptive_tick\<close>.
  \<^item> \<open>Ring\<close>, \<open>Ring_Completion\<close>, \<open>Ring_Fixed_Use\<close>: \<^verbatim>\<open>adaptive_ring.c\<close>; a ring is a record of its slots, free stack, SQEs queued
    and sent, counters, its two locks as numbers of outstanding acquisitions, and its controller. Ring creation with its
    retries, the fifteen submission operations, flush, both drains, wait, destruction.
  \<^item> \<open>Buffer_Size_Map\<close>, \<open>Buffer_Pool\<close>: \<^verbatim>\<open>adaptive_buffer.c\<close>; the hash table from buffers to size classes, shards, thread caches.
  \<^item> \<open>Engine_Core\<close>, \<open>Engine_Submission\<close>: ring selection, the latched error, the submission functions, cancellation and links of \<^verbatim>\<open>aura.c\<close>.
  \<^item> \<open>Engine_Registration\<close>: registration of buffers and files with every ring, with undo, update and deferred unregistration.
  \<^item> \<open>Engine_Events\<close>, \<open>Event_Invariants\<close>: flush, poll, wait, run, stop, drain and unregister over all rings.
  \<^item> \<open>Engine_Lifecycle\<close>: options, creation in five stages with undo, the tick thread, destruction in four phases.
  \<^item> \<open>Latency_Percentile\<close>, \<open>Engine_Stats\<close>: histogram snapshots with their percentiles, the statistics queries and the setters of \<^verbatim>\<open>aura.c\<close>.
  \<^item> \<open>Buffer_Classes\<close>, \<open>Managed_Buffers\<close>: \<open>aura_buffer_alloc\<close> and \<open>aura_buffer_free\<close>, the pool and the size map together.
  \<^item> \<open>Copy_Pipeline\<close>, \<open>Copy_Correct\<close>, \<open>Copy_Tasks\<close>: the copy tool \<^verbatim>\<open>auracp.c\<close>.
  \<^item> \<open>Tool_Common\<close>, \<open>Hash_Pipeline\<close>, \<open>Hash_Correct\<close>, \<open>Hash_Tool\<close>: the checksum tool \<^verbatim>\<open>aura-hash.c\<close>, with what the tools share.
  \<^item> \<open>Bffio_Jobs\<close>, \<open>Bffio_Stats\<close>: the benchmark BFFIO, its jobs (\<^verbatim>\<open>job_parser.c\<close>) and its statistics (\<^verbatim>\<open>stats.c\<close>).
  \<^item> this theory: histories of calls on a whole engine.

  \<^bold>\<open>How it is modelled.\<close> Structs are records, enums are datatypes, operations pass the state explicitly. \<^verbatim>\<open>uint32_t\<close> and
  \<^verbatim>\<open>uint64_t\<close> values whose wrap-around matters are words, C \<^verbatim>\<open>int\<close> values are integers whose bounds are proved, doubles are
  reals with \<open>None\<close> for NaN. A function that fails returns \<open>Inl\<close> of its errno. Answers of the kernel, of the allocator, of
  the clock and of callbacks are arguments of the definitions, so a theorem holds for all of them; what is asked of them
  is a hypothesis of the theorem (\<open>cqes_valid\<close>: the kernel completes what it was given; \<open>sound_run\<close>: a read returns bytes
  of the file). Each operation runs to its end as one step; that is what the ring and pool locks give, and the lemmas
  on the lock counts show that they are released. The pairs of atomic counters that are read without a lock are
  read at one point.

  \<^bold>\<open>What the lemmas show.\<close> Controller: the limit stays in bounds, follows the AIMD law and the phase diagram, and the
  liveness of engaging and backing off. Rings: every slot is free, held or pending, exactly once, through all operations; the
  batched and the inline drain agree. Buffers: the hash table refines a partial map; no buffer is handed out twice or lost.
  Engine: every call gives back the locks it took, the kernel tables of the
  rings agree, a registration is dropped only when unused, loops end, creation and destruction are balanced; the
  paths on which this fails are theorems too. Copy tool: a copy without error is the source, and it ends. Checksum
  tool: whatever the order of reads and workers, each line is the digest of its file; the pipeline ends; lines can be read back.
  Statistics: what a query reports are the totals over the rings. Managed buffers: a buffer handed out is large enough and nobody else's.
  Benchmark: a job file gives the jobs its sections stand for, jobs are in range, aggregation over workers loses nothing. The
  locales are \<open>slot_pool\<close>, \<open>completion_callback\<close>, \<open>counting_callback\<close>, \<open>size_table\<close>, \<open>fixed_registry\<close>, \<open>event_invariant\<close>,
  \<open>event_loop_invariant\<close> and \<open>stat_field\<close>; each is interpreted on the definitions of the model.

  \<^bold>\<open>Bounds and fuel.\<close> Loops of the code that wait for the kernel (\<open>run\<close>, \<open>drain\<close>, \<open>wait\<close>, the tool pipelines) run over a list of
  rounds, one for each pass of the loop with the answers the pass gets; \<open>None\<close> says that the list ended and the loop is still
  waiting. The termination theorems say how many rounds are enough: \<open>RUN_DRAIN_LIMIT\<close> (100) for the event loop after a
  stop, 100 for the drain of a ring at its destruction, three for each chunk and one for each file for a copy, one
  for each chunk for a checksum.
  The other loops are total functions with a measure (the scan of a hash table, the spins over slots).

  \<^bold>\<open>Not modelled.\<close> Logging (\<^verbatim>\<open>log.c\<close>) and the exporters under integrations/ format text. The C++ and Rust bindings wrap the C interface.
  The directory and copy benchmarks \<^verbatim>\<open>atree.c\<close> and \<^verbatim>\<open>sspa.c\<close> and the output of BFFIO format what they measure. NULL tests of an engine argument, the memory
  order of atomics and the interleaving of two threads inside one operation are left out: the code relies on its locks
  there. The
  digest library of \<^verbatim>\<open>aura-hash\<close> is a parameter with the law that it takes its input in pieces. Progress bars, time stamps and verbose
  statistics of the tools print only.
\<close>

section \<open>The whole engine\<close>

text \<open>
  A history of a shared engine (several threads may use any ring): creation, then any sequence
  of submissions, cancellations, event processing, registration calls, controller ticks and tuning calls, each run
  to its end; queries leave the engine as it was. The one submission left out is the registered-buffer operation with an invalid
  registered-file index.
\<close>

inductive engine_history :: "completion_fn \<Rightarrow> reg_state \<Rightarrow> bool" for cb where
  created: "aura_create_with_options env eid thr (Some opt) w = (Inr h, w') \<Longrightarrow>
    opt_ring_select opt \<noteq> AURA_SELECT_THREAD_LOCAL \<Longrightarrow> \<not> opt_single_thread opt \<Longrightarrow>
    engine_history cb \<lparr>rs_engine = h_engine h, k_buffers = replicate (ring_count (h_engine h)) None,
      k_files = replicate (ring_count (h_engine h)) None\<rparr>"
| submitted: "engine_history cb s \<Longrightarrow>
    \<forall>c \<in> set (rings (rs_engine s)). cqes_valid c (sv_cq env) (sv_arrivals env) \<Longrightarrow>
    \<not> bad_fixed_index (rs_engine s) sub \<Longrightarrow> run_submission cb env f ud t (rs_engine s) sub = Some (r, t', e') \<Longrightarrow>
    engine_history cb (s\<lparr>rs_engine := e'\<rparr>)"
| cancelled: "engine_history cb s \<Longrightarrow> aura_cancel env rp t (rs_engine s) = (r, t', e') \<Longrightarrow>
    engine_history cb (s\<lparr>rs_engine := e'\<rparr>)"
| processed: "engine_history cb s \<Longrightarrow> event_ok (\<lambda>i. cqes_valid (rings (rs_engine s) ! i)) call \<Longrightarrow>
    run_event cb call (t, s) = Some (t', s') \<Longrightarrow> engine_history cb s'"
| buffers: "engine_history cb s \<Longrightarrow> engine_history cb (snd (aura_register_buffers m ret iovs s))"
| files: "engine_history cb s \<Longrightarrow> engine_history cb (snd (aura_register_files m ret fds s))"
| updated: "engine_history cb s \<Longrightarrow> engine_history cb (snd (aura_update_file ret rb index fd s))"
| requested: "engine_history cb s \<Longrightarrow> engine_history cb (snd (aura_request_unregister ty s))"
| ticked: "engine_history cb s \<Longrightarrow> engine_history cb (upd_engine (tick_rings clk) s)"
| tuned: "engine_history cb s \<Longrightarrow> (r, e') \<in> {aura_set_max_p99_latency x (rs_engine s), aura_set_min_in_flight m (rs_engine s),
      aura_set_batch_threshold b (rs_engine s)} \<Longrightarrow> engine_history cb (s\<lparr>rs_engine := e'\<rparr>)"

text \<open>The invariant: rings shared and quiet, no lock held, registrations in step, sizes bounded.\<close>

definition engine_ok :: "reg_state \<Rightarrow> bool" where
  "engine_ok s \<longleftrightarrow> shared_engine (rs_engine s) \<and> (\<forall>c \<in> set (rings (rs_engine s)). quiet_ring c \<and> max_requests c \<le> 32768) \<and>
     ring_count (rs_engine s) \<le> 1024 \<and> reg_readers (rs_engine s) = 0 \<and> reg_writers (rs_engine s) = 0 \<and> reg_reach s"

lemma settled_ok:
  assumes "engine_ok s" "list_all2 settled (rings (rs_engine s)) (rings (rs_engine s'))"
    "ring_select (rs_engine s') = ring_select (rs_engine s)" "reg_readers (rs_engine s') = 0" "reg_writers (rs_engine s') = 0" "reg_reach s'"
  shows "engine_ok s'"
proof -
  have n: "ring_count (rs_engine s') = ring_count (rs_engine s)" using assms(2) by (simp add: list_all2_lengthD)
  have r: "shared_ring (rings (rs_engine s') ! i) \<and> quiet_ring (rings (rs_engine s') ! i) \<and>
      max_requests (rings (rs_engine s') ! i) \<le> 32768" if "i < ring_count (rs_engine s)" for i
  proof -
    let ?c = "rings (rs_engine s) ! i"
    have "settled ?c (rings (rs_engine s') ! i)" using assms(2) that by (simp add: list_all2_nthD)
    moreover have "shared_ring ?c" "quiet_ring ?c" "max_requests ?c \<le> 32768"
      using assms(1) that by (auto simp: engine_ok_def shared_engine_def)
    ultimately show ?thesis using settled_shared[of ?c] quiet_settled[of ?c] by (auto simp: settled_def ring_frame_def)
  qed
  have "\<forall>c \<in> set (rings (rs_engine s')). shared_ring c \<and> quiet_ring c \<and> max_requests c \<le> 32768"
    using r n by (metis in_set_conv_nth)
  then show ?thesis using assms n by (auto simp: engine_ok_def shared_engine_def)
qed

lemma engine_work_ok:
  assumes "engine_ok s" "settled_engine (rs_engine s) e'" "fatal_submit_errno (rs_engine s) \<noteq> 0 \<Longrightarrow> fatal_submit_errno e' \<noteq> 0"
  shows "engine_ok (s\<lparr>rs_engine := e'\<rparr>)"
proof (rule settled_ok[OF assms(1)])
  have f: "engine_frame e' = engine_frame (rs_engine s)" "list_all2 settled (rings (rs_engine s)) (rings e')"
    using assms(2) by (simp_all add: settled_engine_def)
  then have "reg_untouched s e'" using assms(3) by (intro untouched_steps) (auto dest: list_all2_lengthD)
  then show "reg_reach (s\<lparr>rs_engine := e'\<rparr>)" using assms(1) reg_reach.engine_work by (simp add: engine_ok_def)
qed (use assms in \<open>auto simp: settled_engine_def engine_frame_def engine_ok_def\<close>)

lemma tick_ring_settled: "ring_inv 0 c \<Longrightarrow> settled c (tick_ring clk c)"
proof -
  assume c: "ring_inv 0 c"
  have v: "ring_frame (tick_ring clk c) = ring_frame c" "held_slots (tick_ring clk c) = held_slots c"
    "ring_inv 0 (tick_ring clk c) = ring_inv 0 c" "uses_view (tick_ring clk c) = uses_view c"
    by (simp_all add: tick_ring_def Let_def case_prod_beta ring_frame_def held_slots_def free_slots_def pending_slots_def ring_inv_def
        slots_wf_def uses_view_def)
  have "length (requests c) = max_requests c" using c by (simp add: ring_inv_def slots_wf_def)
  then show ?thesis using c v uses_view_ok[OF v(4)] by (simp add: settled_def)
qed

lemma tick_settled: "shared_engine e \<Longrightarrow> settled_engine e (tick_rings clk e) \<and> fatal_submit_errno (tick_rings clk e) = fatal_submit_errno e"
  by (auto simp: settled_engine_def tick_rings_def Let_def engine_frame_def list_all2_conv_all_nth shared_engine_def shared_ring_def
      intro!: tick_ring_settled)


lemma tuned_settled: "shared_engine e \<Longrightarrow> settled_engine e (e\<lparr>rings := map (tuned f) (rings e)\<rparr>)"
proof -
  have "settled c (tuned f c)" if "ring_inv 0 c" for c
  proof -
    have "ring_inv 0 (tuned f c) = ring_inv 0 c" "ring_frame (tuned f c) = ring_frame c" "held_slots (tuned f c) = held_slots c" "uses_view (tuned f c) = uses_view c"
      by (simp_all add: tuned_def ring_inv_def slots_wf_def free_slots_def pending_slots_def ring_frame_def held_slots_def uses_view_def)
    moreover have "length (requests c) = max_requests c" using that by (simp add: ring_inv_def slots_wf_def)
    ultimately show ?thesis using that uses_view_ok[of "tuned f c" c] by (simp add: settled_def)
  qed
  then show "shared_engine e \<Longrightarrow> ?thesis"
    by (auto simp: settled_engine_def engine_frame_def list_all2_conv_all_nth shared_engine_def shared_ring_def)
qed

lemma cancel_fatal:
  assumes "fatal_submit_errno e \<noteq> 0" "aura_cancel env rp t e = (r, t', e')"
  shows "fatal_submit_errno e' \<noteq> 0"
proof -
  have s: "fatal_submit_errno (set_ring i c e) = fatal_submit_errno e" for i c by (simp add: set_ring_def)
  have l: "fatal_submit_errno (latch_fatal_submit_errno err (set_ring i c e)) \<noteq> 0" for err i c by (rule latch_fatal_nonzero)
  show ?thesis using assms s l
    by (auto simp: aura_cancel_def Let_def split: if_splits option.splits prod.splits sum.splits)
qed

text \<open>A registration call changes neither the rings nor the locks.\<close>

lemma registration_frame:
  "rings (rs_engine (snd (aura_register_buffers m ret iovs s))) = rings (rs_engine s)"
  "loop_frame (rs_engine (snd (aura_register_buffers m ret iovs s))) = loop_frame (rs_engine s)"
  "rings (rs_engine (snd (aura_register_files m ret fds s))) = rings (rs_engine s)"
  "loop_frame (rs_engine (snd (aura_register_files m ret fds s))) = loop_frame (rs_engine s)"
  "rings (rs_engine (snd (aura_update_file ret rb index fd s))) = rings (rs_engine s)"
  "loop_frame (rs_engine (snd (aura_update_file ret rb index fd s))) = loop_frame (rs_engine s)"
  by (auto simp: aura_register_buffers_def aura_register_files_def aura_update_file_def Let_def upd_engine_def reg_wrlock_def
      reg_wrunlock_def loop_frame_def latch_fatal_submit_errno_def split: sum.split prod.split)

lemma registration_ok:
  assumes "engine_ok s" "rings (rs_engine s') = rings (rs_engine s)" "loop_frame (rs_engine s') = loop_frame (rs_engine s)" "reg_reach s'"
  shows "engine_ok s'"
proof (rule settled_ok[OF assms(1)])
  have "settled c c" if "c \<in> set (rings (rs_engine s))" for c
    using assms(1) that by (auto simp: engine_ok_def quiet_ring_def intro: settled_refl)
  then show "list_all2 settled (rings (rs_engine s)) (rings (rs_engine s'))"
    using assms(2) by (simp add: list_all2_same)
qed (use assms in \<open>auto simp: loop_frame_def engine_ok_def\<close>)

lemma created_ok:
  assumes "aura_create_with_options env eid thr (Some opt) w = (Inr h, w')"
    "opt_ring_select opt \<noteq> AURA_SELECT_THREAD_LOCAL" "\<not> opt_single_thread opt"
  shows "engine_ok \<lparr>rs_engine = h_engine h, k_buffers = replicate (ring_count (h_engine h)) None,
      k_files = replicate (ring_count (h_engine h)) None\<rparr>"
  using created_wellformed[OF assms(1)] assms(2,3)
  by (auto simp: engine_ok_def Let_def in_set_conv_nth ring_depth_ok_def)

lemma engine_history_ok:
  assumes "counting_callback cb" "engine_history cb s"
  shows "engine_ok s"
  using assms(2)
proof (induction rule: engine_history.induct)
  case (created env eid thr opt w h w')
  then show ?case by (rule created_ok)
next
  case (submitted s env sub f ud t r t' e')
  have sh: "shared_engine (rs_engine s)" using submitted.IH by (simp add: engine_ok_def)
  obtain res where "run_submission cb env f ud t (rs_engine s) sub = Some res" "delivers f ud (rs_engine s) res"
    using run_submission_delivers[OF assms(1) sh submitted.hyps(2,3), of f ud t] by blast
  then have "settled_engine (rs_engine s) e'" using submitted.hyps(4) by (auto simp: delivers_def)
  moreover have "fatal_submit_errno (rs_engine s) \<noteq> 0 \<Longrightarrow> e' = rs_engine s"
    using run_submission_refused[of "rs_engine s" t cb env f ud sub] submitted.hyps(4) by (auto simp: refuses_def)
  ultimately show ?case using engine_work_ok[OF submitted.IH] by blast
next
  case (cancelled s env rp t r t' e')
  have "shared_engine (rs_engine s)" using cancelled.IH by (simp add: engine_ok_def)
  from engine_work_ok[OF cancelled.IH cancel_settled[OF this cancelled.hyps(2)]] show ?case
    using cancel_fatal[OF _ cancelled.hyps(2)] by blast
next
  case (processed s call t t' s')
  have q: "\<forall>c \<in> set (rings (rs_engine s)). ring_inv 0 c \<and> ring_initialized c"
    using processed.IH by (auto simp: engine_ok_def quiet_ring_def)
  have "list_all2 settled (rings (rs_engine s)) (rings (rs_engine s'))"
    using counting_callback.event_settles[OF assms(1) q processed.hyps(2,3)] by simp
  moreover have "reg_reach s'" using reach.event_keeps[OF _ event_ok_True processed.hyps(3)] processed.IH by (simp add: engine_ok_def)
  moreover have "loop_frame (rs_engine s') = loop_frame (rs_engine s)"
    using loop.event_keeps[OF _ event_ok_True processed.hyps(3)] by simp
  ultimately show ?case using settled_ok[OF processed.IH] processed.IH by (simp add: loop_frame_def engine_ok_def)
next
  case (buffers s m ret iovs)
  then show ?case using registration_ok[OF buffers.IH] registration_frame(1,2) reg_reach.register_buffers by (simp add: engine_ok_def)
next
  case (files s m ret fds)
  then show ?case using registration_ok[OF files.IH] registration_frame(3,4) reg_reach.register_files by (simp add: engine_ok_def)
next
  case (updated s ret rb index fd)
  then show ?case using registration_ok[OF updated.IH] registration_frame(5,6) reg_reach.update_file by (simp add: engine_ok_def)
next
  case (requested s ty)
  then show ?case using registration_ok[OF requested.IH rings_request request_frame] reg_reach.request by (simp add: engine_ok_def)
next
  case (ticked s clk)
  have "shared_engine (rs_engine s)" using ticked.IH by (simp add: engine_ok_def)
  note t = tick_settled[OF this, of clk]
  show ?case using engine_work_ok[OF ticked.IH t[THEN conjunct1]] t by (simp add: upd_engine_def)
next
  case (tuned s r e' x m b)
  from tuned.hyps(2) show ?case
  proof (cases rule: setter_results)
    case 1
    then show ?thesis using tuned.IH by simp
  next
    case (2 f)
    have "shared_engine (rs_engine s)" using tuned.IH by (simp add: engine_ok_def)
    from engine_work_ok[OF tuned.IH tuned_settled[OF this, of f]] 2(2) show ?thesis by simp
  qed
qed




section \<open>A concrete history\<close>

definition fresh_state :: "engine_handle \<Rightarrow> reg_state" where
  "fresh_state h = \<lparr>rs_engine = h_engine h, k_buffers = replicate (ring_count (h_engine h)) None,
     k_files = replicate (ring_count (h_engine h)) None\<rparr>"

lemma demo_history:
  obtains h where "engine_history read_next (fresh_state h)" "fatal_submit_errno (h_engine h) = 0"
    "\<not> files_registered (h_engine h)" "\<not> files_unreg_pending (h_engine h)" "\<not> has_pending (h_engine h)"
proof -
  obtain h w' where c: "aura_create_with_options demo_create_env 1 0 (Some demo_options) new_world = (Inr h, w')"
    "opt_ring_select demo_options \<noteq> AURA_SELECT_THREAD_LOCAL" "\<not> opt_single_thread demo_options"
    by (rule demo_created)
  have "engine_history read_next (fresh_state h)" unfolding fresh_state_def by (rule engine_history.created[OF c])
  moreover have "files_ok (fresh_state h)" "rings (h_engine h) \<noteq> []" "\<not> has_pending (h_engine h)" "fatal_submit_errno (h_engine h) = 0"
    using reg_reach_inv[of "fresh_state h"] created_wellformed[OF c(1)] by (auto simp: Let_def fresh_state_def has_pending_def list_ex_length)
  ultimately show thesis using that by (auto simp: registry_defs fresh_state_def split: if_splits)
qed



lemma register_rings_accepts: "(\<And>i. ret i \<ge> 0) \<Longrightarrow> fst (register_rings ret x n i ks) = Inr ()"
  by (induction n arbitrary: i ks) (simp_all add: not_less)


end
